(* ===== verification/Prelude.thy ===== *)
theory Prelude
  imports Main "HOL-Library.Word" "HOL-Library.Multiset" "HOL-Library.Monad_Syntax"
begin

text \<open>
  Shared vocabulary of the development: the C integer types as words, pointers, arrays with
  bounds, and the lemmas on words, lists and options that the component theories use.

  A C computation that may touch memory is an \<open>option\<close> value: \<open>None\<close> stands for undefined
  behaviour (a null or dangling pointer dereferenced, an array indexed out of range, an
  indeterminate cell read) or, for a loop, for not returning.
\<close>

unbundle bit_operations_syntax

named_theorems word_conv \<open>facts that move word arithmetic to natural numbers\<close>
named_theorems step_defs \<open>definitions of the operations, to be unfolded one layer at a time\<close>

type_synonym u8 = "8 word"
type_synonym u32 = "32 word"
type_synonym u64 = "64 word"

text \<open>A pointer to an object of a store; 0 is never the address of an object.\<close>

type_synonym ptr = nat

section \<open>Arrays\<close>

text \<open>
  An allocated array is a list of cells; \<open>None\<close> is an indeterminate cell. Reading out of range
  or reading an indeterminate cell has no result, writing out of range has no result.
\<close>

definition aget :: "'a option list \<Rightarrow> nat \<Rightarrow> 'a option" where
  "aget xs i = (if i < length xs then xs ! i else None)"

definition aset :: "'a option list \<Rightarrow> nat \<Rightarrow> 'a \<Rightarrow> 'a option list option" where
  "aset xs i v = (if i < length xs then Some (xs[i := Some v]) else None)"

text \<open>\<open>realloc\<close> keeps the old cells and leaves the new ones indeterminate; it may fail.\<close>

definition realloc_cells :: "bool \<Rightarrow> 'a option list \<Rightarrow> nat \<Rightarrow> 'a option list option" where
  "realloc_cells ok xs k = (if ok then Some (take k xs @ replicate (k - length xs) None) else None)"

lemma aget_Some: "aget xs i = Some v \<longleftrightarrow> i < length xs \<and> xs ! i = Some v"
  by (simp add: aget_def)

lemma aset_Some: "aset xs i v = Some ys \<longleftrightarrow> i < length xs \<and> ys = xs[i := Some v]"
  by (auto simp: aset_def)

lemma aget_aset: "aset xs i v = Some ys \<Longrightarrow> aget ys j = (if j = i then Some v else aget xs j)"
  by (auto simp: aset_def aget_def split: if_splits)

lemma length_aset: "aset xs i v = Some ys \<Longrightarrow> length ys = length xs"
  by (auto simp: aset_def split: if_splits)

section \<open>Words\<close>

lemma unat_less_2p32: "unat (w :: u32) < 4294967296"
  using unsigned_less [of w, where 'a = nat] by simp

lemma unat_less_2p64: "unat (w :: u64) < 18446744073709551616"
  using unsigned_less [of w, where 'a = nat] by simp

lemma unat_add_no_wrap [word_conv]:
  "unat a + unat b < 4294967296 \<Longrightarrow> unat (a + b :: u32) = unat a + unat b"
  by (simp add: unat_word_ariths)

lemma unat_Suc_no_wrap [word_conv]:
  "unat a < 4294967295 \<Longrightarrow> unat (a + 1 :: u32) = unat a + 1"
  by (simp add: unat_word_ariths)

lemma unat_pred [word_conv]: "a \<noteq> 0 \<Longrightarrow> unat (a - 1 :: u32) = unat a - 1"
  by (simp add: unat_minus_one)

lemma unat_of_nat_u32 [word_conv]: "k < 4294967296 \<Longrightarrow> unat (of_nat k :: u32) = k"
  by (simp add: unat_of_nat)

lemma u32_eq_iff: "(a :: u32) = b \<longleftrightarrow> unat a = unat b"
  by (simp add: word_unat_eq_iff)

lemma unat_sub_mod_u32: "unat (a - b :: u32) = (unat a + 4294967296 - unat b) mod 4294967296"
proof (cases "unat b \<le> unat a")
  case True
  then have "unat a + 4294967296 - unat b = (unat a - unat b) + 4294967296"
    by simp
  then have "(unat a + 4294967296 - unat b) mod 4294967296 = unat a - unat b"
    using unat_less_2p32 [of a] by (simp only: mod_add_self2) simp
  then show ?thesis
    using True unat_sub [of b a] by (simp add: word_le_nat_alt)
next
  case False
  then show ?thesis
    using unat_sub_if' [of a b] unat_less_2p32 [of b] by simp
qed

lemma of_nat_less_u32:
  "a < 4294967296 \<Longrightarrow> b < 4294967296 \<Longrightarrow> (of_nat a :: u32) < of_nat b \<longleftrightarrow> a < b"
  by (simp add: word_less_nat_alt unat_of_nat_u32)

lemma and_mask_word: "unat (w AND (2 ^ k - 1) :: 'a::len word) = unat w mod 2 ^ k"
proof -
  have "w AND (2 ^ k - 1) = take_bit k w"
    by (simp add: take_bit_eq_mask mask_eq_exp_minus_1)
  then show ?thesis
    by (simp add: unsigned_take_bit_eq) (simp add: take_bit_eq_mod)
qed

lemma and_3_u32: "unat (w AND 3 :: u32) = unat w mod 4"
  using and_mask_word [of w 2] by simp

lemma and_not_3_u32: "unat (w AND NOT 3 :: u32) = 4 * (unat w div 4)"
proof -
  have "NOT w AND (w AND 3) = 0"
    by (simp add: and.assoc [symmetric])
  then have "w - (w AND 3) = w AND NOT (w AND 3)"
    by (rule disjunctive_diff_eq_and_not)
  also have "\<dots> = w AND NOT 3"
    by (simp add: bit.de_Morgan_conj bit.conj_disj_distrib)
  finally have "w AND NOT 3 = w - (w AND 3)" ..
  moreover have "w AND 3 \<le> w" by (simp add: word_le_nat_alt and_3_u32)
  ultimately show ?thesis 
   by (simp add: unat_sub and_3_u32 minus_mod_eq_mult_div)
qed

text \<open>The slots of a circular buffer of \<open>sz\<close> cells are distinct within one turn.\<close>

lemma mod_window_le:
  fixes s i j sz :: nat
  assumes "(s + i) mod sz = (s + j) mod sz" "i < sz" "j \<le> i"
  shows "i = j"
proof -
  have "sz dvd (s + i) - (s + j)"
    using assms by (intro mod_eq_dvd_iff_nat [THEN iffD1]) auto
  then show ?thesis using assms(2,3) nat_dvd_not_less [of "i - j" sz] by (cases "j < i") auto
qed

lemma mod_window_inj:
  fixes s i j sz :: nat
  assumes "i < sz" "j < sz"
  shows "(s + i) mod sz = (s + j) mod sz \<longleftrightarrow> i = j"
  using mod_window_le [of s i sz j] mod_window_le [of s j sz i] assms by (cases "j \<le> i") auto

lemma all_less_4: "(\<forall>i < 4. P i) \<longleftrightarrow> P 0 \<and> P 1 \<and> P 2 \<and> P (3 :: nat)"
  by (auto simp: less_Suc_eq numeral_eq_Suc)

end
