(* ===== verification/HeapOrder.thy ===== *)
theory HeapOrder
  imports Prelude
begin

text \<open>
  Reference sift functions on plain lists, for the loops of \<^verbatim>\<open>timer/minheap.c\<close>. A list with a
  hole at position \<open>i\<close> is the list itself with the cell \<open>i\<close> disregarded; the element to be
  placed is carried apart, as in the code. Both functions keep the multiset of elements and
  turn a list that is ordered except around the hole into an ordered one.
\<close>

section \<open>Reference functions\<close>

definition par :: "nat \<Rightarrow> nat" where
  "par i = (i - 1) div 2"

definition heap_ordered :: "(ptr \<Rightarrow> u32) \<Rightarrow> ptr list \<Rightarrow> bool" where
  "heap_ordered k qs \<longleftrightarrow> (\<forall>i. 0 < i \<and> i < length qs \<longrightarrow> k (qs ! par i) \<le> k (qs ! i))"

lemma par_less: "0 < i \<Longrightarrow> par i < i"
  by (auto simp: par_def)

function sift_up :: "(ptr \<Rightarrow> u32) \<Rightarrow> ptr list \<Rightarrow> nat \<Rightarrow> ptr \<Rightarrow> ptr list" where
  "sift_up k qs i e =
     (if 0 < i \<and> k (qs ! par i) > k e then sift_up k (qs[i := qs ! par i]) (par i) e
      else qs[i := e])"
  by pat_completeness auto
termination
  by (relation "measure (\<lambda>(k, qs, i, e). i)") (auto simp: par_less)

definition least_child :: "(ptr \<Rightarrow> u32) \<Rightarrow> ptr list \<Rightarrow> nat \<Rightarrow> nat" where
  "least_child k qs i =
     (let c = 2 * (i + 1) in
      if c = length qs \<or> k (qs ! c) > k (qs ! (c - 1)) then c - 1 else c)"

lemma least_child_bounds: "i < least_child k qs i \<and> (2 * (i + 1) \<le> length qs \<longrightarrow> least_child k qs i < length qs)"
  by (auto simp: least_child_def Let_def)

function sift_down :: "(ptr \<Rightarrow> u32) \<Rightarrow> ptr list \<Rightarrow> nat \<Rightarrow> ptr \<Rightarrow> ptr list" where
  "sift_down k qs i e =
     (if 2 * (i + 1) \<le> length qs \<and> k e > k (qs ! least_child k qs i)
      then sift_down k (qs[i := qs ! least_child k qs i]) (least_child k qs i) e
      else qs[i := e])"
  by pat_completeness auto
termination
proof (relation "measure (\<lambda>(k, qs, i, e). length qs - i)", goal_cases)
  case (2 k qs i e)
  then show ?case using least_child_bounds [of i k qs] by auto
qed simp

declare sift_up.simps [simp del] sift_down.simps [simp del]

section \<open>Elements\<close>

lemma mset_move_hole:
  assumes "i < length qs" "j < length qs" "i \<noteq> j"
  shows "mset (qs[i := qs ! j, j := e]) = mset (qs[i := e])"
  using mset_swap [of j "qs[i := e]" i] assms by (simp add: list_update_swap)

lemma length_sift_up [simp]: "length (sift_up k qs i e) = length qs"
  by (induction k qs i e rule: sift_up.induct) (subst sift_up.simps, simp)

lemma length_sift_down [simp]: "length (sift_down k qs i e) = length qs"
  by (induction k qs i e rule: sift_down.induct) (subst sift_down.simps, simp)

lemma mset_sift_up: "i < length qs \<Longrightarrow> mset (sift_up k qs i e) = mset (qs[i := e])"
proof (induction k qs i e rule: sift_up.induct)
  case (1 k qs i e)
  then show ?case
    using mset_move_hole [of i qs "par i" e] par_less [of i]
    by (subst sift_up.simps) auto
qed

lemma mset_sift_down: "i < length qs \<Longrightarrow> mset (sift_down k qs i e) = mset (qs[i := e])"
proof (induction k qs i e rule: sift_down.induct)
  case (1 k qs i e)
  then show ?case
    using mset_move_hole [of i qs "least_child k qs i" e] least_child_bounds [of i k qs]
    by (subst sift_down.simps) auto
qed

section \<open>Order\<close>

definition heap_up_hole :: "(ptr \<Rightarrow> u32) \<Rightarrow> ptr list \<Rightarrow> nat \<Rightarrow> bool" where
  "heap_up_hole k xs i \<longleftrightarrow>
     (\<forall>j. 0 < j \<and> j < length xs \<and> j \<noteq> i \<longrightarrow> k (xs ! par j) \<le> k (xs ! j)) \<and>
     (\<forall>j. 0 < i \<and> 0 < j \<and> j < length xs \<and> par j = i \<longrightarrow> k (xs ! par i) \<le> k (xs ! j))"

definition heap_down_hole :: "(ptr \<Rightarrow> u32) \<Rightarrow> ptr list \<Rightarrow> nat \<Rightarrow> bool" where
  "heap_down_hole k xs i \<longleftrightarrow>
     (\<forall>j. 0 < j \<and> j < length xs \<and> par j \<noteq> i \<longrightarrow> k (xs ! par j) \<le> k (xs ! j)) \<and>
     (\<forall>j. 0 < i \<and> 0 < j \<and> j < length xs \<and> par j = i \<longrightarrow> k (xs ! par i) \<le> k (xs ! j))"

lemma heap_up_hole_move:
  assumes W: "heap_up_hole k (qs[i := e]) i" and i: "0 < i" "i < length qs"
    and gt: "k (qs ! par i) > k e"
  shows "heap_up_hole k ((qs[i := qs ! par i])[par i := e]) (par i)"
proof -
  have pi: "par i < i" using i par_less by simp
  have W1: "k ((qs[i := e]) ! par j) \<le> k ((qs[i := e]) ! j)"
    if "0 < j" "j < length qs" "j \<noteq> i" for j
    using W that unfolding heap_up_hole_def by simp
  have W2: "k (qs ! par i) \<le> k (qs ! j)" if "0 < j" "j < length qs" "par j = i" for j
  proof -
    have "k ((qs[i := e]) ! par i) \<le> k ((qs[i := e]) ! j)"
      using W that i unfolding heap_up_hole_def by simp
    then show ?thesis using that pi par_less [of j] by simp
  qed
  show ?thesis
    unfolding heap_up_hole_def
  proof (intro conjI allI impI, goal_cases)
    case (1 j)
    then show ?case
      using W1 [of j] W2 [of j] gt pi par_less [of j] i
      by (cases "j = i"; cases "par j = i"; cases "par j = par i") (auto simp: nth_list_update)
  next
    case (2 j)
    then show ?case
      using W1 [of "par i"] W1 [of j] pi par_less [of "par i"] par_less [of j] i
      by (cases "j = i") (auto simp: nth_list_update)
  qed
qed

lemma heap_ordered_sift_up:
  "i < length qs \<Longrightarrow> heap_up_hole k (qs[i := e]) i \<Longrightarrow> heap_ordered k (sift_up k qs i e)"
proof (induction k qs i e rule: sift_up.induct)
  case (1 k qs i e)
  show ?case
  proof (cases "0 < i \<and> k (qs ! par i) > k e")
    case True
    with "1" heap_up_hole_move [of k qs i e] par_less [of i] show ?thesis
      by (subst sift_up.simps) auto
  next
    case False
    with "1.prems" show ?thesis
      by (subst sift_up.simps)
        (force simp: heap_up_hole_def heap_ordered_def par_def nth_list_update)
  qed
qed

lemma least_child_le:
  assumes "0 < j" "j < length qs" "par j = i"
  shows "k (qs ! least_child k qs i) \<le> k (qs ! j)"
proof -
  have "j = 2 * i + 1 \<or> j = 2 * i + 2"
    using assms by (auto simp: par_def)
  then show ?thesis
    using assms by (auto simp: least_child_def Let_def not_less intro: less_imp_le)
qed

lemma par_least_child: "par (least_child k qs i) = i"
  by (auto simp: least_child_def Let_def par_def)

lemma heap_down_hole_move:
  assumes W: "heap_down_hole k (qs[i := e]) i" and c: "2 * (i + 1) \<le> length qs"
    and gt: "k e > k (qs ! least_child k qs i)"
  shows "heap_down_hole k ((qs[i := qs ! least_child k qs i])[least_child k qs i := e])
           (least_child k qs i)"
proof -
  define c where "c = least_child k qs i"
  have cb: "i < c" "c < length qs" and pc: "par c = i"
    using least_child_bounds [of i k qs] c par_least_child [of k qs i] by (auto simp: c_def)
  have W1: "k ((qs[i := e]) ! par j) \<le> k ((qs[i := e]) ! j)"
    if "0 < j" "j < length qs" "par j \<noteq> i" for j
    using W that unfolding heap_down_hole_def by simp
  have W2: "k (qs ! par i) \<le> k (qs ! j)" if "0 < i" "0 < j" "j < length qs" "par j = i" for j
  proof -
    have "k ((qs[i := e]) ! par i) \<le> k ((qs[i := e]) ! j)"
      using W that unfolding heap_down_hole_def by simp
    then show ?thesis using that par_less [of i] par_less [of j] by simp
  qed
  have W3: "k (qs ! c) \<le> k (qs ! j)" if "0 < j" "j < length qs" "par j = i" for j
    using least_child_le [OF that, of k] by (simp add: c_def)
  show ?thesis
    unfolding heap_down_hole_def c_def [symmetric]
  proof (intro conjI allI impI, goal_cases)
    case (1 j)
    then show ?case
      using W1 [of j] W2 [of c] W3 [of j] gt cb pc par_less [of j] par_less [of i]
      by (cases "j = i"; cases "j = c"; cases "par j = i") (auto simp: nth_list_update c_def [symmetric])
  next
    case (2 j)
    then show ?case
      using W1 [of j] cb pc par_less [of j]
      by (auto simp: nth_list_update)
  qed
qed

lemma heap_down_hole_stop:
  assumes "heap_down_hole k (qs[i := e]) i" "i < length qs"
    and "\<not> (2 * (i + 1) \<le> length qs \<and> k e > k (qs ! least_child k qs i))"
  shows "heap_ordered k (qs[i := e])"
  unfolding heap_ordered_def
proof (intro allI impI)
  fix j assume j: "0 < j \<and> j < length (qs[i := e])"
  show "k (qs[i := e] ! par j) \<le> k (qs[i := e] ! j)"
  proof (cases "par j = i")
    case True
    then have "2 * (i + 1) \<le> length qs" "j \<noteq> i" using j par_less [of j] by (auto simp: par_def)
    then show ?thesis
      using least_child_le [of j qs i k] j True assms(2,3) by (auto simp: not_less)
  next
    case False
    then show ?thesis using assms(1) j unfolding heap_down_hole_def by simp
  qed
qed

lemma heap_ordered_sift_down:
  "i < length qs \<Longrightarrow> heap_down_hole k (qs[i := e]) i \<Longrightarrow> heap_ordered k (sift_down k qs i e)"
proof (induction k qs i e rule: sift_down.induct)
  case (1 k qs i e)
  show ?case
  proof (cases "2 * (i + 1) \<le> length qs \<and> k e > k (qs ! least_child k qs i)")
    case True
    with "1" heap_down_hole_move [of k qs i e] least_child_bounds [of i k qs] show ?thesis
      by (subst sift_down.simps) auto
  next
    case False
    with "1.prems" heap_down_hole_stop [of k qs i e] show ?thesis
      by (subst sift_down.simps) auto
  qed
qed

end
