(* ===== verification/MinHeap.thy ===== *)
theory MinHeap
  imports HeapOrder
begin

text \<open>
  The binary min-heap of \<^verbatim>\<open>timer/minheap.c\<close> and \<^verbatim>\<open>timer/minheap.h\<close>: an array of pointers to
  timer entries, each entry holding its own position in the array. The entries live in a
  store \<open>tmem\<close>; the array is a list of cells of the allocated capacity. Positions, sizes and
  expiry times are 32-bit words, as in the code.

  The second half shows the loops equal to sift functions on plain lists, that these restore
  the heap order, and that every operation keeps the heap invariant: order, distinct
  entries, and back-pointers that agree with the positions.
\<close>

section \<open>Data\<close>

record timer_entry =
  te_time :: u32
  te_min_heap_idx :: u32
  te_handler :: nat
  te_privdata :: nat

record min_heap =
  mh_p :: "ptr option list"
  mh_n :: u32
  mh_a :: u32

type_synonym tmem = "ptr \<rightharpoonup> timer_entry"

section \<open>Operations\<close>

definition min_heap_elem_greater :: "tmem \<Rightarrow> ptr \<Rightarrow> ptr \<Rightarrow> bool option" where
  "min_heap_elem_greater m x y =
     do { ex \<leftarrow> m x; ey \<leftarrow> m y; Some (te_time ex > te_time ey) }"

definition min_heap_ctor :: "min_heap" where
  "min_heap_ctor = \<lparr>mh_p = [], mh_n = 0, mh_a = 0\<rparr>"

definition min_heap_elem_init :: "tmem \<Rightarrow> ptr \<Rightarrow> tmem option" where
  "min_heap_elem_init m e = do { x \<leftarrow> m e; Some (m(e \<mapsto> x\<lparr>te_min_heap_idx := - 1\<rparr>)) }"

definition min_heap_empty :: "min_heap \<Rightarrow> bool" where
  "min_heap_empty s \<longleftrightarrow> 0 = mh_n s"

definition min_heap_size :: "min_heap \<Rightarrow> u32" where
  "min_heap_size s = mh_n s"

text \<open>The outer option is definedness, the inner one the null pointer of an empty heap.\<close>

definition min_heap_top :: "min_heap \<Rightarrow> ptr option option" where
  "min_heap_top s =
     (if mh_n s \<noteq> 0 then map_option Some (aget (mh_p s) 0) else Some None)"

definition min_heap_elt_is_top :: "tmem \<Rightarrow> ptr \<Rightarrow> bool option" where
  "min_heap_elt_is_top m e = map_option (\<lambda>x. te_min_heap_idx x = 0) (m e)"

text \<open>\<open>s->p[i]\<close>, and \<open>(s->p[i] = q)->min_heap_idx = i\<close>.\<close>

definition mh_get :: "min_heap \<Rightarrow> u32 \<Rightarrow> ptr option" where
  "mh_get s i = aget (mh_p s) (unat i)"

definition mh_put :: "min_heap \<Rightarrow> tmem \<Rightarrow> u32 \<Rightarrow> ptr \<Rightarrow> (min_heap \<times> tmem) option" where
  "mh_put s m i q =
     do { xs \<leftarrow> aset (mh_p s) (unat i) q;
          x \<leftarrow> m q;
          Some (s\<lparr>mh_p := xs\<rparr>, m(q \<mapsto> x\<lparr>te_min_heap_idx := i\<rparr>)) }"

lemma unat_parent_less: "h \<noteq> 0 \<Longrightarrow> unat ((h - 1) div 2 :: u32) < unat h"
  using measure_unat [of h] by (simp add: unat_div)

function min_heap_shift_up :: "min_heap \<Rightarrow> tmem \<Rightarrow> u32 \<Rightarrow> ptr \<Rightarrow> (min_heap \<times> tmem) option" where
  "min_heap_shift_up s m hole e =
     (let parent = (hole - 1) div 2 in
      if hole = 0 then mh_put s m hole e
      else do { pp \<leftarrow> mh_get s parent;
                g \<leftarrow> min_heap_elem_greater m pp e;
                if g then do { (s', m') \<leftarrow> mh_put s m hole pp;
                               min_heap_shift_up s' m' parent e }
                else mh_put s m hole e })"
  by pat_completeness auto
termination
  by (relation "measure (\<lambda>(s, m, hole, e). unat hole)") (auto simp: unat_parent_less)

declare min_heap_shift_up.simps [simp del]

text \<open>The \<open>do\<close> loop: one move first, then the loop condition of \<open>min_heap_shift_up\<close>.\<close>

definition min_heap_shift_up_unconditional ::
  "min_heap \<Rightarrow> tmem \<Rightarrow> u32 \<Rightarrow> ptr \<Rightarrow> (min_heap \<times> tmem) option" where
  "min_heap_shift_up_unconditional s m hole e =
     (let parent = (hole - 1) div 2 in
      do { pp \<leftarrow> mh_get s parent;
           (s', m') \<leftarrow> mh_put s m hole pp;
           min_heap_shift_up s' m' parent e })"

text \<open>\<open>min_child -= min_child == s->n || min_heap_elem_greater(s->p[min_child], s->p[min_child - 1])\<close>.\<close>

definition mh_min_child :: "min_heap \<Rightarrow> tmem \<Rightarrow> u32 \<Rightarrow> u32 option" where
  "mh_min_child s m min_child =
     do { dec \<leftarrow> (if min_child = mh_n s then Some True
                  else do { r \<leftarrow> mh_get s min_child;
                            l \<leftarrow> mh_get s (min_child - 1);
                            min_heap_elem_greater m r l });
          Some (if dec then min_child - 1 else min_child) }"

partial_function (option) min_heap_shift_down ::
  "min_heap \<Rightarrow> tmem \<Rightarrow> u32 \<Rightarrow> ptr \<Rightarrow> (min_heap \<times> tmem) option" where
  "min_heap_shift_down s m hole e =
     (if 2 * (hole + 1) \<le> mh_n s then
        do { min_child \<leftarrow> mh_min_child s m (2 * (hole + 1));
             c \<leftarrow> mh_get s min_child;
             g \<leftarrow> min_heap_elem_greater m e c;
             if g then do { (s', m') \<leftarrow> mh_put s m hole c;
                            min_heap_shift_down s' m' min_child e }
             else mh_put s m hole e }
      else mh_put s m hole e)"

declare min_heap_shift_down.simps [code]

text \<open>
  \<open>min_heap_reserve\<close>: \<open>ok\<close> says whether \<open>realloc\<close> succeeds. \<open>a * sizeof *p\<close> is computed in
  \<open>size_t\<close>, so it does not wrap.
\<close>

definition min_heap_reserve :: "bool \<Rightarrow> min_heap \<Rightarrow> u32 \<Rightarrow> int \<times> min_heap" where
  "min_heap_reserve ok s n =
     (if mh_a s < n then
        (let a = (if mh_a s \<noteq> 0 then mh_a s * 2 else 8);
             a = (if a < n then n else a)
         in case realloc_cells ok (mh_p s) (unat a) of
              None \<Rightarrow> (- 1, s)
            | Some xs \<Rightarrow> (0, s\<lparr>mh_p := xs, mh_a := a\<rparr>))
      else (0, s))"

definition min_heap_push :: "bool \<Rightarrow> min_heap \<Rightarrow> tmem \<Rightarrow> ptr \<Rightarrow> (int \<times> min_heap \<times> tmem) option" where
  "min_heap_push ok s m e =
     (case min_heap_reserve ok s (mh_n s + 1) of (r, s) \<Rightarrow>
        if r \<noteq> 0 then Some (- 1, s, m)
        else do { (s', m') \<leftarrow> min_heap_shift_up (s\<lparr>mh_n := mh_n s + 1\<rparr>) m (mh_n s) e;
                  Some (0, s', m') })"

definition min_heap_pop :: "min_heap \<Rightarrow> tmem \<Rightarrow> (ptr option \<times> min_heap \<times> tmem) option" where
  "min_heap_pop s m =
     (if mh_n s \<noteq> 0 then
        do { e \<leftarrow> mh_get s 0;
             let s = s\<lparr>mh_n := mh_n s - 1\<rparr>;
             last \<leftarrow> mh_get s (mh_n s);
             (s', m') \<leftarrow> min_heap_shift_down s m 0 last;
             m'' \<leftarrow> min_heap_elem_init m' e;
             Some (Some e, s', m'') }
      else Some (None, s, m))"

text \<open>The choice between the two loops, as \<open>min_heap_erase_\<close> and \<open>min_heap_adjust_\<close> make it.\<close>

definition mh_shift :: "min_heap \<Rightarrow> tmem \<Rightarrow> u32 \<Rightarrow> ptr \<Rightarrow> (min_heap \<times> tmem) option" where
  "mh_shift s m idx x =
     do { up \<leftarrow> (if idx > 0
                 then do { q \<leftarrow> mh_get s ((idx - 1) div 2); min_heap_elem_greater m q x }
                 else Some False);
          if up then min_heap_shift_up_unconditional s m idx x
          else min_heap_shift_down s m idx x }"

definition min_heap_erase :: "min_heap \<Rightarrow> tmem \<Rightarrow> ptr \<Rightarrow> (int \<times> min_heap \<times> tmem) option" where
  "min_heap_erase s m e =
     do { x \<leftarrow> m e;
          let idx = te_min_heap_idx x;
          if idx \<noteq> - 1 then
            do { let s = s\<lparr>mh_n := mh_n s - 1\<rparr>;
                 last \<leftarrow> mh_get s (mh_n s);
                 (s', m') \<leftarrow> mh_shift s m idx last;
                 m'' \<leftarrow> min_heap_elem_init m' e;
                 Some (0, s', m'') }
          else Some (- 1, s, m) }"

definition min_heap_adjust ::
  "bool \<Rightarrow> min_heap \<Rightarrow> tmem \<Rightarrow> ptr \<Rightarrow> (int \<times> min_heap \<times> tmem) option" where
  "min_heap_adjust ok s m e =
     do { x \<leftarrow> m e;
          let idx = te_min_heap_idx x;
          if idx = - 1 then min_heap_push ok s m e
          else do { (s', m') \<leftarrow> mh_shift s m idx e;
                    Some (0, s', m') } }"

section \<open>The loops and the reference functions\<close>

definition key :: "tmem \<Rightarrow> ptr \<Rightarrow> u32" where
  "key m q = (case m q of None \<Rightarrow> 0 | Some x \<Rightarrow> te_time x)"

text \<open>\<open>hole_rep s m qs h\<close>: the heap holds the list \<open>qs\<close>, except for the cell \<open>h\<close>.\<close>

definition hole_rep :: "min_heap \<Rightarrow> tmem \<Rightarrow> ptr list \<Rightarrow> nat \<Rightarrow> bool" where
  "hole_rep s m qs h \<longleftrightarrow>
     length (mh_p s) = unat (mh_a s) \<and> length qs \<le> length (mh_p s) \<and>
     length qs = unat (mh_n s) \<and> length qs < 2147483648 \<and>
     (\<forall>j < length qs. j \<noteq> h \<longrightarrow>
        mh_p s ! j = Some (qs ! j) \<and>
        (\<exists>x. m (qs ! j) = Some x \<and> te_min_heap_idx x = of_nat j))"

definition only_idx :: "tmem \<Rightarrow> tmem \<Rightarrow> ptr set \<Rightarrow> bool" where
  "only_idx m m' S \<longleftrightarrow>
     (\<forall>q. m' q = m q \<or>
       (q \<in> S \<and> (\<exists>x i. m q = Some x \<and> m' q = Some (x\<lparr>te_min_heap_idx := i\<rparr>))))"

lemma only_idx_refl [simp]: "only_idx m m S"
  by (simp add: only_idx_def)

lemma only_idx_cases:
  assumes "only_idx m m' S"
  obtains "m' q = m q" | x i where "q \<in> S" "m q = Some x" "m' q = Some (x\<lparr>te_min_heap_idx := i\<rparr>)"
  using assms unfolding only_idx_def by metis

lemma only_idx_trans:
  assumes 1: "only_idx m m' S" and 2: "only_idx m' m'' T" and "S \<subseteq> U" "T \<subseteq> U"
  shows "only_idx m m'' U"
  unfolding only_idx_def
proof
  fix q
  show "m'' q = m q \<or> (q \<in> U \<and> (\<exists>x i. m q = Some x \<and> m'' q = Some (x\<lparr>te_min_heap_idx := i\<rparr>)))"
    using assms(3,4) by (cases rule: only_idx_cases [OF 1, of q]; cases rule: only_idx_cases [OF 2, of q]) force+
qed

lemma only_idx_key: "only_idx m m' S \<Longrightarrow> key m' = key m"
proof (rule ext)
  fix q assume "only_idx m m' S"
  then show "key m' q = key m q"
    by (cases rule: only_idx_cases [where q = q]) (auto simp: key_def)
qed

lemma only_idx_dom: "only_idx m m' S \<Longrightarrow> (m' q = None) = (m q = None)"
  by (erule only_idx_cases [where q = q]) auto

lemma parent_of_nat:
  assumes "0 < h" "h < 4294967296"
  shows "(of_nat h - 1 :: u32) div 2 = of_nat (par h)"
proof -
  have "unat ((of_nat h - 1 :: u32) div 2) = (h - 1) div 2"
    using assms unat_pred [of "of_nat h :: u32"] nat_dvd_not_less [of h 4294967296]
    by (simp add: unat_div unat_of_nat word_of_nat_eq_0_iff)
  moreover have "unat (of_nat (par h) :: u32) = (h - 1) div 2"
    using assms by (simp add: unat_of_nat par_def)
  ultimately show ?thesis by (simp add: u32_eq_iff)
qed

lemma mh_put_rep:
  assumes rep: "hole_rep s m qs h" and h: "h < length qs" and q: "m q \<noteq> None"
    and dist: "\<forall>j < length qs. j \<noteq> h \<longrightarrow> j \<noteq> h' \<longrightarrow> qs ! j \<noteq> q"
  obtains s' m' where "mh_put s m (of_nat h) q = Some (s', m')"
    and "hole_rep s' m' (qs[h := q]) h'" and "only_idx m m' {q}"
    and "\<exists>x. m' q = Some x \<and> te_min_heap_idx x = of_nat h"
proof -
  have u: "unat (of_nat h :: u32) = h"
    using rep h by (simp add: hole_rep_def unat_of_nat)
  obtain x where x: "m q = Some x" using q by auto
  let ?s' = "s\<lparr>mh_p := (mh_p s)[h := Some q]\<rparr>"
  let ?m' = "m(q \<mapsto> x\<lparr>te_min_heap_idx := of_nat h\<rparr>)"
  have "mh_put s m (of_nat h) q = Some (?s', ?m')"
    using rep h x u by (auto simp: mh_put_def aset_def hole_rep_def)
  moreover have "hole_rep ?s' ?m' (qs[h := q]) h'"
    using rep h dist unfolding hole_rep_def by (auto simp: nth_list_update)
  moreover have "only_idx m ?m' {q}"
    using x by (auto simp: only_idx_def)
  ultimately show thesis using that by fastforce
qed

lemma elem_greater_key:
  "m x \<noteq> None \<Longrightarrow> m y \<noteq> None \<Longrightarrow> min_heap_elem_greater m x y = Some (key m x > key m y)"
  by (auto simp: min_heap_elem_greater_def key_def)

lemma mh_get_rep:
  "hole_rep s m qs h \<Longrightarrow> j < length qs \<Longrightarrow> j \<noteq> h \<Longrightarrow>
     mh_get s (of_nat j) = Some (qs ! j) \<and> m (qs ! j) \<noteq> None"
  by (auto simp: mh_get_def aget_def hole_rep_def unat_of_nat)


lemma hole_distinct:
  "distinct (qs[h := e]) \<Longrightarrow> h < length qs \<Longrightarrow> j < length qs \<Longrightarrow> j \<noteq> h \<Longrightarrow> qs ! j \<noteq> e"
  using nth_eq_iff_index_eq [of "qs[h := e]" j h] by simp

lemma hole_distinct2:
  "distinct (qs[h := e]) \<Longrightarrow> i < length qs \<Longrightarrow> j < length qs \<Longrightarrow> i \<noteq> h \<Longrightarrow> j \<noteq> h \<Longrightarrow>
     i \<noteq> j \<Longrightarrow> qs ! i \<noteq> qs ! j"
  using nth_eq_iff_index_eq [of "qs[h := e]" i j] by simp

lemma distinct_move_hole:
  "distinct (qs[h := e]) \<Longrightarrow> h < length qs \<Longrightarrow> j < length qs \<Longrightarrow> j \<noteq> h \<Longrightarrow>
     distinct ((qs[h := qs ! j])[j := e])"
  by (metis mset_eq_imp_distinct_iff mset_move_hole)

lemma set_move_hole:
  "h < length qs \<Longrightarrow> j < length qs \<Longrightarrow> j \<noteq> h \<Longrightarrow>
     set ((qs[h := qs ! j])[j := e]) = set (qs[h := e])"
  by (metis mset_eq_setD mset_move_hole)

text \<open>One move of a loop: the element at \<open>j\<close> goes into the hole \<open>h\<close>, the hole to \<open>j\<close>.\<close>

lemma mh_move_rep:
  assumes rep: "hole_rep s m qs h" and h: "h < length qs" "j < length qs" "j \<noteq> h"
    and dist: "distinct (qs[h := e])"
  obtains s' m' where "mh_put s m (of_nat h) (qs ! j) = Some (s', m')"
    and "hole_rep s' m' (qs[h := qs ! j]) j" and "only_idx m m' (set (qs[h := e]))"
proof -
  have "m (qs ! j) \<noteq> None" using mh_get_rep [OF rep h(2,3)] by simp
  moreover have "\<forall>i < length qs. i \<noteq> h \<longrightarrow> i \<noteq> j \<longrightarrow> qs ! i \<noteq> qs ! j"
    using hole_distinct2 [OF dist] h by blast
  ultimately obtain s' m' where 1: "mh_put s m (of_nat h) (qs ! j) = Some (s', m')"
      "hole_rep s' m' (qs[h := qs ! j]) j" "only_idx m m' {qs ! j}"
    using mh_put_rep [OF rep h(1)] by metis
  have "qs ! j \<in> set (qs[h := e])"
    using h by (metis length_list_update nth_list_update_neq nth_mem)
  with 1 that only_idx_trans [OF 1(3) only_idx_refl [of _ "{}"], of "set (qs[h := e])"] show thesis
    by simp
qed

text \<open>The last step of a loop: the carried element goes into the hole.\<close>

lemma mh_place_rep:
  assumes rep: "hole_rep s m qs h" and h: "h < length qs"
    and dist: "distinct (qs[h := e])" and e: "m e \<noteq> None"
  obtains s' m' where "mh_put s m (of_nat h) e = Some (s', m')"
    and "hole_rep s' m' (qs[h := e]) (length qs)" and "only_idx m m' (set (qs[h := e]))"
proof -
  have ne: "\<forall>i < length qs. i \<noteq> h \<longrightarrow> qs ! i \<noteq> e"
    using hole_distinct [OF dist h] by blast
  then obtain s' m' where 1: "mh_put s m (of_nat h) e = Some (s', m')"
      "hole_rep s' m' (qs[h := e]) h" "only_idx m m' {e}"
      "\<exists>x. m' e = Some x \<and> te_min_heap_idx x = of_nat h"
    using mh_put_rep [OF rep h e, of h] by metis
  have "aset (mh_p s) (unat (of_nat h :: u32)) e = Some (mh_p s')"
    using 1(1) by (auto simp: mh_put_def split: Option.bind_splits)
  moreover have "unat (of_nat h :: u32) = h"
    using rep h by (simp add: hole_rep_def unat_of_nat)
  ultimately have "mh_p s' ! h = Some e" by (auto simp: aset_Some)
  with 1(2,4) h have "hole_rep s' m' (qs[h := e]) (length qs)"
    unfolding hole_rep_def by (metis nth_list_update_eq length_list_update)
  moreover have "e \<in> set (qs[h := e])" using h by (simp add: set_update_memI)
  ultimately show thesis
    using 1 that only_idx_trans [OF 1(3) only_idx_refl [of _ "{}"], of "set (qs[h := e])"] by simp
qed

lemma shift_up_rep:
  "hole_rep s m qs h \<Longrightarrow> h < length qs \<Longrightarrow> distinct (qs[h := e]) \<Longrightarrow> m e \<noteq> None \<Longrightarrow>
   \<exists>s' m'. min_heap_shift_up s m (of_nat h) e = Some (s', m') \<and>
     hole_rep s' m' (sift_up (key m) qs h e) (length qs) \<and> only_idx m m' (set (qs[h := e]))"
proof (induction h arbitrary: s m qs rule: less_induct)
  case (less h)
  note rep = less.prems(1) and h = less.prems(2) and dist = less.prems(3) and e = less.prems(4)
  have h32: "h < 4294967296" using rep h by (simp add: hole_rep_def)
  show ?case
  proof (cases "0 < h \<and> key m (qs ! par h) > key m e")
    case False
    obtain s' m' where 1: "mh_put s m (of_nat h) e = Some (s', m')"
      "hole_rep s' m' (qs[h := e]) (length qs)" "only_idx m m' (set (qs[h := e]))"
      using mh_place_rep [OF rep h dist e] .
    have "min_heap_shift_up s m (of_nat h) e = mh_put s m (of_nat h) e"
    proof (cases "h = 0")
      case True
      then show ?thesis by (subst min_heap_shift_up.simps) simp
    next
      case h0: False
      have "par h < length qs" "par h \<noteq> h" using h0 h par_less [of h] by auto
      from mh_get_rep [OF rep this] False h0 h32 e show ?thesis
        by (subst min_heap_shift_up.simps)
          (simp add: parent_of_nat elem_greater_key word_of_nat_eq_0_iff nat_dvd_not_less)
    qed
    with 1 False show ?thesis by (subst sift_up.simps) auto
  next
    case True
    have p: "par h < length qs" "par h \<noteq> h" "par h < h" using True h par_less [of h] by auto
    obtain s1 m1 where 1: "mh_put s m (of_nat h) (qs ! par h) = Some (s1, m1)"
      "hole_rep s1 m1 (qs[h := qs ! par h]) (par h)" "only_idx m m1 (set (qs[h := e]))"
      using mh_move_rep [OF rep h p(1,2) dist] .
    have "m1 e \<noteq> None" using only_idx_dom [OF 1(3)] e by simp
    from less.IH [OF p(3) 1(2) _ distinct_move_hole [OF dist h p(1,2)] this] p(1)
    obtain s' m' where 2: "min_heap_shift_up s1 m1 (of_nat (par h)) e = Some (s', m')"
      "hole_rep s' m' (sift_up (key m1) (qs[h := qs ! par h]) (par h) e) (length qs)"
      "only_idx m1 m' (set ((qs[h := qs ! par h])[par h := e]))" by auto
    have "only_idx m m' (set (qs[h := e]))"
      using only_idx_trans [OF 1(3) 2(3)] set_move_hole [OF h p(1,2)] by simp
    moreover have "min_heap_shift_up s m (of_nat h) e = Some (s', m')"
      using True h32 mh_get_rep [OF rep p(1,2)] e 1(1) 2(1)
      by (subst min_heap_shift_up.simps)
        (simp add: parent_of_nat elem_greater_key word_of_nat_eq_0_iff nat_dvd_not_less)
    ultimately show ?thesis
      using 2(2) True only_idx_key [OF 1(3)] by (subst sift_up.simps) auto
  qed
qed

lemma hole_rep_n: "hole_rep s m qs h \<Longrightarrow> mh_n s = of_nat (length qs)"
  by (simp add: hole_rep_def)

lemma of_nat_le_iff_u32:
  "a < 4294967296 \<Longrightarrow> b < 4294967296 \<Longrightarrow> ((of_nat a :: u32) \<le> of_nat b) = (a \<le> b)"
  by (simp add: word_le_nat_alt unat_of_nat)

lemma of_nat_eq_iff_u32:
  "a < 4294967296 \<Longrightarrow> b < 4294967296 \<Longrightarrow> ((of_nat a :: u32) = of_nat b) = (a = b)"
  by (simp add: word_unat_eq_iff unat_of_nat)

text \<open>The child the loop selects is the reference function's.\<close>

lemma min_child_rep:
  assumes rep: "hole_rep s m qs h" and h: "h < length qs" and c: "2 * (h + 1) \<le> length qs"
  shows "mh_min_child s m (2 * (of_nat h + 1)) = Some (of_nat (least_child (key m) qs h))"
proof -
  define c where "c = 2 * (h + 1)"
  have cw: "2 * (of_nat h + 1) = (of_nat c :: u32)" by (simp add: c_def)
  have c1: "(of_nat c :: u32) - 1 = of_nat (c - 1)" by (simp add: c_def)
  have b: "c \<le> length qs" "length qs < 4294967296" "c < 4294967296"
    using c rep by (auto simp: c_def hole_rep_def)
  have lc: "least_child (key m) qs h =
      (if c = length qs \<or> key m (qs ! c) > key m (qs ! (c - 1)) then c - 1 else c)"
    by (simp add: least_child_def c_def)
  have l: "mh_get s (of_nat (c - 1)) = Some (qs ! (c - 1)) \<and> m (qs ! (c - 1)) \<noteq> None"
    using mh_get_rep [OF rep, of "c - 1"] b by (simp add: c_def)
  show ?thesis
  proof (cases "c = length qs")
    case True
    then show ?thesis using lc unfolding cw c1 hole_rep_n [OF rep] mh_min_child_def
      by (simp add: c1)
  next
    case False
    then have r: "mh_get s (of_nat c) = Some (qs ! c) \<and> m (qs ! c) \<noteq> None"
      using mh_get_rep [OF rep, of c] b by (simp add: c_def)
    have "(of_nat c :: u32) \<noteq> mh_n s"
      using False b by (simp add: hole_rep_n [OF rep] of_nat_eq_iff_u32)
    with False r l lc show ?thesis
      unfolding cw c1 mh_min_child_def by (auto simp: elem_greater_key)
  qed
qed

lemma shift_down_rep:
  "hole_rep s m qs h \<Longrightarrow> h < length qs \<Longrightarrow> distinct (qs[h := e]) \<Longrightarrow> m e \<noteq> None \<Longrightarrow>
   \<exists>s' m'. min_heap_shift_down s m (of_nat h) e = Some (s', m') \<and>
     hole_rep s' m' (sift_down (key m) qs h e) (length qs) \<and> only_idx m m' (set (qs[h := e]))"
proof (induction "length qs - h" arbitrary: s m qs h rule: less_induct)
  case less
  note rep = less.prems(1) and h = less.prems(2) and dist = less.prems(3) and e = less.prems(4)
  let ?c = "least_child (key m) qs h"
  have b: "length qs < 2147483648" using rep by (simp add: hole_rep_def)
  have cond: "(2 * (of_nat h + 1) \<le> mh_n s) = (2 * (h + 1) \<le> length qs)"
    using of_nat_le_iff_u32 [of "2 * (h + 1)" "length qs"] h b hole_rep_n [OF rep] by (simp add: algebra_simps)
  obtain s0 m0 where 0: "mh_put s m (of_nat h) e = Some (s0, m0)"
    "hole_rep s0 m0 (qs[h := e]) (length qs)" "only_idx m m0 (set (qs[h := e]))"
    using mh_place_rep [OF rep h dist e] .
  show ?case
  proof (cases "2 * (h + 1) \<le> length qs")
    case False
    with 0 cond show ?thesis
      by (subst min_heap_shift_down.simps, subst sift_down.simps) simp
  next
    case c: True
    have cb: "?c < length qs" "?c \<noteq> h" "h < ?c" using least_child_bounds [of h "key m" qs] c by auto
    note get = mh_get_rep [OF rep cb(1,2)]
    have unf: "min_heap_shift_down s m (of_nat h) e =
        (if key m e > key m (qs ! ?c)
         then do { (s', m') \<leftarrow> mh_put s m (of_nat h) (qs ! ?c); min_heap_shift_down s' m' (of_nat ?c) e }
         else mh_put s m (of_nat h) e)"
      using cond c get e
      by (subst min_heap_shift_down.simps, subst min_child_rep [OF rep h c]) (simp add: elem_greater_key)
    show ?thesis
    proof (cases "key m e > key m (qs ! ?c)")
      case False
      with 0 unf show ?thesis by (subst sift_down.simps) simp
    next
      case True
      obtain s1 m1 where 1: "mh_put s m (of_nat h) (qs ! ?c) = Some (s1, m1)"
        "hole_rep s1 m1 (qs[h := qs ! ?c]) ?c" "only_idx m m1 (set (qs[h := e]))"
        using mh_move_rep [OF rep h cb(1,2) dist] .
      have "m1 e \<noteq> None" using only_idx_dom [OF 1(3)] e by simp
      moreover have "length (qs[h := qs ! ?c]) - ?c < length qs - h"
        using cb diff_less_mono2 [of h ?c "length qs"] by simp
      ultimately
      obtain s' m' where 2: "min_heap_shift_down s1 m1 (of_nat ?c) e = Some (s', m')"
        "hole_rep s' m' (sift_down (key m1) (qs[h := qs ! ?c]) ?c e) (length qs)"
        "only_idx m1 m' (set ((qs[h := qs ! ?c])[?c := e]))"
        using less.hyps [OF _ 1(2) _ distinct_move_hole [OF dist h cb(1,2)]] cb by auto
      have "only_idx m m' (set (qs[h := e]))"
        using only_idx_trans [OF 1(3) 2(3)] set_move_hole [OF h cb(1,2)] by simp
      with 1 2 True c unf only_idx_key [OF 1(3)] show ?thesis by (subst sift_down.simps) auto
    qed
  qed
qed

section \<open>The heap invariant\<close>

definition mh_list :: "min_heap \<Rightarrow> ptr list" where
  "mh_list s = map the (take (unat (mh_n s)) (mh_p s))"

definition mh_wf :: "min_heap \<Rightarrow> tmem \<Rightarrow> bool" where
  "mh_wf s m \<longleftrightarrow>
     hole_rep s m (mh_list s) (length (mh_list s)) \<and> distinct (mh_list s) \<and>
     heap_ordered (key m) (mh_list s)"

lemma hole_rep_mh_list: "hole_rep s m qs (length qs) \<Longrightarrow> mh_list s = qs"
  by (rule nth_equalityI) (auto simp: hole_rep_def mh_list_def)

lemma mh_wfI:
  "hole_rep s m qs (length qs) \<Longrightarrow> distinct qs \<Longrightarrow> heap_ordered (key m) qs \<Longrightarrow>
     mh_wf s m \<and> mh_list s = qs"
  using hole_rep_mh_list by (auto simp: mh_wf_def)

lemma heap_ordered_top_least:
  "heap_ordered k qs \<Longrightarrow> i < length qs \<Longrightarrow> k (qs ! 0) \<le> k (qs ! i)"
proof (induction i rule: less_induct)
  case (less i)
  show ?case
  proof (cases "i = 0")
    case False
    then have "k (qs ! 0) \<le> k (qs ! par i)" using less par_less [of i] by simp
    also have "\<dots> \<le> k (qs ! i)" using less.prems False by (simp add: heap_ordered_def)
    finally show ?thesis .
  qed simp
qed

text \<open>
  Putting \<open>x\<close> at position \<open>i\<close> of an ordered list leaves it ordered except around \<open>i\<close>: upwards
  if \<open>x\<close> is smaller than the parent, downwards otherwise, never both ways.
\<close>

lemma hole_in_heap:
  assumes ord: "heap_ordered k0 qs" and i: "i < length qs"
    and k: "\<And>j. j < length qs \<Longrightarrow> j \<noteq> i \<Longrightarrow> k (qs ! j) = k0 (qs ! j)"
  shows "0 < i \<Longrightarrow> k (qs ! par i) > k x \<Longrightarrow> heap_up_hole k (qs[i := x]) i"
    and "\<not> (0 < i \<and> k (qs ! par i) > k x) \<Longrightarrow> heap_down_hole k (qs[i := x]) i"
proof -
  have o: "k0 (qs ! par j) \<le> k0 (qs ! j)" if "0 < j" "j < length qs" for j
    using ord that by (simp add: heap_ordered_def)
  have o1: "k (qs ! par j) \<le> k (qs ! j)" if "0 < j" "j < length qs" "j \<noteq> i" "par j \<noteq> i" for j
    using o [of j] k [of j] k [of "par j"] that par_less [of j] by simp
  have o2: "k (qs ! par i) \<le> k (qs ! j)" if "0 < i" "0 < j" "j < length qs" "par j = i" for j
  proof -
    have "k0 (qs ! par i) \<le> k0 (qs ! i)" "k0 (qs ! i) \<le> k0 (qs ! j)"
      using o [of i] o [of j] that i by auto
    then show ?thesis using k [of "par i"] k [of j] that par_less [of i] par_less [of j] i by simp
  qed
  show "heap_up_hole k (qs[i := x]) i" if "0 < i" "k (qs ! par i) > k x"
    unfolding heap_up_hole_def
  proof (intro conjI allI impI, goal_cases)
    case (1 j)
    then show ?case
      using o1 [of j] o2 [of j] that par_less [of j] by (cases "par j = i") auto
  next
    case (2 j)
    then show ?case using o2 [of j] par_less [of i] par_less [of j] by simp
  qed
  show "heap_down_hole k (qs[i := x]) i" if "\<not> (0 < i \<and> k (qs ! par i) > k x)"
    unfolding heap_down_hole_def
  proof (intro conjI allI impI, goal_cases)
    case (1 j)
    then show ?case
      using o1 [of j] that i par_less [of j] by (cases "j = i") (auto simp: not_less)
  next
    case (2 j)
    then show ?case using o2 [of j] par_less [of i] par_less [of j] by simp
  qed
qed

lemma shift_up_unconditional_rep:
  assumes "hole_rep s m qs h" "0 < h" "h < length qs" "m e \<noteq> None" "key m (qs ! par h) > key m e"
  shows "min_heap_shift_up_unconditional s m (of_nat h) e = min_heap_shift_up s m (of_nat h) e"
proof -
  have h32: "h < 4294967296" and w: "(of_nat h :: u32) \<noteq> 0"
    using assms(1-3) by (auto simp: hole_rep_def word_of_nat_eq_0_iff dest: nat_dvd_not_less)
  have "par h < length qs" "par h \<noteq> h" using assms par_less [of h] by auto
  from mh_get_rep [OF assms(1) this] assms w show ?thesis
    unfolding min_heap_shift_up_unconditional_def
    by (subst min_heap_shift_up.simps) (simp add: parent_of_nat [OF assms(2) h32] elem_greater_key)
qed

lemma mh_shift_rep:
  assumes rep: "hole_rep s m qs i" and i: "i < length qs"
    and dist: "distinct (qs[i := x])" and x: "m x \<noteq> None"
    and ord: "heap_ordered k0 qs"
    and k: "\<And>j. j < length qs \<Longrightarrow> j \<noteq> i \<Longrightarrow> key m (qs ! j) = k0 (qs ! j)"
  shows "\<exists>s' m'. mh_shift s m (of_nat i) x = Some (s', m') \<and> mh_wf s' m' \<and>
           mset (mh_list s') = mset (qs[i := x]) \<and> only_idx m m' (set (qs[i := x]))"
proof -
  have b: "i < 4294967296" using rep i by (simp add: hole_rep_def)
  have pos: "((of_nat i :: u32) > 0) = (0 < i)"
    using b by (simp add: word_less_nat_alt unat_of_nat)
  have up: "(if (of_nat i :: u32) > 0
       then do { q \<leftarrow> mh_get s ((of_nat i - 1) div 2); min_heap_elem_greater m q x }
       else Some False) = Some (0 < i \<and> key m (qs ! par i) > key m x)"
  proof (cases "0 < i")
    case True
    have "par i < length qs" "par i \<noteq> i" using True i par_less [of i] by auto
    from mh_get_rep [OF rep this] True x pos show ?thesis
      by (simp add: parent_of_nat b elem_greater_key)
  qed (use pos in simp)
  show ?thesis
  proof (cases "0 < i \<and> key m (qs ! par i) > key m x")
    case True
    obtain s' m' where 1: "min_heap_shift_up s m (of_nat i) x = Some (s', m')"
      "hole_rep s' m' (sift_up (key m) qs i x) (length qs)" "only_idx m m' (set (qs[i := x]))"
      using shift_up_rep [OF rep i dist x] by blast
    have "distinct (sift_up (key m) qs i x)"
      using dist mset_sift_up [OF i, of "key m" x] by (metis mset_eq_imp_distinct_iff)
    moreover have "heap_ordered (key m') (sift_up (key m) qs i x)"
      using heap_ordered_sift_up [OF i hole_in_heap(1) [OF ord i k]] True only_idx_key [OF 1(3)] by simp
    ultimately have "mh_wf s' m' \<and> mh_list s' = sift_up (key m) qs i x"
      using 1(2) mh_wfI [of s' m' "sift_up (key m) qs i x"] by simp
    then show ?thesis
      using 1 up True mset_sift_up [OF i, of "key m" x]
        shift_up_unconditional_rep [OF rep _ i x] by (simp add: mh_shift_def)
  next
    case False
    obtain s' m' where 1: "min_heap_shift_down s m (of_nat i) x = Some (s', m')"
      "hole_rep s' m' (sift_down (key m) qs i x) (length qs)" "only_idx m m' (set (qs[i := x]))"
      using shift_down_rep [OF rep i dist x] by blast
    have "distinct (sift_down (key m) qs i x)"
      using dist mset_sift_down [OF i, of "key m" x] by (metis mset_eq_imp_distinct_iff)
    moreover have "heap_ordered (key m') (sift_down (key m) qs i x)"
      using heap_ordered_sift_down [OF i hole_in_heap(2) [OF ord i k]] False only_idx_key [OF 1(3)] by simp
    ultimately have "mh_wf s' m' \<and> mh_list s' = sift_down (key m) qs i x"
      using 1(2) mh_wfI [of s' m' "sift_down (key m) qs i x"] by simp
    then show ?thesis
      using 1 up False mset_sift_down [OF i, of "key m" x] by (simp add: mh_shift_def)
  qed
qed

section \<open>The operations keep the invariant\<close>

lemma mh_wf_ctor: "mh_wf min_heap_ctor m \<and> mh_list min_heap_ctor = []"
  by (simp add: mh_wf_def mh_list_def min_heap_ctor_def hole_rep_def heap_ordered_def)

lemma reserve_spec:
  assumes "length (mh_p s) = unat (mh_a s)"
  shows "min_heap_reserve ok s n =
     (if mh_a s < n \<and> \<not> ok then (- 1, s)
      else (0, snd (min_heap_reserve ok s n))) \<and>
     (\<not> (mh_a s < n \<and> \<not> ok) \<longrightarrow>
       (let s' = snd (min_heap_reserve ok s n) in
        mh_n s' = mh_n s \<and> length (mh_p s') = unat (mh_a s') \<and> n \<le> mh_a s' \<and>
        (\<forall>j < length (mh_p s). mh_p s' ! j = mh_p s ! j)))"
proof -
  define a where "a = (if mh_a s \<noteq> 0 then mh_a s * 2 else 8)"
  define a' where "a' = (if a < n then n else a)"
  have "n \<le> a'" by (simp add: a'_def not_less)
  then have "length (mh_p s) \<le> unat a'" if "mh_a s < n"
    using that assms by (simp add: word_le_nat_alt word_less_nat_alt)
  moreover have "min_heap_reserve ok s n =
     (if mh_a s < n then (case realloc_cells ok (mh_p s) (unat a') of
              None \<Rightarrow> (- 1, s) | Some xs \<Rightarrow> (0, s\<lparr>mh_p := xs, mh_a := a'\<rparr>)) else (0, s))"
    unfolding min_heap_reserve_def a'_def a_def Let_def by (rule refl)
  ultimately show ?thesis
    using assms \<open>n \<le> a'\<close> by (auto simp: realloc_cells_def nth_append Let_def)
qed

lemma mh_wf_rep: "mh_wf s m \<Longrightarrow> hole_rep s m (mh_list s) (length (mh_list s))"
  by (simp add: mh_wf_def)

lemma mh_wf_dom: "mh_wf s m \<Longrightarrow> q \<in> set (mh_list s) \<Longrightarrow> m q \<noteq> None"
  by (auto simp: mh_wf_def hole_rep_def in_set_conv_nth)

lemma push_ok:
  assumes wf: "mh_wf s m" and e: "m e \<noteq> None" "e \<notin> set (mh_list s)"
    and room: "mh_n s < 2147483647" and ok: "ok \<or> mh_n s < mh_a s"
  shows "\<exists>s' m'. min_heap_push ok s m e = Some (0, s', m') \<and> mh_wf s' m' \<and>
           mset (mh_list s') = add_mset e (mset (mh_list s)) \<and>
           only_idx m m' (set (mh_list s'))"
proof -
  let ?qs = "mh_list s"
  let ?n = "length ?qs"
  have rep: "hole_rep s m ?qs ?n" using wf by (rule mh_wf_rep)
  have n: "unat (mh_n s) = ?n" "?n < 2147483647"
    using rep room by (auto simp: hole_rep_def word_less_nat_alt)
  have n1: "unat (mh_n s + 1) = ?n + 1" using n by (simp add: unat_Suc_no_wrap)
  define s1 where "s1 = snd (min_heap_reserve ok s (mh_n s + 1))"
  have guard: "\<not> (mh_a s < mh_n s + 1 \<and> \<not> ok)"
    using ok n n1 by (auto simp: word_less_nat_alt)
  have r: "min_heap_reserve ok s (mh_n s + 1) = (0, s1)" "mh_n s1 = mh_n s"
    "length (mh_p s1) = unat (mh_a s1)" "mh_n s + 1 \<le> mh_a s1"
    "\<forall>j < length (mh_p s). mh_p s1 ! j = mh_p s ! j"
    using reserve_spec [of s ok "mh_n s + 1"] guard rep
    by (auto simp: s1_def hole_rep_def Let_def)
  let ?s2 = "s1\<lparr>mh_n := mh_n s1 + 1\<rparr>"
  let ?xs = "?qs @ [e]"
  have nn: "mh_n s = of_nat ?n" using rep by (simp add: hole_rep_def)
  have rep2: "hole_rep ?s2 m ?xs ?n"
    using rep r n n1 by (auto simp: hole_rep_def nth_append word_le_nat_alt)
  have dist: "distinct (?xs[?n := e])" using wf e(2) by (simp add: mh_wf_def)
  have up: "heap_up_hole (key m) (?xs[?n := e]) ?n"
    using wf par_less unfolding heap_up_hole_def mh_wf_def heap_ordered_def
    by (auto simp: nth_append par_def)
  from shift_up_rep [OF rep2 _ dist e(1)]
  obtain s' m' where 1: "min_heap_shift_up ?s2 m (of_nat ?n) e = Some (s', m')"
    "hole_rep s' m' (sift_up (key m) ?xs ?n e) (length ?xs)" "only_idx m m' (set (?xs[?n := e]))"
    by auto
  let ?ys = "sift_up (key m) ?xs ?n e"
  have ms: "mset ?ys = add_mset e (mset ?qs)"
    using mset_sift_up [of ?n ?xs "key m" e] by simp
  then have "distinct ?ys" using dist by (metis list_update_length mset_append mset_eq_imp_distinct_iff mset.simps add_mset_add_single)
  moreover have "heap_ordered (key m') ?ys"
    using heap_ordered_sift_up [OF _ up] only_idx_key [OF 1(3)] by simp
  ultimately have "mh_wf s' m' \<and> mh_list s' = ?ys" using mh_wfI [of s' m' ?ys] 1(2) by simp
  moreover have "set ?ys = set (?xs[?n := e])" using ms by (metis mset_append mset.simps list_update_length add_mset_add_single mset_eq_setD)
  ultimately show ?thesis
    using 1 ms r(1,2) nn by (simp add: min_heap_push_def)
qed

lemma push_fail:
  assumes wf: "mh_wf s m" and full: "mh_n s = mh_a s" and room: "mh_n s < 2147483647"
  shows "min_heap_push False s m e = Some (- 1, s, m)"
proof -
  have "mh_a s < mh_n s + 1"
    using full room by (simp add: word_less_nat_alt unat_Suc_no_wrap)
  then show ?thesis
    using reserve_spec [of s False "mh_n s + 1"] wf
    by (auto simp: min_heap_push_def mh_wf_def hole_rep_def)
qed


lemma hole_rep_cell: "hole_rep s m qs h \<Longrightarrow> j < length qs \<Longrightarrow> j \<noteq> h \<Longrightarrow> mh_p s ! j = Some (qs ! j)"
  by (simp add: hole_rep_def)

lemma hole_rep_cap: "hole_rep s m qs h \<Longrightarrow> length qs \<le> length (mh_p s)"
  by (simp add: hole_rep_def)

text \<open>Taking the last entry out of the array: the list without it, with a hole at \<open>i\<close>.\<close>

lemma hole_rep_butlast:
  assumes rep: "hole_rep s m qs (length qs)" and ne: "qs \<noteq> []"
  shows "hole_rep (s\<lparr>mh_n := mh_n s - 1\<rparr>) m (butlast qs) i"
    and "mh_get (s\<lparr>mh_n := mh_n s - 1\<rparr>) (mh_n s - 1) = Some (last qs)"
    and "mh_n s - 1 = of_nat (length qs - 1)"
proof -
  have "mh_n s \<noteq> 0" using rep ne by (auto simp: hole_rep_def)
  then have u: "unat (mh_n s - 1) = length qs - 1"
    using rep by (simp add: hole_rep_def unat_pred)
  then show n: "mh_n s - 1 = of_nat (length qs - 1)" 
    by (metis of_nat_unat ucast_id)
  show "hole_rep (s\<lparr>mh_n := mh_n s - 1\<rparr>) m (butlast qs) i"
    using rep u by (auto simp: hole_rep_def nth_butlast)
  show "mh_get (s\<lparr>mh_n := mh_n s - 1\<rparr>) (mh_n s - 1) = Some (last qs)"
  proof -
    have l: "length qs - 1 < length qs" using ne by simp
    have "mh_p s ! (length qs - 1) = Some (qs ! (length qs - 1))" "length qs \<le> length (mh_p s)"
      using hole_rep_cell [OF rep l] hole_rep_cap [OF rep] l by auto
    then have "mh_p s ! (length qs - 1) = Some (last qs)" and "length qs - 1 < length (mh_p s)"
      using ne by (simp add: last_conv_nth) (use l hole_rep_cap [OF rep] in linarith)
    then show ?thesis using u by (simp add: mh_get_def aget_def)
  qed
qed

lemma heap_ordered_butlast: "heap_ordered k qs \<Longrightarrow> heap_ordered k (butlast qs)"
  unfolding heap_ordered_def
proof (intro allI impI)
  fix i assume o: "\<forall>i. 0 < i \<and> i < length qs \<longrightarrow> k (qs ! par i) \<le> k (qs ! i)"
    and i: "0 < i \<and> i < length (butlast qs)"
  then show "k (butlast qs ! par i) \<le> k (butlast qs ! i)"
    using par_less [of i] by (simp add: nth_butlast)
qed

text \<open>An entry outside the list may change its index without affecting the heap.\<close>

lemma mh_wf_other:
  assumes "mh_wf s m" and "e \<notin> set (mh_list s)" and "only_idx m m' {e}"
  shows "mh_wf s m'"
proof -
  have "m' q = m q" if "q \<noteq> e" for q
    using that assms(3) by (auto simp: only_idx_def)
  then show ?thesis
    using assms only_idx_key [OF assms(3)] nth_mem
    unfolding mh_wf_def hole_rep_def by metis
qed

lemma elem_init_spec:
  "m e = Some x \<Longrightarrow> \<exists>m'. min_heap_elem_init m e = Some m' \<and> only_idx m m' {e} \<and>
     (\<exists>x. m' e = Some x \<and> te_min_heap_idx x = - 1)"
  by (auto simp: min_heap_elem_init_def only_idx_def)

text \<open>The loops on a hole just past the end write that cell and stop.\<close>

lemma shift_down_past_end:
  assumes rep: "hole_rep s m qs (length qs)"
    and cap: "length qs < length (mh_p s)" "length qs < 2147483647"
    and e: "m e \<noteq> None" "e \<notin> set qs"
  shows "\<exists>s' m'. min_heap_shift_down s m (of_nat (length qs)) e = Some (s', m') \<and>
           hole_rep s' m' qs (length qs) \<and> only_idx m m' {e}"
proof -
  have u: "unat (of_nat (length qs) :: u32) = length qs"
    using rep by (simp add: hole_rep_def unat_of_nat)
  have "\<not> 2 * (of_nat (length qs) + 1) \<le> mh_n s"
    using of_nat_le_iff_u32 [of "2 * (length qs + 1)" "length qs"] cap hole_rep_n [OF rep]
    by (simp add: algebra_simps)
  then have d: "min_heap_shift_down s m (of_nat (length qs)) e = mh_put s m (of_nat (length qs)) e"
    by (subst min_heap_shift_down.simps) simp
  obtain x where x: "m e = Some x" using e by auto
  have "hole_rep (s\<lparr>mh_p := (mh_p s)[length qs := Some e]\<rparr>)
      (m(e \<mapsto> x\<lparr>te_min_heap_idx := of_nat (length qs)\<rparr>)) qs (length qs)"
    using rep e(2) nth_mem by (fastforce simp: hole_rep_def)
  with d u cap x show ?thesis
    by (auto simp: mh_put_def aset_def only_idx_def)
qed

text \<open>Removing the entry at position \<open>i\<close>, common to \<open>min_heap_erase_\<close> and \<open>min_heap_pop_\<close>.\<close>

lemma remove_at:
  assumes wf: "mh_wf s m" and i: "i < length (mh_list s)"
  defines "s1 \<equiv> s\<lparr>mh_n := mh_n s - 1\<rparr>" and "e \<equiv> mh_list s ! i" and "l \<equiv> last (mh_list s)"
  shows "\<exists>s' m'. mh_shift s1 m (of_nat i) l = Some (s', m') \<and> mh_wf s' m' \<and>
           mset (mh_list s) = add_mset e (mset (mh_list s')) \<and>
           only_idx m m' (set (mh_list s))"
proof -
  let ?qs = "mh_list s"
  have rep: "hole_rep s m ?qs (length ?qs)" and dist: "distinct ?qs"
    and ord: "heap_ordered (key m) ?qs" using wf by (auto simp: mh_wf_def)
  have ne: "?qs \<noteq> []" using i by auto
  note b = hole_rep_butlast [OF rep ne, folded s1_def]
  have split: "?qs = butlast ?qs @ [l]" using ne by (simp add: l_def)
  have lset: "m l \<noteq> None" using mh_wf_dom [OF wf, of l] ne by (simp add: l_def)
  have ordb: "heap_ordered (key m) (butlast ?qs)" using ord by (rule heap_ordered_butlast)
  have ndl: "distinct (butlast ?qs)" "l \<notin> set (butlast ?qs)"
    using dist by (subst (asm) split, simp)+
  show ?thesis
  proof (cases "i = length ?qs - 1")
    case True
    have el: "e = l" using True ne by (simp add: e_def l_def last_conv_nth)
    have len: "length (butlast ?qs) = i" using True by simp
    have cap: "i < length (mh_p s1)" "i < 2147483647" and i32: "i < 4294967296"
      using rep i by (auto simp: hole_rep_def s1_def)
    obtain s' m' where 1: "min_heap_shift_down s1 m (of_nat i) l = Some (s', m')"
      "hole_rep s' m' (butlast ?qs) i" "only_idx m m' {l}"
      using shift_down_past_end [OF b(1) _ _ lset ndl(2)] len cap by auto
    have "(if (of_nat i :: u32) > 0
       then do { q \<leftarrow> mh_get s1 ((of_nat i - 1) div 2); min_heap_elem_greater m q l }
       else Some False) = Some False"
    proof (cases "0 < i")
      case pos: True
      have p: "par i < length (butlast ?qs)" "par i \<noteq> i" using pos len par_less [of i] by auto
      have "key m (?qs ! par i) \<le> key m (?qs ! i)"
        using ord pos i by (simp add: heap_ordered_def)
      then have "key m (?qs ! par i) \<le> key m l" using el by (simp add: e_def)
      with mh_get_rep [OF b(1) p] lset pos i32 p(1) show ?thesis
        by (simp add: parent_of_nat elem_greater_key nth_butlast not_less)
    qed simp
    with 1(1) have "mh_shift s1 m (of_nat i) l = Some (s', m')" by (simp add: mh_shift_def)
    moreover have "mh_wf s' m' \<and> mh_list s' = butlast ?qs"
      using mh_wfI [of s' m' "butlast ?qs"] 1(2) len ndl(1) ordb only_idx_key [OF 1(3)] by simp
    moreover have "mset ?qs = add_mset e (mset (butlast ?qs))"
      by (subst split) (simp add: el)
    moreover have "only_idx m m' (set ?qs)"
      using only_idx_trans [OF 1(3) only_idx_refl [of _ "{}"]] ne by (simp add: l_def)
    ultimately show ?thesis by auto
  next
    case False
    then have ib: "i < length (butlast ?qs)" using i by simp
    have ms: "mset ?qs = add_mset e (mset ((butlast ?qs)[i := l]))"
      using ib nth_mem [OF ib] by (subst split) (simp add: mset_update e_def nth_butlast)
    then have d: "distinct ((butlast ?qs)[i := l])"
      using dist by (metis distinct.simps(2) mset.simps(2) mset_eq_imp_distinct_iff)
    obtain s' m' where 1: "mh_shift s1 m (of_nat i) l = Some (s', m')" "mh_wf s' m'"
      "mset (mh_list s') = mset ((butlast ?qs)[i := l])" "only_idx m m' (set ((butlast ?qs)[i := l]))"
      using mh_shift_rep [OF b(1) ib d lset ordb] by auto
    have "set ((butlast ?qs)[i := l]) \<subseteq> set ?qs"
      using ms by (metis mset_eq_setD mset.simps(2) set_subset_Cons)
    then have "only_idx m m' (set ?qs)"
      using only_idx_trans [OF 1(4) only_idx_refl [of _ "{}"]] by simp
    with 1 ms show ?thesis by simp
  qed
qed

lemma remove_at_notin:
  "distinct qs \<Longrightarrow> mset qs = add_mset e (mset qs') \<Longrightarrow> e \<notin> set qs' \<and> set qs = insert e (set qs')"
  by (metis distinct.simps(2) list.simps(15) mset.simps(2) mset_eq_imp_distinct_iff mset_eq_setD)

lemma erase_ok:
  assumes wf: "mh_wf s m" and e: "e \<in> set (mh_list s)"
  shows "\<exists>s' m'. min_heap_erase s m e = Some (0, s', m') \<and> mh_wf s' m' \<and>
           mset (mh_list s) = add_mset e (mset (mh_list s')) \<and> only_idx m m' (set (mh_list s)) \<and>
           (\<exists>x. m' e = Some x \<and> te_min_heap_idx x = - 1)"
proof -
  obtain i where i: "i < length (mh_list s)" "mh_list s ! i = e"
    using e by (auto simp: in_set_conv_nth)
  have rep: "hole_rep s m (mh_list s) (length (mh_list s))" using wf by (rule mh_wf_rep)
  obtain x where x: "m e = Some x" "te_min_heap_idx x = of_nat i"
    using rep i by (auto simp: hole_rep_def)
  have i1: "(of_nat i :: u32) \<noteq> - 1"
    using rep i(1) by (auto simp: hole_rep_def u32_eq_iff unat_of_nat unsigned_minus_1_eq_mask mask_eq_exp_minus_1)
  have ne: "mh_list s \<noteq> []" using i by auto
  note b = hole_rep_butlast [OF rep ne]
  obtain s' m' where 1: "mh_shift (s\<lparr>mh_n := mh_n s - 1\<rparr>) m (of_nat i) (last (mh_list s)) = Some (s', m')"
    "mh_wf s' m'" "mset (mh_list s) = add_mset e (mset (mh_list s'))" "only_idx m m' (set (mh_list s))"
    using remove_at [OF wf i(1)] i(2) by auto
  obtain y where "m' e = Some y" using only_idx_dom [OF 1(4), of e] x by auto
  then obtain m'' where 2: "min_heap_elem_init m' e = Some m''" "only_idx m' m'' {e}"
    "\<exists>x. m'' e = Some x \<and> te_min_heap_idx x = - 1"
    using elem_init_spec by blast
  have "e \<notin> set (mh_list s')" using remove_at_notin [OF _ 1(3)] wf by (simp add: mh_wf_def)
  then have "mh_wf s' m''" using mh_wf_other 1(2) 2(2) by blast
  moreover have "only_idx m m'' (set (mh_list s))"
    using only_idx_trans [OF 1(4) 2(2)] e by simp
  ultimately show ?thesis
    using 1(1,3) 2(1,3) x i1 b(2) by (simp add: min_heap_erase_def)
qed

lemma erase_absent:
  "m e = Some x \<Longrightarrow> te_min_heap_idx x = - 1 \<Longrightarrow> min_heap_erase s m e = Some (- 1, s, m)"
  by (simp add: min_heap_erase_def)

text \<open>\<open>min_heap_pop_\<close> calls the downward loop at the root directly.\<close>

lemma pop_ok:
  assumes wf: "mh_wf s m" and ne: "mh_list s \<noteq> []"
  defines "e \<equiv> hd (mh_list s)"
  shows "\<exists>s' m'. min_heap_pop s m = Some (Some e, s', m') \<and> mh_wf s' m' \<and>
           mset (mh_list s) = add_mset e (mset (mh_list s')) \<and>
           (\<forall>q \<in> set (mh_list s). key m e \<le> key m q) \<and> only_idx m m' (set (mh_list s)) \<and>
           (\<exists>x. m' e = Some x \<and> te_min_heap_idx x = - 1)"
proof -
  have rep: "hole_rep s m (mh_list s) (length (mh_list s))" using wf by (rule mh_wf_rep)
  have e: "e = mh_list s ! 0" "e \<in> set (mh_list s)" using ne by (auto simp: e_def hd_conv_nth)
  obtain x where x: "m e = Some x" using mh_wf_dom [OF wf e(2)] by auto
  note b = hole_rep_butlast [OF rep ne]
  let ?s1 = "s\<lparr>mh_n := mh_n s - 1\<rparr>"
  have "mh_shift ?s1 m 0 (last (mh_list s)) = min_heap_shift_down ?s1 m 0 (last (mh_list s))"
    by (simp add: mh_shift_def)
  then obtain s' m' where 1: "min_heap_shift_down ?s1 m 0 (last (mh_list s)) = Some (s', m')"
    "mh_wf s' m'" "mset (mh_list s) = add_mset e (mset (mh_list s'))" "only_idx m m' (set (mh_list s))"
    using remove_at [OF wf, of 0] ne e(1) by auto
  obtain y where "m' e = Some y" using only_idx_dom [OF 1(4), of e] x by auto
  then obtain m'' where 2: "min_heap_elem_init m' e = Some m''" "only_idx m' m'' {e}"
    "\<exists>x. m'' e = Some x \<and> te_min_heap_idx x = - 1"
    using elem_init_spec by blast
  have "e \<notin> set (mh_list s')" using remove_at_notin [OF _ 1(3)] wf by (simp add: mh_wf_def)
  then have "mh_wf s' m''" using mh_wf_other 1(2) 2(2) by blast
  moreover have "only_idx m m'' (set (mh_list s))"
    using only_idx_trans [OF 1(4) 2(2)] e(2) by simp
  moreover have "\<forall>q \<in> set (mh_list s). key m e \<le> key m q"
    using wf heap_ordered_top_least [of "key m" "mh_list s"] e(1)
    by (auto simp: mh_wf_def in_set_conv_nth)
  moreover have "mh_get s 0 = Some e" using mh_get_rep [OF rep, of 0] ne e(1) by simp
  moreover have "mh_n s \<noteq> 0" using rep ne by (auto simp: hole_rep_def)
  ultimately show ?thesis
    using 1(1,3) 2(1,3) b(2) by (simp add: min_heap_pop_def)
qed

lemma adjust_ok:
  assumes rep: "hole_rep s m qs (length qs)" and dist: "distinct qs" and e: "e \<in> set qs"
    and ord: "heap_ordered k0 qs" and k: "\<And>q. q \<in> set qs \<Longrightarrow> q \<noteq> e \<Longrightarrow> key m q = k0 q"
  shows "\<exists>s' m'. min_heap_adjust ok s m e = Some (0, s', m') \<and> mh_wf s' m' \<and>
           mset (mh_list s') = mset qs \<and> only_idx m m' (set qs)"
proof -
  obtain i where i: "i < length qs" "qs ! i = e"
    using e by (auto simp: in_set_conv_nth)
  obtain x where x: "m e = Some x" "te_min_heap_idx x = of_nat i"
    using rep i by (auto simp: hole_rep_def)
  have i1: "(of_nat i :: u32) \<noteq> - 1"
    using rep i(1) by (auto simp: hole_rep_def u32_eq_iff unat_of_nat unsigned_minus_1_eq_mask mask_eq_exp_minus_1)
  have rep': "hole_rep s m qs i" using rep by (simp add: hole_rep_def)
  have same: "qs[i := e] = qs" using i by (metis list_update_id)
  have "\<And>j. j < length qs \<Longrightarrow> j \<noteq> i \<Longrightarrow> key m (qs ! j) = k0 (qs ! j)"
    using k dist i by (metis nth_eq_iff_index_eq nth_mem)
  from mh_shift_rep [OF rep' i(1) _ _ ord this, of e] dist x same i1 show ?thesis
    by (auto simp: min_heap_adjust_def)
qed

section \<open>Properties\<close>

text \<open>A heap of three entries, for the instances below.\<close>

definition ex_entry :: "u32 \<Rightarrow> u32 \<Rightarrow> timer_entry" where
  "ex_entry t i = \<lparr>te_time = t, te_min_heap_idx = i, te_handler = 0, te_privdata = 0\<rparr>"

definition ex_mem :: tmem where
  "ex_mem = [1 \<mapsto> ex_entry 10 0, 2 \<mapsto> ex_entry 30 1, 3 \<mapsto> ex_entry 20 2, 4 \<mapsto> ex_entry 5 (- 1)]"

definition ex_heap :: min_heap where
  "ex_heap = \<lparr>mh_p = [Some 1, Some 2, Some 3, None], mh_n = 3, mh_a = 4\<rparr>"

lemma ex_heap_list: "mh_list ex_heap = [1, 2, 3]"
  by (simp add: mh_list_def ex_heap_def)

lemma ex_heap_facts:
  "mh_n ex_heap = 3" "mh_a ex_heap = 4" "ex_mem 4 = Some (ex_entry 5 (- 1))"
  "ex_mem 2 = Some (ex_entry 30 1)" "ex_mem 3 = Some (ex_entry 20 2)"
  by (auto simp: ex_heap_def ex_mem_def)

lemma ex_heap_wf: "mh_wf ex_heap ex_mem"
  unfolding mh_wf_def ex_heap_list
  by (auto simp: hole_rep_def heap_ordered_def ex_heap_def ex_mem_def ex_entry_def key_def par_def
      less_Suc_eq)

text \<open>
  C1: pushing an entry that is not yet in the heap. If the array has room or \<open>realloc\<close>
  succeeds, the call returns 0, the heap stays well formed (ordered by expiry, distinct, with
  correct back-pointers), holds exactly the old entries and the new one, and nothing but
  back-pointers of entries in the heap changes; otherwise it returns -1 and nothing changes.
\<close>

theorem min_heap_push_correct:
  assumes "mh_wf s m" and "m e \<noteq> None" and "e \<notin> set (mh_list s)" and "mh_n s < 2147483647"
  shows "if ok \<or> mh_n s < mh_a s
         then \<exists>s' m'. min_heap_push ok s m e = Some (0, s', m') \<and> mh_wf s' m' \<and>
                mset (mh_list s') = add_mset e (mset (mh_list s)) \<and> only_idx m m' (set (mh_list s'))
         else min_heap_push ok s m e = Some (- 1, s, m)"
proof (cases "ok \<or> mh_n s < mh_a s")
  case True
  then show ?thesis using push_ok [OF assms] by simp
next
  case False
  have "mh_n s \<le> mh_a s"
    using assms(1) by (simp add: mh_wf_def hole_rep_def word_le_nat_alt)
  with False have "mh_n s = mh_a s" by simp
  with False push_fail [OF assms(1) _ assms(4)] show ?thesis by simp
qed

theorem min_heap_push_correct_witness:
  "\<exists>s' m'. min_heap_push False ex_heap ex_mem 4 = Some (0, s', m') \<and> mh_wf s' m' \<and>
     mset (mh_list s') = {#4, 1, 2, 3#}"
  using min_heap_push_correct [OF ex_heap_wf, of 4 False]
  by (simp add: ex_heap_list ex_heap_facts) blast

text \<open>
  C2: popping. On a non-empty heap the call returns the entry that expires first, marks it as
  not in the heap, and leaves a well-formed heap of exactly the other entries; on an empty heap
  it returns the null pointer and changes nothing.
\<close>

theorem min_heap_pop_correct:
  assumes "mh_wf s m"
  shows "if mh_list s = [] then min_heap_pop s m = Some (None, s, m)
         else \<exists>e s' m'. min_heap_pop s m = Some (Some e, s', m') \<and> mh_wf s' m' \<and>
                mset (mh_list s) = add_mset e (mset (mh_list s')) \<and>
                (\<forall>q \<in> set (mh_list s). key m e \<le> key m q) \<and> only_idx m m' (set (mh_list s)) \<and>
                (\<exists>x. m' e = Some x \<and> te_min_heap_idx x = - 1)"
proof (cases "mh_list s = []")
  case True
  then have "mh_n s = 0" using assms by (simp add: mh_wf_def hole_rep_def unat_eq_zero)
  with True show ?thesis by (simp add: min_heap_pop_def)
next
  case False
  then show ?thesis using pop_ok [OF assms False] by auto
qed

theorem min_heap_pop_correct_witness:
  "\<exists>e s' m'. min_heap_pop ex_heap ex_mem = Some (Some e, s', m') \<and> mh_wf s' m' \<and>
     {#1, 2, 3#} = add_mset e (mset (mh_list s'))"
  using min_heap_pop_correct [OF ex_heap_wf] by (auto simp: ex_heap_list)

text \<open>
  C3: erasing. An entry of the heap, wherever it is, is taken out and marked as not in the heap,
  the rest stays a well-formed heap, and the call returns 0; for an entry that is marked as not
  in the heap the call returns -1 and changes nothing.
\<close>

theorem min_heap_erase_correct:
  assumes "mh_wf s m" and "m e = Some x" and "e \<in> set (mh_list s) \<or> te_min_heap_idx x = - 1"
  shows "if e \<in> set (mh_list s)
         then \<exists>s' m'. min_heap_erase s m e = Some (0, s', m') \<and> mh_wf s' m' \<and>
                mset (mh_list s) = add_mset e (mset (mh_list s')) \<and> only_idx m m' (set (mh_list s)) \<and>
                (\<exists>y. m' e = Some y \<and> te_min_heap_idx y = - 1)
         else min_heap_erase s m e = Some (- 1, s, m)"
  using erase_ok [OF assms(1)] erase_absent [of m e x s] assms(2,3) by auto

theorem min_heap_erase_correct_witness:
  "\<exists>s' m'. min_heap_erase ex_heap ex_mem 2 = Some (0, s', m') \<and> mh_wf s' m' \<and>
     {#1, 2, 3#} = add_mset 2 (mset (mh_list s'))"
  using min_heap_erase_correct [OF ex_heap_wf, of 2 "ex_entry 30 1"]
  by (simp add: ex_heap_list ex_heap_facts) blast

text \<open>
  after the expiry time of an entry of a well-formed heap was changed to any value,
  \<open>min_heap_adjust_\<close> makes the heap well formed again with the same entries.
\<close>

theorem min_heap_adjust_correct:
  assumes "mh_wf s m" and "e \<in> set (mh_list s)" and "m e = Some x"
  shows "\<exists>s' m'. min_heap_adjust ok s (m(e \<mapsto> x\<lparr>te_time := t\<rparr>)) e = Some (0, s', m') \<and>
           mh_wf s' m' \<and> mset (mh_list s') = mset (mh_list s) \<and> key m' = (key m)(e := t)"
proof -
  let ?m = "m(e \<mapsto> x\<lparr>te_time := t\<rparr>)"
  have "hole_rep s ?m (mh_list s) (length (mh_list s))"
    using assms(1,3) unfolding mh_wf_def hole_rep_def by auto
  moreover have k: "key ?m = (key m)(e := t)" by (rule ext) (simp add: key_def)
  ultimately obtain s' m' where "min_heap_adjust ok s ?m e = Some (0, s', m')" "mh_wf s' m'"
    "mset (mh_list s') = mset (mh_list s)" "only_idx ?m m' (set (mh_list s))"
    using adjust_ok [of s ?m "mh_list s" e "key m" ok] assms by (auto simp: mh_wf_def)
  then show ?thesis using only_idx_key k by metis
qed

theorem min_heap_adjust_correct_witness:
  "\<exists>s' m'. min_heap_adjust True ex_heap (ex_mem(3 \<mapsto> (ex_entry 20 2)\<lparr>te_time := 7\<rparr>)) 3 = Some (0, s', m') \<and>
     mh_wf s' m' \<and> mset (mh_list s') = {#1, 2, 3#}"
  using min_heap_adjust_correct [OF ex_heap_wf, of 3 "ex_entry 20 2" True 7]
  by (simp add: ex_heap_list ex_heap_facts) blast

end
