(* ===== verification/TimerQueue.thy ===== *)
theory TimerQueue
  imports Prelude
begin

text \<open>
  What the timers of \<^verbatim>\<open>timer/mh-timer.h\<close>, \<^verbatim>\<open>timer/rbt-timer.h\<close> and \<^verbatim>\<open>timer/skl-timer.c\<close> have in
  common: a store of pending entries from which the entry that expires first can be read and
  removed, and the loop of \<open>expire_timer\<close> over it. The loop is written once, over the
  operations of the store; the locale states what a store promises and proves once what the
  loop then does. Each timer theory interprets the locale on its own operations.
\<close>

section \<open>The clock\<close>

text \<open>
  \<open>current_time\<close>: seconds and nanoseconds of \<open>clock_gettime\<close>, as a 32-bit number of
  milliseconds. The seconds are truncated to 32 bits before the multiplication.
\<close>

definition current_time :: "64 word \<Rightarrow> 64 word \<Rightarrow> u32" where
  "current_time tv_sec tv_nsec = ucast tv_sec * 1000 + ucast (tv_nsec div 1000000)"

section \<open>The loop of expire\_timer\<close>

text \<open>
  \<open>for (;;) { te = top(); if (!te) break; if (te->time > cur) break; te->handler(te); pop; free }\<close>
  with the entries that fired, in order, as a log. \<open>None\<close> is undefined behaviour or a loop
  that does not end.
\<close>

partial_function (option) expire_loop ::
  "('s \<Rightarrow> ptr option option) \<Rightarrow> ('s \<Rightarrow> ptr \<Rightarrow> ('k :: linorder) option) \<Rightarrow> (ptr \<Rightarrow> 's \<Rightarrow> 's option) \<Rightarrow>
   (ptr \<Rightarrow> 's \<Rightarrow> 's option) \<Rightarrow> 'k \<Rightarrow> 's \<Rightarrow> ('s \<times> ptr list) option" where
  "expire_loop peek tm fire discard cur s =
     do { t \<leftarrow> peek s;
          case t of
            None \<Rightarrow> Some (s, [])
          | Some te \<Rightarrow>
              do { x \<leftarrow> tm s te;
                   if x > cur then Some (s, [])
                   else do { s1 \<leftarrow> fire te s;
                             s2 \<leftarrow> discard te s1;
                             (s3, log) \<leftarrow> expire_loop peek tm fire discard cur s2;
                             Some (s3, te # log) } } }"

declare expire_loop.simps [code]

section \<open>The interface\<close>

text \<open>
  A handler is harmless at time \<open>cur\<close> if it keeps the store well formed and the entry it runs
  for on top, and only adds entries that expire later than \<open>cur\<close>.
\<close>

definition harmless_handler ::
  "('s \<Rightarrow> bool) \<Rightarrow> ('s \<Rightarrow> ptr multiset) \<Rightarrow> ('s \<Rightarrow> ptr \<Rightarrow> 'k :: linorder) \<Rightarrow> ('s \<Rightarrow> ptr option option) \<Rightarrow>
   'k \<Rightarrow> (ptr \<Rightarrow> 's \<Rightarrow> 's option) \<Rightarrow> bool" where
  "harmless_handler invar pending expires peek cur fire \<longleftrightarrow>
     (\<forall>s q. invar s \<longrightarrow> peek s = Some (Some q) \<longrightarrow> expires s q \<le> cur \<longrightarrow>
       (\<exists>s' new. fire q s = Some s' \<and> invar s' \<and> pending s' = pending s + new \<and>
          (\<forall>r \<in># new. cur < expires s' r) \<and> (\<forall>r \<in># pending s. expires s' r = expires s r) \<and>
          peek s' = peek s))"

lemma harmless_quiet: "harmless_handler invar pending expires peek cur (\<lambda>q s. Some s)"
  by (auto simp: harmless_handler_def intro!: exI [of _ "{#}"])

locale timer_queue =
  fixes invar :: "'s \<Rightarrow> bool"
    and pending :: "'s \<Rightarrow> ptr multiset"
    and expires :: "'s \<Rightarrow> ptr \<Rightarrow> 'k :: linorder"
    and peek :: "'s \<Rightarrow> ptr option option"
    and tm :: "'s \<Rightarrow> ptr \<Rightarrow> 'k option"
    and discard :: "ptr \<Rightarrow> 's \<Rightarrow> 's option"
  assumes top_empty: "invar s \<Longrightarrow> pending s = {#} \<Longrightarrow> peek s = Some None"
    and top_least: "invar s \<Longrightarrow> pending s \<noteq> {#} \<Longrightarrow>
          \<exists>q. peek s = Some (Some q) \<and> q \<in># pending s \<and> (\<forall>r \<in># pending s. expires s q \<le> expires s r)"
    and tm_expires: "invar s \<Longrightarrow> q \<in># pending s \<Longrightarrow> tm s q = Some (expires s q)"
    and drop_top: "invar s \<Longrightarrow> peek s = Some (Some q) \<Longrightarrow>
          \<exists>s'. discard q s = Some s' \<and> invar s' \<and> pending s = add_mset q (pending s') \<and>
               (\<forall>r \<in># pending s'. expires s' r = expires s r)"
begin

lemma top_cases:
  assumes "invar s"
  obtains "pending s = {#}" "peek s = Some None"
  | q where "peek s = Some (Some q)" "q \<in># pending s" "\<forall>r \<in># pending s. expires s q \<le> expires s r"
  using top_empty [OF assms] top_least [OF assms] by blast

lemma expire_stop:
  assumes "invar s" and "\<forall>q \<in># pending s. cur < expires s q"
  shows "expire_loop peek tm fire discard cur s = Some (s, [])"
  using assms(2) tm_expires [OF assms(1)]
  by (cases rule: top_cases [OF assms(1)]) (auto simp: expire_loop.simps)

lemma expire_spec:
  assumes "invar s" and fire: "harmless_handler invar pending expires peek cur fire"
  shows "\<exists>s' log. expire_loop peek tm fire discard cur s = Some (s', log) \<and> invar s' \<and>
           mset log = filter_mset (\<lambda>q. expires s q \<le> cur) (pending s) \<and>
           sorted (map (expires s) log) \<and> (\<forall>q \<in># pending s'. cur < expires s' q)"
  using assms(1)
proof (induction "size (filter_mset (\<lambda>q. expires s q \<le> cur) (pending s))" arbitrary: s
    rule: less_induct)
  case less
  let ?due = "\<lambda>s. filter_mset (\<lambda>q. expires s q \<le> cur) (pending s)"
  show ?case
  proof (cases "?due s = {#}")
    case True
    then have "\<forall>q \<in># pending s. cur < expires s q"
      by (auto simp: filter_mset_eq_mempty_iff not_le)
    with less.prems True expire_stop show ?thesis by auto
  next
    case False
    then have "pending s \<noteq> {#}" by auto
    with less.prems obtain q where q: "peek s = Some (Some q)" "q \<in># pending s"
      "\<forall>r \<in># pending s. expires s q \<le> expires s r" using top_least by blast
    have due: "expires s q \<le> cur"
      using False q(3) by (auto simp: filter_mset_eq_mempty_iff intro: order_trans)
    obtain s1 new where 1: "fire q s = Some s1" "invar s1" "pending s1 = pending s + new"
      "\<forall>r \<in># new. cur < expires s1 r" "\<forall>r \<in># pending s. expires s1 r = expires s r" "peek s1 = peek s"
      using fire less.prems q(1) due unfolding harmless_handler_def by blast
    obtain s2 where 2: "discard q s1 = Some s2" "invar s2" "pending s1 = add_mset q (pending s2)"
      "\<forall>r \<in># pending s2. expires s2 r = expires s1 r"
      using drop_top [OF 1(2)] 1(6) q(1) by auto
    have d1: "?due s1 = ?due s"
      using 1(3-5) by (auto simp: filter_mset_eq_mempty_iff not_le cong: filter_mset_cong)
    have d2: "?due s1 = add_mset q (?due s2)"
      using 2(3,4) 1(5) due q(2) by (simp cong: filter_mset_cong)
    have ds: "?due s = add_mset q (?due s2)" using d1 d2 by simp
    then obtain s' log where 3: "expire_loop peek tm fire discard cur s2 = Some (s', log)" "invar s'"
      "mset log = ?due s2" "sorted (map (expires s2) log)" "\<forall>r \<in># pending s'. cur < expires s' r"
      using less.hyps [of s2] 2(2) by auto
    have same: "expires s2 r = expires s r \<and> r \<in># pending s" if "r \<in> set log" for r
    proof -
      have "r \<in># ?due s2" using that 3(3) by (metis set_mset_mset)
      then have "r \<in># ?due s" using ds by simp
      with \<open>r \<in># ?due s2\<close> 2(4) 1(5) show ?thesis by auto
    qed
    have "expire_loop peek tm fire discard cur s = Some (s', q # log)"
      using q(1) tm_expires [OF less.prems q(2)] due 1(1) 2(1) 3(1)
      by (subst expire_loop.simps) (simp add: not_less)
    moreover have "sorted (map (expires s) (q # log))"
      using 3(4) same q(3) by (simp cong: map_cong)
    ultimately show ?thesis using 3 ds by auto
  qed
qed

end

end
