(* ===== verification/MhTimer.thy ===== *)
theory MhTimer
  imports MinHeap TimerQueue
begin

text \<open>
  The timer of \<^verbatim>\<open>timer/mh-timer.h\<close>: a global min-heap of timer entries. The clock
  (\<open>current_time\<close>) and the results of \<open>malloc\<close> and \<open>realloc\<close> are arguments of the operations;
  the handlers are an argument of \<open>expire_timer\<close>.
\<close>

section \<open>State and operations\<close>

record mh_timer =
  mht_heap :: min_heap
  mht_ents :: tmem

definition mh_init_timer :: "tmem \<Rightarrow> mh_timer" where
  "mh_init_timer m = \<lparr>mht_heap = min_heap_ctor, mht_ents = m\<rparr>"

text \<open>\<open>new\<close> is the address \<open>malloc\<close> returns (\<open>None\<close> for \<open>NULL\<close>), \<open>ok\<close> the success of \<open>realloc\<close>.\<close>

definition mh_add_timer ::
  "ptr option \<Rightarrow> bool \<Rightarrow> u32 \<Rightarrow> u32 \<Rightarrow> nat \<Rightarrow> mh_timer \<Rightarrow> (ptr option \<times> mh_timer) option" where
  "mh_add_timer new ok now msec callback st =
     (case new of
        None \<Rightarrow> Some (None, st)
      | Some te \<Rightarrow>
          do { let x = \<lparr>te_time = now + msec, te_min_heap_idx = 0, te_handler = callback, te_privdata = 0\<rparr>;
               let m = (mht_ents st)(te \<mapsto> x);
               (r, s', m') \<leftarrow> min_heap_push ok (mht_heap st) m te;
               if r \<noteq> 0 then Some (None, \<lparr>mht_heap = s', mht_ents = m'(te := None)\<rparr>)
               else Some (Some te, \<lparr>mht_heap = s', mht_ents = m'\<rparr>) })"

definition mh_del_timer :: "ptr \<Rightarrow> mh_timer \<Rightarrow> (bool \<times> mh_timer) option" where
  "mh_del_timer e st =
     do { (r, s', m') \<leftarrow> min_heap_erase (mht_heap st) (mht_ents st) e;
          Some (0 = r, \<lparr>mht_heap = s', mht_ents = m'\<rparr>) }"

text \<open>
  \<open>(int) te->time - (int) current_time()\<close>: the conversions reinterpret the bits, the
  subtraction of two \<open>int\<close>s is undefined when it overflows.
\<close>

definition int_sub :: "int \<Rightarrow> int \<Rightarrow> int option" where
  "int_sub a b = (if - 2147483648 \<le> a - b \<and> a - b \<le> 2147483647 then Some (a - b) else None)"

definition wait_msec :: "u32 \<Rightarrow> u32 \<Rightarrow> int option" where
  "wait_msec time now =
     do { diff \<leftarrow> int_sub (sint time) (sint now);
          Some (if diff > 0 then diff else 0) }"

definition mh_find_nearest_expire_timer :: "u32 \<Rightarrow> mh_timer \<Rightarrow> int option" where
  "mh_find_nearest_expire_timer now st =
     do { t \<leftarrow> min_heap_top (mht_heap st);
          case t of
            None \<Rightarrow> Some (- 1)
          | Some te \<Rightarrow> do { x \<leftarrow> mht_ents st te; wait_msec (te_time x) now } }"

definition mh_time :: "mh_timer \<Rightarrow> ptr \<Rightarrow> u32 option" where
  "mh_time st te = map_option te_time (mht_ents st te)"

text \<open>\<open>min_heap_pop_(&min_heap); free(te);\<close>\<close>

definition mh_pop_free :: "ptr \<Rightarrow> mh_timer \<Rightarrow> mh_timer option" where
  "mh_pop_free te st =
     do { (_, s', m') \<leftarrow> min_heap_pop (mht_heap st) (mht_ents st);
          _ \<leftarrow> m' te;
          Some \<lparr>mht_heap = s', mht_ents = m'(te := None)\<rparr> }"

definition mh_expire_timer ::
  "(ptr \<Rightarrow> mh_timer \<Rightarrow> mh_timer option) \<Rightarrow> u32 \<Rightarrow> mh_timer \<Rightarrow> (mh_timer \<times> ptr list) option" where
  "mh_expire_timer handler cur st =
     expire_loop (\<lambda>st. min_heap_top (mht_heap st)) mh_time handler mh_pop_free cur st"

section \<open>The heap as a timer store\<close>

definition mht_wf :: "mh_timer \<Rightarrow> bool" where
  "mht_wf st \<longleftrightarrow> mh_wf (mht_heap st) (mht_ents st)"

definition mht_pending :: "mh_timer \<Rightarrow> ptr multiset" where
  "mht_pending st = mset (mh_list (mht_heap st))"

lemma min_heap_top_wf:
  assumes "mh_wf s m"
  shows "min_heap_top s = Some (if mh_list s = [] then None else Some (hd (mh_list s)))"
proof -
  have rep: "hole_rep s m (mh_list s) (length (mh_list s))" using assms by (rule mh_wf_rep)
  have "(mh_n s = 0) = (mh_list s = [])"
    using rep by (metis hole_rep_def length_0_conv unat_eq_zero)
  then show ?thesis
    using hole_rep_cell [OF rep, of 0] hole_rep_cap [OF rep]
    by (auto simp: min_heap_top_def aget_def hd_conv_nth Suc_le_eq)
qed

text \<open>The invariant only depends on the entries of the heap: another one may be freed.\<close>

lemma mh_wf_same:
  assumes "mh_wf s m" and same: "\<forall>q \<in> set (mh_list s). m' q = m q"
  shows "mh_wf s m'"
proof -
  have k: "\<forall>q \<in> set (mh_list s). key m' q = key m q" using same by (auto simp: key_def)
  have "heap_ordered (key m') (mh_list s)"
    using assms(1) k par_less unfolding mh_wf_def heap_ordered_def by (metis less_trans nth_mem)
  moreover have "hole_rep s m' (mh_list s) (length (mh_list s))"
    using assms nth_mem [of _ "mh_list s"] unfolding mh_wf_def hole_rep_def by auto
  ultimately show ?thesis using assms(1) by (simp add: mh_wf_def)
qed

lemma mh_wf_free:
  "mh_wf s m \<Longrightarrow> e \<notin> set (mh_list s) \<Longrightarrow>
     mh_wf s (m(e := None)) \<and> (\<forall>q \<in> set (mh_list s). key (m(e := None)) q = key m q)"
  using mh_wf_same [of s m "m(e := None)"] by (auto simp: key_def)

interpretation mhq: timer_queue mht_wf mht_pending "\<lambda>st. key (mht_ents st)"
  "\<lambda>st. min_heap_top (mht_heap st)" mh_time mh_pop_free
proof (unfold_locales, goal_cases)
  case (1 s)
  then show ?case by (simp add: mht_wf_def mht_pending_def min_heap_top_wf)
next
  case (2 s)
  then show ?case
    using pop_ok [of "mht_heap s" "mht_ents s"]
    by (auto simp: mht_wf_def mht_pending_def min_heap_top_wf)
next
  case (3 s q)
  then show ?case
    using mh_wf_dom [of "mht_heap s" "mht_ents s" q]
    by (auto simp: mht_wf_def mht_pending_def mh_time_def key_def split: option.splits)
next
  case (4 s q)
  then have wf: "mh_wf (mht_heap s) (mht_ents s)" and ne: "mh_list (mht_heap s) \<noteq> []"
    and q: "q = hd (mh_list (mht_heap s))"
    by (auto simp: mht_wf_def min_heap_top_wf split: if_splits)
  obtain s' m' x where 1: "min_heap_pop (mht_heap s) (mht_ents s) = Some (Some q, s', m')"
    "mh_wf s' m'" "mset (mh_list (mht_heap s)) = add_mset q (mset (mh_list s'))"
    "only_idx (mht_ents s) m' (set (mh_list (mht_heap s)))" "m' q = Some x"
    using pop_ok [OF wf ne] q by auto
  have notin: "q \<notin> set (mh_list s')"
    using remove_at_notin [OF _ 1(3)] wf by (simp add: mh_wf_def)
  show ?case
    using 1 mh_wf_free [OF 1(2) notin] only_idx_key [OF 1(4)]
    by (simp add: mh_pop_free_def mht_wf_def mht_pending_def)
qed

section \<open>Properties\<close>

text \<open>
  C4: with handlers that do no more than add later timers, \<open>expire_timer\<close> returns; it runs the
  handlers of exactly the entries whose time is not later than the current time, each once and
  in order of their times, and leaves a well-formed heap of entries that are all later.
\<close>

theorem mh_expire_timer_correct:
  assumes "mht_wf st"
    and "harmless_handler mht_wf mht_pending (\<lambda>st. key (mht_ents st))
           (\<lambda>st. min_heap_top (mht_heap st)) cur handler"
  shows "\<exists>st' log. mh_expire_timer handler cur st = Some (st', log) \<and> mht_wf st' \<and>
           mset log = filter_mset (\<lambda>q. key (mht_ents st) q \<le> cur) (mht_pending st) \<and>
           sorted (map (key (mht_ents st)) log) \<and>
           (\<forall>q \<in># mht_pending st'. cur < key (mht_ents st') q)"
  unfolding mh_expire_timer_def by (rule mhq.expire_spec [OF assms])

theorem mh_expire_timer_correct_witness:
  "\<exists>st' log. mh_expire_timer (\<lambda>q s. Some s) 20 \<lparr>mht_heap = ex_heap, mht_ents = ex_mem\<rparr> = Some (st', log) \<and>
     mht_wf st' \<and> mset log = {#1, 3#}"
proof -
  have "mht_wf \<lparr>mht_heap = ex_heap, mht_ents = ex_mem\<rparr>" using ex_heap_wf by (simp add: mht_wf_def)
  from mh_expire_timer_correct [OF this harmless_quiet, of 20] show ?thesis
    by (auto simp: mht_pending_def ex_heap_list key_def ex_mem_def ex_entry_def)
qed

text \<open>
  adding a timer. If the allocations succeed the new entry is pending with its time set to
  the current time plus the delay (modulo 2^32) and every other pending timer is kept with its
  time; if an allocation fails the call returns the null pointer and the pending timers are unchanged.
\<close>

theorem mh_add_timer_correct:
  assumes "mht_wf st" and "mht_ents st te = None" and "mh_n (mht_heap st) < 2147483647"
  shows "if ok \<or> mh_n (mht_heap st) < mh_a (mht_heap st)
         then \<exists>st'. mh_add_timer (Some te) ok now msec cb st = Some (Some te, st') \<and> mht_wf st' \<and>
                mht_pending st' = add_mset te (mht_pending st) \<and>
                key (mht_ents st') = (key (mht_ents st))(te := now + msec)
         else mh_add_timer (Some te) ok now msec cb st = Some (None, st)"
proof -
  let ?x = "\<lparr>te_time = now + msec, te_min_heap_idx = 0, te_handler = cb, te_privdata = 0\<rparr>"
  let ?m = "(mht_ents st)(te \<mapsto> ?x)"
  let ?h = "mht_heap st"
  have wf0: "mh_wf ?h (mht_ents st)" using assms(1) by (simp add: mht_wf_def)
  have new: "te \<notin> set (mh_list ?h)" using mh_wf_dom [OF wf0, of te] assms(2) by auto
  have k: "key ?m = (key (mht_ents st))(te := now + msec)" by (rule ext) (simp add: key_def)
  have "\<forall>q \<in> set (mh_list ?h). ?m q = mht_ents st q" using new by auto
  then have wf: "mh_wf ?h ?m"
    using mh_wf_same [OF wf0] by simp
  show ?thesis
  proof (cases "ok \<or> mh_n ?h < mh_a ?h")
    case True
    then obtain s' m' where "min_heap_push ok ?h ?m te = Some (0, s', m')" "mh_wf s' m'"
      "mset (mh_list s') = add_mset te (mset (mh_list ?h))" "only_idx ?m m' (set (mh_list s'))"
      using push_ok [OF wf _ new assms(3) True] by auto
    with True k only_idx_key show ?thesis
      by (simp add: mh_add_timer_def mht_wf_def mht_pending_def)
  next
    case False
    have "mh_n ?h \<le> mh_a ?h"
      using wf by (simp add: mh_wf_def hole_rep_def word_le_nat_alt)
    with False have "mh_n ?h = mh_a ?h" by simp
    with False push_fail [OF wf _ assms(3)] assms(2) show ?thesis
      by (simp add: mh_add_timer_def fun_upd_idem)
  qed
qed

theorem mh_add_timer_correct_witness:
  "\<exists>st'. mh_add_timer (Some 9) True 100 3000 0 (mh_init_timer Map.empty) = Some (Some 9, st') \<and>
     mht_wf st' \<and> mht_pending st' = {#9#} \<and> key (mht_ents st') 9 = 3100"
proof -
  have "mht_wf (mh_init_timer Map.empty)" by (simp add: mht_wf_def mh_init_timer_def mh_wf_ctor)
  from mh_add_timer_correct [OF this, of 9 True 100 3000 0] show ?thesis
    by (auto simp: mh_init_timer_def min_heap_ctor_def mht_pending_def mh_list_def)
qed

end
