(* ===== verification/Fifo.thy ===== *)
theory Fifo
  imports Prelude "HOL-Library.Extended_Nat" "HOL-Library.Sublist"
begin

text \<open>
  The contract of the queues under \<^verbatim>\<open>free_queue/\<close> and of the blocking queues of the thread
  pools, for one caller at a time: a bounded or unbounded first-in first-out queue. The locale
  states what \<open>put\<close> and \<open>get\<close> promise; its theorem says that every sequence of calls returns
  what the abstract list queue returns, call by call.
\<close>

datatype 'a fifo_op = Put 'a | Get

datatype 'a fifo_res = Accepted bool | Got "'a option"

section \<open>The abstract queue\<close>

fun q_step :: "enat \<Rightarrow> 'a fifo_op \<Rightarrow> 'a list \<Rightarrow> 'a fifo_res \<times> 'a list" where
  "q_step c (Put x) q = (if enat (length q) < c then (Accepted True, q @ [x]) else (Accepted False, q))"
| "q_step c Get [] = (Got None, [])"
| "q_step c Get (x # q) = (Got (Some x), q)"

fun q_run :: "enat \<Rightarrow> 'a fifo_op list \<Rightarrow> 'a list \<Rightarrow> 'a fifo_res list \<times> 'a list" where
  "q_run c [] q = ([], q)"
| "q_run c (e # es) q =
     (let (x, q) = q_step c e q; (xs, q) = q_run c es q in (x # xs, q))"

text \<open>
  A queue of linked messages may only be given a message it does not already hold;
  \<open>adm q x\<close> says that \<open>x\<close> may be put into a queue that holds \<open>q\<close>.
\<close>

fun q_admissible :: "('a list \<Rightarrow> 'a \<Rightarrow> bool) \<Rightarrow> enat \<Rightarrow> 'a fifo_op list \<Rightarrow> 'a list \<Rightarrow> bool" where
  "q_admissible adm c [] q \<longleftrightarrow> True"
| "q_admissible adm c (Put x # es) q \<longleftrightarrow> adm q x \<and> q_admissible adm c es (snd (q_step c (Put x) q))"
| "q_admissible adm c (Get # es) q \<longleftrightarrow> q_admissible adm c es (snd (q_step c Get q))"

lemma q_admissible_True [simp]: "q_admissible (\<lambda>_ _. True) c es q"
proof (induction es arbitrary: q)
  case (Cons e es)
  then show ?case by (cases e) simp_all
qed simp

text \<open>What a run took in and gave out.\<close>

fun accepted :: "'a fifo_op list \<Rightarrow> 'a fifo_res list \<Rightarrow> 'a list" where
  "accepted (Put x # es) (Accepted b # rs) = (if b then x # accepted es rs else accepted es rs)"
| "accepted (e # es) (r # rs) = accepted es rs"
| "accepted es rs = []"

fun delivered :: "'a fifo_res list \<Rightarrow> 'a list" where
  "delivered (Got (Some x) # rs) = x # delivered rs"
| "delivered (r # rs) = delivered rs"
| "delivered [] = []"

fun puts :: "'a fifo_op list \<Rightarrow> 'a list" where
  "puts (Put x # es) = x # puts es"
| "puts (Get # es) = puts es"
| "puts [] = []"

text \<open>Nothing is lost, duplicated or reordered.\<close>

lemma q_run_fifo:
  "q_run c es q = (rs, q') \<Longrightarrow> q @ accepted es rs = delivered rs @ q'"
proof (induction es arbitrary: q rs)
  case (Cons e es)
  show ?case
  proof (cases e)
    case (Put x)
    then show ?thesis
      using Cons by (auto split: prod.splits if_splits) fastforce
  next
    case Get
    then show ?thesis
      using Cons by (cases q) (fastforce split: prod.splits)+
  qed
qed simp

lemma q_run_cap: "q_run c es q = (rs, q') \<Longrightarrow> enat (length q) \<le> c \<Longrightarrow> enat (length q') \<le> c"
proof (induction es arbitrary: q rs)
  case (Cons e es)
  have "enat (length (snd (q_step c e q))) \<le> c"
    using Cons.prems(2) by (cases e; cases q) (auto simp: Suc_ile_eq intro: order_trans [OF _ Cons.prems(2)])
  then show ?case
    using Cons by (auto split: prod.splits)
qed simp

lemma q_run_accepted: "q_run c es q = (rs, q') \<Longrightarrow> subseq (accepted es rs) (puts es)"
proof (induction es arbitrary: q rs)
  case (Cons e es)
  then show ?case
    by (cases e; cases q) (auto split: prod.splits if_splits intro: subseq_Cons')
qed simp

section \<open>Runs of an implementation\<close>

fun fifo_run ::
  "('s \<Rightarrow> 'a \<Rightarrow> (bool \<times> 's) option) \<Rightarrow> ('s \<Rightarrow> ('a option \<times> 's) option) \<Rightarrow>
   'a fifo_op list \<Rightarrow> 's \<Rightarrow> ('a fifo_res list \<times> 's) option" where
  "fifo_run put get [] s = Some ([], s)"
| "fifo_run put get (Put x # es) s =
     do { (b, s) \<leftarrow> put s x; (rs, s) \<leftarrow> fifo_run put get es s; Some (Accepted b # rs, s) }"
| "fifo_run put get (Get # es) s =
     do { (v, s) \<leftarrow> get s; (rs, s) \<leftarrow> fifo_run put get es s; Some (Got v # rs, s) }"

locale bounded_fifo =
  fixes invar :: "'s \<Rightarrow> bool"
    and contents :: "'s \<Rightarrow> 'a list"
    and cap :: "'s \<Rightarrow> enat"
    and adm :: "'a list \<Rightarrow> 'a \<Rightarrow> bool"
    and put :: "'s \<Rightarrow> 'a \<Rightarrow> (bool \<times> 's) option"
    and get :: "'s \<Rightarrow> ('a option \<times> 's) option"
  assumes put_room: "invar s \<Longrightarrow> adm (contents s) x \<Longrightarrow> enat (length (contents s)) < cap s \<Longrightarrow>
      \<exists>s'. put s x = Some (True, s') \<and> invar s' \<and> contents s' = contents s @ [x] \<and> cap s' = cap s"
    and put_full: "invar s \<Longrightarrow> adm (contents s) x \<Longrightarrow> \<not> enat (length (contents s)) < cap s \<Longrightarrow>
      \<exists>s'. put s x = Some (False, s') \<and> invar s' \<and> contents s' = contents s \<and> cap s' = cap s"
    and get_some: "invar s \<Longrightarrow> contents s = v # vs \<Longrightarrow>
      \<exists>s'. get s = Some (Some v, s') \<and> invar s' \<and> contents s' = vs \<and> cap s' = cap s"
    and get_none: "invar s \<Longrightarrow> contents s = [] \<Longrightarrow>
      \<exists>s'. get s = Some (None, s') \<and> invar s' \<and> contents s' = [] \<and> cap s' = cap s"
begin

lemma step_refines:
  assumes "invar s" "q_admissible adm (cap s) (e # es) (contents s)"
  shows "\<exists>s'. fifo_run put get (e # es) s =
      do { (rs, t) \<leftarrow> fifo_run put get es s'; Some (fst (q_step (cap s) e (contents s)) # rs, t) } \<and>
    invar s' \<and> contents s' = snd (q_step (cap s) e (contents s)) \<and> cap s' = cap s"
proof (cases e)
  case (Put x)
  then have "adm (contents s) x" using assms(2) by simp
  then show ?thesis
    using Put put_room [OF assms(1)] put_full [OF assms(1)]
    by (cases "enat (length (contents s)) < cap s") fastforce+
next
  case Get
  then show ?thesis
    using get_some [OF assms(1)] get_none [OF assms(1)] by (cases "contents s") fastforce+
qed

lemma run_refines:
  assumes "invar s" "q_admissible adm (cap s) es (contents s)"
  shows "\<exists>s'. fifo_run put get es s = Some (fst (q_run (cap s) es (contents s)), s') \<and> invar s' \<and>
    contents s' = snd (q_run (cap s) es (contents s)) \<and> cap s' = cap s"
  using assms
proof (induction es arbitrary: s)
  case (Cons e es)
  obtain s' where s': "fifo_run put get (e # es) s =
      do { (rs, t) \<leftarrow> fifo_run put get es s'; Some (fst (q_step (cap s) e (contents s)) # rs, t) }"
    "invar s'" "contents s' = snd (q_step (cap s) e (contents s))" "cap s' = cap s"
    using step_refines [OF Cons.prems] by auto
  have "q_admissible adm (cap s') es (contents s')"
    using Cons.prems(2) s'(3,4) by (cases e) auto
  from Cons.IH [OF s'(2) this] s' show ?case
    by (auto simp: split_beta)
qed simp

lemma run_fifo:
  assumes "invar s" "q_admissible adm (cap s) es (contents s)"
  shows "\<exists>rs s'. fifo_run put get es s = Some (rs, s') \<and> invar s' \<and>
    contents s @ accepted es rs = delivered rs @ contents s' \<and> subseq (accepted es rs) (puts es)"
  using run_refines [OF assms] q_run_fifo [of "cap s" es "contents s"]
    q_run_accepted [of "cap s" es "contents s"]
  by (metis prod.collapse)

end

end
