(* ===== verification/RteRing.thy ===== *)
theory RteRing
  imports Fifo
begin

text \<open>
  The ring of \<^verbatim>\<open>free_queue/rte_ring/rte_ring.h\<close> and \<^verbatim>\<open>rte_ring.c\<close>: a fixed-size table of
  pointers with free-running 32-bit head and tail indices. Every operation is modelled at its
  word width; the table is a list of cells, so that an access outside it is visible as \<open>None\<close>.
  The operations are those of one thread running alone; a busy-wait that never ends is \<open>None\<close>.
\<close>

section \<open>Data\<close>

datatype rte_ring_queue_behavior = RTE_RING_QUEUE_FIXED | RTE_RING_QUEUE_VARIABLE

record rte_prod =
  pr_watermark :: u32
  pr_sp_enqueue :: u32
  pr_size :: u32
  pr_mask :: u32
  pr_head :: u32
  pr_tail :: u32

record rte_cons =
  co_sc_dequeue :: u32
  co_size :: u32
  co_mask :: u32
  co_head :: u32
  co_tail :: u32

record 'a rte_ring =
  rr_name :: string
  rr_flags :: u32
  rr_prod :: rte_prod
  rr_cons :: rte_cons
  rr_ring :: "'a option list"

definition RING_F_SP_ENQ :: u32 where "RING_F_SP_ENQ = 1"
definition RING_F_SC_DEQ :: u32 where "RING_F_SC_DEQ = 2"
definition RTE_RING_QUOT_EXCEED :: u32 where "RTE_RING_QUOT_EXCEED = 2147483648"
definition RTE_RING_SZ_MASK :: u32 where "RTE_RING_SZ_MASK = 268435455"
definition RTE_RING_NAMESIZE :: nat where "RTE_RING_NAMESIZE = 32"

definition ENOENT :: int where "ENOENT = 2"
definition EINVAL :: int where "EINVAL = 22"
definition ENOBUFS :: int where "ENOBUFS = 105"
definition EDQUOT :: int where "EDQUOT = 122"

section \<open>rte\_ring.c\<close>

definition POWEROF2 :: "u32 \<Rightarrow> bool" where
  "POWEROF2 x \<longleftrightarrow> (x - 1) AND x = 0"

text \<open>
  \<open>rte_ring_create\<close>: \<open>Inl errno\<close> for a null result. \<open>ok\<close> is the success of \<open>malloc\<close>; the table
  it returns is indeterminate. \<open>snprintf\<close> keeps at most 31 characters of the name.
\<close>

definition rte_ring_create :: "bool \<Rightarrow> string \<Rightarrow> u32 \<Rightarrow> u32 \<Rightarrow> int + 'a rte_ring" where
  "rte_ring_create ok name cnt flags =
     (if \<not> POWEROF2 cnt \<or> cnt > RTE_RING_SZ_MASK then Inl EINVAL
      else if ok then
        Inr \<lparr>rr_name = take (RTE_RING_NAMESIZE - 1) name, rr_flags = flags,
             rr_prod = \<lparr>pr_watermark = cnt,
                        pr_sp_enqueue = (if flags AND RING_F_SP_ENQ \<noteq> 0 then 1 else 0),
                        pr_size = cnt, pr_mask = cnt - 1, pr_head = 0, pr_tail = 0\<rparr>,
             rr_cons = \<lparr>co_sc_dequeue = (if flags AND RING_F_SC_DEQ \<noteq> 0 then 1 else 0),
                        co_size = cnt, co_mask = cnt - 1, co_head = 0, co_tail = 0\<rparr>,
             rr_ring = replicate (unat cnt) None\<rparr>
      else Inl ENOBUFS)"

definition rte_ring_set_water_mark :: "'a rte_ring \<Rightarrow> u32 \<Rightarrow> int \<times> 'a rte_ring" where
  "rte_ring_set_water_mark r cnt =
     (if cnt \<ge> pr_size (rr_prod r) then (- EINVAL, r)
      else (let cnt = (if cnt = 0 then pr_size (rr_prod r) else cnt)
            in (0, r\<lparr>rr_prod := (rr_prod r)\<lparr>pr_watermark := cnt\<rparr>\<rparr>)))"

section \<open>Copying\<close>

text \<open>
  The bodies of \<open>ENQUEUE_PTRS\<close> and \<open>DEQUEUE_PTRS\<close> differ only in the assignment, which is the
  parameter \<open>cp i idx\<close>. Without wrap-around the copy is unrolled four times, with the rest in
  a \<open>switch\<close> whose cases fall through; otherwise there are two loops.
\<close>

partial_function (option) unrolled4 ::
  "(u32 \<Rightarrow> u32 \<Rightarrow> 'd \<Rightarrow> 'd option) \<Rightarrow> u32 \<Rightarrow> u32 \<Rightarrow> u32 \<Rightarrow> 'd \<Rightarrow> (u32 \<times> u32 \<times> 'd) option" where
  "unrolled4 cp bnd i idx d =
     (if i < bnd then
        do { d \<leftarrow> cp i idx d;
             d \<leftarrow> cp (i + 1) (idx + 1) d;
             d \<leftarrow> cp (i + 2) (idx + 2) d;
             d \<leftarrow> cp (i + 3) (idx + 3) d;
             unrolled4 cp bnd (i + 4) (idx + 4) d }
      else Some (i, idx, d))"

declare unrolled4.simps [code]

definition switch_rest ::
  "(u32 \<Rightarrow> u32 \<Rightarrow> 'd \<Rightarrow> 'd option) \<Rightarrow> u32 \<Rightarrow> u32 \<Rightarrow> u32 \<Rightarrow> 'd \<Rightarrow> 'd option" where
  "switch_rest cp k i idx d =
     (if k = 3 then do { d \<leftarrow> cp i idx d; d \<leftarrow> cp (i + 1) (idx + 1) d; cp (i + 2) (idx + 2) d }
      else if k = 2 then do { d \<leftarrow> cp i idx d; cp (i + 1) (idx + 1) d }
      else if k = 1 then cp i idx d
      else Some d)"

partial_function (option) copy_to_end ::
  "(u32 \<Rightarrow> u32 \<Rightarrow> 'd \<Rightarrow> 'd option) \<Rightarrow> u32 \<Rightarrow> u32 \<Rightarrow> u32 \<Rightarrow> 'd \<Rightarrow> (u32 \<times> 'd) option" where
  "copy_to_end cp sz i idx d =
     (if idx < sz then do { d \<leftarrow> cp i idx d; copy_to_end cp sz (i + 1) (idx + 1) d }
      else Some (i, d))"

declare copy_to_end.simps [code]

partial_function (option) copy_to_count ::
  "(u32 \<Rightarrow> u32 \<Rightarrow> 'd \<Rightarrow> 'd option) \<Rightarrow> u32 \<Rightarrow> u32 \<Rightarrow> u32 \<Rightarrow> 'd \<Rightarrow> 'd option" where
  "copy_to_count cp n i idx d =
     (if i < n then do { d \<leftarrow> cp i idx d; copy_to_count cp n (i + 1) (idx + 1) d }
      else Some d)"

declare copy_to_count.simps [code]

definition COPY_PTRS ::
  "(u32 \<Rightarrow> u32 \<Rightarrow> 'd \<Rightarrow> 'd option) \<Rightarrow> u32 \<Rightarrow> u32 \<Rightarrow> u32 \<Rightarrow> u32 \<Rightarrow> 'd \<Rightarrow> 'd option" where
  "COPY_PTRS cp head msk sz n d =
     (let idx = head AND msk in
      if idx + n < sz then
        do { (i, idx, d) \<leftarrow> unrolled4 cp (n AND NOT 3) 0 idx d;
             switch_rest cp (n AND 3) i idx d }
      else
        do { (i, d) \<leftarrow> copy_to_end cp sz 0 idx d;
             copy_to_count cp n i 0 d })"

text \<open>\<open>r->ring[idx] = obj_table[i]\<close> and \<open>obj_table[i] = r->ring[idx]\<close>.\<close>

definition store_cell :: "'a option list \<Rightarrow> u32 \<Rightarrow> u32 \<Rightarrow> 'a option list \<Rightarrow> 'a option list option" where
  "store_cell obj_table i idx ring = do { v \<leftarrow> aget obj_table (unat i); aset ring (unat idx) v }"

definition load_cell :: "'a option list \<Rightarrow> u32 \<Rightarrow> u32 \<Rightarrow> 'a option list \<Rightarrow> 'a option list option" where
  "load_cell ring i idx obj_table = do { v \<leftarrow> aget ring (unat idx); aset obj_table (unat i) v }"

definition ENQUEUE_PTRS :: "'a rte_ring \<Rightarrow> u32 \<Rightarrow> u32 \<Rightarrow> u32 \<Rightarrow> 'a option list \<Rightarrow> 'a rte_ring option" where
  "ENQUEUE_PTRS r prod_head msk n obj_table =
     do { xs \<leftarrow> COPY_PTRS (store_cell obj_table) prod_head msk (pr_size (rr_prod r)) n (rr_ring r);
          Some (r\<lparr>rr_ring := xs\<rparr>) }"

definition DEQUEUE_PTRS ::
  "'a rte_ring \<Rightarrow> u32 \<Rightarrow> u32 \<Rightarrow> u32 \<Rightarrow> 'a option list \<Rightarrow> 'a option list option" where
  "DEQUEUE_PTRS r cons_head msk n obj_table =
     COPY_PTRS (load_cell (rr_ring r)) cons_head msk (co_size (rr_cons r)) n obj_table"

section \<open>Enqueue\<close>

definition set_prod_head :: "u32 \<Rightarrow> 'a rte_ring \<Rightarrow> 'a rte_ring" where
  "set_prod_head v r = r\<lparr>rr_prod := (rr_prod r)\<lparr>pr_head := v\<rparr>\<rparr>"

definition set_prod_tail :: "u32 \<Rightarrow> 'a rte_ring \<Rightarrow> 'a rte_ring" where
  "set_prod_tail v r = r\<lparr>rr_prod := (rr_prod r)\<lparr>pr_tail := v\<rparr>\<rparr>"

definition set_cons_head :: "u32 \<Rightarrow> 'a rte_ring \<Rightarrow> 'a rte_ring" where
  "set_cons_head v r = r\<lparr>rr_cons := (rr_cons r)\<lparr>co_head := v\<rparr>\<rparr>"

definition set_cons_tail :: "u32 \<Rightarrow> 'a rte_ring \<Rightarrow> 'a rte_ring" where
  "set_cons_tail v r = r\<lparr>rr_cons := (rr_cons r)\<lparr>co_tail := v\<rparr>\<rparr>"

text \<open>\<open>rte_atomic32_cmpset\<close>: the success flag and the new value of the location.\<close>

definition rte_atomic32_cmpset :: "u32 \<Rightarrow> u32 \<Rightarrow> u32 \<Rightarrow> bool \<times> u32" where
  "rte_atomic32_cmpset dst expected src = (if dst = expected then (True, src) else (False, dst))"

text \<open>The value returned once the objects are stored.\<close>

definition enqueue_ret ::
  "'a rte_ring \<Rightarrow> u32 \<Rightarrow> u32 \<Rightarrow> u32 \<Rightarrow> rte_ring_queue_behavior \<Rightarrow> int" where
  "enqueue_ret r msk free_entries n behavior =
     (if (msk + 1) - free_entries + n > pr_watermark (rr_prod r)
      then (if behavior = RTE_RING_QUEUE_FIXED then - EDQUOT
            else sint (n OR RTE_RING_QUOT_EXCEED))
      else (if behavior = RTE_RING_QUEUE_FIXED then 0 else sint n))"

definition rte_ring_sp_do_enqueue ::
  "'a rte_ring \<Rightarrow> 'a option list \<Rightarrow> u32 \<Rightarrow> rte_ring_queue_behavior \<Rightarrow> (int \<times> 'a rte_ring) option" where
  "rte_ring_sp_do_enqueue r obj_table n behavior =
     (let msk = pr_mask (rr_prod r);
          prod_head = pr_head (rr_prod r);
          cons_tail = co_tail (rr_cons r);
          free_entries = msk + cons_tail - prod_head
      in if n > free_entries \<and> behavior = RTE_RING_QUEUE_FIXED then Some (- ENOBUFS, r)
         else if n > free_entries \<and> free_entries = 0 then Some (0, r)
         else
           (let n = (if n > free_entries then free_entries else n);
                prod_next = prod_head + n
            in do { r \<leftarrow> ENQUEUE_PTRS (set_prod_head prod_next r) prod_head msk n obj_table;
                    let ret = enqueue_ret r msk free_entries n behavior;
                    Some (ret, set_prod_tail prod_next r) }))"

text \<open>
  The first phase of the multi-producer enqueue, the loop that moves \<open>prod.head\<close>: \<open>Inl ret\<close> for
  an early return, \<open>Inr (prod_head, prod_next, free_entries, n, r)\<close> once the compare-and-set
  has succeeded.
\<close>

partial_function (option) mp_move_head ::
  "'a rte_ring \<Rightarrow> u32 \<Rightarrow> rte_ring_queue_behavior \<Rightarrow>
   ((int \<times> 'a rte_ring) + (u32 \<times> u32 \<times> u32 \<times> u32 \<times> 'a rte_ring)) option" where
  "mp_move_head r mx behavior =
     (let msk = pr_mask (rr_prod r);
          prod_head = pr_head (rr_prod r);
          cons_tail = co_tail (rr_cons r);
          free_entries = msk + cons_tail - prod_head
      in if mx > free_entries \<and> behavior = RTE_RING_QUEUE_FIXED then Some (Inl (- ENOBUFS, r))
         else if mx > free_entries \<and> free_entries = 0 then Some (Inl (0, r))
         else
           (let n = (if mx > free_entries then free_entries else mx);
                prod_next = prod_head + n;
                (success, head) = rte_atomic32_cmpset (pr_head (rr_prod r)) prod_head prod_next;
                r = set_prod_head head r
            in if success then Some (Inr (prod_head, prod_next, free_entries, n, r))
               else mp_move_head r mx behavior))"

declare mp_move_head.simps [code]

definition rte_ring_mp_do_enqueue ::
  "'a rte_ring \<Rightarrow> 'a option list \<Rightarrow> u32 \<Rightarrow> rte_ring_queue_behavior \<Rightarrow> (int \<times> 'a rte_ring) option" where
  "rte_ring_mp_do_enqueue r obj_table n behavior =
     (let msk = pr_mask (rr_prod r) in
      do { x \<leftarrow> mp_move_head r n behavior;
           case x of
             Inl ret \<Rightarrow> Some ret
           | Inr (prod_head, prod_next, free_entries, n, r) \<Rightarrow>
               do { r \<leftarrow> ENQUEUE_PTRS r prod_head msk n obj_table;
                    let ret = enqueue_ret r msk free_entries n behavior;
                    if pr_tail (rr_prod r) \<noteq> prod_head then None
                    else Some (ret, set_prod_tail prod_next r) } })"

section \<open>Dequeue\<close>

definition rte_ring_sc_do_dequeue ::
  "'a rte_ring \<Rightarrow> 'a option list \<Rightarrow> u32 \<Rightarrow> rte_ring_queue_behavior \<Rightarrow>
   (int \<times> 'a option list \<times> 'a rte_ring) option" where
  "rte_ring_sc_do_dequeue r obj_table n behavior =
     (let msk = pr_mask (rr_prod r);
          cons_head = co_head (rr_cons r);
          prod_tail = pr_tail (rr_prod r);
          entries = prod_tail - cons_head
      in if n > entries \<and> behavior = RTE_RING_QUEUE_FIXED then Some (- ENOENT, obj_table, r)
         else if n > entries \<and> entries = 0 then Some (0, obj_table, r)
         else
           (let n = (if n > entries then entries else n);
                cons_next = cons_head + n;
                r = set_cons_head cons_next r
            in do { obj_table \<leftarrow> DEQUEUE_PTRS r cons_head msk n obj_table;
                    Some (if behavior = RTE_RING_QUEUE_FIXED then 0 else sint n,
                          obj_table, set_cons_tail cons_next r) }))"

partial_function (option) mc_move_head ::
  "'a rte_ring \<Rightarrow> u32 \<Rightarrow> rte_ring_queue_behavior \<Rightarrow>
   ((int \<times> 'a rte_ring) + (u32 \<times> u32 \<times> u32 \<times> 'a rte_ring)) option" where
  "mc_move_head r mx behavior =
     (let cons_head = co_head (rr_cons r);
          prod_tail = pr_tail (rr_prod r);
          entries = prod_tail - cons_head
      in if mx > entries \<and> behavior = RTE_RING_QUEUE_FIXED then Some (Inl (- ENOENT, r))
         else if mx > entries \<and> entries = 0 then Some (Inl (0, r))
         else
           (let n = (if mx > entries then entries else mx);
                cons_next = cons_head + n;
                (success, head) = rte_atomic32_cmpset (co_head (rr_cons r)) cons_head cons_next;
                r = set_cons_head head r
            in if success then Some (Inr (cons_head, cons_next, n, r))
               else mc_move_head r mx behavior))"

declare mc_move_head.simps [code]

definition rte_ring_mc_do_dequeue ::
  "'a rte_ring \<Rightarrow> 'a option list \<Rightarrow> u32 \<Rightarrow> rte_ring_queue_behavior \<Rightarrow>
   (int \<times> 'a option list \<times> 'a rte_ring) option" where
  "rte_ring_mc_do_dequeue r obj_table n behavior =
     (let msk = pr_mask (rr_prod r) in
      do { x \<leftarrow> mc_move_head r n behavior;
           case x of
             Inl (ret, r) \<Rightarrow> Some (ret, obj_table, r)
           | Inr (cons_head, cons_next, n, r) \<Rightarrow>
               do { obj_table \<leftarrow> DEQUEUE_PTRS r cons_head msk n obj_table;
                    if co_tail (rr_cons r) \<noteq> cons_head then None
                    else Some (if behavior = RTE_RING_QUEUE_FIXED then 0 else sint n,
                               obj_table, set_cons_tail cons_next r) } })"

section \<open>The public operations\<close>

definition rte_ring_mp_enqueue_bulk :: "'a rte_ring \<Rightarrow> 'a option list \<Rightarrow> u32 \<Rightarrow> (int \<times> 'a rte_ring) option" where
  "rte_ring_mp_enqueue_bulk r obj_table n = rte_ring_mp_do_enqueue r obj_table n RTE_RING_QUEUE_FIXED"

definition rte_ring_sp_enqueue_bulk :: "'a rte_ring \<Rightarrow> 'a option list \<Rightarrow> u32 \<Rightarrow> (int \<times> 'a rte_ring) option" where
  "rte_ring_sp_enqueue_bulk r obj_table n = rte_ring_sp_do_enqueue r obj_table n RTE_RING_QUEUE_FIXED"

definition rte_ring_enqueue_bulk :: "'a rte_ring \<Rightarrow> 'a option list \<Rightarrow> u32 \<Rightarrow> (int \<times> 'a rte_ring) option" where
  "rte_ring_enqueue_bulk r obj_table n =
     (if pr_sp_enqueue (rr_prod r) \<noteq> 0 then rte_ring_sp_enqueue_bulk r obj_table n
      else rte_ring_mp_enqueue_bulk r obj_table n)"

definition rte_ring_mp_enqueue :: "'a rte_ring \<Rightarrow> 'a \<Rightarrow> (int \<times> 'a rte_ring) option" where
  "rte_ring_mp_enqueue r obj = rte_ring_mp_enqueue_bulk r [Some obj] 1"

definition rte_ring_sp_enqueue :: "'a rte_ring \<Rightarrow> 'a \<Rightarrow> (int \<times> 'a rte_ring) option" where
  "rte_ring_sp_enqueue r obj = rte_ring_sp_enqueue_bulk r [Some obj] 1"

definition rte_ring_enqueue :: "'a rte_ring \<Rightarrow> 'a \<Rightarrow> (int \<times> 'a rte_ring) option" where
  "rte_ring_enqueue r obj =
     (if pr_sp_enqueue (rr_prod r) \<noteq> 0 then rte_ring_sp_enqueue r obj else rte_ring_mp_enqueue r obj)"

definition rte_ring_mc_dequeue_bulk ::
  "'a rte_ring \<Rightarrow> 'a option list \<Rightarrow> u32 \<Rightarrow> (int \<times> 'a option list \<times> 'a rte_ring) option" where
  "rte_ring_mc_dequeue_bulk r obj_table n = rte_ring_mc_do_dequeue r obj_table n RTE_RING_QUEUE_FIXED"

definition rte_ring_sc_dequeue_bulk ::
  "'a rte_ring \<Rightarrow> 'a option list \<Rightarrow> u32 \<Rightarrow> (int \<times> 'a option list \<times> 'a rte_ring) option" where
  "rte_ring_sc_dequeue_bulk r obj_table n = rte_ring_sc_do_dequeue r obj_table n RTE_RING_QUEUE_FIXED"

definition rte_ring_dequeue_bulk ::
  "'a rte_ring \<Rightarrow> 'a option list \<Rightarrow> u32 \<Rightarrow> (int \<times> 'a option list \<times> 'a rte_ring) option" where
  "rte_ring_dequeue_bulk r obj_table n =
     (if co_sc_dequeue (rr_cons r) \<noteq> 0 then rte_ring_sc_dequeue_bulk r obj_table n
      else rte_ring_mc_dequeue_bulk r obj_table n)"

definition rte_ring_mc_dequeue :: "'a rte_ring \<Rightarrow> 'a option list \<Rightarrow> (int \<times> 'a option list \<times> 'a rte_ring) option" where
  "rte_ring_mc_dequeue r obj_p = rte_ring_mc_dequeue_bulk r obj_p 1"

definition rte_ring_sc_dequeue :: "'a rte_ring \<Rightarrow> 'a option list \<Rightarrow> (int \<times> 'a option list \<times> 'a rte_ring) option" where
  "rte_ring_sc_dequeue r obj_p = rte_ring_sc_dequeue_bulk r obj_p 1"

definition rte_ring_dequeue :: "'a rte_ring \<Rightarrow> 'a option list \<Rightarrow> (int \<times> 'a option list \<times> 'a rte_ring) option" where
  "rte_ring_dequeue r obj_p =
     (if co_sc_dequeue (rr_cons r) \<noteq> 0 then rte_ring_sc_dequeue r obj_p else rte_ring_mc_dequeue r obj_p)"

definition rte_ring_full :: "'a rte_ring \<Rightarrow> bool" where
  "rte_ring_full r \<longleftrightarrow> (co_tail (rr_cons r) - pr_tail (rr_prod r) - 1) AND pr_mask (rr_prod r) = 0"

definition rte_ring_empty :: "'a rte_ring \<Rightarrow> bool" where
  "rte_ring_empty r \<longleftrightarrow> co_tail (rr_cons r) = pr_tail (rr_prod r)"

definition rte_ring_count :: "'a rte_ring \<Rightarrow> u32" where
  "rte_ring_count r = (pr_tail (rr_prod r) - co_tail (rr_cons r)) AND pr_mask (rr_prod r)"

definition rte_ring_free_count :: "'a rte_ring \<Rightarrow> u32" where
  "rte_ring_free_count r = (co_tail (rr_cons r) - pr_tail (rr_prod r) - 1) AND pr_mask (rr_prod r)"

definition rte_ring_mp_enqueue_burst :: "'a rte_ring \<Rightarrow> 'a option list \<Rightarrow> u32 \<Rightarrow> (int \<times> 'a rte_ring) option" where
  "rte_ring_mp_enqueue_burst r obj_table n = rte_ring_mp_do_enqueue r obj_table n RTE_RING_QUEUE_VARIABLE"

definition rte_ring_sp_enqueue_burst :: "'a rte_ring \<Rightarrow> 'a option list \<Rightarrow> u32 \<Rightarrow> (int \<times> 'a rte_ring) option" where
  "rte_ring_sp_enqueue_burst r obj_table n = rte_ring_sp_do_enqueue r obj_table n RTE_RING_QUEUE_VARIABLE"

definition rte_ring_enqueue_burst :: "'a rte_ring \<Rightarrow> 'a option list \<Rightarrow> u32 \<Rightarrow> (int \<times> 'a rte_ring) option" where
  "rte_ring_enqueue_burst r obj_table n =
     (if pr_sp_enqueue (rr_prod r) \<noteq> 0 then rte_ring_sp_enqueue_burst r obj_table n
      else rte_ring_mp_enqueue_burst r obj_table n)"

definition rte_ring_mc_dequeue_burst ::
  "'a rte_ring \<Rightarrow> 'a option list \<Rightarrow> u32 \<Rightarrow> (int \<times> 'a option list \<times> 'a rte_ring) option" where
  "rte_ring_mc_dequeue_burst r obj_table n = rte_ring_mc_do_dequeue r obj_table n RTE_RING_QUEUE_VARIABLE"

definition rte_ring_sc_dequeue_burst ::
  "'a rte_ring \<Rightarrow> 'a option list \<Rightarrow> u32 \<Rightarrow> (int \<times> 'a option list \<times> 'a rte_ring) option" where
  "rte_ring_sc_dequeue_burst r obj_table n = rte_ring_sc_do_dequeue r obj_table n RTE_RING_QUEUE_VARIABLE"

definition rte_ring_dequeue_burst ::
  "'a rte_ring \<Rightarrow> 'a option list \<Rightarrow> u32 \<Rightarrow> (int \<times> 'a option list \<times> 'a rte_ring) option" where
  "rte_ring_dequeue_burst r obj_table n =
     (if co_sc_dequeue (rr_cons r) \<noteq> 0 then rte_ring_sc_dequeue_burst r obj_table n
      else rte_ring_mc_dequeue_burst r obj_table n)"

section \<open>The copy is one pass around the table\<close>

text \<open>
  The reference for both copy macros: object \<open>j\<close> goes with slot \<open>(s + j) mod sz\<close>, one at a time.
\<close>

fun copy_seq :: "(u32 \<Rightarrow> u32 \<Rightarrow> 'd \<Rightarrow> 'd option) \<Rightarrow> nat \<Rightarrow> nat \<Rightarrow> nat \<Rightarrow> nat \<Rightarrow> 'd \<Rightarrow> 'd option" where
  "copy_seq cp s sz j 0 d = Some d"
| "copy_seq cp s sz j (Suc m) d =
     do { d \<leftarrow> cp (of_nat j) (of_nat ((s + j) mod sz)) d; copy_seq cp s sz (Suc j) m d }"

lemma copy_seq_add:
  "copy_seq cp s sz j (a + b) d = do { d \<leftarrow> copy_seq cp s sz j a d; copy_seq cp s sz (j + a) b d }"
  by (induction a arbitrary: j d) (simp_all add: bind_assoc cong: Option.bind_cong)

lemma copy_seq_mod: "copy_seq cp (s mod sz) sz j m d = copy_seq cp s sz j m d"
  by (induction m arbitrary: j d) (simp_all add: mod_add_left_eq cong: Option.bind_cong)

lemma copy_seq_4:
  "copy_seq cp s sz j (Suc (Suc (Suc (Suc m)))) d =
     do { d \<leftarrow> cp (of_nat j) (of_nat ((s + j) mod sz)) d;
          d \<leftarrow> cp (of_nat j + 1) (of_nat ((s + Suc j) mod sz)) d;
          d \<leftarrow> cp (of_nat j + 2) (of_nat ((s + Suc (Suc j)) mod sz)) d;
          d \<leftarrow> cp (of_nat j + 3) (of_nat ((s + Suc (Suc (Suc j))) mod sz)) d;
          copy_seq cp s sz (j + 4) m d }"
  by (simp add: add.commute add.left_commute numeral_eq_Suc cong: Option.bind_cong)

lemma unrolled4_seq:
  assumes "s + j + 4 * q \<le> sz" "sz < 4294967296"
  shows "unrolled4 cp (of_nat (j + 4 * q)) (of_nat j) (of_nat (s + j)) d =
     do { d \<leftarrow> copy_seq cp s sz j (4 * q) d; Some (of_nat (j + 4 * q), of_nat (s + j + 4 * q), d) }"
  using assms
proof (induction q arbitrary: j d)
  case 0
  then show ?case by (simp add: unrolled4.simps)
next
  case (Suc q)
  have lt: "(of_nat j :: u32) < of_nat (j + 4 * Suc q)"
    using Suc.prems by (intro of_nat_less_u32 [THEN iffD2]) auto
  have IH: "unrolled4 cp (of_nat (j + 4 * Suc q)) (of_nat j + 4) (of_nat (s + j) + 4) d =
    do { d \<leftarrow> copy_seq cp s sz (j + 4) (4 * q) d; Some (of_nat (j + 4 * Suc q), of_nat (s + j + 4 * Suc q), d) }" for d
    using Suc.IH [of "j + 4" d] Suc.prems by (simp add: algebra_simps)
  have "4 * Suc q = Suc (Suc (Suc (Suc (4 * q))))" by simp
  then have R: "copy_seq cp s sz j (4 * Suc q) d = 
      do { d \<leftarrow> cp (of_nat j) (of_nat (s + j)) d;
          d \<leftarrow> cp (of_nat j + 1) (of_nat (s + j) + 1) d;
          d \<leftarrow> cp (of_nat j + 2) (of_nat (s + j) + 2) d;
          d \<leftarrow> cp (of_nat j + 3) (of_nat (s + j) + 3) d;
          copy_seq cp s sz (j + 4) (4 * q) d }"
    using Suc.prems by (simp only: copy_seq_4) (simp add: algebra_simps)
  show ?case
    by (subst unrolled4.simps) (simp only: lt if_True IH R bind_assoc cong: Option.bind_cong)
qed

lemma copy_seq_small:
  "copy_seq cp s sz j 1 d = cp (of_nat j) (of_nat ((s + j) mod sz)) d"
  "copy_seq cp s sz j 2 d = do { d \<leftarrow> cp (of_nat j) (of_nat ((s + j) mod sz)) d;
     cp (of_nat j + 1) (of_nat ((s + j + 1) mod sz)) d }"
  "copy_seq cp s sz j 3 d = do { d \<leftarrow> cp (of_nat j) (of_nat ((s + j) mod sz)) d;
     d \<leftarrow> cp (of_nat j + 1) (of_nat ((s + j + 1) mod sz)) d;
     cp (of_nat j + 2) (of_nat ((s + j + 2) mod sz)) d }"
  by (simp_all add: numeral_eq_Suc algebra_simps cong: Option.bind_cong)

lemma switch_rest_seq:
  assumes "unat k < 4" "s + j + unat k \<le> sz" 
  shows "switch_rest cp k (of_nat j) (of_nat (s + j)) d = copy_seq cp s sz j (unat k) d"
proof -
  consider "k = 0" | "k = 1" | "k = 2" | "k = 3"
    using assms(1) by (auto simp: u32_eq_iff) linarith
  then show ?thesis
    using assms by cases (simp_all add: switch_rest_def copy_seq_small add_ac del: One_nat_def)
qed

lemma copy_to_end_seq:
  assumes "s + j + m = sz" "sz < 4294967296"
  shows "copy_to_end cp (of_nat sz) (of_nat j) (of_nat (s + j)) d =
     do { d \<leftarrow> copy_seq cp s sz j m d; Some (of_nat (j + m), d) }"
  using assms
proof (induction m arbitrary: j d)
  case 0
  then show ?case by (simp add: copy_to_end.simps)
next
  case (Suc m)
  have lt: "(of_nat (s + j) :: u32) < of_nat sz"
    using Suc.prems by (intro of_nat_less_u32 [THEN iffD2]) auto
  have IH: "copy_to_end cp (of_nat sz) (of_nat j + 1) (of_nat (s + j) + 1) d =
     do { d \<leftarrow> copy_seq cp s sz (Suc j) m d; Some (of_nat (j + Suc m), d) }" for d
    using Suc.IH [of "Suc j" d] Suc.prems by (simp add: algebra_simps)
  have "(s + j) mod sz = s + j" using Suc.prems by simp
  then show ?case
    by (subst copy_to_end.simps) (simp only: lt if_True IH copy_seq.simps bind_assoc cong: Option.bind_cong)
qed

lemma copy_to_count_seq:
  assumes "s + j = sz + p" "p + m < sz" "j + m < 4294967296"
  shows "copy_to_count cp (of_nat (j + m)) (of_nat j) (of_nat p) d = copy_seq cp s sz j m d"
  using assms
proof (induction m arbitrary: j p d)
  case 0
  then show ?case by (simp add: copy_to_count.simps)
next
  case (Suc m)
  have lt: "(of_nat j :: u32) < of_nat (j + Suc m)"
    using Suc.prems by (intro of_nat_less_u32 [THEN iffD2]) auto
  have IH: "copy_to_count cp (of_nat (j + Suc m)) (of_nat j + 1) (of_nat p + 1) d =
     copy_seq cp s sz (Suc j) m d" for d
    using Suc.IH [of "Suc j" "Suc p" d] Suc.prems by (simp add: algebra_simps)
  have "(s + j) mod sz = p" using Suc.prems by simp
  then show ?case
    by (subst copy_to_count.simps) (simp only: lt if_True IH copy_seq.simps cong: Option.bind_cong)
qed

lemma COPY_PTRS_seq:
  assumes "k \<le> 27" "unat n < 2 ^ k"
  shows "COPY_PTRS cp h (2 ^ k - 1) (2 ^ k) n d = copy_seq cp (unat h) (2 ^ k) 0 (unat n) d"
proof -
  define sz :: nat where "sz = 2 ^ k"
  define s where "s = unat h mod sz"
  have sz: "sz \<le> 2 ^ 27" unfolding sz_def by (rule power_increasing [OF assms(1)]) simp
  have szw: "(2 ^ k :: u32) = of_nat sz" by (simp add: sz_def)
  have s: "s < sz" by (simp add: s_def sz_def)
  have idx: "h AND (2 ^ k - 1) = of_nat s"
    using s sz by (simp add: u32_eq_iff and_mask_word unat_of_nat_u32) (simp add: s_def sz_def)
  have n: "unat n < sz" using assms(2) by (simp add: sz_def)
  have nw: "n = of_nat (unat n)" by simp
  have cond: "(of_nat s + n < of_nat sz) = (s + unat n < sz)"
    using s n sz by (subst nw, simp only: of_nat_add [symmetric]) (intro of_nat_less_u32, auto)
  have unf: "COPY_PTRS cp h (2 ^ k - 1) (2 ^ k) n d =
    (if s + unat n < sz then
        do { (i, idx, d) \<leftarrow> unrolled4 cp (n AND NOT 3) 0 (of_nat s) d;
             switch_rest cp (n AND 3) i idx d }
      else
        do { (i, d) \<leftarrow> copy_to_end cp (of_nat sz) 0 (of_nat s) d;
             copy_to_count cp n i 0 d })"
    by (simp only: COPY_PTRS_def Let_def idx szw [symmetric] cond [unfolded szw [symmetric]])
  show ?thesis
  proof (cases "s + unat n < sz")
    case True
    have a: "n AND NOT 3 = of_nat (0 + 4 * (unat n div 4))"
      unfolding u32_eq_iff and_not_3_u32 using n sz by (subst unat_of_nat_u32) auto
    have b: "unrolled4 cp (n AND NOT 3) 0 (of_nat s) d =
      do { d \<leftarrow> copy_seq cp s sz 0 (4 * (unat n div 4)) d;
           Some (of_nat (4 * (unat n div 4)), of_nat (s + 4 * (unat n div 4)), d) }"
      using unrolled4_seq [of s 0 "unat n div 4" sz cp d] True sz unfolding a by simp
    have c: "switch_rest cp (n AND 3) (of_nat (4 * (unat n div 4))) (of_nat (s + 4 * (unat n div 4))) d =
      copy_seq cp s sz (4 * (unat n div 4)) (unat n mod 4) d" for d
      using switch_rest_seq [of "n AND 3" s "4 * (unat n div 4)" sz cp d] True
      by (simp add: and_3_u32)
    have "COPY_PTRS cp h (2 ^ k - 1) (2 ^ k) n d =
      copy_seq cp s sz 0 (4 * (unat n div 4) + unat n mod 4) d"
      using True unfolding unf b copy_seq_add by (simp add: bind_assoc c cong: Option.bind_cong del: of_nat_mult of_nat_add)
    then show ?thesis
      by (simp add: s_def copy_seq_mod) (simp add: sz_def)
  next
    case False
    define p where "p = s + unat n - sz"
    have split: "unat n = (sz - s) + p" using False s by (simp add: p_def)
    have nn: "n = of_nat ((sz - s) + p)" by (subst split [symmetric]) simp
    have a: "copy_to_end cp (of_nat sz) 0 (of_nat s) d = 
       do { d \<leftarrow> copy_seq cp s sz 0 (sz - s) d; Some (of_nat (sz - s), d) }"
      using copy_to_end_seq [of s 0 "sz - s" sz cp d] s sz by simp
    have b: "copy_to_count cp n (of_nat (sz - s)) 0 d = copy_seq cp s sz (sz - s) p d" for d
      using copy_to_count_seq [of s "sz - s" sz 0 p cp d] s sz n split
      unfolding nn [symmetric] by simp
    have "COPY_PTRS cp h (2 ^ k - 1) (2 ^ k) n d = copy_seq cp s sz 0 ((sz - s) + p) d"
      using False unfolding unf a copy_seq_add by (simp add: bind_assoc b cong: Option.bind_cong del: of_nat_diff)
    then show ?thesis
      unfolding split [symmetric] by (simp add: s_def copy_seq_mod) (simp add: sz_def)
  qed
qed

lemma store_seq:
  assumes "length ring = sz" "0 < sz" "j + m \<le> length tab" "sz \<le> 134217728" "j + m \<le> sz"
    and "\<And>i. i < j + m \<Longrightarrow> tab ! i \<noteq> None"
  shows "\<exists>ring'. copy_seq (store_cell tab) s sz j m ring = Some ring' \<and> length ring' = sz \<and>
     (\<forall>i. j \<le> i \<and> i < j + m \<longrightarrow> ring' ! ((s + i) mod sz) = tab ! i) \<and>
     (\<forall>i < sz. i < j \<or> j + m \<le> i \<longrightarrow> ring' ! ((s + i) mod sz) = ring ! ((s + i) mod sz))"
  using assms
proof (induction m arbitrary: j ring)
  case 0
  then show ?case by (intro exI [of _ ring]) auto
next
  case (Suc m)
  obtain v where v: "tab ! j = Some v" using Suc.prems(6) [of j] by auto
  have idx: "unat (of_nat ((s + j) mod sz) :: u32) = (s + j) mod sz"
    using Suc.prems mod_less_divisor [of sz "s + j"] by (intro unat_of_nat_u32) linarith
  have st: "store_cell tab (of_nat j) (of_nat ((s + j) mod sz)) ring = Some (ring[(s + j) mod sz := Some v])"
    using Suc.prems v
    by (simp add: store_cell_def idx unat_of_nat_u32 aget_def aset_def del: of_nat_add)
  obtain ring' where ring': "copy_seq (store_cell tab) s sz (Suc j) m (ring[(s + j) mod sz := Some v]) = Some ring'"
      "length ring' = sz"
      "\<forall>i. Suc j \<le> i \<and> i < Suc j + m \<longrightarrow> ring' ! ((s + i) mod sz) = tab ! i"
      "\<forall>i < sz. i < Suc j \<or> Suc j + m \<le> i \<longrightarrow> ring' ! ((s + i) mod sz) = ring[(s + j) mod sz := Some v] ! ((s + i) mod sz)"
    using Suc.IH [of "ring[(s + j) mod sz := Some v]" "Suc j"] Suc.prems by auto
  have at: "ring' ! ((s + i) mod sz) = tab ! i" if "j \<le> i" "i < j + Suc m" for i
    using ring'(3,4) that v Suc.prems by (cases "i = j") auto
  have out: "ring' ! ((s + i) mod sz) = ring ! ((s + i) mod sz)" if "i < sz" "i < j \<or> j + Suc m \<le> i" for i
    using ring'(4) that Suc.prems mod_window_inj [of i sz j s] by auto
  show ?case
    using st ring'(1,2) at out by (intro exI [of _ ring']) simp
qed

lemma load_seq:
  assumes "length ring = sz" "0 < sz" "j + m \<le> length tab" "sz \<le> 134217728" "j + m \<le> sz"
    and "\<And>i. i < j + m \<Longrightarrow> ring ! ((s + i) mod sz) \<noteq> None"
  shows "copy_seq (load_cell ring) s sz j m tab =
     Some (take j tab @ map (\<lambda>i. ring ! ((s + i) mod sz)) [j..<j + m] @ drop (j + m) tab)"
  using assms
proof (induction m arbitrary: j tab)
  case 0
  then show ?case by simp
next
  case (Suc m)
  obtain v where v: "ring ! ((s + j) mod sz) = Some v" using Suc.prems(6) [of j] by auto
  have idx: "unat (of_nat ((s + j) mod sz) :: u32) = (s + j) mod sz"
    using Suc.prems mod_less_divisor [of sz "s + j"] by (intro unat_of_nat_u32) linarith
  have st: "load_cell ring (of_nat j) (of_nat ((s + j) mod sz)) tab = Some (tab[j := Some v])"
    using Suc.prems v
    by (simp add: load_cell_def idx unat_of_nat_u32 aget_def aset_def del: of_nat_add)
  have "copy_seq (load_cell ring) s sz (Suc j) m (tab[j := Some v]) =
    Some (take (Suc j) (tab[j := Some v]) @ map (\<lambda>i. ring ! ((s + i) mod sz)) [Suc j..<Suc j + m] @
          drop (Suc j + m) (tab[j := Some v]))"
    using Suc.IH [of "Suc j" "tab[j := Some v]"] Suc.prems by simp
  moreover have "take (Suc j) (tab[j := Some v]) = take j tab @ [ring ! ((s + j) mod sz)]"
    using Suc.prems v by (simp add: take_Suc_conv_app_nth)
  moreover have "[j..<j + Suc m] = j # [Suc j..<Suc j + m]"
    by (simp add: upt_rec)
  ultimately show ?case
    using st by simp
qed

section \<open>Invariant and abstraction\<close>

definition rr_used :: "'a rte_ring \<Rightarrow> nat" where
  "rr_used r = unat (pr_tail (rr_prod r) - co_tail (rr_cons r))"

definition rr_slot :: "nat \<Rightarrow> 'a rte_ring \<Rightarrow> nat \<Rightarrow> 'a option" where
  "rr_slot k r i = rr_ring r ! ((unat (co_tail (rr_cons r)) + i) mod 2 ^ k)"

definition rr_list :: "'a rte_ring \<Rightarrow> 'a list" where
  "rr_list r = map (\<lambda>i. the (rr_ring r ! ((unat (co_tail (rr_cons r)) + i) mod unat (pr_size (rr_prod r))))) [0..<rr_used r]"

definition rr_shape :: "nat \<Rightarrow> 'a rte_ring \<Rightarrow> bool" where
  "rr_shape k r \<longleftrightarrow> k \<le> 27 \<and> pr_size (rr_prod r) = 2 ^ k \<and> co_size (rr_cons r) = 2 ^ k \<and>
     pr_mask (rr_prod r) = 2 ^ k - 1 \<and> co_mask (rr_cons r) = 2 ^ k - 1 \<and> length (rr_ring r) = 2 ^ k"

definition rr_wf :: "nat \<Rightarrow> 'a rte_ring \<Rightarrow> bool" where
  "rr_wf k r \<longleftrightarrow> rr_shape k r \<and>
     pr_head (rr_prod r) = pr_tail (rr_prod r) \<and> co_head (rr_cons r) = co_tail (rr_cons r) \<and>
     rr_used r < 2 ^ k \<and> (\<forall>i < rr_used r. rr_slot k r i \<noteq> None)"

lemma pow_k: "k \<le> 27 \<Longrightarrow> (2::nat) ^ k \<le> 134217728"
  using power_increasing [of k 27 "2::nat"] by simp

lemma unat_2p_u32: "k \<le> 27 \<Longrightarrow> unat (2 ^ k :: u32) = 2 ^ k"
  using pow_k [of k] unat_of_nat_u32 [of "2 ^ k"] by simp

lemma unat_mask_u32: "k \<le> 27 \<Longrightarrow> unat (2 ^ k - 1 :: u32) = 2 ^ k - 1"
  by (subst unat_pred) (auto simp: unat_2p_u32 u32_eq_iff)

lemma length_rr_list [simp]: "length (rr_list r) = rr_used r"
  by (simp add: rr_list_def)

lemma rr_list_slot: "rr_shape k r \<Longrightarrow> rr_list r = map (\<lambda>i. the (rr_slot k r i)) [0..<rr_used r]"
  by (simp add: rr_list_def rr_shape_def rr_slot_def unat_2p_u32)

text \<open>Indices run over 32 bits; the table size divides $2^{32}$, so wrapping keeps the slot.\<close>

lemma dvd_2p32: "k \<le> 27 \<Longrightarrow> (2::nat) ^ k dvd 4294967296"
  using le_imp_power_dvd [of k 32 "2::nat"] by simp

lemma unat_add_mod:
  assumes "k \<le> 27"
  shows "unat (a + b :: u32) mod 2 ^ k = (unat a + unat b) mod 2 ^ k"
  using dvd_2p32 [OF assms] by (simp add: unat_word_ariths mod_mod_cancel)

lemma tail_slot:
  assumes "k \<le> 27"
  shows "(unat (pr_tail (rr_prod r)) + j) mod 2 ^ k = (unat (co_tail (rr_cons r)) + (rr_used r + j)) mod 2 ^ k"
proof -
  have "unat (pr_tail (rr_prod r)) mod 2 ^ k = (unat (co_tail (rr_cons r)) + rr_used r) mod 2 ^ k"
    using unat_add_mod [OF assms, of "co_tail (rr_cons r)" "pr_tail (rr_prod r) - co_tail (rr_cons r)"]
    by (simp add: rr_used_def)
  then show ?thesis
    by (metis add.assoc mod_add_left_eq)
qed

text \<open>The number of free slots.\<close>

definition rr_free :: "'a rte_ring \<Rightarrow> u32" where
  "rr_free r = pr_mask (rr_prod r) + co_tail (rr_cons r) - pr_tail (rr_prod r)"

lemma unat_rr_free:
  assumes "rr_wf k r"
  shows "unat (rr_free r) = 2 ^ k - 1 - rr_used r"
proof -
  have "rr_free r = (2 ^ k - 1) - (pr_tail (rr_prod r) - co_tail (rr_cons r))"
    using assms by (simp add: rr_free_def rr_wf_def rr_shape_def)
  moreover have "pr_tail (rr_prod r) - co_tail (rr_cons r) \<le> 2 ^ k - 1"
    using assms unat_mask_u32 [of k]
    by (auto simp: word_le_nat_alt rr_used_def [symmetric] rr_wf_def rr_shape_def)
  ultimately show ?thesis
    using assms unat_mask_u32 [of k]
    by (simp add: unat_sub rr_used_def [symmetric] rr_wf_def rr_shape_def)
qed

definition table_ok :: "'a option list \<Rightarrow> u32 \<Rightarrow> bool" where
  "table_ok tab n \<longleftrightarrow> unat n \<le> length tab \<and> (\<forall>i < unat n. tab ! i \<noteq> None)"

text \<open>The state after an enqueue of \<open>n\<close> objects that left the table \<open>xs\<close>.\<close>

definition after_enq :: "u32 \<Rightarrow> 'a option list \<Rightarrow> 'a rte_ring \<Rightarrow> 'a rte_ring" where
  "after_enq n xs r = (let h = pr_tail (rr_prod r) + n in
     set_prod_tail h (set_prod_head h (r\<lparr>rr_ring := xs\<rparr>)))"

lemma after_enq_sel [simp]:
  "rr_ring (after_enq n xs r) = xs" "rr_cons (after_enq n xs r) = rr_cons r"
  "pr_tail (rr_prod (after_enq n xs r)) = pr_tail (rr_prod r) + n"
  "pr_head (rr_prod (after_enq n xs r)) = pr_tail (rr_prod r) + n"
  "pr_size (rr_prod (after_enq n xs r)) = pr_size (rr_prod r)"
  "pr_mask (rr_prod (after_enq n xs r)) = pr_mask (rr_prod r)"
  "pr_watermark (rr_prod (after_enq n xs r)) = pr_watermark (rr_prod r)"
  by (simp_all add: after_enq_def set_prod_tail_def set_prod_head_def Let_def)

lemma after_enq_used:
  assumes "rr_used r + unat n < 4294967296"
  shows "rr_used (after_enq n xs r) = rr_used r + unat n"
proof -
  have "pr_tail (rr_prod r) + n - co_tail (rr_cons r) = (pr_tail (rr_prod r) - co_tail (rr_cons r)) + n"
    by simp
  then show ?thesis
    using assms by (simp only: rr_used_def after_enq_sel unat_add_no_wrap)
qed

text \<open>What the copy leaves in the table, seen from the consumer's tail.\<close>

lemma stored_slots:
  assumes wf: "rr_wf k r" and n: "rr_used r + unat n < 2 ^ k" and tab: "table_ok tab n"
  shows "\<exists>xs. copy_seq (store_cell tab) (unat (pr_tail (rr_prod r))) (2 ^ k) 0 (unat n) (rr_ring r) = Some xs \<and>
      length xs = 2 ^ k \<and>
      (\<forall>j < unat n. rr_slot k (after_enq n xs r) (rr_used r + j) = tab ! j) \<and>
      (\<forall>i < rr_used r. rr_slot k (after_enq n xs r) i = rr_slot k r i)"
proof -
  let ?h = "unat (pr_tail (rr_prod r))"
  have k: "k \<le> 27" and len: "length (rr_ring r) = 2 ^ k" and used: "rr_used r < 2 ^ k"
    using wf by (auto simp: rr_wf_def rr_shape_def)
  obtain xs where xs: "copy_seq (store_cell tab) ?h (2 ^ k) 0 (unat n) (rr_ring r) = Some xs"
      "length xs = 2 ^ k"
      "\<And>i. i < unat n \<Longrightarrow> xs ! ((?h + i) mod 2 ^ k) = tab ! i"
      "\<And>i. i < 2 ^ k \<Longrightarrow> unat n \<le> i \<Longrightarrow> xs ! ((?h + i) mod 2 ^ k) = rr_ring r ! ((?h + i) mod 2 ^ k)"
    using store_seq [of "rr_ring r" "2 ^ k" 0 "unat n" tab ?h] len n pow_k [OF k] tab
    unfolding table_ok_def by auto
  have new: "rr_slot k (after_enq n xs r) (rr_used r + j) = tab ! j" if "j < unat n" for j
    using tail_slot [OF k, of r j] xs(3) [OF that] by (simp add: rr_slot_def)
  have old: "rr_slot k (after_enq n xs r) i = rr_slot k r i" if "i < rr_used r" for i
  proof -
    have "(unat (co_tail (rr_cons r)) + i) mod 2 ^ k = (?h + (2 ^ k + i - rr_used r)) mod 2 ^ k"
      unfolding tail_slot [OF k] using that used by (simp add: add.left_commute [of _ "2 ^ k"])
    then show ?thesis
      using xs(4) [of "2 ^ k + i - rr_used r"] that used n by (simp add: rr_slot_def)
  qed
  show ?thesis using xs(1,2) new old by blast
qed

lemma enqueue_effect:
  assumes wf: "rr_wf k r" and n: "n \<le> rr_free r" and tab: "table_ok tab n"
  shows "\<exists>xs. copy_seq (store_cell tab) (unat (pr_tail (rr_prod r))) (2 ^ k) 0 (unat n) (rr_ring r) = Some xs \<and>
     rr_wf k (after_enq n xs r) \<and> rr_list (after_enq n xs r) = rr_list r @ map the (take (unat n) tab)"
proof -
  have nk: "rr_used r + unat n < 2 ^ k" and k: "k \<le> 27"
    using n wf unat_rr_free [OF wf] by (auto simp: word_le_nat_alt rr_wf_def rr_shape_def)
  obtain xs where xs: "copy_seq (store_cell tab) (unat (pr_tail (rr_prod r))) (2 ^ k) 0 (unat n) (rr_ring r) = Some xs"
      "length xs = 2 ^ k"
      and new: "\<And>j. j < unat n \<Longrightarrow> rr_slot k (after_enq n xs r) (rr_used r + j) = tab ! j"
      and old: "\<And>i. i < rr_used r \<Longrightarrow> rr_slot k (after_enq n xs r) i = rr_slot k r i"
    using stored_slots [OF wf nk tab] by blast
  let ?r = "after_enq n xs r"
  have used': "rr_used ?r = rr_used r + unat n"
    using nk pow_k [OF k] by (intro after_enq_used) simp
  have shape: "rr_shape k ?r"
    using wf xs(2) by (simp add: rr_wf_def rr_shape_def)
  have some: "rr_slot k ?r i \<noteq> None" if "i < rr_used r + unat n" for i
    using old [of i] new [of "i - rr_used r"] that wf tab
    by (cases "i < rr_used r") (auto simp: rr_wf_def table_ok_def)
  have "rr_wf k ?r"
    unfolding rr_wf_def used' using shape nk some wf by (simp add: rr_wf_def)
  moreover have "rr_list ?r = rr_list r @ map the (take (unat n) tab)"
  proof (rule nth_equalityI)
    show "length (rr_list ?r) = length (rr_list r @ map the (take (unat n) tab))"
      using tab used' by (simp add: table_ok_def)
    fix i assume "i < length (rr_list ?r)"
    then show "rr_list ?r ! i = (rr_list r @ map the (take (unat n) tab)) ! i"
      using old [of i] new [of "i - rr_used r"] used' tab wf
      by (cases "i < rr_used r")
        (simp_all add: rr_list_slot [OF shape] rr_list_slot [of k r] nth_append table_ok_def rr_wf_def)
  qed
  ultimately show ?thesis using xs(1) by blast
qed

lemma ENQUEUE_PTRS_seq:
  assumes "rr_shape k r" "unat n < 2 ^ k"
  shows "ENQUEUE_PTRS r h (2 ^ k - 1) n tab =
    map_option (\<lambda>xs. r\<lparr>rr_ring := xs\<rparr>) (copy_seq (store_cell tab) (unat h) (2 ^ k) 0 (unat n) (rr_ring r))"
  using assms COPY_PTRS_seq [of k n "store_cell tab" h "rr_ring r"]
  by (simp add: ENQUEUE_PTRS_def rr_shape_def map_conv_bind_option comp_def)

text \<open>The number of objects a call stores, and the two producers' common behaviour.\<close>

definition enq_status :: "'a rte_ring \<Rightarrow> u32 \<Rightarrow> rte_ring_queue_behavior \<Rightarrow> int" where
  "enq_status r n behavior =
     (if unat (pr_watermark (rr_prod r)) < rr_used r + unat n + 1
      then (if behavior = RTE_RING_QUEUE_FIXED then - EDQUOT else sint (n OR RTE_RING_QUOT_EXCEED))
      else (if behavior = RTE_RING_QUEUE_FIXED then 0 else sint n))"

lemma enqueue_ret_status:
  assumes "rr_wf k r" "n \<le> rr_free r"
  shows "enqueue_ret r (2 ^ k - 1) (rr_free r) n behavior = enq_status r n behavior"
proof -
  have k: "k \<le> 27" and m: "rr_free r = (2 ^ k - 1) - (pr_tail (rr_prod r) - co_tail (rr_cons r))"
    using assms(1) by (simp_all add: rr_free_def rr_wf_def rr_shape_def)
  have "(2 ^ k - 1 + 1) - rr_free r + n = (pr_tail (rr_prod r) - co_tail (rr_cons r)) + n + 1"
    unfolding m by simp
  moreover have lt: "rr_used r + unat n + 1 \<le> 2 ^ k"
    using assms unat_rr_free [OF assms(1)] by (auto simp: word_le_nat_alt rr_wf_def)
  moreover have "unat (pr_tail (rr_prod r) - co_tail (rr_cons r) + n) = rr_used r + unat n"
    using lt pow_k [OF k] by (simp add: rr_used_def unat_add_no_wrap)
  ultimately have "unat ((2 ^ k - 1 + 1) - rr_free r + n) = rr_used r + unat n + 1"
    using lt pow_k [OF k] unat_Suc_no_wrap [of "pr_tail (rr_prod r) - co_tail (rr_cons r) + n"]
    by (simp only:)
  then show ?thesis
    by (simp only: enqueue_ret_def enq_status_def word_less_nat_alt)
qed

section \<open>Behaviour of the enqueue\<close>

definition enq_amount :: "'a rte_ring \<Rightarrow> u32 \<Rightarrow> u32" where
  "enq_amount r n = (if n > rr_free r then rr_free r else n)"

lemma rr_wf_shape: "rr_wf k r \<Longrightarrow> rr_shape k r"
  by (simp add: rr_wf_def)

lemma enq_amount_le: "enq_amount r n \<le> rr_free r"
  by (simp add: enq_amount_def not_less)

lemma unat_enq_amount: "rr_wf k r \<Longrightarrow> unat (enq_amount r n) = min (unat n) (2 ^ k - 1 - rr_used r)"
  using unat_rr_free [of k r] by (simp add: enq_amount_def word_less_nat_alt)

lemma sp_do_enqueue_unfold:
  assumes "rr_wf k r"
  shows "rte_ring_sp_do_enqueue r tab n behavior =
    (if n > rr_free r \<and> behavior = RTE_RING_QUEUE_FIXED then Some (- ENOBUFS, r)
     else if n > rr_free r \<and> rr_free r = 0 then Some (0, r)
     else (let m = enq_amount r n; h = pr_tail (rr_prod r) in
       do { r' \<leftarrow> ENQUEUE_PTRS (set_prod_head (h + m) r) h (2 ^ k - 1) m tab;
            Some (enqueue_ret r' (2 ^ k - 1) (rr_free r) m behavior, set_prod_tail (h + m) r') }))"
proof -
  have "pr_head (rr_prod r) = pr_tail (rr_prod r)" "pr_mask (rr_prod r) = 2 ^ k - 1"
    using assms by (simp_all add: rr_wf_def rr_shape_def)
  then show ?thesis
    by (simp only: rte_ring_sp_do_enqueue_def rr_free_def enq_amount_def Let_def)
qed

lemma sp_do_enqueue_ok:
  assumes wf: "rr_wf k r" and tab: "table_ok tab (enq_amount r n)"
    and go: "behavior = RTE_RING_QUEUE_FIXED \<Longrightarrow> n \<le> rr_free r"
      "n > rr_free r \<Longrightarrow> rr_free r \<noteq> 0"
  shows "\<exists>r'. rte_ring_sp_do_enqueue r tab n behavior = Some (enq_status r (enq_amount r n) behavior, r') \<and>
    rr_wf k r' \<and> rr_list r' = rr_list r @ map the (take (unat (enq_amount r n)) tab)"
proof -
  let ?m = "enq_amount r n" and ?h = "pr_tail (rr_prod r)"
  obtain xs where xs: "copy_seq (store_cell tab) (unat ?h) (2 ^ k) 0 (unat ?m) (rr_ring r) = Some xs"
    "rr_wf k (after_enq ?m xs r)" "rr_list (after_enq ?m xs r) = rr_list r @ map the (take (unat ?m) tab)"
    using enqueue_effect [OF wf enq_amount_le tab] by blast
  have m: "unat ?m < 2 ^ k"
    using unat_enq_amount [OF wf, of n] by (simp add: min_less_iff_disj)
  let ?s = "set_prod_head (?h + ?m) r"
  have "rr_shape k ?s" "rr_ring ?s = rr_ring r"
    using rr_wf_shape [OF wf] by (simp_all add: rr_shape_def set_prod_head_def)
  then have "ENQUEUE_PTRS ?s ?h (2 ^ k - 1) ?m tab = Some (?s\<lparr>rr_ring := xs\<rparr>)"
    using ENQUEUE_PTRS_seq [of k ?s ?m ?h tab] m xs(1) by simp
  moreover have "enqueue_ret (?s\<lparr>rr_ring := xs\<rparr>) (2 ^ k - 1) (rr_free r) ?m behavior = enq_status r ?m behavior"
    using enqueue_ret_status [OF wf enq_amount_le [of r n]]
    by (simp add: enqueue_ret_def set_prod_head_def)
  moreover have "set_prod_tail (?h + ?m) (?s\<lparr>rr_ring := xs\<rparr>) = after_enq ?m xs r"
    by (simp add: after_enq_def Let_def set_prod_head_def set_prod_tail_def)
  ultimately have "rte_ring_sp_do_enqueue r tab n behavior = Some (enq_status r ?m behavior, after_enq ?m xs r)"
    using go by (auto simp: sp_do_enqueue_unfold [OF wf] Let_def)
  then show ?thesis using xs(2,3) by blast
qed

lemma set_prod_head_sel [simp]:
  "pr_tail (rr_prod (set_prod_head v r)) = pr_tail (rr_prod r)"
  "pr_size (rr_prod (set_prod_head v r)) = pr_size (rr_prod r)"
  by (simp_all add: set_prod_head_def)

lemma ENQUEUE_PTRS_tail:
  "ENQUEUE_PTRS r h m n tab = Some r' \<Longrightarrow> pr_tail (rr_prod r') = pr_tail (rr_prod r)"
  by (auto simp: ENQUEUE_PTRS_def split: bind_splits)

text \<open>
  With no other producer under way (head and tail agree) the compare-and-set succeeds at once,
  the wait for preceding enqueues is over at once, and both producers do the same.
\<close>

lemma mp_eq_sp:
  assumes "pr_head (rr_prod r) = pr_tail (rr_prod r)"
  shows "rte_ring_mp_do_enqueue r tab n behavior = rte_ring_sp_do_enqueue r tab n behavior"
proof -
  obtain e where e: "pr_mask (rr_prod r) + co_tail (rr_cons r) - pr_tail (rr_prod r) = e"
    by blast
  show ?thesis
    unfolding rte_ring_mp_do_enqueue_def rte_ring_sp_do_enqueue_def mp_move_head.simps [of r] Let_def assms e
    by (cases "e < n"; cases "e = 0"; cases behavior)
      (simp_all add: rte_atomic32_cmpset_def ENQUEUE_PTRS_tail cong: Option.bind_cong)
qed

section \<open>Behaviour of the dequeue\<close>

definition after_deq :: "u32 \<Rightarrow> 'a rte_ring \<Rightarrow> 'a rte_ring" where
  "after_deq n r = (let h = co_tail (rr_cons r) + n in set_cons_tail h (set_cons_head h r))"

lemma after_deq_sel [simp]:
  "rr_ring (after_deq n r) = rr_ring r" "rr_prod (after_deq n r) = rr_prod r"
  "co_tail (rr_cons (after_deq n r)) = co_tail (rr_cons r) + n"
  "co_head (rr_cons (after_deq n r)) = co_tail (rr_cons r) + n"
  "co_size (rr_cons (after_deq n r)) = co_size (rr_cons r)"
  "co_mask (rr_cons (after_deq n r)) = co_mask (rr_cons r)"
  by (simp_all add: after_deq_def set_cons_tail_def set_cons_head_def Let_def)

lemma after_deq_used:
  assumes "unat n \<le> rr_used r"
  shows "rr_used (after_deq n r) = rr_used r - unat n"
proof -
  have "pr_tail (rr_prod r) - (co_tail (rr_cons r) + n) = (pr_tail (rr_prod r) - co_tail (rr_cons r)) - n"
    by simp
  then show ?thesis
    using assms by (simp only: rr_used_def after_deq_sel unat_sub word_le_nat_alt)
qed

lemma after_deq_slot:
  assumes "k \<le> 27"
  shows "rr_slot k (after_deq n r) i = rr_slot k r (unat n + i)"
proof -
  have "(unat (co_tail (rr_cons r) + n) + i) mod 2 ^ k = (unat (co_tail (rr_cons r)) + (unat n + i)) mod 2 ^ k"
    using arg_cong [OF unat_add_mod [OF assms, of "co_tail (rr_cons r)" n], of "\<lambda>m. (m + i) mod 2 ^ k"]
    by (simp only: mod_add_left_eq add.assoc)
  then show ?thesis by (simp add: rr_slot_def)
qed

lemma dequeue_effect:
  assumes wf: "rr_wf k r" and n: "unat n \<le> rr_used r"
  shows "rr_wf k (after_deq n r) \<and> rr_list (after_deq n r) = drop (unat n) (rr_list r)"
proof -
  have k: "k \<le> 27" and sh: "rr_shape k r" "rr_shape k (after_deq n r)"
    using wf by (auto simp: rr_wf_def rr_shape_def)
  have "rr_list (after_deq n r) = drop (unat n) (rr_list r)"
    unfolding rr_list_slot [OF sh(1)] rr_list_slot [OF sh(2)] after_deq_used [OF n] after_deq_slot [OF k]
    by (rule nth_equalityI) (simp_all add: drop_map)
  then show ?thesis
    using wf n sh(2) by (auto simp: rr_wf_def after_deq_used after_deq_slot [OF k])
qed

lemma DEQUEUE_PTRS_list:
  assumes wf: "rr_wf k r" and n: "unat n \<le> rr_used r" "unat n \<le> length tab"
  shows "DEQUEUE_PTRS (set_cons_head v r) (co_tail (rr_cons r)) (2 ^ k - 1) n tab =
    Some (map Some (take (unat n) (rr_list r)) @ drop (unat n) tab)"
proof -
  let ?h = "unat (co_tail (rr_cons r))"
  have k: "k \<le> 27" and sh: "rr_shape k r" and nk: "unat n < 2 ^ k"
    using wf n by (auto simp: rr_wf_def rr_shape_def)
  have sl: "rr_slot k r i = Some (rr_list r ! i)" if "i < rr_used r" for i
    using that wf by (auto simp: rr_list_slot [OF sh] rr_wf_def)
  have "COPY_PTRS (load_cell (rr_ring r)) (co_tail (rr_cons r)) (2 ^ k - 1) (2 ^ k) n tab =
      Some (map (rr_slot k r) [0..<unat n] @ drop (unat n) tab)"
    unfolding COPY_PTRS_seq [OF k nk]
    using load_seq [of "rr_ring r" "2 ^ k" 0 "unat n" tab ?h] sl n nk pow_k [OF k] sh
    by (simp add: rr_slot_def [abs_def] rr_shape_def)
  moreover have "map (rr_slot k r) [0..<unat n] = map Some (take (unat n) (rr_list r))"
    using n(1) sl by (intro nth_equalityI) auto
  ultimately show ?thesis
    using sh by (simp add: DEQUEUE_PTRS_def set_cons_head_def rr_shape_def)
qed

definition deq_amount :: "'a rte_ring \<Rightarrow> u32 \<Rightarrow> u32" where
  "deq_amount r n = (let entries = pr_tail (rr_prod r) - co_tail (rr_cons r) in if n > entries then entries else n)"

lemma unat_deq_amount: "unat (deq_amount r n) = min (unat n) (rr_used r)"
  by (simp add: deq_amount_def Let_def rr_used_def word_less_nat_alt)

lemma sc_do_dequeue_ok:
  assumes wf: "rr_wf k r" and tab: "unat (deq_amount r n) \<le> length tab"
    and go: "behavior = RTE_RING_QUEUE_FIXED \<Longrightarrow> unat n \<le> rr_used r"
      "unat n > rr_used r \<Longrightarrow> rr_used r \<noteq> 0"
  shows "\<exists>r'. rte_ring_sc_do_dequeue r tab n behavior =
      Some (if behavior = RTE_RING_QUEUE_FIXED then 0 else sint (deq_amount r n),
            map Some (take (unat (deq_amount r n)) (rr_list r)) @ drop (unat (deq_amount r n)) tab, r') \<and>
    rr_wf k r' \<and> rr_list r' = drop (unat (deq_amount r n)) (rr_list r)"
proof -
  let ?m = "deq_amount r n" and ?h = "co_tail (rr_cons r)"
  let ?e = "pr_tail (rr_prod r) - co_tail (rr_cons r)"
  have m: "unat ?m \<le> rr_used r" by (simp add: unat_deq_amount)
  have D: "DEQUEUE_PTRS (set_cons_head v r) ?h (2 ^ k - 1) ?m tab =
    Some (map Some (take (unat ?m) (rr_list r)) @ drop (unat ?m) tab)" for v
    by (rule DEQUEUE_PTRS_list [OF wf m tab])
  have e: "?e = 0 \<longleftrightarrow> rr_used r = 0" "n > ?e \<longleftrightarrow> unat n > rr_used r"
    by (simp_all add: rr_used_def word_less_nat_alt unat_eq_0)
  have am: "(if n > ?e then ?e else n) = ?m"
    by (simp add: deq_amount_def Let_def)
  have c: "co_head (rr_cons r) = ?h" "pr_mask (rr_prod r) = 2 ^ k - 1"
    using wf by (simp_all add: rr_wf_def rr_shape_def)
  have "rte_ring_sc_do_dequeue r tab n behavior =
     Some (if behavior = RTE_RING_QUEUE_FIXED then 0 else sint ?m,
           map Some (take (unat ?m) (rr_list r)) @ drop (unat ?m) tab, after_deq ?m r)"
    unfolding rte_ring_sc_do_dequeue_def Let_def c am
    unfolding D after_deq_def Let_def e using go by auto
  then show ?thesis using dequeue_effect [OF wf m] by blast
qed

lemma mc_eq_sc:
  assumes "co_head (rr_cons r) = co_tail (rr_cons r)"
  shows "rte_ring_mc_do_dequeue r tab n behavior = rte_ring_sc_do_dequeue r tab n behavior"
  using assms
  by (auto simp: rte_ring_mc_do_dequeue_def rte_ring_sc_do_dequeue_def mc_move_head.simps
      rte_atomic32_cmpset_def Let_def set_cons_head_def)


section \<open>Public operations\<close>

lemma rr_wf_quiet:
  assumes "rr_wf k r"
  shows "pr_head (rr_prod r) = pr_tail (rr_prod r)" "co_head (rr_cons r) = co_tail (rr_cons r)"
  using assms by (simp_all add: rr_wf_def)

lemma enqueue_bulk_sp:
  "rr_wf k r \<Longrightarrow> rte_ring_enqueue_bulk r tab n = rte_ring_sp_do_enqueue r tab n RTE_RING_QUEUE_FIXED"
  by (simp add: rte_ring_enqueue_bulk_def rte_ring_sp_enqueue_bulk_def rte_ring_mp_enqueue_bulk_def mp_eq_sp rr_wf_quiet)

lemma enqueue_burst_sp:
  "rr_wf k r \<Longrightarrow> rte_ring_enqueue_burst r tab n = rte_ring_sp_do_enqueue r tab n RTE_RING_QUEUE_VARIABLE"
  by (simp add: rte_ring_enqueue_burst_def rte_ring_sp_enqueue_burst_def rte_ring_mp_enqueue_burst_def mp_eq_sp rr_wf_quiet)

lemma dequeue_bulk_sc:
  "rr_wf k r \<Longrightarrow> rte_ring_dequeue_bulk r tab n = rte_ring_sc_do_dequeue r tab n RTE_RING_QUEUE_FIXED"
  by (simp add: rte_ring_dequeue_bulk_def rte_ring_sc_dequeue_bulk_def rte_ring_mc_dequeue_bulk_def mc_eq_sc rr_wf_quiet)

lemma dequeue_burst_sc:
  "rr_wf k r \<Longrightarrow> rte_ring_dequeue_burst r tab n = rte_ring_sc_do_dequeue r tab n RTE_RING_QUEUE_VARIABLE"
  by (simp add: rte_ring_dequeue_burst_def rte_ring_sc_dequeue_burst_def rte_ring_mc_dequeue_burst_def mc_eq_sc rr_wf_quiet)

lemma gt_free: "rr_wf k r \<Longrightarrow> n > rr_free r \<longleftrightarrow> rr_used r + unat n \<ge> 2 ^ k"
  using unat_rr_free [of k r] by (auto simp: word_less_nat_alt rr_wf_def)

lemma enqueue_bulk_full:
  "rr_wf k r \<Longrightarrow> rr_used r + unat n \<ge> 2 ^ k \<Longrightarrow> rte_ring_enqueue_bulk r tab n = Some (- ENOBUFS, r)"
  by (simp add: enqueue_bulk_sp sp_do_enqueue_unfold gt_free)

lemma enqueue_bulk_ok:
  assumes "rr_wf k r" "table_ok tab n" "rr_used r + unat n < 2 ^ k"
  shows "\<exists>r'. rte_ring_enqueue_bulk r tab n = Some (enq_status r n RTE_RING_QUEUE_FIXED, r') \<and>
    rr_wf k r' \<and> rr_list r' = rr_list r @ map the (take (unat n) tab)"
proof -
  have "\<not> n > rr_free r" using gt_free [OF assms(1)] assms(3) by simp
  then have "enq_amount r n = n" by (simp add: enq_amount_def)
  then show ?thesis
    using sp_do_enqueue_ok [of k r tab n RTE_RING_QUEUE_FIXED] assms \<open>\<not> n > rr_free r\<close>
    by (simp add: enqueue_bulk_sp not_less)
qed

lemma dequeue_bulk_short:
  assumes "rr_wf k r" "rr_used r < unat n"
  shows "rte_ring_dequeue_bulk r tab n = Some (- ENOENT, tab, r)"
proof -
  have "n > pr_tail (rr_prod r) - co_tail (rr_cons r)"
    using assms(2) by (simp add: rr_used_def word_less_nat_alt)
  then show ?thesis
    using assms(1) by (simp add: dequeue_bulk_sc rte_ring_sc_do_dequeue_def rr_wf_quiet)
qed

lemma dequeue_bulk_ok:
  assumes "rr_wf k r" "unat n \<le> length tab" "unat n \<le> rr_used r"
  shows "\<exists>r'. rte_ring_dequeue_bulk r tab n =
      Some (0, map Some (take (unat n) (rr_list r)) @ drop (unat n) tab, r') \<and>
    rr_wf k r' \<and> rr_list r' = drop (unat n) (rr_list r)"
proof -
  have "unat (deq_amount r n) = unat n"
    using assms(3) by (simp add: unat_deq_amount)
  then show ?thesis
    using sc_do_dequeue_ok [of k r n tab RTE_RING_QUEUE_FIXED] assms
    by (simp add: dequeue_bulk_sc)
qed

text \<open>
  The exact result of a bulk enqueue. When the new number of entries equals the water mark the code
  already answers \<open>-EDQUOT\<close>, while the comments of \<open>rte_ring.h\<close> promise it only when the water mark
  is exceeded; the property below therefore leaves the result of that one case open.
\<close>

lemma enqueue_bulk_result:
  assumes "rr_wf k r" "table_ok obj_table n"
  shows "(length (rr_list r) + unat n \<ge> 2 ^ k \<longrightarrow> rte_ring_enqueue_bulk r obj_table n = Some (- ENOBUFS, r)) \<and>
    (length (rr_list r) + unat n < 2 ^ k \<longrightarrow>
      (\<exists>r'. rte_ring_enqueue_bulk r obj_table n =
          Some (if length (rr_list r) + unat n \<ge> unat (pr_watermark (rr_prod r)) then - EDQUOT else 0, r') \<and>
        rr_wf k r' \<and> rr_list r' = rr_list r @ map the (take (unat n) obj_table)))"
  using enqueue_bulk_full [OF assms(1)] enqueue_bulk_ok [OF assms]
  by (auto simp: enq_status_def)

text \<open>
  C5: a bulk enqueue is all or nothing. If the \<open>n\<close> objects do not fit in the \<open>2 ^ k - 1\<close> usable
  slots the ring is unchanged and the call returns \<open>-ENOBUFS\<close>; otherwise exactly these objects
  are appended in order, the ring stays well formed and the result is \<open>-EDQUOT\<close> when the new number
  of entries exceeds the water mark and \<open>0\<close> when it stays below it. When it is equal to the water
  mark the result is one of the two, and the property does not say which. The indices may wrap
  around \<open>2 ^ 32\<close>.
\<close>

theorem rte_ring_enqueue_bulk_correct:
  assumes "rr_wf k r" "table_ok obj_table n"
  shows "(length (rr_list r) + unat n \<ge> 2 ^ k \<longrightarrow> rte_ring_enqueue_bulk r obj_table n = Some (- ENOBUFS, r)) \<and>
    (length (rr_list r) + unat n < 2 ^ k \<longrightarrow>
      (\<exists>ret r'. rte_ring_enqueue_bulk r obj_table n = Some (ret, r') \<and>
        rr_wf k r' \<and> rr_list r' = rr_list r @ map the (take (unat n) obj_table) \<and>
        ret \<in> {0, - EDQUOT} \<and>
        (length (rr_list r') > unat (pr_watermark (rr_prod r)) \<longrightarrow> ret = - EDQUOT) \<and>
        (length (rr_list r') < unat (pr_watermark (rr_prod r)) \<longrightarrow> ret = 0)))"
proof -
  have "length xs = length (rr_list r) + unat n" if "xs = rr_list r @ map the (take (unat n) obj_table)" for xs
    using that assms(2) by (simp add: table_ok_def)
  then show ?thesis
    using enqueue_bulk_result [OF assms] by (auto simp del: length_rr_list)
qed

definition ex_ring :: "nat rte_ring" where
  "ex_ring = \<lparr>rr_name = ''r'', rr_flags = 0,
     rr_prod = \<lparr>pr_watermark = 4, pr_sp_enqueue = 0, pr_size = 4, pr_mask = 3, pr_head = 1, pr_tail = 1\<rparr>,
     rr_cons = \<lparr>co_sc_dequeue = 0, co_size = 4, co_mask = 3, co_head = 4294967295, co_tail = 4294967295\<rparr>,
     rr_ring = [Some 7, None, None, Some 5]\<rparr>"

lemma ex_ring_used: "rr_used ex_ring = 2"
  by (simp add: rr_used_def ex_ring_def)

lemma ex_ring_wf: "rr_wf 2 ex_ring"
  unfolding rr_wf_def ex_ring_used
  by (simp add: rr_shape_def rr_slot_def ex_ring_def less_2_cases_iff)

lemma ex_ring_list: "rr_list ex_ring = [5, 7]"
  unfolding rr_list_def ex_ring_used by (simp add: ex_ring_def upt_rec)

lemma ex_table_ok: "table_ok [Some a] 1" "table_ok [Some a, Some b] 2"
  by (simp_all add: table_ok_def less_2_cases_iff)

theorem rte_ring_enqueue_bulk_correct_witness:
  "rte_ring_enqueue_bulk ex_ring [Some 9, Some 8] 2 = Some (- ENOBUFS, ex_ring) \<and>
   (\<exists>r'. rte_ring_enqueue_bulk ex_ring [Some 9] 1 = Some (0, r') \<and> rr_wf 2 r' \<and> rr_list r' = [5, 7, 9])"
proof -
  have w: "unat (pr_watermark (rr_prod ex_ring)) = 4" by (simp add: ex_ring_def)
  obtain ret r' where r: "rte_ring_enqueue_bulk ex_ring [Some 9] 1 = Some (ret, r')" "rr_wf 2 r'" "rr_list r' = [5, 7, 9]"
      "length (rr_list r') < 4 \<longrightarrow> ret = 0"
    using rte_ring_enqueue_bulk_correct [OF ex_ring_wf ex_table_ok(1) [of 9]] w by (auto simp: ex_ring_list simp del: length_rr_list)
  from r(3,4) have "ret = 0" by (simp del: length_rr_list)
  then show ?thesis
    using r rte_ring_enqueue_bulk_correct [OF ex_ring_wf ex_table_ok(2) [of 9 8]] by (simp add: ex_ring_list)
qed

lemma uint_small: "unat (w :: u32) < 2147483648 \<Longrightarrow> 0 \<le> uint w \<and> uint w < 2147483648"
  using uint_nat [of w] by linarith

lemma sint_small: "unat (w :: u32) < 2147483648 \<Longrightarrow> sint w = int (unat w)"
  using signed_take_bit_int_eq_self [of 31 "uint w", OF order_trans [of _ 0]] uint_small [of w]
  by (simp add: sint_uint)

lemma sint_quot_exceed:
  assumes "unat (w :: u32) < 2147483648"
  shows "sint (w OR RTE_RING_QUOT_EXCEED) = int (unat w) - 2147483648"
proof -
  have "w AND RTE_RING_QUOT_EXCEED = 0"
  proof -
    have "w AND 2147483647 = w"
      using assms and_mask_word [of w 31] by (simp add: u32_eq_iff)
    then have "w AND RTE_RING_QUOT_EXCEED = w AND (2147483647 AND RTE_RING_QUOT_EXCEED)"
      by (simp only: and.assoc [symmetric])
    then show ?thesis by (simp add: RTE_RING_QUOT_EXCEED_def)
  qed
  then have "w OR RTE_RING_QUOT_EXCEED = w + RTE_RING_QUOT_EXCEED"
    by (simp add: disjunctive_add_eq_or)
  moreover have "uint (w + RTE_RING_QUOT_EXCEED) = int (unat w) + 2147483648"
    using uint_small [OF assms] by (simp add: uint_word_ariths RTE_RING_QUOT_EXCEED_def)
  ultimately show ?thesis
    using uint_small [OF assms] by (simp add: sint_uint signed_take_bit_eq_take_bit_shift take_bit_eq_mod)
qed

text \<open>The return value of a burst of \<open>m\<close> objects.\<close>

lemma enqueue_burst_none:
  assumes "rr_wf k r" "n > 0" "rr_free r = 0"
  shows "rte_ring_enqueue_burst r tab n = Some (0, r)"
  using assms by (simp add: enqueue_burst_sp sp_do_enqueue_unfold)

text \<open>
  a burst enqueue stores as many objects as fit, \<open>m\<close>, in order, and returns \<open>m\<close>; from the
  water mark on the returned count carries the bit \<open>RTE_RING_QUOT_EXCEED\<close>, that is \<open>2 ^ 31\<close> less
  as a signed integer. With no room at all it returns 0 and does nothing.
\<close>

theorem rte_ring_enqueue_burst_correct:
  assumes "rr_wf k r" "table_ok obj_table n"
  defines "m \<equiv> min (unat n) (2 ^ k - 1 - length (rr_list r))"
  shows "\<exists>ret r'. rte_ring_enqueue_burst r obj_table n = Some (ret, r') \<and>
     rr_wf k r' \<and> rr_list r' = rr_list r @ map the (take m obj_table) \<and>
     ret = (if n > 0 \<and> m = 0 then 0
            else if length (rr_list r) + m < unat (pr_watermark (rr_prod r)) then int m else int m - 2 ^ 31)"
proof (cases "n > 0 \<and> rr_free r = 0")
  case True
  moreover have "m = 0"
    using True unat_rr_free [OF assms(1)] by (simp add: m_def)
  ultimately show ?thesis using assms(1) enqueue_burst_none [OF assms(1)] by simp
next
  case False
  let ?m = "enq_amount r n"
  have m: "unat ?m = m" using unat_enq_amount [OF assms(1), of n] by (simp add: m_def)
  have m0: "\<not> (n > 0 \<and> m = 0)"
    using False m unfolding enq_amount_def by (auto simp: unat_eq_0 word_gt_0 split: if_splits)
  have "m < 2147483648"
    using pow_k [of k] rr_wf_shape [OF assms(1)] by (auto simp: m_def rr_shape_def min_def)
  then have st: "enq_status r ?m RTE_RING_QUEUE_VARIABLE =
      (if length (rr_list r) + m < unat (pr_watermark (rr_prod r)) then int m else int m - 2 ^ 31)"
    using m sint_small [of ?m] sint_quot_exceed [of ?m] by (simp add: enq_status_def)
  have tab: "table_ok obj_table ?m"
    using assms(2) m unfolding table_ok_def m_def by auto
  obtain r' where "rte_ring_enqueue_burst r obj_table n = Some (enq_status r ?m RTE_RING_QUEUE_VARIABLE, r')"
     "rr_wf k r'" "rr_list r' = rr_list r @ map the (take m obj_table)"
    using sp_do_enqueue_ok [OF assms(1) tab, of RTE_RING_QUEUE_VARIABLE] False m enqueue_burst_sp [OF assms(1)]
    by (auto simp: word_gt_0)
  then show ?thesis using st m0 by auto
qed


lemma ex_ring_watermark: "pr_watermark (rr_prod ex_ring) = 4"
  by (simp add: ex_ring_def)

theorem rte_ring_enqueue_burst_correct_witness:
  "\<exists>r'. rte_ring_enqueue_burst ex_ring [Some 9, Some 8] 2 = Some (1, r') \<and> rr_wf 2 r' \<and>
     rr_list r' = [5, 7, 9]"
  using rte_ring_enqueue_burst_correct [OF ex_ring_wf ex_table_ok(2), of 9 8]
  by (simp add: ex_ring_list ex_ring_used ex_ring_watermark)

text \<open>
  a bulk dequeue is all or nothing: with fewer than \<open>n\<close> entries it returns \<open>-ENOENT\<close> and changes
  neither the ring nor the caller's table; otherwise it writes the \<open>n\<close> oldest entries, in order, to
  the first \<open>n\<close> cells of the table and removes exactly them.
\<close>

theorem rte_ring_dequeue_bulk_correct:
  assumes "rr_wf k r" "unat n \<le> length obj_table"
  shows "(length (rr_list r) < unat n \<longrightarrow> rte_ring_dequeue_bulk r obj_table n = Some (- ENOENT, obj_table, r)) \<and>
    (unat n \<le> length (rr_list r) \<longrightarrow>
      (\<exists>r'. rte_ring_dequeue_bulk r obj_table n =
          Some (0, map Some (take (unat n) (rr_list r)) @ drop (unat n) obj_table, r') \<and>
        rr_wf k r' \<and> rr_list r' = drop (unat n) (rr_list r)))"
  using dequeue_bulk_short [OF assms(1)] dequeue_bulk_ok [OF assms] by simp

theorem rte_ring_dequeue_bulk_correct_witness:
  "\<exists>r'. rte_ring_dequeue_bulk ex_ring [None, None] 2 = Some (0, [Some 5, Some 7], r') \<and> rr_wf 2 r' \<and> rr_list r' = []"
  using rte_ring_dequeue_bulk_correct [OF ex_ring_wf, of 2 "[None, None]"] by (simp add: ex_ring_list)

text \<open>
  a burst dequeue removes the \<open>m = min n used\<close> oldest entries, writes them in order to the
  first \<open>m\<close> cells of the table and returns \<open>m\<close>.
\<close>

theorem rte_ring_dequeue_burst_correct:
  assumes "rr_wf k r" "unat n \<le> length obj_table"
  defines "m \<equiv> min (unat n) (length (rr_list r))"
  shows "\<exists>r'. rte_ring_dequeue_burst r obj_table n =
      Some (int m, map Some (take m (rr_list r)) @ drop m obj_table, r') \<and>
    rr_wf k r' \<and> rr_list r' = drop m (rr_list r)"
proof (cases "unat n > rr_used r \<and> rr_used r = 0")
  case True
  then have "n > pr_tail (rr_prod r) - co_tail (rr_cons r)" "pr_tail (rr_prod r) = co_tail (rr_cons r)"
    by (simp_all add: rr_used_def word_less_nat_alt unat_eq_0)
  then have "rte_ring_dequeue_burst r obj_table n = Some (0, obj_table, r)"
    by (simp add: dequeue_burst_sc [OF assms(1)] rte_ring_sc_do_dequeue_def rr_wf_quiet [OF assms(1)])
  then show ?thesis using True assms(1) by (simp add: m_def)
next
  case False
  have m: "unat (deq_amount r n) = m" by (simp add: unat_deq_amount m_def)
  have "m < 2147483648"
    using assms(1) pow_k [of k] by (auto simp: m_def rr_wf_def rr_shape_def)
  then have "sint (deq_amount r n) = int m" using m sint_small [of "deq_amount r n"] by simp
  then show ?thesis
    using sc_do_dequeue_ok [OF assms(1), of n obj_table RTE_RING_QUEUE_VARIABLE] False m assms(2)
    by (auto simp: dequeue_burst_sc [OF assms(1)] m_def)
qed

theorem rte_ring_dequeue_burst_correct_witness:
  "\<exists>r'. rte_ring_dequeue_burst ex_ring [None, None, None] 3 = Some (2, [Some 5, Some 7, None], r') \<and>
     rr_wf 2 r' \<and> rr_list r' = []"
  using rte_ring_dequeue_burst_correct [OF ex_ring_wf, of 3 "[None, None, None]"] by (simp add: ex_ring_list)

text \<open>
  when no other thread is between moving a head and publishing the tail, the multi-producer
  enqueue returns, and does exactly what the single-producer one does; likewise for the two
  dequeues.
\<close>

theorem rte_ring_alone_mp_is_sp:
  assumes "pr_head (rr_prod r) = pr_tail (rr_prod r)" "co_head (rr_cons r) = co_tail (rr_cons r)"
  shows "rte_ring_mp_do_enqueue r obj_table n behavior = rte_ring_sp_do_enqueue r obj_table n behavior \<and>
    rte_ring_mc_do_dequeue r obj_table n behavior = rte_ring_sc_do_dequeue r obj_table n behavior"
  using mp_eq_sp [OF assms(1)] mc_eq_sc [OF assms(2)] by blast

theorem rte_ring_alone_mp_is_sp_witness:
  "rte_ring_mp_do_enqueue ex_ring [Some 9] 1 RTE_RING_QUEUE_FIXED = rte_ring_sp_do_enqueue ex_ring [Some 9] 1 RTE_RING_QUEUE_FIXED"
  using rte_ring_alone_mp_is_sp [of ex_ring] rr_wf_quiet [OF ex_ring_wf] by simp

text \<open>
  the copy with its two forms (unrolled by four with a \<open>switch\<close> for the rest, or split where
  the table wraps) is one pass over the objects, object \<open>j\<close> with slot \<open>(head + j) mod size\<close>.
\<close>

theorem rte_ring_copy_is_one_pass:
  assumes "k \<le> 27" "unat n < 2 ^ k"
  shows "COPY_PTRS cp h (2 ^ k - 1) (2 ^ k) n d = copy_seq cp (unat h) (2 ^ k) 0 (unat n) d"
  using assms by (rule COPY_PTRS_seq)

theorem rte_ring_copy_is_one_pass_witness:
  "COPY_PTRS (store_cell [Some 4, Some (5::nat)]) 4294967295 7 8 2 [None, None, None, None, None, None, None, None] =
    Some [Some 5, None, None, None, None, None, None, Some 4]"
  using rte_ring_copy_is_one_pass [of 3 2 "store_cell [Some 4, Some (5::nat)]" 4294967295
    "[None, None, None, None, None, None, None, None]"]
  by (simp add: copy_seq_small store_cell_def aget_def aset_def)

lemma free_count_used:
  assumes "rr_wf k r"
  shows "unat (rte_ring_free_count r) = 2 ^ k - 1 - rr_used r"
proof -
  have k: "k \<le> 27" and m: "pr_mask (rr_prod r) = 2 ^ k - 1"
    using assms by (auto simp: rr_wf_def rr_shape_def)
  have "rr_free r = (co_tail (rr_cons r) - pr_tail (rr_prod r) - 1) + 2 ^ k"
    using m by (simp add: rr_free_def)
  then have "(co_tail (rr_cons r) - pr_tail (rr_prod r) - 1) AND (2 ^ k - 1) = rr_free r AND (2 ^ k - 1)"
    by (simp add: u32_eq_iff and_mask_word unat_add_mod [OF k] unat_2p_u32 [OF k])
  then show ?thesis
    using unat_rr_free [OF assms] by (simp add: rte_ring_free_count_def m and_mask_word)
qed

text \<open>
  the four queries agree with the contents: \<open>rte_ring_count\<close>, \<open>rte_ring_free_count\<close>,
  \<open>rte_ring_full\<close> (all but one slot in use) and \<open>rte_ring_empty\<close>.
\<close>

theorem rte_ring_counts:
  assumes "rr_wf k r"
  shows "unat (rte_ring_count r) = length (rr_list r) \<and>
    unat (rte_ring_free_count r) = 2 ^ k - 1 - length (rr_list r) \<and>
    (rte_ring_full r \<longleftrightarrow> length (rr_list r) = 2 ^ k - 1) \<and>
    (rte_ring_empty r \<longleftrightarrow> rr_list r = [])"
proof -
  let ?d = "pr_tail (rr_prod r) - co_tail (rr_cons r)"
  have k: "k \<le> 27" and m: "pr_mask (rr_prod r) = 2 ^ k - 1" and u: "rr_used r < 2 ^ k"
    using assms by (auto simp: rr_wf_def rr_shape_def)
  have c: "unat (rte_ring_count r) = rr_used r"
    using u by (simp add: rte_ring_count_def m and_mask_word rr_used_def)
  have f: "unat (rte_ring_free_count r) = 2 ^ k - 1 - rr_used r"
    by (rule free_count_used [OF assms])
  have "rte_ring_full r \<longleftrightarrow> unat (rte_ring_free_count r) = 0"
    by (simp add: rte_ring_full_def rte_ring_free_count_def unat_eq_0)
  moreover have "rte_ring_empty r \<longleftrightarrow> rr_used r = 0"
    by (auto simp: rte_ring_empty_def rr_used_def unat_eq_0)
  moreover have "rr_list r = [] \<longleftrightarrow> rr_used r = 0"
    by (simp flip: length_0_conv)
  ultimately show ?thesis using c f u by auto
qed

theorem rte_ring_counts_witness: "unat (rte_ring_count ex_ring) = 2 \<and> \<not> rte_ring_full ex_ring"
  using rte_ring_counts [OF ex_ring_wf] by (simp add: ex_ring_list)

text \<open>A number with a single set bit.\<close>

lemma bit_top_nat: "2 ^ k \<le> n \<Longrightarrow> n < 2 ^ (k + 1) \<Longrightarrow> bit (n :: nat) k"
  using div_nat_eqI [of "2 ^ k" 1 n] by (simp add: bit_iff_odd)

lemma POWEROF2_iff: "POWEROF2 x \<longleftrightarrow> x = 0 \<or> (\<exists>k<32. x = 2 ^ k)"
proof
  assume P: "POWEROF2 x"
  show "x = 0 \<or> (\<exists>k<32. x = 2 ^ k)"
  proof (cases "x = 0")
    case False
    then obtain k where k: "2 ^ k \<le> unat x" "unat x < 2 ^ (k + 1)"
      using ex_power_ivl1 [of 2 "unat x"] by (auto simp: unat_gt_0 Suc_le_eq)
    have "k < 32"
      using power_less_imp_less_exp [of "2::nat" k 32] k(1) unat_less_2p32 [of x] by simp
    have "x = 2 ^ k"
    proof (rule ccontr)
      assume ne: "x \<noteq> 2 ^ k"
      have pos: "unat (2 ^ k :: u32) = 2 ^ k"
        using \<open>k < 32\<close> power_strict_increasing [of k 32 "2::nat"] unat_of_nat_u32 [of "2 ^ k"] by simp
      have "2 ^ k \<le> unat x - 1" "unat x - 1 < 2 ^ (k + 1)"
        using k ne pos by (auto simp: u32_eq_iff)
      then have "bit (unat x) k" "bit (unat (x - 1)) k"
        using k bit_top_nat unat_pred [OF False] by auto
      then have "bit ((x - 1) AND x) k" by (simp add: bit_and_iff bit_unsigned_iff)
      then show False using P by (simp add: POWEROF2_def)
    qed
    then show ?thesis using \<open>k < 32\<close> by blast
  qed simp
next
  assume "x = 0 \<or> (\<exists>k<32. x = 2 ^ k)"
  then show "POWEROF2 x"
  proof
    assume "\<exists>k<32. x = 2 ^ k"
    then obtain k where k: "x = 2 ^ k" "k < 32" by blast
    have "unat x = 2 ^ k"
      using k power_strict_increasing [of k 32 "2::nat"] unat_of_nat_u32 [of "2 ^ k"] by simp
    then have "unat (x AND (2 ^ k - 1)) = 0"
      using and_mask_word [of x k] by simp
    then show ?thesis using k by (simp add: POWEROF2_def and.commute unat_eq_0)
  qed (simp add: POWEROF2_def)
qed


lemma size_limit: "k < 32 \<Longrightarrow> (2 ^ k :: u32) \<le> RTE_RING_SZ_MASK \<longleftrightarrow> k \<le> 27"
proof -
  assume k: "k < 32"
  have "unat (2 ^ k :: u32) = 2 ^ k"
    using k power_strict_increasing [of k 32 "2::nat"] unat_of_nat_u32 [of "2 ^ k"] by simp
  moreover have "(2::nat) ^ k \<le> 268435455 \<longleftrightarrow> k \<le> 27"
  proof
    assume "(2::nat) ^ k \<le> 268435455"
    then have "(2::nat) ^ k < 2 ^ 28" by simp
    then show "k \<le> 27" using power_less_imp_less_exp [of "2::nat" k 28] by simp
  next
    assume "k \<le> 27"
    then show "(2::nat) ^ k \<le> 268435455" using pow_k [of k] by simp
  qed
  ultimately show ?thesis
    by (simp add: word_le_nat_alt RTE_RING_SZ_MASK_def)
qed

lemma create_ok_iff:
  "POWEROF2 cnt \<and> \<not> cnt > RTE_RING_SZ_MASK \<longleftrightarrow> cnt = 0 \<or> (\<exists>k\<le>27. cnt = 2 ^ k)"
proof (cases "cnt = 0")
  case False
  then have "POWEROF2 cnt \<and> \<not> cnt > RTE_RING_SZ_MASK \<longleftrightarrow> (\<exists>k<32. cnt = 2 ^ k \<and> (2 ^ k :: u32) \<le> RTE_RING_SZ_MASK)"
    unfolding POWEROF2_iff not_less by blast
  also have "\<dots> \<longleftrightarrow> (\<exists>k<32. cnt = 2 ^ k \<and> k \<le> 27)"
    using size_limit by blast
  also have "\<dots> \<longleftrightarrow> (\<exists>k\<le>27. cnt = 2 ^ k)"
    by (rule ex_cong1) auto
  finally show ?thesis using False by blast
qed (simp add: POWEROF2_def RTE_RING_SZ_MASK_def)

text \<open>
  \<open>rte_ring_create\<close> rejects with \<open>EINVAL\<close> exactly the sizes that are neither 0 nor a power of
  two up to \<open>2 ^ 27\<close>; for such a power of two it returns an empty well-formed ring with all but
  one slot free and the water mark disabled.
\<close>

theorem rte_ring_create_correct:
  "(rte_ring_create ok name cnt flags = (Inl EINVAL :: int + 'a rte_ring) \<longleftrightarrow>
      \<not> (cnt = 0 \<or> (\<exists>k\<le>27. cnt = 2 ^ k))) \<and>
   (\<forall>k\<le>27. \<exists>r :: 'a rte_ring.
      rte_ring_create True name (2 ^ k) flags = Inr r \<and> rr_wf k r \<and> rr_list r = [] \<and>
      unat (rte_ring_free_count r) = 2 ^ k - 1 \<and> pr_watermark (rr_prod r) = 2 ^ k)"
proof (intro conjI allI impI)
  show "rte_ring_create ok name cnt flags = (Inl EINVAL :: int + 'a rte_ring) \<longleftrightarrow>
      \<not> (cnt = 0 \<or> (\<exists>k\<le>27. cnt = 2 ^ k))"
    using create_ok_iff [of cnt] by (auto simp: rte_ring_create_def EINVAL_def ENOBUFS_def)
next
  fix k :: nat assume k: "k \<le> 27"
  then have "POWEROF2 (2 ^ k)" "\<not> (2 ^ k :: u32) > RTE_RING_SZ_MASK"
    using create_ok_iff [of "2 ^ k"] by blast+
  then obtain r :: "'a rte_ring" where r: "rte_ring_create True name (2 ^ k) flags = Inr r"
      "rr_shape k r" "pr_head (rr_prod r) = 0" "pr_tail (rr_prod r) = 0" "co_head (rr_cons r) = 0"
      "co_tail (rr_cons r) = 0" "pr_watermark (rr_prod r) = 2 ^ k"
    using k by (auto simp: rte_ring_create_def rr_shape_def unat_2p_u32)
  then have "rr_used r = 0" by (simp add: rr_used_def)
  moreover have "rr_wf k r" using r \<open>rr_used r = 0\<close> by (simp add: rr_wf_def)
  moreover have "rr_list r = []" using \<open>rr_used r = 0\<close> by (simp add: rr_list_def)
  ultimately show "\<exists>r :: 'a rte_ring. rte_ring_create True name (2 ^ k) flags = Inr r \<and> rr_wf k r \<and> rr_list r = [] \<and>
      unat (rte_ring_free_count r) = 2 ^ k - 1 \<and> pr_watermark (rr_prod r) = 2 ^ k"
    using r(1,7) free_count_used [of k r] by auto
qed

theorem rte_ring_create_correct_witness:
  "rte_ring_create True ''ring'' 12 0 = (Inl EINVAL :: int + nat rte_ring) \<and>
   (\<exists>r :: nat rte_ring. rte_ring_create True ''ring'' 8 0 = Inr r \<and> rr_wf 3 r \<and> rr_list r = [])"
proof
  show "rte_ring_create True ''ring'' 12 0 = (Inl EINVAL :: int + nat rte_ring)"
    by (simp add: rte_ring_create_def POWEROF2_def)
  show "\<exists>r :: nat rte_ring. rte_ring_create True ''ring'' 8 0 = Inr r \<and> rr_wf 3 r \<and> rr_list r = []"
    using rte_ring_create_correct [of True "''ring''" 8 0, THEN conjunct2, rule_format, of 3] by auto
qed

text \<open>
  a size of 0 passes the power-of-two test. The ring it creates reports \<open>2 ^ 32 - 1\<close> free slots
  over a table of none, and the first enqueue writes outside it.
\<close>

theorem rte_ring_create_zero:
  "\<exists>r :: 'a rte_ring. rte_ring_create True name 0 RING_F_SP_ENQ = Inr r \<and>
     rte_ring_free_count r = 4294967295 \<and> rte_ring_enqueue r x = None"
proof -
  define r :: "'a rte_ring" where "r = projr (rte_ring_create True name 0 RING_F_SP_ENQ)"
  have r: "rte_ring_create True name 0 RING_F_SP_ENQ = Inr r"
    "rr_prod r = \<lparr>pr_watermark = 0, pr_sp_enqueue = 1, pr_size = 0, pr_mask = 4294967295, pr_head = 0, pr_tail = 0\<rparr>"
    "co_tail (rr_cons r) = 0" "rr_ring r = []"
    by (simp_all add: r_def rte_ring_create_def POWEROF2_def RING_F_SP_ENQ_def)
  have "COPY_PTRS (store_cell [Some x]) 0 4294967295 0 1 [] = None"
    by (simp add: COPY_PTRS_def copy_to_end.simps copy_to_count.simps store_cell_def aget_def aset_def)
  then have "rte_ring_enqueue r x = None"
    by (simp add: rte_ring_enqueue_def rte_ring_sp_enqueue_def rte_ring_sp_enqueue_bulk_def r
        rte_ring_sp_do_enqueue_def ENQUEUE_PTRS_def set_prod_head_def)
  then show ?thesis using r by (simp add: rte_ring_free_count_def)
qed

section \<open>The ring as a bounded queue\<close>

text \<open>
  A client that moves one object at a time: \<open>ring_put\<close> calls \<open>rte_ring_enqueue\<close>, whose
  \<open>-ENOBUFS\<close> is a refusal (\<open>0\<close> and \<open>-EDQUOT\<close> both stored the object), \<open>ring_get\<close> calls
  \<open>rte_ring_dequeue\<close> with a one-cell buffer.
\<close>

definition ring_put :: "'a rte_ring \<Rightarrow> 'a \<Rightarrow> (bool \<times> 'a rte_ring) option" where
  "ring_put r x = do { (ret, r) \<leftarrow> rte_ring_enqueue r x; Some (ret \<noteq> - ENOBUFS, r) }"

definition ring_get :: "'a rte_ring \<Rightarrow> ('a option \<times> 'a rte_ring) option" where
  "ring_get r = do { (ret, buf, r) \<leftarrow> rte_ring_dequeue r [None];
                     Some (if ret = 0 then buf ! 0 else None, r) }"

definition rr_cap :: "'a rte_ring \<Rightarrow> enat" where
  "rr_cap r = enat (unat (pr_size (rr_prod r)) - 1)"

lemma enqueue_is_bulk: "rte_ring_enqueue r x = rte_ring_enqueue_bulk r [Some x] 1"
  by (simp add: rte_ring_enqueue_def rte_ring_enqueue_bulk_def rte_ring_sp_enqueue_def rte_ring_mp_enqueue_def)

lemma dequeue_is_bulk: "rte_ring_dequeue r tab = rte_ring_dequeue_bulk r tab 1"
  by (simp add: rte_ring_dequeue_def rte_ring_dequeue_bulk_def rte_ring_sc_dequeue_def rte_ring_mc_dequeue_def)

lemma rr_cap_wf: "rr_wf k r \<Longrightarrow> rr_cap r = enat (2 ^ k - 1)"
  by (simp add: rr_cap_def rr_wf_def rr_shape_def unat_2p_u32)

interpretation rrq: bounded_fifo "\<lambda>r :: 'a rte_ring. rr_wf k r" rr_list rr_cap "\<lambda>_ _. True" ring_put ring_get
proof
  fix r :: "'a rte_ring" and x
  assume wf: "rr_wf k r" and "enat (length (rr_list r)) < rr_cap r"
  then have "rr_used r + unat (1 :: u32) < 2 ^ k" by (simp add: rr_cap_wf)
  then show "\<exists>r'. ring_put r x = Some (True, r') \<and> rr_wf k r' \<and> rr_list r' = rr_list r @ [x] \<and> rr_cap r' = rr_cap r"
    using enqueue_bulk_ok [OF wf ex_table_ok(1) [of x]] wf
    by (auto simp: ring_put_def enqueue_is_bulk rr_cap_wf enq_status_def EDQUOT_def ENOBUFS_def)
next
  fix r :: "'a rte_ring" and x
  assume wf: "rr_wf k r" and "\<not> enat (length (rr_list r)) < rr_cap r"
  then have "rr_used r + unat (1 :: u32) \<ge> 2 ^ k" by (simp add: rr_cap_wf)
  then show "\<exists>r'. ring_put r x = Some (False, r') \<and> rr_wf k r' \<and> rr_list r' = rr_list r \<and> rr_cap r' = rr_cap r"
    using enqueue_bulk_full [OF wf, of 1 "[Some x]"] wf by (simp add: ring_put_def enqueue_is_bulk)
next
  fix r :: "'a rte_ring" and v vs
  assume wf: "rr_wf k r" and c: "rr_list r = v # vs"
  then have "unat (1 :: u32) \<le> rr_used r" using length_rr_list [of r] by simp
  then show "\<exists>r'. ring_get r = Some (Some v, r') \<and> rr_wf k r' \<and> rr_list r' = vs \<and> rr_cap r' = rr_cap r"
    using dequeue_bulk_ok [OF wf, of 1 "[None]"] wf c by (auto simp: ring_get_def dequeue_is_bulk rr_cap_wf)
next
  fix r :: "'a rte_ring"
  assume wf: "rr_wf k r" and c: "rr_list r = []"
  then have "rr_used r < unat (1 :: u32)" using length_rr_list [of r] by simp
  then show "\<exists>r'. ring_get r = Some (None, r') \<and> rr_wf k r' \<and> rr_list r' = [] \<and> rr_cap r' = rr_cap r"
    using dequeue_bulk_short [OF wf, of 1 "[None]"] wf c
    by (simp add: ring_get_def dequeue_is_bulk ENOENT_def)
qed

text \<open>
  C6: any sequence of single enqueues and dequeues on a well-formed ring returns, call by call,
  what a list queue of capacity \<open>2 ^ k - 1\<close> returns, and leaves the list it leaves.
\<close>

theorem rte_ring_fifo:
  assumes "rr_wf k r"
  shows "\<exists>r'. fifo_run ring_put ring_get es r = Some (fst (q_run (enat (2 ^ k - 1)) es (rr_list r)), r') \<and>
    rr_wf k r' \<and> rr_list r' = snd (q_run (enat (2 ^ k - 1)) es (rr_list r))"
  using rrq.run_refines [OF assms, of es] rr_cap_wf [OF assms] by auto

theorem rte_ring_fifo_witness:
  "\<exists>r'. fifo_run ring_put ring_get [Put 9, Put 8, Get, Get, Get, Get] ex_ring =
     Some ([Accepted True, Accepted False, Got (Some 5), Got (Some 7), Got (Some 9), Got None], r') \<and> rr_list r' = []"
  using rte_ring_fifo [OF ex_ring_wf, of "[Put 9, Put 8, Get, Get, Get, Get]"]
  by (auto simp: ex_ring_list)

end
