(* ===== verification/RingBuffer.thy ===== *)
theory RingBuffer
  imports Fifo
begin

text \<open>
  The single-producer single-consumer ring of \<^verbatim>\<open>free_queue/ringbuffer.h\<close>. The first part is the
  class as one thread uses it. The second part is the lock-free use the class is written for: one
  producer and one consumer, interleaved at every load and store of the shared state.
  \<open>Capacity\<close>, the template parameter, is \<open>2 ^ k\<close>; the index arithmetic is on 64-bit words.
\<close>

section \<open>The class\<close>

record 'a ring_buffer =
  rb_read :: u64
  rb_write :: u64
  rb_buffer :: "'a option list"

definition RingBuffer_ctor :: "u64 \<Rightarrow> 'a ring_buffer" where
  "RingBuffer_ctor Capacity = \<lparr>rb_read = 0, rb_write = 0, rb_buffer = replicate (unat Capacity) None\<rparr>"

definition rb_next :: "u64 \<Rightarrow> u64 \<Rightarrow> u64" where
  "rb_next Capacity i = (i + 1) AND (Capacity - 1)"

definition RingBuffer_Push :: "u64 \<Rightarrow> 'a ring_buffer \<Rightarrow> 'a \<Rightarrow> (bool \<times> 'a ring_buffer) option" where
  "RingBuffer_Push Capacity b value =
     (let w = rb_write b; next_w = rb_next Capacity w in
      if next_w = rb_read b then Some (False, b)
      else do { buf \<leftarrow> aset (rb_buffer b) (unat w) value;
                Some (True, b\<lparr>rb_buffer := buf, rb_write := next_w\<rparr>) })"

text \<open>Taking an object out destroys it: its cell is indeterminate again.\<close>

definition RingBuffer_Pop :: "u64 \<Rightarrow> 'a ring_buffer \<Rightarrow> ('a option \<times> 'a ring_buffer) option" where
  "RingBuffer_Pop Capacity b =
     (let r = rb_read b in
      if r = rb_write b then Some (None, b)
      else do { v \<leftarrow> aget (rb_buffer b) (unat r);
                Some (Some v, b\<lparr>rb_buffer := (rb_buffer b)[unat r := None],
                                rb_read := rb_next Capacity r\<rparr>) })"

definition RingBuffer_Size :: "u64 \<Rightarrow> 'a ring_buffer \<Rightarrow> u64" where
  "RingBuffer_Size Capacity b =
     (let r = rb_read b; w = rb_write b in if w \<ge> r then w - r else Capacity - r + w)"

text \<open>The destructor's loop: the objects destroyed, in order.\<close>

partial_function (option) rb_destroy_from ::
  "u64 \<Rightarrow> u64 \<Rightarrow> u64 \<Rightarrow> 'a option list \<Rightarrow> ('a list \<times> 'a option list) option" where
  "rb_destroy_from Capacity r w buf =
     (if r \<noteq> w then
        do { v \<leftarrow> aget buf (unat r);
             (vs, buf) \<leftarrow> rb_destroy_from Capacity (rb_next Capacity r) w (buf[unat r := None]);
             Some (v # vs, buf) }
      else Some ([], buf))"

declare rb_destroy_from.simps [code]

definition RingBuffer_dtor :: "u64 \<Rightarrow> 'a ring_buffer \<Rightarrow> ('a list \<times> 'a option list) option" where
  "RingBuffer_dtor Capacity b = rb_destroy_from Capacity (rb_read b) (rb_write b) (rb_buffer b)"

section \<open>Invariant\<close>

definition rb_used :: "nat \<Rightarrow> 'a ring_buffer \<Rightarrow> nat" where
  "rb_used k b = (unat (rb_write b) + 2 ^ k - unat (rb_read b)) mod 2 ^ k"

definition rb_pos :: "nat \<Rightarrow> 'a ring_buffer \<Rightarrow> nat \<Rightarrow> nat" where
  "rb_pos k b i = (unat (rb_read b) + i) mod 2 ^ k"

definition rb_list :: "nat \<Rightarrow> 'a ring_buffer \<Rightarrow> 'a list" where
  "rb_list k b = map (\<lambda>i. the (rb_buffer b ! rb_pos k b i)) [0..<rb_used k b]"

definition rb_shape :: "nat \<Rightarrow> 'a ring_buffer \<Rightarrow> bool" where
  "rb_shape k b \<longleftrightarrow> k < 64 \<and> unat (rb_read b) < 2 ^ k \<and> unat (rb_write b) < 2 ^ k \<and>
     length (rb_buffer b) = 2 ^ k"

definition rb_wf :: "nat \<Rightarrow> 'a ring_buffer \<Rightarrow> bool" where
  "rb_wf k b \<longleftrightarrow> rb_shape k b \<and>
     (\<forall>i < 2 ^ k. rb_buffer b ! rb_pos k b i = None \<longleftrightarrow> rb_used k b \<le> i)"

section \<open>Index arithmetic\<close>

lemma unat_2p_u64: "k < 64 \<Longrightarrow> unat (2 ^ k :: u64) = 2 ^ k"
  using power_strict_increasing [of k 64 "2::nat"] unat_of_nat [of "2 ^ k", where 'a = 64] by simp

lemma dvd_2p64: "k < 64 \<Longrightarrow> (2::nat) ^ k dvd 18446744073709551616"
  using le_imp_power_dvd [of k 64 "2::nat"] by simp

lemma unat_rb_next: "k < 64 \<Longrightarrow> unat (rb_next (2 ^ k) w) = (unat w + 1) mod 2 ^ k"
  using dvd_2p64 [of k] by (simp add: rb_next_def and_mask_word unat_word_ariths mod_mod_cancel)

lemma rb_used_less: "rb_used k b < 2 ^ k"
  by (simp add: rb_used_def)

lemma rb_write_pos:
  assumes "rb_shape k b"
  shows "unat (rb_write b) = rb_pos k b (rb_used k b)"
proof -
  have "(unat (rb_read b) + (unat (rb_write b) + 2 ^ k - unat (rb_read b))) mod 2 ^ k = unat (rb_write b)"
    using assms by (simp add: rb_shape_def)
  then show ?thesis
    by (simp add: rb_pos_def rb_used_def mod_add_right_eq)
qed

lemma rb_full_iff:
  assumes "rb_shape k b"
  shows "rb_next (2 ^ k) (rb_write b) = rb_read b \<longleftrightarrow> rb_used k b = 2 ^ k - 1"
proof -
  have "rb_next (2 ^ k) (rb_write b) = rb_read b \<longleftrightarrow> (unat (rb_write b) + 1) mod 2 ^ k = unat (rb_read b)"
    using assms by (simp add: word_unat_eq_iff unat_rb_next rb_shape_def)
  also have "(unat (rb_write b) + 1) mod 2 ^ k = (unat (rb_read b) + (rb_used k b + 1)) mod 2 ^ k"
    by (simp add: rb_write_pos [OF assms] rb_pos_def mod_Suc_eq)
  also have "\<dots> = unat (rb_read b) \<longleftrightarrow> (unat (rb_read b) + (rb_used k b + 1)) mod 2 ^ k = (unat (rb_read b) + 0) mod 2 ^ k"
    using assms by (simp add: rb_shape_def)
  also have "\<dots> \<longleftrightarrow> rb_used k b + 1 = 2 ^ k"
  proof (cases "rb_used k b + 1 < 2 ^ k")
    case True
    then show ?thesis using mod_window_inj [of "rb_used k b + 1" "2 ^ k" 0 "unat (rb_read b)"] by simp
  next
    case False
    then have "rb_used k b + 1 = 2 ^ k" using rb_used_less [of k b] by simp
    then show ?thesis by (simp add: add.commute)
  qed
  finally show ?thesis by auto
qed

lemma rb_empty_iff:
  assumes "rb_shape k b"
  shows "rb_read b = rb_write b \<longleftrightarrow> rb_used k b = 0"
proof
  assume "rb_used k b = 0"
  then show "rb_read b = rb_write b"
    using rb_write_pos [OF assms] assms by (simp add: rb_pos_def rb_shape_def word_unat_eq_iff)
qed (simp add: rb_used_def)

lemma used_of_pos:
  fixes r u sz :: nat
  assumes "r < sz" "u < sz"
  shows "((r + u) mod sz + sz - r) mod sz = u"
proof (cases "r + u < sz")
  case False
  then have "(r + u) mod sz = r + u - sz" using assms by (simp add: mod_if)
  then show ?thesis using assms False by simp
qed (use assms in simp)

lemma rb_used_advance_write:
  assumes "rb_shape k b" "rb_used k b < 2 ^ k - 1"
  shows "rb_used k (b\<lparr>rb_buffer := xs, rb_write := rb_next (2 ^ k) (rb_write b)\<rparr>) = rb_used k b + 1"
proof -
  have "unat (rb_next (2 ^ k) (rb_write b)) = (unat (rb_read b) + (rb_used k b + 1)) mod 2 ^ k"
    using assms by (simp add: unat_rb_next rb_shape_def rb_write_pos [OF assms(1)] rb_pos_def mod_Suc_eq)
  then show ?thesis
    using used_of_pos [of "unat (rb_read b)" "2 ^ k" "rb_used k b + 1"] assms
    by (simp add: rb_used_def [of k "rb_write_update _ _"] rb_shape_def)
qed

lemma rb_used_advance_read:
  assumes "rb_shape k b" "0 < rb_used k b"
  shows "rb_used k (b\<lparr>rb_buffer := xs, rb_read := rb_next (2 ^ k) (rb_read b)\<rparr>) = rb_used k b - 1"
proof -
  let ?r = "unat (rb_read b)" and ?r' = "(unat (rb_read b) + 1) mod 2 ^ k"
  have r': "unat (rb_next (2 ^ k) (rb_read b)) = ?r'"
    using assms by (simp add: unat_rb_next rb_shape_def)
  have "unat (rb_write b) = (?r' + (rb_used k b - 1)) mod 2 ^ k"
  proof -
    have "?r + rb_used k b = (?r + 1) + (rb_used k b - 1)" using assms(2) by simp
    then show ?thesis by (simp only: rb_write_pos [OF assms(1)] rb_pos_def mod_add_left_eq)
  qed
  then show ?thesis
    using used_of_pos [of ?r' "2 ^ k" "rb_used k b - 1"] rb_used_less [of k b] r'
    by (simp add: rb_used_def [of k "rb_read_update _ _"])
qed

lemma rb_pos_advance_read:
  assumes "rb_shape k b"
  shows "rb_pos k (b\<lparr>rb_buffer := xs, rb_read := rb_next (2 ^ k) (rb_read b)\<rparr>) i = rb_pos k b (i + 1)"
  using assms by (simp add: rb_pos_def unat_rb_next rb_shape_def mod_add_left_eq mod_Suc_eq)

lemma rb_pos_inj: "i < 2 ^ k \<Longrightarrow> j < 2 ^ k \<Longrightarrow> rb_pos k b i = rb_pos k b j \<longleftrightarrow> i = j"
  by (simp add: rb_pos_def mod_window_inj)

lemma rb_pos_less [simp]: "rb_pos k b i < 2 ^ k"
  by (simp add: rb_pos_def)

lemma rb_pos_same [simp]:
  "rb_pos k (b\<lparr>rb_buffer := xs, rb_write := w\<rparr>) i = rb_pos k b i"
  by (simp add: rb_pos_def)

lemma rb_pos_turn: "rb_pos k b (2 ^ k) = rb_pos k b 0"
  by (simp add: rb_pos_def)

lemma length_rb_list [simp]: "length (rb_list k b) = rb_used k b"
  by (simp add: rb_list_def)

text \<open>The two updates of the shared state, on the list.\<close>

definition rb_pushed :: "nat \<Rightarrow> 'a \<Rightarrow> 'a ring_buffer \<Rightarrow> 'a ring_buffer" where
  "rb_pushed k v b = b\<lparr>rb_buffer := (rb_buffer b)[unat (rb_write b) := Some v],
     rb_write := rb_next (2 ^ k) (rb_write b)\<rparr>"

definition rb_popped :: "nat \<Rightarrow> 'a ring_buffer \<Rightarrow> 'a ring_buffer" where
  "rb_popped k b = b\<lparr>rb_buffer := (rb_buffer b)[unat (rb_read b) := None],
     rb_read := rb_next (2 ^ k) (rb_read b)\<rparr>"

lemma rb_pushed_cell:
  assumes "rb_shape k b" "rb_used k b < 2 ^ k - 1" "i < 2 ^ k"
  shows "rb_buffer (rb_pushed k v b) ! rb_pos k (rb_pushed k v b) i =
    (if i = rb_used k b then Some v else rb_buffer b ! rb_pos k b i)"
  using assms rb_pos_inj [of "rb_used k b" k i b] rb_used_less [of k b]
  by (simp add: rb_pushed_def rb_write_pos [OF assms(1)] rb_shape_def nth_list_update)

lemma rb_popped_cell:
  assumes "rb_shape k b" "0 < rb_used k b" "i < 2 ^ k"
  shows "rb_buffer (rb_popped k b) ! rb_pos k (rb_popped k b) i =
    (if i + 1 = 2 ^ k then None else rb_buffer b ! rb_pos k b (i + 1))"
proof -
  have r: "unat (rb_read b) = rb_pos k b 0"
    using assms(1) by (simp add: rb_pos_def rb_shape_def)
  have "rb_pos k b 0 = rb_pos k b (i + 1) \<longleftrightarrow> i + 1 = 2 ^ k"
  proof (cases "i + 1 < 2 ^ k")
    case False
    then have "i + 1 = 2 ^ k" using assms(3) by simp
    then show ?thesis by (metis rb_pos_turn)
  qed (use rb_pos_inj [of 0 k "i + 1" b] in simp)
  then show ?thesis
    using assms(1) unfolding rb_popped_def rb_pos_advance_read [OF assms(1)] r
    by (simp add: rb_shape_def nth_list_update)
qed

lemma rb_pushed_ok:
  assumes wf: "rb_wf k b" and room: "rb_used k b < 2 ^ k - 1"
  shows "rb_wf k (rb_pushed k v b) \<and> rb_list k (rb_pushed k v b) = rb_list k b @ [v]"
proof -
  have sh: "rb_shape k b" using wf by (simp add: rb_wf_def)
  have u: "rb_used k (rb_pushed k v b) = rb_used k b + 1"
    unfolding rb_pushed_def by (rule rb_used_advance_write [OF sh room])
  have "rb_shape k (rb_pushed k v b)"
    using sh by (simp add: rb_shape_def rb_pushed_def unat_rb_next)
  then have "rb_wf k (rb_pushed k v b)"
    using wf room by (auto simp: rb_wf_def u rb_pushed_cell [OF sh room])
  moreover have "rb_list k (rb_pushed k v b) = rb_list k b @ [v]"
    using room rb_pushed_cell [OF sh room]
    by (intro nth_equalityI) (auto simp: u rb_list_def nth_append less_Suc_eq)
  ultimately show ?thesis by blast
qed

lemma rb_popped_ok:
  assumes wf: "rb_wf k b" and some: "0 < rb_used k b"
  shows "rb_wf k (rb_popped k b) \<and> rb_list k b = the (rb_buffer b ! unat (rb_read b)) # rb_list k (rb_popped k b) \<and>
    rb_buffer b ! unat (rb_read b) \<noteq> None"
proof -
  have sh: "rb_shape k b" using wf by (simp add: rb_wf_def)
  have r: "unat (rb_read b) = rb_pos k b 0"
    using sh by (simp add: rb_pos_def rb_shape_def)
  have u: "rb_used k (rb_popped k b) = rb_used k b - 1"
    unfolding rb_popped_def by (rule rb_used_advance_read [OF sh some])
  have "rb_shape k (rb_popped k b)"
    using sh by (simp add: rb_shape_def rb_popped_def unat_rb_next)
  moreover have "rb_buffer (rb_popped k b) ! rb_pos k (rb_popped k b) i = None \<longleftrightarrow> rb_used k b - 1 \<le> i"
    if "i < 2 ^ k" for i
    using wf rb_used_less [of k b] that by (auto simp: rb_wf_def rb_popped_cell [OF sh some that])
  ultimately have "rb_wf k (rb_popped k b)"
    by (simp add: rb_wf_def u)
  moreover have "rb_list k b = the (rb_buffer b ! rb_pos k b 0) # rb_list k (rb_popped k b)"
    using some rb_used_less [of k b] rb_popped_cell [OF sh some]
    by (intro nth_equalityI) (auto simp: u rb_list_def nth_Cons split: nat.split)
  moreover have "rb_buffer b ! rb_pos k b 0 \<noteq> None"
    using wf some by (simp add: rb_wf_def)
  ultimately show ?thesis by (simp add: r)
qed

section \<open>One thread\<close>

lemma Push_full:
  "rb_wf k b \<Longrightarrow> rb_used k b = 2 ^ k - 1 \<Longrightarrow> RingBuffer_Push (2 ^ k) b v = Some (False, b)"
  by (simp add: RingBuffer_Push_def rb_full_iff rb_wf_def)

lemma Push_room:
  assumes "rb_wf k b" "rb_used k b \<noteq> 2 ^ k - 1"
  shows "RingBuffer_Push (2 ^ k) b v = Some (True, rb_pushed k v b)"
  using assms
  by (simp add: RingBuffer_Push_def rb_full_iff rb_wf_def rb_pushed_def aset_def rb_shape_def Let_def)

lemma Pop_empty: "rb_wf k b \<Longrightarrow> rb_used k b = 0 \<Longrightarrow> RingBuffer_Pop (2 ^ k) b = Some (None, b)"
  using rb_empty_iff [of k b] by (simp add: RingBuffer_Pop_def rb_wf_def Let_def)

lemma Pop_some:
  assumes "rb_wf k b" "0 < rb_used k b"
  shows "\<exists>v. RingBuffer_Pop (2 ^ k) b = Some (Some v, rb_popped k b) \<and> rb_list k b = v # rb_list k (rb_popped k b)"
  using rb_popped_ok [OF assms] assms rb_empty_iff [of k b]
  by (auto simp: RingBuffer_Pop_def rb_wf_def rb_popped_def aget_def rb_shape_def Let_def)

lemma rb_used_max: "rb_used k b \<noteq> 2 ^ k - 1 \<Longrightarrow> rb_used k b < 2 ^ k - 1"
  using rb_used_less [of k b] by linarith

interpretation rbq: bounded_fifo "rb_wf k" "rb_list k" "\<lambda>_. enat (2 ^ k - 1)" "\<lambda>_ _. True"
  "RingBuffer_Push (2 ^ k)" "RingBuffer_Pop (2 ^ k)"
proof
  fix b :: "'a ring_buffer" and x
  assume wf: "rb_wf k b" and "enat (length (rb_list k b)) < enat (2 ^ k - 1)"
  then have "rb_used k b < 2 ^ k - 1" by simp
  then show "\<exists>b'. RingBuffer_Push (2 ^ k) b x = Some (True, b') \<and> rb_wf k b' \<and> rb_list k b' = rb_list k b @ [x] \<and>
      enat (2 ^ k - 1) = enat (2 ^ k - 1)"
    using Push_room [OF wf] rb_pushed_ok [OF wf] by auto
next
  fix b :: "'a ring_buffer" and x
  assume wf: "rb_wf k b" and "\<not> enat (length (rb_list k b)) < enat (2 ^ k - 1)"
  then have "rb_used k b = 2 ^ k - 1" using rb_used_max [of k b] by auto
  then show "\<exists>b'. RingBuffer_Push (2 ^ k) b x = Some (False, b') \<and> rb_wf k b' \<and> rb_list k b' = rb_list k b \<and>
      enat (2 ^ k - 1) = enat (2 ^ k - 1)"
    using Push_full [OF wf] wf by simp
next
  fix b :: "'a ring_buffer" and v vs
  assume wf: "rb_wf k b" and c: "rb_list k b = v # vs"
  then have "0 < rb_used k b" using length_rb_list [of k b] by simp
  then show "\<exists>b'. RingBuffer_Pop (2 ^ k) b = Some (Some v, b') \<and> rb_wf k b' \<and> rb_list k b' = vs \<and>
      enat (2 ^ k - 1) = enat (2 ^ k - 1)"
    using Pop_some [OF wf] rb_popped_ok [OF wf] c by auto
next
  fix b :: "'a ring_buffer"
  assume wf: "rb_wf k b" and c: "rb_list k b = []"
  then have "rb_used k b = 0" using length_rb_list [of k b] by simp
  then show "\<exists>b'. RingBuffer_Pop (2 ^ k) b = Some (None, b') \<and> rb_wf k b' \<and> rb_list k b' = [] \<and>
      enat (2 ^ k - 1) = enat (2 ^ k - 1)"
    using Pop_empty [OF wf] wf c by simp
qed

lemma rb_ctor_wf:
  "k < 64 \<Longrightarrow> rb_wf k (RingBuffer_ctor (2 ^ k) :: 'a ring_buffer) \<and> rb_list k (RingBuffer_ctor (2 ^ k) :: 'a ring_buffer) = []"
  by (simp add: rb_wf_def rb_shape_def RingBuffer_ctor_def rb_used_def rb_list_def unat_2p_u64)

section \<open>Two threads\<close>

text \<open>
  The producer runs \<open>Push\<close> again and again, the consumer \<open>Pop\<close>. Each load or store of \<open>read_\<close>,
  \<open>write_\<close> or a cell is a step of its own; the constructors name the point between two of them and
  carry the local variables of the function. \<open>pushed\<close> and \<open>popped\<close> record what the calls
  that returned \<open>true\<close> have transferred.
\<close>

datatype 'a push_pc = P_idle | P_loaded 'a u64 | P_room 'a u64 | P_built 'a u64

datatype 'a pop_pc = C_idle | C_loaded u64 | C_some u64 | C_moved u64 'a | C_destroyed u64 'a

record 'a spsc =
  sp_shared :: "'a ring_buffer"
  sp_push :: "'a push_pc"
  sp_pop :: "'a pop_pc"
  sp_pushed :: "'a list"
  sp_popped :: "'a list"

inductive spsc_step :: "u64 \<Rightarrow> 'a spsc \<Rightarrow> 'a spsc \<Rightarrow> bool" for Capacity where
  push_load: "sp_push s = P_idle \<Longrightarrow>
    spsc_step Capacity s (s\<lparr>sp_push := P_loaded v (rb_write (sp_shared s))\<rparr>)"
| push_full: "sp_push s = P_loaded v w \<Longrightarrow> rb_next Capacity w = rb_read (sp_shared s) \<Longrightarrow>
    spsc_step Capacity s (s\<lparr>sp_push := P_idle\<rparr>)"
| push_room: "sp_push s = P_loaded v w \<Longrightarrow> rb_next Capacity w \<noteq> rb_read (sp_shared s) \<Longrightarrow>
    spsc_step Capacity s (s\<lparr>sp_push := P_room v w\<rparr>)"
| push_build: "sp_push s = P_room v w \<Longrightarrow> aset (rb_buffer (sp_shared s)) (unat w) v = Some buf \<Longrightarrow>
    spsc_step Capacity s (s\<lparr>sp_push := P_built v w, sp_shared := (sp_shared s)\<lparr>rb_buffer := buf\<rparr>\<rparr>)"
| push_store: "sp_push s = P_built v w \<Longrightarrow>
    spsc_step Capacity s (s\<lparr>sp_push := P_idle, sp_pushed := sp_pushed s @ [v],
      sp_shared := (sp_shared s)\<lparr>rb_write := rb_next Capacity w\<rparr>\<rparr>)"
| pop_load: "sp_pop s = C_idle \<Longrightarrow>
    spsc_step Capacity s (s\<lparr>sp_pop := C_loaded (rb_read (sp_shared s))\<rparr>)"
| pop_empty: "sp_pop s = C_loaded r \<Longrightarrow> r = rb_write (sp_shared s) \<Longrightarrow>
    spsc_step Capacity s (s\<lparr>sp_pop := C_idle\<rparr>)"
| pop_some: "sp_pop s = C_loaded r \<Longrightarrow> r \<noteq> rb_write (sp_shared s) \<Longrightarrow>
    spsc_step Capacity s (s\<lparr>sp_pop := C_some r\<rparr>)"
| pop_move: "sp_pop s = C_some r \<Longrightarrow> aget (rb_buffer (sp_shared s)) (unat r) = Some v \<Longrightarrow>
    spsc_step Capacity s (s\<lparr>sp_pop := C_moved r v\<rparr>)"
| pop_destroy: "sp_pop s = C_moved r v \<Longrightarrow>
    spsc_step Capacity s (s\<lparr>sp_pop := C_destroyed r v,
      sp_shared := (sp_shared s)\<lparr>rb_buffer := (rb_buffer (sp_shared s))[unat r := None]\<rparr>\<rparr>)"
| pop_store: "sp_pop s = C_destroyed r v \<Longrightarrow>
    spsc_step Capacity s (s\<lparr>sp_pop := C_idle, sp_popped := sp_popped s @ [v],
      sp_shared := (sp_shared s)\<lparr>rb_read := rb_next Capacity r\<rparr>\<rparr>)"

definition spsc_init :: "u64 \<Rightarrow> 'a spsc" where
  "spsc_init Capacity = \<lparr>sp_shared = RingBuffer_ctor Capacity, sp_push = P_idle, sp_pop = C_idle,
     sp_pushed = [], sp_popped = []\<rparr>"

text \<open>
  The buffer as its indices describe it: without the object the producer has built but not
  published, with the object the consumer has destroyed but not released.
\<close>

definition push_view :: "'a push_pc \<Rightarrow> 'a option list \<Rightarrow> 'a option list" where
  "push_view p xs = (case p of P_built v w \<Rightarrow> xs[unat w := None] | _ \<Rightarrow> xs)"

definition pop_view :: "'a pop_pc \<Rightarrow> 'a option list \<Rightarrow> 'a option list" where
  "pop_view c xs = (case c of C_destroyed r v \<Rightarrow> xs[unat r := Some v] | _ \<Rightarrow> xs)"

definition spsc_view :: "'a spsc \<Rightarrow> 'a ring_buffer" where
  "spsc_view s = (sp_shared s)\<lparr>rb_buffer := pop_view (sp_pop s) (push_view (sp_push s) (rb_buffer (sp_shared s)))\<rparr>"

definition push_inv :: "nat \<Rightarrow> 'a spsc \<Rightarrow> bool" where
  "push_inv k s = (case sp_push s of
     P_idle \<Rightarrow> True
   | P_loaded v w \<Rightarrow> w = rb_write (sp_shared s)
   | P_room v w \<Rightarrow> w = rb_write (sp_shared s) \<and> rb_used k (sp_shared s) < 2 ^ k - 1
   | P_built v w \<Rightarrow> w = rb_write (sp_shared s) \<and> rb_used k (sp_shared s) < 2 ^ k - 1 \<and>
       rb_buffer (sp_shared s) ! unat w = Some v)"

definition pop_inv :: "nat \<Rightarrow> 'a spsc \<Rightarrow> bool" where
  "pop_inv k s = (case sp_pop s of
     C_idle \<Rightarrow> True
   | C_loaded r \<Rightarrow> r = rb_read (sp_shared s)
   | C_some r \<Rightarrow> r = rb_read (sp_shared s) \<and> 0 < rb_used k (sp_shared s)
   | C_moved r v \<Rightarrow> r = rb_read (sp_shared s) \<and> 0 < rb_used k (sp_shared s) \<and>
       rb_buffer (sp_shared s) ! unat r = Some v
   | C_destroyed r v \<Rightarrow> r = rb_read (sp_shared s) \<and> 0 < rb_used k (sp_shared s) \<and>
       rb_buffer (sp_shared s) ! unat r = None)"

definition spsc_inv :: "nat \<Rightarrow> 'a spsc \<Rightarrow> bool" where
  "spsc_inv k s \<longleftrightarrow> rb_wf k (spsc_view s) \<and> push_inv k s \<and> pop_inv k s \<and>
     sp_pushed s = sp_popped s @ rb_list k (spsc_view s)"

lemma rb_used_buffer [simp]: "rb_used k (b\<lparr>rb_buffer := xs\<rparr>) = rb_used k b"
  by (simp add: rb_used_def)

lemma view_sel [simp]:
  "rb_read (spsc_view s) = rb_read (sp_shared s)" "rb_write (spsc_view s) = rb_write (sp_shared s)"
  "rb_used k (spsc_view s) = rb_used k (sp_shared s)"
  "length (rb_buffer (spsc_view s)) = length (rb_buffer (sp_shared s))"
  by (auto simp: spsc_view_def rb_used_def push_view_def pop_view_def split: push_pc.splits pop_pc.splits)

lemma view_shape [simp]: "rb_shape k (spsc_view s) = rb_shape k (sp_shared s)"
  by (simp add: rb_shape_def)

lemma spsc_inv_shape: "spsc_inv k s \<Longrightarrow> rb_shape k (sp_shared s)"
  by (simp add: spsc_inv_def rb_wf_def)

text \<open>The producer's cell and the consumer's cell differ while both are in use.\<close>

lemma cells_differ:
  assumes "rb_shape k b" "0 < rb_used k b"
  shows "unat (rb_read b) \<noteq> unat (rb_write b)"
  using assms rb_empty_iff [OF assms(1)] by (simp add: word_unat_eq_iff)

lemma view_write_cell:
  assumes "spsc_inv k s"
  shows "rb_buffer (spsc_view s) ! unat (rb_write (sp_shared s)) = None"
proof -
  have "rb_shape k (spsc_view s)" using spsc_inv_shape [OF assms] by simp
  then have "unat (rb_write (spsc_view s)) = rb_pos k (spsc_view s) (rb_used k (spsc_view s))"
    by (rule rb_write_pos)
  then show ?thesis
    using assms rb_used_less [of k "sp_shared s"] by (simp add: spsc_inv_def rb_wf_def)
qed

lemma view_read_cell:
  assumes "spsc_inv k s" "0 < rb_used k (sp_shared s)"
  shows "rb_buffer (spsc_view s) ! unat (rb_read (sp_shared s)) \<noteq> None"
  using rb_popped_ok [of k "spsc_view s"] assms by (simp add: spsc_inv_def)

text \<open>What the threads find: a free cell to build in, a live object to take.\<close>

lemma push_finds_free:
  assumes "spsc_inv k s" "sp_push s = P_room v w"
  shows "unat w < length (rb_buffer (sp_shared s)) \<and> rb_buffer (sp_shared s) ! unat w = None"
  using assms view_write_cell [OF assms(1)] spsc_inv_shape [OF assms(1)] cells_differ [of k "sp_shared s"]
  by (auto simp: spsc_inv_def push_inv_def pop_inv_def spsc_view_def push_view_def pop_view_def rb_shape_def
      split: pop_pc.splits)

lemma pop_finds_object:
  assumes "spsc_inv k s" "sp_pop s = C_some r"
  shows "\<exists>v. aget (rb_buffer (sp_shared s)) (unat r) = Some v"
  using assms view_read_cell [OF assms(1)] spsc_inv_shape [OF assms(1)] cells_differ [of k "sp_shared s"]
  by (auto simp: spsc_inv_def push_inv_def pop_inv_def spsc_view_def push_view_def pop_view_def rb_shape_def aget_def
      split: push_pc.splits)

lemma update_same: "xs ! i = a \<Longrightarrow> xs[i := a] = xs"
  by (metis list_update_id)

lemma update_swap_same: "i \<noteq> j \<Longrightarrow> xs ! j = c \<Longrightarrow> xs[j := b, i := a, j := c] = xs[i := a]"
  by (metis list_update_id list_update_overwrite list_update_swap)

lemma inv_quiet:
  assumes "spsc_inv k s" "spsc_view s' = spsc_view s" "sp_pushed s' = sp_pushed s" "sp_popped s' = sp_popped s"
    "push_inv k s'" "pop_inv k s'"
  shows "spsc_inv k s'"
  using assms by (simp add: spsc_inv_def)

lemma inv_push_build:
  assumes inv: "spsc_inv k s" and pc: "sp_push s = P_room v w"
    and buf: "aset (rb_buffer (sp_shared s)) (unat w) v = Some buf"
  shows "spsc_inv k (s\<lparr>sp_push := P_built v w, sp_shared := (sp_shared s)\<lparr>rb_buffer := buf\<rparr>\<rparr>)"
proof -
  have b: "buf = (rb_buffer (sp_shared s))[unat w := Some v]" "unat w < length (rb_buffer (sp_shared s))"
    using buf by (auto simp: aset_Some)
  have w: "w = rb_write (sp_shared s)" using inv pc by (simp add: spsc_inv_def push_inv_def)
  have "buf[unat w := None] = rb_buffer (sp_shared s)"
    using push_finds_free [OF inv pc] b by (simp add: update_same)
  then show ?thesis
    using inv pc b cells_differ [OF spsc_inv_shape [OF inv]] w
    by (intro inv_quiet [OF inv])
      (auto simp: spsc_view_def push_view_def pop_view_def spsc_inv_def push_inv_def pop_inv_def split: pop_pc.splits)
qed

lemma inv_push_store:
  assumes inv: "spsc_inv k s" and pc: "sp_push s = P_built v w"
  shows "spsc_inv k (s\<lparr>sp_push := P_idle, sp_pushed := sp_pushed s @ [v],
      sp_shared := (sp_shared s)\<lparr>rb_write := rb_next (2 ^ k) w\<rparr>\<rparr>)" (is "spsc_inv k ?s")
proof -
  have w: "w = rb_write (sp_shared s)" "rb_used k (sp_shared s) < 2 ^ k - 1"
      "rb_buffer (sp_shared s) ! unat w = Some v"
    using inv pc by (auto simp: spsc_inv_def push_inv_def)
  have sh: "rb_shape k (sp_shared s)" by (rule spsc_inv_shape [OF inv])
  have v: "spsc_view ?s = rb_pushed k v (spsc_view s)"
    using inv pc w cells_differ [OF sh]
    by (auto simp: spsc_view_def push_view_def pop_view_def rb_pushed_def spsc_inv_def pop_inv_def update_same
        update_swap_same split: pop_pc.splits)
  have "pop_inv k ?s"
    using inv rb_used_advance_write [OF sh w(2), of "rb_buffer (sp_shared s)"] w(1)
    by (auto simp: spsc_inv_def pop_inv_def split: pop_pc.splits)
  then show ?thesis
    using inv rb_pushed_ok [of k "spsc_view s" v] w(2) v
    by (simp add: spsc_inv_def push_inv_def)
qed

lemma inv_pop_destroy:
  assumes inv: "spsc_inv k s" and pc: "sp_pop s = C_moved r v"
  shows "spsc_inv k (s\<lparr>sp_pop := C_destroyed r v,
      sp_shared := (sp_shared s)\<lparr>rb_buffer := (rb_buffer (sp_shared s))[unat r := None]\<rparr>\<rparr>)"
proof -
  have r: "r = rb_read (sp_shared s)" "0 < rb_used k (sp_shared s)" "rb_buffer (sp_shared s) ! unat r = Some v"
    using inv pc by (auto simp: spsc_inv_def pop_inv_def)
  have sh: "rb_shape k (sp_shared s)" by (rule spsc_inv_shape [OF inv])
  then show ?thesis
    using inv pc r cells_differ [OF sh r(2)]
    by (intro inv_quiet [OF inv])
      (auto simp: spsc_view_def push_view_def pop_view_def spsc_inv_def push_inv_def pop_inv_def update_same
        update_swap_same rb_shape_def split: push_pc.splits)
qed

lemma inv_pop_store:
  assumes inv: "spsc_inv k s" and pc: "sp_pop s = C_destroyed r v"
  shows "spsc_inv k (s\<lparr>sp_pop := C_idle, sp_popped := sp_popped s @ [v],
      sp_shared := (sp_shared s)\<lparr>rb_read := rb_next (2 ^ k) r\<rparr>\<rparr>)" (is "spsc_inv k ?s")
proof -
  have r: "r = rb_read (sp_shared s)" "0 < rb_used k (sp_shared s)" "rb_buffer (sp_shared s) ! unat r = None"
    using inv pc by (auto simp: spsc_inv_def pop_inv_def)
  have sh: "rb_shape k (sp_shared s)" by (rule spsc_inv_shape [OF inv])
  have v: "spsc_view ?s = rb_popped k (spsc_view s)"
    using inv pc r cells_differ [OF sh r(2)]
    by (auto simp: spsc_view_def push_view_def pop_view_def rb_popped_def spsc_inv_def push_inv_def update_same
        update_swap_same split: push_pc.splits)
  have "the (rb_buffer (spsc_view s) ! unat (rb_read (spsc_view s))) = v"
    using pc r sh by (auto simp: spsc_view_def pop_view_def push_view_def rb_shape_def split: push_pc.splits)
  moreover have "push_inv k ?s"
    using inv rb_used_advance_read [OF sh r(2), of "rb_buffer (sp_shared s)"] r(1)
    by (auto simp: spsc_inv_def push_inv_def split: push_pc.splits)
  ultimately show ?thesis
    using inv rb_popped_ok [of k "spsc_view s"] r(2) v
    by (simp add: spsc_inv_def pop_inv_def)
qed

lemma spsc_inv_step:
  assumes "spsc_step (2 ^ k) s s'" "spsc_inv k s"
  shows "spsc_inv k s'"
  using assms
proof (cases rule: spsc_step.cases)
  case (push_room v w)
  then have "rb_used k (sp_shared s) \<noteq> 2 ^ k - 1"
    using assms(2) rb_full_iff [OF spsc_inv_shape [OF assms(2)]] by (simp add: spsc_inv_def push_inv_def)
  then show ?thesis
    using push_room assms(2) rb_used_max [of k "sp_shared s"]
    by (auto simp: spsc_inv_def spsc_view_def push_view_def push_inv_def pop_inv_def split: pop_pc.splits)
next
  case (pop_some r)
  then have "0 < rb_used k (sp_shared s)"
    using assms(2) rb_empty_iff [OF spsc_inv_shape [OF assms(2)]] by (simp add: spsc_inv_def pop_inv_def)
  then show ?thesis
    using pop_some assms(2)
    by (auto simp: spsc_inv_def spsc_view_def pop_view_def push_inv_def pop_inv_def split: push_pc.splits)
next
  case (push_build v w buf)
  then show ?thesis using inv_push_build [OF assms(2)] by simp
next
  case (push_store v w)
  then show ?thesis using inv_push_store [OF assms(2)] by simp
next
  case (pop_destroy r v)
  then show ?thesis using inv_pop_destroy [OF assms(2)] by simp
next
  case (pop_store r v)
  then show ?thesis using inv_pop_store [OF assms(2)] by simp
qed (use assms(2) in \<open>auto simp: spsc_inv_def spsc_view_def push_view_def pop_view_def push_inv_def pop_inv_def aget_Some
    split: push_pc.splits pop_pc.splits\<close>)

lemma spsc_inv_init: "k < 64 \<Longrightarrow> spsc_inv k (spsc_init (2 ^ k) :: 'a spsc)"
  using rb_ctor_wf [of k, where 'a = 'a]
  by (auto simp: spsc_inv_def spsc_init_def spsc_view_def push_view_def pop_view_def push_inv_def pop_inv_def)

lemma spsc_reachable_inv:
  assumes "(spsc_step (2 ^ k))\<^sup>*\<^sup>* (spsc_init (2 ^ k)) s" "k < 64"
  shows "spsc_inv k s"
  using assms by (induction rule: rtranclp_induct) (auto intro: spsc_inv_init spsc_inv_step)

text \<open>
  C7: one producer and one consumer, interleaved in any way at every access to shared memory:
  what was popped is at every moment a prefix of what was pushed, with fewer than \<open>Capacity\<close>
  objects between; the producer only ever builds an object in a cell that holds none, and the
  consumer only ever takes one from a cell that holds one.
\<close>

theorem spsc_interleaving_safe:
  assumes "(spsc_step (2 ^ k))\<^sup>*\<^sup>* (spsc_init (2 ^ k)) s" "k < 64"
  shows "(\<exists>rest. sp_pushed s = sp_popped s @ rest \<and> length rest < 2 ^ k) \<and>
    (\<forall>v w. sp_push s = P_room v w \<longrightarrow>
       unat w < length (rb_buffer (sp_shared s)) \<and> rb_buffer (sp_shared s) ! unat w = None) \<and>
    (\<forall>r. sp_pop s = C_some r \<longrightarrow> (\<exists>v. aget (rb_buffer (sp_shared s)) (unat r) = Some v))"
proof -
  have inv: "spsc_inv k s" by (rule spsc_reachable_inv [OF assms])
  then show ?thesis
    using push_finds_free [OF inv] pop_finds_object [OF inv] rb_used_less [of k "sp_shared s"]
    by (auto simp: spsc_inv_def)
qed

text \<open>One push, and the start of a pop.\<close>

definition ex_spsc :: "nat spsc" where
  "ex_spsc = \<lparr>sp_shared = \<lparr>rb_read = 0, rb_write = 1, rb_buffer = [Some 7, None]\<rparr>,
     sp_push = P_idle, sp_pop = C_some 0, sp_pushed = [7], sp_popped = []\<rparr>"

lemma ex_spsc_reachable: "(spsc_step (2 ^ 1))\<^sup>*\<^sup>* (spsc_init (2 ^ 1)) ex_spsc"
proof -
  let ?s = "\<lambda>w xs p c out. \<lparr>sp_shared = \<lparr>rb_read = 0, rb_write = w, rb_buffer = xs\<rparr>,
     sp_push = p, sp_pop = c, sp_pushed = out, sp_popped = []\<rparr> :: nat spsc"
  have "replicate 2 (None :: nat option) = [None, None]" by (simp add: numeral_2_eq_2)
  then have "spsc_init (2 ^ 1) = ?s 0 [None, None] P_idle C_idle []"
    by (simp add: spsc_init_def RingBuffer_ctor_def)
  moreover have "spsc_step 2 (?s 0 [None, None] P_idle C_idle []) (?s 0 [None, None] (P_loaded 7 0) C_idle [])"
    using push_load [of "?s 0 [None, None] P_idle C_idle []" 2 7] by simp
  moreover have "spsc_step 2 (?s 0 [None, None] (P_loaded 7 0) C_idle []) (?s 0 [None, None] (P_room 7 0) C_idle [])"
    using push_room [of "?s 0 [None, None] (P_loaded 7 0) C_idle []" 7 0 2] by (simp add: rb_next_def)
  moreover have "spsc_step 2 (?s 0 [None, None] (P_room 7 0) C_idle []) (?s 0 [Some 7, None] (P_built 7 0) C_idle [])"
    using push_build [of "?s 0 [None, None] (P_room 7 0) C_idle []" 7 0] by (simp add: aset_def)
  moreover have "spsc_step 2 (?s 0 [Some 7, None] (P_built 7 0) C_idle []) (?s 1 [Some 7, None] P_idle C_idle [7])"
    using push_store [of "?s 0 [Some 7, None] (P_built 7 0) C_idle []" 7 0 2] by (simp add: rb_next_def)
  moreover have "spsc_step 2 (?s 1 [Some 7, None] P_idle C_idle [7]) (?s 1 [Some 7, None] P_idle (C_loaded 0) [7])"
    using pop_load [of "?s 1 [Some 7, None] P_idle C_idle [7]" 2] by simp
  moreover have "spsc_step 2 (?s 1 [Some 7, None] P_idle (C_loaded 0) [7]) ex_spsc"
    using pop_some [of "?s 1 [Some 7, None] P_idle (C_loaded 0) [7]" 0 2] by (simp add: ex_spsc_def)
  ultimately show ?thesis
    by (auto intro!: converse_rtranclp_into_rtranclp)
qed

theorem spsc_interleaving_safe_witness:
  "sp_pop ex_spsc = C_some 0 \<and> (\<exists>v. aget (rb_buffer (sp_shared ex_spsc)) 0 = Some v)"
  using spsc_interleaving_safe [OF ex_spsc_reachable] by (simp add: ex_spsc_def)

text \<open>
  any sequence of \<open>Push\<close> and \<open>Pop\<close> by one thread returns, call by call, what a list queue of
  capacity \<open>Capacity - 1\<close> returns.
\<close>

theorem RingBuffer_fifo:
  assumes "rb_wf k b"
  shows "\<exists>b'. fifo_run (RingBuffer_Push (2 ^ k)) (RingBuffer_Pop (2 ^ k)) es b =
      Some (fst (q_run (enat (2 ^ k - 1)) es (rb_list k b)), b') \<and>
    rb_wf k b' \<and> rb_list k b' = snd (q_run (enat (2 ^ k - 1)) es (rb_list k b))"
  using rbq.run_refines [OF assms] by auto

theorem RingBuffer_fifo_witness:
  "\<exists>b'. fifo_run (RingBuffer_Push 4) (RingBuffer_Pop 4) [Put 1, Put 2, Get, Put 3, Put 4, Put (5::nat), Get]
      (RingBuffer_ctor 4) =
     Some ([Accepted True, Accepted True, Got (Some 1), Accepted True, Accepted True, Accepted False, Got (Some 2)], b') \<and>
     rb_list 2 b' = [3, 4]"
proof -
  have "rb_wf 2 (RingBuffer_ctor 4 :: nat ring_buffer)" "rb_list 2 (RingBuffer_ctor 4 :: nat ring_buffer) = []"
    using rb_ctor_wf [of 2] by auto
  then show ?thesis
    using RingBuffer_fifo [of 2 "RingBuffer_ctor 4" "[Put 1, Put 2, Get, Put 3, Put 4, Put (5::nat), Get]"]
    by (auto simp del: fifo_run.simps)
qed

text \<open>The destructor.\<close>

lemma rb_destroy_list:
  "rb_wf k b \<Longrightarrow> \<exists>buf. rb_destroy_from (2 ^ k) (rb_read b) (rb_write b) (rb_buffer b) = Some (rb_list k b, buf) \<and>
     length buf = 2 ^ k \<and> (\<forall>i < 2 ^ k. buf ! i = None)"
proof (induction "rb_used k b" arbitrary: b)
  case 0
  then have sh: "rb_shape k b" by (simp add: rb_wf_def)
  have "rb_buffer b ! i = None" if "i < 2 ^ k" for i
  proof -
    have "i = rb_pos k b ((i + 2 ^ k - unat (rb_read b)) mod 2 ^ k)"
      using sh that by (simp add: rb_pos_def rb_shape_def mod_add_right_eq)
    then show ?thesis using 0 by (metis rb_wf_def mod_less_divisor zero_less_power zero_less_numeral le0)
  qed
  then show ?case
    using 0 rb_empty_iff [OF sh] sh by (simp add: rb_destroy_from.simps rb_list_def rb_shape_def)
next
  case (Suc n)
  then have sh: "rb_shape k b" and pos: "0 < rb_used k b" by (auto simp: rb_wf_def)
  have p: "rb_wf k (rb_popped k b)" "rb_list k b = the (rb_buffer b ! unat (rb_read b)) # rb_list k (rb_popped k b)"
      "rb_buffer b ! unat (rb_read b) \<noteq> None"
    using rb_popped_ok [OF Suc.prems pos] by auto
  have "rb_used k (rb_popped k b) = n"
    using rb_used_advance_read [OF sh pos] Suc.hyps(2) by (simp add: rb_popped_def)
  then obtain buf where "rb_destroy_from (2 ^ k) (rb_next (2 ^ k) (rb_read b)) (rb_write b)
        ((rb_buffer b)[unat (rb_read b) := None]) = Some (rb_list k (rb_popped k b), buf)"
      "length buf = 2 ^ k" "\<forall>i < 2 ^ k. buf ! i = None"
    using Suc.hyps(1) [OF _ p(1)] by (auto simp: rb_popped_def)
  then show ?case
    using p(2,3) pos rb_empty_iff [OF sh] sh
    by (subst rb_destroy_from.simps) (auto simp: aget_def rb_shape_def)
qed

text \<open>
  \<open>Size\<close> is the number of objects held, and the destructor terminates having destroyed
  exactly these, oldest first, so that no cell holds an object afterwards.
\<close>

theorem RingBuffer_dtor_complete:
  assumes "rb_wf k b"
  shows "unat (RingBuffer_Size (2 ^ k) b) = length (rb_list k b) \<and>
    (\<exists>buf. RingBuffer_dtor (2 ^ k) b = Some (rb_list k b, buf) \<and> (\<forall>i < 2 ^ k. buf ! i = None))"
proof -
  have sh: "k < 64" "unat (rb_read b) < 2 ^ k" "unat (rb_write b) < 2 ^ k"
    using assms by (auto simp: rb_wf_def rb_shape_def)
  have "unat (RingBuffer_Size (2 ^ k) b) = rb_used k b"
  proof (cases "rb_read b \<le> rb_write b")
    case True
    then have "unat (rb_write b) + 2 ^ k - unat (rb_read b) = (unat (rb_write b) - unat (rb_read b)) + 2 ^ k"
      by (simp add: word_le_nat_alt)
    then have "rb_used k b = unat (rb_write b) - unat (rb_read b)"
      using sh unfolding rb_used_def by (simp only: mod_add_self2) simp
    then show ?thesis
      using True by (simp add: RingBuffer_Size_def unat_sub)
  next
    case False
    have "rb_read b \<le> 2 ^ k" using sh by (simp add: word_le_nat_alt unat_2p_u64)
    then have "unat (2 ^ k - rb_read b) = 2 ^ k - unat (rb_read b)"
      using sh by (simp add: unat_sub unat_2p_u64)
    moreover have "2 ^ k - unat (rb_read b) + unat (rb_write b) < 2 ^ k"
      using False sh by (simp add: word_le_nat_alt)
    moreover have "(2::nat) ^ k < 2 ^ 64" using sh by (intro power_strict_increasing) auto
    ultimately show ?thesis
      using False sh by (simp add: RingBuffer_Size_def rb_used_def unat_word_ariths word_le_nat_alt)
  qed
  then show ?thesis
    using rb_destroy_list [OF assms] by (auto simp: RingBuffer_dtor_def)
qed

theorem RingBuffer_dtor_complete_witness:
  "\<exists>buf. RingBuffer_dtor 4 \<lparr>rb_read = 3, rb_write = 1, rb_buffer = [Some 6, None, None, Some (5::nat)]\<rparr> = Some ([5, 6], buf)"
proof -
  let ?b = "\<lparr>rb_read = 3, rb_write = 1, rb_buffer = [Some 6, None, None, Some (5::nat)]\<rparr>"
  have u: "rb_used 2 ?b = 2" by (simp add: rb_used_def)
  have "rb_wf 2 ?b"
    unfolding rb_wf_def u by (simp add: all_less_4 rb_shape_def rb_pos_def)
  moreover have "rb_list 2 ?b = [5, 6]"
    unfolding rb_list_def u by (simp add: rb_pos_def upt_rec)
  ultimately show ?thesis using RingBuffer_dtor_complete [of 2 ?b] by auto
qed

end
