(* ===== verification/MsgQueue.thy ===== *)
theory MsgQueue
  imports Fifo
begin

text \<open>
  The two-list message queue of \<^verbatim>\<open>free_queue/msgqueue.c\<close>. Messages are linked through a pointer
  inside each message, at offset \<open>linkoff\<close>; the model keeps these link cells and the two head
  cells explicitly. Every operation runs under its mutex, so an operation is one function of the
  queue; a caller that waits on a condition variable until another thread acts has no result.
\<close>

section \<open>Data\<close>

datatype mq_cell = Head1 | Head2 | Link int

record msgqueue =
  mq_msg_max :: u64
  mq_msg_cnt :: u64
  mq_linkoff :: int
  mq_nonblock :: bool
  mq_get_head :: mq_cell
  mq_put_head :: mq_cell
  mq_put_tail :: mq_cell
  mq_mem :: "mq_cell \<Rightarrow> int option"

datatype mq_prim = Get_mutex | Put_mutex | Get_cond | Put_cond

section \<open>Operations\<close>

text \<open>
  \<open>msgqueue_create\<close>: \<open>ok\<close> is the success of \<open>malloc\<close>, \<open>r1\<close> to \<open>r4\<close> are the results of the four
  \<open>pthread\<close> initialisations, \<open>mem\<close> the link cells of the messages. \<open>Inl\<close> of the error number and
  of the primitives that were initialised and those that were destroyed, in the order of the calls.
\<close>

definition msgqueue_create ::
  "bool \<Rightarrow> int \<Rightarrow> int \<Rightarrow> int \<Rightarrow> int \<Rightarrow> (mq_cell \<Rightarrow> int option) \<Rightarrow> u64 \<Rightarrow> int \<Rightarrow>
   (int option \<times> mq_prim list \<times> mq_prim list) + msgqueue" where
  "msgqueue_create ok r1 r2 r3 r4 mem maxlen linkoff =
     (if \<not> ok then Inl (None, [], [])
      else if r1 = 0 then
        (if r2 = 0 then
           (if r3 = 0 then
              (if r4 = 0 then
                 Inr \<lparr>mq_msg_max = maxlen, mq_msg_cnt = 0, mq_linkoff = linkoff, mq_nonblock = False,
                      mq_get_head = Head1, mq_put_head = Head2, mq_put_tail = Head2,
                      mq_mem = mem(Head1 := None, Head2 := None)\<rparr>
               else Inl (Some r4, [Get_mutex, Put_mutex, Get_cond], [Get_cond, Put_mutex, Get_mutex]))
            else Inl (Some r3, [Get_mutex, Put_mutex], [Put_mutex, Get_mutex]))
         else Inl (Some r2, [Get_mutex], [Get_mutex]))
      else Inl (Some r1, [], []))"

definition msgqueue_set_nonblock :: "msgqueue \<Rightarrow> msgqueue" where
  "msgqueue_set_nonblock q = q\<lparr>mq_nonblock := True\<rparr>"

definition msgqueue_set_block :: "msgqueue \<Rightarrow> msgqueue" where
  "msgqueue_set_block q = q\<lparr>mq_nonblock := False\<rparr>"

definition msgqueue_swap :: "msgqueue \<Rightarrow> (u64 \<times> msgqueue) option" where
  "msgqueue_swap q =
     (let get_head = mq_get_head q;
          q = q\<lparr>mq_get_head := mq_put_head q\<rparr>
      in if mq_msg_cnt q = 0 \<and> \<not> mq_nonblock q then None
         else Some (mq_msg_cnt q,
                    q\<lparr>mq_put_head := get_head, mq_put_tail := get_head, mq_msg_cnt := 0\<rparr>))"

definition msgqueue_put :: "int \<Rightarrow> msgqueue \<Rightarrow> msgqueue option" where
  "msgqueue_put msg q =
     (let link = msg + mq_linkoff q;
          q = q\<lparr>mq_mem := (mq_mem q)(Link link := None)\<rparr>
      in if mq_msg_cnt q > mq_msg_max q - 1 \<and> \<not> mq_nonblock q then None
         else Some (q\<lparr>mq_mem := (mq_mem q)(mq_put_tail q := Some link), mq_put_tail := Link link,
                      mq_msg_cnt := mq_msg_cnt q + 1\<rparr>))"

text \<open>The body of \<open>msgqueue_get\<close> once there is a message; a null head would be dereferenced.\<close>

definition mq_take :: "msgqueue \<Rightarrow> (int option \<times> msgqueue) option" where
  "mq_take q =
     do { p \<leftarrow> mq_mem q (mq_get_head q);
          Some (Some (p - mq_linkoff q), q\<lparr>mq_mem := (mq_mem q)(mq_get_head q := mq_mem q (Link p))\<rparr>) }"

definition msgqueue_get :: "msgqueue \<Rightarrow> (int option \<times> msgqueue) option" where
  "msgqueue_get q =
     (if mq_mem q (mq_get_head q) \<noteq> None then mq_take q
      else do { (cnt, q) \<leftarrow> msgqueue_swap q;
                if cnt > 0 then mq_take q else Some (None, q) })"

section \<open>The lists behind the heads\<close>

fun mq_chain :: "(mq_cell \<Rightarrow> int option) \<Rightarrow> mq_cell \<Rightarrow> int list \<Rightarrow> bool" where
  "mq_chain mem c [] \<longleftrightarrow> mem c = None"
| "mq_chain mem c (x # xs) \<longleftrightarrow> mem c = Some x \<and> mq_chain mem (Link x) xs"

partial_function (option) mq_walk :: "(mq_cell \<Rightarrow> int option) \<Rightarrow> mq_cell \<Rightarrow> int list option" where
  "mq_walk mem c =
     (case mem c of None \<Rightarrow> Some []
      | Some x \<Rightarrow> do { xs \<leftarrow> mq_walk mem (Link x); Some (x # xs) })"

declare mq_walk.simps [code]

definition mq_list :: "msgqueue \<Rightarrow> int list" where
  "mq_list q = map (\<lambda>p. p - mq_linkoff q)
     (the (mq_walk (mq_mem q) (mq_get_head q)) @ the (mq_walk (mq_mem q) (mq_put_head q)))"

text \<open>\<open>gs\<close> are the links of the messages to be taken next, \<open>ps\<close> those put since the last swap.\<close>

definition mq_rep :: "msgqueue \<Rightarrow> int list \<Rightarrow> int list \<Rightarrow> bool" where
  "mq_rep q gs ps \<longleftrightarrow>
     {mq_get_head q, mq_put_head q} = {Head1, Head2} \<and> distinct (gs @ ps) \<and>
     mq_chain (mq_mem q) (mq_get_head q) gs \<and> mq_chain (mq_mem q) (mq_put_head q) ps \<and>
     mq_put_tail q = (if ps = [] then mq_put_head q else Link (last ps)) \<and>
     unat (mq_msg_cnt q) = length ps"

definition mq_wf :: "msgqueue \<Rightarrow> bool" where
  "mq_wf q \<longleftrightarrow> (\<exists>gs ps. mq_rep q gs ps)"

text \<open>A message may be put when it is not already in the queue; the counter must not wrap.\<close>

definition mq_adm :: "int list \<Rightarrow> int \<Rightarrow> bool" where
  "mq_adm ms msg \<longleftrightarrow> msg \<notin> set ms \<and> length ms < 2 ^ 64 - 1"

lemma mq_walk_chain: "mq_chain mem c xs \<Longrightarrow> mq_walk mem c = Some xs"
  by (induction xs arbitrary: c) (simp_all add: mq_walk.simps)

lemma mq_rep_list: "mq_rep q gs ps \<Longrightarrow> mq_list q = map (\<lambda>p. p - mq_linkoff q) (gs @ ps)"
  by (auto simp: mq_rep_def mq_list_def mq_walk_chain)

lemma mq_chain_update:
  "mq_chain mem c xs \<Longrightarrow> d \<noteq> c \<Longrightarrow> d \<notin> Link ` set xs \<Longrightarrow> mq_chain (mem(d := v)) c xs"
  by (induction xs arbitrary: c) auto

lemma mq_chain_append:
  assumes "mq_chain mem c xs" "distinct (xs @ [x])" "c \<noteq> Link x"
    and "mem (Link x) = None" "\<forall>y\<in>set xs. c \<noteq> Link y"
  shows "mq_chain (mem((if xs = [] then c else Link (last xs)) := Some x)) c (xs @ [x])"
  using assms
proof (induction xs arbitrary: c)
  case (Cons y ys)
  then have "mq_chain (mem((if ys = [] then Link y else Link (last ys)) := Some x)) (Link y) (ys @ [x])"
    by (intro Cons.IH) auto
  then show ?case using Cons.prems by (cases "ys = []") (simp_all add: fun_upd_def)
qed simp

lemma mq_heads:
  assumes "mq_rep q gs ps"
  shows "mq_get_head q \<noteq> mq_put_head q" "mq_get_head q \<noteq> Link x" "mq_put_head q \<noteq> Link x"
  using assms by (auto simp: mq_rep_def doubleton_eq_iff)

section \<open>Behaviour\<close>

lemma put_rep:
  assumes rep: "mq_rep q gs ps" and fresh: "msg + mq_linkoff q \<notin> set (gs @ ps)"
    and small: "length ps < 2 ^ 64 - 1"
    and go: "\<not> (mq_msg_cnt q > mq_msg_max q - 1 \<and> \<not> mq_nonblock q)"
  shows "\<exists>q'. msgqueue_put msg q = Some q' \<and> mq_rep q' gs (ps @ [msg + mq_linkoff q]) \<and>
    mq_linkoff q' = mq_linkoff q \<and> mq_nonblock q' = mq_nonblock q \<and> mq_msg_max q' = mq_msg_max q"
proof -
  let ?l = "msg + mq_linkoff q"
  let ?mem = "(mq_mem q)(Link ?l := None)"
  let ?q = "q\<lparr>mq_mem := ?mem(mq_put_tail q := Some ?l), mq_put_tail := Link ?l, mq_msg_cnt := mq_msg_cnt q + 1\<rparr>"
  have put: "msgqueue_put msg q = Some ?q"
    using go by (auto simp: msgqueue_put_def Let_def)
  have tail: "mq_put_tail q = (if ps = [] then mq_put_head q else Link (last ps))"
    using rep by (simp add: mq_rep_def)
  have "mq_chain ?mem (mq_put_head q) ps" "mq_chain ?mem (mq_get_head q) gs"
    using rep fresh mq_heads [OF rep] by (auto simp: mq_rep_def intro!: mq_chain_update)
  moreover have "mq_put_tail q \<noteq> mq_get_head q" "mq_put_tail q \<notin> Link ` set gs"
    using tail rep mq_heads [OF rep] last_in_set [of ps] by (auto simp: mq_rep_def)
  ultimately have "mq_chain (?mem(mq_put_tail q := Some ?l)) (mq_get_head q) gs"
    "mq_chain (?mem(mq_put_tail q := Some ?l)) (mq_put_head q) (ps @ [?l])"
    using mq_chain_append [of ?mem "mq_put_head q" ps ?l] fresh rep mq_heads [OF rep] unfolding tail
    by (auto simp: mq_rep_def intro!: mq_chain_update)
  moreover have "unat (mq_msg_cnt q + 1) = length ps + 1"
    using small rep by (simp add: unat_word_ariths mq_rep_def)
  ultimately have "mq_rep ?q gs (ps @ [?l])"
    using rep fresh by (simp add: mq_rep_def)
  then show ?thesis using put by simp
qed

lemma take_rep:
  assumes rep: "mq_rep q (p # gs) ps"
  shows "\<exists>q'. mq_take q = Some (Some (p - mq_linkoff q), q') \<and> mq_rep q' gs ps \<and>
    mq_linkoff q' = mq_linkoff q \<and> mq_nonblock q' = mq_nonblock q \<and> mq_msg_max q' = mq_msg_max q"
proof -
  let ?q = "q\<lparr>mq_mem := (mq_mem q)(mq_get_head q := mq_mem q (Link p))\<rparr>"
  have p: "mq_mem q (mq_get_head q) = Some p" and c: "mq_chain (mq_mem q) (Link p) gs"
    using rep by (simp_all add: mq_rep_def)
  have "mq_chain (mq_mem ?q) (mq_get_head q) gs"
  proof (cases gs)
    case (Cons x xs)
    then show ?thesis
      using c mq_heads [OF rep] mq_chain_update [of "mq_mem q" "Link x" xs "mq_get_head q"] by auto
  qed (use c in simp)
  moreover have "mq_chain (mq_mem ?q) (mq_put_head q) ps"
    using rep mq_heads [OF rep] by (auto simp: mq_rep_def intro!: mq_chain_update)
  ultimately have "mq_rep ?q gs ps" using rep by (simp add: mq_rep_def)
  then show ?thesis using p by (simp add: mq_take_def)
qed

lemma swap_rep:
  assumes rep: "mq_rep q [] ps" and go: "ps \<noteq> [] \<or> mq_nonblock q"
  shows "\<exists>q'. msgqueue_swap q = Some (of_nat (length ps), q') \<and> mq_rep q' ps [] \<and>
    mq_linkoff q' = mq_linkoff q \<and> mq_nonblock q' = mq_nonblock q \<and> mq_msg_max q' = mq_msg_max q"
proof -
  have u: "unat (mq_msg_cnt q) = length ps" using rep by (simp add: mq_rep_def)
  have "of_nat (length ps) = mq_msg_cnt q" unfolding u [symmetric] by simp
  moreover have "mq_msg_cnt q = 0 \<longleftrightarrow> ps = []" using u by (simp flip: unat_eq_0)
  ultimately show ?thesis
    using rep go by (auto simp: msgqueue_swap_def mq_rep_def Let_def)
qed

lemma get_empty:
  assumes "mq_rep q [] []" "mq_nonblock q"
  shows "\<exists>q'. msgqueue_get q = Some (None, q') \<and> mq_rep q' [] [] \<and>
    mq_linkoff q' = mq_linkoff q \<and> mq_nonblock q' = mq_nonblock q \<and> mq_msg_max q' = mq_msg_max q"
  using swap_rep [OF assms(1)] assms by (auto simp: msgqueue_get_def mq_rep_def)

lemma get_rep:
  assumes rep: "mq_rep q gs ps" and ne: "gs @ ps = p # rest"
  shows "\<exists>q' gs' ps'. msgqueue_get q = Some (Some (p - mq_linkoff q), q') \<and> mq_rep q' gs' ps' \<and> gs' @ ps' = rest \<and>
    (gs' = tl gs \<and> ps' = ps \<or> gs' = tl ps \<and> ps' = []) \<and>
    mq_linkoff q' = mq_linkoff q \<and> mq_nonblock q' = mq_nonblock q \<and> mq_msg_max q' = mq_msg_max q"
proof (cases gs)
  case (Cons g gs')
  then have "g = p" "rest = gs' @ ps" using ne by auto
  moreover have "msgqueue_get q = mq_take q"
    using rep Cons by (simp add: msgqueue_get_def mq_rep_def)
  ultimately show ?thesis
    using take_rep [of q p gs' ps] rep Cons by auto
next
  case Nil
  then have ps: "ps = p # rest" using ne by simp
  obtain q1 where q1: "msgqueue_swap q = Some (of_nat (length ps), q1)" "mq_rep q1 ps []"
      "mq_linkoff q1 = mq_linkoff q" "mq_nonblock q1 = mq_nonblock q" "mq_msg_max q1 = mq_msg_max q"
    using swap_rep [of q ps] rep Nil ps by auto
  have u: "unat (mq_msg_cnt q) = length ps" using rep by (simp add: mq_rep_def)
  have "of_nat (length ps) = mq_msg_cnt q" unfolding u [symmetric] by simp
  moreover have "mq_msg_cnt q > 0" using u ps by (simp add: word_less_nat_alt)
  moreover have "mq_mem q (mq_get_head q) = None"
    using rep Nil by (simp add: mq_rep_def)
  ultimately have "msgqueue_get q = mq_take q1"
    using q1(1) by (simp add: msgqueue_get_def)
  then show ?thesis
    using q1 take_rep [of q1 p rest "[]"] ps Nil by auto
qed

section \<open>The queue as a list\<close>

definition mq_put_op :: "msgqueue \<Rightarrow> int \<Rightarrow> (bool \<times> msgqueue) option" where
  "mq_put_op q msg = do { q \<leftarrow> msgqueue_put msg q; Some (True, q) }"

lemma mq_rep_fresh:
  assumes "mq_rep q gs ps" "msg \<notin> set (mq_list q)"
  shows "msg + mq_linkoff q \<notin> set (gs @ ps)"
  using assms by (force simp: mq_rep_list)

lemma put_adm:
  assumes rep: "mq_rep q gs ps" and adm: "mq_adm (mq_list q) msg"
    and go: "\<not> (mq_msg_cnt q > mq_msg_max q - 1 \<and> \<not> mq_nonblock q)"
  shows "\<exists>q'. msgqueue_put msg q = Some q' \<and> mq_rep q' gs (ps @ [msg + mq_linkoff q]) \<and>
    mq_list q' = mq_list q @ [msg] \<and> mq_nonblock q' = mq_nonblock q \<and> mq_msg_max q' = mq_msg_max q"
proof -
  have "length ps < 2 ^ 64 - 1"
    using adm mq_rep_list [OF rep] by (simp add: mq_adm_def)
  then show ?thesis
    using put_rep [OF rep mq_rep_fresh [OF rep] _ go] adm mq_rep_list [OF rep]
    by (fastforce simp: mq_adm_def mq_rep_list)
qed

lemma get_list:
  assumes "mq_rep q gs ps" "mq_list q = m # ms"
  shows "\<exists>q' gs' ps'. msgqueue_get q = Some (Some m, q') \<and> mq_rep q' gs' ps' \<and> mq_list q' = ms \<and>
    (gs' = tl gs \<and> ps' = ps \<or> gs' = tl ps \<and> ps' = []) \<and>
    mq_nonblock q' = mq_nonblock q \<and> mq_msg_max q' = mq_msg_max q"
proof -
  obtain p rest where p: "gs @ ps = p # rest" "m = p - mq_linkoff q" "ms = map (\<lambda>p. p - mq_linkoff q) rest"
    using assms mq_rep_list [OF assms(1)] by (cases "gs @ ps") auto
  from get_rep [OF assms(1) p(1)] obtain q' gs' ps' where
    q': "msgqueue_get q = Some (Some (p - mq_linkoff q), q')" "mq_rep q' gs' ps'" "gs' @ ps' = rest"
      "gs' = tl gs \<and> ps' = ps \<or> gs' = tl ps \<and> ps' = []" "mq_linkoff q' = mq_linkoff q"
      "mq_nonblock q' = mq_nonblock q" "mq_msg_max q' = mq_msg_max q"
    by blast
  have "mq_list q' = ms" using mq_rep_list [OF q'(2)] q'(3,5) p(3) by simp
  then show ?thesis using q' p(2) by blast
qed

interpretation mqq: bounded_fifo "\<lambda>q. mq_wf q \<and> mq_nonblock q" mq_list "\<lambda>_. \<infinity>" mq_adm mq_put_op msgqueue_get
proof
  fix q msg
  assume "mq_wf q \<and> mq_nonblock q" "mq_adm (mq_list q) msg"
  then show "\<exists>q'. mq_put_op q msg = Some (True, q') \<and> (mq_wf q' \<and> mq_nonblock q') \<and>
      mq_list q' = mq_list q @ [msg] \<and> (\<infinity> :: enat) = \<infinity>"
    using put_adm [of q _ _ msg] by (fastforce simp: mq_wf_def mq_put_op_def)
next
  fix q m ms
  assume "mq_wf q \<and> mq_nonblock q" "mq_list q = m # ms"
  then show "\<exists>q'. msgqueue_get q = Some (Some m, q') \<and> (mq_wf q' \<and> mq_nonblock q') \<and> mq_list q' = ms \<and> (\<infinity> :: enat) = \<infinity>"
    using get_list [of q _ _ m ms] by (fastforce simp: mq_wf_def)
next
  fix q
  assume q: "mq_wf q \<and> mq_nonblock q" "mq_list q = []"
  then have "mq_rep q [] []" using mq_rep_list by (fastforce simp: mq_wf_def)
  then show "\<exists>q'. msgqueue_get q = Some (None, q') \<and> (mq_wf q' \<and> mq_nonblock q') \<and> mq_list q' = [] \<and> (\<infinity> :: enat) = \<infinity>"
    using get_empty [of q] q mq_rep_list by (fastforce simp: mq_wf_def)
qed simp

lemma create_ok:
  "\<exists>q. msgqueue_create True 0 0 0 0 mem maxlen linkoff = Inr q \<and> mq_rep q [] [] \<and> mq_list q = [] \<and>
     mq_msg_max q = maxlen \<and> \<not> mq_nonblock q"
  by (simp add: msgqueue_create_def mq_rep_def mq_list_def mq_walk.simps)

text \<open>
  C8: in non-blocking mode every sequence of \<open>msgqueue_put\<close> (of messages not already queued) and
  \<open>msgqueue_get\<close> returns what an unbounded first-in first-out queue returns, across all the swaps
  of the two lists; an empty queue gives a null message.
\<close>

theorem msgqueue_fifo:
  assumes "mq_wf q" "mq_nonblock q" "q_admissible mq_adm \<infinity> es (mq_list q)"
  shows "\<exists>q'. fifo_run mq_put_op msgqueue_get es q = Some (fst (q_run \<infinity> es (mq_list q)), q') \<and>
    mq_wf q' \<and> mq_list q' = snd (q_run \<infinity> es (mq_list q))"
  using mqq.run_refines [of q es] assms by auto

definition ex_mq :: msgqueue where
  "ex_mq = \<lparr>mq_msg_max = 1, mq_msg_cnt = 0, mq_linkoff = 8, mq_nonblock = True,
     mq_get_head = Head1, mq_put_head = Head2, mq_put_tail = Head2, mq_mem = (\<lambda>_. None)\<rparr>"

lemma ex_mq_wf: "mq_wf ex_mq" "mq_list ex_mq = []" "mq_nonblock ex_mq"
  by (auto simp: mq_wf_def mq_rep_def ex_mq_def mq_list_def mq_walk.simps intro!: exI [of _ "[]"])

theorem msgqueue_fifo_witness:
  "\<exists>q'. fifo_run mq_put_op msgqueue_get [Put 100, Put 200, Get, Put 300, Get, Get, Get] ex_mq =
     Some ([Accepted True, Accepted True, Got (Some 100), Accepted True, Got (Some 200), Got (Some 300), Got None], q')"
proof -
  have "q_admissible mq_adm \<infinity> [Put 100, Put 200, Get, Put 300, Get, Get, Get] (mq_list ex_mq)"
    by (simp add: ex_mq_wf mq_adm_def)
  then show ?thesis
    using msgqueue_fifo [OF ex_mq_wf(1,3)] by (fastforce simp: ex_mq_wf(2) simp del: fifo_run.simps)
qed

section \<open>Blocking mode\<close>

text \<open>
  The states a blocking queue can reach: each call under its mutex is one step; a call that would
  wait takes no step.
\<close>

inductive mq_reach :: "u64 \<Rightarrow> msgqueue \<Rightarrow> bool" for maxlen where
  create: "msgqueue_create True 0 0 0 0 mem maxlen linkoff = Inr q \<Longrightarrow> mq_reach maxlen q"
| put: "mq_reach maxlen q \<Longrightarrow> mq_adm (mq_list q) msg \<Longrightarrow> msgqueue_put msg q = Some q' \<Longrightarrow> mq_reach maxlen q'"
| get: "mq_reach maxlen q \<Longrightarrow> msgqueue_get q = Some (m, q') \<Longrightarrow> mq_reach maxlen q'"

definition mq_bounded :: "u64 \<Rightarrow> msgqueue \<Rightarrow> bool" where
  "mq_bounded maxlen q \<longleftrightarrow> mq_msg_max q = maxlen \<and> \<not> mq_nonblock q \<and>
     (\<exists>gs ps. mq_rep q gs ps \<and> length gs \<le> unat maxlen \<and> length ps \<le> unat maxlen)"

lemma put_go: "msgqueue_put msg q = Some q' \<Longrightarrow> \<not> (mq_msg_cnt q > mq_msg_max q - 1 \<and> \<not> mq_nonblock q)"
  by (auto simp: msgqueue_put_def Let_def split: if_splits)

lemma blocking_get_empty:
  assumes "mq_rep q [] []" "\<not> mq_nonblock q"
  shows "msgqueue_get q = None"
  using assms by (auto simp: msgqueue_get_def msgqueue_swap_def mq_rep_def unat_eq_0 Let_def)

lemma mq_bounded_put:
  assumes "mq_bounded maxlen q" "0 < maxlen" "mq_adm (mq_list q) msg" "msgqueue_put msg q = Some q'"
  shows "mq_bounded maxlen q'"
proof -
  obtain gs ps where rep: "mq_rep q gs ps" "length gs \<le> unat maxlen" and q: "mq_msg_max q = maxlen" "\<not> mq_nonblock q"
    using assms(1) by (auto simp: mq_bounded_def)
  have "mq_msg_cnt q \<le> maxlen - 1" using put_go [OF assms(4)] q by simp
  then have "length ps \<le> unat maxlen - 1"
    using rep assms(2) by (simp add: mq_rep_def word_le_nat_alt unat_minus_one word_gt_0)
  moreover have "0 < unat maxlen" using assms(2) by (simp add: word_less_nat_alt)
  ultimately show ?thesis
    using put_adm [OF rep(1) assms(3) put_go [OF assms(4)]] rep(2) q assms(4)
    unfolding mq_bounded_def by fastforce
qed

lemma mq_bounded_get:
  assumes "mq_bounded maxlen q" "msgqueue_get q = Some (m, q')"
  shows "mq_bounded maxlen q'"
proof -
  obtain gs ps where rep: "mq_rep q gs ps" "length gs \<le> unat maxlen" "length ps \<le> unat maxlen"
      and q: "mq_msg_max q = maxlen" "\<not> mq_nonblock q"
    using assms(1) by (auto simp: mq_bounded_def)
  have "mq_list q \<noteq> []"
    using blocking_get_empty [of q] rep(1) q(2) assms(2) mq_rep_list [OF rep(1)] by auto
  then obtain x xs where "mq_list q = x # xs" by (cases "mq_list q") auto
  from get_list [OF rep(1) this] obtain gs' ps' where "mq_rep q' gs' ps'"
      "gs' = tl gs \<and> ps' = ps \<or> gs' = tl ps \<and> ps' = []" "mq_nonblock q' = mq_nonblock q" "mq_msg_max q' = mq_msg_max q"
    using assms(2) by auto
  then show ?thesis
    using rep q unfolding mq_bounded_def by (intro conjI exI [of _ gs'] exI [of _ ps']) auto
qed

lemma mq_reach_bounded:
  assumes "mq_reach maxlen q" "0 < maxlen"
  shows "mq_bounded maxlen q"
  using assms
proof (induction rule: mq_reach.induct)
  case (create mem linkoff q)
  then show ?case
    using create_ok [of mem maxlen linkoff] by (auto simp: mq_bounded_def intro!: exI [of _ "[]"])
next
  case (put q msg q')
  then show ?case using mq_bounded_put by blast
next
  case (get q m q')
  then show ?case using mq_bounded_get by blast
qed

text \<open>
  in blocking mode, with a positive limit, the queue never holds more than twice the limit:
  at most the limit in each of the two lists, whatever the threads do.
\<close>

theorem msgqueue_pending_bound:
  assumes "mq_reach maxlen q" "0 < maxlen"
  shows "length (mq_list q) \<le> 2 * unat maxlen"
  using mq_reach_bounded [OF assms] mq_rep_list by (fastforce simp: mq_bounded_def)

theorem msgqueue_pending_bound_witness:
  "\<exists>q. mq_reach 1 q \<and> mq_list q = [100] \<and> length (mq_list q) \<le> 2 * unat (1 :: u64)"
proof -
  obtain q where q: "msgqueue_create True 0 0 0 0 (\<lambda>_. None) 1 8 = Inr q" "mq_rep q [] []" "mq_list q = []"
      "mq_msg_max q = 1"
    using create_ok [of "\<lambda>_. None" 1 8] by blast
  have "\<not> mq_msg_cnt q > mq_msg_max q - 1"
    using q(2,4) by (simp add: mq_rep_def unat_eq_0)
  then obtain q' where "msgqueue_put 100 q = Some q'" "mq_list q' = [100]"
    using put_adm [OF q(2), of 100] q(3) by (auto simp: mq_adm_def)
  moreover have "mq_reach 1 q'"
    using mq_reach.put [OF mq_reach.create [OF q(1)] _ calculation(1)] q(3) by (simp add: mq_adm_def)
  ultimately show ?thesis using msgqueue_pending_bound [of 1 q'] by auto
qed

text \<open>
  with a limit of 0 the comparison \<open>msg_cnt > msg_max - 1\<close> is made against the largest 64-bit
  number: \<open>msgqueue_put\<close> never waits and the queue is unbounded, in blocking mode too.
\<close>

theorem msgqueue_limit_zero_unbounded:
  assumes "mq_rep q gs ps" "mq_msg_max q = 0" "mq_adm (mq_list q) msg"
  shows "\<exists>q'. msgqueue_put msg q = Some q' \<and> mq_list q' = mq_list q @ [msg]"
proof -
  have "\<not> mq_msg_cnt q > mq_msg_max q - 1"
    using assms(2) by (simp add: not_less)
  then show ?thesis using put_adm [OF assms(1,3)] by auto
qed

theorem msgqueue_limit_zero_unbounded_witness:
  "\<exists>q'. msgqueue_put 100 (ex_mq\<lparr>mq_msg_max := 0, mq_nonblock := False\<rparr>) = Some q' \<and> mq_list q' = [100]"
proof -
  let ?q = "ex_mq\<lparr>mq_msg_max := 0, mq_nonblock := False\<rparr>"
  have "mq_rep ?q [] []" by (simp add: mq_rep_def ex_mq_def)
  moreover have "mq_list ?q = []" using mq_rep_list [OF calculation] by simp
  ultimately show ?thesis
    using msgqueue_limit_zero_unbounded [of ?q "[]" "[]" 100] by (simp add: mq_adm_def)
qed

text \<open>
  \<open>msgqueue_create\<close> fails exactly when the allocation or one of the four initialisations
  fails; then the primitives that were initialised are destroyed, each once, in reverse order.
\<close>

theorem msgqueue_create_cleanup:
  "case msgqueue_create ok r1 r2 r3 r4 mem maxlen linkoff of
     Inr q \<Rightarrow> ok \<and> r1 = 0 \<and> r2 = 0 \<and> r3 = 0 \<and> r4 = 0 \<and> mq_wf q \<and> mq_list q = [] \<and> mq_msg_max q = maxlen
   | Inl (e, made, gone) \<Rightarrow> \<not> (ok \<and> r1 = 0 \<and> r2 = 0 \<and> r3 = 0 \<and> r4 = 0) \<and> gone = rev made"
  using create_ok [of mem maxlen linkoff]
  by (auto simp: msgqueue_create_def mq_wf_def)

end
