(* ===== verification/LockQueues.thy ===== *)
theory LockQueues
  imports Fifo
begin

text \<open>
  The queues that protect a container with a mutex: \<open>LockedQueue\<close>, \<open>ProducerConsumerQueue\<close>,
  \<open>BlockingQueue\<close> and \<open>BlockingQueuePro\<close>. A method body between lock and unlock is one step. A
  method that waits on a condition variable, or that locks a mutex its own thread holds, has no
  result (\<open>None\<close>). For \<open>BlockingQueue\<close> the waiting threads are modelled as well.
\<close>

section \<open>LockedQueue\<close>

record 'a locked_queue =
  lq_lock :: bool
  lq_queue :: "'a list"
  lq_canceled :: bool

definition LockedQueue_ctor :: "'a locked_queue" where
  "LockedQueue_ctor = \<lparr>lq_lock = False, lq_queue = [], lq_canceled = False\<rparr>"

definition lq_do_lock :: "'a locked_queue \<Rightarrow> 'a locked_queue option" where
  "lq_do_lock q = (if lq_lock q then None else Some (q\<lparr>lq_lock := True\<rparr>))"

definition lq_do_unlock :: "'a locked_queue \<Rightarrow> 'a locked_queue option" where
  "lq_do_unlock q = (if lq_lock q then Some (q\<lparr>lq_lock := False\<rparr>) else None)"

definition lq_add :: "'a \<Rightarrow> 'a locked_queue \<Rightarrow> 'a locked_queue option" where
  "lq_add item q = do { q \<leftarrow> lq_do_lock q; lq_do_unlock (q\<lparr>lq_queue := lq_queue q @ [item]\<rparr>) }"

definition lq_readd :: "'a list \<Rightarrow> 'a locked_queue \<Rightarrow> 'a locked_queue option" where
  "lq_readd items q = do { q \<leftarrow> lq_do_lock q; lq_do_unlock (q\<lparr>lq_queue := items @ lq_queue q\<rparr>) }"

text \<open>\<open>next\<close>: the value written to \<open>result\<close>, if any; with a checker also the returned flag.\<close>

definition lq_next :: "'a locked_queue \<Rightarrow> ('a option \<times> 'a locked_queue) option" where
  "lq_next q =
     do { q \<leftarrow> lq_do_lock q;
          case lq_queue q of
            [] \<Rightarrow> do { q \<leftarrow> lq_do_unlock q; Some (None, q) }
          | x # xs \<Rightarrow> do { q \<leftarrow> lq_do_unlock (q\<lparr>lq_queue := xs\<rparr>); Some (Some x, q) } }"

definition lq_next_check :: "('a \<Rightarrow> bool) \<Rightarrow> 'a locked_queue \<Rightarrow> (bool \<times> 'a option \<times> 'a locked_queue) option" where
  "lq_next_check check q =
     do { q \<leftarrow> lq_do_lock q;
          case lq_queue q of
            [] \<Rightarrow> do { q \<leftarrow> lq_do_unlock q; Some (False, None, q) }
          | x # xs \<Rightarrow>
              if \<not> check x then do { q \<leftarrow> lq_do_unlock q; Some (False, Some x, q) }
              else do { q \<leftarrow> lq_do_unlock (q\<lparr>lq_queue := xs\<rparr>); Some (True, Some x, q) } }"

definition lq_peek :: "bool \<Rightarrow> 'a locked_queue \<Rightarrow> ('a \<times> 'a locked_queue) option" where
  "lq_peek autoUnlock q =
     do { q \<leftarrow> lq_do_lock q;
          case lq_queue q of
            [] \<Rightarrow> None
          | x # xs \<Rightarrow> if autoUnlock then do { q \<leftarrow> lq_do_unlock q; Some (x, q) } else Some (x, q) }"

definition lq_cancel :: "'a locked_queue \<Rightarrow> 'a locked_queue option" where
  "lq_cancel q = do { q \<leftarrow> lq_do_lock q; lq_do_unlock (q\<lparr>lq_canceled := True\<rparr>) }"

definition lq_cancelled :: "'a locked_queue \<Rightarrow> (bool \<times> 'a locked_queue) option" where
  "lq_cancelled q = do { q \<leftarrow> lq_do_lock q; q \<leftarrow> lq_do_unlock q; Some (lq_canceled q, q) }"

definition lq_pop_front :: "'a locked_queue \<Rightarrow> 'a locked_queue option" where
  "lq_pop_front q =
     do { q \<leftarrow> lq_do_lock q;
          case lq_queue q of [] \<Rightarrow> None | x # xs \<Rightarrow> lq_do_unlock (q\<lparr>lq_queue := xs\<rparr>) }"

definition lq_empty :: "'a locked_queue \<Rightarrow> (bool \<times> 'a locked_queue) option" where
  "lq_empty q = do { q \<leftarrow> lq_do_lock q; q \<leftarrow> lq_do_unlock q; Some (lq_queue q = [], q) }"

lemmas [step_defs] = lq_do_lock_def lq_do_unlock_def lq_add_def lq_readd_def lq_next_def lq_next_check_def
  lq_peek_def lq_cancel_def lq_cancelled_def lq_pop_front_def lq_empty_def

definition lq_put_op :: "'a locked_queue \<Rightarrow> 'a \<Rightarrow> (bool \<times> 'a locked_queue) option" where
  "lq_put_op q x = do { q \<leftarrow> lq_add x q; Some (True, q) }"

interpretation lqq: bounded_fifo "\<lambda>q. \<not> lq_lock q" lq_queue "\<lambda>_. \<infinity>" "\<lambda>_ _. True" lq_put_op lq_next
  by unfold_locales (auto simp: lq_put_op_def step_defs)

text \<open>
  every method of an unlocked \<open>LockedQueue\<close> that does not ask for the lock to stay held returns
  with the lock released; \<open>readd\<close> puts its items in front in their order, a failed check leaves the
  queue as it is; and after \<open>peek(false)\<close> the lock is held, so that the next locking call of the
  same thread does not return until \<open>unlock\<close>.
\<close>

theorem LockedQueue_locking:
  assumes "\<not> lq_lock q"
  shows "lq_readd xs q = Some (q\<lparr>lq_queue := xs @ lq_queue q\<rparr>) \<and>
    lq_next_check check q =
      (case lq_queue q of [] \<Rightarrow> Some (False, None, q)
       | y # ys \<Rightarrow> Some (if check y then (True, Some y, q\<lparr>lq_queue := ys\<rparr>) else (False, Some y, q))) \<and>
    lq_peek True q = (case lq_queue q of [] \<Rightarrow> None | y # ys \<Rightarrow> Some (y, q)) \<and>
    (lq_queue q \<noteq> [] \<longrightarrow>
      (\<exists>q'. lq_peek False q = Some (hd (lq_queue q), q') \<and> lq_next q' = None \<and> lq_empty q' = None \<and>
         lq_do_unlock q' = Some q))"
  using assms by (cases "lq_queue q") (simp_all add: step_defs)

theorem LockedQueue_locking_witness:
  "lq_readd [1, 2] \<lparr>lq_lock = False, lq_queue = [3 :: nat], lq_canceled = False\<rparr> =
    Some \<lparr>lq_lock = False, lq_queue = [1, 2, 3], lq_canceled = False\<rparr>"
  using LockedQueue_locking [of "\<lparr>lq_lock = False, lq_queue = [3 :: nat], lq_canceled = False\<rparr>" "[1, 2]"] by simp

section \<open>ProducerConsumerQueue\<close>

record 'a pc_queue =
  pc_queue :: "'a list"
  pc_shutdown :: bool

definition pc_ctor :: "'a pc_queue" where
  "pc_ctor = \<lparr>pc_queue = [], pc_shutdown = False\<rparr>"

definition pc_Push :: "'a \<Rightarrow> 'a pc_queue \<Rightarrow> 'a pc_queue" where
  "pc_Push v q = q\<lparr>pc_queue := pc_queue q @ [v]\<rparr>"

definition pc_Empty :: "'a pc_queue \<Rightarrow> bool" where
  "pc_Empty q \<longleftrightarrow> pc_queue q = []"

definition pc_Size :: "'a pc_queue \<Rightarrow> nat" where
  "pc_Size q = length (pc_queue q)"

definition pc_Pop :: "'a pc_queue \<Rightarrow> 'a option \<times> 'a pc_queue" where
  "pc_Pop q = (if pc_queue q = [] \<or> pc_shutdown q then (None, q)
     else (Some (hd (pc_queue q)), q\<lparr>pc_queue := tl (pc_queue q)\<rparr>))"

text \<open>\<open>WaitAndPop\<close>: no result while it waits; \<open>None\<close> inside when it leaves \<open>value\<close> untouched.\<close>

definition pc_WaitAndPop :: "'a pc_queue \<Rightarrow> ('a option \<times> 'a pc_queue) option" where
  "pc_WaitAndPop q =
     (if pc_queue q = [] \<and> \<not> pc_shutdown q then None
      else if pc_queue q = [] \<or> pc_shutdown q then Some (None, q)
      else Some (Some (hd (pc_queue q)), q\<lparr>pc_queue := tl (pc_queue q)\<rparr>))"

text \<open>The loop of \<open>Cancel\<close>, with the objects passed to \<open>DeleteQueuedObject\<close>.\<close>

fun pc_drain :: "'a list \<Rightarrow> 'a list \<times> 'a list" where
  "pc_drain [] = ([], [])"
| "pc_drain (x # xs) = (let (deleted, queue) = pc_drain xs in (x # deleted, queue))"

definition pc_Cancel :: "'a pc_queue \<Rightarrow> 'a list \<times> 'a pc_queue" where
  "pc_Cancel q = (let (deleted, queue) = pc_drain (pc_queue q)
     in (deleted, q\<lparr>pc_queue := queue, pc_shutdown := True\<rparr>))"

lemma pc_drain_all [simp]: "pc_drain xs = (xs, [])"
  by (induction xs) simp_all

definition pc_put_op :: "'a pc_queue \<Rightarrow> 'a \<Rightarrow> (bool \<times> 'a pc_queue) option" where
  "pc_put_op q x = Some (True, pc_Push x q)"

definition pc_get_op :: "'a pc_queue \<Rightarrow> ('a option \<times> 'a pc_queue) option" where
  "pc_get_op q = Some (pc_Pop q)"

interpretation pcq: bounded_fifo "\<lambda>q. \<not> pc_shutdown q" pc_queue "\<lambda>_. \<infinity>" "\<lambda>_ _. True" pc_put_op pc_get_op
  by unfold_locales (auto simp: pc_put_op_def pc_get_op_def pc_Push_def pc_Pop_def)

text \<open>
  \<open>Cancel\<close> deletes every queued object once, oldest first; from then on, whatever is pushed,
  \<open>WaitAndPop\<close> returns at once, and neither pop delivers an object: what is pushed after
  \<open>Cancel\<close> stays in the queue for good.
\<close>

theorem pc_Cancel_final:
  "fst (pc_Cancel q) = pc_queue q \<and>
   (\<forall>vs. let q' = fold pc_Push vs (snd (pc_Cancel q))
         in pc_Pop q' = (None, q') \<and> pc_WaitAndPop q' = Some (None, q') \<and> pc_queue q' = vs)"
proof -
  have "pc_shutdown (fold pc_Push vs p) = pc_shutdown p \<and> pc_queue (fold pc_Push vs p) = pc_queue p @ vs"
    for vs and p :: "'a pc_queue"
    by (induction vs arbitrary: p) (simp_all add: pc_Push_def)
  then show ?thesis
    by (simp add: pc_Cancel_def pc_Pop_def pc_WaitAndPop_def Let_def)
qed

section \<open>BlockingQueue\<close>

record 'a blocking_queue =
  bq_nonblock :: bool
  bq_queue :: "'a list"

definition bq_ctor :: "bool \<Rightarrow> 'a blocking_queue" where
  "bq_ctor nonblock = \<lparr>bq_nonblock = nonblock, bq_queue = []\<rparr>"

definition bq_Push :: "'a \<Rightarrow> 'a blocking_queue \<Rightarrow> 'a blocking_queue" where
  "bq_Push v q = q\<lparr>bq_queue := bq_queue q @ [v]\<rparr>"

definition bq_Pop :: "'a blocking_queue \<Rightarrow> ('a option \<times> 'a blocking_queue) option" where
  "bq_Pop q =
     (if \<not> (bq_queue q \<noteq> [] \<or> bq_nonblock q) then None
      else if bq_queue q = [] \<and> bq_nonblock q then Some (None, q)
      else Some (Some (hd (bq_queue q)), q\<lparr>bq_queue := tl (bq_queue q)\<rparr>))"

definition bq_Cancel :: "'a blocking_queue \<Rightarrow> 'a blocking_queue" where
  "bq_Cancel q = q\<lparr>bq_nonblock := True\<rparr>"

definition bq_put_op :: "'a blocking_queue \<Rightarrow> 'a \<Rightarrow> (bool \<times> 'a blocking_queue) option" where
  "bq_put_op q x = Some (True, bq_Push x q)"

interpretation bqq: bounded_fifo bq_nonblock bq_queue "\<lambda>_. \<infinity>" "\<lambda>_ _. True" bq_put_op bq_Pop
  by unfold_locales (auto simp: bq_put_op_def bq_Push_def bq_Pop_def)

text \<open>
  The threads that call \<open>Pop\<close>: those asleep in \<open>wait\<close>, and those woken that have not yet taken the
  mutex again. \<open>notify_one\<close> wakes one sleeper if there is one, \<open>notify_all\<close> all of them; a thread may
  also wake for no reason. Any thread that is not asleep may enter or resume \<open>Pop\<close>, so a newcomer
  may overtake a woken one.
\<close>

record ('a, 't) bq_system =
  bs_queue :: "'a blocking_queue"
  bs_asleep :: "'t set"
  bs_woken :: "'t set"

inductive bq_step :: "('a, 't) bq_system \<Rightarrow> ('a, 't) bq_system \<Rightarrow> bool" where
  push_quiet: "bs_asleep s = {} \<Longrightarrow> bq_step s (s\<lparr>bs_queue := bq_Push v (bs_queue s)\<rparr>)"
| push_notify: "t \<in> bs_asleep s \<Longrightarrow>
    bq_step s (s\<lparr>bs_queue := bq_Push v (bs_queue s), bs_asleep := bs_asleep s - {t}, bs_woken := insert t (bs_woken s)\<rparr>)"
| spurious: "t \<in> bs_asleep s \<Longrightarrow>
    bq_step s (s\<lparr>bs_asleep := bs_asleep s - {t}, bs_woken := insert t (bs_woken s)\<rparr>)"
| pop_returns: "t \<notin> bs_asleep s \<Longrightarrow> bq_Pop (bs_queue s) = Some (r, q) \<Longrightarrow>
    bq_step s (s\<lparr>bs_queue := q, bs_woken := bs_woken s - {t}\<rparr>)"
| pop_waits: "t \<notin> bs_asleep s \<Longrightarrow> bq_Pop (bs_queue s) = None \<Longrightarrow>
    bq_step s (s\<lparr>bs_asleep := insert t (bs_asleep s), bs_woken := bs_woken s - {t}\<rparr>)"
| cancel: "bq_step s (s\<lparr>bs_queue := bq_Cancel (bs_queue s), bs_asleep := {}, bs_woken := bs_woken s \<union> bs_asleep s\<rparr>)"

definition bq_system_init :: "bool \<Rightarrow> ('a, 't) bq_system" where
  "bq_system_init nonblock = \<lparr>bs_queue = bq_ctor nonblock, bs_asleep = {}, bs_woken = {}\<rparr>"

definition bq_inv :: "('a, 't) bq_system \<Rightarrow> bool" where
  "bq_inv s \<longleftrightarrow> finite (bs_asleep s) \<and> finite (bs_woken s) \<and> bs_asleep s \<inter> bs_woken s = {} \<and>
     (bs_asleep s \<noteq> {} \<longrightarrow> length (bq_queue (bs_queue s)) \<le> card (bs_woken s)) \<and>
     (bq_nonblock (bs_queue s) \<longrightarrow> bs_asleep s = {})"

lemma bq_inv_wake:
  assumes "bq_inv s" "t \<in> bs_asleep s"
  shows "card (insert t (bs_woken s)) = Suc (card (bs_woken s))" "length (bq_queue (bs_queue s)) \<le> card (bs_woken s)"
  using assms by (auto simp: bq_inv_def card_insert_if)

lemma bq_inv_step: "bq_step s s' \<Longrightarrow> bq_inv s \<Longrightarrow> bq_inv s'"
proof (induction rule: bq_step.induct)
  case (push_notify t s v)
  then show ?case
    using bq_inv_wake [of s t] by (auto simp: bq_inv_def bq_Push_def)
next
  case (spurious t s)
  then show ?case
    using bq_inv_wake [of s t] by (auto simp: bq_inv_def)
next
  case (pop_returns t s r q)
  then have "length (bq_queue q) \<le> card (bs_woken s - {t})" if "bs_asleep s \<noteq> {}"
    using that by (cases "t \<in> bs_woken s") (auto simp: bq_inv_def bq_Pop_def split: if_splits)
  moreover have "bq_nonblock q = bq_nonblock (bs_queue s)"
    using pop_returns by (auto simp: bq_Pop_def split: if_splits)
  ultimately show ?case using pop_returns by (auto simp: bq_inv_def)
next
  case (pop_waits t s)
  then show ?case by (auto simp: bq_inv_def bq_Pop_def split: if_splits)
qed (auto simp: bq_inv_def bq_Push_def bq_Cancel_def)

lemma bq_inv_init: "bq_inv (bq_system_init nonblock)"
  by (simp add: bq_inv_def bq_system_init_def bq_ctor_def)

text \<open>
  C9: no wake-up is lost. In every state the threads can reach, if some thread sleeps in \<open>Pop\<close> then
  there are at least as many woken threads as queued values, so every value has a thread on its
  way to it; and once the queue is non-blocking (from the start or after \<open>Cancel\<close>) no thread
  sleeps.
\<close>

theorem BlockingQueue_no_lost_wakeup:
  assumes "bq_step\<^sup>*\<^sup>* (bq_system_init nonblock) s"
  shows "(bs_asleep s \<noteq> {} \<longrightarrow> length (bq_queue (bs_queue s)) \<le> card (bs_woken s)) \<and>
    (bq_nonblock (bs_queue s) \<longrightarrow> bs_asleep s = {})"
proof -
  have "bq_inv s"
    using assms
    by (induction rule: rtranclp_induct) (auto intro: bq_inv_init bq_inv_step)
  then show ?thesis by (simp add: bq_inv_def)
qed

text \<open>Thread 1 goes to sleep, thread 2 does, and a push wakes thread 1.\<close>

definition ex_bq :: "(nat, nat) bq_system" where
  "ex_bq = \<lparr>bs_queue = \<lparr>bq_nonblock = False, bq_queue = [5]\<rparr>, bs_asleep = {2}, bs_woken = {1}\<rparr>"

lemma ex_bq_reachable: "bq_step\<^sup>*\<^sup>* (bq_system_init False) ex_bq"
proof -
  let ?s = "\<lambda>xs a w. \<lparr>bs_queue = \<lparr>bq_nonblock = False, bq_queue = xs\<rparr>, bs_asleep = a, bs_woken = w\<rparr> :: (nat, nat) bq_system"
  have "bq_system_init False = ?s [] {} {}" by (simp add: bq_system_init_def bq_ctor_def)
  moreover have "bq_step (?s [] {} {}) (?s [] {1} {})"
    using bq_step.pop_waits [of 1 "?s [] {} {}"] by (simp add: bq_Pop_def)
  moreover have "bq_step (?s [] {1} {}) (?s [] {2, 1} {})"
    using bq_step.pop_waits [of 2 "?s [] {1} {}"] by (simp add: bq_Pop_def)
  moreover have "bq_step (?s [] {2, 1} {}) ex_bq"
    using bq_step.push_notify [of 1 "?s [] {2, 1} {}" 5] by (simp add: bq_Push_def ex_bq_def insert_Diff_if)
  ultimately show ?thesis by (auto intro!: converse_rtranclp_into_rtranclp)
qed

theorem BlockingQueue_no_lost_wakeup_witness:
  "bs_asleep ex_bq \<noteq> {} \<and> length (bq_queue (bs_queue ex_bq)) \<le> card (bs_woken ex_bq)"
  using BlockingQueue_no_lost_wakeup [OF ex_bq_reachable] by (simp add: ex_bq_def)

section \<open>BlockingQueuePro\<close>

record 'a blocking_queue_pro =
  bp_nonblock :: bool
  bp_prod :: "'a list"
  bp_cons :: "'a list"

definition bp_ctor :: "bool \<Rightarrow> 'a blocking_queue_pro" where
  "bp_ctor nonblock = \<lparr>bp_nonblock = nonblock, bp_prod = [], bp_cons = []\<rparr>"

definition bp_Push :: "'a \<Rightarrow> 'a blocking_queue_pro \<Rightarrow> 'a blocking_queue_pro" where
  "bp_Push v q = q\<lparr>bp_prod := bp_prod q @ [v]\<rparr>"

definition bp_SwapQueue :: "'a blocking_queue_pro \<Rightarrow> (nat \<times> 'a blocking_queue_pro) option" where
  "bp_SwapQueue q =
     (if \<not> (bp_prod q \<noteq> [] \<or> bp_nonblock q) then None
      else let q = q\<lparr>bp_prod := bp_cons q, bp_cons := bp_prod q\<rparr> in Some (length (bp_cons q), q))"

definition bp_Pop :: "'a blocking_queue_pro \<Rightarrow> ('a option \<times> 'a blocking_queue_pro) option" where
  "bp_Pop q =
     (if bp_cons q = [] then
        do { (n, q) \<leftarrow> bp_SwapQueue q;
             if n = 0 then Some (None, q)
             else Some (Some (hd (bp_cons q)), q\<lparr>bp_cons := tl (bp_cons q)\<rparr>) }
      else Some (Some (hd (bp_cons q)), q\<lparr>bp_cons := tl (bp_cons q)\<rparr>))"

definition bp_Cancel :: "'a blocking_queue_pro \<Rightarrow> 'a blocking_queue_pro" where
  "bp_Cancel q = q\<lparr>bp_nonblock := True\<rparr>"

definition bp_list :: "'a blocking_queue_pro \<Rightarrow> 'a list" where
  "bp_list q = bp_cons q @ bp_prod q"

definition bp_put_op :: "'a blocking_queue_pro \<Rightarrow> 'a \<Rightarrow> (bool \<times> 'a blocking_queue_pro) option" where
  "bp_put_op q x = Some (True, bp_Push x q)"

interpretation bpq: bounded_fifo bp_nonblock bp_list "\<lambda>_. \<infinity>" "\<lambda>_ _. True" bp_put_op bp_Pop
proof
  fix q :: "'a blocking_queue_pro" and v vs
  assume "bp_nonblock q" "bp_list q = v # vs"
  then show "\<exists>q'. bp_Pop q = Some (Some v, q') \<and> bp_nonblock q' \<and> bp_list q' = vs \<and> (\<infinity> :: enat) = \<infinity>"
    by (cases "bp_cons q") (auto simp: bp_list_def bp_Pop_def bp_SwapQueue_def)
qed (auto simp: bp_put_op_def bp_Push_def bp_Pop_def bp_SwapQueue_def bp_list_def)

text \<open>
  the two blocking queues, the one with one list and the one that swaps a producer list with a
  consumer list, give the same answers to every sequence of calls, those of an unbounded
  first-in first-out queue (shown in non-blocking mode, where \<open>Pop\<close> of an empty queue returns).
\<close>

theorem BlockingQueue_both_fifo:
  "(\<exists>q. fifo_run bq_put_op bq_Pop es (bq_ctor True) = Some (fst (q_run \<infinity> es []), q) \<and>
      bq_queue q = snd (q_run \<infinity> es [])) \<and>
   (\<exists>q. fifo_run bp_put_op bp_Pop es (bp_ctor True) = Some (fst (q_run \<infinity> es []), q) \<and>
      bp_list q = snd (q_run \<infinity> es []))"
  using bqq.run_refines [of "bq_ctor True" es] bpq.run_refines [of "bp_ctor True" es]
  by (auto simp: bq_ctor_def bp_ctor_def bp_list_def)

end
