(* ===== verification/ThreadPool.thy ===== *)
theory ThreadPool
  imports LockQueues
begin

text \<open>
  The thread pool of \<^verbatim>\<open>threadpool/threadpool.cc\<close>: workers that pop tasks from a \<open>BlockingQueue\<close> and
  run them until \<open>Pop\<close> fails, and a destructor that cancels the queue and joins the workers. A
  state gives every worker its position in \<open>Worker\<close>; tasks are names, running one is a log entry.
\<close>

datatype 't worker = At_pop | Running 't | Exited

record 't thread_pool =
  tp_queue :: "'t blocking_queue"
  tp_workers :: "'t worker list"
  tp_destroying :: bool
  tp_posted :: "'t list"
  tp_started :: "'t list"
  tp_finished :: "'t list"

text \<open>
  \<open>thread_num\<close> is an \<open>int\<close> (its 32 bits), and the loop compares it with a \<open>size_t\<close>: a negative number counts as one of 64 bits close
  to \<open>2 ^ 64\<close>.
\<close>

definition ThreadPool_ctor :: "u32 \<Rightarrow> 't thread_pool" where
  "ThreadPool_ctor thread_num = \<lparr>tp_queue = bq_ctor False, tp_workers = replicate (unat (of_int (sint thread_num) :: u64)) At_pop,
     tp_destroying = False, tp_posted = [], tp_started = [], tp_finished = []\<rparr>"

definition tp_Post :: "'t \<Rightarrow> 't thread_pool \<Rightarrow> 't thread_pool" where
  "tp_Post t p = p\<lparr>tp_queue := bq_Push t (tp_queue p), tp_posted := tp_posted p @ [t]\<rparr>"

text \<open>One turn of the loop of \<open>Worker\<close>: the pop, and the call of the task.\<close>

definition tp_worker_pop :: "nat \<Rightarrow> 't thread_pool \<Rightarrow> 't thread_pool option" where
  "tp_worker_pop i p =
     do { (r, q) \<leftarrow> bq_Pop (tp_queue p);
          case r of
            None \<Rightarrow> Some (p\<lparr>tp_queue := q, tp_workers := (tp_workers p)[i := Exited]\<rparr>)
          | Some t \<Rightarrow> Some (p\<lparr>tp_queue := q, tp_workers := (tp_workers p)[i := Running t],
                               tp_started := tp_started p @ [t]\<rparr>) }"

inductive tp_step :: "'t thread_pool \<Rightarrow> 't thread_pool \<Rightarrow> bool" where
  post: "\<not> tp_destroying p \<Longrightarrow> tp_step p (tp_Post t p)"
| destroy: "tp_step p (p\<lparr>tp_destroying := True, tp_queue := bq_Cancel (tp_queue p)\<rparr>)"
| pop: "i < length (tp_workers p) \<Longrightarrow> tp_workers p ! i = At_pop \<Longrightarrow> tp_worker_pop i p = Some p' \<Longrightarrow> tp_step p p'"
| run: "i < length (tp_workers p) \<Longrightarrow> tp_workers p ! i = Running t \<Longrightarrow>
    tp_step p (p\<lparr>tp_workers := (tp_workers p)[i := At_pop], tp_finished := tp_finished p @ [t]\<rparr>)"

text \<open>The tasks being run.\<close>

fun in_flight :: "'t worker \<Rightarrow> 't multiset" where
  "in_flight (Running t) = {#t#}"
| "in_flight At_pop = {#}"
| "in_flight Exited = {#}"

definition tp_in_flight :: "'t thread_pool \<Rightarrow> 't multiset" where
  "tp_in_flight p = (\<Sum>w \<leftarrow> tp_workers p. in_flight w)"

definition tp_inv :: "'t thread_pool \<Rightarrow> bool" where
  "tp_inv p \<longleftrightarrow> tp_posted p = tp_started p @ bq_queue (tp_queue p) \<and>
     mset (tp_started p) = mset (tp_finished p) + tp_in_flight p \<and>
     (tp_destroying p \<longleftrightarrow> bq_nonblock (tp_queue p)) \<and>
     (Exited \<in> set (tp_workers p) \<longrightarrow> tp_destroying p \<and> bq_queue (tp_queue p) = [])"

lemma sum_list_update:
  fixes f :: "'a \<Rightarrow> 'b multiset"
  shows "i < length xs \<Longrightarrow> sum_list (map f (xs[i := x])) + f (xs ! i) = sum_list (map f xs) + f x"
proof (induction xs arbitrary: i)
  case (Cons y ys)
  then show ?case by (cases i) (auto simp: ac_simps)
qed simp

lemma tp_inv_step: "tp_step p p' \<Longrightarrow> tp_inv p \<Longrightarrow> tp_inv p'"
proof (induction rule: tp_step.induct)
  case (post p t)
  then show ?case by (auto simp: tp_inv_def tp_Post_def bq_Push_def tp_in_flight_def)
next
  case (destroy p)
  then show ?case by (auto simp: tp_inv_def bq_Cancel_def tp_in_flight_def)
next
  case (pop i p p')
  then show ?case
    using sum_list_update [of i "tp_workers p" in_flight]
    by (auto simp: tp_inv_def tp_in_flight_def tp_worker_pop_def bq_Pop_def in_set_conv_nth nth_list_update
        split: if_splits)
next
  case (run i p t)
  then show ?case
    using sum_list_update [of i "tp_workers p" in_flight At_pop] set_update_subset_insert [of "tp_workers p" i At_pop]
    by (auto simp: tp_inv_def tp_in_flight_def)
qed

lemma sum_list_empty: "sum_list (replicate n {#}) = {#}"
  by (induction n) simp_all

lemma tp_inv_init: "tp_inv (ThreadPool_ctor n)"
  by (simp add: tp_inv_def ThreadPool_ctor_def bq_ctor_def tp_in_flight_def sum_list_empty)

lemma tp_reachable_inv: "tp_step\<^sup>*\<^sup>* (ThreadPool_ctor n) p \<Longrightarrow> tp_inv p"
  by (induction rule: rtranclp_induct) (auto intro: tp_inv_init tp_inv_step)

lemma tp_exited_in_flight: "\<forall>w \<in> set ws. w = Exited \<Longrightarrow> (\<Sum>w \<leftarrow> ws. in_flight w) = {#}"
  by (induction ws) auto

text \<open>
  C10: tasks start in the order they were posted; when the destructor has begun, a worker waiting
  for a task is never stuck; and once all workers of a pool with at least one have exited, so
  that the joins are over, every posted task has been run, once.
\<close>

theorem ThreadPool_runs_all:
  assumes "tp_step\<^sup>*\<^sup>* (ThreadPool_ctor n) p"
  shows "(\<exists>rest. tp_posted p = tp_started p @ rest) \<and>
    (tp_destroying p \<longrightarrow> (\<forall>i. tp_worker_pop i p \<noteq> None)) \<and>
    (tp_workers p \<noteq> [] \<and> (\<forall>w \<in> set (tp_workers p). w = Exited) \<longrightarrow> mset (tp_finished p) = mset (tp_posted p))"
proof -
  have inv: "tp_inv p" by (rule tp_reachable_inv [OF assms])
  have "tp_worker_pop i p \<noteq> None" if "tp_destroying p" for i
    using inv that by (auto simp: tp_inv_def tp_worker_pop_def bq_Pop_def)
  moreover have "mset (tp_finished p) = mset (tp_posted p)"
    if "tp_workers p \<noteq> []" "\<forall>w \<in> set (tp_workers p). w = Exited"
  proof -
    have "Exited \<in> set (tp_workers p)" using that by (cases "tp_workers p") auto
    then show ?thesis
      using inv that tp_exited_in_flight [of "tp_workers p"] by (auto simp: tp_inv_def tp_in_flight_def)
  qed
  ultimately show ?thesis using inv by (auto simp: tp_inv_def)
qed

text \<open>One worker, one task, and the destructor.\<close>

definition ex_pool :: "nat thread_pool" where
  "ex_pool = \<lparr>tp_queue = \<lparr>bq_nonblock = True, bq_queue = []\<rparr>, tp_workers = [Exited], tp_destroying = True,
     tp_posted = [7], tp_started = [7], tp_finished = [7]\<rparr>"

lemma ex_pool_reachable: "tp_step\<^sup>*\<^sup>* (ThreadPool_ctor 1) ex_pool"
proof -
  let ?p = "\<lambda>n xs w d st fi. \<lparr>tp_queue = \<lparr>bq_nonblock = n, bq_queue = xs\<rparr>, tp_workers = [w], tp_destroying = d,
     tp_posted = [7], tp_started = st, tp_finished = fi\<rparr> :: nat thread_pool"
  have "tp_step (ThreadPool_ctor 1) (?p False [7] At_pop False [] [])"
    using tp_step.post [of "ThreadPool_ctor 1" 7]
    by (simp add: ThreadPool_ctor_def tp_Post_def bq_Push_def bq_ctor_def)
  moreover have "tp_step (?p False [7] At_pop False [] []) (?p True [7] At_pop True [] [])"
    using tp_step.destroy [of "?p False [7] At_pop False [] []"] by (simp add: bq_Cancel_def)
  moreover have "tp_step (?p True [7] At_pop True [] []) (?p True [] (Running 7) True [7] [])"
    using tp_step.pop [of 0 "?p True [7] At_pop True [] []"] by (simp add: tp_worker_pop_def bq_Pop_def)
  moreover have "tp_step (?p True [] (Running 7) True [7] []) (?p True [] At_pop True [7] [7])"
    using tp_step.run [of 0 "?p True [] (Running 7) True [7] []"] by simp
  moreover have "tp_step (?p True [] At_pop True [7] [7]) ex_pool"
    using tp_step.pop [of 0 "?p True [] At_pop True [7] [7]"] by (simp add: tp_worker_pop_def bq_Pop_def ex_pool_def)
  ultimately show ?thesis by (meson converse_rtranclp_into_rtranclp rtranclp.rtrancl_refl)
qed

theorem ThreadPool_runs_all_witness: "mset (tp_finished ex_pool) = {#7#}"
  using ThreadPool_runs_all [OF ex_pool_reachable] by (simp add: ex_pool_def)

end
