(* ===== verification/Wheel.thy ===== *)
theory Wheel
  imports Prelude
begin

text \<open>
  What \<^verbatim>\<open>timer/timewheel.c\<close> and \<^verbatim>\<open>timer/clock-timer.c\<close> have in common: timers in lists, one list run
  per tick, and now and then a list of a coarser level distributed over the finer ones. Nodes live
  in a store by address; a \<open>link_list_t\<close> is the list of the addresses on it (\<open>link\<close> appends,
  \<open>link_clear\<close> takes all). The type \<open>'s\<close> names the lists, \<open>rng\<close> those that exist; \<open>slot_of now expire\<close>
  is the list \<open>add_node\<close> chooses and \<open>exec now\<close> the list \<open>timer_execute\<close> runs.

  A callback is code of the user; what it does to the wheel is the list of \<open>add_timer\<close> calls it makes
  (time and identifier), given by the parameter \<open>cb\<close>. \<open>malloc\<close> takes the next address of a counter, and
  \<open>junk\<close> gives the byte that the field \<open>cancel\<close> of a new node starts with. The spin lock is left
  out: each function is one thread's run.
\<close>

section \<open>Data\<close>

record wheel_node =
  wn_expire :: u32
  wn_cancel :: u8
  wn_id :: int

record 's wheel =
  wh_slots :: "'s \<Rightarrow> ptr list"
  wh_time :: u32
  wh_current_point :: u64
  wh_heap :: "ptr \<Rightarrow> wheel_node option"
  wh_brk :: ptr

type_synonym callback = "wheel_node \<Rightarrow> (int \<times> int) list"

section \<open>Lists and nodes\<close>

definition wh_link :: "('s \<Rightarrow> bool) \<Rightarrow> 's \<Rightarrow> ptr \<Rightarrow> 's wheel \<Rightarrow> 's wheel option" where
  "wh_link rng s p w = (if rng s then Some (w\<lparr>wh_slots := (wh_slots w)(s := wh_slots w s @ [p])\<rparr>) else None)"

definition wh_link_clear :: "('s \<Rightarrow> bool) \<Rightarrow> 's \<Rightarrow> 's wheel \<Rightarrow> (ptr list \<times> 's wheel) option" where
  "wh_link_clear rng s w = (if rng s then Some (wh_slots w s, w\<lparr>wh_slots := (wh_slots w)(s := [])\<rparr>) else None)"

definition wh_add_node :: "('s \<Rightarrow> bool) \<Rightarrow> (u32 \<Rightarrow> u32 \<Rightarrow> 's) \<Rightarrow> ptr \<Rightarrow> 's wheel \<Rightarrow> 's wheel option" where
  "wh_add_node rng slot_of p w =
     do { n \<leftarrow> wh_heap w p; wh_link rng (slot_of (wh_time w) (wn_expire n)) p w }"

definition wh_free :: "ptr \<Rightarrow> 's wheel \<Rightarrow> 's wheel" where
  "wh_free p w = w\<lparr>wh_heap := (wh_heap w)(p := None)\<rparr>"

definition wh_new_node :: "(ptr \<Rightarrow> u8) \<Rightarrow> int \<Rightarrow> int \<Rightarrow> 's wheel \<Rightarrow> ptr \<times> 's wheel" where
  "wh_new_node junk time threadid w =
     (let p = wh_brk w in
      (p, w\<lparr>wh_brk := p + 1,
            wh_heap := (wh_heap w)(p \<mapsto> \<lparr>wn_expire = of_int time + wh_time w, wn_cancel = junk p,
                                           wn_id = threadid\<rparr>)\<rparr>))"

section \<open>Adding timers\<close>

text \<open>
  A sequence of calls of \<open>add_timer\<close>, with the nodes whose callbacks ran, in order. A call with a
  time that is not positive runs the callback at once, and with it the calls the callback makes,
  before the next call; that may never end.
\<close>

partial_function (option) wh_calls ::
  "('s \<Rightarrow> bool) \<Rightarrow> (u32 \<Rightarrow> u32 \<Rightarrow> 's) \<Rightarrow> callback \<Rightarrow> (ptr \<Rightarrow> u8) \<Rightarrow> (int \<times> int) list \<Rightarrow> 's wheel \<Rightarrow>
   (ptr list \<times> 's wheel) option" where
  "wh_calls rng slot_of cb junk cs w =
     (case cs of
        [] \<Rightarrow> Some ([], w)
      | c # rest \<Rightarrow>
          (let (p, w) = wh_new_node junk (fst c) (snd c) w in
           if fst c \<le> 0 then
             do { n \<leftarrow> wh_heap w p;
                  (fired, w) \<leftarrow> wh_calls rng slot_of cb junk (cb n) w;
                  (fired', w) \<leftarrow> wh_calls rng slot_of cb junk rest (wh_free p w);
                  Some (p # fired @ fired', w) }
           else
             do { w \<leftarrow> wh_add_node rng slot_of p w; wh_calls rng slot_of cb junk rest w }))"

declare wh_calls.simps [code]

text \<open>\<open>add_timer\<close>: the returned pointer (0 is null), the nodes that ran, the wheel.\<close>

definition wh_add_timer ::
  "('s \<Rightarrow> bool) \<Rightarrow> (u32 \<Rightarrow> u32 \<Rightarrow> 's) \<Rightarrow> callback \<Rightarrow> (ptr \<Rightarrow> u8) \<Rightarrow> int \<Rightarrow> int \<Rightarrow> 's wheel \<Rightarrow>
   (ptr \<times> ptr list \<times> 's wheel) option" where
  "wh_add_timer rng slot_of cb junk time threadid w =
     do { (fired, w') \<leftarrow> wh_calls rng slot_of cb junk [(time, threadid)] w;
          Some (if time \<le> 0 then 0 else wh_brk w, fired, w') }"

definition wh_del_timer :: "ptr \<Rightarrow> 's wheel \<Rightarrow> 's wheel option" where
  "wh_del_timer p w = do { n \<leftarrow> wh_heap w p; Some (w\<lparr>wh_heap := (wh_heap w)(p \<mapsto> n\<lparr>wn_cancel := 1\<rparr>)\<rparr>) }"

section \<open>A tick\<close>

fun wh_move :: "('s \<Rightarrow> bool) \<Rightarrow> (u32 \<Rightarrow> u32 \<Rightarrow> 's) \<Rightarrow> ptr list \<Rightarrow> 's wheel \<Rightarrow> 's wheel option" where
  "wh_move rng slot_of [] w = Some w"
| "wh_move rng slot_of (p # ps) w = do { w \<leftarrow> wh_add_node rng slot_of p w; wh_move rng slot_of ps w }"

definition wh_move_list :: "('s \<Rightarrow> bool) \<Rightarrow> (u32 \<Rightarrow> u32 \<Rightarrow> 's) \<Rightarrow> 's \<Rightarrow> 's wheel \<Rightarrow> 's wheel option" where
  "wh_move_list rng slot_of s w = do { (ps, w) \<leftarrow> wh_link_clear rng s w; wh_move rng slot_of ps w }"

fun wh_dispatch_list ::
  "('s \<Rightarrow> bool) \<Rightarrow> (u32 \<Rightarrow> u32 \<Rightarrow> 's) \<Rightarrow> callback \<Rightarrow> (ptr \<Rightarrow> u8) \<Rightarrow> ptr list \<Rightarrow> 's wheel \<Rightarrow>
   (ptr list \<times> 's wheel) option" where
  "wh_dispatch_list rng slot_of cb junk [] w = Some ([], w)"
| "wh_dispatch_list rng slot_of cb junk (p # ps) w =
     do { n \<leftarrow> wh_heap w p;
          (fired, w) \<leftarrow> (if wn_cancel n = 0
                         then do { (fired, w) \<leftarrow> wh_calls rng slot_of cb junk (cb n) w; Some (p # fired, w) }
                         else Some ([], w));
          (fired', w) \<leftarrow> wh_dispatch_list rng slot_of cb junk ps (wh_free p w);
          Some (fired @ fired', w) }"

partial_function (option) wh_execute ::
  "('s \<Rightarrow> bool) \<Rightarrow> (u32 \<Rightarrow> u32 \<Rightarrow> 's) \<Rightarrow> (u32 \<Rightarrow> 's) \<Rightarrow> callback \<Rightarrow> (ptr \<Rightarrow> u8) \<Rightarrow> 's wheel \<Rightarrow>
   (ptr list \<times> 's wheel) option" where
  "wh_execute rng slot_of exec cb junk w =
     (if wh_slots w (exec (wh_time w)) \<noteq> [] then
        do { (ps, w) \<leftarrow> wh_link_clear rng (exec (wh_time w)) w;
             (fired, w) \<leftarrow> wh_dispatch_list rng slot_of cb junk ps w;
             (fired', w) \<leftarrow> wh_execute rng slot_of exec cb junk w;
             Some (fired @ fired', w) }
      else Some ([], w))"

declare wh_execute.simps [code]

definition wh_update ::
  "('s \<Rightarrow> bool) \<Rightarrow> (u32 \<Rightarrow> u32 \<Rightarrow> 's) \<Rightarrow> (u32 \<Rightarrow> 's) \<Rightarrow> ('s wheel \<Rightarrow> 's wheel option) \<Rightarrow> callback \<Rightarrow> (ptr \<Rightarrow> u8) \<Rightarrow>
   's wheel \<Rightarrow> (ptr list \<times> 's wheel) option" where
  "wh_update rng slot_of exec shift cb junk w =
     do { (fired, w) \<leftarrow> wh_execute rng slot_of exec cb junk w;
          w \<leftarrow> shift w;
          (fired', w) \<leftarrow> wh_execute rng slot_of exec cb junk w;
          Some (fired @ fired', w) }"

text \<open>The loop over the ticks that have passed: what ran at each of them.\<close>

fun wh_updates :: "('s wheel \<Rightarrow> (ptr list \<times> 's wheel) option) \<Rightarrow> nat \<Rightarrow> 's wheel \<Rightarrow> (ptr list list \<times> 's wheel) option" where
  "wh_updates update 0 w = Some ([], w)"
| "wh_updates update (Suc n) w =
     do { (fired, w) \<leftarrow> update w; (rest, w) \<leftarrow> wh_updates update n w; Some (fired # rest, w) }"

text \<open>
  Catching up with the clock at the time \<open>cp\<close>. The loop counter is an \<open>int\<close> compared with an
  unsigned bound, so more than \<open>2 ^ 31 - 1\<close> ticks overflow it.
\<close>

definition wh_catch_up :: "('s wheel \<Rightarrow> (ptr list \<times> 's wheel) option) \<Rightarrow> u64 \<Rightarrow> 's wheel \<Rightarrow> (ptr list list \<times> 's wheel) option" where
  "wh_catch_up update cp w =
     (if cp \<noteq> wh_current_point w then
        (let diff = (ucast (cp - wh_current_point w) :: u32) in
         if diff > 2147483647 then None
         else wh_updates update (unat diff) (w\<lparr>wh_current_point := cp\<rparr>))
      else Some ([], w))"

section \<open>Creation and clearing\<close>

definition wh_create :: "u64 \<Rightarrow> 's wheel" where
  "wh_create now = \<lparr>wh_slots = (\<lambda>_. []), wh_time = 0, wh_current_point = now, wh_heap = (\<lambda>_. None), wh_brk = 1\<rparr>"

fun wh_free_all :: "ptr list \<Rightarrow> 's wheel \<Rightarrow> 's wheel option" where
  "wh_free_all [] w = Some w"
| "wh_free_all (p # ps) w = (if wh_heap w p = None then None else wh_free_all ps (wh_free p w))"

fun wh_clear :: "('s \<Rightarrow> bool) \<Rightarrow> 's list \<Rightarrow> 's wheel \<Rightarrow> 's wheel option" where
  "wh_clear rng [] w = Some w"
| "wh_clear rng (s # ss) w =
     do { w \<leftarrow> wh_free_all (wh_slots w s) w; (_, w) \<leftarrow> wh_link_clear rng s w; wh_clear rng ss w }"

section \<open>Invariant\<close>

definition wh_inv :: "('s \<Rightarrow> bool) \<Rightarrow> (u32 \<Rightarrow> u32 \<Rightarrow> 's \<Rightarrow> bool) \<Rightarrow> 's wheel \<Rightarrow> bool" where
  "wh_inv rng placed w \<longleftrightarrow>
     (\<forall>s p. p \<in> set (wh_slots w s) \<longrightarrow>
        rng s \<and> p < wh_brk w \<and> (\<exists>n. wh_heap w p = Some n \<and> placed (wh_time w) (wn_expire n) s)) \<and>
     (\<forall>s. distinct (wh_slots w s)) \<and>
     (\<forall>s t p. p \<in> set (wh_slots w s) \<longrightarrow> p \<in> set (wh_slots w t) \<longrightarrow> s = t)"

text \<open>No timer that can still be run is due now.\<close>

definition wh_pending :: "('s \<Rightarrow> bool) \<Rightarrow> 's wheel \<Rightarrow> bool" where
  "wh_pending dead w \<longleftrightarrow>
     (\<forall>s p n. p \<in> set (wh_slots w s) \<longrightarrow> \<not> dead s \<longrightarrow> wh_heap w p = Some n \<longrightarrow> wn_expire n \<noteq> wh_time w)"

definition wh_good_calls :: "(u32 \<Rightarrow> u32 \<Rightarrow> bool) \<Rightarrow> u32 \<Rightarrow> (int \<times> int) list \<Rightarrow> bool" where
  "wh_good_calls admits now cs \<longleftrightarrow>
     (\<forall>c \<in> set cs. 0 < fst c \<and> fst c < 2 ^ 31 \<and> admits now (of_int (fst c) + now))"

text \<open>
  How the wheel changes while callbacks run: the nodes of \<open>F\<close> are freed, new nodes that are not
  due now are appended to some lists, nothing else changes.
\<close>

definition wh_grows :: "ptr set \<Rightarrow> 's wheel \<Rightarrow> 's wheel \<Rightarrow> bool" where
  "wh_grows F w w' \<longleftrightarrow> wh_time w' = wh_time w \<and> wh_current_point w' = wh_current_point w \<and> wh_brk w \<le> wh_brk w' \<and>
     (\<forall>p < wh_brk w. wh_heap w' p = (if p \<in> F then None else wh_heap w p)) \<and>
     (\<forall>s. \<exists>ns. wh_slots w' s = wh_slots w s @ ns \<and>
        (\<forall>q \<in> set ns. wh_brk w \<le> q \<and> q < wh_brk w' \<and> (\<exists>n. wh_heap w' q = Some n \<and> wn_expire n \<noteq> wh_time w)))"

text \<open>The node would run its callback.\<close>

definition wh_active :: "'s wheel \<Rightarrow> ptr \<Rightarrow> bool" where
  "wh_active w p \<longleftrightarrow> wn_cancel (the (wh_heap w p)) = 0"

text \<open>The node is on a list from which it can still be run; on one from which it cannot.\<close>

definition wh_live :: "('s \<Rightarrow> bool) \<Rightarrow> 's wheel \<Rightarrow> ptr \<Rightarrow> bool" where
  "wh_live dead w p \<longleftrightarrow> (\<exists>s. p \<in> set (wh_slots w s) \<and> \<not> dead s)"

definition wh_lost :: "('s \<Rightarrow> bool) \<Rightarrow> 's wheel \<Rightarrow> ptr \<Rightarrow> bool" where
  "wh_lost dead w p \<longleftrightarrow> (\<exists>s. p \<in> set (wh_slots w s) \<and> dead s)"

lemma wh_inv_node:
  assumes "wh_inv rng placed w" "p \<in> set (wh_slots w s)"
  shows "rng s" "p < wh_brk w" "\<exists>n. wh_heap w p = Some n \<and> placed (wh_time w) (wn_expire n) s"
  using assms by (auto simp: wh_inv_def)

lemma wh_inv_unique:
  "wh_inv rng placed w \<Longrightarrow> p \<in> set (wh_slots w s) \<Longrightarrow> p \<in> set (wh_slots w t) \<Longrightarrow> s = t"
  by (auto simp: wh_inv_def)

lemma wh_inv_distinct: "wh_inv rng placed w \<Longrightarrow> distinct (wh_slots w s)"
  by (simp add: wh_inv_def)

lemma wh_grows_slots:
  "wh_grows F w w' \<Longrightarrow> \<exists>ns. wh_slots w' s = wh_slots w s @ ns \<and>
     (\<forall>q \<in> set ns. wh_brk w \<le> q \<and> q < wh_brk w' \<and> (\<exists>n. wh_heap w' q = Some n \<and> wn_expire n \<noteq> wh_time w))"
  by (simp add: wh_grows_def)

lemma wh_grows_refl: "wh_grows {} w w"
  by (simp add: wh_grows_def)

lemma wh_grows_trans:
  assumes "wh_grows F w w1" "wh_grows G w1 w2" "G \<subseteq> {..<wh_brk w}"
  shows "wh_grows (F \<union> G) w w2"
proof -
  have "\<exists>ns. wh_slots w2 s = wh_slots w s @ ns \<and>
      (\<forall>q \<in> set ns. wh_brk w \<le> q \<and> q < wh_brk w2 \<and> (\<exists>n. wh_heap w2 q = Some n \<and> wn_expire n \<noteq> wh_time w))" for s
  proof -
    obtain ns1 where ns1: "wh_slots w1 s = wh_slots w s @ ns1"
        "\<And>q. q \<in> set ns1 \<Longrightarrow> wh_brk w \<le> q \<and> q < wh_brk w1 \<and> (\<exists>n. wh_heap w1 q = Some n \<and> wn_expire n \<noteq> wh_time w)"
      using assms(1) unfolding wh_grows_def by blast
    obtain ns2 where ns2: "wh_slots w2 s = wh_slots w1 s @ ns2"
        "\<And>q. q \<in> set ns2 \<Longrightarrow> wh_brk w1 \<le> q \<and> q < wh_brk w2 \<and> (\<exists>n. wh_heap w2 q = Some n \<and> wn_expire n \<noteq> wh_time w1)"
      using assms(2) unfolding wh_grows_def by blast
    have "wh_heap w2 q = wh_heap w1 q \<and> q < wh_brk w2" if "q \<in> set ns1" for q
      using ns1(2) [OF that] assms(2,3) by (auto simp: wh_grows_def)
    moreover have "wh_time w1 = wh_time w" "wh_brk w \<le> wh_brk w1" using assms(1) by (auto simp: wh_grows_def)
    ultimately show ?thesis
      using ns1 ns2 by (intro exI [of _ "ns1 @ ns2"]) fastforce
  qed
  then show ?thesis
    using assms unfolding wh_grows_def by auto
qed

section \<open>The contract of a wheel\<close>

text \<open>
  \<open>placed now e s\<close>: at the time \<open>now\<close> a timer that expires at \<open>e\<close> may be on the list \<open>s\<close>. \<open>dead s\<close>: the
  list is never run nor distributed. \<open>hit ct\<close>: the list that the step to \<open>ct\<close> distributes.
  \<open>admits now e\<close>: at \<open>now\<close> a timer that expires at \<open>e\<close> may be added.
\<close>

locale wheel_rules =
  fixes rng :: "'s \<Rightarrow> bool"
    and slot_of :: "u32 \<Rightarrow> u32 \<Rightarrow> 's"
    and exec :: "u32 \<Rightarrow> 's"
    and hit :: "u32 \<Rightarrow> 's option"
    and shift :: "'s wheel \<Rightarrow> 's wheel option"
    and dead :: "'s \<Rightarrow> bool"
    and placed :: "u32 \<Rightarrow> u32 \<Rightarrow> 's \<Rightarrow> bool"
    and admits :: "u32 \<Rightarrow> u32 \<Rightarrow> bool"
  assumes slot_rng: "rng (slot_of c e)"
    and slot_placed: "admits c e \<Longrightarrow> placed c e (slot_of c e)"
    and exec_rng: "rng (exec c)"
    and exec_live: "\<not> dead (exec c)"
    and placed_exec: "placed c e (exec c) \<Longrightarrow> e = c"
    and due_exec: "placed c c s \<Longrightarrow> \<not> dead s \<Longrightarrow> s = exec c"
    and shift_eq: "shift w = (case hit (wh_time w + 1) of
          None \<Rightarrow> Some (w\<lparr>wh_time := wh_time w + 1\<rparr>)
        | Some h \<Rightarrow> wh_move_list rng slot_of h (w\<lparr>wh_time := wh_time w + 1\<rparr>))"
    and hit_rng: "hit c = Some h \<Longrightarrow> rng h"
    and hit_live: "hit c = Some h \<Longrightarrow> \<not> dead h"
    and placed_tick: "placed c e s \<Longrightarrow> dead s \<or> e \<noteq> c \<Longrightarrow> hit (c + 1) \<noteq> Some s \<Longrightarrow> placed (c + 1) e s"
    and placed_hit: "hit (c + 1) = Some h \<Longrightarrow> placed c e h \<Longrightarrow> e \<noteq> c \<Longrightarrow>
          admits (c + 1) e \<and> \<not> dead (slot_of (c + 1) e)"
begin

end

context wheel_rules
begin

lemma inv_subset:
  assumes "wh_inv rng placed w" "wh_time w' = wh_time w" "wh_brk w' = wh_brk w" "wh_heap w' = wh_heap w"
    "\<And>s. wh_slots w' s = wh_slots w s \<or> wh_slots w' s = []"
  shows "wh_inv rng placed w'"
proof -
  have "distinct (wh_slots w' s)" for s
    using assms(5) [of s] wh_inv_distinct [OF assms(1)] by auto
  moreover have "p \<in> set (wh_slots w s)" if "p \<in> set (wh_slots w' s)" for p s
    using assms(5) [of s] that by auto
  ultimately show ?thesis
    using assms(1-4) unfolding wh_inv_def by metis
qed

lemma inv_link:
  assumes inv: "wh_inv rng placed w" and n: "wh_heap w p = Some n" and p: "p < wh_brk w"
    and fresh: "\<And>s. p \<notin> set (wh_slots w s)" and ad: "admits (wh_time w) (wn_expire n)"
  defines "s0 \<equiv> slot_of (wh_time w) (wn_expire n)"
  shows "wh_add_node rng slot_of p w = Some (w\<lparr>wh_slots := (wh_slots w)(s0 := wh_slots w s0 @ [p])\<rparr>) \<and>
    wh_inv rng placed (w\<lparr>wh_slots := (wh_slots w)(s0 := wh_slots w s0 @ [p])\<rparr>)"
proof
  show "wh_add_node rng slot_of p w = Some (w\<lparr>wh_slots := (wh_slots w)(s0 := wh_slots w s0 @ [p])\<rparr>)"
    using n slot_rng by (simp add: wh_add_node_def wh_link_def s0_def)
  have "placed (wh_time w) (wn_expire n) s0" "rng s0"
    using slot_placed [OF ad] slot_rng by (auto simp: s0_def)
  then show "wh_inv rng placed (w\<lparr>wh_slots := (wh_slots w)(s0 := wh_slots w s0 @ [p])\<rparr>)"
    using inv n p fresh unfolding wh_inv_def by auto
qed

lemma of_int_pos: "0 < t \<Longrightarrow> t < 2 ^ 31 \<Longrightarrow> (of_int t :: u32) \<noteq> 0"
  using zdvd_imp_le [of 4294967296 t] by (auto simp: word_of_int_eq_0_iff)

lemma calls_ok:
  "wh_inv rng placed w \<Longrightarrow> wh_good_calls admits (wh_time w) cs \<Longrightarrow>
   \<exists>w'. wh_calls rng slot_of cb junk cs w = Some ([], w') \<and> wh_inv rng placed w' \<and> wh_grows {} w w'"
proof (induction cs arbitrary: w)
  case Nil
  then show ?case by (simp add: wh_calls.simps wh_grows_refl)
next
  case (Cons c cs)
  let ?p = "wh_brk w"
  let ?n = "\<lparr>wn_expire = of_int (fst c) + wh_time w, wn_cancel = junk ?p, wn_id = snd c\<rparr>"
  let ?w1 = "w\<lparr>wh_brk := ?p + 1, wh_heap := (wh_heap w)(?p \<mapsto> ?n)\<rparr>"
  let ?s = "slot_of (wh_time w) (wn_expire ?n)"
  let ?w2 = "?w1\<lparr>wh_slots := (wh_slots w)(?s := wh_slots w ?s @ [?p])\<rparr>"
  have c: "0 < fst c" "fst c < 2 ^ 31" "admits (wh_time w) (wn_expire ?n)" "wh_good_calls admits (wh_time w) cs"
    using Cons.prems(2) by (auto simp: wh_good_calls_def)
  have fresh: "?p \<notin> set (wh_slots w s)" for s
    using wh_inv_node(2) [OF Cons.prems(1)] by blast
  have "wh_inv rng placed ?w1"
    using Cons.prems(1) fresh unfolding wh_inv_def by (auto simp: less_SucI)
  from inv_link [OF this, of ?p ?n] have add: "wh_add_node rng slot_of ?p ?w1 = Some ?w2" "wh_inv rng placed ?w2"
    using c fresh by auto
  have ne: "wn_expire ?n \<noteq> wh_time w"
    using of_int_pos [OF c(1,2)] by simp
  have g: "wh_grows {} w ?w2"
    unfolding wh_grows_def using ne by auto
  obtain w' where w': "wh_calls rng slot_of cb junk cs ?w2 = Some ([], w')" "wh_inv rng placed w'" "wh_grows {} ?w2 w'"
    using Cons.IH [OF add(2)] c(4) by auto
  have "wh_calls rng slot_of cb junk (c # cs) w = Some ([], w')"
    using c(1) add(1) w'(1) by (subst wh_calls.simps) (simp add: wh_new_node_def Let_def)
  then show ?case
    using w'(2) wh_grows_trans [OF g w'(3)] by auto
qed

lemma free_ok:
  assumes "wh_inv rng placed w" "\<And>s. p \<notin> set (wh_slots w s)" "p < wh_brk w"
  shows "wh_inv rng placed (wh_free p w)" "wh_grows {p} w (wh_free p w)"
  using assms unfolding wh_inv_def wh_grows_def wh_free_def by auto

lemma not_on_grows:
  assumes "wh_grows F w w'" "\<And>s. p \<notin> set (wh_slots w s)" "p < wh_brk w"
  shows "p \<notin> set (wh_slots w' s)"
proof -
  obtain ns where "wh_slots w' s = wh_slots w s @ ns" "\<forall>q \<in> set ns. wh_brk w \<le> q"
    using assms(1) unfolding wh_grows_def by blast
  then show ?thesis using assms(2,3) by auto
qed

lemma dispatch_ok:
  "wh_inv rng placed w \<Longrightarrow> distinct ps \<Longrightarrow> (\<And>p s. p \<in> set ps \<Longrightarrow> p \<notin> set (wh_slots w s)) \<Longrightarrow>
   (\<And>p. p \<in> set ps \<Longrightarrow> p < wh_brk w \<and> wh_heap w p \<noteq> None) \<Longrightarrow>
   (\<And>n. wh_good_calls admits (wh_time w) (cb n)) \<Longrightarrow>
   \<exists>w'. wh_dispatch_list rng slot_of cb junk ps w = Some (filter (wh_active w) ps, w') \<and>
      wh_inv rng placed w' \<and> wh_grows (set ps) w w'"
proof (induction ps arbitrary: w)
  case Nil
  then show ?case by (simp add: wh_grows_refl)
next
  case (Cons p ps)
  obtain n where n: "wh_heap w p = Some n" and p: "p < wh_brk w" using Cons.prems(4) [of p] by auto
  obtain w1 where w1: "(if wn_cancel n = 0 then do { (fired, w) \<leftarrow> wh_calls rng slot_of cb junk (cb n) w; Some (p # fired, w) }
        else Some ([], w)) = Some (filter (wh_active w) [p], w1)" "wh_inv rng placed w1" "wh_grows {} w w1"
    using calls_ok [OF Cons.prems(1,5), of cb junk n] n Cons.prems(1) wh_grows_refl [of w]
    by (cases "wn_cancel n = 0") (auto simp: wh_active_def)
  have off: "q \<notin> set (wh_slots w1 s)" if "q \<in> set (p # ps)" for q s
    using not_on_grows [OF w1(3)] Cons.prems(3,4) that by blast
  have p1: "p < wh_brk w1" using p w1(3) by (auto simp: wh_grows_def)
  let ?w2 = "wh_free p w1"
  have inv2: "wh_inv rng placed ?w2" and g2: "wh_grows {p} w ?w2"
    using free_ok [OF w1(2) _ p1] off wh_grows_trans [OF w1(3) free_ok(2) [OF w1(2) _ p1]] p by auto
  have same: "wh_heap ?w2 q = wh_heap w q" "q < wh_brk ?w2" if "q \<in> set ps" for q
    using g2 Cons.prems(2,4) that unfolding wh_grows_def by fastforce+
  have t2: "wh_time ?w2 = wh_time w" using g2 by (simp add: wh_grows_def)
  obtain w' where w': "wh_dispatch_list rng slot_of cb junk ps ?w2 = Some (filter (wh_active ?w2) ps, w')"
      "wh_inv rng placed w'" "wh_grows (set ps) ?w2 w'"
    using Cons.IH [OF inv2] Cons.prems off same t2 by (auto simp: wh_free_def)
  have "filter (wh_active ?w2) ps = filter (wh_active w) ps"
    using same by (intro filter_cong) (auto simp: wh_active_def)
  then have "wh_dispatch_list rng slot_of cb junk (p # ps) w = Some (filter (wh_active w) (p # ps), w')"
    using n w1(1) w'(1) by simp
  moreover have "wh_grows (set (p # ps)) w w'"
    using wh_grows_trans [OF g2 w'(3)] Cons.prems(4) by auto
  ultimately show ?case using w'(2) by blast
qed

lemma execute_ok:
  assumes inv: "wh_inv rng placed w" and cb: "\<And>n. wh_good_calls admits (wh_time w) (cb n)"
  defines "x \<equiv> exec (wh_time w)"
  defines "w0 \<equiv> w\<lparr>wh_slots := (wh_slots w)(x := [])\<rparr>"
  shows "\<exists>w'. wh_execute rng slot_of exec cb junk w = Some (filter (wh_active w) (wh_slots w x), w') \<and>
    wh_inv rng placed w' \<and> wh_grows (set (wh_slots w x)) w0 w'"
proof (cases "wh_slots w x = []")
  case True
  then have "w0 = w" by (simp add: w0_def fun_upd_idem)
  then show ?thesis
    using True inv by (subst wh_execute.simps) (simp add: x_def wh_grows_refl)
next
  case False
  have inv0: "wh_inv rng placed w0"
    by (rule inv_subset [OF inv]) (auto simp: w0_def)
  have ps1: "p \<notin> set (wh_slots w0 s)" if "p \<in> set (wh_slots w x)" for p s
    using wh_inv_unique [OF inv that, of s] by (cases "s = x") (auto simp: w0_def)
  have ps2: "p < wh_brk w0 \<and> wh_heap w0 p \<noteq> None" if "p \<in> set (wh_slots w x)" for p
    using wh_inv_node(2,3) [OF inv that] by (auto simp: w0_def)
  have cb0: "wh_good_calls admits (wh_time w0) (cb n)" for n
    using cb by (simp add: w0_def)
  obtain w1 where w1: "wh_dispatch_list rng slot_of cb junk (wh_slots w x) w0 = Some (filter (wh_active w0) (wh_slots w x), w1)"
      "wh_inv rng placed w1" "wh_grows (set (wh_slots w x)) w0 w1"
    using dispatch_ok [where cb = cb and junk = junk, OF inv0 wh_inv_distinct [OF inv, of x] ps1 ps2 cb0] by blast
  have t: "wh_time w1 = wh_time w" using w1(3) by (simp add: wh_grows_def w0_def)
  obtain ns where ns: "wh_slots w1 x = ns" "\<forall>q \<in> set ns. \<exists>n. wh_heap w1 q = Some n \<and> wn_expire n \<noteq> wh_time w"
    using wh_grows_slots [OF w1(3), of x] by (auto simp: w0_def)
  have "ns = []"
  proof (rule ccontr)
    assume "ns \<noteq> []"
    then obtain q where q: "q \<in> set (wh_slots w1 x)" using ns(1) by (cases ns) auto
    then show False
      using wh_inv_node(3) [OF w1(2) q] ns placed_exec t unfolding x_def by fastforce
  qed
  then have "wh_execute rng slot_of exec cb junk w1 = Some ([], w1)"
    using ns(1) t by (subst wh_execute.simps) (simp add: x_def)
  moreover have "filter (wh_active w0) (wh_slots w x) = filter (wh_active w) (wh_slots w x)"
    by (intro filter_cong) (auto simp: wh_active_def w0_def)
  ultimately have "wh_execute rng slot_of exec cb junk w = Some (filter (wh_active w) (wh_slots w x), w1)"
    using False w1(1) exec_rng
    by (subst wh_execute.simps) (simp add: wh_link_clear_def x_def w0_def)
  then show ?thesis using w1(2,3) by blast
qed

lemma execute_pending:
  assumes inv: "wh_inv rng placed w'"
    and g: "wh_grows F (w\<lparr>wh_slots := (wh_slots w)(exec (wh_time w) := [])\<rparr>) w'"
  shows "wh_pending dead w'"
  unfolding wh_pending_def
proof (intro allI impI)
  fix s p n
  assume p: "p \<in> set (wh_slots w' s)" and live: "\<not> dead s" and n: "wh_heap w' p = Some n"
  have t: "wh_time w' = wh_time w" using g by (simp add: wh_grows_def)
  show "wn_expire n \<noteq> wh_time w'"
  proof
    assume due: "wn_expire n = wh_time w'"
    then have "placed (wh_time w') (wh_time w') s"
      using wh_inv_node(3) [OF inv p] n by auto
    then have s: "s = exec (wh_time w)" using due_exec live t by simp
    obtain ns where "wh_slots w' s = ns" "\<forall>q \<in> set ns. \<exists>n. wh_heap w' q = Some n \<and> wn_expire n \<noteq> wh_time w"
      using wh_grows_slots [OF g, of s] s by auto
    then show False using p n due t by force
  qed
qed

lemma move_ok:
  "wh_inv rng placed w \<Longrightarrow> distinct ps \<Longrightarrow> (\<And>p s. p \<in> set ps \<Longrightarrow> p \<notin> set (wh_slots w s)) \<Longrightarrow>
   (\<And>p. p \<in> set ps \<Longrightarrow> p < wh_brk w \<and> (\<exists>n. wh_heap w p = Some n \<and> admits (wh_time w) (wn_expire n))) \<Longrightarrow>
   \<exists>w'. wh_move rng slot_of ps w = Some w' \<and> wh_inv rng placed w' \<and>
      wh_heap w' = wh_heap w \<and> wh_brk w' = wh_brk w \<and> wh_time w' = wh_time w \<and>
      wh_current_point w' = wh_current_point w \<and>
      (\<forall>s q. q \<in> set (wh_slots w' s) \<longleftrightarrow> q \<in> set (wh_slots w s) \<or>
         q \<in> set ps \<and> s = slot_of (wh_time w) (wn_expire (the (wh_heap w q))))"
proof (induction ps arbitrary: w)
  case (Cons p ps)
  obtain n where n: "wh_heap w p = Some n" "admits (wh_time w) (wn_expire n)" and p: "p < wh_brk w"
    using Cons.prems(4) [of p] by auto
  let ?s = "slot_of (wh_time w) (wn_expire n)"
  let ?w = "w\<lparr>wh_slots := (wh_slots w)(?s := wh_slots w ?s @ [p])\<rparr>"
  have add: "wh_add_node rng slot_of p w = Some ?w" "wh_inv rng placed ?w"
    using inv_link [OF Cons.prems(1) n(1) p Cons.prems(3) n(2)] by auto
  have off: "q \<notin> set (wh_slots ?w s)" if "q \<in> set ps" for q s
    using Cons.prems(2,3) that by auto
  have ok: "q < wh_brk ?w \<and> (\<exists>n. wh_heap ?w q = Some n \<and> admits (wh_time ?w) (wn_expire n))" if "q \<in> set ps" for q
    using Cons.prems(4) that by simp
  obtain w' where w': "wh_move rng slot_of ps ?w = Some w'" "wh_inv rng placed w'"
      "wh_heap w' = wh_heap ?w" "wh_brk w' = wh_brk ?w" "wh_time w' = wh_time ?w" "wh_current_point w' = wh_current_point ?w"
      "\<And>s q. q \<in> set (wh_slots w' s) \<longleftrightarrow> q \<in> set (wh_slots ?w s) \<or>
         q \<in> set ps \<and> s = slot_of (wh_time ?w) (wn_expire (the (wh_heap ?w q)))"
    using Cons.IH [OF add(2) _ off ok] Cons.prems(2) by auto
  have "q \<in> set (wh_slots w' s) \<longleftrightarrow> q \<in> set (wh_slots w s) \<or>
         q \<in> set (p # ps) \<and> s = slot_of (wh_time w) (wn_expire (the (wh_heap w q)))" for s q
    unfolding w'(7) using n(1) by auto
  then show ?case using add(1) w' by auto
qed auto

lemma tick_inv:
  assumes inv: "wh_inv rng placed w" and pend: "wh_pending dead w"
    and sl: "\<And>s. wh_slots w' s = (if hit (wh_time w + 1) = Some s then [] else wh_slots w s)"
    and rest: "wh_time w' = wh_time w + 1" "wh_heap w' = wh_heap w" "wh_brk w' = wh_brk w"
  shows "wh_inv rng placed w'"
proof -
  have "rng s \<and> p < wh_brk w' \<and> (\<exists>n. wh_heap w' p = Some n \<and> placed (wh_time w') (wn_expire n) s)"
    if p': "p \<in> set (wh_slots w' s)" for p s
  proof -
    have p: "p \<in> set (wh_slots w s)" and h: "hit (wh_time w + 1) \<noteq> Some s"
      using p' sl by (auto split: if_splits)
    obtain n where n: "wh_heap w p = Some n" "placed (wh_time w) (wn_expire n) s"
      using wh_inv_node(3) [OF inv p] by blast
    have "dead s \<or> wn_expire n \<noteq> wh_time w" using pend p n(1) unfolding wh_pending_def by blast
    then show ?thesis
      using placed_tick [OF n(2) _ h] wh_inv_node(1,2) [OF inv p] n(1) rest by simp
  qed
  moreover have "distinct (wh_slots w' s)" for s using wh_inv_distinct [OF inv] sl by simp
  moreover have "s = t" if "p \<in> set (wh_slots w' s)" "p \<in> set (wh_slots w' t)" for p s t
    using that sl wh_inv_unique [OF inv, of p s t] by (auto split: if_splits)
  ultimately show ?thesis unfolding wh_inv_def by blast
qed

lemma shift_ok:
  assumes inv: "wh_inv rng placed w" and pend: "wh_pending dead w"
  shows "\<exists>w'. shift w = Some w' \<and> wh_inv rng placed w' \<and> wh_time w' = wh_time w + 1 \<and>
    wh_heap w' = wh_heap w \<and> wh_brk w' = wh_brk w \<and> wh_current_point w' = wh_current_point w \<and>
    wh_live dead w' = wh_live dead w \<and> wh_lost dead w' = wh_lost dead w"
proof (cases "hit (wh_time w + 1)")
  case None
  then have "wh_inv rng placed (w\<lparr>wh_time := wh_time w + 1\<rparr>)"
    by (intro tick_inv [OF inv pend]) auto
  then show ?thesis using None shift_eq by (simp add: wh_live_def wh_lost_def fun_eq_iff)
next
  case (Some h)
  let ?w1 = "w\<lparr>wh_time := wh_time w + 1, wh_slots := (wh_slots w)(h := [])\<rparr>"
  have inv1: "wh_inv rng placed ?w1"
    using Some by (intro tick_inv [OF inv pend]) auto
  have off: "p \<notin> set (wh_slots ?w1 s)" if "p \<in> set (wh_slots w h)" for p s
    using wh_inv_unique [OF inv that, of s] by (cases "s = h") auto
  have ok: "p < wh_brk ?w1 \<and> (\<exists>n. wh_heap ?w1 p = Some n \<and> admits (wh_time ?w1) (wn_expire n))"
    and live: "\<not> dead (slot_of (wh_time ?w1) (wn_expire (the (wh_heap ?w1 p))))" if p: "p \<in> set (wh_slots w h)" for p
  proof -
    obtain n where n: "wh_heap w p = Some n" "placed (wh_time w) (wn_expire n) h"
      using wh_inv_node(3) [OF inv p] by blast
    have "wn_expire n \<noteq> wh_time w" using pend p n(1) hit_live [OF Some] unfolding wh_pending_def by blast
    from placed_hit [OF Some n(2) this] show
      "p < wh_brk ?w1 \<and> (\<exists>n. wh_heap ?w1 p = Some n \<and> admits (wh_time ?w1) (wn_expire n))"
      "\<not> dead (slot_of (wh_time ?w1) (wn_expire (the (wh_heap ?w1 p))))"
      using n(1) wh_inv_node(2) [OF inv p] by auto
  qed
  obtain w' where w': "wh_move rng slot_of (wh_slots w h) ?w1 = Some w'" "wh_inv rng placed w'"
      "wh_heap w' = wh_heap ?w1" "wh_brk w' = wh_brk ?w1" "wh_time w' = wh_time ?w1"
      "wh_current_point w' = wh_current_point ?w1"
      and mem: "\<And>s q. q \<in> set (wh_slots w' s) \<longleftrightarrow> q \<in> set (wh_slots ?w1 s) \<or>
         q \<in> set (wh_slots w h) \<and> s = slot_of (wh_time ?w1) (wn_expire (the (wh_heap ?w1 q)))"
    using move_ok [OF inv1 wh_inv_distinct [OF inv, of h] off ok] by blast
  have "shift w = Some w'"
    using Some w'(1) hit_rng [OF Some] by (simp add: shift_eq wh_move_list_def wh_link_clear_def)
  moreover have "wh_live dead w' p = wh_live dead w p \<and> wh_lost dead w' p = wh_lost dead w p" for p
  proof (cases "p \<in> set (wh_slots w h)")
    case True
    then show ?thesis
      unfolding wh_live_def wh_lost_def mem
      using live [OF True] hit_live [OF Some] off [OF True] wh_inv_unique [OF inv True] by metis
  next
    case False
    then have "p \<in> set (wh_slots w' s) \<longleftrightarrow> p \<in> set (wh_slots w s)" for s
      unfolding mem by (cases "s = h") auto
    then show ?thesis by (simp add: wh_live_def wh_lost_def)
  qed
  ultimately show ?thesis using w' by (auto simp: fun_eq_iff)
qed

lemma execute_live:
  assumes inv: "wh_inv rng placed w" and g: "wh_grows (set (wh_slots w (exec (wh_time w))))
      (w\<lparr>wh_slots := (wh_slots w)(exec (wh_time w) := [])\<rparr>) w'" and p: "p < wh_brk w"
  shows "wh_live dead w' p \<longleftrightarrow> wh_live dead w p \<and> p \<notin> set (wh_slots w (exec (wh_time w)))"
    "wh_lost dead w' p \<longleftrightarrow> wh_lost dead w p"
    "p \<notin> set (wh_slots w (exec (wh_time w))) \<Longrightarrow> wh_heap w' p = wh_heap w p"
proof -
  let ?x = "exec (wh_time w)"
  have mem: "p \<in> set (wh_slots w' s) \<longleftrightarrow> s \<noteq> ?x \<and> p \<in> set (wh_slots w s)" for s
  proof -
    obtain ns where "wh_slots w' s = (if s = ?x then [] else wh_slots w s) @ ns" "\<forall>q \<in> set ns. wh_brk w \<le> q"
      using wh_grows_slots [OF g, of s] by auto
    then show ?thesis using p by (auto split: if_splits)
  qed
  show "wh_live dead w' p \<longleftrightarrow> wh_live dead w p \<and> p \<notin> set (wh_slots w ?x)"
    unfolding wh_live_def mem using wh_inv_unique [OF inv, of p _ ?x] by metis
  show "wh_lost dead w' p \<longleftrightarrow> wh_lost dead w p"
    unfolding wh_lost_def mem using exec_live by metis
  show "p \<notin> set (wh_slots w ?x) \<Longrightarrow> wh_heap w' p = wh_heap w p"
    using g p by (simp add: wh_grows_def)
qed

lemma due_iff:
  assumes inv: "wh_inv rng placed w" and n: "wh_heap w p = Some n"
  shows "p \<in> set (wh_slots w (exec (wh_time w))) \<longleftrightarrow> wh_live dead w p \<and> wn_expire n = wh_time w"
proof
  assume p: "p \<in> set (wh_slots w (exec (wh_time w)))"
  then show "wh_live dead w p \<and> wn_expire n = wh_time w"
    using wh_inv_node(3) [OF inv p] n placed_exec exec_live by (auto simp: wh_live_def)
next
  assume "wh_live dead w p \<and> wn_expire n = wh_time w"
  then obtain s where s: "p \<in> set (wh_slots w s)" "\<not> dead s" "wn_expire n = wh_time w"
    by (auto simp: wh_live_def)
  then have "s = exec (wh_time w)"
    using wh_inv_node(3) [OF inv s(1)] n due_exec by auto
  then show "p \<in> set (wh_slots w (exec (wh_time w)))" using s(1) by simp
qed

text \<open>One tick.\<close>

lemma update_ok:
  assumes inv: "wh_inv rng placed w" and pend: "wh_pending dead w"
    and cb: "\<And>n. wh_good_calls admits (wh_time w) (cb n)" "\<And>n. wh_good_calls admits (wh_time w + 1) (cb n)"
  shows "\<exists>fired w'. wh_update rng slot_of exec shift cb junk w = Some (fired, w') \<and>
    wh_inv rng placed w' \<and> wh_pending dead w' \<and> wh_time w' = wh_time w + 1 \<and> wh_brk w \<le> wh_brk w' \<and> distinct fired \<and>
    wh_current_point w' = wh_current_point w \<and>
    (\<forall>p. p \<in> set fired \<longleftrightarrow> wh_live dead w p \<and>
       (\<exists>n. wh_heap w p = Some n \<and> wn_expire n = wh_time w + 1 \<and> wn_cancel n = 0)) \<and>
    (\<forall>p n. p < wh_brk w \<longrightarrow> wh_heap w p = Some n \<longrightarrow>
       (wh_live dead w' p \<longleftrightarrow> wh_live dead w p \<and> wn_expire n \<noteq> wh_time w + 1) \<and>
       (wh_lost dead w' p \<longleftrightarrow> wh_lost dead w p) \<and>
       (wh_live dead w' p \<or> wh_lost dead w' p \<longrightarrow> wh_heap w' p = Some n)) \<and>
    (\<forall>p < wh_brk w. \<not> wh_live dead w p \<longrightarrow> \<not> wh_live dead w' p)"
proof -
  have "wh_slots w (exec (wh_time w)) = []"
  proof (rule ccontr)
    assume "wh_slots w (exec (wh_time w)) \<noteq> []"
    then obtain p where p: "p \<in> set (wh_slots w (exec (wh_time w)))" by (meson list.set_sel(1))
    then show False
      using wh_inv_node(3) [OF inv p] due_iff [OF inv] pend exec_live unfolding wh_pending_def by blast
  qed
  then have ex0: "wh_execute rng slot_of exec cb junk w = Some ([], w)"
    by (subst wh_execute.simps) simp
  obtain w1 where w1: "shift w = Some w1" "wh_inv rng placed w1" "wh_time w1 = wh_time w + 1"
      "wh_heap w1 = wh_heap w" "wh_brk w1 = wh_brk w" "wh_live dead w1 = wh_live dead w" "wh_lost dead w1 = wh_lost dead w"
      "wh_current_point w1 = wh_current_point w"
    using shift_ok [OF inv pend] by blast
  let ?x = "exec (wh_time w1)"
  have cb1: "wh_good_calls admits (wh_time w1) (cb n)" for n using cb(2) w1(3) by simp
  obtain w' where w': "wh_execute rng slot_of exec cb junk w1 = Some (filter (wh_active w1) (wh_slots w1 ?x), w')"
      "wh_inv rng placed w'" "wh_grows (set (wh_slots w1 ?x)) (w1\<lparr>wh_slots := (wh_slots w1)(?x := [])\<rparr>) w'"
    using execute_ok [where cb = cb and junk = junk, OF w1(2) cb1] by blast
  have upd: "wh_update rng slot_of exec shift cb junk w = Some (filter (wh_active w1) (wh_slots w1 ?x), w')"
    by (simp add: wh_update_def ex0 w1(1) w'(1))
  have pend': "wh_pending dead w'" by (rule execute_pending [OF w'(2,3)])
  have t: "wh_time w' = wh_time w + 1" "wh_brk w \<le> wh_brk w'" "wh_current_point w' = wh_current_point w"
    using w'(3) w1(3,5,8) by (simp_all add: wh_grows_def)
  have fired: "p \<in> set (filter (wh_active w1) (wh_slots w1 ?x)) \<longleftrightarrow> wh_live dead w p \<and>
       (\<exists>n. wh_heap w p = Some n \<and> wn_expire n = wh_time w + 1 \<and> wn_cancel n = 0)" for p
    using due_iff [OF w1(2), of p] wh_inv_node(3) [OF w1(2), of p ?x] w1(3,4,6) by (auto simp: wh_active_def)
  have old: "(wh_live dead w' p \<longleftrightarrow> wh_live dead w p \<and> wn_expire n \<noteq> wh_time w + 1) \<and>
       (wh_lost dead w' p \<longleftrightarrow> wh_lost dead w p) \<and>
       (wh_live dead w' p \<or> wh_lost dead w' p \<longrightarrow> wh_heap w' p = Some n)" if "p < wh_brk w" "wh_heap w p = Some n" for p n
  proof -
    have ne: "p \<notin> set (wh_slots w1 ?x)" if "wh_lost dead w' p"
      using that execute_live(2) [OF w1(2) w'(3)] \<open>p < wh_brk w\<close> w1(5) wh_inv_unique [OF w1(2)] exec_live
      by (metis wh_lost_def)
    show ?thesis
      using execute_live [OF w1(2) w'(3), of p] due_iff [OF w1(2), of p n] that w1(3-7) ne by auto
  qed
  have "\<not> wh_live dead w' p" if "p < wh_brk w" "\<not> wh_live dead w p" for p
    using execute_live(1) [OF w1(2) w'(3), of p] that w1(5,6) by auto
  then show ?thesis
    using upd w'(2) pend' t fired old wh_inv_distinct [OF w1(2)]
    by (intro exI [of _ "filter (wh_active w1) (wh_slots w1 ?x)"] exI [of _ w'] conjI) auto
qed

lemma unat_minus_tick: "(e :: u32) \<noteq> t \<Longrightarrow> unat (e - (t + 1)) = unat (e - t) - 1"
  using unat_minus_one [of "e - t"] by (simp add: diff_diff_eq)

text \<open>A run of ticks: a node runs at the tick of its expiry and at no other.\<close>

lemma updates_ok:
  assumes "wh_inv rng placed w" "wh_pending dead w"
    and "\<And>j n. j \<le> m \<Longrightarrow> wh_good_calls admits (wh_time w + of_nat j) (cb n)"
  shows "\<exists>logs w'. wh_updates (wh_update rng slot_of exec shift cb junk) m w = Some (logs, w') \<and> length logs = m \<and>
    wh_inv rng placed w' \<and> wh_pending dead w' \<and> wh_time w' = wh_time w + of_nat m \<and>
    wh_current_point w' = wh_current_point w \<and>
    (\<forall>p < wh_brk w. (\<forall>j < m. p \<in> set (logs ! j) \<longleftrightarrow> wh_live dead w p \<and>
       (\<exists>n. wh_heap w p = Some n \<and> wn_cancel n = 0 \<and> Suc j = unat (wn_expire n - wh_time w))) \<and>
       (wh_lost dead w p \<longrightarrow> wh_lost dead w' p))"
  using assms
proof (induction m arbitrary: w)
  case 0
  then show ?case by simp
next
  case (Suc m)
  note inv = Suc.prems(1) and pend = Suc.prems(2)
  obtain fired w1 where w1: "wh_update rng slot_of exec shift cb junk w = Some (fired, w1)"
      "wh_inv rng placed w1" "wh_pending dead w1" "wh_time w1 = wh_time w + 1" "wh_brk w \<le> wh_brk w1"
      "wh_current_point w1 = wh_current_point w"
      and fired: "\<And>p. p \<in> set fired \<longleftrightarrow> wh_live dead w p \<and>
         (\<exists>n. wh_heap w p = Some n \<and> wn_expire n = wh_time w + 1 \<and> wn_cancel n = 0)"
      and old: "\<And>p n. p < wh_brk w \<Longrightarrow> wh_heap w p = Some n \<Longrightarrow>
         (wh_live dead w1 p \<longleftrightarrow> wh_live dead w p \<and> wn_expire n \<noteq> wh_time w + 1) \<and>
         (wh_lost dead w1 p \<longleftrightarrow> wh_lost dead w p) \<and>
         (wh_live dead w1 p \<or> wh_lost dead w1 p \<longrightarrow> wh_heap w1 p = Some n)"
      and gone: "\<And>p. p < wh_brk w \<Longrightarrow> \<not> wh_live dead w p \<Longrightarrow> \<not> wh_live dead w1 p"
    using update_ok [OF inv pend, of cb junk] Suc.prems(3) [of 0] Suc.prems(3) [of 1] by auto
  have "wh_good_calls admits (wh_time w1 + of_nat j) (cb n)" if "j \<le> m" for j n
    using Suc.prems(3) [of "Suc j" n] that w1(4) by (simp add: add.assoc)
  then obtain logs w' where w': "wh_updates (wh_update rng slot_of exec shift cb junk) m w1 = Some (logs, w')"
      "length logs = m" "wh_inv rng placed w'" "wh_pending dead w'" "wh_time w' = wh_time w1 + of_nat m"
      "wh_current_point w' = wh_current_point w1"
      and IH: "\<And>p. p < wh_brk w1 \<Longrightarrow> (\<forall>j < m. p \<in> set (logs ! j) \<longleftrightarrow> wh_live dead w1 p \<and>
       (\<exists>n. wh_heap w1 p = Some n \<and> wn_cancel n = 0 \<and> Suc j = unat (wn_expire n - wh_time w1))) \<and>
       (wh_lost dead w1 p \<longrightarrow> wh_lost dead w' p)"
    using Suc.IH [OF w1(2,3)] by blast
  have at: "p \<in> set ((fired # logs) ! j) \<longleftrightarrow> wh_live dead w p \<and>
       (\<exists>n. wh_heap w p = Some n \<and> wn_cancel n = 0 \<and> Suc j = unat (wn_expire n - wh_time w))"
    if p: "p < wh_brk w" and j: "j < Suc m" for p j
  proof (cases "wh_live dead w p")
    case False
    then show ?thesis using fired gone [OF p] IH p w1(5) j by (cases j) auto
  next
    case True
    then obtain s where s: "p \<in> set (wh_slots w s)" "\<not> dead s" by (auto simp: wh_live_def)
    obtain n where n: "wh_heap w p = Some n" using wh_inv_node(3) [OF inv s(1)] by blast
    then have ne: "wn_expire n \<noteq> wh_time w" using pend s unfolding wh_pending_def by blast
    show ?thesis
    proof (cases j)
      case 0
      have "unat (wn_expire n - wh_time w) = 1 \<longleftrightarrow> wn_expire n = wh_time w + 1"
        by (simp add: word_unat_eq_iff [of "wn_expire n - wh_time w" 1, simplified, symmetric] diff_eq_eq add.commute)
      then show ?thesis using 0 fired True n by auto
    next
      case (Suc i)
      have "unat (wn_expire n - wh_time w) \<noteq> 0" using ne by (simp add: unat_eq_0)
      then show ?thesis
        using Suc IH [of p] old [OF p n] p w1(4,5) j True n unat_minus_tick [OF ne] by auto
    qed
  qed
  have "wh_lost dead w' p" if p: "p < wh_brk w" and lost: "wh_lost dead w p" for p
  proof -
    obtain s where s: "p \<in> set (wh_slots w s)" using lost by (auto simp: wh_lost_def)
    obtain n where "wh_heap w p = Some n" using wh_inv_node(3) [OF inv s] by blast
    then show ?thesis using old [OF p] lost IH [of p] p w1(5) by auto
  qed
  then show ?case
    using w1(1,4,6) w' at by (intro exI [of _ "fired # logs"] exI [of _ w']) (auto simp: add.assoc)
qed
end

section \<open>Reachable wheels\<close>

text \<open>
  What the interface does to a wheel that starts empty: additions with a positive and with another
  delay, deletions of nodes that exist, and catching up with the clock. The times at which callbacks
  run are such that \<open>admits\<close> holds for what they add.
\<close>

inductive wh_reach ::
  "('s \<Rightarrow> bool) \<Rightarrow> (u32 \<Rightarrow> u32 \<Rightarrow> 's) \<Rightarrow> ('s wheel \<Rightarrow> (ptr list \<times> 's wheel) option) \<Rightarrow> (u32 \<Rightarrow> u32 \<Rightarrow> bool) \<Rightarrow>
   callback \<Rightarrow> (ptr \<Rightarrow> u8) \<Rightarrow> 's wheel \<Rightarrow> bool"
  for rng slot_of update admits cb junk where
  reach_init: "wh_reach rng slot_of update admits cb junk (wh_create now)"
| reach_add: "wh_reach rng slot_of update admits cb junk w \<Longrightarrow> wh_good_calls admits (wh_time w) [(time, tid)] \<Longrightarrow>
    wh_add_timer rng slot_of cb junk time tid w = Some (p, fired, w') \<Longrightarrow> wh_reach rng slot_of update admits cb junk w'"
| reach_now: "wh_reach rng slot_of update admits cb junk w \<Longrightarrow> time \<le> 0 \<Longrightarrow>
    (\<And>n. wh_good_calls admits (wh_time w) (cb n)) \<Longrightarrow>
    wh_add_timer rng slot_of cb junk time tid w = Some (p, fired, w') \<Longrightarrow> wh_reach rng slot_of update admits cb junk w'"
| reach_del: "wh_reach rng slot_of update admits cb junk w \<Longrightarrow> wh_del_timer p w = Some w' \<Longrightarrow>
    wh_reach rng slot_of update admits cb junk w'"
| reach_tick: "wh_reach rng slot_of update admits cb junk w \<Longrightarrow>
    (\<And>j n. j \<le> unat (ucast (cp - wh_current_point w) :: u32) \<Longrightarrow> wh_good_calls admits (wh_time w + of_nat j) (cb n)) \<Longrightarrow>
    wh_catch_up update cp w = Some (logs, w') \<Longrightarrow> wh_reach rng slot_of update admits cb junk w'"

context wheel_rules
begin

lemma new_node_inv:
  assumes "wh_inv rng placed w" "wh_pending dead w" "wh_new_node junk time tid w = (p, w1)"
  shows "wh_inv rng placed w1" "wh_pending dead w1" "\<And>s. p \<notin> set (wh_slots w1 s)" "p < wh_brk w1" "p = wh_brk w"
    "wh_time w1 = wh_time w" "wh_slots w1 = wh_slots w" "wh_brk w1 = wh_brk w + 1"
    "wh_heap w1 p = Some \<lparr>wn_expire = of_int time + wh_time w, wn_cancel = junk p, wn_id = tid\<rparr>"
    "\<And>q. q \<noteq> p \<Longrightarrow> wh_heap w1 q = wh_heap w q"
proof -
  have w1: "p = wh_brk w" "w1 = w\<lparr>wh_brk := p + 1, wh_heap := (wh_heap w)(p \<mapsto> \<lparr>wn_expire = of_int time + wh_time w,
      wn_cancel = junk p, wn_id = tid\<rparr>)\<rparr>"
    using assms(3) by (auto simp: wh_new_node_def Let_def)
  have fresh: "p \<notin> set (wh_slots w s)" for s using wh_inv_node(2) [OF assms(1)] w1(1) by blast
  show "wh_inv rng placed w1"
    using assms(1) fresh unfolding w1(2) wh_inv_def by (auto simp: w1(1) less_Suc_eq)
  show "wh_pending dead w1"
    using assms(2) fresh unfolding w1(2) wh_pending_def by (auto split: if_splits)
  show "\<And>s. p \<notin> set (wh_slots w1 s)" using fresh by (simp add: w1(2))
qed (use assms(3) in \<open>auto simp: wh_new_node_def Let_def\<close>)

text \<open>An addition with a positive delay: where the new node is.\<close>

lemma add_ok:
  assumes inv: "wh_inv rng placed w" and pend: "wh_pending dead w" and good: "wh_good_calls admits (wh_time w) [(time, tid)]"
  shows "\<exists>w'. wh_add_timer rng slot_of cb junk time tid w = Some (wh_brk w, [], w') \<and>
    wh_inv rng placed w' \<and> wh_pending dead w' \<and> wh_time w' = wh_time w \<and> wh_brk w' = wh_brk w + 1 \<and>
    wh_current_point w' = wh_current_point w \<and>
    wh_heap w' (wh_brk w) = Some \<lparr>wn_expire = of_int time + wh_time w, wn_cancel = junk (wh_brk w), wn_id = tid\<rparr> \<and>
    (wh_live dead w' (wh_brk w) \<longleftrightarrow> \<not> dead (slot_of (wh_time w) (of_int time + wh_time w)))"
proof -
  let ?p = "wh_brk w" and ?e = "of_int time + wh_time w"
  obtain q w1 where nn: "wh_new_node junk time tid w = (q, w1)" by (cases "wh_new_node junk time tid w")
  note new = new_node_inv [OF inv pend nn]
  have t: "0 < time" "time < 2 ^ 31" "admits (wh_time w1) ?e" using good new(6) by (auto simp: wh_good_calls_def)
  define s0 where "s0 = slot_of (wh_time w1) ?e"
  define w2 where "w2 = w1\<lparr>wh_slots := (wh_slots w1)(s0 := wh_slots w1 s0 @ [?p])\<rparr>"
  have w2: "wh_add_node rng slot_of ?p w1 = Some w2" "wh_inv rng placed w2"
    using inv_link [OF new(1) new(9) new(4) new(3)] t(3) by (simp_all add: s0_def w2_def new(5))
  have add: "wh_add_timer rng slot_of cb junk time tid w = Some (?p, [], w2)"
    using nn new(5) w2(1) t(1) by (simp add: wh_add_timer_def wh_calls.simps [of _ _ _ _ "_ # _"] wh_calls.simps [of _ _ _ _ "[]"])
  have "wh_pending dead w2"
    using new(2,9) of_int_pos [OF t(1,2)] unfolding wh_pending_def
    by (auto simp: w2_def new(5,6) split: if_splits)
  moreover have "wh_live dead w2 ?p \<longleftrightarrow> \<not> dead s0"
    using new(3,5) by (auto simp: wh_live_def w2_def split: if_splits)
  moreover have "wh_current_point w1 = wh_current_point w" using nn by (auto simp: wh_new_node_def Let_def)
  ultimately show ?thesis
    using add w2(2) new by (intro exI [of _ w2]) (auto simp: w2_def s0_def)
qed
end

context wheel_rules
begin

lemma grows_pending:
  assumes "wh_grows F w w'" "wh_pending dead w" "wh_inv rng placed w"
  shows "wh_pending dead w'"
  unfolding wh_pending_def
proof (intro allI impI)
  fix s p n
  assume p: "p \<in> set (wh_slots w' s)" and d: "\<not> dead s" and n: "wh_heap w' p = Some n"
  have t: "wh_time w' = wh_time w" using assms(1) by (simp add: wh_grows_def)
  obtain ns where ns: "wh_slots w' s = wh_slots w s @ ns"
      "\<forall>q \<in> set ns. wh_brk w \<le> q \<and> q < wh_brk w' \<and> (\<exists>n. wh_heap w' q = Some n \<and> wn_expire n \<noteq> wh_time w)"
    using wh_grows_slots [OF assms(1), of s] by blast
  show "wn_expire n \<noteq> wh_time w'"
  proof (cases "p \<in> set ns")
    case True
    then show ?thesis using ns(2) n t by auto
  next
    case False
    then have old: "p \<in> set (wh_slots w s)" using p ns(1) by simp
    then have "wh_heap w p = Some n"
      using n wh_inv_node(2) [OF assms(3) old] assms(1) by (auto simp: wh_grows_def split: if_splits)
    then show ?thesis using assms(2) old d t unfolding wh_pending_def by metis
  qed
qed

text \<open>An addition with another delay runs the callback before it returns.\<close>

lemma add_now_ok:
  assumes inv: "wh_inv rng placed w" and pend: "wh_pending dead w" and time: "time \<le> 0"
    and cb: "\<And>n. wh_good_calls admits (wh_time w) (cb n)"
  shows "\<exists>w'. wh_add_timer rng slot_of cb junk time tid w = Some (0, [wh_brk w], w') \<and>
    wh_inv rng placed w' \<and> wh_pending dead w' \<and> wh_heap w' (wh_brk w) = None \<and>
    (\<forall>s. wh_brk w \<notin> set (wh_slots w' s))"
proof -
  obtain p w1 where nn: "wh_new_node junk time tid w = (p, w1)" by (cases "wh_new_node junk time tid w")
  note new = new_node_inv [OF inv pend nn]
  obtain n where n: "wh_heap w1 p = Some n" using new(9) by blast
  obtain w2 where w2: "wh_calls rng slot_of cb junk (cb n) w1 = Some ([], w2)" "wh_inv rng placed w2" "wh_grows {} w1 w2"
    using calls_ok [OF new(1), of "cb n" cb junk] cb new(6) by auto
  have off: "p \<notin> set (wh_slots w2 s)" for s using not_on_grows [OF w2(3) new(3,4)] .
  have p2: "p < wh_brk w2" using w2(3) new(4) by (auto simp: wh_grows_def)
  note fr = free_ok [OF w2(2) off p2]
  have "wh_pending dead (wh_free p w2)"
    by (rule grows_pending [OF fr(2) grows_pending [OF w2(3) new(2,1)] w2(2)])
  moreover have "wh_calls rng slot_of cb junk [(time, tid)] w = Some ([p], wh_free p w2)"
    using nn n w2(1) time
    by (simp add: wh_calls.simps [of _ _ _ _ "_ # _"] wh_calls.simps [of _ _ _ _ "[]"])
  ultimately show ?thesis
    using fr(1) off new(5) time by (intro exI [of _ "wh_free p w2"]) (auto simp: wh_add_timer_def wh_free_def)
qed

lemma del_ok:
  assumes "wh_inv rng placed w" "wh_pending dead w" "wh_del_timer p w = Some w'"
  shows "wh_inv rng placed w'" "wh_pending dead w'"
proof -
  obtain n where n: "wh_heap w p = Some n" "w' = w\<lparr>wh_heap := (wh_heap w)(p \<mapsto> n\<lparr>wn_cancel := 1\<rparr>)\<rparr>"
    using assms(3) by (auto simp: wh_del_timer_def bind_eq_Some_conv)
  have same: "wh_slots w' = wh_slots w" "wh_brk w' = wh_brk w" "wh_time w' = wh_time w" using n(2) by simp_all
  have k: "\<exists>k. wh_heap w' q = Some k \<and> wn_expire k = wn_expire m" if "wh_heap w q = Some m" for q m
    using that n by auto
  have "\<exists>k. wh_heap w' q = Some k \<and> placed (wh_time w) (wn_expire k) s" if "q \<in> set (wh_slots w s)" for q s
    using wh_inv_node(3) [OF assms(1) that] k by metis
  then show "wh_inv rng placed w'" using assms(1) unfolding wh_inv_def same by simp
  show "wh_pending dead w'" using assms(2) n(1) unfolding wh_pending_def same unfolding n(2) by (auto split: if_splits)
qed

text \<open>Catching up with a clock that is \<open>m\<close> ticks ahead.\<close>

lemma catch_up_ok:
  assumes inv: "wh_inv rng placed w" and pend: "wh_pending dead w"
    and cb: "\<And>j n. j \<le> m \<Longrightarrow> wh_good_calls admits (wh_time w + of_nat j) (cb n)"
    and cp: "m = unat (ucast (cp - wh_current_point w) :: u32)" and m: "m < 2 ^ 31"
  shows "\<exists>logs w'. wh_catch_up (wh_update rng slot_of exec shift cb junk) cp w = Some (logs, w') \<and> length logs = m \<and>
    wh_inv rng placed w' \<and> wh_pending dead w' \<and> wh_current_point w' = cp \<and> wh_time w' = wh_time w + of_nat m \<and>
    (\<forall>p < wh_brk w. (\<forall>j < m. p \<in> set (logs ! j) \<longleftrightarrow> wh_live dead w p \<and>
       (\<exists>n. wh_heap w p = Some n \<and> wn_cancel n = 0 \<and> Suc j = unat (wn_expire n - wh_time w))) \<and>
       (wh_lost dead w p \<longrightarrow> wh_lost dead w' p))"
proof -
  let ?w = "w\<lparr>wh_current_point := cp\<rparr>"
  have w: "wh_inv rng placed ?w" "wh_pending dead ?w" using inv pend by (simp_all add: wh_inv_def wh_pending_def)
  have live: "wh_live dead ?w = wh_live dead w" "wh_lost dead ?w = wh_lost dead w"
    by (simp_all add: wh_live_def wh_lost_def fun_eq_iff)
  have "(ucast (cp - wh_current_point w) :: u32) \<le> 2147483647" using cp m by (simp add: word_le_nat_alt)
  then have "wh_catch_up (wh_update rng slot_of exec shift cb junk) cp w =
      wh_updates (wh_update rng slot_of exec shift cb junk) m ?w"
    using cp by (auto simp: wh_catch_up_def Let_def not_less)
  then show ?thesis
    using updates_ok [OF w, of m cb junk] cb unfolding live by auto
qed

lemma catch_up_distance:
  "wh_catch_up update cp w = Some r \<Longrightarrow> unat (ucast (cp - wh_current_point w) :: u32) < 2 ^ 31"
  by (auto simp: wh_catch_up_def Let_def word_less_nat_alt split: if_splits)

lemma reach_inv:
  "wh_reach rng slot_of (wh_update rng slot_of exec shift cb junk) admits cb junk w \<Longrightarrow>
   wh_inv rng placed w \<and> wh_pending dead w"
proof (induction rule: wh_reach.induct)
  case (reach_init now)
  then show ?case by (simp add: wh_create_def wh_inv_def wh_pending_def)
next
  case (reach_add w time tid p fired w')
  then show ?case using add_ok [of w time tid cb junk] by auto
next
  case (reach_now w time tid p fired w')
  then show ?case using add_now_ok [of w time cb junk tid] by auto
next
  case (reach_del w p w')
  then show ?case using del_ok [of w p w'] by blast
next
  case (reach_tick w cp logs w')
  then show ?case using catch_up_ok [OF _ _ _ refl catch_up_distance, of w cp cb _ _ junk] by fastforce
qed

text \<open>A timer that is added runs at the tick of its delay, if it is not lost and not cancelled.\<close>

lemma add_runs:
  assumes "wh_inv rng placed w" "wh_pending dead w" "wh_good_calls admits (wh_time w) [(time, tid)]"
    and "\<And>j n. j \<le> m \<Longrightarrow> wh_good_calls admits (wh_time w + of_nat j) (cb n)"
  shows "\<exists>w1 logs w'. wh_add_timer rng slot_of cb junk time tid w = Some (wh_brk w, [], w1) \<and>
    wh_updates (wh_update rng slot_of exec shift cb junk) m w1 = Some (logs, w') \<and> length logs = m \<and>
    (\<forall>j < m. wh_brk w \<in> set (logs ! j) \<longleftrightarrow>
       Suc j = nat time \<and> junk (wh_brk w) = 0 \<and> \<not> dead (slot_of (wh_time w) (of_int time + wh_time w)))"
proof -
  let ?p = "wh_brk w"
  obtain w1 where w1: "wh_add_timer rng slot_of cb junk time tid w = Some (?p, [], w1)"
      "wh_inv rng placed w1" "wh_pending dead w1" "wh_time w1 = wh_time w" "?p < wh_brk w1"
      "wh_heap w1 ?p = Some \<lparr>wn_expire = of_int time + wh_time w, wn_cancel = junk ?p, wn_id = tid\<rparr>"
      "wh_live dead w1 ?p \<longleftrightarrow> \<not> dead (slot_of (wh_time w) (of_int time + wh_time w))"
    using add_ok [OF assms(1-3), of cb junk] by auto
  have "0 < time" "time < 2 ^ 31" using assms(3) by (auto simp: wh_good_calls_def)
  then have u: "unat (of_int time :: u32) = nat time"
    by (simp add: unat_eq_nat_uint uint_word_of_int_eq take_bit_int_eq_self)
  show ?thesis
    using updates_ok [OF w1(2,3), of m cb junk] assms(4) w1 u by auto
qed
end

section \<open>Clearing\<close>

lemma wh_free_all_ok:
  "distinct ps \<Longrightarrow> (\<And>p. p \<in> set ps \<Longrightarrow> wh_heap w p \<noteq> None) \<Longrightarrow>
   wh_free_all ps w = Some (w\<lparr>wh_heap := \<lambda>p. if p \<in> set ps then None else wh_heap w p\<rparr>)"
proof (induction ps arbitrary: w)
  case Nil
  then show ?case by simp
next
  case (Cons p ps)
  have "wh_free_all ps (wh_free p w) =
      Some ((wh_free p w)\<lparr>wh_heap := \<lambda>q. if q \<in> set ps then None else wh_heap (wh_free p w) q\<rparr>)"
    using Cons.prems by (intro Cons.IH) (auto simp: wh_free_def)
  moreover have "(\<lambda>q. if q \<in> set ps then None else wh_heap (wh_free p w) q) = (\<lambda>q. if q \<in> set (p # ps) then None else wh_heap w q)"
    by (auto simp: wh_free_def)
  ultimately show ?case
    using Cons.prems(2) [of p] by (auto simp: wh_free_def)
qed

text \<open>The lists that are cleared own their nodes: no node is on two of them or freed.\<close>

definition wh_owns :: "'s wheel \<Rightarrow> bool" where
  "wh_owns w \<longleftrightarrow> (\<forall>s. distinct (wh_slots w s)) \<and> (\<forall>s p. p \<in> set (wh_slots w s) \<longrightarrow> wh_heap w p \<noteq> None) \<and>
     (\<forall>s t p. p \<in> set (wh_slots w s) \<longrightarrow> p \<in> set (wh_slots w t) \<longrightarrow> s = t)"

lemma wh_inv_owns: "wh_inv rng placed w \<Longrightarrow> wh_owns w"
  unfolding wh_inv_def wh_owns_def by fastforce

lemma wh_clear_ok:
  "wh_owns w \<Longrightarrow> (\<And>s. s \<in> set ss \<Longrightarrow> rng s) \<Longrightarrow>
   \<exists>w'. wh_clear rng ss w = Some w' \<and> wh_slots w' = (\<lambda>s. if s \<in> set ss then [] else wh_slots w s) \<and>
     wh_heap w' = (\<lambda>p. if \<exists>s \<in> set ss. p \<in> set (wh_slots w s) then None else wh_heap w p)"
proof (induction ss arbitrary: w)
  case Nil
  then show ?case by simp
next
  case (Cons s ss)
  let ?w1 = "w\<lparr>wh_heap := \<lambda>p. if p \<in> set (wh_slots w s) then None else wh_heap w p,
               wh_slots := (wh_slots w)(s := [])\<rparr>"
  have "wh_free_all (wh_slots w s) w = Some (w\<lparr>wh_heap := \<lambda>p. if p \<in> set (wh_slots w s) then None else wh_heap w p\<rparr>)"
    using Cons.prems(1) by (intro wh_free_all_ok) (auto simp: wh_owns_def)
  then have step: "wh_clear rng (s # ss) w = wh_clear rng ss ?w1"
    using Cons.prems(2) by (simp add: wh_link_clear_def)
  have "wh_owns ?w1"
    using Cons.prems(1) unfolding wh_owns_def by (auto split: if_splits)
  then obtain w' where w': "wh_clear rng ss ?w1 = Some w'" "wh_slots w' = (\<lambda>t. if t \<in> set ss then [] else wh_slots ?w1 t)"
      "wh_heap w' = (\<lambda>p. if \<exists>t \<in> set ss. p \<in> set (wh_slots ?w1 t) then None else wh_heap ?w1 p)"
    using Cons.IH [of ?w1] Cons.prems(2) by auto
  have "wh_slots w' = (\<lambda>t. if t \<in> set (s # ss) then [] else wh_slots w t)"
    unfolding w'(2) by auto
  moreover have "wh_heap w' = (\<lambda>p. if \<exists>t \<in> set (s # ss). p \<in> set (wh_slots w t) then None else wh_heap w p)"
    unfolding w'(3) by (rule ext) auto
  ultimately show ?case using step w'(1) by (intro exI [of _ w'] conjI) (simp only:)+
qed

end
