(* ===== verification/TimeWheel.thy ===== *)
theory TimeWheel
  imports Wheel
begin

text \<open>
  The hierarchical timing wheel of \<^verbatim>\<open>timer/timewheel.c\<close>: 256 lists for the next 256 ticks and four
  levels of 64 lists for longer delays, all modulo \<open>2 ^ 32\<close>. The functions common with the other wheel
  are in the theory \<open>Wheel\<close>; here are the placement of a node, the step of the time, and the
  functions of the interface. \<open>junk\<close> stays a parameter: \<open>add_timer\<close> does not set \<open>cancel\<close>.
\<close>

section \<open>Model\<close>

definition TIME_NEAR_SHIFT :: nat where "TIME_NEAR_SHIFT = 8"
definition TIME_LEVEL_SHIFT :: nat where "TIME_LEVEL_SHIFT = 6"
definition TIME_NEAR_MASK :: u32 where "TIME_NEAR_MASK = 255"
definition TIME_LEVEL_MASK :: u32 where "TIME_LEVEL_MASK = 63"

datatype tw_slot = Near nat | Level nat nat

type_synonym tw_timer = "tw_slot wheel"

fun tw_in_range :: "tw_slot \<Rightarrow> bool" where
  "tw_in_range (Near i) \<longleftrightarrow> i < 256"
| "tw_in_range (Level l i) \<longleftrightarrow> l < 4 \<and> i < 64"

definition tw_slot_of :: "u32 \<Rightarrow> u32 \<Rightarrow> tw_slot" where
  "tw_slot_of current_time time =
     (let msec = time - current_time in
      if msec < 2 ^ TIME_NEAR_SHIFT then Near (unat (time AND TIME_NEAR_MASK))
      else if msec < 2 ^ (TIME_NEAR_SHIFT + TIME_LEVEL_SHIFT)
        then Level 0 (unat (drop_bit TIME_NEAR_SHIFT time AND TIME_LEVEL_MASK))
      else if msec < 2 ^ (TIME_NEAR_SHIFT + 2 * TIME_LEVEL_SHIFT)
        then Level 1 (unat (drop_bit (TIME_NEAR_SHIFT + TIME_LEVEL_SHIFT) time AND TIME_LEVEL_MASK))
      else if msec < 2 ^ (TIME_NEAR_SHIFT + 3 * TIME_LEVEL_SHIFT)
        then Level 2 (unat (drop_bit (TIME_NEAR_SHIFT + 2 * TIME_LEVEL_SHIFT) time AND TIME_LEVEL_MASK))
      else Level 3 (unat (drop_bit (TIME_NEAR_SHIFT + 3 * TIME_LEVEL_SHIFT) time AND TIME_LEVEL_MASK)))"

definition tw_add_node :: "ptr \<Rightarrow> tw_timer \<Rightarrow> tw_timer option" where
  "tw_add_node = wh_add_node tw_in_range tw_slot_of"

definition tw_add_timer :: "callback \<Rightarrow> (ptr \<Rightarrow> u8) \<Rightarrow> int \<Rightarrow> int \<Rightarrow> tw_timer \<Rightarrow> (ptr \<times> ptr list \<times> tw_timer) option" where
  "tw_add_timer = wh_add_timer tw_in_range tw_slot_of"

definition tw_move_list :: "nat \<Rightarrow> nat \<Rightarrow> tw_timer \<Rightarrow> tw_timer option" where
  "tw_move_list level idx = wh_move_list tw_in_range tw_slot_of (Level level idx)"

text \<open>The loop of \<open>timer_shift\<close>: \<open>msk\<close>, \<open>time\<close> and \<open>i\<close> are its variables.\<close>

partial_function (option) tw_shift_loop :: "u32 \<Rightarrow> u32 \<Rightarrow> u32 \<Rightarrow> nat \<Rightarrow> tw_timer \<Rightarrow> tw_timer option" where
  "tw_shift_loop ct msk time i w =
     (if ct AND (msk - 1) = 0 then
        (let idx = unat (time AND TIME_LEVEL_MASK) in
         if idx \<noteq> 0 then tw_move_list i idx w
         else tw_shift_loop ct (push_bit TIME_LEVEL_SHIFT msk) (drop_bit TIME_LEVEL_SHIFT time) (i + 1) w)
      else Some w)"

declare tw_shift_loop.simps [code]

definition tw_timer_shift :: "tw_timer \<Rightarrow> tw_timer option" where
  "tw_timer_shift w =
     (let ct = wh_time w + 1; w = w\<lparr>wh_time := ct\<rparr> in
      if ct = 0 then tw_move_list 3 0 w
      else tw_shift_loop ct (2 ^ TIME_NEAR_SHIFT) (drop_bit TIME_NEAR_SHIFT ct) 0 w)"

definition tw_exec_slot :: "u32 \<Rightarrow> tw_slot" where
  "tw_exec_slot time = Near (unat (time AND TIME_NEAR_MASK))"

definition tw_timer_execute :: "callback \<Rightarrow> (ptr \<Rightarrow> u8) \<Rightarrow> tw_timer \<Rightarrow> (ptr list \<times> tw_timer) option" where
  "tw_timer_execute = wh_execute tw_in_range tw_slot_of tw_exec_slot"

definition tw_timer_update :: "callback \<Rightarrow> (ptr \<Rightarrow> u8) \<Rightarrow> tw_timer \<Rightarrow> (ptr list \<times> tw_timer) option" where
  "tw_timer_update = wh_update tw_in_range tw_slot_of tw_exec_slot tw_timer_shift"

definition tw_init_timer :: "u64 \<Rightarrow> tw_timer" where
  "tw_init_timer now = wh_create now"

text \<open>\<open>expire_timer\<close> at the time \<open>cp\<close> that \<open>gettime\<close> returns.\<close>

definition tw_expire_timer :: "callback \<Rightarrow> (ptr \<Rightarrow> u8) \<Rightarrow> u64 \<Rightarrow> tw_timer \<Rightarrow> (ptr list list \<times> tw_timer) option" where
  "tw_expire_timer cb junk cp = wh_catch_up (tw_timer_update cb junk) cp"

text \<open>\<open>gettime\<close>: milliseconds of a \<open>timespec\<close>.\<close>

definition tw_gettime :: "u64 \<Rightarrow> int \<Rightarrow> u64" where
  "tw_gettime tv_sec tv_nsec = tv_sec * 1000 + of_int (tv_nsec div 1000000)"

definition tw_all_slots :: "tw_slot list" where
  "tw_all_slots = map Near [0..<256] @ concat (map (\<lambda>l. map (Level l) [0..<64]) [0..<4])"

definition tw_clear_timer :: "tw_timer \<Rightarrow> tw_timer option" where
  "tw_clear_timer = wh_clear tw_in_range tw_all_slots"

section \<open>Where a node is\<close>

text \<open>The lists that the time never reaches: entry 0 of the three lower levels.\<close>

definition tw_dead :: "tw_slot \<Rightarrow> bool" where
  "tw_dead s \<longleftrightarrow> s = Level 0 0 \<or> s = Level 1 0 \<or> s = Level 2 0"

text \<open>The length of an entry of a level.\<close>

definition tw_len :: "nat \<Rightarrow> nat" where
  "tw_len l = 2 ^ (8 + 6 * l)"

fun tw_placed :: "u32 \<Rightarrow> u32 \<Rightarrow> tw_slot \<Rightarrow> bool" where
  "tw_placed c e (Near i) \<longleftrightarrow> i = unat e mod 256 \<and> unat (e - c) < 256"
| "tw_placed c e (Level l i) \<longleftrightarrow> l < 4 \<and> i = unat e div tw_len l mod 64 \<and>
     (tw_dead (Level l i) \<or>
      unat e mod tw_len l < unat (e - c) \<and> unat (e - c) - unat e mod tw_len l < 64 * tw_len l)"

definition tw_hit :: "u32 \<Rightarrow> tw_slot option" where
  "tw_hit ct = (let c = unat ct in
     if c = 0 then Some (Level 3 0)
     else if c mod 256 \<noteq> 0 then None
     else if c div tw_len 0 mod 64 \<noteq> 0 then Some (Level 0 (c div tw_len 0 mod 64))
     else if c div tw_len 1 mod 64 \<noteq> 0 then Some (Level 1 (c div tw_len 1 mod 64))
     else if c div tw_len 2 mod 64 \<noteq> 0 then Some (Level 2 (c div tw_len 2 mod 64))
     else Some (Level 3 (c div tw_len 3 mod 64)))"

lemma tw_len_simps [simp]:
  "tw_len 0 = 256" "tw_len 1 = 16384" "tw_len (Suc 0) = 16384" "tw_len 2 = 1048576" "tw_len 3 = 67108864"
  by (simp_all add: tw_len_def)

lemma tw_level_cases: "l < 4 \<Longrightarrow> l = 0 \<or> l = 1 \<or> l = 2 \<or> l = (3::nat)"
  by linarith

lemma tw_len_dvd: "l < 4 \<Longrightarrow> 64 * tw_len l dvd 4294967296"
  by (drule tw_level_cases) auto

lemma tw_len_pos [simp]: "0 < tw_len l"
  by (simp add: tw_len_def)

lemma unat_drop_and_63: "unat (drop_bit k (w :: u32) AND 63) = unat w div 2 ^ k mod 64"
  using and_mask_word [of "drop_bit k w" 6] by (simp add: unat_drop_bit_eq drop_bit_eq_div [of k "unat w"])

lemma unat_and_255: "unat ((w :: u32) AND 255) = unat w mod 256"
  using and_mask_word [of w 8] by simp

lemma tw_slot_of_nat:
  "tw_slot_of c e =
     (let d = unat (e - c) in
      if d < 256 then Near (unat e mod 256)
      else if d < 64 * tw_len 0 then Level 0 (unat e div tw_len 0 mod 64)
      else if d < 64 * tw_len 1 then Level 1 (unat e div tw_len 1 mod 64)
      else if d < 64 * tw_len 2 then Level 2 (unat e div tw_len 2 mod 64)
      else Level 3 (unat e div tw_len 3 mod 64))"
  by (simp add: tw_slot_of_def TIME_NEAR_SHIFT_def TIME_LEVEL_SHIFT_def TIME_NEAR_MASK_def TIME_LEVEL_MASK_def
      unat_drop_and_63 unat_and_255 word_less_nat_alt Let_def)

text \<open>Arithmetic of the wheel: \<open>c\<close> the time, \<open>d\<close> the remaining delay, \<open>e\<close> the expiry.\<close>

lemma unat_expire: "unat (e :: u32) = (unat c + unat (e - c)) mod 4294967296"
  using unat_word_ariths(1) [of c "e - c"] by simp

lemma mod_of_dvd: "m dvd 4294967296 \<Longrightarrow> unat (e :: u32) mod m = (unat c + unat (e - c)) mod m"
  using unat_expire [of e c] by (simp add: mod_mod_cancel)

lemma unat_tick: "e \<noteq> c \<Longrightarrow> unat (e - (c + 1) :: u32) = unat (e - c) - 1"
  using unat_minus_one [of "e - c"] by (simp add: diff_diff_eq)

lemma trigger_time:
  assumes "unat (e - c :: u32) = unat e mod M + 1"
  shows "unat (c + 1) = M * (unat e div M)"
proof -
  have "c + 1 = e - of_nat (unat e mod M)"
  proof -
    have "e - c = of_nat (unat e mod M + 1)"
      using assms by (metis of_nat_unat ucast_id)
    then show ?thesis by (simp add: algebra_simps)
  qed
  then have "unat (c + 1) = unat e - unat e mod M"
  proof -
    assume *: "c + 1 = e - of_nat (unat e mod M)"
    have lt: "unat e mod M < 4294967296" using unat_less_2p32 [of e] mod_less_eq_dividend [of "unat e" M] by linarith
    then have "of_nat (unat e mod M) \<le> e"
      by (simp add: word_le_nat_alt unat_of_nat_u32)
    then show ?thesis using * lt by (simp add: unat_sub unat_of_nat_u32)
  qed
  then show ?thesis by (simp add: minus_mod_eq_mult_div)
qed

lemma distribute_time:
  assumes dvd: "64 * M dvd 4294967296" and pos: "0 < M"
    and ct: "unat (c + 1 :: u32) mod M = 0" "unat (c + 1) div M mod 64 = unat e div M mod 64"
    and d: "unat e mod M < unat (e - c)" "unat (e - c) - unat e mod M < 64 * M" and ne: "e \<noteq> c"
  shows "unat (e - (c + 1)) = unat e mod M"
proof -
  let ?d = "unat (e - (c + 1))" and ?r = "unat e mod M" and ?b = "M * (unat e div M mod 64)"
  have "unat e mod (64 * M) = (unat (c + 1) + ?d) mod (64 * M)"
    by (rule mod_of_dvd [OF dvd])
  moreover have "unat e mod (64 * M) = ?b + ?r"
    using mod_mult2_eq [of "unat e" M 64] by (simp add: mult.commute add.commute)
  moreover have "unat (c + 1) mod (64 * M) = ?b"
    using mod_mult2_eq [of "unat (c + 1)" M 64] ct by (simp add: mult.commute)
  ultimately have "(?b + ?d) mod (64 * M) = ?b + ?r"
    by (metis mod_add_left_eq)
  moreover have "?b + ?r = (?b + ?r) mod (64 * M)"
    using \<open>unat e mod (64 * M) = ?b + ?r\<close> by (metis mod_mod_trivial)
  ultimately have eq: "(?b + ?d) mod (64 * M) = (?b + ?r) mod (64 * M)" by simp
  have "?r \<le> ?d" "?d - ?r < 64 * M"
    using d unat_tick [OF ne] by auto
  then show ?thesis
    using eq mod_eq_dvd_iff_nat [of "?b + ?r" "?b + ?d" "64 * M"] nat_dvd_not_less [of "?d - ?r" "64 * M"]
    by (cases "?r < ?d") auto
qed

section \<open>The rules of the wheel\<close>

lemma two_digits: "n = M * 64 \<Longrightarrow> c mod n = M * (c div M mod 64) + c mod (M :: nat)"
  by (simp only: mod_mult2_eq)

lemma digits_zero: "n = M * 64 \<Longrightarrow> 0 < M \<Longrightarrow> c mod n = 0 \<longleftrightarrow> c div M mod 64 = 0 \<and> c mod (M :: nat) = 0"
  by (simp only: two_digits) simp

lemma ex_less_4: "(\<exists>l. l < 4 \<and> Q l) \<longleftrightarrow> Q 0 \<or> Q 1 \<or> Q 2 \<or> Q (3 :: nat)"
proof
  assume "\<exists>l. l < 4 \<and> Q l"
  then obtain l where "l < 4" "Q l" by blast
  then show "Q 0 \<or> Q 1 \<or> Q 2 \<or> Q 3" using tw_level_cases [of l] by auto
next
  have "0 < (4::nat)" "1 < (4::nat)" "2 < (4::nat)" "3 < (4::nat)" by simp_all
  then show "Q 0 \<or> Q 1 \<or> Q 2 \<or> Q 3 \<Longrightarrow> \<exists>l. l < 4 \<and> Q l" by blast
qed

lemma level_sel:
  "(\<exists>l i. s = Level l i \<and> l < 4 \<and> Z l \<and> i = f l \<and> (l = 3 \<or> i \<noteq> 0)) \<longleftrightarrow>
   (Z 0 \<and> f 0 \<noteq> 0 \<and> s = Level 0 (f 0)) \<or> (Z 1 \<and> f 1 \<noteq> 0 \<and> s = Level 1 (f 1)) \<or>
   (Z 2 \<and> f 2 \<noteq> 0 \<and> s = Level 2 (f 2)) \<or> (Z 3 \<and> s = Level 3 (f 3))"
proof -
  have "(\<exists>l i. s = Level l i \<and> l < 4 \<and> Z l \<and> i = f l \<and> (l = 3 \<or> i \<noteq> 0)) \<longleftrightarrow>
      (\<exists>l. l < 4 \<and> (Z l \<and> (l = 3 \<or> f l \<noteq> 0) \<and> s = Level l (f l)))" by blast
  then show ?thesis unfolding ex_less_4 by simp
qed

lemma hit_if:
  "((if b0 then Some x0 else if b1 then None else if b2 then Some x2 else if b3 then Some x3
     else if b4 then Some x4 else Some x5) = Some s) \<longleftrightarrow>
   (if b0 then s = x0 else if b1 then False else if b2 then s = x2 else if b3 then s = x3
     else if b4 then s = x4 else s = x5)"
  by (simp add: eq_commute)

lemma hit_digits:
  "(if d3 = 0 \<and> d2 = 0 \<and> d1 = 0 \<and> d0 = 0 \<and> a = (0::nat) then s = Level 3 0
    else if a \<noteq> 0 then False
    else if d0 \<noteq> 0 then s = Level 0 d0
    else if d1 \<noteq> 0 then s = Level 1 d1
    else if d2 \<noteq> 0 then s = Level 2 d2
    else s = Level 3 d3) \<longleftrightarrow>
   (a = 0 \<and> d0 \<noteq> 0 \<and> s = Level 0 d0) \<or> ((d0 = 0 \<and> a = 0) \<and> d1 \<noteq> 0 \<and> s = Level 1 d1) \<or>
   ((d1 = 0 \<and> d0 = 0 \<and> a = 0) \<and> d2 \<noteq> 0 \<and> s = Level 2 d2) \<or>
   ((d2 = 0 \<and> d1 = 0 \<and> d0 = 0 \<and> a = 0) \<and> s = Level 3 d3)"
  by auto

lemma tw_hit_iff:
  "tw_hit ct = Some s \<longleftrightarrow> (\<exists>l i. s = Level l i \<and> l < 4 \<and> unat ct mod tw_len l = 0 \<and>
     i = unat ct div tw_len l mod 64 \<and> (l = 3 \<or> i \<noteq> 0))" (is "_ \<longleftrightarrow> ?R")
proof -
  let ?c = "unat ct"
  have c: "?c mod 4294967296 = ?c" using unat_less_2p32 [of ct] by simp
  have R: "?R \<longleftrightarrow> (?c mod 256 = 0 \<and> ?c div 256 mod 64 \<noteq> 0 \<and> s = Level 0 (?c div 256 mod 64)) \<or>
     (?c mod 16384 = 0 \<and> ?c div 16384 mod 64 \<noteq> 0 \<and> s = Level 1 (?c div 16384 mod 64)) \<or>
     (?c mod 1048576 = 0 \<and> ?c div 1048576 mod 64 \<noteq> 0 \<and> s = Level 2 (?c div 1048576 mod 64)) \<or>
     (?c mod 67108864 = 0 \<and> s = Level 3 (?c div 67108864 mod 64))"
    by (rule level_sel [of s "\<lambda>l. ?c mod tw_len l = 0" "\<lambda>l. ?c div tw_len l mod 64", unfolded tw_len_simps])
  have m: "?c mod 16384 = 0 \<longleftrightarrow> ?c div 256 mod 64 = 0 \<and> ?c mod 256 = 0"
    "?c mod 1048576 = 0 \<longleftrightarrow> ?c div 16384 mod 64 = 0 \<and> ?c mod 16384 = 0"
    "?c mod 67108864 = 0 \<longleftrightarrow> ?c div 1048576 mod 64 = 0 \<and> ?c mod 1048576 = 0"
    by (rule digits_zero, simp, simp)+
  have "?c mod 4294967296 = 0 \<longleftrightarrow> ?c div 67108864 mod 64 = 0 \<and> ?c mod 67108864 = 0"
    by (rule digits_zero, simp, simp)
  then have m0: "?c = 0 \<longleftrightarrow> ?c div 67108864 mod 64 = 0 \<and> ?c mod 67108864 = 0"
    by (simp only: c)
  have H: "tw_hit ct = Some s \<longleftrightarrow>
     (if ?c = 0 then s = Level 3 0
     else if ?c mod 256 \<noteq> 0 then False
     else if ?c div 256 mod 64 \<noteq> 0 then s = Level 0 (?c div 256 mod 64)
     else if ?c div 16384 mod 64 \<noteq> 0 then s = Level 1 (?c div 16384 mod 64)
     else if ?c div 1048576 mod 64 \<noteq> 0 then s = Level 2 (?c div 1048576 mod 64)
     else s = Level 3 (?c div 67108864 mod 64))"
    unfolding tw_hit_def Let_def tw_len_simps by (rule hit_if)
  show ?thesis
    unfolding R H m0 m by (rule hit_digits)
qed

lemma tw_shift_loop_step:
  assumes "M = 2 ^ k" "k' = k + 6" "i' = i + 1"
  shows "tw_shift_loop ct (2 ^ k) (drop_bit k ct) i w =
     (if unat ct mod M = 0 then
        (if unat ct div M mod 64 \<noteq> 0 then tw_move_list i (unat ct div M mod 64) w
         else tw_shift_loop ct (2 ^ k') (drop_bit k' ct) i' w)
      else Some w)"
proof -
  have "ct AND (2 ^ k - 1) = 0 \<longleftrightarrow> unat ct mod 2 ^ k = 0"
    using and_mask_word [of ct k] by (metis unat_eq_0)
  moreover have "push_bit 6 (2 ^ k :: u32) = 2 ^ (k + 6)"
    by (simp add: push_bit_eq_mult power_add)
  moreover have "drop_bit 6 (drop_bit k ct) = drop_bit (k + 6) ct"
    by (simp add: add.commute)
  ultimately show ?thesis
    by (subst tw_shift_loop.simps)
      (simp only: TIME_LEVEL_MASK_def TIME_LEVEL_SHIFT_def unat_drop_and_63 Let_def assms)
qed

lemma shift_steps:
  "tw_shift_loop ct (2 ^ 8) (drop_bit 8 ct) 0 w =
     (if unat ct mod 256 = 0 then
        (if unat ct div 256 mod 64 \<noteq> 0 then tw_move_list 0 (unat ct div 256 mod 64) w
         else tw_shift_loop ct (2 ^ 14) (drop_bit 14 ct) 1 w) else Some w)"
  "tw_shift_loop ct (2 ^ 14) (drop_bit 14 ct) 1 w =
     (if unat ct mod 16384 = 0 then
        (if unat ct div 16384 mod 64 \<noteq> 0 then tw_move_list 1 (unat ct div 16384 mod 64) w
         else tw_shift_loop ct (2 ^ 20) (drop_bit 20 ct) 2 w) else Some w)"
  "tw_shift_loop ct (2 ^ 20) (drop_bit 20 ct) 2 w =
     (if unat ct mod 1048576 = 0 then
        (if unat ct div 1048576 mod 64 \<noteq> 0 then tw_move_list 2 (unat ct div 1048576 mod 64) w
         else tw_shift_loop ct (2 ^ 26) (drop_bit 26 ct) 3 w) else Some w)"
  "tw_shift_loop ct (2 ^ 26) (drop_bit 26 ct) 3 w =
     (if unat ct mod 67108864 = 0 then
        (if unat ct div 67108864 mod 64 \<noteq> 0 then tw_move_list 3 (unat ct div 67108864 mod 64) w
         else tw_shift_loop ct (2 ^ 32) (drop_bit 32 ct) 4 w) else Some w)"
  by (rule tw_shift_loop_step, simp, simp, simp)+

lemma tw_hit_None: "tw_hit ct = None \<longleftrightarrow> unat ct mod 256 \<noteq> 0"
  by (simp add: tw_hit_def Let_def)

lemma tw_shift_eq:
  "tw_timer_shift w = (case tw_hit (wh_time w + 1) of
      None \<Rightarrow> Some (w\<lparr>wh_time := wh_time w + 1\<rparr>)
    | Some h \<Rightarrow> wh_move_list tw_in_range tw_slot_of h (w\<lparr>wh_time := wh_time w + 1\<rparr>))"
proof -
  let ?ct = "wh_time w + 1" and ?w = "w\<lparr>wh_time := wh_time w + 1\<rparr>"
  let ?c = "unat ?ct"
  have c: "?c mod 4294967296 = ?c" using unat_less_2p32 [of ?ct] by simp
  have top: "?c div 67108864 mod 64 \<noteq> 0" if "?ct \<noteq> 0" "?c mod 67108864 = 0"
    using digits_zero [of 4294967296 67108864 ?c] that c by (simp add: unat_eq_0)
  have m: "?c mod 16384 = 0 \<longleftrightarrow> ?c div 256 mod 64 = 0 \<and> ?c mod 256 = 0"
    "?c mod 1048576 = 0 \<longleftrightarrow> ?c div 16384 mod 64 = 0 \<and> ?c mod 16384 = 0"
    "?c mod 67108864 = 0 \<longleftrightarrow> ?c div 1048576 mod 64 = 0 \<and> ?c mod 1048576 = 0"
    by (rule digits_zero, simp, simp)+
  have s: "tw_shift_loop ?ct (2 ^ 8) (drop_bit 8 ?ct) 0 ?w =
    (if ?c mod 256 = 0 then
       if ?c div 256 mod 64 \<noteq> 0 then tw_move_list 0 (?c div 256 mod 64) ?w
       else if ?c div 16384 mod 64 \<noteq> 0 then tw_move_list 1 (?c div 16384 mod 64) ?w
       else if ?c div 1048576 mod 64 \<noteq> 0 then tw_move_list 2 (?c div 1048576 mod 64) ?w
       else tw_move_list 3 (?c div 67108864 mod 64) ?w
     else Some ?w)" if "?ct \<noteq> 0"
    unfolding shift_steps [of ?ct ?w] using top [OF that] m by auto
  show ?thesis
  proof (cases "?ct = 0")
    case True
    then show ?thesis by (simp add: tw_timer_shift_def tw_hit_def tw_move_list_def)
  next
    case False
    then have "?c \<noteq> 0" by (simp add: unat_eq_0)
    then show ?thesis
      using s [OF False] False unfolding tw_timer_shift_def Let_def TIME_NEAR_SHIFT_def tw_hit_def tw_len_simps
      by (simp add: tw_move_list_def)
  qed
qed

lemma tw_exec_slot_nat: "tw_exec_slot c = Near (unat c mod 256)"
  by (simp add: tw_exec_slot_def TIME_NEAR_MASK_def unat_and_255)

lemma tw_slot_rng: "tw_in_range (tw_slot_of c e)"
  by (simp add: tw_slot_of_nat Let_def)

lemma level_window: "M \<le> d \<Longrightarrow> d < N \<Longrightarrow> 0 < M \<Longrightarrow> e mod M < d \<and> d - e mod M < (N :: nat)"
  using mod_less_divisor [of M e] by linarith

lemma tw_slot_placed: "tw_placed c e (tw_slot_of c e)"
  using unat_less_2p32 [of "e - c"] level_window [of 256 "unat (e - c)" 16384 "unat e"]
    level_window [of 16384 "unat (e - c)" 1048576 "unat e"] level_window [of 1048576 "unat (e - c)" 67108864 "unat e"]
    level_window [of 67108864 "unat (e - c)" 4294967296 "unat e"]
  by (simp add: tw_slot_of_nat Let_def)

lemma tw_placed_exec:
  assumes "tw_placed c e (tw_exec_slot c)"
  shows "e = c"
proof -
  have "(unat c + unat (e - c)) mod 256 = (unat c + 0) mod 256" "unat (e - c) < 256"
    using assms mod_of_dvd [of 256 e c] by (simp_all add: tw_exec_slot_nat)
  then have "unat (e - c) = 0" using mod_window_inj [of "unat (e - c)" 256 0 "unat c"] by simp
  then show ?thesis by (simp add: unat_eq_0)
qed

lemma tw_due_exec: "tw_placed c c s \<Longrightarrow> \<not> tw_dead s \<Longrightarrow> s = tw_exec_slot c"
  by (cases s) (auto simp: tw_exec_slot_nat)

lemma tw_dead_Level: "tw_dead (Level l i) \<longleftrightarrow> l < 3 \<and> i = 0"
  by (auto simp: tw_dead_def less_Suc_eq numeral_3_eq_3)

lemma tw_dead_Near: "\<not> tw_dead (Near i)"
  by (simp add: tw_dead_def)

lemma tw_placed_tick:
  assumes pl: "tw_placed c e s" and ne: "tw_dead s \<or> e \<noteq> c" and nh: "tw_hit (c + 1) \<noteq> Some s"
  shows "tw_placed (c + 1) e s"
proof (cases s)
  case (Near i)
  then have "e \<noteq> c" using ne by (simp add: tw_dead_def)
  then show ?thesis using pl Near unat_tick [of e c] by auto
next
  case (Level l i)
  show ?thesis
  proof (cases "tw_dead s")
    case True
    then show ?thesis using pl Level by simp
  next
    case False
    let ?M = "tw_len l"
    have l: "l < 4" and i: "i = unat e div ?M mod 64" and d: "unat e mod ?M < unat (e - c)"
        "unat (e - c) - unat e mod ?M < 64 * ?M" and ne': "e \<noteq> c"
      using pl Level False ne by auto
    have "unat (e - c) \<noteq> unat e mod ?M + 1"
    proof
      assume "unat (e - c) = unat e mod ?M + 1"
      then have "unat (c + 1) = ?M * (unat e div ?M)" by (rule trigger_time)
      then have "unat (c + 1) mod ?M = 0" "unat (c + 1) div ?M = unat e div ?M"
        by simp_all
      then show False
        using nh l i False Level by (auto simp: tw_hit_iff tw_dead_Level)
    qed
    then have "unat e mod ?M < unat (e - (c + 1))" "unat (e - (c + 1)) - unat e mod ?M < 64 * ?M"
      using d unat_tick [OF ne'] by linarith+
    then show ?thesis
      using l i Level by simp
  qed
qed

text \<open>What \<open>move_list\<close> distributes lands on a finer level, never on its entry 0.\<close>

lemma fine_digit:
  assumes "M' * 64 dvd M" "0 < M'" "unat (ct :: u32) mod M = 0" "M dvd 4294967296"
    "unat (e - ct) = unat e mod M" "M' \<le> unat e mod M" "unat e mod M < M' * 64"
  shows "unat e div M' mod 64 \<noteq> 0"
proof -
  have "unat e mod (M' * 64) = unat e mod M mod (M' * 64)"
    using assms(1) by (simp add: mod_mod_cancel)
  then have "unat e mod (M' * 64) = unat e mod M" using assms(7) by simp
  then have "M' * (unat e div M' mod 64) + unat e mod M' = unat e mod M"
    using two_digits [of "M' * 64" M' "unat e"] by (simp only:)
  then have "unat e mod M' = unat e mod M" if "unat e div M' mod 64 = 0"
    using that by (simp only: mult_0_right add_0)
  then show ?thesis using assms(2,6) mod_less_divisor [of M' "unat e"] by linarith
qed

lemma tw_placed_hit:
  assumes h: "tw_hit (c + 1) = Some s" and pl: "tw_placed c e s" and ne: "e \<noteq> c"
  shows "\<not> tw_dead (tw_slot_of (c + 1) e)"
proof -
  obtain l i where s: "s = Level l i" and l: "l < 4" and ct: "unat (c + 1) mod tw_len l = 0"
      "i = unat (c + 1) div tw_len l mod 64" "l = 3 \<or> i \<noteq> 0"
    using h unfolding tw_hit_iff by (elim exE conjE) (rule that)
  let ?M = "tw_len l" and ?d = "unat (e - (c + 1))"
  have "i = unat e div ?M mod 64" "unat e mod ?M < unat (e - c)" "unat (e - c) - unat e mod ?M < 64 * ?M"
    using pl ct(3) l unfolding s by (auto simp: tw_dead_Level)
  then have "unat (e - (c + 1)) = unat e mod ?M"
    using ct(2) by (intro distribute_time [OF tw_len_dvd [OF l] tw_len_pos ct(1) _ _ _ ne]) simp_all
  moreover have "?M dvd 4294967296"
    using tw_len_dvd [OF l] by (rule dvd_mult_right)
  ultimately have digit: "unat e div M' mod 64 \<noteq> 0"
    if "M' * 64 dvd ?M" "0 < M'" "M' \<le> ?d" "?d < M' * 64" for M'
    using fine_digit [of M' ?M "c + 1" e] that ct(1) by simp
  have lt: "?d < ?M" using \<open>?d = unat e mod ?M\<close> by simp
  show ?thesis
    using digit [of 256] digit [of 16384] digit [of 1048576] lt tw_level_cases [OF l]
    by (auto simp: tw_slot_of_nat Let_def tw_dead_Level tw_dead_Near)
qed

lemma tw_hit_rng: "tw_hit c = Some s \<Longrightarrow> tw_in_range s"
  by (auto simp: tw_hit_iff)

lemma tw_hit_live: "tw_hit c = Some s \<Longrightarrow> \<not> tw_dead s"
  by (auto simp: tw_hit_iff tw_dead_Level)

interpretation tww: wheel_rules tw_in_range tw_slot_of tw_exec_slot tw_hit tw_timer_shift tw_dead tw_placed "\<lambda>_ _. True"
proof
  fix c
  show "tw_in_range (tw_exec_slot c)" "\<not> tw_dead (tw_exec_slot c)"
    by (simp_all add: tw_exec_slot_nat tw_dead_def)
qed (use tw_slot_rng tw_slot_placed tw_placed_exec tw_due_exec tw_shift_eq tw_hit_rng tw_hit_live tw_placed_tick
  tw_placed_hit in blast)+

section \<open>Properties\<close>

text \<open>What callbacks may add; the wheel puts no condition on the time.\<close>

abbreviation tw_good_calls :: "(int \<times> int) list \<Rightarrow> bool" where
  "tw_good_calls \<equiv> wh_good_calls (\<lambda>_ _. True) 0"

definition tw_reachable :: "callback \<Rightarrow> (ptr \<Rightarrow> u8) \<Rightarrow> tw_timer \<Rightarrow> bool" where
  "tw_reachable cb junk = wh_reach tw_in_range tw_slot_of (tw_timer_update cb junk) (\<lambda>_ _. True) cb junk"

lemma tw_good_calls_any: "wh_good_calls (\<lambda>_ _. True) t cs = tw_good_calls cs"
  by (simp add: wh_good_calls_def)

lemma tw_reach_inv:
  "tw_reachable cb junk w \<Longrightarrow> wh_inv tw_in_range tw_placed w \<and> wh_pending tw_dead w"
  unfolding tw_reachable_def tw_timer_update_def by (rule tww.reach_inv)

lemma unat_ucast_of_nat: "m < 2 ^ 32 \<Longrightarrow> unat (ucast (of_nat m :: u64) :: u32) = m"
  by (simp add: unsigned_of_nat unsigned_ucast_eq take_bit_nat_eq_self take_bit_take_bit)

text \<open>
  C11: A timer added to a wheel with a positive delay runs its callback at the tick of its delay and at
  no other, if the byte that \<open>malloc\<close> left in \<open>cancel\<close> is 0 and it is not put on entry 0 of one of
  the lower three levels; otherwise it never runs. Every tick ends.
\<close>

theorem tw_add_timer_exact:
  assumes "tw_reachable cb junk w" and "0 < time" "time < 2 ^ 31" and "\<And>n. tw_good_calls (cb n)"
  shows "\<exists>w1 logs w'. tw_add_timer cb junk time tid w = Some (wh_brk w, [], w1) \<and>
    wh_updates (tw_timer_update cb junk) m w1 = Some (logs, w') \<and> length logs = m \<and>
    (\<forall>j < m. wh_brk w \<in> set (logs ! j) \<longleftrightarrow>
       Suc j = nat time \<and> junk (wh_brk w) = 0 \<and> \<not> tw_dead (tw_slot_of (wh_time w) (of_int time + wh_time w)))"
  unfolding tw_add_timer_def tw_timer_update_def
proof (rule tww.add_runs)
  show "wh_inv tw_in_range tw_placed w" "wh_pending tw_dead w" using tw_reach_inv [OF assms(1)] by blast+
  show "wh_good_calls (\<lambda>_ _. True) (wh_time w) [(time, tid)]" using assms(2,3) by (simp add: wh_good_calls_def)
  show "wh_good_calls (\<lambda>_ _. True) (wh_time w + of_nat j) (cb n)" for j n
    unfolding tw_good_calls_any [of "wh_time w + of_nat j"] by (rule assms(4))
qed

lemma tw_reachable_init: "tw_reachable cb junk (tw_init_timer now)"
  by (simp add: tw_reachable_def tw_init_timer_def reach_init)

theorem tw_add_timer_exact_witness:
  "\<exists>w1 logs w'. tw_add_timer (\<lambda>_. []) (\<lambda>_. 0) 300 7 (tw_init_timer 0) = Some (1, [], w1) \<and>
    wh_updates (tw_timer_update (\<lambda>_. []) (\<lambda>_. 0)) 1000 w1 = Some (logs, w') \<and> 1 \<in> set (logs ! 299) \<and> 1 \<notin> set (logs ! 300)"
proof -
  have "\<not> tw_dead (tw_slot_of 0 300)"
    by (simp add: tw_slot_of_nat Let_def tw_dead_Level)
  then show ?thesis
    using tw_add_timer_exact [OF tw_reachable_init, of 300 "\<lambda>_. []" "\<lambda>_. 0" 7 0 1000]
    by (auto simp: tw_init_timer_def wh_create_def wh_good_calls_def)
qed

text \<open>
  C12: \<open>expire_timer\<close> at a clock that is less than \<open>2 ^ 31\<close> ms ahead runs one tick per millisecond. Of the
  nodes that are on the wheel before, it runs those that are not cancelled and are on a list that the time reaches
  (not on one of the lists that are never distributed, see \<open>tw_lost_timer\<close>), each at the tick of its expiry and
  at no other, and no other of these nodes.
\<close>

theorem tw_expire_timer_exact:
  assumes "tw_reachable cb junk w" and "\<And>n. tw_good_calls (cb n)"
    and "cp = wh_current_point w + of_nat m" "m < 2 ^ 31"
  shows "\<exists>logs w'. tw_expire_timer cb junk cp w = Some (logs, w') \<and> length logs = m \<and>
    tw_reachable cb junk w' \<and> wh_current_point w' = cp \<and> wh_time w' = wh_time w + of_nat m \<and>
    (\<forall>p < wh_brk w. \<forall>j < m. p \<in> set (logs ! j) \<longleftrightarrow> wh_live tw_dead w p \<and>
       (\<exists>n. wh_heap w p = Some n \<and> wn_cancel n = 0 \<and> Suc j = unat (wn_expire n - wh_time w)))"
proof -
  have inv: "wh_inv tw_in_range tw_placed w" "wh_pending tw_dead w" using tw_reach_inv [OF assms(1)] by blast+
  have cb: "wh_good_calls (\<lambda>_ _. True) t (cb n)" for t n
    unfolding tw_good_calls_any [of t] by (rule assms(2))
  have m: "m = unat (ucast (cp - wh_current_point w) :: u32)"
    unfolding assms(3) using assms(4) by (simp add: unat_ucast_of_nat)
  obtain logs w' where r: "tw_expire_timer cb junk cp w = Some (logs, w')" "length logs = m"
      "wh_current_point w' = cp" "wh_time w' = wh_time w + of_nat m"
      "\<And>p j. p < wh_brk w \<Longrightarrow> j < m \<Longrightarrow> p \<in> set (logs ! j) \<longleftrightarrow> wh_live tw_dead w p \<and>
         (\<exists>n. wh_heap w p = Some n \<and> wn_cancel n = 0 \<and> Suc j = unat (wn_expire n - wh_time w))"
    unfolding tw_expire_timer_def tw_timer_update_def
    using tww.catch_up_ok [where cb = cb and junk = junk, OF inv cb m assms(4)] by blast
  have "tw_reachable cb junk w'"
    using assms(1) r(1) cb unfolding tw_reachable_def tw_expire_timer_def by (auto intro: reach_tick)
  with r show ?thesis by blast
qed

theorem tw_expire_timer_exact_witness:
  "\<exists>logs w'. tw_expire_timer (\<lambda>_. [(5, 0)]) (\<lambda>_. 0) 1100 (tw_init_timer 100) = Some (logs, w') \<and> length logs = 1000 \<and>
    wh_time w' = 1000"
  using tw_expire_timer_exact [OF tw_reachable_init, of "\<lambda>_. [(5, 0)]" 1100 100 1000 "\<lambda>_. 0"]
  by (auto simp: tw_init_timer_def wh_create_def wh_good_calls_def)

text \<open>
  A timer that is lost: with the time at 1, a delay of 16383 ms puts the node on entry 0 of the
  lowest level, and no number of ticks ever runs it.
\<close>

theorem tw_lost_timer:
  "\<exists>w0 w1. tw_timer_update (\<lambda>_. []) (\<lambda>_. 0) (tw_init_timer 0) = Some ([], w0) \<and>
    tw_add_timer (\<lambda>_. []) (\<lambda>_. 0) 16383 0 w0 = Some (1, [], w1) \<and>
    (\<forall>m. \<exists>logs w'. wh_updates (tw_timer_update (\<lambda>_. []) (\<lambda>_. 0)) m w1 = Some (logs, w') \<and>
       length logs = m \<and> 1 \<notin> set (concat logs))"
proof -
  let ?cb = "\<lambda>_ :: wheel_node. [] :: (int \<times> int) list" and ?junk = "\<lambda>_ :: ptr. 0 :: u8"
  let ?w0 = "(tw_init_timer 0)\<lparr>wh_time := 1\<rparr>"
  have gc: "wh_good_calls (\<lambda>_ _. True) t []" for t by (simp add: wh_good_calls_def)
  have upd: "tw_timer_update ?cb ?junk (tw_init_timer 0) = Some ([], ?w0)"
    by (simp add: tw_timer_update_def wh_update_def wh_execute.simps tw_shift_eq tw_hit_def tw_init_timer_def wh_create_def)
  have inv: "wh_inv tw_in_range tw_placed ?w0" "wh_pending tw_dead ?w0"
    by (simp_all add: wh_inv_def wh_pending_def tw_init_timer_def wh_create_def)
  have dead: "tw_dead (tw_slot_of 1 16384)" by (simp add: tw_slot_of_nat Let_def tw_dead_Level)
  have w0: "wh_brk ?w0 = 1" "wh_time ?w0 = 1" by (simp_all add: tw_init_timer_def wh_create_def)
  have g: "wh_good_calls (\<lambda>_ _. True) (wh_time ?w0) [(16383, 0)]" by (simp add: wh_good_calls_def)
  obtain w1 where w1: "tw_add_timer ?cb ?junk 16383 0 ?w0 = Some (1, [], w1)"
    using tww.add_ok [OF inv g, of ?cb ?junk] unfolding tw_add_timer_def w0 by blast
  have "\<exists>logs w'. wh_updates (tw_timer_update ?cb ?junk) m w1 = Some (logs, w') \<and>
       length logs = m \<and> 1 \<notin> set (concat logs)" for m
  proof -
    have run: "\<exists>w1 logs w'. tw_add_timer ?cb ?junk 16383 0 ?w0 = Some (1, [], w1) \<and>
        wh_updates (tw_timer_update ?cb ?junk) m w1 = Some (logs, w') \<and> length logs = m \<and> (\<forall>j < m. 1 \<notin> set (logs ! j))"
      using tww.add_runs [where junk = ?junk and m = m, OF inv g gc] dead unfolding tw_add_timer_def tw_timer_update_def w0 by simp
    then show ?thesis using w1 by (auto simp: in_set_conv_nth)
  qed
  then show ?thesis using upd w1 by blast
qed

end
