(* ===== verification/ClockTimer.thy ===== *)
theory ClockTimer
  imports Wheel
begin

text \<open>
  The clock-shaped wheel of \<^verbatim>\<open>timer/clock-timer.c\<close>: 60 lists for seconds, 60 for minutes and 12 for
  hours. The functions common with the other wheel are in the theory \<open>Wheel\<close>. \<open>add_timer\<close> sets
  \<open>cancel\<close> to 0, so \<open>junk\<close> is 0 here; the node has no \<open>id\<close>, and \<open>wn_id\<close> stands for its callback.
\<close>

section \<open>Model\<close>

definition SECONDS :: u32 where "SECONDS = 60"
definition MINUTES :: u32 where "MINUTES = 60"
definition HOURS :: u32 where "HOURS = 12"
definition ONE_HOUR :: u32 where "ONE_HOUR = 3600"
definition ONE_MINUTE :: u32 where "ONE_MINUTE = 60"
definition HALF_DAY :: u32 where "HALF_DAY = 43200"

lemmas ct_consts = SECONDS_def MINUTES_def HOURS_def ONE_HOUR_def ONE_MINUTE_def HALF_DAY_def

datatype ct_slot = Second nat | Minute nat | Hour nat

type_synonym ct_timer = "ct_slot wheel"

fun ct_in_range :: "ct_slot \<Rightarrow> bool" where
  "ct_in_range (Second i) \<longleftrightarrow> i < 60"
| "ct_in_range (Minute i) \<longleftrightarrow> i < 60"
| "ct_in_range (Hour i) \<longleftrightarrow> i < 12"

definition ct_slot_of :: "u32 \<Rightarrow> u32 \<Rightarrow> ct_slot" where
  "ct_slot_of current_time time =
     (let msec = time - current_time in
      if msec < ONE_MINUTE then Second (unat (time mod SECONDS))
      else if msec < ONE_HOUR then Minute (unat (time div ONE_MINUTE mod MINUTES))
      else Hour (unat (time div ONE_HOUR mod HOURS)))"

definition ct_add_node :: "ptr \<Rightarrow> ct_timer \<Rightarrow> ct_timer option" where
  "ct_add_node = wh_add_node ct_in_range ct_slot_of"

definition ct_remap :: "ct_slot \<Rightarrow> ct_timer \<Rightarrow> ct_timer option" where
  "ct_remap = wh_move_list ct_in_range ct_slot_of"

definition ct_timer_shift :: "ct_timer \<Rightarrow> ct_timer option" where
  "ct_timer_shift w =
     (let w = w\<lparr>wh_time := wh_time w + 1\<rparr>; ct = wh_time w mod HALF_DAY in
      if ct = 0 then ct_remap (Hour 0) w
      else if ct mod SECONDS = 0 then
        (let idx = unat (ct div ONE_MINUTE mod MINUTES) in
         if idx \<noteq> 0 then ct_remap (Minute idx) w
         else
           (let idx = unat (ct div ONE_HOUR mod HOURS) in
            if idx \<noteq> 0 then ct_remap (Hour idx) w else Some w))
      else Some w)"

definition ct_exec_slot :: "u32 \<Rightarrow> ct_slot" where
  "ct_exec_slot time = Second (unat (time mod SECONDS))"

definition ct_timer_execute :: "callback \<Rightarrow> ct_timer \<Rightarrow> (ptr list \<times> ct_timer) option" where
  "ct_timer_execute cb = wh_execute ct_in_range ct_slot_of ct_exec_slot cb (\<lambda>_. 0)"

definition ct_timer_update :: "callback \<Rightarrow> ct_timer \<Rightarrow> (ptr list \<times> ct_timer) option" where
  "ct_timer_update cb = wh_update ct_in_range ct_slot_of ct_exec_slot ct_timer_shift cb (\<lambda>_. 0)"

definition ct_init_timer :: "u64 \<Rightarrow> ct_timer" where
  "ct_init_timer now = wh_create now"

definition ct_add_timer :: "callback \<Rightarrow> int \<Rightarrow> int \<Rightarrow> ct_timer \<Rightarrow> (ptr \<times> ptr list \<times> ct_timer) option" where
  "ct_add_timer cb = wh_add_timer ct_in_range ct_slot_of cb (\<lambda>_. 0)"

text \<open>
  \<open>check_timer\<close>: the argument holds, for each iteration that found \<open>*stop\<close> to be 0, the time that
  \<open>now_time\<close> returned.
\<close>

fun ct_check_timer :: "callback \<Rightarrow> u64 list \<Rightarrow> ct_timer \<Rightarrow> (ptr list list \<times> ct_timer) option" where
  "ct_check_timer cb [] w = Some ([], w)"
| "ct_check_timer cb (cp # cps) w =
     do { (logs, w) \<leftarrow> wh_catch_up (ct_timer_update cb) cp w;
          (logs', w) \<leftarrow> ct_check_timer cb cps w;
          Some (logs @ logs', w) }"

definition ct_all_slots :: "ct_slot list" where
  "ct_all_slots = map Second [0..<60] @ map Minute [0..<60] @ map Hour [0..<12]"

definition ct_clear_timer :: "ct_timer \<Rightarrow> ct_timer option" where
  "ct_clear_timer = wh_clear ct_in_range ct_all_slots"

text \<open>\<open>now_time\<close>: the seconds of a \<open>timespec\<close>.\<close>

definition ct_now_time :: "u64 \<Rightarrow> int \<Rightarrow> u64" where
  "ct_now_time tv_sec tv_nsec = tv_sec"

section \<open>Where a node is\<close>

text \<open>Entry 0 of the minutes is never distributed.\<close>

definition ct_dead :: "ct_slot \<Rightarrow> bool" where
  "ct_dead s \<longleftrightarrow> s = Minute 0"

fun ct_placed :: "u32 \<Rightarrow> u32 \<Rightarrow> ct_slot \<Rightarrow> bool" where
  "ct_placed c e (Second i) \<longleftrightarrow> i = unat e mod 60 \<and> unat c \<le> unat e \<and> unat e < unat c + 60"
| "ct_placed c e (Minute i) \<longleftrightarrow> i = unat e div 60 mod 60 \<and>
     (i = 0 \<or> unat c < 60 * (unat e div 60) \<and> 60 * (unat e div 60) < unat c + 3600)"
| "ct_placed c e (Hour i) \<longleftrightarrow> i = unat e div 3600 mod 12 \<and> unat c < 3600 * (unat e div 3600)"

text \<open>The list that the step to \<open>c\<close> distributes.\<close>

definition ct_hit :: "u32 \<Rightarrow> ct_slot option" where
  "ct_hit c =
     (if unat c mod 60 \<noteq> 0 then None
      else if unat c div 60 mod 60 \<noteq> 0 then Some (Minute (unat c div 60 mod 60))
      else Some (Hour (unat c div 3600 mod 12)))"

text \<open>
  The length of the wheel does not divide \<open>2 ^ 32\<close>: a timer is admitted if its expiry does not wrap.
\<close>

definition ct_admits :: "u32 \<Rightarrow> u32 \<Rightarrow> bool" where
  "ct_admits c e \<longleftrightarrow> unat c \<le> unat e"

lemma ct_slot_of_nat:
  "ct_slot_of c e =
     (if unat (e - c) < 60 then Second (unat e mod 60)
      else if unat (e - c) < 3600 then Minute (unat e div 60 mod 60)
      else Hour (unat e div 3600 mod 12))"
  by (simp add: ct_slot_of_def Let_def ct_consts word_less_nat_alt unat_mod unat_div)

lemma ct_exec_slot_nat: "ct_exec_slot c = Second (unat c mod 60)"
  by (simp add: ct_exec_slot_def ct_consts unat_mod)

lemma half_day_digits:
  fixes c :: nat
  shows "c mod 43200 mod 60 = c mod 60" "c mod 43200 div 60 mod 60 = c div 60 mod 60"
    "c mod 43200 div 3600 mod 12 = c div 3600 mod 12"
    "c mod 43200 = 0 \<longleftrightarrow> c mod 60 = 0 \<and> c div 60 mod 60 = 0 \<and> c div 3600 mod 12 = 0"
proof -
  have a: "c mod 43200 = 60 * (c div 60 mod 720) + c mod 60" using mod_mult2_eq [of c 60 720] by simp
  have b: "c div 60 mod 720 = 60 * (c div 60 div 60 mod 12) + c div 60 mod 60" using mod_mult2_eq [of "c div 60" 60 12] by simp
  have d: "c div 3600 = c div 60 div 60" by (simp add: div_mult2_eq [symmetric])
  show "c mod 43200 mod 60 = c mod 60" by (simp add: mod_mod_cancel)
  have m: "c mod 43200 div 60 = c div 60 mod 720" unfolding a by simp
  then show "c mod 43200 div 60 mod 60 = c div 60 mod 60" by (simp add: mod_mod_cancel)
  have "c mod 43200 div 3600 = c mod 43200 div 60 div 60" by (simp add: div_mult2_eq [symmetric])
  then have "c mod 43200 div 3600 = c div 3600 mod 12" unfolding m b d by simp
  then show "c mod 43200 div 3600 mod 12 = c div 3600 mod 12" by simp
  show "c mod 43200 = 0 \<longleftrightarrow> c mod 60 = 0 \<and> c div 60 mod 60 = 0 \<and> c div 3600 mod 12 = 0"
    unfolding a b d by auto
qed

lemma ct_shift_eq:
  "ct_timer_shift w = (case ct_hit (wh_time w + 1) of
      None \<Rightarrow> Some (w\<lparr>wh_time := wh_time w + 1\<rparr>)
    | Some h \<Rightarrow> wh_move_list ct_in_range ct_slot_of h (w\<lparr>wh_time := wh_time w + 1\<rparr>))"
proof -
  let ?ct = "(wh_time w + 1) mod HALF_DAY"
  have "unat ?ct = unat (wh_time w + 1) mod 43200" by (simp add: ct_consts unat_mod)
  then have u: "?ct = 0 \<longleftrightarrow> unat (wh_time w + 1) mod 43200 = 0"
    "?ct mod SECONDS = 0 \<longleftrightarrow> unat (wh_time w + 1) mod 43200 mod 60 = 0"
    "unat (?ct div ONE_MINUTE mod MINUTES) = unat (wh_time w + 1) mod 43200 div 60 mod 60"
    "unat (?ct div ONE_HOUR mod HOURS) = unat (wh_time w + 1) mod 43200 div 3600 mod 12"
    by (simp_all only: unat_eq_0 [symmetric] unat_mod unat_div) (simp_all add: ct_consts)
  have t: "wh_time (w\<lparr>wh_time := wh_time w + 1\<rparr>) = wh_time w + 1" by simp
  show ?thesis
    unfolding ct_timer_shift_def Let_def t ct_remap_def ct_hit_def u half_day_digits
    by (simp split: if_split)
qed

lemma ct_slot_rng: "ct_in_range (ct_slot_of c e)"
  by (simp add: ct_slot_of_nat)

text \<open>The distance to the expiry, and to the beginning of the minute or hour of the expiry.\<close>

lemma unat_diff_le: "unat (c :: u32) \<le> unat e \<Longrightarrow> unat (e - c) = unat e - unat c"
  by (simp add: unat_sub word_le_nat_alt)

lemma part_start: "0 < M \<Longrightarrow> c + M \<le> (e :: nat) \<Longrightarrow> c < M * (e div M)" "M * (e div M) \<le> e"
proof -
  have e: "M * (e div M) + e mod M = e" by simp
  show "M * (e div M) \<le> e" using e by linarith
  assume "0 < M" "c + M \<le> e"
  then show "c < M * (e div M)" using e mod_less_divisor [of M e] by linarith
qed

lemma ct_slot_placed:
  assumes "ct_admits c e"
  shows "ct_placed c e (ct_slot_of c e)"
proof -
  have le: "unat c \<le> unat e" using assms by (simp add: ct_admits_def)
  then show ?thesis
    using part_start(1) [of 60 "unat c" "unat e"] part_start(1) [of 3600 "unat c" "unat e"] part_start(2) [of 60 "unat e"]
    unfolding ct_slot_of_nat unat_diff_le [OF le] by auto
qed

lemma ct_placed_exec:
  assumes "ct_placed c e (ct_exec_slot c)"
  shows "e = c"
proof -
  have "(unat c + (unat e - unat c)) mod 60 = (unat c + 0) mod 60" "unat e - unat c < 60" "unat c \<le> unat e"
    using assms by (auto simp: ct_exec_slot_nat)
  then have "unat e - unat c = 0" using mod_window_inj [of "unat e - unat c" 60 0 "unat c"] by simp
  then show ?thesis using \<open>unat c \<le> unat e\<close> by (simp add: word_unat_eq_iff)
qed

lemma ct_due_exec: "ct_placed c c s \<Longrightarrow> \<not> ct_dead s \<Longrightarrow> s = ct_exec_slot c"
  using part_start(2) [of 60 "unat c"] part_start(2) [of 3600 "unat c"]
  by (cases s) (auto simp: ct_exec_slot_nat ct_dead_def)

lemma ct_hit_part:
  "unat c = 60 * m \<Longrightarrow> m mod 60 \<noteq> 0 \<Longrightarrow> ct_hit c = Some (Minute (m mod 60))"
  "unat c = 3600 * h \<Longrightarrow> ct_hit c = Some (Hour (h mod 12))"
proof -
  show "unat c = 60 * m \<Longrightarrow> m mod 60 \<noteq> 0 \<Longrightarrow> ct_hit c = Some (Minute (m mod 60))" by (simp add: ct_hit_def)
  assume "unat c = 3600 * h"
  then have "unat c = 60 * (60 * h)" "unat c div 3600 = h" by simp_all
  then have "unat c mod 60 = 0" "unat c div 60 mod 60 = 0" "unat c div 3600 = h" by simp_all
  then show "ct_hit c = Some (Hour (h mod 12))" by (simp add: ct_hit_def)
qed

lemma unat_tick_below: "unat (c :: u32) < unat (e :: u32) \<Longrightarrow> unat (c + 1) = unat c + 1"
  using unat_less_2p32 [of e] by (intro unat_Suc_no_wrap) simp

lemma ct_placed_tick:
  assumes pl: "ct_placed c e s" and ne: "ct_dead s \<or> e \<noteq> c" and nh: "ct_hit (c + 1) \<noteq> Some s"
  shows "ct_placed (c + 1) e s"
proof (cases s)
  case (Second i)
  then have "unat c < unat e" using pl ne by (auto simp: ct_dead_def word_unat_eq_iff)
  then show ?thesis using pl Second unat_tick_below [of c e] by auto
next
  case (Minute i)
  show ?thesis
  proof (cases "i = 0")
    case True
    then show ?thesis using pl Minute by simp
  next
    case False
    then have b: "unat c < 60 * (unat e div 60)" "60 * (unat e div 60) < unat c + 3600" and i: "i = unat e div 60 mod 60"
      using pl Minute by auto
    have c1: "unat (c + 1) = unat c + 1" using b(1) part_start(2) [of 60 "unat e"] by (intro unat_tick_below [of c e]) linarith
    have "unat (c + 1) \<noteq> 60 * (unat e div 60)" using ct_hit_part(1) [of "c + 1" "unat e div 60"] nh Minute i False by auto
    then show ?thesis using b i Minute c1 by simp
  qed
next
  case (Hour i)
  then have b: "unat c < 3600 * (unat e div 3600)" and i: "i = unat e div 3600 mod 12" using pl by auto
  have c1: "unat (c + 1) = unat c + 1" using b part_start(2) [of 3600 "unat e"] by (intro unat_tick_below [of c e]) linarith
  have "unat (c + 1) \<noteq> 3600 * (unat e div 3600)" using ct_hit_part(2) [of "c + 1" "unat e div 3600"] nh Hour i by auto
  then show ?thesis using b i Hour c1 by simp
qed

lemma ct_hit_cases:
  assumes "ct_hit c = Some s"
  obtains (minute) m where "unat c = 60 * m" "m mod 60 \<noteq> 0" "s = Minute (m mod 60)"
  | (hour) h where "unat c = 3600 * h" "s = Hour (h mod 12)"
proof -
  have c: "unat c = 60 * (unat c div 60)" using assms by (auto simp: ct_hit_def split: if_splits)
  show thesis
  proof (cases "unat c div 60 mod 60 = 0")
    case False
    then show thesis using minute [OF c False] assms by (simp add: ct_hit_def split: if_splits)
  next
    case True
    then have "60 * (unat c div 60 div 60) = unat c div 60" using mult_div_mod_eq [of 60 "unat c div 60"] by simp
    then have "unat c = 3600 * (unat c div 60 div 60)" using c by linarith
    moreover have "unat c div 60 div 60 = unat c div 3600" by (simp add: div_mult2_eq [symmetric])
    ultimately have "unat c = 3600 * (unat c div 3600)" by simp
    then show thesis using hour True assms by (auto simp: ct_hit_def split: if_splits)
  qed
qed

text \<open>What \<open>remap\<close> distributes lands on a list that is run or distributed before the expiry.\<close>

lemma ct_placed_hit:
  assumes h: "ct_hit (c + 1) = Some s" and pl: "ct_placed c e s" and ne: "e \<noteq> c"
  shows "ct_admits (c + 1) e \<and> \<not> ct_dead (ct_slot_of (c + 1) e)"
  using h
proof (cases rule: ct_hit_cases)
  case (minute m)
  let ?k = "unat e div 60"
  have b: "unat c < 60 * ?k" "60 * ?k < unat c + 3600" and i: "m mod 60 = ?k mod 60"
    using pl minute by auto
  have c1: "unat (c + 1) = unat c + 1" using b(1) part_start(2) [of 60 "unat e"] by (intro unat_tick_below [of c e]) linarith
  have "m \<le> ?k" "?k - m < 60" using b c1 minute(1) by linarith+
  then have "?k = m" using mod_window_inj [of "?k - m" 60 0 m] i by auto
  then have "unat (c + 1) \<le> unat e" "unat e - unat (c + 1) < 60"
    using minute(1) part_start(2) [of 60 "unat e"] by (auto simp: minus_mult_div_eq_mod)
  then show ?thesis by (simp add: ct_admits_def ct_slot_of_nat unat_diff_le ct_dead_def)
next
  case (hour h)
  let ?k = "unat e div 3600"
  have b: "unat c < 3600 * ?k" using pl hour by auto
  have c1: "unat (c + 1) = unat c + 1" using b part_start(2) [of 3600 "unat e"] by (intro unat_tick_below [of c e]) linarith
  have le: "unat (c + 1) \<le> unat e" using b c1 part_start(2) [of 3600 "unat e"] by linarith
  have "unat e div 60 mod 60 \<noteq> 0" if "60 \<le> unat e - unat (c + 1)" "unat e - unat (c + 1) < 3600"
  proof
    assume z: "unat e div 60 mod 60 = 0"
    have "unat e mod 3600 = 60 * (unat e div 60 mod 60) + unat e mod 60" using mod_mult2_eq [of "unat e" 60 60] by simp
    moreover have "unat e mod 3600 = unat e - unat (c + 1)"
      using that le hour(1) mod_mult_self2 [of "unat e - unat (c + 1)" 3600 h] by (simp add: mult.commute)
    ultimately show False using that(1) z mod_less_divisor [of 60 "unat e"] by linarith
  qed
  then show ?thesis using le by (simp add: ct_admits_def ct_slot_of_nat unat_diff_le ct_dead_def)
qed

lemma ct_hit_ok: "ct_hit c = Some s \<Longrightarrow> ct_in_range s \<and> \<not> ct_dead s"
  by (auto simp: ct_hit_def ct_dead_def split: if_splits)

interpretation ctw: wheel_rules ct_in_range ct_slot_of ct_exec_slot ct_hit ct_timer_shift ct_dead ct_placed ct_admits
proof
  fix c
  show "ct_in_range (ct_exec_slot c)" "\<not> ct_dead (ct_exec_slot c)"
    by (simp_all add: ct_exec_slot_nat ct_dead_def)
qed (use ct_slot_rng ct_slot_placed ct_placed_exec ct_due_exec ct_shift_eq ct_hit_ok ct_placed_tick
  ct_placed_hit in blast)+

section \<open>Properties\<close>

definition ct_reachable :: "callback \<Rightarrow> ct_timer \<Rightarrow> bool" where
  "ct_reachable cb = wh_reach ct_in_range ct_slot_of (ct_timer_update cb) ct_admits cb (\<lambda>_. 0)"

lemma ct_reach_inv:
  "ct_reachable cb w \<Longrightarrow> wh_inv ct_in_range ct_placed w \<and> wh_pending ct_dead w"
  unfolding ct_reachable_def ct_timer_update_def by (rule ctw.reach_inv)

lemma ct_reachable_init: "ct_reachable cb (ct_init_timer now)"
  by (simp add: ct_reachable_def ct_init_timer_def reach_init)

text \<open>Delays of at most \<open>D\<close> seconds are admitted as long as the time is \<open>D\<close> below the wrap.\<close>

lemma ct_good_calls:
  assumes "\<And>c. c \<in> set cs \<Longrightarrow> 0 < fst c \<and> fst c \<le> int D" "D < 2 ^ 31" "unat t + D < 2 ^ 32"
  shows "wh_good_calls ct_admits t cs"
  unfolding wh_good_calls_def
proof
  fix c assume "c \<in> set cs"
  then have c: "0 < fst c" "fst c \<le> int D" using assms(1) by auto
  then have "unat (of_int (fst c) :: u32) = nat (fst c)"
    using assms(2) by (simp add: unat_eq_nat_uint uint_word_of_int_eq take_bit_int_eq_self)
  then have "unat (of_int (fst c) + t) = nat (fst c) + unat t"
    using c assms(3) by (subst unat_add_no_wrap) auto
  then show "0 < fst c \<and> fst c < 2 ^ 31 \<and> ct_admits t (of_int (fst c) + t)"
    using c assms(2) by (simp add: ct_admits_def)
qed

lemma unat_plus_of_nat: "unat (t :: u32) + j < 2 ^ 32 \<Longrightarrow> unat (t + of_nat j) = unat t + j"
  by (simp add: unat_add_no_wrap unat_of_nat_u32)

lemma ct_dead_slot:
  assumes "0 < time" "unat t + nat time < 2 ^ 32" "time < 2 ^ 31"
  shows "ct_dead (ct_slot_of t (of_int time + t)) \<longleftrightarrow>
    60 \<le> time \<and> time < 3600 \<and> (unat t + nat time) div 60 mod 60 = 0"
proof -
  have u: "unat (of_int time :: u32) = nat time"
    using assms(1,3) by (simp add: unat_eq_nat_uint uint_word_of_int_eq take_bit_int_eq_self)
  then have e: "unat (of_int time + t) = unat t + nat time"
    using assms(1,2) by (subst unat_add_no_wrap) auto
  have d: "unat (of_int time + t - t) = nat time" using u by (simp only: add_diff_cancel_right')
  have n: "nat time < 60 \<longleftrightarrow> \<not> 60 \<le> time" "nat time < 3600 \<longleftrightarrow> time < 3600" using assms(1) by auto
  have "ct_dead (if \<not> a then Second i else if b then Minute k else Hour h) \<longleftrightarrow> a \<and> b \<and> k = 0" for a b i k h
    by (simp add: ct_dead_def)
  then show ?thesis unfolding ct_slot_of_nat d e n .
qed

text \<open>
  While the time does not wrap, a timer added with a delay of \<open>time\<close> seconds runs its callback at
  the \<open>time\<close>-th tick and at no other, unless the delay is between a minute and an hour and the expiry
  is in the first minute of an hour: such a timer never runs. Every tick ends.
\<close>

theorem ct_add_timer_exact:
  assumes "ct_reachable cb w" and "0 < time" "time \<le> int D" "D < 2 ^ 31"
    and "\<And>n c. c \<in> set (cb n) \<Longrightarrow> 0 < fst c \<and> fst c \<le> int D" and "unat (wh_time w) + m + D < 2 ^ 32"
  shows "\<exists>w1 logs w'. ct_add_timer cb time f w = Some (wh_brk w, [], w1) \<and>
    wh_updates (ct_timer_update cb) m w1 = Some (logs, w') \<and> length logs = m \<and>
    (\<forall>j < m. wh_brk w \<in> set (logs ! j) \<longleftrightarrow> Suc j = nat time \<and>
       \<not> (60 \<le> time \<and> time < 3600 \<and> (unat (wh_time w) + nat time) div 60 mod 60 = 0))"
proof -
  have inv: "wh_inv ct_in_range ct_placed w" "wh_pending ct_dead w" using ct_reach_inv [OF assms(1)] by blast+
  have g: "wh_good_calls ct_admits (wh_time w) [(time, f)]"
    by (rule ct_good_calls [of _ D]) (use assms in auto)
  have cb: "wh_good_calls ct_admits (wh_time w + of_nat j) (cb n)" if "j \<le> m" for j n
    using that assms(4,6) by (intro ct_good_calls [of _ D] assms(5)) (simp_all add: unat_plus_of_nat)
  have "unat (wh_time w) + nat time < 2 ^ 32" "time < 2 ^ 31" using assms(3,4,6) by auto
  note dead = ct_dead_slot [OF assms(2) this]
  show ?thesis
    using ctw.add_runs [where cb = cb and junk = "\<lambda>_. 0" and m = m, OF inv g cb]
    unfolding ct_add_timer_def ct_timer_update_def dead by simp
qed

theorem ct_add_timer_exact_witness:
  "\<exists>w1 logs w'. ct_add_timer (\<lambda>_. [(3, 0)]) 4000 7 (ct_init_timer 0) = Some (1, [], w1) \<and>
    wh_updates (ct_timer_update (\<lambda>_. [(3, 0)])) 50000 w1 = Some (logs, w') \<and> 1 \<in> set (logs ! 3999) \<and> 1 \<notin> set (logs ! 4000)"
  using ct_add_timer_exact [OF ct_reachable_init, of 4000 4000 "\<lambda>_. [(3, 0)]" 0 50000 7]
  by (auto simp: ct_init_timer_def wh_create_def)

text \<open>
  \<open>check_timer\<close> with a clock that never runs back keeps the time of the wheel in step with the
  clock, however the seconds are spread over its iterations: it returns once \<open>*stop\<close> is set, has run
  one tick per second, and the wheel is one that the interface can reach.
\<close>

theorem ct_check_timer_keeps_time:
  assumes "ct_reachable cb w" and "sorted (map unat (wh_current_point w # cps))"
    and "\<And>n c. c \<in> set (cb n) \<Longrightarrow> 0 < fst c \<and> fst c \<le> int D" "D < 2 ^ 31"
    and "unat (List.last (wh_current_point w # cps)) - unat (wh_current_point w) = m" "m < 2 ^ 31"
    and "unat (wh_time w) + m + D < 2 ^ 32"
  shows "\<exists>logs w'. ct_check_timer cb cps w = Some (logs, w') \<and> length logs = m \<and>
    wh_current_point w' = List.last (wh_current_point w # cps) \<and> wh_time w' = wh_time w + of_nat m \<and>
    ct_reachable cb w'"
  using assms(1,2,5-)
proof (induction cps arbitrary: w m)
  case Nil
  then show ?case by simp
next
  case (Cons cp cps)
  let ?p = "unat (wh_current_point w)" and ?k = "unat (cp - wh_current_point w)"
  have inv: "wh_inv ct_in_range ct_placed w" "wh_pending ct_dead w" using ct_reach_inv [OF Cons.prems(1)] by blast+
  have le: "?p \<le> unat cp" using Cons.prems(2) by simp
  then have k: "?k = unat cp - ?p" by (simp add: unat_sub word_le_nat_alt)
  have cl: "unat cp \<le> unat (List.last (cp # cps))" using Cons.prems(2) by auto
  have km: "?k \<le> m" using k cl Cons.prems(3) by (simp split: if_splits)
  have km2: "unat (ucast (cp - wh_current_point w) :: u32) = ?k"
    using km Cons.prems(4) by (simp add: unsigned_ucast_eq take_bit_nat_eq_self)
  have good: "wh_good_calls ct_admits (wh_time w + of_nat j) (cb n)" if "j \<le> ?k" for j n
    using that km assms(4) Cons.prems(5) by (intro ct_good_calls [of _ D] assms(3)) (simp_all add: unat_plus_of_nat)
  obtain logs w1 where w1: "wh_catch_up (ct_timer_update cb) cp w = Some (logs, w1)" "length logs = ?k"
      "wh_current_point w1 = cp" "wh_time w1 = wh_time w + of_nat ?k"
    using ctw.catch_up_ok [where cb = cb and junk = "\<lambda>_. 0", OF inv good km2 [symmetric]] km Cons.prems(4)
    unfolding ct_timer_update_def by auto
  have r1: "ct_reachable cb w1"
    unfolding ct_reachable_def
    by (rule reach_tick [OF Cons.prems(1) [unfolded ct_reachable_def] _ w1(1)]) (use good km2 in simp)
  have t1: "unat (wh_time w1) = unat (wh_time w) + ?k"
    unfolding w1(4) using km Cons.prems(5) by (intro unat_plus_of_nat) linarith
  have "\<exists>logs' w'. ct_check_timer cb cps w1 = Some (logs', w') \<and> length logs' = m - ?k \<and>
    wh_current_point w' = List.last (wh_current_point w1 # cps) \<and> wh_time w' = wh_time w1 + of_nat (m - ?k) \<and>
    ct_reachable cb w'"
    by (rule Cons.IH [OF r1]) (use Cons.prems km k cl w1(3) t1 in \<open>auto split: if_splits\<close>)
  then obtain logs' w' where w': "ct_check_timer cb cps w1 = Some (logs', w')" "length logs' = m - ?k"
      "wh_current_point w' = List.last (cp # cps)" "wh_time w' = wh_time w1 + of_nat (m - ?k)" "ct_reachable cb w'"
    unfolding w1(3) by blast
  have "wh_time w' = wh_time w + of_nat m"
    unfolding w'(4) w1(4) add.assoc of_nat_add [symmetric] using km by (simp only: le_add_diff_inverse)
  then show ?case
    using w1(1,2) w'(1,2,3,5) km by (intro exI [of _ "logs @ logs'"] exI [of _ w']) simp
qed

theorem ct_check_timer_keeps_time_witness:
  "\<exists>logs w'. ct_check_timer (\<lambda>_. [(3, 0)]) [100, 102, 160] (ct_init_timer 100) = Some (logs, w') \<and> length logs = 60 \<and>
    wh_time w' = 60"
  using ct_check_timer_keeps_time [OF ct_reachable_init, of 100 "[100, 102, 160]" "\<lambda>_. [(3, 0)]" 3 60]
  by (auto simp: ct_init_timer_def wh_create_def)

end
