(* ===== verification/MessageBuffer.thy ===== *)
theory MessageBuffer
  imports Prelude
begin

text \<open>
  The receive buffer of \<^verbatim>\<open>network_buffer_design/MessageBuffer.h\<close> (\<^verbatim>\<open>network_timer/MessageBuffer.h\<close> has the
  same code): a vector of bytes with a read and a write position of type \<open>size_t\<close>, which wrap. A pointer into the vector is the
  index it has. \<open>None\<close> is an access outside the allocated memory or a \<open>resize\<close> beyond
  \<open>max_size\<close> (\<open>2 ^ 63 - 1\<close> for bytes), which throws. The system call \<open>readv\<close> is given by its result and
  the bytes it delivered.
\<close>

section \<open>Model\<close>

record msgbuf =
  mb_buffer :: "u8 list"
  mb_rpos :: u64
  mb_wpos :: u64

definition MessageBuffer_sized :: "u64 \<Rightarrow> msgbuf option" where
  "MessageBuffer_sized sz =
     (if unat sz < 2 ^ 63 then Some \<lparr>mb_buffer = replicate (unat sz) 0, mb_rpos = 0, mb_wpos = 0\<rparr> else None)"

definition MessageBuffer_ctor :: msgbuf where
  "MessageBuffer_ctor = \<lparr>mb_buffer = replicate 4096 0, mb_rpos = 0, mb_wpos = 0\<rparr>"

text \<open>Construction by a move: the new buffer and what is left of the other.\<close>

definition mb_move :: "msgbuf \<Rightarrow> msgbuf \<times> msgbuf" where
  "mb_move other = (other, \<lparr>mb_buffer = [], mb_rpos = 0, mb_wpos = 0\<rparr>)"

definition mb_GetReadPointer :: "msgbuf \<Rightarrow> u64" where
  "mb_GetReadPointer b = mb_rpos b"

definition mb_GetWritePointer :: "msgbuf \<Rightarrow> u64" where
  "mb_GetWritePointer b = mb_wpos b"

definition mb_ReadCompleted :: "u64 \<Rightarrow> msgbuf \<Rightarrow> msgbuf" where
  "mb_ReadCompleted sz b = b\<lparr>mb_rpos := mb_rpos b + sz\<rparr>"

definition mb_WriteCompleted :: "u64 \<Rightarrow> msgbuf \<Rightarrow> msgbuf" where
  "mb_WriteCompleted sz b = b\<lparr>mb_wpos := mb_wpos b + sz\<rparr>"

definition mb_GetActiveSize :: "msgbuf \<Rightarrow> u64" where
  "mb_GetActiveSize b = mb_wpos b - mb_rpos b"

definition mb_GetBufferSize :: "msgbuf \<Rightarrow> u64" where
  "mb_GetBufferSize b = of_nat (length (mb_buffer b))"

definition mb_GetFreeSize :: "msgbuf \<Rightarrow> u64" where
  "mb_GetFreeSize b = mb_GetBufferSize b - mb_wpos b"

text \<open>\<open>memcpy\<close> and \<open>memmove\<close> into the vector: \<open>n\<close> bytes of a source to the index \<open>dst\<close>.\<close>

definition mb_copy :: "nat \<Rightarrow> u8 list \<Rightarrow> nat \<Rightarrow> u8 list \<Rightarrow> u8 list option" where
  "mb_copy dst src n buf =
     (if n \<le> length src \<and> dst + n \<le> length buf then Some (take dst buf @ take n src @ drop (dst + n) buf) else None)"

definition mb_resize :: "u64 \<Rightarrow> u8 list \<Rightarrow> u8 list option" where
  "mb_resize sz buf =
     (if unat sz < 2 ^ 63 then Some (take (unat sz) buf @ replicate (unat sz - length buf) 0) else None)"

definition mb_Normalize :: "msgbuf \<Rightarrow> msgbuf option" where
  "mb_Normalize b =
     (if 0 < mb_rpos b then
        do { buf \<leftarrow> mb_copy 0 (drop (unat (mb_rpos b)) (mb_buffer b)) (unat (mb_GetActiveSize b)) (mb_buffer b);
             Some (b\<lparr>mb_buffer := buf, mb_wpos := mb_wpos b - mb_rpos b, mb_rpos := 0\<rparr>) }
      else Some b)"

definition mb_EnsureFreeSpace :: "u64 \<Rightarrow> msgbuf \<Rightarrow> msgbuf option" where
  "mb_EnsureFreeSpace sz b =
     (if mb_GetBufferSize b - mb_GetActiveSize b < sz then
        do { b \<leftarrow> mb_Normalize b;
             buf \<leftarrow> mb_resize (mb_GetBufferSize b + max sz (mb_GetBufferSize b div 2)) (mb_buffer b);
             Some (b\<lparr>mb_buffer := buf\<rparr>) }
      else if mb_GetFreeSize b < sz then mb_Normalize b
      else Some b)"

definition mb_Write :: "u8 list \<Rightarrow> u64 \<Rightarrow> msgbuf \<Rightarrow> msgbuf option" where
  "mb_Write data sz b =
     (if 0 < sz then
        do { b \<leftarrow> mb_EnsureFreeSpace sz b;
             buf \<leftarrow> mb_copy (unat (mb_GetWritePointer b)) data (unat sz) (mb_buffer b);
             Some (mb_WriteCompleted sz (b\<lparr>mb_buffer := buf\<rparr>)) }
      else Some b)"

definition mb_GetAllData :: "msgbuf \<Rightarrow> u64 \<times> u64" where
  "mb_GetAllData b = (mb_GetReadPointer b, mb_GetActiveSize b)"

text \<open>
  The loop of \<open>GetDataUntilCRLF\<close>; \<open>rest\<close> is the allocated memory from \<open>data[i]\<close> on. The second byte is
  read only when the first matches. The inner \<open>None\<close> is \<open>nullptr\<close>.
\<close>

fun mb_crlf_loop :: "u64 \<Rightarrow> u64 \<Rightarrow> u8 list \<Rightarrow> (u64 option) option" where
  "mb_crlf_loop bound i [] = (if i < bound then None else Some None)"
| "mb_crlf_loop bound i (c # rest) =
     (if i < bound then
        (if c = 13 then
           (case rest of [] \<Rightarrow> None | d # _ \<Rightarrow> if d = 10 then Some (Some i) else mb_crlf_loop bound (i + 1) rest)
         else mb_crlf_loop bound (i + 1) rest)
      else Some None)"

definition mb_GetDataUntilCRLF :: "msgbuf \<Rightarrow> (u64 option \<times> u64) option" where
  "mb_GetDataUntilCRLF b =
     do { r \<leftarrow> mb_crlf_loop (mb_GetActiveSize b - 1) 0 (drop (unat (mb_GetReadPointer b)) (mb_buffer b));
          Some (case r of Some i \<Rightarrow> (Some (mb_GetReadPointer b), i) | None \<Rightarrow> (None, 0)) }"

text \<open>
  \<open>Recv\<close>: \<open>n\<close> and \<open>errno\<close> are the results of \<open>readv\<close>, \<open>bytes\<close> what it stored: first the free space, then
  the array \<open>extra\<close>, whose other bytes are \<open>junk\<close>. The result is converted to \<open>size_t\<close> at once. The value
  returned is the converted \<open>int\<close> and what was stored to \<open>*err\<close>.
\<close>

definition ECONNRESET :: int where "ECONNRESET = 104"

definition mb_Recv ::
  "int \<Rightarrow> u8 list \<Rightarrow> int \<Rightarrow> u8 list \<Rightarrow> msgbuf \<Rightarrow> (int \<times> int option \<times> msgbuf) option" where
  "mb_Recv rv bytes errno junk b =
     (let room = unat (mb_GetFreeSize b); n = (of_int rv :: u64); ret = sint (ucast n :: u32);
          extra = take 65535 (drop room bytes @ junk) in
      do { buf \<leftarrow> mb_copy (unat (mb_GetWritePointer b)) (take room bytes) (length (take room bytes)) (mb_buffer b);
           let b = b\<lparr>mb_buffer := buf\<rparr> in
           if n < 0 then Some (ret, Some errno, b)
           else if n = 0 then Some (0, Some ECONNRESET, b)
           else if n \<le> mb_GetFreeSize b then Some (ret, None, mb_WriteCompleted n b)
           else
             (let extra_size = n - mb_GetFreeSize b; b = mb_WriteCompleted (mb_GetFreeSize b) b in
              do { b \<leftarrow> mb_Write extra extra_size b; Some (ret, None, b) }) })"

section \<open>Invariant and contents\<close>

definition mb_inv :: "msgbuf \<Rightarrow> bool" where
  "mb_inv b \<longleftrightarrow> unat (mb_rpos b) \<le> unat (mb_wpos b) \<and> unat (mb_wpos b) \<le> length (mb_buffer b) \<and>
     length (mb_buffer b) < 2 ^ 63"

text \<open>The bytes that were written and not yet read.\<close>

definition mb_contents :: "msgbuf \<Rightarrow> u8 list" where
  "mb_contents b = take (unat (mb_wpos b) - unat (mb_rpos b)) (drop (unat (mb_rpos b)) (mb_buffer b))"

lemma mb_invD:
  assumes "mb_inv b"
  shows "unat (mb_rpos b) \<le> unat (mb_wpos b)" "unat (mb_wpos b) \<le> length (mb_buffer b)" "length (mb_buffer b) < 2 ^ 63"
  using assms by (simp_all add: mb_inv_def)

lemma unat_of_nat_u64: "k < 2 ^ 64 \<Longrightarrow> unat (of_nat k :: u64) = k"
  by (simp add: unat_of_nat)

lemma unat_diff_u64: "unat (c :: u64) \<le> unat e \<Longrightarrow> unat (e - c) = unat e - unat c"
  by (simp add: unat_sub word_le_nat_alt)

lemma unat_add_u64: "unat a + unat b < 2 ^ 64 \<Longrightarrow> unat (a + b :: u64) = unat a + unat b"
  by (simp add: unat_word_ariths)

lemma mb_sizes:
  assumes "mb_inv b"
  shows "unat (mb_GetActiveSize b) = unat (mb_wpos b) - unat (mb_rpos b)"
    "unat (mb_GetBufferSize b) = length (mb_buffer b)"
    "unat (mb_GetFreeSize b) = length (mb_buffer b) - unat (mb_wpos b)"
    "length (mb_contents b) = unat (mb_GetActiveSize b)"
proof -
  note inv = mb_invD [OF assms]
  show a: "unat (mb_GetActiveSize b) = unat (mb_wpos b) - unat (mb_rpos b)"
    using inv by (simp add: mb_GetActiveSize_def unat_diff_u64)
  show s: "unat (mb_GetBufferSize b) = length (mb_buffer b)"
    unfolding mb_GetBufferSize_def using inv(3) by (intro unat_of_nat_u64) simp
  show "unat (mb_GetFreeSize b) = length (mb_buffer b) - unat (mb_wpos b)"
    using inv(2) s by (simp add: mb_GetFreeSize_def unat_diff_u64)
  show "length (mb_contents b) = unat (mb_GetActiveSize b)"
    unfolding a mb_contents_def using inv by simp
qed

lemma mb_active_contents: "mb_inv b \<Longrightarrow> unat (mb_GetActiveSize b) = length (mb_contents b)"
  by (simp add: mb_sizes(4))

lemma mb_Normalize_ok:
  assumes "mb_inv b"
  shows "\<exists>b'. mb_Normalize b = Some b' \<and> mb_inv b' \<and> mb_contents b' = mb_contents b \<and> mb_rpos b' = 0 \<and>
    length (mb_buffer b') = length (mb_buffer b)"
proof (cases "0 < mb_rpos b")
  case False
  then have "mb_rpos b = 0" by (simp add: word_gt_0)
  then show ?thesis using assms by (simp add: mb_Normalize_def)
next
  case True
  note inv = mb_invD [OF assms] and sz = mb_sizes [OF assms]
  let ?r = "unat (mb_rpos b)" and ?w = "unat (mb_wpos b)" and ?buf = "mb_buffer b"
  let ?b = "b\<lparr>mb_buffer := take (?w - ?r) (drop ?r ?buf) @ drop (?w - ?r) ?buf, mb_wpos := mb_wpos b - mb_rpos b, mb_rpos := 0\<rparr>"
  have "mb_copy 0 (drop ?r ?buf) (unat (mb_GetActiveSize b)) ?buf = Some (take (?w - ?r) (drop ?r ?buf) @ drop (?w - ?r) ?buf)"
  proof -
    have "?w - ?r \<le> length ?buf - ?r" "?w - ?r \<le> length ?buf" using inv(2) by linarith+
    then show ?thesis using sz(1) by (simp add: mb_copy_def)
  qed
  then have eq: "mb_Normalize b = Some ?b" using True by (simp add: mb_Normalize_def)
  have w: "unat (mb_wpos b - mb_rpos b) = ?w - ?r" using inv(1) by (rule unat_diff_u64)
  have "mb_inv ?b" using inv by (simp add: mb_inv_def w)
  moreover have "mb_contents ?b = mb_contents b"
    using inv by (simp add: mb_contents_def w)
  ultimately show ?thesis using eq inv by simp
qed

lemma take_drop_resized:
  "w \<le> length buf \<Longrightarrow> length buf \<le> n \<Longrightarrow> take (w - r) (drop r (take n buf @ zs)) = take (w - r) (drop r buf)"
  by (cases "r \<le> w") simp_all

text \<open>The vector grows only if what it holds and is to hold does not fit: to less than twice that.\<close>

lemma mb_EnsureFreeSpace_ok:
  assumes inv: "mb_inv b" and sz: "length (mb_contents b) + unat sz < 2 ^ 62"
  shows "\<exists>b'. mb_EnsureFreeSpace sz b = Some b' \<and> mb_inv b' \<and> mb_contents b' = mb_contents b \<and>
    unat sz \<le> unat (mb_GetFreeSize b') \<and>
    length (mb_buffer b') \<le> max (length (mb_buffer b)) (2 * (length (mb_contents b) + unat sz))"
proof -
  note d = mb_invD [OF inv] and s = mb_sizes [OF inv]
  let ?len = "length (mb_buffer b)" and ?act = "length (mb_contents b)"
  obtain n where n: "mb_Normalize b = Some n" "mb_inv n" "mb_contents n = mb_contents b" "mb_rpos n = 0"
      "length (mb_buffer n) = ?len"
    using mb_Normalize_ok [OF inv] by blast
  have wn: "unat (mb_wpos n) = ?act"
    using mb_sizes(1,4) [OF n(2)] n(3,4) by simp
  have bd: "unat (mb_GetBufferSize b - mb_GetActiveSize b) = ?len - ?act"
    using d s by (simp add: unat_diff_u64)
  show ?thesis
  proof (cases "mb_GetBufferSize b - mb_GetActiveSize b < sz")
    case True
    then have lt: "?len < ?act + unat sz" using bd d s by (simp add: word_less_nat_alt)
    let ?g = "mb_GetBufferSize n + max sz (mb_GetBufferSize n div 2)"
    have m: "unat (max sz (mb_GetBufferSize n div 2)) = max (unat sz) (?len div 2)"
      using mb_sizes(2) [OF n(2)] n(5) by (simp add: max_def word_le_nat_alt unat_div)
    have g: "unat ?g = ?len + max (unat sz) (?len div 2)"
      using m mb_sizes(2) [OF n(2)] n(5) lt sz by (subst unat_add_u64) simp_all
    have small: "unat ?g < 2 ^ 63" "unat ?g \<le> 2 * (?act + unat sz)" using g lt sz by simp_all
    let ?buf = "take (unat ?g) (mb_buffer n) @ replicate (unat ?g - length (mb_buffer n)) 0"
    let ?b = "n\<lparr>mb_buffer := ?buf\<rparr>"
    have eq: "mb_EnsureFreeSpace sz b = Some ?b"
      using True n(1) small(1) by (simp add: mb_EnsureFreeSpace_def mb_resize_def)
    have len: "length ?buf = unat ?g" using g n(5) by simp
    have inv': "mb_inv ?b" using mb_invD [OF n(2)] len g n(5) small(1) by (simp add: mb_inv_def)
    have "mb_contents ?b = mb_contents n"
      using mb_invD(2) [OF n(2)] g n(5) unfolding mb_contents_def by (simp add: take_drop_resized)
    moreover have "unat sz \<le> unat (mb_GetFreeSize ?b)"
    proof -
      have "unat (mb_GetFreeSize ?b) = unat ?g - ?act" using mb_sizes(3) [OF inv'] len wn by simp
      moreover have "?act \<le> ?len" using d s by linarith
      ultimately show ?thesis using g by linarith
    qed
    moreover have "length (mb_buffer ?b) \<le> max ?len (2 * (?act + unat sz))" using len small(2) by simp
    ultimately show ?thesis using eq inv' n(3) by (intro exI [of _ ?b] conjI) (simp only:)+
  next
    case False
    then have ge: "unat sz \<le> ?len - ?act" using bd by (simp add: word_less_nat_alt)
    show ?thesis
    proof (cases "mb_GetFreeSize b < sz")
      case True
      then have "mb_EnsureFreeSpace sz b = Some n" using False n(1) by (simp add: mb_EnsureFreeSpace_def)
      moreover have "unat sz \<le> unat (mb_GetFreeSize n)" using mb_sizes(3) [OF n(2)] wn n(5) ge by simp
      ultimately show ?thesis using n by auto
    next
      case fits: False
      then have "mb_EnsureFreeSpace sz b = Some b" using False by (simp add: mb_EnsureFreeSpace_def)
      then show ?thesis using inv fits by (auto simp: word_less_nat_alt)
    qed
  qed
qed

lemma mb_WriteCompleted_ok:
  assumes inv: "mb_inv b" and n: "unat n \<le> unat (mb_GetFreeSize b)"
  shows "mb_inv (mb_WriteCompleted n b)"
    "mb_contents (mb_WriteCompleted n b) = mb_contents b @ take (unat n) (drop (unat (mb_wpos b)) (mb_buffer b))"
    "mb_GetFreeSize (mb_WriteCompleted n b) = mb_GetFreeSize b - n"
proof -
  note d = mb_invD [OF inv]
  have n': "unat n \<le> length (mb_buffer b) - unat (mb_wpos b)" using n mb_sizes(3) [OF inv] by simp
  have w: "unat (mb_wpos b + n) = unat (mb_wpos b) + unat n"
    using n' d by (intro unat_add_u64) simp
  show "mb_inv (mb_WriteCompleted n b)" using d n' w by (simp add: mb_inv_def mb_WriteCompleted_def)
  have e: "unat (mb_wpos b) + unat n - unat (mb_rpos b) = (unat (mb_wpos b) - unat (mb_rpos b)) + unat n"
    "unat (mb_wpos b) - unat (mb_rpos b) + unat (mb_rpos b) = unat (mb_wpos b)"
    using d(1) by simp_all
  have u: "mb_contents (mb_WriteCompleted n b) =
      take (unat (mb_wpos b + n) - unat (mb_rpos b)) (drop (unat (mb_rpos b)) (mb_buffer b))"
    by (simp add: mb_contents_def mb_WriteCompleted_def)
  show "mb_contents (mb_WriteCompleted n b) = mb_contents b @ take (unat n) (drop (unat (mb_wpos b)) (mb_buffer b))"
    unfolding u w e(1) take_add drop_drop e(2) unfolding mb_contents_def ..
  show "mb_GetFreeSize (mb_WriteCompleted n b) = mb_GetFreeSize b - n"
    by (simp add: mb_GetFreeSize_def mb_WriteCompleted_def mb_GetBufferSize_def)
qed

text \<open>Bytes stored behind the write position leave the contents alone.\<close>

lemma mb_store_ok:
  assumes inv: "mb_inv b" and n: "n \<le> length src" "n \<le> unat (mb_GetFreeSize b)"
  shows "\<exists>buf. mb_copy (unat (mb_wpos b)) src n (mb_buffer b) = Some buf \<and> length buf = length (mb_buffer b) \<and>
    mb_inv (b\<lparr>mb_buffer := buf\<rparr>) \<and> mb_contents (b\<lparr>mb_buffer := buf\<rparr>) = mb_contents b \<and>
    mb_GetFreeSize (b\<lparr>mb_buffer := buf\<rparr>) = mb_GetFreeSize b \<and>
    take n (drop (unat (mb_wpos b)) buf) = take n src"
proof -
  note d = mb_invD [OF inv]
  let ?w = "unat (mb_wpos b)"
  let ?buf = "take ?w (mb_buffer b) @ take n src @ drop (?w + n) (mb_buffer b)"
  have n': "?w + n \<le> length (mb_buffer b)" using n(2) mb_sizes(3) [OF inv] d(2) by simp
  have len: "length ?buf = length (mb_buffer b)" using n(1) n' by simp
  have "mb_copy ?w src n (mb_buffer b) = Some ?buf" using n(1) n' by (simp add: mb_copy_def)
  moreover have "mb_inv (b\<lparr>mb_buffer := ?buf\<rparr>)" using d len by (simp only: mb_inv_def msgbuf.simps) simp
  moreover have "mb_contents (b\<lparr>mb_buffer := ?buf\<rparr>) = mb_contents b"
    using d(1,2) by (simp add: mb_contents_def drop_take)
  moreover have "mb_GetFreeSize (b\<lparr>mb_buffer := ?buf\<rparr>) = mb_GetFreeSize b"
    using len by (simp only: mb_GetFreeSize_def mb_GetBufferSize_def msgbuf.simps) simp
  moreover have "take n (drop ?w ?buf) = take n src" using d(2) n(1) by simp
  ultimately show ?thesis using len by blast
qed

lemma mb_Write_ok:
  assumes inv: "mb_inv b" and sz: "length (mb_contents b) + unat sz < 2 ^ 62" "unat sz \<le> length data"
  shows "\<exists>b'. mb_Write data sz b = Some b' \<and> mb_inv b' \<and> mb_contents b' = mb_contents b @ take (unat sz) data \<and>
    length (mb_buffer b') \<le> max (length (mb_buffer b)) (2 * (length (mb_contents b) + unat sz))"
proof (cases "0 < sz")
  case False
  then have "unat sz = 0" by (simp add: word_gt_0)
  then show ?thesis using inv False by (simp add: mb_Write_def)
next
  case True
  obtain e where e: "mb_EnsureFreeSpace sz b = Some e" "mb_inv e" "mb_contents e = mb_contents b"
      "unat sz \<le> unat (mb_GetFreeSize e)"
      "length (mb_buffer e) \<le> max (length (mb_buffer b)) (2 * (length (mb_contents b) + unat sz))"
    using mb_EnsureFreeSpace_ok [OF inv sz(1)] by blast
  obtain buf where buf: "mb_copy (unat (mb_wpos e)) data (unat sz) (mb_buffer e) = Some buf"
      "length buf = length (mb_buffer e)" "mb_inv (e\<lparr>mb_buffer := buf\<rparr>)" "mb_contents (e\<lparr>mb_buffer := buf\<rparr>) = mb_contents e"
      "mb_GetFreeSize (e\<lparr>mb_buffer := buf\<rparr>) = mb_GetFreeSize e" "take (unat sz) (drop (unat (mb_wpos e)) buf) = take (unat sz) data"
    using mb_store_ok [OF e(2) sz(2) e(4)] by blast
  let ?b = "mb_WriteCompleted sz (e\<lparr>mb_buffer := buf\<rparr>)"
  have "mb_Write data sz b = Some ?b" using True e(1) buf(1) by (simp add: mb_Write_def mb_GetWritePointer_def)
  moreover have "mb_inv ?b" "mb_contents ?b = mb_contents b @ take (unat sz) data"
    using mb_WriteCompleted_ok [OF buf(3), of sz] buf(4-6) e(3,4) by simp_all
  moreover have "length (mb_buffer ?b) = length (mb_buffer e)" using buf(2) by (simp add: mb_WriteCompleted_def)
  ultimately show ?thesis using e(5) by auto
qed

lemma mb_ReadCompleted_ok:
  assumes inv: "mb_inv b" and n: "unat n \<le> length (mb_contents b)"
  shows "mb_inv (mb_ReadCompleted n b)" "mb_contents (mb_ReadCompleted n b) = drop (unat n) (mb_contents b)"
    "mb_buffer (mb_ReadCompleted n b) = mb_buffer b"
proof -
  note d = mb_invD [OF inv]
  have n': "unat n \<le> unat (mb_wpos b) - unat (mb_rpos b)" using n mb_sizes(1,4) [OF inv] by simp
  have r: "unat (mb_rpos b + n) = unat (mb_rpos b) + unat n"
    using n' d by (intro unat_add_u64) simp
  show "mb_inv (mb_ReadCompleted n b)" using d n' r by (simp add: mb_inv_def mb_ReadCompleted_def)
  show "mb_contents (mb_ReadCompleted n b) = drop (unat n) (mb_contents b)"
    by (simp add: mb_contents_def mb_ReadCompleted_def r drop_take ac_simps(2) [of _ "unat n"])
qed (simp add: mb_ReadCompleted_def)

section \<open>The end of a line\<close>

text \<open>There is a carriage return and line feed at the index.\<close>

definition crlf_at :: "u8 list \<Rightarrow> nat \<Rightarrow> bool" where
  "crlf_at cs j \<longleftrightarrow> take 2 (drop j cs) = [13, 10]"

fun crlf_pos :: "u8 list \<Rightarrow> nat option" where
  "crlf_pos (c # d # cs) = (if c = 13 \<and> d = 10 then Some 0 else map_option Suc (crlf_pos (d # cs)))"
| "crlf_pos _ = None"

lemma crlf_at_simps [simp]:
  "crlf_at cs (Suc j) = crlf_at (tl cs) j"
  "crlf_at (c # d # cs) 0 \<longleftrightarrow> c = 13 \<and> d = 10" "\<not> crlf_at [c] j" "\<not> crlf_at [] j"
  by (auto simp: crlf_at_def drop_Suc) (cases j; simp)+

lemma crlf_pos_Some: "crlf_pos cs = Some i \<Longrightarrow> crlf_at cs i \<and> (\<forall>j < i. \<not> crlf_at cs j)"
proof (induction cs arbitrary: i rule: crlf_pos.induct)
  case (1 c d cs)
  show ?case
  proof (cases "c = 13 \<and> d = 10")
    case False
    then obtain k where k: "crlf_pos (d # cs) = Some k" "i = Suc k" using "1.prems" by (auto split: if_splits)
    have "\<not> crlf_at (c # d # cs) j" if "j < i" for j
      using "1.IH" [OF False k(1)] that False k(2) by (cases j) auto
    then show ?thesis using "1.IH" [OF False k(1)] k(2) by simp
  qed (use "1.prems" in simp)
qed simp_all

lemma crlf_pos_None: "crlf_pos cs = None \<Longrightarrow> \<not> crlf_at cs j"
proof (induction cs arbitrary: j rule: crlf_pos.induct)
  case (1 c d cs)
  then show ?case by (cases j) (auto split: if_splits)
qed simp_all

lemma mb_crlf_loop_eq:
  "unat bound = i + k \<Longrightarrow> i + k < 2 ^ 63 \<Longrightarrow> k < length rest \<Longrightarrow>
   mb_crlf_loop bound (of_nat i) rest =
     Some (map_option (\<lambda>j. of_nat (i + j)) (crlf_pos (take (Suc k) rest)))"
proof (induction rest arbitrary: i k)
  case (Cons c rest)
  have lt: "(of_nat i :: u64) < bound \<longleftrightarrow> 0 < k"
    using Cons.prems by (simp add: word_less_nat_alt unat_of_nat_u64)
  show ?case
  proof (cases k)
    case 0
    then show ?thesis using lt by simp
  next
    case (Suc l)
    then obtain d ds where r: "rest = d # ds" using Cons.prems(3) by (cases rest) auto
    have IH: "mb_crlf_loop bound (of_nat (Suc i)) rest =
        Some (map_option (\<lambda>j. of_nat (Suc i + j)) (crlf_pos (take (Suc l) rest)))"
      using Cons.prems Suc by (intro Cons.IH) auto
    have o: "(of_nat (Suc i) :: u64) = of_nat i + 1" by simp
    show ?thesis
      using lt Suc IH unfolding r o by (auto simp: option.map_comp comp_def ac_simps split: if_splits)
  qed
qed simp

lemma mb_GetDataUntilCRLF_eq:
  assumes inv: "mb_inv b" and ne: "mb_contents b \<noteq> []"
  shows "mb_GetDataUntilCRLF b =
    Some (case crlf_pos (mb_contents b) of Some i \<Rightarrow> (Some (mb_rpos b), of_nat i) | None \<Rightarrow> (None, 0))"
proof -
  note d = mb_invD [OF inv] and s = mb_sizes [OF inv]
  let ?k = "length (mb_contents b) - 1" and ?rest = "drop (unat (mb_rpos b)) (mb_buffer b)"
  have pos: "0 < length (mb_contents b)" using ne by simp
  then have "unat (mb_GetActiveSize b - 1) = ?k"
    using s(4) by (subst unat_minus_one) (auto simp: unat_eq_0 [symmetric])
  moreover have "?k < 2 ^ 63" "?k < length ?rest" "Suc ?k = unat (mb_wpos b) - unat (mb_rpos b)"
    using s(1,4) d pos by simp_all
  moreover from this(3) have "take (Suc ?k) ?rest = mb_contents b" by (simp only: mb_contents_def)
  ultimately have "mb_crlf_loop (mb_GetActiveSize b - 1) 0 ?rest = Some (map_option of_nat (crlf_pos (mb_contents b)))"
    using mb_crlf_loop_eq [of "mb_GetActiveSize b - 1" 0 ?k ?rest] by simp
  then show ?thesis
    by (simp add: mb_GetDataUntilCRLF_def mb_GetReadPointer_def split: option.split)
qed

section \<open>Properties\<close>

text \<open>What a client does: it writes bytes, or takes up to \<open>k\<close> bytes at the read pointer.\<close>

datatype mb_op = MWrite "u8 list" | MRead nat

fun mb_run :: "mb_op list \<Rightarrow> msgbuf \<Rightarrow> (u8 list \<times> msgbuf) option" where
  "mb_run [] b = Some ([], b)"
| "mb_run (MWrite data # ops) b = do { b \<leftarrow> mb_Write data (of_nat (length data)) b; mb_run ops b }"
| "mb_run (MRead k # ops) b =
     (let (p, sz) = mb_GetAllData b; n = min k (unat sz) in
      do { (out, b') \<leftarrow> mb_run ops (mb_ReadCompleted (of_nat n) b);
           Some (take n (drop (unat p) (mb_buffer b)) @ out, b') })"

fun mb_written :: "mb_op list \<Rightarrow> u8 list" where
  "mb_written [] = []"
| "mb_written (MWrite data # ops) = data @ mb_written ops"
| "mb_written (MRead k # ops) = mb_written ops"

lemma mb_take_read: "n \<le> length (mb_contents b) \<Longrightarrow> take n (drop (unat (mb_rpos b)) (mb_buffer b)) = take n (mb_contents b)"
  unfolding mb_contents_def by (subst take_take) (simp add: min_absorb1)

lemma mb_run_ok:
  "mb_inv b \<Longrightarrow> length (mb_contents b) + length (mb_written ops) < 2 ^ 62 \<Longrightarrow>
   \<exists>out b'. mb_run ops b = Some (out, b') \<and> mb_inv b' \<and> out @ mb_contents b' = mb_contents b @ mb_written ops \<and>
     length (mb_buffer b') \<le> max (length (mb_buffer b)) (2 * (length (mb_contents b) + length (mb_written ops)))"
proof (induction ops arbitrary: b rule: mb_written.induct)
  case 1
  then show ?case by simp
next
  case (2 data ops)
  have u: "unat (of_nat (length data) :: u64) = length data"
    using "2.prems"(2) by (intro unat_of_nat_u64) simp
  obtain b1 where b1: "mb_Write data (of_nat (length data)) b = Some b1" "mb_inv b1" "mb_contents b1 = mb_contents b @ data"
      "length (mb_buffer b1) \<le> max (length (mb_buffer b)) (2 * (length (mb_contents b) + length data))"
    using mb_Write_ok [OF "2.prems"(1), of "of_nat (length data)" data] "2.prems"(2) u by auto
  show ?case using "2.IH" [OF b1(2)] b1 "2.prems"(2) by auto
next
  case (3 k ops)
  let ?n = "min k (unat (mb_GetActiveSize b))"
  have n: "?n \<le> length (mb_contents b)" by (simp add: mb_sizes(4) [OF "3.prems"(1)])
  have u: "unat (of_nat ?n :: u64) = ?n" using n "3.prems"(2) by (intro unat_of_nat_u64) simp
  have rc: "mb_inv (mb_ReadCompleted (of_nat ?n) b)" "mb_contents (mb_ReadCompleted (of_nat ?n) b) = drop ?n (mb_contents b)"
    "mb_buffer (mb_ReadCompleted (of_nat ?n) b) = mb_buffer b"
    using mb_ReadCompleted_ok [OF "3.prems"(1), of "of_nat ?n"] n u by simp_all
  obtain out b' where r: "mb_run ops (mb_ReadCompleted (of_nat ?n) b) = Some (out, b')" "mb_inv b'"
      "out @ mb_contents b' = drop ?n (mb_contents b) @ mb_written ops"
      "length (mb_buffer b') \<le> max (length (mb_buffer b)) (2 * (length (mb_contents b) - ?n + length (mb_written ops)))"
  proof -
    have "length (drop ?n (mb_contents b)) + length (mb_written ops) < 2 ^ 62" using "3.prems"(2) by simp
    then show ?thesis using "3.IH" [OF rc(1)] that unfolding rc(2,3) by (auto simp del: power_numeral)
  qed
  have "mb_run (MRead k # ops) b = Some (take ?n (mb_contents b) @ out, b')"
    using r(1) mb_take_read [OF n] by (simp add: mb_GetAllData_def mb_GetReadPointer_def)
  then show ?case using r(2-4) by auto
qed

lemma mb_ctor_inv: "mb_inv MessageBuffer_ctor" "mb_contents MessageBuffer_ctor = []"
  by (simp_all add: MessageBuffer_ctor_def mb_inv_def mb_contents_def)

lemma mb_sized_inv: "MessageBuffer_sized sz = Some b \<Longrightarrow> mb_inv b \<and> mb_contents b = [] \<and> length (mb_buffer b) = unat sz"
  by (auto simp: MessageBuffer_sized_def mb_inv_def mb_contents_def split: if_splits)

text \<open>
  C14: From a new buffer of any size, every sequence of writes and reads succeeds (fewer than \<open>2 ^ 62\<close>
  bytes in all): what was read, followed by what is still in the buffer, is what was written, across
  all moves and growths of the vector. The vector never gets longer than twice the bytes written,
  if it was not longer at first.
\<close>

theorem MessageBuffer_stream:
  assumes "MessageBuffer_sized sz = Some b" and "length (mb_written ops) < 2 ^ 62"
  shows "\<exists>out b'. mb_run ops b = Some (out, b') \<and> out @ mb_contents b' = mb_written ops \<and>
    length (mb_buffer b') \<le> max (unat sz) (2 * length (mb_written ops))"
  using mb_run_ok [of b ops] mb_sized_inv [OF assms(1)] assms(2) by auto

theorem MessageBuffer_stream_witness:
  "\<exists>b out b'. MessageBuffer_sized 4 = Some b \<and>
    mb_run [MWrite [1, 2, 3], MRead 2, MWrite [4, 5, 6, 7, 8], MRead 5] b = Some (out, b') \<and>
    out @ mb_contents b' = [1, 2, 3, 4, 5, 6, 7, 8]"
proof -
  obtain b where b: "MessageBuffer_sized 4 = Some b" by (simp add: MessageBuffer_sized_def)
  show ?thesis
    using MessageBuffer_stream [OF b, of "[MWrite [1, 2, 3], MRead 2, MWrite [4, 5, 6, 7, 8], MRead 5]"] b by auto
qed

text \<open>
  \<open>GetDataUntilCRLF\<close> of a buffer that is not empty returns the read pointer and the length of the
  text before the first carriage return and line feed, or the null pointer if there is none. (It does not look behind
  the write position.)
\<close>

theorem MessageBuffer_until_crlf:
  assumes "mb_inv b" and "mb_contents b \<noteq> []"
  shows "(\<exists>i. mb_GetDataUntilCRLF b = Some (Some (mb_rpos b), of_nat i) \<and> crlf_at (mb_contents b) i \<and>
       (\<forall>j < i. \<not> crlf_at (mb_contents b) j)) \<or>
     mb_GetDataUntilCRLF b = Some (None, 0) \<and> (\<forall>j. \<not> crlf_at (mb_contents b) j)"
proof (cases "crlf_pos (mb_contents b)")
  case None
  then show ?thesis using mb_GetDataUntilCRLF_eq [OF assms] crlf_pos_None by simp
next
  case (Some i)
  then show ?thesis using mb_GetDataUntilCRLF_eq [OF assms] crlf_pos_Some [OF Some] by auto
qed

theorem MessageBuffer_until_crlf_witness:
  "\<exists>i. mb_GetDataUntilCRLF \<lparr>mb_buffer = [65, 66, 13, 10, 67, 0], mb_rpos = 1, mb_wpos = 5\<rparr> = Some (Some 1, of_nat i) \<and>
    crlf_at [66, 13, 10, 67] i"
proof -
  let ?b = "\<lparr>mb_buffer = [65, 66, 13, 10, 67, 0], mb_rpos = 1, mb_wpos = 5\<rparr>"
  have c: "mb_contents ?b = [66, 13, 10, 67]" by (simp add: mb_contents_def)
  have at: "crlf_at [66, 13, 10, 67] 1" by simp
  have b: "mb_inv ?b" "mb_contents ?b \<noteq> []" "mb_rpos ?b = 1" by (simp add: mb_inv_def, simp_all add: c)
  show ?thesis using MessageBuffer_until_crlf [OF b(1,2)] at unfolding c b(3) by blast
qed

lemma mb_crlf_loop_runs_out:
  "13 \<notin> set rest \<Longrightarrow> length rest + unat i < unat bound \<Longrightarrow> mb_crlf_loop bound i rest = None"
proof (induction rest arbitrary: i)
  case Nil
  then show ?case by (simp add: word_less_nat_alt)
next
  case (Cons c rest)
  have "unat (i + 1) = unat i + 1"
    using Cons.prems(2) unat_less_2p64 [of bound] by (simp add: unat_add_u64)
  then show ?case using Cons by (simp add: word_less_nat_alt)
qed

text \<open>
  On an empty buffer the bound \<open>active_size - 1\<close> wraps: on a new buffer \<open>GetDataUntilCRLF\<close> reads past
  the end of the vector; and after a line was read completely it finds that line's successor in the
  stale bytes.
\<close>

theorem MessageBuffer_crlf_empty:
  "mb_GetDataUntilCRLF MessageBuffer_ctor = None \<and>
   mb_contents \<lparr>mb_buffer = [65, 13, 10, 66, 13, 10], mb_rpos = 3, mb_wpos = 3\<rparr> = [] \<and>
   mb_GetDataUntilCRLF \<lparr>mb_buffer = [65, 13, 10, 66, 13, 10], mb_rpos = 3, mb_wpos = 3\<rparr> = Some (Some 3, 1)"
proof -
  have "mb_crlf_loop (- 1) 0 (replicate 4096 0) = None"
    by (rule mb_crlf_loop_runs_out) (simp_all add: unsigned_minus_1_eq_mask mask_eq_exp_minus_1)
  then have "mb_GetDataUntilCRLF MessageBuffer_ctor = None"
    by (simp add: mb_GetDataUntilCRLF_def MessageBuffer_ctor_def mb_GetActiveSize_def mb_GetReadPointer_def)
  moreover have "(1 :: u64) < - 1" by (simp add: word_less_nat_alt unsigned_minus_1_eq_mask mask_eq_exp_minus_1)
  ultimately show ?thesis
    by (simp add: mb_GetDataUntilCRLF_def mb_GetActiveSize_def mb_GetReadPointer_def mb_contents_def word_gt_0)
qed

lemma mb_Write_too_long: "length data < unat sz \<Longrightarrow> mb_Write data sz b = None"
proof -
  assume lt: "length data < unat sz"
  then have "sz \<noteq> 0" by auto
  then show ?thesis
    using lt by (cases "mb_EnsureFreeSpace sz b") (auto simp: mb_Write_def mb_copy_def word_gt_0)
qed

lemma mb_Recv_error:
  assumes "mb_inv b" "length junk = 65535"
  shows "mb_Recv (- 1) [] errno junk b = None"
proof -
  have f: "unat (mb_GetFreeSize b) < 2 ^ 63" using mb_sizes(3) [OF assms(1)] mb_invD [OF assms(1)] by simp
  have m: "unat (- 1 :: u64) = 2 ^ 64 - 1" by (simp add: unsigned_minus_1_eq_mask mask_eq_exp_minus_1)
  have d: "unat (- 1 - mb_GetFreeSize b) = 2 ^ 64 - 1 - unat (mb_GetFreeSize b)"
    using f m by (subst unat_diff_u64) simp_all
  have le: "\<not> (- 1 :: u64) \<le> mb_GetFreeSize b" using f m by (simp only: word_le_nat_alt) simp
  have "mb_Write (take 65535 junk) (- 1 - mb_GetFreeSize b) c = None" for c
    using d f assms(2) by (intro mb_Write_too_long) simp
  then show ?thesis
    using mb_invD(2) [OF assms(1)] le by (simp add: mb_Recv_def Let_def mb_copy_def mb_GetWritePointer_def)
qed

lemma sint_ucast_of_nat: "k < 2 ^ 31 \<Longrightarrow> sint (ucast (of_nat k :: u64) :: u32) = int k"
  by (simp add: unsigned_of_nat signed_of_nat signed_take_bit_int_eq_self take_bit_nat_eq_self)

lemma mb_Recv_end: "mb_inv b \<Longrightarrow> mb_Recv 0 [] errno junk b = Some (0, Some ECONNRESET, b)"
  using mb_invD(2) [of b] by (simp add: mb_Recv_def Let_def mb_copy_def mb_GetWritePointer_def)

lemma mb_Recv_data:
  assumes inv: "mb_inv b" and junk: "length junk = 65535" and sm: "length (mb_contents b) + length bytes < 2 ^ 31"
    and ne: "bytes \<noteq> []" and le: "length bytes \<le> unat (mb_GetFreeSize b) + 65535"
  shows "\<exists>b'. mb_Recv (int (length bytes)) bytes errno junk b = Some (int (length bytes), None, b') \<and>
    mb_inv b' \<and> mb_contents b' = mb_contents b @ bytes"
proof -
  let ?room = "unat (mb_GetFreeSize b)" and ?n = "of_nat (length bytes) :: u64"
  have un: "unat ?n = length bytes" using sm by (intro unat_of_nat_u64) simp
  have n0: "?n \<noteq> 0" using un ne by auto
  have ret: "sint (ucast ?n :: u32) = int (length bytes)"
    using sm by (intro sint_ucast_of_nat) simp
  obtain buf where buf: "mb_copy (unat (mb_wpos b)) (take ?room bytes) (length (take ?room bytes)) (mb_buffer b) = Some buf"
      "mb_inv (b\<lparr>mb_buffer := buf\<rparr>)" "mb_contents (b\<lparr>mb_buffer := buf\<rparr>) = mb_contents b"
      "mb_GetFreeSize (b\<lparr>mb_buffer := buf\<rparr>) = mb_GetFreeSize b"
      "take (length (take ?room bytes)) (drop (unat (mb_wpos b)) buf) = take (length (take ?room bytes)) (take ?room bytes)"
    using mb_store_ok [OF inv, of "length (take ?room bytes)" "take ?room bytes"] by (auto simp del: take_take)
  let ?b = "b\<lparr>mb_buffer := buf\<rparr>"
  show ?thesis
  proof (cases "?n \<le> mb_GetFreeSize b")
    case True
    then have fits: "length bytes \<le> ?room" using un by (simp add: word_le_nat_alt)
    have "mb_Recv (int (length bytes)) bytes errno junk b = Some (int (length bytes), None, mb_WriteCompleted ?n ?b)"
      using True n0 buf(1,4) ret by (simp add: mb_Recv_def Let_def mb_GetWritePointer_def)
    moreover have "mb_inv (mb_WriteCompleted ?n ?b)" "mb_contents (mb_WriteCompleted ?n ?b) = mb_contents b @ bytes"
      using mb_WriteCompleted_ok [OF buf(2), of ?n] fits buf(3-5) un by simp_all
    ultimately show ?thesis by blast
  next
    case False
    then have over: "?room < length bytes" using un by (simp add: word_le_nat_alt)
    let ?c = "mb_WriteCompleted (mb_GetFreeSize b) ?b"
    let ?x = "?n - mb_GetFreeSize b" and ?extra = "take 65535 (drop ?room bytes @ junk)"
    have x: "unat ?x = length bytes - ?room" using un over by (simp add: unat_diff_u64)
    have c: "mb_inv ?c" "mb_contents ?c = mb_contents b @ take ?room bytes"
      using mb_WriteCompleted_ok [OF buf(2), of "mb_GetFreeSize b"] buf(3-5) over by simp_all
    have "take (unat ?x) ?extra = drop ?room bytes" using x le by simp
    moreover have "unat ?x \<le> length ?extra" "length (mb_contents ?c) + unat ?x < 2 ^ 62"
      using x le junk sm over unfolding c(2) by simp_all
    ultimately obtain d where d: "mb_Write ?extra ?x ?c = Some d" "mb_inv d"
        "mb_contents d = (mb_contents b @ take ?room bytes) @ drop ?room bytes"
      using mb_Write_ok [OF c(1), of ?x ?extra] unfolding c(2) by auto
    have "mb_Recv (int (length bytes)) bytes errno junk b = Some (int (length bytes), None, d)"
      using False n0 buf(1,4) ret d(1) by (simp add: mb_Recv_def Let_def mb_GetWritePointer_def)
    then show ?thesis using d(2,3) by simp
  qed
qed

text \<open>
  \<open>Recv\<close> appends exactly what \<open>readv\<close> delivered, also what went to the array on the stack, and
  returns its length; at the end of the stream it reports \<open>ECONNRESET\<close>. When \<open>readv\<close> fails, the test
  for a negative result never holds, and the behaviour is undefined.
\<close>

theorem MessageBuffer_Recv:
  assumes "mb_inv b" and "length junk = 65535" and "length (mb_contents b) + length bytes < 2 ^ 31"
    and "length bytes \<le> unat (mb_GetFreeSize b) + 65535"
  shows "mb_Recv (- 1) [] errno junk b = None \<and> mb_Recv 0 [] errno junk b = Some (0, Some ECONNRESET, b) \<and>
    (bytes \<noteq> [] \<longrightarrow>
      (\<exists>b'. mb_Recv (int (length bytes)) bytes errno junk b = Some (int (length bytes), None, b') \<and>
         mb_inv b' \<and> mb_contents b' = mb_contents b @ bytes))"
  using mb_Recv_error [OF assms(1,2)] mb_Recv_end [OF assms(1)] mb_Recv_data [OF assms(1-3) _ assms(4)] by blast

theorem MessageBuffer_Recv_witness:
  "\<exists>b'. mb_Recv 3 [7, 8, 9] 0 (replicate 65535 0) \<lparr>mb_buffer = [65, 66], mb_rpos = 0, mb_wpos = 1\<rparr> = Some (3, None, b') \<and>
    mb_contents b' = [65, 7, 8, 9]"
  using MessageBuffer_Recv [of "\<lparr>mb_buffer = [65, 66], mb_rpos = 0, mb_wpos = 1\<rparr>" "replicate 65535 0" "[7, 8, 9]" 0]
  by (auto simp: mb_inv_def mb_contents_def)

end
