(* ===== verification/TcpConn.thy ===== *)
theory TcpConn
  imports MessageBuffer
begin

text \<open>
  One TCP connection of \<^verbatim>\<open>network_buffer_design/TcpConnection.cc\<close> (the code of \<^verbatim>\<open>network_timer\<close> differs by a
  message) with the registration of its descriptor in \<^verbatim>\<open>EventLoop.h\<close>. The results of \<open>send\<close> and \<open>readv\<close>
  are arguments, as is what they transfer; \<open>tc_wire\<close> collects what the kernel accepted for
  sending. A call on a closed descriptor fails with \<open>EBADF\<close> (the number is taken not to be in use
  again). The program's own read callback is not part of the connection; \<open>HandleRead\<close> tells whether it is called.
\<close>

section \<open>The event loop's registrations\<close>

type_synonym interest = "int \<Rightarrow> u32 option"

definition EPOLLIN :: u32 where "EPOLLIN = 1"
definition EPOLLOUT :: u32 where "EPOLLOUT = 4"
definition EPOLLERR :: u32 where "EPOLLERR = 8"
definition EPOLLHUP :: u32 where "EPOLLHUP = 16"
definition EPOLLRDHUP :: u32 where "EPOLLRDHUP = 8192"

text \<open>\<open>epoll_ctl\<close> fails, and only a message is printed, when the descriptor is there already or is not there.\<close>

definition el_AddEvent :: "int \<Rightarrow> u32 \<Rightarrow> interest \<Rightarrow> interest" where
  "el_AddEvent fd events l = (if l fd = None then l(fd \<mapsto> events) else l)"

definition el_ModEvent :: "int \<Rightarrow> u32 \<Rightarrow> interest \<Rightarrow> interest" where
  "el_ModEvent fd events l = (if l fd = None then l else l(fd \<mapsto> events))"

definition el_DelEvent :: "int \<Rightarrow> interest \<Rightarrow> interest" where
  "el_DelEvent fd l = l(fd := None)"

section \<open>The connection\<close>

record tcp_conn =
  tc_fd :: int
  tc_evloop :: interest
  tc_closed :: bool
  tc_output :: "u8 list"
  tc_input :: msgbuf
  tc_wire :: "u8 list"

definition EAGAIN :: int where "EAGAIN = 11"
definition EBADF :: int where "EBADF = 9"

definition TcpConn_ctor :: "int \<Rightarrow> interest \<Rightarrow> tcp_conn" where
  "TcpConn_ctor fd l =
     \<lparr>tc_fd = fd, tc_evloop = el_AddEvent fd (EPOLLIN OR EPOLLRDHUP) l, tc_closed = False, tc_output = [],
      tc_input = MessageBuffer_ctor, tc_wire = []\<rparr>"

definition tc_Close :: "tcp_conn \<Rightarrow> tcp_conn" where
  "tc_Close c = (if tc_closed c then c
     else c\<lparr>tc_closed := True, tc_evloop := el_DelEvent (tc_fd c) (tc_evloop c)\<rparr>)"

definition tc_DisableWrite :: "tcp_conn \<Rightarrow> tcp_conn" where
  "tc_DisableWrite c = c\<lparr>tc_evloop := el_ModEvent (tc_fd c) (EPOLLIN OR EPOLLRDHUP) (tc_evloop c)\<rparr>"

definition tc_EnableWrite :: "tcp_conn \<Rightarrow> tcp_conn" where
  "tc_EnableWrite c = c\<lparr>tc_evloop := el_ModEvent (tc_fd c) (EPOLLIN OR EPOLLOUT OR EPOLLRDHUP) (tc_evloop c)\<rparr>"

text \<open>The system call: its result, \<open>errno\<close>, and the bytes that went out.\<close>

definition sys_send :: "int \<Rightarrow> int \<Rightarrow> u8 list \<Rightarrow> tcp_conn \<Rightarrow> int \<times> int \<times> tcp_conn" where
  "sys_send rv errno data c =
     (if tc_closed c then (- 1, EBADF, c) else (rv, errno, c\<lparr>tc_wire := tc_wire c @ take (nat rv) data\<rparr>))"

text \<open>\<open>Send\<close>: \<open>None\<close> as data is the null pointer.\<close>

definition tc_Send :: "int \<Rightarrow> int \<Rightarrow> u8 list option \<Rightarrow> tcp_conn \<Rightarrow> int \<times> tcp_conn" where
  "tc_Send rv errno dat c =
     (case dat of
        None \<Rightarrow> (- 1, c)
      | Some data \<Rightarrow>
          if tc_closed c \<or> data = [] then (- 1, c)
          else if tc_output c \<noteq> [] then
            (int (length data), tc_EnableWrite (c\<lparr>tc_output := tc_output c @ data\<rparr>))
          else
            (let (n, errno, c) = sys_send rv errno data c in
             (n, if n < 0 then
                   (if errno = EAGAIN then tc_EnableWrite (c\<lparr>tc_output := tc_output c @ data\<rparr>) else tc_Close c)
                 else if n < int (length data) then
                   tc_EnableWrite (c\<lparr>tc_output := tc_output c @ drop (nat n) data\<rparr>)
                 else c)))"

definition tc_HandleRead :: "int \<Rightarrow> u8 list \<Rightarrow> int \<Rightarrow> u8 list \<Rightarrow> tcp_conn \<Rightarrow> (bool \<times> tcp_conn) option" where
  "tc_HandleRead rv bytes errno junk c =
     do { (n, e, b) \<leftarrow> mb_Recv rv bytes errno junk (tc_input c);
          let c = c\<lparr>tc_input := b\<rparr>; err = (case e of None \<Rightarrow> 0 | Some x \<Rightarrow> x) in
          if n > 0 then Some (True, c)
          else if n = 0 \<or> n < 0 \<and> err \<noteq> EAGAIN then Some (False, tc_Close c)
          else Some (False, c) }"

definition tc_HandleWrite :: "int \<Rightarrow> int \<Rightarrow> tcp_conn \<Rightarrow> tcp_conn" where
  "tc_HandleWrite rv errno c =
     (let (n, errno, c) = sys_send rv errno (tc_output c) c in
      if n > 0 then
        (let c = c\<lparr>tc_output := drop (nat n) (tc_output c)\<rparr> in
         if tc_output c = [] then tc_DisableWrite c else c)
      else if n < 0 \<and> errno \<noteq> EAGAIN then tc_Close c
      else c)"

text \<open>What the system calls of one \<open>HandleIO\<close> return.\<close>

record io_results =
  io_readv :: int
  io_bytes :: "u8 list"
  io_rerrno :: int
  io_junk :: "u8 list"
  io_send :: int
  io_serrno :: int

definition tc_HandleIO :: "u32 \<Rightarrow> io_results \<Rightarrow> tcp_conn \<Rightarrow> (bool \<times> tcp_conn) option" where
  "tc_HandleIO events r c =
     (if tc_closed c then Some (False, c)
      else
        do { (called, c) \<leftarrow> (if events AND EPOLLIN \<noteq> 0
                            then tc_HandleRead (io_readv r) (io_bytes r) (io_rerrno r) (io_junk r) c else Some (False, c));
             let c = (if events AND EPOLLOUT \<noteq> 0 then tc_HandleWrite (io_send r) (io_serrno r) c else c);
                 c = (if events AND (EPOLLERR OR EPOLLHUP OR EPOLLRDHUP) \<noteq> 0 then tc_Close c else c) in
             Some (called, c) })"

text \<open>A string made of the bytes at a pointer. The pointer to an empty vector is null.\<close>

definition tc_string :: "u64 \<Rightarrow> u64 \<Rightarrow> msgbuf \<Rightarrow> u8 list option" where
  "tc_string p sz b =
     (if unat p + unat sz \<le> length (mb_buffer b) then Some (take (unat sz) (drop (unat p) (mb_buffer b))) else None)"

definition tc_GetDataUntilCrLf :: "tcp_conn \<Rightarrow> (u8 list \<times> tcp_conn) option" where
  "tc_GetDataUntilCrLf c =
     do { (p, sz) \<leftarrow> mb_GetDataUntilCRLF (tc_input c);
          case p of
            None \<Rightarrow> Some ([], c)
          | Some p \<Rightarrow>
              do { result \<leftarrow> tc_string p sz (tc_input c);
                   Some (result, c\<lparr>tc_input := mb_ReadCompleted (sz + 2) (tc_input c)\<rparr>) } }"

definition tc_GetAllData :: "tcp_conn \<Rightarrow> (u8 list \<times> tcp_conn) option" where
  "tc_GetAllData c =
     (let (p, sz) = mb_GetAllData (tc_input c) in
      if mb_buffer (tc_input c) = [] then Some ([], c)
      else do { result \<leftarrow> tc_string p sz (tc_input c);
           Some (result, c\<lparr>tc_input := mb_ReadCompleted sz (tc_input c)\<rparr>) })"

section \<open>Runs of a connection\<close>

text \<open>The bytes of a \<open>Send\<close> that the connection takes.\<close>

definition tc_accepts :: "int \<Rightarrow> int \<Rightarrow> u8 list \<Rightarrow> tcp_conn \<Rightarrow> u8 list" where
  "tc_accepts rv errno data c =
     (if tc_closed c \<or> tc_output c = [] \<and> rv < 0 \<and> errno \<noteq> EAGAIN then [] else data)"

text \<open>
  What the kernel may return for a call: \<open>send\<close> takes at most what it is given or fails; \<open>readv\<close> delivers
  at most what there is room for and returns its length, or fails with \<open>- 1\<close>. The unread input stays below
  \<open>2 ^ 31\<close> bytes, the range of the \<open>int\<close> that \<open>Recv\<close> returns.
\<close>

definition io_admissible :: "io_results \<Rightarrow> tcp_conn \<Rightarrow> bool" where
  "io_admissible r c \<longleftrightarrow> io_send r \<le> int (length (tc_output c)) \<and> (io_readv r = int (length (io_bytes r)) \<or> io_readv r = - 1 \<and> io_bytes r = []) \<and>
     length (io_junk r) = 65535 \<and> length (io_bytes r) \<le> unat (mb_GetFreeSize (tc_input c)) + 65535 \<and>
     length (mb_contents (tc_input c)) + length (io_bytes r) < 2 ^ 31"

text \<open>
  The connections that calls and events lead to, with the bytes taken by \<open>Send\<close>, the bytes the kernel
  delivered, the bytes the program took out, and whether every call of \<open>GetDataUntilCrLf\<close> so far found
  the input buffer not empty. On an empty buffer the bound \<open>active_size - 1\<close> of the search wraps around and
  the call looks at what lies behind the input. A step whose behaviour is undefined, as the one of a
  failing \<open>readv\<close>, leads nowhere.
\<close>

inductive tc_reach :: "int \<Rightarrow> interest \<Rightarrow> tcp_conn \<Rightarrow> u8 list \<Rightarrow> u8 list \<Rightarrow> u8 list \<Rightarrow> bool \<Rightarrow> bool" for fd l where
  tc_init: "l fd = None \<Longrightarrow> tc_reach fd l (TcpConn_ctor fd l) [] [] [] True"
| tc_send: "tc_reach fd l c acc rcv con fine \<Longrightarrow> rv \<le> int (length data) \<Longrightarrow> tc_Send rv errno (Some data) c = (n, c') \<Longrightarrow>
    tc_reach fd l c' (acc @ tc_accepts rv errno data c) rcv con fine"
| tc_io: "tc_reach fd l c acc rcv con fine \<Longrightarrow> io_admissible r c \<Longrightarrow> tc_HandleIO events r c = Some (called, c') \<Longrightarrow>
    tc_reach fd l c' acc (rcv @ (if \<not> tc_closed c \<and> events AND EPOLLIN \<noteq> 0 then io_bytes r else [])) con fine"
| tc_line: "tc_reach fd l c acc rcv con fine \<Longrightarrow> tc_GetDataUntilCrLf c = Some (line, c') \<Longrightarrow>
    tc_reach fd l c' acc rcv (con @ (if crlf_pos (mb_contents (tc_input c)) = None then [] else line @ [13, 10]))
      (fine \<and> mb_contents (tc_input c) \<noteq> [])"
| tc_all: "tc_reach fd l c acc rcv con fine \<Longrightarrow> tc_GetAllData c = Some (out, c') \<Longrightarrow>
    tc_reach fd l c' acc rcv (con @ out) fine"

text \<open>The registration of the connection, and the state of its input buffer.\<close>

definition tc_reg :: "tcp_conn \<Rightarrow> bool" where
  "tc_reg c \<longleftrightarrow> tc_evloop c (tc_fd c) = (if tc_closed c then None
     else Some (if tc_output c = [] then EPOLLIN OR EPOLLRDHUP else EPOLLIN OR EPOLLOUT OR EPOLLRDHUP))"

definition tc_ok :: "tcp_conn \<Rightarrow> bool" where
  "tc_ok c \<longleftrightarrow> tc_reg c \<and> mb_inv (tc_input c) \<and> length (mb_contents (tc_input c)) < 2 ^ 31"

lemmas tc_defs = tc_Close_def tc_EnableWrite_def tc_DisableWrite_def el_AddEvent_def el_ModEvent_def el_DelEvent_def sys_send_def

lemma tc_Close_ok [simp]:
  "tc_output (tc_Close c) = tc_output c" "tc_input (tc_Close c) = tc_input c" "tc_wire (tc_Close c) = tc_wire c"
  "tc_closed (tc_Close c)" "tc_reg c \<Longrightarrow> tc_reg (tc_Close c)" "tc_ok c \<Longrightarrow> tc_ok (tc_Close c)"
  by (auto simp: tc_defs tc_ok_def tc_reg_def)

lemma tc_Send_ok:
  assumes "tc_reg c" "rv \<le> int (length data)" "tc_Send rv errno (Some data) c = (n, c')"
  shows "tc_reg c' \<and> tc_wire c' @ tc_output c' = tc_wire c @ tc_output c @ tc_accepts rv errno data c \<and>
    tc_input c' = tc_input c"
proof -
  have "rv < 0 \<Longrightarrow> take (nat rv) data = []" by simp
  then show ?thesis
    using assms unfolding tc_Send_def tc_accepts_def
    by (auto simp: tc_reg_def tc_defs Let_def split: if_splits)
qed

lemma tc_HandleWrite_ok:
  assumes "tc_reg c" "rv \<le> int (length (tc_output c))"
  shows "tc_reg (tc_HandleWrite rv errno c) \<and>
    tc_wire (tc_HandleWrite rv errno c) @ tc_output (tc_HandleWrite rv errno c) = tc_wire c @ tc_output c \<and>
    tc_input (tc_HandleWrite rv errno c) = tc_input c"
proof -
  have "rv \<le> 0 \<Longrightarrow> take (nat rv) (tc_output c) = []" by simp
  then show ?thesis
    using assms unfolding tc_HandleWrite_def
    by (auto simp: tc_reg_def tc_defs Let_def split: if_splits)
qed

text \<open>What \<open>HandleIO\<close> does to the output does not depend on the input buffer.\<close>

lemma tc_HandleRead_output:
  assumes "tc_reg c" "tc_HandleRead rv bytes errno junk c = Some (called, c')"
  shows "tc_reg c' \<and> tc_wire c' = tc_wire c \<and> tc_output c' = tc_output c"
proof -
  have "tc_reg (c\<lparr>tc_input := b\<rparr>)" for b using assms(1) by (simp add: tc_reg_def)
  then show ?thesis
    using assms(2) unfolding tc_HandleRead_def
    by (auto simp: Let_def split: bind_splits if_splits)
qed

lemma tc_HandleIO_output:
  assumes "tc_reg c" "io_send r \<le> int (length (tc_output c))" "tc_HandleIO events r c = Some (called, c')"
  shows "tc_reg c' \<and> tc_wire c' @ tc_output c' = tc_wire c @ tc_output c"
proof (cases "tc_closed c")
  case True
  then show ?thesis using assms by (simp add: tc_HandleIO_def)
next
  case False
  let ?r = "if events AND EPOLLIN \<noteq> 0
        then tc_HandleRead (io_readv r) (io_bytes r) (io_rerrno r) (io_junk r) c else Some (False, c)"
  obtain cl c1 where c1: "?r = Some (cl, c1)"
    using assms(3) False by (cases ?r) (auto simp: tc_HandleIO_def)
  have o1: "tc_reg c1" "tc_wire c1 = tc_wire c" "tc_output c1 = tc_output c"
    using c1 tc_HandleRead_output [OF assms(1)] assms(1) by (auto split: if_splits)
  define c2 where "c2 = (if events AND EPOLLOUT \<noteq> 0 then tc_HandleWrite (io_send r) (io_serrno r) c1 else c1)"
  have "tc_reg c2" "tc_wire c2 @ tc_output c2 = tc_wire c @ tc_output c"
    using tc_HandleWrite_ok [OF o1(1), of "io_send r" "io_serrno r"] o1 assms(2) by (auto simp: c2_def)
  moreover have "c' = (if events AND (EPOLLERR OR EPOLLHUP OR EPOLLRDHUP) \<noteq> 0 then tc_Close c2 else c2)"
    using assms(3) False c1 unfolding tc_HandleIO_def Let_def c2_def by (cases "events AND EPOLLOUT = 0") auto
  ultimately show ?thesis by simp
qed

lemma tc_HandleRead_ok:
  assumes "tc_ok c" "io_admissible r c" "io_readv r \<noteq> - 1"
  shows "\<exists>called c'. tc_HandleRead (io_readv r) (io_bytes r) (io_rerrno r) (io_junk r) c = Some (called, c') \<and> tc_ok c' \<and>
    tc_wire c' = tc_wire c \<and> tc_output c' = tc_output c \<and>
    mb_contents (tc_input c') = mb_contents (tc_input c) @ io_bytes r"
proof -
  have inv: "mb_inv (tc_input c)" using assms(1) by (simp add: tc_ok_def)
  note a = assms(2) [unfolded io_admissible_def]
  show ?thesis
  proof (cases "io_bytes r = []")
    case True
    have "mb_Recv 0 [] (io_rerrno r) (io_junk r) (tc_input c) = Some (0, Some ECONNRESET, tc_input c)"
      by (rule mb_Recv_end [OF inv])
    moreover have "io_readv r = 0" using True a assms(3) by auto
    ultimately show ?thesis using True assms(1) by (auto simp: tc_HandleRead_def Let_def)
  next
    case False
    obtain b where b: "mb_Recv (int (length (io_bytes r))) (io_bytes r) (io_rerrno r) (io_junk r) (tc_input c) =
        Some (int (length (io_bytes r)), None, b)" "mb_inv b" "mb_contents b = mb_contents (tc_input c) @ io_bytes r"
      using mb_Recv_data [OF inv _ _ False] a by blast
    then have "tc_HandleRead (io_readv r) (io_bytes r) (io_rerrno r) (io_junk r) c = Some (True, c\<lparr>tc_input := b\<rparr>)"
      using a False by (simp add: tc_HandleRead_def Let_def)
    then show ?thesis using assms(1) b(2,3) a by (auto simp: tc_ok_def tc_reg_def)
  qed
qed

lemma tc_HandleIO_ok:
  assumes "tc_ok c" "io_admissible r c" "io_readv r \<noteq> - 1 \<or> events AND EPOLLIN = 0"
  shows "\<exists>called c'. tc_HandleIO events r c = Some (called, c') \<and> tc_ok c' \<and>
    tc_wire c' @ tc_output c' = tc_wire c @ tc_output c \<and>
    mb_contents (tc_input c') = mb_contents (tc_input c) @ (if \<not> tc_closed c \<and> events AND EPOLLIN \<noteq> 0 then io_bytes r else [])"
proof (cases "tc_closed c")
  case True
  then show ?thesis using assms(1) by (auto simp: tc_HandleIO_def)
next
  case False
  obtain called c1 where c1: "(if events AND EPOLLIN \<noteq> 0
        then tc_HandleRead (io_readv r) (io_bytes r) (io_rerrno r) (io_junk r) c else Some (False, c)) = Some (called, c1)"
      "tc_ok c1" "tc_wire c1 = tc_wire c" "tc_output c1 = tc_output c"
      "mb_contents (tc_input c1) = mb_contents (tc_input c) @ (if events AND EPOLLIN \<noteq> 0 then io_bytes r else [])"
    using tc_HandleRead_ok [OF assms(1,2)] assms(1,3) by (cases "events AND EPOLLIN = 0") auto
  define c2 where "c2 = (if events AND EPOLLOUT \<noteq> 0 then tc_HandleWrite (io_send r) (io_serrno r) c1 else c1)"
  have "io_send r \<le> int (length (tc_output c1))" using assms(2) c1(4) by (simp add: io_admissible_def)
  moreover have "tc_reg c1" using c1(2) by (simp add: tc_ok_def)
  ultimately have c2: "tc_ok c2" "tc_wire c2 @ tc_output c2 = tc_wire c @ tc_output c" "tc_input c2 = tc_input c1"
    using tc_HandleWrite_ok [of c1 "io_send r" "io_serrno r"] c1(2-4) by (auto simp: c2_def tc_ok_def)
  define c3 where "c3 = (if events AND (EPOLLERR OR EPOLLHUP OR EPOLLRDHUP) \<noteq> 0 then tc_Close c2 else c2)"
  have "tc_HandleIO events r c = Some (called, c3)"
    using False c1(1) by (simp add: tc_HandleIO_def Let_def c2_def c3_def)
  moreover have "tc_ok c3" "tc_wire c3 @ tc_output c3 = tc_wire c @ tc_output c" "tc_input c3 = tc_input c1"
    using c2 by (auto simp: c3_def)
  ultimately show ?thesis using c1(5) False by auto
qed

lemma crlf_at_split: "crlf_at cs i \<Longrightarrow> i + 2 \<le> length cs \<and> cs = take i cs @ [13, 10] @ drop (i + 2) cs"
proof -
  assume at: "crlf_at cs i"
  then have "length (take 2 (drop i cs)) = 2" by (simp add: crlf_at_def)
  then have "i + 2 \<le> length cs" by simp
  moreover have "cs = take i cs @ take 2 (drop i cs) @ drop 2 (drop i cs)" by (simp only: append_take_drop_id)
  ultimately show ?thesis using at by (simp add: crlf_at_def add.commute)
qed

lemma tc_GetDataUntilCrLf_ok:
  assumes ok: "tc_ok c" and ne: "mb_contents (tc_input c) \<noteq> []"
  defines "cs \<equiv> mb_contents (tc_input c)"
  shows "(case crlf_pos cs of
      None \<Rightarrow> tc_GetDataUntilCrLf c = Some ([], c)
    | Some i \<Rightarrow> \<exists>b. tc_GetDataUntilCrLf c = Some (take i cs, c\<lparr>tc_input := b\<rparr>) \<and> mb_inv b \<and> mb_contents b = drop (i + 2) cs)"
proof -
  let ?b = "tc_input c"
  have inv: "mb_inv ?b" and small: "length cs < 2 ^ 31" using ok by (simp_all add: tc_ok_def cs_def)
  note eq = mb_GetDataUntilCRLF_eq [OF inv ne, folded cs_def]
  show ?thesis
  proof (cases "crlf_pos cs")
    case None
    then show ?thesis using eq by (simp add: tc_GetDataUntilCrLf_def)
  next
    case (Some i)
    have i: "i + 2 \<le> length cs" using crlf_pos_Some [OF Some] crlf_at_split by blast
    have u: "unat (of_nat i :: u64) = i" using i small by (intro unat_of_nat_u64) simp
    have u2: "unat (of_nat i + 2 :: u64) = i + 2" using i small u by (subst unat_add_u64) simp_all
    have "unat (mb_rpos ?b) + i \<le> length (mb_buffer ?b)"
      using i mb_sizes(1,4) [OF inv] mb_invD [OF inv] by (simp add: cs_def)
    then have "tc_string (mb_rpos ?b) (of_nat i) ?b = Some (take i cs)"
      using mb_take_read [of i ?b] i u by (simp add: tc_string_def cs_def)
    then have "tc_GetDataUntilCrLf c = Some (take i cs, c\<lparr>tc_input := mb_ReadCompleted (of_nat i + 2) ?b\<rparr>)"
      using eq Some by (simp add: tc_GetDataUntilCrLf_def)
    then show ?thesis
      using mb_ReadCompleted_ok [OF inv, of "of_nat i + 2"] i u2 Some by (auto simp: cs_def)
  qed
qed

lemma tc_GetAllData_ok:
  assumes ok: "tc_ok c"
  shows "\<exists>b. tc_GetAllData c = Some (mb_contents (tc_input c), c\<lparr>tc_input := b\<rparr>) \<and> mb_inv b \<and> mb_contents b = []"
proof -
  let ?b = "tc_input c"
  have inv: "mb_inv ?b" using ok by (simp add: tc_ok_def)
  note s = mb_sizes [OF inv] and d = mb_invD [OF inv]
  show ?thesis
  proof (cases "mb_buffer ?b = []")
    case True
    then have "mb_contents ?b = []" by (simp add: mb_contents_def)
    then show ?thesis using True inv by (auto simp: tc_GetAllData_def mb_GetAllData_def intro: exI [of _ ?b])
  next
    case False
    have "tc_string (mb_rpos ?b) (mb_GetActiveSize ?b) ?b = Some (mb_contents ?b)"
      using s(1) d by (simp add: tc_string_def mb_contents_def)
    then show ?thesis
      using False mb_ReadCompleted_ok [OF inv, of "mb_GetActiveSize ?b"] s(4)
      by (auto simp: tc_GetAllData_def mb_GetAllData_def mb_GetReadPointer_def)
  qed
qed

lemma tc_HandleIO_undefined:
  assumes "tc_ok c" "io_admissible r c" "io_readv r = - 1" "events AND EPOLLIN \<noteq> 0" "\<not> tc_closed c"
  shows "tc_HandleIO events r c = None"
proof -
  have "io_bytes r = []" using assms(2,3) by (auto simp: io_admissible_def)
  moreover have "mb_Recv (- 1) [] (io_rerrno r) (io_junk r) (tc_input c) = None"
    using assms(1,2) by (intro mb_Recv_error) (auto simp: tc_ok_def io_admissible_def)
  ultimately show ?thesis using assms(3-5) by (simp add: tc_HandleIO_def tc_HandleRead_def)
qed

lemma tc_reach_output:
  "tc_reach fd l c acc rcv con fine \<Longrightarrow> tc_reg c \<and> tc_wire c @ tc_output c = acc"
proof (induction rule: tc_reach.induct)
  case tc_init
  then show ?case by (simp add: TcpConn_ctor_def tc_reg_def el_AddEvent_def)
next
  case (tc_send c acc rcv con fine rv data errno n c')
  then show ?case using tc_Send_ok [of c rv data errno n c'] by auto
next
  case (tc_io c acc rcv con fine r events called c')
  then show ?case using tc_HandleIO_output [of c r events called c'] by (simp add: io_admissible_def)
next
  case (tc_line c acc rcv con fine line c')
  then show ?case by (auto simp: tc_GetDataUntilCrLf_def tc_reg_def split: bind_splits option.splits)
next
  case (tc_all c acc rcv con fine out c')
  then show ?case by (auto simp: tc_GetAllData_def tc_reg_def split: prod.splits if_splits bind_splits)
qed

lemma tc_reach_input:
  "tc_reach fd l c acc rcv con fine \<Longrightarrow> fine \<Longrightarrow> tc_ok c \<and> con @ mb_contents (tc_input c) = rcv"
proof (induction rule: tc_reach.induct)
  case tc_init
  then show ?case using mb_ctor_inv by (simp add: TcpConn_ctor_def tc_ok_def tc_reg_def el_AddEvent_def)
next
  case (tc_send c acc rcv con fine rv data errno n c')
  then show ?case using tc_Send_ok [of c rv data errno n c'] by (auto simp: tc_ok_def)
next
  case (tc_io c acc rcv con fine r events called c')
  have ok: "tc_ok c" using tc_io.IH tc_io.prems by simp
  show ?case
  proof (cases "tc_closed c")
    case True
    then show ?thesis using tc_io by (simp add: tc_HandleIO_def)
  next
    case False
    then have "io_readv r \<noteq> - 1 \<or> events AND EPOLLIN = 0"
      using tc_HandleIO_undefined [OF ok tc_io.hyps(2)] tc_io.hyps(3) by fastforce
    from tc_HandleIO_ok [OF ok tc_io.hyps(2) this] show ?thesis using tc_io by auto
  qed
next
  case (tc_line c acc rcv con fine line c')
  have ok: "tc_ok c" and ne: "mb_contents (tc_input c) \<noteq> []" using tc_line.IH tc_line.prems by simp_all
  show ?case
  proof (cases "crlf_pos (mb_contents (tc_input c))")
    case None
    then show ?thesis using tc_GetDataUntilCrLf_ok [OF ok ne] tc_line by simp
  next
    case (Some i)
    then obtain b where b: "line = take i (mb_contents (tc_input c))" "c' = c\<lparr>tc_input := b\<rparr>" "mb_inv b"
        "mb_contents b = drop (i + 2) (mb_contents (tc_input c))"
      using tc_GetDataUntilCrLf_ok [OF ok ne] tc_line.hyps(2) by auto
    have sp: "mb_contents (tc_input c) = line @ [13, 10] @ mb_contents b"
      using crlf_at_split crlf_pos_Some [OF Some] b(1,4) by metis
    show ?thesis using tc_line.IH tc_line.prems Some b(2,3) sp by (auto simp: tc_ok_def tc_reg_def)
  qed
next
  case (tc_all c acc rcv con fine out c')
  then show ?case using tc_GetAllData_ok [of c] by (auto simp: tc_ok_def tc_reg_def)
qed

section \<open>Properties\<close>

text \<open>
  C13: However \<open>Send\<close>, the readiness events and the results of the system calls interleave, as long as
  the behaviour is defined, the bytes handed to the kernel followed by the output buffer are exactly the
  bytes taken by \<open>Send\<close>, in order; an open connection waits for writability exactly when output is
  pending, and a closed one is not registered. While \<open>GetDataUntilCrLf\<close> was only called with input in
  the buffer, the bytes the program took followed by the input buffer are exactly the bytes received,
  and the next event is handled unless its \<open>readv\<close> fails. (After a failing \<open>readv\<close> the behaviour is
  undefined, see \<open>tc_HandleIO_undefined\<close>.)
\<close>

theorem TcpConn_streams:
  assumes "tc_reach fd l c acc rcv con fine"
  shows "tc_wire c @ tc_output c = acc \<and>
    tc_evloop c (tc_fd c) = (if tc_closed c then None
      else Some (if tc_output c = [] then EPOLLIN OR EPOLLRDHUP else EPOLLIN OR EPOLLOUT OR EPOLLRDHUP)) \<and>
    (fine \<longrightarrow> con @ mb_contents (tc_input c) = rcv \<and>
      (\<forall>events r. io_admissible r c \<and> io_readv r \<noteq> - 1 \<longrightarrow> tc_HandleIO events r c \<noteq> None))"
proof -
  have "tc_HandleIO events r c \<noteq> None" if "fine" "io_admissible r c" "io_readv r \<noteq> - 1" for events r
    using tc_HandleIO_ok [of c r events] tc_reach_input [OF assms that(1)] that(2,3) by auto
  then show ?thesis
    using tc_reach_output [OF assms] tc_reach_input [OF assms] by (simp add: tc_reg_def)
qed

theorem TcpConn_streams_witness:
  "\<exists>c. snd (tc_Send 2 0 (Some [1, 2, 3]) (TcpConn_ctor 7 (\<lambda>_. None))) = c \<and> tc_wire c @ tc_output c = [1, 2, 3] \<and>
    tc_evloop c 7 = Some (EPOLLIN OR EPOLLOUT OR EPOLLRDHUP) \<and> mb_contents (tc_input c) = []"
proof -
  let ?l = "\<lambda>_ :: int. None :: u32 option"
  define c0 where "c0 = TcpConn_ctor 7 ?l"
  obtain n c where c: "tc_Send 2 0 (Some [1, 2, 3]) c0 = (n, c)" by fastforce
  have v: "tc_fd c = 7" "\<not> tc_closed c" "tc_output c \<noteq> []" "tc_accepts 2 0 [1, 2, 3] c0 = [1, 2, 3]"
    using c by (auto simp: c0_def TcpConn_ctor_def tc_Send_def tc_defs tc_accepts_def)
  have "tc_reach 7 ?l c ([] @ tc_accepts 2 0 [1, 2, 3] c0) [] [] True"
    by (rule tc_reach.tc_send [OF _ _ c]) (simp_all add: c0_def tc_reach.tc_init)
  from TcpConn_streams [OF this] show ?thesis using v c by (simp add: c0_def)
qed

text \<open>
  A line travels unchanged: with a line, its end and more text in the input buffer,
  \<open>GetDataUntilCrLf\<close> returns the line and leaves the rest.
\<close>

theorem TcpConn_line_roundtrip:
  assumes "tc_reach fd l c acc rcv con True" and "mb_contents (tc_input c) = line @ [13, 10] @ rest" and "13 \<notin> set line"
  shows "\<exists>c'. tc_GetDataUntilCrLf c = Some (line, c') \<and> mb_contents (tc_input c') = rest"
proof -
  have "crlf_pos (xs @ [13, 10] @ rest) = Some (length xs)" if "13 \<notin> set xs" for xs
    using that
  proof (induction xs)
    case (Cons x xs)
    then show ?case by (cases xs) auto
  qed simp
  then show ?thesis
    using tc_GetDataUntilCrLf_ok [of c] tc_reach_input [OF assms(1)] assms(2,3) by auto
qed

theorem TcpConn_line_roundtrip_witness:
  "\<exists>c c' called c''. TcpConn_ctor 7 (\<lambda>_. None) = c \<and>
    tc_HandleIO EPOLLIN \<lparr>io_readv = 5, io_bytes = [65, 66, 13, 10, 67], io_rerrno = 0, io_junk = replicate 65535 0,
      io_send = 0, io_serrno = 0\<rparr> c = Some (called, c') \<and>
    tc_GetDataUntilCrLf c' = Some ([65, 66], c'') \<and> mb_contents (tc_input c'') = [67]"
proof -
  let ?l = "\<lambda>_ :: int. None :: u32 option" 
  let ?r = "\<lparr>io_readv = 5, io_bytes = [65, 66, 13, 10, 67], io_rerrno = 0, io_junk = replicate 65535 0,
      io_send = 0, io_serrno = 0\<rparr>"
  define c where "c = TcpConn_ctor 7 ?l"
  have r: "tc_reach 7 ?l c [] [] [] True" unfolding c_def by (rule tc_reach.tc_init) simp
  have o: "tc_closed c = False" "mb_contents (tc_input c) = []" by (simp_all add: c_def TcpConn_ctor_def mb_ctor_inv)
  have ad: "io_admissible ?r c" using o by (simp add: io_admissible_def)
  have e: "EPOLLIN AND EPOLLIN \<noteq> 0" by (simp add: EPOLLIN_def)
  have "tc_ok c" using tc_reach_input [OF r] by simp
  from tc_HandleIO_ok [OF this ad, of EPOLLIN] obtain called c' where
    c': "tc_HandleIO EPOLLIN ?r c = Some (called, c')" "mb_contents (tc_input c') = [65, 66, 13, 10, 67]"
    using o e by auto
  show ?thesis
    using TcpConn_line_roundtrip [OF tc_reach.tc_io [OF r ad c'(1)], of "[65, 66]" "[67]"] c' by (auto simp: c_def)
qed

end
