(* ===== verification/Skiplist.thy ===== *)
theory Skiplist
  imports Prelude
begin

text \<open>
  The skip list of \<^verbatim>\<open>timer/skiplist.c\<close>: nodes in a store by address, each with the array of its
  forward pointers (0 is null), cells of which are indeterminate until they are set. \<open>rand\<close> is
  given by the list of the values it returns.
\<close>

section \<open>Model\<close>

definition ZSKIPLIST_MAXLEVEL :: nat where "ZSKIPLIST_MAXLEVEL = 32"

record zskiplistNode =
  zn_score :: u64
  zn_handler :: int
  zn_level :: "ptr option list"

text \<open>The field \<open>length\<close> is an \<open>int\<close> of 32 bits, kept as its bits; \<open>level\<close> stays between 1 and 32.\<close>

record zskiplist =
  zsl_header :: ptr
  zsl_length :: u32
  zsl_level :: nat
  zsl_heap :: "ptr \<Rightarrow> zskiplistNode option"
  zsl_brk :: ptr

definition zsl_forward :: "zskiplist \<Rightarrow> ptr \<Rightarrow> nat \<Rightarrow> ptr option" where
  "zsl_forward z x i = do { n \<leftarrow> zsl_heap z x; aget (zn_level n) i }"

definition zsl_set_forward :: "ptr \<Rightarrow> nat \<Rightarrow> ptr \<Rightarrow> zskiplist \<Rightarrow> zskiplist option" where
  "zsl_set_forward x i y z =
     do { n \<leftarrow> zsl_heap z x;
          l \<leftarrow> aset (zn_level n) i y;
          Some (z\<lparr>zsl_heap := (zsl_heap z)(x \<mapsto> n\<lparr>zn_level := l\<rparr>)\<rparr>) }"

definition zsl_score :: "zskiplist \<Rightarrow> ptr \<Rightarrow> u64 option" where
  "zsl_score z x = map_option zn_score (zsl_heap z x)"

definition zslCreateNode :: "nat \<Rightarrow> u64 \<Rightarrow> int \<Rightarrow> zskiplist \<Rightarrow> ptr \<times> zskiplist" where
  "zslCreateNode level score func z =
     (let p = zsl_brk z in
      (p, z\<lparr>zsl_brk := p + 1, zsl_heap := (zsl_heap z)(p \<mapsto>
          \<lparr>zn_score = score, zn_handler = func, zn_level = replicate level None\<rparr>)\<rparr>))"

definition zslCreate :: "zskiplist option" where
  "zslCreate =
     (let z = \<lparr>zsl_header = 0, zsl_length = 0, zsl_level = 1, zsl_heap = (\<lambda>_. None), zsl_brk = 1\<rparr>;
          (h, z) = zslCreateNode ZSKIPLIST_MAXLEVEL 0 0 z in
      fold (\<lambda>j z. do { z \<leftarrow> z; zsl_set_forward h j 0 z }) [0..<ZSKIPLIST_MAXLEVEL] (Some (z\<lparr>zsl_header := h\<rparr>)))"

partial_function (option) zsl_free_loop :: "ptr \<Rightarrow> zskiplist \<Rightarrow> zskiplist option" where
  "zsl_free_loop node z =
     (if node = 0 then Some z
      else do { next \<leftarrow> zsl_forward z node 0; zsl_free_loop next (z\<lparr>zsl_heap := (zsl_heap z)(node := None)\<rparr>) })"

declare zsl_free_loop.simps [code]

definition zslFree :: "zskiplist \<Rightarrow> zskiplist option" where
  "zslFree z =
     do { node \<leftarrow> zsl_forward z (zsl_header z) 0;
          zsl_free_loop node (z\<lparr>zsl_heap := (zsl_heap z)(zsl_header z := None)\<rparr>) }"

text \<open>
  \<open>(rand() & 0xFFFF) < (ZSKIPLIST_P * 0xFFFF)\<close>, that is less than 16383.75; the level and the values
  not used.
\<close>

fun zsl_random_loop :: "nat \<Rightarrow> u32 list \<Rightarrow> (nat \<times> u32 list) option" where
  "zsl_random_loop level [] = None"
| "zsl_random_loop level (r # rs) = (if r AND 0xFFFF \<le> 16383 then zsl_random_loop (level + 1) rs else Some (level, rs))"

definition zslRandomLevel :: "u32 list \<Rightarrow> (nat \<times> u32 list) option" where
  "zslRandomLevel rs =
     do { (level, rs) \<leftarrow> zsl_random_loop 1 rs;
          Some (if level < ZSKIPLIST_MAXLEVEL then level else ZSKIPLIST_MAXLEVEL, rs) }"

text \<open>The search of \<open>zslInsert\<close> and \<open>zslDelete\<close>: along a level, and down the levels with the array \<open>update\<close>.\<close>

partial_function (option) zsl_walk :: "zskiplist \<Rightarrow> u64 \<Rightarrow> nat \<Rightarrow> ptr \<Rightarrow> ptr option" where
  "zsl_walk z score i x =
     do { f \<leftarrow> zsl_forward z x i;
          if f = 0 then Some x
          else do { s \<leftarrow> zsl_score z f; if s < score then zsl_walk z score i f else Some x } }"

declare zsl_walk.simps [code]

fun zsl_search :: "zskiplist \<Rightarrow> u64 \<Rightarrow> nat \<Rightarrow> ptr \<Rightarrow> ptr option list \<Rightarrow> (ptr \<times> ptr option list) option" where
  "zsl_search z score 0 x update = Some (x, update)"
| "zsl_search z score (Suc i) x update =
     do { x \<leftarrow> zsl_walk z score i x; update \<leftarrow> aset update i x; zsl_search z score i x update }"

text \<open>\<open>for (i = zsl->level; i < level; i++) update[i] = zsl->header\<close>\<close>

definition zsl_raise :: "nat \<Rightarrow> zskiplist \<Rightarrow> ptr option list \<Rightarrow> (zskiplist \<times> ptr option list) option" where
  "zsl_raise level z update =
     (if level > zsl_level z then
        do { update \<leftarrow> fold (\<lambda>i u. do { u \<leftarrow> u; aset u i (zsl_header z) }) [zsl_level z..<level] (Some update);
             Some (z\<lparr>zsl_level := level\<rparr>, update) }
      else Some (z, update))"

text \<open>The loop that links the new node, from level \<open>i\<close> on.\<close>

fun zsl_link :: "nat \<Rightarrow> nat \<Rightarrow> ptr \<Rightarrow> ptr option list \<Rightarrow> zskiplist \<Rightarrow> zskiplist option" where
  "zsl_link i 0 x update z = Some z"
| "zsl_link i (Suc k) x update z =
     do { u \<leftarrow> aget update i;
          f \<leftarrow> zsl_forward z u i;
          z \<leftarrow> zsl_set_forward x i f z;
          z \<leftarrow> zsl_set_forward u i x z;
          zsl_link (Suc i) k x update z }"

definition zslInsert :: "u64 \<Rightarrow> int \<Rightarrow> u32 list \<Rightarrow> zskiplist \<Rightarrow> (ptr \<times> zskiplist) option" where
  "zslInsert score func rs z =
     do { (x, update) \<leftarrow> zsl_search z score (zsl_level z) (zsl_header z) (replicate ZSKIPLIST_MAXLEVEL None);
          (level, _) \<leftarrow> zslRandomLevel rs;
          (z, update) \<leftarrow> zsl_raise level z update;
          let (x, z) = zslCreateNode level score func z in
          do { z \<leftarrow> zsl_link 0 level x update z;
               Some (x, z\<lparr>zsl_length := zsl_length z + 1\<rparr>) } }"

definition zslMin :: "zskiplist \<Rightarrow> ptr option" where
  "zslMin z = zsl_forward z (zsl_header z) 0"

text \<open>\<open>if (u->level[i].forward == x) u->level[i].forward = x->level[i].forward\<close>\<close>

definition zsl_bypass :: "ptr \<Rightarrow> ptr \<Rightarrow> nat \<Rightarrow> zskiplist \<Rightarrow> zskiplist option" where
  "zsl_bypass x u i z =
     do { f \<leftarrow> zsl_forward z u i;
          if f = x then do { g \<leftarrow> zsl_forward z x i; zsl_set_forward u i g z } else Some z }"

partial_function (option) zsl_shrink :: "zskiplist \<Rightarrow> zskiplist option" where
  "zsl_shrink z =
     (if zsl_level z > 1 then
        do { f \<leftarrow> zsl_forward z (zsl_header z) (zsl_level z - 1);
             if f = 0 then zsl_shrink (z\<lparr>zsl_level := zsl_level z - 1\<rparr>) else Some z }
      else Some z)"

declare zsl_shrink.simps [code]

definition zslDeleteHead :: "zskiplist \<Rightarrow> zskiplist option" where
  "zslDeleteHead z =
     do { x \<leftarrow> zslMin z;
          if x = 0 then Some z
          else
            do { z \<leftarrow> fold (\<lambda>i z. do { z \<leftarrow> z; zsl_bypass x (zsl_header z) i z }) (rev [0..<zsl_level z]) (Some z);
                 z \<leftarrow> zsl_shrink z;
                 Some (z\<lparr>zsl_length := zsl_length z - 1\<rparr>) } }"

definition zslDeleteNode :: "ptr \<Rightarrow> ptr option list \<Rightarrow> zskiplist \<Rightarrow> zskiplist option" where
  "zslDeleteNode x update z =
     do { z \<leftarrow> fold (\<lambda>i z. do { z \<leftarrow> z; u \<leftarrow> aget update i; zsl_bypass x u i z }) [0..<zsl_level z] (Some z);
          z \<leftarrow> zsl_shrink z;
          Some (z\<lparr>zsl_length := zsl_length z - 1\<rparr>) }"

definition zslDelete :: "ptr \<Rightarrow> zskiplist \<Rightarrow> zskiplist option" where
  "zslDelete zn z =
     do { score \<leftarrow> zsl_score z zn;
          (x, update) \<leftarrow> zsl_search z score (zsl_level z) (zsl_header z) (replicate ZSKIPLIST_MAXLEVEL None);
          x \<leftarrow> zsl_forward z x 0;
          if x = 0 then Some z
          else
            do { s \<leftarrow> zsl_score z x;
                 if score = s then
                   do { z \<leftarrow> zslDeleteNode x update z; Some (z\<lparr>zsl_heap := (zsl_heap z)(x := None)\<rparr>) }
                 else Some z } }"

section \<open>Representation\<close>

text \<open>Links of level \<open>i\<close> through the nodes of a list, the last one null.\<close>

fun zsl_linked :: "zskiplist \<Rightarrow> nat \<Rightarrow> ptr list \<Rightarrow> bool" where
  "zsl_linked z i [] \<longleftrightarrow> True"
| "zsl_linked z i [x] \<longleftrightarrow> zsl_forward z x i = Some 0"
| "zsl_linked z i (x # y # ys) \<longleftrightarrow> zsl_forward z x i = Some y \<and> zsl_linked z i (y # ys)"

definition zsl_height :: "zskiplist \<Rightarrow> ptr \<Rightarrow> nat" where
  "zsl_height z p = (case zsl_heap z p of None \<Rightarrow> 0 | Some n \<Rightarrow> length (zn_level n))"

definition zsl_key :: "zskiplist \<Rightarrow> ptr \<Rightarrow> u64" where
  "zsl_key z p = (case zsl_heap z p of None \<Rightarrow> 0 | Some n \<Rightarrow> zn_score n)"

text \<open>The nodes of a list that take part in level \<open>i\<close>.\<close>

definition zsl_at :: "zskiplist \<Rightarrow> nat \<Rightarrow> ptr list \<Rightarrow> ptr list" where
  "zsl_at z i ps = filter (\<lambda>p. i < zsl_height z p) ps"

definition zsl_nodes :: "zskiplist \<Rightarrow> ptr list \<Rightarrow> bool" where
  "zsl_nodes z ps \<longleftrightarrow> distinct ps \<and> 0 \<notin> set ps \<and> zsl_header z \<notin> set ps \<and> 0 < zsl_header z \<and>
     zsl_height z (zsl_header z) = 32 \<and> zsl_header z < zsl_brk z \<and>
     (\<forall>p \<in> set ps. 1 \<le> zsl_height z p \<and> zsl_height z p \<le> zsl_level z \<and> p < zsl_brk z) \<and>
     1 \<le> zsl_level z \<and> zsl_level z \<le> 32"

definition zsl_rep :: "zskiplist \<Rightarrow> ptr list \<Rightarrow> bool" where
  "zsl_rep z ps \<longleftrightarrow> zsl_nodes z ps \<and> sorted (map (zsl_key z) ps) \<and>
     (\<forall>i < 32. zsl_linked z i (zsl_header z # zsl_at z i ps)) \<and>
     zsl_length z = of_nat (length ps) \<and> (1 < zsl_level z \<longrightarrow> zsl_at z (zsl_level z - 1) ps \<noteq> [])"

section \<open>Links\<close>

text \<open>Links through a list, its last node's link left open.\<close>

fun zsl_path :: "zskiplist \<Rightarrow> nat \<Rightarrow> ptr list \<Rightarrow> bool" where
  "zsl_path z i (x # y # ys) \<longleftrightarrow> zsl_forward z x i = Some y \<and> zsl_path z i (y # ys)"
| "zsl_path z i _ \<longleftrightarrow> True"

abbreviation zsl_first :: "ptr list \<Rightarrow> ptr" where
  "zsl_first ys \<equiv> (case ys of [] \<Rightarrow> 0 | y # _ \<Rightarrow> y)"

lemma zsl_linked_Cons: "zsl_linked z i (u # ys) \<longleftrightarrow> zsl_forward z u i = Some (zsl_first ys) \<and> zsl_linked z i ys"
  by (cases ys) auto

lemma zsl_linked_append: "zsl_linked z i (xs @ u # ys) \<longleftrightarrow> zsl_path z i (xs @ [u]) \<and> zsl_linked z i (u # ys)"
proof (induction xs)
  case (Cons x xs)
  then show ?case by (cases xs) auto
qed simp

lemma zsl_path_cong:
  "(\<And>x. x \<in> set xs \<Longrightarrow> zsl_forward z' x i = zsl_forward z x i) \<Longrightarrow> zsl_path z' i (xs @ [u]) = zsl_path z i (xs @ [u])"
proof (induction xs)
  case (Cons x xs)
  then show ?case by (cases xs) auto
qed simp

lemma zsl_linked_cong:
  "(\<And>x. x \<in> set xs \<Longrightarrow> zsl_forward z' x i = zsl_forward z x i) \<Longrightarrow> zsl_linked z' i xs = zsl_linked z i xs"
  by (induction xs) (auto simp: zsl_linked_Cons)

text \<open>A node linked in behind \<open>u\<close>, and one taken out from behind it.\<close>

lemma zsl_linked_insert:
  assumes "zsl_linked z i (xs @ u # ys)" "distinct (xs @ u # ys)" "p \<notin> set (xs @ u # ys)"
    and "zsl_forward z' u i = Some p" "zsl_forward z' p i = zsl_forward z u i"
    and "\<And>w. w \<noteq> u \<Longrightarrow> w \<noteq> p \<Longrightarrow> zsl_forward z' w i = zsl_forward z w i"
  shows "zsl_linked z' i (xs @ u # p # ys)"
proof -
  have same: "zsl_forward z' x i = zsl_forward z x i" if "x \<in> set xs \<union> set ys" for x
    using that assms(2,3) by (intro assms(6)) auto
  then have "zsl_path z' i (xs @ [u])"
    using assms(1) zsl_path_cong [of xs z' i z u] by (simp add: zsl_linked_append)
  moreover have "zsl_linked z' i ys"
    using assms(1) same zsl_linked_cong [of ys z' i z] by (simp add: zsl_linked_append zsl_linked_Cons)
  ultimately show ?thesis
    using assms(1,4,5) by (simp add: zsl_linked_append) (simp add: zsl_linked_Cons)
qed

lemma zsl_linked_remove:
  assumes "zsl_linked z i (xs @ u # p # ys)" "distinct (xs @ u # p # ys)"
    and "zsl_forward z' u i = zsl_forward z p i" "\<And>w. w \<noteq> u \<Longrightarrow> zsl_forward z' w i = zsl_forward z w i"
  shows "zsl_linked z' i (xs @ u # ys)"
proof -
  have same: "zsl_forward z' x i = zsl_forward z x i" if "x \<in> set xs \<union> set ys" for x
    using that assms(2) by (intro assms(4)) auto
  then have "zsl_path z' i (xs @ [u])"
    using assms(1) zsl_path_cong [of xs z' i z u] by (simp add: zsl_linked_append)
  moreover have "zsl_linked z' i ys"
    using assms(1) same zsl_linked_cong [of ys z' i z] by (simp add: zsl_linked_append zsl_linked_Cons)
  ultimately show ?thesis
    using assms(1,3) by (simp add: zsl_linked_append) (simp add: zsl_linked_Cons)
qed

section \<open>Single steps\<close>

text \<open>Everything but the forward pointers is the same.\<close>

definition zsl_same :: "zskiplist \<Rightarrow> zskiplist \<Rightarrow> bool" where
  "zsl_same z z' \<longleftrightarrow> zsl_header z' = zsl_header z \<and> zsl_length z' = zsl_length z \<and> zsl_level z' = zsl_level z \<and>
     zsl_brk z' = zsl_brk z \<and> zsl_height z' = zsl_height z \<and> zsl_key z' = zsl_key z \<and>
     (\<forall>p. zsl_heap z' p = None \<longleftrightarrow> zsl_heap z p = None)"

lemma zsl_same_refl [simp]: "zsl_same z z"
  by (simp add: zsl_same_def)

lemma zsl_same_trans: "zsl_same z z1 \<Longrightarrow> zsl_same z1 z2 \<Longrightarrow> zsl_same z z2"
  by (simp add: zsl_same_def)

lemma zsl_same_at: "zsl_same z z' \<Longrightarrow> zsl_at z' i ps = zsl_at z i ps"
  by (simp add: zsl_same_def zsl_at_def)

lemma zsl_same_nodes: "zsl_same z z' \<Longrightarrow> zsl_nodes z' ps = zsl_nodes z ps"
  by (simp add: zsl_same_def zsl_nodes_def)

lemma zsl_score_key: "0 < zsl_height z p \<Longrightarrow> zsl_score z p = Some (zsl_key z p)"
  by (auto simp: zsl_height_def zsl_score_def zsl_key_def split: option.splits)

lemma zsl_set_forward_ok:
  assumes "i < zsl_height z x"
  shows "\<exists>z'. zsl_set_forward x i y z = Some z' \<and> zsl_same z z' \<and>
    zsl_forward z' = (\<lambda>w j. if w = x \<and> j = i then Some y else zsl_forward z w j)"
proof -
  obtain n where n: "zsl_heap z x = Some n" "i < length (zn_level n)"
    using assms by (auto simp: zsl_height_def split: option.splits)
  let ?z = "z\<lparr>zsl_heap := (zsl_heap z)(x \<mapsto> n\<lparr>zn_level := (zn_level n)[i := Some y]\<rparr>)\<rparr>"
  have "zsl_set_forward x i y z = Some ?z" using n by (simp add: zsl_set_forward_def aset_def)
  moreover have "zsl_same z ?z"
    using n(1) by (auto simp: zsl_same_def zsl_height_def zsl_key_def fun_eq_iff)
  moreover have "zsl_forward ?z = (\<lambda>w j. if w = x \<and> j = i then Some y else zsl_forward z w j)"
    using n by (auto simp: zsl_forward_def aget_def fun_eq_iff)
  ultimately show ?thesis by blast
qed

section \<open>Searching\<close>

lemma zsl_walk_ok:
  "zsl_linked z i (u # xs @ bs) \<Longrightarrow> (\<And>p. p \<in> set (xs @ bs) \<Longrightarrow> 0 < zsl_height z p \<and> p \<noteq> 0) \<Longrightarrow>
   (\<And>p. p \<in> set xs \<Longrightarrow> zsl_key z p < s) \<Longrightarrow> (\<And>p. p \<in> set bs \<Longrightarrow> s \<le> zsl_key z p) \<Longrightarrow>
   zsl_walk z s i u = Some (List.last (u # xs))"
proof (induction xs arbitrary: u)
  case Nil
  show ?case
  proof (cases bs)
    case Nil
    then show ?thesis using Nil.prems(1) by (subst zsl_walk.simps) simp
  next
    case (Cons b bs')
    have "zsl_score z b = Some (zsl_key z b)" "\<not> zsl_key z b < s"
      using Nil.prems(2,4) [of b] Cons zsl_score_key by (auto simp: not_less)
    then show ?thesis
      using Nil.prems(1,2) Cons by (subst zsl_walk.simps) simp
  qed
next
  case (Cons x xs)
  have "zsl_score z x = Some (zsl_key z x)" "zsl_key z x < s" "x \<noteq> 0"
    using Cons.prems(2,3) zsl_score_key by auto
  moreover have "zsl_walk z s i x = Some (List.last (x # xs))"
    using Cons.prems by (intro Cons.IH) auto
  ultimately show ?case
    using Cons.prems(1) by (subst zsl_walk.simps) simp
qed

lemma zsl_at_append [simp]: "zsl_at z i (xs @ ys) = zsl_at z i xs @ zsl_at z i ys"
  by (simp add: zsl_at_def)

lemma zsl_at_Cons: "zsl_at z i (x # xs) = (if i < zsl_height z x then x # zsl_at z i xs else zsl_at z i xs)"
  by (simp add: zsl_at_def)

lemma zsl_at_Suc: "set (zsl_at z (Suc i) ps) \<subseteq> set (zsl_at z i ps)"
  by (auto simp: zsl_at_def)

text \<open>Where the search is at a level: the last node of it that belongs to the front part.\<close>

definition zsl_pos :: "zskiplist \<Rightarrow> ptr list \<Rightarrow> nat \<Rightarrow> ptr" where
  "zsl_pos z xs i = List.last (zsl_header z # zsl_at z i xs)"

lemma zsl_pos_in: "zsl_pos z xs i \<in> set (zsl_header z # zsl_at z i xs)"
  unfolding zsl_pos_def by (rule last_in_set) simp

lemma zsl_search_ok:
  assumes lk: "\<And>i. i < 32 \<Longrightarrow> zsl_linked z i (zsl_header z # zsl_at z i (xs @ bs))"
    and nd: "\<And>p. p \<in> set (xs @ bs) \<Longrightarrow> 0 < zsl_height z p \<and> p \<noteq> 0"
    and key: "\<And>p. p \<in> set xs \<Longrightarrow> zsl_key z p < s" "\<And>p. p \<in> set bs \<Longrightarrow> s \<le> zsl_key z p"
  shows "k \<le> 32 \<Longrightarrow> length upd = 32 \<Longrightarrow>
    \<exists>upd'. zsl_search z s k (zsl_pos z xs k) upd = Some (zsl_pos z xs 0, upd') \<and> length upd' = 32 \<and>
      (\<forall>i. aget upd' i = (if i < k then Some (zsl_pos z xs i) else aget upd i))"
proof (induction k arbitrary: upd)
  case (Suc k)
  have "zsl_pos z xs (Suc k) \<in> set (zsl_header z # zsl_at z k xs)"
    using zsl_pos_in [of z xs "Suc k"] zsl_at_Suc [of z k xs] by auto
  then obtain us ws where sp: "zsl_header z # zsl_at z k xs = us @ zsl_pos z xs (Suc k) # ws"
    by (meson split_list)
  have pos: "List.last (zsl_pos z xs (Suc k) # ws) = zsl_pos z xs k"
    unfolding zsl_pos_def [of z xs k] sp by simp
  have "zsl_linked z k ((us @ zsl_pos z xs (Suc k) # ws) @ zsl_at z k bs)"
    using lk [of k] Suc.prems(1) unfolding sp [symmetric] by simp
  then have "zsl_linked z k (zsl_pos z xs (Suc k) # ws @ zsl_at z k bs)"
    by (simp add: zsl_linked_append)
  moreover have "set ws \<subseteq> set xs"
  proof -
    have "set ws \<subseteq> set (zsl_at z k xs)" using sp by (cases us) auto
    then show ?thesis by (auto simp: zsl_at_def)
  qed
  ultimately have "zsl_walk z s k (zsl_pos z xs (Suc k)) = Some (zsl_pos z xs k)"
    unfolding pos [symmetric] using nd key by (intro zsl_walk_ok) (auto simp: zsl_at_def)
  moreover have "aset upd k (zsl_pos z xs k) = Some (upd[k := Some (zsl_pos z xs k)])"
    using Suc.prems by (simp add: aset_def)
  moreover obtain upd' where "zsl_search z s k (zsl_pos z xs k) (upd[k := Some (zsl_pos z xs k)]) = Some (zsl_pos z xs 0, upd')"
      "length upd' = 32" "\<forall>i. aget upd' i = (if i < k then Some (zsl_pos z xs i) else aget (upd[k := Some (zsl_pos z xs k)]) i)"
    using Suc.IH [of "upd[k := Some (zsl_pos z xs k)]"] Suc.prems by auto
  ultimately show ?case
    using Suc.prems by (auto simp: aget_def less_Suc_eq)
qed simp

section \<open>Inserting\<close>

text \<open>
  After the loop that links the node \<open>p\<close> at the levels from \<open>i\<close> on: behind \<open>u j\<close> at each level \<open>j\<close>.
\<close>

lemma zsl_link_ok:
  "(\<And>j. i \<le> j \<Longrightarrow> j < i + k \<Longrightarrow> aget upd j = Some (u j) \<and> u j \<noteq> p \<and> j < zsl_height z (u j) \<and> zsl_forward z (u j) j \<noteq> None) \<Longrightarrow>
   i + k \<le> zsl_height z p \<Longrightarrow>
   \<exists>z'. zsl_link i k p upd z = Some z' \<and> zsl_same z z' \<and>
     (\<forall>w j. zsl_forward z' w j =
        (if i \<le> j \<and> j < i + k then if w = u j then Some p else if w = p then zsl_forward z (u j) j else zsl_forward z w j
         else zsl_forward z w j))"
proof (induction k arbitrary: i z)
  case 0
  then show ?case by auto
next
  case (Suc k)
  have u: "aget upd i = Some (u i)" "u i \<noteq> p" "i < zsl_height z (u i)" and f: "zsl_forward z (u i) i \<noteq> None"
    using Suc.prems(1) [of i] by auto
  obtain y where y: "zsl_forward z (u i) i = Some y" using f by blast
  obtain z1 where z1: "zsl_set_forward p i y z = Some z1" "zsl_same z z1"
      "zsl_forward z1 = (\<lambda>w j. if w = p \<and> j = i then Some y else zsl_forward z w j)"
    using zsl_set_forward_ok [of i z p y] Suc.prems(2) by auto
  have h1: "zsl_height z1 = zsl_height z" using z1(2) by (simp add: zsl_same_def)
  obtain z2 where z2: "zsl_set_forward (u i) i p z1 = Some z2" "zsl_same z1 z2"
      "zsl_forward z2 = (\<lambda>w j. if w = u i \<and> j = i then Some p else zsl_forward z1 w j)"
    using zsl_set_forward_ok [of i z1 "u i" p] u(3) h1 by auto
  have s2: "zsl_same z z2" using zsl_same_trans [OF z1(2) z2(2)] .
  have f2: "zsl_forward z2 w j = (if j = i then if w = u i then Some p else if w = p then Some y else zsl_forward z w j
      else zsl_forward z w j)" for w j
    by (simp add: z2(3) z1(3))
  have h2: "zsl_height z2 = zsl_height z" using s2 by (simp add: zsl_same_def)
  obtain z' where z': "zsl_link (Suc i) k p upd z2 = Some z'" "zsl_same z2 z'"
      "\<And>w j. zsl_forward z' w j =
        (if Suc i \<le> j \<and> j < Suc i + k then if w = u j then Some p else if w = p then zsl_forward z2 (u j) j else zsl_forward z2 w j
         else zsl_forward z2 w j)"
  proof -
    have pre: "aget upd j = Some (u j) \<and> u j \<noteq> p \<and> j < zsl_height z2 (u j) \<and> zsl_forward z2 (u j) j \<noteq> None"
      if "Suc i \<le> j" "j < Suc i + k" for j
      using Suc.prems(1) [of j] that by (simp add: f2 h2)
    have "Suc i + k \<le> zsl_height z2 p" using Suc.prems(2) by (simp add: h2)
    from Suc.IH [of "Suc i" z2, OF pre this] show ?thesis using that by blast
  qed
  have "zsl_link i (Suc k) p upd z = Some z'" using u(1) y z1(1) z2(1) z'(1) by simp
  moreover have "zsl_forward z' w j =
        (if i \<le> j \<and> j < i + Suc k then if w = u j then Some p else if w = p then zsl_forward z (u j) j else zsl_forward z w j
         else zsl_forward z w j)" for w j
    by (cases "j = i") (auto simp: z'(3) f2 y)
  ultimately show ?case using zsl_same_trans [OF s2 z'(2)] by blast
qed

lemma zsl_raise_fold:
  "b \<le> 32 \<Longrightarrow> length upd = 32 \<Longrightarrow>
   \<exists>upd'. fold (\<lambda>i u. do { u \<leftarrow> u; aset u i h }) [a..<b] (Some upd) = Some upd' \<and>
     (\<forall>i. aget upd' i = (if a \<le> i \<and> i < b then Some h else aget upd i)) \<and> length upd' = 32"
proof (induction b)
  case (Suc b)
  then obtain v where v: "fold (\<lambda>i u. do { u \<leftarrow> u; aset u i h }) [a..<b] (Some upd) = Some v"
      "\<forall>i. aget v i = (if a \<le> i \<and> i < b then Some h else aget upd i)" "length v = 32" by auto
  show ?case
  proof (cases "a \<le> b")
    case True
    have a: "aset v b h = Some (v[b := Some h])" using v(3) Suc.prems(1) by (simp add: aset_def)
    then show ?thesis using True v aget_aset [OF a] by (auto simp: less_Suc_eq)
  qed (use Suc.prems(2) in auto)
qed simp

lemma zsl_random_level: "zslRandomLevel rs = Some (lv, rs') \<Longrightarrow> 1 \<le> lv \<and> lv \<le> 32"
proof -
  have loop: "zsl_random_loop k rs = Some (lv, rs') \<Longrightarrow> k \<le> lv" for k lv
    by (induction k rs rule: zsl_random_loop.induct) (auto split: if_splits)
  show "zslRandomLevel rs = Some (lv, rs') \<Longrightarrow> 1 \<le> lv \<and> lv \<le> 32"
    using loop [of 1] by (auto simp: zslRandomLevel_def ZSKIPLIST_MAXLEVEL_def bind_eq_Some_conv split: if_splits)
qed

lemma zsl_repD:
  assumes "zsl_rep z ps"
  shows "zsl_nodes z ps" "sorted (map (zsl_key z) ps)" "\<And>i. i < 32 \<Longrightarrow> zsl_linked z i (zsl_header z # zsl_at z i ps)"
    "zsl_length z = of_nat (length ps)" "1 < zsl_level z \<Longrightarrow> zsl_at z (zsl_level z - 1) ps \<noteq> []"
  using assms by (auto simp: zsl_rep_def)

lemma zsl_nodesD:
  assumes "zsl_nodes z ps"
  shows "distinct ps" "0 \<notin> set ps" "zsl_header z \<notin> set ps" "0 < zsl_header z" "zsl_height z (zsl_header z) = 32"
    "zsl_header z < zsl_brk z" "\<And>p. p \<in> set ps \<Longrightarrow> 1 \<le> zsl_height z p \<and> zsl_height z p \<le> zsl_level z \<and> p < zsl_brk z"
    "1 \<le> zsl_level z" "zsl_level z \<le> 32"
  using assms by (auto simp: zsl_nodes_def)

lemma zsl_at_high: "zsl_nodes z ps \<Longrightarrow> set xs \<subseteq> set ps \<Longrightarrow> zsl_level z \<le> i \<Longrightarrow> zsl_at z i xs = []"
  using zsl_nodesD(7) [of z ps] by (force simp: zsl_at_def filter_empty_conv)

text \<open>The search on a well-formed list that is split at the score.\<close>

lemma zsl_search_rep:
  assumes "zsl_rep z (xs @ bs)" "\<And>p. p \<in> set xs \<Longrightarrow> zsl_key z p < s" "\<And>p. p \<in> set bs \<Longrightarrow> s \<le> zsl_key z p"
  shows "\<exists>upd. zsl_search z s (zsl_level z) (zsl_header z) (replicate 32 None) = Some (zsl_pos z xs 0, upd) \<and> length upd = 32 \<and>
    (\<forall>i < zsl_level z. aget upd i = Some (zsl_pos z xs i))"
proof -
  note r = zsl_repD [OF assms(1)]
  note n = zsl_nodesD [OF r(1)]
  have "zsl_pos z xs (zsl_level z) = zsl_header z"
    unfolding zsl_pos_def using zsl_at_high [OF r(1), of xs "zsl_level z"] by simp
  moreover have "0 < zsl_height z p \<and> p \<noteq> 0" if "p \<in> set (xs @ bs)" for p
    using n(2) n(7) [OF that] that by (metis not_less_eq_eq One_nat_def le0 not_gr_zero)
  ultimately show ?thesis
    using zsl_search_ok [OF r(3) _ assms(2,3), of "zsl_level z" "replicate 32 None"] n(9) by fastforce
qed

lemma zsl_pos_ok:
  assumes "zsl_rep z (xs @ bs)" "i < 32"
  shows "i < zsl_height z (zsl_pos z xs i)" "zsl_forward z (zsl_pos z xs i) i = Some (zsl_first (zsl_at z i bs))"
    "zsl_pos z xs i \<notin> set bs" "zsl_pos z xs i < zsl_brk z"
    "\<exists>us. zsl_header z # zsl_at z i xs = us @ [zsl_pos z xs i]"
proof -
  note r = zsl_repD [OF assms(1)]
  note n = zsl_nodesD [OF r(1)]
  show us: "\<exists>us. zsl_header z # zsl_at z i xs = us @ [zsl_pos z xs i]"
    unfolding zsl_pos_def by (metis append_butlast_last_id list.distinct(1))
  then obtain us where us: "zsl_header z # zsl_at z i xs = us @ [zsl_pos z xs i]" by blast
  have "zsl_linked z i ((us @ [zsl_pos z xs i]) @ zsl_at z i bs)"
    using r(3) [OF assms(2)] unfolding us [symmetric] by simp
  then show "zsl_forward z (zsl_pos z xs i) i = Some (zsl_first (zsl_at z i bs))"
    by (simp add: zsl_linked_append zsl_linked_Cons)
  have "zsl_pos z xs i = zsl_header z \<or> zsl_pos z xs i \<in> set (zsl_at z i xs)"
    using zsl_pos_in [of z xs i] by auto
  then show "i < zsl_height z (zsl_pos z xs i)" "zsl_pos z xs i \<notin> set bs" "zsl_pos z xs i < zsl_brk z"
    using n assms(2) by (auto simp: zsl_at_def)
qed

lemma zsl_raise_ok:
  assumes rep: "zsl_rep z (xs @ bs)" and upd: "length upd = 32" "\<And>i. i < zsl_level z \<Longrightarrow> aget upd i = Some (zsl_pos z xs i)"
    and lv: "lv \<le> 32"
  shows "\<exists>upd'. zsl_raise lv z upd = Some (z\<lparr>zsl_level := max (zsl_level z) lv\<rparr>, upd') \<and>
    (\<forall>i < lv. aget upd' i = Some (zsl_pos z xs i))"
proof (cases "lv > zsl_level z")
  case True
  obtain v where v: "fold (\<lambda>i u. do { u \<leftarrow> u; aset u i (zsl_header z) }) [zsl_level z..<lv] (Some upd) = Some v"
      "\<And>i. aget v i = (if zsl_level z \<le> i \<and> i < lv then Some (zsl_header z) else aget upd i)"
    using zsl_raise_fold [OF lv upd(1), of "zsl_header z" "zsl_level z"] by blast
  have "zsl_pos z xs i = zsl_header z" if "zsl_level z \<le> i" for i
    unfolding zsl_pos_def using zsl_at_high [OF zsl_repD(1) [OF rep], of xs i] that by simp
  then have "aget v i = Some (zsl_pos z xs i)" if "i < lv" for i
    using v(2) [of i] upd(2) [of i] that by auto
  then show ?thesis using True v(1) by (auto simp: zsl_raise_def max_def)
next
  case False
  then show ?thesis using upd(2) by (auto simp: zsl_raise_def max_def)
qed

lemma zslCreateNode_ok:
  assumes "zslCreateNode lv s func z = (p, z1)"
  shows "p = zsl_brk z" "zsl_header z1 = zsl_header z" "zsl_length z1 = zsl_length z" "zsl_level z1 = zsl_level z"
    "zsl_brk z1 = zsl_brk z + 1" "zsl_height z1 = (zsl_height z)(p := lv)" "zsl_key z1 = (zsl_key z)(p := s)"
    "\<And>w i. w \<noteq> p \<Longrightarrow> zsl_forward z1 w i = zsl_forward z w i" "zsl_heap z1 p \<noteq> None"
    "\<And>w. w \<noteq> p \<Longrightarrow> zsl_heap z1 w = zsl_heap z w"
  using assms by (auto simp: zslCreateNode_def Let_def zsl_height_def zsl_key_def zsl_forward_def fun_eq_iff)

text \<open>The forward pointers when a node of height \<open>lv\<close> has been linked in give the list with it.\<close>

lemma zsl_rep_insert:
  assumes rep: "zsl_rep z (xs @ bs)" and key: "\<And>q. q \<in> set xs \<Longrightarrow> zsl_key z q < s" "\<And>q. q \<in> set bs \<Longrightarrow> s \<le> zsl_key z q"
    and lv: "1 \<le> lv" "lv \<le> 32" and p: "p = zsl_brk z"
    and z': "zsl_header z' = zsl_header z" "zsl_length z' = zsl_length z + 1" "zsl_level z' = max (zsl_level z) lv"
      "zsl_brk z' = zsl_brk z + 1" "zsl_height z' = (zsl_height z)(p := lv)" "zsl_key z' = (zsl_key z)(p := s)"
    and fwd: "\<And>w i. w \<noteq> p \<Longrightarrow> zsl_forward z' w i = (if i < lv \<and> w = zsl_pos z xs i then Some p else zsl_forward z w i)"
      "\<And>i. i < lv \<Longrightarrow> zsl_forward z' p i = zsl_forward z (zsl_pos z xs i) i"
  shows "zsl_rep z' (xs @ p # bs)"
proof -
  note r = zsl_repD [OF rep]
  note n = zsl_nodesD [OF r(1)]
  have fresh: "p \<notin> set (xs @ bs)" "p \<noteq> zsl_header z" "p \<noteq> 0"
    using n(6) n(7) [of p] p by auto
  have at: "zsl_at z' i ys = zsl_at z i ys" if "p \<notin> set ys" for i ys
    unfolding zsl_at_def z'(5) using that by (intro filter_cong) auto
  have at': "zsl_at z' i (xs @ p # bs) = zsl_at z i xs @ (if i < lv then [p] else []) @ zsl_at z i bs" for i
    using at [of xs i] at [of bs i] fresh(1) by (simp add: zsl_at_Cons z'(5))
  have "zsl_linked z' i (zsl_header z' # zsl_at z' i (xs @ p # bs))" if i: "i < 32" for i
  proof -
    obtain us where us: "zsl_header z # zsl_at z i xs = us @ [zsl_pos z xs i]" using zsl_pos_ok(5) [OF rep i] by blast
    have whole: "zsl_header z # zsl_at z i (xs @ bs) = us @ zsl_pos z xs i # zsl_at z i bs" using us by simp
    have dist: "distinct (zsl_header z # zsl_at z i (xs @ bs))" "p \<notin> set (zsl_header z # zsl_at z i (xs @ bs))"
      using n(1,3) fresh by (auto simp: zsl_at_def)
    have lk: "zsl_linked z i (us @ zsl_pos z xs i # zsl_at z i bs)" using r(3) [OF i] unfolding whole .
    show ?thesis
    proof (cases "i < lv")
      case True
      have "zsl_pos z xs i \<noteq> p" using zsl_pos_ok(4) [OF rep i] p by simp
      then have "zsl_linked z' i (us @ zsl_pos z xs i # p # zsl_at z i bs)"
        using zsl_linked_insert [OF lk dist [unfolded whole], of z'] fwd True by auto
      moreover have "zsl_header z' # zsl_at z' i (xs @ p # bs) = us @ zsl_pos z xs i # p # zsl_at z i bs"
        unfolding at' z'(1) using True us by simp
      ultimately show ?thesis by simp
    next
      case False
      have "zsl_forward z' w i = zsl_forward z w i" if "w \<in> set (zsl_header z # zsl_at z i (xs @ bs))" for w
        using fwd(1) [of w i] dist(2) that False by metis
      then have "zsl_linked z' i (zsl_header z # zsl_at z i (xs @ bs))"
        using r(3) [OF i] zsl_linked_cong by blast
      then show ?thesis unfolding at' z'(1) using False by simp
    qed
  qed
  moreover have "zsl_nodes z' (xs @ p # bs)"
    using n fresh lv p by (auto simp: zsl_nodes_def z' le_max_iff_disj less_SucI)
  moreover have "sorted (map (zsl_key z') (xs @ p # bs))"
  proof -
    have m: "map (zsl_key z') ys = map (zsl_key z) ys" if "p \<notin> set ys" for ys
      using that by (auto simp: z'(6))
    show ?thesis using r(2) key m [of xs] m [of bs] fresh(1) by (auto simp: sorted_append z'(6) less_imp_le intro: order_trans)
  qed
  moreover have "zsl_at z' (zsl_level z' - 1) (xs @ p # bs) \<noteq> []" if "1 < zsl_level z'"
  proof (cases "lv > zsl_level z")
    case True
    then show ?thesis unfolding at' z'(3) using lv(1) by (simp add: max_def)
  next
    case False
    then show ?thesis unfolding at' z'(3) using r(5) that z'(3) by (auto simp: max_def)
  qed
  ultimately show ?thesis using r(4) z'(2) by (simp add: zsl_rep_def)
qed

text \<open>Where a score goes: behind the smaller ones.\<close>

lemma sorted_split:
  assumes "sorted (map f ps)"
  shows "\<And>p. p \<in> set (takeWhile (\<lambda>p. f p < s) ps) \<Longrightarrow> f p < s" "\<And>p. p \<in> set (dropWhile (\<lambda>p. f p < s) ps) \<Longrightarrow> s \<le> (f p :: 'k :: linorder)"
proof -
  show "\<And>p. p \<in> set (takeWhile (\<lambda>p. f p < s) ps) \<Longrightarrow> f p < s" by (rule set_takeWhileD [THEN conjunct2])
  have "sorted (map f (dropWhile (\<lambda>p. f p < s) ps))"
    using assms by (metis sorted_append map_append takeWhile_dropWhile_id)
  then show "\<And>p. p \<in> set (dropWhile (\<lambda>p. f p < s) ps) \<Longrightarrow> s \<le> f p"
    using hd_dropWhile [of "\<lambda>p. f p < s" ps] by (cases "dropWhile (\<lambda>p. f p < s) ps") (auto simp: not_less)
qed

lemma zslInsert_ok:
  fixes s :: u64
  assumes rep: "zsl_rep z ps" and lv: "zslRandomLevel rs = Some (lv, rs')"
  defines "xs \<equiv> takeWhile (\<lambda>p. zsl_key z p < s) ps" and "bs \<equiv> dropWhile (\<lambda>p. zsl_key z p < s) ps"
  shows "\<exists>z'. zslInsert s func rs z = Some (zsl_brk z, z') \<and> zsl_rep z' (xs @ zsl_brk z # bs) \<and>
    zsl_key z' = (zsl_key z)(zsl_brk z := s)"
proof -
  have ps: "ps = xs @ bs" by (simp add: xs_def bs_def)
  note rep' = rep [unfolded ps]
  have key: "\<And>q. q \<in> set xs \<Longrightarrow> zsl_key z q < s" "\<And>q. q \<in> set bs \<Longrightarrow> s \<le> zsl_key z q"
    using sorted_split [OF zsl_repD(2) [OF rep]] by (auto simp: xs_def bs_def)
  note lv' = zsl_random_level [OF lv]
  obtain upd where upd: "zsl_search z s (zsl_level z) (zsl_header z) (replicate 32 None) = Some (zsl_pos z xs 0, upd)"
      "length upd = 32" "\<And>i. i < zsl_level z \<Longrightarrow> aget upd i = Some (zsl_pos z xs i)"
    using zsl_search_rep [OF rep' key] by blast
  let ?zr = "z\<lparr>zsl_level := max (zsl_level z) lv\<rparr>"
  obtain upd' where upd': "zsl_raise lv z upd = Some (?zr, upd')" "\<And>i. i < lv \<Longrightarrow> aget upd' i = Some (zsl_pos z xs i)"
    using zsl_raise_ok [OF rep' upd(2,3)] lv' by blast
  obtain p z1 where cr: "zslCreateNode lv s func ?zr = (p, z1)" by (cases "zslCreateNode lv s func ?zr")
  note c = zslCreateNode_ok [OF cr]
  have zr: "zsl_height ?zr = zsl_height z" "zsl_key ?zr = zsl_key z" "zsl_forward ?zr = zsl_forward z"
    by (simp_all add: zsl_height_def zsl_key_def zsl_forward_def fun_eq_iff)
  have p: "p = zsl_brk z" using c(1) by simp
  have pre: "aget upd' j = Some (zsl_pos z xs j) \<and> zsl_pos z xs j \<noteq> p \<and> j < zsl_height z1 (zsl_pos z xs j) \<and>
      zsl_forward z1 (zsl_pos z xs j) j \<noteq> None" if "0 \<le> j" "j < 0 + lv" for j
    using upd'(2) [of j] zsl_pos_ok(1,2,4) [OF rep', of j] that lv' c(6,8) p zr by auto
  obtain z2 where z2: "zsl_link 0 lv p upd' z1 = Some z2" "zsl_same z1 z2"
      "\<And>w j. zsl_forward z2 w j = (if 0 \<le> j \<and> j < 0 + lv then if w = zsl_pos z xs j then Some p
        else if w = p then zsl_forward z1 (zsl_pos z xs j) j else zsl_forward z1 w j else zsl_forward z1 w j)"
  proof -
    have "0 + lv \<le> zsl_height z1 p" by (simp add: c(6))
    from zsl_link_ok [of 0 lv upd' "zsl_pos z xs" p z1, OF pre this] show ?thesis using that by blast
  qed
  let ?z = "z2\<lparr>zsl_length := zsl_length z2 + 1\<rparr>"
  have zz: "zsl_height ?z = zsl_height z2" "zsl_key ?z = zsl_key z2" "zsl_forward ?z = zsl_forward z2"
    by (simp_all add: zsl_height_def zsl_key_def zsl_forward_def fun_eq_iff)
  have ins: "zslInsert s func rs z = Some (p, ?z)"
    using upd(1) lv upd'(1) cr z2(1) by (simp add: zslInsert_def ZSKIPLIST_MAXLEVEL_def)
  note sm = z2(2) [unfolded zsl_same_def]
  have "zsl_rep ?z (xs @ p # bs)"
  proof (rule zsl_rep_insert [OF rep' key _ _ p])
    show "1 \<le> lv" "lv \<le> 32" using lv' by auto
    show "zsl_forward ?z w i = (if i < lv \<and> w = zsl_pos z xs i then Some p else zsl_forward z w i)" if "w \<noteq> p" for w i
      using that by (simp add: zz z2(3) c(8) zr)
    show "zsl_forward ?z p i = zsl_forward z (zsl_pos z xs i) i" if "i < lv" for i
      using that pre [of i] by (simp add: zz z2(3) c(8) zr)
  qed (use sm c zr p zz in simp_all)
  moreover have "zsl_key ?z = (zsl_key z)(p := s)" using sm c(7) zr zz by simp
  ultimately show ?thesis using ins p by blast
qed

section \<open>Deleting\<close>

lemma zsl_bypass_ok:
  assumes "i < zsl_height z u" "u \<noteq> x" "zsl_forward z u i \<noteq> None" "zsl_forward z u i = Some x \<Longrightarrow> zsl_forward z x i \<noteq> None"
  shows "\<exists>z'. zsl_bypass x u i z = Some z' \<and> zsl_same z z' \<and>
    zsl_forward z' = (\<lambda>w j. if j = i \<and> w = u \<and> zsl_forward z w j = Some x then zsl_forward z x j else zsl_forward z w j)"
proof -
  obtain f where f: "zsl_forward z u i = Some f" using assms(3) by blast
  show ?thesis
  proof (cases "f = x")
    case True
    then obtain g where g: "zsl_forward z x i = Some g" using assms(4) f by blast
    obtain z' where "zsl_set_forward u i g z = Some z'" "zsl_same z z'"
        "zsl_forward z' = (\<lambda>w j. if w = u \<and> j = i then Some g else zsl_forward z w j)"
      using zsl_set_forward_ok [OF assms(1)] by blast
    then show ?thesis using f g True by (intro exI [of _ z']) (auto simp: zsl_bypass_def fun_eq_iff)
  next
    case False
    then show ?thesis using f by (intro exI [of _ z]) (auto simp: zsl_bypass_def fun_eq_iff)
  qed
qed

text \<open>The loops of both deletions, on a list of levels.\<close>

lemma zsl_bypass_levels:
  fixes body :: "nat \<Rightarrow> zskiplist \<Rightarrow> zskiplist option" and z :: zskiplist
  assumes body: "\<And>j y. j \<in> set js \<Longrightarrow> zsl_same z y \<Longrightarrow> body j y = zsl_bypass x (u j) j y"
  shows "distinct js \<Longrightarrow>
    (\<And>j. j \<in> set js \<Longrightarrow> j < zsl_height z (u j) \<and> u j \<noteq> x \<and> zsl_forward z (u j) j \<noteq> None \<and>
       (zsl_forward z (u j) j = Some x \<longrightarrow> zsl_forward z x j \<noteq> None)) \<Longrightarrow>
    \<exists>z'. fold (\<lambda>j z. do { z \<leftarrow> z; body j z }) js (Some z) = Some z' \<and> zsl_same z z' \<and>
      zsl_forward z' = (\<lambda>w j. if j \<in> set js \<and> w = u j \<and> zsl_forward z w j = Some x then zsl_forward z x j else zsl_forward z w j)"
  using body
proof (induction js arbitrary: z)
  case Nil
  then show ?case by simp
next
  case (Cons i js)
  obtain z1 where z1: "zsl_bypass x (u i) i z = Some z1" "zsl_same z z1"
      "zsl_forward z1 = (\<lambda>w j. if j = i \<and> w = u i \<and> zsl_forward z w j = Some x then zsl_forward z x j else zsl_forward z w j)"
    using zsl_bypass_ok [of i z "u i" x] Cons.prems(2) [of i] by auto
  have h: "zsl_height z1 = zsl_height z" using z1(2) by (simp add: zsl_same_def)
  have ne: "j \<noteq> i" if "j \<in> set js" for j using Cons.prems(1) that by auto
  obtain z' where z': "fold (\<lambda>j z. do { z \<leftarrow> z; body j z }) js (Some z1) = Some z'" "zsl_same z1 z'"
      "zsl_forward z' = (\<lambda>w j. if j \<in> set js \<and> w = u j \<and> zsl_forward z1 w j = Some x then zsl_forward z1 x j else zsl_forward z1 w j)"
  proof -
    have pre: "j < zsl_height z1 (u j) \<and> u j \<noteq> x \<and> zsl_forward z1 (u j) j \<noteq> None \<and>
       (zsl_forward z1 (u j) j = Some x \<longrightarrow> zsl_forward z1 x j \<noteq> None)" if "j \<in> set js" for j
      using Cons.prems(2) [of j] that ne [OF that] by (simp add: z1(3) h)
    have "body j y = zsl_bypass x (u j) j y" if "j \<in> set js" "zsl_same z1 y" for j y
      using Cons.prems(3) [of j y] that zsl_same_trans [OF z1(2)] by simp
    from Cons.IH [OF _ pre this] show ?thesis using Cons.prems(1) that by auto
  qed
  have "body i z = Some z1" using Cons.prems(3) [of i z] z1(1) by simp
  moreover have "zsl_forward z' = (\<lambda>w j. if j \<in> set (i # js) \<and> w = u j \<and> zsl_forward z w j = Some x then zsl_forward z x j
      else zsl_forward z w j)"
    using Cons.prems(1) Cons.prems(2) [of i] unfolding z'(3) z1(3) by (auto simp: fun_eq_iff)
  ultimately show ?case using z'(1) zsl_same_trans [OF z1(2) z'(2)] by auto
qed

lemma zsl_shrink_ok:
  fixes z :: zskiplist
  assumes "zsl_nodes z ps" "\<And>i. i < 32 \<Longrightarrow> zsl_linked z i (zsl_header z # zsl_at z i ps)"
  shows "\<exists>l. zsl_shrink z = Some (z\<lparr>zsl_level := l\<rparr>) \<and> zsl_nodes (z\<lparr>zsl_level := l\<rparr>) ps \<and>
    (1 < l \<longrightarrow> zsl_at z (l - 1) ps \<noteq> [])"
  using assms
proof (induction "zsl_level z" arbitrary: z rule: less_induct)
  case less
  note n = zsl_nodesD [OF less.prems(1)]
  show ?case
  proof (cases "1 < zsl_level z")
    case False
    then have "z\<lparr>zsl_level := zsl_level z\<rparr> = z" by simp
    then show ?thesis using False less.prems(1)
      by (intro exI [of _ "zsl_level z"]) (subst zsl_shrink.simps, simp)
  next
    case True
    let ?t = "zsl_at z (zsl_level z - 1) ps"
    have f: "zsl_forward z (zsl_header z) (zsl_level z - 1) = Some (zsl_first ?t)"
      using less.prems(2) [of "zsl_level z - 1"] n(9) True by (auto simp: zsl_linked_Cons)
    show ?thesis
    proof (cases "?t = []")
      case empty: True
      let ?z = "z\<lparr>zsl_level := zsl_level z - 1\<rparr>"
      have zz: "zsl_height ?z = zsl_height z" "zsl_forward ?z = zsl_forward z"
        by (simp_all add: zsl_height_def zsl_forward_def fun_eq_iff)
      have at: "zsl_at ?z = zsl_at z" by (intro ext) (simp only: zsl_at_def zz)
      have lk: "zsl_linked ?z i xs = zsl_linked z i xs" for i xs by (rule zsl_linked_cong) (simp only: zz)
      have "zsl_height z p \<le> zsl_level z - 1" if "p \<in> set ps" for p
        using empty that by (force simp: zsl_at_def filter_empty_conv)
      then have "zsl_nodes ?z ps" using n True unfolding zsl_nodes_def zz by auto
      then obtain l where "zsl_shrink ?z = Some (?z\<lparr>zsl_level := l\<rparr>)" "zsl_nodes (?z\<lparr>zsl_level := l\<rparr>) ps"
          "1 < l \<longrightarrow> zsl_at ?z (l - 1) ps \<noteq> []"
        using less.hyps [of ?z] less.prems(2) True unfolding at lk by auto
      then show ?thesis
        using True f empty unfolding at by (intro exI [of _ l]) (subst zsl_shrink.simps, simp)
    next
      case ne: False
      have "set ?t \<subseteq> set ps" by (auto simp: zsl_at_def)
      then have "zsl_first ?t \<noteq> 0" using n(2) ne by (cases ?t) (auto, metis gr0I)
      moreover have "z\<lparr>zsl_level := zsl_level z\<rparr> = z" by simp
      ultimately show ?thesis
        using True f ne less.prems(1) by (intro exI [of _ "zsl_level z"]) (subst zsl_shrink.simps, simp)
    qed
  qed
qed

text \<open>When the node \<open>x\<close> behind \<open>xs\<close> is bypassed at every level, the list without it is left.\<close>

lemma zsl_rep_remove:
  assumes rep: "zsl_rep z (xs @ x # bs)" and same: "zsl_same z z'"
    and fwd: "\<And>w j. zsl_forward z' w j = (if j < zsl_level z \<and> w = zsl_pos z xs j \<and> zsl_forward z w j = Some x
      then zsl_forward z x j else zsl_forward z w j)"
  shows "\<exists>l. zsl_shrink z' = Some (z'\<lparr>zsl_level := l\<rparr>) \<and>
    zsl_rep (z'\<lparr>zsl_level := l, zsl_length := zsl_length z - 1\<rparr>) (xs @ bs)"
proof -
  note r = zsl_repD [OF rep]
  note n = zsl_nodesD [OF r(1)]
  have nd: "zsl_nodes z' (xs @ bs)"
    using n unfolding zsl_same_nodes [OF same] by (auto simp: zsl_nodes_def)
  have at: "zsl_at z' i ps = zsl_at z i ps" for i ps by (rule zsl_same_at [OF same])
  have hd: "zsl_header z' = zsl_header z" using same by (simp add: zsl_same_def)
  have lk: "zsl_linked z' i (zsl_header z' # zsl_at z' i (xs @ bs))" if i: "i < 32" for i
  proof -
    obtain us where us: "zsl_header z # zsl_at z i xs = us @ [zsl_pos z xs i]" using zsl_pos_ok(5) [OF rep i] by blast
    have dist: "distinct (zsl_header z # zsl_at z i (xs @ x # bs))" using n(1,3) by (auto simp: zsl_at_def)
    note pf = zsl_pos_ok(2) [OF rep i]
    show ?thesis
    proof (cases "i < zsl_height z x")
      case True
      then have lv: "i < zsl_level z" using n(7) [of x] by simp
      have whole: "zsl_header z # zsl_at z i (xs @ x # bs) = us @ zsl_pos z xs i # x # zsl_at z i bs"
        using us True by (simp add: zsl_at_Cons)
      have "zsl_linked z' i (us @ zsl_pos z xs i # zsl_at z i bs)"
      proof (rule zsl_linked_remove)
        show "zsl_linked z i (us @ zsl_pos z xs i # x # zsl_at z i bs)" using r(3) [OF i] unfolding whole .
        show "distinct (us @ zsl_pos z xs i # x # zsl_at z i bs)" using dist unfolding whole .
        show "zsl_forward z' (zsl_pos z xs i) i = zsl_forward z x i"
          using pf lv True by (simp add: fwd zsl_at_Cons)
        show "zsl_forward z' w i = zsl_forward z w i" if "w \<noteq> zsl_pos z xs i" for w
          using that by (simp add: fwd)
      qed
      moreover have "zsl_header z' # zsl_at z' i (xs @ bs) = us @ zsl_pos z xs i # zsl_at z i bs"
        using us by (simp add: at hd)
      ultimately show ?thesis by simp
    next
      case False
      then have e: "zsl_at z i (xs @ x # bs) = zsl_at z i (xs @ bs)" by (simp add: zsl_at_Cons)
      have "x \<notin> set bs" "x \<noteq> 0" using n(1,2) by auto
      then have "zsl_first (zsl_at z i (x # bs)) \<noteq> x"
        using False by (auto simp: zsl_at_Cons zsl_at_def split: list.split dest: filter_eq_ConsD)
      then have "zsl_forward z' w i = zsl_forward z w i" for w
        using pf by (auto simp: fwd)
      then show ?thesis
        using r(3) [OF i] zsl_linked_cong [of "zsl_header z # zsl_at z i (xs @ bs)" z' i z] unfolding e at hd by simp
    qed
  qed
  obtain l where l: "zsl_shrink z' = Some (z'\<lparr>zsl_level := l\<rparr>)" "zsl_nodes (z'\<lparr>zsl_level := l\<rparr>) (xs @ bs)"
      "1 < l \<longrightarrow> zsl_at z' (l - 1) (xs @ bs) \<noteq> []"
    using zsl_shrink_ok [OF nd lk] by blast
  let ?z = "z'\<lparr>zsl_level := l, zsl_length := zsl_length z - 1\<rparr>"
  have zz: "zsl_height ?z = zsl_height z'" "zsl_forward ?z = zsl_forward z'" "zsl_key ?z = zsl_key z'"
    by (simp_all add: zsl_height_def zsl_forward_def zsl_key_def fun_eq_iff)
  have "zsl_nodes ?z (xs @ bs)" using l(2) by (simp add: zsl_nodes_def zsl_height_def)
  moreover have "sorted (map (zsl_key ?z) (xs @ bs))"
    using r(2) same unfolding zz by (simp add: zsl_same_def sorted_append)
  moreover have "zsl_linked ?z i (zsl_header ?z # zsl_at ?z i (xs @ bs))" if "i < 32" for i
  proof -
    have "zsl_at ?z i (xs @ bs) = zsl_at z' i (xs @ bs)" by (simp only: zsl_at_def zz)
    then show ?thesis using lk [OF that] zsl_linked_cong [of _ ?z i z'] by (simp add: zz)
  qed
  moreover have "zsl_at ?z = zsl_at z'" by (intro ext) (simp only: zsl_at_def zz)
  ultimately have "zsl_rep ?z (xs @ bs)" using l(3) r(4) by (simp add: zsl_rep_def)
  then show ?thesis using l(1) by blast
qed

section \<open>The operations on well-formed lists\<close>

lemma zsl_at_0: "zsl_nodes z ps \<Longrightarrow> set xs \<subseteq> set ps \<Longrightarrow> zsl_at z 0 xs = xs"
  using zsl_nodesD(7) [of z ps] unfolding zsl_at_def by (intro filter_True) fastforce

lemma zslMin_ok: "zsl_rep z ps \<Longrightarrow> zslMin z = Some (zsl_first ps)"
  using zsl_repD(3) [of z ps 0] zsl_at_0 [OF zsl_repD(1), of z ps ps] by (simp add: zslMin_def zsl_linked_Cons)

lemma zsl_pos_x:
  assumes rep: "zsl_rep z (xs @ x # bs)" and j: "j < zsl_level z"
  shows "j < zsl_height z (zsl_pos z xs j) \<and> zsl_pos z xs j \<noteq> x \<and> zsl_forward z (zsl_pos z xs j) j \<noteq> None \<and>
    (zsl_forward z (zsl_pos z xs j) j = Some x \<longrightarrow> zsl_forward z x j \<noteq> None)"
proof -
  note n = zsl_nodesD [OF zsl_repD(1) [OF rep]]
  have j': "j < 32" using j n(9) by simp
  note pos = zsl_pos_ok [OF rep j']
  have "zsl_forward z x j \<noteq> None" if "zsl_forward z (zsl_pos z xs j) j = Some x"
  proof -
    have "zsl_first (zsl_at z j (x # bs)) = x" "x \<noteq> 0" "x \<notin> set bs" using that pos(2) n(1,2) by auto
    then have "j < zsl_height z x"
      by (auto simp: zsl_at_Cons zsl_at_def split: if_splits list.splits dest: filter_eq_ConsD)
    then have "zsl_linked z j ((zsl_header z # zsl_at z j xs) @ x # zsl_at z j bs)"
      using zsl_repD(3) [OF rep j'] by (simp add: zsl_at_Cons)
    then show ?thesis by (simp only: zsl_linked_append) (simp add: zsl_linked_Cons)
  qed
  then show ?thesis using pos by auto
qed

lemma zsl_drop_ok:
  assumes rep: "zsl_rep z (xs @ x # bs)" and js: "distinct js" "set js = {..<zsl_level z}"
    and body: "\<And>j y. j \<in> set js \<Longrightarrow> zsl_same z y \<Longrightarrow> body j y = zsl_bypass x (zsl_pos z xs j) j y"
  shows "\<exists>z1 l. fold (\<lambda>j z. do { z \<leftarrow> z; body j z }) js (Some z) = Some z1 \<and> zsl_length z1 = zsl_length z \<and>
    zsl_shrink z1 = Some (z1\<lparr>zsl_level := l\<rparr>) \<and>
    zsl_rep (z1\<lparr>zsl_level := l, zsl_length := zsl_length z - 1\<rparr>) (xs @ bs) \<and> zsl_key z1 = zsl_key z \<and>
    zsl_header z1 = zsl_header z"
proof -
  obtain z1 where z1: "fold (\<lambda>j z. do { z \<leftarrow> z; body j z }) js (Some z) = Some z1" "zsl_same z z1"
      "zsl_forward z1 = (\<lambda>w j. if j \<in> set js \<and> w = zsl_pos z xs j \<and> zsl_forward z w j = Some x then zsl_forward z x j
        else zsl_forward z w j)"
    using zsl_bypass_levels [of js z body x "zsl_pos z xs", OF body js(1) zsl_pos_x [OF rep]] js(2) by auto
  have fwd: "zsl_forward z1 w j = (if j < zsl_level z \<and> w = zsl_pos z xs j \<and> zsl_forward z w j = Some x
      then zsl_forward z x j else zsl_forward z w j)" for w j
    by (simp add: z1(3) js(2))
  show ?thesis
    using zsl_rep_remove [OF rep z1(2) fwd] z1(1,2) by (auto simp: zsl_same_def)
qed

lemma zslDeleteHead_empty: "zsl_rep z [] \<Longrightarrow> zslDeleteHead z = Some z"
  using zslMin_ok [of z "[]"] by (simp add: zslDeleteHead_def)

lemma zsl_key_level_length [simp]:
  "zsl_key (z\<lparr>zsl_level := l, zsl_length := k\<rparr>) = zsl_key z"
  by (simp add: zsl_key_def fun_eq_iff)

lemma zslDeleteHead_ok:
  assumes rep: "zsl_rep z (x # bs)"
  shows "\<exists>z'. zslDeleteHead z = Some z' \<and> zsl_rep z' bs \<and> zsl_key z' = zsl_key z"
proof -
  have x: "x \<noteq> 0" using zsl_nodesD(2) [OF zsl_repD(1) [OF rep]] by auto
  have pos: "zsl_pos z [] j = zsl_header z" for j by (simp add: zsl_pos_def zsl_at_def)
  obtain z1 l where z1: "fold (\<lambda>j z. do { z \<leftarrow> z; zsl_bypass x (zsl_header z) j z }) (rev [0..<zsl_level z]) (Some z) = Some z1"
      "zsl_length z1 = zsl_length z" "zsl_shrink z1 = Some (z1\<lparr>zsl_level := l\<rparr>)"
      "zsl_rep (z1\<lparr>zsl_level := l, zsl_length := zsl_length z - 1\<rparr>) bs" "zsl_key z1 = zsl_key z"
    using zsl_drop_ok [of z "[]" x bs "rev [0..<zsl_level z]" "\<lambda>j z. zsl_bypass x (zsl_header z) j z"] rep
    by (auto simp: pos zsl_same_def lessThan_atLeast0)
  then show ?thesis
    using zslMin_ok [OF rep] x by (simp add: zslDeleteHead_def)
qed

lemma zsl_rep_free:
  assumes rep: "zsl_rep z ps" and x: "x \<notin> set ps" "x \<noteq> zsl_header z"
  shows "zsl_rep (z\<lparr>zsl_heap := (zsl_heap z)(x := None)\<rparr>) ps"
proof -
  let ?z = "z\<lparr>zsl_heap := (zsl_heap z)(x := None)\<rparr>"
  have same: "zsl_height ?z w = zsl_height z w" "zsl_key ?z w = zsl_key z w" "zsl_forward ?z w i = zsl_forward z w i"
    if "w \<noteq> x" for w i
    using that by (simp_all add: zsl_height_def zsl_key_def zsl_forward_def)
  have at: "zsl_at ?z i ps = zsl_at z i ps" for i
    unfolding zsl_at_def by (rule filter_cong [OF refl]) (metis same(1) x(1))
  have "zsl_height ?z p = zsl_height z p" if "p \<in> set (zsl_header z # ps)" for p
    using that x by (intro same(1)) auto
  then have "zsl_nodes ?z ps" using zsl_repD(1) [OF rep] unfolding zsl_nodes_def by simp
  moreover have "sorted (map (zsl_key ?z) ps)"
  proof -
    have "map (zsl_key ?z) ps = map (zsl_key z) ps" by (rule map_cong [OF refl]) (metis same(2) x(1))
    then show ?thesis using zsl_repD(2) [OF rep] by (simp only:)
  qed
  moreover have "zsl_linked ?z i (zsl_header ?z # zsl_at ?z i ps)" if "i < 32" for i
  proof -
    have "x \<notin> set (zsl_header z # zsl_at z i ps)" using x by (auto simp: zsl_at_def)
    then have "zsl_forward ?z w i = zsl_forward z w i" if "w \<in> set (zsl_header z # zsl_at z i ps)" for w
      using that by (intro same(3)) auto
    then have "zsl_linked ?z i (zsl_header z # zsl_at z i ps)"
      using zsl_repD(3) [OF rep \<open>i < 32\<close>] zsl_linked_cong by blast
    then show ?thesis unfolding at by simp
  qed
  ultimately show ?thesis using zsl_repD(2,4,5) [OF rep] by (simp add: zsl_rep_def at)
qed

text \<open>\<open>zslDelete\<close> takes out and frees the first node with the score of the given one.\<close>

lemma zslDelete_ok:
  assumes rep: "zsl_rep z ps" and q: "q \<in> set ps"
  shows "\<exists>z' xs x bs. ps = xs @ x # bs \<and> xs = takeWhile (\<lambda>p. zsl_key z p < zsl_key z q) ps \<and> zsl_key z x = zsl_key z q \<and>
    zslDelete q z = Some z' \<and> zsl_rep z' (xs @ bs) \<and> (\<forall>p \<in> set (xs @ bs). zsl_key z' p = zsl_key z p) \<and> zsl_heap z' x = None"
proof -
  note r = zsl_repD [OF rep] and n = zsl_nodesD [OF zsl_repD(1) [OF rep]]
  let ?s = "zsl_key z q"
  let ?xs = "takeWhile (\<lambda>p. zsl_key z p < ?s) ps"
  have "dropWhile (\<lambda>p. zsl_key z p < ?s) ps \<noteq> []" using q by (auto simp: dropWhile_eq_Nil_conv)
  then obtain x bs where d: "dropWhile (\<lambda>p. zsl_key z p < ?s) ps = x # bs" by (cases "dropWhile (\<lambda>p. zsl_key z p < ?s) ps") auto
  have ps: "ps = ?xs @ x # bs" by (metis d takeWhile_dropWhile_id)
  have key: "\<And>p. p \<in> set ?xs \<Longrightarrow> zsl_key z p < ?s" "\<And>p. p \<in> set (x # bs) \<Longrightarrow> ?s \<le> zsl_key z p"
    using sorted_split [OF r(2), where s = ?s] unfolding d by auto
  have rep': "zsl_rep z (?xs @ x # bs)" using rep ps by simp
  have "q \<in> set (x # bs)"
    using q key(1) [of q] ps by (metis Un_iff less_irrefl set_append)
  moreover have "sorted (map (zsl_key z) (x # bs))" using r(2) ps by (metis map_append sorted_append)
  ultimately have kx: "zsl_key z x = ?s" using key(2) [of x] by auto
  have x: "x \<in> set ps" using ps by (metis in_set_conv_decomp)
  have x0: "x \<noteq> 0" "x \<noteq> zsl_header z" using n(2,3) x by metis+
  have sc: "zsl_score z q = Some ?s" "zsl_score z x = Some (zsl_key z x)" using n(7) q x zsl_score_key by force+
  obtain upd where upd: "zsl_search z ?s (zsl_level z) (zsl_header z) (replicate 32 None) = Some (zsl_pos z ?xs 0, upd)"
      "\<And>i. i < zsl_level z \<Longrightarrow> aget upd i = Some (zsl_pos z ?xs i)"
    using zsl_search_rep [OF rep' key] by blast
  have "zsl_at z 0 (x # bs) = x # bs" using ps by (intro zsl_at_0 [OF r(1)]) (metis set_append Un_upper2)
  then have f0: "zsl_forward z (zsl_pos z ?xs 0) 0 = Some x" using zsl_pos_ok(2) [OF rep', of 0] by simp
  obtain z1 l where z1: "fold (\<lambda>j z. do { z \<leftarrow> z; do { u \<leftarrow> aget upd j; zsl_bypass x u j z } }) [0..<zsl_level z] (Some z) = Some z1"
      "zsl_length z1 = zsl_length z" "zsl_shrink z1 = Some (z1\<lparr>zsl_level := l\<rparr>)"
      "zsl_rep (z1\<lparr>zsl_level := l, zsl_length := zsl_length z - 1\<rparr>) (?xs @ bs)" "zsl_key z1 = zsl_key z"
      "zsl_header z1 = zsl_header z"
    using zsl_drop_ok [OF rep', of "[0..<zsl_level z]" "\<lambda>j z. do { u \<leftarrow> aget upd j; zsl_bypass x u j z }"] upd(2)
    by (auto simp: lessThan_atLeast0)
  let ?z = "z1\<lparr>zsl_level := l, zsl_length := zsl_length z - 1\<rparr>"
  let ?z' = "?z\<lparr>zsl_heap := (zsl_heap ?z)(x := None)\<rparr>"
  have del: "zslDelete q z = Some ?z'"
    using sc upd(1) f0 x0(1) kx z1(1-3) by (simp add: zslDelete_def zslDeleteNode_def ZSKIPLIST_MAXLEVEL_def)
  have xn: "x \<notin> set (?xs @ bs)" using zsl_nodesD(1) [OF zsl_repD(1) [OF rep']] by auto
  have "zsl_rep ?z' (?xs @ bs)" using xn x0(2) z1(6) by (intro zsl_rep_free [OF z1(4)]) simp_all
  moreover have "zsl_key ?z' p = zsl_key z p" if "p \<in> set (?xs @ bs)" for p
  proof -
    have "p \<noteq> x" using that xn by blast
    then have "zsl_key ?z' p = zsl_key z1 p" by (simp add: zsl_key_def)
    then show ?thesis using z1(5) by simp
  qed
  moreover have "zsl_heap ?z' x = None" by simp
  ultimately show ?thesis using ps kx del by blast
qed

section \<open>The list of a skip list\<close>

lemma zslCreate_fold:
  assumes "zsl_height z h = 32"
  shows "k \<le> 32 \<Longrightarrow> \<exists>z'. fold (\<lambda>j z. do { z \<leftarrow> z; zsl_set_forward h j 0 z }) [0..<k] (Some z) = Some z' \<and> zsl_same z z' \<and>
    (\<forall>j < k. zsl_forward z' h j = Some 0)"
proof (induction k)
  case (Suc k)
  then obtain z1 where z1: "fold (\<lambda>j z. do { z \<leftarrow> z; zsl_set_forward h j 0 z }) [0..<k] (Some z) = Some z1" "zsl_same z z1"
      "\<And>j. j < k \<Longrightarrow> zsl_forward z1 h j = Some 0" by auto
  have "k < zsl_height z1 h" using z1(2) assms Suc.prems by (simp add: zsl_same_def)
  then obtain z2 where z2: "zsl_set_forward h k 0 z1 = Some z2" "zsl_same z1 z2"
      "zsl_forward z2 = (\<lambda>w j. if w = h \<and> j = k then Some 0 else zsl_forward z1 w j)"
    using zsl_set_forward_ok by blast
  then show ?case using z1 zsl_same_trans [OF z1(2) z2(2)] by (auto simp: less_Suc_eq)
qed simp

lemma zslCreate_ok: "\<exists>z. zslCreate = Some z \<and> zsl_rep z []"
proof -
  let ?z0 = "\<lparr>zsl_header = 0, zsl_length = 0, zsl_level = 1, zsl_heap = (\<lambda>_. None), zsl_brk = 1\<rparr>"
  obtain h z1 where c: "zslCreateNode 32 0 0 ?z0 = (h, z1)" by (cases "zslCreateNode 32 0 0 ?z0")
  note n = zslCreateNode_ok [OF c]
  let ?z = "z1\<lparr>zsl_header := h\<rparr>"
  have h: "h = 1" using n(1) by simp
  have hz: "zsl_height ?z h = 32" using n(6) by (simp add: zsl_height_def fun_eq_iff)
  obtain z where z: "fold (\<lambda>j z. do { z \<leftarrow> z; zsl_set_forward h j 0 z }) [0..<32] (Some ?z) = Some z" "zsl_same ?z z"
      "\<And>j. j < 32 \<Longrightarrow> zsl_forward z h j = Some 0"
    using zslCreate_fold [OF hz, of 32] by auto
  have "zslCreate = Some z" using c z(1) by (simp add: zslCreate_def ZSKIPLIST_MAXLEVEL_def)
  moreover have "zsl_rep z []"
    using z(2,3) hz n(3-5) h by (auto simp: zsl_rep_def zsl_nodes_def zsl_same_def zsl_at_def)
  ultimately show ?thesis by blast
qed

fun zsl_chain :: "zskiplist \<Rightarrow> nat \<Rightarrow> ptr \<Rightarrow> ptr list" where
  "zsl_chain z 0 x = []"
| "zsl_chain z (Suc n) x = (case zsl_forward z x 0 of None \<Rightarrow> [] | Some y \<Rightarrow> if y = 0 then [] else y # zsl_chain z n y)"

definition zsl_list :: "zskiplist \<Rightarrow> ptr list" where
  "zsl_list z = zsl_chain z (zsl_brk z) (zsl_header z)"

lemma zsl_chain_linked: "zsl_linked z 0 (x # ps) \<Longrightarrow> 0 \<notin> set ps \<Longrightarrow> length ps < n \<Longrightarrow> zsl_chain z n x = ps"
proof (induction z n x arbitrary: ps rule: zsl_chain.induct)
  case (2 z n x)
  then show ?case by (cases ps) (auto simp: zsl_linked_Cons)
qed simp

text \<open>All nodes lie below \<open>zsl_brk\<close>, which bounds their number.\<close>

lemma zsl_few: "zsl_nodes z ps \<Longrightarrow> length ps < zsl_brk z"
proof -
  assume n: "zsl_nodes z ps"
  have "set ps \<subseteq> {0<..<zsl_brk z}" using zsl_nodesD(2) [OF n] n by (auto simp: zsl_nodes_def intro: Suc_leI gr0I)
  then have "card (set ps) \<le> card {0<..<zsl_brk z}" by (intro card_mono) simp_all
  moreover have "distinct ps" "0 < zsl_brk z" using n by (simp_all add: zsl_nodes_def)
  ultimately show ?thesis by (simp add: distinct_card)
qed

lemma zsl_rep_list: "zsl_rep z ps \<Longrightarrow> zsl_list z = ps"
  using zsl_repD(3) [of z ps 0] zsl_at_0 [OF zsl_repD(1), of z ps ps] zsl_repD(4) [of z ps] zsl_nodesD(2) [OF zsl_repD(1), of z ps]
    zsl_chain_linked [of z "zsl_header z" ps "zsl_brk z"] zsl_few [OF zsl_repD(1), of z ps]
  by (simp add: zsl_list_def)

definition zsl_wf :: "zskiplist \<Rightarrow> bool" where
  "zsl_wf z \<longleftrightarrow> zsl_rep z (zsl_list z)"

lemma zsl_rep_wf: "zsl_rep z ps \<Longrightarrow> zsl_wf z"
  by (simp add: zsl_wf_def zsl_rep_list)

lemma zsl_free_loop_ok:
  "zsl_linked z 0 (x # ps) \<Longrightarrow> distinct (x # ps) \<Longrightarrow> 0 \<notin> set (x # ps) \<Longrightarrow>
   zsl_free_loop x z = Some (z\<lparr>zsl_heap := \<lambda>p. if p \<in> set (x # ps) then None else zsl_heap z p\<rparr>)"
proof (induction ps arbitrary: x z)
  case Nil
  have "zsl_free_loop x z = zsl_free_loop 0 (z\<lparr>zsl_heap := (zsl_heap z)(x := None)\<rparr>)"
    using Nil by (subst zsl_free_loop.simps) simp
  moreover have "zsl_free_loop 0 y = Some y" for y by (subst zsl_free_loop.simps) simp
  moreover have "(zsl_heap z)(x := None) = (\<lambda>p. if p \<in> set [x] then None else zsl_heap z p)" by auto
  ultimately show ?case by simp
next
  case (Cons y ps)
  let ?z = "z\<lparr>zsl_heap := (zsl_heap z)(x := None)\<rparr>"
  have "zsl_forward ?z w 0 = zsl_forward z w 0" if "w \<in> set (y # ps)" for w
    using that Cons.prems(2) by (auto simp: zsl_forward_def)
  then have "zsl_linked ?z 0 (y # ps)" using Cons.prems(1) zsl_linked_cong [of "y # ps" ?z 0 z] by (auto simp: zsl_linked_Cons)
  then have "zsl_free_loop y ?z = Some (?z\<lparr>zsl_heap := \<lambda>p. if p \<in> set (y # ps) then None else zsl_heap ?z p\<rparr>)"
    using Cons.prems(2,3) by (intro Cons.IH) auto
  moreover have "(\<lambda>p. if p \<in> set (y # ps) then None else zsl_heap ?z p) = (\<lambda>p. if p \<in> set (x # y # ps) then None else zsl_heap z p)"
    by auto
  ultimately show ?case using Cons.prems(1,3) by (subst zsl_free_loop.simps) simp
qed

section \<open>Properties\<close>

text \<open>
  C15: \<open>zslInsert\<close> on any well-formed skip list and for any sequence of random numbers puts the new node
  behind the nodes with a smaller score and before all others, at every level; the skip list stays
  well formed: sorted, with each level the nodes that are tall enough, in order.
\<close>

theorem zslInsert_correct:
  assumes "zsl_rep z ps" and "zslRandomLevel rs = Some (lv, rs')"
  shows "\<exists>z'. zslInsert s func rs z = Some (zsl_brk z, z') \<and> zsl_key z' = (zsl_key z)(zsl_brk z := s) \<and>
    zsl_rep z' (takeWhile (\<lambda>p. zsl_key z p < s) ps @ zsl_brk z # dropWhile (\<lambda>p. zsl_key z p < s) ps)"
  using zslInsert_ok [OF assms] by blast

theorem zslInsert_correct_witness:
  "\<exists>z z' p. zslCreate = Some z \<and> zslInsert 7 0 [5, 0xFFFF] z = Some (p, z') \<and> zsl_rep z' [p]"
proof -
  obtain z where z: "zslCreate = Some z" "zsl_rep z []" using zslCreate_ok by blast
  have "zslRandomLevel [5, 0xFFFF] = Some (2, [])" by (simp add: zslRandomLevel_def ZSKIPLIST_MAXLEVEL_def)
  from zslInsert_correct [OF z(2) this, of 7 0] show ?thesis using z(1) by auto
qed

text \<open>
  C16: \<open>zslDelete\<close> of a node of the skip list takes out, at every level, and frees one node: the first of
  those that have the node's score. The others stay, in order.
\<close>

theorem zslDelete_correct:
  assumes "zsl_rep z ps" and "q \<in> set ps"
  shows "\<exists>z' xs x bs. ps = xs @ x # bs \<and> (\<forall>p \<in> set xs. zsl_key z p < zsl_key z q) \<and> zsl_key z x = zsl_key z q \<and>
    zslDelete q z = Some z' \<and> zsl_rep z' (xs @ bs) \<and> (\<forall>p \<in> set (xs @ bs). zsl_key z' p = zsl_key z p) \<and> zsl_heap z' x = None"
  using zslDelete_ok [OF assms] by (metis set_takeWhileD)

theorem zslDelete_correct_witness:
  "\<exists>z p z1 z2. zslCreate = Some z \<and> zslInsert 7 0 [5, 0xFFFF] z = Some (p, z1) \<and> zslDelete p z1 = Some z2 \<and> zsl_rep z2 []"
proof -
  obtain z where z: "zslCreate = Some z" "zsl_rep z []" using zslCreate_ok by blast
  have "zslRandomLevel [5, 0xFFFF] = Some (2, [])" by (simp add: zslRandomLevel_def ZSKIPLIST_MAXLEVEL_def)
  then obtain z1 where z1: "zslInsert 7 0 [5, 0xFFFF] z = Some (zsl_brk z, z1)" "zsl_rep z1 [zsl_brk z]"
    using zslInsert_ok [OF z(2), of "[5, 0xFFFF]" 2 "[]" 7 0] by auto
  obtain z2 where "zslDelete (zsl_brk z) z1 = Some z2" "zsl_rep z2 []"
    using zslDelete_correct [OF z1(2), of "zsl_brk z"] by (auto simp: Cons_eq_append_conv)
  then show ?thesis using z(1) z1(1) by blast
qed

text \<open>
  With two nodes of the same score, deleting the older one frees the newer one and leaves the older
  in the skip list.
\<close>

theorem zslDelete_wrong_node:
  "\<exists>z0 p z1 q z2 z3. zslCreate = Some z0 \<and> zslInsert 7 0 [0xFFFF] z0 = Some (p, z1) \<and>
    zslInsert 7 0 [0xFFFF] z1 = Some (q, z2) \<and> zslDelete p z2 = Some z3 \<and> p \<noteq> q \<and> zsl_list z3 = [p] \<and> zsl_heap z3 q = None"
proof -
  obtain z0 where z0: "zslCreate = Some z0" "zsl_rep z0 []" using zslCreate_ok by blast
  have lv: "zslRandomLevel [0xFFFF] = Some (1, [])" by (simp add: zslRandomLevel_def ZSKIPLIST_MAXLEVEL_def)
  obtain z1 where z1: "zslInsert 7 0 [0xFFFF] z0 = Some (zsl_brk z0, z1)" "zsl_rep z1 [zsl_brk z0]"
      "zsl_key z1 (zsl_brk z0) = 7"
    using zslInsert_ok [OF z0(2) lv, of 7 0] by auto
  let ?p = "zsl_brk z0" and ?q = "zsl_brk z1"
  have ne: "?p \<noteq> ?q" using zsl_nodesD(7) [OF zsl_repD(1) [OF z1(2)]] by force
  obtain z2 where z2: "zslInsert 7 0 [0xFFFF] z1 = Some (?q, z2)" "zsl_rep z2 [?q, ?p]" "zsl_key z2 = (zsl_key z1)(?q := 7)"
    using zslInsert_ok [OF z1(2) lv, of 7 0] z1(3) by auto
  obtain z3 where z3: "zslDelete ?p z2 = Some z3" "zsl_rep z3 [?p]" "zsl_heap z3 ?q = None"
    using zslDelete_ok [OF z2(2), of ?p] z2(3) z1(3) ne by (auto simp: append_eq_Cons_conv)
  show ?thesis using z0(1) z1(1) z2(1) z3 zsl_rep_list [OF z3(2)] ne by blast
qed

end
