(* ===== verification/SklTimer.thy ===== *)
theory SklTimer
  imports Skiplist TimerQueue
begin

text \<open>
  The timer of \<^verbatim>\<open>timer/skl-timer.c\<close> on the skip list. The clock and the random numbers are arguments, and
  the handlers are an argument of \<open>expire_timer\<close>.
\<close>

section \<open>Model\<close>

definition skl_init_timer :: "zskiplist option" where
  "skl_init_timer = zslCreate"

definition skl_add_timer :: "u32 \<Rightarrow> u32 \<Rightarrow> int \<Rightarrow> u32 list \<Rightarrow> zskiplist \<Rightarrow> (ptr \<times> zskiplist) option" where
  "skl_add_timer now msec func rs z = zslInsert (ucast (msec + now)) func rs z"

definition skl_del_timer :: "ptr \<Rightarrow> zskiplist \<Rightarrow> zskiplist option" where
  "skl_del_timer zn z = zslDelete zn z"

definition skl_peek :: "zskiplist \<Rightarrow> ptr option option" where
  "skl_peek z = do { x \<leftarrow> zslMin z; Some (if x = 0 then None else Some x) }"

definition skl_expire_timer ::
  "(ptr \<Rightarrow> zskiplist \<Rightarrow> zskiplist option) \<Rightarrow> u32 \<Rightarrow> zskiplist \<Rightarrow> (zskiplist \<times> ptr list) option" where
  "skl_expire_timer handler now = expire_loop skl_peek zsl_score handler (\<lambda>_. zslDeleteHead) (ucast now)"

section \<open>The skip list is a timer queue\<close>

lemma skl_peek_ok: "zsl_rep z ps \<Longrightarrow> skl_peek z = Some (case ps of [] \<Rightarrow> None | p # _ \<Rightarrow> Some p)"
  using zslMin_ok [of z ps] zsl_nodesD(2) [OF zsl_repD(1), of z ps] by (auto simp: skl_peek_def split: list.splits)

interpretation sklq: timer_queue zsl_wf "\<lambda>z. mset (zsl_list z)" zsl_key skl_peek zsl_score "\<lambda>_. zslDeleteHead"
proof
  fix z
  assume wf: "zsl_wf z"
  then have rep: "zsl_rep z (zsl_list z)" by (simp add: zsl_wf_def)
  show "skl_peek z = Some None" if "mset (zsl_list z) = {#}"
    using skl_peek_ok [OF rep] that by simp
  show "\<exists>q. skl_peek z = Some (Some q) \<and> q \<in># mset (zsl_list z) \<and> (\<forall>r \<in># mset (zsl_list z). zsl_key z q \<le> zsl_key z r)"
    if "mset (zsl_list z) \<noteq> {#}"
    using skl_peek_ok [OF rep] zsl_repD(2) [OF rep] that by (cases "zsl_list z") auto
  show "zsl_score z q = Some (zsl_key z q)" if "q \<in># mset (zsl_list z)" for q
    using zsl_nodesD(7) [OF zsl_repD(1) [OF rep], of q] that by (intro zsl_score_key) simp
  show "\<exists>z'. zslDeleteHead z = Some z' \<and> zsl_wf z' \<and> mset (zsl_list z) = add_mset q (mset (zsl_list z')) \<and>
      (\<forall>r \<in># mset (zsl_list z'). zsl_key z' r = zsl_key z r)" if top: "skl_peek z = Some (Some q)" for q
  proof -
    obtain ps where ps: "zsl_list z = q # ps" using skl_peek_ok [OF rep] top by (cases "zsl_list z") auto
    then obtain z' where "zslDeleteHead z = Some z'" "zsl_rep z' ps" "zsl_key z' = zsl_key z"
      using zslDeleteHead_ok [of z q ps] rep by auto
    then show ?thesis using ps zsl_rep_list [of z' ps] zsl_rep_wf [of z' ps] by auto
  qed
qed

section \<open>Properties\<close>

text \<open>
  With handlers that do no more than add later timers, \<open>expire_timer\<close> of the skip-list timer returns; the nodes it runs are exactly those whose time is
  not after the present, each once, in the order of their times, and only later ones stay.
\<close>

theorem skl_expire_timer_correct:
  assumes "zsl_wf z" and "harmless_handler zsl_wf (\<lambda>z. mset (zsl_list z)) zsl_key skl_peek (ucast now) handler"
  shows "\<exists>z' log. skl_expire_timer handler now z = Some (z', log) \<and> zsl_wf z' \<and>
    mset log = filter_mset (\<lambda>q. zsl_key z q \<le> ucast now) (mset (zsl_list z)) \<and> sorted (map (zsl_key z) log) \<and>
    (\<forall>q \<in> set (zsl_list z'). ucast now < zsl_key z' q)"
  using sklq.expire_spec [OF assms] unfolding skl_expire_timer_def by simp

theorem skl_expire_timer_correct_witness:
  "\<exists>z0 p z1 z' log. skl_init_timer = Some z0 \<and> skl_add_timer 1000 5 0 [0xFFFF] z0 = Some (p, z1) \<and>
    skl_expire_timer (\<lambda>_ z. Some z) 1005 z1 = Some (z', log) \<and> log = [p]"
proof -
  obtain z0 where z0: "zslCreate = Some z0" "zsl_rep z0 []" using zslCreate_ok by blast
  have lv: "zslRandomLevel [0xFFFF] = Some (1, [])" by (simp add: zslRandomLevel_def ZSKIPLIST_MAXLEVEL_def)
  obtain z1 where z1: "zslInsert 1005 0 [0xFFFF] z0 = Some (zsl_brk z0, z1)" "zsl_rep z1 [zsl_brk z0]"
      "zsl_key z1 (zsl_brk z0) = 1005"
    using zslInsert_ok [OF z0(2) lv, of 1005 0] by auto
  obtain z' log where "skl_expire_timer (\<lambda>_ z. Some z) 1005 z1 = Some (z', log)" "mset log = {#zsl_brk z0#}"
    using skl_expire_timer_correct [OF zsl_rep_wf [OF z1(2)] harmless_quiet, of 1005] zsl_rep_list [OF z1(2)] z1(3) by auto
  then show ?thesis using z0(1) z1(1) by (auto simp: skl_init_timer_def skl_add_timer_def)
qed

end
