(* ===== verification/MpscQueue.thy ===== *)
theory MpscQueue
  imports Prelude
begin

text \<open>
  The queues of \<^verbatim>\<open>free_queue/MPSCQueue.h\<close> for many producers and one consumer. A producer's \<open>Enqueue\<close> has two
  atomic accesses, the exchange of \<open>_head\<close> and the store to the predecessor's link, and other threads
  run between them: \<open>mp_flight\<close> lists the pairs (predecessor, node) of the threads between the two. The
  \<open>Dequeue\<close> of the non-intrusive queue loads one link that producers store, and is one step; that of the intrusive queue
  has several accesses to links and to \<open>_head\<close>, each of which is a step of its own. \<open>_tail\<close> is only used by the
  consumer. Links are in a store by address; 0 is null and \<open>None\<close> is no object (not made or deleted), whose access is undefined.
\<close>

section \<open>Model\<close>

record mpsc =
  mp_head :: ptr
  mp_tail :: ptr
  mp_next :: "ptr \<Rightarrow> ptr option"
  mp_flight :: "(ptr \<times> ptr) list"

text \<open>\<open>prevHead = _head.exchange(node)\<close> and \<open>prevHead->Next.store(node)\<close>.\<close>

definition mp_exchange :: "ptr \<Rightarrow> 'a mpsc_scheme \<Rightarrow> 'a mpsc_scheme" where
  "mp_exchange node s = s\<lparr>mp_head := node, mp_flight := mp_flight s @ [(mp_head s, node)]\<rparr>"

definition mp_publish :: "ptr \<Rightarrow> ptr \<Rightarrow> 'a mpsc_scheme \<Rightarrow> 'a mpsc_scheme option" where
  "mp_publish prevHead node s =
     (if mp_next s prevHead = None then None
      else Some (s\<lparr>mp_next := (mp_next s)(prevHead \<mapsto> node), mp_flight := remove1 (prevHead, node) (mp_flight s)\<rparr>))"

subsection \<open>MPSCQueueNonIntrusive\<close>

record mpsc_ni = mpsc +
  mp_data :: "ptr \<Rightarrow> nat"
  mp_brk :: ptr

definition ni_ctor :: mpsc_ni where
  "ni_ctor = \<lparr>mp_head = 1, mp_tail = 1, mp_next = [1 \<mapsto> 0], mp_flight = [], mp_data = (\<lambda>_. 0), mp_brk = 2\<rparr>"

text \<open>\<open>Enqueue\<close> up to the exchange, and as a whole.\<close>

definition ni_begin :: "nat \<Rightarrow> mpsc_ni \<Rightarrow> mpsc_ni" where
  "ni_begin input s =
     (let node = mp_brk s in
      mp_exchange node (s\<lparr>mp_brk := node + 1, mp_next := (mp_next s)(node \<mapsto> 0), mp_data := (mp_data s)(node := input)\<rparr>))"

definition ni_Enqueue :: "nat \<Rightarrow> mpsc_ni \<Rightarrow> mpsc_ni option" where
  "ni_Enqueue input s = mp_publish (mp_head s) (mp_brk s) (ni_begin input s)"

definition ni_Dequeue :: "mpsc_ni \<Rightarrow> (nat option \<times> mpsc_ni) option" where
  "ni_Dequeue s =
     do { next \<leftarrow> mp_next s (mp_tail s);
          if next = 0 then Some (None, s)
          else
            do { _ \<leftarrow> mp_next s next;
                 Some (Some (mp_data s next), s\<lparr>mp_tail := next, mp_next := (mp_next s)(mp_tail s := None)\<rparr>) } }"

text \<open>The destructor: the objects it deletes and the store that is left.\<close>

partial_function (option) ni_drain :: "mpsc_ni \<Rightarrow> (nat list \<times> mpsc_ni) option" where
  "ni_drain s =
     do { (r, s) \<leftarrow> ni_Dequeue s;
          case r of
            None \<Rightarrow> Some ([], s)
          | Some v \<Rightarrow> do { (vs, s) \<leftarrow> ni_drain s; Some (v # vs, s) } }"

declare ni_drain.simps [code]

definition ni_dtor :: "mpsc_ni \<Rightarrow> (nat list \<times> mpsc_ni) option" where
  "ni_dtor s = do { (vs, s) \<leftarrow> ni_drain s; Some (vs, s\<lparr>mp_next := (mp_next s)(mp_head s := None)\<rparr>) }"

subsection \<open>MPSCQueueIntrusive\<close>

record mpsc_in = mpsc +
  mp_dummy :: ptr

text \<open>A new queue with its dummy at the address \<open>d\<close>; \<open>objs\<close> are the links of the program's objects.\<close>

definition in_ctor :: "ptr \<Rightarrow> (ptr \<Rightarrow> ptr option) \<Rightarrow> mpsc_in" where
  "in_ctor d objs = \<lparr>mp_head = d, mp_tail = d, mp_next = objs(d \<mapsto> 0), mp_flight = [], mp_dummy = d\<rparr>"

definition in_begin :: "ptr \<Rightarrow> mpsc_in \<Rightarrow> mpsc_in option" where
  "in_begin input s =
     (if mp_next s input = None then None
      else Some (mp_exchange input (s\<lparr>mp_next := (mp_next s)(input \<mapsto> 0)\<rparr>)))"

text \<open>
  The points of \<open>Dequeue\<close> before an access to a link or to \<open>_head\<close>: the link of \<open>_tail\<close>, the link of the node behind
  the dummy, \<open>_head\<close>, the three accesses of \<open>Enqueue(_dummyPtr)\<close>, and the last load; the pointers are \<open>tail\<close>, and
  \<open>prevHead\<close> of \<open>Enqueue\<close>.
\<close>

datatype in_pc = In_tail | In_first ptr | In_head ptr | In_reset ptr | In_exchange ptr | In_link ptr ptr | In_last ptr

text \<open>One access, and what follows without another: the result if \<open>Dequeue\<close> returns, and the next point.\<close>

definition in_Dequeue_step :: "in_pc \<Rightarrow> mpsc_in \<Rightarrow> (ptr option option \<times> in_pc \<times> mpsc_in) option" where
  "in_Dequeue_step pc s =
     (case pc of
        In_tail \<Rightarrow>
          (let tail = mp_tail s in
           do { next \<leftarrow> mp_next s tail;
                if tail = mp_dummy s then
                  (if next = 0 then Some (Some None, In_tail, s) else Some (None, In_first next, s\<lparr>mp_tail := next\<rparr>))
                else if next \<noteq> 0 then Some (Some (Some tail), In_tail, s\<lparr>mp_tail := next\<rparr>)
                else Some (None, In_head tail, s) })
      | In_first tail \<Rightarrow>
          do { next \<leftarrow> mp_next s tail;
               if next \<noteq> 0 then Some (Some (Some tail), In_tail, s\<lparr>mp_tail := next\<rparr>) else Some (None, In_head tail, s) }
      | In_head tail \<Rightarrow> if tail \<noteq> mp_head s then Some (Some None, In_tail, s) else Some (None, In_reset tail, s)
      | In_reset tail \<Rightarrow>
          if mp_next s (mp_dummy s) = None then None
          else Some (None, In_exchange tail, s\<lparr>mp_next := (mp_next s)(mp_dummy s \<mapsto> 0)\<rparr>)
      | In_exchange tail \<Rightarrow> Some (None, In_link tail (mp_head s), mp_exchange (mp_dummy s) s)
      | In_link tail prevHead \<Rightarrow> map_option (\<lambda>s. (None, In_last tail, s)) (mp_publish prevHead (mp_dummy s) s)
      | In_last tail \<Rightarrow>
          do { next \<leftarrow> mp_next s tail;
               if next \<noteq> 0 then Some (Some (Some tail), In_tail, s\<lparr>mp_tail := next\<rparr>) else Some (Some None, In_tail, s) })"

section \<open>The chain of nodes\<close>

text \<open>Neighbours of a list.\<close>

definition adj :: "'a list \<Rightarrow> ('a \<times> 'a) list" where
  "adj xs = zip xs (tl xs)"

text \<open>
  \<open>ns\<close> are the nodes from the tail to the head, in the order of the exchanges; a link is missing exactly
  while its producer is in flight.
\<close>

definition mp_inv :: "ptr list \<Rightarrow> 'a mpsc_scheme \<Rightarrow> bool" where
  "mp_inv ns s \<longleftrightarrow> ns \<noteq> [] \<and> hd ns = mp_tail s \<and> List.last ns = mp_head s \<and> distinct ns \<and> 0 \<notin> set ns \<and>
     distinct (mp_flight s) \<and> set (mp_flight s) \<subseteq> set (adj ns) \<and>
     (\<forall>x y. (x, y) \<in> set (adj ns) \<longrightarrow> mp_next s x = Some (if (x, y) \<in> set (mp_flight s) then 0 else y)) \<and>
     mp_next s (List.last ns) = Some 0"

lemma adj_simps [simp]: "adj [] = []" "adj [x] = []" "adj (x # y # ys) = (x, y) # adj (y # ys)"
  by (simp_all add: adj_def)

lemma adj_snoc: "xs \<noteq> [] \<Longrightarrow> adj (xs @ [p]) = adj xs @ [(List.last xs, p)]"
proof (induction xs rule: induct_list012)
  case (3 x y ys)
  then show ?case by simp
qed simp_all

lemma adj_mem: "(x, y) \<in> set (adj xs) \<Longrightarrow> x \<in> set xs \<and> y \<in> set xs"
  unfolding adj_def by (cases xs) (auto dest: set_zip_leftD set_zip_rightD)

lemma adj_last: "distinct xs \<Longrightarrow> (x, y) \<in> set (adj xs) \<Longrightarrow> x \<noteq> List.last xs"
proof (induction xs rule: induct_list012)
  case (3 a b ys)
  then show ?case using adj_mem [of x y "b # ys"] by (auto split: if_splits)
qed simp_all

lemma adj_unique: "distinct xs \<Longrightarrow> (x, y) \<in> set (adj xs) \<Longrightarrow> (x, y') \<in> set (adj xs) \<Longrightarrow> y = y'"
proof (induction xs rule: induct_list012)
  case (3 a b ys)
  then show ?case using adj_mem [of _ _ "b # ys"] by fastforce
qed simp_all

lemma mp_invD:
  assumes "mp_inv ns s"
  shows "ns \<noteq> []" "hd ns = mp_tail s" "List.last ns = mp_head s" "distinct ns" "0 \<notin> set ns" "distinct (mp_flight s)"
    "set (mp_flight s) \<subseteq> set (adj ns)" "mp_next s (List.last ns) = Some 0" "mp_head s \<in> set ns"
    "\<And>x y. (x, y) \<in> set (adj ns) \<Longrightarrow> mp_next s x = Some (if (x, y) \<in> set (mp_flight s) then 0 else y)"
  using assms unfolding mp_inv_def by (blast, blast, blast, blast, blast, blast, blast, blast, metis last_in_set, blast)

text \<open>A node that is exchanged in, and a link that is stored.\<close>

lemma mp_exchange_inv:
  assumes "mp_inv ns s" "p \<notin> set ns" "p \<noteq> 0" "mp_next s p = Some 0"
  shows "mp_inv (ns @ [p]) (mp_exchange p s)"
proof -
  have a: "adj (ns @ [p]) = adj ns @ [(mp_head s, p)]" using assms(1) by (simp add: adj_snoc mp_inv_def)
  have new: "(x, p) \<notin> set (adj ns)" for x using adj_mem assms(2) by fastforce
  show ?thesis
    using assms new adj_last [of ns "mp_head s"] unfolding mp_inv_def a by (auto simp: mp_exchange_def)
qed

lemma mp_publish_inv:
  assumes inv: "mp_inv ns s" and f: "(a, b) \<in> set (mp_flight s)"
  shows "\<exists>s'. mp_publish a b s = Some s' \<and> mp_inv ns s' \<and> mp_flight s' = remove1 (a, b) (mp_flight s) \<and>
    mpsc.more s' = mpsc.more s"
proof -
  have ab: "(a, b) \<in> set (adj ns)" using inv f by (auto simp: mp_inv_def)
  have d: "distinct ns" "distinct (mp_flight s)" using inv by (auto simp: mp_inv_def)
  have "mp_next s a \<noteq> None" using inv ab by (auto simp: mp_inv_def)
  then obtain s' where s': "mp_publish a b s = Some s'" "s' = s\<lparr>mp_next := (mp_next s)(a \<mapsto> b), mp_flight := remove1 (a, b) (mp_flight s)\<rparr>"
    by (simp add: mp_publish_def)
  have "mp_inv ns s'"
    using inv d adj_unique [OF d(1) ab] adj_last [OF d(1) ab] unfolding s'(2) mp_inv_def by auto
  then show ?thesis using s' by auto
qed

text \<open>The tail moved to the next node.\<close>

lemma mp_advance_inv:
  assumes "mp_inv (t # n # ns) s" "mp_next s t = Some n"
    and "mp_tail s' = n" "mp_head s' = mp_head s" "mp_flight s' = mp_flight s"
      "\<And>x. x \<noteq> t \<Longrightarrow> mp_next s' x = mp_next s x"
  shows "mp_inv (n # ns) s'"
proof -
  have l: "mp_next s t = Some (if (t, n) \<in> set (mp_flight s) then 0 else n)"
    using mp_invD(10) [OF assms(1), of t n] by simp
  have n: "n \<noteq> 0" "t \<notin> set (n # ns)" using mp_invD(4,5) [OF assms(1)] by auto
  then have nf: "(t, n) \<notin> set (mp_flight s)" using l assms(2) by auto
  have same: "mp_next s' x = mp_next s x" if "x \<in> set (n # ns)" for x using that n(2) assms(6) by metis
  have "mp_next s' x = Some (if (x, y) \<in> set (mp_flight s') then 0 else y)" if "(x, y) \<in> set (adj (n # ns))" for x y
  proof -
    have "mp_next s x = Some (if (x, y) \<in> set (mp_flight s) then 0 else y)"
      using mp_invD(10) [OF assms(1), of x y] that by simp
    then show ?thesis using same [of x] adj_mem [OF that] assms(5) by simp
  qed
  moreover have "set (mp_flight s') \<subseteq> set (adj (n # ns))" using mp_invD(7) [OF assms(1)] assms(5) nf by auto
  moreover have "mp_next s' (List.last (n # ns)) = Some 0"
  proof -
    have "mp_next s (List.last (n # ns)) = Some 0" using mp_invD(8) [OF assms(1)] by simp
    then show ?thesis using same [OF last_in_set] by simp
  qed
  ultimately show ?thesis
    using mp_invD(3-6) [OF assms(1)] assms(3-5) unfolding mp_inv_def by simp
qed

lemma mp_inv_next:
  assumes "mp_inv (t # ns) s"
  shows "mp_tail s = t" "mp_next s t = Some (case ns of [] \<Rightarrow> 0 | n # _ \<Rightarrow> if (t, n) \<in> set (mp_flight s) then 0 else n)"
    "ns = [] \<longleftrightarrow> t = mp_head s"
proof -
  note d = mp_invD [OF assms]
  show "mp_tail s = t" using d(2) by simp
  show "mp_next s t = Some (case ns of [] \<Rightarrow> 0 | n # _ \<Rightarrow> if (t, n) \<in> set (mp_flight s) then 0 else n)"
    using d(8) d(10) [of t] by (cases ns) auto
  show "ns = [] \<longleftrightarrow> t = mp_head s" using d(3,4) by (metis distinct.simps(2) last.simps last_in_set)
qed

section \<open>The non-intrusive queue\<close>

text \<open>
  What producers and the consumer can do, in any interleaving: a value is taken in at the exchange
  (\<open>put\<close>), its link is stored later, and the consumer gets values (\<open>got\<close>).
\<close>

inductive ni_reach :: "mpsc_ni \<Rightarrow> nat list \<Rightarrow> nat list \<Rightarrow> bool" where
  ni_new: "ni_reach ni_ctor [] []"
| ni_exchanges: "ni_reach s put got \<Longrightarrow> ni_reach (ni_begin v s) (put @ [v]) got"
| ni_publishes: "ni_reach s put got \<Longrightarrow> (a, b) \<in> set (mp_flight s) \<Longrightarrow> mp_publish a b s = Some s' \<Longrightarrow> ni_reach s' put got"
| ni_dequeues: "ni_reach s put got \<Longrightarrow> ni_Dequeue s = Some (r, s') \<Longrightarrow>
    ni_reach s' put (got @ (case r of None \<Rightarrow> [] | Some v \<Rightarrow> [v]))"

text \<open>The nodes that exist are those of the chain.\<close>

definition ni_inv :: "ptr list \<Rightarrow> mpsc_ni \<Rightarrow> bool" where
  "ni_inv ns s \<longleftrightarrow> mp_inv ns s \<and> dom (mp_next s) = set ns \<and> (\<forall>p \<in> set ns. p < mp_brk s)"

lemma ni_Dequeue_ok:
  assumes inv: "ni_inv (t # ns) s"
  shows "case ns of
      [] \<Rightarrow> ni_Dequeue s = Some (None, s)
    | n # ns' \<Rightarrow> if (t, n) \<in> set (mp_flight s) then ni_Dequeue s = Some (None, s)
        else \<exists>s'. ni_Dequeue s = Some (Some (mp_data s n), s') \<and> ni_inv ns s' \<and> mp_data s' = mp_data s \<and> mp_flight s' = mp_flight s"
proof -
  have m: "mp_inv (t # ns) s" using inv by (simp add: ni_inv_def)
  note nx = mp_inv_next [OF m]
  show ?thesis
  proof (cases ns)
    case Nil
    then show ?thesis using nx by (simp add: ni_Dequeue_def)
  next
    case (Cons n ns')
    show ?thesis
    proof (cases "(t, n) \<in> set (mp_flight s)")
      case True
      then show ?thesis using nx Cons by (simp add: ni_Dequeue_def)
    next
      case False
      have n: "n \<noteq> 0" "n \<in> dom (mp_next s)" "t \<notin> set ns" using m inv Cons by (auto simp: mp_inv_def ni_inv_def)
      let ?s = "s\<lparr>mp_tail := n, mp_next := (mp_next s)(t := None)\<rparr>"
      have "ni_Dequeue s = Some (Some (mp_data s n), ?s)"
        using nx Cons False n by (auto simp: ni_Dequeue_def)
      moreover have "mp_inv (n # ns') ?s"
        using m Cons nx(2) False by (intro mp_advance_inv [of t n ns' s]) simp_all
      moreover have "dom (mp_next ?s) = set ns" using inv n(3) by (auto simp: ni_inv_def)
      ultimately show ?thesis using inv Cons False by (auto simp: ni_inv_def)
    qed
  qed
qed

lemma ni_begin_ok:
  assumes inv: "ni_inv ns s"
  shows "ni_inv (ns @ [mp_brk s]) (ni_begin v s)" "mp_data (ni_begin v s) = (mp_data s)(mp_brk s := v)"
    "mp_flight (ni_begin v s) = mp_flight s @ [(mp_head s, mp_brk s)]"
proof -
  let ?p = "mp_brk s"
  let ?s = "s\<lparr>mp_brk := ?p + 1, mp_next := (mp_next s)(?p \<mapsto> 0), mp_data := (mp_data s)(?p := v)\<rparr>"
  have m: "mp_inv ns s" and fresh: "?p \<notin> set ns" "?p \<noteq> 0" using inv by (auto simp: ni_inv_def mp_inv_def)
  note d = mp_invD [OF m]
  have "mp_next ?s x = Some (if (x, y) \<in> set (mp_flight s) then 0 else y)" if "(x, y) \<in> set (adj ns)" for x y
    using d(10) [OF that] adj_mem [OF that] fresh(1) by auto
  moreover have "mp_next ?s (List.last ns) = Some 0" using d(3,8,9) fresh(1) by auto
  ultimately have "mp_inv ns ?s" using d(1-7) unfolding mp_inv_def by simp
  then have "mp_inv (ns @ [?p]) (mp_exchange ?p ?s)"
    using fresh by (intro mp_exchange_inv) auto
  then show "ni_inv (ns @ [?p]) (ni_begin v s)"
    using inv by (auto simp: ni_inv_def ni_begin_def Let_def mp_exchange_def less_SucI)
qed (simp_all add: ni_begin_def Let_def mp_exchange_def)

lemma ni_publish_ok:
  assumes "ni_inv ns s" "(a, b) \<in> set (mp_flight s)"
  shows "\<exists>s'. mp_publish a b s = Some s' \<and> ni_inv ns s' \<and> mp_data s' = mp_data s \<and> mp_flight s' = remove1 (a, b) (mp_flight s)"
proof -
  have m: "mp_inv ns s" using assms(1) by (simp add: ni_inv_def)
  obtain s' where s': "mp_publish a b s = Some s'" "mp_inv ns s'" "mp_flight s' = remove1 (a, b) (mp_flight s)"
    using mp_publish_inv [OF m assms(2)] by blast
  have "(a, b) \<in> set (adj ns)" using m assms(2) by (auto simp: mp_inv_def)
  then have "a \<in> set ns" using adj_mem by fastforce
  moreover have "dom (mp_next s') = insert a (dom (mp_next s))" "mp_data s' = mp_data s" "mp_brk s' = mp_brk s"
    using s'(1) by (auto simp: mp_publish_def split: if_splits)
  ultimately show ?thesis using s' assms(1) by (auto simp: ni_inv_def)
qed

lemma ni_reach_inv:
  "ni_reach s put got \<Longrightarrow> \<exists>t ns. ni_inv (t # ns) s \<and> put = got @ map (mp_data s) ns"
proof (induction rule: ni_reach.induct)
  case ni_new
  have "ni_inv [1] ni_ctor" by (simp add: ni_inv_def mp_inv_def ni_ctor_def)
  then show ?case by fastforce
next
  case (ni_exchanges s put got v)
  then obtain t ns where i: "ni_inv (t # ns) s" "put = got @ map (mp_data s) ns" by blast
  have "mp_brk s \<notin> set ns" using i(1) by (auto simp: ni_inv_def)
  then have "map (mp_data (ni_begin v s)) (ns @ [mp_brk s]) = map (mp_data s) ns @ [v]"
    using ni_begin_ok(2) [OF i(1), of v] by simp
  then show ?case using ni_begin_ok(1) [OF i(1), of v] i(2) by (intro exI [of _ t] exI [of _ "ns @ [mp_brk s]"]) simp
next
  case (ni_publishes s put got a b s')
  then show ?case using ni_publish_ok [OF _ ni_publishes.hyps(2)] by fastforce
next
  case (ni_dequeues s put got r s')
  then obtain t ns where i: "ni_inv (t # ns) s" "put = got @ map (mp_data s) ns" by blast
  show ?case
  proof (cases ns)
    case Nil
    then show ?thesis using ni_Dequeue_ok [OF i(1)] i ni_dequeues.hyps(2) by auto
  next
    case (Cons n ns')
    show ?thesis
    proof (cases "(t, n) \<in> set (mp_flight s)")
      case True
      then have "s' = s" "r = None" using ni_Dequeue_ok [OF i(1)] Cons ni_dequeues.hyps(2) by auto
      then show ?thesis using i by auto
    next
      case False
      then show ?thesis using ni_Dequeue_ok [OF i(1)] i Cons ni_dequeues.hyps(2) by auto
    qed
  qed
qed

text \<open>
  C17: In every interleaving of producers and the consumer of the non-intrusive queue, no access
  touches a node that was deleted: each producer in flight can store its link and the consumer can
  run; the values come out exactly in the order of the exchanges; and when no producer is in flight, \<open>Dequeue\<close> fails
  only if every value has been delivered.
\<close>

theorem MPSC_nonintrusive_safe:
  assumes "ni_reach s put got"
  shows "\<exists>rest r s'. put = got @ rest \<and> ni_Dequeue s = Some (r, s') \<and>
    (\<forall>(a, b) \<in> set (mp_flight s). mp_publish a b s \<noteq> None) \<and>
    (r = None \<or> (\<exists>v vs. rest = v # vs \<and> r = Some v)) \<and> (mp_flight s = [] \<longrightarrow> (r = None \<longleftrightarrow> rest = []))"
proof -
  obtain t ns where i: "ni_inv (t # ns) s" "put = got @ map (mp_data s) ns" using ni_reach_inv [OF assms] by blast
  have "\<forall>(a, b) \<in> set (mp_flight s). mp_publish a b s \<noteq> None" using ni_publish_ok [OF i(1)] by fastforce
  then show ?thesis using ni_Dequeue_ok [OF i(1)] i(2) by (cases ns) (auto split: if_splits)
qed

theorem MPSC_nonintrusive_safe_witness:
  "\<exists>rest r s'. [7] = [] @ rest \<and> ni_Dequeue (ni_begin 7 ni_ctor) = Some (r, s')"
  using MPSC_nonintrusive_safe [OF ni_reach.ni_exchanges [OF ni_reach.ni_new], of 7] by auto

section \<open>The intrusive queue\<close>

text \<open>
  Every interleaving: a producer may enqueue an object that is not in the queue; a pair in flight whose node is the
  dummy belongs to the consumer. \<open>busy\<close> tells whether a producer was in flight or took a step since the current
  \<open>Dequeue\<close> began.
\<close>

inductive in_reach :: "ptr \<Rightarrow> (ptr \<Rightarrow> ptr option) \<Rightarrow> mpsc_in \<Rightarrow> in_pc \<Rightarrow> bool \<Rightarrow> ptr list \<Rightarrow> ptr list \<Rightarrow> bool" for d objs where
  in_new: "d \<noteq> 0 \<Longrightarrow> in_reach d objs (in_ctor d objs) In_tail False [] []"
| in_exchanges: "in_reach d objs s pc busy put got \<Longrightarrow> p \<noteq> 0 \<Longrightarrow> p \<noteq> d \<Longrightarrow> p \<notin> set (drop (length got) put) \<Longrightarrow> in_begin p s = Some s' \<Longrightarrow>
    in_reach d objs s' pc True (put @ [p]) got"
| in_publishes: "in_reach d objs s pc busy put got \<Longrightarrow> (a, b) \<in> set (mp_flight s) \<Longrightarrow> b \<noteq> d \<Longrightarrow> mp_publish a b s = Some s' \<Longrightarrow>
    in_reach d objs s' pc True put got"
| in_dequeues: "in_reach d objs s pc busy put got \<Longrightarrow> in_Dequeue_step pc s = Some (r, pc', s') \<Longrightarrow>
    in_reach d objs s' pc' (if pc = In_tail then mp_flight s \<noteq> [] else busy) put (got @ (case r of Some (Some v) \<Rightarrow> [v] | _ \<Rightarrow> []))"

text \<open>The dummy takes part in the chain, but it is not in the queue.\<close>

abbreviation in_queue :: "ptr \<Rightarrow> ptr list \<Rightarrow> ptr list" where
  "in_queue d ns \<equiv> filter (\<lambda>p. p \<noteq> d) ns"

text \<open>What the consumer knows at each point, \<open>quiet\<close> when no producer interfered.\<close>

fun in_knows :: "ptr \<Rightarrow> bool \<Rightarrow> ptr list \<Rightarrow> mpsc_in \<Rightarrow> in_pc \<Rightarrow> bool" where
  "in_knows d quiet ns s In_tail \<longleftrightarrow> True"
| "in_knows d quiet ns s (In_first t) \<longleftrightarrow> hd ns = t \<and> t \<noteq> d \<and> (quiet \<longrightarrow> mp_flight s = [])"
| "in_knows d quiet ns s (In_head t) \<longleftrightarrow> hd ns = t \<and> t \<noteq> d \<and> (quiet \<longrightarrow> ns = [t] \<and> mp_flight s = [])"
| "in_knows d quiet ns s (In_reset t) \<longleftrightarrow> hd ns = t \<and> d \<notin> set ns \<and> (quiet \<longrightarrow> ns = [t] \<and> mp_flight s = [])"
| "in_knows d quiet ns s (In_exchange t) \<longleftrightarrow> hd ns = t \<and> d \<notin> set ns \<and> mp_next s d = Some 0 \<and> (quiet \<longrightarrow> ns = [t] \<and> mp_flight s = [])"
| "in_knows d quiet ns s (In_link t p) \<longleftrightarrow> hd ns = t \<and> t \<noteq> d \<and> (p, d) \<in> set (mp_flight s) \<and> (quiet \<longrightarrow> ns = [t, d] \<and> mp_flight s = [(p, d)])"
| "in_knows d quiet ns s (In_last t) \<longleftrightarrow> hd ns = t \<and> t \<noteq> d \<and> (quiet \<longrightarrow> ns = [t, d] \<and> mp_flight s = [])"

definition in_inv :: "ptr \<Rightarrow> bool \<Rightarrow> ptr list \<Rightarrow> mpsc_in \<Rightarrow> in_pc \<Rightarrow> bool" where
  "in_inv d quiet ns s pc \<longleftrightarrow> mp_inv ns s \<and> mp_dummy s = d \<and> d \<noteq> 0 \<and> mp_next s d \<noteq> None \<and> in_knows d quiet ns s pc"

lemma mp_inv_set_next:
  assumes "mp_inv ns s" "p \<notin> set ns" "mp_tail s' = mp_tail s" "mp_head s' = mp_head s" "mp_flight s' = mp_flight s"
    "\<And>x. x \<noteq> p \<Longrightarrow> mp_next s' x = mp_next s x"
  shows "mp_inv ns s'"
proof -
  note d = mp_invD [OF assms(1)]
  have same: "mp_next s' x = mp_next s x" if "x \<in> set ns" for x using that assms(2,6) by metis
  have "mp_next s' x = Some (if (x, y) \<in> set (mp_flight s) then 0 else y)" if "(x, y) \<in> set (adj ns)" for x y
    using d(10) [OF that] adj_mem [OF that] same by simp
  then show ?thesis using d(1-8) assms(3-5) same [OF d(9)] unfolding mp_inv_def by simp
qed

lemma in_begin_ok:
  assumes inv: "mp_inv ns s" and p: "p \<notin> set ns" "p \<noteq> 0" "mp_next s p \<noteq> None"
  shows "\<exists>s'. in_begin p s = Some s' \<and> mp_inv (ns @ [p]) s' \<and> mp_flight s' = mp_flight s @ [(mp_head s, p)] \<and>
    mp_dummy s' = mp_dummy s \<and> mp_next s' = (mp_next s)(p \<mapsto> 0)"
proof -
  let ?s = "s\<lparr>mp_next := (mp_next s)(p \<mapsto> 0)\<rparr>"
  have "mp_inv ns ?s" by (rule mp_inv_set_next [OF inv p(1)]) auto
  then have "mp_inv (ns @ [p]) (mp_exchange p ?s)" using p by (intro mp_exchange_inv) auto
  then show ?thesis using p(3) by (auto simp: in_begin_def mp_exchange_def)
qed

text \<open>The steps of the producers.\<close>

lemma in_exchange_inv:
  assumes "in_inv d q ns s pc" "p \<notin> set ns" "p \<noteq> 0" "p \<noteq> d" "in_begin p s = Some s'"
  shows "in_inv d False (ns @ [p]) s' pc"
proof -
  have m: "mp_inv ns s" using assms(1) by (simp add: in_inv_def)
  have "mp_next s p \<noteq> None" using assms(5) by (auto simp: in_begin_def split: if_splits)
  then have "mp_inv (ns @ [p]) s'" "mp_flight s' = mp_flight s @ [(mp_head s, p)]" "mp_dummy s' = mp_dummy s" "mp_next s' = (mp_next s)(p \<mapsto> 0)"
    using in_begin_ok [OF m assms(2,3)] assms(5) by auto
  moreover have "ns \<noteq> []" using mp_invD(1) [OF m] .
  ultimately show ?thesis using assms(1,4) by (cases pc) (auto simp: in_inv_def)
qed

lemma in_publish_inv:
  assumes "in_inv d q ns s pc" "(a, b) \<in> set (mp_flight s)" "b \<noteq> d"
  shows "\<exists>s'. mp_publish a b s = Some s' \<and> in_inv d False ns s' pc"
proof -
  have m: "mp_inv ns s" using assms(1) by (simp add: in_inv_def)
  obtain s' where s': "mp_publish a b s = Some s'" "mp_inv ns s'" "mp_flight s' = remove1 (a, b) (mp_flight s)" "mpsc.more s' = mpsc.more s"
    using mp_publish_inv [OF m assms(2)] by blast
  have n: "mp_next s' = (mp_next s)(a \<mapsto> b)" "mp_dummy s' = mp_dummy s" using s'(1) by (auto simp: mp_publish_def split: if_splits)
  have "a \<in> set ns" using mp_invD(7) [OF m] assms(2) adj_mem by fastforce
  then have "in_knows d False ns s' pc" using assms(1,3) n s'(3) by (cases pc) (auto simp: in_inv_def)
  then show ?thesis using s' n assms(1) by (auto simp: in_inv_def)
qed


text \<open>The steps of the consumer.\<close>

lemma in_invD:
  assumes "in_inv d q ns s pc"
  shows "mp_inv ns s" "mp_dummy s = d" "d \<noteq> 0" "mp_next s d \<noteq> None" "in_knows d q ns s pc"
  using assms by (simp_all add: in_inv_def)

text \<open>The link of the tail: null, or the next node.\<close>

lemma in_next_cases:
  assumes "mp_inv (t # ns) s"
  obtains (null) "mp_next s t = Some 0" "ns = [] \<or> mp_flight s \<noteq> []"
  | (node) n ns' where "ns = n # ns'" "mp_next s t = Some n" "n \<noteq> 0" "t \<noteq> n" "mp_inv (n # ns') (s\<lparr>mp_tail := n\<rparr>)"
proof (cases "mp_next s t = Some 0")
  case True
  have "ns = [] \<or> mp_flight s \<noteq> []" using mp_inv_next(2) [OF assms] mp_invD(5) [OF assms] True by (cases ns) (auto split: if_splits)
  then show ?thesis using null True by blast
next
  case False
  then obtain n ns' where ns: "ns = n # ns'" and nx: "mp_next s t = Some n" using mp_inv_next(2) [OF assms] by (cases ns) (auto split: if_splits)
  have "n \<noteq> 0" "t \<noteq> n" using mp_invD(4,5) [OF assms] ns by auto
  moreover have "mp_inv (n # ns') (s\<lparr>mp_tail := n\<rparr>)" using assms ns nx by (intro mp_advance_inv [of t n ns' s]) simp_all
  ultimately show ?thesis using node ns nx by blast
qed

definition in_step_good :: "ptr \<Rightarrow> bool \<Rightarrow> ptr list \<Rightarrow> mpsc_in \<Rightarrow> in_pc \<Rightarrow> ptr option option \<times> in_pc \<times> mpsc_in \<Rightarrow> bool" where
  "in_step_good d q ns s pc res \<longleftrightarrow>
     (case res of (r, pc', s') \<Rightarrow>
        \<exists>ns'. in_inv d q ns' s' pc' \<and> in_queue d ns = (case r of Some (Some v) \<Rightarrow> [v] | _ \<Rightarrow> []) @ in_queue d ns' \<and>
          (r = Some None \<longrightarrow> in_queue d ns = [] \<or> \<not> q))"

lemma in_stepI:
  "in_inv d q ns' s' pc' \<Longrightarrow> in_queue d ns = (case r of Some (Some v) \<Rightarrow> [v] | _ \<Rightarrow> []) @ in_queue d ns' \<Longrightarrow>
   (r = Some None \<Longrightarrow> in_queue d ns = [] \<or> \<not> q) \<Longrightarrow> in_step_good d q ns s pc (r, pc', s')"
  by (auto simp: in_step_good_def)

lemma in_tail_good:
  assumes "in_inv d q0 ns s In_tail"
  shows "\<exists>res. in_Dequeue_step In_tail s = Some res \<and> in_step_good d (mp_flight s = []) ns s In_tail res"
proof -
  note i = in_invD [OF assms]
  obtain t ts where ns: "ns = t # ts" using mp_invD(1) [OF i(1)] by (cases ns) auto
  have tl: "mp_tail s = t" using mp_inv_next(1) i(1) ns by blast
  from i(1) [unfolded ns] show ?thesis
  proof (cases rule: in_next_cases)
    case null
    show ?thesis
    proof (cases "t = d")
      case True
      then have "in_Dequeue_step In_tail s = Some (Some None, In_tail, s)" using tl null i(2) by (simp add: in_Dequeue_step_def)
      moreover have "in_step_good d (mp_flight s = []) ns s In_tail (Some None, In_tail, s)"
        using i null(2) ns True by (intro in_stepI [where ns' = ns]) (auto simp: in_inv_def)
      ultimately show ?thesis by blast
    next
      case False
      then have "in_Dequeue_step In_tail s = Some (None, In_head t, s)" using tl null i(2) by (simp add: in_Dequeue_step_def)
      moreover have "in_step_good d (mp_flight s = []) ns s In_tail (None, In_head t, s)"
        using i null(2) ns False by (intro in_stepI [where ns' = ns]) (auto simp: in_inv_def)
      ultimately show ?thesis by blast
    qed
  next
    case (node n ns')
    show ?thesis
    proof (cases "t = d")
      case True
      then have "in_Dequeue_step In_tail s = Some (None, In_first n, s\<lparr>mp_tail := n\<rparr>)" using tl node i(2) by (simp add: in_Dequeue_step_def)
      moreover have "in_step_good d (mp_flight s = []) ns s In_tail (None, In_first n, s\<lparr>mp_tail := n\<rparr>)"
        using i node ns True by (intro in_stepI [where ns' = "n # ns'"]) (auto simp: in_inv_def)
      ultimately show ?thesis by blast
    next
      case False
      then have "in_Dequeue_step In_tail s = Some (Some (Some t), In_tail, s\<lparr>mp_tail := n\<rparr>)" using tl node i(2) by (simp add: in_Dequeue_step_def)
      moreover have "in_step_good d (mp_flight s = []) ns s In_tail (Some (Some t), In_tail, s\<lparr>mp_tail := n\<rparr>)"
        using i node ns False by (intro in_stepI [where ns' = "n # ns'"]) (auto simp: in_inv_def)
      ultimately show ?thesis by blast
    qed
  qed
qed

lemma in_load_good:
  assumes "in_inv d q ns s pc" "pc = In_first t \<or> pc = In_last t"
  shows "\<exists>res. in_Dequeue_step pc s = Some res \<and> in_step_good d q ns s pc res"
proof -
  note i = in_invD [OF assms(1)]
  obtain ts where ns: "ns = t # ts" and td: "t \<noteq> d" using mp_invD(1) [OF i(1)] i(5) assms(2) by (cases ns) auto
  from i(1) [unfolded ns] show ?thesis
  proof (cases rule: in_next_cases)
    case null
    show ?thesis
    proof (cases "pc = In_first t")
      case True
      then have "in_Dequeue_step pc s = Some (None, In_head t, s)" using null by (simp add: in_Dequeue_step_def)
      moreover have "in_step_good d q ns s pc (None, In_head t, s)"
        using i null(2) ns td True by (intro in_stepI [where ns' = ns]) (auto simp: in_inv_def)
      ultimately show ?thesis by blast
    next
      case False
      then have pc: "pc = In_last t" using assms(2) by simp
      then have "in_Dequeue_step pc s = Some (Some None, In_tail, s)" using null by (simp add: in_Dequeue_step_def)
      moreover have "in_step_good d q ns s pc (Some None, In_tail, s)"
        using i null(2) ns pc by (intro in_stepI [where ns' = ns]) (auto simp: in_inv_def)
      ultimately show ?thesis by blast
    qed
  next
    case (node n ns')
    have "in_Dequeue_step pc s = Some (Some (Some t), In_tail, s\<lparr>mp_tail := n\<rparr>)" using node assms(2) by (auto simp: in_Dequeue_step_def)
    moreover have "in_step_good d q ns s pc (Some (Some t), In_tail, s\<lparr>mp_tail := n\<rparr>)"
      using i node ns td by (intro in_stepI [where ns' = "n # ns'"]) (auto simp: in_inv_def)
    ultimately show ?thesis by blast
  qed
qed

lemma in_head_good:
  assumes "in_inv d q ns s (In_head t)"
  shows "\<exists>res. in_Dequeue_step (In_head t) s = Some res \<and> in_step_good d q ns s (In_head t) res"
proof -
  note i = in_invD [OF assms]
  obtain ts where ns: "ns = t # ts" and td: "t \<noteq> d" and qt: "q \<longrightarrow> ns = [t] \<and> mp_flight s = []" using mp_invD(1) [OF i(1)] i(5) by (cases ns) auto
  have h: "ts = [] \<longleftrightarrow> t = mp_head s" using mp_inv_next(3) i(1) ns by blast
  show ?thesis
  proof (cases "t = mp_head s")
    case True
    have "in_step_good d q ns s (In_head t) (None, In_reset t, s)"
      using i ns td qt h True by (intro in_stepI [where ns' = ns]) (auto simp: in_inv_def)
    then show ?thesis using True by (simp add: in_Dequeue_step_def)
  next
    case False
    have "in_step_good d q ns s (In_head t) (Some None, In_tail, s)"
      using i ns qt h False by (intro in_stepI [where ns' = ns]) (auto simp: in_inv_def)
    then show ?thesis using False by (simp add: in_Dequeue_step_def)
  qed
qed

lemma in_reset_good:
  assumes "in_inv d q ns s (In_reset t)"
  shows "\<exists>res. in_Dequeue_step (In_reset t) s = Some res \<and> in_step_good d q ns s (In_reset t) res"
proof -
  note i = in_invD [OF assms]
  let ?s = "s\<lparr>mp_next := (mp_next s)(d \<mapsto> 0)\<rparr>"
  have "mp_inv ns ?s" using i(5) by (intro mp_inv_set_next [OF i(1), of d]) auto
  then have "in_step_good d q ns s (In_reset t) (None, In_exchange t, ?s)"
    using i by (intro in_stepI [where ns' = ns]) (auto simp: in_inv_def)
  then show ?thesis using i(2,4) by (auto simp: in_Dequeue_step_def)
qed

lemma in_exchange_good:
  assumes "in_inv d q ns s (In_exchange t)"
  shows "\<exists>res. in_Dequeue_step (In_exchange t) s = Some res \<and> in_step_good d q ns s (In_exchange t) res"
proof -
  note i = in_invD [OF assms]
  let ?s = "mp_exchange d s"
  have "mp_inv (ns @ [d]) ?s" using i by (intro mp_exchange_inv) auto
  moreover have f: "mp_flight ?s = mp_flight s @ [(mp_head s, d)]" "mp_dummy ?s = mp_dummy s" "mp_next ?s = mp_next s" by (simp_all add: mp_exchange_def)
  moreover have "ns \<noteq> []" "List.last ns = mp_head s" using mp_invD(1,3) [OF i(1)] .
  moreover have "hd ns \<noteq> d" using i(5) hd_in_set [OF mp_invD(1) [OF i(1)]] by auto
  ultimately have "in_inv d q (ns @ [d]) ?s (In_link t (mp_head s))" using i by (auto simp: in_inv_def)
  then have "in_step_good d q ns s (In_exchange t) (None, In_link t (mp_head s), ?s)" by (rule in_stepI) auto
  then show ?thesis using i(2) by (simp add: in_Dequeue_step_def)
qed

lemma in_link_good:
  assumes "in_inv d q ns s (In_link t p)"
  shows "\<exists>res. in_Dequeue_step (In_link t p) s = Some res \<and> in_step_good d q ns s (In_link t p) res"
proof -
  note i = in_invD [OF assms]
  have f: "(p, d) \<in> set (mp_flight s)" using i(5) by simp
  obtain s' where s': "mp_publish p d s = Some s'" "mp_inv ns s'" "mp_flight s' = remove1 (p, d) (mp_flight s)" "mpsc.more s' = mpsc.more s"
    using mp_publish_inv [OF i(1) f] by blast
  have n: "mp_next s' = (mp_next s)(p \<mapsto> d)" "mp_dummy s' = mp_dummy s" using s'(1) by (auto simp: mp_publish_def split: if_splits)
  have "in_inv d q ns s' (In_last t)" using i s' n by (auto simp: in_inv_def)
  then have "in_step_good d q ns s (In_link t p) (None, In_last t, s')" by (rule in_stepI) auto
  then show ?thesis using i(2) s'(1) by (simp add: in_Dequeue_step_def)
qed

lemma in_step_ok:
  assumes "in_inv d q ns s pc"
  shows "\<exists>res. in_Dequeue_step pc s = Some res \<and> in_step_good d (if pc = In_tail then mp_flight s = [] else q) ns s pc res"
  using assms in_tail_good in_load_good in_head_good in_reset_good in_exchange_good in_link_good by (cases pc) auto

lemma in_reach_inv:
  "in_reach d objs s pc busy put got \<Longrightarrow> \<exists>ns. in_inv d (\<not> busy) ns s pc \<and> put = got @ in_queue d ns"
proof (induction rule: in_reach.induct)
  case in_new
  then have "in_inv d True [d] (in_ctor d objs) In_tail" by (simp add: in_inv_def mp_inv_def in_ctor_def)
  then show ?case by fastforce
next
  case (in_exchanges s pc busy put got p s')
  then obtain ns where i: "in_inv d (\<not> busy) ns s pc" "put = got @ in_queue d ns" by blast
  have "p \<notin> set ns" using in_exchanges.hyps i(2) by auto
  from in_exchange_inv [OF i(1) this in_exchanges.hyps(2,3,5)] show ?case
    using i(2) in_exchanges.hyps(3) by (intro exI [of _ "ns @ [p]"]) simp
next
  case (in_publishes s pc busy put got a b s')
  then show ?case using in_publish_inv [OF _ in_publishes.hyps(2,3)] by fastforce
next
  case (in_dequeues s pc busy put got r pc' s')
  then obtain ns where i: "in_inv d (\<not> busy) ns s pc" "put = got @ in_queue d ns" by blast
  have "in_step_good d (if pc = In_tail then mp_flight s = [] else \<not> busy) ns s pc (r, pc', s')"
    using in_step_ok [OF i(1)] in_dequeues.hyps(2) by simp
  then show ?case using i(2) by (auto simp: in_step_good_def split: if_splits)
qed

text \<open>The accesses that are left before \<open>Dequeue\<close> returns.\<close>

fun in_rank :: "in_pc \<Rightarrow> nat" where
  "in_rank In_tail = 7"
| "in_rank (In_first t) = 6"
| "in_rank (In_head t) = 5"
| "in_rank (In_reset t) = 4"
| "in_rank (In_exchange t) = 3"
| "in_rank (In_link t p) = 2"
| "in_rank (In_last t) = 1"

lemma in_rank_step: "in_Dequeue_step pc s = Some (None, pc', s') \<Longrightarrow> in_rank pc' < in_rank pc"
  by (cases pc) (auto simp: in_Dequeue_step_def Let_def bind_eq_Some_conv split: if_splits)

text \<open>
  C18: The same for the intrusive queue, whose nodes are the program's objects and whose dummy goes
  through the chain, with every access of \<open>Dequeue\<close> to a link or to \<open>_head\<close>, and so those of its
  \<open>Enqueue(_dummyPtr)\<close>, interleaved with the producers: no access is undefined and \<open>Dequeue\<close> returns after at most
  seven; the objects come out in the order of the exchanges, the dummy never does; and \<open>Dequeue\<close> fails
  only on an empty queue or when a producer was between its exchange and its store, or took a step, during the call.
\<close>

theorem MPSC_intrusive_safe:
  assumes "in_reach d objs s pc busy put got"
  shows "\<exists>rest r pc' s'. put = got @ rest \<and> d \<notin> set rest \<and> in_Dequeue_step pc s = Some (r, pc', s') \<and>
    (case r of
       None \<Rightarrow> in_rank pc' < in_rank pc
     | Some None \<Rightarrow> pc' = In_tail \<and> (rest = [] \<or> (if pc = In_tail then mp_flight s \<noteq> [] else busy))
     | Some (Some v) \<Rightarrow> pc' = In_tail \<and> (\<exists>vs. rest = v # vs)) \<and>
    (\<forall>(a, b) \<in> set (mp_flight s). mp_publish a b s \<noteq> None)"
proof -
  obtain ns where i: "in_inv d (\<not> busy) ns s pc" "put = got @ in_queue d ns" using in_reach_inv [OF assms] by blast
  have m: "mp_inv ns s" using i(1) by (simp add: in_inv_def)
  have f: "\<forall>(a, b) \<in> set (mp_flight s). mp_publish a b s \<noteq> None" using mp_publish_inv [OF m] by fastforce
  obtain r pc' s' where st: "in_Dequeue_step pc s = Some (r, pc', s')"
    and g: "in_step_good d (if pc = In_tail then mp_flight s = [] else \<not> busy) ns s pc (r, pc', s')"
    using in_step_ok [OF i(1)] by (metis prod_cases3)
  have ret: "pc' = In_tail" if "r \<noteq> None"
    using st that by (cases pc) (auto simp: in_Dequeue_step_def Let_def bind_eq_Some_conv split: if_splits)
  have "case r of None \<Rightarrow> in_rank pc' < in_rank pc
     | Some None \<Rightarrow> pc' = In_tail \<and> (in_queue d ns = [] \<or> (if pc = In_tail then mp_flight s \<noteq> [] else busy))
     | Some (Some v) \<Rightarrow> pc' = In_tail \<and> (\<exists>vs. in_queue d ns = v # vs)"
    using g ret in_rank_step [of pc s pc' s'] st by (auto simp: in_step_good_def split: option.splits)
  then show ?thesis using i(2) f st by (intro exI [of _ "in_queue d ns"] exI [of _ r] exI [of _ pc'] exI [of _ s']) auto
qed

text \<open>A producer comes in between the load of \<open>_head\<close> and the exchange of the dummy, and \<open>Dequeue\<close> fails at its last test.\<close>

definition ex_in :: "mpsc_in" where
  "ex_in = the (do {
     s \<leftarrow> in_begin 5 (in_ctor 9 [5 \<mapsto> 0, 6 \<mapsto> 0]);
     s \<leftarrow> mp_publish 9 5 s;
     (_, _, s) \<leftarrow> in_Dequeue_step In_tail s;
     (_, _, s) \<leftarrow> in_Dequeue_step (In_first 5) s;
     (_, _, s) \<leftarrow> in_Dequeue_step (In_head 5) s;
     s \<leftarrow> in_begin 6 s;
     (_, _, s) \<leftarrow> in_Dequeue_step (In_reset 5) s;
     (_, _, s) \<leftarrow> in_Dequeue_step (In_exchange 5) s;
     (_, _, s) \<leftarrow> in_Dequeue_step (In_link 5 6) s; Some s })"

lemmas in_eval = in_begin_def in_ctor_def mp_publish_def mp_exchange_def in_Dequeue_step_def

lemma ex_in_late: "in_Dequeue_step (In_last 5) ex_in = Some (Some None, In_tail, ex_in)"
  by (simp add: ex_in_def in_eval)

lemma ex_in_reach: "in_reach 9 [5 \<mapsto> 0, 6 \<mapsto> 0] ex_in (In_last 5) True [5, 6] []"
proof -
  let ?o = "[5 \<mapsto> 0, 6 \<mapsto> 0] :: ptr \<Rightarrow> ptr option"
  define s1 s2 s3 s4 s5 s6 where "s1 = the (in_begin 5 (in_ctor 9 ?o))" and "s2 = the (mp_publish 9 5 s1)"
    and "s3 = s2\<lparr>mp_tail := 5\<rparr>" and "s4 = the (in_begin 6 s3)" and "s5 = s4\<lparr>mp_next := (mp_next s4)(9 \<mapsto> 0)\<rparr>" and "s6 = mp_exchange 9 s5"
  note e = s1_def s2_def s3_def s4_def s5_def s6_def ex_in_def in_eval
  have 1: "in_reach 9 ?o s1 In_tail True [5] []"
    using in_reach.in_exchanges [OF in_reach.in_new [of 9 ?o], of 5 s1] by (simp add: e)
  have 2: "in_reach 9 ?o s2 In_tail True [5] []" by (rule in_reach.in_publishes [OF 1, of 9 5]) (simp_all add: e)
  have 3: "in_reach 9 ?o s3 (In_first 5) False [5] []"
    using in_reach.in_dequeues [OF 2, of None "In_first 5" s3] by (simp add: e)
  have 4: "in_reach 9 ?o s3 (In_head 5) False [5] []"
    using in_reach.in_dequeues [OF 3, of None "In_head 5" s3] by (simp add: e)
  have 5: "in_reach 9 ?o s3 (In_reset 5) False [5] []"
    using in_reach.in_dequeues [OF 4, of None "In_reset 5" s3] by (simp add: e)
  have 6: "in_reach 9 ?o s4 (In_reset 5) True [5, 6] []"
    using in_reach.in_exchanges [OF 5, of 6 s4] by (simp add: e)
  have 7: "in_reach 9 ?o s5 (In_exchange 5) True [5, 6] []"
    using in_reach.in_dequeues [OF 6, of None "In_exchange 5" s5] by (simp add: e)
  have 8: "in_reach 9 ?o s6 (In_link 5 6) True [5, 6] []"
    using in_reach.in_dequeues [OF 7, of None "In_link 5 6" s6] by (simp add: e)
  show ?thesis using in_reach.in_dequeues [OF 8, of None "In_last 5" ex_in] by (simp add: e)
qed

theorem MPSC_intrusive_safe_witness:
  "\<exists>rest. [5, 6] = [] @ rest \<and> (9 :: ptr) \<notin> set rest \<and> in_Dequeue_step (In_last 5) ex_in = Some (Some None, In_tail, ex_in)"
  using MPSC_intrusive_safe [OF ex_in_reach] ex_in_late by simp

text \<open>
  The destructor of the non-intrusive queue, once the producers are done, deletes every value that was not
  delivered and every node.
\<close>

lemma ni_drain_ok:
  "ni_inv (t # ns) s \<Longrightarrow> mp_flight s = [] \<Longrightarrow>
   \<exists>s'. ni_drain s = Some (map (mp_data s) ns, s') \<and> ni_inv [mp_head s] s' \<and> mp_head s' = mp_head s"
proof (induction ns arbitrary: t s)
  case Nil
  then have "ni_drain s = Some ([], s)" using ni_Dequeue_ok [OF Nil(1)] by (subst ni_drain.simps) simp
  moreover have "t = mp_head s" using mp_inv_next(3) [of t "[]" s] Nil(1) by (simp add: ni_inv_def)
  ultimately show ?case using Nil(1) by simp
next
  case (Cons n ns)
  obtain s1 where s1: "ni_Dequeue s = Some (Some (mp_data s n), s1)" "ni_inv (n # ns) s1" "mp_data s1 = mp_data s"
      "mp_flight s1 = []" using ni_Dequeue_ok [OF Cons.prems(1)] Cons.prems(2) by auto
  have "mp_head s1 = mp_head s" using s1(1) by (auto simp: ni_Dequeue_def bind_eq_Some_conv split: if_splits)
  then show ?case using Cons.IH [OF s1(2,4)] s1(1,3) by (subst ni_drain.simps) auto
qed

lemma MPSC_dtor_complete:
  assumes "ni_reach s put got" "mp_flight s = []"
  shows "\<exists>vs s'. ni_dtor s = Some (vs, s') \<and> put = got @ vs \<and> mp_next s' = (\<lambda>_. None)"
proof -
  obtain t ns where i: "ni_inv (t # ns) s" "put = got @ map (mp_data s) ns" using ni_reach_inv [OF assms(1)] by blast
  obtain s1 where s1: "ni_drain s = Some (map (mp_data s) ns, s1)" "ni_inv [mp_head s] s1" "mp_head s1 = mp_head s"
    using ni_drain_ok [OF i(1) assms(2)] by blast
  have "dom (mp_next s1) = {mp_head s1}" using s1(2,3) by (simp add: ni_inv_def)
  then have "(mp_next s1)(mp_head s1 := None) = (\<lambda>_. None)" by (auto simp: fun_eq_iff dom_def)
  then show ?thesis using i(2) s1(1) by (auto simp: ni_dtor_def)
qed

end
