(* ===== verification/MmPool.thy ===== *)
theory MmPool
  imports Prelude
begin

text \<open>
  The pool allocator of \<^verbatim>\<open>mempool/mm_pool_.c\<close>. Addresses are natural numbers (below \<open>2 ^ 64\<close>); the structures that the
  code places in raw memory are kept by the address they are placed at, with the sizes they have on a 64-bit
  machine. What \<open>posix_memalign\<close> and \<open>malloc\<close> return is an argument (0 for failure): \<open>blk\<close> for a
  block, a list for the large allocations. \<open>pool_heap\<close> has the live allocations with their sizes;
  a \<open>free\<close> of anything else, or an access to a structure that is not there, is undefined. The bytes
  handed out are not modelled.
\<close>

section \<open>Model\<close>

record mp_large_s =
  ml_next :: nat
  ml_alloc :: nat

record mp_node_s =
  mn_last :: nat
  mn_end :: nat
  mn_next :: nat
  mn_failed :: u64

record mp_pool_s =
  pool_base :: nat
  pool_max :: nat
  pool_current :: nat
  pool_large :: nat
  pool_nodes :: "nat \<Rightarrow> mp_node_s option"
  pool_larges :: "nat \<Rightarrow> mp_large_s option"
  pool_heap :: "nat \<Rightarrow> nat option"

definition sizeof_pool :: nat where "sizeof_pool = 24"
definition sizeof_node :: nat where "sizeof_node = 32"
definition sizeof_large :: nat where "sizeof_large = 16"

definition MP_ALIGNMENT :: u64 where "MP_ALIGNMENT = 32"
definition MP_PAGE_SIZE :: nat where "MP_PAGE_SIZE = 4096"
definition MP_MAX_ALLOC_FROM_POOL :: nat where "MP_MAX_ALLOC_FROM_POOL = MP_PAGE_SIZE - 1"

definition mp_align :: "u64 \<Rightarrow> u64 \<Rightarrow> u64" where
  "mp_align n alignment = (n + (alignment - 1)) AND NOT (alignment - 1)"

definition mp_align_ptr :: "nat \<Rightarrow> nat" where
  "mp_align_ptr p = unat (mp_align (of_nat p) MP_ALIGNMENT)"

text \<open>\<open>pool->head\<close>: the array of length 0 behind the structure.\<close>

definition pool_head :: "mp_pool_s \<Rightarrow> nat" where
  "pool_head pool = pool_base pool + sizeof_pool"

text \<open>A new pool at \<open>p\<close>. The field \<open>next\<close> of the first node is not set; \<open>junk\<close> is what is there.\<close>

definition mp_create_pool :: "nat \<Rightarrow> nat \<Rightarrow> nat \<Rightarrow> mp_pool_s option" where
  "mp_create_pool p junk sz =
     (if p = 0 then None
      else
        (let start = p + sizeof_pool + sizeof_node in
         Some \<lparr>pool_base = p, pool_max = (if sz < MP_MAX_ALLOC_FROM_POOL then sz else MP_MAX_ALLOC_FROM_POOL),
               pool_current = p + sizeof_pool, pool_large = 0,
               pool_nodes = [p + sizeof_pool \<mapsto> \<lparr>mn_last = start, mn_end = start + sz, mn_next = junk, mn_failed = 0\<rparr>],
               pool_larges = (\<lambda>_. None), pool_heap = [p \<mapsto> sz + sizeof_pool + sizeof_node]\<rparr>))"

definition mp_release :: "nat \<Rightarrow> mp_pool_s \<Rightarrow> mp_pool_s option" where
  "mp_release p pool = (if pool_heap pool p = None then None else Some (pool\<lparr>pool_heap := (pool_heap pool)(p := None)\<rparr>))"

partial_function (option) mp_free_larges :: "nat \<Rightarrow> mp_pool_s \<Rightarrow> mp_pool_s option" where
  "mp_free_larges l pool =
     (if l = 0 then Some pool
      else
        do { x \<leftarrow> pool_larges pool l;
             pool \<leftarrow> (if ml_alloc x \<noteq> 0 then mp_release (ml_alloc x) pool else Some pool);
             mp_free_larges (ml_next x) pool })"

declare mp_free_larges.simps [code]

partial_function (option) mp_free_nodes :: "nat \<Rightarrow> mp_pool_s \<Rightarrow> mp_pool_s option" where
  "mp_free_nodes h pool =
     (if h = 0 then Some pool
      else
        do { x \<leftarrow> pool_nodes pool h;
             pool \<leftarrow> mp_release h pool;
             mp_free_nodes (mn_next x) (pool\<lparr>pool_nodes := (pool_nodes pool)(h := None)\<rparr>) })"

declare mp_free_nodes.simps [code]

definition mp_destory_pool :: "mp_pool_s \<Rightarrow> mp_pool_s option" where
  "mp_destory_pool pool =
     do { pool \<leftarrow> mp_free_larges (pool_large pool) pool;
          x \<leftarrow> pool_nodes pool (pool_head pool);
          pool \<leftarrow> mp_free_nodes (mn_next x) pool;
          mp_release (pool_base pool) pool }"

partial_function (option) mp_reset_nodes :: "nat \<Rightarrow> mp_pool_s \<Rightarrow> mp_pool_s option" where
  "mp_reset_nodes h pool =
     (if h = 0 then Some pool
      else
        do { x \<leftarrow> pool_nodes pool h;
             mp_reset_nodes (mn_next x) (pool\<lparr>pool_nodes := (pool_nodes pool)(h \<mapsto> x\<lparr>mn_last := h + sizeof_node\<rparr>)\<rparr>) })"

declare mp_reset_nodes.simps [code]

definition mp_reset_pool :: "mp_pool_s \<Rightarrow> mp_pool_s option" where
  "mp_reset_pool pool =
     do { pool \<leftarrow> mp_free_larges (pool_large pool) pool;
          mp_reset_nodes (pool_head pool) (pool\<lparr>pool_large := 0\<rparr>) }"

text \<open>The loop of \<open>mp_alloc_block\<close>: the last node and the new \<open>current\<close>.\<close>

partial_function (option) mp_block_loop :: "nat \<Rightarrow> nat \<Rightarrow> mp_pool_s \<Rightarrow> (nat \<times> nat \<times> mp_pool_s) option" where
  "mp_block_loop p current pool =
     do { x \<leftarrow> pool_nodes pool p;
          if mn_next x = 0 then Some (p, current, pool)
          else
            mp_block_loop (mn_next x) (if mn_failed x > 4 then mn_next x else current)
              (pool\<lparr>pool_nodes := (pool_nodes pool)(p \<mapsto> x\<lparr>mn_failed := mn_failed x + 1\<rparr>)\<rparr>) }"

declare mp_block_loop.simps [code]

definition mp_alloc_block :: "nat \<Rightarrow> nat \<Rightarrow> mp_pool_s \<Rightarrow> (nat \<times> mp_pool_s) option" where
  "mp_alloc_block blk sz pool =
     do { h \<leftarrow> pool_nodes pool (pool_head pool);
          let psize = mn_end h - pool_head pool in
          if blk = 0 then Some (0, pool)
          else
            (let m = mp_align_ptr (blk + sizeof_node);
                 node = \<lparr>mn_last = m + sz, mn_end = blk + psize, mn_next = 0, mn_failed = 0\<rparr>;
                 pool = pool\<lparr>pool_nodes := (pool_nodes pool)(blk \<mapsto> node), pool_heap := (pool_heap pool)(blk \<mapsto> psize)\<rparr> in
             do { (p, current, pool) \<leftarrow> mp_block_loop (pool_current pool) (pool_current pool) pool;
                  x \<leftarrow> pool_nodes pool p;
                  Some (m, pool\<lparr>pool_nodes := (pool_nodes pool)(p \<mapsto> x\<lparr>mn_next := blk\<rparr>),
                                pool_current := (if current \<noteq> 0 then current else blk)\<rparr>) }) }"

text \<open>\<open>(size_t)(p->end - m) >= size\<close>: the difference of the pointers may be negative.\<close>

definition mp_fits :: "nat \<Rightarrow> nat \<Rightarrow> nat \<Rightarrow> bool" where
  "mp_fits en m sz \<longleftrightarrow> (of_int (int en - int m) :: u64) \<ge> of_nat sz"

text \<open>The loop of \<open>mp_alloc\<close> and \<open>mp_nalloc\<close>: the node with room and the address in it.\<close>

partial_function (option) mp_scan :: "(nat \<Rightarrow> nat) \<Rightarrow> nat \<Rightarrow> nat \<Rightarrow> mp_pool_s \<Rightarrow> (nat \<times> nat) option option" where
  "mp_scan adjust sz p pool =
     do { x \<leftarrow> pool_nodes pool p;
          if mp_fits (mn_end x) (adjust (mn_last x)) sz then Some (Some (p, adjust (mn_last x)))
          else if mn_next x = 0 then Some None
          else mp_scan adjust sz (mn_next x) pool }"

declare mp_scan.simps [code]

definition mp_pool_take :: "(nat \<Rightarrow> nat) \<Rightarrow> nat \<Rightarrow> nat \<Rightarrow> mp_pool_s \<Rightarrow> (nat \<times> mp_pool_s) option" where
  "mp_pool_take adjust blk sz pool =
     do { r \<leftarrow> mp_scan adjust sz (pool_current pool) pool;
          case r of
            Some (p, m) \<Rightarrow>
              do { x \<leftarrow> pool_nodes pool p;
                   Some (m, pool\<lparr>pool_nodes := (pool_nodes pool)(p \<mapsto> x\<lparr>mn_last := m + sz\<rparr>)\<rparr>) }
          | None \<Rightarrow> mp_alloc_block blk sz pool }"

text \<open>The loop of \<open>mp_alloc_large\<close>: an entry that can be used again, looked for in the first five.\<close>

partial_function (option) mp_large_scan :: "nat \<Rightarrow> nat \<Rightarrow> mp_pool_s \<Rightarrow> nat option" where
  "mp_large_scan l n pool =
     (if l = 0 then Some 0
      else
        do { x \<leftarrow> pool_larges pool l;
             if ml_alloc x = 0 then Some l
             else if n > 3 then Some 0
             else mp_large_scan (ml_next x) (n + 1) pool })"

declare mp_large_scan.simps [code]

text \<open>\<open>mp_alloc\<close> with \<open>mp_alloc_large\<close>, which calls it again; \<open>mem\<close> are the answers of \<open>malloc\<close>.\<close>

fun mp_alloc :: "nat list \<Rightarrow> nat \<Rightarrow> nat \<Rightarrow> mp_pool_s \<Rightarrow> (nat \<times> mp_pool_s) option" where
  "mp_alloc [] blk sz pool =
     (if sz \<le> pool_max pool then mp_pool_take mp_align_ptr blk sz pool else None)"
| "mp_alloc (p # mem) blk sz pool =
     (if sz \<le> pool_max pool then mp_pool_take mp_align_ptr blk sz pool
      else if p = 0 then Some (0, pool)
      else
        (let pool = pool\<lparr>pool_heap := (pool_heap pool)(p \<mapsto> sz)\<rparr> in
         do { l \<leftarrow> mp_large_scan (pool_large pool) 0 pool;
              if l \<noteq> 0 then
                do { x \<leftarrow> pool_larges pool l;
                     Some (p, pool\<lparr>pool_larges := (pool_larges pool)(l \<mapsto> x\<lparr>ml_alloc := p\<rparr>)\<rparr>) }
              else
                do { (large, pool) \<leftarrow> mp_alloc mem blk sizeof_large pool;
                     if large = 0 then do { pool \<leftarrow> mp_release p pool; Some (0, pool) }
                     else Some (p, pool\<lparr>pool_larges := (pool_larges pool)(large \<mapsto> \<lparr>ml_next = pool_large pool, ml_alloc = p\<rparr>),
                                        pool_large := large\<rparr>) } }))"

text \<open>The second branch of \<open>mp_alloc\<close>, as \<open>mp_nalloc\<close> calls it.\<close>

definition mp_nalloc :: "nat list \<Rightarrow> nat \<Rightarrow> nat \<Rightarrow> mp_pool_s \<Rightarrow> (nat \<times> mp_pool_s) option" where
  "mp_nalloc mem blk sz pool =
     (if sz \<le> pool_max pool then mp_pool_take (\<lambda>m. m) blk sz pool else mp_alloc mem blk sz pool)"

definition mp_memalign :: "nat \<Rightarrow> nat list \<Rightarrow> nat \<Rightarrow> nat \<Rightarrow> mp_pool_s \<Rightarrow> (nat \<times> mp_pool_s) option" where
  "mp_memalign p mem blk sz pool =
     (if p = 0 then Some (0, pool)
      else
        do { (large, pool) \<leftarrow> mp_alloc mem blk sizeof_large (pool\<lparr>pool_heap := (pool_heap pool)(p \<mapsto> sz)\<rparr>);
             if large = 0 then do { pool \<leftarrow> mp_release p pool; Some (0, pool) }
             else Some (p, pool\<lparr>pool_larges := (pool_larges pool)(large \<mapsto> \<lparr>ml_next = pool_large pool, ml_alloc = p\<rparr>),
                                pool_large := large\<rparr>) })"

text \<open>\<open>mp_calloc\<close> also tells which bytes are set to 0.\<close>

definition mp_calloc :: "nat list \<Rightarrow> nat \<Rightarrow> nat \<Rightarrow> mp_pool_s \<Rightarrow> (nat \<times> nat set \<times> mp_pool_s) option" where
  "mp_calloc mem blk sz pool =
     do { (p, pool) \<leftarrow> mp_alloc mem blk sz pool;
          Some (p, if p \<noteq> 0 then {p..<p + sz} else {}, pool) }"

partial_function (option) mp_free_loop :: "nat \<Rightarrow> nat \<Rightarrow> mp_pool_s \<Rightarrow> mp_pool_s option" where
  "mp_free_loop p l pool =
     (if l = 0 then Some pool
      else
        do { x \<leftarrow> pool_larges pool l;
             if p = ml_alloc x then
               do { pool \<leftarrow> (if p = 0 then Some pool else mp_release p pool);
                    Some (pool\<lparr>pool_larges := (pool_larges pool)(l \<mapsto> x\<lparr>ml_alloc := 0\<rparr>)\<rparr>) }
             else mp_free_loop p (ml_next x) pool })"

declare mp_free_loop.simps [code]

definition mp_free :: "nat \<Rightarrow> mp_pool_s \<Rightarrow> mp_pool_s option" where
  "mp_free p pool = mp_free_loop p (pool_large pool) pool"

section \<open>Representation\<close>

text \<open>The fields \<open>last\<close> and \<open>end\<close>, and the field \<open>next\<close>, of the nodes.\<close>

definition mp_view :: "mp_pool_s \<Rightarrow> nat \<Rightarrow> (nat \<times> nat) option" where
  "mp_view pool h = map_option (\<lambda>x. (mn_last x, mn_end x)) (pool_nodes pool h)"

definition mp_nexts :: "mp_pool_s \<Rightarrow> nat \<Rightarrow> nat option" where
  "mp_nexts pool h = map_option mn_next (pool_nodes pool h)"

fun mp_chain :: "(nat \<Rightarrow> nat option) \<Rightarrow> nat list \<Rightarrow> bool" where
  "mp_chain N [] \<longleftrightarrow> True"
| "mp_chain N [h] \<longleftrightarrow> N h = Some 0"
| "mp_chain N (h # k # hs) \<longleftrightarrow> N h = Some k \<and> mp_chain N (k # hs)"

text \<open>Regions (address and size) that do not overlap.\<close>

definition apart :: "nat \<times> nat \<Rightarrow> nat \<times> nat \<Rightarrow> bool" where
  "apart r s \<longleftrightarrow> fst r + snd r \<le> fst s \<or> fst s + snd s \<le> fst r"

fun all_apart :: "(nat \<times> nat) list \<Rightarrow> bool" where
  "all_apart [] \<longleftrightarrow> True"
| "all_apart (r # rs) \<longleftrightarrow> (\<forall>s \<in> set rs. apart r s) \<and> all_apart rs"

text \<open>
  The nodes \<open>ns\<close> of a pool, blocks of \<open>P\<close> bytes with their header, and the regions \<open>rs\<close> handed out: each
  lies in the used part of a block.
\<close>

definition mp_ok :: "nat \<Rightarrow> mp_pool_s \<Rightarrow> nat list \<Rightarrow> (nat \<times> nat) list \<Rightarrow> bool" where
  "mp_ok P pool ns rs \<longleftrightarrow> ns \<noteq> [] \<and> hd ns = pool_head pool \<and> 0 \<notin> set ns \<and> mp_chain (mp_nexts pool) ns \<and>
     pool_current pool \<in> set ns \<and> pool_max pool + 32 \<le> P \<and> all_apart (map (\<lambda>h. (h, P)) ns) \<and> 32 < P \<and>
     (\<forall>h \<in> set ns. \<exists>a. mp_view pool h = Some (a, h + P) \<and> h + 32 \<le> a \<and> a \<le> h + P \<and> h + P < 2 ^ 63) \<and>
     all_apart rs \<and>
     (\<forall>r \<in> set rs. \<exists>h \<in> set ns. \<exists>a e. mp_view pool h = Some (a, e) \<and> h + 32 \<le> fst r \<and> fst r + snd r \<le> a)"

lemma mp_okD:
  assumes "mp_ok P pool ns rs"
  shows "ns \<noteq> []" "hd ns = pool_head pool" "0 \<notin> set ns" "mp_chain (mp_nexts pool) ns" "pool_current pool \<in> set ns"
    "pool_max pool + 32 \<le> P" "all_apart (map (\<lambda>h. (h, P)) ns)" "all_apart rs" "32 < P"
    "\<And>h. h \<in> set ns \<Longrightarrow> \<exists>a. mp_view pool h = Some (a, h + P) \<and> h + 32 \<le> a \<and> a \<le> h + P \<and> h + P < 2 ^ 63"
    "\<And>r. r \<in> set rs \<Longrightarrow> \<exists>h \<in> set ns. \<exists>a e. mp_view pool h = Some (a, e) \<and> h + 32 \<le> fst r \<and> fst r + snd r \<le> a"
  using assms unfolding mp_ok_def by blast+

lemma apart_sym: "apart r s = apart s r"
  by (auto simp: apart_def)

lemma all_apart_snoc: "all_apart (rs @ [r]) \<longleftrightarrow> all_apart rs \<and> (\<forall>s \<in> set rs. apart s r)"
  by (induction rs) auto

lemma all_apart_pair: "all_apart (map f xs) \<Longrightarrow> x \<in> set xs \<Longrightarrow> y \<in> set xs \<Longrightarrow> x \<noteq> y \<Longrightarrow> apart (f x) (f y)"
  by (induction xs) (auto simp: apart_sym)

lemma all_apart_distinct: "all_apart (map (\<lambda>h. (h, P)) ns) \<Longrightarrow> 0 < P \<Longrightarrow> distinct ns"
  by (induction ns) (auto simp: apart_def)

lemma mp_chain_suffix: "mp_chain N (xs @ p # qs) \<Longrightarrow> mp_chain N (p # qs)"
proof (induction xs)
  case (Cons x xs)
  then show ?case by (cases xs) auto
qed simp

lemma mp_chain_cong: "(\<And>h. h \<in> set hs \<Longrightarrow> N' h = N h) \<Longrightarrow> mp_chain N' hs = mp_chain N hs"
  by (induction hs rule: induct_list012) auto

lemma mp_chain_snoc:
  "hs \<noteq> [] \<Longrightarrow> distinct hs \<Longrightarrow> b \<notin> set hs \<Longrightarrow> mp_chain N hs \<Longrightarrow> mp_chain (N(List.last hs \<mapsto> b, b \<mapsto> 0)) (hs @ [b])"
proof (induction hs rule: induct_list012)
  case (3 h k hs)
  have "List.last (k # hs) \<noteq> h" using 3(4) last_in_set [of "k # hs"] by auto
  then show ?case using 3 by auto
qed auto

lemma mp_nodes_Some:
  "mp_view pool h = Some (a, e) \<Longrightarrow> \<exists>x. pool_nodes pool h = Some x \<and> mn_last x = a \<and> mn_end x = e \<and> mp_nexts pool h = Some (mn_next x)"
  by (auto simp: mp_view_def mp_nexts_def)

section \<open>Allocation\<close>

lemma mp_fits_nat:
  assumes "m \<le> e" "e < 2 ^ 63" "sz < 2 ^ 63"
  shows "mp_fits e m sz \<longleftrightarrow> sz \<le> e - m"
proof -
  have "of_int (int e - int m) = (of_nat (e - m) :: u64)" using assms(1) by (simp add: of_nat_diff)
  moreover have "unat (of_nat (e - m) :: u64) = e - m" "unat (of_nat sz :: u64) = sz"
    using assms(2,3) by (auto simp: unat_of_nat)
  ultimately show ?thesis by (simp add: mp_fits_def word_le_nat_alt)
qed

text \<open>
  What the scan finds from a node on, when adjusting keeps \<open>last\<close> within the block.
\<close>

lemma mp_scan_ok:
  "mp_chain (mp_nexts pool) (p # qs) \<Longrightarrow> 0 \<notin> set qs \<Longrightarrow> sz < 2 ^ 63 \<Longrightarrow>
   (\<And>h. h \<in> set (p # qs) \<Longrightarrow> \<exists>a e. mp_view pool h = Some (a, e) \<and> a \<le> adjust a \<and> adjust a \<le> e \<and> e < 2 ^ 63) \<Longrightarrow>
   mp_scan adjust sz p pool = Some None \<or>
   (\<exists>h a e. h \<in> set (p # qs) \<and> mp_view pool h = Some (a, e) \<and> adjust a + sz \<le> e \<and>
      mp_scan adjust sz p pool = Some (Some (h, adjust a)))"
proof (induction qs arbitrary: p)
  case Nil
  obtain a e where v: "mp_view pool p = Some (a, e)" "a \<le> adjust a" "adjust a \<le> e" "e < 2 ^ 63" using Nil.prems(4) [of p] by auto
  obtain x where x: "pool_nodes pool p = Some x" "mn_last x = a" "mn_end x = e" "mp_nexts pool p = Some (mn_next x)"
    using mp_nodes_Some [OF v(1)] by blast
  have "mn_next x = 0" using x(4) Nil.prems(1) by simp
  then show ?case
    using x v mp_fits_nat [OF v(3,4) Nil.prems(3)] by (subst mp_scan.simps, subst (2) mp_scan.simps) auto
next
  case (Cons q qs)
  obtain a e where v: "mp_view pool p = Some (a, e)" "a \<le> adjust a" "adjust a \<le> e" "e < 2 ^ 63" using Cons.prems(4) [of p] by auto
  obtain x where x: "pool_nodes pool p = Some x" "mn_last x = a" "mn_end x = e" "mp_nexts pool p = Some (mn_next x)"
    using mp_nodes_Some [OF v(1)] by blast
  have nx: "mn_next x = q" "q \<noteq> 0" using x(4) Cons.prems(1,2) by auto
  show ?case
  proof (cases "sz \<le> e - adjust a")
    case True
    then have "mp_scan adjust sz p pool = Some (Some (p, adjust a))"
      using x mp_fits_nat [OF v(3,4) Cons.prems(3)] by (subst mp_scan.simps) simp
    then show ?thesis using True v by auto
  next
    case False
    then have "mp_scan adjust sz p pool = mp_scan adjust sz q pool"
      using x nx mp_fits_nat [OF v(3,4) Cons.prems(3)] by (subst mp_scan.simps) simp
    then show ?thesis using Cons.IH [of q] Cons.prems by auto
  qed
qed

text \<open>Taking \<open>sz\<close> bytes at \<open>m\<close>, not before \<open>last\<close>, from a block keeps all regions apart.\<close>

lemma mp_ok_take:
  assumes ok: "mp_ok P pool ns rs" and h: "h \<in> set ns" "pool_nodes pool h = Some x"
    and m: "mn_last x \<le> m" "m + sz \<le> mn_end x"
  shows "mp_ok P (pool\<lparr>pool_nodes := (pool_nodes pool)(h \<mapsto> x\<lparr>mn_last := m + sz\<rparr>)\<rparr>) ns ((m, sz) # rs)"
proof -
  let ?q = "pool\<lparr>pool_nodes := (pool_nodes pool)(h \<mapsto> x\<lparr>mn_last := m + sz\<rparr>)\<rparr>"
  note d = mp_okD [OF ok]
  have view: "mp_view ?q = (mp_view pool)(h \<mapsto> (m + sz, mn_end x))" and nexts: "mp_nexts ?q = mp_nexts pool"
    using h(2) by (auto simp: mp_view_def mp_nexts_def fun_eq_iff)
  have vh: "mp_view pool h = Some (mn_last x, mn_end x)" using h(2) by (simp add: mp_view_def)
  then have hx: "mn_end x = h + P" "h + 32 \<le> mn_last x" "h + P < 2 ^ 63" using d(10) [OF h(1)] by auto
  have blocks: "\<exists>a. mp_view ?q k = Some (a, k + P) \<and> k + 32 \<le> a \<and> a \<le> k + P \<and> k + P < 2 ^ 63" if "k \<in> set ns" for k
    using d(10) [OF that] hx m by (auto simp: view)
  have reg: "\<exists>k \<in> set ns. \<exists>a e. mp_view ?q k = Some (a, e) \<and> k + 32 \<le> fst r \<and> fst r + snd r \<le> a"
    if r0: "r \<in> set ((m, sz) # rs)" for r
  proof (cases "r = (m, sz)")
    case True
    then show ?thesis using h(1) hx m by (intro bexI [of _ h]) (auto simp: view)
  next
    case False
    then obtain k a e where k: "k \<in> set ns" "mp_view pool k = Some (a, e)" "k + 32 \<le> fst r" "fst r + snd r \<le> a"
      using d(11) [of r] r0 by auto
    show ?thesis
    proof (cases "k = h")
      case True
      then have "fst r + snd r \<le> m + sz" using k vh m by auto
      then show ?thesis using k(1,3) True by (intro bexI [of _ h]) (auto simp: view)
    next
      case False
      then show ?thesis using k by (intro bexI [of _ k]) (auto simp: view)
    qed
  qed
  have "apart (m, sz) r" if r: "r \<in> set rs" for r
  proof -
    obtain k a e where k: "k \<in> set ns" "mp_view pool k = Some (a, e)" "k + 32 \<le> fst r" "fst r + snd r \<le> a"
      using d(11) [OF r] by blast
    show ?thesis
    proof (cases "k = h")
      case True
      then show ?thesis using k vh m by (auto simp: apart_def)
    next
      case False
      have "apart (k, P) (h, P)" using all_apart_pair [OF d(7) k(1) h(1) False] by simp
      moreover have "a \<le> k + P" using d(10) [OF k(1)] k(2) by auto
      ultimately show ?thesis using k(3,4) m hx by (auto simp: apart_def)
    qed
  qed
  then have ap: "all_apart ((m, sz) # rs)" using d(8) by simp
  have hd: "pool_head ?q = pool_head pool" "pool_current ?q = pool_current pool" "pool_max ?q = pool_max pool"
    by (simp_all add: pool_head_def)
  show ?thesis
    unfolding mp_ok_def nexts hd using d(1-7,9) ap blocks reg by blast
qed

text \<open>The loop of \<open>mp_alloc_block\<close> only counts failures and finds the last node.\<close>

lemma mp_block_loop_ok:
  "mp_chain (mp_nexts pool) (p # qs) \<Longrightarrow> 0 \<notin> set qs \<Longrightarrow>
   \<exists>cur' pool'. mp_block_loop p cur pool = Some (List.last (p # qs), cur', pool') \<and> (cur' = cur \<or> cur' \<in> set qs) \<and>
     mp_view pool' = mp_view pool \<and> mp_nexts pool' = mp_nexts pool \<and> pool_base pool' = pool_base pool \<and>
     pool_max pool' = pool_max pool \<and> pool_heap pool' = pool_heap pool"
proof (induction qs arbitrary: p cur pool)
  case Nil
  then obtain x where "pool_nodes pool p = Some x" "mn_next x = 0" by (auto simp: mp_nexts_def)
  then show ?case by (subst mp_block_loop.simps) simp
next
  case (Cons q qs)
  then obtain x where x: "pool_nodes pool p = Some x" "mn_next x = q" "q \<noteq> 0" by (auto simp: mp_nexts_def)
  let ?pool = "pool\<lparr>pool_nodes := (pool_nodes pool)(p \<mapsto> x\<lparr>mn_failed := mn_failed x + 1\<rparr>)\<rparr>"
  let ?cur = "if mn_failed x > 4 then q else cur"
  have same: "mp_view ?pool = mp_view pool" "mp_nexts ?pool = mp_nexts pool"
    using x(1) by (auto simp: mp_view_def mp_nexts_def fun_eq_iff)
  have "mp_block_loop p cur pool = mp_block_loop q ?cur ?pool" using x by (subst mp_block_loop.simps) simp
  moreover obtain cur' pool' where "mp_block_loop q ?cur ?pool = Some (List.last (q # qs), cur', pool')"
      "cur' = ?cur \<or> cur' \<in> set qs" "mp_view pool' = mp_view ?pool" "mp_nexts pool' = mp_nexts ?pool" "pool_base pool' = pool_base pool"
      "pool_max pool' = pool_max pool" "pool_heap pool' = pool_heap pool"
    using Cons.IH [of ?pool q ?cur] Cons.prems same by auto
  ultimately show ?case unfolding same by auto
qed

text \<open>A block for the pool: aligned, and apart from the blocks it has.\<close>

definition mp_fresh :: "nat \<Rightarrow> nat \<Rightarrow> nat list \<Rightarrow> bool" where
  "mp_fresh P blk ns \<longleftrightarrow> blk \<noteq> 0 \<and> blk mod 32 = 0 \<and> blk + P < 2 ^ 63 \<and> (\<forall>h \<in> set ns. apart (h, P) (blk, P))"

lemma mp_align_ptr_nat: "p < 2 ^ 63 \<Longrightarrow> mp_align_ptr p = 32 * ((p + 31) div 32)"
proof -
  assume p: "p < 2 ^ 63"
  have "unat (w AND NOT 31 :: u64) = 32 * (unat w div 32)" for w
  proof -
    have "NOT w AND (w AND 31) = 0" by (simp add: and.assoc [symmetric])
    then have "w - (w AND 31) = w AND NOT (w AND 31)" by (rule disjunctive_diff_eq_and_not)
    also have "\<dots> = w AND NOT 31" by (simp add: bit.de_Morgan_conj bit.conj_disj_distrib)
    finally have "w AND NOT 31 = w - (w AND 31)" ..
    moreover have u: "unat (w AND 31) = unat w mod 32" using and_mask_word [of w 5] by simp
    moreover have "w AND 31 \<le> w" using u by (simp add: word_le_nat_alt)
    ultimately show ?thesis by (simp add: unat_sub minus_mod_eq_mult_div)
  qed
  moreover have "unat (of_nat p + 31 :: u64) = p + 31"
  proof -
    have "(of_nat p + 31 :: u64) = of_nat (p + 31)" by simp
    then show ?thesis using p by (simp only: unat_of_nat) (simp add: take_bit_nat_eq_self)
  qed
  ultimately show ?thesis by (simp add: mp_align_ptr_def mp_align_def MP_ALIGNMENT_def)
qed

lemma mp_align_ptr_ge: "p < 2 ^ 63 \<Longrightarrow> p \<le> mp_align_ptr p \<and> mp_align_ptr p mod 32 = 0 \<and> mp_align_ptr p < p + 32"
  by (simp add: mp_align_ptr_nat) presburger

lemma mp_align_ptr_aligned: "p mod 32 = 0 \<Longrightarrow> p < 2 ^ 63 \<Longrightarrow> mp_align_ptr p = p"
  by (simp add: mp_align_ptr_nat) presburger

lemma mp_alloc_block_ok:
  assumes ok: "mp_ok P pool ns rs" and fr: "mp_fresh P blk ns" and sz: "sz \<le> pool_max pool"
  shows "\<exists>pool'. mp_alloc_block blk sz pool = Some (blk + 32, pool') \<and> mp_ok P pool' (ns @ [blk]) ((blk + 32, sz) # rs)"
proof -
  note d = mp_okD [OF ok] and f = fr [unfolded mp_fresh_def]
  have hd: "pool_head pool \<in> set ns" using d(1,2) by (metis hd_in_set)
  obtain a where v: "mp_view pool (pool_head pool) = Some (a, pool_head pool + P)" using d(10) [OF hd] by blast
  obtain x0 where x0: "pool_nodes pool (pool_head pool) = Some x0" "mn_end x0 = pool_head pool + P"
    using mp_nodes_Some [OF v] by blast
  have m: "mp_align_ptr (blk + sizeof_node) = blk + 32"
    using f d(9) by (auto simp: sizeof_node_def intro!: mp_align_ptr_aligned)
  have dist: "distinct ns" using all_apart_distinct [OF d(7)] d(9) by simp
  have new: "blk \<notin> set ns" using f d(9) by (auto simp: apart_def)
  let ?node = "\<lparr>mn_last = blk + 32 + sz, mn_end = blk + P, mn_next = 0, mn_failed = 0\<rparr>"
  let ?q = "pool\<lparr>pool_nodes := (pool_nodes pool)(blk \<mapsto> ?node), pool_heap := (pool_heap pool)(blk \<mapsto> P)\<rparr>"
  have qv: "mp_view ?q = (mp_view pool)(blk \<mapsto> (blk + 32 + sz, blk + P))" "mp_nexts ?q = (mp_nexts pool)(blk \<mapsto> 0)"
    by (auto simp: mp_view_def mp_nexts_def fun_eq_iff)
  obtain xs qs where ns: "ns = xs @ pool_current pool # qs" using d(5) by (meson split_list)
  have "mp_nexts ?q h = mp_nexts pool h" if "h \<in> set ns" for h using that new by (auto simp: qv)
  then have "mp_chain (mp_nexts ?q) ns" using d(4) mp_chain_cong by blast
  then have ch: "mp_chain (mp_nexts ?q) (pool_current pool # qs)" unfolding ns by (rule mp_chain_suffix)
  have "0 \<notin> set qs" using d(3) ns by auto
  from mp_block_loop_ok [OF ch this, of "pool_current pool"] obtain cur q1 where
    q1: "mp_block_loop (pool_current pool) (pool_current pool) ?q = Some (List.last (pool_current pool # qs), cur, q1)"
      "cur = pool_current pool \<or> cur \<in> set qs" "mp_view q1 = mp_view ?q" "mp_nexts q1 = mp_nexts ?q" "pool_base q1 = pool_base pool"
      "pool_max q1 = pool_max pool" by auto
  have last: "List.last (pool_current pool # qs) = List.last ns" by (simp add: ns)
  have "cur \<in> set ns" using q1(2) ns by auto
  then have cur: "cur \<in> set ns" "cur \<noteq> 0" using d(3) by metis+
  have lin: "List.last ns \<in> set ns" using d(1) by simp
  then have "List.last ns \<noteq> blk" using new by metis
  then obtain b where "mp_view q1 (List.last ns) = Some (b, List.last ns + P)" using d(10) [OF lin] by (auto simp: q1(3) qv)
  then obtain y where y: "pool_nodes q1 (List.last ns) = Some y" using mp_nodes_Some by blast
  let ?r = "q1\<lparr>pool_nodes := (pool_nodes q1)(List.last ns \<mapsto> y\<lparr>mn_next := blk\<rparr>), pool_current := cur\<rparr>"
  have res: "mp_alloc_block blk sz pool = Some (blk + 32, ?r)"
    using x0 m f q1(1) [unfolded last] y cur(2) by (simp add: mp_alloc_block_def)
  have "mp_view ?r = mp_view q1" "mp_nexts ?r = (mp_nexts q1)(List.last ns \<mapsto> blk)"
    using y by (auto simp: mp_view_def mp_nexts_def fun_eq_iff)
  then have rv: "mp_view ?r = (mp_view pool)(blk \<mapsto> (blk + 32 + sz, blk + P))"
    "mp_nexts ?r = ((mp_nexts pool)(blk \<mapsto> 0))(List.last ns \<mapsto> blk)"
    by (simp_all add: q1(3,4) qv)
  have blocks: "\<exists>a. mp_view ?r k = Some (a, k + P) \<and> k + 32 \<le> a \<and> a \<le> k + P \<and> k + P < 2 ^ 63" if "k \<in> set (ns @ [blk])" for k
    using that d(6) d(10) [of k] sz f by (auto simp: rv)
  have reg: "\<exists>k \<in> set (ns @ [blk]). \<exists>a e. mp_view ?r k = Some (a, e) \<and> k + 32 \<le> fst r \<and> fst r + snd r \<le> a"
    if r0: "r \<in> set ((blk + 32, sz) # rs)" for r
  proof (cases "r = (blk + 32, sz)")
    case True
    then show ?thesis by (intro bexI [of _ blk]) (auto simp: rv)
  next
    case False
    then obtain k a e where k: "k \<in> set ns" "mp_view pool k = Some (a, e)" "k + 32 \<le> fst r" "fst r + snd r \<le> a"
      using d(11) [of r] r0 by auto
    then show ?thesis using new by (intro bexI [of _ k]) (auto simp: rv)
  qed
  have "apart (blk + 32, sz) r" if r: "r \<in> set rs" for r
  proof -
    obtain k a e where k: "k \<in> set ns" "mp_view pool k = Some (a, e)" "k + 32 \<le> fst r" "fst r + snd r \<le> a"
      using d(11) [OF r] by blast
    have "apart (k, P) (blk, P)" using f k(1) by blast
    moreover have "a \<le> k + P" using d(10) [OF k(1)] k(2) by auto
    ultimately show ?thesis using k(3,4) d(6) sz by (auto simp: apart_def)
  qed
  moreover have "mp_chain (mp_nexts ?r) (ns @ [blk])"
    using mp_chain_snoc [OF d(1) dist new d(4)] new lin unfolding rv by (metis fun_upd_twist)
  moreover have "all_apart (map (\<lambda>h. (h, P)) (ns @ [blk]))" using d(7) f by (auto simp: all_apart_snoc)
  ultimately have "mp_ok P ?r (ns @ [blk]) ((blk + 32, sz) # rs)"
    unfolding mp_ok_def using d(1-3,6,8,9) blocks reg cur(1) f q1(5,6) by (auto simp: pool_head_def)
  then show ?thesis using res by blast
qed

lemma mp_pool_take_ok:
  assumes ok: "mp_ok P pool ns rs" and fr: "mp_fresh P blk ns" and sz: "sz \<le> pool_max pool"
    and adj: "\<And>h a e. h \<in> set ns \<Longrightarrow> mp_view pool h = Some (a, e) \<Longrightarrow> a \<le> adjust a \<and> adjust a \<le> e"
  shows "\<exists>m pool' ns'. mp_pool_take adjust blk sz pool = Some (m, pool') \<and> mp_ok P pool' ns' ((m, sz) # rs) \<and>
    (m = blk + 32 \<or> (\<exists>h \<in> set ns. \<exists>a e. mp_view pool h = Some (a, e) \<and> m = adjust a))"
proof -
  note d = mp_okD [OF ok]
  obtain xs qs where ns: "ns = xs @ pool_current pool # qs" using d(5) by (meson split_list)
  have ch: "mp_chain (mp_nexts pool) (pool_current pool # qs)" using d(4) unfolding ns by (rule mp_chain_suffix)
  have P: "P < 2 ^ 63" using d(10) [OF d(5)] by auto
  have "\<exists>a e. mp_view pool h = Some (a, e) \<and> a \<le> adjust a \<and> adjust a \<le> e \<and> e < 2 ^ 63" if "h \<in> set (pool_current pool # qs)" for h
    using d(10) [of h] adj [of h] that ns by auto
  from mp_scan_ok [OF ch _ _ this, of sz] have "mp_scan adjust sz (pool_current pool) pool = Some None \<or>
     (\<exists>h a e. h \<in> set (pool_current pool # qs) \<and> mp_view pool h = Some (a, e) \<and> adjust a + sz \<le> e \<and>
        mp_scan adjust sz (pool_current pool) pool = Some (Some (h, adjust a)))"
    using d(3,6) ns sz P by auto
  then show ?thesis
  proof
    assume "mp_scan adjust sz (pool_current pool) pool = Some None"
    then show ?thesis using mp_alloc_block_ok [OF ok fr sz] by (auto simp: mp_pool_take_def)
  next
    assume "\<exists>h a e. h \<in> set (pool_current pool # qs) \<and> mp_view pool h = Some (a, e) \<and> adjust a + sz \<le> e \<and>
        mp_scan adjust sz (pool_current pool) pool = Some (Some (h, adjust a))"
    then obtain h a e where h: "h \<in> set ns" "mp_view pool h = Some (a, e)" "adjust a + sz \<le> e"
        "mp_scan adjust sz (pool_current pool) pool = Some (Some (h, adjust a))" using ns by auto
    obtain x where x: "pool_nodes pool h = Some x" "mn_last x = a" "mn_end x = e" using mp_nodes_Some [OF h(2)] by blast
    have "mp_pool_take adjust blk sz pool =
        Some (adjust a, pool\<lparr>pool_nodes := (pool_nodes pool)(h \<mapsto> x\<lparr>mn_last := adjust a + sz\<rparr>)\<rparr>)"
      using h(4) x(1) by (simp add: mp_pool_take_def)
    moreover have "mp_ok P (pool\<lparr>pool_nodes := (pool_nodes pool)(h \<mapsto> x\<lparr>mn_last := adjust a + sz\<rparr>)\<rparr>) ns ((adjust a, sz) # rs)"
      using adj [OF h(1,2)] h(3) x by (intro mp_ok_take [OF ok h(1) x(1)]) auto
    ultimately show ?thesis using h(1,2) by blast
  qed
qed

lemma mp_alloc_small: "sz \<le> pool_max pool \<Longrightarrow> mp_alloc mem blk sz pool = mp_pool_take mp_align_ptr blk sz pool"
  by (cases mem) simp_all

text \<open>In every block the aligned \<open>last\<close> is still in the block.\<close>

definition mp_roomy :: "mp_pool_s \<Rightarrow> nat list \<Rightarrow> bool" where
  "mp_roomy pool ns \<longleftrightarrow> (\<forall>h \<in> set ns. \<forall>a e. mp_view pool h = Some (a, e) \<longrightarrow> mp_align_ptr a \<le> e)"

lemma mp_create_ok:
  assumes "mp_create_pool p 0 sz = Some pool" "0 < sz" "p + sz + 56 < 2 ^ 63"
  shows "mp_ok (sz + 32) pool [p + 24] []"
proof -
  have "p \<noteq> 0" using assms(1) by (auto simp: mp_create_pool_def split: if_splits)
  then show ?thesis
    using assms by (auto simp: mp_create_pool_def Let_def mp_ok_def pool_head_def mp_view_def mp_nexts_def
        sizeof_pool_def sizeof_node_def split: if_splits)
qed

section \<open>Allocation from the block of a new pool\<close>

text \<open>
  A request: by \<open>mp_alloc\<close> or by \<open>mp_nalloc\<close>, its size, and what the system would answer (for memory that the
  pool does not have). The requests are served one after the other.
\<close>

type_synonym mp_request = "(bool \<times> nat) \<times> nat list \<times> nat"

fun mp_serve :: "mp_request list \<Rightarrow> mp_pool_s \<Rightarrow> (nat list \<times> mp_pool_s) option" where
  "mp_serve [] pool = Some ([], pool)"
| "mp_serve (((aligned, sz), mem, blk) # rs) pool =
     do { (m, pool) \<leftarrow> (if aligned then mp_alloc mem blk sz pool else mp_nalloc mem blk sz pool);
          (ms, pool) \<leftarrow> mp_serve rs pool;
          Some (m # ms, pool) }"

text \<open>What is expected: each request gets the next address from \<open>a\<close> on, rounded up to 32 bytes if \<open>mp_alloc\<close> serves it.\<close>

fun bump :: "nat \<Rightarrow> (bool \<times> nat) list \<Rightarrow> (nat \<times> nat) list" where
  "bump a [] = []"
| "bump a ((aligned, sz) # rs) =
     (let m = (if aligned then 32 * ((a + 31) div 32) else a) in (m, sz) # bump (m + sz) rs)"

fun bump_end :: "nat \<Rightarrow> (bool \<times> nat) list \<Rightarrow> nat" where
  "bump_end a [] = a"
| "bump_end a ((aligned, sz) # rs) = bump_end ((if aligned then 32 * ((a + 31) div 32) else a) + sz) rs"

lemma round_up_ge: "a \<le> 32 * ((a + 31) div 32)" for a :: nat
  by presburger

lemma bump_end_ge: "a \<le> bump_end a rs"
proof (induction a rs rule: bump_end.induct)
  case (2 a aligned sz rs)
  then show ?case using round_up_ge [of a] by (auto intro: order_trans [rotated])
qed simp

lemma bump_regions: "(m, sz) \<in> set (bump a rs) \<Longrightarrow> a \<le> m \<and> m + sz \<le> bump_end a rs"
proof (induction a rs rule: bump.induct)
  case (2 a aligned n rs)
  let ?m = "if aligned then 32 * ((a + 31) div 32) else a"
  have "a \<le> ?m" using round_up_ge [of a] by simp
  moreover have "?m + n \<le> bump_end (?m + n) rs" by (rule bump_end_ge)
  ultimately show ?case using 2 by (fastforce simp: Let_def)
qed simp

lemma bump_apart: "all_apart (bump a rs)"
proof (induction a rs rule: bump.induct)
  case (2 a aligned n rs)
  then show ?case by (auto simp: Let_def apart_def dest!: bump_regions)
qed simp

lemma bump_aligned: "list_all2 (\<lambda>(m, n) (aligned, sz). n = sz \<and> (aligned \<longrightarrow> m mod 32 = 0)) (bump a rs) rs"
  by (induction a rs rule: bump.induct) (simp_all add: Let_def)

lemma mp_pool_take_room:
  assumes "pool_nodes pool (pool_current pool) = Some x" "adjust (mn_last x) + sz \<le> mn_end x" "mn_end x < 2 ^ 63"
  shows "mp_pool_take adjust blk sz pool = Some (adjust (mn_last x),
    pool\<lparr>pool_nodes := (pool_nodes pool)(pool_current pool \<mapsto> x\<lparr>mn_last := adjust (mn_last x) + sz\<rparr>)\<rparr>)"
proof -
  have "mp_fits (mn_end x) (adjust (mn_last x)) sz" using assms(2,3) by (subst mp_fits_nat) simp_all
  then show ?thesis using assms(1) by (simp add: mp_pool_take_def mp_scan.simps)
qed

lemma mp_serve_bump:
  assumes "pool_nodes pool (pool_current pool) = Some x" "mn_end x < 2 ^ 63"
    and "bump_end (mn_last x) (map fst rs) \<le> mn_end x" "\<forall>((aligned, sz), mem, blk) \<in> set rs. sz \<le> pool_max pool"
  shows "\<exists>pool'. mp_serve rs pool = Some (map fst (bump (mn_last x) (map fst rs)), pool') \<and>
    pool_heap pool' = pool_heap pool \<and> pool_large pool' = pool_large pool"
  using assms
proof (induction rs arbitrary: pool x)
  case (Cons r rs)
  obtain aligned sz mem blk where r: "r = ((aligned, sz), mem, blk)" by (metis prod.exhaust)
  let ?adj = "if aligned then mp_align_ptr else (\<lambda>m. m)"
  let ?m = "if aligned then 32 * ((mn_last x + 31) div 32) else mn_last x"
  let ?pool = "pool\<lparr>pool_nodes := (pool_nodes pool)(pool_current pool \<mapsto> x\<lparr>mn_last := ?m + sz\<rparr>)\<rparr>"
  have en: "bump_end (?m + sz) (map fst rs) \<le> mn_end x" using Cons.prems(3) r by simp
  then have fit: "?m + sz \<le> mn_end x" using bump_end_ge [of "?m + sz" "map fst rs"] by linarith
  have "mn_last x \<le> ?m" using round_up_ge [of "mn_last x"] by simp
  then have "?adj (mn_last x) = ?m" using fit Cons.prems(2) by (simp add: mp_align_ptr_nat)
  then have t: "mp_pool_take ?adj blk sz pool = Some (?m, ?pool)"
    using mp_pool_take_room [OF Cons.prems(1), of ?adj sz blk] fit Cons.prems(2) by simp
  have "sz \<le> pool_max pool" using Cons.prems(4) r by simp
  then have 1: "(if aligned then mp_alloc mem blk sz pool else mp_nalloc mem blk sz pool) = Some (?m, ?pool)"
    using t mp_alloc_small [of sz pool mem blk] by (cases aligned) (simp_all add: mp_nalloc_def)
  obtain pool' where 2: "mp_serve rs ?pool = Some (map fst (bump (?m + sz) (map fst rs)), pool')"
      "pool_heap pool' = pool_heap pool" "pool_large pool' = pool_large pool"
    using Cons.IH [of ?pool "x\<lparr>mn_last := ?m + sz\<rparr>"] Cons.prems(2,4) en by auto
  show ?case unfolding r using 1 2 by (simp add: Let_def)
qed simp

section \<open>Properties\<close>

text \<open>
  C19: Requests of at most \<open>max\<close> bytes to a new pool, whatever the memory of the pool contained, that fit into
  its block are served from this block: each gets the next free address, rounded up to a multiple of 32 for
  \<open>mp_alloc\<close>; so the memory handed out lies within the \<open>sz\<close> bytes of the block, no two regions overlap, and
  nothing is allocated from the system.
\<close>

theorem mp_new_pool_serves:
  assumes "mp_create_pool p junk sz = Some pool" and "p + sz + 56 < 2 ^ 63"
    and "\<forall>((aligned, n), mem, blk) \<in> set rs. n \<le> pool_max pool"
    and "bump_end (p + 56) (map fst rs) \<le> p + 56 + sz"
  shows "\<exists>pool'. mp_serve rs pool = Some (map fst (bump (p + 56) (map fst rs)), pool') \<and>
    pool_heap pool' = pool_heap pool \<and> pool_large pool' = 0 \<and>
    (\<forall>(m, n) \<in> set (bump (p + 56) (map fst rs)). p + 56 \<le> m \<and> m + n \<le> p + 56 + sz) \<and>
    all_apart (bump (p + 56) (map fst rs)) \<and>
    list_all2 (\<lambda>(m, n) (aligned, k). n = k \<and> (aligned \<longrightarrow> m mod 32 = 0)) (bump (p + 56) (map fst rs)) (map fst rs)"
proof -
  have "\<exists>x. pool_nodes pool (pool_current pool) = Some x \<and> mn_last x = p + 56 \<and> mn_end x = p + 56 + sz \<and> pool_large pool = 0"
    using assms(1) by (auto simp: mp_create_pool_def Let_def sizeof_pool_def sizeof_node_def split: if_splits)
  then obtain x where x: "pool_nodes pool (pool_current pool) = Some x" "mn_last x = p + 56" "mn_end x = p + 56 + sz"
      "pool_large pool = 0" by blast
  show ?thesis
    using mp_serve_bump [OF x(1), of rs] x assms(2-4) bump_regions bump_apart bump_aligned
    by (fastforce intro: order_trans)
qed

theorem mp_new_pool_serves_witness:
  "\<exists>pool pool'. mp_create_pool 4096 77 4096 = Some pool \<and>
    mp_serve [((True, 512), [], 0), ((True, 100), [], 0), ((False, 5), [], 0), ((True, 3400), [], 0)] pool =
      Some ([4160, 4672, 4772, 4800], pool') \<and> pool_heap pool' = pool_heap pool"
proof -
  let ?rs = "[((True, 512), [], 0), ((True, 100), [], 0), ((False, 5), [], 0), ((True, 3400), [], 0)] :: mp_request list"
  obtain pool where p: "mp_create_pool 4096 77 4096 = Some pool" "pool_max pool = 4095"
    by (simp add: mp_create_pool_def Let_def MP_MAX_ALLOC_FROM_POOL_def MP_PAGE_SIZE_def)
  show ?thesis using mp_new_pool_serves [OF p(1), of ?rs] p by (auto simp: Let_def)
qed

text \<open>
  In a pool whose first node has been given a null \<open>next\<close> (\<open>mp_create_pool\<close> leaves it unset), and with a
  block from the system at hand, \<open>mp_nalloc\<close>, and \<open>mp_alloc\<close> if in no block the aligned \<open>last\<close> lies
  behind the end, return memory of a block of the pool that does not overlap anything handed out before, \<open>mp_alloc\<close>
  with the alignment of 32 bytes; the pool stays well formed.
\<close>

theorem mp_alloc_safe:
  assumes "mp_ok P pool ns rs" and "mp_fresh P blk ns" and "sz \<le> pool_max pool"
  shows "(\<exists>m pool' ns'. mp_nalloc mem blk sz pool = Some (m, pool') \<and> mp_ok P pool' ns' ((m, sz) # rs)) \<and>
    (mp_roomy pool ns \<longrightarrow>
      (\<exists>m pool' ns'. mp_alloc mem blk sz pool = Some (m, pool') \<and> m mod 32 = 0 \<and> mp_ok P pool' ns' ((m, sz) # rs)))"
proof
  have "a \<le> e" if "h \<in> set ns" "mp_view pool h = Some (a, e)" for h a e
    using mp_okD(10) [OF assms(1) that(1)] that(2) by auto
  then show "\<exists>m pool' ns'. mp_nalloc mem blk sz pool = Some (m, pool') \<and> mp_ok P pool' ns' ((m, sz) # rs)"
    using mp_pool_take_ok [OF assms, of "\<lambda>m. m"] assms(3) unfolding mp_nalloc_def by fastforce
  show "mp_roomy pool ns \<longrightarrow>
      (\<exists>m pool' ns'. mp_alloc mem blk sz pool = Some (m, pool') \<and> m mod 32 = 0 \<and> mp_ok P pool' ns' ((m, sz) # rs))"
  proof
    assume roomy: "mp_roomy pool ns"
    have al: "a \<le> mp_align_ptr a \<and> mp_align_ptr a mod 32 = 0" if "h \<in> set ns" "mp_view pool h = Some (a, e)" for h a e
      using mp_okD(10) [OF assms(1) that(1)] that(2) mp_align_ptr_ge [of a] by auto
    then obtain m pool' ns' where m: "mp_pool_take mp_align_ptr blk sz pool = Some (m, pool')" "mp_ok P pool' ns' ((m, sz) # rs)"
        "m = blk + 32 \<or> (\<exists>h \<in> set ns. \<exists>a e. mp_view pool h = Some (a, e) \<and> m = mp_align_ptr a)"
      using mp_pool_take_ok [OF assms, of mp_align_ptr] roomy unfolding mp_roomy_def by blast
    moreover have "m mod 32 = 0" using m(3) al assms(2) by (auto simp: mp_fresh_def mod_add_self2)
    ultimately show "\<exists>m pool' ns'. mp_alloc mem blk sz pool = Some (m, pool') \<and> m mod 32 = 0 \<and> mp_ok P pool' ns' ((m, sz) # rs)"
      using mp_alloc_small [OF assms(3)] by auto
  qed
qed

theorem mp_alloc_safe_witness:
  "\<exists>pool m pool' ns'. mp_create_pool 4096 0 4096 = Some pool \<and> mp_alloc [] 16384 512 pool = Some (m, pool') \<and> m mod 32 = 0 \<and>
    mp_ok 4128 pool' ns' [(m, 512)]"
proof -
  obtain pool where p: "mp_create_pool 4096 0 4096 = Some pool" by (simp add: mp_create_pool_def Let_def)
  have ok: "mp_ok 4128 pool [4120] []" using mp_create_ok [OF p] by simp
  have v: "mp_view pool 4120 = Some (4152, 8248)" "pool_max pool = 4095"
    using p by (auto simp: mp_create_pool_def Let_def mp_view_def sizeof_pool_def sizeof_node_def
        MP_MAX_ALLOC_FROM_POOL_def MP_PAGE_SIZE_def)
  have "mp_roomy pool [4120]" "mp_fresh 4128 16384 [4120]"
    by (simp_all add: mp_roomy_def v mp_align_ptr_nat mp_fresh_def apart_def)
  then show ?thesis using mp_alloc_safe [OF ok, of 16384 512 "[]"] p v(2) by auto
qed

text \<open>
  When the aligned \<open>last\<close> lies behind the end, the difference of the pointers is negative and taken for a huge size:
  in a pool of 4096 bytes, after an allocation of 4088 bytes, the next one returns an address behind the pool's memory.
\<close>

theorem mp_alloc_overrun:
  "\<exists>pool pool1 pool2. mp_create_pool 4096 0 4096 = Some pool \<and> mp_alloc [] 0 4088 pool = Some (4160, pool1) \<and>
    mp_alloc [] 0 100 pool1 = Some (8256, pool2) \<and> pool_heap pool2 = [4096 \<mapsto> 4152]"
proof -
  let ?pool = "\<lparr>pool_base = 4096, pool_max = 4095, pool_current = 4120, pool_large = 0,
      pool_nodes = [4120 \<mapsto> \<lparr>mn_last = 4152, mn_end = 8248, mn_next = 0, mn_failed = 0\<rparr>],
      pool_larges = (\<lambda>_. None), pool_heap = [4096 \<mapsto> 4152]\<rparr>"
  have c: "mp_create_pool 4096 0 4096 = Some ?pool"
    by (simp add: mp_create_pool_def Let_def sizeof_pool_def sizeof_node_def MP_MAX_ALLOC_FROM_POOL_def MP_PAGE_SIZE_def)
  have al: "mp_align_ptr 4152 = 4160" "mp_align_ptr 8248 = 8256" by (simp_all add: mp_align_ptr_nat)
  have f1: "mp_fits 8248 4160 4088" by (simp add: mp_fits_nat)
  have f2: "mp_fits 8248 8256 100" by (simp add: mp_fits_def word_le_nat_alt unsigned_minus_1_eq_mask)
  let ?pool1 = "?pool\<lparr>pool_nodes := [4120 \<mapsto> \<lparr>mn_last = 8248, mn_end = 8248, mn_next = 0, mn_failed = 0\<rparr>]\<rparr>"
  have a1: "mp_alloc [] 0 4088 ?pool = Some (4160, ?pool1)"
    using al(1) f1 by (simp add: mp_pool_take_def mp_scan.simps)
  have "\<exists>pool2. mp_alloc [] 0 100 ?pool1 = Some (8256, pool2) \<and> pool_heap pool2 = [4096 \<mapsto> 4152]"
    using al(2) f2 by (simp add: mp_pool_take_def mp_scan.simps)
  then show ?thesis using c a1 by blast
qed

end
