(* ===== verification/BlockPool.thy ===== *)
theory BlockPool
  imports Prelude
begin

text \<open>
  The pool of equal blocks of \<^verbatim>\<open>mempool/mm_pool.c\<close>: one page whose free blocks are linked through their
  first bytes. A pointer into the page is its offset; \<open>bp_cells\<close> has the pointers stored in the page, by
  offset (\<open>None\<close> as a stored pointer is null). A pointer is stored only if its 8 bytes are in the page, and it
  destroys the pointers it overlaps; an access outside the page, and a pointer read where none is stored, has no
  result. The page starts with zeros, which read as null.
\<close>

section \<open>Model\<close>

definition MEM_PAGE_SIZE :: int where "MEM_PAGE_SIZE = 4096"

record mempool_t =
  bp_blocksize :: int
  bp_freecount :: int
  bp_free_ptr :: "int option"
  bp_cells :: "int \<Rightarrow> int option option"

definition bp_store :: "int \<Rightarrow> int option \<Rightarrow> mempool_t \<Rightarrow> mempool_t option" where
  "bp_store p v m =
     (if 0 \<le> p \<and> p + 8 \<le> MEM_PAGE_SIZE
      then Some (m\<lparr>bp_cells := (\<lambda>q. if q = p then Some v else if \<bar>q - p\<bar> < 8 then None else bp_cells m q)\<rparr>)
      else None)"

definition bp_load :: "int \<Rightarrow> mempool_t \<Rightarrow> int option option" where
  "bp_load p m = (if 0 \<le> p \<and> p + 8 \<le> MEM_PAGE_SIZE then bp_cells m p else None)"

text \<open>The loop of \<open>memp_create\<close>, with \<open>n\<close> rounds left, and the store after it.\<close>

fun memp_link :: "nat \<Rightarrow> int \<Rightarrow> mempool_t \<Rightarrow> mempool_t option" where
  "memp_link 0 p m = bp_store p None m"
| "memp_link (Suc n) p m =
     do { m \<leftarrow> bp_store p (Some (p + bp_blocksize m)) m; memp_link n (p + bp_blocksize m) m }"

text \<open>
  The result and the pool, which may be null; \<open>ok\<close> tells whether \<open>malloc\<close> succeeds. The other operations are
  modelled for a pool that is not null.
\<close>

definition memp_create :: "bool \<Rightarrow> int \<Rightarrow> mempool_t option \<Rightarrow> (int \<times> mempool_t option) option" where
  "memp_create ok block_size pool =
     (case pool of
        None \<Rightarrow> Some (- 1, None)
      | Some m \<Rightarrow>
          (let m = m\<lparr>bp_blocksize := block_size, bp_freecount := MEM_PAGE_SIZE\<rparr> in
           if \<not> ok then Some (- 2, Some m)
           else
             do { m \<leftarrow> memp_link (nat (bp_freecount m)) 0 (m\<lparr>bp_cells := (\<lambda>_. Some None), bp_free_ptr := Some 0\<rparr>);
                  Some (0, Some m) }))"

text \<open>The inner option of the result is the returned pointer.\<close>

definition memp_alloc :: "mempool_t \<Rightarrow> (int option \<times> mempool_t) option" where
  "memp_alloc m =
     (if bp_freecount m = 0 then Some (None, m)
      else
        do { p \<leftarrow> bp_free_ptr m;
             next \<leftarrow> bp_load p m;
             Some (Some p, m\<lparr>bp_free_ptr := next, bp_freecount := bp_freecount m - 1\<rparr>) })"

definition memp_free :: "int \<Rightarrow> mempool_t \<Rightarrow> mempool_t option" where
  "memp_free p m =
     do { m \<leftarrow> bp_store p (bp_free_ptr m) m;
          Some (m\<lparr>bp_free_ptr := Some p, bp_freecount := bp_freecount m + 1\<rparr>) }"

section \<open>Facts\<close>

lemma memp_link_overrun: "0 < bp_blocksize m \<Longrightarrow> MEM_PAGE_SIZE < p + int n + 8 \<Longrightarrow> memp_link n p m = None"
proof (induction n arbitrary: p m)
  case 0
  then show ?case by (simp add: bp_store_def)
next
  case (Suc n)
  have "memp_link n (p + bp_blocksize m') m' = None" if "bp_store p (Some (p + bp_blocksize m)) m = Some m'" for m'
    using that Suc.prems by (intro Suc.IH) (auto simp: bp_store_def split: if_splits)
  then show ?case by (cases "bp_store p (Some (p + bp_blocksize m)) m") (auto simp: bp_store_def split: if_splits)
qed

text \<open>A block that was freed is the next one handed out, and the free list is then as before.\<close>

lemma memp_free_alloc:
  assumes "memp_free p m = Some m'" "bp_freecount m' \<noteq> 0"
  shows "\<exists>m''. memp_alloc m' = Some (Some p, m'') \<and> bp_free_ptr m'' = bp_free_ptr m \<and> bp_freecount m'' = bp_freecount m"
  using assms by (auto simp: memp_free_def memp_alloc_def bp_store_def bp_load_def split: bind_splits if_splits)

text \<open>
  \<open>memp_create\<close> takes the size of the page for the number of blocks: for every positive block size its loop
  writes past the page, so no pool is ever created.
\<close>

theorem memp_create_overrun: "0 < block_size \<Longrightarrow> memp_create True block_size (Some m) = None"
  using memp_link_overrun [of "m\<lparr>bp_blocksize := block_size, bp_freecount := MEM_PAGE_SIZE, bp_cells := (\<lambda>_. Some None), bp_free_ptr := Some 0\<rparr>"
    0 "nat MEM_PAGE_SIZE"]
  by (simp add: memp_create_def MEM_PAGE_SIZE_def)

theorem memp_create_overrun_witness:
  "memp_create True 32 (Some \<lparr>bp_blocksize = 0, bp_freecount = 0, bp_free_ptr = None, bp_cells = (\<lambda>_. None)\<rparr>) = None"
  using memp_create_overrun [of 32] by simp

end
