(* ===== verification/NetTimer.thy ===== *)
theory NetTimer
  imports Prelude
begin

text \<open>
  The timer of \<^verbatim>\<open>network_timer/Timer.h\<close> and the loop of \<^verbatim>\<open>network_timer/EventLoop.h\<close> that drives it. The multimap is the list of
  its pairs in the order of iteration, equal keys in the order of insertion; an iterator is the node it
  points to, or \<open>None\<close> for the end. \<open>nt_nodes\<close> has the nodes that were allocated and not deleted. The clock,
  the node that \<open>new\<close> returns, the callbacks and what \<open>epoll_wait\<close> returns are arguments.
\<close>

section \<open>Model\<close>

record TimerNode =
  tn_timeout :: u64
  tn_callback :: int

record nt_timer =
  nt_map :: "(u64 \<times> ptr) list"
  nt_nodes :: "ptr \<Rightarrow> TimerNode option"

definition nt_empty :: nt_timer where
  "nt_empty = \<lparr>nt_map = [], nt_nodes = (\<lambda>_. None)\<rparr>"

text \<open>\<open>multimap::insert\<close> puts the pair behind those with an equal key.\<close>

fun nt_insert :: "u64 \<Rightarrow> ptr \<Rightarrow> (u64 \<times> ptr) list \<Rightarrow> (u64 \<times> ptr) list" where
  "nt_insert k p [] = [(k, p)]"
| "nt_insert k p (e # es) = (if k < fst e then (k, p) # e # es else e # nt_insert k p es)"

text \<open>
  The two branches of the code: below the last key the pair is inserted in its place, otherwise at the end, where the
  hint says. The result is the new node.
\<close>

definition AddTimeout :: "ptr \<Rightarrow> u64 \<Rightarrow> u64 \<Rightarrow> int \<Rightarrow> nt_timer \<Rightarrow> ptr \<times> nt_timer" where
  "AddTimeout p now diff cb t =
     (let k = now + diff; t = t\<lparr>nt_nodes := (nt_nodes t)(p \<mapsto> \<lparr>tn_timeout = k, tn_callback = cb\<rparr>)\<rparr> in
      (p, if nt_map t = [] \<or> k < fst (List.last (nt_map t)) then t\<lparr>nt_map := nt_insert k p (nt_map t)\<rparr>
          else t\<lparr>nt_map := nt_map t @ [(k, p)]\<rparr>))"

text \<open>The loop over the equal range: the first pair with this node is erased.\<close>

fun nt_del_loop :: "ptr \<Rightarrow> (u64 \<times> ptr) list \<Rightarrow> (u64 \<times> ptr) list" where
  "nt_del_loop p [] = []"
| "nt_del_loop p (e # es) = (if snd e = p then es else e # nt_del_loop p es)"

definition DelTimeout :: "ptr \<Rightarrow> nt_timer \<Rightarrow> nt_timer option" where
  "DelTimeout p t =
     do { n \<leftarrow> nt_nodes t p;
          let k = tn_timeout n;
              below = takeWhile (\<lambda>e. fst e < k) (nt_map t);
              rest = dropWhile (\<lambda>e. fst e < k) (nt_map t) in
          Some (t\<lparr>nt_map := below @ nt_del_loop p (takeWhile (\<lambda>e. fst e \<le> k) rest) @ dropWhile (\<lambda>e. fst e \<le> k) rest\<rparr>) }"

text \<open>The difference is unsigned and converted to a 32-bit \<open>int\<close>.\<close>

definition WaitTime :: "u64 \<Rightarrow> nt_timer \<Rightarrow> int" where
  "WaitTime now t =
     (case nt_map t of
        [] \<Rightarrow> - 1
      | (k, _) # _ \<Rightarrow> let diff = k - now in if diff > 0 then sint (ucast diff :: u32) else 0)"

definition nt_iter :: "(u64 \<times> ptr) list \<Rightarrow> ptr option" where
  "nt_iter es = (case es of [] \<Rightarrow> None | e # _ \<Rightarrow> Some (snd e))"

text \<open>\<open>erase\<close> of an iterator returns the next one; an iterator that is not in the map is not valid.\<close>

definition nt_erase :: "ptr \<Rightarrow> nt_timer \<Rightarrow> (ptr option \<times> nt_timer) option" where
  "nt_erase p t =
     (case dropWhile (\<lambda>e. snd e \<noteq> p) (nt_map t) of
        [] \<Rightarrow> None
      | e # es \<Rightarrow> Some (nt_iter es, t\<lparr>nt_map := takeWhile (\<lambda>e. snd e \<noteq> p) (nt_map t) @ es\<rparr>))"

text \<open>The loop of \<open>HandleTimeout\<close>; the clock is read in each round, \<open>clock i\<close> in round \<open>i\<close>; a
  callback may read it again and add or delete timers, which \<open>call\<close> says.\<close>

partial_function (option) HandleTimeout_loop ::
  "(nat \<Rightarrow> u64) \<Rightarrow> (u64 \<Rightarrow> int \<Rightarrow> nt_timer \<Rightarrow> nt_timer option) \<Rightarrow> nat \<Rightarrow> ptr option \<Rightarrow> nt_timer \<Rightarrow> (nt_timer \<times> ptr list) option" where
  "HandleTimeout_loop clock call i iter t =
     (case iter of
        None \<Rightarrow> Some (t, [])
      | Some p \<Rightarrow>
          do { e \<leftarrow> find (\<lambda>e. snd e = p) (nt_map t);
               if fst e \<le> clock i then
                 do { n \<leftarrow> nt_nodes t p;
                      t \<leftarrow> call (clock i) (tn_callback n) t;
                      (iter, t) \<leftarrow> nt_erase p t;
                      (t, log) \<leftarrow> HandleTimeout_loop clock call (i + 1) iter t;
                      Some (t, p # log) }
               else Some (t, []) })"

declare HandleTimeout_loop.simps [code]

definition HandleTimeout :: "(nat \<Rightarrow> u64) \<Rightarrow> (u64 \<Rightarrow> int \<Rightarrow> nt_timer \<Rightarrow> nt_timer option) \<Rightarrow> nt_timer \<Rightarrow> (nt_timer \<times> ptr list) option" where
  "HandleTimeout clock call t = HandleTimeout_loop clock call 0 (nt_iter (nt_map t)) t"

text \<open>The destructor deletes the nodes of the map.\<close>

fun nt_delete_all :: "(u64 \<times> ptr) list \<Rightarrow> (ptr \<Rightarrow> TimerNode option) \<Rightarrow> (ptr \<Rightarrow> TimerNode option) option" where
  "nt_delete_all [] ns = Some ns"
| "nt_delete_all (e # es) ns = do { _ \<leftarrow> ns (snd e); nt_delete_all es (ns(snd e := None)) }"

text \<open>
  \<open>EventLoop::Run\<close>: one record per round, with the clock that \<open>WaitTime\<close> reads, what \<open>epoll_wait\<close> returns (an error, which
  is \<open>EINTR\<close> or not, or the events) and the clock of \<open>HandleTimeout\<close>. The result lists the timeouts given to \<open>epoll_wait\<close> with
  the timers that fired; an empty list of rounds stands for a loop that still runs.
\<close>

datatype 'e epoll_result = EpollError bool | EpollReady "'e list"

record 'e epoll_round =
  er_now :: u64
  er_result :: "'e epoll_result"
  er_clock :: "nat \<Rightarrow> u64"

fun event_handlers :: "('e \<Rightarrow> nt_timer \<Rightarrow> nt_timer option) \<Rightarrow> 'e list \<Rightarrow> nt_timer \<Rightarrow> nt_timer option" where
  "event_handlers handle [] t = Some t"
| "event_handlers handle (e # es) t = do { t \<leftarrow> handle e t; event_handlers handle es t }"

fun EventLoop_Run ::
  "(u64 \<Rightarrow> 'e \<Rightarrow> nt_timer \<Rightarrow> nt_timer option) \<Rightarrow> (u64 \<Rightarrow> int \<Rightarrow> nt_timer \<Rightarrow> nt_timer option) \<Rightarrow> 'e epoll_round list \<Rightarrow> nt_timer \<Rightarrow>
   (nt_timer \<times> (int \<times> ptr list) list) option" where
  "EventLoop_Run handle call [] t = Some (t, [])"
| "EventLoop_Run handle call (r # rs) t =
     (let w = WaitTime (er_now r) t in
      case er_result r of
        EpollError eintr \<Rightarrow>
          if eintr then do { (t, rounds) \<leftarrow> EventLoop_Run handle call rs t; Some (t, (w, []) # rounds) }
          else Some (t, [(w, [])])
      | EpollReady es \<Rightarrow>
          do { t \<leftarrow> event_handlers (handle (er_now r)) es t;
               (t, log) \<leftarrow> HandleTimeout (er_clock r) call t;
               (t, rounds) \<leftarrow> EventLoop_Run handle call rs t;
               Some (t, (w, log) # rounds) })"

section \<open>The map\<close>

text \<open>Sorted by time, every node once, with the time under which it is found.\<close>

definition nt_wf :: "nt_timer \<Rightarrow> bool" where
  "nt_wf t \<longleftrightarrow> sorted (map fst (nt_map t)) \<and> distinct (map snd (nt_map t)) \<and>
     (\<forall>e \<in> set (nt_map t). \<exists>n. nt_nodes t (snd e) = Some n \<and> tn_timeout n = fst e)"

lemma nt_insert_split:
  "nt_insert k p es = takeWhile (\<lambda>e. fst e \<le> k) es @ (k, p) # dropWhile (\<lambda>e. fst e \<le> k) es"
  by (induction es) (auto simp: not_le)

lemma AddTimeout_map:
  assumes "sorted (map fst (nt_map t))"
  shows "nt_map (snd (AddTimeout p now diff cb t)) = nt_insert (now + diff) p (nt_map t)"
proof (cases "nt_map t = [] \<or> now + diff < fst (List.last (nt_map t))")
  case True
  then show ?thesis by (auto simp: AddTimeout_def Let_def)
next
  case False
  have "fst e \<le> now + diff" if "e \<in> set (nt_map t)" for e
  proof -
    have "fst e \<le> fst (List.last (nt_map t))"
      using assms that False by (cases "nt_map t" rule: rev_cases) (auto simp: sorted_append)
    then show ?thesis using False by auto
  qed
  then have "takeWhile (\<lambda>e. fst e \<le> now + diff) (nt_map t) = nt_map t" "dropWhile (\<lambda>e. fst e \<le> now + diff) (nt_map t) = []"
    by (simp_all add: takeWhile_eq_all_conv)
  then have "nt_insert (now + diff) p (nt_map t) = nt_map t @ [(now + diff, p)]" by (simp only: nt_insert_split)
  then show ?thesis using False by (auto simp: AddTimeout_def Let_def)
qed

lemma sorted_takeWhile_le: "sorted (map fst es) \<Longrightarrow> e \<in> set (dropWhile (\<lambda>e. fst e \<le> k) es) \<Longrightarrow> k < fst (e :: 'a :: linorder \<times> 'b)"
  by (induction es) (auto split: if_splits simp: not_le)

lemma sorted_nt_insert: "sorted (map fst es) \<Longrightarrow> sorted (map fst (nt_insert k p es))"
  by (induction es) (auto simp: nt_insert_split dest: set_takeWhileD set_dropWhileD intro: less_imp_le)

lemma set_nt_insert: "set (nt_insert k p es) = insert (k, p) (set es)"
  by (induction es) auto

lemma distinct_nt_insert: "distinct (map snd es) \<Longrightarrow> p \<notin> snd ` set es \<Longrightarrow> distinct (map snd (nt_insert k p es))"
  by (induction es) (auto simp: set_nt_insert)

lemma AddTimeout_wf:
  assumes "nt_wf t" "p \<notin> snd ` set (nt_map t)"
  shows "nt_wf (snd (AddTimeout p now diff cb t))"
proof -
  have s: "sorted (map fst (nt_map t))" using assms(1) by (simp add: nt_wf_def)
  have n: "nt_nodes (snd (AddTimeout p now diff cb t)) = (nt_nodes t)(p \<mapsto> \<lparr>tn_timeout = now + diff, tn_callback = cb\<rparr>)"
    by (simp add: AddTimeout_def Let_def)
  show ?thesis
    using assms sorted_nt_insert [OF s] unfolding nt_wf_def AddTimeout_map [OF s] n
    by (auto simp: set_nt_insert distinct_nt_insert image_iff)
qed

lemma nt_del_loop_filter: "distinct (map snd es) \<Longrightarrow> nt_del_loop p es = filter (\<lambda>e. snd e \<noteq> p) es"
proof (induction es)
  case (Cons e es)
  then have "filter (\<lambda>x. snd x \<noteq> snd e) es = es" by (intro filter_True) (auto intro: rev_image_eqI)
  then show ?case using Cons by auto
qed simp

lemma DelTimeout_ok:
  assumes wf: "nt_wf t" and n: "nt_nodes t p = Some n"
  shows "DelTimeout p t = Some (t\<lparr>nt_map := filter (\<lambda>e. snd e \<noteq> p) (nt_map t)\<rparr>)"
proof -
  let ?k = "tn_timeout n"
  let ?below = "takeWhile (\<lambda>e. fst e < ?k) (nt_map t)"
  let ?rest = "dropWhile (\<lambda>e. fst e < ?k) (nt_map t)"
  let ?mid = "takeWhile (\<lambda>e. fst e \<le> ?k) ?rest"
  let ?above = "dropWhile (\<lambda>e. fst e \<le> ?k) ?rest"
  have split: "nt_map t = ?below @ ?mid @ ?above" by simp
  have key: "fst e = ?k" if "e \<in> set (nt_map t)" "snd e = p" for e
    using wf n that(1) unfolding nt_wf_def that(2) [symmetric] by auto
  have "sorted (map fst ?rest)" using wf unfolding nt_wf_def by (metis sorted_append map_append takeWhile_dropWhile_id)
  then have above: "?k < fst e" if "e \<in> set ?above" for e using that by (rule sorted_takeWhile_le)
  have "snd e \<noteq> p" if "e \<in> set ?below \<or> e \<in> set ?above" for e
    using that key [of e] above [of e] set_dropWhileD [of e "\<lambda>e. fst e \<le> ?k" ?rest] set_dropWhileD [of e "\<lambda>e. fst e < ?k" "nt_map t"]
    by (auto dest!: set_takeWhileD)
  then have "filter (\<lambda>e. snd e \<noteq> p) ?below = ?below" "filter (\<lambda>e. snd e \<noteq> p) ?above = ?above"
    by (simp_all add: filter_id_conv)
  moreover have "distinct (map snd (takeWhile P (dropWhile Q es)))" if "distinct (map snd es)" for P Q and es :: "(u64 \<times> ptr) list"
  proof -
    have "distinct (map snd (dropWhile Q es))"
      using that by (metis distinct_append map_append takeWhile_dropWhile_id)
    then show ?thesis by (metis distinct_append map_append takeWhile_dropWhile_id)
  qed
  then have "distinct (map snd ?mid)" using wf unfolding nt_wf_def by blast
  then have "nt_del_loop p ?mid = filter (\<lambda>e. snd e \<noteq> p) ?mid" by (rule nt_del_loop_filter)
  ultimately have "?below @ nt_del_loop p ?mid @ ?above = filter (\<lambda>e. snd e \<noteq> p) (?below @ ?mid @ ?above)"
    by (simp only: filter_append)
  also have "\<dots> = filter (\<lambda>e. snd e \<noteq> p) (nt_map t)" by (simp only: split [symmetric])
  finally show ?thesis using n by (simp add: DelTimeout_def Let_def)
qed

lemma nt_wf_filter: "nt_wf t \<Longrightarrow> nt_wf (t\<lparr>nt_map := filter P (nt_map t)\<rparr>)"
  unfolding nt_wf_def by (auto simp: sorted_filter distinct_map_filter)

lemma nt_wf_tl: "nt_wf t \<Longrightarrow> nt_map t = e # es \<Longrightarrow> nt_wf (t\<lparr>nt_map := es\<rparr>)"
  unfolding nt_wf_def by auto

section \<open>The loop of HandleTimeout\<close>

text \<open>The timers that expire not after \<open>hi\<close>.\<close>

definition nt_due :: "u64 \<Rightarrow> nt_timer \<Rightarrow> (u64 \<times> ptr) list" where
  "nt_due hi t = takeWhile (\<lambda>e. fst e \<le> hi) (nt_map t)"

text \<open>A handler that leaves the timer \<open>p\<close> as it is; it may add and delete others.\<close>

definition nt_keeps :: "ptr \<Rightarrow> (nt_timer \<Rightarrow> nt_timer option) \<Rightarrow> bool" where
  "nt_keeps p f \<longleftrightarrow> (\<forall>t. nt_wf t \<longrightarrow>
     (\<exists>t'. f t = Some t' \<and> nt_wf t' \<and> (\<forall>k. (k, p) \<in> set (nt_map t') \<longleftrightarrow> (k, p) \<in> set (nt_map t))))"

lemma nt_keeps_quiet: "nt_keeps p Some"
  by (simp add: nt_keeps_def)

text \<open>A callback is harmless up to \<open>hi\<close> if it leaves those alone.\<close>

definition nt_harmless :: "u64 \<Rightarrow> (nt_timer \<Rightarrow> nt_timer option) \<Rightarrow> bool" where
  "nt_harmless hi f \<longleftrightarrow> (\<forall>t. nt_wf t \<longrightarrow> (\<exists>t'. f t = Some t' \<and> nt_wf t' \<and> nt_due hi t' = nt_due hi t))"

lemma nt_harmlessE:
  assumes "nt_harmless hi f" "nt_wf t"
  obtains t' where "f t = Some t'" "nt_wf t'" "nt_due hi t' = nt_due hi t"
  using assms unfolding nt_harmless_def by blast

lemma nt_harmless_quiet: "nt_harmless hi Some"
  by (simp add: nt_harmless_def)

text \<open>Adding a timer that expires later is harmless.\<close>

lemma takeWhile_nt_insert: "sorted (map fst es) \<Longrightarrow> hi < k \<Longrightarrow> takeWhile (\<lambda>e. fst e \<le> hi) (nt_insert k p es) = takeWhile (\<lambda>e. fst e \<le> hi) es"
  by (induction es) auto

lemma AddTimeout_due: "nt_wf t \<Longrightarrow> hi < now + diff \<Longrightarrow> nt_due hi (snd (AddTimeout p now diff cb t)) = nt_due hi t"
  by (simp add: nt_due_def AddTimeout_map nt_wf_def takeWhile_nt_insert)

lemma nt_due_Cons: "nt_due hi t = e # es \<Longrightarrow> \<exists>rest. nt_map t = e # rest \<and> es = takeWhile (\<lambda>e. fst e \<le> hi) rest"
  by (cases "nt_map t") (auto simp: nt_due_def split: if_splits)

lemma nt_erase_head: "nt_map t = e # es \<Longrightarrow> nt_erase (snd e) t = Some (nt_iter es, t\<lparr>nt_map := es\<rparr>)"
  by (simp add: nt_erase_def)

lemma HandleTimeout_stop:
  "nt_map t = [] \<or> clock i < fst (hd (nt_map t)) \<Longrightarrow> HandleTimeout_loop clock call i (nt_iter (nt_map t)) t = Some (t, [])"
  by (subst HandleTimeout_loop.simps) (cases "nt_map t", auto simp: nt_iter_def not_le)

lemma HandleTimeout_loop_ok:
  assumes "nt_wf t" and call: "\<And>c n. c \<le> hi \<Longrightarrow> nt_harmless hi (call c n)" and hi: "\<And>i. clock i \<le> hi"
  shows "\<exists>t' fired. HandleTimeout_loop clock call i (nt_iter (nt_map t)) t = Some (t', map snd fired) \<and> nt_wf t' \<and>
    nt_due hi t = fired @ nt_due hi t' \<and> (\<forall>j < length fired. fst (fired ! j) \<le> clock (i + j)) \<and>
    (\<forall>e \<in> set (nt_map t'). clock (i + length fired) < fst e) \<and>
    (\<forall>p k. (\<forall>c n. nt_keeps p (call c n)) \<longrightarrow> ((k, p) \<in> set (nt_map t') \<longleftrightarrow> (k, p) \<in> set (nt_map t) \<and> p \<notin> snd ` set fired))"
  using assms(1)
proof (induction "nt_due hi t" arbitrary: t i)
  case Nil
  have late: "clock i < fst e" if e: "e \<in> set (nt_map t)" for e
  proof -
    have "e \<in> set (dropWhile (\<lambda>e. fst e \<le> hi) (nt_map t))"
      using Nil.hyps e unfolding nt_due_def by (metis append_Nil takeWhile_dropWhile_id)
    then have "hi < fst e" using Nil.prems by (auto simp: nt_wf_def intro: sorted_takeWhile_le)
    then show ?thesis using hi [of i] by simp
  qed
  have "HandleTimeout_loop clock call i (nt_iter (nt_map t)) t = Some (t, [])"
    using late by (intro HandleTimeout_stop) (cases "nt_map t", auto)
  then show ?case using Nil late by (intro exI [of _ t] exI [of _ "[]"]) auto
next
  case (Cons e es)
  obtain rest where rest: "nt_map t = e # rest" using nt_due_Cons [OF Cons.hyps(2) [symmetric]] by blast
  show ?case
  proof (cases "fst e \<le> clock i")
    case False
    have "clock i < fst x" if "x \<in> set (nt_map t)" for x
      using that False Cons.prems rest by (auto simp: nt_wf_def)
    then show ?thesis using HandleTimeout_stop [of t clock i call] Cons.prems rest
      by (intro exI [of _ t] exI [of _ "[]"]) auto
  next
    case True
    obtain n where n: "nt_nodes t (snd e) = Some n" using Cons.prems rest by (auto simp: nt_wf_def)
    obtain t1 where t1: "call (clock i) (tn_callback n) t = Some t1" "nt_wf t1" "nt_due hi t1 = nt_due hi t"
      using nt_harmlessE [OF call [OF hi] Cons.prems] by blast
    then obtain rest1 where r1: "nt_map t1 = e # rest1" "es = takeWhile (\<lambda>e. fst e \<le> hi) rest1"
      using nt_due_Cons [of hi t1 e es] Cons.hyps(2) by auto
    let ?t2 = "t1\<lparr>nt_map := rest1\<rparr>"
    have "nt_wf ?t2" using nt_wf_tl [OF t1(2) r1(1)] .
    moreover have "es = nt_due hi ?t2" using r1(2) by (simp add: nt_due_def)
    ultimately obtain t' fired where IH: "HandleTimeout_loop clock call (i + 1) (nt_iter rest1) ?t2 = Some (t', map snd fired)"
        "nt_wf t'" "nt_due hi ?t2 = fired @ nt_due hi t'" "\<forall>j < length fired. fst (fired ! j) \<le> clock (i + 1 + j)"
        "\<forall>e \<in> set (nt_map t'). clock (i + 1 + length fired) < fst e"
        "\<forall>p k. (\<forall>c n. nt_keeps p (call c n)) \<longrightarrow> ((k, p) \<in> set (nt_map t') \<longleftrightarrow> (k, p) \<in> set rest1 \<and> p \<notin> snd ` set fired)"
      using Cons.hyps(1) [of ?t2 "i + 1"] by auto
    have run: "HandleTimeout_loop clock call i (nt_iter (nt_map t)) t = Some (t', snd e # map snd fired)"
      using True n t1(1) IH(1) nt_erase_head [OF r1(1)] rest
      by (subst HandleTimeout_loop.simps) (simp add: nt_iter_def)
    have "nt_due hi t = (e # fired) @ nt_due hi t'" using Cons.hyps(2) IH(3) \<open>es = nt_due hi ?t2\<close> by simp
    moreover have "\<forall>j < length (e # fired). fst ((e # fired) ! j) \<le> clock (i + j)"
      using True IH(4) by (auto simp: less_Suc_eq_0_disj)
    moreover have "(k, p) \<in> set (nt_map t') \<longleftrightarrow> (k, p) \<in> set (nt_map t) \<and> p \<notin> snd ` set (e # fired)"
      if p: "\<forall>c n. nt_keeps p (call c n)" for p k
    proof -
      have "(k, p) \<in> set (nt_map t1) \<longleftrightarrow> (k, p) \<in> set (nt_map t)"
        using p Cons.prems t1(1) unfolding nt_keeps_def by (metis option.inject)
      moreover have "(k, p) \<in> set rest1 \<longleftrightarrow> (k, p) \<in> set (nt_map t1) \<and> p \<noteq> snd e"
        using t1(2) unfolding nt_wf_def r1(1) by (auto intro: rev_image_eqI)
      ultimately show ?thesis using IH(6) p by auto
    qed
    ultimately show ?thesis using run IH(2,5) by (intro exI [of _ t'] exI [of _ "e # fired"]) auto
  qed
qed


lemma event_handlers_ok:
  "nt_wf t \<Longrightarrow> (\<And>e. nt_keeps p (handle e)) \<Longrightarrow>
   \<exists>t'. event_handlers handle es t = Some t' \<and> nt_wf t' \<and> (\<forall>k. (k, p) \<in> set (nt_map t') \<longleftrightarrow> (k, p) \<in> set (nt_map t))"
proof (induction es arbitrary: t)
  case (Cons e es)
  obtain t1 where "handle e t = Some t1" "nt_wf t1" "\<forall>k. (k, p) \<in> set (nt_map t1) \<longleftrightarrow> (k, p) \<in> set (nt_map t)"
    using Cons.prems unfolding nt_keeps_def by meson
  then show ?case using Cons.IH [of t1] Cons.prems(2) by auto
qed simp

section \<open>Properties\<close>

text \<open>
  \<open>AddTimeout\<close> keeps the map sorted and adds the node with its time, and \<open>DelTimeout\<close> takes exactly the
  given node out of the map, among those with an equal time too, and does nothing to the map if it is not in it.
\<close>

theorem Timer_add_del:
  assumes "nt_wf t" "p \<notin> snd ` set (nt_map t)"
  shows "nt_wf (snd (AddTimeout p now diff cb t)) \<and>
    set (nt_map (snd (AddTimeout p now diff cb t))) = insert (now + diff, p) (set (nt_map t)) \<and>
    (\<exists>t'. DelTimeout p (snd (AddTimeout p now diff cb t)) = Some t' \<and> nt_map t' = nt_map t) \<and>
    (\<forall>q n. nt_nodes t q = Some n \<longrightarrow>
      (\<exists>t'. DelTimeout q t = Some t' \<and> nt_wf t' \<and> nt_map t' = filter (\<lambda>e. snd e \<noteq> q) (nt_map t)))"
proof -
  have s: "sorted (map fst (nt_map t))" using assms(1) by (simp add: nt_wf_def)
  let ?t = "snd (AddTimeout p now diff cb t)"
  have wf: "nt_wf ?t" using AddTimeout_wf [OF assms] .
  have n: "nt_nodes ?t p = Some \<lparr>tn_timeout = now + diff, tn_callback = cb\<rparr>" by (simp add: AddTimeout_def Let_def)
  have "filter (\<lambda>e. snd e \<noteq> p) (nt_insert k p es) = es" if "p \<notin> snd ` set es" for k es
    using that by (induction es) (auto simp: filter_id_conv)
  then have "filter (\<lambda>e. snd e \<noteq> p) (nt_map ?t) = nt_map t" using assms(2) by (simp add: AddTimeout_map [OF s])
  then show ?thesis
    using wf DelTimeout_ok [OF wf n] DelTimeout_ok [OF assms(1)] nt_wf_filter [OF assms(1)]
    by (auto simp: AddTimeout_map [OF s] set_nt_insert)
qed

lemma nt_wf_empty: "nt_wf nt_empty"
  by (simp add: nt_wf_def nt_empty_def)

theorem Timer_add_del_witness:
  "\<exists>t'. DelTimeout 7 (snd (AddTimeout 7 1000 50 0 nt_empty)) = Some t' \<and> nt_map t' = []"
  using Timer_add_del [OF nt_wf_empty, of 7 1000 50 0] by (simp add: nt_empty_def)

text \<open>
  \<open>HandleTimeout\<close> returns, with a clock that does not run backwards and callbacks that leave the timers due in
  the meantime alone (adding later timers is allowed): the timers that fire are a first part of the map, in its order, none before
  its time, and no timer that was due at the first look at the clock is left.
\<close>

theorem HandleTimeout_correct:
  assumes "nt_wf t" "\<forall>c n. c \<le> hi \<longrightarrow> nt_harmless hi (call c n)" "\<forall>i. clock i \<le> hi" "mono clock"
  shows "\<exists>t' fired. HandleTimeout clock call t = Some (t', map snd fired) \<and> nt_wf t' \<and>
    nt_due hi t = fired @ nt_due hi t' \<and> (\<forall>j < length fired. fst (fired ! j) \<le> clock j) \<and>
    (\<forall>e \<in> set (nt_map t'). clock 0 < fst e)"
proof -
  obtain t' fired where *: "HandleTimeout_loop clock call 0 (nt_iter (nt_map t)) t = Some (t', map snd fired)" "nt_wf t'"
      "nt_due hi t = fired @ nt_due hi t'" "\<forall>j < length fired. fst (fired ! j) \<le> clock j"
      "\<forall>e \<in> set (nt_map t'). clock (length fired) < fst e"
    using HandleTimeout_loop_ok [OF assms(1), of hi call clock 0] assms(2,3) by auto
  have "clock 0 \<le> clock (length fired)" using assms(4) by (simp add: monoD)
  then show ?thesis unfolding HandleTimeout_def using * by fastforce
qed

theorem HandleTimeout_correct_witness:
  "\<exists>t' log. HandleTimeout (\<lambda>_. 1100) (\<lambda>_ _. Some) (snd (AddTimeout 7 1000 50 0 nt_empty)) = Some (t', log) \<and>
    (\<forall>e \<in> set (nt_map t'). 1100 < fst e)"
proof -
  have "nt_wf (snd (AddTimeout 7 1000 50 0 nt_empty))" by (rule AddTimeout_wf [OF nt_wf_empty]) (simp add: nt_empty_def)
  from HandleTimeout_correct [OF this, of 1100 "\<lambda>_ _. Some" "\<lambda>_. 1100"]
  show ?thesis by (auto simp: mono_def nt_harmless_quiet)
qed

lemma sint_ucast_u32: "- 2147483648 \<le> i \<Longrightarrow> i < 2147483648 \<Longrightarrow> sint (ucast (word_of_int i :: u64) :: u32) = i"
  by (simp add: unsigned_of_int signed_of_int signed_take_bit_take_bit signed_take_bit_int_eq_self)

text \<open>
  \<open>WaitTime\<close> is the time that is left of the first timer, if it fits in an \<open>int\<close>; but a timer that is overdue gives a
  negative number, for which \<open>epoll_wait\<close> has no timeout, as if there were no timer at all.
\<close>

theorem WaitTime_correct:
  "(nt_map t = [] \<longrightarrow> WaitTime now t = - 1) \<and>
   (\<forall>k p es d. nt_map t = (k, p) # es \<longrightarrow> k = now + of_nat d \<longrightarrow> d < 2147483648 \<longrightarrow> WaitTime now t = int d) \<and>
   (\<forall>k p es d. nt_map t = (k, p) # es \<longrightarrow> now = k + of_nat d \<longrightarrow> 0 < d \<longrightarrow> d < 2147483648 \<longrightarrow> WaitTime now t = - int d)"
proof (intro conjI allI impI)
  show "WaitTime now t = - 1" if "nt_map t = []" using that by (simp add: WaitTime_def)
  show "WaitTime now t = int d" if "nt_map t = (k, p) # es" "k = now + of_nat d" "d < 2147483648" for k p es d
  proof -
    have "sint (ucast (of_nat d :: u64) :: u32) = int d"
      using that(3) sint_ucast_u32 [of "int d"] by simp
    moreover have "(0 :: u64) < of_nat d \<longleftrightarrow> 0 < d"
      using that(3) by (simp add: word_less_nat_alt unsigned_of_nat take_bit_nat_eq_self)
    ultimately show ?thesis using that(1,2) by (auto simp: WaitTime_def Let_def)
  qed
  show "WaitTime now t = - int d" if "nt_map t = (k, p) # es" "now = k + of_nat d" "0 < d" "d < 2147483648" for k p es d
  proof -
    have "sint (ucast (- of_nat d :: u64) :: u32) = - int d"
      using that(4) sint_ucast_u32 [of "- int d"] by simp
    moreover have "(0 :: u64) < - of_nat d"
    proof -
      have "unat (of_nat d :: u64) = d" using that(4) by (simp add: unsigned_of_nat take_bit_nat_eq_self)
      then have "(of_nat d :: u64) \<noteq> 0" using that(3) by auto
      then show ?thesis by (simp add: word_gt_0)
    qed
    ultimately show ?thesis using that(1,2) by (simp add: WaitTime_def Let_def)
  qed
qed

theorem WaitTime_correct_witness: "WaitTime 1060 (snd (AddTimeout 7 1000 50 0 nt_empty)) = - 10"
proof -
  have "nt_map (snd (AddTimeout 7 1000 50 0 nt_empty)) = [(1050, 7)]" by (simp add: AddTimeout_def Let_def nt_empty_def)
  then show ?thesis
    using conjunct2 [OF conjunct2 [OF WaitTime_correct], rule_format, of "snd (AddTimeout 7 1000 50 0 nt_empty)" 1050 7 "[]" 1060 10] by simp
qed


section \<open>The rounds of the loop\<close>

text \<open>
  What a round may do to the timer \<open>p\<close>: the event handlers add and delete other timers as they like, due ones too; the
  callbacks of timers keep \<open>p\<close>, and what they add is due later than the round lasts.
\<close>

definition round_ok :: "ptr \<Rightarrow> (u64 \<Rightarrow> 'e \<Rightarrow> nt_timer \<Rightarrow> nt_timer option) \<Rightarrow> (u64 \<Rightarrow> int \<Rightarrow> nt_timer \<Rightarrow> nt_timer option) \<Rightarrow> 'e epoll_round \<Rightarrow> bool" where
  "round_ok p handle call r \<longleftrightarrow> (\<forall>e. nt_keeps p (handle (er_now r) e)) \<and> (\<forall>c n. nt_keeps p (call c n)) \<and> mono (er_clock r) \<and>
     (\<exists>hi. (\<forall>i. er_clock r i \<le> hi) \<and> (\<forall>c n. c \<le> hi \<longrightarrow> nt_harmless hi (call c n)))"

definition er_ready :: "'e epoll_round \<Rightarrow> bool" where
  "er_ready r \<longleftrightarrow> (case er_result r of EpollReady es \<Rightarrow> True | EpollError eintr \<Rightarrow> False)"

lemma round_run:
  assumes "nt_wf t" "round_ok p handle call r" "er_result r = EpollReady es"
  shows "\<exists>t1 t2 fired. event_handlers (handle (er_now r)) es t = Some t1 \<and> HandleTimeout (er_clock r) call t1 = Some (t2, map snd fired) \<and> nt_wf t2 \<and>
    distinct (map snd fired) \<and> (\<forall>k. (k, p) \<in> set (nt_map t2) \<longleftrightarrow> (k, p) \<in> set (nt_map t) \<and> p \<notin> snd ` set fired) \<and>
    (\<forall>k j. fired ! j = (k, p) \<longrightarrow> j < length fired \<longrightarrow> k \<le> er_clock r j \<and> (k, p) \<in> set (nt_map t)) \<and>
    (\<forall>k. (k, p) \<in> set (nt_map t2) \<longrightarrow> er_clock r 0 < k)"
proof -
  obtain hi where hi: "\<And>i. er_clock r i \<le> hi" "\<And>c n. c \<le> hi \<Longrightarrow> nt_harmless hi (call c n)" and m: "mono (er_clock r)"
    and kp: "\<And>e. nt_keeps p (handle (er_now r) e)" "\<forall>c n. nt_keeps p (call c n)"
    using assms(2) unfolding round_ok_def by blast
  obtain t1 where t1: "event_handlers (handle (er_now r)) es t = Some t1" "nt_wf t1" "\<forall>k. (k, p) \<in> set (nt_map t1) \<longleftrightarrow> (k, p) \<in> set (nt_map t)"
    using event_handlers_ok [where es = es and handle = "handle (er_now r)", OF assms(1) kp(1)] by blast
  obtain t2 fired where t2: "HandleTimeout_loop (er_clock r) call 0 (nt_iter (nt_map t1)) t1 = Some (t2, map snd fired)" "nt_wf t2"
    "nt_due hi t1 = fired @ nt_due hi t2" "\<forall>j < length fired. fst (fired ! j) \<le> er_clock r (0 + j)"
    "\<forall>e \<in> set (nt_map t2). er_clock r (0 + length fired) < fst e"
    "\<forall>p k. (\<forall>c n. nt_keeps p (call c n)) \<longrightarrow> ((k, p) \<in> set (nt_map t2) \<longleftrightarrow> (k, p) \<in> set (nt_map t1) \<and> p \<notin> snd ` set fired)"
    using HandleTimeout_loop_ok [where i = 0 and call = call and clock = "er_clock r", OF t1(2) hi(2) hi(1)] by blast
  have pre: "nt_map t1 = nt_due hi t1 @ dropWhile (\<lambda>e. fst e \<le> hi) (nt_map t1)" by (simp add: nt_due_def)
  have "distinct (map snd (nt_map t1))" using t1(2) by (simp add: nt_wf_def)
  then have d: "distinct (map snd fired)" using pre t2(3) by (metis distinct_append map_append)
  have sub: "set fired \<subseteq> set (nt_map t1)"
    using pre t2(3) by (metis Un_upper1 order_trans set_append)
  have "er_clock r 0 \<le> er_clock r (length fired)" using m by (simp add: monoD)
  then have late: "\<forall>k. (k, p) \<in> set (nt_map t2) \<longrightarrow> er_clock r 0 < k" using t2(5) by force
  have "k \<le> er_clock r j \<and> (k, p) \<in> set (nt_map t)" if "fired ! j = (k, p)" "j < length fired" for k j
  proof -
    have "(k, p) \<in> set fired" using that by (metis nth_mem)
    then show ?thesis using t2(4) that sub t1(3) by fastforce
  qed
  moreover have "(k, p) \<in> set (nt_map t2) \<longleftrightarrow> (k, p) \<in> set (nt_map t) \<and> p \<notin> snd ` set fired" for k
    using t2(6) kp(2) t1(3) by simp
  ultimately show ?thesis using t1(1) t2(1,2) d late unfolding HandleTimeout_def by blast
qed

lemma EventLoop_Run_Cons:
  "er_result r = EpollReady es \<Longrightarrow> event_handlers (handle (er_now r)) es t = Some t1 \<Longrightarrow> HandleTimeout (er_clock r) call t1 = Some (t2, log) \<Longrightarrow>
   EventLoop_Run handle call rs t2 = Some (t', rounds) \<Longrightarrow>
   EventLoop_Run handle call (r # rs) t = Some (t', (WaitTime (er_now r) t, log) # rounds)"
  by (simp add: Let_def)

text \<open>A timer that is not in the map does not fire.\<close>

lemma Run_absent:
  assumes "nt_wf t" "\<forall>r \<in> set rs. round_ok p handle call r" "p \<notin> snd ` set (nt_map t)"
  shows "\<exists>t' rounds. EventLoop_Run handle call rs t = Some (t', rounds) \<and> nt_wf t' \<and> p \<notin> snd ` set (nt_map t') \<and>
    (\<forall>i < length rounds. p \<notin> set (snd (rounds ! i)))"
  using assms
proof (induction rs arbitrary: t)
  case (Cons r rs)
  show ?case
  proof (cases "er_result r")
    case (EpollError eintr)
    then show ?thesis using Cons.IH [OF Cons.prems(1)] Cons.prems by (cases eintr) (force simp: less_Suc_eq_0_disj)+
  next
    case (EpollReady es)
    obtain t1 t2 fired where f: "event_handlers (handle (er_now r)) es t = Some t1" "HandleTimeout (er_clock r) call t1 = Some (t2, map snd fired)" "nt_wf t2"
      "\<forall>k. (k, p) \<in> set (nt_map t2) \<longleftrightarrow> (k, p) \<in> set (nt_map t) \<and> p \<notin> snd ` set fired"
      "\<forall>k j. fired ! j = (k, p) \<longrightarrow> j < length fired \<longrightarrow> k \<le> er_clock r j \<and> (k, p) \<in> set (nt_map t)"
      using round_run [OF Cons.prems(1) _ EpollReady] Cons.prems(2) by (metis list.set_intros(1))
    have "p \<notin> snd ` set (nt_map t2)" using f(4) Cons.prems(3) by force
    then obtain t' rounds where r: "EventLoop_Run handle call rs t2 = Some (t', rounds)" "nt_wf t'" "p \<notin> snd ` set (nt_map t')"
      "\<forall>i < length rounds. p \<notin> set (snd (rounds ! i))"
      using Cons.IH [OF f(3)] Cons.prems(2) by auto
    have "p \<notin> snd ` set fired"
    proof
      assume "p \<in> snd ` set fired"
      then obtain k j where "j < length fired" "fired ! j = (k, p)" by (force simp: in_set_conv_nth)
      then have "(k, p) \<in> set (nt_map t)" using f(5) by blast
      then show False using Cons.prems(3) by force
    qed
    then show ?thesis using EventLoop_Run_Cons [OF EpollReady f(1,2) r(1)] r(2-4)
      by (intro exI [of _ t'] exI [of _ "(WaitTime (er_now r) t, map snd fired) # rounds"]) (auto simp: less_Suc_eq_0_disj)
  qed
qed simp

text \<open>
  The timer that is due at \<open>k\<close> in the rounds with their logs: it has not fired, and no round reached its time; or it fired
  once, in the round \<open>i\<close>.
\<close>

definition fires_in :: "u64 \<Rightarrow> ptr \<Rightarrow> 'e epoll_round list \<Rightarrow> ptr list list \<Rightarrow> nat \<Rightarrow> bool" where
  "fires_in k p rs logs i \<longleftrightarrow> i < length logs \<and> count_list (logs ! i) p = 1 \<and> (\<exists>j. k \<le> er_clock (rs ! i) j) \<and>
     (\<forall>i' < length logs. i' \<noteq> i \<longrightarrow> p \<notin> set (logs ! i')) \<and> (\<forall>i' < i. er_ready (rs ! i') \<longrightarrow> er_clock (rs ! i') 0 < k)"

definition fires_not :: "u64 \<Rightarrow> ptr \<Rightarrow> 'e epoll_round list \<Rightarrow> ptr list list \<Rightarrow> bool" where
  "fires_not k p rs logs \<longleftrightarrow> (\<forall>i < length logs. p \<notin> set (logs ! i) \<and> (er_ready (rs ! i) \<longrightarrow> er_clock (rs ! i) 0 < k))"

lemma fires_in_Cons: "fires_in k p rs logs i \<Longrightarrow> p \<notin> set log \<Longrightarrow> (er_ready r \<Longrightarrow> er_clock r 0 < k) \<Longrightarrow> fires_in k p (r # rs) (log # logs) (Suc i)"
  by (auto simp: fires_in_def less_Suc_eq_0_disj)

lemma fires_not_Cons: "fires_not k p rs logs \<Longrightarrow> p \<notin> set log \<Longrightarrow> (er_ready r \<Longrightarrow> er_clock r 0 < k) \<Longrightarrow> fires_not k p (r # rs) (log # logs)"
  by (auto simp: fires_not_def less_Suc_eq_0_disj)

lemma fires_first:
  "count_list log p = 1 \<Longrightarrow> k \<le> er_clock r j \<Longrightarrow> \<forall>i < length logs. p \<notin> set (logs ! i) \<Longrightarrow> fires_in k p (r # rs) (log # logs) 0"
  by (auto simp: fires_in_def less_Suc_eq_0_disj)

lemma count_list_distinct: "distinct xs \<Longrightarrow> x \<in> set xs \<Longrightarrow> count_list xs x = 1"
  by (induction xs) auto

lemma Run_pending:
  assumes "nt_wf t" "\<forall>r \<in> set rs. round_ok p handle call r" "(k, p) \<in> set (nt_map t)"
  shows "\<exists>t' rounds. EventLoop_Run handle call rs t = Some (t', rounds) \<and> nt_wf t' \<and>
    (if (k, p) \<in> set (nt_map t') then fires_not k p rs (map snd rounds) else \<exists>i. fires_in k p rs (map snd rounds) i)"
  using assms
proof (induction rs arbitrary: t)
  case Nil
  then show ?case by (simp add: fires_not_def)
next
  case (Cons r rs)
  let ?w = "WaitTime (er_now r) t"
  show ?case
  proof (cases "er_result r")
    case (EpollError eintr)
    then have nr: "\<not> er_ready r" by (simp add: er_ready_def)
    show ?thesis
    proof (cases eintr)
      case True
      obtain t' rounds where r: "EventLoop_Run handle call rs t = Some (t', rounds)" "nt_wf t'"
        "if (k, p) \<in> set (nt_map t') then fires_not k p rs (map snd rounds) else \<exists>i. fires_in k p rs (map snd rounds) i"
        using Cons.IH [OF Cons.prems(1) _ Cons.prems(3)] Cons.prems(2) by auto
      have "EventLoop_Run handle call (r # rs) t = Some (t', (?w, []) # rounds)" using EpollError True r(1) by simp
      then show ?thesis using r(2,3) nr fires_in_Cons [of k p rs "map snd rounds" _ "[]" r] fires_not_Cons [of k p rs "map snd rounds" "[]" r]
        by (intro exI [of _ t'] exI [of _ "(?w, []) # rounds"]) (auto split: if_splits)
    next
      case False
      then show ?thesis using EpollError Cons.prems nr by (auto simp: fires_not_def)
    qed
  next
    case (EpollReady es)
    obtain t1 t2 fired where f: "event_handlers (handle (er_now r)) es t = Some t1" "HandleTimeout (er_clock r) call t1 = Some (t2, map snd fired)" "nt_wf t2"
      "distinct (map snd fired)" "\<forall>k. (k, p) \<in> set (nt_map t2) \<longleftrightarrow> (k, p) \<in> set (nt_map t) \<and> p \<notin> snd ` set fired"
      "\<forall>k j. fired ! j = (k, p) \<longrightarrow> j < length fired \<longrightarrow> k \<le> er_clock r j \<and> (k, p) \<in> set (nt_map t)"
      "\<forall>k. (k, p) \<in> set (nt_map t2) \<longrightarrow> er_clock r 0 < k"
      using round_run [OF Cons.prems(1) _ EpollReady, of p handle call] Cons.prems(2) by auto
    have rest: "\<forall>r \<in> set rs. round_ok p handle call r" using Cons.prems(2) by simp
    show ?thesis
    proof (cases "p \<in> snd ` set fired")
      case True
      then obtain k' j where j: "j < length fired" "fired ! j = (k', p)" by (force simp: in_set_conv_nth)
      have "(k', p) \<in> set (nt_map t)" using f(6) j by blast
      then have "k' = k" using Cons.prems(1,3) unfolding nt_wf_def by (metis eq_key_imp_eq_value fst_conv option.inject snd_conv)
      then have kj: "k \<le> er_clock r j" using f(6) j by blast
      have "p \<notin> snd ` set (nt_map t2)" using f(5) True by force
      then obtain t' rounds where r: "EventLoop_Run handle call rs t2 = Some (t', rounds)" "nt_wf t'" "p \<notin> snd ` set (nt_map t')"
        "\<forall>i < length rounds. p \<notin> set (snd (rounds ! i))" using Run_absent [OF f(3) rest] by blast
      have "count_list (map snd fired) p = 1" using f(4) True by (intro count_list_distinct) auto
      then have "fires_in k p (r # rs) (map snd ((?w, map snd fired) # rounds)) 0" using fires_first [of "map snd fired" p k r j] kj r(4) by simp
      moreover have "(k, p) \<notin> set (nt_map t')" using r(3) by force
      ultimately show ?thesis using EventLoop_Run_Cons [OF EpollReady f(1,2) r(1)] r(2) by auto
    next
      case False
      then have p2: "(k, p) \<in> set (nt_map t2)" using f(5) Cons.prems(3) by blast
      then obtain t' rounds where r: "EventLoop_Run handle call rs t2 = Some (t', rounds)" "nt_wf t'"
        "if (k, p) \<in> set (nt_map t') then fires_not k p rs (map snd rounds) else \<exists>i. fires_in k p rs (map snd rounds) i"
        using Cons.IH [OF f(3) rest] by blast
      have nl: "p \<notin> set (map snd fired)" using False by simp
      have ck: "er_clock r 0 < k" using f(7) p2 by blast
      show ?thesis
        using EventLoop_Run_Cons [OF EpollReady f(1,2) r(1)] r(2,3) ck nl
          fires_in_Cons [of k p rs "map snd rounds" _ "map snd fired" r] fires_not_Cons [of k p rs "map snd rounds" "map snd fired" r]
        by (intro exI [of _ t'] exI [of _ "(?w, map snd fired) # rounds"]) (auto split: if_splits)
    qed
  qed
qed

text \<open>
  C20: A timer of the event loop fires exactly once, never before its time, and at the latest in the first round in which
  \<open>HandleTimeout\<close> looks at the clock when it is due, whatever \<open>epoll_wait\<close> returns; until then it stays in the map. This
  holds for every timer that is not deleted; the event handlers may add and delete others, and the callbacks may as long as
  what they add is not due within the same round.
\<close>

theorem EventLoop_Run_fires:
  assumes "nt_wf t" "(k, p) \<in> set (nt_map t)" "\<forall>r \<in> set rs. round_ok p handle call r"
  shows "\<exists>t' rounds. EventLoop_Run handle call rs t = Some (t', rounds) \<and> nt_wf t' \<and>
    (if (k, p) \<in> set (nt_map t')
     then \<forall>i < length rounds. p \<notin> set (snd (rounds ! i)) \<and> (er_ready (rs ! i) \<longrightarrow> er_clock (rs ! i) 0 < k)
     else \<exists>i < length rounds. count_list (snd (rounds ! i)) p = 1 \<and> (\<exists>j. k \<le> er_clock (rs ! i) j) \<and>
       (\<forall>i' < length rounds. i' \<noteq> i \<longrightarrow> p \<notin> set (snd (rounds ! i'))) \<and>
       (\<forall>i' < i. er_ready (rs ! i') \<longrightarrow> er_clock (rs ! i') 0 < k))"
proof -
  obtain t' rounds where "EventLoop_Run handle call rs t = Some (t', rounds)" "nt_wf t'"
    "if (k, p) \<in> set (nt_map t') then fires_not k p rs (map snd rounds) else \<exists>i. fires_in k p rs (map snd rounds) i"
    using Run_pending [OF assms(1,3,2)] by blast
  then show ?thesis
    by (intro exI [of _ t'] exI [of _ rounds]) (auto simp: fires_not_def fires_in_def split: if_splits)
qed


text \<open>An event handler that adds the timer 8, which is due after 10 ms, when it is not in the map.\<close>

definition ex_handle :: "u64 \<Rightarrow> nat \<Rightarrow> nt_timer \<Rightarrow> nt_timer option" where
  "ex_handle now e t = Some (if 8 \<in> snd ` set (nt_map t) then t else snd (AddTimeout 8 now 10 0 t))"

lemma ex_handle_keeps: "nt_keeps 7 (ex_handle now e)"
proof -
  have "nt_wf t \<Longrightarrow> 8 \<notin> snd ` set (nt_map t) \<Longrightarrow> (k, 7) \<in> set (nt_map (snd (AddTimeout 8 now 10 0 t))) \<longleftrightarrow> (k, 7) \<in> set (nt_map t)" for t k
    using AddTimeout_map [of t 8 now 10 0] by (simp add: nt_wf_def set_nt_insert)
  then show ?thesis using AddTimeout_wf [of _ 8 now 10 0] by (auto simp: nt_keeps_def ex_handle_def)
qed

theorem EventLoop_Run_fires_witness:
  "\<exists>t' rounds. EventLoop_Run ex_handle (\<lambda>_ _. Some)
      [\<lparr>er_now = 1000, er_result = EpollReady [1], er_clock = (\<lambda>_. 1020)\<rparr>, \<lparr>er_now = 1030, er_result = EpollReady [], er_clock = (\<lambda>_. 1100)\<rparr>]
      (snd (AddTimeout 7 1000 50 0 nt_empty)) = Some (t', rounds) \<and> map snd rounds = [[8], [7]] \<and> count_list (snd (rounds ! 1)) 7 = 1"
proof -
  let ?t = "snd (AddTimeout 7 1000 50 0 nt_empty)"
  let ?rs = "[\<lparr>er_now = 1000, er_result = EpollReady [1 :: nat], er_clock = (\<lambda>_. 1020)\<rparr>, \<lparr>er_now = 1030, er_result = EpollReady [], er_clock = (\<lambda>_. 1100)\<rparr>]"
  have wf: "nt_wf ?t" by (rule AddTimeout_wf [OF nt_wf_empty]) (simp add: nt_empty_def)
  have m: "(1050, 7) \<in> set (nt_map ?t)" by (simp add: AddTimeout_def Let_def nt_empty_def)
  have ok: "\<forall>r \<in> set ?rs. round_ok 7 ex_handle (\<lambda>_ _. Some) r"
    using ex_handle_keeps nt_keeps_quiet nt_harmless_quiet by (auto simp: round_ok_def mono_def)
  obtain t' rounds where r: "EventLoop_Run ex_handle (\<lambda>_ _. Some) ?rs ?t = Some (t', rounds)"
    "(1050, 7) \<notin> set (nt_map t') \<Longrightarrow> \<exists>i < length rounds. count_list (snd (rounds ! i)) 7 = 1"
    using EventLoop_Run_fires [OF wf m ok] by (auto split: if_splits)
  have "EventLoop_Run ex_handle (\<lambda>_ _. Some) ?rs ?t = Some (t', rounds) \<longrightarrow> map snd rounds = [[8], [7]]"
    by (auto simp: AddTimeout_def Let_def nt_empty_def ex_handle_def HandleTimeout_def HandleTimeout_loop.simps nt_iter_def nt_erase_def)
  then have l: "map snd rounds = [[8], [7]]" using r(1) by blast
  then have "snd (rounds ! 1) = [7]" by (cases rounds; cases "tl rounds") auto
  then show ?thesis using r(1) l by auto
qed

section \<open>The destructor\<close>

lemma nt_delete_all_ok:
  "distinct (map snd es) \<Longrightarrow> (\<And>e. e \<in> set es \<Longrightarrow> ns (snd e) \<noteq> None) \<Longrightarrow>
   nt_delete_all es ns = Some (\<lambda>p. if p \<in> snd ` set es then None else ns p)"
proof (induction es arbitrary: ns)
  case (Cons e es)
  have ex: "\<exists>n. ns (snd e) = Some n" using Cons.prems(2) [of e] by auto
  have "nt_delete_all es (ns(snd e := None)) = Some (\<lambda>p. if p \<in> snd ` set es then None else (ns(snd e := None)) p)"
    using Cons.prems by (intro Cons.IH) (auto simp: image_iff)
  then show ?case using ex by (auto simp: fun_eq_iff)
qed simp

text \<open>
  The destructor deletes each node of the map once. A node that was taken out of the map, by \<open>DelTimeout\<close> or because it
  fired, is not deleted by anyone.
\<close>

lemma Timer_leak:
  assumes "nt_wf t" "nt_nodes t p = Some n"
  shows "\<exists>t' ns. DelTimeout p t = Some t' \<and> nt_delete_all (nt_map t') (nt_nodes t') = Some ns \<and> ns p = Some n"
proof -
  let ?t = "t\<lparr>nt_map := filter (\<lambda>e. snd e \<noteq> p) (nt_map t)\<rparr>"
  have wf: "nt_wf ?t" using nt_wf_filter [OF assms(1)] .
  then have "nt_delete_all (nt_map ?t) (nt_nodes ?t) =
      Some (\<lambda>q. if q \<in> snd ` set (nt_map ?t) then None else nt_nodes ?t q)"
    by (intro nt_delete_all_ok) (auto simp: nt_wf_def, blast)
  then show ?thesis using DelTimeout_ok [OF assms] assms(2) by auto
qed

end
