(* ===== verification/SharedPtr.thy ===== *)
theory SharedPtr
  imports Prelude
begin

text \<open>
  The reference-counted pointer of \<^verbatim>\<open>atomic_lock/shared_ptr.h\<close>. A handle is a variable of class \<open>shared_ptr\<close>; the operations
  on handles are composed of atomic actions on the counters, so that threads that own different handles of the
  same object may be interleaved between them. \<open>sp_heap\<close> has the live objects and \<open>sp_counts\<close> the live
  counters; \<open>sp_raw\<close> are the live objects that no handle got yet, and \<open>sp_dying\<close> the objects whose last handle was released
  and which are about to be deleted with their counter. Null is 0.

  The class \<open>T\<close> of the objects holds no \<open>shared_ptr\<close> itself: the destructor of an object leaves the handles as they are. For
  an object that does, as the node of a list, the properties below say nothing: \<open>p = p->next\<close> with \<open>p\<close> the last
  owner deletes the object, and \<open>p->next\<close> with it, before \<open>other\<close> is read.
\<close>

section \<open>Model\<close>

record shared_ptr =
  sp_ptr :: ptr
  sp_ref :: ptr

record sp_state =
  sp_heap :: "ptr set"
  sp_counts :: "ptr \<Rightarrow> u64 option"
  sp_vars :: "nat \<Rightarrow> shared_ptr option"
  sp_raw :: "ptr set"
  sp_dying :: "(ptr \<times> ptr) list"

definition sp_init :: sp_state where
  "sp_init = \<lparr>sp_heap = {}, sp_counts = (\<lambda>_. None), sp_vars = (\<lambda>_. None), sp_raw = {}, sp_dying = []\<rparr>"

subsection \<open>Atomic actions\<close>

text \<open>\<open>ref_count_->fetch_add(1)\<close>; a counter that was deleted must not be touched.\<close>

definition sp_fetch_add :: "ptr \<Rightarrow> sp_state \<Rightarrow> sp_state option" where
  "sp_fetch_add c s = do { n \<leftarrow> sp_counts s c; Some (s\<lparr>sp_counts := (sp_counts s)(c \<mapsto> n + 1)\<rparr>) }"

text \<open>
  The first part of \<open>release\<close>: \<open>ref_count_ && fetch_sub(1) == 1\<close>. The members of the handle are not read again before they are
  written, or the handle is destroyed: it has no value then.
\<close>

definition sp_release_count :: "nat \<Rightarrow> sp_state \<Rightarrow> sp_state option" where
  "sp_release_count h s =
     do { x \<leftarrow> sp_vars s h;
          let s = s\<lparr>sp_vars := (sp_vars s)(h := None)\<rparr> in
          if sp_ref x = 0 then Some s
          else
            do { n \<leftarrow> sp_counts s (sp_ref x);
                 let s = s\<lparr>sp_counts := (sp_counts s)(sp_ref x \<mapsto> n - 1)\<rparr> in
                 Some (if n = 1 then s\<lparr>sp_dying := (sp_ptr x, sp_ref x) # sp_dying s\<rparr> else s) } }"

text \<open>
  The second part, for the thread that took the counter from 1 to 0: \<open>delete ptr_; delete ref_count_\<close>. The destructor of the object
  does not touch any handle (see above).
\<close>

definition sp_delete :: "ptr \<times> ptr \<Rightarrow> sp_state \<Rightarrow> sp_state option" where
  "sp_delete d s =
     (if fst d \<notin> sp_heap s \<or> sp_counts s (snd d) = None then None
      else Some (s\<lparr>sp_heap := sp_heap s - {fst d}, sp_counts := (sp_counts s)(snd d := None), sp_dying := remove1 d (sp_dying s)\<rparr>))"

subsection \<open>Operations\<close>


definition sp_default :: "nat \<Rightarrow> sp_state \<Rightarrow> sp_state" where
  "sp_default h s = s\<lparr>sp_vars := (sp_vars s)(h \<mapsto> \<lparr>sp_ptr = 0, sp_ref = 0\<rparr>)\<rparr>"

text \<open>The constructor from a raw pointer; \<open>c\<close> is the counter that \<open>new\<close> returns.\<close>

definition sp_construct :: "nat \<Rightarrow> ptr \<Rightarrow> ptr \<Rightarrow> sp_state \<Rightarrow> sp_state" where
  "sp_construct h p c s =
     (if p = 0 then s\<lparr>sp_vars := (sp_vars s)(h \<mapsto> \<lparr>sp_ptr = 0, sp_ref = 0\<rparr>)\<rparr>
      else s\<lparr>sp_vars := (sp_vars s)(h \<mapsto> \<lparr>sp_ptr = p, sp_ref = c\<rparr>), sp_counts := (sp_counts s)(c \<mapsto> 1), sp_raw := sp_raw s - {p}\<rparr>)"


definition sp_copy :: "nat \<Rightarrow> nat \<Rightarrow> sp_state \<Rightarrow> sp_state option" where
  "sp_copy h other s =
     do { x \<leftarrow> sp_vars s other;
          let s = s\<lparr>sp_vars := (sp_vars s)(h \<mapsto> x)\<rparr> in
          if sp_ref x \<noteq> 0 then sp_fetch_add (sp_ref x) s else Some s }"


definition sp_move :: "nat \<Rightarrow> nat \<Rightarrow> sp_state \<Rightarrow> sp_state option" where
  "sp_move h other s =
     do { x \<leftarrow> sp_vars s other;
          Some (s\<lparr>sp_vars := ((sp_vars s)(h \<mapsto> x))(other \<mapsto> \<lparr>sp_ptr = 0, sp_ref = 0\<rparr>)\<rparr>) }"


definition sp_use_count :: "nat \<Rightarrow> sp_state \<Rightarrow> u64 option" where
  "sp_use_count h s = do { x \<leftarrow> sp_vars s h; if sp_ref x \<noteq> 0 then sp_counts s (sp_ref x) else Some 0 }"

definition sp_get :: "nat \<Rightarrow> sp_state \<Rightarrow> ptr option" where
  "sp_get h s = do { x \<leftarrow> sp_vars s h; Some (sp_ptr x) }"

definition sp_deref :: "nat \<Rightarrow> sp_state \<Rightarrow> ptr option" where
  "sp_deref h s = do { p \<leftarrow> sp_get h s; if p \<in> sp_heap s then Some p else None }"


section \<open>Interleaved threads\<close>

text \<open>
  The program allocates objects, and handles are constructed, copied, moved and released. A release is two
  steps; what other threads do with their handles may come between them. There are fewer than \<open>2 ^ 64\<close> handles.
\<close>

inductive sp_step :: "sp_state \<Rightarrow> sp_state \<Rightarrow> bool" where
  alloc: "p \<noteq> 0 \<Longrightarrow> p \<notin> sp_heap s \<Longrightarrow> sp_step s (s\<lparr>sp_heap := insert p (sp_heap s), sp_raw := insert p (sp_raw s)\<rparr>)"
| default: "sp_vars s h = None \<Longrightarrow> sp_step s (sp_default h s)"
| construct: "sp_vars s h = None \<Longrightarrow> p = 0 \<or> p \<in> sp_raw s \<Longrightarrow> c \<noteq> 0 \<Longrightarrow> sp_counts s c = None \<Longrightarrow> sp_step s (sp_construct h p c s)"
| copy: "sp_vars s h = None \<Longrightarrow> card (dom (sp_vars s)) < 2 ^ 64 - 1 \<Longrightarrow> sp_copy h other s = Some s' \<Longrightarrow> sp_step s s'"
| move: "sp_vars s h = None \<Longrightarrow> sp_move h other s = Some s' \<Longrightarrow> sp_step s s'"
| release: "sp_release_count h s = Some s' \<Longrightarrow> sp_step s s'"
| delete: "d \<in> set (sp_dying s) \<Longrightarrow> sp_delete d s = Some s' \<Longrightarrow> sp_step s s'"

abbreviation "sp_reachable s \<equiv> sp_step\<^sup>*\<^sup>* sp_init s"

section \<open>Invariant\<close>

definition sp_owners :: "(nat \<Rightarrow> shared_ptr option) \<Rightarrow> ptr \<Rightarrow> nat set" where
  "sp_owners vars c = {h. \<exists>x. vars h = Some x \<and> sp_ref x = c}"

text \<open>
  The counter of an object is the number of its handles; handles of one object have one counter; a dying object has no handle; and every
  live object is raw, owned or dying.
\<close>

definition sp_handles_ok :: "sp_state \<Rightarrow> bool" where
  "sp_handles_ok s \<longleftrightarrow> finite (dom (sp_vars s)) \<and>
     (\<forall>h x. sp_vars s h = Some x \<longrightarrow> (sp_ptr x = 0 \<longleftrightarrow> sp_ref x = 0) \<and>
        (sp_ref x \<noteq> 0 \<longrightarrow> sp_ptr x \<in> sp_heap s \<and> sp_ptr x \<notin> sp_raw s \<and> sp_counts s (sp_ref x) \<noteq> None)) \<and>
     (\<forall>h x g y. sp_vars s h = Some x \<longrightarrow> sp_vars s g = Some y \<longrightarrow> (sp_ptr x = sp_ptr y \<longleftrightarrow> sp_ref x = sp_ref y))"

definition sp_counts_ok :: "sp_state \<Rightarrow> bool" where
  "sp_counts_ok s \<longleftrightarrow>
     (\<forall>c n. sp_counts s c = Some n \<longrightarrow> c \<noteq> 0 \<and> unat n = card (sp_owners (sp_vars s) c) \<and> (n = 0 \<longrightarrow> c \<in> snd ` set (sp_dying s)))"

definition sp_dying_ok :: "sp_state \<Rightarrow> bool" where
  "sp_dying_ok s \<longleftrightarrow> distinct (map fst (sp_dying s)) \<and> distinct (map snd (sp_dying s)) \<and>
     (\<forall>p c. (p, c) \<in> set (sp_dying s) \<longrightarrow> p \<in> sp_heap s \<and> p \<notin> sp_raw s \<and> sp_counts s c = Some 0 \<and>
        (\<forall>h x. sp_vars s h = Some x \<longrightarrow> sp_ptr x \<noteq> p))"

definition sp_heap_ok :: "sp_state \<Rightarrow> bool" where
  "sp_heap_ok s \<longleftrightarrow> 0 \<notin> sp_heap s \<and> sp_raw s \<subseteq> sp_heap s \<and>
     (\<forall>p \<in> sp_heap s. p \<in> sp_raw s \<or> (\<exists>h x. sp_vars s h = Some x \<and> sp_ptr x = p) \<or> p \<in> fst ` set (sp_dying s))"

definition sp_ok :: "sp_state \<Rightarrow> bool" where
  "sp_ok s \<longleftrightarrow> sp_handles_ok s \<and> sp_counts_ok s \<and> sp_dying_ok s \<and> sp_heap_ok s"

lemma sp_owners_upd:
  "sp_owners (v(h \<mapsto> x)) c = (if sp_ref x = c then insert h (sp_owners v c) else sp_owners v c - {h})"
  "sp_owners (v(h := None)) c = sp_owners v c - {h}"
  by (auto simp: sp_owners_def)

lemma sp_owners_finite: "finite (dom v) \<Longrightarrow> finite (sp_owners v c)"
  by (rule finite_subset [of _ "dom v"]) (auto simp: sp_owners_def)

lemma sp_owners_vacant: "v h = None \<Longrightarrow> h \<notin> sp_owners v c"
  by (simp add: sp_owners_def)

lemma sp_owners_less: "finite (dom v) \<Longrightarrow> card (sp_owners v c) \<le> card (dom v)"
  by (rule card_mono) (auto simp: sp_owners_def)

lemmas sp_ok_defs = sp_ok_def sp_handles_ok_def sp_counts_ok_def sp_dying_ok_def sp_heap_ok_def

lemma sp_handles_okD:
  assumes "sp_ok s"
  shows "finite (dom (sp_vars s))"
    and "sp_vars s h = Some x \<Longrightarrow> sp_ptr x = 0 \<longleftrightarrow> sp_ref x = 0"
    and "sp_vars s h = Some x \<Longrightarrow> sp_ref x \<noteq> 0 \<Longrightarrow> sp_ptr x \<in> sp_heap s \<and> sp_ptr x \<notin> sp_raw s \<and> sp_counts s (sp_ref x) \<noteq> None"
    and "sp_vars s h = Some x \<Longrightarrow> sp_vars s g = Some y \<Longrightarrow> sp_ptr x = sp_ptr y \<longleftrightarrow> sp_ref x = sp_ref y"
  using assms unfolding sp_ok_def sp_handles_ok_def by metis+

lemma sp_counts_okD:
  assumes "sp_ok s" "sp_counts s c = Some n"
  shows "c \<noteq> 0" "unat n = card (sp_owners (sp_vars s) c)" "n = 0 \<Longrightarrow> c \<in> snd ` set (sp_dying s)"
  using assms unfolding sp_ok_def sp_counts_ok_def by metis+

lemma sp_dying_okD:
  assumes "sp_ok s"
  shows "distinct (map fst (sp_dying s))" "distinct (map snd (sp_dying s))"
    and "(p, c) \<in> set (sp_dying s) \<Longrightarrow> p \<in> sp_heap s \<and> p \<notin> sp_raw s \<and> sp_counts s c = Some 0"
    and "(p, c) \<in> set (sp_dying s) \<Longrightarrow> sp_vars s h = Some x \<Longrightarrow> sp_ptr x \<noteq> p"
  using assms unfolding sp_ok_def sp_dying_ok_def by metis+

lemma sp_heap_okD:
  assumes "sp_ok s"
  shows "0 \<notin> sp_heap s" "sp_raw s \<subseteq> sp_heap s"
    and "p \<in> sp_heap s \<Longrightarrow> p \<in> sp_raw s \<or> (\<exists>h x. sp_vars s h = Some x \<and> sp_ptr x = p) \<or> p \<in> fst ` set (sp_dying s)"
  using assms unfolding sp_ok_def sp_heap_ok_def by metis+

lemma sp_ok_init: "sp_ok sp_init"
  by (simp add: sp_ok_defs sp_init_def)

definition sp_handle_ok :: "sp_state \<Rightarrow> shared_ptr \<Rightarrow> bool" where
  "sp_handle_ok s x \<longleftrightarrow> (sp_ptr x = 0 \<longleftrightarrow> sp_ref x = 0) \<and>
     (sp_ref x \<noteq> 0 \<longrightarrow> sp_ptr x \<in> sp_heap s \<and> sp_ptr x \<notin> sp_raw s \<and> sp_counts s (sp_ref x) \<noteq> None)"

lemma sp_handles_okI:
  assumes "finite (dom (sp_vars s))" "\<And>h x. sp_vars s h = Some x \<Longrightarrow> sp_handle_ok s x"
    "\<And>h x g y. sp_vars s h = Some x \<Longrightarrow> sp_vars s g = Some y \<Longrightarrow> sp_ptr x = sp_ptr y \<longleftrightarrow> sp_ref x = sp_ref y"
  shows "sp_handles_ok s"
  using assms unfolding sp_handles_ok_def sp_handle_ok_def by simp

lemma sp_handle_okD: "sp_ok s \<Longrightarrow> sp_vars s h = Some x \<Longrightarrow> sp_handle_ok s x"
  using sp_handles_okD(2,3) [of s h x] by (simp add: sp_handle_ok_def)

lemma sp_dying_okI:
  assumes "distinct (map fst (sp_dying s))" "distinct (map snd (sp_dying s))"
    "\<And>p c. (p, c) \<in> set (sp_dying s) \<Longrightarrow> p \<in> sp_heap s \<and> p \<notin> sp_raw s \<and> sp_counts s c = Some 0"
    "\<And>p c h x. (p, c) \<in> set (sp_dying s) \<Longrightarrow> sp_vars s h = Some x \<Longrightarrow> sp_ptr x \<noteq> p"
  shows "sp_dying_ok s"
  using assms unfolding sp_dying_ok_def by simp

lemma sp_heap_okI:
  assumes "0 \<notin> sp_heap s" "sp_raw s \<subseteq> sp_heap s"
    "\<And>p. p \<in> sp_heap s \<Longrightarrow> p \<in> sp_raw s \<or> (\<exists>h x. sp_vars s h = Some x \<and> sp_ptr x = p) \<or> p \<in> fst ` set (sp_dying s)"
  shows "sp_heap_ok s"
  using assms unfolding sp_heap_ok_def by blast

text \<open>A vacant handle that gets a value.\<close>

lemma sp_handles_put:
  assumes ok: "sp_ok s" and s': "sp_vars s' = (sp_vars s)(h \<mapsto> x)" and x: "sp_handle_ok s' x"
    and old: "\<And>g y. sp_vars s g = Some y \<Longrightarrow> g \<noteq> h \<Longrightarrow> sp_handle_ok s' y \<and> (sp_ptr x = sp_ptr y \<longleftrightarrow> sp_ref x = sp_ref y)"
  shows "sp_handles_ok s'"
proof (rule sp_handles_okI)
  show "finite (dom (sp_vars s'))" using sp_handles_okD(1) [OF ok] by (simp add: s')
  show "sp_handle_ok s' y" if "sp_vars s' g = Some y" for g y
    using that x old [of g y] by (cases "g = h") (auto simp: s')
  show "sp_ptr y = sp_ptr z \<longleftrightarrow> sp_ref y = sp_ref z" if "sp_vars s' g = Some y" "sp_vars s' k = Some z" for g y k z
    using that old [of g y] old [of k z] sp_handles_okD(4) [OF ok, of g y k z] unfolding s'
    by (metis fun_upd_apply option.inject)
qed

lemma sp_ok_alloc:
  assumes "sp_ok s" "p \<noteq> 0" "p \<notin> sp_heap s"
  shows "sp_ok (s\<lparr>sp_heap := insert p (sp_heap s), sp_raw := insert p (sp_raw s)\<rparr>)" (is "sp_ok ?s")
proof -
  note h = sp_handles_okD [OF assms(1)] and d = sp_dying_okD [OF assms(1)]
  have "sp_handle_ok ?s x" if "sp_vars s h = Some x" for h x
    using sp_handle_okD [OF assms(1) that] assms(3) by (auto simp: sp_handle_ok_def)
  then have "sp_handles_ok ?s" using h by (intro sp_handles_okI) auto
  moreover have "sp_dying_ok ?s" using d assms(3) by (intro sp_dying_okI) auto
  ultimately show ?thesis using assms unfolding sp_ok_def sp_counts_ok_def sp_heap_ok_def by auto
qed

lemma sp_ok_null:
  assumes "sp_ok s" "sp_vars s h = None"
  shows "sp_ok (s\<lparr>sp_vars := (sp_vars s)(h \<mapsto> \<lparr>sp_ptr = 0, sp_ref = 0\<rparr>)\<rparr>)" (is "sp_ok ?s")
proof -
  note d = sp_dying_okD [OF assms(1)] and hp = sp_heap_okD [OF assms(1)]
  have o: "sp_owners (sp_vars ?s) c = sp_owners (sp_vars s) c" if "c \<noteq> 0" for c
    using that sp_owners_vacant [of "sp_vars s" h c] assms(2) by (simp add: sp_owners_upd)
  have "sp_handles_ok ?s"
    using sp_handle_okD [OF assms(1)] by (intro sp_handles_put [OF assms(1)]) (auto simp: sp_handle_ok_def)
  moreover have "sp_counts_ok ?s"
    unfolding sp_counts_ok_def using sp_counts_okD [OF assms(1)] o by (simp del: fun_upd_apply)
  moreover have "sp_dying_ok ?s" using d hp(1) by (intro sp_dying_okI) (auto split: if_splits)
  moreover have "sp_heap_ok ?s" unfolding sp_heap_ok_def using hp assms(2) by (auto, metis option.distinct(1))
  ultimately show ?thesis by (simp add: sp_ok_def)
qed

lemma sp_ok_construct:
  assumes "sp_ok s" "sp_vars s h = None" "p = 0 \<or> p \<in> sp_raw s" "c \<noteq> 0" "sp_counts s c = None"
  shows "sp_ok (sp_construct h p c s)" (is "sp_ok ?s")
proof (cases "p = 0")
  case True
  then show ?thesis using sp_ok_null [OF assms(1,2)] by (simp add: sp_construct_def)
next
  case False
  note d = sp_dying_okD [OF assms(1)] and hp = sp_heap_okD [OF assms(1)]
  have p: "p \<in> sp_raw s" "p \<in> sp_heap s" using False assms(3) hp(2) by auto
  have s: "sp_vars ?s = (sp_vars s)(h \<mapsto> \<lparr>sp_ptr = p, sp_ref = c\<rparr>)" "sp_counts ?s = (sp_counts s)(c \<mapsto> 1)"
    "sp_raw ?s = sp_raw s - {p}" "sp_heap ?s = sp_heap s" "sp_dying ?s = sp_dying s"
    using False by (simp_all add: sp_construct_def)
  have old: "sp_ref x \<noteq> c" "sp_ptr x \<noteq> p" if "sp_vars s g = Some x" for g x
    using sp_handle_okD [OF assms(1) that] assms(4,5) p(1) False unfolding sp_handle_ok_def by metis+
  then have none: "sp_owners (sp_vars s) c = {}" by (auto simp: sp_owners_def)
  have o: "sp_owners (sp_vars ?s) c' = (if c' = c then {h} else sp_owners (sp_vars s) c')" for c'
    using none sp_owners_vacant [of "sp_vars s" h c'] assms(2) by (simp add: sp_owners_upd s)
  have "sp_handles_ok ?s"
  proof (rule sp_handles_put [OF assms(1) s(1)])
    show "sp_handle_ok ?s \<lparr>sp_ptr = p, sp_ref = c\<rparr>" using False assms(4) p(2) by (simp add: sp_handle_ok_def s)
    show "sp_handle_ok ?s y \<and> (sp_ptr \<lparr>sp_ptr = p, sp_ref = c\<rparr> = sp_ptr y \<longleftrightarrow> sp_ref \<lparr>sp_ptr = p, sp_ref = c\<rparr> = sp_ref y)"
      if "sp_vars s g = Some y" for g y
      using old [OF that] sp_handle_okD [OF assms(1) that] by (auto simp: sp_handle_ok_def s)
  qed
  moreover have "sp_counts_ok ?s"
    unfolding sp_counts_ok_def o unfolding s using sp_counts_okD [OF assms(1)] assms(4) by (auto split: if_splits)
  moreover have "sp_dying_ok ?s"
    using d(1,2) d(3)  d(4) p(1) assms(5) by (intro sp_dying_okI) (fastforce simp: s split: if_splits)+
  moreover have "sp_heap_ok ?s" unfolding sp_heap_ok_def s using hp assms(2) by (auto, metis option.distinct(1))
  ultimately show ?thesis by (simp add: sp_ok_def)
qed

text \<open>The counter of a handle counts it.\<close>

lemma sp_count_pos:
  assumes ok: "sp_ok s" and x: "sp_vars s h = Some x" "sp_ref x \<noteq> 0"
  obtains n where "sp_counts s (sp_ref x) = Some n" "unat n = card (sp_owners (sp_vars s) (sp_ref x))" "n \<noteq> 0"
    "sp_ref x \<notin> snd ` set (sp_dying s)"
proof -
  obtain n where n: "sp_counts s (sp_ref x) = Some n" using sp_handles_okD(3) [OF ok x] by auto
  have "h \<in> sp_owners (sp_vars s) (sp_ref x)" using x(1) by (simp add: sp_owners_def)
  then have "card (sp_owners (sp_vars s) (sp_ref x)) \<noteq> 0" using sp_owners_finite [OF sp_handles_okD(1) [OF ok]] by auto
  then have "n \<noteq> 0" using sp_counts_okD(2) [OF ok n] by auto
  then show ?thesis using that [OF n] sp_counts_okD(2) [OF ok n] sp_dying_okD(3) [OF ok] n by fastforce
qed

lemma sp_ok_copy:
  assumes ok: "sp_ok s" and h: "sp_vars s h = None" and x: "sp_vars s other = Some x"
    and few: "card (dom (sp_vars s)) < 2 ^ 64 - 1"
  shows "\<exists>s'. sp_copy h other s = Some s' \<and> sp_ok s'"
proof (cases "sp_ref x = 0")
  case True
  then have "x = \<lparr>sp_ptr = 0, sp_ref = 0\<rparr>" using sp_handles_okD(2) [OF ok x] by (cases x) auto
  then show ?thesis using sp_ok_null [OF ok h] x by (simp add: sp_copy_def Let_def)
next
  case False
  obtain n where n: "sp_counts s (sp_ref x) = Some n" "unat n = card (sp_owners (sp_vars s) (sp_ref x))" "n \<noteq> 0"
      "sp_ref x \<notin> snd ` set (sp_dying s)" by (rule sp_count_pos [OF ok x False])
  note d = sp_dying_okD [OF ok] and hp = sp_heap_okD [OF ok] and fin = sp_handles_okD(1) [OF ok]
  let ?s = "s\<lparr>sp_vars := (sp_vars s)(h \<mapsto> x), sp_counts := (sp_counts s)(sp_ref x \<mapsto> n + 1)\<rparr>"
  have "unat n < 2 ^ 64 - 1" using n(2) sp_owners_less [OF fin, of "sp_ref x"] few by simp
  then have n1: "unat (n + 1) = unat n + 1" by (simp add: unat_word_ariths)
  have "sp_handles_ok ?s"
    using sp_handle_okD [OF ok] sp_handle_okD [OF ok x] sp_handles_okD(4) [OF ok x]
    by (intro sp_handles_put [OF ok]) (auto simp: sp_handle_ok_def)
  moreover have "sp_counts_ok ?s"
    unfolding sp_counts_ok_def
  proof (intro allI impI)
    fix c m
    assume m: "sp_counts ?s c = Some m"
    have o: "sp_owners (sp_vars ?s) c = (if c = sp_ref x then insert h (sp_owners (sp_vars s) c) else sp_owners (sp_vars s) c)"
      using sp_owners_vacant [of "sp_vars s" h c, OF h] by (simp add: sp_owners_upd)
    show "c \<noteq> 0 \<and> unat m = card (sp_owners (sp_vars ?s) c) \<and> (m = 0 \<longrightarrow> c \<in> snd ` set (sp_dying ?s))"
    proof (cases "c = sp_ref x")
      case True
      then show ?thesis
        using m n(2) n1 False sp_owners_finite [OF fin] sp_owners_vacant [of "sp_vars s" h, OF h] unfolding o by auto
    next
      case c: False
      then show ?thesis using m sp_counts_okD [OF ok, of c m] unfolding o by simp
    qed
  qed
  moreover have "sp_dying_ok ?s"
    using d n(4) x by (intro sp_dying_okI) (auto split: if_splits intro: rev_image_eqI)
  moreover have "sp_heap_ok ?s" unfolding sp_heap_ok_def using hp h by (auto, metis option.distinct(1))
  ultimately show ?thesis using False x n(1) by (simp add: sp_ok_def sp_copy_def sp_fetch_add_def Let_def)
qed

lemma sp_ok_move:
  assumes ok: "sp_ok s" and h: "sp_vars s h = None" and x: "sp_vars s other = Some x"
  shows "\<exists>s'. sp_move h other s = Some s' \<and> sp_ok s'"
proof -
  let ?s = "s\<lparr>sp_vars := ((sp_vars s)(h \<mapsto> x))(other \<mapsto> \<lparr>sp_ptr = 0, sp_ref = 0\<rparr>)\<rparr>"
  note d = sp_dying_okD [OF ok] and hp = sp_heap_okD [OF ok] and fin = sp_handles_okD(1) [OF ok]
  have ne: "h \<noteq> other" using h x by auto
  have in_s: "\<exists>k. sp_vars s k = Some y \<or> y = \<lparr>sp_ptr = 0, sp_ref = 0\<rparr>" if "sp_vars ?s g = Some y" for g y
    using that x by (auto split: if_splits)
  have null: "sp_handle_ok s \<lparr>sp_ptr = 0, sp_ref = 0\<rparr>" by (simp add: sp_handle_ok_def)
  have "sp_handles_ok ?s"
  proof (rule sp_handles_okI)
    show "finite (dom (sp_vars ?s))" using fin by simp
    show "sp_handle_ok ?s y" if "sp_vars ?s g = Some y" for g y
      using in_s [OF that] sp_handle_okD [OF ok] null by (auto simp: sp_handle_ok_def)
    show "sp_ptr y = sp_ptr z \<longleftrightarrow> sp_ref y = sp_ref z" if "sp_vars ?s g = Some y" "sp_vars ?s k = Some z" for g y k z
      using in_s [OF that(1)] in_s [OF that(2)] sp_handles_okD(2,4) [OF ok] by (metis shared_ptr.select_convs)
  qed
  moreover have "sp_counts_ok ?s"
    unfolding sp_counts_ok_def
  proof (intro allI impI)
    fix c m
    assume "sp_counts ?s c = Some m"
    then have c: "c \<noteq> 0" "unat m = card (sp_owners (sp_vars s) c)" "m = 0 \<Longrightarrow> c \<in> snd ` set (sp_dying s)"
      using sp_counts_okD [OF ok, of c m] by auto
    have "card (sp_owners (sp_vars ?s) c) = card (sp_owners (sp_vars s) c)"
    proof (cases "sp_ref x = c")
      case True
      have "other \<in> sp_owners (sp_vars s) c" using x True by (simp add: sp_owners_def)
      moreover have "h \<notin> sp_owners (sp_vars s) c" using h by (simp add: sp_owners_vacant)
      moreover have "sp_owners (sp_vars ?s) c = insert h (sp_owners (sp_vars s) c - {other})"
        using True c(1) ne by (auto simp: sp_owners_upd)
      ultimately show ?thesis using sp_owners_finite [OF fin, of c] card_Suc_Diff1 [of "sp_owners (sp_vars s) c" other] by simp
    next
      case False
      then have "sp_owners (sp_vars ?s) c = sp_owners (sp_vars s) c" using c(1) h x by (auto simp: sp_owners_def)
      then show ?thesis by simp
    qed
    then show "c \<noteq> 0 \<and> unat m = card (sp_owners (sp_vars ?s) c) \<and> (m = 0 \<longrightarrow> c \<in> snd ` set (sp_dying ?s))"
      using c by simp
  qed
  moreover have "sp_dying_ok ?s"
    using d x hp(1) by (intro sp_dying_okI) (auto split: if_splits)
  moreover have "sp_heap_ok ?s"
  proof -
    have "\<exists>g y. sp_vars ?s g = Some y \<and> sp_ptr y = p" if p: "p \<in> sp_heap s" and "sp_vars s k = Some z" "sp_ptr z = p" for p k z
    proof (cases "k = other")
      case True
      then show ?thesis using that x ne by (intro exI [of _ h]) auto
    next
      case False
      then show ?thesis using that h by (intro exI [of _ k]) auto
    qed
    then have "p \<in> sp_raw ?s \<or> (\<exists>g y. sp_vars ?s g = Some y \<and> sp_ptr y = p) \<or> p \<in> fst ` set (sp_dying ?s)" if "p \<in> sp_heap ?s" for p
      using hp(3) [of p] that by (auto simp del: fun_upd_apply)
    then show ?thesis using hp(1,2) by (intro sp_heap_okI) simp_all
  qed
  ultimately show ?thesis using x by (simp add: sp_ok_def sp_move_def)
qed

lemma sp_ok_release_count:
  assumes ok: "sp_ok s" and x: "sp_vars s h = Some x"
  shows "\<exists>s'. sp_release_count h s = Some s' \<and> sp_ok s' \<and> sp_vars s' = (sp_vars s)(h := None) \<and>
    (sp_dying s' = sp_dying s \<or> sp_dying s' = (sp_ptr x, sp_ref x) # sp_dying s)"
proof -
  note d = sp_dying_okD [OF ok] and hp = sp_heap_okD [OF ok] and fin = sp_handles_okD(1) [OF ok]
  let ?v = "(sp_vars s)(h := None)"
  have old: "sp_vars s g = Some y \<and> g \<noteq> h" if "?v g = Some y" for g y using that by (auto split: if_splits)
  have handles: "sp_handles_ok s'" if "sp_vars s' = ?v" "\<And>y. sp_handle_ok s y \<Longrightarrow> sp_handle_ok s' y" for s'
  proof (rule sp_handles_okI)
    show "finite (dom (sp_vars s'))" using fin by (simp add: that(1))
    show "sp_handle_ok s' y" if y: "sp_vars s' g = Some y" for g y
      using old [of g y] y \<open>sp_vars s' = ?v\<close> \<open>\<And>y. sp_handle_ok s y \<Longrightarrow> sp_handle_ok s' y\<close> sp_handle_okD [OF ok, of g y] by auto
    show "sp_ptr y = sp_ptr z \<longleftrightarrow> sp_ref y = sp_ref z" if y: "sp_vars s' g = Some y" "sp_vars s' k = Some z" for g y k z
      using y old [of g y] old [of k z] sp_handles_okD(4) [OF ok, of g y k z] unfolding \<open>sp_vars s' = ?v\<close> by blast
  qed
  show ?thesis
  proof (cases "sp_ref x = 0")
    case True
    let ?s = "s\<lparr>sp_vars := ?v\<rparr>"
    have "sp_handles_ok ?s" by (rule handles) (auto simp: sp_handle_ok_def)
    moreover have "sp_owners ?v c = sp_owners (sp_vars s) c" if "c \<noteq> 0" for c
      using that True x by (auto simp: sp_owners_def)
    then have "sp_counts_ok ?s" unfolding sp_counts_ok_def using sp_counts_okD [OF ok] by (simp del: fun_upd_apply)
    moreover have "sp_dying_ok ?s" using d by (intro sp_dying_okI) (auto split: if_splits)
    moreover have "sp_heap_ok ?s"
      unfolding sp_heap_ok_def using hp True sp_handles_okD(2) [OF ok x] x by (auto, metis option.inject)
    ultimately show ?thesis using True x by (simp add: sp_ok_def sp_release_count_def Let_def)
  next
    case False
    obtain n where n: "sp_counts s (sp_ref x) = Some n" "unat n = card (sp_owners (sp_vars s) (sp_ref x))" "n \<noteq> 0"
        "sp_ref x \<notin> snd ` set (sp_dying s)" by (rule sp_count_pos [OF ok x False])
    let ?c = "sp_ref x" and ?p = "sp_ptr x"
    let ?s = "s\<lparr>sp_vars := ?v, sp_counts := (sp_counts s)(?c \<mapsto> n - 1), sp_dying := (if n = 1 then [(?p, ?c)] else []) @ sp_dying s\<rparr>"
    have run: "sp_release_count h s = Some ?s" using False x n(1) by (simp add: sp_release_count_def Let_def)
    have n1: "unat (n - 1) = unat n - 1" using n(3) by (rule unat_minus_one)
    have hin: "h \<in> sp_owners (sp_vars s) ?c" using x by (simp add: sp_owners_def)
    have px: "?p \<in> sp_heap s" "?p \<notin> sp_raw s" using sp_handles_okD(3) [OF ok x False] by auto
    have share: "?v g = Some y \<Longrightarrow> sp_ptr y = ?p \<Longrightarrow> g \<in> sp_owners ?v ?c" for g y
      using old [of g y] sp_handles_okD(4) [OF ok x, of g y] unfolding sp_owners_def by (metis (mono_tags, lifting) mem_Collect_eq)
    have o: "card (sp_owners ?v ?c) = unat (n - 1)"
      using n(2) n1 hin sp_owners_finite [OF fin, of ?c] by (simp add: sp_owners_upd)
    have "sp_handles_ok ?s" by (rule handles) (auto simp: sp_handle_ok_def)
    moreover have "sp_counts_ok ?s"
      unfolding sp_counts_ok_def
    proof (intro allI impI)
      fix c m
      assume m: "sp_counts ?s c = Some m"
      show "c \<noteq> 0 \<and> unat m = card (sp_owners (sp_vars ?s) c) \<and> (m = 0 \<longrightarrow> c \<in> snd ` set (sp_dying ?s))"
      proof (cases "c = ?c")
        case True
        then show ?thesis using m o False by (auto simp: right_minus_eq)
      next
        case c: False
        then have "sp_owners ?v c = sp_owners (sp_vars s) c" using x by (auto simp: sp_owners_def)
        then show ?thesis using m c sp_counts_okD [OF ok, of c m] by (auto simp del: fun_upd_apply simp: fun_upd_other)
      qed
    qed
    moreover have "sp_dying_ok ?s"
    proof (rule sp_dying_okI)
      have "?p \<notin> fst ` set (sp_dying s)" using d(4) [OF _ x] by fastforce
      then show "distinct (map fst (sp_dying ?s))" "distinct (map snd (sp_dying ?s))" using d(1,2) n(4) by auto
      show "p \<in> sp_heap ?s \<and> p \<notin> sp_raw ?s \<and> sp_counts ?s c = Some 0" if "(p, c) \<in> set (sp_dying ?s)" for p c
        using that d(3) px n(4) by (auto split: if_splits intro: rev_image_eqI)
      show "sp_ptr y \<noteq> p" if a: "(p, c) \<in> set (sp_dying ?s)" and b: "sp_vars ?s g = Some y" for p c g y
      proof (cases "n = 1 \<and> (p, c) = (?p, ?c)")
        case True
        then have "sp_owners ?v ?c = {}" using o sp_owners_finite [of ?v ?c] fin by simp
        then show ?thesis using share [of g y] b True by auto
      next
        case False
        then show ?thesis using a b d(4) [of p c g y] by (auto split: if_splits)
      qed
    qed
    moreover have "sp_heap_ok ?s"
    proof -
      have "\<exists>g y. ?v g = Some y \<and> sp_ptr y = ?p" if "n \<noteq> 1"
      proof -
        have "n - 1 \<noteq> 0" using that by (simp add: right_minus_eq)
        then have "card (sp_owners ?v ?c) \<noteq> 0" using o by (simp add: unat_eq_zero)
        then have "sp_owners ?v ?c \<noteq> {}" by auto
        then obtain g y where "?v g = Some y" "sp_ref y = ?c" unfolding sp_owners_def by auto
        then show ?thesis using old [of g y] sp_handles_okD(4) [OF ok x, of g y] by (metis)
      qed
      moreover have "\<exists>g y. ?v g = Some y \<and> sp_ptr y = p" if "sp_vars s k = Some y" "sp_ptr y = p" "p \<noteq> ?p" for k y p
        using that x by (intro exI [of _ k]) auto
      ultimately have "p \<in> sp_raw ?s \<or> (\<exists>g y. sp_vars ?s g = Some y \<and> sp_ptr y = p) \<or> p \<in> fst ` set (sp_dying ?s)" if "p \<in> sp_heap ?s" for p
        using hp(3) [of p] that by (cases "p = ?p"; cases "n = 1") (auto simp del: fun_upd_apply)
      then show ?thesis using hp(1,2) by (intro sp_heap_okI) simp_all
    qed
    ultimately show ?thesis using run by (simp add: sp_ok_def)
  qed
qed

lemma sp_ok_delete:
  assumes ok: "sp_ok s" and dy: "d \<in> set (sp_dying s)"
  shows "\<exists>s'. sp_delete d s = Some s' \<and> sp_ok s' \<and> sp_vars s' = sp_vars s"
proof -
  obtain p c where pc: "d = (p, c)" by (cases d)
  note d = sp_dying_okD [OF ok] and hp = sp_heap_okD [OF ok] and fin = sp_handles_okD(1) [OF ok]
  have in_d: "p \<in> sp_heap s" "sp_counts s c = Some 0" "p \<notin> sp_raw s" using d(3) dy pc by auto
  let ?s = "s\<lparr>sp_heap := sp_heap s - {p}, sp_counts := (sp_counts s)(c := None), sp_dying := remove1 d (sp_dying s)\<rparr>"
  have run: "sp_delete d s = Some ?s" using in_d by (simp add: sp_delete_def pc)
  have dist: "distinct (sp_dying s)" using d(1) by (simp add: distinct_map)
  have rest: "(q, e) \<in> set (sp_dying s) \<and> q \<noteq> p \<and> e \<noteq> c" if "(q, e) \<in> set (remove1 d (sp_dying s))" for q e
  proof -
    have *: "(q, e) \<in> set (sp_dying s)" "(q, e) \<noteq> (p, c)" using that dist pc by auto
    moreover have "q \<noteq> p" using * dy d(1) pc by (metis eq_key_imp_eq_value)
    moreover have "e \<noteq> c" using * dy d(2) pc by (metis distinct_map inj_on_eq_iff snd_conv)
    ultimately show ?thesis by blast
  qed
  have "sp_ref y \<noteq> c" "sp_ptr y \<noteq> p" if y: "sp_vars s g = Some y" for g y
  proof -
    show "sp_ptr y \<noteq> p" using d(4) [of p c g y] dy pc y by auto
    have "sp_owners (sp_vars s) c = {}" using sp_counts_okD(2) [OF ok in_d(2)] sp_owners_finite [OF fin, of c] by simp
    then show "sp_ref y \<noteq> c" using y by (auto simp: sp_owners_def)
  qed
  note no = this
  have "sp_handles_ok ?s"
    using fin no sp_handle_okD [OF ok] sp_handles_okD(4) [OF ok] by (intro sp_handles_okI) (auto simp: sp_handle_ok_def)
  moreover have "sp_counts_ok ?s"
    unfolding sp_counts_ok_def
  proof (intro allI impI)
    fix c' m
    assume m: "sp_counts ?s c' = Some m"
    then have c': "c' \<noteq> c" "sp_counts s c' = Some m" by (auto split: if_splits)
    have "c' \<in> snd ` set (remove1 d (sp_dying s))" if "c' \<in> snd ` set (sp_dying s)"
      using that c'(1) pc unfolding image_iff by (metis in_set_remove1 snd_conv)
    then show "c' \<noteq> 0 \<and> unat m = card (sp_owners (sp_vars ?s) c') \<and> (m = 0 \<longrightarrow> c' \<in> snd ` set (sp_dying ?s))"
      using sp_counts_okD [OF ok c'(2)] by simp
  qed
  moreover have "sp_dying_ok ?s"
  proof (rule sp_dying_okI)
    show "distinct (map fst (sp_dying ?s))" "distinct (map snd (sp_dying ?s))"
      using d(1,2) by (auto simp: distinct_map distinct_remove1 intro: inj_on_subset dest: notin_set_remove1)
    show "q \<in> sp_heap ?s \<and> q \<notin> sp_raw ?s \<and> sp_counts ?s e = Some 0" if "(q, e) \<in> set (sp_dying ?s)" for q e
      using rest [of q e] d(3) [of q e] that by auto
    show "sp_ptr y \<noteq> q" if "(q, e) \<in> set (sp_dying ?s)" "sp_vars ?s g = Some y" for q e g y
      using rest [of q e] d(4) [of q e g y] that by auto
  qed
  moreover have "sp_heap_ok ?s"
  proof -
    have "q \<in> fst ` set (remove1 d (sp_dying s))" if "q \<in> fst ` set (sp_dying s)" "q \<noteq> p" for q
      using that pc unfolding image_iff by (metis in_set_remove1 fst_conv)
    then have "q \<in> sp_raw ?s \<or> (\<exists>g y. sp_vars ?s g = Some y \<and> sp_ptr y = q) \<or> q \<in> fst ` set (sp_dying ?s)" if "q \<in> sp_heap ?s" for q
      using hp(3) [of q] that by auto
    then show ?thesis using hp(1,2) in_d(3) by (intro sp_heap_okI) auto
  qed
  ultimately show ?thesis using run by (simp add: sp_ok_def)
qed

lemma sp_step_ok: "sp_step s s' \<Longrightarrow> sp_ok s \<Longrightarrow> sp_ok s'"
proof (induction rule: sp_step.induct)
  case (default s h)
  then show ?case using sp_ok_null by (simp add: sp_default_def)
next
  case (copy s h other s')
  then obtain x where "sp_vars s other = Some x" by (auto simp: sp_copy_def bind_eq_Some_conv)
  then show ?case using sp_ok_copy [of s h other x] copy by auto
next
  case (move s h other s')
  then obtain x where "sp_vars s other = Some x" by (auto simp: sp_move_def bind_eq_Some_conv)
  then show ?case using sp_ok_move [of s h other x] move by auto
next
  case (release h s s')
  then obtain x where "sp_vars s h = Some x" by (auto simp: sp_release_count_def bind_eq_Some_conv)
  then show ?case using sp_ok_release_count [of s h x] release by auto
next
  case (delete d s s')
  then show ?case using sp_ok_delete [of s d] by auto
qed (simp_all add: sp_ok_alloc sp_ok_construct)

lemma sp_reachable_ok: "sp_step\<^sup>*\<^sup>* s s' \<Longrightarrow> sp_ok s \<Longrightarrow> sp_ok s'"
  by (induction rule: rtranclp_induct) (auto intro: sp_step_ok)


section \<open>Properties\<close>

text \<open>
  C21: For objects that hold no handles themselves: However the threads are interleaved, a handle that is not null points to a live object, \<open>use_count\<close> is the number of its
  handles, a handle can be released, and an object whose last handle was released is deleted without touching freed memory; when there is no handle and
  nothing left to delete, all objects that were given to a handle and all counters are freed.
\<close>

theorem shared_ptr_safe:
  assumes "sp_reachable s"
  shows "(\<forall>h x. sp_vars s h = Some x \<longrightarrow>
      sp_use_count h s = Some (if sp_ref x = 0 then 0 else of_nat (card (sp_owners (sp_vars s) (sp_ref x)))) \<and>
      (sp_ptr x \<noteq> 0 \<longrightarrow> sp_deref h s = Some (sp_ptr x)) \<and> (\<exists>s'. sp_release_count h s = Some s')) \<and>
    (\<forall>d \<in> set (sp_dying s). \<exists>s'. sp_delete d s = Some s') \<and>
    (sp_vars s = (\<lambda>_. None) \<longrightarrow> sp_dying s = [] \<longrightarrow> sp_heap s = sp_raw s \<and> sp_counts s = (\<lambda>_. None))"
proof (intro conjI allI impI ballI)
  have ok: "sp_ok s" using sp_reachable_ok [OF assms sp_ok_init] .
  { fix h x
    assume x: "sp_vars s h = Some x"
    show "sp_use_count h s = Some (if sp_ref x = 0 then 0 else of_nat (card (sp_owners (sp_vars s) (sp_ref x))))"
    proof (cases "sp_ref x = 0")
      case False
      obtain n where "sp_counts s (sp_ref x) = Some n" "unat n = card (sp_owners (sp_vars s) (sp_ref x))"
        by (rule sp_count_pos [OF ok x False])
      then show ?thesis using x False by (simp add: sp_use_count_def flip: \<open>unat n = _\<close>)
    qed (simp add: sp_use_count_def x)
    show "sp_deref h s = Some (sp_ptr x)" if "sp_ptr x \<noteq> 0"
      using x that sp_handle_okD [OF ok x] by (simp add: sp_deref_def sp_get_def sp_handle_ok_def)
    show "\<exists>s'. sp_release_count h s = Some s'" using sp_ok_release_count [OF ok x] by blast }
  show "\<exists>s'. sp_delete d s = Some s'" if "d \<in> set (sp_dying s)" for d using sp_ok_delete [OF ok that] by blast
  assume none: "sp_vars s = (\<lambda>_. None)" "sp_dying s = []"
  then show "sp_heap s = sp_raw s" using sp_heap_okD [OF ok] by auto
  show "sp_counts s = (\<lambda>_. None)"
  proof
    show "sp_counts s c = None" for c
    proof (cases "sp_counts s c")
      case (Some n)
      moreover have "sp_owners (sp_vars s) c = {}" using none by (simp add: sp_owners_def)
      ultimately show ?thesis using sp_counts_okD [OF ok Some] none by (simp add: unat_eq_zero)
    qed simp
  qed
qed

text \<open>One object, two handles, both released with the deletion still to come.\<close>

definition sp_example :: "sp_state option" where
  "sp_example =
     do { s \<leftarrow> sp_copy 1 0 (sp_construct 0 5 9 (sp_init\<lparr>sp_heap := {5}, sp_raw := {5}\<rparr>));
          s \<leftarrow> sp_release_count 0 s;
          sp_release_count 1 s }"

theorem shared_ptr_safe_witness:
  "\<exists>s s'. sp_example = Some s \<and> sp_dying s = [(5, 9)] \<and> sp_delete (5, 9) s = Some s' \<and> sp_heap s' = {}"
proof -
  let ?s1 = "sp_construct 0 5 9 (sp_init\<lparr>sp_heap := {5}, sp_raw := {5}\<rparr>)"
  have 1: "sp_step sp_init (sp_init\<lparr>sp_heap := {5}, sp_raw := {5}\<rparr>)" using sp_step.alloc [of 5 sp_init] by (simp add: sp_init_def)
  have 2: "sp_step (sp_init\<lparr>sp_heap := {5}, sp_raw := {5}\<rparr>) ?s1" by (rule sp_step.construct) (simp_all add: sp_init_def)
  let ?x = "\<lparr>sp_ptr = 5, sp_ref = 9\<rparr>"
  let ?st = "\<lambda>v n d. \<lparr>sp_heap = {5}, sp_counts = [9 \<mapsto> n], sp_vars = v, sp_raw = {}, sp_dying = d\<rparr> :: sp_state"
  have s1: "?s1 = ?st [0 \<mapsto> ?x] 1 []" by (simp add: sp_construct_def sp_init_def)
  have 3: "sp_copy 1 0 ?s1 = Some (?st [0 \<mapsto> ?x, 1 \<mapsto> ?x] 2 [])" by (simp add: s1 sp_copy_def sp_fetch_add_def Let_def)
  have 4: "sp_release_count 0 (?st [0 \<mapsto> ?x, 1 \<mapsto> ?x] 2 []) = Some (?st [1 \<mapsto> ?x] 1 [])"
    by (simp add: sp_release_count_def Let_def fun_eq_iff)
  have 5: "sp_release_count 1 (?st [1 \<mapsto> ?x] 1 []) = Some (?st (\<lambda>_. None) 0 [(5, 9)])"
    by (simp add: sp_release_count_def Let_def)
  have "sp_step ?s1 (?st [0 \<mapsto> ?x, 1 \<mapsto> ?x] 2 [])" by (rule sp_step.copy [OF _ _ 3]) (simp_all add: s1)
  then have "sp_reachable (?st [0 \<mapsto> ?x, 1 \<mapsto> ?x] 2 [])"
    by (rule rtranclp.rtrancl_into_rtrancl [OF rtranclp.rtrancl_into_rtrancl [OF r_into_rtranclp [of sp_step, OF 1] 2]])
  then have "sp_reachable (?st [1 \<mapsto> ?x] 1 [])" using sp_step.release [OF 4] by (rule rtranclp.rtrancl_into_rtrancl)
  then have "sp_reachable (?st (\<lambda>_. None) 0 [(5, 9)])" using sp_step.release [OF 5] by (rule rtranclp.rtrancl_into_rtrancl)
  from shared_ptr_safe [OF this] obtain s' where s': "sp_delete (5, 9) (?st (\<lambda>_. None) 0 [(5, 9)]) = Some s'" by auto
  then have "sp_heap s' = {}" by (auto simp: sp_delete_def split: if_splits)
  moreover have "sp_example = Some (?st (\<lambda>_. None) 0 [(5, 9)])" using 3 4 5 by (simp add: sp_example_def)
  ultimately show ?thesis using s' by (intro exI [of _ "?st (\<lambda>_. None) 0 [(5, 9)]"] exI [of _ s']) simp
qed



end
