(* ===== verification/RbTree.thy ===== *)
theory RbTree
  imports Prelude
begin

text \<open>
  The red-black tree of \<^verbatim>\<open>timer/rbtree.c\<close> and \<^verbatim>\<open>timer/rbtree.h\<close> with its parent pointers and the sentinel. The nodes are in a store with
  one function per field, and \<open>rt_live\<close> has the addresses of the nodes that exist, the sentinel among them; an
  access to any other address has no result. The left and the right link are one field with a side, so that the two mirrored
  halves of the code are one definition with the side as a parameter: \<open>True\<close> is left.
\<close>

section \<open>Model\<close>

record ngx_rbtree =
  rt_root :: ptr
  rt_sentinel :: ptr
  rt_live :: "ptr set"
  rt_key :: "ptr \<Rightarrow> u32"
  rt_link :: "bool \<Rightarrow> ptr \<Rightarrow> ptr"
  rt_parent :: "ptr \<Rightarrow> ptr"
  rt_red :: "ptr \<Rightarrow> bool"

subsection \<open>Accesses\<close>

definition get_link :: "bool \<Rightarrow> ptr \<Rightarrow> ngx_rbtree \<Rightarrow> ptr option" where
  "get_link d p s = (if p \<in> rt_live s then Some (rt_link s d p) else None)"

definition put_link :: "bool \<Rightarrow> ptr \<Rightarrow> ptr \<Rightarrow> ngx_rbtree \<Rightarrow> ngx_rbtree option" where
  "put_link d p q s =
     (if p \<in> rt_live s then Some (s\<lparr>rt_link := (rt_link s)(d := (rt_link s d)(p := q))\<rparr>) else None)"

definition get_parent :: "ptr \<Rightarrow> ngx_rbtree \<Rightarrow> ptr option" where
  "get_parent p s = (if p \<in> rt_live s then Some (rt_parent s p) else None)"

definition put_parent :: "ptr \<Rightarrow> ptr \<Rightarrow> ngx_rbtree \<Rightarrow> ngx_rbtree option" where
  "put_parent p q s = (if p \<in> rt_live s then Some (s\<lparr>rt_parent := (rt_parent s)(p := q)\<rparr>) else None)"

definition ngx_rbt_is_red :: "ptr \<Rightarrow> ngx_rbtree \<Rightarrow> bool option" where
  "ngx_rbt_is_red p s = (if p \<in> rt_live s then Some (rt_red s p) else None)"

definition ngx_rbt_color :: "bool \<Rightarrow> ptr \<Rightarrow> ngx_rbtree \<Rightarrow> ngx_rbtree option" where
  "ngx_rbt_color red p s = (if p \<in> rt_live s then Some (s\<lparr>rt_red := (rt_red s)(p := red)\<rparr>) else None)"

definition ngx_rbt_red :: "ptr \<Rightarrow> ngx_rbtree \<Rightarrow> ngx_rbtree option" where
  "ngx_rbt_red = ngx_rbt_color True"

definition ngx_rbt_black :: "ptr \<Rightarrow> ngx_rbtree \<Rightarrow> ngx_rbtree option" where
  "ngx_rbt_black = ngx_rbt_color False"

definition ngx_rbt_copy_color :: "ptr \<Rightarrow> ptr \<Rightarrow> ngx_rbtree \<Rightarrow> ngx_rbtree option" where
  "ngx_rbt_copy_color n1 n2 s = do { c \<leftarrow> ngx_rbt_is_red n2 s; ngx_rbt_color c n1 s }"

definition get_key :: "ptr \<Rightarrow> ngx_rbtree \<Rightarrow> u32 option" where
  "get_key p s = (if p \<in> rt_live s then Some (rt_key s p) else None)"

text \<open>\<open>ngx_rbtree_init\<close>, given the sentinel.\<close>

definition ngx_rbtree_init :: "ptr \<Rightarrow> ngx_rbtree \<Rightarrow> ngx_rbtree option" where
  "ngx_rbtree_init sn s = do { s \<leftarrow> ngx_rbt_black sn s; Some (s\<lparr>rt_root := sn, rt_sentinel := sn\<rparr>) }"

subsection \<open>Rotations\<close>

text \<open>\<open>ngx_rbtree_left_rotate\<close> for \<open>d = True\<close>, \<open>ngx_rbtree_right_rotate\<close> for \<open>d = False\<close>.\<close>

definition rbt_rotate :: "bool \<Rightarrow> ptr \<Rightarrow> ngx_rbtree \<Rightarrow> ngx_rbtree option" where
  "rbt_rotate d node s =
     do { temp \<leftarrow> get_link (\<not> d) node s;
          inner \<leftarrow> get_link d temp s;
          s \<leftarrow> put_link (\<not> d) node inner s;
          inner \<leftarrow> get_link d temp s;
          s \<leftarrow> (if inner \<noteq> rt_sentinel s then put_parent inner node s else Some s);
          up \<leftarrow> get_parent node s;
          s \<leftarrow> put_parent temp up s;
          s \<leftarrow> (if node = rt_root s then Some (s\<lparr>rt_root := temp\<rparr>)
               else
                 do { up \<leftarrow> get_parent node s;
                      c \<leftarrow> get_link d up s;
                      if node = c then put_link d up temp s else put_link (\<not> d) up temp s });
          s \<leftarrow> put_link d temp node s;
          put_parent node temp s }"

subsection \<open>Insertion\<close>

text \<open>
  The descent of \<open>ngx_rbtree_insert_value\<close> and \<open>ngx_rbtree_insert_timer_value\<close>, which only differ in the comparison: the last
  node and the side on which the new node is hung.
\<close>

partial_function (option) rbt_descend :: "(u32 \<Rightarrow> u32 \<Rightarrow> bool) \<Rightarrow> ptr \<Rightarrow> ptr \<Rightarrow> ngx_rbtree \<Rightarrow> (ptr \<times> bool) option" where
  "rbt_descend lt temp node s =
     do { k \<leftarrow> get_key node s;
          l \<leftarrow> get_key temp s;
          let d = lt k l;
          p \<leftarrow> get_link d temp s;
          if p = rt_sentinel s then Some (temp, d) else rbt_descend lt p node s }"

declare rbt_descend.simps [code]

definition rbt_insert_by :: "(u32 \<Rightarrow> u32 \<Rightarrow> bool) \<Rightarrow> ptr \<Rightarrow> ptr \<Rightarrow> ngx_rbtree \<Rightarrow> ngx_rbtree option" where
  "rbt_insert_by lt temp node s =
     do { (temp, d) \<leftarrow> rbt_descend lt temp node s;
          s \<leftarrow> put_link d temp node s;
          s \<leftarrow> put_parent node temp s;
          s \<leftarrow> put_link True node (rt_sentinel s) s;
          s \<leftarrow> put_link False node (rt_sentinel s) s;
          ngx_rbt_red node s }"

definition ngx_rbtree_insert_value :: "ptr \<Rightarrow> ptr \<Rightarrow> ngx_rbtree \<Rightarrow> ngx_rbtree option" where
  "ngx_rbtree_insert_value = rbt_insert_by (\<lambda>a b. a < b)"

definition timer_less :: "u32 \<Rightarrow> u32 \<Rightarrow> bool" where
  "timer_less a b \<longleftrightarrow> sint (a - b) < 0"

definition ngx_rbtree_insert_timer_value :: "ptr \<Rightarrow> ptr \<Rightarrow> ngx_rbtree \<Rightarrow> ngx_rbtree option" where
  "ngx_rbtree_insert_timer_value = rbt_insert_by timer_less"

text \<open>
  One round of the loop that balances the tree: the body of the branch where the parent of \<open>node\<close> is the child of its
  parent on side \<open>d\<close>. The result is the new \<open>node\<close>.
\<close>

definition rbt_insert_side :: "bool \<Rightarrow> ptr \<Rightarrow> ptr \<Rightarrow> ptr \<Rightarrow> ngx_rbtree \<Rightarrow> (ptr \<times> ngx_rbtree) option" where
  "rbt_insert_side d node parent grand s =
     do { temp \<leftarrow> get_link (\<not> d) grand s;
          red \<leftarrow> ngx_rbt_is_red temp s;
          if red then
            do { s \<leftarrow> ngx_rbt_black parent s;
                 s \<leftarrow> ngx_rbt_black temp s;
                 s \<leftarrow> ngx_rbt_red grand s;
                 Some (grand, s) }
          else
            do { c \<leftarrow> get_link (\<not> d) parent s;
                 (node, s) \<leftarrow> (if node = c then do { s \<leftarrow> rbt_rotate d parent s; Some (parent, s) } else Some (node, s));
                 parent \<leftarrow> get_parent node s;
                 s \<leftarrow> ngx_rbt_black parent s;
                 grand \<leftarrow> get_parent parent s;
                 s \<leftarrow> ngx_rbt_red grand s;
                 s \<leftarrow> rbt_rotate (\<not> d) grand s;
                 Some (node, s) } }"

definition rbt_insert_round :: "ptr \<Rightarrow> ngx_rbtree \<Rightarrow> (ptr \<times> ngx_rbtree) option" where
  "rbt_insert_round node s =
     do { parent \<leftarrow> get_parent node s;
          grand \<leftarrow> get_parent parent s;
          l \<leftarrow> get_link True grand s;
          rbt_insert_side (parent = l) node parent grand s }"

partial_function (option) rbt_insert_loop :: "ptr \<Rightarrow> ngx_rbtree \<Rightarrow> ngx_rbtree option" where
  "rbt_insert_loop node s =
     (if node = rt_root s then Some s
      else
        do { parent \<leftarrow> get_parent node s;
             red \<leftarrow> ngx_rbt_is_red parent s;
             if red then do { (node, s) \<leftarrow> rbt_insert_round node s; rbt_insert_loop node s } else Some s })"

declare rbt_insert_loop.simps [code]

text \<open>The function \<open>ins\<close> is the member \<open>insert\<close> of the tree.\<close>

definition ngx_rbtree_insert :: "(ptr \<Rightarrow> ptr \<Rightarrow> ngx_rbtree \<Rightarrow> ngx_rbtree option) \<Rightarrow> ptr \<Rightarrow> ngx_rbtree \<Rightarrow> ngx_rbtree option" where
  "ngx_rbtree_insert ins node s =
     (if rt_root s = rt_sentinel s then
        do { s \<leftarrow> put_parent node 0 s;
             s \<leftarrow> put_link True node (rt_sentinel s) s;
             s \<leftarrow> put_link False node (rt_sentinel s) s;
             s \<leftarrow> ngx_rbt_black node s;
             Some (s\<lparr>rt_root := node\<rparr>) }
      else
        do { s \<leftarrow> ins (rt_root s) node s;
             s \<leftarrow> rbt_insert_loop node s;
             ngx_rbt_black (rt_root s) s })"

subsection \<open>Traversal\<close>

partial_function (option) ngx_rbtree_min :: "ptr \<Rightarrow> ngx_rbtree \<Rightarrow> ptr option" where
  "ngx_rbtree_min node s =
     do { l \<leftarrow> get_link True node s;
          if l \<noteq> rt_sentinel s then ngx_rbtree_min l s else Some node }"

declare ngx_rbtree_min.simps [code]

partial_function (option) rbt_next_up :: "ptr \<Rightarrow> ngx_rbtree \<Rightarrow> ptr option" where
  "rbt_next_up node s =
     do { parent \<leftarrow> get_parent node s;
          if node = rt_root s then Some 0
          else
            do { l \<leftarrow> get_link True parent s;
                 if node = l then Some parent else rbt_next_up parent s } }"

declare rbt_next_up.simps [code]

definition ngx_rbtree_next :: "ptr \<Rightarrow> ngx_rbtree \<Rightarrow> ptr option" where
  "ngx_rbtree_next node s =
     do { r \<leftarrow> get_link False node s;
          if r \<noteq> rt_sentinel s then ngx_rbtree_min r s else rbt_next_up node s }"

subsection \<open>Deletion\<close>

text \<open>\<open>DEBUG stuff\<close>: the fields of the removed node.\<close>

definition rbt_clear_node :: "ptr \<Rightarrow> ngx_rbtree \<Rightarrow> ngx_rbtree option" where
  "rbt_clear_node node s =
     do { s \<leftarrow> put_link True node 0 s;
          s \<leftarrow> put_link False node 0 s;
          s \<leftarrow> put_parent node 0 s;
          Some (s\<lparr>rt_key := (rt_key s)(node := 0)\<rparr>) }"

text \<open>
  One round of the loop after the removal: the branch where \<open>temp\<close> is the child of its parent on side \<open>d\<close>. First the sibling
  \<open>w\<close>, which is black after a rotation.
\<close>

definition rbt_delete_sibling :: "bool \<Rightarrow> ptr \<Rightarrow> ngx_rbtree \<Rightarrow> (ptr \<times> ngx_rbtree) option" where
  "rbt_delete_sibling d temp s =
     do { parent \<leftarrow> get_parent temp s;
          w \<leftarrow> get_link (\<not> d) parent s;
          red \<leftarrow> ngx_rbt_is_red w s;
          if red then
            do { s \<leftarrow> ngx_rbt_black w s;
                 s \<leftarrow> ngx_rbt_red parent s;
                 s \<leftarrow> rbt_rotate d parent s;
                 parent \<leftarrow> get_parent temp s;
                 w \<leftarrow> get_link (\<not> d) parent s;
                 Some (w, s) }
          else Some (w, s) }"

text \<open>The case of a sibling with a red child.\<close>

definition rbt_delete_rotate :: "bool \<Rightarrow> ptr \<Rightarrow> ptr \<Rightarrow> ngx_rbtree \<Rightarrow> (ptr \<times> ngx_rbtree) option" where
  "rbt_delete_rotate d temp w s =
     do { far \<leftarrow> get_link (\<not> d) w s;
          far_red \<leftarrow> ngx_rbt_is_red far s;
          (w, s) \<leftarrow> (if \<not> far_red then
                      do { near \<leftarrow> get_link d w s;
                           s \<leftarrow> ngx_rbt_black near s;
                           s \<leftarrow> ngx_rbt_red w s;
                           s \<leftarrow> rbt_rotate (\<not> d) w s;
                           parent \<leftarrow> get_parent temp s;
                           w \<leftarrow> get_link (\<not> d) parent s;
                           Some (w, s) }
                    else Some (w, s));
          parent \<leftarrow> get_parent temp s;
          s \<leftarrow> ngx_rbt_copy_color w parent s;
          s \<leftarrow> ngx_rbt_black parent s;
          far \<leftarrow> get_link (\<not> d) w s;
          s \<leftarrow> ngx_rbt_black far s;
          s \<leftarrow> rbt_rotate d parent s;
          Some (rt_root s, s) }"

definition rbt_delete_side :: "bool \<Rightarrow> ptr \<Rightarrow> ngx_rbtree \<Rightarrow> (ptr \<times> ngx_rbtree) option" where
  "rbt_delete_side d temp s =
     do { (w, s) \<leftarrow> rbt_delete_sibling d temp s;
          l \<leftarrow> get_link True w s;
          r \<leftarrow> get_link False w s;
          l_red \<leftarrow> ngx_rbt_is_red l s;
          r_red \<leftarrow> ngx_rbt_is_red r s;
          if \<not> l_red \<and> \<not> r_red then
            do { s \<leftarrow> ngx_rbt_red w s;
                 parent \<leftarrow> get_parent temp s;
                 Some (parent, s) }
          else rbt_delete_rotate d temp w s }"

definition rbt_delete_round :: "ptr \<Rightarrow> ngx_rbtree \<Rightarrow> (ptr \<times> ngx_rbtree) option" where
  "rbt_delete_round temp s =
     do { parent \<leftarrow> get_parent temp s;
          l \<leftarrow> get_link True parent s;
          rbt_delete_side (temp = l) temp s }"

partial_function (option) rbt_delete_loop :: "ptr \<Rightarrow> ngx_rbtree \<Rightarrow> (ptr \<times> ngx_rbtree) option" where
  "rbt_delete_loop temp s =
     (if temp = rt_root s then Some (temp, s)
      else
        do { red \<leftarrow> ngx_rbt_is_red temp s;
             if red then Some (temp, s)
             else do { (temp, s) \<leftarrow> rbt_delete_round temp s; rbt_delete_loop temp s } })"

declare rbt_delete_loop.simps [code]

text \<open>The node that is unlinked, \<open>subst\<close>, and the one that takes its place, \<open>temp\<close>.\<close>

definition rbt_choose :: "ptr \<Rightarrow> ngx_rbtree \<Rightarrow> (ptr \<times> ptr) option" where
  "rbt_choose node s =
     do { l \<leftarrow> get_link True node s;
          r \<leftarrow> get_link False node s;
          if l = rt_sentinel s then Some (node, r)
          else if r = rt_sentinel s then Some (node, l)
          else
            do { subst \<leftarrow> ngx_rbtree_min r s;
                 sl \<leftarrow> get_link True subst s;
                 sr \<leftarrow> get_link False subst s;
                 Some (subst, if sl \<noteq> rt_sentinel s then sl else sr) } }"

text \<open>The link from the parent of \<open>node\<close> gets a new value, on the side where \<open>node\<close> is.\<close>

definition rbt_replace_child :: "ptr \<Rightarrow> ptr \<Rightarrow> ngx_rbtree \<Rightarrow> ngx_rbtree option" where
  "rbt_replace_child node new s =
     do { up \<leftarrow> get_parent node s;
          l \<leftarrow> get_link True up s;
          if node = l then put_link True up new s else put_link False up new s }"

text \<open>\<open>subst\<close> takes the place of \<open>node\<close>, after the parent of \<open>temp\<close> is set.\<close>

definition rbt_take_place :: "ptr \<Rightarrow> ptr \<Rightarrow> ngx_rbtree \<Rightarrow> ngx_rbtree option" where
  "rbt_take_place node subst s =
     do { l \<leftarrow> get_link True node s;
          s \<leftarrow> put_link True subst l s;
          r \<leftarrow> get_link False node s;
          s \<leftarrow> put_link False subst r s;
          up \<leftarrow> get_parent node s;
          s \<leftarrow> put_parent subst up s;
          s \<leftarrow> ngx_rbt_copy_color subst node s;
          s \<leftarrow> (if node = rt_root s then Some (s\<lparr>rt_root := subst\<rparr>) else rbt_replace_child node subst s);
          l \<leftarrow> get_link True subst s;
          s \<leftarrow> (if l \<noteq> rt_sentinel s then put_parent l subst s else Some s);
          r \<leftarrow> get_link False subst s;
          if r \<noteq> rt_sentinel s then put_parent r subst s else Some s }"

definition rbt_substitute :: "ptr \<Rightarrow> ptr \<Rightarrow> ptr \<Rightarrow> ngx_rbtree \<Rightarrow> ngx_rbtree option" where
  "rbt_substitute node subst temp s =
     do { up \<leftarrow> get_parent subst s;
          s \<leftarrow> (if up = node then put_parent temp subst s else put_parent temp up s);
          rbt_take_place node subst s }"

definition ngx_rbtree_delete :: "ptr \<Rightarrow> ngx_rbtree \<Rightarrow> ngx_rbtree option" where
  "ngx_rbtree_delete node s =
     do { (subst, temp) \<leftarrow> rbt_choose node s;
          if subst = rt_root s then
            do { s \<leftarrow> ngx_rbt_black temp (s\<lparr>rt_root := temp\<rparr>);
                 rbt_clear_node node s }
          else
            do { red \<leftarrow> ngx_rbt_is_red subst s;
                 s \<leftarrow> rbt_replace_child subst temp s;
                 s \<leftarrow> (if subst = node then do { up \<leftarrow> get_parent subst s; put_parent temp up s }
                      else rbt_substitute node subst temp s);
                 s \<leftarrow> rbt_clear_node node s;
                 if red then Some s
                 else do { (temp, s) \<leftarrow> rbt_delete_loop temp s; ngx_rbt_black temp s } } }"

end
