(* ===== verification/RbShape.thy ===== *)
theory RbShape
  imports RbTree
begin

text \<open>
  What the store of the red-black tree looks like when it holds a tree, seen from any place in it, and what a rotation does
  there.
\<close>

section \<open>Trees in the store\<close>

text \<open>
  The tree of the nodes; the colour is \<open>True\<close> for red. \<open>br d c a p b\<close> is the node whose child on side \<open>d\<close> is \<open>a\<close>. A place in a tree is
  the list of the nodes above it, nearest first, each with the subtree on its other side.
\<close>

datatype rbt = E | N bool rbt ptr rbt

datatype frame = F bool bool ptr rbt

fun inorder :: "rbt \<Rightarrow> ptr list" where
  "inorder E = []"
| "inorder (N c l p r) = inorder l @ p # inorder r"

definition br :: "bool \<Rightarrow> bool \<Rightarrow> rbt \<Rightarrow> ptr \<Rightarrow> rbt \<Rightarrow> rbt" where
  "br d c a p b = (if d then N c a p b else N c b p a)"

fun plug :: "rbt \<Rightarrow> frame list \<Rightarrow> rbt" where
  "plug t [] = t"
| "plug t (F d c p u # fs) = plug (br d c t p u) fs"

fun before :: "frame list \<Rightarrow> ptr list" where
  "before [] = []"
| "before (F d c p u # fs) = before fs @ (if d then [] else inorder u @ [p])"

fun after :: "frame list \<Rightarrow> ptr list" where
  "after [] = []"
| "after (F d c p u # fs) = (if d then p # inorder u else []) @ after fs"

lemma inorder_plug: "inorder (plug t fs) = before fs @ inorder t @ after fs"
  by (induction t fs rule: plug.induct) (auto simp: br_def)

definition rptr :: "ngx_rbtree \<Rightarrow> rbt \<Rightarrow> ptr" where
  "rptr s t = (case t of E \<Rightarrow> rt_sentinel s | N _ _ p _ \<Rightarrow> p)"

lemma rptr_simps [simp]: "rptr s E = rt_sentinel s" "rptr s (N c l p r) = p" "rptr s (br d c a p b) = p"
  by (simp_all add: rptr_def br_def)

definition rb_node :: "ngx_rbtree \<Rightarrow> ptr \<Rightarrow> bool" where
  "rb_node s p \<longleftrightarrow> p \<in> rt_live s \<and> p \<noteq> rt_sentinel s"

fun rb_at :: "ngx_rbtree \<Rightarrow> ptr \<Rightarrow> rbt \<Rightarrow> bool" where
  "rb_at s up E \<longleftrightarrow> True"
| "rb_at s up (N c l p r) \<longleftrightarrow> rb_node s p \<and> rt_parent s p = up \<and> rt_red s p = c \<and>
     rt_link s True p = rptr s l \<and> rt_link s False p = rptr s r \<and> rb_at s p l \<and> rb_at s p r"

text \<open>The nodes above a place whose subtree starts at \<open>q\<close>, and \<open>up\<close>, the node right above it. The parent of the root may be anything.\<close>

fun rb_ctx :: "ngx_rbtree \<Rightarrow> frame list \<Rightarrow> ptr \<Rightarrow> ptr \<Rightarrow> bool" where
  "rb_ctx s [] q up \<longleftrightarrow> rt_root s = q"
| "rb_ctx s (F d c p u # fs) q up \<longleftrightarrow> up = p \<and> rb_node s p \<and> rt_red s p = c \<and>
     rt_link s d p = q \<and> rt_link s (\<not> d) p = rptr s u \<and> rb_at s p u \<and> rb_ctx s fs p (rt_parent s p)"

definition rb_sound :: "ngx_rbtree \<Rightarrow> bool" where
  "rb_sound s \<longleftrightarrow> rt_sentinel s \<in> rt_live s \<and> \<not> rt_red s (rt_sentinel s)"

definition focus :: "ngx_rbtree \<Rightarrow> ptr \<Rightarrow> rbt \<Rightarrow> frame list \<Rightarrow> bool" where
  "focus s up t fs \<longleftrightarrow> rb_sound s \<and> rb_at s up t \<and> rb_ctx s fs (rptr s t) up \<and> distinct (inorder (plug t fs))"

lemma rb_at_br [simp]:
  "rb_at s up (br d c a p b) \<longleftrightarrow> rb_node s p \<and> rt_parent s p = up \<and> rt_red s p = c \<and>
     rt_link s d p = rptr s a \<and> rt_link s (\<not> d) p = rptr s b \<and> rb_at s p a \<and> rb_at s p b"
  by (cases d) (auto simp: br_def)

text \<open>Going down and up in the tree.\<close>

lemma focus_down: "focus s up (br d c t p u) fs \<longleftrightarrow> focus s p t (F d c p u # fs) \<and> rt_parent s p = up"
  by (auto simp: focus_def)

lemma focus_up: "focus s up t (F d c p u # fs) \<longleftrightarrow> up = p \<and> focus s (rt_parent s p) (br d c t p u) fs"
  by (auto simp: focus_def)

lemma focus_N: "focus s up (N c l p r) fs \<longleftrightarrow> focus s p l (F True c p r # fs) \<and> rt_parent s p = up"
  "focus s up (N c l p r) fs \<longleftrightarrow> focus s p r (F False c p l # fs) \<and> rt_parent s p = up"
  using focus_down [of s up True c l p r fs] focus_down [of s up False c r p l fs] by (simp_all add: br_def)

lemma rb_at_cong:
  assumes "rb_at s up t" "rt_sentinel s' = rt_sentinel s" "rt_live s \<subseteq> rt_live s'"
    "\<And>p. p \<in> set (inorder t) \<Longrightarrow> rt_parent s' p = rt_parent s p \<and> rt_red s' p = rt_red s p \<and> (\<forall>d. rt_link s' d p = rt_link s d p)"
  shows "rb_at s' up t"
proof -
  have [simp]: "rptr s' u = rptr s u" for u using assms(2) by (simp add: rptr_def split: rbt.splits)
  show ?thesis using assms by (induction t arbitrary: up) (auto simp: rb_node_def)
qed

text \<open>Only the parent pointer of the top node differs.\<close>

lemma rb_at_reparent:
  assumes "rb_at s up t" "rt_sentinel s' = rt_sentinel s" "rt_live s \<subseteq> rt_live s'" "distinct (inorder t)"
    "\<And>p. p \<in> set (inorder t) \<Longrightarrow> rt_red s' p = rt_red s p \<and> (\<forall>d. rt_link s' d p = rt_link s d p)"
    "\<And>p. p \<in> set (inorder t) \<Longrightarrow> rt_parent s' p = (if p = rptr s t then up' else rt_parent s p)"
  shows "rb_at s' up' t"
proof (cases t)
  case (N c l p r)
  have [simp]: "rptr s' u = rptr s u" for u using assms(2) by (simp add: rptr_def split: rbt.splits)
  have "rb_at s' p l" using assms unfolding N by (intro rb_at_cong [of s p l s']) auto
  moreover have "rb_at s' p r" using assms unfolding N by (intro rb_at_cong [of s p r s']) auto
  ultimately show ?thesis using assms unfolding N by (auto simp: rb_node_def)
qed simp

fun aboves :: "frame list \<Rightarrow> ptr set" where
  "aboves [] = {}"
| "aboves (F d c p u # fs) = insert p (set (inorder u)) \<union> aboves fs"

lemma set_before_after: "set (before fs) \<union> set (after fs) = aboves fs"
  by (induction fs rule: aboves.induct) auto

lemma rptr_cong: "rt_sentinel s' = rt_sentinel s \<Longrightarrow> rptr s' t = rptr s t"
  by (simp add: rptr_def split: rbt.splits)

lemma rb_ctx_same:
  assumes "rb_ctx s fs q up" "rt_sentinel s' = rt_sentinel s" "rt_live s \<subseteq> rt_live s'" "rt_root s' = rt_root s"
    "\<And>p d. p \<in> aboves fs \<Longrightarrow> rt_parent s' p = rt_parent s p \<and> rt_red s' p = rt_red s p \<and> rt_link s' d p = rt_link s d p"
  shows "rb_ctx s' fs q up"
  using assms(1,5)
proof (induction fs arbitrary: q up)
  case (Cons f fs)
  obtain d c p u where f: "f = F d c p u" by (cases f)
  have "rb_at s' p u" using Cons.prems assms(2,3) unfolding f by (intro rb_at_cong [of s p u s']) auto
  moreover have "rb_ctx s' fs p (rt_parent s p)" using Cons.prems unfolding f by (intro Cons.IH) auto
  ultimately show ?case using Cons.prems assms(2,3) unfolding f by (auto simp: rb_node_def rptr_cong [OF assms(2)])
qed (simp add: assms(4))

text \<open>The context when the node right above is only linked to another subtree.\<close>

lemma rb_ctx_relink:
  assumes "rb_ctx s fs q up" "rt_sentinel s' = rt_sentinel s" "rt_live s \<subseteq> rt_live s'" "rt_root s' = (if fs = [] then q' else rt_root s)"
    "\<And>p. p \<in> aboves fs \<Longrightarrow> rt_parent s' p = rt_parent s p \<and> rt_red s' p = rt_red s p"
    "\<And>d c p u fs'. fs = F d c p u # fs' \<Longrightarrow> rt_link s' d p = q' \<and> rt_link s' (\<not> d) p = rt_link s (\<not> d) p"
    "\<And>p e. p \<in> aboves fs \<Longrightarrow> p \<noteq> up \<Longrightarrow> rt_link s' e p = rt_link s e p"
    "distinct (before fs @ after fs)"
  shows "rb_ctx s' fs q' up"
proof (cases fs)
  case Nil
  then show ?thesis using assms(4) by simp
next
  case (Cons f fs')
  obtain d c p u where f: "f = F d c p u" by (cases f)
  have fs: "fs = F d c p u # fs'" by (simp add: Cons f)
  have ctx: "up = p" "rb_node s p" "rt_red s p = c" "rt_link s (\<not> d) p = rptr s u" "rb_at s p u" "rb_ctx s fs' p (rt_parent s p)"
    using assms(1) by (auto simp: fs)
  have dis: "p \<notin> set (inorder u)" "p \<notin> aboves fs'"
    using assms(8) by (auto simp: fs simp flip: set_before_after split: if_splits)
  have all: "rt_parent s' x = rt_parent s x \<and> rt_red s' x = rt_red s x" if "x \<in> insert p (set (inorder u)) \<union> aboves fs'" for x
    using assms(5) [of x] that by (simp add: fs)
  have lk: "rt_link s' e x = rt_link s e x" if "x \<in> set (inorder u) \<union> aboves fs'" for x e
    using assms(7) [of x e] that dis ctx(1) by (auto simp: fs)
  have "rb_at s' p u" using ctx(5) all lk assms(2,3) by (intro rb_at_cong [of s p u s']) auto
  moreover have "rb_ctx s' fs' p (rt_parent s p)"
    using all lk assms(2,3,4) by (intro rb_ctx_same [OF ctx(6)]) (auto simp: fs)
  ultimately show ?thesis
    using ctx all [of p] assms(3) assms(6) [OF fs] by (auto simp: fs rb_node_def assms(2) rptr_cong [OF assms(2)])
qed

section \<open>Accesses at a place\<close>

lemmas rb_access = get_link_def put_link_def get_parent_def put_parent_def ngx_rbt_is_red_def ngx_rbt_color_def
  ngx_rbt_red_def ngx_rbt_black_def ngx_rbt_copy_color_def get_key_def

lemma br_simps [simp]:
  "br d c a p b \<noteq> E" "E \<noteq> br d c a p b"
  "set (inorder (br d c a p b)) = insert p (set (inorder a) \<union> set (inorder b))"
  "distinct (inorder (br d c a p b)) \<longleftrightarrow> distinct (inorder a) \<and> distinct (inorder b) \<and>
     p \<notin> set (inorder a) \<and> p \<notin> set (inorder b) \<and> set (inorder a) \<inter> set (inorder b) = {}"
  by (auto simp: br_def)

lemma focusD:
  assumes "focus s up t fs"
  shows "rb_sound s" "rb_at s up t" "rb_ctx s fs (rptr s t) up" "distinct (inorder t)" "distinct (before fs @ after fs)"
    "set (inorder t) \<inter> aboves fs = {}"
  using assms by (auto simp: focus_def inorder_plug simp flip: set_before_after)

lemma focusI:
  assumes "rb_sound s" "rb_at s up t" "rb_ctx s fs (rptr s t) up" "distinct (inorder (plug t fs))"
  shows "focus s up t fs"
  using assms by (simp add: focus_def)

lemma rb_at_nodes: "rb_at s up t \<Longrightarrow> p \<in> set (inorder t) \<Longrightarrow> rb_node s p"
  by (induction t arbitrary: up) auto

lemma rb_ctx_nodes: "rb_ctx s fs q up \<Longrightarrow> p \<in> aboves fs \<Longrightarrow> rb_node s p"
  by (induction fs q up rule: rb_ctx.induct) (auto dest: rb_at_nodes)

lemma rptr_in: "t \<noteq> E \<Longrightarrow> rptr s t \<in> set (inorder t)"
  by (cases t) auto

lemma rptr_live: "rb_sound s \<Longrightarrow> rb_at s up t \<Longrightarrow> rptr s t \<in> rt_live s"
  by (cases t) (auto simp: rb_sound_def rb_node_def)

lemma rptr_sentinel: "rb_at s up t \<Longrightarrow> rptr s t = rt_sentinel s \<longleftrightarrow> t = E"
  by (cases t) (auto simp: rb_node_def)

lemma rptr_red: "rb_sound s \<Longrightarrow> rb_at s up t \<Longrightarrow> rt_red s (rptr s t) = (case t of E \<Rightarrow> False | N c _ _ _ \<Rightarrow> c)"
  by (cases t) (auto simp: rb_sound_def)

lemma ctx_root: "rb_ctx s fs q up \<Longrightarrow> fs \<noteq> [] \<Longrightarrow> rt_root s \<in> aboves fs"
proof (induction fs arbitrary: q up)
  case (Cons f fs)
  then show ?case by (cases f; cases fs) auto
qed simp

lemma focus_root:
  assumes "focus s up t fs" "t \<noteq> E"
  shows "rptr s t = rt_root s \<longleftrightarrow> fs = []"
  using focusD(3,6) [OF assms(1)] rptr_in [OF assms(2), of s] ctx_root [of s fs] by (cases fs) auto

text \<open>Which child of the node above a place is it?\<close>

lemma focus_side:
  assumes "focus s up t (F d c p u # fs)" "t \<noteq> E \<or> u \<noteq> E"
  shows "rt_link s e p = rptr s t \<longleftrightarrow> e = d"
proof -
  have at: "rt_link s d p = rptr s t" "rt_link s (\<not> d) p = rptr s u" "rb_at s p u" "rb_at s up t" "set (inorder t) \<inter> set (inorder u) = {}"
    using focusD(2,3,6) [OF assms(1)] by auto
  have "rptr s u \<noteq> rptr s t"
  proof (cases "t = E \<or> u = E")
    case True
    then show ?thesis using assms(2) at(3,4) rptr_sentinel [of s p u] rptr_sentinel [of s up t] by auto
  next
    case False
    then show ?thesis using rptr_in [of t s] rptr_in [of u s] at(5) by auto
  qed
  then show ?thesis using at(1,2) by (cases "e = d") auto
qed

text \<open>What the operations on the links and colours leave alone.\<close>

definition rb_frame :: "ngx_rbtree \<Rightarrow> ngx_rbtree \<Rightarrow> bool" where
  "rb_frame s s' \<longleftrightarrow> rt_key s' = rt_key s \<and> rt_live s' = rt_live s \<and> rt_sentinel s' = rt_sentinel s \<and>
     rt_parent s' (rt_sentinel s) = rt_parent s (rt_sentinel s)"

lemma rb_frame_refl [simp]: "rb_frame s s"
  by (simp add: rb_frame_def)

lemma rb_frame_trans: "rb_frame s s1 \<Longrightarrow> rb_frame s1 s2 \<Longrightarrow> rb_frame s s2"
  by (simp add: rb_frame_def)

lemma br_flip: "br d c a p b = br (\<not> d) c b p a"
  by (simp add: br_def)

lemma inorder_br_color: "inorder (br d c a p b) = inorder (br d c' a p b)"
  by (simp add: br_def)

lemma ngx_rbt_color_ok:
  assumes "focus s up (br d c a p b) fs"
  obtains s' where "ngx_rbt_color c' p s = Some s'" "focus s' up (br d c' a p b) fs" "rb_frame s s'"
proof -
  let ?s = "s\<lparr>rt_red := (rt_red s)(p := c')\<rparr>"
  note f = focusD [OF assms]
  have r: "rptr ?s t = rptr s t" for t by (rule rptr_cong) simp
  have p: "rb_node s p" "p \<notin> aboves fs" using f(2,6) by auto
  have "rb_at ?s p a" "rb_at ?s p b" using f(2,4) by (auto intro!: rb_at_cong [of s p _ ?s] split: if_splits)
  then have "rb_at ?s up (br d c' a p b)" using f(2) by (simp add: rb_node_def r)
  moreover have "rb_ctx s fs p up" using f(3) by simp
  then have "rb_ctx ?s fs p up" by (rule rb_ctx_same) (use p(2) in auto)
  moreover have "rb_sound ?s" using f(1) p(1) by (auto simp: rb_sound_def rb_node_def)
  moreover have "distinct (inorder (plug (br d c' a p b) fs))"
    using assms inorder_br_color [of d c' a p b c] unfolding focus_def inorder_plug by simp
  ultimately have "focus ?s up (br d c' a p b) fs" by (intro focusI) simp_all
  then show ?thesis using that [of ?s] p(1) by (simp add: ngx_rbt_color_def rb_node_def rb_frame_def)
qed

text \<open>Painting the sentinel black changes nothing.\<close>

lemma ngx_rbt_black_sentinel: "rb_sound s \<Longrightarrow> ngx_rbt_black (rt_sentinel s) s = Some s"
  by (auto simp: ngx_rbt_black_def ngx_rbt_color_def rb_sound_def fun_upd_idem)

section \<open>Rotations\<close>

definition rot_state :: "bool \<Rightarrow> ptr \<Rightarrow> ptr \<Rightarrow> ptr \<Rightarrow> ptr \<Rightarrow> frame list \<Rightarrow> ngx_rbtree \<Rightarrow> ngx_rbtree" where
  "rot_state d x y b up fs s =
     s\<lparr>rt_root := (if fs = [] then y else rt_root s),
       rt_link := (\<lambda>e p. if p = x \<and> e = (\<not> d) then b else if p = y \<and> e = d then x
          else (case fs of F d' _ _ _ # _ \<Rightarrow> if p = up \<and> e = d' then y else rt_link s e p | [] \<Rightarrow> rt_link s e p)),
       rt_parent := (\<lambda>p. if p = x then y else if p = y then up else if p = b \<and> b \<noteq> rt_sentinel s then x else rt_parent s p)\<rparr>"

lemma rotate_run:
  assumes "focus s up (br d c a x (br d e b y g)) fs"
  shows "rbt_rotate d x s = Some (rot_state d x y (rptr s b) up fs s)"
proof -
  let ?t = "br d c a x (br d e b y g)"
  note f = focusD [OF assms]
  have dis: "x \<noteq> y" "x \<notin> set (inorder b)" "y \<notin> set (inorder b)" using f(4) by auto
  have live: "x \<in> rt_live s" "y \<in> rt_live s" "x \<noteq> rt_sentinel s" "y \<noteq> rt_sentinel s" using f(2) by (auto simp: rb_node_def)
  have lk: "rt_link s (\<not> d) x = y" "rt_link s d y = rptr s b" "rt_parent s x = up" using f(2) by auto
  have b: "rptr s b \<in> rt_live s" "rptr s b \<noteq> x" "rptr s b \<noteq> y" using f(1,2) dis live rptr_in [of b s] by (auto dest: rptr_live) (cases b; auto)+
  have root: "x = rt_root s \<longleftrightarrow> fs = []" using focus_root [OF assms] by simp
  show ?thesis
  proof (cases fs)
    case Nil
    then show ?thesis using live lk b dis root
      by (auto simp: rbt_rotate_def rb_access rot_state_def fun_eq_iff)
  next
    case (Cons fr fs')
    obtain d' c' p u where fr: "fr = F d' c' p u" by (cases fr)
    have p: "p = up" "rb_node s p" using f(3) by (auto simp: Cons fr)
    have "up \<noteq> x" "up \<noteq> y" using f(6) p by (auto simp: Cons fr)
    moreover have "up \<noteq> rptr s b" using f(6) p b rptr_in [of b s] by (cases "b = E") (auto simp: Cons fr rb_node_def)
    moreover have "x = rt_link s d up \<longleftrightarrow> d = d'"
      using focus_side [OF assms [unfolded Cons fr], of d] p by auto
    ultimately show ?thesis using live lk b dis root p Cons fr
      by (auto simp: rbt_rotate_def rb_access rot_state_def fun_eq_iff rb_node_def)
  qed
qed

lemma inorder_rotate: "inorder (br d e (br d c a x b) y g) = inorder (br d c a x (br d e b y g))"
  by (simp add: br_def)

lemma rbt_rotate_ok:
  assumes "focus s up (br d c a x (br d e b y g)) fs"
  obtains s' where "rbt_rotate d x s = Some s'" "focus s' up (br d e (br d c a x b) y g) fs" "rb_frame s s'"
proof -
  let ?s = "rot_state d x y (rptr s b) up fs s"
  note f = focusD [OF assms]
  have s: "rt_sentinel ?s = rt_sentinel s" "rt_live ?s = rt_live s" "rt_red ?s = rt_red s" "rt_key ?s = rt_key s"
    "rt_root ?s = (if fs = [] then y else rt_root s)" by (simp_all add: rot_state_def)
  have [simp]: "rptr ?s t = rptr s t" for t by (rule rptr_cong) (rule s)
  have nodes: "rb_node s x" "rb_node s y" "\<And>p. rb_node ?s p = rb_node s p" using f(2) by (auto simp: rb_node_def s)
  have out: "p \<notin> aboves fs" if "p \<in> insert x (insert y (set (inorder a) \<union> set (inorder b) \<union> set (inorder g)))" for p
    using f(6) that by auto
  have up: "fs \<noteq> [] \<Longrightarrow> up \<in> aboves fs" using f(3) by (cases fs rule: aboves.cases) auto
  have par: "rt_parent ?s p = (if p = x then y else if p = y then up else if p = rptr s b \<and> b \<noteq> E then x else rt_parent s p)" for p
    using f(2) rptr_sentinel [of s y b] by (simp add: rot_state_def)
  have link: "rt_link ?s e p = rt_link s e p" if "p \<noteq> x" "p \<noteq> y" "fs = [] \<or> p \<noteq> up" for p e
    using that by (auto simp: rot_state_def split: list.splits frame.splits)
  have upne: "p \<noteq> up" if "p \<in> insert x (insert y (set (inorder a) \<union> set (inorder b) \<union> set (inorder g)))" "fs \<noteq> []" for p
    using out [OF that(1)] up [OF that(2)] by auto
  have a: "rb_at ?s x a"
  proof (rule rb_at_cong [of s])
    show "rb_at s x a" using f(2) by simp
    show "rt_parent ?s p = rt_parent s p \<and> rt_red ?s p = rt_red s p \<and> (\<forall>d. rt_link ?s d p = rt_link s d p)" if "p \<in> set (inorder a)" for p
      using that f(4) upne [of p] link [of p] rptr_in [of b s] by (auto simp: par s)
  qed (simp_all add: s)
  have g: "rb_at ?s y g"
  proof (rule rb_at_cong [of s])
    show "rb_at s y g" using f(2) by simp
    show "rt_parent ?s p = rt_parent s p \<and> rt_red ?s p = rt_red s p \<and> (\<forall>d. rt_link ?s d p = rt_link s d p)" if "p \<in> set (inorder g)" for p
      using that f(4) upne [of p] link [of p] rptr_in [of b s] by (auto simp: par s)
  qed (simp_all add: s)
  have b: "rb_at ?s x b"
  proof (rule rb_at_reparent [of s y])
    show "rb_at s y b" "distinct (inorder b)" using f(2,4) by simp_all
    show "rt_red ?s p = rt_red s p \<and> (\<forall>d. rt_link ?s d p = rt_link s d p)" if "p \<in> set (inorder b)" for p
      using that f(4) upne [of p] link [of p] by (auto simp: s)
    show "rt_parent ?s p = (if p = rptr s b then x else rt_parent s p)" if "p \<in> set (inorder b)" for p
      using that f(4) by (auto simp: par)
  qed (simp_all add: s)
  have xy: "x \<noteq> y" using f(4) by auto
  have links: "rt_link ?s d x = rptr s a" "rt_link ?s (\<not> d) x = rptr s b" "rt_link ?s d y = x" "rt_link ?s (\<not> d) y = rptr s g"
    using f(2) xy upne [of x] upne [of y] by (auto simp: rot_state_def split: list.splits frame.splits)
  have "rb_at ?s up (br d e (br d c a x b) y g)" using a b g links f(2) by (simp add: nodes(3) par xy xy [symmetric] s)
  moreover have "rb_ctx ?s fs y up"
  proof (rule rb_ctx_relink [of s fs x])
    show "rb_ctx s fs x up" using f(3) by simp
    show "rt_parent ?s p = rt_parent s p \<and> rt_red ?s p = rt_red s p" if "p \<in> aboves fs" for p
      using that f(6) rptr_in [of b s] by (auto simp: par s)
    show "rt_link ?s d' p = y \<and> rt_link ?s (\<not> d') p = rt_link s (\<not> d') p" if "fs = F d' c' p u # fs'" for d' c' p u fs'
      using that f(3) upne [of x] upne [of y] by (auto simp: rot_state_def)
    show "rt_link ?s e p = rt_link s e p" if "p \<in> aboves fs" "p \<noteq> up" for p e
      using that f(6) by (intro link) auto
    show "distinct (before fs @ after fs)" using f(5) .
  qed (simp_all add: s)
  moreover have "distinct (inorder (plug (br d e (br d c a x b) y g) fs))"
    using assms unfolding focus_def inorder_plug inorder_rotate by simp
  moreover have "rb_sound ?s" using f(1) by (simp add: rb_sound_def s)
  ultimately have "focus ?s up (br d e (br d c a x b) y g) fs" by (intro focusI) simp_all
  moreover have "rt_parent ?s (rt_sentinel s) = rt_parent s (rt_sentinel s)"
    using nodes(1,2) rptr_sentinel [of s y b] f(2) unfolding par by (simp add: rb_node_def) metis
  ultimately show ?thesis using that [OF rotate_run [OF assms]] s by (simp add: rb_frame_def)
qed

section \<open>Views\<close>

text \<open>A place in the tree; the same store can be seen from every place.\<close>

definition view :: "ngx_rbtree \<Rightarrow> rbt \<Rightarrow> frame list \<Rightarrow> bool" where
  "view s t fs \<longleftrightarrow> (\<exists>up. focus s up t fs)"

lemma view_move: "view s t (F d c p u # fs) \<longleftrightarrow> view s (br d c t p u) fs"
proof
  assume "view s t (F d c p u # fs)"
  then obtain up where "focus s up t (F d c p u # fs)" unfolding view_def ..
  then have "focus s (rt_parent s p) (br d c t p u) fs" unfolding focus_up by (rule conjunct2)
  then show "view s (br d c t p u) fs" unfolding view_def ..
next
  assume "view s (br d c t p u) fs"
  then obtain up where "focus s up (br d c t p u) fs" unfolding view_def ..
  then have "focus s p t (F d c p u # fs)" unfolding focus_down by (rule conjunct1)
  then show "view s t (F d c p u # fs)" unfolding view_def ..
qed

lemma view_flip: "view s t (F d c p u # fs) \<longleftrightarrow> view s u (F (\<not> d) c p t # fs)"
  unfolding view_move using br_flip [of d c t p u] by simp

lemma view_plug: "view s t fs \<longleftrightarrow> view s (plug t fs) []"
  by (induction t fs rule: plug.induct) (auto simp: view_move)

lemma view_sound: "view s t fs \<Longrightarrow> rb_sound s"
  by (auto simp: view_def dest: focusD(1))

lemma view_distinct: "view s t fs \<Longrightarrow> distinct (inorder (plug t fs))"
  by (auto simp: view_def focus_def)

lemma view_nodes: "view s t fs \<Longrightarrow> p \<in> set (inorder (plug t fs)) \<Longrightarrow> rb_node s p"
  unfolding view_plug [of s t fs] by (auto simp: view_def dest!: focusD(2) intro: rb_at_nodes)

lemma view_top:
  assumes "view s t fs"
  shows "rptr s t \<in> rt_live s" "rptr s t = rt_sentinel s \<longleftrightarrow> t = E" "rt_red s (rptr s t) = (case t of E \<Rightarrow> False | N c _ _ _ \<Rightarrow> c)"
    "t \<noteq> E \<Longrightarrow> rptr s t = rt_root s \<longleftrightarrow> fs = []"
proof -
  obtain up where f: "focus s up t fs" using assms unfolding view_def ..
  note d = focusD(1,2) [OF f]
  show "rptr s t \<in> rt_live s" using d by (rule rptr_live)
  show "rptr s t = rt_sentinel s \<longleftrightarrow> t = E" using d(2) by (rule rptr_sentinel)
  show "rt_red s (rptr s t) = (case t of E \<Rightarrow> False | N c _ _ _ \<Rightarrow> c)" using d by (rule rptr_red)
  show "rptr s t = rt_root s \<longleftrightarrow> fs = []" if "t \<noteq> E" using f that by (rule focus_root)
qed

lemma view_frame:
  assumes "view s t (F d c p u # fs)"
  shows "p \<in> rt_live s" "p \<noteq> rt_sentinel s" "rt_red s p = c" "rt_link s d p = rptr s t" "rt_link s (\<not> d) p = rptr s u"
    "t \<noteq> E \<Longrightarrow> rt_parent s (rptr s t) = p"
    "t \<noteq> E \<or> u \<noteq> E \<Longrightarrow> rptr s t = rt_link s e p \<longleftrightarrow> e = d"
proof -
  obtain up where f: "focus s up t (F d c p u # fs)" using assms by (auto simp: view_def)
  show "p \<in> rt_live s" "p \<noteq> rt_sentinel s" "rt_red s p = c" "rt_link s d p = rptr s t" "rt_link s (\<not> d) p = rptr s u"
    using focusD(3) [OF f] by (auto simp: rb_node_def)
  show "rt_parent s (rptr s t) = p" if "t \<noteq> E" using focusD(2,3) [OF f] that by (cases t) auto
  show "rptr s t = rt_link s e p \<longleftrightarrow> e = d" if "t \<noteq> E \<or> u \<noteq> E" using focus_side [OF f that, of e] by auto
qed

lemma view_color:
  assumes "view s (br d c a p b) fs"
  obtains s' where "ngx_rbt_color c' p s = Some s'" "view s' (br d c' a p b) fs" "rb_frame s s'"
  using assms ngx_rbt_color_ok unfolding view_def by metis

lemma view_rotate:
  assumes "view s (br d c a x (br d e b y g)) fs"
  obtains s' where "rbt_rotate d x s = Some s'" "view s' (br d e (br d c a x b) y g) fs" "rb_frame s s'"
  using assms rbt_rotate_ok unfolding view_def by metis

text \<open>The same for the node above a place and for the subtree beside it.\<close>

lemma view_color_up:
  assumes "view s t (F d c p u # fs)"
  obtains s' where "ngx_rbt_color c' p s = Some s'" "view s' t (F d c' p u # fs)" "rb_frame s s'"
  using view_color [of s d c t p u fs c'] assms unfolding view_move by metis

section \<open>Colours and black heights\<close>

definition isred :: "rbt \<Rightarrow> bool" where
  "isred t = (case t of E \<Rightarrow> False | N c _ _ _ \<Rightarrow> c)"

fun bheight :: "rbt \<Rightarrow> nat" where
  "bheight E = 0"
| "bheight (N c l p r) = bheight l + (if c then 0 else 1)"

fun invh :: "rbt \<Rightarrow> bool" where
  "invh E \<longleftrightarrow> True"
| "invh (N c l p r) \<longleftrightarrow> invh l \<and> invh r \<and> bheight l = bheight r"

fun invc :: "rbt \<Rightarrow> bool" where
  "invc E \<longleftrightarrow> True"
| "invc (N c l p r) \<longleftrightarrow> invc l \<and> invc r \<and> (c \<longrightarrow> \<not> isred l \<and> \<not> isred r)"

definition rb_inv :: "rbt \<Rightarrow> bool" where
  "rb_inv t \<longleftrightarrow> invc t \<and> invh t \<and> \<not> isred t"

lemma isred_simps [simp]: "\<not> isred E" "isred (N c l p r) = c" "isred (br d c a p b) = c"
  by (simp_all add: isred_def br_def)

lemma inv_br [simp]:
  "invh (br d c a p b) \<longleftrightarrow> invh a \<and> invh b \<and> bheight a = bheight b"
  "invc (br d c a p b) \<longleftrightarrow> invc a \<and> invc b \<and> (c \<longrightarrow> \<not> isred a \<and> \<not> isred b)"
  by (auto simp: br_def)

lemma bheight_br [simp]: "bheight a = bheight b \<Longrightarrow> bheight (br d c a p b) = bheight b + (if c then 0 else 1)"
  by (auto simp: br_def)

text \<open>What a context asks of the subtree at its place.\<close>

fun ctx_h :: "frame list \<Rightarrow> nat \<Rightarrow> bool" where
  "ctx_h [] n \<longleftrightarrow> True"
| "ctx_h (F d c p u # fs) n \<longleftrightarrow> invh u \<and> bheight u = n \<and> ctx_h fs (n + (if c then 0 else 1))"

fun below_red :: "frame list \<Rightarrow> bool" where
  "below_red [] \<longleftrightarrow> True"
| "below_red (F d c p u # fs) \<longleftrightarrow> c"

text \<open>There is no place for a red node right below a red one, and none at the root.\<close>

fun ctx_c :: "frame list \<Rightarrow> bool" where
  "ctx_c [] \<longleftrightarrow> True"
| "ctx_c (F d c p u # fs) \<longleftrightarrow> invc u \<and> (c \<longrightarrow> \<not> isred u \<and> \<not> below_red fs) \<and> ctx_c fs"

lemma rb_inv_plug:
  "rb_inv (plug t fs) \<longleftrightarrow> invc t \<and> invh t \<and> ctx_h fs (bheight t) \<and> ctx_c fs \<and> (isred t \<longrightarrow> \<not> below_red fs)"
proof (induction t fs rule: plug.induct)
  case (1 t)
  then show ?case by (auto simp: rb_inv_def)
next
  case (2 t d c p u fs)
  then show ?case by (cases "bheight t = bheight u") auto
qed

definition blacken :: "rbt \<Rightarrow> rbt" where
  "blacken t = (case t of E \<Rightarrow> E | N _ l p r \<Rightarrow> N False l p r)"

lemma blacken_simps [simp]: "blacken E = E" "blacken (N c l p r) = N False l p r" "blacken (br d c a p b) = br d False a p b"
  "inorder (blacken t) = inorder t" "\<not> isred (blacken t)"
  by (auto simp: blacken_def br_def split: rbt.splits)

lemma rb_inv_blacken: "rb_inv t \<Longrightarrow> blacken t = t"
  by (cases t) (auto simp: rb_inv_def)

end
