(* ===== verification/RbInsert.thy ===== *)
theory RbInsert
  imports RbShape
begin

text \<open>
  Insertion into the red-black tree: the loop that balances it, the descent to the place of the new node, and the whole
  operation.
\<close>

lemma view_red: "view s t fs \<Longrightarrow> rt_red s (rptr s t) = isred t"
  by (simp add: view_top(3) isred_def)

section \<open>One round\<close>

lemma insert_recolor:
  assumes v: "view s t (F d1 True p u # F d2 False g (br d3 True a q b) # fs)"
  obtains s' where "rbt_insert_side d2 n p g s = Some (g, s')"
    "view s' (br d2 True (br d1 False t p u) g (br d3 False a q b)) fs" "rb_frame s s'"
proof -
  have g: "view s (br d1 True t p u) (F d2 False g (br d3 True a q b) # fs)" using v by (simp add: view_move)
  note fr = view_frame [OF g]
  have q: "rt_link s (\<not> d2) g = q" "rt_red s q" "q \<in> rt_live s"
    using fr(5) view_red [of s "br d3 True a q b"] view_top(1) [of s "br d3 True a q b"] iffD1 [OF view_flip g] by auto
  obtain s1 where s1: "ngx_rbt_color False p s = Some s1" "view s1 (br d1 False t p u) (F d2 False g (br d3 True a q b) # fs)" "rb_frame s s1"
    by (rule view_color [OF g])
  obtain s2 where s2: "ngx_rbt_color False q s1 = Some s2" "view s2 (br d3 False a q b) (F (\<not> d2) False g (br d1 False t p u) # fs)" "rb_frame s1 s2"
    by (rule view_color [OF iffD1 [OF view_flip s1(2)]])
  obtain s3 where s3: "ngx_rbt_color True g s2 = Some s3" "view s3 (br d3 False a q b) (F (\<not> d2) True g (br d1 False t p u) # fs)" "rb_frame s2 s3"
    by (rule view_color_up [OF s2(2)])
  have "rbt_insert_side d2 n p g s = Some (g, s3)"
    using q fr(1) s1(1) s2(1) s3(1)
    by (simp add: rbt_insert_side_def get_link_def ngx_rbt_is_red_def ngx_rbt_black_def ngx_rbt_red_def)
  moreover have "view s3 (br d2 True (br d1 False t p u) g (br d3 False a q b)) fs"
    using iffD1 [OF view_flip s3(2)] by (simp add: view_move)
  moreover have "rb_frame s s3" using s1(3) s2(3) s3(3) rb_frame_trans by blast
  ultimately show ?thesis using that by blast
qed

text \<open>The last rotation, when \<open>node\<close> is the outer child.\<close>

lemma insert_outer:
  assumes v: "view s t (F d True p u # F d False g w # fs)" and t: "t \<noteq> E"
  obtains s1 s2 s3 where "get_parent (rptr s t) s = Some p" "ngx_rbt_color False p s = Some s1" "get_parent p s1 = Some g"
    "ngx_rbt_color True g s1 = Some s2" "rbt_rotate (\<not> d) g s2 = Some s3" "rb_frame s s3"
    "view s3 t (F d False p (br d True u g w) # fs)"
proof -
  obtain s1 where s1: "ngx_rbt_color False p s = Some s1" "view s1 t (F d False p u # F d False g w # fs)" "rb_frame s s1"
    by (rule view_color_up [OF v])
  have v1: "view s1 (br d False t p u) (F d False g w # fs)" using s1(2) by (simp add: view_move)
  obtain s2 where s2: "ngx_rbt_color True g s1 = Some s2" "view s2 (br d False t p u) (F d True g w # fs)" "rb_frame s1 s2"
    by (rule view_color_up [OF v1])
  have v2: "view s2 (br (\<not> d) True w g (br (\<not> d) False u p t)) fs"
    using s2(2) unfolding view_move by (simp add: br_flip [of d])
  obtain s3 where s3: "rbt_rotate (\<not> d) g s2 = Some s3" "view s3 (br (\<not> d) False (br (\<not> d) True w g u) p t) fs" "rb_frame s2 s3"
    by (rule view_rotate [OF v2])
  have "view s3 t (F d False p (br d True u g w) # fs)"
    using s3(2) unfolding view_move by (simp add: br_flip [of d])
  moreover have "get_parent (rptr s t) s = Some p"
    using view_frame(6) [OF v t] view_top(1) [OF v] by (simp add: get_parent_def)
  moreover have "get_parent p s1 = Some g"
    using view_frame(6) [OF v1] view_top(1) [OF v1] by (simp add: get_parent_def)
  moreover have "rb_frame s s3" using s1(3) s2(3) s3(3) rb_frame_trans by blast
  ultimately show ?thesis using that s1(1) s2(1) s3(1) by blast
qed

lemma insert_side_outer:
  assumes v: "view s t (F d True p u # F d False g w # fs)" and t: "t \<noteq> E" and w: "\<not> isred w"
  obtains s' where "rbt_insert_side d (rptr s t) p g s = Some (rptr s t, s')" "view s' t (F d False p (br d True u g w) # fs)" "rb_frame s s'"
proof -
  have g: "view s (br d True t p u) (F d False g w # fs)" using v by (simp add: view_move)
  have w': "rt_link s (\<not> d) g = rptr s w" "g \<in> rt_live s" "\<not> rt_red s (rptr s w)" "rptr s w \<in> rt_live s"
    using view_frame [OF g] view_red [OF iffD1 [OF view_flip g]] view_top(1) [OF iffD1 [OF view_flip g]] w by auto
  have side: "rptr s t \<noteq> rt_link s (\<not> d) p" "p \<in> rt_live s" using view_frame(7) [OF v, of "\<not> d"] view_frame(1) [OF v] t by auto
  obtain s1 s2 s3 where o: "get_parent (rptr s t) s = Some p" "ngx_rbt_color False p s = Some s1" "get_parent p s1 = Some g"
    "ngx_rbt_color True g s1 = Some s2" "rbt_rotate (\<not> d) g s2 = Some s3" "rb_frame s s3"
    "view s3 t (F d False p (br d True u g w) # fs)" by (rule insert_outer [OF v t])
  have "rbt_insert_side d (rptr s t) p g s = Some (rptr s t, s3)"
    using w' side o by (simp add: rbt_insert_side_def get_link_def ngx_rbt_is_red_def ngx_rbt_black_def ngx_rbt_red_def)
  then show ?thesis using that o(6,7) by blast
qed

lemma insert_side_inner:
  assumes v: "view s (br d True a n b) (F (\<not> d) True p u # F d False g w # fs)" and w: "\<not> isred w"
  obtains s' where "rbt_insert_side d n p g s = Some (p, s')" "view s' (br d True u p a) (F d False n (br d True b g w) # fs)" "rb_frame s s'"
proof -
  have g: "view s (br d True u p (br d True a n b)) (F d False g w # fs)"
    using v unfolding view_move by (simp add: br_flip [of "\<not> d"])
  have w': "rt_link s (\<not> d) g = rptr s w" "g \<in> rt_live s" "\<not> rt_red s (rptr s w)" "rptr s w \<in> rt_live s"
    using view_frame [OF g] view_red [OF iffD1 [OF view_flip g]] view_top(1) [OF iffD1 [OF view_flip g]] w by auto
  have side: "n = rt_link s (\<not> d) p" "p \<in> rt_live s" using view_frame(1,4) [OF v] by auto
  obtain s0 where s0: "rbt_rotate d p s = Some s0" "view s0 (br d True (br d True u p a) n b) (F d False g w # fs)" "rb_frame s s0"
    by (rule view_rotate [OF g])
  have v0: "view s0 (br d True u p a) (F d True n b # F d False g w # fs)" using s0(2) by (simp add: view_move)
  obtain s1 s2 s3 where o: "get_parent (rptr s0 (br d True u p a)) s0 = Some n" "ngx_rbt_color False n s0 = Some s1" "get_parent n s1 = Some g"
    "ngx_rbt_color True g s1 = Some s2" "rbt_rotate (\<not> d) g s2 = Some s3" "rb_frame s0 s3"
    "view s3 (br d True u p a) (F d False n (br d True b g w) # fs)" by (rule insert_outer [OF v0]) simp
  have "rbt_insert_side d n p g s = Some (p, s3)"
    using w' side s0(1) o by (simp add: rbt_insert_side_def get_link_def ngx_rbt_is_red_def ngx_rbt_black_def ngx_rbt_red_def)
  then show ?thesis using that o(6,7) rb_frame_trans [OF s0(3)] by blast
qed

section \<open>The loop\<close>

lemma insert_round_side:
  assumes v: "view s t (F d1 c p u # F d2 e g w # fs)" and t: "t \<noteq> E"
  shows "rbt_insert_round (rptr s t) s = rbt_insert_side d2 (rptr s t) p g s"
proof -
  have g: "view s (br d1 c t p u) (F d2 e g w # fs)" using v by (simp add: view_move)
  have "p = rt_link s True g \<longleftrightarrow> d2" using view_frame(7) [OF g, of True] by auto
  then show ?thesis
    using view_frame(6) [OF v t] view_top(1) [OF v] view_frame(6) [OF g] view_frame(1) [OF v] view_frame(1) [OF g]
    by (simp add: rbt_insert_round_def get_parent_def get_link_def)
qed

lemma insert_stop:
  assumes v: "view s (br d True a n b) fs" and "\<not> below_red fs"
  shows "rbt_insert_loop n s = Some s"
proof (cases fs)
  case (Cons f fs')
  obtain d' c p u where f: "f = F d' c p u" by (cases f)
  have "\<not> c" "n \<noteq> rt_root s" using assms(2) view_top(4) [OF v] by (auto simp: Cons f)
  then show ?thesis
    using view_frame [OF v [unfolded Cons f]] view_top(1) [OF v]
    by (subst rbt_insert_loop.simps) (simp add: get_parent_def ngx_rbt_is_red_def)
qed (use assms in simp)

text \<open>The tree is as it should be, but for a red \<open>node\<close> below a red node or at the root.\<close>

lemma rbt_insert_loop_ok:
  assumes "view s (br d True a n b) fs" "invh (br d True a n b)" "invc (br d True a n b)" "ctx_h fs (bheight b)" "ctx_c fs"
  shows "\<exists>s' t. rbt_insert_loop n s = Some s' \<and> view s' t [] \<and> rb_inv (blacken t) \<and>
    inorder t = inorder (plug (br d True a n b) fs) \<and> rb_frame s s'"
  using assms
proof (induction "length fs" arbitrary: s d a n b fs rule: less_induct)
  case less
  note v = less.prems(1)
  have stop: ?case if "rbt_insert_loop n s = Some s" "rb_inv (blacken (plug (br d True a n b) fs))"
    using that iffD1 [OF view_plug v] by (intro exI [of _ s] exI [of _ "plug (br d True a n b) fs"]) simp
  show ?case
  proof (cases "below_red fs")
    case False
    then show ?thesis using stop [OF insert_stop [OF v False]] less.prems rb_inv_plug [of "br d True a n b" fs] rb_inv_blacken by auto
  next
    case True
    show ?thesis
    proof (cases fs)
      case Nil
      then have "rbt_insert_loop n s = Some s" using view_top(4) [OF v] by (subst rbt_insert_loop.simps) auto
      then show ?thesis using less.prems by (intro stop) (auto simp: Nil rb_inv_def)
    next
      case (Cons f1 fs1)
      obtain d1 p u where f1: "f1 = F d1 True p u" using True Cons by (cases f1) auto
      have "\<not> below_red fs1" using less.prems(5) by (simp add: Cons f1)
      then obtain d2 g w fs2 where fs1: "fs1 = F d2 False g w # fs2" by (cases fs1 rule: below_red.cases) auto
      have fs: "fs = F d1 True p u # F d2 False g w # fs2" by (simp add: Cons f1 fs1)
      note v = v [unfolded fs]
      have inv: "invh a" "invh b" "invh u" "invh w" "invc a" "invc b" "invc u" "invc w" "\<not> isred a" "\<not> isred b" "\<not> isred u"
          "bheight a = bheight b" "bheight u = bheight b" "bheight w = bheight b" "ctx_h fs2 (Suc (bheight b))" "ctx_c fs2"
        using less.prems(2-5) by (auto simp: fs)
      have run: "rbt_insert_loop n s = do { (m, s) \<leftarrow> rbt_insert_side d2 n p g s; rbt_insert_loop m s }"
        using view_frame [OF v] view_top(1,4) [OF v] insert_round_side [OF v]
        by (subst rbt_insert_loop.simps) (simp add: get_parent_def ngx_rbt_is_red_def fs)
      show ?thesis
      proof (cases "isred w")
        case True
        then obtain wl q wr where w: "w = br True True wl q wr" by (cases w) (auto simp: br_def)
        obtain s1 where s1: "rbt_insert_side d2 n p g s = Some (g, s1)" "rb_frame s s1"
            "view s1 (br d2 True (br d1 False (br d True a n b) p u) g (br True False wl q wr)) fs2"
          by (rule insert_recolor [OF v [unfolded w], of n])
        have "\<exists>s' t. rbt_insert_loop g s1 = Some s' \<and> view s' t [] \<and> rb_inv (blacken t) \<and>
            inorder t = inorder (plug (br d2 True (br d1 False (br d True a n b) p u) g (br True False wl q wr)) fs2) \<and> rb_frame s1 s'"
        proof (rule less.hyps [OF _ s1(3)])
          show "length fs2 < length fs" by (simp add: fs)
          have "bheight (br True True wl q wr) = bheight b" "bheight wl = bheight wr" using inv(4,14) by (simp_all add: w)
          then show "invh (br d2 True (br d1 False (br d True a n b) p u) g (br True False wl q wr))"
            "ctx_h fs2 (bheight (br True False wl q wr))" using inv by (simp_all add: w)
          show "invc (br d2 True (br d1 False (br d True a n b) p u) g (br True False wl q wr))" using inv by (simp add: w)
        qed (use inv in simp)
        then obtain s' t where "rbt_insert_loop g s1 = Some s'" "view s' t []" "rb_inv (blacken t)" "rb_frame s1 s'"
            "inorder t = inorder (plug (br d2 True (br d1 False (br d True a n b) p u) g (br True False wl q wr)) fs2)" by blast
        moreover have "inorder (plug (br d2 True (br d1 False (br d True a n b) p u) g (br True False wl q wr)) fs2) = inorder (plug (br d True a n b) fs)"
          by (simp add: fs w inorder_plug br_def)
        ultimately show ?thesis using run s1 rb_frame_trans by auto
      next
        case False
        have fin: ?thesis if s1: "rbt_insert_side d2 n p g s = Some (m, s1)" "rb_frame s s1" "view s1 (br e True x m y) (F d2 False z t' # fs2)"
          "rb_inv (plug (br e True x m y) (F d2 False z t' # fs2))"
          "inorder (plug (br e True x m y) (F d2 False z t' # fs2)) = inorder (plug (br d True a n b) fs)" for m s1 e x y z t'
        proof -
          have "rbt_insert_loop m s1 = Some s1" by (rule insert_stop [OF s1(3)]) simp
          then show ?thesis using s1 run rb_inv_blacken [OF s1(4)] view_plug [of s1] by (metis (no_types, lifting) Option.bind.bind_lunit case_prod_conv)
        qed
        show ?thesis
        proof (cases "d1 = d2")
          case True
          obtain s1 where s1: "rbt_insert_side d2 n p g s = Some (n, s1)" "view s1 (br d True a n b) (F d2 False p (br d2 True u g w) # fs2)" "rb_frame s s1"
            using insert_side_outer [OF v [unfolded True] _ False] by auto
          show ?thesis
            using inv False by (intro fin [OF s1(1,3,2)]) (simp_all add: rb_inv_plug inorder_plug fs True br_def)
        next
          case inner: False
          have d1: "d1 = (\<not> d2)" using inner by auto
          define a' b' where ab: "a' = (if d = d2 then a else b)" "b' = (if d = d2 then b else a)"
          have t: "br d True a n b = br d2 True a' n b'" by (auto simp: ab br_def)
          obtain s1 where s1: "rbt_insert_side d2 n p g s = Some (p, s1)" "view s1 (br d2 True u p a') (F d2 False n (br d2 True b' g w) # fs2)" "rb_frame s s1"
            using insert_side_inner [OF v [unfolded d1 t] False] by auto
          have inv': "invh a'" "invh b'" "invc a'" "invc b'" "\<not> isred a'" "\<not> isred b'" "bheight a' = bheight b" "bheight b' = bheight b"
            using inv by (auto simp: ab)
          show ?thesis unfolding t
            using inv inv' False by (intro fin [OF s1(1,3,2), unfolded t]) (simp_all add: rb_inv_plug inorder_plug fs d1 br_def)
        qed
      qed
    qed
  qed
qed

section \<open>The place of the new node\<close>

text \<open>The comparison agrees with the order of \<open>rank\<close> on the keys that occur.\<close>

lemma rbt_descend_ok:
  assumes "view s t fs" "t \<noteq> E" "node \<in> rt_live s"
    and lt: "\<And>p. p \<in> set (inorder t) \<Longrightarrow> lt (rt_key s node) (rt_key s p) \<longleftrightarrow> rank (rt_key s node) < (rank (rt_key s p) :: nat)"
    and "sorted (map (\<lambda>p. rank (rt_key s p)) (inorder t))"
  shows "\<exists>temp d c u fs' xs ys. rbt_descend lt (rptr s t) node s = Some (temp, d) \<and> plug E (F d c temp u # fs') = plug t fs \<and>
    inorder t = xs @ ys \<and> before (F d c temp u # fs') = before fs @ xs \<and> after (F d c temp u # fs') = ys @ after fs \<and>
    (\<forall>x \<in> set xs. rank (rt_key s x) \<le> rank (rt_key s node)) \<and> (\<forall>y \<in> set ys. rank (rt_key s node) < rank (rt_key s y))"
  using assms(1,2) lt assms(5)
proof (induction t arbitrary: fs)
  case (N c l p r)
  define d where "d = lt (rt_key s node) (rt_key s p)"
  have d: "d \<longleftrightarrow> rank (rt_key s node) < rank (rt_key s p)" using N.prems(3) [of p] by (simp add: d_def)
  define t' u where tu: "t' = (if d then l else r)" "u = (if d then r else l)"
  have t: "N c l p r = br d c t' p u" by (simp add: tu br_def)
  have v: "view s t' (F d c p u # fs)" using N.prems(1) unfolding t view_move .
  have step: "rbt_descend lt p node s = (if t' = E then Some (p, d) else rbt_descend lt (rptr s t') node s)"
    using view_frame(1,4) [OF v] view_top(2) [OF v] assms(3) by (subst rbt_descend.simps) (simp add: get_key_def get_link_def flip: d_def)
  have srt: "\<forall>x \<in> set (inorder l). rank (rt_key s x) \<le> rank (rt_key s p)" "\<forall>y \<in> set (inorder r). rank (rt_key s p) \<le> rank (rt_key s y)"
    using N.prems(4) by (auto simp: sorted_append)
  show ?case
  proof (cases "t' = E")
    case True
    show ?thesis
    proof (cases d)
      case True
      then show ?thesis using \<open>t' = E\<close> step srt(2) d
        by (intro exI [of _ p] exI [of _ d] exI [of _ c] exI [of _ u] exI [of _ fs] exI [of _ "[]"] exI [of _ "p # inorder r"])
          (auto simp: tu br_def intro: less_le_trans)
    next
      case False
      then show ?thesis using \<open>t' = E\<close> step srt(1) d
        by (intro exI [of _ p] exI [of _ d] exI [of _ c] exI [of _ u] exI [of _ fs] exI [of _ "inorder l @ [p]"] exI [of _ "[]"])
          (auto simp: tu br_def intro: order_trans)
    qed
  next
    case False
    have "\<exists>temp d' c' u' fs' xs ys. rbt_descend lt (rptr s t') node s = Some (temp, d') \<and>
        plug E (F d' c' temp u' # fs') = plug t' (F d c p u # fs) \<and>
        inorder t' = xs @ ys \<and> before (F d' c' temp u' # fs') = before (F d c p u # fs) @ xs \<and>
        after (F d' c' temp u' # fs') = ys @ after (F d c p u # fs) \<and>
        (\<forall>x \<in> set xs. rank (rt_key s x) \<le> rank (rt_key s node)) \<and> (\<forall>y \<in> set ys. rank (rt_key s node) < rank (rt_key s y))"
    proof (cases d)
      case True
      show ?thesis using N.IH(1) [OF v [unfolded tu if_P [OF True]]] False N.prems(3,4) True
        by (simp add: tu sorted_append del: before.simps after.simps plug.simps)
    next
      case False': False
      show ?thesis using N.IH(2) [OF v [unfolded tu if_not_P [OF False']]] False N.prems(3,4) False'
        by (simp add: tu sorted_append del: before.simps after.simps plug.simps)
    qed
    then obtain temp d' c' u' fs' xs ys where IH: "rbt_descend lt (rptr s t') node s = Some (temp, d')"
        "plug E (F d' c' temp u' # fs') = plug t' (F d c p u # fs)" "inorder t' = xs @ ys"
        "before (F d' c' temp u' # fs') = before (F d c p u # fs) @ xs" "after (F d' c' temp u' # fs') = ys @ after (F d c p u # fs)"
        "\<forall>x \<in> set xs. rank (rt_key s x) \<le> rank (rt_key s node)" "\<forall>y \<in> set ys. rank (rt_key s node) < rank (rt_key s y)" by blast
    have run: "rbt_descend lt (rptr s (N c l p r)) node s = Some (temp, d')" using step False IH(1) by simp
    have pl: "plug E (F d' c' temp u' # fs') = plug (N c l p r) fs" using IH(2) t by simp
    show ?thesis
    proof (cases d)
      case True
      then show ?thesis using run pl IH(3-7) srt(2) d
        by (intro exI [of _ temp] exI [of _ d'] exI [of _ c'] exI [of _ u'] exI [of _ fs'] exI [of _ xs] exI [of _ "ys @ p # inorder r"])
          (auto simp: tu intro: less_le_trans)
    next
      case False
      then show ?thesis using run pl IH(3-7) srt(1) d
        by (intro exI [of _ temp] exI [of _ d'] exI [of _ c'] exI [of _ u'] exI [of _ fs'] exI [of _ "inorder l @ p # xs"] exI [of _ ys])
          (auto simp: tu intro: order_trans)
    qed
  qed
qed simp

lemma rbt_hang_ok:
  assumes v: "view s E (F d c temp u # fs)" and node: "rb_node s node" "node \<notin> set (inorder (plug E (F d c temp u # fs)))"
  obtains s' where
    "do { s \<leftarrow> put_link d temp node s;
          s \<leftarrow> put_parent node temp s;
          s \<leftarrow> put_link True node (rt_sentinel s) s;
          s \<leftarrow> put_link False node (rt_sentinel s) s;
          ngx_rbt_red node s } = Some s'"
    "view s' (br True True E node E) (F d c temp u # fs)" "rb_frame s s'"
proof -
  let ?fs = "F d c temp u # fs"
  obtain up where f: "focus s up E ?fs" using v unfolding view_def ..
  note fd = focusD [OF f]
  have up: "up = temp" "temp \<in> rt_live s" "temp \<noteq> node" "node \<notin> aboves ?fs" "node \<in> rt_live s" "node \<noteq> rt_sentinel s"
    using fd(3) node set_before_after [of fs] by (auto simp: rb_node_def inorder_plug)
  let ?s = "s\<lparr>rt_link := (\<lambda>e p. if p = node then rt_sentinel s else if p = temp \<and> e = d then node else rt_link s e p),
    rt_parent := (rt_parent s)(node := temp), rt_red := (rt_red s)(node := True)\<rparr>"
  have run: "do { s \<leftarrow> put_link d temp node s;
          s \<leftarrow> put_parent node temp s;
          s \<leftarrow> put_link True node (rt_sentinel s) s;
          s \<leftarrow> put_link False node (rt_sentinel s) s;
          ngx_rbt_red node s } = Some ?s"
    using up by (auto simp: put_link_def put_parent_def ngx_rbt_red_def ngx_rbt_color_def fun_eq_iff)
  have "rb_ctx s ?fs (rt_sentinel s) temp" using fd(3) up(1) by simp
  then have ctx: "rb_ctx ?s ?fs node temp"
    by (rule rb_ctx_relink [where q' = node]) (use up fd(5) in auto)
  have "focus ?s temp (br True True E node E) ?fs"
  proof (rule focusI)
    show "rb_sound ?s" using fd(1) up(6) by (simp add: rb_sound_def)
    show "rb_at ?s temp (br True True E node E)" using up by (simp add: rb_node_def)
    show "rb_ctx ?s ?fs (rptr ?s (br True True E node E)) temp" using ctx by simp
    show "distinct (inorder (plug (br True True E node E) ?fs))"
      using view_distinct [OF v] node(2) by (auto simp: inorder_plug br_def simp del: before.simps after.simps)
  qed
  then have "view ?s (br True True E node E) ?fs" unfolding view_def ..
  moreover have "rb_frame s ?s" using up by (simp add: rb_frame_def)
  ultimately show ?thesis using that [OF run] by blast
qed

section \<open>The whole insertion\<close>

text \<open>The store holds a red-black tree with these nodes, in order.\<close>

definition rb_tree :: "ngx_rbtree \<Rightarrow> ptr list \<Rightarrow> bool" where
  "rb_tree s xs \<longleftrightarrow> (\<exists>t. view s t [] \<and> rb_inv t \<and> inorder t = xs)"

text \<open>The new node goes behind those that are not after it.\<close>

definition insert_by :: "(ptr \<Rightarrow> nat) \<Rightarrow> ptr \<Rightarrow> ptr list \<Rightarrow> ptr list" where
  "insert_by r x xs = takeWhile (\<lambda>y. r y \<le> r x) xs @ x # dropWhile (\<lambda>y. r y \<le> r x) xs"

lemma insert_by_split:
  "\<forall>x \<in> set xs. r x \<le> r a \<Longrightarrow> \<forall>y \<in> set ys. r a < r y \<Longrightarrow> insert_by r a (xs @ ys) = xs @ a # ys"
  by (cases ys) (auto simp: insert_by_def not_le)

lemma rb_tree_black_root:
  assumes "view s t []" "rb_inv (blacken t)" "t \<noteq> E"
  obtains s' where "ngx_rbt_black (rt_root s) s = Some s'" "rb_tree s' (inorder t)" "rb_frame s s'"
proof -
  obtain c l p r where t: "t = N c l p r" using assms(3) by (cases t) auto
  have t': "t = br True c l p r" by (simp add: t br_def)
  have "rt_root s = p" using view_top(4) [OF assms(1,3)] by (simp add: t)
  moreover obtain s' where "ngx_rbt_color False p s = Some s'" "view s' (br True False l p r) []" "rb_frame s s'"
    by (rule view_color [OF assms(1) [unfolded t']])
  moreover have "rb_tree s' (inorder t)"
    unfolding rb_tree_def using calculation(3) assms(2) by (intro exI [of _ "br True False l p r"]) (simp add: t br_def)
  ultimately show ?thesis using that by (simp add: ngx_rbt_black_def)
qed

lemma ngx_rbtree_insert_ok:
  assumes tree: "rb_tree s xs" and node: "rb_node s node" "node \<notin> set xs"
    and lt: "\<And>p. p \<in> set xs \<Longrightarrow> lt (rt_key s node) (rt_key s p) \<longleftrightarrow> rank (rt_key s node) < (rank (rt_key s p) :: nat)"
    and srt: "sorted (map (\<lambda>p. rank (rt_key s p)) xs)"
  shows "\<exists>s'. ngx_rbtree_insert (rbt_insert_by lt) node s = Some s' \<and> rb_tree s' (insert_by (\<lambda>p. rank (rt_key s p)) node xs) \<and> rb_frame s s'"
proof -
  obtain t where t: "view s t []" "rb_inv t" "inorder t = xs" using tree unfolding rb_tree_def by blast
  obtain up where f: "focus s up t []" using t(1) unfolding view_def ..
  have root: "rt_root s = rptr s t" using focusD(3) [OF f] by simp
  show ?thesis
  proof (cases "t = E")
    case True
    let ?s = "s\<lparr>rt_link := (\<lambda>e p. if p = node then rt_sentinel s else rt_link s e p), rt_parent := (rt_parent s)(node := 0),
      rt_red := (rt_red s)(node := False), rt_root := node\<rparr>"
    have "ngx_rbtree_insert (rbt_insert_by lt) node s = Some ?s"
      using node(1) root True
      by (auto simp: ngx_rbtree_insert_def put_link_def put_parent_def ngx_rbt_black_def ngx_rbt_color_def rb_node_def fun_eq_iff)
    moreover have "view ?s (br True False E node E) []"
      unfolding view_def focus_def using node(1) view_sound [OF t(1)] by (auto simp: rb_node_def rb_sound_def)
    then have "rb_tree ?s [node]" unfolding rb_tree_def
      by (intro exI [of _ "br True False E node E"]) (simp add: rb_inv_def br_def)
    moreover have "rb_frame s ?s" using node(1) by (simp add: rb_frame_def rb_node_def)
    ultimately show ?thesis using True t(3) by (auto simp: insert_by_def)
  next
    case False
    have live: "node \<in> rt_live s" using node(1) by (simp add: rb_node_def)
    obtain temp d c u fs xs1 ys1 where d: "rbt_descend lt (rptr s t) node s = Some (temp, d)" "plug E (F d c temp u # fs) = plug t []"
        "inorder t = xs1 @ ys1" "before (F d c temp u # fs) = before [] @ xs1" "after (F d c temp u # fs) = ys1 @ after []"
        "\<forall>x \<in> set xs1. rank (rt_key s x) \<le> rank (rt_key s node)" "\<forall>y \<in> set ys1. rank (rt_key s node) < rank (rt_key s y)"
      using rbt_descend_ok [OF t(1) False live, of lt rank] lt srt unfolding t(3) [symmetric] by blast
    let ?fs = "F d c temp u # fs"
    have "view s (plug E ?fs) []" using t(1) unfolding d(2) by simp
    then have v: "view s E ?fs" by (rule iffD2 [OF view_plug])
    have notin: "node \<notin> set (inorder (plug E ?fs))" using node(2) t(3) unfolding d(2) by simp
    obtain s1 where s1: "do { s \<leftarrow> put_link d temp node s;
          s \<leftarrow> put_parent node temp s;
          s \<leftarrow> put_link True node (rt_sentinel s) s;
          s \<leftarrow> put_link False node (rt_sentinel s) s;
          ngx_rbt_red node s } = Some s1" "view s1 (br True True E node E) ?fs" "rb_frame s s1"
      by (rule rbt_hang_ok [OF v node(1) notin])
    have ins: "rbt_insert_by lt (rt_root s) node s = Some s1" using d(1) s1(1) root by (simp add: rbt_insert_by_def)
    have inv: "rb_inv (plug E ?fs)" using t(2) unfolding d(2) by simp
    have "ctx_h ?fs 0" "ctx_c ?fs" using inv unfolding rb_inv_plug by simp_all
    then obtain s2 t2 where s2: "rbt_insert_loop node s1 = Some s2" "view s2 t2 []" "rb_inv (blacken t2)"
        "inorder t2 = inorder (plug (br True True E node E) ?fs)" "rb_frame s1 s2"
      using rbt_insert_loop_ok [OF s1(2)] by auto
    have new: "inorder t2 = xs1 @ node # ys1" using s2(4) unfolding inorder_plug d(4,5) by (simp add: br_def)
    then have "t2 \<noteq> E" by auto
    then obtain s3 where s3: "ngx_rbt_black (rt_root s2) s2 = Some s3" "rb_tree s3 (inorder t2)" "rb_frame s2 s3"
      by (rule rb_tree_black_root [OF s2(2,3)])
    have "ngx_rbtree_insert (rbt_insert_by lt) node s = Some s3"
      using ins s2(1) s3(1) view_top(2) [OF t(1)] False root by (simp add: ngx_rbtree_insert_def)
    moreover have "insert_by (\<lambda>p. rank (rt_key s p)) node xs = inorder t2"
      unfolding t(3) [symmetric] d(3) new by (rule insert_by_split [OF d(6,7)])
    ultimately show ?thesis using s3(2,3) s1(3) s2(5) rb_frame_trans by metis
  qed
qed

end
