(* ===== verification/RbDelete.thy ===== *)
theory RbDelete
  imports RbInsert
begin

text \<open>
  Deletion from the red-black tree: the loop that restores the black heights, the removal of the node, and the whole operation.
\<close>

lemma rbt_br_ex: "t \<noteq> E \<Longrightarrow> \<exists>a p b. t = br d (isred t) a p b"
  by (cases t; cases d) (auto simp: br_def)

section \<open>The place of temp\<close>

text \<open>\<open>temp\<close> may be the sentinel; its parent pointer is set before the loop.\<close>

fun parent_set :: "ngx_rbtree \<Rightarrow> rbt \<Rightarrow> frame list \<Rightarrow> bool" where
  "parent_set s t [] \<longleftrightarrow> True"
| "parent_set s t (F d c p u # fs) \<longleftrightarrow> rt_parent s (rptr s t) = p"

lemma parent_set_N: "view s t fs \<Longrightarrow> t \<noteq> E \<Longrightarrow> parent_set s t fs"
  using view_frame(6) by (cases fs rule: below_red.cases) auto

lemma parent_set_keep:
  assumes "parent_set s t (F d c p u # fs)" "rb_frame s s'" "view s' t (F d c' p u' # fs')"
  shows "parent_set s' t (F d c' p u' # fs')"
proof (cases "t = E")
  case True
  then show ?thesis using assms(1,2) by (simp add: rb_frame_def)
qed (use assms(3) parent_set_N in blast)

lemma view_root: "view s t fs \<Longrightarrow> rptr s t = rt_root s \<longleftrightarrow> fs = []"
proof -
  assume v: "view s t fs"
  then obtain up where f: "focus s up t fs" unfolding view_def ..
  note d = focusD(3) [OF f]
  show ?thesis
  proof (cases "t = E")
    case True
    have "rt_root s \<noteq> rt_sentinel s" if "fs \<noteq> []"
      using rb_ctx_nodes [OF d ctx_root [OF d that]] by (simp add: rb_node_def)
    then show ?thesis using d True by (cases "fs = []") auto
  qed (rule view_top(4) [OF v])
qed

section \<open>One round\<close>

lemma delete_sibling_red:
  assumes v: "view s t (F d c p (br d True b w g) # fs)" and p: "parent_set s t (F d c p (br d True b w g) # fs)"
  obtains s' where "rbt_delete_sibling d (rptr s t) s = Some (rptr s b, s')" "view s' t (F d True p b # F d False w g # fs)" "rb_frame s s'"
proof -
  note fl = iffD1 [OF view_flip v]
  obtain s1 where s1: "ngx_rbt_color False w s = Some s1" "view s1 (br d False b w g) (F (\<not> d) c p t # fs)" "rb_frame s s1"
    by (rule view_color [OF fl])
  obtain s2 where s2: "ngx_rbt_color True p s1 = Some s2" "view s2 (br d False b w g) (F (\<not> d) True p t # fs)" "rb_frame s1 s2"
    by (rule view_color_up [OF s1(2)])
  have v2: "view s2 (br d True t p (br d False b w g)) fs"
    using s2(2) unfolding view_move by (simp add: br_flip [of "\<not> d"])
  obtain s3 where s3: "rbt_rotate d p s2 = Some s3" "view s3 (br d False (br d True t p b) w g) fs" "rb_frame s2 s3"
    by (rule view_rotate [OF v2])
  have v3: "view s3 t (F d True p b # F d False w g # fs)" using s3(2) by (simp add: view_move)
  have fr: "rb_frame s s3" using s1(3) s2(3) s3(3) rb_frame_trans by blast
  have same: "rptr s3 x = rptr s x" for x using fr by (intro rptr_cong) (simp add: rb_frame_def)
  have "parent_set s3 t (F d True p b # F d False w g # fs)" by (rule parent_set_keep [OF p fr v3])
  then have "get_parent (rptr s t) s3 = Some p" using view_top(1) [OF v3] by (simp add: get_parent_def same)
  moreover have "get_link (\<not> d) p s3 = Some (rptr s b)" using view_frame(1,5) [OF v3] by (simp add: get_link_def same)
  moreover have "get_parent (rptr s t) s = Some p" using p view_top(1) [OF v] by (simp add: get_parent_def)
  moreover have "get_link (\<not> d) p s = Some w" using view_frame(1,5) [OF v] by (simp add: get_link_def)
  moreover have "ngx_rbt_is_red w s = Some True" using view_red [OF fl] view_top(1) [OF fl] by (simp add: ngx_rbt_is_red_def)
  ultimately have "rbt_delete_sibling d (rptr s t) s = Some (rptr s b, s3)"
    using s1(1) s2(1) s3(1) by (simp add: rbt_delete_sibling_def ngx_rbt_black_def ngx_rbt_red_def)
  then show ?thesis using that v3 fr by blast
qed

lemma delete_sibling_black:
  assumes v: "view s t (F d c p u # fs)" and p: "parent_set s t (F d c p u # fs)" and u: "\<not> isred u"
  shows "rbt_delete_sibling d (rptr s t) s = Some (rptr s u, s)"
  using view_frame(1,5) [OF v] view_top(1) [OF v] p view_red [OF iffD1 [OF view_flip v]] view_top(1) [OF iffD1 [OF view_flip v]] u
  by (simp add: rbt_delete_sibling_def get_parent_def get_link_def ngx_rbt_is_red_def)

text \<open>The last rotation, with a red child of the sibling on the far side.\<close>

lemma delete_final:
  assumes v: "view s t (F d c p (br d False b w (br e True x g y)) # fs)" and p: "parent_set s t (F d c p (br d False b w (br e True x g y)) # fs)"
  obtains s' where
    "do { parent \<leftarrow> get_parent (rptr s t) s;
          s \<leftarrow> ngx_rbt_copy_color w parent s;
          s \<leftarrow> ngx_rbt_black parent s;
          far \<leftarrow> get_link (\<not> d) w s;
          s \<leftarrow> ngx_rbt_black far s;
          s \<leftarrow> rbt_rotate d parent s;
          Some (rt_root s, s) } = Some (rt_root s', s')"
    "view s' (br d c (br d False t p b) w (br e False x g y)) fs" "rb_frame s s'"
proof -
  let ?g = "br e True x g y" and ?g' = "br e False x g y"
  note fl = iffD1 [OF view_flip v]
  obtain s1 where s1: "ngx_rbt_color c w s = Some s1" "view s1 (br d c b w ?g) (F (\<not> d) c p t # fs)" "rb_frame s s1"
    by (rule view_color [OF fl])
  obtain s2 where s2: "ngx_rbt_color False p s1 = Some s2" "view s2 (br d c b w ?g) (F (\<not> d) False p t # fs)" "rb_frame s1 s2"
    by (rule view_color_up [OF s1(2)])
  have v2: "view s2 ?g (F (\<not> d) c w b # F (\<not> d) False p t # fs)"
    using s2(2) unfolding view_move by (simp add: br_flip [of d c])
  obtain s3 where s3: "ngx_rbt_color False g s2 = Some s3" "view s3 ?g' (F (\<not> d) c w b # F (\<not> d) False p t # fs)" "rb_frame s2 s3"
    by (rule view_color [OF v2])
  have v3: "view s3 (br d False t p (br d c b w ?g')) fs"
    using s3(2) unfolding view_move by (simp add: br_flip [of "\<not> d"])
  obtain s4 where s4: "rbt_rotate d p s3 = Some s4" "view s4 (br d c (br d False t p b) w ?g') fs" "rb_frame s3 s4"
    by (rule view_rotate [OF v3])
  have "rb_frame s s4" using s1(3) s2(3) s3(3) s4(3) rb_frame_trans by blast
  moreover have "get_parent (rptr s t) s = Some p" using p view_top(1) [OF v] by (simp add: get_parent_def)
  moreover have "ngx_rbt_copy_color w p s = Some s1"
    using s1(1) view_frame(1,3) [OF v] by (simp add: ngx_rbt_copy_color_def ngx_rbt_is_red_def)
  moreover have "get_link (\<not> d) w s2 = Some g" using view_frame(1,4) [OF v2] by (simp add: get_link_def)
  ultimately show ?thesis using that [of s4] s2(1) s3(1) s4(1,2) by (simp add: ngx_rbt_black_def)
qed

lemma delete_rotate_ok:
  assumes v: "view s t (F d c p (br d False b w g) # fs)" and p: "parent_set s t (F d c p (br d False b w g) # fs)"
    and red: "isred b \<or> isred g"
    and inv: "invh (br d False b w g)" "invc (br d False b w g)" "invh t" "invc t" "bheight t = bheight b"
  shows "\<exists>s' t'. rbt_delete_rotate d (rptr s t) w s = Some (rt_root s', s') \<and> view s' t' fs \<and> rb_frame s s' \<and>
    invh t' \<and> invc t' \<and> bheight t' = bheight t + (if c then 1 else 2) \<and> isred t' = c \<and>
    inorder t' = inorder (br d c t p (br d False b w g))"
proof (cases "isred g")
  case True
  then obtain x q y where g: "g = br True True x q y" by (cases g) (auto simp: br_def)
  note fl = iffD1 [OF view_flip v]
  have vg: "view s g (F (\<not> d) False w b # F (\<not> d) c p t # fs)" using fl unfolding view_move by (simp add: br_flip [of d False])
  have far: "get_link (\<not> d) w s = Some (rptr s g)" "ngx_rbt_is_red (rptr s g) s = Some True"
    using view_frame(1,4) [OF vg] view_red [OF vg] view_top(1) [OF vg] True by (simp_all add: get_link_def ngx_rbt_is_red_def)
  obtain s' where s': "do { parent \<leftarrow> get_parent (rptr s t) s;
          s \<leftarrow> ngx_rbt_copy_color w parent s;
          s \<leftarrow> ngx_rbt_black parent s;
          far \<leftarrow> get_link (\<not> d) w s;
          s \<leftarrow> ngx_rbt_black far s;
          s \<leftarrow> rbt_rotate d parent s;
          Some (rt_root s, s) } = Some (rt_root s', s')"
    "view s' (br d c (br d False t p b) w (br True False x q y)) fs" "rb_frame s s'"
    by (rule delete_final [OF v [unfolded g] p [unfolded g]])
  have "rbt_delete_rotate d (rptr s t) w s = Some (rt_root s', s')" using far s'(1) by (simp add: rbt_delete_rotate_def)
  then show ?thesis using s'(2,3) inv unfolding g
    by (intro exI [of _ s'] exI [of _ "br d c (br d False t p b) w (br True False x q y)"]) (auto simp: br_def)
next
  case False
  then obtain b1 q b2 where b: "b = br d True b1 q b2" using rbt_br_ex [of b d] red False by (cases "b = E") auto
  note fl = iffD1 [OF view_flip v]
  have vg: "view s g (F (\<not> d) False w b # F (\<not> d) c p t # fs)" using fl unfolding view_move by (simp add: br_flip [of d False])
  have far: "get_link (\<not> d) w s = Some (rptr s g)" "ngx_rbt_is_red (rptr s g) s = Some False"
    using view_frame(1,4) [OF vg] view_red [OF vg] view_top(1) [OF vg] False by (simp_all add: get_link_def ngx_rbt_is_red_def)
  have vb: "view s (br d True b1 q b2) (F d False w g # F (\<not> d) c p t # fs)" using fl unfolding b view_move .
  have near: "get_link d w s = Some q" using view_frame(1,4) [OF vb] by (simp add: get_link_def)
  obtain s1 where s1: "ngx_rbt_color False q s = Some s1" "view s1 (br d False b1 q b2) (F d False w g # F (\<not> d) c p t # fs)" "rb_frame s s1"
    by (rule view_color [OF vb])
  obtain s2 where s2: "ngx_rbt_color True w s1 = Some s2" "view s2 (br d False b1 q b2) (F d True w g # F (\<not> d) c p t # fs)" "rb_frame s1 s2"
    by (rule view_color_up [OF s1(2)])
  have v2: "view s2 (br (\<not> d) True g w (br (\<not> d) False b2 q b1)) (F (\<not> d) c p t # fs)"
    using s2(2) unfolding view_move by (simp add: br_flip [of d])
  obtain s3 where s3: "rbt_rotate (\<not> d) w s2 = Some s3" "view s3 (br (\<not> d) False (br (\<not> d) True g w b2) q b1) (F (\<not> d) c p t # fs)" "rb_frame s2 s3"
    by (rule view_rotate [OF v2])
  have "view s3 (br d False b1 q (br d True b2 w g)) (F (\<not> d) c p t # fs)" using s3(2) by (simp add: br_flip [of d])
  then have v3: "view s3 t (F d c p (br d False b1 q (br d True b2 w g)) # fs)" using view_flip [of s3 t d] by simp
  have fr: "rb_frame s s3" using s1(3) s2(3) s3(3) rb_frame_trans by blast
  have same: "rptr s3 x = rptr s x" for x using fr by (intro rptr_cong) (simp add: rb_frame_def)
  have p3: "parent_set s3 t (F d c p (br d False b1 q (br d True b2 w g)) # fs)" by (rule parent_set_keep [OF p fr v3])
  have up: "get_parent (rptr s t) s3 = Some p" "get_link (\<not> d) p s3 = Some q"
    using p3 view_top(1) [OF v3] view_frame(1,5) [OF v3] by (simp_all add: get_parent_def get_link_def same)
  obtain s' where s': "do { parent \<leftarrow> get_parent (rptr s3 t) s3;
          s \<leftarrow> ngx_rbt_copy_color q parent s3;
          s \<leftarrow> ngx_rbt_black parent s;
          far \<leftarrow> get_link (\<not> d) q s;
          s \<leftarrow> ngx_rbt_black far s;
          s \<leftarrow> rbt_rotate d parent s;
          Some (rt_root s, s) } = Some (rt_root s', s')"
    "view s' (br d c (br d False t p b1) q (br d False b2 w g)) fs" "rb_frame s3 s'"
    by (rule delete_final [OF v3 p3])
  have "rbt_delete_rotate d (rptr s t) w s = Some (rt_root s', s')"
    using far near s1(1) s2(1) s3(1) up s'(1) by (simp add: rbt_delete_rotate_def ngx_rbt_black_def ngx_rbt_red_def same)
  moreover have "rb_frame s s'" using fr s'(3) by (rule rb_frame_trans)
  ultimately show ?thesis using s'(2) inv False unfolding b
    by (intro exI [of _ s'] exI [of _ "br d c (br d False t p b1) q (br d False b2 w g)"]) (auto simp: br_def)
qed

section \<open>The loop\<close>

text \<open>A tree in which the subtree at a place has one black node too few on every path.\<close>

definition short_at :: "rbt \<Rightarrow> frame list \<Rightarrow> bool" where
  "short_at t fs \<longleftrightarrow> invh t \<and> invc (blacken t) \<and> ctx_h fs (Suc (bheight t)) \<and> ctx_c fs"

definition delete_done :: "ngx_rbtree \<Rightarrow> ptr list \<Rightarrow> (ptr \<times> ngx_rbtree) option \<Rightarrow> bool" where
  "delete_done s xs r \<longleftrightarrow> (\<exists>s' t fs. r = Some (rptr s' t, s') \<and> view s' t fs \<and> rb_inv (plug (blacken t) fs) \<and>
     inorder (plug t fs) = xs \<and> rb_frame s s')"

lemma delete_done_frame: "delete_done s' xs r \<Longrightarrow> rb_frame s s' \<Longrightarrow> delete_done s xs r"
  unfolding delete_done_def using rb_frame_trans by blast

lemma inv_blacken: "invh (blacken t) = invh t" "bheight (blacken t) = bheight t + (if isred t then 1 else 0)"
  by (cases t; simp)+

lemma delete_stop:
  assumes v: "view s t fs" and "short_at t fs" and "fs = [] \<or> isred t"
  shows "delete_done s (inorder (plug t fs)) (rbt_delete_loop (rptr s t) s)"
proof -
  have "rbt_delete_loop (rptr s t) s = Some (rptr s t, s)"
    using assms(3) view_root [OF v] view_red [OF v] view_top(1) [OF v]
    by (subst rbt_delete_loop.simps) (auto simp: ngx_rbt_is_red_def)
  moreover have "rb_inv (plug (blacken t) fs)"
    using assms(2,3) by (auto simp: rb_inv_plug short_at_def inv_blacken)
  ultimately show ?thesis unfolding delete_done_def using v by auto
qed

text \<open>A round in which the sibling is black.\<close>

lemma delete_round_black:
  assumes v: "view s t (F d c p (br d False b w g) # fs)" and p: "parent_set s t (F d c p (br d False b w g) # fs)"
    and t: "\<not> isred t" and short: "short_at t (F d c p (br d False b w g) # fs)"
    and run: "rbt_delete_sibling d temp s0 = Some (w, s)" "temp = rptr s t"
  shows "(\<exists>s' u fs'. rbt_delete_side d temp s0 = Some (rptr s' u, s') \<and> view s' u fs' \<and> parent_set s' u fs' \<and> short_at u fs' \<and>
      fs' = fs \<and> isred u = c \<and> inorder (plug u fs') = inorder (plug t (F d c p (br d False b w g) # fs)) \<and> rb_frame s s') \<or>
    (\<exists>s' u. rbt_delete_side d temp s0 = Some (rt_root s', s') \<and> view s' u fs \<and> rb_inv (plug u fs) \<and> 
      inorder (plug u fs) = inorder (plug t (F d c p (br d False b w g) # fs)) \<and> rb_frame s s')"
proof -
  let ?u = "br d False b w g"
  note fl = iffD1 [OF view_flip v]
  have vb: "view s b (F d False w g # F (\<not> d) c p t # fs)" using fl by (simp add: view_move)
  have vg: "view s g (F (\<not> d) False w b # F (\<not> d) c p t # fs)" using fl unfolding view_move by (simp add: br_flip [of d False])
  have inv: "invh b" "invh g" "invh t" "invc b" "invc g" "invc t" "bheight b = bheight t" "bheight g = bheight t" "ctx_c fs" "c \<Longrightarrow> \<not> below_red fs"
      "ctx_h fs (if c then Suc (bheight t) else Suc (Suc (bheight t)))"
    using short t by (auto simp: short_at_def split: if_splits) (cases t; auto)+
  have reads: "get_link d w s = Some (rptr s b)" "get_link (\<not> d) w s = Some (rptr s g)"
      "ngx_rbt_is_red (rptr s b) s = Some (isred b)" "ngx_rbt_is_red (rptr s g) s = Some (isred g)"
    using view_frame(1,4) [OF vb] view_frame(4) [OF vg] view_red [OF vb] view_red [OF vg] view_top(1) [OF vb] view_top(1) [OF vg]
    by (simp_all add: get_link_def ngx_rbt_is_red_def)
  have side: "rbt_delete_side d temp s0 =
      (if \<not> isred b \<and> \<not> isred g then do { s \<leftarrow> ngx_rbt_red w s; parent \<leftarrow> get_parent temp s; Some (parent, s) }
       else rbt_delete_rotate d temp w s)"
    using reads run by (cases d) (auto simp: rbt_delete_side_def)
  show ?thesis
  proof (cases "isred b \<or> isred g")
    case True
    obtain s' u where s': "rbt_delete_rotate d (rptr s t) w s = Some (rt_root s', s')" "view s' u fs" "rb_frame s s'"
        "invh u" "invc u" "bheight u = bheight t + (if c then 1 else 2)" "isred u = c" "inorder u = inorder (br d c t p ?u)"
    proof -
      have "invh ?u" "invc ?u" "bheight t = bheight b" using inv by simp_all
      from delete_rotate_ok [OF v p True this(1,2) inv(3,6) this(3)] show ?thesis using that by blast
    qed
    have "rb_inv (plug u fs)" using s'(4-7) inv(9-11) by (auto simp: rb_inv_plug split: if_splits)
    moreover have "rbt_delete_side d temp s0 = Some (rt_root s', s')" using side s'(1) True run(2) by auto
    ultimately show ?thesis using s'(2,3,8) by (intro disjI2 exI [of _ s'] exI [of _ u]) (simp add: inorder_plug)
  next
    case False
    obtain s1 where s1: "ngx_rbt_color True w s = Some s1" "view s1 (br d True b w g) (F (\<not> d) c p t # fs)" "rb_frame s s1"
      by (rule view_color [OF fl])
    have v1: "view s1 t (F d c p (br d True b w g) # fs)" using s1(2) view_flip [of s1 t d] by simp
    have same: "rptr s1 x = rptr s x" for x using s1(3) by (intro rptr_cong) (simp add: rb_frame_def)
    have "get_parent temp s1 = Some p"
      using parent_set_keep [OF p s1(3) v1] view_top(1) [OF v1] run(2) by (simp add: get_parent_def same)
    then have res: "rbt_delete_side d temp s0 = Some (p, s1)" using side False s1(1) by (simp add: ngx_rbt_red_def)
    have v2: "view s1 (br d c t p (br d True b w g)) fs" using v1 by (simp add: view_move)
    have "short_at (br d c t p (br d True b w g)) fs"
      using inv False t by (auto simp: short_at_def split: if_splits)
    moreover have "inorder (plug (br d c t p (br d True b w g)) fs) = inorder (plug t (F d c p ?u # fs))"
      by (simp add: inorder_plug br_def)
    ultimately show ?thesis
      using res v2 parent_set_N [OF v2] s1(3)
      by (intro disjI1 exI [of _ s1] exI [of _ "br d c t p (br d True b w g)"] exI [of _ fs]) simp
  qed
qed


lemma rbt_delete_loop_ok:
  assumes "view s t fs" "parent_set s t fs" "short_at t fs"
  shows "delete_done s (inorder (plug t fs)) (rbt_delete_loop (rptr s t) s)"
  using assms
proof (induction "length fs" arbitrary: s t fs rule: less_induct)
  case less
  note v = less.prems(1)
  show ?case
  proof (cases "fs = [] \<or> isred t")
    case True
    then show ?thesis using delete_stop [OF v less.prems(3)] by blast
  next
    case False
    then obtain d c p u fs1 where fs: "fs = F d c p u # fs1" by (cases fs rule: below_red.cases) auto
    have t: "\<not> isred t" using False by simp
    note v = v [unfolded fs] and ps = less.prems(2) [unfolded fs] and short = less.prems(3) [unfolded fs]
    have "bheight u = Suc (bheight t)" using short by (simp add: short_at_def)
    then obtain e b w g where u: "u = br d e b w g" using rbt_br_ex [of u d] by (cases "u = E") auto
    have "rptr s t = rt_link s True p \<longleftrightarrow> d" using view_frame(7) [OF v, of True] u by auto
    then have round: "rbt_delete_round (rptr s t) s = rbt_delete_side d (rptr s t) s"
      using ps view_top(1) [OF v] view_frame(1) [OF v] by (simp add: rbt_delete_round_def get_parent_def get_link_def)
    have loop: "rbt_delete_loop (rptr s t) s = do { (temp, s) \<leftarrow> rbt_delete_side d (rptr s t) s; rbt_delete_loop temp s }"
      using t view_root [OF v] view_red [OF v] view_top(1) [OF v] round
      by (subst rbt_delete_loop.simps) (simp add: ngx_rbt_is_red_def)
    have final: "delete_done s (inorder (plug t fs)) (rbt_delete_loop (rptr s t) s)"
      if "rbt_delete_side d (rptr s t) s = Some (rt_root s', s')" "view s' x fs'" "rb_inv (plug x fs')"
        "inorder (plug x fs') = inorder (plug t fs)" "rb_frame s s'" for s' x fs'
    proof -
      have vp: "view s' (plug x fs') []" using that(2) by (rule iffD1 [OF view_plug])
      have "rptr s' (plug x fs') = rt_root s'" using view_root [OF vp] by simp
      then have "rbt_delete_loop (rt_root s') s' = Some (rptr s' (plug x fs'), s')" by (subst rbt_delete_loop.simps) simp
      then show ?thesis unfolding delete_done_def using loop that vp rb_inv_blacken [OF that(3)]
        by (intro exI [of _ s'] exI [of _ "plug x fs'"] exI [of _ "[]"]) simp
    qed
    show ?thesis
    proof (cases e)
      case False
      have sib: "rbt_delete_sibling d (rptr s t) s = Some (w, s)" using delete_sibling_black [OF v ps] u False by simp
      have e: "u = br d False b w g" using u False by simp
      from delete_round_black [OF v [unfolded e] ps [unfolded e] t short [unfolded e] sib refl]
      show ?thesis
      proof (elim disjE exE conjE)
        fix s' x fs' assume s': "rbt_delete_side d (rptr s t) s = Some (rptr s' x, s')" "view s' x fs'" "parent_set s' x fs'" "short_at x fs'"
          "fs' = fs1" "isred x = c" "inorder (plug x fs') = inorder (plug t (F d c p (br d False b w g) # fs1))" "rb_frame s s'"
        have "delete_done s' (inorder (plug x fs')) (rbt_delete_loop (rptr s' x) s')"
          using less.hyps [of fs' s' x] s'(2-5) by (simp add: fs)
        then show ?thesis using loop s'(1,7,8) by (simp add: fs e delete_done_frame)
      next
        fix s' x assume s': "rbt_delete_side d (rptr s t) s = Some (rt_root s', s')" "view s' x fs1" "rb_inv (plug x fs1)"
          "inorder (plug x fs1) = inorder (plug t (F d c p (br d False b w g) # fs1))" "rb_frame s s'"
        then show ?thesis by (intro final [OF s'(1-3)]) (simp_all add: fs e)
      qed
    next
      case True
      have e: "u = br d True b w g" using u True by simp
      obtain s1 where s1: "rbt_delete_sibling d (rptr s t) s = Some (rptr s b, s1)" "view s1 t (F d True p b # F d False w g # fs1)" "rb_frame s s1"
        by (rule delete_sibling_red [OF v [unfolded e] ps [unfolded e]])
      have inv: "invh b" "invh g" "bheight b = Suc (bheight t)" "bheight g = Suc (bheight t)" "invc b" "invc g" "\<not> isred b" "\<not> isred g"
          "\<not> c" "ctx_c fs1" "ctx_h fs1 (Suc (Suc (bheight t)))" "invh t" "invc (blacken t)"
        using short by (auto simp: short_at_def e split: if_splits)
      obtain b1 q b2 where b: "b = br d False b1 q b2" using inv(3,7) rbt_br_ex [of b d] by (cases "b = E") auto
      have same: "rptr s1 x = rptr s x" for x using s1(3) by (intro rptr_cong) (simp add: rb_frame_def)
      have ps1: "parent_set s1 t (F d True p b # F d False w g # fs1)" by (rule parent_set_keep [OF ps s1(3,2)])
      have short1: "short_at t (F d True p b # F d False w g # fs1)" using inv by (auto simp: short_at_def)
      have io: "inorder (plug t (F d True p b # F d False w g # fs1)) = inorder (plug t fs)"
        by (simp add: inorder_plug fs e br_def)
      have sib: "rbt_delete_sibling d (rptr s t) s = Some (q, s1)" using s1(1) b by simp
      from delete_round_black [OF s1(2) [unfolded b] ps1 [unfolded b] t short1 [unfolded b] sib same [symmetric]]
      show ?thesis
      proof (elim disjE exE conjE)
        fix s' x fs' assume s': "rbt_delete_side d (rptr s t) s = Some (rptr s' x, s')" "view s' x fs'" "parent_set s' x fs'" "short_at x fs'"
          "isred x = True" "inorder (plug x fs') = inorder (plug t (F d True p (br d False b1 q b2) # F d False w g # fs1))" "rb_frame s1 s'"
        have "delete_done s' (inorder (plug x fs')) (rbt_delete_loop (rptr s' x) s')"
          using delete_stop [OF s'(2,4)] s'(5) by simp
        moreover have "rb_frame s s'" using s1(3) s'(7) by (rule rb_frame_trans)
        ultimately show ?thesis using loop s'(1,6) io by (simp add: b delete_done_frame)
      next
        fix s' x assume s': "rbt_delete_side d (rptr s t) s = Some (rt_root s', s')" "view s' x (F d False w g # fs1)" "rb_inv (plug x (F d False w g # fs1))"
          "inorder (plug x (F d False w g # fs1)) = inorder (plug t (F d True p (br d False b1 q b2) # F d False w g # fs1))" "rb_frame s1 s'"
        show ?thesis
        proof (rule final [OF s'(1-3)])
          show "inorder (plug x (F d False w g # fs1)) = inorder (plug t fs)" using s'(4) io b by simp
          show "rb_frame s s'" using s1(3) s'(5) by (rule rb_frame_trans)
        qed
      qed
    qed
  qed
qed

section \<open>Unlinking a node\<close>

lemma view_parent_sentinel:
  assumes "view s t fs"
  shows "view (s\<lparr>rt_parent := (rt_parent s)(rt_sentinel s := q)\<rparr>) t fs"
proof -
  let ?s = "s\<lparr>rt_parent := (rt_parent s)(rt_sentinel s := q)\<rparr>"
  obtain up where f: "focus s up t fs" using assms unfolding view_def ..
  note d = focusD [OF f]
  have r: "rptr ?s t = rptr s t" by (rule rptr_cong) simp
  have "rb_at ?s up t" by (rule rb_at_cong [OF d(2)]) (use rb_at_nodes [OF d(2)] in \<open>auto simp: rb_node_def\<close>)
  moreover have "rb_ctx ?s fs (rptr ?s t) up" unfolding r
    by (rule rb_ctx_same [OF d(3)]) (use rb_ctx_nodes [OF d(3)] in \<open>auto simp: rb_node_def\<close>)
  moreover have "rb_sound ?s" using d(1) by (simp add: rb_sound_def)
  ultimately show ?thesis using f unfolding view_def focus_def by blast
qed

lemma replace_child_run:
  assumes "view s t (F e c p u # fs)" "t \<noteq> E"
  shows "rbt_replace_child (rptr s t) q s = put_link e p q s"
  using view_frame(1,6) [OF assms(1)] view_top(1) [OF assms(1)] view_frame(7) [OF assms(1), of True] assms(2)
  by (cases e) (auto simp: rbt_replace_child_def get_parent_def get_link_def)

text \<open>A node with one child at most is replaced by that child.\<close>

lemma unlink_ok:
  assumes v: "view s (br d c x n E) (F e c' p u # fs)"
  obtains s1 s2 where "rbt_replace_child n (rptr s x) s = Some s1" "get_parent n s1 = Some p" "put_parent (rptr s x) p s1 = Some s2"
    "view s2 x (F e c' p u # fs)" "parent_set s2 x (F e c' p u # fs)" "rt_key s2 = rt_key s" "rt_live s2 = rt_live s" "rt_sentinel s2 = rt_sentinel s"
    "rt_root s1 = rt_root s" "rt_live s1 = rt_live s"
proof -
  let ?fs = "F e c' p u # fs"
  let ?s1 = "s\<lparr>rt_link := (rt_link s)(e := (rt_link s e)(p := rptr s x))\<rparr>"
  let ?s2 = "?s1\<lparr>rt_parent := (rt_parent s)(rptr s x := p)\<rparr>"
  obtain up where f: "focus s up (br d c x n E) ?fs" using v unfolding view_def ..
  note fd = focusD [OF f]
  have p: "up = p" "rb_node s p" "rt_parent s n = p" using fd(2,3) by auto
  have x: "rptr s x \<in> rt_live s" using fd(1,2) by (auto intro: rptr_live)
  have xp: "rptr s x \<notin> aboves ?fs"
  proof (cases "x = E")
    case True
    then show ?thesis using rb_ctx_nodes [OF fd(3)] by (auto simp: rb_node_def)
  next
    case False
    then show ?thesis using fd(6) rptr_in [OF False, of s] by auto
  qed
  have xn: "rptr s x \<noteq> n" using fd(2,4) rptr_in [of x s] by (cases "x = E") (auto simp: rb_node_def)
  have r: "rptr ?s2 t = rptr s t" for t by (rule rptr_cong) simp
  have run: "rbt_replace_child n (rptr s x) s = Some ?s1"
    using replace_child_run [OF v] p(2) by (simp add: put_link_def rb_node_def)
  have "rb_ctx s ?fs n p" using fd(3) p(1) by simp
  then have ctx: "rb_ctx ?s2 ?fs (rptr s x) p"
    by (rule rb_ctx_relink [where q' = "rptr s x"]) (use xp fd(5) in auto)
  have at: "rb_at ?s2 p x"
  proof (rule rb_at_reparent [of s n x])
    show "rb_at s n x" "distinct (inorder x)" using fd(2,4) by simp_all
    show "rt_red ?s2 q = rt_red s q \<and> (\<forall>d. rt_link ?s2 d q = rt_link s d q)" if "q \<in> set (inorder x)" for q
      using that fd(6) by auto
    show "rt_parent ?s2 q = (if q = rptr s x then p else rt_parent s q)" for q by simp
  qed simp_all
  have "distinct (inorder (plug x ?fs))" using view_distinct [OF v] by (auto simp: inorder_plug br_def split: if_splits)
  then have "focus ?s2 p x ?fs" using fd(1) at ctx by (simp add: focus_def rb_sound_def r)
  then have v2: "view ?s2 x ?fs" unfolding view_def ..
  have "rptr ?s2 x = rptr s x" by (rule r)
  then have "parent_set ?s2 x ?fs" by simp
  moreover have "get_parent n ?s1 = Some p" using p fd(2) by (simp add: get_parent_def rb_node_def)
  moreover have "put_parent (rptr s x) p ?s1 = Some ?s2" using x by (simp add: put_parent_def)
  ultimately show ?thesis using that [of ?s1 ?s2] run v2 by simp
qed

lemma clear_node_ok:
  assumes v: "view s t fs" and n: "rb_node s n" "n \<notin> set (inorder (plug t fs))"
  obtains s' where "rbt_clear_node n s = Some s'" "view s' t fs" "rt_key s' = (rt_key s)(n := 0)" "rt_live s' = rt_live s"
    "rt_sentinel s' = rt_sentinel s" "rt_root s' = rt_root s" "\<forall>p. p \<noteq> n \<longrightarrow> rt_parent s' p = rt_parent s p"
proof -
  let ?s = "s\<lparr>rt_link := (\<lambda>e p. if p = n then 0 else rt_link s e p), rt_parent := (rt_parent s)(n := 0), rt_key := (rt_key s)(n := 0)\<rparr>"
  obtain up where f: "focus s up t fs" using v unfolding view_def ..
  note d = focusD [OF f]
  have n': "n \<notin> set (inorder t)" "n \<notin> aboves fs" using n(2) by (auto simp: inorder_plug simp flip: set_before_after)
  have r: "rptr ?s u = rptr s u" for u by (rule rptr_cong) simp
  have run: "rbt_clear_node n s = Some ?s"
    using n(1) by (auto simp: rbt_clear_node_def put_link_def put_parent_def rb_node_def fun_eq_iff)
  have "rb_at ?s up t" by (rule rb_at_cong [OF d(2)]) (use n' in auto)
  moreover have "rb_ctx ?s fs (rptr ?s t) up" unfolding r by (rule rb_ctx_same [OF d(3)]) (use n' in auto)
  ultimately have "focus ?s up t fs" using f unfolding focus_def by (simp add: rb_sound_def)
  then have "view ?s t fs" unfolding view_def ..
  then show ?thesis using that [OF run] by simp
qed

text \<open>
  \<open>subst\<close> takes the place of \<open>n\<close>. The store \<open>s\<close> may differ from one with the tree in the parent of the right child, which is
  overwritten, if there is one.
\<close>

lemma take_place_ok:
  assumes v: "view s0 (N c l n r) fs" and s: "s = s0\<lparr>rt_parent := (rt_parent s0)(rptr s0 r := x)\<rparr>"
    and q: "rb_node s0 q" "q \<notin> set (inorder (plug (N c l n r) fs))"
  obtains s' where "rbt_take_place n q s = Some s'" "view s' (N c l q r) fs" "rt_key s' = rt_key s" "rt_live s' = rt_live s"
    "rt_sentinel s' = rt_sentinel s" "rt_parent s' (rt_sentinel s) = rt_parent s (rt_sentinel s)"
proof -
  obtain up where f: "focus s0 up (N c l n r) fs" using v unfolding view_def ..
  note d = focusD [OF f]
  let ?R = "\<lambda>t. if t \<noteq> E then {rptr s0 t} else {}"
  let ?s = "s0\<lparr>rt_root := (if fs = [] then q else rt_root s0),
    rt_link := (\<lambda>e p. if p = q then rt_link s0 e n else case fs of F d' _ _ _ # _ \<Rightarrow> if p = up \<and> e = d' then q else rt_link s0 e p | [] \<Rightarrow> rt_link s0 e p),
    rt_parent := (\<lambda>p. if p \<in> ?R l \<union> ?R r then q else if p = q then up else if p = rptr s0 r then x else rt_parent s0 p),
    rt_red := (rt_red s0)(q := c)\<rparr>"
  have rp: "rptr ?s t = rptr s0 t" for t by (rule rptr_cong) simp
  have n: "rb_node s0 n" "rt_parent s0 n = up" "rt_link s0 True n = rptr s0 l" "rt_link s0 False n = rptr s0 r" "rt_red s0 n = c"
    using d(2) by auto
  have q': "q \<notin> set (inorder l)" "q \<notin> set (inorder r)" "q \<noteq> n" "q \<notin> aboves fs" "q \<noteq> rt_sentinel s0" "q \<in> rt_live s0"
    using q by (auto simp: inorder_plug rb_node_def simp flip: set_before_after)
  have lr: "rptr s0 l \<in> rt_live s0" "rptr s0 r \<in> rt_live s0" "rptr s0 l = rt_sentinel s0 \<longleftrightarrow> l = E" "rptr s0 r = rt_sentinel s0 \<longleftrightarrow> r = E"
    using d(1,2) rptr_live rptr_sentinel by auto
  have ne: "rptr s0 l \<noteq> n" "rptr s0 r \<noteq> n" "rptr s0 l \<noteq> q" "rptr s0 r \<noteq> q"
    using rptr_in [of l s0] rptr_in [of r s0] d(4) n(1) q' by (cases "l = E"; cases "r = E"; auto simp: rb_node_def)+
  have root: "n = rt_root s0 \<longleftrightarrow> fs = []" using view_top(4) [OF v] by simp
  have run: "rbt_take_place n q s = Some ?s"
  proof (cases fs)
    case Nil
    then show ?thesis using n q' lr ne root unfolding s
      by (auto simp: rbt_take_place_def rb_access rb_node_def fun_eq_iff)
  next
    case (Cons fr fs')
    obtain e c' p u where fr: "fr = F e c' p u" by (cases fr)
    have p: "p = up" "up \<in> rt_live s0" "up \<noteq> n" "up \<noteq> q" "up \<noteq> rt_sentinel s0" "n = rt_link s0 True up \<longleftrightarrow> e"
      using d(3,6) q' view_frame(7) [OF v [unfolded Cons fr], of True] by (auto simp: Cons fr rb_node_def)
    show ?thesis using n q' lr ne root p unfolding s Cons fr
      by (cases e) (auto simp: rbt_take_place_def rbt_replace_child_def rb_access rb_node_def fun_eq_iff)
  qed
  have l: "rb_at ?s q l"
  proof (rule rb_at_reparent [of s0 n l])
    show "rb_at s0 n l" "distinct (inorder l)" using d(2,4) by simp_all
    show "rt_red ?s p = rt_red s0 p \<and> (\<forall>d. rt_link ?s d p = rt_link s0 d p)" if "p \<in> set (inorder l)" for p
      using that q' d(3,6) by (cases fs rule: aboves.cases) auto
    show "rt_parent ?s p = (if p = rptr s0 l then q else rt_parent s0 p)" if "p \<in> set (inorder l)" for p
      using that q' d(4) rptr_in [of r s0] rb_at_nodes [of s0 n l p] d(2) by (cases "r = E") (auto simp: rb_node_def)
  qed simp_all
  have r: "rb_at ?s q r"
  proof (rule rb_at_reparent [of s0 n r])
    show "rb_at s0 n r" "distinct (inorder r)" using d(2,4) by simp_all
    show "rt_red ?s p = rt_red s0 p \<and> (\<forall>d. rt_link ?s d p = rt_link s0 d p)" if "p \<in> set (inorder r)" for p
      using that q' d(3,6) by (cases fs rule: aboves.cases) auto
    show "rt_parent ?s p = (if p = rptr s0 r then q else rt_parent s0 p)" if "p \<in> set (inorder r)" for p
      using that q' d(4) rptr_in [of l s0] rb_at_nodes [of s0 n r p] d(2) by (cases "l = E") (auto simp: rb_node_def)
  qed simp_all
  have links: "rt_link ?s True q = rptr s0 l" "rt_link ?s False q = rptr s0 r" using n by simp_all
  have "rb_at ?s up (N c l q r)" using l r links q' rp lr ne by (auto simp: rb_node_def)
  moreover have "rb_ctx s0 fs n up" using d(3) by simp
  then have "rb_ctx ?s fs q up"
  proof (rule rb_ctx_relink [where q' = q])
    show "rt_parent ?s p = rt_parent s0 p \<and> rt_red ?s p = rt_red s0 p" if "p \<in> aboves fs" for p
      using that q' d(6) rptr_in [of l s0] rptr_in [of r s0] rb_ctx_nodes [OF d(3) that] lr
      by (cases "l = E"; cases "r = E") (auto simp: rb_node_def)
    show "rt_link ?s d' p = q \<and> rt_link ?s (\<not> d') p = rt_link s0 (\<not> d') p" if "fs = F d' c' p u # fs'" for d' c' p u fs'
      using that d(3) q' by auto
    show "rt_link ?s e p = rt_link s0 e p" if "p \<in> aboves fs" "p \<noteq> up" for p e
      using that q' by (cases fs rule: aboves.cases) auto
    show "distinct (before fs @ after fs)" by (rule d(5))
  qed simp_all
  moreover have "distinct (inorder (plug (N c l q r) fs))" using view_distinct [OF v] q(2) by (auto simp: inorder_plug)
  moreover have "rb_sound ?s" using d(1) q' by (simp add: rb_sound_def)
  ultimately have "view ?s (N c l q r) fs" unfolding view_def by (intro exI [of _ up] focusI) simp_all
  moreover have "rt_parent ?s (rt_sentinel s) = rt_parent s (rt_sentinel s)" using lr q' by (auto simp: s)
  ultimately show ?thesis using that [OF run] by (simp add: s)
qed

section \<open>The smallest node\<close>

lemma plug_append: "plug t (fs @ gs) = plug (plug t fs) gs"
  by (induction t fs rule: plug.induct) auto

lemma ngx_rbtree_min_ok:
  assumes "view s t fs" "t \<noteq> E"
  shows "\<exists>gs c p r. ngx_rbtree_min (rptr s t) s = Some p \<and> plug (N c E p r) gs = t \<and> before gs = []"
  using assms
proof (induction t arbitrary: fs)
  case (N c l p r)
  have v: "view s l (F True c p r # fs)" using N.prems(1) unfolding view_move by (simp add: br_def)
  have step: "ngx_rbtree_min p s = (if l = E then Some p else ngx_rbtree_min (rptr s l) s)"
    using view_frame(1,4) [OF v] view_top(2) [OF v] by (subst ngx_rbtree_min.simps) (simp add: get_link_def)
  show ?case
  proof (cases "l = E")
    case True
    then show ?thesis using step by (intro exI [of _ "[]"] exI [of _ c] exI [of _ p] exI [of _ r]) simp
  next
    case False
    then obtain gs c' q r' where "ngx_rbtree_min (rptr s l) s = Some q" "plug (N c' E q r') gs = l" "before gs = []"
      using N.IH(1) [OF v] by blast
    moreover have "before (gs @ [F True c p r]) = before gs" by (induction gs rule: before.induct) auto
    ultimately show ?thesis using step False
      by (intro exI [of _ "gs @ [F True c p r]"] exI [of _ c'] exI [of _ q] exI [of _ r']) (simp add: plug_append br_def)
  qed
qed simp

lemma rb_tree_min:
  assumes "rb_tree s (p # xs)"
  shows "ngx_rbtree_min (rt_root s) s = Some p"
proof -
  obtain t where t: "view s t []" "inorder t = p # xs" using assms unfolding rb_tree_def by blast
  then have "t \<noteq> E" by auto
  then obtain gs c q r where q: "ngx_rbtree_min (rptr s t) s = Some q" "plug (N c E q r) gs = t" "before gs = []"
    using ngx_rbtree_min_ok [OF t(1)] by blast
  have "inorder t = q # inorder r @ after gs" unfolding q(2) [symmetric] by (simp add: inorder_plug q(3))
  then show ?thesis using q(1) t(2) view_root [OF t(1)] by simp
qed

section \<open>The whole deletion\<close>

lemma before_append: "before (fs @ gs) = before gs @ before fs"
  by (induction fs rule: before.induct) auto

lemma after_append: "after (fs @ gs) = after fs @ after gs"
  by (induction fs rule: after.induct) auto

text \<open>What stays the same: the keys of the other nodes.\<close>

definition del_frame :: "ptr \<Rightarrow> ngx_rbtree \<Rightarrow> ngx_rbtree \<Rightarrow> bool" where
  "del_frame n s s' \<longleftrightarrow> rt_live s' = rt_live s \<and> rt_sentinel s' = rt_sentinel s \<and> rt_key s' = (rt_key s)(n := 0)"

text \<open>The end of the deletion: the loop runs if a black node was unlinked.\<close>

lemma delete_end:
  assumes v: "view s t fs" and p: "parent_set s t fs" and fs: "fs \<noteq> []"
    and inv: "rb_inv (plug (br d red t n E) fs)"
  shows "\<exists>s'. (if red then Some s else do { (temp, s) \<leftarrow> rbt_delete_loop (rptr s t) s; ngx_rbt_black temp s }) = Some s' \<and>
    rb_tree s' (inorder (plug t fs)) \<and> rb_frame s s'"
proof (cases red)
  case True
  have "rb_inv (plug t fs)" using inv True by (auto simp: rb_inv_plug br_def split: if_splits)
  moreover have "view s (plug t fs) []" using v by (rule iffD1 [OF view_plug])
  ultimately show ?thesis using True by (auto simp: rb_tree_def)
next
  case False
  have "short_at t fs"
    using inv False inv_blacken [of t] unfolding rb_inv_plug short_at_def by (cases t; cases d) (auto simp: br_def)
  then have "delete_done s (inorder (plug t fs)) (rbt_delete_loop (rptr s t) s)" by (rule rbt_delete_loop_ok [OF v p])
  then obtain s1 t1 fs1 where s1: "rbt_delete_loop (rptr s t) s = Some (rptr s1 t1, s1)" "view s1 t1 fs1" "rb_inv (plug (blacken t1) fs1)"
      "inorder (plug t1 fs1) = inorder (plug t fs)" "rb_frame s s1" unfolding delete_done_def by blast
  have "\<exists>s2. ngx_rbt_black (rptr s1 t1) s1 = Some s2 \<and> view s2 (blacken t1) fs1 \<and> rb_frame s1 s2"
  proof (cases "t1 = E")
    case True
    then show ?thesis using ngx_rbt_black_sentinel [OF view_sound [OF s1(2)]] s1(2) by auto
  next
    case False
    then obtain c a q b where t1: "t1 = br True c a q b" using rbt_br_ex by blast
    obtain s2 where "ngx_rbt_color False q s1 = Some s2" "view s2 (br True False a q b) fs1" "rb_frame s1 s2"
      by (rule view_color [OF s1(2) [unfolded t1]])
    moreover have "rptr s1 t1 = q" "blacken t1 = br True False a q b" by (simp_all add: t1)
    ultimately show ?thesis by (auto simp: ngx_rbt_black_def)
  qed
  then obtain s2 where s2: "ngx_rbt_black (rptr s1 t1) s1 = Some s2" "view s2 (blacken t1) fs1" "rb_frame s1 s2" by blast
  have "rb_tree s2 (inorder (plug t fs))" unfolding rb_tree_def
    using s1(3,4) iffD1 [OF view_plug s2(2)] by (intro exI [of _ "plug (blacken t1) fs1"]) (simp add: inorder_plug)
  then show ?thesis using False s1(1,5) s2(1,3) rb_frame_trans by auto
qed

lemma place_ex: "n \<in> set (inorder t) \<Longrightarrow> \<exists>c l r fs. plug (N c l n r) fs = t"
proof (induction t)
  case (N c l p r)
  consider "n = p" | "n \<in> set (inorder l)" | "n \<in> set (inorder r)" using N.prems by auto
  then show ?case
  proof cases
    case 1
    then show ?thesis by (metis plug.simps(1))
  next
    case 2
    then obtain c' l' r' fs where "plug (N c' l' n r') fs = l" using N.IH(1) by blast
    then have "plug (N c' l' n r') (fs @ [F True c p r]) = N c l p r" by (simp add: plug_append br_def)
    then show ?thesis by blast
  next
    case 3
    then obtain c' l' r' fs where "plug (N c' l' n r') fs = r" using N.IH(2) by blast
    then have "plug (N c' l' n r') (fs @ [F False c p l]) = N c l p r" by (simp add: plug_append br_def)
    then show ?thesis by blast
  qed
qed simp

lemma inorder_br_E: "inorder (br d c x n E) = (if d then inorder x @ [n] else n # inorder x)"
  by (simp add: br_def)

lemma remove1_place: "distinct (xs @ n # ys) \<Longrightarrow> remove1 n (xs @ n # ys) = xs @ ys"
  by (simp add: remove1_append)

text \<open>The root, with one child at most, is deleted.\<close>

lemma delete_root:
  assumes v: "view s (br d c x n E) []" and inv: "rb_inv (br d c x n E)"
  shows "\<exists>s'. do { s \<leftarrow> ngx_rbt_black (rptr s x) (s\<lparr>rt_root := rptr s x\<rparr>); rbt_clear_node n s } = Some s' \<and>
    rb_tree s' (inorder x) \<and> del_frame n s s'"
proof -
  let ?s = "s\<lparr>rt_root := rptr s x\<rparr>"
  obtain up where f: "focus s up (br d c x n E) []" using v unfolding view_def ..
  note fd = focusD [OF f]
  have n: "rb_node s n" "n \<notin> set (inorder x)" using fd(2,4) by auto
  have r: "rptr ?s t = rptr s t" for t by (rule rptr_cong) simp
  have "rb_at ?s n x" by (rule rb_at_cong [of s n x]) (use fd(2) in auto)
  then have "focus ?s n x []" using fd(1,4) by (simp add: focus_def r rb_sound_def)
  then have vx: "view ?s x []" unfolding view_def ..
  have inv': "rb_inv (blacken x)" using inv inv_blacken [of x] by (cases x) (auto simp: rb_inv_def)
  have "\<exists>s1. ngx_rbt_black (rptr s x) ?s = Some s1 \<and> view s1 (blacken x) [] \<and> rb_frame ?s s1"
  proof (cases "x = E")
    case True
    then show ?thesis using ngx_rbt_black_sentinel [OF view_sound [OF vx]] vx by auto
  next
    case False
    then obtain e a q b where x: "x = br True e a q b" using rbt_br_ex by blast
    obtain s1 where "ngx_rbt_color False q ?s = Some s1" "view s1 (br True False a q b) []" "rb_frame ?s s1"
      by (rule view_color [OF vx [unfolded x]]) (simp add: x)
    then show ?thesis by (auto simp: ngx_rbt_black_def x)
  qed
  then obtain s1 where s1: "ngx_rbt_black (rptr s x) ?s = Some s1" "view s1 (blacken x) []" "rb_frame ?s s1" by blast
  have n1: "rb_node s1 n" "n \<notin> set (inorder (plug (blacken x) []))" using n s1(3) by (simp_all add: rb_node_def rb_frame_def)
  obtain s2 where s2: "rbt_clear_node n s1 = Some s2" "view s2 (blacken x) []" "rt_key s2 = (rt_key s1)(n := 0)" "rt_live s2 = rt_live s1"
      "rt_sentinel s2 = rt_sentinel s1" by (rule clear_node_ok [OF s1(2) n1])
  have "rb_tree s2 (inorder x)" unfolding rb_tree_def using s2(2) inv' by (intro exI [of _ "blacken x"]) simp
  then show ?thesis using s1(1,3) s2 by (auto simp: del_frame_def rb_frame_def)
qed

lemma choose_one:
  assumes v: "view s (br d c x n E) fs"
  shows "rbt_choose n s = Some (n, rptr s x)"
proof -
  have "view s x (F d c n E # fs)" using v by (simp add: view_move)
  note vx = view_frame [OF this] view_top(2) [OF this]
  show ?thesis using vx(1,4,5,8) by (cases d) (auto simp: rbt_choose_def get_link_def)
qed

lemma delete_one:
  assumes v: "view s (br d c x n E) fs" and inv: "rb_inv (plug (br d c x n E) fs)"
  shows "\<exists>s'. ngx_rbtree_delete n s = Some s' \<and> rb_tree s' (inorder (plug x fs)) \<and> del_frame n s s'"
proof (cases fs)
  case Nil
  have "rt_root s = n" using view_root [OF v] Nil by simp
  then show ?thesis using delete_root [OF v [unfolded Nil]] inv choose_one [OF v] by (simp add: Nil ngx_rbtree_delete_def)
next
  case (Cons fr fs')
  obtain e c' p u where fr: "fr = F e c' p u" by (cases fr)
  have fs: "fs = F e c' p u # fs'" by (simp add: Cons fr)
  obtain s1 s2 where s2: "rbt_replace_child n (rptr s x) s = Some s1" "get_parent n s1 = Some p" "put_parent (rptr s x) p s1 = Some s2"
    "view s2 x fs" "parent_set s2 x fs" "rt_key s2 = rt_key s" "rt_live s2 = rt_live s" "rt_sentinel s2 = rt_sentinel s"
    unfolding fs by (rule unlink_ok [OF v [unfolded fs]])
  have n2: "rb_node s2 n" using view_nodes [OF v] s2(7,8) by (simp add: rb_node_def inorder_plug)
  have nx: "n \<notin> set (inorder (plug x fs))" using view_distinct [OF v] by (auto simp: inorder_plug inorder_br_E split: if_splits)
  obtain s3 where s3: "rbt_clear_node n s2 = Some s3" "view s3 x fs" "rt_key s3 = (rt_key s2)(n := 0)" "rt_live s3 = rt_live s2"
    "rt_sentinel s3 = rt_sentinel s2" "\<forall>p. p \<noteq> n \<longrightarrow> rt_parent s3 p = rt_parent s2 p"
    by (rule clear_node_ok [OF s2(4) n2 nx])
  have same: "rptr s3 x = rptr s2 x" "rptr s2 x = rptr s x" using rptr_cong [OF s3(5)] rptr_cong [OF s2(8)] by simp_all
  have "rptr s2 x \<noteq> n" using n2 nx rptr_in [of x s2] view_top(2) [OF s2(4)] by (cases "x = E") (auto simp: inorder_plug rb_node_def)
  then have "parent_set s3 x fs" using s2(5) s3(6) by (simp add: fs same)
  from delete_end [OF s3(2) this _ inv] obtain s4 where
    s4: "(if c then Some s3 else do { (temp, s) \<leftarrow> rbt_delete_loop (rptr s3 x) s3; ngx_rbt_black temp s }) = Some s4"
      "rb_tree s4 (inorder (plug x fs))" "rb_frame s3 s4" by (auto simp: fs)
  have "n \<noteq> rt_root s" using view_root [OF v] by (simp add: fs)
  moreover have "ngx_rbt_is_red n s = Some c" using view_red [OF v] view_top(1) [OF v] by (simp add: ngx_rbt_is_red_def)
  ultimately have "ngx_rbtree_delete n s = Some s4"
    using choose_one [OF v] s2(1-3) s3(1) s4(1) [unfolded same] by (cases c) (simp_all add: ngx_rbtree_delete_def)
  then show ?thesis using s4(2,3) s3(3-5) s2(6-8) by (auto simp: del_frame_def rb_frame_def)
qed

text \<open>The colours and black heights do not depend on which node is where.\<close>

lemma ctx_rename:
  "ctx_h (gs @ F d c p u # fs) k = ctx_h (gs @ F d c q u # fs) k" "ctx_c (gs @ F d c p u # fs) = ctx_c (gs @ F d c q u # fs)"
  "below_red (gs @ F d c p u # fs) = below_red (gs @ F d c q u # fs)"
proof -
  show 3: "below_red (gs @ F d c p u # fs) = below_red (gs @ F d c q u # fs)" for gs by (cases gs rule: below_red.cases) auto
  show "ctx_h (gs @ F d c p u # fs) k = ctx_h (gs @ F d c q u # fs) k" by (induction gs k rule: ctx_h.induct) auto
  show "ctx_c (gs @ F d c p u # fs) = ctx_c (gs @ F d c q u # fs)" by (induction gs rule: ctx_c.induct) (auto simp: 3)
qed

lemma plug_E: "plug t fs = E \<longleftrightarrow> t = E \<and> fs = []"
  by (induction t fs rule: plug.induct) auto

lemma delete_two:
  assumes v: "view s (N c l n r) fs" and inv: "rb_inv (plug (N c l n r) fs)" and lr: "l \<noteq> E" "r \<noteq> E"
  shows "\<exists>s'. ngx_rbtree_delete n s = Some s' \<and> rb_tree s' (before fs @ inorder l @ inorder r @ after fs) \<and> del_frame n s s'"
proof -
  have vr: "view s r (F False c n l # fs)" and vl: "view s l (F True c n r # fs)"
    using v unfolding view_move by (simp_all add: br_def)
  obtain gs cs sp rs where m: "ngx_rbtree_min (rptr s r) s = Some sp" "plug (N cs E sp rs) gs = r" "before gs = []"
    using ngx_rbtree_min_ok [OF vr lr(2)] by blast
  define FS where "FS = gs @ F False c n l # fs"
  have N: "N cs E sp rs = br False cs rs sp E" by (simp add: br_def)
  have pl: "plug (br False cs rs sp E) FS = plug (N c l n r) fs" unfolding FS_def plug_append N [symmetric] m(2) by (simp add: br_def)
  have vs: "view s (br False cs rs sp E) FS" by (rule iffD2 [OF view_plug]) (use iffD1 [OF view_plug v] pl in simp)
  have dis: "distinct (inorder (plug (N c l n r) fs))" using view_distinct [OF v] .
  have ir: "inorder r = sp # inorder rs @ after gs" unfolding m(2) [symmetric] by (simp add: inorder_plug m(3))
  have irs: "inorder (plug rs gs) = inorder rs @ after gs" by (simp add: inorder_plug m(3))
  have sp: "sp \<noteq> n" "sp \<notin> set (inorder l)" "sp \<notin> set (inorder rs)" "sp \<notin> set (after gs)" "sp \<notin> aboves fs"
    "n \<notin> set (inorder l)" "n \<notin> set (inorder rs)" "n \<notin> set (after gs)" "n \<notin> aboves fs"
    using dis unfolding inorder_plug by (auto simp: ir simp flip: set_before_after)
  have ags: "aboves gs = set (after gs)" using set_before_after [of gs] m(3) by simp
  have choose: "rbt_choose n s = Some (sp, rptr s rs)"
  proof -
    have "view s rs (F False cs sp E # FS)" using vs by (simp add: view_move)
    note q = view_frame(1,4,5) [OF this]
    show ?thesis using q m(1) view_frame(1,4) [OF vr] view_frame(4) [OF vl] view_top(2) [OF vl] view_top(2) [OF vr] lr
      by (simp add: rbt_choose_def get_link_def)
  qed
  obtain e c' p u FS' where FS': "FS = F e c' p u # FS'" unfolding FS_def by (cases gs) (auto, metis frame.exhaust)
  have pn: "p = n \<longleftrightarrow> gs = []"
    using FS' sp(8) ags unfolding FS_def by (cases gs rule: aboves.cases) auto
  obtain s1 s2 where s2: "rbt_replace_child sp (rptr s rs) s = Some s1" "get_parent sp s1 = Some p" "put_parent (rptr s rs) p s1 = Some s2"
    "view s2 rs FS" "parent_set s2 rs FS" "rt_key s2 = rt_key s" "rt_live s2 = rt_live s" "rt_sentinel s2 = rt_sentinel s" "rt_live s1 = rt_live s"
    unfolding FS' by (rule unlink_ok [OF vs [unfolded FS']])
  let ?r = "plug rs gs"
  have v2: "view s2 (N c l n ?r) fs"
    using iffD1 [OF view_plug s2(4)] view_plug [of s2 "N c l n ?r" fs] unfolding FS_def plug_append by (simp add: br_def)
  have same: "rptr s2 t = rptr s t" for t using s2(8) by (rule rptr_cong)
  define x where "x = (if gs = [] then sp else rt_parent s2 (rptr s2 ?r))"
  let ?s = "s2\<lparr>rt_parent := (rt_parent s2)(rptr s2 ?r := x)\<rparr>"
  have live: "rptr s rs \<in> rt_live s" using view_top(1) [OF s2(4)] s2(7) same by simp
  have sub: "(if p = n then put_parent (rptr s rs) sp s1 else put_parent (rptr s rs) p s1) = Some ?s"
    using s2(3,9) live by (auto simp: pn x_def put_parent_def same fun_upd_idem)
  have q: "rb_node s2 sp" "sp \<notin> set (inorder (plug (N c l n ?r) fs))"
  proof -
    show "rb_node s2 sp" using view_nodes [OF vs, of sp] s2(7,8) by (simp add: rb_node_def inorder_plug)
    show "sp \<notin> set (inorder (plug (N c l n ?r) fs))" using sp by (auto simp: inorder_plug irs m(3) simp flip: set_before_after)
  qed
  obtain s3 where s3: "rbt_take_place n sp ?s = Some s3" "view s3 (N c l sp ?r) fs" "rt_key s3 = rt_key ?s" "rt_live s3 = rt_live ?s"
    "rt_sentinel s3 = rt_sentinel ?s" "rt_parent s3 (rt_sentinel ?s) = rt_parent ?s (rt_sentinel ?s)"
    by (rule take_place_ok [OF v2 refl q])
  define FS3 where "FS3 = gs @ F False c sp l # fs"
  have v3: "view s3 rs FS3"
    using iffD1 [OF view_plug s3(2)] view_plug [of s3 rs FS3] unfolding FS3_def plug_append by (simp add: br_def)
  have n3: "rb_node s3 n" using view_nodes [OF v, of n] s2(7,8) s3(4,5) by (simp add: rb_node_def inorder_plug)
  have i3: "inorder (plug rs FS3) = before fs @ inorder l @ inorder r @ after fs"
    unfolding FS3_def plug_append by (simp add: inorder_plug br_def m(3) ir)
  have nx: "n \<notin> set (inorder (plug rs FS3))" unfolding i3 using sp by (auto simp: ir simp flip: set_before_after)
  have par3: "rs = E \<Longrightarrow> parent_set s3 rs FS3"
  proof -
    assume E: "rs = E"
    have "rt_parent s3 (rt_sentinel s2) = (if gs = [] then sp else rt_parent s2 (rt_sentinel s2))"
    proof (cases "gs = []")
      case False
      then have "?r \<noteq> E" by (simp add: plug_E)
      then show ?thesis using s3(6) view_top(2) [OF v2] False by (simp add: x_def)
    qed (use s3(6) in \<open>simp add: x_def E\<close>)
    then show ?thesis using s2(5) s3(5) unfolding FS_def FS3_def E by (cases gs rule: below_red.cases) auto
  qed
  have ps3: "parent_set s3 rs FS3" using par3 parent_set_N [OF v3] by blast
  obtain s4 where s4: "rbt_clear_node n s3 = Some s4" "view s4 rs FS3" "rt_key s4 = (rt_key s3)(n := 0)" "rt_live s4 = rt_live s3"
    "rt_sentinel s4 = rt_sentinel s3" "\<forall>p. p \<noteq> n \<longrightarrow> rt_parent s4 p = rt_parent s3 p"
    by (rule clear_node_ok [OF v3 n3 nx])
  have same4: "rptr s4 rs = rptr s rs" "rptr s3 rs = rptr s rs" using rptr_cong [of s4 s rs] rptr_cong [of s3 s rs] s4(5) s3(5) s2(8) by simp_all
  have "rptr s rs \<noteq> n" using sp(7) rptr_in [of rs s] n3 s3(5) s2(8) by (cases "rs = E") (auto simp: rb_node_def)
  then have ps4: "parent_set s4 rs FS3" using ps3 s4(6) same4 by (cases FS3 rule: below_red.cases) auto
  have "rb_inv (plug (br False cs rs sp E) FS3)"
    using inv unfolding pl [symmetric] rb_inv_plug FS_def FS3_def ctx_rename [where p = n and q = sp] .
  from delete_end [OF s4(2) ps4 _ this] obtain s5 where
    s5: "(if cs then Some s4 else do { (temp, s) \<leftarrow> rbt_delete_loop (rptr s4 rs) s4; ngx_rbt_black temp s }) = Some s5"
      "rb_tree s5 (inorder (plug rs FS3))" "rb_frame s4 s5" by (auto simp: FS3_def)
  have "sp \<noteq> rt_root s" using view_root [OF vs] by (simp add: FS')
  moreover have "ngx_rbt_is_red sp s = Some cs" using view_red [OF vs] view_top(1) [OF vs] by (simp add: ngx_rbt_is_red_def)
  ultimately have "ngx_rbtree_delete n s = Some s5"
    using choose sp(1) s2(1,2) sub s3(1) s4(1) s5(1) [unfolded same4] by (cases cs) (simp_all add: ngx_rbtree_delete_def rbt_substitute_def)
  then show ?thesis using s5(2,3) s4(3-5) s3(3-5) s2(6-8) unfolding i3 by (auto simp: del_frame_def rb_frame_def)
qed

lemma ngx_rbtree_delete_ok:
  assumes "rb_tree s xs" "n \<in> set xs"
  shows "\<exists>s'. ngx_rbtree_delete n s = Some s' \<and> rb_tree s' (remove1 n xs) \<and> del_frame n s s'"
proof -
  obtain t where t: "view s t []" "rb_inv t" "inorder t = xs" using assms(1) unfolding rb_tree_def by blast
  obtain c l r fs where pl: "plug (N c l n r) fs = t" using place_ex [of n t] assms(2) t(3) by blast
  have v: "view s (N c l n r) fs" using t(1) view_plug [of s "N c l n r" fs] pl by simp
  have inv: "rb_inv (plug (N c l n r) fs)" using t(2) pl by simp
  have xs: "xs = (before fs @ inorder l) @ n # (inorder r @ after fs)" using t(3) pl by (auto simp: inorder_plug)
  have "distinct xs" using view_distinct [OF t(1)] t(3) by simp
  then have rem: "remove1 n xs = before fs @ inorder l @ inorder r @ after fs" unfolding xs using remove1_place [of "before fs @ inorder l" n "inorder r @ after fs"] by simp
  consider "l = E" | "r = E" | "l \<noteq> E" "r \<noteq> E" by blast
  then show ?thesis
  proof cases
    case 1
    then have eq: "N c l n r = br False c r n E" by (simp add: br_def)
    from delete_one [OF v [unfolded eq] inv [unfolded eq]] show ?thesis unfolding rem inorder_plug by (simp add: 1)
  next
    case 2
    then have eq: "N c l n r = br True c l n E" by (simp add: br_def)
    from delete_one [OF v [unfolded eq] inv [unfolded eq]] show ?thesis unfolding rem inorder_plug by (simp add: 2)
  next
    case 3
    from delete_two [OF v inv 3] show ?thesis unfolding rem .
  qed
qed

end
