(* ===== verification/RbCorrect.thy ===== *)
theory RbCorrect
  imports RbDelete
begin

text \<open>
  Traversal of the red-black tree, its height, and the properties of insertion and deletion.
\<close>

section \<open>Traversal\<close>

lemma rbt_next_up_ok:
  "view s t fs \<Longrightarrow> t \<noteq> E \<Longrightarrow> rbt_next_up (rptr s t) s = Some (case after fs of [] \<Rightarrow> 0 | q # _ \<Rightarrow> q)"
proof (induction t fs rule: plug.induct)
  case (1 t)
  then show ?case using view_root [OF 1(1)] view_top(1) [OF 1(1)] by (subst rbt_next_up.simps) (simp add: get_parent_def)
next
  case (2 t d c p u fs)
  have v: "view s (br d c t p u) fs" using 2(2) by (simp add: view_move)
  have step: "rbt_next_up (rptr s t) s = (if d then Some p else rbt_next_up p s)"
    using view_root [OF 2(2)] view_top(1) [OF 2(2)] view_frame(1,6) [OF 2(2)] view_frame(7) [OF 2(2), of True] 2(3)
    by (subst rbt_next_up.simps) (auto simp: get_parent_def get_link_def)
  then show ?case using 2(1) [OF v] by auto
qed

lemma ngx_rbtree_next_ok:
  assumes "rb_tree s (xs @ p # ys)"
  shows "ngx_rbtree_next p s = Some (case ys of [] \<Rightarrow> 0 | q # _ \<Rightarrow> q)"
proof -
  obtain t where t: "view s t []" "inorder t = xs @ p # ys" using assms unfolding rb_tree_def by blast
  obtain c l r fs where pl: "plug (N c l p r) fs = t" using place_ex [of p t] t(2) by auto
  have v: "view s (N c l p r) fs" using t(1) view_plug [of s "N c l p r" fs] pl by simp
  have io: "inorder t = (before fs @ inorder l) @ p # (inorder r @ after fs)" using pl by (auto simp: inorder_plug)
  have dis: "distinct (inorder t)" using view_distinct [OF t(1)] by simp
  have "p \<notin> set (before fs @ inorder l)" "p \<notin> set (inorder r @ after fs)" using dis unfolding io by auto
  then
  have ys: "ys = inorder r @ after fs" using t(2) io append_Cons_eq_iff [of p "before fs @ inorder l" "inorder r @ after fs" xs ys] by metis
  have vr: "view s r (F False c p l # fs)" using v unfolding view_move by (simp add: br_def)
  show ?thesis
  proof (cases "r = E")
    case True
    then show ?thesis using rbt_next_up_ok [OF v] view_frame(1,4) [OF vr] ys by (simp add: ngx_rbtree_next_def get_link_def)
  next
    case False
    obtain gs c' q r' where q: "ngx_rbtree_min (rptr s r) s = Some q" "plug (N c' E q r') gs = r" "before gs = []"
      using ngx_rbtree_min_ok [OF vr False] by blast
    have "inorder r = q # inorder r' @ after gs" unfolding q(2) [symmetric] by (simp add: inorder_plug q(3))
    then show ?thesis using q(1) view_frame(1,4) [OF vr] view_top(2) [OF vr] False ys by (simp add: ngx_rbtree_next_def get_link_def)
  qed
qed

section \<open>Height\<close>

fun height :: "rbt \<Rightarrow> nat" where
  "height E = 0"
| "height (N c l p r) = Suc (max (height l) (height r))"

lemma height_bheight: "invc t \<Longrightarrow> invh t \<Longrightarrow> height t \<le> 2 * bheight t + (if isred t then 1 else 0)"
  by (induction t) (auto split: if_splits)

lemma bheight_size: "invh t \<Longrightarrow> 2 ^ bheight t \<le> length (inorder t) + 1"
proof (induction t)
  case (N c l p r)
  then have "2 ^ bheight l \<le> length (inorder l) + 1" "2 ^ bheight l \<le> length (inorder r) + 1" by auto
  then show ?case by (auto simp: power_add)
qed simp

section \<open>Properties\<close>

lemma timer_less_window:
  assumes "unat (a - base) < 2147483648" "unat (b - base) < 2147483648"
  shows "timer_less a b \<longleftrightarrow> unat (a - base) < unat (b - base)"
proof -
  let ?x = "int (unat (a - base))" and ?y = "int (unat (b - base))"
  have "a - b = (a - base) - (b - base)" by simp
  also have "\<dots> = word_of_int (?x - ?y)" by simp
  finally have "sint (a - b) = sint (word_of_int (?x - ?y) :: u32)" by (rule arg_cong)
  also have "\<dots> = ?x - ?y"
  proof -
    have "signed_take_bit 31 (int i - int j) = int i - int j" if "i < 2147483648" "j < 2147483648" for i j :: nat
      using that by (simp add: signed_take_bit_int_eq_self)
    from this [OF assms] show ?thesis unfolding signed_of_int by simp
  qed
  finally have "sint (a - b) = ?x - ?y" .
  then have "timer_less a b \<longleftrightarrow> ?x < ?y" unfolding timer_less_def by linarith
  then show ?thesis by (simp only: of_nat_less_iff)
qed

text \<open>
  C23: \<open>ngx_rbtree_insert\<close> of a node that is not in the tree returns, with a red-black tree (links and parent pointers, no red
  node below a red one, equal black heights) in which the node comes behind the nodes with a smaller or equal key, and
  the other nodes keep their order; the same for timer values in the order of time, as long as all keys lie
  within a window of half the 32-bit range.
\<close>

theorem ngx_rbtree_insert_correct:
  assumes "rb_tree s xs" "rb_node s node" "node \<notin> set xs"
  shows "(sorted (map (rt_key s) xs) \<longrightarrow>
      (\<exists>s'. ngx_rbtree_insert ngx_rbtree_insert_value node s = Some s' \<and> rb_tree s' (insert_by (\<lambda>p. unat (rt_key s p)) node xs) \<and> rb_frame s s')) \<and>
    (\<forall>base. (\<forall>p \<in> set (node # xs). unat (rt_key s p - base) < 2147483648) \<longrightarrow> sorted (map (\<lambda>p. rt_key s p - base) xs) \<longrightarrow>
      (\<exists>s'. ngx_rbtree_insert ngx_rbtree_insert_timer_value node s = Some s' \<and>
        rb_tree s' (insert_by (\<lambda>p. unat (rt_key s p - base)) node xs) \<and> rb_frame s s'))"
proof (intro conjI allI impI)
  assume "sorted (map (rt_key s) xs)"
  then have "sorted (map (\<lambda>p. unat (rt_key s p)) xs)" by (simp add: sorted_map word_le_nat_alt)
  then show "\<exists>s'. ngx_rbtree_insert ngx_rbtree_insert_value node s = Some s' \<and> rb_tree s' (insert_by (\<lambda>p. unat (rt_key s p)) node xs) \<and> rb_frame s s'"
    unfolding ngx_rbtree_insert_value_def
    using ngx_rbtree_insert_ok [OF assms, of "\<lambda>a b. a < b" unat] word_less_nat_alt by blast
next
  fix base
  assume w: "\<forall>p \<in> set (node # xs). unat (rt_key s p - base) < 2147483648" "sorted (map (\<lambda>p. rt_key s p - base) xs)"
  then have "sorted (map (\<lambda>p. unat (rt_key s p - base)) xs)" by (simp add: sorted_map word_le_nat_alt)
  then show "\<exists>s'. ngx_rbtree_insert ngx_rbtree_insert_timer_value node s = Some s' \<and>
        rb_tree s' (insert_by (\<lambda>p. unat (rt_key s p - base)) node xs) \<and> rb_frame s s'"
    unfolding ngx_rbtree_insert_timer_value_def
    using ngx_rbtree_insert_ok [OF assms, of timer_less "\<lambda>k. unat (k - base)"] w(1) by (simp add: timer_less_window)
qed

text \<open>Two nodes, 1 and 2, and the sentinel 9.\<close>

definition rb_example :: ngx_rbtree where
  "rb_example = \<lparr>rt_root = 9, rt_sentinel = 9, rt_live = {1, 2, 9}, rt_key = (\<lambda>p. if p = 1 then 30 else 20),
     rt_link = (\<lambda>_ _. 0), rt_parent = (\<lambda>_. 0), rt_red = (\<lambda>_. False)\<rparr>"

lemma rb_example_empty: "rb_tree rb_example []"
  unfolding rb_tree_def view_def focus_def
  by (intro exI [of _ E] exI [of _ 0] conjI) (simp_all add: rb_example_def rb_sound_def rb_inv_def)

theorem ngx_rbtree_insert_correct_witness:
  "\<exists>s'. ngx_rbtree_insert ngx_rbtree_insert_value 1 rb_example = Some s' \<and> rb_tree s' [1]"
proof -
  have "rb_node rb_example 1" by (simp add: rb_node_def rb_example_def)
  from conjunct1 [OF ngx_rbtree_insert_correct [OF rb_example_empty this]] show ?thesis
    by (auto simp: insert_by_def)
qed

text \<open>
  C24: \<open>ngx_rbtree_delete\<close> of a node of the tree returns, with a red-black tree of the other nodes in their order, whether the
  node has two children or not and whichever rotations are needed.
\<close>

theorem ngx_rbtree_delete_correct:
  assumes "rb_tree s xs" "n \<in> set xs"
  shows "\<exists>s'. ngx_rbtree_delete n s = Some s' \<and> rb_tree s' (remove1 n xs) \<and> rt_live s' = rt_live s \<and>
    rt_sentinel s' = rt_sentinel s \<and> (\<forall>p. p \<noteq> n \<longrightarrow> rt_key s' p = rt_key s p)"
  using ngx_rbtree_delete_ok [OF assms] by (auto simp: del_frame_def)

theorem ngx_rbtree_delete_correct_witness:
  "\<exists>s1 s2 s3. ngx_rbtree_insert ngx_rbtree_insert_value 1 rb_example = Some s1 \<and>
    ngx_rbtree_insert ngx_rbtree_insert_value 2 s1 = Some s2 \<and> ngx_rbtree_delete 1 s2 = Some s3 \<and> rb_tree s3 [2]"
proof -
  have n: "rb_node rb_example 1" "rb_node rb_example 2" by (simp_all add: rb_node_def rb_example_def)
  obtain s1 where s1: "ngx_rbtree_insert ngx_rbtree_insert_value 1 rb_example = Some s1" "rb_tree s1 [1]" "rb_frame rb_example s1"
    using ngx_rbtree_insert_ok [OF rb_example_empty n(1), of "\<lambda>a b. a < b" unat] by (auto simp: insert_by_def ngx_rbtree_insert_value_def)
  have k: "rt_key s1 1 = 30" "rt_key s1 2 = 20" "rb_node s1 2" using s1(3) n(2) by (auto simp: rb_frame_def rb_example_def rb_node_def)
  obtain s2 where s2: "ngx_rbtree_insert ngx_rbtree_insert_value 2 s1 = Some s2" "rb_tree s2 [2, 1]"
    using ngx_rbtree_insert_ok [OF s1(2) k(3), of "\<lambda>a b. a < b" unat] k by (auto simp: insert_by_def ngx_rbtree_insert_value_def)
  have "\<exists>s3. ngx_rbtree_delete 1 s2 = Some s3 \<and> rb_tree s3 [2]" using ngx_rbtree_delete_correct [OF s2(2), of 1] by auto
  then show ?thesis using s1(1) s2(1) by blast
qed

text \<open>
  C25: Starting with \<open>ngx_rbtree_min\<close> at the root and going on with \<open>ngx_rbtree_next\<close> visits all nodes in their order and
  ends with null; and no path of the tree is longer than twice the logarithm of the number of nodes plus one.
\<close>

theorem ngx_rbtree_traversal:
  assumes "rb_tree s xs"
  shows "(\<forall>p ys. xs = p # ys \<longrightarrow> ngx_rbtree_min (rt_root s) s = Some p) \<and>
    (\<forall>as p ys. xs = as @ p # ys \<longrightarrow> ngx_rbtree_next p s = Some (case ys of [] \<Rightarrow> 0 | q # _ \<Rightarrow> q)) \<and>
    (\<exists>t. view s t [] \<and> inorder t = xs \<and> 2 ^ height t \<le> (length xs + 1) ^ 2)"
proof (intro conjI allI impI)
  show "ngx_rbtree_min (rt_root s) s = Some p" if "xs = p # ys" for p ys using rb_tree_min assms that by simp
  show "ngx_rbtree_next p s = Some (case ys of [] \<Rightarrow> 0 | q # _ \<Rightarrow> q)" if "xs = as @ p # ys" for as p ys
    using ngx_rbtree_next_ok assms that by simp
  obtain t where t: "view s t []" "rb_inv t" "inorder t = xs" using assms unfolding rb_tree_def by blast
  have "height t \<le> 2 * bheight t" using height_bheight [of t] t(2) by (simp add: rb_inv_def)
  then have "2 ^ height t \<le> (2 :: nat) ^ (2 * bheight t)" by (intro power_increasing) simp_all
  also have "\<dots> = (2 ^ bheight t) ^ 2" by (simp add: power_mult [symmetric] mult.commute)
  also have "\<dots> \<le> (length xs + 1) ^ 2" using bheight_size [of t] t(2,3) by (intro power_mono) (simp_all add: rb_inv_def)
  finally show "\<exists>t. view s t [] \<and> inorder t = xs \<and> 2 ^ height t \<le> (length xs + 1) ^ 2" using t by blast
qed

theorem ngx_rbtree_traversal_witness:
  "\<exists>s1. ngx_rbtree_insert ngx_rbtree_insert_value 1 rb_example = Some s1 \<and> ngx_rbtree_min (rt_root s1) s1 = Some 1 \<and> ngx_rbtree_next 1 s1 = Some 0"
proof -
  have n: "rb_node rb_example 1" by (simp add: rb_node_def rb_example_def)
  obtain s1 where s1: "ngx_rbtree_insert ngx_rbtree_insert_value 1 rb_example = Some s1" "rb_tree s1 [1]"
    using ngx_rbtree_insert_ok [OF rb_example_empty n, of "\<lambda>a b. a < b" unat] by (auto simp: insert_by_def ngx_rbtree_insert_value_def)
  have "ngx_rbtree_next 1 s1 = Some (case [] of [] \<Rightarrow> 0 | q # _ \<Rightarrow> q)" "ngx_rbtree_min (rt_root s1) s1 = Some 1"
    using ngx_rbtree_traversal [OF s1(2)] by blast+
  then show ?thesis using s1(1) by simp
qed

end
