(* ===== verification/RbtTimer.thy ===== *)
theory RbtTimer
  imports RbCorrect MhTimer
begin

text \<open>
  The timer of \<^verbatim>\<open>timer/rbt-timer.h\<close>: the global red-black tree \<open>timer\<close> with the static node \<open>sentinel\<close>. The address that
  \<open>malloc\<close> returns and the clock are arguments of the operations, the handlers an argument of \<open>expire_timer\<close>.
\<close>

section \<open>State and operations\<close>

record rbt_timer =
  rt_tree :: ngx_rbtree
  rt_handler :: "ptr \<Rightarrow> nat"

text \<open>\<open>init_timer\<close>: the sentinel is a static variable, so it exists and its fields are zero.\<close>

definition rbt_init_timer :: "ptr \<Rightarrow> rbt_timer option" where
  "rbt_init_timer sentinel =
     do { t \<leftarrow> ngx_rbtree_init sentinel \<lparr>rt_root = 0, rt_sentinel = 0, rt_live = {sentinel}, rt_key = (\<lambda>_. 0),
              rt_link = (\<lambda>_ _. 0), rt_parent = (\<lambda>_. 0), rt_red = (\<lambda>_. False)\<rparr>;
          Some \<lparr>rt_tree = t, rt_handler = (\<lambda>_. 0)\<rparr> }"

text \<open>\<open>malloc\<close> and \<open>memset\<close> of an entry.\<close>

definition rbt_zero_node :: "ptr \<Rightarrow> ngx_rbtree \<Rightarrow> ngx_rbtree" where
  "rbt_zero_node te t = t\<lparr>rt_live := insert te (rt_live t), rt_key := (rt_key t)(te := 0),
     rt_link := (\<lambda>d. (rt_link t d)(te := 0)), rt_parent := (rt_parent t)(te := 0), rt_red := (rt_red t)(te := False)\<rparr>"

definition rbt_free :: "ptr \<Rightarrow> ngx_rbtree \<Rightarrow> ngx_rbtree option" where
  "rbt_free te t = (if te \<in> rt_live t then Some (t\<lparr>rt_live := rt_live t - {te}\<rparr>) else None)"

text \<open>The result of \<open>malloc\<close> is not checked: the null pointer goes to \<open>memset\<close>.\<close>

definition rbt_add_timer :: "ptr option \<Rightarrow> u32 \<Rightarrow> u32 \<Rightarrow> nat \<Rightarrow> rbt_timer \<Rightarrow> (ptr \<times> rbt_timer) option" where
  "rbt_add_timer new now msec func st =
     do { te \<leftarrow> new;
          let t = rbt_zero_node te (rt_tree st);
          let t = t\<lparr>rt_key := (rt_key t)(te := msec + now)\<rparr>;
          t \<leftarrow> ngx_rbtree_insert ngx_rbtree_insert_timer_value te t;
          Some (te, \<lparr>rt_tree = t, rt_handler = (rt_handler st)(te := func)\<rparr>) }"

text \<open>\<open>del_timer\<close>, and the two statements after the handler in \<open>expire_timer\<close>.\<close>

definition rbt_del_timer :: "ptr \<Rightarrow> rbt_timer \<Rightarrow> rbt_timer option" where
  "rbt_del_timer te st =
     do { t \<leftarrow> ngx_rbtree_delete te (rt_tree st);
          t \<leftarrow> rbt_free te t;
          Some (st\<lparr>rt_tree := t\<rparr>) }"

definition rbt_peek :: "rbt_timer \<Rightarrow> ptr option option" where
  "rbt_peek st =
     (let t = rt_tree st in
      if rt_root t = rt_sentinel t then Some None else map_option Some (ngx_rbtree_min (rt_root t) t))"

definition rbt_find_nearest_expire_timer :: "u32 \<Rightarrow> rbt_timer \<Rightarrow> int option" where
  "rbt_find_nearest_expire_timer now st =
     do { node \<leftarrow> rbt_peek st;
          case node of
            None \<Rightarrow> Some (- 1)
          | Some node \<Rightarrow> do { k \<leftarrow> get_key node (rt_tree st); wait_msec k now } }"

definition rbt_time :: "rbt_timer \<Rightarrow> ptr \<Rightarrow> u32 option" where
  "rbt_time st te = get_key te (rt_tree st)"

definition rbt_expire_timer ::
  "(ptr \<Rightarrow> rbt_timer \<Rightarrow> rbt_timer option) \<Rightarrow> u32 \<Rightarrow> rbt_timer \<Rightarrow> (rbt_timer \<times> ptr list) option" where
  "rbt_expire_timer handler now st = expire_loop rbt_peek rbt_time handler rbt_del_timer now st"

section \<open>The tree as a timer store\<close>

text \<open>The pending entries are the nodes of the tree; no other node exists but the sentinel.\<close>

definition rbt_pending :: "rbt_timer \<Rightarrow> ptr multiset" where
  "rbt_pending st = mset_set (rt_live (rt_tree st) - {rt_sentinel (rt_tree st)})"

definition rbt_holds :: "rbt_timer \<Rightarrow> ptr list \<Rightarrow> bool" where
  "rbt_holds st xs \<longleftrightarrow> rb_tree (rt_tree st) xs \<and> rt_live (rt_tree st) = insert (rt_sentinel (rt_tree st)) (set xs)"

abbreviation rbt_expires :: "rbt_timer \<Rightarrow> ptr \<Rightarrow> u32" where
  "rbt_expires st \<equiv> rt_key (rt_tree st)"

text \<open>
  The tree is ordered by the signed difference of the keys, which is the order of time as long as they
  lie in a window of half the 32-bit range; the window starts at \<open>base\<close> and may reach across the
  overflow.
\<close>

definition rbt_wf :: "u32 \<Rightarrow> rbt_timer \<Rightarrow> bool" where
  "rbt_wf base st \<longleftrightarrow> (\<exists>xs. rbt_holds st xs \<and> (\<forall>p \<in> set xs. unat (rbt_expires st p - base) < 2147483648) \<and>
     sorted (map (\<lambda>p. rbt_expires st p - base) xs))"

text \<open>No pending key has wrapped around.\<close>

definition rbt_nowrap :: "u32 \<Rightarrow> rbt_timer \<Rightarrow> bool" where
  "rbt_nowrap base st \<longleftrightarrow> rbt_wf base st \<and> (\<forall>q \<in># rbt_pending st. base \<le> rbt_expires st q)"

lemma rb_tree_nodes: "rb_tree s xs \<Longrightarrow> distinct xs \<and> rt_sentinel s \<notin> set xs \<and> set xs \<subseteq> rt_live s \<and> rt_sentinel s \<in> rt_live s"
  unfolding rb_tree_def using view_distinct view_nodes view_sound
  by (fastforce simp: rb_node_def rb_sound_def)

lemma rb_tree_empty_iff: "rb_tree s xs \<Longrightarrow> rt_root s = rt_sentinel s \<longleftrightarrow> xs = []"
  unfolding rb_tree_def view_def focus_def
  by (metis inorder.simps(1) length_greater_0_conv list.size(3) plug.simps(1) rb_ctx.simps(1) rptr_in rptr_sentinel length_pos_if_in_set)

text \<open>A red-black tree only depends on the fields of its nodes: others may come and go.\<close>

lemma rb_tree_cong:
  assumes "rb_tree s xs" "rt_root s' = rt_root s" "rt_sentinel s' = rt_sentinel s"
    and "rt_red s' (rt_sentinel s) = rt_red s (rt_sentinel s)" "insert (rt_sentinel s) (set xs) \<subseteq> rt_live s'"
    and "\<And>p. p \<in> set xs \<Longrightarrow> rt_parent s' p = rt_parent s p \<and> rt_red s' p = rt_red s p \<and> (\<forall>d. rt_link s' d p = rt_link s d p)"
  shows "rb_tree s' xs"
proof -
  obtain t up where t: "focus s up t []" "rb_inv t" "inorder t = xs" using assms(1) unfolding rb_tree_def view_def by blast
  have [simp]: "rptr s' u = rptr s u" for u using assms(3) by (rule rptr_cong)
  have at: "rb_at s' up t" if "set (inorder t) \<subseteq> set xs" "rb_at s up t" for t up
    using that assms(3,5,6) by (induction t arbitrary: up) (auto simp: rb_node_def)
  have "focus s' up t []" using t(1,3) at [of t up] assms(2-5) by (auto simp: focus_def rb_sound_def)
  then show ?thesis using t(2,3) unfolding rb_tree_def view_def by blast
qed

lemma rbt_holds_pending: "rbt_holds st xs \<Longrightarrow> rbt_pending st = mset xs"
  using rb_tree_nodes [of "rt_tree st" xs] by (simp add: rbt_holds_def rbt_pending_def mset_set_set)

lemma rbt_holds_peek: "rbt_holds st xs \<Longrightarrow> rbt_peek st = Some (case xs of [] \<Rightarrow> None | p # _ \<Rightarrow> Some p)"
  using rb_tree_empty_iff [of "rt_tree st" xs] rb_tree_min [of "rt_tree st"]
  by (auto simp: rbt_holds_def rbt_peek_def split: list.splits)

lemma rbt_holds_time: "rbt_holds st xs \<Longrightarrow> p \<in> set xs \<Longrightarrow> rbt_time st p = Some (rbt_expires st p)"
  by (simp add: rbt_holds_def rbt_time_def get_key_def)

lemma rbt_del_timer_ok:
  assumes "rbt_holds st xs" "te \<in> set xs"
  shows "\<exists>st'. rbt_del_timer te st = Some st' \<and> rbt_holds st' (remove1 te xs) \<and> rbt_expires st' = (rbt_expires st)(te := 0)"
proof -
  have tree: "rb_tree (rt_tree st) xs" and live: "rt_live (rt_tree st) = insert (rt_sentinel (rt_tree st)) (set xs)"
    using assms(1) by (simp_all add: rbt_holds_def)
  obtain t where t: "ngx_rbtree_delete te (rt_tree st) = Some t" "rb_tree t (remove1 te xs)" "del_frame te (rt_tree st) t"
    using ngx_rbtree_delete_ok [OF tree assms(2)] by blast
  have n: "distinct xs" "rt_sentinel t \<notin> set xs" "rt_live t = insert (rt_sentinel t) (set xs)" "te \<in> rt_live t"
    using rb_tree_nodes [OF tree] t(3) live assms(2) by (auto simp: del_frame_def)
  then have "rb_tree (t\<lparr>rt_live := rt_live t - {te}\<rparr>) (remove1 te xs)"
    using assms(2) by (intro rb_tree_cong [OF t(2)]) auto
  then show ?thesis using t(1,3) n assms(2) by (auto simp: rbt_del_timer_def rbt_free_def rbt_holds_def del_frame_def)
qed

lemma sorted_map_mono:
  assumes "sorted (map f xs)" "\<And>x y. x \<in> set xs \<Longrightarrow> y \<in> set xs \<Longrightarrow> f x \<le> f y \<Longrightarrow> g x \<le> g y"
  shows "sorted (map g xs)"
  using assms unfolding sorted_map by (auto intro: sorted_wrt_mono_rel [rotated])

lemma word_diff_mono: "base \<le> a \<Longrightarrow> base \<le> b \<Longrightarrow> (a - base \<le> b - base) = (a \<le> b)" for a b :: u32
  by (metis word_le_nat_alt unat_sub le_diff_iff)

lemma rbt_nowrap_sorted:
  "rbt_nowrap base st \<longleftrightarrow> (\<exists>xs. rbt_holds st xs \<and> sorted (map (rbt_expires st) xs) \<and>
     (\<forall>p \<in> set xs. base \<le> rbt_expires st p \<and> unat (rbt_expires st p - base) < 2147483648))" (is "_ \<longleftrightarrow> ?R")
proof
  assume "rbt_nowrap base st"
  then obtain xs where xs: "rbt_holds st xs" "\<forall>p \<in> set xs. unat (rbt_expires st p - base) < 2147483648"
      "sorted (map (\<lambda>p. rbt_expires st p - base) xs)" "\<forall>q \<in># rbt_pending st. base \<le> rbt_expires st q"
    by (auto simp: rbt_nowrap_def rbt_wf_def)
  note all = xs(4) [unfolded rbt_holds_pending [OF xs(1)] set_mset_mset]
  have "sorted (map (rbt_expires st) xs)"
    by (rule sorted_map_mono [OF xs(3)]) (use all in \<open>auto simp: word_diff_mono\<close>)
  then show ?R using xs all by blast
next
  assume ?R
  then obtain xs where xs: "rbt_holds st xs" "sorted (map (rbt_expires st) xs)"
      "\<forall>p \<in> set xs. base \<le> rbt_expires st p \<and> unat (rbt_expires st p - base) < 2147483648" by blast
  have "sorted (map (\<lambda>p. rbt_expires st p - base) xs)"
    by (rule sorted_map_mono [OF xs(2)]) (use xs(3) in \<open>auto simp: word_diff_mono\<close>)
  then show "rbt_nowrap base st" using xs rbt_holds_pending [OF xs(1)] by (auto simp: rbt_nowrap_def rbt_wf_def)
qed

interpretation rbq: timer_queue "rbt_nowrap base" rbt_pending rbt_expires rbt_peek rbt_time rbt_del_timer
  for base
proof (unfold_locales, goal_cases)
  case (1 s)
  then show ?case using rbt_holds_pending rbt_holds_peek by (fastforce simp: rbt_nowrap_sorted)
next
  case (2 s)
  then obtain xs where xs: "rbt_holds s xs" "sorted (map (rbt_expires s) xs)" by (auto simp: rbt_nowrap_sorted)
  then show ?case using 2(2) rbt_holds_pending [OF xs(1)] rbt_holds_peek [OF xs(1)] by (cases xs) auto
next
  case (3 s q)
  then show ?case using rbt_holds_pending rbt_holds_time by (fastforce simp: rbt_nowrap_sorted)
next
  case (4 s q)
  then obtain xs where xs: "rbt_holds s (q # xs)" "sorted (map (rbt_expires s) (q # xs))"
      "\<forall>p \<in> set (q # xs). base \<le> rbt_expires s p \<and> unat (rbt_expires s p - base) < 2147483648"
    using rbt_holds_peek by (auto simp: rbt_nowrap_sorted split: list.splits)
  obtain s' where s': "rbt_del_timer q s = Some s'" "rbt_holds s' xs" "rbt_expires s' = (rbt_expires s)(q := 0)"
    using rbt_del_timer_ok [OF xs(1), of q] by auto
  have "q \<notin> set xs" using rb_tree_nodes [of "rt_tree s" "q # xs"] xs(1) by (simp add: rbt_holds_def)
  then have keys: "\<forall>r \<in> set xs. rbt_expires s' r = rbt_expires s r" using s'(3) by auto
  then have "rbt_nowrap base s'"
    unfolding rbt_nowrap_sorted using s'(2) xs(2,3) by (intro exI [of _ xs]) (auto cong: map_cong)
  then show ?case using s'(1) keys rbt_holds_pending [OF s'(2)] rbt_holds_pending [OF xs(1)] by auto
qed

lemma insert_by_set: "mset (insert_by r x xs) = add_mset x (mset xs)"
  by (simp add: insert_by_def) (metis mset_append takeWhile_dropWhile_id)

lemma insert_by_sorted:
  assumes "sorted (map r xs)"
  shows "sorted (map r (insert_by r x xs))"
proof -
  have "sorted (map r (takeWhile (\<lambda>y. r y \<le> r x) xs))" "sorted (map r (dropWhile (\<lambda>y. r y \<le> r x) xs))"
    using assms by (metis map_append sorted_append takeWhile_dropWhile_id)+
  moreover have "\<forall>y \<in> set (dropWhile (\<lambda>y. r y \<le> r x) xs). r x \<le> r y"
  proof (cases "dropWhile (\<lambda>y. r y \<le> r x) xs")
    case Nil
    then show ?thesis unfolding Nil by simp
  next
    case (Cons z zs)
    then have "\<not> r z \<le> r x" by (metis hd_dropWhile list.distinct(1) list.sel(1))
    then show ?thesis using calculation(2) unfolding Cons by auto
  qed
  moreover have "\<forall>y \<in> set (takeWhile (\<lambda>y. r y \<le> r x) xs). r y \<le> r x" by (auto dest: set_takeWhileD)
  ultimately show ?thesis by (fastforce simp: insert_by_def sorted_append)
qed

lemma rbt_init_timer_holds: "\<exists>st. rbt_init_timer sn = Some st \<and> rbt_holds st [] \<and> rt_sentinel (rt_tree st) = sn"
  by (auto simp: rbt_init_timer_def ngx_rbtree_init_def ngx_rbt_black_def ngx_rbt_color_def rbt_holds_def rb_tree_def view_def
      focus_def rb_sound_def rb_inv_def intro!: exI [of _ E])

text \<open>Adding a timer in a window of half the 32-bit range that starts at \<open>base\<close>, possibly across the wrap-around.\<close>

lemma rbt_add_timer_window:
  assumes holds: "rbt_holds st xs" and new: "te \<notin> rt_live (rt_tree st)"
    and win: "\<forall>p \<in> set xs. unat (rbt_expires st p - base) < 2147483648" "unat (msec + now - base) < 2147483648"
    and srt: "sorted (map (\<lambda>p. rbt_expires st p - base) xs)"
  shows "\<exists>st'. rbt_add_timer (Some te) now msec func st = Some (te, st') \<and>
    rbt_holds st' (insert_by (\<lambda>p. unat (rbt_expires st' p - base)) te xs) \<and> rbt_expires st' = (rbt_expires st)(te := msec + now) \<and>
    rt_live (rt_tree st') = insert te (rt_live (rt_tree st))"
proof -
  let ?z = "rbt_zero_node te (rt_tree st)"
  let ?t = "?z\<lparr>rt_key := (rt_key ?z)(te := msec + now)\<rparr>"
  have tree: "rb_tree (rt_tree st) xs" and live: "rt_live (rt_tree st) = insert (rt_sentinel (rt_tree st)) (set xs)"
    using holds by (simp_all add: rbt_holds_def)
  have te: "te \<notin> set xs" "te \<noteq> rt_sentinel (rt_tree st)" using new live by auto
  have t: "rb_tree ?t xs" using te live by (intro rb_tree_cong [OF tree]) (auto simp: rbt_zero_node_def)
  have node: "rb_node ?t te" using te by (simp add: rb_node_def rbt_zero_node_def)
  have keys: "rt_key ?t = (rbt_expires st)(te := msec + now)" by (auto simp: rbt_zero_node_def)
  have lt: "timer_less (rt_key ?t te) (rt_key ?t p) \<longleftrightarrow> unat (rt_key ?t te - base) < unat (rt_key ?t p - base)" if "p \<in> set xs" for p
    using that te win unfolding keys by (intro timer_less_window) auto
  have "sorted (map (\<lambda>p. unat (rt_key ?t p - base)) xs)"
    by (rule sorted_map_mono [OF srt]) (use te(1) in \<open>auto simp: keys word_le_nat_alt\<close>)
  then obtain t' where t': "ngx_rbtree_insert ngx_rbtree_insert_timer_value te ?t = Some t'"
    "rb_tree t' (insert_by (\<lambda>p. unat (rt_key ?t p - base)) te xs)" "rb_frame ?t t'"
    unfolding ngx_rbtree_insert_timer_value_def
    using ngx_rbtree_insert_ok [OF t node te(1), of timer_less "\<lambda>k. unat (k - base)"] lt by blast
  have "set (insert_by r te xs) = insert te (set xs)" for r
    using arg_cong [OF insert_by_set [of r te xs], of set_mset] by simp
  then have "rbt_holds \<lparr>rt_tree = t', rt_handler = (rt_handler st)(te := func)\<rparr> (insert_by (\<lambda>p. unat (rt_key ?t p - base)) te xs)"
    using t'(2,3) live by (auto simp: rbt_holds_def rb_frame_def rbt_zero_node_def)
  moreover have "rt_key t' = rt_key ?t" using t'(3) by (simp add: rb_frame_def)
  ultimately show ?thesis using t'(1,3) keys by (simp add: rbt_add_timer_def Let_def rb_frame_def rbt_zero_node_def)
qed

lemma rbt_add_timer_wf:
  assumes "rbt_wf base st" and te: "te \<notin> rt_live (rt_tree st)" and win: "unat (msec + now - base) < 2147483648"
  shows "\<exists>st'. rbt_add_timer (Some te) now msec func st = Some (te, st') \<and> rbt_wf base st' \<and>
    rbt_pending st' = add_mset te (rbt_pending st) \<and> rbt_expires st' = (rbt_expires st)(te := msec + now) \<and>
    rt_live (rt_tree st') = insert te (rt_live (rt_tree st)) \<and>
    (\<forall>q. rbt_peek st = Some (Some q) \<longrightarrow> rbt_expires st q - base \<le> msec + now - base \<longrightarrow> rbt_peek st' = Some (Some q))"
proof -
  obtain xs where xs: "rbt_holds st xs" "\<forall>p \<in> set xs. unat (rbt_expires st p - base) < 2147483648"
      "sorted (map (\<lambda>p. rbt_expires st p - base) xs)" using assms(1) by (auto simp: rbt_wf_def)
  obtain st' where st': "rbt_add_timer (Some te) now msec func st = Some (te, st')"
    "rbt_holds st' (insert_by (\<lambda>p. unat (rbt_expires st' p - base)) te xs)" "rbt_expires st' = (rbt_expires st)(te := msec + now)"
    "rt_live (rt_tree st') = insert te (rt_live (rt_tree st))"
    using rbt_add_timer_window [OF xs(1) te xs(2) win xs(3), of func] by blast
  let ?r = "\<lambda>p. unat (rbt_expires st' p - base)"
  have new: "te \<notin> set xs" using te xs(1) by (simp add: rbt_holds_def)
  have "sorted (map ?r xs)"
    by (rule sorted_map_mono [OF xs(3)]) (use new in \<open>auto simp: st'(3) word_le_nat_alt\<close>)
  then have "sorted (map (\<lambda>p. rbt_expires st' p - base) (insert_by ?r te xs))"
    by (intro sorted_map_mono [OF insert_by_sorted]) (auto simp: word_le_nat_alt)
  moreover have "\<forall>p \<in> set (insert_by ?r te xs). ?r p < 2147483648"
    using xs(2) win st'(3) arg_cong [OF insert_by_set [of ?r te xs], of set_mset] by auto
  ultimately have "rbt_wf base st'" using st'(2) by (auto simp: rbt_wf_def)
  moreover have "rbt_peek st' = Some (Some q)"
    if "rbt_peek st = Some (Some q)" "rbt_expires st q - base \<le> msec + now - base" for q
  proof -
    have "\<exists>ys. xs = q # ys" using that(1) rbt_holds_peek [OF xs(1)] by (auto split: list.splits)
    then obtain ys where ys: "xs = q # ys" ..
    have "?r q \<le> ?r te" using that(2) new ys by (simp add: st'(3) word_le_nat_alt)
    then have "\<exists>zs. insert_by ?r te xs = q # zs" using ys by (simp add: insert_by_def)
    then show ?thesis using rbt_holds_peek [OF st'(2)] by auto
  qed
  ultimately show ?thesis
    using st' rbt_holds_pending [OF st'(2)] rbt_holds_pending [OF xs(1)] insert_by_set by (intro exI [of _ st']) auto
qed

lemma rbt_del_timer_wf:
  assumes "rbt_wf base st" and te: "te \<in># rbt_pending st"
  shows "\<exists>st'. rbt_del_timer te st = Some st' \<and> rbt_wf base st' \<and>
    rbt_pending st = add_mset te (rbt_pending st') \<and> rbt_expires st' = (rbt_expires st)(te := 0)"
proof -
  obtain xs where xs: "rbt_holds st xs" "\<forall>p \<in> set xs. unat (rbt_expires st p - base) < 2147483648"
      "sorted (map (\<lambda>p. rbt_expires st p - base) xs)" using assms(1) by (auto simp: rbt_wf_def)
  note pend = rbt_holds_pending [OF xs(1)]
  have te': "te \<in> set xs" using te pend by simp
  obtain st' where st': "rbt_del_timer te st = Some st'" "rbt_holds st' (remove1 te xs)" "rbt_expires st' = (rbt_expires st)(te := 0)"
    using rbt_del_timer_ok [OF xs(1) te'] by blast
  have d: "distinct xs" using rb_tree_nodes xs(1) by (auto simp: rbt_holds_def)
  then have "map (\<lambda>p. rbt_expires st' p - base) (remove1 te xs) = map (\<lambda>p. rbt_expires st p - base) (remove1 te xs)"
    using st'(3) by (auto simp: set_remove1_eq)
  then have "sorted (map (\<lambda>p. rbt_expires st' p - base) (remove1 te xs))" using sorted_map_remove1 [OF xs(3)] by metis
  moreover have "\<forall>p \<in> set (remove1 te xs). unat (rbt_expires st' p - base) < 2147483648"
    using xs(2) d st'(3) by (auto simp: set_remove1_eq)
  ultimately have "rbt_wf base st'" using st'(2) by (auto simp only: rbt_wf_def)
  then show ?thesis using st' pend rbt_holds_pending [OF st'(2)] te' by auto
qed

lemma rbt_init_timer_wf:
  "\<exists>st. rbt_init_timer sn = Some st \<and> rbt_wf base st \<and> rbt_pending st = {#} \<and> rt_live (rt_tree st) = {sn}"
  using rbt_init_timer_holds [of sn] rbt_holds_pending by (fastforce simp: rbt_wf_def rbt_holds_def)

text \<open>One timer in an empty tree.\<close>

lemma rbt_single:
  assumes "sn \<noteq> te" "unat (msec + now - base) < 2147483648"
  shows "\<exists>st st'. rbt_init_timer sn = Some st \<and> rbt_add_timer (Some te) now msec func st = Some (te, st') \<and> rbt_wf base st' \<and>
    rbt_pending st' = {#te#} \<and> rbt_expires st' te = msec + now \<and> rt_live (rt_tree st') = {te, sn}"
proof -
  obtain st where "rbt_init_timer sn = Some st" "rbt_wf base st" "rbt_pending st = {#}" "rt_live (rt_tree st) = {sn}"
    using rbt_init_timer_wf by blast
  with assms rbt_add_timer_wf [of base st te msec now func] show ?thesis by auto
qed

text \<open>A handler that adds a timer to the tree, when its address is free, is harmless if the timer is later and has not wrapped around.\<close>

definition rbt_adding_handler :: "ptr \<Rightarrow> u32 \<Rightarrow> u32 \<Rightarrow> nat \<Rightarrow> ptr \<Rightarrow> rbt_timer \<Rightarrow> rbt_timer option" where
  "rbt_adding_handler te now msec func q st =
     (if te \<in> rt_live (rt_tree st) then Some st else map_option snd (rbt_add_timer (Some te) now msec func st))"

lemma rbt_adding_harmless:
  assumes "base \<le> now" "now < msec + now" "unat (msec + now - base) < 2147483648"
  shows "harmless_handler (rbt_nowrap base) rbt_pending rbt_expires rbt_peek now (rbt_adding_handler te now msec func)"
  unfolding harmless_handler_def
proof (intro allI impI)
  fix s q
  assume s: "rbt_nowrap base s" "rbt_peek s = Some (Some q)" "rbt_expires s q \<le> now"
  show "\<exists>s' new. rbt_adding_handler te now msec func q s = Some s' \<and> rbt_nowrap base s' \<and> rbt_pending s' = rbt_pending s + new \<and>
      (\<forall>r \<in># new. now < rbt_expires s' r) \<and> (\<forall>r \<in># rbt_pending s. rbt_expires s' r = rbt_expires s r) \<and> rbt_peek s' = rbt_peek s"
  proof (cases "te \<in> rt_live (rt_tree s)")
    case True
    then show ?thesis using s(1) by (intro exI [of _ s] exI [of _ "{#}"]) (simp add: rbt_adding_handler_def)
  next
    case False
    have wf: "rbt_wf base s" "\<forall>r \<in># rbt_pending s. base \<le> rbt_expires s r" using s(1) by (simp_all add: rbt_nowrap_def)
    obtain xs where xs: "rbt_holds s xs" using wf(1) by (auto simp: rbt_wf_def)
    have q: "q \<in># rbt_pending s" using s(2) rbt_holds_peek [OF xs] rbt_holds_pending [OF xs] by (auto split: list.splits)
    have "te \<notin># rbt_pending s" using False xs rbt_holds_pending [OF xs] by (auto simp: rbt_holds_def)
    moreover have "base \<le> msec + now" using assms(1,2) by simp
    moreover have "rbt_expires s q - base \<le> msec + now - base"
      using q wf(2) s(3) assms(2) \<open>base \<le> msec + now\<close> by (subst word_diff_mono) auto
    ultimately show ?thesis
      using rbt_add_timer_wf [OF wf(1) False assms(3), of func] wf(2) assms(2) s(2) False
      by (auto simp: rbt_adding_handler_def rbt_nowrap_def intro!: exI [of _ "{#te#}"])
  qed
qed

text \<open>
  The tree stays in the order of time when the keys wrap around, but \<open>expire_timer\<close> compares
  \<open>node->key > now\<close> as unsigned numbers: a timer whose key has wrapped around fires at once.
\<close>

lemma rbt_wrapped_fires_early:
  "\<exists>st0 st1 st2. rbt_init_timer 1 = Some st0 \<and> rbt_add_timer (Some 2) 4294967196 1000 0 st0 = Some (2, st1) \<and>
     rbt_expire_timer (\<lambda>q s. Some s) 4294967196 st1 = Some (st2, [2])"
proof -
  obtain st0 st1 where st: "rbt_init_timer 1 = Some st0" "rbt_add_timer (Some 2) 4294967196 1000 0 st0 = Some (2, st1)" "rbt_wf 0 st1"
    "rbt_pending st1 = {#2#}" "rbt_expires st1 2 = 1000 + 4294967196" using rbt_single [of 1 2 1000 4294967196 0 0] by auto
  then have "rbt_nowrap 0 st1" by (simp add: rbt_nowrap_def)
  then obtain st2 fired where "rbt_expire_timer (\<lambda>q s. Some s) 4294967196 st1 = Some (st2, fired)" "mset fired = {#2#}"
    using rbq.expire_spec [OF _ harmless_quiet, of 0 st1 4294967196] st by (auto simp: rbt_expire_timer_def)
  then show ?thesis using st by auto
qed

section \<open>Properties\<close>

text \<open>
  C26: Let the keys of the tree and the current time lie in a window of half the 32-bit range that starts at \<open>base\<close> and none
  of them have wrapped around. With handlers that do no more than add later timers of this window, \<open>expire_timer\<close> over the
  red-black tree returns; it runs the handlers of exactly the entries that are due, each once and in the order of time, and
  only later entries stay in the tree.
\<close>

theorem rbt_expire_timer_correct:
  assumes "rbt_wf base st" and "\<forall>q \<in># rbt_pending st. base \<le> rbt_expires st q"
    and "base \<le> now" and "unat (now - base) < 2147483648"
    and "harmless_handler (rbt_nowrap base) rbt_pending rbt_expires rbt_peek now handler"
  shows "\<exists>st' log. rbt_expire_timer handler now st = Some (st', log) \<and> rbt_wf base st' \<and>
    mset log = filter_mset (\<lambda>q. unat (rbt_expires st q - base) \<le> unat (now - base)) (rbt_pending st) \<and>
    sorted (map (\<lambda>q. unat (rbt_expires st q - base)) log) \<and>
    (\<forall>q \<in># rbt_pending st'. base \<le> rbt_expires st' q \<and> unat (now - base) < unat (rbt_expires st' q - base))"
proof -
  have inv: "rbt_nowrap base st" using assms(1,2) by (simp add: rbt_nowrap_def)
  obtain st' log where e: "rbt_expire_timer handler now st = Some (st', log)" "rbt_nowrap base st'"
      "mset log = filter_mset (\<lambda>q. rbt_expires st q \<le> now) (rbt_pending st)" "sorted (map (rbt_expires st) log)"
      "\<forall>q \<in># rbt_pending st'. now < rbt_expires st' q"
    using rbq.expire_spec [OF inv assms(5)] unfolding rbt_expire_timer_def by blast
  have le: "unat (a - base) \<le> unat (b - base) \<longleftrightarrow> a \<le> b" if "base \<le> a" "base \<le> b" for a b :: u32
    using that by (simp add: word_le_nat_alt [symmetric] word_diff_mono)
  have "set log \<subseteq> set_mset (rbt_pending st)" using arg_cong [OF e(3), of set_mset] by auto
  then have "sorted (map (\<lambda>q. unat (rbt_expires st q - base)) log)"
    using assms(2) by (intro sorted_map_mono [OF e(4)]) (metis le subsetD)
  moreover have "mset log = filter_mset (\<lambda>q. unat (rbt_expires st q - base) \<le> unat (now - base)) (rbt_pending st)"
    unfolding e(3) using assms(2,3) by (intro filter_mset_cong) (auto simp: le)
  moreover have "base \<le> rbt_expires st' q \<and> unat (now - base) < unat (rbt_expires st' q - base)" if "q \<in># rbt_pending st'" for q
    using that e(2,5) assms(3) le [of "rbt_expires st' q" now] by (auto simp: rbt_nowrap_def not_le [symmetric])
  ultimately show ?thesis using e(1,2) by (auto simp: rbt_nowrap_def)
qed

theorem rbt_expire_timer_correct_witness:
  "\<exists>st0 st1 st2. rbt_init_timer 1 = Some st0 \<and> rbt_add_timer (Some 2) 100 50 0 st0 = Some (2, st1) \<and>
     rbt_expire_timer (rbt_adding_handler 3 160 50 0) 160 st1 = Some (st2, [2])"
proof -
  obtain st0 st1 where st: "rbt_init_timer 1 = Some st0" "rbt_add_timer (Some 2) 100 50 0 st0 = Some (2, st1)" "rbt_wf 100 st1"
    "rbt_pending st1 = {#2#}" "rbt_expires st1 2 = 50 + 100" using rbt_single [of 1 2 50 100 100 0] by auto
  have "harmless_handler (rbt_nowrap 100) rbt_pending rbt_expires rbt_peek 160 (rbt_adding_handler 3 160 50 0)"
    by (rule rbt_adding_harmless) simp_all
  then obtain st2 fired where "rbt_expire_timer (rbt_adding_handler 3 160 50 0) 160 st1 = Some (st2, fired)" "mset fired = {#2#}"
    using rbt_expire_timer_correct [OF st(3), of 160 "rbt_adding_handler 3 160 50 0"] st(4,5) by auto
  then show ?thesis using st by auto
qed

text \<open>
  \<open>add_timer\<close> puts the new entry into the tree with its key set to the delay plus the current time (modulo 2^32), and
  \<open>del_timer\<close> takes exactly its entry out and frees it; the other entries keep their keys and the tree stays in the order of
  time, also across the overflow, as long as all keys lie within half the 32-bit range above some base.
\<close>

theorem rbt_add_del_timer:
  assumes "rbt_wf base st"
  shows "(\<forall>te now msec func. te \<notin> rt_live (rt_tree st) \<longrightarrow> unat (msec + now - base) < 2147483648 \<longrightarrow>
      (\<exists>st'. rbt_add_timer (Some te) now msec func st = Some (te, st') \<and> rbt_wf base st' \<and>
        rbt_pending st' = add_mset te (rbt_pending st) \<and> rbt_expires st' = (rbt_expires st)(te := msec + now))) \<and>
    (\<forall>te \<in># rbt_pending st. \<exists>st'. rbt_del_timer te st = Some st' \<and> rbt_wf base st' \<and>
        rbt_pending st = add_mset te (rbt_pending st') \<and> rbt_expires st' = (rbt_expires st)(te := 0))"
proof (intro conjI allI impI ballI)
  fix te now msec func
  assume "te \<notin> rt_live (rt_tree st)" "unat (msec + now - base) < 2147483648"
  then show "\<exists>st'. rbt_add_timer (Some te) now msec func st = Some (te, st') \<and> rbt_wf base st' \<and>
      rbt_pending st' = add_mset te (rbt_pending st) \<and> rbt_expires st' = (rbt_expires st)(te := msec + now)"
    using rbt_add_timer_wf [OF assms] by blast
qed (rule rbt_del_timer_wf [OF assms])

theorem rbt_add_del_timer_witness:
  "\<exists>st0 st1 st2 st3. rbt_init_timer 1 = Some st0 \<and> rbt_add_timer (Some 2) 4294967196 1000 0 st0 = Some (2, st1) \<and>
     rbt_add_timer (Some 3) 4294967196 20 0 st1 = Some (3, st2) \<and> rbt_del_timer 2 st2 = Some st3 \<and> rbt_pending st3 = {#3#}"
proof -
  obtain st0 st1 where st: "rbt_init_timer 1 = Some st0" "rbt_add_timer (Some 2) 4294967196 1000 0 st0 = Some (2, st1)"
    "rbt_wf 4294967196 st1" "rbt_pending st1 = {#2#}" "rt_live (rt_tree st1) = {2, 1}"
    using rbt_single [of 1 2 1000 4294967196 4294967196 0] by auto
  then obtain st2 where st2: "rbt_add_timer (Some 3) 4294967196 20 0 st1 = Some (3, st2)" "rbt_wf 4294967196 st2"
      "rbt_pending st2 = {#3, 2#}"
    using conjunct1 [OF rbt_add_del_timer [OF st(3)], THEN spec, of 3, THEN spec, of 4294967196, THEN spec, of 20, THEN spec, of 0] by auto
  then obtain st3 where "rbt_del_timer 2 st2 = Some st3" "add_mset 2 (rbt_pending st3) = {#3, 2#}"
    using bspec [OF conjunct2 [OF rbt_add_del_timer [OF st2(2)]], of 2] by auto
  then show ?thesis using st st2 by (auto simp: add_mset_commute)
qed

end
