(* ===== verification/MySqlConn.thy ===== *)
theory MySqlConn
  imports Prelude
begin

text \<open>
  One connection of the pool of \<^verbatim>\<open>mysqlconnpool\<close>: \<^verbatim>\<open>MySQLConn.cpp\<close> with the connection string, and \<^verbatim>\<open>SQLOperation.cpp\<close>. The connector
  library is a parameter, a record of functions on the state \<open>'w\<close> of the library and the server; a call gives \<open>Inl\<close> with an error
  code when it throws a \<open>SQLException\<close>.
\<close>

section \<open>The connection string\<close>

text \<open>\<open>str.find(sep, start)\<close>; \<open>None\<close> is \<open>npos\<close>.\<close>

definition sv_find :: "char \<Rightarrow> string \<Rightarrow> nat \<Rightarrow> nat option" where
  "sv_find sep str start =
     (let n = length (takeWhile (\<lambda>c. c \<noteq> sep) (drop start str)) in
      if start + n < length str then Some (start + n) else None)"

lemma sv_find_bounds: "sv_find sep str start = Some e \<Longrightarrow> start \<le> e \<and> e < length str"
  by (auto simp: sv_find_def Let_def split: if_splits)

definition sv_substr :: "string \<Rightarrow> nat \<Rightarrow> nat \<Rightarrow> string" where
  "sv_substr str pos n = take n (drop pos str)"

function Tokenize_loop :: "string \<Rightarrow> char \<Rightarrow> bool \<Rightarrow> nat \<Rightarrow> string list \<Rightarrow> nat \<times> string list" where
  "Tokenize_loop str sep keepEmpty start tokens =
     (case sv_find sep str start of
        None \<Rightarrow> (start, tokens)
      | Some e \<Rightarrow>
          Tokenize_loop str sep keepEmpty (e + 1)
            (if keepEmpty \<or> e - start > 0 then tokens @ [sv_substr str start (e - start)] else tokens))"
  by pat_completeness auto
termination
  by (relation "measure (\<lambda>(str, _, _, start, _). length str - start)") (auto dest!: sv_find_bounds)

declare Tokenize_loop.simps [simp del]

definition Tokenize :: "string \<Rightarrow> char \<Rightarrow> bool \<Rightarrow> string list" where
  "Tokenize str sep keepEmpty =
     (let (start, tokens) = Tokenize_loop str sep keepEmpty 0 [] in
      if keepEmpty \<or> start < length str then tokens @ [drop start str] else tokens)"

record MySQLConnInfo =
  ci_user :: string
  ci_password :: string
  ci_url :: string
  ci_database :: string

definition MySQLConnInfo_ctor :: "string \<Rightarrow> string \<Rightarrow> MySQLConnInfo" where
  "MySQLConnInfo_ctor info db =
     (let tokens = Tokenize info (CHR '';'') False in
      if length tokens \<noteq> 3 then \<lparr>ci_user = '''', ci_password = '''', ci_url = '''', ci_database = ''''\<rparr>
      else \<lparr>ci_user = tokens ! 1, ci_password = tokens ! 2, ci_url = tokens ! 0, ci_database = db\<rparr>)"

section \<open>The connection\<close>

record ('w, 'r) connector =
  db_connect :: "string \<Rightarrow> string \<Rightarrow> string \<Rightarrow> 'w \<Rightarrow> (int + ptr) \<times> 'w"
  db_setSchema :: "ptr \<Rightarrow> string \<Rightarrow> 'w \<Rightarrow> (int + unit) \<times> 'w"
  db_close :: "ptr \<Rightarrow> 'w \<Rightarrow> 'w"
  db_createStatement :: "ptr \<Rightarrow> 'w \<Rightarrow> (int + ptr) \<times> 'w"
  db_executeQuery :: "ptr \<Rightarrow> string \<Rightarrow> 'w \<Rightarrow> (int + 'r) \<times> 'w"

text \<open>
  \<open>mc_conn\<close> is the member \<open>conn_\<close>, \<open>None\<close> while it is indeterminate: the constructor does not set it. \<open>mc_live\<close> has the connections
  of the library that this object got and did not delete.
\<close>

record MySQLConn =
  mc_conn :: "ptr option"
  mc_info :: MySQLConnInfo
  mc_live :: "ptr set"

definition MySQLConn_ctor :: "string \<Rightarrow> string \<Rightarrow> MySQLConn" where
  "MySQLConn_ctor info db = \<lparr>mc_conn = None, mc_info = MySQLConnInfo_ctor info db, mc_live = {}\<rparr>"

text \<open>\<open>delete conn_\<close>.\<close>

definition mc_delete :: "ptr \<Rightarrow> MySQLConn \<Rightarrow> MySQLConn option" where
  "mc_delete p c = (if p \<in> mc_live c then Some (c\<lparr>mc_live := mc_live c - {p}\<rparr>) else None)"

definition MySQLConn_Close :: "('w, 'r) connector \<Rightarrow> MySQLConn \<Rightarrow> 'w \<Rightarrow> (MySQLConn \<times> 'w) option" where
  "MySQLConn_Close C c w =
     do { p \<leftarrow> mc_conn c;
          if p \<noteq> 0 then
            do { let w = db_close C p w;
                 c \<leftarrow> mc_delete p c;
                 Some (c\<lparr>mc_conn := Some 0\<rparr>, w) }
          else Some (c, w) }"

text \<open>The destructor, after the worker has stopped.\<close>

definition MySQLConn_dtor :: "MySQLConn \<Rightarrow> MySQLConn option" where
  "MySQLConn_dtor c = do { p \<leftarrow> mc_conn c; if p \<noteq> 0 then mc_delete p c else Some c }"

text \<open>The \<open>try\<close> block of \<open>Open\<close>: the exception, or the value of \<open>err\<close> or of the early return.\<close>

definition mc_attempt :: "('w, 'r) connector \<Rightarrow> MySQLConn \<Rightarrow> 'w \<Rightarrow> (int + int) \<times> MySQLConn \<times> 'w" where
  "mc_attempt C c w =
     (case db_connect C (ci_url (mc_info c)) (ci_user (mc_info c)) (ci_password (mc_info c)) w of
        (Inl e, w) \<Rightarrow> (Inl e, c, w)
      | (Inr p, w) \<Rightarrow>
          let c = c\<lparr>mc_conn := Some p\<rparr> in
          if p = 0 then (Inr (- 1), c, w)
          else
            let c = c\<lparr>mc_live := insert p (mc_live c)\<rparr> in
            (case db_setSchema C p (ci_database (mc_info c)) w of
               (Inl e, w) \<Rightarrow> (Inl e, c, w)
             | (Inr _, w) \<Rightarrow> (Inr 0, c, w)))"

definition gone_away :: "int \<Rightarrow> bool" where
  "gone_away code \<longleftrightarrow> code = 2006 \<or> code = 2013"

text \<open>\<open>Open\<close> with \<open>HandlerException\<close>, which calls it again.\<close>

partial_function (option) MySQLConn_Open :: "('w, 'r) connector \<Rightarrow> MySQLConn \<Rightarrow> 'w \<Rightarrow> (int \<times> MySQLConn \<times> 'w) option" where
  "MySQLConn_Open C c w =
     (case mc_attempt C c w of
        (Inr err, c, w) \<Rightarrow> Some (err, c, w)
      | (Inl e, c, w) \<Rightarrow>
          if gone_away e then
            do { (c, w) \<leftarrow> MySQLConn_Close C c w;
                 (_, c, w) \<leftarrow> MySQLConn_Open C c w;
                 Some (e, c, w) }
          else Some (e, c, w))"

declare MySQLConn_Open.simps [code]

definition HandlerException :: "('w, 'r) connector \<Rightarrow> int \<Rightarrow> MySQLConn \<Rightarrow> 'w \<Rightarrow> (MySQLConn \<times> 'w) option" where
  "HandlerException C e c w =
     (if gone_away e then
        do { (c, w) \<leftarrow> MySQLConn_Close C c w;
             (_, c, w) \<leftarrow> MySQLConn_Open C c w;
             Some (c, w) }
      else Some (c, w))"

text \<open>The result is \<open>None\<close> for the null pointer. The statement is not deleted.\<close>

definition MySQLConn_Query :: "('w, 'r) connector \<Rightarrow> string \<Rightarrow> MySQLConn \<Rightarrow> 'w \<Rightarrow> ('r option \<times> MySQLConn \<times> 'w) option" where
  "MySQLConn_Query C sql c w =
     do { p \<leftarrow> mc_conn c;
          _ \<leftarrow> (if p \<in> mc_live c then Some () else None);
          case db_createStatement C p w of
            (Inl e, w) \<Rightarrow> do { (c, w) \<leftarrow> HandlerException C e c w; Some (None, c, w) }
          | (Inr stmt, w) \<Rightarrow>
              (case db_executeQuery C stmt sql w of
                 (Inl e, w) \<Rightarrow> do { (c, w) \<leftarrow> HandlerException C e c w; Some (None, c, w) }
               | (Inr r, w) \<Rightarrow> Some (Some r, c, w)) }"

text \<open>\<open>Open\<close> is what the code says, with \<open>HandlerException\<close> in its \<open>catch\<close>.\<close>

lemma MySQLConn_Open_handler:
  "MySQLConn_Open C c w =
     (case mc_attempt C c w of
        (Inr err, c, w) \<Rightarrow> Some (err, c, w)
      | (Inl e, c, w) \<Rightarrow> do { (c, w) \<leftarrow> HandlerException C e c w; Some (e, c, w) })"
proof -
  have "do { (c, w) \<leftarrow> MySQLConn_Close C c w; (_, c, w) \<leftarrow> MySQLConn_Open C c w; Some (e, c, w) } =
    do { (c, w) \<leftarrow> HandlerException C e c w; Some (e, c, w) }" if "gone_away e" for e c and w :: 'a
    using that by (cases "MySQLConn_Close C c w") (auto simp: HandlerException_def split: prod.splits intro!: arg_cong2 [where f = Option.bind])
  moreover have "HandlerException C e c w = Some (c, w)" if "\<not> gone_away e" for e c and w :: 'a using that by (simp add: HandlerException_def)
  ultimately show ?thesis
    by (subst MySQLConn_Open.simps) (auto split: prod.splits sum.splits)
qed

section \<open>Splitting and joining\<close>

fun split_on :: "char \<Rightarrow> string \<Rightarrow> string list" where
  "split_on sep [] = [[]]"
| "split_on sep (c # cs) =
     (if c = sep then [] # split_on sep cs
      else case split_on sep cs of [] \<Rightarrow> [[c]] | t # ts \<Rightarrow> (c # t) # ts)"

fun join_with :: "char \<Rightarrow> string list \<Rightarrow> string" where
  "join_with sep [] = []"
| "join_with sep [t] = t"
| "join_with sep (t # u # ts) = t @ sep # join_with sep (u # ts)"

lemma split_on_ne [simp]: "split_on sep s \<noteq> []"
  by (induction s) (auto split: list.splits)

lemma split_on_none: "sep \<notin> set s \<Longrightarrow> split_on sep s = [s]"
  by (induction s) auto

lemma split_on_sep: "sep \<notin> set a \<Longrightarrow> split_on sep (a @ sep # b) = a # split_on sep b"
  by (induction a) auto

lemma join_split: "join_with sep (split_on sep s) = s"
proof (induction s)
  case (Cons c cs)
  obtain t ts where "split_on sep cs = t # ts" using split_on_ne by (metis neq_Nil_conv)
  with Cons show ?case by (cases ts) auto
qed simp

lemma split_join: "ts \<noteq> [] \<Longrightarrow> \<forall>t \<in> set ts. sep \<notin> set t \<Longrightarrow> split_on sep (join_with sep ts) = ts"
  by (induction sep ts rule: join_with.induct) (auto simp: split_on_none split_on_sep)

lemma takeWhile_shorter: "\<exists>x \<in> set xs. \<not> P x \<Longrightarrow> length (takeWhile P xs) < length xs"
  by (induction xs) auto

lemma sv_find_None: "sv_find sep str start = None \<Longrightarrow> start \<le> length str \<Longrightarrow> sep \<notin> set (drop start str)"
proof
  assume a: "sv_find sep str start = None" "start \<le> length str" "sep \<in> set (drop start str)"
  then have "length (takeWhile (\<lambda>c. c \<noteq> sep) (drop start str)) < length (drop start str)"
    by (intro takeWhile_shorter) auto
  then show False using a(1) by (simp add: sv_find_def Let_def less_diff_conv add.commute split: if_splits)
qed

lemma sv_find_Some:
  assumes "sv_find sep str start = Some e"
  shows "drop start str = sv_substr str start (e - start) @ sep # drop (e + 1) str" "sep \<notin> set (sv_substr str start (e - start))"
proof -
  let ?w = "takeWhile (\<lambda>c. c \<noteq> sep) (drop start str)"
  have e: "e = start + length ?w" "e < length str" using assms by (auto simp: sv_find_def Let_def split: if_splits)
  have t: "sv_substr str start (e - start) = ?w" unfolding sv_substr_def e(1) diff_add_inverse by (rule takeWhile_eq_take [symmetric])
  have "length ?w < length (drop start str)" using e by simp
  then have "drop start str ! length ?w = sep" using nth_length_takeWhile [of "\<lambda>c. c \<noteq> sep" "drop start str"] by blast
  then have "drop (length ?w) (drop start str) = sep # drop (e + 1) str" using e Cons_nth_drop_Suc [of e str] by (simp add: add.commute)
  then show "drop start str = sv_substr str start (e - start) @ sep # drop (e + 1) str"
    unfolding t using takeWhile_dropWhile_id [of "\<lambda>c. c \<noteq> sep" "drop start str"] unfolding dropWhile_eq_drop by simp
  show "sep \<notin> set (sv_substr str start (e - start))" unfolding t using set_takeWhileD by fastforce
qed

lemma Tokenize_loop_split:
  assumes "start \<le> length str" "Tokenize_loop str sep k start tokens = (start', tokens')"
  shows "tokens' @ filter (\<lambda>t. k \<or> t \<noteq> []) [drop start' str] = tokens @ filter (\<lambda>t. k \<or> t \<noteq> []) (split_on sep (drop start str)) \<and>
    start' \<le> length str"
  using assms
proof (induction str sep k start tokens rule: Tokenize_loop.induct)
  case (1 str sep k start tokens)
  show ?case
  proof (cases "sv_find sep str start")
    case None
    then show ?thesis using 1(2,3) sv_find_None [OF None] by (auto simp: Tokenize_loop.simps [of str] split_on_none)
  next
    case (Some e)
    have e: "start \<le> e" "e < length str" using sv_find_bounds [OF Some] by auto
    have "length (sv_substr str start (e - start)) = e - start" using e by (simp add: sv_substr_def)
    then have "(e - start > 0) = (sv_substr str start (e - start) \<noteq> [])" by (metis length_greater_0_conv)
    then show ?thesis
      using 1(1) [OF Some] 1(3) Some e split_on_sep [OF sv_find_Some(2) [OF Some], of "drop (e + 1) str"] sv_find_Some(1) [OF Some]
      by (auto simp: Tokenize_loop.simps [of str sep k start] split: if_splits)
  qed
qed

lemma Tokenize_split: "Tokenize str sep k = filter (\<lambda>t. k \<or> t \<noteq> []) (split_on sep str)"
  using Tokenize_loop_split [of 0 str sep k "[]"] by (auto simp: Tokenize_def split: prod.splits if_splits)

section \<open>Reconnecting\<close>

text \<open>
  The state of a connection object after \<open>Open\<close>: it owns its connection and no other. The connector recovers if, by the
  measure \<open>f\<close> on its state, it cannot answer for ever that the server has gone away.
\<close>

definition mc_inv :: "MySQLConn \<Rightarrow> bool" where
  "mc_inv c \<longleftrightarrow> (\<exists>p. mc_conn c = Some p \<and> mc_live c = (if p = 0 then {} else {p}))"

definition recovers :: "('w, 'r) connector \<Rightarrow> ('w \<Rightarrow> nat) \<Rightarrow> bool" where
  "recovers C f \<longleftrightarrow>
     (\<forall>url user pw w. case db_connect C url user pw w of (Inl e, w') \<Rightarrow> gone_away e \<longrightarrow> f w' < f w | (Inr _, w') \<Rightarrow> f w' \<le> f w) \<and>
     (\<forall>p db w. case db_setSchema C p db w of (Inl e, w') \<Rightarrow> gone_away e \<longrightarrow> f w' < f w | (Inr _, _) \<Rightarrow> True) \<and>
     (\<forall>p w. f (db_close C p w) \<le> f w)"

lemma Close_ok:
  assumes "mc_inv c"
  shows "\<exists>w'. MySQLConn_Close C c w = Some (c\<lparr>mc_conn := Some 0, mc_live := {}\<rparr>, w') \<and> (recovers C f \<longrightarrow> f w' \<le> f w)"
proof -
  obtain p where p: "mc_conn c = Some p" "mc_live c = (if p = 0 then {} else {p})" using assms by (auto simp: mc_inv_def)
  then show ?thesis
    by (cases "p = 0") (auto simp: MySQLConn_Close_def mc_delete_def recovers_def intro!: MySQLConn.equality)
qed

lemma attempt_inv:
  assumes "mc_attempt C c w = (r, c', w')" "mc_live c = {}"
  shows "(mc_inv c' \<or> c' = c) \<and> (\<forall>e. r = Inl e \<longrightarrow> gone_away e \<longrightarrow> recovers C f \<longrightarrow> f w' < f w) \<and> (r = Inr 0 \<longrightarrow> mc_conn c' \<noteq> Some 0)"
proof (cases "db_connect C (ci_url (mc_info c)) (ci_user (mc_info c)) (ci_password (mc_info c)) w")
  case (Pair q w1)
  show ?thesis
  proof (cases q)
    case (Inl e)
    then have "gone_away e \<longrightarrow> recovers C f \<longrightarrow> f w1 < f w" using Pair unfolding recovers_def by (metis (no_types, lifting) case_prod_conv sum.case(1))
    then show ?thesis using assms Pair Inl by (auto simp: mc_attempt_def)
  next
    case (Inr p)
    have f1: "recovers C f \<longrightarrow> f w1 \<le> f w" using Pair Inr unfolding recovers_def by (metis (no_types, lifting) case_prod_conv sum.case(2))
    obtain q2 w2 where s: "db_setSchema C p (ci_database (mc_info c)) w1 = (q2, w2)" by fastforce
    have f2: "recovers C f \<longrightarrow> (\<forall>e. q2 = Inl e \<longrightarrow> gone_away e \<longrightarrow> f w2 < f w1)"
      using s unfolding recovers_def by (metis (no_types, lifting) case_prod_conv sum.case(1))
    show ?thesis using assms Pair Inr s f1 f2 by (fastforce simp: mc_attempt_def mc_inv_def Let_def split: if_splits sum.splits)
  qed
qed

lemma Open_ok:
  assumes "mc_inv c" "mc_live c = {}" "recovers C f"
  shows "\<exists>err c' w'. MySQLConn_Open C c w = Some (err, c', w') \<and> mc_inv c' \<and> mc_info c' = mc_info c"
  using assms(1,2)
proof (induction "f w" arbitrary: c w rule: less_induct)
  case less
  obtain r c1 w1 where a: "mc_attempt C c w = (r, c1, w1)" by (metis prod_cases3)
  have inv: "mc_inv c1" using attempt_inv [OF a less(3)] less(2) by blast
  have info: "mc_info c1 = mc_info c"
    using a by (auto simp: mc_attempt_def Let_def split: prod.splits sum.splits if_splits)
  show ?case
  proof (cases "\<exists>e. r = Inl e \<and> gone_away e")
    case True
    then obtain e where e: "r = Inl e" "gone_away e" by blast
    have lt: "f w1 < f w" using attempt_inv [OF a less(3)] e assms(3) by blast
    obtain w2 where c2: "MySQLConn_Close C c1 w1 = Some (c1\<lparr>mc_conn := Some 0, mc_live := {}\<rparr>, w2)" "f w2 \<le> f w1"
      using Close_ok [OF inv, of C w1 f] assms(3) by blast
    let ?c2 = "c1\<lparr>mc_conn := Some 0, mc_live := {}\<rparr>"
    have "\<exists>err c' w'. MySQLConn_Open C ?c2 w2 = Some (err, c', w') \<and> mc_inv c' \<and> mc_info c' = mc_info ?c2"
      using lt c2(2) by (intro less(1)) (auto simp: mc_inv_def)
    then show ?thesis using a e c2(1) inv info by (subst MySQLConn_Open.simps) auto
  next
    case False
    then show ?thesis using a inv info by (subst MySQLConn_Open.simps) (auto split: sum.splits)
  qed
qed

lemma Handler_ok:
  assumes "mc_inv c" "recovers C f"
  shows "\<exists>c' w'. HandlerException C e c w = Some (c', w') \<and> mc_inv c' \<and> mc_info c' = mc_info c"
proof (cases "gone_away e")
  case True
  obtain w1 where c1: "MySQLConn_Close C c w = Some (c\<lparr>mc_conn := Some 0, mc_live := {}\<rparr>, w1)" using Close_ok [OF assms(1), of C w f] by blast
  have inv: "mc_inv (c\<lparr>mc_conn := Some 0, mc_live := {}\<rparr>)" by (simp add: mc_inv_def)
  obtain err c' w' where "MySQLConn_Open C (c\<lparr>mc_conn := Some 0, mc_live := {}\<rparr>) w1 = Some (err, c', w')" "mc_inv c'" "mc_info c' = mc_info c"
    using Open_ok [OF inv _ assms(2), of w1] by auto
  then show ?thesis using True c1 by (simp add: HandlerException_def)
qed (simp add: HandlerException_def assms)

lemma Query_ok:
  assumes "mc_inv c" "mc_conn c \<noteq> Some 0" "recovers C f"
  shows "\<exists>r c' w'. MySQLConn_Query C sql c w = Some (r, c', w') \<and> mc_inv c' \<and> mc_info c' = mc_info c \<and> (r \<noteq> None \<longrightarrow> c' = c)"
proof -
  obtain p where p: "mc_conn c = Some p" "p \<in> mc_live c" using assms(1,2) by (auto simp: mc_inv_def split: if_splits)
  have h: "\<exists>r c' w'. do { (c, w) \<leftarrow> HandlerException C e c w; Some (None :: 'b option, c, w) } = Some (r, c', w') \<and> mc_inv c' \<and>
    mc_info c' = mc_info c \<and> (r \<noteq> None \<longrightarrow> c' = c)" for e w
    using Handler_ok [OF assms(1,3), of e w] by auto
  show ?thesis using p assms(1) h by (auto simp: MySQLConn_Query_def split: prod.splits sum.splits)
qed

lemma dtor_ok: "mc_inv c \<Longrightarrow> \<exists>c'. MySQLConn_dtor c = Some c' \<and> mc_live c' = {}"
  by (auto simp: mc_inv_def MySQLConn_dtor_def mc_delete_def)

text \<open>The first call of \<open>Open\<close> reads the indeterminate \<open>conn_\<close> if the connection fails because the server went away.\<close>

lemma Open_uninitialised:
  assumes "db_connect C (ci_url (mc_info c)) (ci_user (mc_info c)) (ci_password (mc_info c)) w = (Inl e, w')" "gone_away e" "mc_conn c = None"
  shows "MySQLConn_Open C c w = None"
  using assms by (subst MySQLConn_Open.simps) (simp add: mc_attempt_def MySQLConn_Close_def)

text \<open>A reconnection that fails with another error leaves a null pointer, which the next query dereferences.\<close>

lemma Query_after_failed_reconnect:
  assumes "mc_inv c" "mc_conn c = Some 0"
  shows "MySQLConn_Query C sql c w = None"
  using assms by (auto simp: MySQLConn_Query_def mc_inv_def)

text \<open>While the server stays away \<open>Open\<close> calls itself for ever.\<close>

lemma Open_gone_diverges:
  assumes "\<And>url user pw w. \<exists>e w'. db_connect C url user pw w = (Inl e, w') \<and> gone_away e"
  shows "MySQLConn_Open C c w = None"
proof (rule ccontr)
  assume "MySQLConn_Open C c w \<noteq> None"
  then obtain r where "MySQLConn_Open C c w = Some r" by blast
  have "D = C \<longrightarrow> False" if "MySQLConn_Open D c w = Some r" for D c w r
    using _ that
  proof (rule MySQLConn_Open.raw_induct)
    fix opn D c w y
    assume IH: "\<And>D c w y. opn D c w = Some y \<Longrightarrow> D = C \<longrightarrow> False"
      and run: "(case mc_attempt D c w of (Inl e, c, w) \<Rightarrow> if gone_away e
          then do { (c, w) \<leftarrow> MySQLConn_Close D c w; (_, c, w) \<leftarrow> opn D c w; Some (e, c, w) } else Some (e, c, w)
        | (Inr err, c, w) \<Rightarrow> Some (err, c, w)) = Some y"
    show "D = C \<longrightarrow> False"
    proof
      assume D: "D = C"
      obtain e w' where "db_connect C (ci_url (mc_info c)) (ci_user (mc_info c)) (ci_password (mc_info c)) w = (Inl e, w')" "gone_away e"
        using assms by blast
      then show False using run D by (auto simp: mc_attempt_def bind_eq_Some_conv split: prod.splits dest: IH)
    qed
  qed
  then show False using \<open>MySQLConn_Open C c w = Some r\<close> by blast
qed

section \<open>Properties\<close>

text \<open>
  \<open>Tokenize\<close> returns, for every string and separator, the pieces between the separators (without the empty ones unless they are
  to be kept); kept with the empty ones they join to the string again. So a connection string \<open>url;user;password\<close> of
  three non-empty parts without semicolons gives back exactly these parts, and a string that does not have exactly three non-empty parts leaves all members empty.
\<close>

theorem MySQLConnInfo_roundtrip:
  "Tokenize str sep keep = filter (\<lambda>t. keep \<or> t \<noteq> []) (split_on sep str) \<and> join_with sep (Tokenize str sep True) = str \<and>
   (ts \<noteq> [] \<and> (\<forall>t \<in> set ts. sep \<notin> set t) \<longrightarrow> Tokenize (join_with sep ts) sep True = ts) \<and>
   (\<forall>url user pw db. (\<forall>t \<in> {url, user, pw}. t \<noteq> [] \<and> CHR '';'' \<notin> set t) \<longrightarrow>
      MySQLConnInfo_ctor (join_with (CHR '';'') [url, user, pw]) db = \<lparr>ci_user = user, ci_password = pw, ci_url = url, ci_database = db\<rparr>) \<and>
   (length (filter (\<lambda>t. t \<noteq> []) (split_on (CHR '';'') info)) \<noteq> 3 \<longrightarrow>
      MySQLConnInfo_ctor info db = \<lparr>ci_user = [], ci_password = [], ci_url = [], ci_database = []\<rparr>)"
proof (intro conjI allI impI)
  show "Tokenize str sep keep = filter (\<lambda>t. keep \<or> t \<noteq> []) (split_on sep str)" by (rule Tokenize_split)
  show "join_with sep (Tokenize str sep True) = str" by (simp add: Tokenize_split join_split)
  show "Tokenize (join_with sep ts) sep True = ts" if "ts \<noteq> [] \<and> (\<forall>t \<in> set ts. sep \<notin> set t)"
    using that by (simp add: Tokenize_split split_join)
  show "MySQLConnInfo_ctor (join_with (CHR '';'') [url, user, pw]) db = \<lparr>ci_user = user, ci_password = pw, ci_url = url, ci_database = db\<rparr>"
    if "\<forall>t \<in> {url, user, pw}. t \<noteq> [] \<and> CHR '';'' \<notin> set t" for url user pw db
  proof -
    have "Tokenize (join_with (CHR '';'') [url, user, pw]) (CHR '';'') False = [url, user, pw]"
      using that split_join [of "[url, user, pw]" "CHR '';''"] by (simp add: Tokenize_split del: join_with.simps)
    then show ?thesis by (simp add: MySQLConnInfo_ctor_def del: join_with.simps)
  qed
  show "MySQLConnInfo_ctor info db = \<lparr>ci_user = [], ci_password = [], ci_url = [], ci_database = []\<rparr>"
    if "length (filter (\<lambda>t. t \<noteq> []) (split_on (CHR '';'') info)) \<noteq> 3"
    using that by (simp add: MySQLConnInfo_ctor_def Tokenize_split)
qed

theorem MySQLConnInfo_roundtrip_witness:
  "Tokenize ''a;;b'' (CHR '';'') False = [''a'', ''b''] \<and> Tokenize (join_with (CHR '';'') [''a'', [], ''b'']) (CHR '';'') True = [''a'', [], ''b''] \<and>
   MySQLConnInfo_ctor ''tcp://h:1;root;pw'' ''gulu'' = \<lparr>ci_user = ''root'', ci_password = ''pw'', ci_url = ''tcp://h:1'', ci_database = ''gulu''\<rparr> \<and>
   MySQLConnInfo_ctor ''tcp://h:1;root;'' ''gulu'' = \<lparr>ci_user = [], ci_password = [], ci_url = [], ci_database = []\<rparr>"
proof (intro conjI)
  show "Tokenize ''a;;b'' (CHR '';'') False = [''a'', ''b'']"
    using MySQLConnInfo_roundtrip [of "''a;;b''" "CHR '';''" False "[]" "[]" "[]"] by simp
  show "Tokenize (join_with (CHR '';'') [''a'', [], ''b'']) (CHR '';'') True = [''a'', [], ''b'']"
    using MySQLConnInfo_roundtrip [of "[]" "CHR '';''" True "[''a'', [], ''b'']" "[]" "[]"] by simp
  show "MySQLConnInfo_ctor ''tcp://h:1;root;pw'' ''gulu'' = \<lparr>ci_user = ''root'', ci_password = ''pw'', ci_url = ''tcp://h:1'', ci_database = ''gulu''\<rparr>"
    using conjunct1 [OF conjunct2 [OF conjunct2 [OF conjunct2 [OF MySQLConnInfo_roundtrip [of "[]" "CHR '';''" True "[]" "[]" "[]"]]]],
      THEN spec, of "''tcp://h:1''", THEN spec, of "''root''", THEN spec, of "''pw''", THEN spec, of "''gulu''"] by simp
  show "MySQLConnInfo_ctor ''tcp://h:1;root;'' ''gulu'' = \<lparr>ci_user = [], ci_password = [], ci_url = [], ci_database = []\<rparr>"
    using MySQLConnInfo_roundtrip [of "[]" "CHR '';''" True "[]" "''tcp://h:1;root;''" "''gulu''"] by simp
qed

text \<open>
  A query on an open connection returns, whatever the connector answers, as long as it does not say for ever that the server has
  gone away; through any number of reconnections the object owns exactly its current connection, so that the destructor deletes it and nothing is
  leaked or deleted twice; and the connection is only changed when the query failed.
\<close>

theorem MySQLConn_Query_reconnects:
  assumes "mc_inv c" "mc_conn c \<noteq> Some 0" "recovers C f"
  shows "\<exists>r c' w'. MySQLConn_Query C sql c w = Some (r, c', w') \<and> mc_inv c' \<and> mc_info c' = mc_info c \<and> (r \<noteq> None \<longrightarrow> c' = c) \<and>
    (\<exists>c''. MySQLConn_dtor c' = Some c'' \<and> mc_live c'' = {})"
proof -
  obtain r c' w' where q: "MySQLConn_Query C sql c w = Some (r, c', w')" "mc_inv c'" "mc_info c' = mc_info c" "r \<noteq> None \<longrightarrow> c' = c"
    using Query_ok [OF assms, of sql w] by blast
  moreover obtain c'' where "MySQLConn_dtor c' = Some c''" "mc_live c'' = {}" using dtor_ok [OF q(2)] by blast
  ultimately show ?thesis by simp
qed

text \<open>A server that drops the connection at the first query and refuses three times before it is back.\<close>

definition ex_connector :: "(nat, nat) connector" where
  "ex_connector = \<lparr>db_connect = (\<lambda>_ _ _ w. if w = 0 then (Inr 7, 0) else (Inl 2006, w - 1)), db_setSchema = (\<lambda>_ _ w. (Inr (), w)),
     db_close = (\<lambda>_ w. w), db_createStatement = (\<lambda>_ w. (Inr 1, w)),
     db_executeQuery = (\<lambda>_ _ w. if w = 0 then (Inr 42, 0) else (Inl 2013, w))\<rparr>"

lemma ex_connector_recovers: "recovers ex_connector id"
  by (auto simp: recovers_def ex_connector_def gone_away_def)

theorem MySQLConn_Query_reconnects_witness:
  "\<exists>r c' w'. MySQLConn_Query ex_connector ''select 1'' \<lparr>mc_conn = Some 5, mc_info = MySQLConnInfo_ctor ''h;u;p'' ''d'', mc_live = {5}\<rparr> 3 = Some (r, c', w') \<and> mc_inv c'"
proof -
  let ?c = "\<lparr>mc_conn = Some 5, mc_info = MySQLConnInfo_ctor ''h;u;p'' ''d'', mc_live = {5}\<rparr>"
  have "mc_inv ?c" "mc_conn ?c \<noteq> Some 0" by (simp_all add: mc_inv_def)
  from MySQLConn_Query_reconnects [OF this ex_connector_recovers, of "''select 1''" 3] show ?thesis by blast
qed

end
