(* ===== verification/ConnPool.thy ===== *)
theory ConnPool
  imports MySqlConn ThreadPool
begin

text \<open>
  The asynchronous pool of \<^verbatim>\<open>mysqlconnpool\<close>: \<open>MySQLConnPool\<close> puts queries on a blocking queue, a worker thread for each connection executes
  them and fulfils their promises, and the main thread polls the futures through \<open>AsyncProcessor\<close> and calls the callbacks. A query is
  named by the number of its future. \<open>cp_issued\<close> and \<open>cp_executed\<close> record the queries that were made and those that were executed, with
  the result; a callback is a name, and \<open>cp_log\<close> has the calls. \<open>cp_it\<close> is the iterator of \<open>InvokeIfReady\<close> while it runs; callbacks do
  not add queries themselves.
\<close>

section \<open>Model\<close>

type_synonym operation = "nat \<times> string"

record ('w, 'r, 'c) conn_pool =
  cp_queue :: "operation blocking_queue"
  cp_conns :: "MySQLConn list"
  cp_workers :: "operation worker list"
  cp_world :: 'w
  cp_futures :: "nat \<Rightarrow> 'r option option"
  cp_pending :: "(nat \<times> 'c) list"
  cp_it :: "nat option"
  cp_log :: "(nat \<times> 'c \<times> 'r option) list"
  cp_issued :: "(string \<times> 'c) list"
  cp_executed :: "(nat \<times> string \<times> 'r option) list"

text \<open>\<open>new MySQLConn\<close> starts a worker, which waits on the empty queue; the result of \<open>Open\<close> is not used.\<close>

fun InitPool_loop :: "('w, 'r) connector \<Rightarrow> string \<Rightarrow> string \<Rightarrow> nat \<Rightarrow> ('w, 'r, 'c) conn_pool \<Rightarrow> ('w, 'r, 'c) conn_pool option" where
  "InitPool_loop C url db 0 p = Some p"
| "InitPool_loop C url db (Suc n) p =
     do { (_, c, w) \<leftarrow> MySQLConn_Open C (MySQLConn_ctor url db) (cp_world p);
          InitPool_loop C url db n (p\<lparr>cp_conns := cp_conns p @ [c], cp_workers := cp_workers p @ [At_pop], cp_world := w\<rparr>) }"

text \<open>The loop compares a \<open>size_t\<close> with the \<open>int\<close> \<open>pool_size\<close>, which is converted to 64 bits.\<close>

definition InitPool :: "('w, 'r) connector \<Rightarrow> string \<Rightarrow> string \<Rightarrow> int \<Rightarrow> 'w \<Rightarrow> ('w, 'r, 'c) conn_pool option" where
  "InitPool C url db pool_size w =
     InitPool_loop C url db (nat (pool_size mod 2 ^ 64))
       \<lparr>cp_queue = bq_ctor False, cp_conns = [], cp_workers = [], cp_world = w, cp_futures = (\<lambda>_. None), cp_pending = [], cp_it = None,
        cp_log = [], cp_issued = [], cp_executed = []\<rparr>"

definition MySQLConnPool_Query :: "string \<Rightarrow> 'c \<Rightarrow> ('w, 'r, 'c) conn_pool \<Rightarrow> (nat \<times> 'c) \<times> ('w, 'r, 'c) conn_pool" where
  "MySQLConnPool_Query sql cb p =
     (let f = length (cp_issued p) in
      ((f, cb), p\<lparr>cp_queue := bq_Push (f, sql) (cp_queue p), cp_issued := cp_issued p @ [(sql, cb)]\<rparr>))"

definition AddQueryCallback :: "nat \<times> 'c \<Rightarrow> ('w, 'r, 'c) conn_pool \<Rightarrow> ('w, 'r, 'c) conn_pool" where
  "AddQueryCallback q p = p\<lparr>cp_pending := cp_pending p @ [q]\<rparr>"

text \<open>\<open>QueryCallback::InvokeIfReady\<close>.\<close>

definition QueryCallback_InvokeIfReady :: "nat \<times> 'c \<Rightarrow> ('w, 'r, 'c) conn_pool \<Rightarrow> bool \<times> ('w, 'r, 'c) conn_pool" where
  "QueryCallback_InvokeIfReady q p =
     (case cp_futures p (fst q) of
        Some r \<Rightarrow> (True, p\<lparr>cp_log := cp_log p @ [(fst q, snd q, r)]\<rparr>)
      | None \<Rightarrow> (False, p))"

text \<open>One turn of the loop of \<open>AsyncProcessor::InvokeIfReady\<close> with the iterator at \<open>i\<close>, and the end of the loop.\<close>

definition ap_visit :: "nat \<Rightarrow> ('w, 'r, 'c) conn_pool \<Rightarrow> ('w, 'r, 'c) conn_pool" where
  "ap_visit i p =
     (if i = length (cp_pending p) then p\<lparr>cp_it := None\<rparr>
      else
        let (ready, p) = QueryCallback_InvokeIfReady (cp_pending p ! i) p in
        if ready then p\<lparr>cp_pending := take i (cp_pending p) @ drop (Suc i) (cp_pending p)\<rparr>
        else p\<lparr>cp_it := Some (Suc i)\<rparr>)"

text \<open>The whole call when no promise is fulfilled meanwhile.\<close>

partial_function (option) ap_loop :: "('w, 'r, 'c) conn_pool \<Rightarrow> ('w, 'r, 'c) conn_pool option" where
  "ap_loop p = (case cp_it p of None \<Rightarrow> Some p | Some i \<Rightarrow> ap_loop (ap_visit i p))"

declare ap_loop.simps [code]

definition AsyncProcessor_InvokeIfReady :: "('w, 'r, 'c) conn_pool \<Rightarrow> ('w, 'r, 'c) conn_pool option" where
  "AsyncProcessor_InvokeIfReady p = ap_loop (p\<lparr>cp_it := Some 0\<rparr>)"

text \<open>\<open>MySQLWorker::Worker\<close>: the pop, and \<open>SQLOperation::Execute\<close>.\<close>

definition cp_worker_pop :: "nat \<Rightarrow> ('w, 'r, 'c) conn_pool \<Rightarrow> ('w, 'r, 'c) conn_pool option" where
  "cp_worker_pop i p =
     do { (r, q) \<leftarrow> bq_Pop (cp_queue p);
          Some (p\<lparr>cp_queue := q, cp_workers := (cp_workers p)[i := case r of None \<Rightarrow> Exited | Some op \<Rightarrow> Running op]\<rparr>) }"

definition SQLOperation_Execute :: "('w, 'r) connector \<Rightarrow> nat \<Rightarrow> operation \<Rightarrow> ('w, 'r, 'c) conn_pool \<Rightarrow> ('w, 'r, 'c) conn_pool option" where
  "SQLOperation_Execute C i op p =
     do { (r, c, w) \<leftarrow> MySQLConn_Query C (snd op) (cp_conns p ! i) (cp_world p);
          Some (p\<lparr>cp_conns := (cp_conns p)[i := c], cp_world := w, cp_futures := (cp_futures p)(fst op \<mapsto> r),
                   cp_executed := cp_executed p @ [(fst op, snd op, r)]\<rparr>) }"

text \<open>The threads: the main thread makes queries and polls, or starts the destructor; the workers run.\<close>

inductive cp_step :: "('w, 'r) connector \<Rightarrow> ('w, 'r, 'c) conn_pool \<Rightarrow> ('w, 'r, 'c) conn_pool \<Rightarrow> bool" for C where
  query: "cp_it p = None \<Longrightarrow> \<not> bq_nonblock (cp_queue p) \<Longrightarrow> MySQLConnPool_Query sql cb p = (q, p') \<Longrightarrow> cp_step C p (AddQueryCallback q p')"
| poll: "cp_it p = None \<Longrightarrow> cp_step C p (p\<lparr>cp_it := Some 0\<rparr>)"
| visit: "cp_it p = Some i \<Longrightarrow> cp_step C p (ap_visit i p)"
| pop: "i < length (cp_workers p) \<Longrightarrow> cp_workers p ! i = At_pop \<Longrightarrow> cp_worker_pop i p = Some p' \<Longrightarrow> cp_step C p p'"
| execute: "i < length (cp_workers p) \<Longrightarrow> cp_workers p ! i = Running op \<Longrightarrow> SQLOperation_Execute C i op p = Some p' \<Longrightarrow>
    cp_step C p (p'\<lparr>cp_workers := (cp_workers p')[i := At_pop]\<rparr>)"
| cancel: "cp_it p = None \<Longrightarrow> cp_step C p (p\<lparr>cp_queue := bq_Cancel (cp_queue p)\<rparr>)"

text \<open>\<open>GetInstance\<close>: the pools by database; \<open>fresh\<close> is the object \<open>new\<close> returns.\<close>

definition GetInstance :: "string \<Rightarrow> ptr \<Rightarrow> (string \<rightharpoonup> ptr) \<Rightarrow> ptr \<times> (string \<rightharpoonup> ptr)" where
  "GetInstance db fresh m =
     (let m = (if m db = None then m(db \<mapsto> fresh) else m) in (the (m db), m))"

text \<open>
  The rest of the destructor after the cancellation: deleting a connection joins its worker, which blocks (\<open>None\<close>) until it has exited.
\<close>

fun delete_conns :: "operation worker list \<Rightarrow> MySQLConn list \<Rightarrow> MySQLConn list option" where
  "delete_conns (w # ws) (c # cs) =
     (if w = Exited then do { c \<leftarrow> MySQLConn_dtor c; cs \<leftarrow> delete_conns ws cs; Some (c # cs) } else None)"
| "delete_conns _ _ = Some []"

definition MySQLConnPool_dtor :: "('w, 'r, 'c) conn_pool \<Rightarrow> MySQLConn list option" where
  "MySQLConnPool_dtor p = delete_conns (cp_workers p) (cp_conns p)"

section \<open>Invariant\<close>

text \<open>The queries that are on their way: queued or with a worker.\<close>

definition cp_open :: "('w, 'r, 'c) conn_pool \<Rightarrow> operation multiset" where
  "cp_open p = mset (bq_queue (cp_queue p)) + (\<Sum>w \<leftarrow> cp_workers p. in_flight w)"

definition cp_inv :: "('w, 'r, 'c) conn_pool \<Rightarrow> bool" where
  "cp_inv p \<longleftrightarrow>
     image_mset fst (cp_open p) + mset (map fst (cp_executed p)) = mset [0..<length (cp_issued p)] \<and>
     mset (map fst (cp_pending p)) + mset (map fst (cp_log p)) = mset [0..<length (cp_issued p)] \<and>
     (\<forall>op \<in># cp_open p. snd op = fst (cp_issued p ! fst op)) \<and>
     (\<forall>x \<in> set (cp_executed p). fst (snd x) = fst (cp_issued p ! fst x)) \<and>
     (\<forall>f r. cp_futures p f = Some r \<longleftrightarrow> (\<exists>sql. (f, sql, r) \<in> set (cp_executed p))) \<and>
     (\<forall>q \<in> set (cp_pending p). snd q = snd (cp_issued p ! fst q)) \<and>
     (\<forall>x \<in> set (cp_log p). fst (snd x) = snd (cp_issued p ! fst x) \<and> cp_futures p (fst x) = Some (snd (snd x))) \<and>
     (\<forall>i. cp_it p = Some i \<longrightarrow> i \<le> length (cp_pending p)) \<and>
     length (cp_workers p) = length (cp_conns p) \<and>
     (Exited \<in> set (cp_workers p) \<longrightarrow> bq_nonblock (cp_queue p) \<and> bq_queue (cp_queue p) = [])"

lemma cp_invD:
  assumes "cp_inv p"
  shows "image_mset fst (cp_open p) + mset (map fst (cp_executed p)) = mset [0..<length (cp_issued p)]"
    "mset (map fst (cp_pending p)) + mset (map fst (cp_log p)) = mset [0..<length (cp_issued p)]"
    "\<forall>op \<in># cp_open p. snd op = fst (cp_issued p ! fst op)"
    "\<forall>x \<in> set (cp_executed p). fst (snd x) = fst (cp_issued p ! fst x)"
    "\<forall>f r. cp_futures p f = Some r \<longleftrightarrow> (\<exists>sql. (f, sql, r) \<in> set (cp_executed p))"
    "\<forall>q \<in> set (cp_pending p). snd q = snd (cp_issued p ! fst q)"
    "\<forall>x \<in> set (cp_log p). fst (snd x) = snd (cp_issued p ! fst x) \<and> cp_futures p (fst x) = Some (snd (snd x))"
    "\<forall>i. cp_it p = Some i \<longrightarrow> i \<le> length (cp_pending p)"
    "length (cp_workers p) = length (cp_conns p)"
    "Exited \<in> set (cp_workers p) \<longrightarrow> bq_nonblock (cp_queue p) \<and> bq_queue (cp_queue p) = []"
  using assms unfolding cp_inv_def by blast+

lemma cp_bounds:
  assumes "cp_inv p"
  shows "op \<in># cp_open p \<Longrightarrow> fst op < length (cp_issued p)" "x \<in> set (cp_executed p) \<Longrightarrow> fst x < length (cp_issued p)"
    "q \<in> set (cp_pending p) \<Longrightarrow> fst q < length (cp_issued p)" "y \<in> set (cp_log p) \<Longrightarrow> fst y < length (cp_issued p)"
  using arg_cong [OF cp_invD(1) [OF assms], of set_mset] arg_cong [OF cp_invD(2) [OF assms], of set_mset] by auto

lemma inv_query:
  assumes "cp_inv p" "cp_it p = None" "\<not> bq_nonblock (cp_queue p)" "MySQLConnPool_Query sql cb p = (q, p')"
  shows "cp_inv (AddQueryCallback q p')"
proof -
  note D = cp_invD [OF assms(1)] and B = cp_bounds [OF assms(1)]
  let ?n = "length (cp_issued p)" and ?p = "AddQueryCallback q p'"
  have o: "cp_open ?p = add_mset (?n, sql) (cp_open p)"
    using assms(4) by (auto simp: MySQLConnPool_Query_def Let_def AddQueryCallback_def cp_open_def bq_Push_def)
  have f: "cp_pending ?p = cp_pending p @ [(?n, cb)]" "cp_issued ?p = cp_issued p @ [(sql, cb)]" "cp_executed ?p = cp_executed p"
    "cp_log ?p = cp_log p" "cp_futures ?p = cp_futures p" "cp_it ?p = None" "cp_workers ?p = cp_workers p" "cp_conns ?p = cp_conns p"
    using assms(2,4) by (auto simp: MySQLConnPool_Query_def Let_def AddQueryCallback_def)
  have old: "(cp_issued p @ [(sql, cb)]) ! k = cp_issued p ! k" if "k < ?n" for k using that by (simp add: nth_append)
  have ex: "Exited \<notin> set (cp_workers p)" using D(10) assms(3) by blast
  have "\<forall>op \<in># cp_open ?p. snd op = fst (cp_issued ?p ! fst op)" using D(3) B(1) old by (auto simp: o f)
  moreover have "\<forall>x \<in> set (cp_executed p). fst (snd x) = fst (cp_issued ?p ! fst x)" using D(4) B(2) old by (auto simp: f)
  moreover have "\<forall>q \<in> set (cp_pending ?p). snd q = snd (cp_issued ?p ! fst q)" using D(6) B(3) old by (auto simp: f)
  moreover have "\<forall>x \<in> set (cp_log p). fst (snd x) = snd (cp_issued ?p ! fst x) \<and> cp_futures p (fst x) = Some (snd (snd x))"
    using D(7) B(4) old by (auto simp: f)
  ultimately show ?thesis unfolding cp_inv_def using D(1,2,5,9) ex by (simp add: o f)
qed

lemma inv_visit:
  assumes "cp_inv p" "cp_it p = Some i"
  shows "cp_inv (ap_visit i p)"
proof -
  note D = cp_invD [OF assms(1)]
  have i: "i \<le> length (cp_pending p)" using D(8) assms(2) by blast
  show ?thesis
  proof (cases "i = length (cp_pending p)")
    case True
    then show ?thesis using assms(1) by (simp add: cp_inv_def ap_visit_def cp_open_def)
  next
    case False
    then have i': "i < length (cp_pending p)" using i by simp
    obtain f cb where q: "cp_pending p ! i = (f, cb)" by fastforce
    have mem: "(f, cb) \<in> set (cp_pending p)" using nth_mem [OF i'] q by simp
    show ?thesis
    proof (cases "cp_futures p f")
      case None
      then show ?thesis using assms(1) q i' False by (simp add: cp_inv_def ap_visit_def QueryCallback_InvokeIfReady_def cp_open_def)
    next
      case (Some r)
      let ?p = "ap_visit i p" and ?rest = "take i (cp_pending p) @ drop (Suc i) (cp_pending p)"
      have f: "cp_pending ?p = ?rest" "cp_log ?p = cp_log p @ [(f, cb, r)]" "cp_issued ?p = cp_issued p" "cp_executed ?p = cp_executed p"
        "cp_futures ?p = cp_futures p" "cp_it ?p = Some i" "cp_workers ?p = cp_workers p" "cp_conns ?p = cp_conns p" "cp_queue ?p = cp_queue p"
        "cp_open ?p = cp_open p"
        using Some q False assms(2) by (simp_all add: ap_visit_def QueryCallback_InvokeIfReady_def cp_open_def)
      have "mset (cp_pending p) = add_mset (f, cb) (mset ?rest)"
        using id_take_nth_drop [OF i'] q by (metis mset.simps(2) mset_append union_mset_add_mset_right)
      then have m: "mset (map fst (cp_pending p)) = add_mset f (mset (map fst ?rest))" and sub: "set ?rest \<subseteq> set (cp_pending p)"
        using set_take_subset set_drop_subset by fastforce+
      have "\<forall>x \<in> set (cp_log ?p). fst (snd x) = snd (cp_issued p ! fst x) \<and> cp_futures p (fst x) = Some (snd (snd x))"
        using D(6,7) mem Some by (auto simp: f)
      moreover have "\<forall>q \<in> set ?rest. snd q = snd (cp_issued p ! fst q)" using D(6) sub by blast
      moreover have "mset (map fst ?rest) + mset (map fst (cp_log ?p)) = mset [0..<length (cp_issued p)]" using D(2) m by (simp add: f)
      ultimately show ?thesis unfolding cp_inv_def f using D(1,3,4,5,9,10) i' by simp
    qed
  qed
qed

lemma exited_update: "Exited \<in> set (ws[i := x]) \<Longrightarrow> x = Exited \<or> Exited \<in> set ws"
  using set_update_subset_insert [of ws i x] by auto

text \<open>The invariant is about the open queries as a whole: a pop moves one from the queue to a worker.\<close>

lemma inv_pop:
  assumes "cp_inv p" "i < length (cp_workers p)" "cp_workers p ! i = At_pop" "cp_worker_pop i p = Some p'"
  shows "cp_inv p'"
proof -
  note D = cp_invD [OF assms(1)]
  obtain r q where q: "bq_Pop (cp_queue p) = Some (r, q)"
    and p': "p' = p\<lparr>cp_queue := q, cp_workers := (cp_workers p)[i := case r of None \<Rightarrow> Exited | Some op \<Rightarrow> Running op]\<rparr>"
    using assms(4) by (auto simp: cp_worker_pop_def bind_eq_Some_conv)
  have o: "cp_open p' = cp_open p"
    using q p' assms(3) sum_list_update [OF assms(2), of in_flight]
    by (cases "bq_queue (cp_queue p)") (auto simp: bq_Pop_def cp_open_def split: if_splits)
  have "Exited \<in> set (cp_workers p') \<longrightarrow> bq_nonblock (cp_queue p') \<and> bq_queue (cp_queue p') = []"
    using q p' D(10) by (auto simp: bq_Pop_def split: if_splits dest!: exited_update)
  then show ?thesis unfolding cp_inv_def o using D(1-9) by (simp add: p')
qed

lemma inv_execute:
  assumes "cp_inv p" "i < length (cp_workers p)" "cp_workers p ! i = Running op" "SQLOperation_Execute C i op p = Some p'"
  shows "cp_inv (p'\<lparr>cp_workers := (cp_workers p')[i := At_pop]\<rparr>)"
proof -
  note D = cp_invD [OF assms(1)]
  let ?p = "p'\<lparr>cp_workers := (cp_workers p')[i := At_pop]\<rparr>"
  obtain r c w where f: "cp_pending ?p = cp_pending p" "cp_issued ?p = cp_issued p" "cp_executed ?p = cp_executed p @ [(fst op, snd op, r)]"
    "cp_log ?p = cp_log p" "cp_futures ?p = (cp_futures p)(fst op \<mapsto> r)" "cp_it ?p = cp_it p" "cp_workers ?p = (cp_workers p)[i := At_pop]"
    "cp_conns ?p = (cp_conns p)[i := c]" "cp_queue ?p = cp_queue p"
    using assms(4) by (auto simp: SQLOperation_Execute_def bind_eq_Some_conv)
  have o: "cp_open p = add_mset op (cp_open ?p)"
    using sum_list_update [OF assms(2), of in_flight At_pop] assms(3) by (simp add: cp_open_def f)
  have op: "snd op = fst (cp_issued p ! fst op)" using D(3) by (simp add: o)
  have new: "fst op \<notin> fst ` set (cp_executed p)"
  proof -
    have "Suc (count (mset (map fst (cp_executed p))) (fst op)) \<le> count (mset [0..<length (cp_issued p)]) (fst op)"
      unfolding D(1) [symmetric] by (simp add: o)
    also have "\<dots> \<le> 1" using distinct_count_atmost_1 [of "[0..<length (cp_issued p)]"] by simp
    finally show ?thesis by (simp add: count_eq_zero_iff)
  qed
  have "cp_futures p (fst op) = None" using D(5) new by (metis fst_conv image_eqI not_Some_eq)
  then have "\<forall>x \<in> set (cp_log p). fst x \<noteq> fst op" using D(7) by fastforce
  then have "\<forall>x \<in> set (cp_log p). fst (snd x) = snd (cp_issued p ! fst x) \<and> cp_futures ?p (fst x) = Some (snd (snd x))"
    using D(7) by (auto simp: f)
  moreover have "\<forall>k r'. cp_futures ?p k = Some r' \<longleftrightarrow> (\<exists>sql. (k, sql, r') \<in> set (cp_executed ?p))"
    using D(5) new by (auto simp: f image_iff split: if_splits)
  moreover have "Exited \<in> set ((cp_workers p)[i := At_pop]) \<longrightarrow> bq_nonblock (cp_queue p) \<and> bq_queue (cp_queue p) = []"
    using D(10) by (auto dest!: exited_update)
  ultimately show ?thesis unfolding cp_inv_def using D(1,2,3,4,6,8,9) op unfolding o f by (auto simp: f)
qed

lemma cp_inv_step: "cp_step C p p' \<Longrightarrow> cp_inv p \<Longrightarrow> cp_inv p'"
proof (induction rule: cp_step.induct)
  case (cancel p)
  then show ?case by (auto simp: cp_inv_def cp_open_def bq_Cancel_def)
next
  case (poll p)
  then show ?case by (simp add: cp_inv_def cp_open_def)
qed (auto intro: inv_query inv_visit inv_pop inv_execute)

lemma InitPool_loop_inv: "InitPool_loop C url db n p = Some p' \<Longrightarrow> cp_inv p \<Longrightarrow> Exited \<notin> set (cp_workers p) \<Longrightarrow> cp_inv p'"
proof (induction n arbitrary: p)
  case (Suc n)
  then obtain e c w where "InitPool_loop C url db n (p\<lparr>cp_conns := cp_conns p @ [c], cp_workers := cp_workers p @ [At_pop], cp_world := w\<rparr>) = Some p'"
    by (auto simp: bind_eq_Some_conv)
  then show ?case using Suc(3,4) by (elim Suc(1)) (auto simp: cp_inv_def cp_open_def)
qed simp

lemma InitPool_inv: "InitPool C url db n w = Some p \<Longrightarrow> cp_inv p"
  unfolding InitPool_def by (erule InitPool_loop_inv) (simp_all add: cp_inv_def cp_open_def bq_ctor_def)

definition cp_reachable :: "('w, 'r) connector \<Rightarrow> ('w, 'r, 'c) conn_pool \<Rightarrow> bool" where
  "cp_reachable C p \<longleftrightarrow> (\<exists>url db n w p0. InitPool C url db n w = Some p0 \<and> (cp_step C)\<^sup>*\<^sup>* p0 p)"

lemma cp_reachable_inv: "cp_reachable C p \<Longrightarrow> cp_inv p"
proof -
  have "(cp_step C)\<^sup>*\<^sup>* p0 p \<Longrightarrow> cp_inv p0 \<Longrightarrow> cp_inv p" for p0
    by (induction rule: rtranclp_induct) (auto intro: cp_inv_step)
  then show "cp_reachable C p \<Longrightarrow> cp_inv p" unfolding cp_reachable_def by (auto dest: InitPool_inv)
qed

text \<open>The destructor deletes all connections, if each is open or was closed, once the workers have exited.\<close>

lemma GetInstance_same:
  "GetInstance db x m = (p, m') \<Longrightarrow> GetInstance db y m' = (p, m') \<and> (\<forall>db'. db' \<noteq> db \<longrightarrow> m' db' = m db')"
  by (auto simp: GetInstance_def Let_def split: if_splits)

lemma MySQLConnPool_dtor_ok:
  assumes "cp_inv p" "\<forall>w \<in> set (cp_workers p). w = Exited" "\<forall>c \<in> set (cp_conns p). mc_inv c"
  shows "\<exists>cs. MySQLConnPool_dtor p = Some cs \<and> length cs = length (cp_conns p) \<and> (\<forall>c \<in> set cs. mc_live c = {})"
proof -
  have "\<exists>cs'. delete_conns ws cs = Some cs' \<and> length cs' = length cs \<and> (\<forall>c \<in> set cs'. mc_live c = {})"
    if "length ws = length cs" "\<forall>w \<in> set ws. w = Exited" "\<forall>c \<in> set cs. mc_inv c" for ws cs
    using that
  proof (induction ws cs rule: delete_conns.induct)
    case (1 w ws c cs)
    obtain c' where c': "MySQLConn_dtor c = Some c'" "mc_live c' = {}" using dtor_ok [of c] 1(4) by auto
    moreover obtain cs' where "delete_conns ws cs = Some cs'" "length cs' = length cs" "\<forall>c \<in> set cs'. mc_live c = {}"
      using 1(1) [OF _ c'(1)] 1(2-4) by auto
    ultimately show ?case using 1(3) by simp
  qed auto
  then show ?thesis using assms cp_invD(9) [OF assms(1)] by (simp add: MySQLConnPool_dtor_def)
qed

section \<open>Polling\<close>

definition ap_ready :: "('w, 'r, 'c) conn_pool \<Rightarrow> nat \<times> 'c \<Rightarrow> bool" where
  "ap_ready p q \<longleftrightarrow> cp_futures p (fst q) \<noteq> None"

definition ap_call :: "('w, 'r, 'c) conn_pool \<Rightarrow> nat \<times> 'c \<Rightarrow> nat \<times> 'c \<times> 'r option" where
  "ap_call p q = (fst q, snd q, the (cp_futures p (fst q)))"

lemma ap_loop_ok:
  assumes "cp_it p = Some i" "i \<le> length (cp_pending p)"
  shows "ap_loop p = Some (p\<lparr>cp_it := None,
    cp_pending := take i (cp_pending p) @ filter (\<lambda>q. \<not> ap_ready p q) (drop i (cp_pending p)),
    cp_log := cp_log p @ map (ap_call p) (filter (ap_ready p) (drop i (cp_pending p)))\<rparr>)"
  using assms
proof (induction "length (cp_pending p) - i" arbitrary: p i)
  case 0
  then have "i = length (cp_pending p)" by simp
  then show ?case using 0(2) by (subst ap_loop.simps, subst ap_loop.simps) (simp add: ap_visit_def)
next
  case (Suc n)
  then have i: "i < length (cp_pending p)" by simp
  let ?q = "cp_pending p ! i" and ?rest = "drop (Suc i) (cp_pending p)"
  have d: "drop i (cp_pending p) = ?q # ?rest" using i by (simp add: Cons_nth_drop_Suc)
  have run: "ap_loop p = ap_loop (ap_visit i p)" using Suc(3) by (subst ap_loop.simps) simp
  show ?case
  proof (cases "cp_futures p (fst ?q)")
    case None
    let ?p = "p\<lparr>cp_it := Some (Suc i)\<rparr>"
    have v: "ap_visit i p = ?p" using i None by (simp add: ap_visit_def QueryCallback_InvokeIfReady_def)
    have same: "ap_ready ?p = ap_ready p" "ap_call ?p = ap_call p" by (simp_all add: ap_ready_def ap_call_def fun_eq_iff)
    have "\<not> ap_ready p ?q" using None by (simp add: ap_ready_def)
    then show ?thesis
      using Suc(1) [of ?p "Suc i"] Suc(2) i unfolding run v same d by (simp add: take_Suc_conv_app_nth)
  next
    case (Some r)
    let ?p = "p\<lparr>cp_log := cp_log p @ [(fst ?q, snd ?q, r)], cp_pending := take i (cp_pending p) @ ?rest\<rparr>"
    have v: "ap_visit i p = ?p" using i Some by (simp add: ap_visit_def QueryCallback_InvokeIfReady_def)
    have same: "ap_ready ?p = ap_ready p" "ap_call ?p = ap_call p" by (simp_all add: ap_ready_def ap_call_def fun_eq_iff)
    have "ap_ready p ?q" "ap_call p ?q = (fst ?q, snd ?q, r)" using Some by (simp_all add: ap_ready_def ap_call_def)
    moreover have "ap_loop ?p = Some (?p\<lparr>cp_it := None,
      cp_pending := take i (cp_pending ?p) @ filter (\<lambda>q. \<not> ap_ready ?p q) (drop i (cp_pending ?p)),
      cp_log := cp_log ?p @ map (ap_call ?p) (filter (ap_ready ?p) (drop i (cp_pending ?p)))\<rparr>)"
      using Suc(2,3) i by (intro Suc(1)) simp_all
    ultimately show ?thesis unfolding run v same d using i by simp
  qed
qed

section \<open>Properties\<close>

text \<open>
  C28: In every interleaving of the main thread and the workers, every query is executed at most once and its callback is called at most once,
  only after its execution and with its own result; a query whose callback was not called yet is still pending. A poll calls exactly the
  callbacks whose results are there, in the order of the queries that are pending. When the destructor's joins are over, every query was executed.
\<close>

theorem ConnPool_callbacks:
  assumes "cp_reachable C p"
  shows "distinct (map fst (cp_log p)) \<and> distinct (map fst (cp_executed p)) \<and>
    (\<forall>(f, cb, r) \<in> set (cp_log p). \<exists>sql. cp_issued p ! f = (sql, cb) \<and> f < length (cp_issued p) \<and> (f, sql, r) \<in> set (cp_executed p)) \<and>
    (\<forall>f < length (cp_issued p). f \<in> fst ` set (cp_pending p) \<longleftrightarrow> f \<notin> fst ` set (cp_log p)) \<and>
    AsyncProcessor_InvokeIfReady p = Some (p\<lparr>cp_it := None, cp_pending := filter (\<lambda>q. \<not> ap_ready p q) (cp_pending p),
      cp_log := cp_log p @ map (ap_call p) (filter (ap_ready p) (cp_pending p))\<rparr>) \<and>
    (cp_workers p \<noteq> [] \<and> (\<forall>w \<in> set (cp_workers p). w = Exited) \<longrightarrow> fst ` set (cp_executed p) = {..<length (cp_issued p)})"
proof -
  have inv: "cp_inv p" by (rule cp_reachable_inv [OF assms])
  note D = cp_invD [OF inv] and B = cp_bounds [OF inv]
  have dis: "distinct (map fst (cp_pending p) @ map fst (cp_log p))"
    using D(2) by (metis distinct_upt mset_append mset_eq_imp_distinct_iff)
  have all: "set (map fst (cp_pending p) @ map fst (cp_log p)) = {..<length (cp_issued p)}"
    using arg_cong [OF D(2), of set_mset] by auto
  have dex: "distinct (map fst (cp_executed p))"
  proof -
    obtain ops where "mset ops = image_mset fst (cp_open p)" using ex_mset by blast
    then have "mset (ops @ map fst (cp_executed p)) = mset [0..<length (cp_issued p)]" using D(1) by simp
    then have "distinct (ops @ map fst (cp_executed p))" by (metis distinct_upt mset_eq_imp_distinct_iff)
    then show ?thesis by simp
  qed
  have log: "\<forall>(f, cb, r) \<in> set (cp_log p). \<exists>sql. cp_issued p ! f = (sql, cb) \<and> f < length (cp_issued p) \<and> (f, sql, r) \<in> set (cp_executed p)"
    using D(4,5,7) B(4) by (auto simp: prod_eq_iff) (metis fst_conv snd_conv prod.collapse)
  have poll: "AsyncProcessor_InvokeIfReady p = Some (p\<lparr>cp_it := None, cp_pending := filter (\<lambda>q. \<not> ap_ready p q) (cp_pending p),
      cp_log := cp_log p @ map (ap_call p) (filter (ap_ready p) (cp_pending p))\<rparr>)"
  proof -
    have "ap_ready (p\<lparr>cp_it := Some 0\<rparr>) = ap_ready p" "ap_call (p\<lparr>cp_it := Some 0\<rparr>) = ap_call p" by (simp_all add: ap_ready_def ap_call_def fun_eq_iff)
    then show ?thesis unfolding AsyncProcessor_InvokeIfReady_def by (subst ap_loop_ok [of _ 0]) simp_all
  qed
  have fin: "fst ` set (cp_executed p) = {..<length (cp_issued p)}" if "cp_workers p \<noteq> []" "\<forall>w \<in> set (cp_workers p). w = Exited"
  proof -
    have "Exited \<in> set (cp_workers p)" using that by (cases "cp_workers p") auto
    then have "cp_open p = {#}" using D(10) tp_exited_in_flight that(2) by (simp add: cp_open_def)
    then show ?thesis using arg_cong [OF D(1), of set_mset] by auto
  qed
  show ?thesis using dis all dex log poll fin by (auto simp: image_iff)
qed

text \<open>One connection, one query, executed.\<close>

definition ex_cp :: "operation list \<Rightarrow> operation worker \<Rightarrow> (nat \<Rightarrow> nat option option) \<Rightarrow> (nat \<times> string \<times> nat option) list \<Rightarrow> (nat, nat, nat) conn_pool" where
  "ex_cp q w fut ex = \<lparr>cp_queue = \<lparr>bq_nonblock = False, bq_queue = q\<rparr>,
     cp_conns = [\<lparr>mc_conn = Some 7, mc_info = MySQLConnInfo_ctor ''h;u;p'' ''d'', mc_live = {7}\<rparr>], cp_workers = [w], cp_world = 0, cp_futures = fut,
     cp_pending = [(0, 9)], cp_it = None, cp_log = [], cp_issued = [(''select 1'', 9)], cp_executed = ex\<rparr>"

lemma ex_cp_reachable: "cp_reachable ex_connector (ex_cp [] At_pop [0 \<mapsto> Some 42] [(0, ''select 1'', Some 42)])"
proof -
  let ?e = "(\<lambda>_. None) :: nat \<Rightarrow> nat option option"
  let ?p0 = "(ex_cp [] At_pop ?e [])\<lparr>cp_pending := [], cp_issued := []\<rparr>"
  have o: "MySQLConn_Open ex_connector (MySQLConn_ctor ''h;u;p'' ''d'') 0 =
    Some (0, \<lparr>mc_conn = Some 7, mc_info = MySQLConnInfo_ctor ''h;u;p'' ''d'', mc_live = {7}\<rparr>, 0)"
    by (subst MySQLConn_Open.simps) (simp add: mc_attempt_def ex_connector_def MySQLConn_ctor_def)
  have "InitPool ex_connector ''h;u;p'' ''d'' 1 0 = Some ?p0"
    by (simp add: InitPool_def o ex_cp_def bq_ctor_def)
  moreover have "cp_step ex_connector ?p0 (ex_cp [(0, ''select 1'')] At_pop ?e [])"
    using cp_step.query [of ?p0 "''select 1''" 9 _ _ ex_connector]
    by (auto simp: ex_cp_def MySQLConnPool_Query_def AddQueryCallback_def bq_Push_def)
  moreover have "cp_step ex_connector (ex_cp [(0, ''select 1'')] At_pop ?e []) (ex_cp [] (Running (0, ''select 1'')) ?e [])"
    using cp_step.pop [of 0 "ex_cp [(0, ''select 1'')] At_pop ?e []" _ ex_connector]
    by (auto simp: ex_cp_def cp_worker_pop_def bq_Pop_def)
  moreover have "cp_step ex_connector (ex_cp [] (Running (0, ''select 1'')) ?e []) (ex_cp [] At_pop [0 \<mapsto> Some 42] [(0, ''select 1'', Some 42)])"
    using cp_step.execute [of 0 "ex_cp [] (Running (0, ''select 1'')) ?e []" "(0, ''select 1'')" ex_connector]
    by (auto simp: ex_cp_def SQLOperation_Execute_def MySQLConn_Query_def ex_connector_def)
  ultimately show ?thesis unfolding cp_reachable_def by (meson converse_rtranclp_into_rtranclp rtranclp.rtrancl_refl)
qed

theorem ConnPool_callbacks_witness:
  "\<exists>p :: (nat, nat, nat) conn_pool. \<exists>p'. cp_reachable ex_connector p \<and> AsyncProcessor_InvokeIfReady p = Some p' \<and> cp_log p' = [(0, 9, Some 42)] \<and> cp_pending p' = []"
proof -
  have "ap_ready (ex_cp [] At_pop [0 \<mapsto> Some 42] [(0, ''select 1'', Some 42)]) (0, 9)"
    "ap_call (ex_cp [] At_pop [0 \<mapsto> Some 42] [(0, ''select 1'', Some 42)]) (0, 9) = (0, 9, Some 42)"
    by (simp_all add: ap_ready_def ap_call_def ex_cp_def)
  then show ?thesis
    using ConnPool_callbacks [OF ex_cp_reachable] ex_cp_reachable
    by (intro exI [of _ "ex_cp [] At_pop [0 \<mapsto> Some 42] [(0, ''select 1'', Some 42)]"] exI) (auto simp: ex_cp_def)
qed

end
