(* ===== verification/DbConnection.thy ===== *)
theory DbConnection
  imports MySqlConn
begin

text \<open>
  A connection of the second pool, \<^verbatim>\<open>mysql-conn-pool/dbimpl\<close>: \<^verbatim>\<open>MySQLConnection.cpp\<close> (connection string, \<open>Open\<close>, \<open>Execute\<close>, the handling of
  errors with its reconnections, transactions), and the tasks of \<^verbatim>\<open>Transaction.cpp\<close>. The client library is a record of functions on
  the state \<open>'w\<close> of the library and the server; a call that reports an error returns \<open>True\<close>. The clock is an argument.
\<close>

section \<open>Connection string\<close>

record MySQLConnectionInfo =
  mi_user :: string
  mi_password :: string
  mi_database :: string
  mi_host :: string
  mi_port_or_socket :: string
  mi_ssl :: string

text \<open>\<open>Trinity::Tokenize\<close> is the function of the other pool, here with the empty pieces kept.\<close>

definition MySQLConnectionInfo_ctor :: "string \<Rightarrow> MySQLConnectionInfo" where
  "MySQLConnectionInfo_ctor infoString =
     (let tokens = Tokenize infoString (CHR '';'') True in
      if length tokens \<noteq> 5 \<and> length tokens \<noteq> 6 then
        \<lparr>mi_user = [], mi_password = [], mi_database = [], mi_host = [], mi_port_or_socket = [], mi_ssl = []\<rparr>
      else
        \<lparr>mi_user = tokens ! 2, mi_password = tokens ! 3, mi_database = tokens ! 4, mi_host = tokens ! 0, mi_port_or_socket = tokens ! 1,
         mi_ssl = (if length tokens = 6 then tokens ! 5 else [])\<rparr>)"

section \<open>Opening\<close>

record 'w client =
  my_init :: "'w \<Rightarrow> ptr \<times> 'w"
  my_real_connect :: "ptr \<Rightarrow> string \<Rightarrow> string \<Rightarrow> string \<Rightarrow> string \<Rightarrow> int \<Rightarrow> string option \<Rightarrow> 'w \<Rightarrow> bool \<times> 'w"
  my_errno :: "ptr \<Rightarrow> 'w \<Rightarrow> u32"
  my_query :: "ptr \<Rightarrow> string \<Rightarrow> 'w \<Rightarrow> bool \<times> 'w"
  my_stmt_bind :: "ptr \<Rightarrow> nat \<Rightarrow> 'w \<Rightarrow> bool \<times> 'w"
  my_stmt_execute :: "ptr \<Rightarrow> 'w \<Rightarrow> bool \<times> 'w"
  my_close :: "ptr \<Rightarrow> 'w \<Rightarrow> 'w"
  my_prepare_all :: "ptr \<Rightarrow> 'w \<Rightarrow> (ptr list \<times> bool) \<times> 'w"

text \<open>An element of a transaction: a raw query, or a prepared statement with its index and its parameters.\<close>

datatype sql_element = SQL_ELEMENT_RAW string | SQL_ELEMENT_PREPARED nat nat

text \<open>
  \<open>dc_live\<close> has the handles that were made and not closed, \<open>dc_sent\<close> the statements the server accepted, each with the handle it was sent on, and
  \<open>dc_errors\<close> the error numbers of the statements that failed.
\<close>

record MySQLConnection =
  dc_mysql :: ptr
  dc_info :: MySQLConnectionInfo
  dc_reconnecting :: bool
  dc_prepareError :: bool
  dc_stmts :: "ptr list"
  dc_live :: "ptr set"
  dc_sent :: "(ptr \<times> sql_element) list"
  dc_errors :: "(u32 \<times> sql_element) list"

definition MySQLConnection_ctor :: "MySQLConnectionInfo \<Rightarrow> MySQLConnection" where
  "MySQLConnection_ctor info = \<lparr>dc_mysql = 0, dc_info = info, dc_reconnecting = False, dc_prepareError = False, dc_stmts = [], dc_live = {}, dc_sent = [], dc_errors = []\<rparr>"

text \<open>\<open>atoi\<close> of the strings that occur: digits at the start (a number beyond \<open>int\<close> is undefined in C).\<close>

definition digit_value :: "char \<Rightarrow> int" where
  "digit_value ch = int (of_char ch) - 48"

definition is_digit :: "char \<Rightarrow> bool" where
  "is_digit ch \<longleftrightarrow> 48 \<le> (of_char ch :: nat) \<and> (of_char ch :: nat) \<le> 57"

definition atoi :: "string \<Rightarrow> int" where
  "atoi str = foldl (\<lambda>n ch. 10 * n + digit_value ch) 0 (takeWhile is_digit str)"

definition CR_UNKNOWN_ERROR :: u32 where
  "CR_UNKNOWN_ERROR = 2000"

text \<open>The host \<open>.\<close> stands for a socket; it is replaced by \<open>localhost\<close> in the information itself.\<close>

definition dc_address :: "MySQLConnection \<Rightarrow> (int \<times> string option) \<times> MySQLConnection" where
  "dc_address c =
     (let i = dc_info c in
      if mi_host i = ''.'' then ((0, Some (mi_port_or_socket i)), c\<lparr>dc_info := i\<lparr>mi_host := ''localhost''\<rparr>\<rparr>)
      else ((atoi (mi_port_or_socket i), None), c))"

definition MySQLConnection_Open :: "'w client \<Rightarrow> MySQLConnection \<Rightarrow> 'w \<Rightarrow> u32 \<times> MySQLConnection \<times> 'w" where
  "MySQLConnection_Open C c w =
     (case my_init C w of (mysqlInit, w) \<Rightarrow>
        if mysqlInit = 0 then (CR_UNKNOWN_ERROR, c, w)
        else
          (case dc_address c of ((port, unix_socket), c) \<Rightarrow>
          (case my_real_connect C mysqlInit (mi_host (dc_info c)) (mi_user (dc_info c)) (mi_password (dc_info c)) (mi_database (dc_info c)) port unix_socket w of
            (True, w) \<Rightarrow> (my_errno C mysqlInit w, c\<lparr>dc_mysql := 0\<rparr>, my_close C mysqlInit w)
          | (False, w) \<Rightarrow> (0, c\<lparr>dc_mysql := mysqlInit, dc_live := insert mysqlInit (dc_live c)\<rparr>, w))))"

definition MySQLConnection_Close :: "'w client \<Rightarrow> MySQLConnection \<Rightarrow> 'w \<Rightarrow> MySQLConnection \<times> 'w" where
  "MySQLConnection_Close C c w =
     (let c = c\<lparr>dc_stmts := []\<rparr> in
      if dc_mysql c \<noteq> 0 then (c\<lparr>dc_live := dc_live c - {dc_mysql c}, dc_mysql := 0\<rparr>, my_close C (dc_mysql c) w) else (c, w))"

definition PrepareStatements :: "'w client \<Rightarrow> MySQLConnection \<Rightarrow> 'w \<Rightarrow> bool \<times> MySQLConnection \<times> 'w" where
  "PrepareStatements C c w =
     (case my_prepare_all C (dc_mysql c) w of ((stmts, failed), w) \<Rightarrow>
        let c = c\<lparr>dc_stmts := stmts, dc_prepareError := dc_prepareError c \<or> failed\<rparr> in (\<not> dc_prepareError c, c, w))"

section \<open>Errors\<close>

definition lost_connection :: "u32 \<Rightarrow> bool" where
  "lost_connection e \<longleftrightarrow> e \<in> {2006, 2013, 2055}"

definition reconnect_error :: "u32 \<Rightarrow> bool" where
  "reconnect_error e \<longleftrightarrow> lost_connection e \<or> e = 2003"

definition fatal_error :: "u32 \<Rightarrow> bool" where
  "fatal_error e \<longleftrightarrow> e \<in> {1054, 1146, 1064}"

definition ER_LOCK_DEADLOCK :: int where
  "ER_LOCK_DEADLOCK = 1213"

text \<open>The result of \<open>_HandleMySQLErrno\<close>: true, false, or \<open>abort\<close> was called.\<close>

datatype handled = Recovered | Refused | Aborted

definition drop_handle :: "'w client \<Rightarrow> u32 \<Rightarrow> MySQLConnection \<Rightarrow> 'w \<Rightarrow> MySQLConnection \<times> 'w" where
  "drop_handle C e c w =
     (if lost_connection e \<and> dc_mysql c \<noteq> 0 then (c\<lparr>dc_live := dc_live c - {dc_mysql c}, dc_mysql := 0\<rparr>, my_close C (dc_mysql c) w) else (c, w))"

lemma attempts_decrease: "a \<noteq> 1 \<Longrightarrow> unat (a - 2) < unat (a - 1)" for a :: "8 word"
  using measure_unat [of "a - 1"] by simp

function HandleMySQLErrno :: "'w client \<Rightarrow> u32 \<Rightarrow> 8 word \<Rightarrow> MySQLConnection \<Rightarrow> 'w \<Rightarrow> handled \<times> MySQLConnection \<times> 'w" where
  "HandleMySQLErrno C errNo attempts c w =
     (if reconnect_error errNo then
        (case drop_handle C errNo c w of (c, w) \<Rightarrow>
        (case MySQLConnection_Open C (c\<lparr>dc_reconnecting := True\<rparr>) w of (lErrno, c, w) \<Rightarrow>
          if lErrno = 0 then
            (case PrepareStatements C c w of (ok, c, w) \<Rightarrow>
              if ok then (Recovered, c\<lparr>dc_reconnecting := False\<rparr>, w) else (Aborted, c, w))
          else if attempts - 1 = 0 then (Aborted, c, w)
          else HandleMySQLErrno C lErrno (attempts - 1) c w))
      else if fatal_error errNo then (Aborted, c, w)
      else (Refused, c, w))"
  by pat_completeness auto

termination
  by (relation "measure (\<lambda>(C, e, a, c, w). unat (a - 1))") (auto intro: attempts_decrease)

declare HandleMySQLErrno.simps [simp del]

section \<open>Statements\<close>

text \<open>\<open>ASSERT\<close> in \<open>GetPreparedStatement\<close> and after it aborts.\<close>

datatype tried = Accepted | Failed | Assertion

definition dc_try :: "'w client \<Rightarrow> sql_element \<Rightarrow> MySQLConnection \<Rightarrow> 'w \<Rightarrow> tried \<times> 'w" where
  "dc_try C el c w =
     (case el of
        SQL_ELEMENT_RAW sql \<Rightarrow> (case my_query C (dc_mysql c) sql w of (failed, w) \<Rightarrow> (if failed then Failed else Accepted, w))
      | SQL_ELEMENT_PREPARED index params \<Rightarrow>
          if index \<ge> length (dc_stmts c) \<or> dc_stmts c ! index = 0 then (Assertion, w)
          else
            (case my_stmt_bind C (dc_stmts c ! index) params w of (failed, w) \<Rightarrow>
               if failed then (Failed, w)
               else
                 (case my_stmt_execute C (dc_stmts c ! index) w of (failed, w) \<Rightarrow> (if failed then Failed else Accepted, w))))"

text \<open>The entry of \<open>dc_errors\<close> for a statement that failed.\<close>

definition log_error :: "'w client \<Rightarrow> sql_element \<Rightarrow> 'w \<Rightarrow> MySQLConnection \<Rightarrow> MySQLConnection" where
  "log_error C el w c = c\<lparr>dc_errors := dc_errors c @ [(my_errno C (dc_mysql c) w, el)]\<rparr>"

text \<open>Both functions \<open>Execute\<close>: a handled error means another try. The result is \<open>None\<close> if the process was aborted.\<close>

partial_function (option) MySQLConnection_Execute ::
  "'w client \<Rightarrow> sql_element \<Rightarrow> MySQLConnection \<Rightarrow> 'w \<Rightarrow> (bool option \<times> MySQLConnection \<times> 'w) option" where
  "MySQLConnection_Execute C el c w =
     (if dc_mysql c = 0 then Some (Some False, c, w)
      else
        case dc_try C el c w of
          (Accepted, w) \<Rightarrow> Some (Some True, c\<lparr>dc_sent := dc_sent c @ [(dc_mysql c, el)]\<rparr>, w)
        | (Assertion, w) \<Rightarrow> Some (None, c, w)
        | (Failed, w) \<Rightarrow>
            (case HandleMySQLErrno C (my_errno C (dc_mysql c) w) 5 (log_error C el w c) w of
               (Recovered, c, w) \<Rightarrow> MySQLConnection_Execute C el c w
             | (Refused, c, w) \<Rightarrow> Some (Some False, c, w)
             | (Aborted, c, w) \<Rightarrow> Some (None, c, w)))"

declare MySQLConnection_Execute.simps [code]

definition GetLastError :: "'w client \<Rightarrow> MySQLConnection \<Rightarrow> 'w \<Rightarrow> int" where
  "GetLastError C c w = sint (my_errno C (dc_mysql c) w)"

abbreviation START_TRANSACTION :: sql_element where
  "START_TRANSACTION \<equiv> SQL_ELEMENT_RAW ''START TRANSACTION''"

abbreviation ROLLBACK :: sql_element where
  "ROLLBACK \<equiv> SQL_ELEMENT_RAW ''ROLLBACK''"

abbreviation COMMIT :: sql_element where
  "COMMIT \<equiv> SQL_ELEMENT_RAW ''COMMIT''"

text \<open>The results of \<open>BeginTransaction\<close>, \<open>RollbackTransaction\<close> and \<open>CommitTransaction\<close> are not used.\<close>

fun transaction_loop :: "'w client \<Rightarrow> sql_element list \<Rightarrow> MySQLConnection \<Rightarrow> 'w \<Rightarrow> (int option \<times> MySQLConnection \<times> 'w) option" where
  "transaction_loop C [] c w =
     do { (r, c, w) \<leftarrow> MySQLConnection_Execute C COMMIT c w;
          Some (map_option (\<lambda>_. 0) r, c, w) }"
| "transaction_loop C (el # els) c w =
     do { (r, c, w) \<leftarrow> MySQLConnection_Execute C el c w;
          case r of
            None \<Rightarrow> Some (None, c, w)
          | Some True \<Rightarrow> transaction_loop C els c w
          | Some False \<Rightarrow>
              do { let errorCode = GetLastError C c w;
                   (r, c, w) \<leftarrow> MySQLConnection_Execute C ROLLBACK c w;
                   Some (map_option (\<lambda>_. errorCode) r, c, w) } }"

definition ExecuteTransaction :: "'w client \<Rightarrow> sql_element list \<Rightarrow> MySQLConnection \<Rightarrow> 'w \<Rightarrow> (int option \<times> MySQLConnection \<times> 'w) option" where
  "ExecuteTransaction C queries c w =
     (if queries = [] then Some (Some (- 1), c, w)
      else
        do { (r, c, w) \<leftarrow> MySQLConnection_Execute C START_TRANSACTION c w;
             case r of
               None \<Rightarrow> Some (None, c, w)
             | Some _ \<Rightarrow> transaction_loop C queries c w })"

section \<open>Transactions\<close>

text \<open>\<open>tb_freed\<close> records what \<open>Cleanup\<close> deleted or freed.\<close>

record TransactionBase =
  tb_queries :: "sql_element list"
  tb_cleanedUp :: bool
  tb_freed :: "sql_element list"

definition TransactionBase_ctor :: TransactionBase where
  "TransactionBase_ctor = \<lparr>tb_queries = [], tb_cleanedUp = False, tb_freed = []\<rparr>"

definition TransactionBase_Append :: "sql_element \<Rightarrow> TransactionBase \<Rightarrow> TransactionBase" where
  "TransactionBase_Append el t = t\<lparr>tb_queries := tb_queries t @ [el]\<rparr>"

definition Cleanup :: "TransactionBase \<Rightarrow> TransactionBase" where
  "Cleanup t = (if tb_cleanedUp t then t else t\<lparr>tb_freed := tb_freed t @ tb_queries t, tb_queries := [], tb_cleanedUp := True\<rparr>)"

definition getMSTimeDiff :: "u32 \<Rightarrow> u32 \<Rightarrow> u32" where
  "getMSTimeDiff oldMSTime newMSTime =
     (if oldMSTime > newMSTime then (0xFFFFFFFF - oldMSTime) + newMSTime else newMSTime - oldMSTime)"

definition DEADLOCK_MAX_RETRY_TIME_MS :: u32 where
  "DEADLOCK_MAX_RETRY_TIME_MS = 60000"

text \<open>\<open>clock k\<close> is what the call number \<open>k\<close> of \<open>getMSTime\<close> returns.\<close>

partial_function (option) retry_loop ::
  "'w client \<Rightarrow> (nat \<Rightarrow> u32) \<Rightarrow> nat \<Rightarrow> u32 \<Rightarrow> sql_element list \<Rightarrow> MySQLConnection \<Rightarrow> 'w \<Rightarrow> (bool option \<times> MySQLConnection \<times> 'w) option" where
  "retry_loop C clock k loopDuration queries c w =
     (if loopDuration \<le> DEADLOCK_MAX_RETRY_TIME_MS then
        do { (r, c, w) \<leftarrow> ExecuteTransaction C queries c w;
             case r of
               None \<Rightarrow> Some (None, c, w)
             | Some err \<Rightarrow>
                 if err = 0 then Some (Some True, c, w)
                 else retry_loop C clock (Suc k) (getMSTimeDiff (clock 0) (clock (Suc k))) queries c w }
      else Some (Some False, c, w))"

declare retry_loop.simps [code]

definition TransactionTask_Execute ::
  "'w client \<Rightarrow> (nat \<Rightarrow> u32) \<Rightarrow> TransactionBase \<Rightarrow> MySQLConnection \<Rightarrow> 'w \<Rightarrow> (bool option \<times> TransactionBase \<times> MySQLConnection \<times> 'w) option" where
  "TransactionTask_Execute C clock t c w =
     do { (r, c, w) \<leftarrow> ExecuteTransaction C (tb_queries t) c w;
          case r of
            None \<Rightarrow> Some (None, t, c, w)
          | Some errorCode \<Rightarrow>
              if errorCode = 0 then Some (Some True, t, c, w)
              else
                do { (r, c, w) \<leftarrow> (if errorCode = ER_LOCK_DEADLOCK then retry_loop C clock 0 0 (tb_queries t) c w else Some (Some False, c, w));
                     case r of
                       None \<Rightarrow> Some (None, t, c, w)
                     | Some True \<Rightarrow> Some (Some True, t, c, w)
                     | Some False \<Rightarrow> Some (Some False, Cleanup t, c, w) } }"

text \<open>The same with the promise, which gets the returned value.\<close>

definition TransactionWithResultTask_Execute ::
  "'w client \<Rightarrow> (nat \<Rightarrow> u32) \<Rightarrow> TransactionBase \<Rightarrow> MySQLConnection \<Rightarrow> 'w \<Rightarrow> (bool option \<times> bool option \<times> TransactionBase \<times> MySQLConnection \<times> 'w) option" where
  "TransactionWithResultTask_Execute C clock t c w =
     do { (r, t, c, w) \<leftarrow> TransactionTask_Execute C clock t c w;
          Some (r, r, t, c, w) }"

text \<open>The five more tries of \<open>DirectCommitTransaction\<close>, and the whole function.\<close>

fun direct_retries :: "'w client \<Rightarrow> nat \<Rightarrow> sql_element list \<Rightarrow> MySQLConnection \<Rightarrow> 'w \<Rightarrow> (bool \<times> MySQLConnection \<times> 'w) option" where
  "direct_retries C 0 queries c w = Some (True, c, w)"
| "direct_retries C (Suc n) queries c w =
     do { (r, c, w) \<leftarrow> ExecuteTransaction C queries c w;
          case r of
            None \<Rightarrow> Some (False, c, w)
          | Some err \<Rightarrow> if err = 0 then Some (True, c, w) else direct_retries C n queries c w }"

definition DirectCommitTransaction :: "'w client \<Rightarrow> TransactionBase \<Rightarrow> MySQLConnection \<Rightarrow> 'w \<Rightarrow> (bool \<times> TransactionBase \<times> MySQLConnection \<times> 'w) option" where
  "DirectCommitTransaction C t c w =
     do { (r, c, w) \<leftarrow> ExecuteTransaction C (tb_queries t) c w;
          case r of
            None \<Rightarrow> Some (False, t, c, w)
          | Some errorCode \<Rightarrow>
              if errorCode = 0 then Some (True, t, c, w)
              else
                do { (ok, c, w) \<leftarrow> (if errorCode = ER_LOCK_DEADLOCK then direct_retries C 5 (tb_queries t) c w else Some (True, c, w));
                     Some (ok, if ok then Cleanup t else t, c, w) } }"

section \<open>Reconnecting\<close>

text \<open>The connection owns its handle and no other.\<close>

definition dc_inv :: "MySQLConnection \<Rightarrow> bool" where
  "dc_inv c \<longleftrightarrow> dc_live c = (if dc_mysql c = 0 then {} else {dc_mysql c})"

lemma Open_inv:
  assumes "MySQLConnection_Open C c w = (e, c', w')" "dc_live c = {}" "dc_mysql c = 0"
  shows "dc_inv c'" "dc_sent c' = dc_sent c" "dc_errors c' = dc_errors c" "e \<noteq> 0 \<longrightarrow> dc_mysql c' = 0"
  using assms by (auto simp: MySQLConnection_Open_def dc_address_def dc_inv_def Let_def split: prod.splits bool.splits if_splits)

lemma Prepare_inv:
  assumes "PrepareStatements C c w = (ok, c', w')"
  shows "dc_inv c' = dc_inv c" "dc_sent c' = dc_sent c" "dc_errors c' = dc_errors c" "dc_mysql c' = dc_mysql c"
  using assms by (auto simp: PrepareStatements_def dc_inv_def Let_def split: prod.splits)

lemma HandleMySQLErrno_inv:
  assumes "HandleMySQLErrno C e a c w = (h, c', w')" "dc_inv c" "e = 2003 \<longrightarrow> dc_mysql c = 0"
  shows "dc_inv c' \<and> dc_sent c' = dc_sent c \<and> (h = Refused \<longrightarrow> dc_mysql c' = dc_mysql c \<or> dc_mysql c' = 0)"
  using assms
proof (induction C e a c w arbitrary: h c' w' rule: HandleMySQLErrno.induct)
  case (1 C e a c w)
  show ?case
  proof (cases "reconnect_error e")
    case True
    obtain c1 w1 where d: "drop_handle C e c w = (c1, w1)" by fastforce
    obtain l c2 w2 where o: "MySQLConnection_Open C (c1\<lparr>dc_reconnecting := True\<rparr>) w1 = (l, c2, w2)" by (metis prod_cases3)
    have c1: "dc_mysql c1 = 0" "dc_live c1 = {}" "dc_sent c1 = dc_sent c"
      using d True 1(3,4) by (auto simp: drop_handle_def reconnect_error_def dc_inv_def split: if_splits)
    have c2: "dc_inv c2" "dc_sent c2 = dc_sent c" "l \<noteq> 0 \<longrightarrow> dc_mysql c2 = 0" using Open_inv [OF o] c1 by auto
    show ?thesis
    proof (cases "l = 0")
      case True
      obtain ok c3 w3 where p: "PrepareStatements C c2 w2 = (ok, c3, w3)" by (metis prod_cases3)
      then show ?thesis
        using 1(2) \<open>reconnect_error e\<close> d o True Prepare_inv [OF p] c2
        by (auto simp: HandleMySQLErrno.simps [of C e] dc_inv_def split: if_splits)
    next
      case False
      show ?thesis
      proof (cases "a - 1 = 0")
        case True
        then show ?thesis using 1(2) \<open>reconnect_error e\<close> d o False c2 by (simp add: HandleMySQLErrno.simps [of C e])
      next
        case a: False
        have run: "HandleMySQLErrno C l (a - 1) c2 w2 = (h, c', w')"
          using 1(2) \<open>reconnect_error e\<close> d o False a by (simp add: HandleMySQLErrno.simps [of C e])
        show ?thesis using 1(1) [OF \<open>reconnect_error e\<close> d [symmetric] o [symmetric] refl False a run c2(1)] c2 False by auto
      qed
    qed
  next
    case False
    then show ?thesis using 1(2,3) by (auto simp: HandleMySQLErrno.simps [of C e] split: if_splits)
  qed
qed

text \<open>The log of what was sent and of what failed only grows, and not by the handling of an error.\<close>

lemma Open_logs:
  "MySQLConnection_Open C c w = (e, c', w') \<Longrightarrow> dc_sent c' = dc_sent c \<and> dc_errors c' = dc_errors c"
  by (auto simp: MySQLConnection_Open_def dc_address_def Let_def split: prod.splits bool.splits if_splits)

lemma HandleMySQLErrno_logs:
  "HandleMySQLErrno C e a c w = (h, c', w') \<Longrightarrow> dc_sent c' = dc_sent c \<and> dc_errors c' = dc_errors c"
proof (induction C e a c w arbitrary: h c' w' rule: HandleMySQLErrno.induct)
  case (1 C e a c w)
  show ?case
  proof (cases "reconnect_error e")
    case True
    obtain c1 w1 where d: "drop_handle C e c w = (c1, w1)" by fastforce
    obtain l c2 w2 where o: "MySQLConnection_Open C (c1\<lparr>dc_reconnecting := True\<rparr>) w1 = (l, c2, w2)" by (metis prod_cases3)
    obtain ok c3 w3 where p: "PrepareStatements C c2 w2 = (ok, c3, w3)" by (metis prod_cases3)
    have c2: "dc_sent c2 = dc_sent c" "dc_errors c2 = dc_errors c"
      using d Open_logs [OF o] by (auto simp: drop_handle_def split: if_splits)
    show ?thesis
    proof (cases "l = 0 \<or> a - 1 = 0")
      case True
      then show ?thesis
        using 1(2) \<open>reconnect_error e\<close> d o p c2 Prepare_inv(2,3) [OF p]
        by (auto simp: HandleMySQLErrno.simps [of C e] split: if_splits)
    next
      case False
      then have "HandleMySQLErrno C l (a - 1) c2 w2 = (h, c', w')"
        using 1(2) \<open>reconnect_error e\<close> d o by (simp add: HandleMySQLErrno.simps [of C e])
      then show ?thesis using 1(1) [OF \<open>reconnect_error e\<close> d [symmetric] o [symmetric] refl] False c2 by simp
    qed
  next
    case False
    then show ?thesis using 1(2) by (auto simp: HandleMySQLErrno.simps [of C e] split: if_splits)
  qed
qed

section \<open>What one statement does\<close>

text \<open>
  \<open>Execute\<close> tries again after each reconnection; the relation of the connections before and after such a try. The functions
  return if there is no endless sequence of failures and successful reconnections.
\<close>

definition retried :: "'w client \<Rightarrow> sql_element \<Rightarrow> ((MySQLConnection \<times> 'w) \<times> (MySQLConnection \<times> 'w)) set" where
  "retried C el = {((c', w'), (c, w)). dc_mysql c \<noteq> 0 \<and>
     (\<exists>w1. dc_try C el c w = (Failed, w1) \<and>
        HandleMySQLErrno C (my_errno C (dc_mysql c) w1) 5 (log_error C el w1 c) w1 = (Recovered, c', w'))}"

definition reconnects_end :: "'w client \<Rightarrow> bool" where
  "reconnects_end C \<longleftrightarrow> (\<forall>el. wf (retried C el))"

text \<open>
  The errors of a run are those of the elements of the transaction, have a number, and are not about the connection.
\<close>

definition plain_error :: "u32 \<times> sql_element \<Rightarrow> bool" where
  "plain_error x \<longleftrightarrow> fst x \<noteq> 0 \<and> \<not> reconnect_error (fst x) \<and> snd x \<notin> {START_TRANSACTION, ROLLBACK, COMMIT}"

definition calm :: "(u32 \<times> sql_element) list \<Rightarrow> bool" where
  "calm es \<longleftrightarrow> list_all plain_error es"

lemma calm_simps [simp]:
  "calm []" "calm (x # es) \<longleftrightarrow> plain_error x \<and> calm es" "calm (es @ es') \<longleftrightarrow> calm es \<and> calm es'"
  by (simp_all add: calm_def)

definition grows :: "MySQLConnection \<Rightarrow> (ptr \<times> sql_element) list \<Rightarrow> (u32 \<times> sql_element) list \<Rightarrow> MySQLConnection \<Rightarrow> bool" where
  "grows c ys es c' \<longleftrightarrow> dc_sent c' = dc_sent c @ ys \<and> dc_errors c' = dc_errors c @ es"

lemma grows_refl [simp]: "grows c [] [] c"
  by (simp add: grows_def)

lemma grows_trans: "grows c ys es c1 \<Longrightarrow> grows c1 zs fs c2 \<Longrightarrow> grows c (ys @ zs) (es @ fs) c2"
  by (simp add: grows_def)

text \<open>The three results of a statement in a run without trouble.\<close>

definition exec_result :: "'w client \<Rightarrow> sql_element \<Rightarrow> ptr \<Rightarrow> bool option \<Rightarrow> (ptr \<times> sql_element) list \<Rightarrow> MySQLConnection \<Rightarrow> 'w \<Rightarrow> bool" where
  "exec_result C el m r ys c' w' \<longleftrightarrow> dc_mysql c' = m \<and>
     (case r of Some True \<Rightarrow> ys = [(m, el)]
      | Some False \<Rightarrow> ys = [] \<and> GetLastError C c' w' \<noteq> 0 \<and> el \<notin> {START_TRANSACTION, ROLLBACK, COMMIT}
      | None \<Rightarrow> el \<notin> {START_TRANSACTION, ROLLBACK, COMMIT})"

lemma Execute_run:
  assumes "reconnects_end C"
  shows "\<exists>r c' w' ys es. MySQLConnection_Execute C el c w = Some (r, c', w') \<and> grows c ys es c' \<and>
    (dc_mysql c \<noteq> 0 \<longrightarrow> calm es \<longrightarrow> exec_result C el (dc_mysql c) r ys c' w')"
proof -
  have "\<exists>r c' w' ys es. MySQLConnection_Execute C el (fst x) (snd x) = Some (r, c', w') \<and> grows (fst x) ys es c' \<and>
    (dc_mysql (fst x) \<noteq> 0 \<longrightarrow> calm es \<longrightarrow> exec_result C el (dc_mysql (fst x)) r ys c' w')" for x
  proof (induction x rule: wf_induct [OF assms [unfolded reconnects_end_def, rule_format, of el]])
    case (1 x)
    obtain c w where x: "x = (c, w)" by fastforce
    obtain tr w1 where t: "dc_try C el c w = (tr, w1)" by fastforce
    let ?e = "my_errno C (dc_mysql c) w1" and ?c = "log_error C el w1 c"
    have g: "grows c [] [(?e, el)] ?c" and m: "dc_mysql ?c = dc_mysql c" by (simp_all add: grows_def log_error_def)
    show ?case
    proof (cases "dc_mysql c = 0")
      case True
      then show ?thesis unfolding x fst_conv snd_conv
        by (intro exI [of _ "Some False"] exI [of _ c] exI [of _ w] exI [of _ "[]"])
          (subst MySQLConnection_Execute.simps, simp)
    next
      case nz: False
      show ?thesis
      proof (cases tr)
        case Accepted
        then have "MySQLConnection_Execute C el c w = Some (Some True, c\<lparr>dc_sent := dc_sent c @ [(dc_mysql c, el)]\<rparr>, w1)"
          using t nz by (subst MySQLConnection_Execute.simps) simp
        then show ?thesis unfolding x
          by (intro exI [of _ "Some True"] exI [of _ "c\<lparr>dc_sent := dc_sent c @ [(dc_mysql c, el)]\<rparr>"] exI [of _ w1]
              exI [of _ "[(dc_mysql c, el)]"] exI [of _ "[]"]) (simp add: grows_def exec_result_def)
      next
        case Assertion
        then have "MySQLConnection_Execute C el c w = Some (None, c, w1)"
          using t nz by (subst MySQLConnection_Execute.simps) simp
        moreover have "el \<notin> {START_TRANSACTION, ROLLBACK, COMMIT}"
          using t Assertion by (auto simp: dc_try_def split: prod.splits if_splits)
        ultimately show ?thesis unfolding x
          by (intro exI [of _ None] exI [of _ c] exI [of _ w1] exI [of _ "[]"] exI [of _ "[]"]) (simp add: exec_result_def)
      next
        case Failed
        obtain h c2 w2 where h: "HandleMySQLErrno C ?e 5 ?c w1 = (h, c2, w2)" by (metis prod_cases3)
        have run: "MySQLConnection_Execute C el c w = (case h of
            Recovered \<Rightarrow> MySQLConnection_Execute C el c2 w2 | Refused \<Rightarrow> Some (Some False, c2, w2) | Aborted \<Rightarrow> Some (None, c2, w2))"
          using t nz Failed h by (subst MySQLConnection_Execute.simps) (simp split: handled.splits)
        have g2: "grows c [] [(?e, el)] c2" using g HandleMySQLErrno_logs [OF h] by (simp add: grows_def)
        have calm: "h \<noteq> Recovered \<and> c2 = ?c \<and> w2 = w1 \<and> GetLastError C ?c w1 \<noteq> 0 \<and> el \<notin> {START_TRANSACTION, ROLLBACK, COMMIT}"
          if "plain_error (?e, el)"
          using that h m by (auto simp: plain_error_def HandleMySQLErrno.simps [of C ?e] GetLastError_def signed_eq_0_iff split: if_splits)
        show ?thesis
        proof (cases "h = Recovered")
          case True
          then have "((c2, w2), x) \<in> retried C el" using nz t Failed h by (simp add: retried_def x)
          then obtain r c' w' ys es where *: "MySQLConnection_Execute C el c2 w2 = Some (r, c', w')" "grows c2 ys es c'"
            using 1 by fastforce
          then show ?thesis unfolding x
            using run True grows_trans [OF g2 *(2)] calm
            by (intro exI [of _ r] exI [of _ c'] exI [of _ w'] exI [of _ ys] exI [of _ "(?e, el) # es"]) auto
        next
          case False
          let ?r = "if h = Refused then Some False else None"
          have "MySQLConnection_Execute C el c w = Some (?r, c2, w2)" using run False by (cases h) simp_all
          moreover have "exec_result C el (dc_mysql c) ?r [] c2 w2" if "plain_error (?e, el)"
            using calm [OF that] m by (simp add: exec_result_def)
          ultimately show ?thesis unfolding x using g2
            by (intro exI [of _ ?r] exI [of _ c2] exI [of _ w2] exI [of _ "[]"] exI [of _ "[(?e, el)]"]) simp
        qed
      qed
    qed
  qed
  from this [of "(c, w)"] show ?thesis by simp
qed

text \<open>What reaches the server in a run that commits, and in one that stops at the statement number \<open>k\<close>.\<close>

definition committed_run :: "ptr \<Rightarrow> sql_element list \<Rightarrow> (ptr \<times> sql_element) list" where
  "committed_run m els = map (Pair m) (START_TRANSACTION # els @ [COMMIT])"

definition failed_run :: "ptr \<Rightarrow> sql_element list \<Rightarrow> nat \<Rightarrow> (ptr \<times> sql_element) list" where
  "failed_run m els k = map (Pair m) (START_TRANSACTION # take k els @ [ROLLBACK])"

lemma transaction_loop_run:
  assumes "reconnects_end C"
  shows "\<exists>r c' w' ys es. transaction_loop C els c w = Some (r, c', w') \<and> grows c ys es c' \<and>
    (dc_mysql c \<noteq> 0 \<longrightarrow> calm es \<longrightarrow> dc_mysql c' = dc_mysql c \<and>
      (r = Some 0 \<longrightarrow> ys = map (Pair (dc_mysql c)) (els @ [COMMIT])) \<and>
      (\<forall>e. r = Some e \<longrightarrow> e \<noteq> 0 \<longrightarrow> (\<exists>k < length els. ys = map (Pair (dc_mysql c)) (take k els @ [ROLLBACK]))))"
proof (induction els arbitrary: c w)
  case Nil
  obtain r c' w' ys es where x: "MySQLConnection_Execute C COMMIT c w = Some (r, c', w')" "grows c ys es c'"
    "dc_mysql c \<noteq> 0 \<longrightarrow> calm es \<longrightarrow> exec_result C COMMIT (dc_mysql c) r ys c' w'"
    using Execute_run [OF assms] by blast
  then show ?case
    by (intro exI [of _ "map_option (\<lambda>_. 0) r"] exI [of _ c'] exI [of _ w'] exI [of _ ys] exI [of _ es])
      (auto simp: exec_result_def split: option.splits bool.splits)
next
  case (Cons el els)
  obtain r c1 w1 ys es where x: "MySQLConnection_Execute C el c w = Some (r, c1, w1)" "grows c ys es c1"
    "dc_mysql c \<noteq> 0 \<longrightarrow> calm es \<longrightarrow> exec_result C el (dc_mysql c) r ys c1 w1"
    using Execute_run [OF assms] by blast
  consider "r = None" | "r = Some False" | "r = Some True" by (metis (full_types) option.exhaust)
  then show ?case
  proof cases
    case 1
    then show ?thesis using x
      by (intro exI [of _ None] exI [of _ c1] exI [of _ w1] exI [of _ ys] exI [of _ es]) (simp add: exec_result_def)
  next
    case 2
    obtain r' c' w' ys' es' where y: "MySQLConnection_Execute C ROLLBACK c1 w1 = Some (r', c', w')" "grows c1 ys' es' c'"
      "dc_mysql c1 \<noteq> 0 \<longrightarrow> calm es' \<longrightarrow> exec_result C ROLLBACK (dc_mysql c1) r' ys' c' w'"
      using Execute_run [OF assms] by blast
    let ?e = "GetLastError C c1 w1"
    have "ys = [] \<and> ?e \<noteq> 0 \<and> dc_mysql c' = dc_mysql c \<and> ys' = [(dc_mysql c, ROLLBACK)]" if "dc_mysql c \<noteq> 0" "calm (es @ es')"
      using that x(3) y(3) 2 by (auto simp: exec_result_def split: option.splits bool.splits)
    then show ?thesis using x(1) y(1) grows_trans [OF x(2) y(2)] 2
      by (intro exI [of _ "map_option (\<lambda>_. ?e) r'"] exI [of _ c'] exI [of _ w'] exI [of _ "ys @ ys'"] exI [of _ "es @ es'"])
        (auto simp: Let_def intro!: exI [of _ "0 :: nat"])
  next
    case 3
    obtain r' c' w' ys' es' where y: "transaction_loop C els c1 w1 = Some (r', c', w')" "grows c1 ys' es' c'"
      "dc_mysql c1 \<noteq> 0 \<longrightarrow> calm es' \<longrightarrow> dc_mysql c' = dc_mysql c1 \<and>
        (r' = Some 0 \<longrightarrow> ys' = map (Pair (dc_mysql c1)) (els @ [COMMIT])) \<and>
        (\<forall>e. r' = Some e \<longrightarrow> e \<noteq> 0 \<longrightarrow> (\<exists>k < length els. ys' = map (Pair (dc_mysql c1)) (take k els @ [ROLLBACK])))"
      using Cons.IH [of c1 w1] by blast
    have "dc_mysql c' = dc_mysql c \<and> (r' = Some 0 \<longrightarrow> ys @ ys' = map (Pair (dc_mysql c)) ((el # els) @ [COMMIT])) \<and>
        (\<forall>e. r' = Some e \<longrightarrow> e \<noteq> 0 \<longrightarrow> (\<exists>k < length (el # els). ys @ ys' = map (Pair (dc_mysql c)) (take k (el # els) @ [ROLLBACK])))"
      if c: "dc_mysql c \<noteq> 0" "calm (es @ es')"
    proof -
      have ys: "dc_mysql c1 = dc_mysql c" "ys = [(dc_mysql c, el)]" using c x(3) 3 by (simp_all add: exec_result_def)
      have "\<exists>k < length (el # els). ys @ ys' = map (Pair (dc_mysql c)) (take k (el # els) @ [ROLLBACK])" if e: "r' = Some e" "e \<noteq> 0" for e
      proof -
        obtain k where "k < length els" "ys' = map (Pair (dc_mysql c)) (take k els @ [ROLLBACK])" using y(3) ys(1) c e by auto
        then show ?thesis using ys(2) by (intro exI [of _ "Suc k"]) simp
      qed
      then show ?thesis using y(3) ys c by auto
    qed
    then show ?thesis using x(1) y(1) grows_trans [OF x(2) y(2)] 3
      by (intro exI [of _ r'] exI [of _ c'] exI [of _ w'] exI [of _ "ys @ ys'"] exI [of _ "es @ es'"]) simp
  qed
qed

lemma ExecuteTransaction_run:
  assumes "reconnects_end C" "els \<noteq> []"
  shows "\<exists>r c' w' ys es. ExecuteTransaction C els c w = Some (r, c', w') \<and> grows c ys es c' \<and>
    (dc_mysql c \<noteq> 0 \<longrightarrow> calm es \<longrightarrow> dc_mysql c' = dc_mysql c \<and> (r = Some 0 \<longrightarrow> ys = committed_run (dc_mysql c) els) \<and>
      (\<forall>e. r = Some e \<longrightarrow> e \<noteq> 0 \<longrightarrow> (\<exists>k < length els. ys = failed_run (dc_mysql c) els k)))"
proof -
  obtain r c1 w1 ys es where x: "MySQLConnection_Execute C START_TRANSACTION c w = Some (r, c1, w1)" "grows c ys es c1"
    "dc_mysql c \<noteq> 0 \<longrightarrow> calm es \<longrightarrow> exec_result C START_TRANSACTION (dc_mysql c) r ys c1 w1"
    using Execute_run [OF assms(1)] by blast
  have st: "dc_mysql c1 = dc_mysql c \<and> r \<noteq> None \<and> ys = [(dc_mysql c, START_TRANSACTION)]" if "dc_mysql c \<noteq> 0" "calm es"
    using that x(3) by (auto simp: exec_result_def split: option.splits bool.splits)
  show ?thesis
  proof (cases "r = None")
    case True
    then show ?thesis using x st assms(2)
      by (intro exI [of _ None] exI [of _ c1] exI [of _ w1] exI [of _ ys] exI [of _ es]) (auto simp: ExecuteTransaction_def)
  next
    case False
    obtain r' c' w' ys' es' where y: "transaction_loop C els c1 w1 = Some (r', c', w')" "grows c1 ys' es' c'"
      "dc_mysql c1 \<noteq> 0 \<longrightarrow> calm es' \<longrightarrow> dc_mysql c' = dc_mysql c1 \<and>
        (r' = Some 0 \<longrightarrow> ys' = map (Pair (dc_mysql c1)) (els @ [COMMIT])) \<and>
        (\<forall>e. r' = Some e \<longrightarrow> e \<noteq> 0 \<longrightarrow> (\<exists>k < length els. ys' = map (Pair (dc_mysql c1)) (take k els @ [ROLLBACK])))"
      using transaction_loop_run [OF assms(1), of els c1 w1] by blast
    have run: "ExecuteTransaction C els c w = Some (r', c', w')"
      using x(1) y(1) False assms(2) by (auto simp: ExecuteTransaction_def)
    show ?thesis
      using run grows_trans [OF x(2) y(2)] st y(3)
      by (intro exI [of _ r'] exI [of _ c'] exI [of _ w'] exI [of _ "ys @ ys'"] exI [of _ "es @ es'"])
        (fastforce simp: committed_run_def failed_run_def)
  qed
qed

section \<open>Retries\<close>

text \<open>Runs that were all rolled back, and what a task may have sent: such runs, and one that commits if the task succeeded.\<close>

definition rolled_back :: "ptr \<Rightarrow> sql_element list \<Rightarrow> (ptr \<times> sql_element) list \<Rightarrow> bool" where
  "rolled_back m els ys \<longleftrightarrow> (\<exists>ks. (\<forall>k \<in> set ks. k < length els) \<and> ys = concat (map (failed_run m els) ks))"

definition task_sent :: "ptr \<Rightarrow> sql_element list \<Rightarrow> bool option \<Rightarrow> (ptr \<times> sql_element) list \<Rightarrow> bool" where
  "task_sent m els r ys \<longleftrightarrow>
     (case r of None \<Rightarrow> True | Some True \<Rightarrow> (\<exists>zs. rolled_back m els zs \<and> ys = zs @ committed_run m els) | Some False \<Rightarrow> rolled_back m els ys)"

lemma rolled_back_Nil: "rolled_back m els []"
  unfolding rolled_back_def by (intro exI [of _ "[]"]) simp

lemma rolled_back_Cons: "k < length els \<Longrightarrow> rolled_back m els ys \<Longrightarrow> rolled_back m els (failed_run m els k @ ys)"
  unfolding rolled_back_def by (metis concat.simps(2) list.simps(9) set_ConsD)

lemma task_sent_Cons: "k < length els \<Longrightarrow> task_sent m els r ys \<Longrightarrow> task_sent m els r (failed_run m els k @ ys)"
  using rolled_back_Cons by (fastforce simp: task_sent_def split: option.splits bool.splits)

lemma task_sent_commit: "task_sent m els (Some True) (committed_run m els)"
  using rolled_back_Nil by (fastforce simp: task_sent_def)

lemma retry_loop_run:
  assumes "reconnects_end C" "els \<noteq> []" "DEADLOCK_MAX_RETRY_TIME_MS < getMSTimeDiff (clock 0) (clock K)" "k < K"
  shows "\<exists>r c' w' ys es. retry_loop C clock k dur els c w = Some (r, c', w') \<and> grows c ys es c' \<and>
    (dc_mysql c \<noteq> 0 \<longrightarrow> calm es \<longrightarrow> task_sent (dc_mysql c) els r ys)"
  using assms(4)
proof (induction "K - k" arbitrary: k dur c w)
  case (Suc n)
  have stop: "retry_loop C clock k dur els c w = Some (Some False, c, w)" if "\<not> dur \<le> DEADLOCK_MAX_RETRY_TIME_MS" for k dur c w
    using that by (subst retry_loop.simps) simp
  have idle: "task_sent m els (Some False) []" for m using rolled_back_Nil by (simp add: task_sent_def)
  show ?case
  proof (cases "dur \<le> DEADLOCK_MAX_RETRY_TIME_MS")
    case False
    then show ?thesis using stop idle
      by (intro exI [of _ "Some False"] exI [of _ c] exI [of _ w] exI [of _ "[]"] exI [of _ "[]"]) simp
  next
    case True
    obtain r c1 w1 ys es where x: "ExecuteTransaction C els c w = Some (r, c1, w1)" "grows c ys es c1"
      "dc_mysql c \<noteq> 0 \<longrightarrow> calm es \<longrightarrow> dc_mysql c1 = dc_mysql c \<and> (r = Some 0 \<longrightarrow> ys = committed_run (dc_mysql c) els) \<and>
        (\<forall>e. r = Some e \<longrightarrow> e \<noteq> 0 \<longrightarrow> (\<exists>k < length els. ys = failed_run (dc_mysql c) els k))"
      using ExecuteTransaction_run [OF assms(1,2), of c w] by blast
    consider "r = None" | "r = Some 0" | e where "r = Some e" "e \<noteq> 0" by (cases r) auto
    then show ?thesis
    proof cases
      case 1
      then have "retry_loop C clock k dur els c w = Some (None, c1, w1)" using x(1) True by (subst retry_loop.simps) simp
      then show ?thesis using x(2)
        by (intro exI [of _ None] exI [of _ c1] exI [of _ w1] exI [of _ ys] exI [of _ es]) (simp add: task_sent_def)
    next
      case 2
      then have "retry_loop C clock k dur els c w = Some (Some True, c1, w1)" using x(1) True by (subst retry_loop.simps) simp
      then show ?thesis using x(2,3) 2 task_sent_commit
        by (intro exI [of _ "Some True"] exI [of _ c1] exI [of _ w1] exI [of _ ys] exI [of _ es]) auto
    next
      case 3
      let ?d = "getMSTimeDiff (clock 0) (clock (Suc k))"
      have run: "retry_loop C clock k dur els c w = retry_loop C clock (Suc k) ?d els c1 w1"
        using x(1) True 3 by (subst retry_loop.simps) simp
      have "\<exists>r' c' w' ys' es'. retry_loop C clock (Suc k) ?d els c1 w1 = Some (r', c', w') \<and> grows c1 ys' es' c' \<and>
          (dc_mysql c1 \<noteq> 0 \<longrightarrow> calm es' \<longrightarrow> task_sent (dc_mysql c1) els r' ys')"
      proof (cases "Suc k = K")
        case True
        then show ?thesis using stop [of ?d "Suc k" c1 w1] assms(3) idle
          by (intro exI [of _ "Some False"] exI [of _ c1] exI [of _ w1] exI [of _ "[]"] exI [of _ "[]"]) auto
      next
        case False
        then show ?thesis using Suc(1) [of "Suc k" ?d c1 w1] Suc(2,3) by simp
      qed
      then obtain r' c' w' ys' es' where y: "retry_loop C clock (Suc k) ?d els c1 w1 = Some (r', c', w')" "grows c1 ys' es' c'"
        "dc_mysql c1 \<noteq> 0 \<longrightarrow> calm es' \<longrightarrow> task_sent (dc_mysql c1) els r' ys'" by blast
      have "task_sent (dc_mysql c) els r' (ys @ ys')" if q: "dc_mysql c \<noteq> 0" "calm (es @ es')"
      proof -
        obtain j where "j < length els" "ys = failed_run (dc_mysql c) els j" using x(3) 3 q by auto
        then show ?thesis using task_sent_Cons y(3) x(3) q by auto
      qed
      then show ?thesis using run y(1) grows_trans [OF x(2) y(2)]
        by (intro exI [of _ r'] exI [of _ c'] exI [of _ w'] exI [of _ "ys @ ys'"] exI [of _ "es @ es'"]) simp
    qed
  qed
qed simp

lemma TransactionTask_run:
  assumes "reconnects_end C" "tb_queries t \<noteq> []" "0 < K" "DEADLOCK_MAX_RETRY_TIME_MS < getMSTimeDiff (clock 0) (clock K)"
  shows "\<exists>r c' w' ys es. TransactionTask_Execute C clock t c w = Some (r, if r = Some False then Cleanup t else t, c', w') \<and>
    grows c ys es c' \<and> (dc_mysql c \<noteq> 0 \<longrightarrow> calm es \<longrightarrow> task_sent (dc_mysql c) (tb_queries t) r ys)"
proof -
  let ?els = "tb_queries t"
  obtain r c1 w1 ys es where x: "ExecuteTransaction C ?els c w = Some (r, c1, w1)" "grows c ys es c1"
    "dc_mysql c \<noteq> 0 \<longrightarrow> calm es \<longrightarrow> dc_mysql c1 = dc_mysql c \<and> (r = Some 0 \<longrightarrow> ys = committed_run (dc_mysql c) ?els) \<and>
      (\<forall>e. r = Some e \<longrightarrow> e \<noteq> 0 \<longrightarrow> (\<exists>k < length ?els. ys = failed_run (dc_mysql c) ?els k))"
    using ExecuteTransaction_run [OF assms(1,2), of c w] by blast
  consider "r = None" | "r = Some 0" | e where "r = Some e" "e \<noteq> 0" by (cases r) auto
  then show ?thesis
  proof cases
    case 1
    then show ?thesis using x(1,2)
      by (intro exI [of _ None] exI [of _ c1] exI [of _ w1] exI [of _ ys] exI [of _ es]) (simp add: TransactionTask_Execute_def task_sent_def)
  next
    case 2
    then show ?thesis using x task_sent_commit
      by (intro exI [of _ "Some True"] exI [of _ c1] exI [of _ w1] exI [of _ ys] exI [of _ es]) (auto simp: TransactionTask_Execute_def)
  next
    case 3
    have "\<exists>r' c' w' ys' es'. (if e = ER_LOCK_DEADLOCK then retry_loop C clock 0 0 ?els c1 w1 else Some (Some False, c1, w1)) = Some (r', c', w') \<and>
        grows c1 ys' es' c' \<and> (dc_mysql c1 \<noteq> 0 \<longrightarrow> calm es' \<longrightarrow> task_sent (dc_mysql c1) ?els r' ys')"
    proof (cases "e = ER_LOCK_DEADLOCK")
      case True
      then show ?thesis using retry_loop_run [OF assms(1,2,4,3), of 0 c1 w1] by simp
    next
      case False
      then show ?thesis using rolled_back_Nil
        by (intro exI [of _ "Some False"] exI [of _ c1] exI [of _ w1] exI [of _ "[]"] exI [of _ "[]"]) (simp add: task_sent_def)
    qed
    then obtain r' c' w' ys' es' where y: "(if e = ER_LOCK_DEADLOCK then retry_loop C clock 0 0 ?els c1 w1 else Some (Some False, c1, w1)) = Some (r', c', w')"
      "grows c1 ys' es' c'" "dc_mysql c1 \<noteq> 0 \<longrightarrow> calm es' \<longrightarrow> task_sent (dc_mysql c1) ?els r' ys'" by blast
    have "TransactionTask_Execute C clock t c w = Some (r', if r' = Some False then Cleanup t else t, c', w')"
      using x(1) 3 y(1) by (cases r') (auto simp: TransactionTask_Execute_def split: bool.splits)
    moreover have "task_sent (dc_mysql c) ?els r' (ys @ ys')" if q: "dc_mysql c \<noteq> 0" "calm (es @ es')"
    proof -
      obtain j where "j < length ?els" "ys = failed_run (dc_mysql c) ?els j" using x(3) 3 q by auto
      then show ?thesis using task_sent_Cons y(3) x(3) q by auto
    qed
    ultimately show ?thesis using grows_trans [OF x(2) y(2)]
      by (intro exI [of _ r'] exI [of _ c'] exI [of _ w'] exI [of _ "ys @ ys'"] exI [of _ "es @ es'"]) simp
  qed
qed

section \<open>Properties\<close>

text \<open>
  C29: Unless the client has to reconnect for ever, and while the clock moves on, the task of a transaction returns or the process is
  aborted; the promise of the task gets the returned value, and on failure the elements of the transaction are freed, once. If in this run
  no error was one of the connection, none was one of \<open>START TRANSACTION\<close>, \<open>ROLLBACK\<close> and \<open>COMMIT\<close> themselves, and every
  error had a number, then success means that the server got all statements in order between \<open>START TRANSACTION\<close> and \<open>COMMIT\<close>
  exactly once, after any number of tries that were rolled back, and failure that every try was rolled back. (Without these
  conditions it need not be so: the results of the three commands are ignored, and see \<open>reconnect_breaks_transaction\<close>.)
\<close>

theorem TransactionTask_all_or_nothing:
  assumes "reconnects_end C" "dc_mysql c \<noteq> 0" "tb_queries t \<noteq> []" "0 < K" "DEADLOCK_MAX_RETRY_TIME_MS < getMSTimeDiff (clock 0) (clock K)"
  shows "\<exists>r c' w' ys es. TransactionWithResultTask_Execute C clock t c w = Some (r, r, if r = Some False then Cleanup t else t, c', w') \<and>
    dc_sent c' = dc_sent c @ ys \<and> dc_errors c' = dc_errors c @ es \<and>
    ((\<forall>(e, el) \<in> set es. e \<noteq> 0 \<and> \<not> reconnect_error e \<and> el \<notin> {START_TRANSACTION, ROLLBACK, COMMIT}) \<longrightarrow>
      task_sent (dc_mysql c) (tb_queries t) r ys)"
proof -
  obtain r c' w' ys es where run: "TransactionTask_Execute C clock t c w = Some (r, if r = Some False then Cleanup t else t, c', w')"
    "grows c ys es c'" "dc_mysql c \<noteq> 0 \<longrightarrow> calm es \<longrightarrow> task_sent (dc_mysql c) (tb_queries t) r ys"
    using TransactionTask_run [OF assms(1,3-5), of c w] by blast
  have "calm es \<longleftrightarrow> (\<forall>(e, el) \<in> set es. e \<noteq> 0 \<and> \<not> reconnect_error e \<and> el \<notin> {START_TRANSACTION, ROLLBACK, COMMIT})"
    by (auto simp: calm_def list_all_iff plain_error_def)
  then show ?thesis using run assms(2)
    by (intro exI [of _ r] exI [of _ c'] exI [of _ w'] exI [of _ ys] exI [of _ es])
      (simp add: TransactionWithResultTask_Execute_def grows_def)
qed

text \<open>A server that answers the first statements with a deadlock, as many as its state says.\<close>

definition ex_client :: "nat client" where
  "ex_client = \<lparr>my_init = (\<lambda>w. (2, w)), my_real_connect = (\<lambda>_ _ _ _ _ _ _ w. (False, w)), my_errno = (\<lambda>_ _. 1213),
     my_query = (\<lambda>_ sql w. if w = 0 \<or> sql \<in> {''START TRANSACTION'', ''ROLLBACK'', ''COMMIT''} then (False, w) else (True, w - 1)),
     my_stmt_bind = (\<lambda>_ _ w. (False, w)), my_stmt_execute = (\<lambda>_ w. (False, w)), my_close = (\<lambda>_ w. w), my_prepare_all = (\<lambda>_ w. (([], False), w))\<rparr>"

definition ex_connection :: MySQLConnection where
  "ex_connection = (MySQLConnection_ctor (MySQLConnectionInfo_ctor ''h;3306;u;p;d''))\<lparr>dc_mysql := 1, dc_live := {1}\<rparr>"

definition ex_transaction :: TransactionBase where
  "ex_transaction = TransactionBase_Append (SQL_ELEMENT_RAW ''b'') (TransactionBase_Append (SQL_ELEMENT_RAW ''a'') TransactionBase_ctor)"

lemma ex_client_executes:
  "dc_mysql c \<noteq> 0 \<Longrightarrow> MySQLConnection_Execute ex_client (SQL_ELEMENT_RAW sql) c w =
     Some (if w = 0 \<or> sql \<in> {''START TRANSACTION'', ''ROLLBACK'', ''COMMIT''}
       then (Some True, c\<lparr>dc_sent := dc_sent c @ [(dc_mysql c, SQL_ELEMENT_RAW sql)]\<rparr>, w)
       else (Some False, c\<lparr>dc_errors := dc_errors c @ [(1213, SQL_ELEMENT_RAW sql)]\<rparr>, w - 1))"
  by (subst MySQLConnection_Execute.simps)
    (auto simp: dc_try_def ex_client_def HandleMySQLErrno.simps log_error_def reconnect_error_def lost_connection_def fatal_error_def)

lemma ex_client_reconnects: "reconnects_end ex_client"
proof -
  have "retried ex_client el = {}" for el
    by (auto simp: retried_def HandleMySQLErrno.simps ex_client_def reconnect_error_def lost_connection_def fatal_error_def)
  then show ?thesis by (simp add: reconnects_end_def)
qed

theorem TransactionTask_all_or_nothing_witness:
  "\<exists>c' w' ys. TransactionWithResultTask_Execute ex_client (\<lambda>k. of_nat k * 70000) ex_transaction ex_connection 1 =
     Some (Some True, Some True, ex_transaction, c', w') \<and> dc_sent c' = ys \<and>
     dc_errors c' = [(1213, SQL_ELEMENT_RAW ''a'')] \<and> task_sent 1 [SQL_ELEMENT_RAW ''a'', SQL_ELEMENT_RAW ''b''] (Some True) ys"
proof -
  let ?els = "[SQL_ELEMENT_RAW ''a'', SQL_ELEMENT_RAW ''b'']" and ?c = ex_connection
  have c: "dc_mysql ?c = 1" "dc_sent ?c = []" "dc_errors ?c = []" by (simp_all add: ex_connection_def MySQLConnection_ctor_def)
  have q: "tb_queries ex_transaction = ?els"
    by (simp add: ex_transaction_def TransactionBase_Append_def TransactionBase_ctor_def)
  have d: "DEADLOCK_MAX_RETRY_TIME_MS < getMSTimeDiff (of_nat 0 * 70000) (of_nat 1 * 70000)"
    by (simp add: DEADLOCK_MAX_RETRY_TIME_MS_def getMSTimeDiff_def)
  let ?c1 = "?c\<lparr>dc_sent := map (Pair 1) [START_TRANSACTION, ROLLBACK], dc_errors := [(1213, SQL_ELEMENT_RAW ''a'')]\<rparr>"
  have e1: "ExecuteTransaction ex_client ?els ?c 1 = Some (Some 1213, ?c1, 0)"
    using c by (simp add: ExecuteTransaction_def ex_client_executes GetLastError_def) (simp add: ex_client_def)
  have "\<exists>c2. ExecuteTransaction ex_client ?els ?c1 0 = Some (Some 0, c2, 0) \<and> dc_errors c2 = dc_errors ?c1"
    using c by (simp add: ExecuteTransaction_def ex_client_executes)
  then obtain c2 where e2: "ExecuteTransaction ex_client ?els ?c1 0 = Some (Some 0, c2, 0)" "dc_errors c2 = dc_errors ?c1" by blast
  have run: "TransactionWithResultTask_Execute ex_client (\<lambda>k. of_nat k * 70000) ex_transaction ?c 1 = Some (Some True, Some True, ex_transaction, c2, 0)"
    using e1 e2(1) by (simp add: TransactionWithResultTask_Execute_def TransactionTask_Execute_def q ER_LOCK_DEADLOCK_def retry_loop.simps)
  show ?thesis
    using TransactionTask_all_or_nothing [OF ex_client_reconnects _ _ _ d, of ?c ex_transaction 1] run e2(2) c q
    by (auto simp: reconnect_error_def lost_connection_def)
qed

subsection \<open>What goes wrong\<close>

text \<open>
  When the connection is lost in the middle of a transaction, \<open>Execute\<close> reconnects and repeats only the statement that failed. The statements before it
  are lost with the old session, the others run outside of any transaction, and success is reported.
\<close>

definition ex_lossy :: "unit client" where
  "ex_lossy = \<lparr>my_init = (\<lambda>w. (2, w)), my_real_connect = (\<lambda>_ _ _ _ _ _ _ w. (False, w)), my_errno = (\<lambda>_ _. 2006),
     my_query = (\<lambda>p sql w. (p = 1 \<and> sql = ''b'', w)),
     my_stmt_bind = (\<lambda>_ _ w. (False, w)), my_stmt_execute = (\<lambda>_ w. (False, w)), my_close = (\<lambda>_ w. w), my_prepare_all = (\<lambda>_ w. (([], False), w))\<rparr>"

lemma ex_lossy_accepts:
  "dc_mysql c \<noteq> 0 \<Longrightarrow> dc_mysql c \<noteq> 1 \<or> sql \<noteq> ''b'' \<Longrightarrow> MySQLConnection_Execute ex_lossy (SQL_ELEMENT_RAW sql) c () =
     Some (Some True, c\<lparr>dc_sent := dc_sent c @ [(dc_mysql c, SQL_ELEMENT_RAW sql)]\<rparr>, ())"
  by (subst MySQLConnection_Execute.simps) (auto simp: dc_try_def ex_lossy_def)

lemma ex_lossy_reconnects:
  assumes "dc_mysql c = 1" "mi_host (dc_info c) \<noteq> ''.''" "\<not> dc_prepareError c"
  shows "HandleMySQLErrno ex_lossy 2006 5 c () =
    (Recovered, c\<lparr>dc_live := insert 2 (dc_live c - {1}), dc_mysql := 2, dc_reconnecting := False, dc_stmts := []\<rparr>, ())"
  using assms
  by (subst HandleMySQLErrno.simps)
    (simp add: reconnect_error_def lost_connection_def drop_handle_def MySQLConnection_Open_def dc_address_def PrepareStatements_def ex_lossy_def Let_def)

lemma reconnect_breaks_transaction:
  "\<exists>c'. ExecuteTransaction ex_lossy [SQL_ELEMENT_RAW ''a'', SQL_ELEMENT_RAW ''b''] ex_connection () = Some (Some 0, c', ()) \<and>
     dc_sent c' = [(1, START_TRANSACTION), (1, SQL_ELEMENT_RAW ''a''), (2, SQL_ELEMENT_RAW ''b''), (2, COMMIT)]"
proof -
  have i: "mi_host (MySQLConnectionInfo_ctor ''h;3306;u;p;d'') = ''h''"
    by (simp add: MySQLConnectionInfo_ctor_def Tokenize_split)
  have b: "MySQLConnection_Execute ex_lossy (SQL_ELEMENT_RAW ''b'') c () = MySQLConnection_Execute ex_lossy (SQL_ELEMENT_RAW ''b'')
     (c\<lparr>dc_errors := dc_errors c @ [(2006, SQL_ELEMENT_RAW ''b'')], dc_live := insert 2 (dc_live c - {1}), dc_mysql := 2,
       dc_reconnecting := False, dc_stmts := []\<rparr>) ()"
    if "dc_mysql c = 1" "mi_host (dc_info c) \<noteq> ''.''" "\<not> dc_prepareError c" for c
    using that ex_lossy_reconnects [of "log_error ex_lossy (SQL_ELEMENT_RAW ''b'') () c"]
    by (subst MySQLConnection_Execute.simps) (simp add: dc_try_def ex_lossy_def log_error_def)
  show ?thesis
    by (simp add: ExecuteTransaction_def ex_lossy_accepts ex_connection_def MySQLConnection_ctor_def b i)
qed

text \<open>The time difference across the wrap-around of the clock is one short.\<close>

lemma getMSTimeDiff_wrap: "newMSTime < oldMSTime \<Longrightarrow> getMSTimeDiff oldMSTime newMSTime = newMSTime - oldMSTime - 1"
  by (simp add: getMSTimeDiff_def)

text \<open>The first \<open>Open\<close> on a socket changes the shared information; the next one takes the path of the socket for a port.\<close>

lemma second_open_loses_socket:
  assumes "mi_host (dc_info c) = ''.''"
  shows "fst (dc_address c) = (0, Some (mi_port_or_socket (dc_info c))) \<and>
    fst (dc_address (snd (dc_address c))) = (atoi (mi_port_or_socket (dc_info c)), None)"
  using assms by (simp add: dc_address_def Let_def)

end
