(* ===== verification/DbCallback.thy ===== *)
theory DbCallback
  imports Prelude
begin

text \<open>
  The rest of \<^verbatim>\<open>mysql-conn-pool/dbimpl\<close> that has state of its own: the chains of callbacks of \<^verbatim>\<open>QueryCallback.cpp\<close>, the processor of
  \<^verbatim>\<open>AsyncCallbackProcessor.h\<close> that polls them, and the search for a free connection of \<^verbatim>\<open>DatabaseWorkerPool.cpp\<close>. A future is a number, and
  \<open>res\<close> gives the results that are there. A callback is a name; what it does is the parameter \<open>act\<close>, which says for a result
  whether it sets a next query (its kind and its future) and how it changes the program's state. \<open>None\<close> is a failed \<open>ASSERT\<close> or an
  access to the inactive member of a union.
\<close>

section \<open>Chains of callbacks\<close>

record 'c QueryCallback =
  qc_isPrepared :: bool
  qc_future :: "nat option"
  qc_callbacks :: "(bool \<times> 'c) list"

definition QueryCallback_ctor :: "bool \<Rightarrow> nat \<Rightarrow> 'c QueryCallback" where
  "QueryCallback_ctor isPrepared result = \<lparr>qc_isPrepared = isPrepared, qc_future = Some result, qc_callbacks = []\<rparr>"

text \<open>\<open>WithChainingCallback\<close> (\<open>prepared\<close> false) and \<open>WithChainingPreparedCallback\<close>.\<close>

definition WithChainingCallback :: "bool \<Rightarrow> 'c \<Rightarrow> 'c QueryCallback \<Rightarrow> 'c QueryCallback option" where
  "WithChainingCallback prepared callback q =
     (if qc_callbacks q \<noteq> [] \<or> qc_isPrepared q = prepared then Some (q\<lparr>qc_callbacks := qc_callbacks q @ [(prepared, callback)]\<rparr>) else None)"

text \<open>\<open>SetNextQuery\<close>: \<open>MoveFrom\<close> with its \<open>ASSERT\<close>.\<close>

definition SetNextQuery :: "bool \<times> nat \<Rightarrow> 'c QueryCallback \<Rightarrow> 'c QueryCallback option" where
  "SetNextQuery next q = (if qc_isPrepared q = fst next then Some (q\<lparr>qc_future := Some (snd next)\<rparr>) else None)"

text \<open>\<open>checkStateAndReturnCompletion\<close>.\<close>

definition checkState :: "'c QueryCallback \<Rightarrow> (bool \<times> 'c QueryCallback) option" where
  "checkState q =
     (let q = q\<lparr>qc_callbacks := tl (qc_callbacks q)\<rparr>; hasNext = qc_future q \<noteq> None in
      if qc_callbacks q = [] then (if hasNext then None else Some (True, q))
      else if \<not> hasNext then Some (True, q)
      else if qc_isPrepared q \<noteq> fst (hd (qc_callbacks q)) then None
      else Some (False, q))"

definition QueryCallback_InvokeIfReady ::
  "(nat \<rightharpoonup> 'r) \<Rightarrow> ('c \<Rightarrow> 'r \<Rightarrow> 's \<Rightarrow> (bool \<times> nat) option \<times> 's) \<Rightarrow> 'c QueryCallback \<Rightarrow> 's \<Rightarrow> (bool \<times> 'c QueryCallback \<times> 's) option" where
  "QueryCallback_InvokeIfReady res act q s =
     (if qc_callbacks q = [] then None
      else
        case Option.bind (qc_future q) res of
          None \<Rightarrow> Some (False, q, s)
        | Some r \<Rightarrow>
            if fst (hd (qc_callbacks q)) \<noteq> qc_isPrepared q then None
            else
              do { let q = q\<lparr>qc_future := None\<rparr>;
                   let (next, s) = act (snd (hd (qc_callbacks q))) r s;
                   q \<leftarrow> (case next of None \<Rightarrow> Some q | Some n \<Rightarrow> SetNextQuery n q);
                   (fin, q) \<leftarrow> checkState q;
                   Some (fin, q, s) })"

section \<open>The processor\<close>

text \<open>
  \<open>remove_if\<close> with \<open>InvokeIfReady\<close> as the predicate: what stays, what the callbacks added through \<open>AddCallback\<close> meanwhile, and the state.
  The parameter \<open>invoke\<close> is \<open>InvokeIfReady\<close> of the type of the callbacks.
\<close>

fun process_loop :: "('t \<Rightarrow> 's \<Rightarrow> (bool \<times> 't \<times> 't list \<times> 's) option) \<Rightarrow> 't list \<Rightarrow> 's \<Rightarrow> ('t list \<times> 't list \<times> 's) option" where
  "process_loop invoke [] s = Some ([], [], s)"
| "process_loop invoke (t # ts) s =
     do { (fin, t, new, s) \<leftarrow> invoke t s;
          (kept, news, s) \<leftarrow> process_loop invoke ts s;
          Some (if fin then kept else t # kept, new @ news, s) }"

definition AddCallback :: "'t \<Rightarrow> 't list \<Rightarrow> 't list" where
  "AddCallback t ts = ts @ [t]"

text \<open>The vector is moved out first, so that the callbacks add to an empty one.\<close>

definition ProcessReadyCallbacks :: "('t \<Rightarrow> 's \<Rightarrow> (bool \<times> 't \<times> 't list \<times> 's) option) \<Rightarrow> 't list \<Rightarrow> 's \<Rightarrow> ('t list \<times> 's) option" where
  "ProcessReadyCallbacks invoke callbacks s =
     (if callbacks = [] then Some (callbacks, s)
      else
        do { (kept, news, s) \<leftarrow> process_loop invoke callbacks s;
             Some (fold AddCallback kept (fold AddCallback news []), s) })"

section \<open>A free connection\<close>

text \<open>
  \<open>free k j\<close> says whether the connection \<open>j\<close> can be locked at the time of the probe number \<open>k\<close>. The counter is 8 bits wide; without
  connections the remainder is undefined.
\<close>

partial_function (option) free_loop :: "nat \<Rightarrow> (nat \<Rightarrow> nat \<Rightarrow> bool) \<Rightarrow> nat \<Rightarrow> 8 word \<Rightarrow> (nat \<times> nat) option" where
  "free_loop num_cons free k i =
     (if num_cons = 0 then None
      else
        let i = i + 1; j = unat i mod num_cons in
        if free k j then Some (j, k) else free_loop num_cons free (Suc k) i)"

declare free_loop.simps [code]

definition GetFreeConnection :: "nat \<Rightarrow> (nat \<Rightarrow> nat \<Rightarrow> bool) \<Rightarrow> (nat \<times> nat) option" where
  "GetFreeConnection num_cons free = free_loop num_cons free 0 0"

section \<open>Proofs\<close>

lemma unat_of_nat_8: "unat (of_nat n :: 8 word) = n mod 256"
  by (simp add: unsigned_of_nat take_bit_eq_mod)

lemma free_loop_ok:
  assumes "0 < n" "i = of_nat k" "k \<le> K" "free K (Suc K mod 256 mod n)"
  shows "\<exists>j k'. free_loop n free k i = Some (j, k') \<and> k \<le> k' \<and> k' \<le> K \<and> j < n \<and> free k' j"
  using assms(2,3)
proof (induction "K - k" arbitrary: k i)
  case 0
  then have "k = K" by simp
  have "i + 1 = of_nat (Suc K)" using 0(2) \<open>k = K\<close> by simp
  then have "unat (i + 1) = Suc K mod 256" by (metis unat_of_nat_8)
  then show ?case using assms \<open>k = K\<close> by (subst free_loop.simps) (simp add: Let_def)
next
  case (Suc m)
  show ?case
  proof (cases "free k (unat (i + 1) mod n)")
    case True
    then show ?thesis using assms(1) Suc(4) by (subst free_loop.simps) (simp add: Let_def)
  next
    case False
    have "\<exists>j k'. free_loop n free (Suc k) (i + 1) = Some (j, k') \<and> Suc k \<le> k' \<and> k' \<le> K \<and> j < n \<and> free k' j"
      using Suc(2,3) by (intro Suc(1)) auto
    then show ?thesis using assms(1) False by (subst free_loop.simps) (auto simp: Let_def)
  qed
qed

text \<open>A chain whose callbacks all take the kind of result its query has; and callbacks that set only queries of that kind, the last one none.\<close>

definition qc_wf :: "'c QueryCallback \<Rightarrow> bool" where
  "qc_wf q \<longleftrightarrow> qc_callbacks q \<noteq> [] \<and> (\<forall>x \<in> set (qc_callbacks q). fst x = qc_isPrepared q)"

definition acts_well :: "('c \<Rightarrow> 'r \<Rightarrow> 's \<Rightarrow> (bool \<times> nat) option \<times> 's) \<Rightarrow> 'c QueryCallback \<Rightarrow> bool" where
  "acts_well act q \<longleftrightarrow>
     (\<forall>x \<in> set (qc_callbacks q). \<forall>r s n. fst (act (snd x) r s) = Some n \<longrightarrow> fst n = qc_isPrepared q) \<and>
     (\<forall>r s. fst (act (snd (last (qc_callbacks q))) r s) = None)"

text \<open>All branches of \<open>InvokeIfReady\<close>, with the three assertions.\<close>

lemma Invoke_cases:
  "QueryCallback_InvokeIfReady res act q s =
    (if qc_callbacks q = [] then None
     else case Option.bind (qc_future q) res of
       None \<Rightarrow> Some (False, q, s)
     | Some r \<Rightarrow>
         let (next, s') = act (snd (hd (qc_callbacks q))) r s; rest = tl (qc_callbacks q) in
         if fst (hd (qc_callbacks q)) \<noteq> qc_isPrepared q \<or>
            (case next of None \<Rightarrow> False
             | Some n \<Rightarrow> fst n \<noteq> qc_isPrepared q \<or> rest = [] \<or> fst (hd rest) \<noteq> qc_isPrepared q)
         then None
         else Some (next = None, q\<lparr>qc_future := map_option snd next, qc_callbacks := rest\<rparr>, s'))"
  by (cases "qc_callbacks q = []"; cases "Option.bind (qc_future q) res")
    (auto simp: QueryCallback_InvokeIfReady_def checkState_def SetNextQuery_def Let_def split: prod.splits option.splits)

lemma Invoke_ok:
  assumes "qc_wf q" "acts_well act q"
  shows "QueryCallback_InvokeIfReady res act q s =
    (case Option.bind (qc_future q) res of
       None \<Rightarrow> Some (False, q, s)
     | Some r \<Rightarrow>
         let (next, s') = act (snd (hd (qc_callbacks q))) r s in
         Some (next = None, q\<lparr>qc_future := map_option snd next, qc_callbacks := tl (qc_callbacks q)\<rparr>, s'))"
proof (cases "Option.bind (qc_future q) res")
  case None
  then show ?thesis using assms(1) by (simp add: Invoke_cases qc_wf_def)
next
  case (Some r)
  obtain p cb rest where cbs: "qc_callbacks q = (p, cb) # rest" using assms(1) by (metis neq_Nil_conv prod.exhaust qc_wf_def)
  obtain n s' where a: "act cb r s = (n, s')" by fastforce
  have n: "fst m = qc_isPrepared q" "rest \<noteq> []" if "n = Some m" for m
  proof -
    have "fst (act (snd (p, cb)) r s) = Some m" using a that by simp
    then show "fst m = qc_isPrepared q" using assms(2) unfolding acts_well_def cbs by (metis list.set_intros(1))
    have "\<forall>r s. fst (act (snd (last (qc_callbacks q))) r s) = None" using assms(2) by (simp add: acts_well_def)
    then show "rest \<noteq> []" using a that unfolding cbs by (metis fst_conv last.simps option.distinct(1) snd_conv)
  qed
  have "\<forall>x \<in> set (qc_callbacks q). fst x = qc_isPrepared q" using assms(1) by (simp add: qc_wf_def)
  moreover have "rest \<noteq> [] \<Longrightarrow> hd rest \<in> set rest" by simp
  ultimately show ?thesis
    using Some a n by (cases n) (auto simp: Invoke_cases cbs)
qed

lemma Invoke_keeps:
  assumes "qc_wf q" "acts_well act q" "QueryCallback_InvokeIfReady res act q s = Some (False, q', s')"
  shows "qc_wf q' \<and> acts_well act q'"
proof (cases "Option.bind (qc_future q) res")
  case None
  then show ?thesis using assms by (simp add: Invoke_ok)
next
  case (Some r)
  obtain n where a: "act (snd (hd (qc_callbacks q))) r s = (n, s')" "n \<noteq> None"
      "q' = q\<lparr>qc_future := map_option snd n, qc_callbacks := tl (qc_callbacks q)\<rparr>"
    using assms Some by (auto simp: Invoke_ok split: prod.splits)
  obtain x rest where cbs: "qc_callbacks q = x # rest" using assms(1) by (metis neq_Nil_conv qc_wf_def)
  have "rest \<noteq> []"
  proof
    assume "rest = []"
    then have "fst (act (snd x) r s) = None" using assms(2) by (simp add: acts_well_def cbs)
    then show False using a(1,2) by (simp add: cbs)
  qed
  then show ?thesis using assms(1,2) a(3) by (auto simp: qc_wf_def acts_well_def cbs)
qed

lemma fold_AddCallback: "fold AddCallback xs ys = ys @ xs"
  by (induction xs arbitrary: ys) (simp_all add: AddCallback_def)

text \<open>The chains under the processor; these callbacks add no others.\<close>

definition invoke_chain ::
  "(nat \<rightharpoonup> 'r) \<Rightarrow> ('c \<Rightarrow> 'r \<Rightarrow> 's \<Rightarrow> (bool \<times> nat) option \<times> 's) \<Rightarrow> 'c QueryCallback \<Rightarrow> 's \<Rightarrow> (bool \<times> 'c QueryCallback \<times> 'c QueryCallback list \<times> 's) option" where
  "invoke_chain res act q s = do { (fin, q, s) \<leftarrow> QueryCallback_InvokeIfReady res act q s; Some (fin, q, [], s) }"

lemma process_chains:
  assumes "\<forall>q \<in> set qs. qc_wf q \<and> acts_well act q"
  shows "\<exists>kept s'. process_loop (invoke_chain res act) qs s = Some (kept, [], s') \<and> (\<forall>q \<in> set kept. qc_wf q \<and> acts_well act q)"
  using assms
proof (induction qs arbitrary: s)
  case (Cons q qs)
  obtain fin q' s1 where i: "QueryCallback_InvokeIfReady res act q s = Some (fin, q', s1)"
    using Invoke_ok [of q act res s] Cons(2) by (cases "Option.bind (qc_future q) res") (auto split: prod.splits)
  obtain kept s' where k: "process_loop (invoke_chain res act) qs s1 = Some (kept, [], s')" "\<forall>q \<in> set kept. qc_wf q \<and> acts_well act q"
    using Cons(1) [of s1] Cons(2) by auto
  have "\<not> fin \<longrightarrow> qc_wf q' \<and> acts_well act q'" using Invoke_keeps [of q act res s q' s1] Cons(2) i by (cases fin) auto
  moreover have "invoke_chain res act q s = Some (fin, q', [], s1)" using i by (simp add: invoke_chain_def)
  ultimately show ?case using k by (cases fin) auto
qed simp

section \<open>Properties\<close>

text \<open>The callbacks of a list invoked one after the other, each once, with what each call gives.\<close>

fun run_each :: "('t \<Rightarrow> 's \<Rightarrow> (bool \<times> 't \<times> 't list \<times> 's) option) \<Rightarrow> 't list \<Rightarrow> 's \<Rightarrow> ((bool \<times> 't \<times> 't list) list \<times> 's) option" where
  "run_each invoke [] s = Some ([], s)"
| "run_each invoke (t # ts) s =
     do { (fin, t', new, s) \<leftarrow> invoke t s;
          (xs, s) \<leftarrow> run_each invoke ts s;
          Some ((fin, t', new) # xs, s) }"

lemma process_loop_run:
  "process_loop invoke ts s = map_option (\<lambda>(xs, s'). ([t'. (fin, t', new) \<leftarrow> xs, \<not> fin], concat (map (snd \<circ> snd) xs), s')) (run_each invoke ts s)"
  by (induction invoke ts s rule: process_loop.induct) (auto split: bind_splits)

text \<open>
  One chain over several calls of \<open>InvokeIfReady\<close>, until it is complete: \<open>res\<close> has the results that are there at each of the calls.
\<close>

fun poll_chain ::
  "('c \<Rightarrow> 'r \<Rightarrow> 's \<Rightarrow> (bool \<times> nat) option \<times> 's) \<Rightarrow> (nat \<rightharpoonup> 'r) list \<Rightarrow> 'c QueryCallback \<Rightarrow> 's \<Rightarrow> (bool \<times> 'c QueryCallback \<times> 's) option" where
  "poll_chain act [] q s = Some (False, q, s)"
| "poll_chain act (res # ress) q s =
     do { (fin, q, s) \<leftarrow> QueryCallback_InvokeIfReady res act q s;
          if fin then Some (True, q, s) else poll_chain act ress q s }"

text \<open>The callbacks called one after the other, each with the result of the query that is pending then.\<close>

fun chain_ran ::
  "('c \<Rightarrow> 'r \<Rightarrow> 's \<Rightarrow> (bool \<times> nat) option \<times> 's) \<Rightarrow> (nat \<rightharpoonup> 'r) list \<Rightarrow> nat option \<Rightarrow> ('c \<times> 'r) list \<Rightarrow> 's \<Rightarrow> nat option \<Rightarrow> 's \<Rightarrow> bool" where
  "chain_ran act ress query [] s query' s' \<longleftrightarrow> query' = query \<and> s' = s"
| "chain_ran act ress query ((cb, r) # xs) s query' s' \<longleftrightarrow>
     (\<exists>res \<in> set ress. Option.bind query res = Some r) \<and>
     chain_ran act ress (map_option snd (fst (act cb r s))) xs (snd (act cb r s)) query' s'"

lemma chain_ran_more: "chain_ran act ress query xs s query' s' \<Longrightarrow> chain_ran act (res # ress) query xs s query' s'"
  by (induction act ress query xs s query' s' rule: chain_ran.induct) auto

lemma poll_chain_ran:
  assumes "poll_chain act ress q s = Some (fin, q', s')"
  shows "\<exists>rs. length rs \<le> length (qc_callbacks q) \<and> qc_callbacks q' = drop (length rs) (qc_callbacks q) \<and>
    chain_ran act ress (qc_future q) (zip (map snd (qc_callbacks q)) rs) s (qc_future q') s' \<and>
    (fin \<longleftrightarrow> rs \<noteq> [] \<and> qc_future q' = None)"
  using assms
proof (induction ress arbitrary: q s)
  case Nil
  then show ?case by (intro exI [of _ "[]"]) auto
next
  case (Cons res ress)
  obtain f q1 s1 where i: "QueryCallback_InvokeIfReady res act q s = Some (f, q1, s1)"
    and p: "(if f then Some (True, q1, s1) else poll_chain act ress q1 s1) = Some (fin, q', s')"
    using Cons.prems by (auto split: bind_splits)
  show ?case
  proof (cases "Option.bind (qc_future q) res")
    case None
    then have "f = False" "q1 = q" "s1 = s" using i by (auto simp: Invoke_cases split: if_splits)
    then have "poll_chain act ress q s = Some (fin, q', s')" using p by simp
    then show ?thesis using Cons.IH [of q s] chain_ran_more by fast
  next
    case (Some r)
    obtain k cb rest where cbs: "qc_callbacks q = (k, cb) # rest"
      using i by (cases "qc_callbacks q") (auto simp: Invoke_cases)
    obtain n where a: "act cb r s = (n, s1)" "f \<longleftrightarrow> n = None" "q1 = q\<lparr>qc_future := map_option snd n, qc_callbacks := rest\<rparr>"
      using i Some by (auto simp: Invoke_cases cbs Let_def split: prod.splits if_splits)
    show ?thesis
    proof (cases f)
      case True
      then have "fin" "q' = q1" "s' = s1" using p by auto
      then show ?thesis using True Some a cbs by (intro exI [of _ "[r]"]) auto
    next
      case False
      then have "poll_chain act ress q1 s1 = Some (fin, q', s')" using p by simp
      then obtain rs where rs: "length rs \<le> length (qc_callbacks q1)" "qc_callbacks q' = drop (length rs) (qc_callbacks q1)"
          "chain_ran act ress (qc_future q1) (zip (map snd (qc_callbacks q1)) rs) s1 (qc_future q') s'"
          "fin \<longleftrightarrow> rs \<noteq> [] \<and> qc_future q' = None"
        using Cons.IH [of q1 s1] by blast
      have "fin \<longleftrightarrow> qc_future q' = None"
        using rs(3,4) False a(2,3) by (cases rs) auto
      moreover have "chain_ran act (res # ress) (qc_future q) (zip (map snd (qc_callbacks q)) (r # rs)) s (qc_future q') s'"
        using chain_ran_more [OF rs(3), of res] Some a cbs by simp
      ultimately show ?thesis using rs(1,2) a(3) cbs by (intro exI [of _ "r # rs"]) auto
    qed
  qed
qed

text \<open>A processor of chains of one kind whose callbacks set only next queries of this kind, the last one none, never fails an assertion.\<close>

lemma uniform_chains_never_fail:
  assumes "\<forall>q \<in> set qs. qc_wf q \<and> acts_well act q"
  shows "\<exists>qs' s'. ProcessReadyCallbacks (invoke_chain res act) qs s = Some (qs', s') \<and> (\<forall>q \<in> set qs'. qc_wf q \<and> acts_well act q)"
  using process_chains [OF assms, of res s] by (auto simp: ProcessReadyCallbacks_def fold_AddCallback)

text \<open>
  C31: \<open>InvokeIfReady\<close> does nothing while the result of a chain is not there; else it runs exactly the first callback, with the result,
  takes it off the chain, and reports the chain complete exactly when that callback set no next query; otherwise the chain goes on with
  the next query. It fails exactly if there is no callback, if the first one takes the other kind of result, or if a next query was set
  that is of the other kind, or that no callback or one of the other kind is there for. So over any number of calls the callbacks of a chain
  run in the order in which they were added, each at most once and with the result of the query that the one before it has set (the first
  with that of the query of the chain), and those that did not run stay; the chain is complete when no query is left. The processor, for any kind of callbacks, invokes
  each callback once and in order; afterwards it holds those that were added meanwhile, and then those that are not complete, in their order
  and as the call left them.
\<close>

theorem QueryCallback_chain:
  "(\<forall>q s. QueryCallback_InvokeIfReady res act q s =
      (if qc_callbacks q = [] then None
       else case Option.bind (qc_future q) res of
         None \<Rightarrow> Some (False, q, s)
       | Some r \<Rightarrow>
           let (next, s') = act (snd (hd (qc_callbacks q))) r s; rest = tl (qc_callbacks q) in
           if fst (hd (qc_callbacks q)) \<noteq> qc_isPrepared q \<or>
              (case next of None \<Rightarrow> False
               | Some n \<Rightarrow> fst n \<noteq> qc_isPrepared q \<or> rest = [] \<or> fst (hd rest) \<noteq> qc_isPrepared q)
           then None
           else Some (next = None, q\<lparr>qc_future := map_option snd next, qc_callbacks := rest\<rparr>, s'))) \<and>
   (\<forall>ress q s. case poll_chain act ress q s of None \<Rightarrow> True
      | Some (fin, q', s') \<Rightarrow>
          \<exists>rs. length rs \<le> length (qc_callbacks q) \<and> qc_callbacks q' = drop (length rs) (qc_callbacks q) \<and>
            chain_ran act ress (qc_future q) (zip (map snd (qc_callbacks q)) rs) s (qc_future q') s' \<and>
            (fin \<longleftrightarrow> rs \<noteq> [] \<and> qc_future q' = None)) \<and>
   (\<forall>ts s. ProcessReadyCallbacks invoke ts s =
      map_option (\<lambda>(xs, s'). (concat (map (snd \<circ> snd) xs) @ [t'. (fin, t', new) \<leftarrow> xs, \<not> fin], s')) (run_each invoke ts s))"
proof (intro conjI allI Invoke_cases)
  show "case poll_chain act ress q s of None \<Rightarrow> True
      | Some (fin, q', s') \<Rightarrow>
          \<exists>rs. length rs \<le> length (qc_callbacks q) \<and> qc_callbacks q' = drop (length rs) (qc_callbacks q) \<and>
            chain_ran act ress (qc_future q) (zip (map snd (qc_callbacks q)) rs) s (qc_future q') s' \<and>
            (fin \<longleftrightarrow> rs \<noteq> [] \<and> qc_future q' = None)" for ress q s
  proof (cases "poll_chain act ress q s")
    case (Some x)
    then show ?thesis by (cases x) (use poll_chain_ran in fastforce)
  qed simp
  show "ProcessReadyCallbacks invoke ts s =
      map_option (\<lambda>(xs, s'). (concat (map (snd \<circ> snd) xs) @ [t'. (fin, t', new) \<leftarrow> xs, \<not> fin], s')) (run_each invoke ts s)" for ts s
    by (cases "run_each invoke ts s") (auto simp: ProcessReadyCallbacks_def process_loop_run fold_AddCallback)
qed

theorem QueryCallback_chain_witness:
  "\<exists>q q' s'. WithChainingCallback False (3 :: nat) (QueryCallback_ctor False 7) = Some q' \<and> WithChainingCallback False 2 q' = Some q \<and>
     ProcessReadyCallbacks (invoke_chain [7 \<mapsto> ''row''] (\<lambda>cb r s. (if cb = 3 then Some (False, 8) else None, s @ [(cb, r)])))
       [q, QueryCallback_ctor False 9\<lparr>qc_callbacks := [(False, 5)]\<rparr>] [] =
     Some ([\<lparr>qc_isPrepared = False, qc_future = Some 8, qc_callbacks = [(False, 2)]\<rparr>,
            \<lparr>qc_isPrepared = False, qc_future = Some 9, qc_callbacks = [(False, 5)]\<rparr>], s') \<and> s' = [(3, ''row'')]"
proof -
  let ?act = "\<lambda>(cb :: nat) (r :: string) s. (if cb = 3 then Some (False, 8 :: nat) else None, s @ [(cb, r)])" and ?res = "[7 \<mapsto> ''row'']"
  note chain = QueryCallback_chain [of ?res ?act "invoke_chain ?res ?act"]
  show ?thesis
    unfolding chain [THEN conjunct2, THEN conjunct2, rule_format]
    by (simp add: WithChainingCallback_def QueryCallback_ctor_def invoke_chain_def chain [THEN conjunct1, rule_format])
qed

text \<open>
  With at most 256 connections, one of which stays free, \<open>GetFreeConnection\<close> returns after at most 256 probes, with a connection that could be locked.
\<close>

theorem GetFreeConnection_returns:
  assumes "n \<le> 256" "j < n" "\<And>k. free k j"
  shows "\<exists>i k. GetFreeConnection n free = Some (i, k) \<and> k < 256 \<and> i < n \<and> free k i"
proof -
  define K where "K = (if j = 0 then 255 else j - 1)"
  have "Suc K mod 256 mod n = j" using assms(1,2) by (auto simp: K_def)
  then have "\<exists>i k'. free_loop n free 0 0 = Some (i, k') \<and> 0 \<le> k' \<and> k' \<le> K \<and> i < n \<and> free k' i"
    using assms by (intro free_loop_ok) auto
  moreover have "K < 256" using assms(1,2) by (auto simp: K_def)
  ultimately show ?thesis unfolding GetFreeConnection_def by (meson le_less_trans)
qed

theorem GetFreeConnection_returns_witness: "\<exists>i k. GetFreeConnection 4 (\<lambda>k j. j = 2) = Some (i, k) \<and> i = 2"
  using GetFreeConnection_returns [of 4 2 "\<lambda>k j. j = 2"] by auto

text \<open>A chain with callbacks of both kinds can be built, but its next query cannot be set.\<close>

lemma mixed_chain_fails:
  assumes "qc_isPrepared q \<noteq> fst m" "qc_callbacks q = (qc_isPrepared q, cb) # rest" "Option.bind (qc_future q) res = Some r" "act cb r s = (Some m, s')"
  shows "QueryCallback_InvokeIfReady res act q s = None"
  using assms by (simp add: QueryCallback_InvokeIfReady_def SetNextQuery_def)

end
