(* ===== verification/SpinLock.thy ===== *)
theory SpinLock
  imports Prelude
begin

text \<open>
  The spin lock of \<^verbatim>\<open>atomic_lock/spinlock.h\<close> in its two forms without \<open>pthread\<close> (that of \<^verbatim>\<open>timer/spinlock.h\<close> is the first): \<open>spinlock_lock\<close> repeats the
  exchange, or, with \<open>ttas\<close>, waits in between until it has read 0. Every access to the lock is one step of its thread. A
  thread that has the lock may increment a counter with a separate load and store, which stands for the data a lock protects.
\<close>

section \<open>Model\<close>

datatype spin_pc = Idle | At_exchange | At_load | Try_load | Try_exchange | Holding | Has_read nat

record 't spin =
  sl_lock :: int
  sl_pc :: "'t \<Rightarrow> spin_pc"
  sl_data :: nat
  sl_done :: nat

definition spinlock_init :: "'t spin" where
  "spinlock_init = \<lparr>sl_lock = 0, sl_pc = (\<lambda>_. Idle), sl_data = 0, sl_done = 0\<rparr>"

text \<open>\<open>atomic_test_and_set_\<close>: the old value is returned.\<close>

definition atomic_test_and_set :: "'t spin \<Rightarrow> int \<times> 't spin" where
  "atomic_test_and_set s = (sl_lock s, s\<lparr>sl_lock := 1\<rparr>)"

definition spin_goto :: "'t \<Rightarrow> spin_pc \<Rightarrow> 't spin \<Rightarrow> 't spin" where
  "spin_goto t pc s = s\<lparr>sl_pc := (sl_pc s)(t := pc)\<rparr>"

definition spinlock_lock_exchange :: "bool \<Rightarrow> 't \<Rightarrow> 't spin \<Rightarrow> 't spin" where
  "spinlock_lock_exchange ttas t s =
     (let (old, s) = atomic_test_and_set s in
      spin_goto t (if old = 0 then Holding else if ttas then At_load else At_exchange) s)"

definition spinlock_lock_load :: "'t \<Rightarrow> 't spin \<Rightarrow> 't spin" where
  "spinlock_lock_load t s = spin_goto t (if sl_lock s \<noteq> 0 then At_load else At_exchange) s"

text \<open>\<open>spinlock_trylock\<close> returns to \<open>Idle\<close> with 0 and to \<open>Holding\<close> with 1.\<close>

definition spinlock_trylock_load :: "'t \<Rightarrow> 't spin \<Rightarrow> 't spin" where
  "spinlock_trylock_load t s = spin_goto t (if sl_lock s = 0 then Try_exchange else Idle) s"

definition spinlock_trylock_exchange :: "'t \<Rightarrow> 't spin \<Rightarrow> 't spin" where
  "spinlock_trylock_exchange t s =
     (let (old, s) = atomic_test_and_set s in spin_goto t (if old = 0 then Holding else Idle) s)"

definition spinlock_unlock :: "'t \<Rightarrow> 't spin \<Rightarrow> 't spin" where
  "spinlock_unlock t s = spin_goto t Idle (s\<lparr>sl_lock := 0\<rparr>)"

inductive spin_step :: "bool \<Rightarrow> 't spin \<Rightarrow> 't spin \<Rightarrow> bool" for ttas where
  call_lock: "sl_pc s t = Idle \<Longrightarrow> spin_step ttas s (spin_goto t At_exchange s)"
| lock_exchange: "sl_pc s t = At_exchange \<Longrightarrow> spin_step ttas s (spinlock_lock_exchange ttas t s)"
| lock_load: "sl_pc s t = At_load \<Longrightarrow> spin_step ttas s (spinlock_lock_load t s)"
| call_trylock: "sl_pc s t = Idle \<Longrightarrow> spin_step ttas s (spin_goto t (if ttas then Try_load else Try_exchange) s)"
| trylock_load: "sl_pc s t = Try_load \<Longrightarrow> spin_step ttas s (spinlock_trylock_load t s)"
| trylock_exchange: "sl_pc s t = Try_exchange \<Longrightarrow> spin_step ttas s (spinlock_trylock_exchange t s)"
| data_read: "sl_pc s t = Holding \<Longrightarrow> spin_step ttas s (spin_goto t (Has_read (sl_data s)) s)"
| data_write: "sl_pc s t = Has_read n \<Longrightarrow> spin_step ttas s (spin_goto t Holding (s\<lparr>sl_data := n + 1, sl_done := sl_done s + 1\<rparr>))"
| unlock: "sl_pc s t = Holding \<Longrightarrow> spin_step ttas s (spinlock_unlock t s)"

inductive_cases spin_stepE: "spin_step ttas s s'"

section \<open>Mutual exclusion\<close>

fun inside :: "spin_pc \<Rightarrow> bool" where
  "inside Holding \<longleftrightarrow> True"
| "inside (Has_read n) \<longleftrightarrow> True"
| "inside _ \<longleftrightarrow> False"

definition spin_inv :: "'t spin \<Rightarrow> bool" where
  "spin_inv s \<longleftrightarrow> (\<forall>t u. inside (sl_pc s t) \<longrightarrow> inside (sl_pc s u) \<longrightarrow> t = u) \<and>
     sl_lock s = (if \<exists>t. inside (sl_pc s t) then 1 else 0) \<and>
     (\<forall>t n. sl_pc s t = Has_read n \<longrightarrow> n = sl_data s) \<and> sl_data s = sl_done s"

lemmas spin_defs = spin_goto_def spinlock_lock_exchange_def spinlock_lock_load_def spinlock_trylock_load_def spinlock_trylock_exchange_def
  spinlock_unlock_def atomic_test_and_set_def Let_def

lemma spin_goto_outside:
  assumes "spin_inv s" "\<not> inside (sl_pc s t)" "\<not> inside pc"
  shows "spin_inv (spin_goto t pc s)"
proof -
  have i: "inside (sl_pc (spin_goto t pc s) u) = inside (sl_pc s u)" for u using assms(2,3) by (simp add: spin_goto_def)
  have h: "sl_pc (spin_goto t pc s) u = Has_read n \<Longrightarrow> sl_pc s u = Has_read n" for u n
    using assms(3) by (cases "u = t") (auto simp: spin_goto_def)
  have f: "sl_lock (spin_goto t pc s) = sl_lock s" "sl_data (spin_goto t pc s) = sl_data s" "sl_done (spin_goto t pc s) = sl_done s"
    by (simp_all add: spin_goto_def)
  show ?thesis using assms(1) h unfolding spin_inv_def i f by blast
qed

lemma spin_exchange:
  assumes "spin_inv s" "\<not> inside (sl_pc s t)" "\<not> inside pc"
  shows "spin_inv (spin_goto t (if sl_lock s = 0 then Holding else pc) (s\<lparr>sl_lock := 1\<rparr>))"
proof (cases "sl_lock s = 0")
  case True
  then have out: "\<not> inside (sl_pc s u)" for u using assms(1) by (auto simp: spin_inv_def split: if_splits)
  then have "\<And>u n. sl_pc s u \<noteq> Has_read n" by (metis inside.simps(2))
  then show ?thesis using True out assms(1) by (auto simp: spin_inv_def spin_goto_def)
next
  case False
  then have "s\<lparr>sl_lock := 1\<rparr> = s" using assms(1) by (auto simp: spin_inv_def split: if_splits)
  then show ?thesis using False spin_goto_outside [OF assms] by simp
qed

lemma spin_inv_step: "spin_step ttas s s' \<Longrightarrow> spin_inv s \<Longrightarrow> spin_inv s'"
proof (induction rule: spin_step.induct)
  case (lock_exchange s t)
  then show ?case using spin_exchange [of s t "if ttas then At_load else At_exchange"] by (simp add: spin_defs)
next
  case (trylock_exchange s t)
  then show ?case using spin_exchange [of s t Idle] by (simp add: spin_defs)
next
  case (data_read s t)
  then have "inside (sl_pc s t)" by simp
  then have "inside (sl_pc s u) = (u = t)" for u using data_read(2) unfolding spin_inv_def by metis
  then show ?case using data_read by (auto simp: spin_inv_def spin_goto_def)
next
  case (data_write s t n)
  then have "inside (sl_pc s t)" by simp
  then have "inside (sl_pc s u) = (u = t)" for u using data_write(2) unfolding spin_inv_def by metis
  then show ?case using data_write by (auto simp: spin_inv_def spin_goto_def) (metis inside.simps(2))+
next
  case (unlock s t)
  then have "inside (sl_pc s t)" by simp
  then have "inside (sl_pc s u) = (u = t)" for u using unlock(2) unfolding spin_inv_def by metis
  then show ?case using unlock by (auto simp: spin_inv_def spin_defs)
qed (auto intro!: spin_goto_outside simp: spinlock_lock_load_def spinlock_trylock_load_def)

lemma spin_inv_init: "spin_inv spinlock_init"
  by (simp add: spin_inv_def spinlock_init_def)

lemma spin_reachable_inv: "(spin_step ttas)\<^sup>*\<^sup>* spinlock_init s \<Longrightarrow> spin_inv s"
  by (induction rule: rtranclp_induct) (auto intro: spin_inv_step spin_inv_init)

section \<open>Property\<close>

text \<open>
  C30: In every interleaving at most one thread is between \<open>spinlock_lock\<close> (or a successful \<open>spinlock_trylock\<close>) and \<open>spinlock_unlock\<close>, so that no increment of the protected
  counter is lost; and while no thread is there, a thread that waits gets the lock with its next exchange, which it reaches after one load.
\<close>

theorem spinlock_mutual_exclusion:
  assumes "(spin_step ttas)\<^sup>*\<^sup>* spinlock_init s"
  shows "(\<forall>t u. inside (sl_pc s t) \<longrightarrow> inside (sl_pc s u) \<longrightarrow> t = u) \<and> sl_data s = sl_done s \<and>
    ((\<forall>t. \<not> inside (sl_pc s t)) \<longrightarrow> (\<forall>t. sl_pc (spinlock_lock_exchange ttas t s) t = Holding \<and>
       sl_pc (spinlock_lock_exchange ttas t (spinlock_lock_load t s)) t = Holding \<and> sl_pc (spinlock_trylock_exchange t (spinlock_trylock_load t s)) t = Holding))"
proof -
  have inv: "spin_inv s" by (rule spin_reachable_inv [OF assms])
  have "sl_lock s = 0" if "\<forall>t. \<not> inside (sl_pc s t)" using inv that by (simp add: spin_inv_def)
  then show ?thesis using inv unfolding spin_inv_def by (auto simp: spin_defs)
qed

lemma spin_example: "(spin_step True)\<^sup>*\<^sup>* spinlock_init (spin_goto (2 :: nat) At_load (spin_goto 1 Holding (spinlock_init\<lparr>sl_lock := 1\<rparr>)))"
proof -
  let ?a = "spin_goto (1 :: nat) At_exchange spinlock_init" and ?b = "spin_goto (1 :: nat) Holding (spinlock_init\<lparr>sl_lock := 1\<rparr>)"
  have "spin_step True spinlock_init ?a" by (rule spin_step.call_lock) (simp add: spinlock_init_def)
  moreover have "spin_step True ?a ?b"
    using spin_step.lock_exchange [of ?a 1 True] by (simp add: spin_defs spinlock_init_def)
  moreover have "spin_step True ?b (spin_goto 2 At_exchange ?b)" by (rule spin_step.call_lock) (simp add: spinlock_init_def spin_goto_def)
  moreover have "spin_step True (spin_goto 2 At_exchange ?b) (spin_goto 2 At_load ?b)"
    using spin_step.lock_exchange [of "spin_goto 2 At_exchange ?b" 2 True] by (simp add: spin_defs spinlock_init_def)
  ultimately show ?thesis by (meson converse_rtranclp_into_rtranclp rtranclp.rtrancl_refl)
qed

theorem spinlock_mutual_exclusion_witness:
  "\<exists>s :: nat spin. (spin_step True)\<^sup>*\<^sup>* spinlock_init s \<and> sl_pc s 1 = Holding \<and> sl_pc s 2 = At_load \<and> (\<forall>u. inside (sl_pc s u) \<longrightarrow> u = 1)"
proof -
  let ?s = "spin_goto (2 :: nat) At_load (spin_goto 1 Holding (spinlock_init\<lparr>sl_lock := 1\<rparr>))"
  have "sl_pc ?s 1 = Holding" "sl_pc ?s 2 = At_load" by (simp_all add: spin_goto_def)
  then show ?thesis using spinlock_mutual_exclusion [OF spin_example] spin_example by (intro exI [of _ ?s]) (metis inside.simps(1))
qed

end
