(* ===== verification/RdbSkipList.thy ===== *)
theory RdbSkipList
  imports Prelude
begin

text \<open>
  The skip list of \<^verbatim>\<open>atomic_lock/skiplist.h\<close>: one writer at a time inserts, readers search without a
  lock. Nodes are in a store by address (0 is null), each with the array of its links, whose cells
  are indeterminate until they are set. \<open>None\<close> stands for undefined behaviour, for a failed
  assertion and for a loop that does not return. The comparator is a parameter of the template and
  an argument of the definitions; the numbers drawn by \<open>RANDOM->Next()\<close> are the list of values it
  returns. This theory has the operations and what they do when they run alone.
\<close>

section \<open>Model\<close>

record 'k Node =
  nd_key :: 'k
  nd_next :: "ptr option list"

record 'k SkipList =
  kMaxHeight :: nat
  kBranching :: nat
  kScaledInverseBranching :: u32
  sl_head :: ptr
  sl_max_height :: nat
  sl_prev :: "ptr option list"
  sl_prev_height :: nat
  sl_heap :: "ptr \<Rightarrow> 'k Node option"
  sl_brk :: ptr

type_synonym 'k comparator = "'k \<Rightarrow> 'k \<Rightarrow> int"

definition check :: "bool \<Rightarrow> unit option" where
  "check b = (if b then Some () else None)"

subsection \<open>Nodes\<close>

definition Node_key :: "'k SkipList \<Rightarrow> ptr \<Rightarrow> 'k option" where
  "Node_key z x = map_option nd_key (sl_heap z x)"

definition Node_Next :: "'k SkipList \<Rightarrow> ptr \<Rightarrow> nat \<Rightarrow> ptr option" where
  "Node_Next z x n = do { nd \<leftarrow> sl_heap z x; aget (nd_next nd) n }"

definition Node_SetNext :: "ptr \<Rightarrow> nat \<Rightarrow> ptr \<Rightarrow> 'k SkipList \<Rightarrow> 'k SkipList option" where
  "Node_SetNext x n y z =
     do { nd \<leftarrow> sl_heap z x;
          l \<leftarrow> aset (nd_next nd) n y;
          Some (z\<lparr>sl_heap := (sl_heap z)(x \<mapsto> nd\<lparr>nd_next := l\<rparr>)\<rparr>) }"

definition NewNode :: "'k \<Rightarrow> nat \<Rightarrow> 'k SkipList \<Rightarrow> ptr \<times> 'k SkipList" where
  "NewNode key height z =
     (let p = sl_brk z in
      (p, z\<lparr>sl_brk := p + 1, sl_heap := (sl_heap z)(p \<mapsto> \<lparr>nd_key = key, nd_next = replicate height None\<rparr>)\<rparr>))"

definition KeyIsAfterNode :: "'k comparator \<Rightarrow> 'k SkipList \<Rightarrow> 'k \<Rightarrow> ptr \<Rightarrow> bool option" where
  "KeyIsAfterNode compare z key n =
     (if n = 0 then Some False else do { k \<leftarrow> Node_key z n; Some (compare k key < 0) })"

subsection \<open>Searches\<close>

text \<open>A loop given by its body: \<open>Inl\<close> goes round again, \<open>Inr\<close> returns.\<close>

partial_function (option) loop_until :: "('s \<Rightarrow> ('s + 'r) option) \<Rightarrow> 's \<Rightarrow> 'r option" where
  "loop_until body s = do { r \<leftarrow> body s; case r of Inl s' \<Rightarrow> loop_until body s' | Inr v \<Rightarrow> Some v }"

declare loop_until.simps [code]

text \<open>The assertions both searches make: the list is sorted, and the search has not overshot.\<close>

definition search_asserts :: "'k comparator \<Rightarrow> 'k SkipList \<Rightarrow> 'k \<Rightarrow> ptr \<Rightarrow> ptr \<Rightarrow> unit option" where
  "search_asserts compare z key x next =
     do { _ \<leftarrow> (if x = sl_head z \<or> next = 0 then Some ()
                else do { k \<leftarrow> Node_key z next; b \<leftarrow> KeyIsAfterNode compare z k x; check b });
          if x = sl_head z then Some () else do { b \<leftarrow> KeyIsAfterNode compare z key x; check b } }"

definition FindGreaterOrEqual_step ::
  "'k comparator \<Rightarrow> 'k SkipList \<Rightarrow> 'k \<Rightarrow> ptr \<times> nat \<times> ptr \<Rightarrow> ((ptr \<times> nat \<times> ptr) + ptr) option" where
  "FindGreaterOrEqual_step compare z key = (\<lambda>(x, level, last_bigger).
     do { _ \<leftarrow> check (x \<noteq> 0);
          next \<leftarrow> Node_Next z x level;
          _ \<leftarrow> search_asserts compare z key x next;
          c \<leftarrow> (if next = 0 \<or> next = last_bigger then Some 1
                else do { k \<leftarrow> Node_key z next; Some (compare k key) });
          Some (if c = 0 \<or> (c > 0 \<and> level = 0) then Inr next
                else if c < 0 then Inl (next, level, last_bigger)
                else Inl (x, level - 1, next)) })"

definition FindGreaterOrEqual :: "'k comparator \<Rightarrow> 'k SkipList \<Rightarrow> 'k \<Rightarrow> ptr option" where
  "FindGreaterOrEqual compare z key =
     loop_until (FindGreaterOrEqual_step compare z key) (sl_head z, sl_max_height z - 1, 0)"

text \<open>The array \<open>prev\<close> is an optional argument.\<close>

definition FindLessThan_step ::
  "'k comparator \<Rightarrow> 'k SkipList \<Rightarrow> 'k \<Rightarrow> ptr \<times> nat \<times> ptr \<times> ptr option list option \<Rightarrow>
   ((ptr \<times> nat \<times> ptr \<times> ptr option list option) + (ptr \<times> ptr option list option)) option" where
  "FindLessThan_step compare z key = (\<lambda>(x, level, last_not_after, prev).
     do { _ \<leftarrow> check (x \<noteq> 0);
          next \<leftarrow> Node_Next z x level;
          _ \<leftarrow> search_asserts compare z key x next;
          b \<leftarrow> (if next \<noteq> last_not_after then KeyIsAfterNode compare z key next else Some False);
          if b then Some (Inl (next, level, last_not_after, prev))
          else
            do { prev \<leftarrow> (case prev of None \<Rightarrow> Some None | Some p \<Rightarrow> map_option Some (aset p level x));
                 Some (if level = 0 then Inr (x, prev) else Inl (x, level - 1, next, prev)) } })"

definition FindLessThan ::
  "'k comparator \<Rightarrow> 'k SkipList \<Rightarrow> 'k \<Rightarrow> ptr option list option \<Rightarrow> (ptr \<times> ptr option list option) option" where
  "FindLessThan compare z key prev =
     loop_until (FindLessThan_step compare z key) (sl_head z, sl_max_height z - 1, 0, prev)"

definition FindLast_step :: "'k SkipList \<Rightarrow> ptr \<times> nat \<Rightarrow> ((ptr \<times> nat) + ptr) option" where
  "FindLast_step z = (\<lambda>(x, level).
     do { next \<leftarrow> Node_Next z x level;
          Some (if next = 0 then (if level = 0 then Inr x else Inl (x, level - 1)) else Inl (next, level)) })"

definition FindLast :: "'k SkipList \<Rightarrow> ptr option" where
  "FindLast z = loop_until (FindLast_step z) (sl_head z, sl_max_height z - 1)"

definition EstimateCount_step ::
  "'k comparator \<Rightarrow> 'k SkipList \<Rightarrow> 'k \<Rightarrow> ptr \<times> nat \<times> u64 \<Rightarrow> ((ptr \<times> nat \<times> u64) + u64) option" where
  "EstimateCount_step compare z key = (\<lambda>(x, level, cnt).
     do { _ \<leftarrow> (if x = sl_head z then Some () else do { k \<leftarrow> Node_key z x; check (compare k key < 0) });
          next \<leftarrow> Node_Next z x level;
          stop \<leftarrow> (if next = 0 then Some True else do { k \<leftarrow> Node_key z next; Some (compare k key \<ge> 0) });
          Some (if stop then (if level = 0 then Inr cnt else Inl (x, level - 1, cnt * of_nat (kBranching z)))
                else Inl (next, level, cnt + 1)) })"

definition EstimateCount :: "'k comparator \<Rightarrow> 'k SkipList \<Rightarrow> 'k \<Rightarrow> u64 option" where
  "EstimateCount compare z key =
     loop_until (EstimateCount_step compare z key) (sl_head z, sl_max_height z - 1, 0)"

definition Contains :: "'k comparator \<Rightarrow> 'k SkipList \<Rightarrow> 'k \<Rightarrow> bool option" where
  "Contains compare z key =
     do { x \<leftarrow> FindGreaterOrEqual compare z key;
          if x \<noteq> 0 then do { k \<leftarrow> Node_key z x; Some (compare key k = 0) } else Some False }"

subsection \<open>Construction and insertion\<close>

definition SkipList_ctor :: "'k \<Rightarrow> int \<Rightarrow> int \<Rightarrow> 'k SkipList option" where
  "SkipList_ctor key0 max_height branching_factor =
     (let m = nat (max_height mod 2 ^ 16); b = nat (branching_factor mod 2 ^ 16) in
      do { _ \<leftarrow> check (b \<noteq> 0);
           let (h, z) = NewNode key0 (nat max_height)
               \<lparr>kMaxHeight = m, kBranching = b, kScaledInverseBranching = 0xFFFFFFFF div of_nat b, sl_head = 0,
                sl_max_height = 1, sl_prev = replicate m None, sl_prev_height = 1, sl_heap = (\<lambda>_. None), sl_brk = 1\<rparr> in
           do { _ \<leftarrow> check (max_height > 0 \<and> int m = max_height mod 2 ^ 32);
                _ \<leftarrow> check (branching_factor > 0 \<and> int b = branching_factor mod 2 ^ 32);
                _ \<leftarrow> check (kScaledInverseBranching z > 0);
                fold (\<lambda>i z. do { z \<leftarrow> z;
                                 z \<leftarrow> Node_SetNext h i 0 z;
                                 p \<leftarrow> aset (sl_prev z) i h;
                                 Some (z\<lparr>sl_prev := p\<rparr>) })
                     [0..<m] (Some (z\<lparr>sl_head := h\<rparr>)) } })"

text \<open>The loop of \<open>RandomHeight\<close>: the height and the numbers not used.\<close>

fun random_height_loop :: "nat \<Rightarrow> u32 \<Rightarrow> nat \<Rightarrow> u32 list \<Rightarrow> (nat \<times> u32 list) option" where
  "random_height_loop m s height [] = (if height < m then None else Some (height, []))"
| "random_height_loop m s height (r # rs) =
     (if height < m then (if r < s then random_height_loop m s (height + 1) rs else Some (height, rs))
      else Some (height, r # rs))"

definition RandomHeight :: "'k SkipList \<Rightarrow> u32 list \<Rightarrow> (nat \<times> u32 list) option" where
  "RandomHeight z rs =
     do { (height, rs) \<leftarrow> random_height_loop (kMaxHeight z) (kScaledInverseBranching z) 1 rs;
          _ \<leftarrow> check (height > 0);
          _ \<leftarrow> check (height \<le> kMaxHeight z);
          Some (height, rs) }"

text \<open>The test for the fast path of \<open>Insert\<close>, and the array \<open>prev_\<close> on either path.\<close>

definition Insert_fast :: "'k comparator \<Rightarrow> 'k \<Rightarrow> 'k SkipList \<Rightarrow> bool option" where
  "Insert_fast compare key z =
     do { p \<leftarrow> aget (sl_prev z) 0;
          n \<leftarrow> Node_Next z p 0;
          a \<leftarrow> KeyIsAfterNode compare z key n;
          if a then Some False else if p = sl_head z then Some True else KeyIsAfterNode compare z key p }"

definition Insert_prev :: "'k comparator \<Rightarrow> 'k \<Rightarrow> 'k SkipList \<Rightarrow> 'k SkipList option" where
  "Insert_prev compare key z =
     do { fast \<leftarrow> Insert_fast compare key z;
          if fast then
            do { p \<leftarrow> aget (sl_prev z) 0;
                 _ \<leftarrow> check (p \<noteq> sl_head z \<or> (sl_prev_height z = 1 \<and> sl_max_height z = 1));
                 prev \<leftarrow> fold (\<lambda>i prev. do { prev \<leftarrow> prev; v \<leftarrow> aget prev 0; aset prev i v })
                            [1..<sl_prev_height z] (Some (sl_prev z));
                 Some (z\<lparr>sl_prev := prev\<rparr>) }
          else
            do { (x, prev) \<leftarrow> FindLessThan compare z key (Some (sl_prev z));
                 prev \<leftarrow> prev;
                 Some (z\<lparr>sl_prev := prev\<rparr>) } }"

definition Insert_no_duplicate :: "'k comparator \<Rightarrow> 'k \<Rightarrow> 'k SkipList \<Rightarrow> unit option" where
  "Insert_no_duplicate compare key z =
     do { p \<leftarrow> aget (sl_prev z) 0;
          n \<leftarrow> Node_Next z p 0;
          if n = 0 then Some () else do { k \<leftarrow> Node_key z n; check (compare key k \<noteq> 0) } }"

definition Insert_raise :: "nat \<Rightarrow> 'k SkipList \<Rightarrow> 'k SkipList option" where
  "Insert_raise height z =
     (if height > sl_max_height z then
        do { prev \<leftarrow> fold (\<lambda>i prev. do { prev \<leftarrow> prev; aset prev i (sl_head z) })
                        [sl_max_height z..<height] (Some (sl_prev z));
             Some (z\<lparr>sl_prev := prev, sl_max_height := height\<rparr>) }
      else Some z)"

text \<open>The two stores of the linking loop, and the loop from level \<open>i\<close> on.\<close>

definition Insert_link1 :: "ptr \<Rightarrow> nat \<Rightarrow> 'k SkipList \<Rightarrow> 'k SkipList option" where
  "Insert_link1 x i z = do { p \<leftarrow> aget (sl_prev z) i; n \<leftarrow> Node_Next z p i; Node_SetNext x i n z }"

definition Insert_link2 :: "ptr \<Rightarrow> nat \<Rightarrow> 'k SkipList \<Rightarrow> 'k SkipList option" where
  "Insert_link2 x i z = do { p \<leftarrow> aget (sl_prev z) i; Node_SetNext p i x z }"

fun Insert_link :: "ptr \<Rightarrow> nat \<Rightarrow> nat \<Rightarrow> 'k SkipList \<Rightarrow> 'k SkipList option" where
  "Insert_link x i 0 z = Some z"
| "Insert_link x i (Suc k) z =
     do { z \<leftarrow> Insert_link1 x i z; z \<leftarrow> Insert_link2 x i z; Insert_link x (Suc i) k z }"

text \<open>Everything before the linking loop, and the two assignments behind it.\<close>

definition Insert_begin ::
  "'k comparator \<Rightarrow> 'k \<Rightarrow> u32 list \<Rightarrow> 'k SkipList \<Rightarrow> (ptr \<times> nat \<times> u32 list \<times> 'k SkipList) option" where
  "Insert_begin compare key rs z =
     do { z \<leftarrow> Insert_prev compare key z;
          _ \<leftarrow> Insert_no_duplicate compare key z;
          (height, rs) \<leftarrow> RandomHeight z rs;
          z \<leftarrow> Insert_raise height z;
          let (x, z) = NewNode key height z in Some (x, height, rs, z) }"

definition Insert_end :: "ptr \<Rightarrow> nat \<Rightarrow> 'k SkipList \<Rightarrow> 'k SkipList option" where
  "Insert_end x height z =
     do { prev \<leftarrow> aset (sl_prev z) 0 x; Some (z\<lparr>sl_prev := prev, sl_prev_height := height\<rparr>) }"

definition Insert :: "'k comparator \<Rightarrow> 'k \<Rightarrow> u32 list \<times> 'k SkipList \<Rightarrow> (u32 list \<times> 'k SkipList) option" where
  "Insert compare key = (\<lambda>(rs, z).
     do { (x, height, rs, z) \<leftarrow> Insert_begin compare key rs z;
          z \<leftarrow> Insert_link x 0 height z;
          z \<leftarrow> Insert_end x height z;
          Some (rs, z) })"

subsection \<open>Iterator\<close>

text \<open>The member \<open>node_\<close>; the list is the argument of the operations.\<close>

type_synonym iter = ptr

definition Iterator_SetList :: iter where "Iterator_SetList = 0"

definition Iterator_Valid :: "iter \<Rightarrow> bool" where "Iterator_Valid it \<longleftrightarrow> it \<noteq> 0"

definition Iterator_key :: "'k SkipList \<Rightarrow> iter \<Rightarrow> 'k option" where
  "Iterator_key z it = do { _ \<leftarrow> check (Iterator_Valid it); Node_key z it }"

definition Iterator_Next :: "'k SkipList \<Rightarrow> iter \<Rightarrow> iter option" where
  "Iterator_Next z it = do { _ \<leftarrow> check (Iterator_Valid it); Node_Next z it 0 }"

definition Iterator_Prev :: "'k comparator \<Rightarrow> 'k SkipList \<Rightarrow> iter \<Rightarrow> iter option" where
  "Iterator_Prev compare z it =
     do { _ \<leftarrow> check (Iterator_Valid it);
          k \<leftarrow> Node_key z it;
          (x, _) \<leftarrow> FindLessThan compare z k None;
          Some (if x = sl_head z then 0 else x) }"

definition Iterator_Seek :: "'k comparator \<Rightarrow> 'k SkipList \<Rightarrow> 'k \<Rightarrow> iter option" where
  "Iterator_Seek compare z target = FindGreaterOrEqual compare z target"

definition Iterator_SeekToFirst :: "'k SkipList \<Rightarrow> iter option" where
  "Iterator_SeekToFirst z = Node_Next z (sl_head z) 0"

definition Iterator_SeekToLast :: "'k SkipList \<Rightarrow> iter option" where
  "Iterator_SeekToLast z = do { x \<leftarrow> FindLast z; Some (if x = sl_head z then 0 else x) }"

definition SeekForPrev_step :: "'k comparator \<Rightarrow> 'k SkipList \<Rightarrow> 'k \<Rightarrow> iter \<Rightarrow> (iter + iter) option" where
  "SeekForPrev_step compare z target it =
     (if Iterator_Valid it then
        do { k \<leftarrow> Iterator_key z it;
             if compare target k < 0 then map_option Inl (Iterator_Prev compare z it) else Some (Inr it) }
      else Some (Inr it))"

definition Iterator_SeekForPrev :: "'k comparator \<Rightarrow> 'k SkipList \<Rightarrow> 'k \<Rightarrow> iter option" where
  "Iterator_SeekForPrev compare z target =
     do { it \<leftarrow> Iterator_Seek compare z target;
          it \<leftarrow> (if Iterator_Valid it then Some it else Iterator_SeekToLast z);
          loop_until (SeekForPrev_step compare z target) it }"

subsection \<open>The test program\<close>

text \<open>\<open>a - b\<close> of two \<open>int\<close>s, with the wrap-around of the machine where it overflows.\<close>

definition IntComparator :: "int comparator" where
  "IntComparator a b = (a - b + 2 ^ 31) mod 2 ^ 32 - 2 ^ 31"

definition dump_step :: "'k SkipList \<Rightarrow> iter \<times> 'k list \<Rightarrow> ((iter \<times> 'k list) + 'k list) option" where
  "dump_step z = (\<lambda>(it, out).
     if Iterator_Valid it then
       do { k \<leftarrow> Iterator_key z it; it \<leftarrow> Iterator_Next z it; Some (Inl (it, out @ [k])) }
     else Some (Inr out))"

definition dump :: "'k SkipList \<Rightarrow> 'k list option" where
  "dump z = do { it \<leftarrow> Iterator_SeekToFirst z; loop_until (dump_step z) (it, []) }"

definition worker_write :: "'k comparator \<Rightarrow> 'k list \<Rightarrow> u32 list \<times> 'k SkipList \<Rightarrow> (u32 list \<times> 'k SkipList) option" where
  "worker_write compare keys s = fold (\<lambda>k s. do { s \<leftarrow> s; Insert compare k s }) keys (Some s)"


section \<open>Representation\<close>

definition first :: "ptr list \<Rightarrow> ptr" where
  "first xs = (case xs of [] \<Rightarrow> 0 | x # _ \<Rightarrow> x)"

lemma first_simps [simp]: "first [] = 0" "first (x # xs) = x"
  by (simp_all add: first_def)

text \<open>Links through the nodes of a list, the last one null.\<close>

fun chain :: "(ptr \<Rightarrow> ptr option) \<Rightarrow> ptr list \<Rightarrow> bool" where
  "chain f [] \<longleftrightarrow> True"
| "chain f (x # xs) \<longleftrightarrow> f x = Some (first xs) \<and> chain f xs"

definition nkey :: "'k SkipList \<Rightarrow> ptr \<Rightarrow> 'k" where
  "nkey z p = nd_key (the (sl_heap z p))"

definition nheight :: "'k SkipList \<Rightarrow> ptr \<Rightarrow> nat" where
  "nheight z p = (case sl_heap z p of None \<Rightarrow> 0 | Some nd \<Rightarrow> length (nd_next nd))"

definition keyed :: "'k set \<Rightarrow> 'k SkipList \<Rightarrow> ptr \<Rightarrow> bool" where
  "keyed K z p \<longleftrightarrow> p \<noteq> 0 \<and> p \<noteq> sl_head z \<and> sl_heap z p \<noteq> None \<and> nkey z p \<in> K"

text \<open>The list of every level: linked, strictly sorted, and part of the list below.\<close>

definition sl_levels :: "'k comparator \<Rightarrow> 'k set \<Rightarrow> 'k SkipList \<Rightarrow> (nat \<Rightarrow> ptr list) \<Rightarrow> bool" where
  "sl_levels compare K z lv \<longleftrightarrow>
     0 < sl_head z \<and> 1 \<le> sl_max_height z \<and> sl_max_height z \<le> kMaxHeight z \<and>
     (\<forall>i < kMaxHeight z. chain (\<lambda>x. Node_Next z x i) (sl_head z # lv i) \<and>
        sorted_wrt (\<lambda>p q. compare (nkey z p) (nkey z q) < 0) (lv i) \<and>
        (\<forall>p \<in> set (lv i). keyed K z p)) \<and>
     (\<forall>i. Suc i < kMaxHeight z \<longrightarrow> set (lv (Suc i)) \<subseteq> set (lv i))"

lemma chain_next: "chain f (us @ x # vs) \<Longrightarrow> f x = Some (first vs)"
  by (induction us) auto

lemma chain_cong: "chain f xs \<Longrightarrow> (\<And>x. x \<in> set xs \<Longrightarrow> f x = g x) \<Longrightarrow> chain g xs"
  by (induction xs) auto

lemma first_append: "first (xs @ ys) = (if xs = [] then first ys else first xs)"
  by (cases xs) auto

lemma chain_insert:
  assumes "chain f (us @ p # vs)" "distinct (us @ p # vs)" "x \<notin> set (us @ p # vs)"
    and "g p = Some x" "g x = Some (first vs)" "\<And>y. y \<noteq> p \<Longrightarrow> y \<noteq> x \<Longrightarrow> g y = f y"
  shows "chain g (us @ p # x # vs)"
  using assms
proof (induction us)
  case Nil
  have "f y = g y" if "y \<in> set vs" for y
    using Nil.prems(2,3) that by (intro Nil.prems(6) [symmetric]) auto
  then have "chain g vs" using Nil.prems(1) chain_cong [of f vs g] by simp
  then show ?case using Nil by simp
next
  case (Cons u us)
  then have "chain g (us @ p # x # vs)" by simp
  moreover have "g u = f u" using Cons.prems by (intro Cons.prems(6)) auto
  ultimately show ?case using Cons.prems by (simp add: first_append)
qed

lemma Node_key_keyed: "keyed K z p \<Longrightarrow> Node_key z p = Some (nkey z p)"
  by (auto simp: keyed_def Node_key_def nkey_def)

lemma keyed_nonzero: "keyed K z p \<Longrightarrow> p \<noteq> 0"
  by (simp add: keyed_def)

lemma check_simps [simp]: "check True = Some ()" "check False = None"
  by (simp_all add: check_def)

lemma sl_levels_chain: "sl_levels compare K z lv \<Longrightarrow> i < kMaxHeight z \<Longrightarrow> chain (\<lambda>x. Node_Next z x i) (sl_head z # lv i)"
  and sl_levels_sorted: "sl_levels compare K z lv \<Longrightarrow> i < kMaxHeight z \<Longrightarrow>
    sorted_wrt (\<lambda>p q. compare (nkey z p) (nkey z q) < 0) (lv i)"
  and sl_levels_keyed: "sl_levels compare K z lv \<Longrightarrow> i < kMaxHeight z \<Longrightarrow> p \<in> set (lv i) \<Longrightarrow> keyed K z p"
  and sl_levels_sub: "sl_levels compare K z lv \<Longrightarrow> Suc i < kMaxHeight z \<Longrightarrow> set (lv (Suc i)) \<subseteq> set (lv i)"
  and sl_levels_head: "sl_levels compare K z lv \<Longrightarrow> sl_head z \<noteq> 0"
  by (simp_all add: sl_levels_def)

lemma sl_levels_base:
  assumes "sl_levels compare K z lv" "i < kMaxHeight z"
  shows "set (lv i) \<subseteq> set (lv 0)"
  using assms(2)
proof (induction i)
  case (Suc i)
  then show ?case using sl_levels_sub [OF assms(1), of i] by auto
qed simp

locale key_order =
  fixes compare :: "'k comparator" and K :: "'k set"
  assumes flip: "a \<in> K \<Longrightarrow> b \<in> K \<Longrightarrow> compare a b < 0 \<longleftrightarrow> 0 < compare b a"
    and le_trans: "a \<in> K \<Longrightarrow> b \<in> K \<Longrightarrow> c \<in> K \<Longrightarrow> compare a b \<le> 0 \<Longrightarrow> compare b c \<le> 0 \<Longrightarrow> compare a c \<le> 0"
begin

lemma lt_le_trans: "a \<in> K \<Longrightarrow> b \<in> K \<Longrightarrow> c \<in> K \<Longrightarrow> compare a b < 0 \<Longrightarrow> compare b c \<le> 0 \<Longrightarrow> compare a c < 0"
  by (metis flip le_trans linorder_not_le)

lemma le_lt_trans: "a \<in> K \<Longrightarrow> b \<in> K \<Longrightarrow> c \<in> K \<Longrightarrow> compare a b \<le> 0 \<Longrightarrow> compare b c < 0 \<Longrightarrow> compare a c < 0"
  by (metis flip le_trans linorder_not_le)

lemma refl: "a \<in> K \<Longrightarrow> compare a a = 0"
  by (metis flip linorder_neqE_linordered_idom order_less_asym)

lemma eq_sym: "a \<in> K \<Longrightarrow> b \<in> K \<Longrightarrow> compare a b = 0 \<Longrightarrow> compare b a = 0"
  by (metis flip linorder_neqE_linordered_idom less_irrefl)

abbreviation lt_node :: "'k SkipList \<Rightarrow> 'k \<Rightarrow> ptr \<Rightarrow> bool" where
  "lt_node z t p \<equiv> compare (nkey z p) t < 0"

abbreviation key_sorted :: "'k SkipList \<Rightarrow> ptr list \<Rightarrow> bool" where
  "key_sorted z \<equiv> sorted_wrt (\<lambda>p q. compare (nkey z p) (nkey z q) < 0)"

text \<open>The position of a search is the border between the nodes below the key and the others.\<close>

lemma border:
  assumes "key_sorted z xs" "\<And>p. p \<in> set xs \<Longrightarrow> keyed K z p" "t \<in> K"
    and "sl_head z # xs = us @ x # vs" "x = sl_head z \<or> lt_node z t x" "vs = [] \<or> \<not> lt_node z t (hd vs)"
  shows "dropWhile (lt_node z t) xs = vs \<and> last (sl_head z # takeWhile (lt_node z t) xs) = x"
proof (cases us)
  case Nil
  then show ?thesis using assms by (cases vs) auto
next
  case (Cons u us')
  then have xs: "xs = us' @ x # vs" using assms(4) by simp
  have x: "lt_node z t x" using assms(2,5) xs by (auto simp: keyed_def)
  have "lt_node z t p" if "p \<in> set us'" for p
    using lt_le_trans [of "nkey z p" "nkey z x" t] that x assms(1-3) xs
    by (auto simp: sorted_wrt_append keyed_def)
  then have "\<forall>p \<in> set (us' @ [x]). lt_node z t p" using x by auto
  then show ?thesis using xs assms(6)
    by (cases vs) (auto simp: dropWhile_append takeWhile_append)
qed

lemma border_filter:
  assumes "key_sorted z xs" "\<And>p. p \<in> set xs \<Longrightarrow> keyed K z p" "t \<in> K"
  shows "takeWhile (lt_node z t) xs = filter (lt_node z t) xs \<and>
    dropWhile (lt_node z t) xs = filter (\<lambda>p. \<not> lt_node z t p) xs"
  using assms
proof (induction xs)
  case (Cons x xs)
  have "\<not> lt_node z t p" if "\<not> lt_node z t x" "p \<in> set xs" for p
    using lt_le_trans [of "nkey z x" "nkey z p" t] that Cons.prems by (auto simp: keyed_def)
  then show ?case using Cons by (auto simp: filter_empty_conv intro!: filter_True [symmetric])
qed simp

lemma search_asserts_ok:
  assumes "sl_levels compare K z lv" "l < kMaxHeight z" "sl_head z # lv l = us @ x # vs" "t \<in> K"
    and "x = sl_head z \<or> lt_node z t x"
  shows "search_asserts compare z t x (first vs) = Some ()"
proof (cases "x = sl_head z")
  case False
  then obtain us' where us: "us = sl_head z # us'" using assms(3) by (cases us) auto
  then have xs: "lv l = us' @ x # vs" using assms(3) by simp
  have k: "keyed K z x" using sl_levels_keyed [OF assms(1,2)] xs by simp
  have v: "keyed K z (hd vs) \<and> compare (nkey z x) (nkey z (hd vs)) < 0" if "vs \<noteq> []"
    using sl_levels_keyed [OF assms(1,2)] sl_levels_sorted [OF assms(1,2)] xs that
    by (cases vs) (auto simp: sorted_wrt_append)
  show ?thesis using False k v assms(5) 
    by (cases vs) (auto simp: search_asserts_def KeyIsAfterNode_def Node_key_keyed keyed_nonzero)
qed (simp add: search_asserts_def)

end


section \<open>Searches\<close>

text \<open>Induction along the levels: a search moves to the node behind it or down one level.\<close>

lemma search_induct [consumes 4, case_names step]:
  assumes lv: "sl_levels compare K z lv"
    and "l < kMaxHeight z" "x \<in> set (sl_head z # lv l)" "x = sl_head z \<or> Q x"
    and step: "\<And>l us x vs. l < kMaxHeight z \<Longrightarrow> sl_head z # lv l = us @ x # vs \<Longrightarrow> x = sl_head z \<or> Q x \<Longrightarrow>
      (\<And>v vs'. vs = v # vs' \<Longrightarrow> Q v \<Longrightarrow> P v l) \<Longrightarrow> (\<And>l'. l = Suc l' \<Longrightarrow> P x l') \<Longrightarrow> P x l"
  shows "P x l"
proof -
  have "l < kMaxHeight z \<Longrightarrow> sl_head z # lv l = us @ x # vs \<Longrightarrow> x = sl_head z \<or> Q x \<Longrightarrow> P x l" for us vs
  proof (induction l arbitrary: us x vs)
    case (0 us x vs)
    then show ?case
    proof (induction vs arbitrary: us x)
      case (Cons v vs)
      then show ?case using step [of 0 us x "v # vs"] Cons.IH [of "us @ [x]" v] by auto
    qed (use step [of 0] in auto)
  next
    case (Suc l us x vs)
    have down: "P x l" if "x \<in> set (sl_head z # lv (Suc l))" "x = sl_head z \<or> Q x" for x
    proof -
      have "x \<in> set (sl_head z # lv l)" using that(1) sl_levels_sub [OF lv Suc.prems(1)] by auto
      then show ?thesis using Suc.IH [OF _ _ that(2)] Suc.prems(1) by (metis Suc_lessD split_list)
    qed
    show ?case using Suc.prems
    proof (induction vs arbitrary: us x)
      case Nil
      then show ?case using step [of "Suc l" us x "[]"] down [of x] by auto
    next
      case (Cons v vs)
      then show ?case using step [of "Suc l" us x "v # vs"] Cons.IH [of "us @ [x]" v] down [of x] by auto
    qed
  qed
  then show ?thesis using assms(2-4) split_list by metis
qed

context key_order
begin

text \<open>One round of \<open>FindGreaterOrEqual\<close> at node \<open>x\<close> of a level, with the nodes \<open>vs\<close> behind it.\<close>

definition bigger_ok :: "'k SkipList \<Rightarrow> 'k \<Rightarrow> ptr \<Rightarrow> bool" where
  "bigger_ok z t b \<longleftrightarrow> b = 0 \<or> keyed K z b \<and> 0 < compare (nkey z b) t"

lemma equal_is_first:
  assumes "sl_levels compare K z lv" "l < kMaxHeight z" "v \<in> set (lv l)" "compare (nkey z v) t = 0" "t \<in> K"
  shows "first (dropWhile (lt_node z t) (lv 0)) = v"
proof -
  have M: "0 < kMaxHeight z" using assms(2) by simp
  obtain us vs where xs: "lv 0 = us @ v # vs"
    using sl_levels_base [OF assms(1,2)] assms(3) by (meson split_list subsetD)
  have kv: "nkey z v \<in> K" using sl_levels_keyed [OF assms(1,2,3)] by (simp add: keyed_def)
  have "lt_node z t p" if "p \<in> set us" for p
    using lt_le_trans [of "nkey z p" "nkey z v" t] sl_levels_keyed [OF assms(1) M] sl_levels_sorted [OF assms(1) M]
      that xs kv assms(4,5) by (auto simp: sorted_wrt_append keyed_def)
  then show ?thesis using xs assms(4) by (simp add: dropWhile_append)
qed

lemma FindGreaterOrEqual_step_cases:
  assumes lv: "sl_levels compare K z lv" and l: "l < kMaxHeight z" and xs: "sl_head z # lv l = us @ x # vs"
    and t: "t \<in> K" and x: "x = sl_head z \<or> lt_node z t x" and b: "bigger_ok z t b"
  obtains "FindGreaterOrEqual_step compare z t (x, l, b) = Some (Inr (first (dropWhile (lt_node z t) (lv 0))))"
  | v vs' where "vs = v # vs'" "lt_node z t v" "FindGreaterOrEqual_step compare z t (x, l, b) = Some (Inl (v, l, b))"
  | "0 < l" "bigger_ok z t (first vs)" "FindGreaterOrEqual_step compare z t (x, l, b) = Some (Inl (x, l - 1, first vs))"
proof -
  have n: "Node_Next z x l = Some (first vs)"
    using chain_next sl_levels_chain [OF lv l] xs by fastforce
  have x0: "0 < x"
    using xs sl_levels_head [OF lv] sl_levels_keyed [OF lv l] by (cases us) (auto simp: keyed_def)
  note facts = n x0 search_asserts_ok [OF lv l xs t x]
  have kv: "keyed K z (hd vs) \<and> hd vs \<in> set (lv l)" if "vs \<noteq> []"
    using that xs sl_levels_keyed [OF lv l] by (cases us; cases vs) auto
  have dw: "dropWhile (lt_node z t) (lv 0) = vs" if "l = 0" "vs = [] \<or> \<not> lt_node z t (hd vs)"
    using border [OF sl_levels_sorted [OF lv l] sl_levels_keyed [OF lv l] t xs x that(2)] that(1) by simp
  show thesis
  proof (cases vs)
    case Nil
    then have "FindGreaterOrEqual_step compare z t (x, l, b) = Some (if l = 0 then Inr 0 else Inl (x, l - 1, 0))"
      using facts by (simp add: FindGreaterOrEqual_step_def)
    then show thesis
      using that(1,3) dw Nil by (cases "l = 0") (auto simp: bigger_ok_def)
  next
    case (Cons v vs')
    then have k: "keyed K z v" "v \<in> set (lv l)" "v \<noteq> 0" using kv by (auto simp: keyed_def)
    consider "lt_node z t v" | "compare (nkey z v) t = 0" | "0 < compare (nkey z v) t" by linarith
    then show thesis
    proof cases
      case 1
      then have "v \<noteq> b" using b k(3) by (auto simp: bigger_ok_def)
      then have "FindGreaterOrEqual_step compare z t (x, l, b) = Some (Inl (v, l, b))"
        using 1 Cons k facts by (simp add: FindGreaterOrEqual_step_def Node_key_keyed)
      then show thesis using 1 Cons by (intro that(2))
    next
      case 2
      then have "v \<noteq> b" using b k(3) by (auto simp: bigger_ok_def)
      then have "FindGreaterOrEqual_step compare z t (x, l, b) = Some (Inr v)"
        using 2 Cons k facts by (simp add: FindGreaterOrEqual_step_def Node_key_keyed)
      then show thesis using equal_is_first [OF lv l k(2) 2 t] by (intro that(1)) simp
    next
      case 3
      then have "FindGreaterOrEqual_step compare z t (x, l, b) = Some (if l = 0 then Inr v else Inl (x, l - 1, v))"
        using Cons k facts by (simp add: FindGreaterOrEqual_step_def Node_key_keyed)
      then show thesis using that(1,3) Cons k 3 dw by (cases "l = 0") (auto simp: bigger_ok_def)
    qed
  qed
qed

lemma FindGreaterOrEqual_loop:
  assumes lv: "sl_levels compare K z lv" and t: "t \<in> K"
    and "l < kMaxHeight z" "x \<in> set (sl_head z # lv l)" "x = sl_head z \<or> lt_node z t x" "bigger_ok z t b"
  shows "loop_until (FindGreaterOrEqual_step compare z t) (x, l, b) = Some (first (dropWhile (lt_node z t) (lv 0)))"
  using lv assms(3-)
proof (induction arbitrary: b rule: search_induct)
  case (step l us x vs)
  show ?case
    by (rule FindGreaterOrEqual_step_cases [OF lv step(1,2) t step(3,6)])
      (auto simp: loop_until.simps [of _ "(x, l, b)"] step gr0_conv_Suc)
qed

lemma FindGreaterOrEqual_ok:
  assumes "sl_levels compare K z lv" "t \<in> K"
  shows "FindGreaterOrEqual compare z t = Some (first (dropWhile (lt_node z t) (lv 0)))"
proof -
  have "sl_max_height z - 1 < kMaxHeight z" using assms(1) by (auto simp: sl_levels_def)
  then show ?thesis unfolding FindGreaterOrEqual_def
    by (intro FindGreaterOrEqual_loop [OF assms]) (auto simp: bigger_ok_def)
qed

end


lemma loop_until_Inr: "body s = Some (Inr v) \<Longrightarrow> loop_until body s = Some v"
  and loop_until_Inl: "body s = Some (Inl s') \<Longrightarrow> loop_until body s = loop_until body s'"
  by (simp_all add: loop_until.simps [of body s])

text \<open>The last node of a list, or the head.\<close>

definition pred_of :: "'k SkipList \<Rightarrow> ptr list \<Rightarrow> ptr" where
  "pred_of z us = last (sl_head z # us)"

text \<open>An array whose first \<open>n\<close> cells are filled.\<close>

definition filled :: "nat \<Rightarrow> (nat \<Rightarrow> ptr) \<Rightarrow> ptr option list \<Rightarrow> ptr option list" where
  "filled n f p = map (\<lambda>i. if i < n then Some (f i) else p ! i) [0..<length p]"

lemma length_filled [simp]: "length (filled n f p) = length p"
  by (simp add: filled_def)

lemma filled_0 [simp]: "filled 0 f p = p"
  by (simp add: filled_def map_nth)

lemma filled_upd: "n < length p \<Longrightarrow> filled n f (p[n := Some (f n)]) = filled (Suc n) f p"
  by (auto simp: filled_def less_Suc_eq nth_list_update)

lemma nth_filled: "i < n \<Longrightarrow> i < length p \<Longrightarrow> filled n f p ! i = Some (f i)"
  by (simp add: filled_def)

context key_order
begin

lemma FindLessThan_loop:
  assumes lv: "sl_levels compare K z lv" and t: "t \<in> K"
    and "l < kMaxHeight z" "x \<in> set (sl_head z # lv l)" "x = sl_head z \<or> lt_node z t x"
    and "b = 0 \<or> keyed K z b \<and> \<not> lt_node z t b" "\<And>q. p = Some q \<Longrightarrow> l < length q"
  shows "loop_until (FindLessThan_step compare z t) (x, l, b, p) =
    Some (pred_of z (takeWhile (lt_node z t) (lv 0)),
      map_option (filled (Suc l) (\<lambda>i. pred_of z (takeWhile (lt_node z t) (lv i)))) p)"
  using lv assms(3-)
proof (induction arbitrary: b p rule: search_induct)
  case (step l us x vs)
  have n: "Node_Next z x l = Some (first vs)"
    using chain_next sl_levels_chain [OF lv step(1)] step(2) by fastforce
  have x0: "0 < x"
    using step(2) sl_levels_head [OF lv] sl_levels_keyed [OF lv step(1)] by (cases us) (auto simp: keyed_def)
  have kv: "keyed K z v" if "vs = v # vs'" for v vs'
    using that step(2) sl_levels_keyed [OF lv step(1)] by (cases us) auto
  note facts = n x0 search_asserts_ok [OF lv step(1,2) t step(3)]
  show ?case
  proof (cases "\<exists>v vs'. vs = v # vs' \<and> lt_node z t v")
    case True
    then obtain v vs' where v: "vs = v # vs'" "lt_node z t v" by auto
    then have "v \<noteq> b" "v \<noteq> 0" using step(6) kv by (auto simp: keyed_def)
    then have "FindLessThan_step compare z t (x, l, b, p) = Some (Inl (v, l, b, p))"
      using facts v kv [OF v(1)] by (simp add: FindLessThan_step_def KeyIsAfterNode_def Node_key_keyed)
    then show ?thesis
      using step(4) [OF v step(6) step(7)] by (simp add: loop_until_Inl)
  next
    case False
    then have hd: "vs = [] \<or> \<not> lt_node z t (hd vs)" by (cases vs) auto
    define q where "q = map_option (\<lambda>q. q[l := Some x]) p"
    have x: "x = pred_of z (takeWhile (lt_node z t) (lv l))"
      using border [OF sl_levels_sorted [OF lv step(1)] sl_levels_keyed [OF lv step(1)] t step(2,3) hd]
      by (simp add: pred_of_def)
    have nx: "first vs = 0 \<or> keyed K z (first vs) \<and> \<not> lt_node z t (first vs)"
      using False kv by (cases vs) auto
    then have "KeyIsAfterNode compare z t (first vs) = Some False"
      by (auto simp: KeyIsAfterNode_def Node_key_keyed)
    then have s: "FindLessThan_step compare z t (x, l, b, p) =
        Some (if l = 0 then Inr (x, q) else Inl (x, l - 1, first vs, q))"
      using facts step(7) by (cases p) (auto simp: FindLessThan_step_def q_def aset_def)
    have q: "map_option (filled l f) q = map_option (filled (Suc l) f) p"
      if "f l = x" for f
      using that step(7) by (cases p) (auto simp: q_def filled_upd)
    show ?thesis
    proof (cases l)
      case 0
      then show ?thesis using s x q [of "\<lambda>i. pred_of z (takeWhile (lt_node z t) (lv i))"]
        by (cases q) (auto simp: loop_until_Inr)
    next
      case (Suc l')
      have "l' < length r" if "q = Some r" for r
        using that step(7) Suc by (auto simp: q_def)
      then have "loop_until (FindLessThan_step compare z t) (x, l', first vs, q) =
        Some (pred_of z (takeWhile (lt_node z t) (lv 0)),
          map_option (filled (Suc l') (\<lambda>i. pred_of z (takeWhile (lt_node z t) (lv i)))) q)"
        using step(5) [OF Suc nx] by blast
      then show ?thesis using s Suc x q [of "\<lambda>i. pred_of z (takeWhile (lt_node z t) (lv i))"]
        by (simp add: loop_until_Inl)
    qed
  qed
qed

lemma FindLessThan_ok:
  assumes "sl_levels compare K z lv" "t \<in> K" "\<And>q. p = Some q \<Longrightarrow> sl_max_height z \<le> length q"
  shows "FindLessThan compare z t p =
    Some (pred_of z (takeWhile (lt_node z t) (lv 0)),
      map_option (filled (sl_max_height z) (\<lambda>i. pred_of z (takeWhile (lt_node z t) (lv i)))) p)"
proof -
  have m: "sl_max_height z - 1 < kMaxHeight z" "Suc (sl_max_height z - 1) = sl_max_height z"
    using assms(1) by (auto simp: sl_levels_def)
  show ?thesis unfolding FindLessThan_def
    using FindLessThan_loop [OF assms(1,2) m(1), of "sl_head z" 0 p] assms(3) m(2) by fastforce
qed

lemma FindLast_loop:
  assumes lv: "sl_levels compare K z lv" and "l < kMaxHeight z" "x \<in> set (sl_head z # lv l)"
  shows "loop_until (FindLast_step z) (x, l) = Some (pred_of z (lv 0))"
proof -
  have "x = sl_head z \<or> True" by simp
  with lv assms(2,3) show ?thesis
  proof (induction rule: search_induct)
    case (step l us x vs)
    have n: "Node_Next z x l = Some (first vs)"
      using chain_next sl_levels_chain [OF lv step(1)] step(2) by fastforce
    show ?case
    proof (cases vs)
      case Nil
      then have "FindLast_step z (x, l) = Some (if l = 0 then Inr x else Inl (x, l - 1))"
        using n by (simp add: FindLast_step_def)
      moreover have "pred_of z (lv 0) = x" if "l = 0"
        using that step(2) Nil by (simp add: pred_of_def)
      ultimately show ?thesis
        using step(5) by (cases l) (auto simp: loop_until_Inr loop_until_Inl)
    next
      case (Cons v vs')
      then have "v \<noteq> 0"
        using step(2) sl_levels_keyed [OF lv step(1), of v] by (cases us) (auto simp: keyed_def)
      then have "FindLast_step z (x, l) = Some (Inl (v, l))"
        using n Cons by (simp add: FindLast_step_def)
      then show ?thesis using step(4) [OF Cons] by (simp add: loop_until_Inl)
    qed
  qed
qed

lemma FindLast_ok:
  assumes "sl_levels compare K z lv"
  shows "FindLast z = Some (pred_of z (lv 0))"
proof -
  have "sl_max_height z - 1 < kMaxHeight z" using assms by (auto simp: sl_levels_def)
  then show ?thesis unfolding FindLast_def by (intro FindLast_loop [OF assms]) auto
qed

end


section \<open>Insertion\<close>

definition at_level :: "'k SkipList \<Rightarrow> nat \<Rightarrow> ptr list \<Rightarrow> ptr list" where
  "at_level z i ps = filter (\<lambda>p. i < nheight z p) ps"

definition sl_nodes :: "'k SkipList \<Rightarrow> ptr list \<Rightarrow> bool" where
  "sl_nodes z ps \<longleftrightarrow> nheight z (sl_head z) = kMaxHeight z \<and> sl_head z < sl_brk z \<and>
     (\<forall>p. sl_brk z \<le> p \<longrightarrow> sl_heap z p = None) \<and>
     (\<forall>p \<in> set ps. p < sl_brk z \<and> 1 \<le> nheight z p \<and> nheight z p \<le> sl_max_height z)"

text \<open>
  The cache \<open>prev_\<close>: the node inserted last, its height, and its predecessors on the levels above
  the first.
\<close>

definition prev_cache :: "'k SkipList \<Rightarrow> ptr list \<Rightarrow> bool" where
  "prev_cache z ps \<longleftrightarrow> length (sl_prev z) = kMaxHeight z \<and>
     (ps = [] \<and> sl_prev z ! 0 = Some (sl_head z) \<and> sl_prev_height z = 1 \<and> sl_max_height z = 1 \<or>
      (\<exists>xs x ys. ps = xs @ x # ys \<and> sl_prev z ! 0 = Some x \<and> sl_prev_height z = nheight z x \<and>
         (\<forall>i. 1 \<le> i \<and> i < sl_max_height z \<longrightarrow> sl_prev z ! i = Some (pred_of z (at_level z i xs)))))"

definition sl_rep :: "'k comparator \<Rightarrow> 'k set \<Rightarrow> 'k SkipList \<Rightarrow> ptr list \<Rightarrow> bool" where
  "sl_rep compare K z ps \<longleftrightarrow>
     sl_levels compare K z (\<lambda>i. at_level z i ps) \<and> sl_nodes z ps \<and> prev_cache z ps"

text \<open>Inside \<open>Insert\<close>: \<open>prev_\<close> holds the predecessors of the new key on all levels in use.\<close>

definition prev_found :: "'k SkipList \<Rightarrow> ptr list \<Rightarrow> bool" where
  "prev_found z as \<longleftrightarrow> length (sl_prev z) = kMaxHeight z \<and>
     (\<forall>i < sl_max_height z. sl_prev z ! i = Some (pred_of z (at_level z i as)))"

lemma at_level_0: "sl_nodes z ps \<Longrightarrow> at_level z 0 ps = ps"
  by (auto simp: sl_nodes_def at_level_def filter_id_conv)

lemma at_level_append: "at_level z i (xs @ ys) = at_level z i xs @ at_level z i ys"
  by (simp add: at_level_def)

lemma prev_copy_fold:
  assumes "p ! 0 = Some v" "n \<le> length p" "p \<noteq> []"
  shows "fold (\<lambda>i p. do { p \<leftarrow> p; v \<leftarrow> aget p 0; aset p i v }) [1..<n] (Some p) =
    Some (map (\<lambda>i. if i < n then Some v else p ! i) [0..<length p]) \<or> n = 0"
  using assms(2)
proof (induction n)
  case (Suc n)
  show ?case
  proof (cases "n = 0")
    case True
    have "map (\<lambda>i. if i = 0 then Some v else p ! i) [0..<length p] = p"
      using assms(1) by (intro nth_equalityI) auto
    then show ?thesis using True by simp
  next
    case False
    let ?q = "map (\<lambda>i. if i < n then Some v else p ! i) [0..<length p]"
    have "fold (\<lambda>i p. do { p \<leftarrow> p; v \<leftarrow> aget p 0; aset p i v }) [1..<Suc n] (Some p) =
        do { w \<leftarrow> aget ?q 0; aset ?q n w }"
      using Suc False by (simp add: upt_Suc)
    also have "\<dots> = Some (?q[n := Some v])"
      using Suc.prems False assms(3) by (simp add: aget_def aset_def)
    also have "?q[n := Some v] = map (\<lambda>i. if i < Suc n then Some v else p ! i) [0..<length p]"
      using Suc.prems by (auto intro!: nth_equalityI simp: nth_list_update less_Suc_eq)
    finally show ?thesis by simp
  qed
qed simp

lemma prev_head_fold:
  assumes "m \<le> n" "n \<le> length p"
  shows "fold (\<lambda>i p. do { p \<leftarrow> p; aset p i h }) [m..<n] (Some p) =
    Some (map (\<lambda>i. if m \<le> i \<and> i < n then Some h else p ! i) [0..<length p])"
  using assms
proof (induction n)
  case 0
  then show ?case by (simp add: map_nth)
next
  case (Suc n)
  show ?case
  proof (cases "m \<le> n")
    case True
    let ?q = "map (\<lambda>i. if m \<le> i \<and> i < n then Some h else p ! i) [0..<length p]"
    have "fold (\<lambda>i p. do { p \<leftarrow> p; aset p i h }) [m..<Suc n] (Some p) = aset ?q n h"
      using Suc True by (simp add: upt_Suc)
    also have "\<dots> = Some (?q[n := Some h])" using Suc.prems by (simp add: aset_def)
    also have "?q[n := Some h] = map (\<lambda>i. if m \<le> i \<and> i < Suc n then Some h else p ! i) [0..<length p]"
      using Suc.prems True by (auto intro!: nth_equalityI simp: nth_list_update less_Suc_eq)
    finally show ?thesis .
  next
    case False
    then have "m = Suc n" using Suc.prems by simp
    then show ?thesis by (auto intro!: nth_equalityI)
  qed
qed

context key_order
begin

lemma at_level_takeWhile:
  assumes "sl_levels compare K z (\<lambda>i. at_level z i ps)" "sl_nodes z ps" "t \<in> K" "i < kMaxHeight z"
  shows "takeWhile (lt_node z t) (at_level z i ps) = at_level z i (takeWhile (lt_node z t) ps)"
proof -
  have f: "takeWhile (lt_node z t) (at_level z j ps) = filter (lt_node z t) (at_level z j ps)" if "j < kMaxHeight z" for j
    using border_filter [OF sl_levels_sorted [OF assms(1) that] sl_levels_keyed [OF assms(1) that] assms(3)] by simp
  then have "takeWhile (lt_node z t) ps = filter (lt_node z t) ps"
    using f [of 0] assms(4) at_level_0 [OF assms(2)] by simp
  then show ?thesis using f [OF assms(4)] by (simp add: at_level_def conj_commute)
qed

lemma next_of_border:
  assumes "sl_levels compare K z lv" "i < kMaxHeight z" "lv i = us @ vs"
  shows "Node_Next z (pred_of z us) i = Some (first vs)"
proof -
  have "chain (\<lambda>x. Node_Next z x i) (sl_head z # us @ vs)"
    using sl_levels_chain [OF assms(1,2)] assms(3) by simp
  moreover have "sl_head z # us @ vs = butlast (sl_head z # us) @ pred_of z us # vs"
    unfolding pred_of_def by (metis append.assoc append_Cons append_Nil append_butlast_last_id list.discI)
  ultimately show ?thesis using chain_next by metis
qed

end


context key_order
begin

lemma Insert_prev_ok:
  assumes rep: "sl_rep compare K z ps" and t: "t \<in> K"
  shows "\<exists>p. Insert_prev compare t z = Some (z\<lparr>sl_prev := p\<rparr>) \<and>
    prev_found (z\<lparr>sl_prev := p\<rparr>) (takeWhile (lt_node z t) ps)"
proof -
  have lv: "sl_levels compare K z (\<lambda>i. at_level z i ps)" and nd: "sl_nodes z ps" and pc: "prev_cache z ps"
    using rep by (simp_all add: sl_rep_def)
  have M: "0 < kMaxHeight z" "sl_max_height z \<le> kMaxHeight z" using lv by (auto simp: sl_levels_def)
  have len: "length (sl_prev z) = kMaxHeight z" using pc by (simp add: prev_cache_def)
  have l0: "at_level z 0 ps = ps" by (rule at_level_0 [OF nd])
  have keyed: "keyed K z p" if "p \<in> set ps" for p using sl_levels_keyed [OF lv M(1)] l0 that by simp
  have sorted: "key_sorted z ps" using sl_levels_sorted [OF lv M(1)] l0 by simp
  have same [simp]: "at_level (z\<lparr>sl_prev := p\<rparr>) i qs = at_level z i qs" "pred_of (z\<lparr>sl_prev := p\<rparr>) qs = pred_of z qs" for p i qs
    by (simp_all add: at_level_def nheight_def pred_of_def)
  have slow: "\<exists>p. Insert_prev compare t z = Some (z\<lparr>sl_prev := p\<rparr>) \<and>
      prev_found (z\<lparr>sl_prev := p\<rparr>) (takeWhile (lt_node z t) ps)" if "Insert_fast compare t z = Some False"
    using that FindLessThan_ok [OF lv t, of "Some (sl_prev z)"] M len at_level_takeWhile [OF lv nd t]
    by (auto simp: Insert_prev_def prev_found_def nth_filled)
  have fast: "\<exists>p. Insert_prev compare t z = Some (z\<lparr>sl_prev := p\<rparr>) \<and>
      prev_found (z\<lparr>sl_prev := p\<rparr>) (takeWhile (lt_node z t) ps)"
    if "Insert_fast compare t z = Some True" "sl_prev z ! 0 = Some x"
      "x \<noteq> sl_head z \<or> sl_prev_height z = 1 \<and> sl_max_height z = 1" "0 < sl_prev_height z" "sl_prev_height z \<le> kMaxHeight z"
      "\<And>i. i < sl_max_height z \<Longrightarrow> (if i < sl_prev_height z then Some x else sl_prev z ! i) =
        Some (pred_of z (at_level z i (takeWhile (lt_node z t) ps)))" for x
  proof -
    let ?p = "map (\<lambda>i. if i < sl_prev_height z then Some x else sl_prev z ! i) [0..<length (sl_prev z)]"
    have ne: "sl_prev z \<noteq> []" using len M by auto
    have "aget (sl_prev z) 0 = Some x" using that(2) len M by (simp add: aget_def)
    moreover have "fold (\<lambda>i prev. do { prev \<leftarrow> prev; v \<leftarrow> aget prev 0; aset prev i v }) [1..<sl_prev_height z] (Some (sl_prev z)) = Some ?p"
      using prev_copy_fold [of "sl_prev z" x "sl_prev_height z"] that(2,4,5) len ne by auto
    ultimately have "Insert_prev compare t z = Some (z\<lparr>sl_prev := ?p\<rparr>)"
      unfolding Insert_prev_def using that(1,3) by auto
    moreover have "prev_found (z\<lparr>sl_prev := ?p\<rparr>) (takeWhile (lt_node z t) ps)"
      unfolding prev_found_def
    proof (intro conjI allI impI)
      fix i
      assume "i < sl_max_height (z\<lparr>sl_prev := ?p\<rparr>)"
      then show "sl_prev (z\<lparr>sl_prev := ?p\<rparr>) ! i = Some (pred_of (z\<lparr>sl_prev := ?p\<rparr>) (at_level (z\<lparr>sl_prev := ?p\<rparr>) i (takeWhile (lt_node z t) ps)))"
        using that(6) [of i] len M by (simp split: if_splits)
    qed (use len in simp)
    ultimately show ?thesis by blast
  qed
  consider "ps = []" "sl_prev z ! 0 = Some (sl_head z)" "sl_prev_height z = 1" "sl_max_height z = 1"
    | xs x ys where "ps = xs @ x # ys" "sl_prev z ! 0 = Some x" "sl_prev_height z = nheight z x"
      "\<And>i. 1 \<le> i \<Longrightarrow> i < sl_max_height z \<Longrightarrow> sl_prev z ! i = Some (pred_of z (at_level z i xs))"
    using pc unfolding prev_cache_def by blast
  then show ?thesis
  proof cases
    case 1
    have "Node_Next z (sl_head z) 0 = Some 0"
      using next_of_border [OF lv M(1), of "[]" "[]"] 1 by (simp add: at_level_def pred_of_def)
    then have "Insert_fast compare t z = Some True"
      using 1 M len by (simp add: Insert_fast_def aget_def KeyIsAfterNode_def)
    then show ?thesis using 1 M by (intro fast [of "sl_head z"]) (auto simp: at_level_def pred_of_def)
  next
    case 2
    have x: "keyed K z x" "Node_key z x = Some (nkey z x)" "x \<noteq> sl_head z" "x \<noteq> 0"
      using keyed [of x] 2(1) by (auto simp: Node_key_keyed keyed_def)
    have h: "1 \<le> nheight z x" "nheight z x \<le> sl_max_height z" using nd 2(1) by (auto simp: sl_nodes_def)
    have n: "Node_Next z x 0 = Some (first ys)"
      using next_of_border [OF lv M(1), of "xs @ [x]" ys] l0 2(1) by (simp add: pred_of_def)
    have y: "KeyIsAfterNode compare z t (first ys) = Some (ys \<noteq> [] \<and> lt_node z t (hd ys))"
      using keyed [of "hd ys"] 2(1) by (cases ys) (auto simp: KeyIsAfterNode_def Node_key_keyed keyed_def)
    have f: "Insert_fast compare t z = Some ((ys = [] \<or> \<not> lt_node z t (hd ys)) \<and> lt_node z t x)"
      using 2(2) M len n y x by (auto simp: Insert_fast_def aget_def KeyIsAfterNode_def [of _ _ _ x])
    show ?thesis
    proof (cases "(ys = [] \<or> \<not> lt_node z t (hd ys)) \<and> lt_node z t x")
      case True
      then have "dropWhile (lt_node z t) ps = ys"
        using border [OF sorted keyed t, of "sl_head z # xs" x ys] 2(1) by simp
      then have as: "takeWhile (lt_node z t) ps = xs @ [x]"
        using takeWhile_dropWhile_id [of "lt_node z t" ps] 2(1) by auto
      show ?thesis
      proof (rule fast [OF _ 2(2)])
        show "(if i < sl_prev_height z then Some x else sl_prev z ! i) =
          Some (pred_of z (at_level z i (takeWhile (lt_node z t) ps)))" if "i < sl_max_height z" for i
          using as 2(3,4) that h by (auto simp: at_level_def pred_of_def)
      qed (use f True x h 2(3) M in auto)
    qed (use f slow in auto)
  qed
qed

end


text \<open>Nodes are never changed but for their links, and never freed.\<close>

definition sl_ext :: "'k SkipList \<Rightarrow> 'k SkipList \<Rightarrow> bool" where
  "sl_ext z z' \<longleftrightarrow> sl_head z' = sl_head z \<and> kMaxHeight z' = kMaxHeight z \<and>
     (\<forall>p. sl_heap z p \<noteq> None \<longrightarrow> sl_heap z' p \<noteq> None \<and> nkey z' p = nkey z p \<and> nheight z' p = nheight z p)"

lemma sl_ext_refl: "sl_ext z z" by (simp add: sl_ext_def)

lemma sl_ext_trans: "sl_ext z z' \<Longrightarrow> sl_ext z' z'' \<Longrightarrow> sl_ext z z''"
  by (simp add: sl_ext_def)

lemma sl_ext_keyed: "sl_ext z z' \<Longrightarrow> keyed K z p \<Longrightarrow> keyed K z' p \<and> nkey z' p = nkey z p \<and> nheight z' p = nheight z p"
  by (simp add: sl_ext_def keyed_def)

lemma sl_levels_frame:
  assumes "sl_levels compare K z lv" "sl_ext z z'" "1 \<le> sl_max_height z'" "sl_max_height z' \<le> kMaxHeight z"
    and "\<And>i p. i < kMaxHeight z \<Longrightarrow> p \<in> set (sl_head z # lv i) \<Longrightarrow> Node_Next z' p i = Node_Next z p i"
  shows "sl_levels compare K z' lv"
proof -
  have e: "sl_head z' = sl_head z" "kMaxHeight z' = kMaxHeight z" using assms(2) by (simp_all add: sl_ext_def)
  have "chain (\<lambda>x. Node_Next z' x i) (sl_head z # lv i)" if "i < kMaxHeight z" for i
    using chain_cong [OF sl_levels_chain [OF assms(1) that]] assms(5) [OF that] by simp
  moreover have "sorted_wrt (\<lambda>p q. compare (nkey z' p) (nkey z' q) < 0) (lv i)" if "i < kMaxHeight z" for i
    using sorted_wrt_mono_rel [OF _ sl_levels_sorted [OF assms(1) that]] sl_levels_keyed [OF assms(1) that] sl_ext_keyed [OF assms(2)]
    by (metis (no_types, lifting))
  ultimately show ?thesis
    using assms(1,3,4) e sl_ext_keyed [OF assms(2)] by (auto simp: sl_levels_def)
qed

lemma Node_SetNext_ok:
  assumes "n < nheight z x"
  shows "\<exists>H. Node_SetNext x n y z = Some (z\<lparr>sl_heap := H\<rparr>) \<and>
    (\<forall>p j. Node_Next (z\<lparr>sl_heap := H\<rparr>) p j = (if p = x \<and> j = n then Some y else Node_Next z p j)) \<and>
    nkey (z\<lparr>sl_heap := H\<rparr>) = nkey z \<and> nheight (z\<lparr>sl_heap := H\<rparr>) = nheight z \<and> (\<forall>p. H p = None \<longleftrightarrow> sl_heap z p = None)"
proof -
  obtain nd where nd: "sl_heap z x = Some nd" "n < length (nd_next nd)"
    using assms by (auto simp: nheight_def split: option.splits)
  define H where "H = (sl_heap z)(x \<mapsto> nd\<lparr>nd_next := (nd_next nd)[n := Some y]\<rparr>)"
  have "Node_SetNext x n y z = Some (z\<lparr>sl_heap := H\<rparr>)"
    using nd by (simp add: Node_SetNext_def aset_def H_def)
  moreover have "Node_Next (z\<lparr>sl_heap := H\<rparr>) p j = (if p = x \<and> j = n then Some y else Node_Next z p j)" for p j
    using nd by (simp add: Node_Next_def H_def aget_def nth_list_update)
  moreover have "nkey (z\<lparr>sl_heap := H\<rparr>) = nkey z" "nheight (z\<lparr>sl_heap := H\<rparr>) = nheight z"
    using nd by (auto simp: nkey_def nheight_def H_def)
  moreover have "H p = None \<longleftrightarrow> sl_heap z p = None" for p
    using nd by (simp add: H_def)
  ultimately show ?thesis by blast
qed

text \<open>
  The state of \<open>Insert\<close> once the levels below \<open>i\<close> are linked: the new node \<open>x\<close> of height \<open>h\<close> stands
  between \<open>as\<close> and \<open>bs\<close> on them.
\<close>

definition link_levels :: "'k SkipList \<Rightarrow> ptr list \<Rightarrow> ptr list \<Rightarrow> ptr \<Rightarrow> nat \<Rightarrow> nat \<Rightarrow> ptr list" where
  "link_levels z as bs x i j =
     (if j < i then at_level z j as @ x # at_level z j bs else at_level z j as @ at_level z j bs)"

definition sl_linking ::
  "'k comparator \<Rightarrow> 'k set \<Rightarrow> 'k SkipList \<Rightarrow> ptr list \<Rightarrow> ptr list \<Rightarrow> ptr \<Rightarrow> nat \<Rightarrow> nat \<Rightarrow> bool" where
  "sl_linking compare K z as bs x h i \<longleftrightarrow>
     sl_levels compare K z (link_levels z as bs x i) \<and> sl_nodes z (as @ x # bs) \<and> prev_found z as \<and>
     keyed K z x \<and> distinct (as @ x # bs) \<and> nheight z x = h \<and> i \<le> h \<and>
     sorted_wrt (\<lambda>p q. compare (nkey z p) (nkey z q) < 0) (as @ x # bs)"

lemma nheight_in_heap: "1 \<le> nheight z p \<Longrightarrow> sl_heap z p \<noteq> None"
  by (auto simp: nheight_def split: option.splits)

lemma pred_of_in: "pred_of z us \<in> set (sl_head z # us)"
  unfolding pred_of_def by (rule last_in_set) simp

context key_order
begin

lemma Insert_link1_ok:
  assumes "sl_linking compare K z as bs x h i" "i < h"
  shows "\<exists>z'. Insert_link1 x i z = Some z' \<and> sl_linking compare K z' as bs x h i \<and> sl_ext z z' \<and>
    Node_Next z' x i = Some (first (at_level z' i bs))"
proof -
  have lv: "sl_levels compare K z (link_levels z as bs x i)" and nd: "sl_nodes z (as @ x # bs)" and pf: "prev_found z as"
    and d: "distinct (as @ x # bs)" and h: "nheight z x = h" and kx: "keyed K z x"
    using assms(1) by (simp_all add: sl_linking_def)
  have M: "h \<le> sl_max_height z" "sl_max_height z \<le> kMaxHeight z"
    using lv nd h by (auto simp: sl_levels_def sl_nodes_def)
  have n: "Node_Next z (pred_of z (at_level z i as)) i = Some (first (at_level z i bs))"
    using next_of_border [OF lv, of i] M assms(2) by (simp add: link_levels_def)
  obtain H where H: "Node_SetNext x i (first (at_level z i bs)) z = Some (z\<lparr>sl_heap := H\<rparr>)"
    "\<And>p j. Node_Next (z\<lparr>sl_heap := H\<rparr>) p j = (if p = x \<and> j = i then Some (first (at_level z i bs)) else Node_Next z p j)"
    "nkey (z\<lparr>sl_heap := H\<rparr>) = nkey z" "nheight (z\<lparr>sl_heap := H\<rparr>) = nheight z" "\<And>p. H p = None \<longleftrightarrow> sl_heap z p = None"
    using Node_SetNext_ok [of i z x "first (at_level z i bs)"] assms(2) h by blast
  let ?z = "z\<lparr>sl_heap := H\<rparr>"
  have al [simp]: "at_level ?z = at_level z" "link_levels ?z = link_levels z" "pred_of ?z = pred_of z"
    using H(4) by (auto simp: at_level_def link_levels_def pred_of_def fun_eq_iff)
  have "sl_prev z ! i = Some (pred_of z (at_level z i as))" "i < length (sl_prev z)"
    using pf M assms(2) by (auto simp: prev_found_def)
  then have "Insert_link1 x i z = Some ?z"
    using n H(1) by (simp add: Insert_link1_def aget_def)
  moreover have ext: "sl_ext z ?z" using H(3-5) by (simp add: sl_ext_def)
  moreover have notin: "x \<notin> set (sl_head z # link_levels z as bs x i i)"
    using d kx by (auto simp: link_levels_def at_level_def keyed_def)
  moreover have "sl_levels compare K ?z (link_levels z as bs x i)"
  proof (rule sl_levels_frame [OF lv ext])
    show "Node_Next ?z p j = Node_Next z p j" if "j < kMaxHeight z" "p \<in> set (sl_head z # link_levels z as bs x i j)" for j p
      using that notin by (cases "p = x \<and> j = i") (auto simp: H(2))
  qed (use lv in \<open>auto simp: sl_levels_def\<close>)
  moreover have "sl_nodes ?z (as @ x # bs)" "prev_found ?z as" "keyed K ?z x"
    using nd pf kx H by (auto simp: sl_nodes_def prev_found_def keyed_def)
  moreover have "Node_Next ?z x i = Some (first (at_level ?z i bs))"
    using H(2) by simp
  ultimately show ?thesis
    using assms(1) H(3,4) by (intro exI [of _ ?z]) (auto simp: sl_linking_def)
qed

end


lemma link_levels_sub: "set (link_levels z as bs x i (Suc j)) \<subseteq> set (link_levels z as bs x i j)"
  by (auto simp: link_levels_def at_level_def)

lemma link_levels_other: "j \<noteq> i \<Longrightarrow> link_levels z as bs x (Suc i) j = link_levels z as bs x i j"
  by (simp add: link_levels_def)

lemma link_levels_sorted: "sorted_wrt R (as @ x # bs) \<Longrightarrow> sorted_wrt R (link_levels z as bs x i j)"
  by (auto simp: link_levels_def at_level_def sorted_wrt_append sorted_wrt_filter)

context key_order
begin

lemma sl_linking_keyed:
  assumes "sl_linking compare K z as bs x h i" "p \<in> set (as @ x # bs)"
  shows "keyed K z p"
proof -
  have "0 < kMaxHeight z" using assms(1) by (auto simp: sl_linking_def sl_levels_def)
  moreover have "0 < nheight z p" using assms by (auto simp: sl_linking_def sl_nodes_def Suc_le_eq)
  then have "p \<in> set (link_levels z as bs x i 0)" if "p \<noteq> x"
    using assms(2) that by (auto simp: link_levels_def at_level_def)
  ultimately show ?thesis
    using assms(1) sl_levels_keyed [of compare K z "link_levels z as bs x i" 0 p] unfolding sl_linking_def by blast
qed

lemma Insert_link2_ok:
  assumes "sl_linking compare K z as bs x h i" "i < h" "Node_Next z x i = Some (first (at_level z i bs))"
  shows "\<exists>z'. Insert_link2 x i z = Some z' \<and> sl_linking compare K z' as bs x h (Suc i) \<and> sl_ext z z'"
proof -
  have lv: "sl_levels compare K z (link_levels z as bs x i)" and nd: "sl_nodes z (as @ x # bs)" and pf: "prev_found z as"
    and d: "distinct (as @ x # bs)" and h: "nheight z x = h" and kx: "keyed K z x"
    and so: "key_sorted z (as @ x # bs)"
    using assms(1) by (simp_all add: sl_linking_def)
  have M: "i < sl_max_height z" "sl_max_height z \<le> kMaxHeight z" "i < kMaxHeight z"
    using lv nd h assms(2) by (auto simp: sl_levels_def sl_nodes_def)
  define p where "p = pred_of z (at_level z i as)"
  have pin: "p \<in> set (sl_head z # at_level z i as)" unfolding p_def by (rule pred_of_in)
  then have "i < nheight z p" using nd M by (auto simp: sl_nodes_def at_level_def)
  then obtain H where H: "Node_SetNext p i x z = Some (z\<lparr>sl_heap := H\<rparr>)"
    "\<And>q j. Node_Next (z\<lparr>sl_heap := H\<rparr>) q j = (if q = p \<and> j = i then Some x else Node_Next z q j)"
    "nkey (z\<lparr>sl_heap := H\<rparr>) = nkey z" "nheight (z\<lparr>sl_heap := H\<rparr>) = nheight z" "\<And>q. H q = None \<longleftrightarrow> sl_heap z q = None"
    using Node_SetNext_ok [of i z p x] by blast
  let ?z = "z\<lparr>sl_heap := H\<rparr>"
  have al [simp]: "at_level ?z = at_level z" "link_levels ?z = link_levels z" "pred_of ?z = pred_of z"
    using H(4) by (auto simp: at_level_def link_levels_def pred_of_def fun_eq_iff)
  have keyed: "keyed K z q \<Longrightarrow> keyed K ?z q" for q using H(3,5) by (simp add: keyed_def)
  define us where "us = butlast (sl_head z # at_level z i as)"
  have "sl_head z # at_level z i as = us @ [p]"
    unfolding us_def p_def pred_of_def by (rule append_butlast_last_id [symmetric]) simp
  then have whole: "sl_head z # at_level z i as @ vs = us @ p # vs" for vs
    by (metis append_Cons append_Nil append_assoc)
  have "sl_prev z ! i = Some p" "i < length (sl_prev z)" using pf M by (auto simp: prev_found_def p_def)
  then have "Insert_link2 x i z = Some ?z" using H(1) by (simp add: Insert_link2_def aget_def)
  moreover have ext: "sl_ext z ?z" using H(3-5) by (simp add: sl_ext_def)
  moreover have "chain (\<lambda>y. Node_Next ?z y j) (sl_head z # link_levels z as bs x (Suc i) j)" if "j < kMaxHeight z" for j
  proof (cases "j = i")
    case False
    then show ?thesis
      using chain_cong [OF sl_levels_chain [OF lv that], of "\<lambda>y. Node_Next ?z y j"] by (simp add: H(2) link_levels_other)
  next
    case True
    have c: "chain (\<lambda>y. Node_Next z y i) (us @ p # at_level z i bs)"
      using sl_levels_chain [OF lv M(3)] by (simp add: link_levels_def whole)
    have di: "distinct (us @ p # at_level z i bs)"
      unfolding whole [symmetric] using d sl_linking_keyed [OF assms(1)] by (auto simp: at_level_def keyed_def)
    have "chain (\<lambda>y. Node_Next ?z y i) (us @ p # x # at_level z i bs)"
    proof (rule chain_insert [OF c di])
      show "x \<notin> set (us @ p # at_level z i bs)"
        unfolding whole [symmetric] using d kx by (auto simp: at_level_def keyed_def)
      show "Node_Next ?z x i = Some (first (at_level z i bs))"
        using assms(3) pin d kx by (auto simp: H(2) at_level_def keyed_def)
    qed (simp_all add: H(2))
    then show ?thesis using True by (simp add: link_levels_def whole del: chain.simps)
  qed
  moreover have "keyed K ?z q" if "q \<in> set (link_levels z as bs x (Suc i) j)" for q j
    using that sl_linking_keyed [OF assms(1), of q] keyed by (auto simp: link_levels_def at_level_def split: if_splits)
  ultimately have "sl_levels compare K ?z (link_levels z as bs x (Suc i))"
    using lv by (simp add: sl_levels_def link_levels_sub link_levels_sorted [OF so] H(3) del: chain.simps)
  moreover have "sl_nodes ?z (as @ x # bs)" "prev_found ?z as" "keyed K ?z x"
    using nd pf kx H by (auto simp: sl_nodes_def prev_found_def keyed_def)
  ultimately show ?thesis
    using \<open>Insert_link2 x i z = Some ?z\<close> ext assms(1,2) H(3,4) by (intro exI [of _ ?z]) (auto simp: sl_linking_def)
qed

lemma Insert_link_ok:
  assumes "sl_linking compare K z as bs x h i" "h = i + k"
  shows "\<exists>z'. Insert_link x i k z = Some z' \<and> sl_linking compare K z' as bs x h h \<and> sl_ext z z'"
  using assms
proof (induction k arbitrary: i z)
  case 0
  then show ?case by (simp add: sl_ext_refl)
next
  case (Suc k)
  obtain z1 where 1: "Insert_link1 x i z = Some z1" "sl_linking compare K z1 as bs x h i" "sl_ext z z1"
    "Node_Next z1 x i = Some (first (at_level z1 i bs))"
    using Insert_link1_ok [OF Suc.prems(1)] Suc.prems(2) by auto
  obtain z2 where 2: "Insert_link2 x i z1 = Some z2" "sl_linking compare K z2 as bs x h (Suc i)" "sl_ext z1 z2"
    using Insert_link2_ok [OF 1(2) _ 1(4)] Suc.prems(2) by auto
  obtain z3 where 3: "Insert_link x (Suc i) k z2 = Some z3" "sl_linking compare K z3 as bs x h h" "sl_ext z2 z3"
    using Suc.IH [OF 2(2)] Suc.prems(2) by auto
  show ?case using 1 2 3 by (auto intro: sl_ext_trans)
qed

end


lemma random_height_loop_ok:
  "h \<le> m \<Longrightarrow> m - h \<le> length rs \<Longrightarrow>
   \<exists>h' rs'. random_height_loop m s h rs = Some (h', rs') \<and> h \<le> h' \<and> h' \<le> m \<and> length rs \<le> length rs' + (m - h)"
proof (induction m s h rs rule: random_height_loop.induct)
  case (2 m s h r rs)
  then show ?case by (cases "h < m"; cases "r < s") fastforce+
qed simp

lemma RandomHeight_ok:
  assumes "1 \<le> kMaxHeight z" "kMaxHeight z - 1 \<le> length rs"
  shows "\<exists>h rs'. RandomHeight z rs = Some (h, rs') \<and> 1 \<le> h \<and> h \<le> kMaxHeight z \<and> length rs \<le> length rs' + (kMaxHeight z - 1)"
  using random_height_loop_ok [OF assms, of "kScaledInverseBranching z"] by (auto simp: RandomHeight_def)

lemma fields_unused [simp]:
  "at_level (z\<lparr>sl_prev := p\<rparr>) = at_level z" "at_level (z\<lparr>sl_max_height := m\<rparr>) = at_level z"
  "at_level (z\<lparr>sl_prev_height := m\<rparr>) = at_level z"
  "pred_of (z\<lparr>sl_prev := p\<rparr>) = pred_of z" "pred_of (z\<lparr>sl_max_height := m\<rparr>) = pred_of z"
  "pred_of (z\<lparr>sl_prev_height := m\<rparr>) = pred_of z"
  by (simp_all add: at_level_def nheight_def pred_of_def fun_eq_iff)

lemma Insert_raise_ok:
  assumes "prev_found z as" "h \<le> kMaxHeight z" "\<forall>p \<in> set as. nheight z p \<le> sl_max_height z"
  shows "\<exists>p. Insert_raise h z = Some (z\<lparr>sl_prev := p, sl_max_height := max (sl_max_height z) h\<rparr>) \<and>
    prev_found (z\<lparr>sl_prev := p, sl_max_height := max (sl_max_height z) h\<rparr>) as"
proof (cases "h > sl_max_height z")
  case True
  let ?p = "map (\<lambda>i. if sl_max_height z \<le> i \<and> i < h then Some (sl_head z) else sl_prev z ! i) [0..<length (sl_prev z)]"
  have len: "length (sl_prev z) = kMaxHeight z" using assms(1) by (simp add: prev_found_def)
  have "at_level z i as = []" if "sl_max_height z \<le> i" for i
    using assms(3) that by (auto simp: at_level_def filter_empty_conv)
  then have "prev_found (z\<lparr>sl_prev := ?p, sl_max_height := h\<rparr>) as"
    using assms(1,2) len by (auto simp: prev_found_def pred_of_def)
  moreover have "Insert_raise h z = Some (z\<lparr>sl_prev := ?p, sl_max_height := h\<rparr>)"
    using True prev_head_fold [of "sl_max_height z" h "sl_prev z" "sl_head z"] assms(2) len by (simp add: Insert_raise_def)
  ultimately show ?thesis using True by (auto simp: max_def)
next
  case False
  then show ?thesis using assms(1) by (intro exI [of _ "sl_prev z"]) (simp add: Insert_raise_def max_def)
qed

text \<open>A node allocated behind all others.\<close>

lemma NewNode_ok:
  assumes "sl_nodes z ps" "NewNode k h z = (x, z')" "1 \<le> kMaxHeight z"
  shows "x = sl_brk z \<and> sl_ext z z' \<and> sl_brk z' = Suc (sl_brk z) \<and> nkey z' x = k \<and> nheight z' x = h \<and> sl_heap z' x \<noteq> None \<and>
    sl_heap z x = None \<and> (\<forall>p i. p \<noteq> x \<longrightarrow> Node_Next z' p i = Node_Next z p i) \<and> (\<forall>p > x. sl_heap z' p = None) \<and>
    sl_prev z' = sl_prev z \<and> sl_max_height z' = sl_max_height z"
  using assms by (auto simp: NewNode_def Let_def sl_nodes_def sl_ext_def nkey_def nheight_def Node_Next_def)

context key_order
begin

lemma key_sorted_distinct: "key_sorted z xs \<Longrightarrow> (\<And>p. p \<in> set xs \<Longrightarrow> keyed K z p) \<Longrightarrow> distinct xs"
  by (induction xs) (auto simp: keyed_def refl)

lemma sl_rep_D:
  assumes "sl_rep compare K z ps"
  shows "sl_levels compare K z (\<lambda>i. at_level z i ps) \<and> sl_nodes z ps \<and> at_level z 0 ps = ps \<and> key_sorted z ps \<and>
    (\<forall>p \<in> set ps. keyed K z p) \<and> distinct ps \<and> 1 \<le> kMaxHeight z"
proof -
  have lv: "sl_levels compare K z (\<lambda>i. at_level z i ps)" and nd: "sl_nodes z ps"
    using assms by (simp_all add: sl_rep_def)
  have M: "0 < kMaxHeight z" using lv by (auto simp: sl_levels_def)
  have l0: "at_level z 0 ps = ps" by (rule at_level_0 [OF nd])
  have "\<forall>p \<in> set ps. keyed K z p" using sl_levels_keyed [OF lv M] l0 by simp
  moreover have "key_sorted z ps" using sl_levels_sorted [OF lv M] l0 by simp
  ultimately show ?thesis using lv nd l0 M key_sorted_distinct by auto
qed

text \<open>The state once the new node is allocated.\<close>

lemma linking_start:
  assumes lv: "sl_levels compare K z (\<lambda>i. at_level z i (as @ bs))" and nd: "sl_nodes z (as @ bs)" and pf: "prev_found z as"
    and x: "NewNode t h z = (x, z')" and h: "1 \<le> h" "h \<le> sl_max_height z" and t: "t \<in> K"
    and sorted: "key_sorted z (as @ bs)" and keyed: "\<And>p. p \<in> set (as @ bs) \<Longrightarrow> keyed K z p"
    and lo: "\<And>p. p \<in> set as \<Longrightarrow> lt_node z t p" and hi: "\<And>p. p \<in> set bs \<Longrightarrow> compare t (nkey z p) < 0"
  shows "nkey z' x = t \<and> sl_ext z z' \<and> sl_linking compare K z' as bs x h 0"
proof -
  have M: "1 \<le> kMaxHeight z" using lv by (auto simp: sl_levels_def)
  have nn: "x = sl_brk z" "sl_ext z z'" "sl_brk z' = Suc (sl_brk z)" "nkey z' x = t" "nheight z' x = h" "sl_heap z' x \<noteq> None"
    "sl_heap z x = None" "\<And>p i. p \<noteq> x \<Longrightarrow> Node_Next z' p i = Node_Next z p i" "\<And>p. x < p \<Longrightarrow> sl_heap z' p = None"
    "sl_prev z' = sl_prev z" "sl_max_height z' = sl_max_height z"
    using NewNode_ok [OF nd x M] by auto
  have e: "sl_head z' = sl_head z" "kMaxHeight z' = kMaxHeight z" using nn(2) by (simp_all add: sl_ext_def)
  have hh: "nheight z' p = nheight z p \<and> nkey z' p = nkey z p \<and> p \<noteq> x \<and> keyed K z' p" if "p \<in> set (as @ bs)" for p
    using sl_ext_keyed [OF nn(2) keyed [OF that]] keyed [OF that] nn(7) by (auto simp: keyed_def)
  have hd: "nheight z' (sl_head z) = kMaxHeight z" "x \<noteq> sl_head z"
    using nn(2) nd M nn(7) nheight_in_heap [of z "sl_head z"] by (auto simp: sl_ext_def sl_nodes_def)
  have al: "at_level z' i as = at_level z i as" "at_level z' i bs = at_level z i bs" for i
    using hh by (auto simp: at_level_def intro!: filter_cong)
  have "sl_levels compare K z' (\<lambda>i. at_level z i (as @ bs))"
    using lv nn(2)
  proof (rule sl_levels_frame)
    show "Node_Next z' p i = Node_Next z p i" if "p \<in> set (sl_head z # at_level z i (as @ bs))" for i p
      using that nn(8) hd hh by (auto simp: at_level_def)
  qed (use lv nn(11) in \<open>auto simp: sl_levels_def\<close>)
  then have "sl_levels compare K z' (link_levels z' as bs x 0)"
    by (simp add: link_levels_def [abs_def] al at_level_append)
  moreover have "p < sl_brk z' \<and> 1 \<le> nheight z' p \<and> nheight z' p \<le> sl_max_height z'" if "p \<in> set (as @ x # bs)" for p
  proof (cases "p = x")
    case False
    then have p: "p \<in> set (as @ bs)" using that by simp
    have "p < sl_brk z \<and> 1 \<le> nheight z p \<and> nheight z p \<le> sl_max_height z" using nd p unfolding sl_nodes_def by blast
    then show ?thesis using hh [OF p] nn(3,11) by simp
  qed (use nn(1,3,5,11) h in simp)
  then have "sl_nodes z' (as @ x # bs)"
    using nd nn(1,3,9) hd(1) e by (simp add: sl_nodes_def Suc_le_eq)
  moreover have "prev_found z' as"
    using pf nn(10,11) e al by (simp add: prev_found_def pred_of_def)
  moreover have "keyed K z' x"
    using nn hd e t nd sl_levels_head [OF lv] by (auto simp: keyed_def sl_nodes_def)
  moreover have "distinct (as @ x # bs)"
    using key_sorted_distinct [OF sorted keyed] hh by auto
  moreover have "key_sorted z' (as @ bs)"
    using sorted_wrt_mono_rel [OF _ sorted] hh by (metis (no_types, lifting))
  then have "key_sorted z' (as @ x # bs)"
    using lo hi hh nn(4) by (auto simp: sorted_wrt_append)
  ultimately show ?thesis using nn(2,4,5) by (simp add: sl_linking_def)
qed

lemma Insert_no_duplicate_ok:
  assumes "sl_levels compare K z (\<lambda>i. at_level z i (as @ bs))" "sl_nodes z (as @ bs)" "prev_found z as"
    and "\<And>p. p \<in> set bs \<Longrightarrow> keyed K z p \<and> compare t (nkey z p) < 0"
  shows "Insert_no_duplicate compare t z = Some ()"
proof -
  have M: "0 < kMaxHeight z" "0 < sl_max_height z" using assms(1) by (auto simp: sl_levels_def)
  have "at_level z 0 as = as" "at_level z 0 (as @ bs) = as @ bs"
    using assms(2) by (auto intro!: at_level_0 simp: sl_nodes_def)
  then have "aget (sl_prev z) 0 = Some (pred_of z as)" "Node_Next z (pred_of z as) 0 = Some (first bs)"
    using assms(3) M next_of_border [OF assms(1) M(1)] by (simp_all add: prev_found_def aget_def)
  then show ?thesis using assms(4) [of "hd bs"]
    by (cases bs) (auto simp: Insert_no_duplicate_def Node_key_keyed keyed_nonzero)
qed

text \<open>The members \<open>prev_\<close> and \<open>max_height_\<close> are not part of the nodes.\<close>

lemma sl_members:
  assumes "sl_levels compare K z lv" "sl_nodes z ps" "sl_max_height z \<le> m" "m \<le> kMaxHeight z" "z' = z\<lparr>sl_prev := p, sl_max_height := m\<rparr>"
  shows "sl_levels compare K z' lv \<and> sl_nodes z' ps \<and> sl_ext z z' \<and> nkey z' = nkey z \<and> nheight z' = nheight z \<and>
    keyed K z' = keyed K z \<and> at_level z' = at_level z"
proof -
  have n: "nkey z' = nkey z" "nheight z' = nheight z" "Node_Next z' = Node_Next z"
    using assms(5) by (simp_all add: nkey_def nheight_def Node_Next_def fun_eq_iff)
  then have e: "sl_ext z z'" "keyed K z' = keyed K z" using assms(5) by (auto simp: sl_ext_def keyed_def)
  then have "sl_levels compare K z' lv"
    using assms n by (intro sl_levels_frame [OF assms(1) e(1)]) (auto simp: sl_levels_def)
  then show ?thesis using assms n e by (fastforce simp: sl_nodes_def)
qed

lemma Insert_begin_ok:
  assumes rep: "sl_rep compare K z ps" and t: "t \<in> K" and new: "\<And>p. p \<in> set ps \<Longrightarrow> compare t (nkey z p) \<noteq> 0"
    and rs: "kMaxHeight z - 1 \<le> length rs"
  shows "\<exists>x h rs' z'. Insert_begin compare t rs z = Some (x, h, rs', z') \<and> nkey z' x = t \<and> sl_ext z z' \<and>
    sl_linking compare K z' (takeWhile (lt_node z t) ps) (dropWhile (lt_node z t) ps) x h 0 \<and>
    length rs \<le> length rs' + (kMaxHeight z - 1)"
proof -
  define as bs where "as = takeWhile (lt_node z t) ps" and "bs = dropWhile (lt_node z t) ps"
  have ps: "ps = as @ bs" by (simp add: as_def bs_def)
  have lv: "sl_levels compare K z (\<lambda>i. at_level z i ps)" and nd: "sl_nodes z ps" and sorted: "key_sorted z ps"
    and keyed: "\<And>p. p \<in> set ps \<Longrightarrow> keyed K z p" and M: "1 \<le> kMaxHeight z" "sl_max_height z \<le> kMaxHeight z"
    using sl_rep_D [OF rep] by (auto simp: sl_levels_def)
  have lo: "lt_node z t p" if "p \<in> set as" for p using that set_takeWhileD unfolding as_def by fast
  have hi: "compare t (nkey z p) < 0" if "p \<in> set bs" for p
  proof -
    have "bs = filter (\<lambda>p. \<not> lt_node z t p) ps"
      using border_filter [OF sorted _ t] keyed by (simp add: bs_def)
    then have p: "p \<in> set ps" "\<not> lt_node z t p" "nkey z p \<in> K"
      using that keyed [of p] by (simp_all add: keyed_def)
    then show ?thesis using new [OF p(1)] flip [OF t p(3)] flip [OF p(3) t] by linarith
  qed
  obtain q where q: "Insert_prev compare t z = Some (z\<lparr>sl_prev := q\<rparr>)" "prev_found (z\<lparr>sl_prev := q\<rparr>) as"
    using Insert_prev_ok [OF rep t] unfolding as_def by blast
  define z1 where "z1 = z\<lparr>sl_prev := q\<rparr>"
  have z1: "sl_levels compare K z1 (\<lambda>i. at_level z i ps)" "sl_nodes z1 ps" "sl_ext z z1" "nkey z1 = nkey z" "nheight z1 = nheight z"
      "keyed K z1 = keyed K z" "at_level z1 = at_level z" "kMaxHeight z1 = kMaxHeight z" "sl_max_height z1 = sl_max_height z"
    using sl_members [OF lv nd order_refl M(2), of z1 q] by (simp_all add: z1_def)
  have dup: "Insert_no_duplicate compare t z1 = Some ()"
    using z1 ps q(2) keyed hi by (intro Insert_no_duplicate_ok [of _ as bs]) (auto simp: z1_def [symmetric])
  obtain h rs' where h: "RandomHeight z1 rs = Some (h, rs')" "1 \<le> h" "h \<le> kMaxHeight z" "length rs \<le> length rs' + (kMaxHeight z - 1)"
    using RandomHeight_ok [of z1 rs] M rs z1 by auto
  have "\<forall>p \<in> set as. nheight z1 p \<le> sl_max_height z1" using z1(2) ps by (auto simp: sl_nodes_def)
  then obtain r where r: "Insert_raise h z1 = Some (z1\<lparr>sl_prev := r, sl_max_height := max (sl_max_height z1) h\<rparr>)"
    "prev_found (z1\<lparr>sl_prev := r, sl_max_height := max (sl_max_height z1) h\<rparr>) as"
    using Insert_raise_ok [of z1 as h] q(2) h(3) z1(8) by (auto simp: z1_def [symmetric])
  define z2 where "z2 = z1\<lparr>sl_prev := r, sl_max_height := max (sl_max_height z1) h\<rparr>"
  have z2: "sl_levels compare K z2 (\<lambda>i. at_level z i ps)" "sl_nodes z2 ps" "sl_ext z1 z2" "nkey z2 = nkey z" "at_level z2 = at_level z"
      "keyed K z2 = keyed K z" "h \<le> sl_max_height z2"
    using sl_members [OF z1(1,2) _ _ z2_def] z1 h(3) M by (simp_all add: z2_def)
  obtain x z' where x: "NewNode t h z2 = (x, z')" by fastforce
  have "nkey z' x = t \<and> sl_ext z2 z' \<and> sl_linking compare K z' as bs x h 0"
    using z2 r(2) ps h(2) t sorted keyed lo hi
    by (intro linking_start [OF _ _ _ x]) (auto simp: z2_def [symmetric])
  moreover have "Insert_begin compare t rs z = Some (x, h, rs', z')"
    using q(1) dup h(1) r(1) x by (simp add: Insert_begin_def z1_def [symmetric] z2_def [symmetric])
  ultimately show ?thesis
    using h(4) sl_ext_trans [OF sl_ext_trans [OF z1(3) z2(3)]] unfolding as_def bs_def by blast
qed

end


text \<open>Insertion into the sorted list of the keys.\<close>

definition key_insert :: "'k comparator \<Rightarrow> 'k \<Rightarrow> 'k list \<Rightarrow> 'k list" where
  "key_insert compare t ks = takeWhile (\<lambda>k. compare k t < 0) ks @ t # dropWhile (\<lambda>k. compare k t < 0) ks"

lemma mset_key_insert: "mset (key_insert compare t ks) = add_mset t (mset ks)"
  unfolding key_insert_def by (metis mset_append mset.simps(2) takeWhile_dropWhile_id union_mset_add_mset_right)

lemma set_key_insert: "set (key_insert compare t ks) = insert t (set ks)"
  using mset_key_insert [of compare t ks] by (metis set_mset_add_mset_insert set_mset_mset)

lemma sl_ext_map: "sl_ext z z' \<Longrightarrow> \<forall>p \<in> set ps. keyed K z p \<Longrightarrow> map (nkey z') ps = map (nkey z) ps"
  using sl_ext_keyed by fastforce

context key_order
begin

lemma Insert_end_ok:
  assumes "sl_linking compare K z as bs x h h"
  shows "\<exists>z'. Insert_end x h z = Some z' \<and> sl_rep compare K z' (as @ x # bs) \<and> sl_ext z z'"
proof -
  have lv: "sl_levels compare K z (link_levels z as bs x h)" and nd: "sl_nodes z (as @ x # bs)" and pf: "prev_found z as"
    and h: "nheight z x = h" using assms by (simp_all add: sl_linking_def)
  have M: "0 < kMaxHeight z" "1 \<le> sl_max_height z" "sl_max_height z \<le> kMaxHeight z" using lv by (auto simp: sl_levels_def)
  have len: "length (sl_prev z) = kMaxHeight z" using pf by (simp add: prev_found_def)
  define z' where "z' = z\<lparr>sl_prev := (sl_prev z)[0 := Some x], sl_prev_height := h\<rparr>"
  have f: "sl_head z' = sl_head z" "kMaxHeight z' = kMaxHeight z" "sl_max_height z' = sl_max_height z" "sl_brk z' = sl_brk z" "sl_heap z' = sl_heap z"
    "sl_prev z' = (sl_prev z)[0 := Some x]" "sl_prev_height z' = h" by (simp_all add: z'_def)
  have n: "nkey z' = nkey z" "nheight z' = nheight z" "Node_Next z' = Node_Next z" "at_level z' = at_level z" "pred_of z' = pred_of z"
    using f(1,5) by (simp_all add: nkey_def nheight_def Node_Next_def at_level_def pred_of_def fun_eq_iff)
  have ext: "sl_ext z z'" using n f by (simp add: sl_ext_def)
  have "link_levels z as bs x h = (\<lambda>i. at_level z' i (as @ x # bs))"
    using h n by (auto simp: link_levels_def at_level_def fun_eq_iff)
  then have "sl_levels compare K z' (\<lambda>i. at_level z' i (as @ x # bs))"
    using sl_levels_frame [OF lv ext] n(3) f(3) M by simp
  moreover have "sl_nodes z' (as @ x # bs)" using nd f n by (simp add: sl_nodes_def)
  moreover have "prev_cache z' (as @ x # bs)" unfolding prev_cache_def f n
    using pf len M h by (intro conjI disjI2 exI [of _ as] exI [of _ x] exI [of _ bs]) (auto simp: prev_found_def)
  moreover have "Insert_end x h z = Some z'" using len M by (simp add: Insert_end_def aset_def z'_def)
  ultimately show ?thesis using ext by (auto simp: sl_rep_def)
qed

lemma Insert_ok:
  assumes rep: "sl_rep compare K z ps" and t: "t \<in> K" and new: "\<And>k. k \<in> nkey z ` set ps \<Longrightarrow> compare t k \<noteq> 0"
    and rs: "kMaxHeight z - 1 \<le> length rs"
  shows "\<exists>rs' z' ps'. Insert compare t (rs, z) = Some (rs', z') \<and> sl_rep compare K z' ps' \<and>
    map (nkey z') ps' = key_insert compare t (map (nkey z) ps) \<and> kMaxHeight z' = kMaxHeight z \<and>
    length rs \<le> length rs' + (kMaxHeight z - 1)"
proof -
  define as bs where "as = takeWhile (lt_node z t) ps" and "bs = dropWhile (lt_node z t) ps"
  have ps: "ps = as @ bs" by (simp add: as_def bs_def)
  obtain x h rs' z1 where 1: "Insert_begin compare t rs z = Some (x, h, rs', z1)" "nkey z1 x = t" "sl_ext z z1"
    "sl_linking compare K z1 as bs x h 0" "length rs \<le> length rs' + (kMaxHeight z - 1)"
    using Insert_begin_ok [OF rep t new rs] unfolding as_def bs_def by blast
  obtain z2 where 2: "Insert_link x 0 h z1 = Some z2" "sl_linking compare K z2 as bs x h h" "sl_ext z1 z2"
    using Insert_link_ok [OF 1(4)] by auto
  obtain z3 where 3: "Insert_end x h z2 = Some z3" "sl_rep compare K z3 (as @ x # bs)" "sl_ext z2 z3"
    using Insert_end_ok [OF 2(2)] by auto
  have e: "sl_ext z1 z3" "sl_ext z z3" using 1(3) 2(3) 3(3) sl_ext_trans by blast+
  have "keyed K z1 x" using 1(4) by (simp add: sl_linking_def)
  then have "nkey z3 x = t" using sl_ext_keyed [OF e(1)] 1(2) by simp
  moreover have "map (nkey z3) as = map (nkey z) as" "map (nkey z3) bs = map (nkey z) bs"
    using sl_rep_D [OF rep] sl_ext_map [OF e(2), of as K] sl_ext_map [OF e(2), of bs K] ps by simp_all
  ultimately have "map (nkey z3) (as @ x # bs) = key_insert compare t (map (nkey z) ps)"
    by (simp add: key_insert_def as_def bs_def takeWhile_map dropWhile_map comp_def)
  moreover have "Insert compare t (rs, z) = Some (rs', z3)" using 1 2 3 by (simp add: Insert_def)
  ultimately show ?thesis using 3(2) 1(5) e(2) by (auto simp: sl_ext_def)
qed

lemma worker_write_ok:
  assumes "sl_rep compare K z ps" "set keys \<subseteq> K" "sorted_wrt (\<lambda>a b. compare b a \<noteq> 0) keys"
    and "\<And>k a. k \<in> set keys \<Longrightarrow> a \<in> nkey z ` set ps \<Longrightarrow> compare k a \<noteq> 0" "length keys * (kMaxHeight z - 1) \<le> length rs"
  shows "\<exists>rs' z' ps'. worker_write compare keys (rs, z) = Some (rs', z') \<and> sl_rep compare K z' ps' \<and>
    map (nkey z') ps' = fold (key_insert compare) keys (map (nkey z) ps)"
  using assms
proof (induction keys arbitrary: rs z ps)
  case (Cons t keys)
  obtain rs1 z1 ps1 where 1: "Insert compare t (rs, z) = Some (rs1, z1)" "sl_rep compare K z1 ps1"
    "map (nkey z1) ps1 = key_insert compare t (map (nkey z) ps)" "kMaxHeight z1 = kMaxHeight z" "length rs \<le> length rs1 + (kMaxHeight z - 1)"
    using Insert_ok [OF Cons.prems(1), of t rs] Cons.prems by auto
  have "nkey z1 ` set ps1 = insert t (nkey z ` set ps)"
    using arg_cong [OF 1(3), of set] by (simp add: set_key_insert)
  then have "\<exists>rs' z' ps'. worker_write compare keys (rs1, z1) = Some (rs', z') \<and> sl_rep compare K z' ps' \<and>
    map (nkey z') ps' = fold (key_insert compare) keys (map (nkey z1) ps1)"
    using Cons.prems 1 by (intro Cons.IH) auto
  then show ?case using 1 by (simp add: worker_write_def)
qed (auto simp: worker_write_def)

end


section \<open>Construction\<close>

definition cells :: "nat \<Rightarrow> 'a \<Rightarrow> nat \<Rightarrow> 'a option list" where
  "cells m a i = map (\<lambda>j. if j < i then Some a else None) [0..<m]"

lemma cells_ends: "cells m a 0 = replicate m None" "cells m a m = replicate m (Some a)"
  by (auto simp: cells_def intro: nth_equalityI)

lemma cells_set: "i < m \<Longrightarrow> aset (cells m a i) i a = Some (cells m a (Suc i))"
  by (auto simp: cells_def aset_def nth_list_update less_Suc_eq intro!: nth_equalityI)

lemma ctor_fold:
  assumes "i \<le> m" "sl_heap z h = Some nd" "nd_next nd = replicate m None" "sl_prev z = replicate m None"
  shows "fold (\<lambda>i z. do { z \<leftarrow> z; z \<leftarrow> Node_SetNext h i 0 z; p \<leftarrow> aset (sl_prev z) i h; Some (z\<lparr>sl_prev := p\<rparr>) }) [0..<i] (Some z) =
    Some (z\<lparr>sl_heap := (sl_heap z)(h \<mapsto> nd\<lparr>nd_next := cells m 0 i\<rparr>), sl_prev := cells m h i\<rparr>)"
  using assms(1)
proof (induction i)
  case 0
  have "nd\<lparr>nd_next := replicate m None\<rparr> = nd" using assms(3) by (metis Node.surjective Node.update_convs(2))
  then have "(sl_heap z)(h \<mapsto> nd\<lparr>nd_next := cells m 0 0\<rparr>) = sl_heap z"
    using assms(2) by (simp add: cells_ends fun_upd_idem)
  then show ?case using assms(4) by (simp add: cells_ends)
next
  case (Suc i)
  then have "i < m" by simp
  then show ?case using Suc by (simp add: Node_SetNext_def cells_set fun_upd_def cong: if_cong)
qed

lemma scaled_positive:
  assumes "0 < b" "b < 2 ^ 16"
  shows "(0 :: u32) < 0xFFFFFFFF div of_nat b"
proof -
  have "unat (of_nat b :: u32) = b" using assms(2) by (intro unat_of_nat_u32) simp
  then have "unat ((0xFFFFFFFF :: u32) div of_nat b) = 4294967295 div b" by (simp add: unat_div)
  moreover have "0 < 4294967295 div b" using assms by (simp add: div_greater_zero_iff)
  ultimately show ?thesis by (simp add: word_less_nat_alt)
qed

lemma SkipList_ctor_ok:
  assumes "0 < mh" "mh < 2 ^ 16" "0 < bf" "bf < 2 ^ 16"
  shows "\<exists>z. SkipList_ctor k0 mh bf = Some z \<and> sl_rep compare K z [] \<and> kMaxHeight z = nat mh"
proof -
  define m b where "m = nat mh" and "b = nat bf"
  have mb: "nat (mh mod 2 ^ 16) = m" "nat (bf mod 2 ^ 16) = b" "0 < m" "m < 2 ^ 16" "0 < b" "b < 2 ^ 16" "int m = mh mod 2 ^ 32" "int b = bf mod 2 ^ 32"
    using assms by (simp_all add: m_def b_def)
  define nd where "nd = \<lparr>nd_key = k0, nd_next = replicate m (None :: ptr option)\<rparr>"
  define z where "z = \<lparr>kMaxHeight = m, kBranching = b, kScaledInverseBranching = 0xFFFFFFFF div of_nat b, sl_head = 1,
     sl_max_height = 1, sl_prev = replicate m None, sl_prev_height = 1, sl_heap = [1 \<mapsto> nd], sl_brk = 1 + 1\<rparr>"
  define z' where "z' = z\<lparr>sl_heap := [1 \<mapsto> nd\<lparr>nd_next := replicate m (Some 0)\<rparr>], sl_prev := replicate m (Some 1)\<rparr>"
  have "SkipList_ctor k0 mh bf = Some z'"
    unfolding SkipList_ctor_def NewNode_def Let_def mb(1,2)
    using ctor_fold [OF order_refl, of z 1 nd m] assms mb scaled_positive [OF mb(5,6)]
    by (simp add: m_def [symmetric] z_def z'_def nd_def cells_ends)
  moreover have "sl_rep compare K z' []"
    using mb(3) by (auto simp: sl_rep_def sl_levels_def sl_nodes_def prev_cache_def at_level_def z'_def z_def nheight_def
        Node_Next_def aget_def numeral_2_eq_2)
  moreover have "kMaxHeight z' = nat mh" by (simp add: z'_def z_def m_def)
  ultimately show ?thesis by blast
qed


section \<open>Reading\<close>

definition last_or_null :: "ptr list \<Rightarrow> ptr" where
  "last_or_null us = (if us = [] then 0 else last us)"

lemma dump_loop:
  assumes "chain (\<lambda>x. Node_Next z x 0) xs" "\<And>p. p \<in> set xs \<Longrightarrow> keyed K z p"
  shows "loop_until (dump_step z) (first xs, out) = Some (out @ map (nkey z) xs)"
  using assms
proof (induction xs arbitrary: out)
  case Nil
  then show ?case by (simp add: loop_until_Inr dump_step_def Iterator_Valid_def)
next
  case (Cons x xs)
  then have "keyed K z x" by simp
  then have "dump_step z (x, out) = Some (Inl (first xs, out @ [nkey z x]))"
    using Cons.prems(1) by (simp add: dump_step_def Iterator_Valid_def Iterator_key_def Iterator_Next_def Node_key_keyed keyed_nonzero)
  then show ?case using Cons by (simp add: loop_until_Inl)
qed

context key_order
begin

lemma FindGreaterOrEqual_equal:
  assumes "sl_levels compare K z lv" "t \<in> K"
  shows "first (dropWhile (lt_node z t) (lv 0)) \<noteq> 0 \<and> compare t (nkey z (first (dropWhile (lt_node z t) (lv 0)))) = 0 \<longleftrightarrow>
    (\<exists>p \<in> set (lv 0). compare t (nkey z p) = 0)" (is "?l \<longleftrightarrow> ?r")
proof
  assume ?l
  then obtain b bs where d: "dropWhile (lt_node z t) (lv 0) = b # bs" by (cases "dropWhile (lt_node z t) (lv 0)") auto
  then have "b \<in> set (lv 0)" by (metis list.set_intros(1) set_dropWhileD)
  then show ?r using \<open>?l\<close> d by auto
next
  assume ?r
  then obtain p where p: "p \<in> set (lv 0)" "compare t (nkey z p) = 0" by blast
  have M: "0 < kMaxHeight z" using assms(1) by (auto simp: sl_levels_def)
  have k: "keyed K z p" by (rule sl_levels_keyed [OF assms(1) M p(1)])
  then have "first (dropWhile (lt_node z t) (lv 0)) = p"
    using equal_is_first [OF assms(1) M p(1) _ assms(2)] eq_sym [OF assms(2) _ p(2)] by (simp add: keyed_def)
  then show ?l using p k by (simp add: keyed_def)
qed

lemma first_keyed:
  assumes "sl_levels compare K z lv" "first (dropWhile (lt_node z t) (lv 0)) \<noteq> 0"
  shows "keyed K z (first (dropWhile (lt_node z t) (lv 0)))"
proof -
  have M: "0 < kMaxHeight z" using assms(1) by (auto simp: sl_levels_def)
  obtain b bs where d: "dropWhile (lt_node z t) (lv 0) = b # bs" using assms(2) by (cases "dropWhile (lt_node z t) (lv 0)") auto
  then have "b \<in> set (lv 0)" by (metis list.set_intros(1) set_dropWhileD)
  then show ?thesis using sl_levels_keyed [OF assms(1) M] d by simp
qed

lemma Contains_ok:
  assumes "sl_rep compare K z ps" "t \<in> K"
  shows "Contains compare z t = Some (\<exists>p \<in> set ps. compare t (nkey z p) = 0)"
proof -
  have lv: "sl_levels compare K z (\<lambda>i. at_level z i ps)" and l0: "at_level z 0 ps = ps" using sl_rep_D [OF assms(1)] by auto
  show ?thesis
    using FindGreaterOrEqual_ok [OF lv assms(2)] FindGreaterOrEqual_equal [OF lv assms(2)] first_keyed [OF lv, of t]
    by (auto simp: Contains_def l0 Node_key_keyed)
qed

lemma dump_ok:
  assumes "sl_rep compare K z ps"
  shows "dump z = Some (map (nkey z) ps)"
proof -
  have lv: "sl_levels compare K z (\<lambda>i. at_level z i ps)" and l0: "at_level z 0 ps = ps" and M: "0 < kMaxHeight z"
    and k: "\<forall>p \<in> set ps. keyed K z p" using sl_rep_D [OF assms] by auto
  have "chain (\<lambda>x. Node_Next z x 0) (sl_head z # ps)" using sl_levels_chain [OF lv M] l0 by simp
  then show ?thesis using dump_loop [of z ps K "[]"] k by (simp add: dump_def Iterator_SeekToFirst_def)
qed

lemma Iterator_Next_ok:
  assumes "sl_rep compare K z (us @ p # vs)"
  shows "Iterator_Next z p = Some (first vs)"
proof -
  note r = sl_rep_D [OF assms]
  have "chain (\<lambda>x. Node_Next z x 0) ((sl_head z # us) @ p # vs)"
    using r sl_levels_chain [of compare K z _ 0] by fastforce
  then have "Node_Next z p 0 = Some (first vs)" by (rule chain_next)
  moreover have "0 < p" using r by (auto simp: keyed_def)
  ultimately show ?thesis by (simp add: Iterator_Next_def Iterator_Valid_def)
qed

lemma Iterator_Prev_ok:
  assumes "sl_rep compare K z (us @ p # vs)"
  shows "Iterator_Prev compare z p = Some (last_or_null us)"
proof -
  note r = sl_rep_D [OF assms]
  have k: "keyed K z q" if "q \<in> set (us @ p # vs)" for q using r that by blast
  have "lt_node z (nkey z p) q" if "q \<in> set us" for q using r that by (auto simp: sorted_wrt_append)
  then have "takeWhile (lt_node z (nkey z p)) (us @ p # vs) = us"
    using refl [of "nkey z p"] k [of p] by (auto simp: takeWhile_append keyed_def)
  then have "FindLessThan compare z (nkey z p) None = Some (pred_of z us, None)"
    using FindLessThan_ok [of z "\<lambda>i. at_level z i (us @ p # vs)" "nkey z p" None] r k [of p] by (simp add: keyed_def)
  moreover have "(if pred_of z us = sl_head z then 0 else pred_of z us) = last_or_null us"
    using k [of "last us"] by (auto simp: pred_of_def last_or_null_def keyed_def)
  ultimately show ?thesis
    using k [of p] by (simp add: Iterator_Prev_def Iterator_Valid_def Node_key_keyed keyed_nonzero)
qed

lemma Iterator_SeekToLast_ok:
  assumes "sl_rep compare K z ps"
  shows "Iterator_SeekToLast z = Some (last_or_null ps)"
proof -
  note r = sl_rep_D [OF assms]
  have "FindLast z = Some (pred_of z ps)" using FindLast_ok [of z "\<lambda>i. at_level z i ps"] r by auto
  moreover have "(if pred_of z ps = sl_head z then 0 else pred_of z ps) = last_or_null ps"
    using r by (auto simp: pred_of_def last_or_null_def keyed_def)
  ultimately show ?thesis by (simp add: Iterator_SeekToLast_def)
qed

lemma Iterator_Seek_ok:
  assumes "sl_rep compare K z ps" "t \<in> K"
  shows "Iterator_Seek compare z t = Some (first (dropWhile (lt_node z t) ps))"
  using FindGreaterOrEqual_ok [of z "\<lambda>i. at_level z i ps" t] sl_rep_D [OF assms(1)] assms(2) by (auto simp: Iterator_Seek_def)

lemma SeekForPrev_stays:
  assumes "it = last_or_null us" "us \<noteq> [] \<Longrightarrow> keyed K z (last us) \<and> \<not> compare t (nkey z (last us)) < 0"
  shows "loop_until (SeekForPrev_step compare z t) it = Some (last_or_null us)"
  using assms by (cases "us = []")
    (auto simp: loop_until_Inr SeekForPrev_step_def Iterator_Valid_def last_or_null_def Iterator_key_def Node_key_keyed keyed_nonzero)

lemma Iterator_SeekForPrev_ok:
  assumes rep: "sl_rep compare K z ps" and t: "t \<in> K"
  shows "Iterator_SeekForPrev compare z t = Some (last_or_null (filter (\<lambda>p. compare (nkey z p) t \<le> 0) ps))"
proof -
  define as bs where "as = takeWhile (lt_node z t) ps" and "bs = dropWhile (lt_node z t) ps"
  have ps: "ps = as @ bs" by (simp add: as_def bs_def)
  have S: "Iterator_Seek compare z t = Some (first bs)" unfolding bs_def by (rule Iterator_Seek_ok [OF rep t])
  note r = sl_rep_D [OF rep]
  have k: "keyed K z p" "nkey z p \<in> K" if "p \<in> set ps" for p using r that by (auto simp: keyed_def)
  have lo: "lt_node z t p" if "p \<in> set as" for p using that set_takeWhileD unfolding as_def by fast
  have down: "loop_until (SeekForPrev_step compare z t) (last_or_null as) = Some (last_or_null as)"
  proof (rule SeekForPrev_stays)
    assume "as \<noteq> []"
    then have l: "last as \<in> set as" "last as \<in> set ps" using ps by auto
    then show "keyed K z (last as) \<and> \<not> compare t (nkey z (last as)) < 0"
      using lo [OF l(1)] k [OF l(2)] flip [OF k(2) [OF l(2)] t] by simp
  qed simp
  show ?thesis
  proof (cases bs)
    case Nil
    then have "ps = as" using ps by simp
    then have "filter (\<lambda>p. compare (nkey z p) t \<le> 0) ps = as" using lo by (simp add: filter_id_conv less_imp_le)
    then show ?thesis
      using S Iterator_SeekToLast_ok [OF rep] down Nil \<open>ps = as\<close>
      by (simp add: Iterator_SeekForPrev_def Iterator_Valid_def)
  next
    case (Cons b bs')
    have b: "keyed K z b" "nkey z b \<in> K" "b \<noteq> 0" using k [of b] ps Cons by (auto simp: keyed_nonzero)
    have nb: "\<not> lt_node z t b" using Cons unfolding bs_def by (simp add: dropWhile_eq_Cons_conv)
    have gt: "0 < compare (nkey z p) t" if "p \<in> set bs'" for p
    proof (rule ccontr)
      assume "\<not> 0 < compare (nkey z p) t"
      moreover have "compare (nkey z b) (nkey z p) < 0" using r that ps Cons by (simp add: sorted_wrt_append)
      moreover have "nkey z p \<in> K" using k(2) that ps Cons by simp
      ultimately show False using lt_le_trans [OF b(2) _ t] nb by (simp add: not_less)
    qed
    have seek: "Iterator_SeekForPrev compare z t = loop_until (SeekForPrev_step compare z t) b"
      using S Cons b by (simp add: Iterator_SeekForPrev_def Iterator_Valid_def)
    have "filter (\<lambda>p. compare (nkey z p) t \<le> 0) as = as" using lo by (simp add: filter_id_conv less_imp_le)
    moreover have "filter (\<lambda>p. compare (nkey z p) t \<le> 0) bs' = []" using gt by (simp add: filter_empty_conv not_le)
    ultimately have f: "filter (\<lambda>p. compare (nkey z p) t \<le> 0) ps = as @ (if compare (nkey z b) t \<le> 0 then [b] else [])"
      using ps Cons by simp
    show ?thesis
    proof (cases "compare (nkey z b) t = 0")
      case True
      then show ?thesis using seek f b eq_sym [OF b(2) t True] SeekForPrev_stays [of b "as @ [b]" z t]
        by (simp add: last_or_null_def)
    next
      case False
      then have "compare t (nkey z b) < 0" using nb flip [OF t b(2)] by simp
      then have "SeekForPrev_step compare z t b = Some (Inl (last_or_null as))"
        using b Iterator_Prev_ok [of z as b bs'] rep ps Cons
        by (simp add: SeekForPrev_step_def Iterator_Valid_def Iterator_key_def Node_key_keyed)
      then show ?thesis using seek f False nb down by (simp add: loop_until_Inl)
    qed
  qed
qed

end


context key_order
begin

text \<open>\<open>EstimateCount\<close> returns on every list; on a list with one level in use it is exact.\<close>

lemma EstimateCount_step_ok:
  assumes "sl_levels compare K z lv" "l < kMaxHeight z" "sl_head z # lv l = us @ x # vs" "x = sl_head z \<or> lt_node z t x"
  shows "EstimateCount_step compare z t (x, l, c) =
    Some (if vs = [] \<or> \<not> lt_node z t (hd vs) then (if l = 0 then Inr c else Inl (x, l - 1, c * of_nat (kBranching z)))
          else Inl (hd vs, l, c + 1))"
proof -
  have n: "Node_Next z x l = Some (first vs)"
    using chain_next sl_levels_chain [OF assms(1,2)] assms(3) by fastforce
  have k: "keyed K z p" if "p \<in> set (us @ x # vs)" "p \<noteq> sl_head z" for p
    using that assms(3) [symmetric] sl_levels_keyed [OF assms(1,2), of p] by auto
  have hv: "keyed K z v" if "vs = v # vs'" for v vs'
    using that assms(3) sl_levels_keyed [OF assms(1,2), of v] by (cases us) auto
  have "(if x = sl_head z then Some () else do { k \<leftarrow> Node_key z x; check (compare k t < 0) }) = Some ()"
    using k [of x] assms(4) by (auto simp: Node_key_keyed)
  then show ?thesis
    using n hv by (cases vs) (auto simp: EstimateCount_step_def Node_key_keyed keyed_nonzero not_less)
qed

lemma EstimateCount_returns:
  assumes lv: "sl_levels compare K z lv"
  shows "\<exists>c. EstimateCount compare z t = Some c"
proof -
  have "\<exists>r. loop_until (EstimateCount_step compare z t) (x, l, c) = Some r"
    if "l < kMaxHeight z" "x \<in> set (sl_head z # lv l)" "x = sl_head z \<or> lt_node z t x" for x l c
    using lv that
  proof (induction arbitrary: c rule: search_induct)
    case (step l us x vs)
    note s = EstimateCount_step_ok [OF lv step(1-3), of c]
    show ?case
    proof (cases "vs = [] \<or> \<not> lt_node z t (hd vs)")
      case True
      then show ?thesis using s step(5) by (cases l) (auto simp: loop_until_Inr loop_until_Inl)
    next
      case False
      then show ?thesis using s step(4) [of "hd vs" "tl vs" "c + 1"] by (auto simp: loop_until_Inl)
    qed
  qed
  moreover have "sl_max_height z - 1 < kMaxHeight z" using lv by (auto simp: sl_levels_def)
  ultimately show ?thesis unfolding EstimateCount_def by simp
qed

lemma EstimateCount_exact:
  assumes lv: "sl_levels compare K z lv" and one: "sl_max_height z = 1"
  shows "EstimateCount compare z t = Some (of_nat (length (takeWhile (lt_node z t) (lv 0))))"
proof -
  have M: "0 < kMaxHeight z" using lv by (auto simp: sl_levels_def)
  have "loop_until (EstimateCount_step compare z t) (x, 0, c) = Some (c + of_nat (length (takeWhile (lt_node z t) vs)))"
    if "sl_head z # lv 0 = us @ x # vs" "x = sl_head z \<or> lt_node z t x" for us x vs c
    using that
  proof (induction vs arbitrary: us x c)
    case Nil
    then show ?case using EstimateCount_step_ok [OF lv M Nil] by (simp add: loop_until_Inr)
  next
    case (Cons v vs)
    then show ?case
      using EstimateCount_step_ok [OF lv M Cons.prems, of c] Cons.IH [of "us @ [x]" v "c + 1"]
      by (cases "lt_node z t v") (simp_all add: loop_until_Inr loop_until_Inl algebra_simps)
  qed
  from this [of "[]" "sl_head z" "lv 0" 0] show ?thesis using one by (simp add: EstimateCount_def)
qed

end

text \<open>The key an iterator stands at, if any.\<close>

definition Iterator_read :: "'k SkipList \<Rightarrow> iter \<Rightarrow> 'k option option" where
  "Iterator_read z it = (if Iterator_Valid it then map_option Some (Iterator_key z it) else Some None)"

lemma mset_fold_key_insert: "mset (fold (key_insert compare) keys ks) = mset keys + mset ks"
  by (induction keys arbitrary: ks) (auto simp: mset_key_insert)

lemma find_dropWhile: "find (\<lambda>k. \<not> P k) ks = (case dropWhile P ks of [] \<Rightarrow> None | k # _ \<Rightarrow> Some k)"
  by (induction ks) auto

lemma find_rev_filter: "find P (rev ks) = (if filter P ks = [] then None else Some (last (filter P ks)))"
  by (induction ks rule: rev_induct) (auto simp: find_None_iff)

context key_order
begin

lemma Seek_reads:
  assumes "sl_rep compare K z ps" "t \<in> K"
  shows "do { it \<leftarrow> Iterator_Seek compare z t; Iterator_read z it } = Some (find (\<lambda>k. compare k t \<ge> 0) (map (nkey z) ps))"
proof -
  note r = sl_rep_D [OF assms(1)]
  have e: "find (\<lambda>k. compare k t \<ge> 0) (map (nkey z) ps) =
      (case dropWhile (lt_node z t) ps of [] \<Rightarrow> None | p # _ \<Rightarrow> Some (nkey z p))"
    using find_dropWhile [of "\<lambda>k. compare k t < 0" "map (nkey z) ps"]
    by (cases "dropWhile (lt_node z t) ps") (simp_all add: not_less dropWhile_map comp_def del: dropWhile_eq_Nil_conv)
  show ?thesis
  proof (cases "dropWhile (lt_node z t) ps")
    case Nil
    then show ?thesis using Iterator_Seek_ok [OF assms] e
      by (simp add: Iterator_read_def Iterator_Valid_def del: dropWhile_eq_Nil_conv)
  next
    case (Cons p qs)
    then have "keyed K z p" using r by (metis list.set_intros(1) set_dropWhileD)
    then show ?thesis using Iterator_Seek_ok [OF assms] e Cons
      by (simp add: Iterator_read_def Iterator_Valid_def Iterator_key_def Node_key_keyed keyed_nonzero)
  qed
qed

lemma SeekForPrev_reads:
  assumes "sl_rep compare K z ps" "t \<in> K"
  shows "do { it \<leftarrow> Iterator_SeekForPrev compare z t; Iterator_read z it } = Some (find (\<lambda>k. compare k t \<le> 0) (rev (map (nkey z) ps)))"
proof -
  define us where "us = filter (\<lambda>p. compare (nkey z p) t \<le> 0) ps"
  have "filter (\<lambda>k. compare k t \<le> 0) (map (nkey z) ps) = map (nkey z) us" by (simp add: us_def filter_map comp_def)
  then have e: "find (\<lambda>k. compare k t \<le> 0) (rev (map (nkey z) ps)) = (if us = [] then None else Some (nkey z (last us)))"
    by (simp only: find_rev_filter) (simp add: last_map)
  have "keyed K z (last us) \<and> 0 < last us" if "us \<noteq> []"
    using sl_rep_D [OF assms(1)] last_in_set [OF that] by (auto simp: us_def keyed_def)
  then show ?thesis using Iterator_SeekForPrev_ok [OF assms] e
    by (auto simp: us_def [symmetric] Iterator_read_def Iterator_Valid_def last_or_null_def Iterator_key_def Node_key_keyed keyed_nonzero)
qed

lemma SkipList_program:
  assumes "set keys \<subseteq> K" "sorted_wrt (\<lambda>a b. compare b a \<noteq> 0) keys"
    and "0 < mh" "mh < 2 ^ 16" "0 < bf" "bf < 2 ^ 16" "length keys * (nat mh - 1) \<le> length rs"
  shows "\<exists>rs' z out. do { z \<leftarrow> SkipList_ctor k0 mh bf; worker_write compare keys (rs, z) } = Some (rs', z) \<and>
    dump z = Some out \<and> mset out = mset keys \<and> sorted_wrt (\<lambda>a b. compare a b < 0) out \<and>
    (\<forall>t \<in> K. Contains compare z t = Some (\<exists>k \<in> set keys. compare t k = 0) \<and>
       do { it \<leftarrow> Iterator_Seek compare z t; Iterator_read z it } = Some (find (\<lambda>k. compare k t \<ge> 0) out) \<and>
       do { it \<leftarrow> Iterator_SeekForPrev compare z t; Iterator_read z it } = Some (find (\<lambda>k. compare k t \<le> 0) (rev out)))"
proof -
  obtain z0 where z0: "SkipList_ctor k0 mh bf = Some z0" "sl_rep compare K z0 []" "kMaxHeight z0 = nat mh"
    using SkipList_ctor_ok [OF assms(3-6)] by metis
  obtain rs' z ps where z: "worker_write compare keys (rs, z0) = Some (rs', z)" "sl_rep compare K z ps"
    "map (nkey z) ps = fold (key_insert compare) keys []"
    using worker_write_ok [OF z0(2) assms(1,2), of rs] assms(7) z0(3) by auto
  have m: "mset (map (nkey z) ps) = mset keys" using z(3) by (simp add: mset_fold_key_insert)
  then have s: "set keys = nkey z ` set ps" by (metis list.set_map mset_eq_setD)
  have "(\<exists>p \<in> set ps. compare t (nkey z p) = 0) \<longleftrightarrow> (\<exists>k \<in> set keys. compare t k = 0)" for t
    unfolding s by simp
  moreover have "sorted_wrt (\<lambda>a b. compare a b < 0) (map (nkey z) ps)"
    using sl_rep_D [OF z(2)] by (simp add: sorted_wrt_map)
  ultimately show ?thesis
    using z0(1) z(1) m dump_ok [OF z(2)] Contains_ok [OF z(2)] Seek_reads [OF z(2)] SeekForPrev_reads [OF z(2)]
    by (intro exI [of _ rs'] exI [of _ z] exI [of _ "map (nkey z) ps"]) simp
qed

end

lemma IntComparator_small: "a \<in> {- (2 ^ 30)..<2 ^ 30} \<Longrightarrow> b \<in> {- (2 ^ 30)..<2 ^ 30} \<Longrightarrow> IntComparator a b = a - b"
  by (simp add: IntComparator_def)

interpretation int_order: key_order IntComparator "{- (2 ^ 30)..<2 ^ 30}"
  by unfold_locales (auto simp: IntComparator_small)

lemma IntComparator_overflow: "\<not> key_order IntComparator {- (2 ^ 31)..<2 ^ 31}"
proof
  assume "key_order IntComparator {- (2 ^ 31)..<2 ^ 31}"
  then have "IntComparator (- (2 ^ 31)) 1 \<le> 0"
    by (rule key_order.le_trans [of _ _ _ 0]) (simp_all add: IntComparator_def)
  then show False by (simp add: IntComparator_def)
qed

section \<open>Properties\<close>

text \<open>
  C32: For every comparator that orders the keys and every list of pairwise different keys, with any
  random numbers, the skip list built by \<open>Insert\<close> after \<open>Insert\<close> never fails an assertion; a traversal
  then returns exactly the inserted keys in order, \<open>Contains\<close> finds exactly them, \<open>Seek\<close> stops at the
  first key not below its target and \<open>SeekForPrev\<close> at the last one not above it.
\<close>

theorem SkipList_refines_sorted_list:
  assumes "key_order compare K" "set keys \<subseteq> K" "sorted_wrt (\<lambda>a b. compare b a \<noteq> 0) keys"
    and "0 < mh" "mh < 2 ^ 16" "0 < bf" "bf < 2 ^ 16" "length keys * (nat mh - 1) \<le> length rs"
  shows "\<exists>rs' z out. do { z \<leftarrow> SkipList_ctor k0 mh bf; worker_write compare keys (rs, z) } = Some (rs', z) \<and>
    dump z = Some out \<and> mset out = mset keys \<and> sorted_wrt (\<lambda>a b. compare a b < 0) out \<and>
    (\<forall>t \<in> K. Contains compare z t = Some (\<exists>k \<in> set keys. compare t k = 0) \<and>
       do { it \<leftarrow> Iterator_Seek compare z t; Iterator_read z it } = Some (find (\<lambda>k. compare k t \<ge> 0) out) \<and>
       do { it \<leftarrow> Iterator_SeekForPrev compare z t; Iterator_read z it } = Some (find (\<lambda>k. compare k t \<le> 0) (rev out)))"
  using key_order.SkipList_program [OF assms] .

theorem SkipList_refines_sorted_list_witness:
  "\<exists>rs' z out. do { z \<leftarrow> SkipList_ctor 0 12 4; worker_write IntComparator [2, 9, 30, 3, 7] (replicate 55 7, z) } = Some (rs', z) \<and>
     dump z = Some out \<and> mset out = mset [2, 9, 30, 3, 7] \<and> sorted_wrt (\<lambda>a b. IntComparator a b < 0) out \<and>
     Contains IntComparator z 7 = Some True \<and> Contains IntComparator z 8 = Some False"
proof -
  have "\<exists>rs' z out. do { z \<leftarrow> SkipList_ctor 0 12 4; worker_write IntComparator [2, 9, 30, 3, 7] (replicate 55 7, z) } = Some (rs', z) \<and>
    dump z = Some out \<and> mset out = mset [2, 9, 30, 3, 7] \<and> sorted_wrt (\<lambda>a b. IntComparator a b < 0) out \<and>
    (\<forall>t \<in> {- (2 ^ 30)..<2 ^ 30}. Contains IntComparator z t = Some (\<exists>k \<in> set [2, 9, 30, 3, 7]. IntComparator t k = 0) \<and>
       do { it \<leftarrow> Iterator_Seek IntComparator z t; Iterator_read z it } = Some (find (\<lambda>k. IntComparator k t \<ge> 0) out) \<and>
       do { it \<leftarrow> Iterator_SeekForPrev IntComparator z t; Iterator_read z it } = Some (find (\<lambda>k. IntComparator k t \<le> 0) (rev out)))"
    by (rule SkipList_refines_sorted_list [OF int_order.key_order_axioms]) (simp_all add: IntComparator_def)
  then obtain rs' z out where *: "do { z \<leftarrow> SkipList_ctor 0 12 4; worker_write IntComparator [2, 9, 30, 3, 7] (replicate 55 7, z) } = Some (rs', z)"
    "dump z = Some out" "mset out = mset [2, 9, 30, 3, 7]" "sorted_wrt (\<lambda>a b. IntComparator a b < 0) out"
    "\<forall>t \<in> {- (2 ^ 30)..<2 ^ 30}. Contains IntComparator z t = Some (\<exists>k \<in> set [2, 9, 30, 3, 7]. IntComparator t k = 0)"
    by blast
  have "Contains IntComparator z 7 = Some True \<and> Contains IntComparator z 8 = Some False"
    using *(5) by (simp add: IntComparator_def)
  with *(1-4) show ?thesis by blast
qed

end
