(* ===== verification/RdbReaders.thy ===== *)
theory RdbReaders
  imports RdbSkipList
begin

text \<open>
  The skip list of \<^verbatim>\<open>atomic_lock/skiplist.h\<close> with one writer and any number of readers that take no
  lock, as \<^verbatim>\<open>test_skiplist.cc\<close> runs it. A step is one access to a shared link or to \<open>max_height_\<close>,
  in any interleaving; the release stores and acquire loads publish a node before its address, so
  that the accesses are seen in the order in which they are made. A search and a traversal record
  the keys of the list at the moment they begin.
\<close>

section \<open>Model\<close>

datatype writer = Idle | Store1 ptr nat nat | Store2 ptr nat nat | Linked ptr nat

datatype 'k reader =
    Resting
  | Searching "'k list" 'k "ptr \<times> nat \<times> ptr"
  | Found "'k list" 'k bool
  | Dumping "'k list" iter "'k list"
  | Dumped "'k list" "'k list"

record 'k shared =
  sh_list :: "'k SkipList"
  sh_writer :: writer
  sh_readers :: "nat \<Rightarrow> 'k reader"

text \<open>The steps of \<open>Insert\<close>: everything up to the store of \<open>max_height_\<close>, the two stores on every level, the end.\<close>

definition next_level :: "ptr \<Rightarrow> nat \<Rightarrow> nat \<Rightarrow> writer" where
  "next_level x h i = (if i < h then Store1 x h i else Linked x h)"

definition writer_begin :: "'k comparator \<Rightarrow> 'k \<Rightarrow> u32 list \<Rightarrow> 'k SkipList \<Rightarrow> ('k SkipList \<times> writer) option" where
  "writer_begin compare key rs z = do { (x, h, _, z) \<leftarrow> Insert_begin compare key rs z; Some (z, next_level x h 0) }"

fun writer_step :: "'k SkipList \<Rightarrow> writer \<Rightarrow> ('k SkipList \<times> writer) option" where
  "writer_step z Idle = None"
| "writer_step z (Store1 x h i) = do { z \<leftarrow> Insert_link1 x i z; Some (z, Store2 x h i) }"
| "writer_step z (Store2 x h i) = do { z \<leftarrow> Insert_link2 x i z; Some (z, next_level x h (Suc i)) }"
| "writer_step z (Linked x h) = do { z \<leftarrow> Insert_end x h z; Some (z, Idle) }"

text \<open>\<open>Contains\<close> and \<open>dump\<close>, one load at a time; the key of a node is never changed.\<close>

definition search_begin :: "'k \<Rightarrow> 'k SkipList \<Rightarrow> 'k reader option" where
  "search_begin key z = do { ks \<leftarrow> dump z; Some (Searching ks key (sl_head z, sl_max_height z - 1, 0)) }"

definition dump_begin :: "'k SkipList \<Rightarrow> 'k reader option" where
  "dump_begin z = do { ks \<leftarrow> dump z; it \<leftarrow> Iterator_SeekToFirst z; Some (Dumping ks it []) }"

fun reader_step :: "'k comparator \<Rightarrow> 'k SkipList \<Rightarrow> 'k reader \<Rightarrow> 'k reader option" where
  "reader_step compare z (Searching ks key st) =
     do { r \<leftarrow> FindGreaterOrEqual_step compare z key st;
          case r of
            Inl st' \<Rightarrow> Some (Searching ks key st')
          | Inr x \<Rightarrow> if x \<noteq> 0 then do { k \<leftarrow> Node_key z x; Some (Found ks key (compare key k = 0)) } else Some (Found ks key False) }"
| "reader_step compare z (Dumping ks it out) =
     do { r \<leftarrow> dump_step z (it, out);
          case r of Inl (it, out) \<Rightarrow> Some (Dumping ks it out) | Inr out \<Rightarrow> Some (Dumped ks out) }"
| "reader_step compare z r = Some r"

definition shared_init :: "'k \<Rightarrow> int \<Rightarrow> int \<Rightarrow> 'k shared option" where
  "shared_init k0 mh bf = do { z \<leftarrow> SkipList_ctor k0 mh bf; Some \<lparr>sh_list = z, sh_writer = Idle, sh_readers = (\<lambda>_. Resting)\<rparr> }"

text \<open>The mutex of the writers makes them one; a writer inserts only keys that are not in the list.\<close>

inductive shared_step :: "'k comparator \<Rightarrow> 'k set \<Rightarrow> 'k shared \<Rightarrow> 'k shared \<Rightarrow> bool" for compare K where
  begin_insert: "sh_writer s = Idle \<Longrightarrow> key \<in> K \<Longrightarrow> Contains compare (sh_list s) key = Some False \<Longrightarrow>
    kMaxHeight (sh_list s) - 1 \<le> length rs \<Longrightarrow> writer_begin compare key rs (sh_list s) = Some (z, w) \<Longrightarrow>
    shared_step compare K s (s\<lparr>sh_list := z, sh_writer := w\<rparr>)"
| insert_step: "writer_step (sh_list s) (sh_writer s) = Some (z, w) \<Longrightarrow>
    shared_step compare K s (s\<lparr>sh_list := z, sh_writer := w\<rparr>)"
| begin_search: "key \<in> K \<Longrightarrow> search_begin key (sh_list s) = Some r \<Longrightarrow>
    shared_step compare K s (s\<lparr>sh_readers := (sh_readers s)(i := r)\<rparr>)"
| begin_dump: "dump_begin (sh_list s) = Some r \<Longrightarrow>
    shared_step compare K s (s\<lparr>sh_readers := (sh_readers s)(i := r)\<rparr>)"
| read_step: "reader_step compare (sh_list s) (sh_readers s i) = Some r \<Longrightarrow>
    shared_step compare K s (s\<lparr>sh_readers := (sh_readers s)(i := r)\<rparr>)"

inductive shared_reachable :: "'k comparator \<Rightarrow> 'k set \<Rightarrow> 'k \<Rightarrow> int \<Rightarrow> int \<Rightarrow> 'k shared \<Rightarrow> bool" for compare K k0 mh bf where
  init: "shared_init k0 mh bf = Some s \<Longrightarrow> shared_reachable compare K k0 mh bf s"
| step: "shared_reachable compare K k0 mh bf s \<Longrightarrow> shared_step compare K s s' \<Longrightarrow> shared_reachable compare K k0 mh bf s'"

section \<open>Invariant\<close>

text \<open>The lists of the levels in every state of the writer.\<close>

fun writer_ok :: "'k comparator \<Rightarrow> 'k set \<Rightarrow> 'k SkipList \<Rightarrow> (nat \<Rightarrow> ptr list) \<Rightarrow> writer \<Rightarrow> bool" where
  "writer_ok compare K z lv Idle \<longleftrightarrow> (\<exists>ps. sl_rep compare K z ps \<and> lv = (\<lambda>i. at_level z i ps))"
| "writer_ok compare K z lv (Store1 x h i) \<longleftrightarrow>
     (\<exists>as bs. sl_linking compare K z as bs x h i \<and> i < h \<and> lv = link_levels z as bs x i)"
| "writer_ok compare K z lv (Store2 x h i) \<longleftrightarrow>
     (\<exists>as bs. sl_linking compare K z as bs x h i \<and> i < h \<and> lv = link_levels z as bs x i \<and>
        Node_Next z x i = Some (first (at_level z i bs)))"
| "writer_ok compare K z lv (Linked x h) \<longleftrightarrow>
     (\<exists>as bs. sl_linking compare K z as bs x h h \<and> lv = link_levels z as bs x h)"

definition keys_of :: "'k SkipList \<Rightarrow> (nat \<Rightarrow> ptr list) \<Rightarrow> 'k list" where
  "keys_of z lv = map (nkey z) (lv 0)"

definition has_key :: "'k comparator \<Rightarrow> 'k \<Rightarrow> 'k list \<Rightarrow> bool" where
  "has_key compare t ks \<longleftrightarrow> (\<exists>k \<in> set ks. compare t k = 0)"

text \<open>What a reader has recorded is still true of the list as it is now.\<close>

fun reader_ok :: "'k comparator \<Rightarrow> 'k set \<Rightarrow> 'k SkipList \<Rightarrow> (nat \<Rightarrow> ptr list) \<Rightarrow> 'k reader \<Rightarrow> bool" where
  "reader_ok compare K z lv Resting \<longleftrightarrow> True"
| "reader_ok compare K z lv (Searching ks t (x, l, b)) \<longleftrightarrow>
     set ks \<subseteq> set (keys_of z lv) \<and> t \<in> K \<and> l < kMaxHeight z \<and> x \<in> set (sl_head z # lv l) \<and>
     (x = sl_head z \<or> compare (nkey z x) t < 0) \<and> (b = 0 \<or> keyed K z b \<and> 0 < compare (nkey z b) t)"
| "reader_ok compare K z lv (Found ks t b) \<longleftrightarrow>
     (b \<longrightarrow> has_key compare t (keys_of z lv)) \<and> (has_key compare t ks \<longrightarrow> b)"
| "reader_ok compare K z lv (Dumping ks it out) \<longleftrightarrow>
     set ks \<subseteq> set (keys_of z lv) \<and> set out \<subseteq> set (keys_of z lv) \<and> sorted_wrt (\<lambda>a b. compare a b < 0) out \<and>
     (it = 0 \<or> it \<in> set (lv 0) \<and> (\<forall>k \<in> set out. compare k (nkey z it) < 0)) \<and>
     (\<forall>k \<in> set ks. k \<in> set out \<or> it \<noteq> 0 \<and> compare (nkey z it) k \<le> 0)"
| "reader_ok compare K z lv (Dumped ks out) \<longleftrightarrow>
     set ks \<subseteq> set out \<and> set out \<subseteq> set (keys_of z lv) \<and> sorted_wrt (\<lambda>a b. compare a b < 0) out"

definition shared_inv :: "'k comparator \<Rightarrow> 'k set \<Rightarrow> 'k shared \<Rightarrow> bool" where
  "shared_inv compare K s \<longleftrightarrow> (\<exists>lv. sl_levels compare K (sh_list s) lv \<and>
     writer_ok compare K (sh_list s) lv (sh_writer s) \<and> (\<forall>i. reader_ok compare K (sh_list s) lv (sh_readers s i)))"

text \<open>Lists only grow.\<close>

definition grows :: "'k SkipList \<Rightarrow> (nat \<Rightarrow> ptr list) \<Rightarrow> 'k SkipList \<Rightarrow> (nat \<Rightarrow> ptr list) \<Rightarrow> bool" where
  "grows z lv z' lv' \<longleftrightarrow> sl_ext z z' \<and> (\<forall>i < kMaxHeight z. set (lv i) \<subseteq> set (lv' i))"


lemma at_level_ext: "sl_ext z z' \<Longrightarrow> (\<And>p. p \<in> set ps \<Longrightarrow> keyed K z p) \<Longrightarrow> at_level z' i ps = at_level z i ps"
  using sl_ext_keyed [of z z' K] unfolding at_level_def by (intro filter_cong) simp_all

lemma next_level_ok:
  "sl_linking compare K z as bs x h i \<Longrightarrow> lv = link_levels z as bs x i \<Longrightarrow> writer_ok compare K z lv (next_level x h i)"
  by (cases "i < h") (auto simp: next_level_def sl_linking_def)

context key_order
begin

lemma dump_levels:
  assumes "sl_levels compare K z lv"
  shows "dump z = Some (keys_of z lv)"
proof -
  have M: "0 < kMaxHeight z" using assms by (auto simp: sl_levels_def)
  have "chain (\<lambda>x. Node_Next z x 0) (sl_head z # lv 0)" by (rule sl_levels_chain [OF assms M])
  then show ?thesis using dump_loop [of z "lv 0" K "[]"] sl_levels_keyed [OF assms M]
    by (simp add: dump_def Iterator_SeekToFirst_def keys_of_def)
qed

lemma grows_keys:
  assumes "sl_levels compare K z lv" "grows z lv z' lv'"
  shows "set (keys_of z lv) \<subseteq> set (keys_of z' lv')"
proof -
  have M: "0 < kMaxHeight z" using assms by (auto simp: sl_levels_def)
  have "nkey z p \<in> set (keys_of z' lv')" if "p \<in> set (lv 0)" for p
    using sl_ext_keyed [OF _ sl_levels_keyed [OF assms(1) M that], of z'] assms(2) M that
    by (auto simp: keys_of_def grows_def intro!: rev_image_eqI)
  then show ?thesis by (auto simp: keys_of_def [of z])
qed

lemma reader_mono:
  assumes lv: "sl_levels compare K z lv" and g: "grows z lv z' lv'" and r: "reader_ok compare K z lv r"
  shows "reader_ok compare K z' lv' r"
proof -
  have ext: "sl_ext z z'" and sub: "\<And>i. i < kMaxHeight z \<Longrightarrow> set (lv i) \<subseteq> set (lv' i)" using g by (auto simp: grows_def)
  have h: "sl_head z' = sl_head z" "kMaxHeight z' = kMaxHeight z" using ext by (simp_all add: sl_ext_def)
  have k: "nkey z' p = nkey z p \<and> keyed K z' p" if "keyed K z p" for p using sl_ext_keyed [OF ext that] by simp
  have kl: "nkey z' p = nkey z p" if "i < kMaxHeight z" "p \<in> set (lv i)" for p i
    using k sl_levels_keyed [OF lv that] by simp
  have M: "0 < kMaxHeight z" using lv by (auto simp: sl_levels_def)
  note ks = grows_keys [OF lv g]
  show ?thesis
  proof (cases r)
    case (Searching ks' t st)
    then obtain x l b where st: "r = Searching ks' t (x, l, b)" by (cases st) auto
    then have "x = sl_head z \<or> x \<in> set (lv l)" "l < kMaxHeight z" using r by auto
    then have "x \<in> set (sl_head z # lv' l)" "x = sl_head z \<or> nkey z' x = nkey z x" using sub kl by auto
    then show ?thesis using r st h k [of b] ks by auto
  next
    case (Found ks' t b)
    then show ?thesis using r ks by (auto simp: has_key_def)
  next
    case (Dumping ks' it out)
    then show ?thesis using r ks kl [OF M, of it] sub [OF M] by auto
  next
    case (Dumped ks' out)
    then show ?thesis using r ks by auto
  qed simp
qed

lemma writer_begin_ok:
  assumes w: "writer_ok compare K z lv Idle" and t: "t \<in> K" and new: "Contains compare z t = Some False"
    and rs: "kMaxHeight z - 1 \<le> length rs"
  shows "\<exists>z' w lv'. writer_begin compare t rs z = Some (z', w) \<and> sl_levels compare K z' lv' \<and> writer_ok compare K z' lv' w \<and> grows z lv z' lv'"
proof -
  obtain ps where rep: "sl_rep compare K z ps" and lv: "lv = (\<lambda>i. at_level z i ps)" using w by auto
  define as bs where "as = takeWhile (lt_node z t) ps" and "bs = dropWhile (lt_node z t) ps"
  have ps: "ps = as @ bs" by (simp add: as_def bs_def)
  have "compare t (nkey z p) \<noteq> 0" if "p \<in> set ps" for p using Contains_ok [OF rep t] new that by auto
  then obtain x h rs' z' where 1: "Insert_begin compare t rs z = Some (x, h, rs', z')" "sl_ext z z'" "sl_linking compare K z' as bs x h 0"
    using Insert_begin_ok [OF rep t _ rs] unfolding as_def bs_def by blast
  have k: "keyed K z p" if "p \<in> set ps" for p using sl_rep_D [OF rep] that by blast
  have "at_level z' i ps = at_level z i ps" for i by (rule at_level_ext [OF 1(2) k])
  then have "set (at_level z i ps) \<subseteq> set (link_levels z' as bs x 0 i)" for i
    using ps by (simp add: link_levels_def at_level_append)
  then have "grows z lv z' (link_levels z' as bs x 0)" using lv 1(2) by (simp add: grows_def)
  moreover have "sl_levels compare K z' (link_levels z' as bs x 0)" using 1(3) by (simp add: sl_linking_def)
  moreover have "writer_begin compare t rs z = Some (z', next_level x h 0)" using 1(1) by (simp add: writer_begin_def)
  ultimately show ?thesis using next_level_ok [OF 1(3)] by blast
qed

lemma link_levels_ext:
  assumes "sl_linking compare K z as bs x h i" "sl_ext z z'"
  shows "link_levels z' as bs x j = link_levels z as bs x j"
proof -
  have "at_level z' l as = at_level z l as" "at_level z' l bs = at_level z l bs" for l
    using sl_linking_keyed [OF assms(1)] by (auto intro!: at_level_ext [OF assms(2), of _ K])
  then show ?thesis by (auto simp: link_levels_def fun_eq_iff)
qed

lemma writer_step_ok:
  assumes lv: "sl_levels compare K z lv" and w: "writer_ok compare K z lv w" and i: "w \<noteq> Idle"
  shows "\<exists>z' w' lv'. writer_step z w = Some (z', w') \<and> sl_levels compare K z' lv' \<and> writer_ok compare K z' lv' w' \<and> grows z lv z' lv'"
proof (cases w)
  case (Store1 x h i)
  then obtain as bs where l: "sl_linking compare K z as bs x h i" "i < h" "lv = link_levels z as bs x i" using w by auto
  obtain z' where 1: "Insert_link1 x i z = Some z'" "sl_linking compare K z' as bs x h i" "sl_ext z z'"
    "Node_Next z' x i = Some (first (at_level z' i bs))" using Insert_link1_ok [OF l(1,2)] by auto
  have e: "link_levels z' as bs x i = lv" using link_levels_ext [OF l(1) 1(3)] l(3) by simp
  then have "writer_ok compare K z' lv (Store2 x h i)" using 1(2,4) l(2) e [symmetric] unfolding writer_ok.simps by blast
  moreover have "sl_levels compare K z' lv" using 1(2) e by (simp add: sl_linking_def)
  moreover have "writer_step z w = Some (z', Store2 x h i)" using Store1 1(1) by simp
  ultimately show ?thesis using 1(3) by (auto simp: grows_def intro!: exI [of _ lv])
next
  case (Store2 x h i)
  then obtain as bs where l: "sl_linking compare K z as bs x h i" "i < h" "lv = link_levels z as bs x i"
    "Node_Next z x i = Some (first (at_level z i bs))" using w by auto
  obtain z' where 1: "Insert_link2 x i z = Some z'" "sl_linking compare K z' as bs x h (Suc i)" "sl_ext z z'"
    using Insert_link2_ok [OF l(1,2,4)] by auto
  have "set (link_levels z as bs x i j) \<subseteq> set (link_levels z' as bs x (Suc i) j)" for j
    using link_levels_ext [OF l(1) 1(3), of "Suc i"] by (auto simp: link_levels_def split: if_splits)
  then have "grows z lv z' (link_levels z' as bs x (Suc i))" using 1(3) l(3) by (simp add: grows_def)
  moreover have "sl_levels compare K z' (link_levels z' as bs x (Suc i))" using 1(2) by (simp add: sl_linking_def)
  moreover have "writer_step z w = Some (z', next_level x h (Suc i))" using Store2 1(1) by simp
  ultimately show ?thesis using next_level_ok [OF 1(2)] by blast
next
  case (Linked x h)
  then obtain as bs where l: "sl_linking compare K z as bs x h h" "lv = link_levels z as bs x h" using w by auto
  obtain z' where 1: "Insert_end x h z = Some z'" "sl_rep compare K z' (as @ x # bs)" "sl_ext z z'"
    using Insert_end_ok [OF l(1)] by auto
  have "nheight z x = h" "keyed K z x" using l(1) by (simp_all add: sl_linking_def)
  then have "nheight z' x = h" using sl_ext_keyed [OF 1(3)] by simp
  then have "at_level z' i (as @ x # bs) = link_levels z' as bs x h i" for i
    by (simp add: link_levels_def at_level_def)
  then have e: "(\<lambda>i. at_level z' i (as @ x # bs)) = lv"
    using link_levels_ext [OF l(1) 1(3), of h] l(2) by simp
  then have "writer_ok compare K z' lv Idle" "sl_levels compare K z' lv" using 1(2) sl_rep_D [OF 1(2)] unfolding writer_ok.simps e [symmetric] by blast+
  moreover have "writer_step z w = Some (z', Idle)" using Linked 1(1) by simp
  ultimately show ?thesis using 1(3) by (auto simp: grows_def intro!: exI [of _ lv])
qed (use i in simp)

end


context key_order
begin

lemma search_begin_ok:
  assumes lv: "sl_levels compare K z lv" and "t \<in> K"
  shows "\<exists>r. search_begin t z = Some r \<and> reader_ok compare K z lv r"
proof -
  have "sl_max_height z - 1 < kMaxHeight z" using lv by (auto simp: sl_levels_def)
  then show ?thesis using dump_levels [OF lv] assms(2) by (simp add: search_begin_def)
qed

lemma first_least:
  assumes "key_sorted z vs" "\<And>p. p \<in> set vs \<Longrightarrow> keyed K z p" "q \<in> set vs"
  shows "first vs \<noteq> 0 \<and> compare (nkey z (first vs)) (nkey z q) \<le> 0"
  using assms refl by (cases vs) (auto simp: keyed_def less_imp_le)

lemma dump_begin_ok:
  assumes lv: "sl_levels compare K z lv"
  shows "\<exists>r. dump_begin z = Some r \<and> reader_ok compare K z lv r"
proof -
  have M: "0 < kMaxHeight z" using lv by (auto simp: sl_levels_def)
  have "Iterator_SeekToFirst z = Some (first (lv 0))"
    using sl_levels_chain [OF lv M] by (simp add: Iterator_SeekToFirst_def)
  then have "dump_begin z = Some (Dumping (keys_of z lv) (first (lv 0)) [])"
    using dump_levels [OF lv] by (simp add: dump_begin_def)
  moreover have "first (lv 0) = 0 \<or> first (lv 0) \<in> set (lv 0)" by (cases "lv 0") auto
  moreover have "\<forall>k \<in> set (keys_of z lv). first (lv 0) \<noteq> 0 \<and> compare (nkey z (first (lv 0))) k \<le> 0"
    using first_least [OF sl_levels_sorted [OF lv M] sl_levels_keyed [OF lv M]] by (simp add: keys_of_def)
  ultimately show ?thesis by simp
qed

lemma search_step_ok:
  assumes lv: "sl_levels compare K z lv" and r: "reader_ok compare K z lv (Searching ks t (x, l, b))"
  shows "\<exists>r'. reader_step compare z (Searching ks t (x, l, b)) = Some r' \<and> reader_ok compare K z lv r'"
proof -
  have h: "set ks \<subseteq> set (keys_of z lv)" "t \<in> K" "l < kMaxHeight z" "x = sl_head z \<or> lt_node z t x" "bigger_ok z t b"
    using r by (auto simp: bigger_ok_def)
  obtain us vs where xs: "sl_head z # lv l = us @ x # vs" using r by (meson reader_ok.simps(2) split_list)
  show ?thesis
  proof (rule FindGreaterOrEqual_step_cases [OF lv h(3) xs h(2,4,5)])
    let ?p = "first (dropWhile (lt_node z t) (lv 0))"
    assume s: "FindGreaterOrEqual_step compare z t (x, l, b) = Some (Inr ?p)"
    have e: "?p \<noteq> 0 \<and> compare t (nkey z ?p) = 0 \<longleftrightarrow> has_key compare t (keys_of z lv)"
      using FindGreaterOrEqual_equal [OF lv h(2)] by (simp add: has_key_def keys_of_def)
    have "reader_step compare z (Searching ks t (x, l, b)) = Some (Found ks t (has_key compare t (keys_of z lv)))"
      using s e first_keyed [OF lv, of t] by (cases "?p = 0") (simp_all add: Node_key_keyed)
    moreover have "has_key compare t ks \<longrightarrow> has_key compare t (keys_of z lv)" using h(1) by (auto simp: has_key_def)
    ultimately show ?thesis by simp
  next
    fix v vs'
    assume "vs = v # vs'" "lt_node z t v" "FindGreaterOrEqual_step compare z t (x, l, b) = Some (Inl (v, l, b))"
    moreover from this have "v \<in> set (lv l)" using xs by (cases us) auto
    ultimately show ?thesis using r by simp
  next
    assume s: "0 < l" "bigger_ok z t (first vs)" "FindGreaterOrEqual_step compare z t (x, l, b) = Some (Inl (x, l - 1, first vs))"
    moreover from s(1) have "set (lv l) \<subseteq> set (lv (l - 1))" using sl_levels_sub [OF lv, of "l - 1"] h(3) by simp
    ultimately show ?thesis using r by (auto simp: bigger_ok_def)
  qed
qed

lemma dump_step_ok:
  assumes lv: "sl_levels compare K z lv" and r: "reader_ok compare K z lv (Dumping ks it out)"
  shows "\<exists>r'. reader_step compare z (Dumping ks it out) = Some r' \<and> reader_ok compare K z lv r'"
proof (cases "it = 0")
  case True
  then show ?thesis using r by (auto simp: dump_step_def Iterator_Valid_def)
next
  case False
  have M: "0 < kMaxHeight z" using lv by (auto simp: sl_levels_def)
  obtain us vs where xs: "lv 0 = us @ it # vs" using r False by (meson reader_ok.simps(4) split_list)
  have k: "keyed K z p" if "p \<in> set (us @ it # vs)" for p using sl_levels_keyed [OF lv M] xs that by simp
  have so: "key_sorted z (us @ it # vs)" using sl_levels_sorted [OF lv M] xs by simp
  have "chain (\<lambda>x. Node_Next z x 0) ((sl_head z # us) @ it # vs)" using sl_levels_chain [OF lv M] xs by simp
  then have n: "Node_Next z it 0 = Some (first vs)" by (rule chain_next)
  have s: "reader_step compare z (Dumping ks it out) = Some (Dumping ks (first vs) (out @ [nkey z it]))"
    using n k [of it] False
    by (simp add: dump_step_def Iterator_Valid_def Iterator_key_def Iterator_Next_def Node_key_keyed)
  have first: "first vs = 0 \<or> first vs \<in> set vs" by (cases vs) auto
  have below: "compare k (nkey z p) < 0" if "p \<in> set vs" "k \<in> set (out @ [nkey z it])" for k p
  proof -
    have it: "compare (nkey z it) (nkey z p) < 0" using so that(1) by (simp add: sorted_wrt_append)
    have "k \<in> K" if "k \<in> set out" using r that sl_levels_keyed [OF lv M] by (auto simp: keys_of_def keyed_def)
    then show ?thesis using it that r False lt_le_trans [of k "nkey z it" "nkey z p"] k [of it] k [of p]
      by (auto simp: keyed_def less_imp_le)
  qed
  have rest: "c \<in> set (out @ [nkey z it]) \<or> first vs \<noteq> 0 \<and> compare (nkey z (first vs)) c \<le> 0" if c: "c \<in> set ks" for c
  proof (cases "c \<in> set out")
    case False
    then have le: "compare (nkey z it) c \<le> 0" using r c by auto
    obtain q where q: "q \<in> set (us @ it # vs)" "c = nkey z q" using r c xs by (auto simp: keys_of_def)
    have "q \<notin> set us"
    proof
      assume "q \<in> set us"
      then have "compare c (nkey z it) < 0" using so q by (simp add: sorted_wrt_append)
      then show False using le flip [of c "nkey z it"] k [of it] k [OF q(1)] q(2) by (auto simp: keyed_def)
    qed
    then show ?thesis using q first_least [of z vs q] so k by (auto simp: sorted_wrt_append)
  qed simp
  have "reader_ok compare K z lv (Dumping ks (first vs) (out @ [nkey z it]))"
    unfolding reader_ok.simps
    using r xs first below rest False by (auto simp: keys_of_def sorted_wrt_append)
  then show ?thesis using s by simp
qed

lemma reader_step_ok:
  assumes "sl_levels compare K z lv" "reader_ok compare K z lv r"
  shows "\<exists>r'. reader_step compare z r = Some r' \<and> reader_ok compare K z lv r'"
proof (cases r)
  case (Searching ks t st)
  then show ?thesis using search_step_ok [OF assms(1)] assms(2) by (cases st) auto
next
  case (Dumping ks it out)
  then show ?thesis using dump_step_ok [OF assms(1)] assms(2) by auto
qed (use assms in auto)

lemma shared_inv_writer:
  assumes "sl_levels compare K (sh_list s) lv" "\<forall>i. reader_ok compare K (sh_list s) lv (sh_readers s i)"
    and "sl_levels compare K z lv'" "writer_ok compare K z lv' w" "grows (sh_list s) lv z lv'"
  shows "shared_inv compare K (s\<lparr>sh_list := z, sh_writer := w\<rparr>)"
  using assms reader_mono [OF assms(1,5)] by (auto simp: shared_inv_def)

lemma shared_inv_step: "shared_step compare K s s' \<Longrightarrow> shared_inv compare K s \<Longrightarrow> shared_inv compare K s'"
proof (induction rule: shared_step.induct)
  case (begin_insert s key rs z w)
  then obtain lv where lv: "sl_levels compare K (sh_list s) lv" "writer_ok compare K (sh_list s) lv Idle"
    "\<forall>i. reader_ok compare K (sh_list s) lv (sh_readers s i)" by (auto simp: shared_inv_def)
  then show ?case using writer_begin_ok [OF lv(2) begin_insert(2-4)] begin_insert(5) shared_inv_writer by force
next
  case (insert_step s z w)
  then obtain lv where lv: "sl_levels compare K (sh_list s) lv" "writer_ok compare K (sh_list s) lv (sh_writer s)"
    "\<forall>i. reader_ok compare K (sh_list s) lv (sh_readers s i)" by (auto simp: shared_inv_def)
  have "sh_writer s \<noteq> Idle" using insert_step(1) by auto
  then show ?case using writer_step_ok [OF lv(1,2)] insert_step(1) lv shared_inv_writer by force
next
  case (begin_search key s r i)
  then show ?case using search_begin_ok by (fastforce simp: shared_inv_def)
next
  case (begin_dump s r i)
  then show ?case using dump_begin_ok by (fastforce simp: shared_inv_def)
next
  case (read_step s i r)
  then obtain lv where lv: "sl_levels compare K (sh_list s) lv" "writer_ok compare K (sh_list s) lv (sh_writer s)"
    "\<forall>i. reader_ok compare K (sh_list s) lv (sh_readers s i)" by (auto simp: shared_inv_def)
  then have "reader_ok compare K (sh_list s) lv r" using reader_step_ok [OF lv(1), of "sh_readers s i"] read_step(1) by auto
  then show ?case using lv by (auto simp: shared_inv_def)
qed

lemma shared_inv_reachable:
  assumes "shared_reachable compare K k0 mh bf s" "0 < mh" "mh < 2 ^ 16" "0 < bf" "bf < 2 ^ 16"
  shows "shared_inv compare K s"
  using assms(1)
proof induction
  case (init s)
  obtain z where z: "SkipList_ctor k0 mh bf = Some z" "sl_rep compare K z []"
    using SkipList_ctor_ok [OF assms(2-)] by metis
  then have "s = \<lparr>sh_list = z, sh_writer = Idle, sh_readers = (\<lambda>_. Resting)\<rparr>" using init by (simp add: shared_init_def)
  then show ?case using z(2) sl_rep_D [OF z(2)] by (auto simp: shared_inv_def)
qed (rule shared_inv_step)

lemma shared_reachable_safe:
  assumes "shared_reachable compare K k0 mh bf s" "0 < mh" "mh < 2 ^ 16" "0 < bf" "bf < 2 ^ 16"
  shows "\<exists>now. dump (sh_list s) = Some now \<and> sorted_wrt (\<lambda>a b. compare a b < 0) now \<and>
    (sh_writer s \<noteq> Idle \<longrightarrow> writer_step (sh_list s) (sh_writer s) \<noteq> None) \<and>
    (\<forall>t \<in> K. \<forall>rs. sh_writer s = Idle \<and> \<not> has_key compare t now \<and> kMaxHeight (sh_list s) - 1 \<le> length rs \<longrightarrow>
       writer_begin compare t rs (sh_list s) \<noteq> None) \<and>
    (\<forall>i. reader_step compare (sh_list s) (sh_readers s i) \<noteq> None \<and>
       (case sh_readers s i of
          Found ks t b \<Rightarrow> (b \<longrightarrow> has_key compare t now) \<and> (has_key compare t ks \<longrightarrow> b)
        | Dumped ks out \<Rightarrow> sorted_wrt (\<lambda>a b. compare a b < 0) out \<and> set ks \<subseteq> set out \<and> set out \<subseteq> set now
        | _ \<Rightarrow> True))"
proof -
  obtain lv where lv: "sl_levels compare K (sh_list s) lv" "writer_ok compare K (sh_list s) lv (sh_writer s)"
    "\<forall>i. reader_ok compare K (sh_list s) lv (sh_readers s i)"
    using shared_inv_reachable [OF assms] by (auto simp: shared_inv_def)
  have M: "0 < kMaxHeight (sh_list s)" using lv(1) by (auto simp: sl_levels_def)
  have "sorted_wrt (\<lambda>a b. compare a b < 0) (keys_of (sh_list s) lv)"
    using sl_levels_sorted [OF lv(1) M] by (simp add: keys_of_def sorted_wrt_map)
  moreover have "writer_step (sh_list s) (sh_writer s) \<noteq> None" if "sh_writer s \<noteq> Idle"
    using writer_step_ok [OF lv(1,2) that] by auto
  moreover have "writer_begin compare t rs (sh_list s) \<noteq> None"
    if "t \<in> K" "sh_writer s = Idle" "\<not> has_key compare t (keys_of (sh_list s) lv)" "kMaxHeight (sh_list s) - 1 \<le> length rs" for t rs
  proof -
    note h = that
    obtain ps where ps: "sl_rep compare K (sh_list s) ps" "lv = (\<lambda>i. at_level (sh_list s) i ps)" using lv(2) h(2) by auto
    have "lv 0 = ps" using sl_rep_D [OF ps(1)] ps(2) by simp
    then have "Contains compare (sh_list s) t = Some False"
      using Contains_ok [OF ps(1) h(1)] h(3) by (simp add: has_key_def keys_of_def)
    then show ?thesis using writer_begin_ok [OF _ h(1) _ h(4)] lv(2) h(2) by fastforce
  qed
  moreover have "reader_step compare (sh_list s) (sh_readers s i) \<noteq> None" for i
    using reader_step_ok [OF lv(1)] lv(3) by (metis option.distinct(1))
  moreover have "(case sh_readers s i of
          Found ks t b \<Rightarrow> (b \<longrightarrow> has_key compare t (keys_of (sh_list s) lv)) \<and> (has_key compare t ks \<longrightarrow> b)
        | Dumped ks out \<Rightarrow> sorted_wrt (\<lambda>a b. compare a b < 0) out \<and> set ks \<subseteq> set out \<and> set out \<subseteq> set (keys_of (sh_list s) lv)
        | _ \<Rightarrow> True)" for i
    using lv(3) [THEN spec, of i] by (auto split: reader.split)
  ultimately show ?thesis using dump_levels [OF lv(1)] by blast
qed

end

section \<open>Properties\<close>

text \<open>
  C33: In every interleaving of one writer with any number of readers that take no lock, no thread
  ever fails an assertion or reads an unset link, and a traversal at any moment finds the keys in order.
  A search finds every key that was in the list when it began and none that is not in it now; a
  traversal returns keys in order, all that were in the list when it began and none that is not in it now.
\<close>

theorem readers_need_no_lock:
  assumes "key_order compare K" "shared_reachable compare K k0 mh bf s" "0 < mh" "mh < 2 ^ 16" "0 < bf" "bf < 2 ^ 16"
  shows "\<exists>now. dump (sh_list s) = Some now \<and> sorted_wrt (\<lambda>a b. compare a b < 0) now \<and>
    (sh_writer s \<noteq> Idle \<longrightarrow> writer_step (sh_list s) (sh_writer s) \<noteq> None) \<and>
    (\<forall>t \<in> K. \<forall>rs. sh_writer s = Idle \<and> \<not> has_key compare t now \<and> kMaxHeight (sh_list s) - 1 \<le> length rs \<longrightarrow>
       writer_begin compare t rs (sh_list s) \<noteq> None) \<and>
    (\<forall>i. reader_step compare (sh_list s) (sh_readers s i) \<noteq> None \<and>
       (case sh_readers s i of
          Found ks t b \<Rightarrow> (b \<longrightarrow> has_key compare t now) \<and> (has_key compare t ks \<longrightarrow> b)
        | Dumped ks out \<Rightarrow> sorted_wrt (\<lambda>a b. compare a b < 0) out \<and> set ks \<subseteq> set out \<and> set out \<subseteq> set now
        | _ \<Rightarrow> True))"
  using key_order.shared_reachable_safe [OF assms] .


text \<open>An execution given by its schedule.\<close>

datatype 'k event = Begin 'k "u32 list" | Write | Search nat 'k | Dump nat | Read nat

fun shared_exec :: "'k comparator \<Rightarrow> 'k event \<Rightarrow> 'k shared \<Rightarrow> 'k shared option" where
  "shared_exec compare (Begin key rs) s =
     (if sh_writer s = Idle \<and> Contains compare (sh_list s) key = Some False \<and> kMaxHeight (sh_list s) - 1 \<le> length rs then
        do { (z, w) \<leftarrow> writer_begin compare key rs (sh_list s); Some (s\<lparr>sh_list := z, sh_writer := w\<rparr>) } else None)"
| "shared_exec compare Write s = do { (z, w) \<leftarrow> writer_step (sh_list s) (sh_writer s); Some (s\<lparr>sh_list := z, sh_writer := w\<rparr>) }"
| "shared_exec compare (Search i key) s = do { r \<leftarrow> search_begin key (sh_list s); Some (s\<lparr>sh_readers := (sh_readers s)(i := r)\<rparr>) }"
| "shared_exec compare (Dump i) s = do { r \<leftarrow> dump_begin (sh_list s); Some (s\<lparr>sh_readers := (sh_readers s)(i := r)\<rparr>) }"
| "shared_exec compare (Read i) s =
     do { r \<leftarrow> reader_step compare (sh_list s) (sh_readers s i); Some (s\<lparr>sh_readers := (sh_readers s)(i := r)\<rparr>) }"

lemma shared_exec_step:
  assumes "shared_exec compare e s = Some s'" "\<And>key rs. e = Begin key rs \<Longrightarrow> key \<in> K" "\<And>i key. e = Search i key \<Longrightarrow> key \<in> K"
  shows "shared_step compare K s s'"
  using assms by (cases e) (auto simp: bind_eq_Some_conv intro: shared_step.intros split: if_splits)

fun shared_run :: "'k comparator \<Rightarrow> 'k event list \<Rightarrow> 'k shared \<Rightarrow> 'k shared option" where
  "shared_run compare [] s = Some s"
| "shared_run compare (e # es) s = do { s \<leftarrow> shared_exec compare e s; shared_run compare es s }"

lemma shared_run_reachable:
  assumes "shared_reachable compare K k0 mh bf s" "shared_run compare es s = Some s'"
    and "\<forall>e \<in> set es. \<forall>key rs i. (e = Begin key rs \<or> e = Search i key) \<longrightarrow> key \<in> K"
  shows "shared_reachable compare K k0 mh bf s'"
  using assms
proof (induction es arbitrary: s)
  case (Cons e es)
  then obtain y where y: "shared_exec compare e s = Some y" "shared_run compare es y = Some s'"
    by (auto simp: bind_eq_Some_conv)
  have "shared_step compare K s y" using y(1) Cons.prems(3) by (intro shared_exec_step) auto
  then show ?case using Cons.IH [OF shared_reachable.step [OF Cons.prems(1)] y(2)] Cons.prems(3) by simp
qed simp

definition ex_schedule :: "int event list" where
  "ex_schedule = [Search 0 5, Begin 5 [0, 4294967295], Write, Write, Read 0, Dump 1, Write, Read 1, Write, Read 1, Read 0, Write]"

definition ex_final :: "int shared option" where
  "ex_final = do { s \<leftarrow> shared_init 0 3 4; shared_run IntComparator ex_schedule s }"

lemma ex_final_readers:
  "map_option (\<lambda>s. (sh_writer s, sh_readers s 0, sh_readers s 1)) ex_final = Some (Idle, Found [] 5 True, Dumped [5] [5])"
  by code_simp

theorem readers_need_no_lock_witness:
  "\<exists>s. ex_final = Some s \<and> sh_readers s 0 = Found [] 5 True \<and> sh_readers s 1 = Dumped [5] [5] \<and>
     (\<exists>now. dump (sh_list s) = Some now \<and> has_key IntComparator 5 now)"
proof -
  obtain s where s: "ex_final = Some s" "sh_readers s 0 = Found [] 5 True" "sh_readers s 1 = Dumped [5] [5]"
    using ex_final_readers by auto
  then obtain s0 where s0: "shared_init 0 3 4 = Some s0" "shared_run IntComparator ex_schedule s0 = Some s"
    by (auto simp: ex_final_def bind_eq_Some_conv)
  have "shared_reachable IntComparator {- (2 ^ 30)..<2 ^ 30} 0 3 4 s"
    by (rule shared_run_reachable [OF shared_reachable.init [OF s0(1)] s0(2)]) (simp add: ex_schedule_def)
  from readers_need_no_lock [OF int_order.key_order_axioms this]
  obtain now where "dump (sh_list s) = Some now"
    "case sh_readers s 0 of
          Found ks t b \<Rightarrow> (b \<longrightarrow> has_key IntComparator t now) \<and> (has_key IntComparator t ks \<longrightarrow> b)
        | Dumped ks out \<Rightarrow> sorted_wrt (\<lambda>a b. IntComparator a b < 0) out \<and> set ks \<subseteq> set out \<and> set out \<subseteq> set now
        | _ \<Rightarrow> True" by auto
  then show ?thesis using s by auto
qed

end
