(* ===== verification/SetTimer.thy ===== *)
theory SetTimer
  imports Prelude
begin

text \<open>
  The timers of \<^verbatim>\<open>timer/timer.cc\<close> and \<^verbatim>\<open>timer/timer_with_timerfd.cc\<close>: a \<open>std::set\<close> of nodes ordered by
  time and number. The set is the list of its elements in the order of iteration, an iterator the
  element it points to, or \<open>None\<close> for the end. \<open>time_t\<close> and \<open>int64_t\<close> have 64 bits; an addition that
  overflows has no result. The clock and the callbacks are arguments.
\<close>

section \<open>Model\<close>

record TimerNodeBase =
  tb_expire :: int
  tb_id :: int

record SetNode = TimerNodeBase +
  sn_func :: int

record SetTimer =
  st_gid :: int
  st_timeouts :: "SetNode list"

definition base_of :: "SetNode \<Rightarrow> TimerNodeBase" where
  "base_of n = \<lparr>tb_expire = tb_expire n, tb_id = tb_id n\<rparr>"

text \<open>\<open>operator <\<close>\<close>

definition base_less :: "'a TimerNodeBase_scheme \<Rightarrow> 'b TimerNodeBase_scheme \<Rightarrow> bool" where
  "base_less lhd rhd =
     (if tb_expire lhd < tb_expire rhd then True
      else if tb_expire lhd > tb_expire rhd then False
      else tb_id lhd < tb_id rhd)"

text \<open>\<open>emplace\<close> of a set: the element in the set and the set; an equivalent element is kept.\<close>

fun set_emplace :: "SetNode \<Rightarrow> SetNode list \<Rightarrow> SetNode \<times> SetNode list" where
  "set_emplace n [] = (n, [n])"
| "set_emplace n (x # xs) =
     (if base_less n x then (n, n # x # xs)
      else if base_less x n then let (e, ys) = set_emplace n xs in (e, x # ys)
      else (x, x # xs))"

text \<open>\<open>emplace_hint\<close> at the end: the hint is followed if the element belongs there.\<close>

definition set_emplace_end :: "SetNode \<Rightarrow> SetNode list \<Rightarrow> SetNode \<times> SetNode list" where
  "set_emplace_end n xs = (if xs = [] \<or> base_less (List.last xs) n then (n, xs @ [n]) else set_emplace n xs)"

definition fits64 :: "int \<Rightarrow> bool" where
  "fits64 i \<longleftrightarrow> - (2 ^ 63) \<le> i \<and> i < 2 ^ 63"

definition GenID :: "SetTimer \<Rightarrow> (int \<times> SetTimer) option" where
  "GenID t = (if fits64 (st_gid t + 1) then Some (st_gid t, t\<lparr>st_gid := st_gid t + 1\<rparr>) else None)"

definition AddTimer :: "int \<Rightarrow> int \<Rightarrow> int \<Rightarrow> SetTimer \<Rightarrow> (TimerNodeBase \<times> SetTimer) option" where
  "AddTimer tick msec func t =
     (let expire = tick + msec in
      if \<not> fits64 expire then None
      else if st_timeouts t = [] \<or> expire \<le> tb_expire (List.last (st_timeouts t)) then
        do { (id, t) \<leftarrow> GenID t;
             let (e, ts) = set_emplace \<lparr>tb_expire = expire, tb_id = id, sn_func = func\<rparr> (st_timeouts t) in
             Some (base_of e, t\<lparr>st_timeouts := ts\<rparr>) }
      else
        do { (id, t) \<leftarrow> GenID t;
             let (e, ts) = set_emplace_end \<lparr>tb_expire = expire, tb_id = id, sn_func = func\<rparr> (st_timeouts t) in
             Some (base_of e, t\<lparr>st_timeouts := ts\<rparr>) })"

definition set_find :: "TimerNodeBase \<Rightarrow> SetNode list \<Rightarrow> SetNode option" where
  "set_find b xs = find (\<lambda>x. \<not> base_less x b \<and> \<not> base_less b x) xs"

text \<open>\<open>erase\<close> of an iterator returns the next one; an iterator that is not in the set is not valid.\<close>

definition set_erase :: "SetNode \<Rightarrow> SetNode list \<Rightarrow> (SetNode option \<times> SetNode list) option" where
  "set_erase n xs =
     (case dropWhile (\<lambda>x. x \<noteq> n) xs of
        [] \<Rightarrow> None
      | _ # ys \<Rightarrow> Some (case ys of [] \<Rightarrow> None | y # _ \<Rightarrow> Some y, takeWhile (\<lambda>x. x \<noteq> n) xs @ ys))"

definition DelTimer :: "TimerNodeBase \<Rightarrow> SetTimer \<Rightarrow> (bool \<times> SetTimer) option" where
  "DelTimer b t =
     (case set_find b (st_timeouts t) of
        None \<Rightarrow> Some (False, t)
      | Some n \<Rightarrow> do { (_, ts) \<leftarrow> set_erase n (st_timeouts t); Some (True, t\<lparr>st_timeouts := ts\<rparr>) })"

definition set_begin :: "SetNode list \<Rightarrow> SetNode option" where
  "set_begin xs = (case xs of [] \<Rightarrow> None | x # _ \<Rightarrow> Some x)"

text \<open>The loop of \<open>HandleTimer\<close>, with the nodes that were called.\<close>

partial_function (option) HandleTimer_loop ::
  "(SetNode \<Rightarrow> SetTimer \<Rightarrow> SetTimer option) \<Rightarrow> int \<Rightarrow> SetNode option \<Rightarrow> SetTimer \<Rightarrow> (SetTimer \<times> SetNode list) option" where
  "HandleTimer_loop call now iter t =
     (case iter of
        None \<Rightarrow> Some (t, [])
      | Some n \<Rightarrow>
          if tb_expire n \<le> now then
            do { t \<leftarrow> call n t;
                 (iter, ts) \<leftarrow> set_erase n (st_timeouts t);
                 (t, log) \<leftarrow> HandleTimer_loop call now iter (t\<lparr>st_timeouts := ts\<rparr>);
                 Some (t, n # log) }
          else Some (t, []))"

declare HandleTimer_loop.simps [code]

definition HandleTimer :: "(SetNode \<Rightarrow> SetTimer \<Rightarrow> SetTimer option) \<Rightarrow> int \<Rightarrow> SetTimer \<Rightarrow> (SetTimer \<times> SetNode list) option" where
  "HandleTimer call now t = HandleTimer_loop call now (set_begin (st_timeouts t)) t"

definition TimeToSleep :: "int \<Rightarrow> SetTimer \<Rightarrow> int option" where
  "TimeToSleep tick t =
     (case set_begin (st_timeouts t) of
        None \<Rightarrow> Some (- 1)
      | Some n \<Rightarrow>
          let diss = tb_expire n - tick in
          if \<not> fits64 diss then None else Some (if diss > 0 then diss else 0))"

text \<open>The last argument of \<open>epoll_wait\<close> in \<open>main\<close> is an \<open>int\<close>, to which the \<open>time_t\<close> is converted: its low 32 bits count.\<close>

definition epoll_timeout :: "int \<Rightarrow> SetTimer \<Rightarrow> int option" where
  "epoll_timeout tick t = map_option (\<lambda>d. sint (word_of_int d :: u32)) (TimeToSleep tick t)"

text \<open>\<open>UpdateTimerfd\<close>: seconds and nanoseconds of the absolute time; division and remainder are those of C.\<close>

definition c_quot :: "int \<Rightarrow> int \<Rightarrow> int" where "c_quot a b = sgn a * (\<bar>a\<bar> div b)"
definition c_rem :: "int \<Rightarrow> int \<Rightarrow> int" where "c_rem a b = a - c_quot a b * b"

definition UpdateTimerfd :: "SetTimer \<Rightarrow> int \<times> int" where
  "UpdateTimerfd t =
     (case set_begin (st_timeouts t) of
        Some n \<Rightarrow> (c_quot (tb_expire n) 1000, c_rem (tb_expire n) 1000 * 1000000)
      | None \<Rightarrow> (0, 0))"

text \<open>
  The rounds of the loop in \<open>main\<close>, at the times at which \<open>epoll_wait\<close> returned. What a callback does may
  depend on that time.
\<close>

fun timer_rounds ::
  "(int \<Rightarrow> SetNode \<Rightarrow> SetTimer \<Rightarrow> SetTimer option) \<Rightarrow> int list \<Rightarrow> SetTimer \<Rightarrow> (SetTimer \<times> SetNode list list) option" where
  "timer_rounds call [] t = Some (t, [])"
| "timer_rounds call (now # nows) t =
     do { (t, log) \<leftarrow> HandleTimer (call now) now t;
          (t, logs) \<leftarrow> timer_rounds call nows t;
          Some (t, log # logs) }"

section \<open>Invariant\<close>

text \<open>The set is strictly ordered and no number has been given out twice.\<close>

definition st_inv :: "SetTimer \<Rightarrow> bool" where
  "st_inv t \<longleftrightarrow> sorted_wrt base_less (st_timeouts t) \<and> (\<forall>n \<in> set (st_timeouts t). tb_id n < st_gid t) \<and>
     distinct (map tb_id (st_timeouts t))"

lemma base_less_iff: "base_less a b \<longleftrightarrow> tb_expire a < tb_expire b \<or> tb_expire a = tb_expire b \<and> tb_id a < tb_id b"
  by (auto simp: base_less_def)


lemma base_less_trans: "base_less a b \<Longrightarrow> base_less b c \<Longrightarrow> base_less a c"
  by (auto simp: base_less_iff)

lemma base_less_irrefl: "\<not> base_less a a"
  by (simp add: base_less_iff)

lemma base_less_asym: "base_less a b \<Longrightarrow> \<not> base_less b a"
  by (auto simp: base_less_iff)

lemma base_less_total: "tb_id a \<noteq> tb_id b \<Longrightarrow> \<not> base_less a b \<Longrightarrow> base_less b a"
  by (auto simp: base_less_iff)

section \<open>Adding and deleting\<close>

lemma set_emplace_ok:
  assumes "sorted_wrt base_less xs" "\<And>x. x \<in> set xs \<Longrightarrow> tb_id x \<noteq> tb_id n"
  shows "set_emplace n xs = (n, filter (\<lambda>x. base_less x n) xs @ n # filter (\<lambda>x. base_less n x) xs)"
  using assms
proof (induction xs)
  case (Cons x xs)
  have "base_less n y" "\<not> base_less y n" if "y \<in> set xs" "base_less n x" for y
    using that Cons.prems(1) base_less_trans [of n x y] base_less_trans [of n y n] base_less_irrefl [of n] by auto
  moreover have "\<not> base_less n x" if "base_less x n"
    using that base_less_trans base_less_irrefl by blast
  ultimately show ?case
    using Cons base_less_total [of x n]
    by (cases "base_less n x") (auto simp: filter_id_conv filter_empty_conv split: prod.splits)
qed simp

lemma sorted_around:
  assumes "sorted_wrt base_less xs"
  shows "sorted_wrt base_less (filter (\<lambda>x. base_less x n) xs @ n # filter (\<lambda>x. base_less n x) xs)"
  using assms by (auto simp: sorted_wrt_append sorted_wrt_filter intro: base_less_trans)

lemma set_emplace_end_ok:
  assumes "sorted_wrt base_less xs" "\<And>x. x \<in> set xs \<Longrightarrow> tb_id x \<noteq> tb_id n"
  shows "set_emplace_end n xs = set_emplace n xs"
proof (cases "xs = [] \<or> base_less (List.last xs) n")
  case True
  have "base_less x n" if "x \<in> set xs" for x
  proof -
    have "x = List.last xs \<or> base_less x (List.last xs)"
      using that assms(1) by (induction xs) auto
    then show ?thesis using True that base_less_trans by (metis empty_iff list.set(1))
  qed
  then have "filter (\<lambda>x. base_less x n) xs = xs" "filter (\<lambda>x. base_less n x) xs = []"
    using base_less_asym by (auto simp: filter_id_conv filter_empty_conv)
  then show ?thesis using True set_emplace_ok [OF assms] by (simp add: set_emplace_end_def)
qed (simp add: set_emplace_end_def)

lemma AddTimer_ok:
  fixes func :: int
  assumes inv: "st_inv t" and "fits64 (tick + msec)" "fits64 (st_gid t + 1)"
  defines "n \<equiv> \<lparr>tb_expire = tick + msec, tb_id = st_gid t, sn_func = func\<rparr>"
  shows "\<exists>t'. AddTimer tick msec func t = Some (base_of n, t') \<and> st_inv t' \<and> st_gid t' = st_gid t + 1 \<and>
    st_timeouts t' = filter (\<lambda>x. base_less x n) (st_timeouts t) @ n # filter (\<lambda>x. base_less n x) (st_timeouts t)"
proof -
  let ?ts = "filter (\<lambda>x. base_less x n) (st_timeouts t) @ n # filter (\<lambda>x. base_less n x) (st_timeouts t)"
  have so: "sorted_wrt base_less (st_timeouts t)" and ids: "x \<in> set (st_timeouts t) \<Longrightarrow> tb_id x < st_gid t" for x
    using inv by (auto simp: st_inv_def)
  have new: "x \<in> set (st_timeouts t) \<Longrightarrow> tb_id x \<noteq> tb_id n" for x using ids [of x] by (simp add: n_def)
  let ?t = "t\<lparr>st_gid := st_gid t + 1, st_timeouts := ?ts\<rparr>"
  have "set_emplace n (st_timeouts t) = (n, ?ts)" "set_emplace_end n (st_timeouts t) = (n, ?ts)"
    using set_emplace_ok [OF so new] set_emplace_end_ok [OF so new] by simp_all
  then have "AddTimer tick msec func t = Some (base_of n, ?t)"
    using assms(2,3) by (simp add: AddTimer_def GenID_def Let_def n_def)
  moreover have "distinct (map tb_id ?ts)"
  proof -
    have d: "distinct (map tb_id (st_timeouts t))" using inv by (simp add: st_inv_def)
    have "tb_id n \<notin> tb_id ` set (st_timeouts t)" using new by (metis imageE)
    then show ?thesis using d base_less_asym [of _ n] by (auto simp: distinct_map inj_on_def image_iff)
  qed
  then have "st_inv ?t" using sorted_around [OF so, of n] ids by (fastforce simp: st_inv_def n_def)
  ultimately show ?thesis by auto
qed

lemma base_equivalent: "\<not> base_less (x :: SetNode) b \<and> \<not> base_less b x \<longleftrightarrow> base_of x = b"
  by (cases b) (auto simp: base_less_iff base_of_def)

lemma find_split: "\<forall>u \<in> set us. \<not> P u \<Longrightarrow> P x \<Longrightarrow> find P (us @ x # vs) = Some x"
  by (induction us) auto

lemma DelTimer_ok:
  assumes inv: "st_inv t"
  shows "DelTimer b t = Some (b \<in> base_of ` set (st_timeouts t), t\<lparr>st_timeouts := filter (\<lambda>n. base_of n \<noteq> b) (st_timeouts t)\<rparr>) \<and>
    st_inv (t\<lparr>st_timeouts := filter (\<lambda>n. base_of n \<noteq> b) (st_timeouts t)\<rparr>)"
proof -
  let ?xs = "st_timeouts t"
  have d: "distinct (map tb_id ?xs)" using inv by (simp add: st_inv_def)
  have "DelTimer b t = Some (b \<in> base_of ` set ?xs, t\<lparr>st_timeouts := filter (\<lambda>n. base_of n \<noteq> b) ?xs\<rparr>)"
  proof (cases "b \<in> base_of ` set ?xs")
    case False
    then have "set_find b ?xs = None" "filter (\<lambda>n. base_of n \<noteq> b) ?xs = ?xs"
      by (auto simp: set_find_def base_equivalent find_None_iff filter_id_conv)
    then show ?thesis using False by (simp add: DelTimer_def)
  next
    case True
    then obtain us x vs where s: "?xs = us @ x # vs" "base_of x = b" "\<forall>u \<in> set us. base_of u \<noteq> b"
      using split_list_first_prop [of ?xs "\<lambda>x. base_of x = b"] by (auto simp: image_iff)
    have "set_find b ?xs = Some x" using s by (simp add: set_find_def base_equivalent find_split)
    moreover have "base_of v \<noteq> b" if "v \<in> set vs" for v
      using d s(1,2) that by (auto simp: base_of_def) (metis imageI)
    moreover have "\<forall>u \<in> set us. u \<noteq> x" using s by auto
    ultimately show ?thesis using True s
      by (auto simp: DelTimer_def set_erase_def dropWhile_append3 takeWhile_append filter_id_conv)
  qed
  moreover have "st_inv (t\<lparr>st_timeouts := filter (\<lambda>n. base_of n \<noteq> b) ?xs\<rparr>)"
    using inv by (auto simp: st_inv_def sorted_wrt_filter distinct_map_filter)
  ultimately show ?thesis by simp
qed


section \<open>Handling\<close>

abbreviation due_nodes :: "int \<Rightarrow> SetTimer \<Rightarrow> SetNode list" where
  "due_nodes now t \<equiv> filter (\<lambda>n. tb_expire n \<le> now) (st_timeouts t)"

text \<open>
  A callback is well behaved at time \<open>now\<close> if it keeps the set well formed and adds and deletes only
  timers that expire later.
\<close>

definition later_only :: "int \<Rightarrow> (SetNode \<Rightarrow> SetTimer \<Rightarrow> SetTimer option) \<Rightarrow> bool" where
  "later_only now call \<longleftrightarrow> (\<forall>n t. st_inv t \<and> n \<in> set (st_timeouts t) \<longrightarrow>
     (\<exists>t'. call n t = Some t' \<and> st_inv t' \<and> due_nodes now t' = due_nodes now t))"

lemma due_first:
  assumes "sorted_wrt base_less xs"
  shows "xs = filter (\<lambda>n. tb_expire n \<le> now) xs @ filter (\<lambda>n. \<not> tb_expire n \<le> now) xs"
  using assms
proof (induction xs)
  case (Cons x xs)
  have "filter (\<lambda>n. tb_expire n \<le> now) xs = []" if "now < tb_expire x"
    using Cons.prems that by (auto simp: filter_empty_conv base_less_iff)
  then show ?case using Cons by (auto simp: not_le filter_empty_conv filter_id_conv)
qed simp

lemma HandleTimer_loop_ok:
  assumes "st_inv t" "later_only now call"
  shows "\<exists>t'. HandleTimer_loop call now (set_begin (st_timeouts t)) t = Some (t', due_nodes now t) \<and> st_inv t' \<and> due_nodes now t' = []"
  using assms(1)
proof (induction "due_nodes now t" arbitrary: t)
  case Nil
  then have "\<forall>n \<in> set (st_timeouts t). now < tb_expire n" by (metis (no_types, lifting) filter_empty_conv linorder_not_le)
  then have "HandleTimer_loop call now (set_begin (st_timeouts t)) t = Some (t, [])"
    by (cases "st_timeouts t") (auto simp: HandleTimer_loop.simps set_begin_def)
  then show ?case using Nil by auto
next
  case (Cons d ds)
  define later where "later s = filter (\<lambda>n. \<not> tb_expire n \<le> now) (st_timeouts s)" for s :: SetTimer
  have xs: "st_timeouts s = due_nodes now s @ later s" if "st_inv s" for s
    using that due_first [of "st_timeouts s" now] by (simp add: st_inv_def later_def)
  have d: "d \<in> set (st_timeouts t)" "tb_expire d \<le> now" "set_begin (st_timeouts t) = Some d"
  proof -
    have "d \<in> set (due_nodes now t)" by (metis Cons.hyps(2) list.set_intros(1))
    then show "d \<in> set (st_timeouts t)" "tb_expire d \<le> now" by simp_all
    have "st_timeouts t = d # ds @ later t" by (metis xs [OF Cons.prems] Cons.hyps(2) append_Cons)
    then show "set_begin (st_timeouts t) = Some d" by (simp add: set_begin_def)
  qed
  obtain t1 where 1: "call d t = Some t1" "st_inv t1" "due_nodes now t1 = d # ds"
    using assms(2) d(1) Cons unfolding later_only_def by metis
  have e: "set_erase d (st_timeouts t1) = Some (set_begin (ds @ later t1), ds @ later t1)"
    using xs [OF 1(2)] 1(3) by (cases "ds @ later t1") (simp_all add: set_erase_def set_begin_def)
  let ?t = "t1\<lparr>st_timeouts := ds @ later t1\<rparr>"
  have "st_inv ?t" using 1(2) xs [OF 1(2)] 1(3) by (auto simp: st_inv_def)
  moreover have du: "due_nodes now ?t = ds"
  proof -
    have "filter (\<lambda>n. tb_expire n \<le> now) (d # ds) = d # ds" unfolding 1(3) [symmetric] by simp
    then have "filter (\<lambda>n. tb_expire n \<le> now) ds = ds" using d(2) by simp
    then show ?thesis by (simp add: later_def)
  qed
  ultimately obtain t' where 2: "HandleTimer_loop call now (set_begin (ds @ later t1)) ?t = Some (t', ds)" "st_inv t'" "due_nodes now t' = []"
    using Cons.hyps(1) [of ?t] by auto
  have "HandleTimer_loop call now (set_begin (st_timeouts t)) t = Some (t', d # ds)"
    using d 1(1) e 2(1) by (simp add: HandleTimer_loop.simps [of call now "Some d"])
  then show ?case using 2 Cons.hyps(2) by auto
qed

lemma quiet_later_only: "later_only now (\<lambda>n t. Some t)"
  by (simp add: later_only_def)

text \<open>A callback that starts its timer again, later than now.\<close>

lemma restart_later_only:
  assumes "\<And>n. now < tick + msec n" "\<And>n. fits64 (tick + msec n)"
  shows "later_only now (\<lambda>n t. if fits64 (st_gid t + 1) then map_option snd (AddTimer tick (msec n) (sn_func n) t) else Some t)"
  unfolding later_only_def
proof (intro allI impI)
  fix n t
  assume a: "st_inv t \<and> n \<in> set (st_timeouts t)"
  show "\<exists>t'. (if fits64 (st_gid t + 1) then map_option snd (AddTimer tick (msec n) (sn_func n) t) else Some t) = Some t' \<and>
    st_inv t' \<and> due_nodes now t' = due_nodes now t"
  proof (cases "fits64 (st_gid t + 1)")
    case True
    let ?n = "\<lparr>tb_expire = tick + msec n, tb_id = st_gid t, sn_func = sn_func n\<rparr>"
    obtain t' where t': "AddTimer tick (msec n) (sn_func n) t = Some (base_of ?n, t')" "st_inv t'"
      "st_timeouts t' = filter (\<lambda>x. base_less x ?n) (st_timeouts t) @ ?n # filter (\<lambda>x. base_less ?n x) (st_timeouts t)"
      using AddTimer_ok [of t tick "msec n" "sn_func n"] a assms(2) True by blast
    have "(base_less x ?n \<and> tb_expire x \<le> now) = (tb_expire x \<le> now)" "\<not> (base_less ?n x \<and> tb_expire x \<le> now)" for x :: SetNode
      using assms(1) [of n] by (auto simp: base_less_iff)
    then have "due_nodes now t' = due_nodes now t"
      using assms(1) [of n] by (simp add: t'(3) not_le)
    then show ?thesis using True t' by simp
  qed (use a in simp)
qed


text \<open>No callback deletes the timer \<open>n\<close>.\<close>

definition keeps_timer :: "SetNode \<Rightarrow> (SetNode \<Rightarrow> SetTimer \<Rightarrow> SetTimer option) \<Rightarrow> bool" where
  "keeps_timer n call \<longleftrightarrow> (\<forall>m t t'. call m t = Some t' \<longrightarrow> n \<in> set (st_timeouts t) \<longrightarrow> n \<in> set (st_timeouts t'))"

lemma set_emplace_mono: "set xs \<subseteq> set (snd (set_emplace m xs))"
  by (induction xs) (auto split: prod.splits)

lemma set_emplace_end_mono: "set xs \<subseteq> set (snd (set_emplace_end m xs))"
  using set_emplace_mono [of xs m] by (auto simp: set_emplace_end_def)

lemma AddTimer_mono: "AddTimer tick msec func t = Some (b, t') \<Longrightarrow> set (st_timeouts t) \<subseteq> set (st_timeouts t')"
  using set_emplace_mono [of "st_timeouts t" "\<lparr>tb_expire = tick + msec, tb_id = st_gid t, sn_func = func\<rparr>"]
    set_emplace_end_mono [of "st_timeouts t" "\<lparr>tb_expire = tick + msec, tb_id = st_gid t, sn_func = func\<rparr>"]
  by (auto simp: AddTimer_def GenID_def Let_def split: if_splits prod.splits)

lemma restart_keeps:
  "keeps_timer n (\<lambda>m t. if fits64 (st_gid t + 1) then map_option snd (AddTimer tick (msec m) (sn_func m) t) else Some t)"
  unfolding keeps_timer_def using AddTimer_mono by (auto split: if_splits) blast

lemma HandleTimer_loop_keeps:
  assumes "keeps_timer n call" "now < tb_expire n"
  shows "HandleTimer_loop call now iter t = Some (t', log) \<Longrightarrow> n \<in> set (st_timeouts t) \<Longrightarrow> n \<in> set (st_timeouts t')"
proof (induction log arbitrary: iter t)
  case Nil
  then show ?case
    by (subst (asm) HandleTimer_loop.simps) (auto split: option.splits if_splits bind_splits)
next
  case (Cons m log)
  obtain t1 it ts where 1: "iter = Some m" "tb_expire m \<le> now" "call m t = Some t1" "set_erase m (st_timeouts t1) = Some (it, ts)"
      "HandleTimer_loop call now it (t1\<lparr>st_timeouts := ts\<rparr>) = Some (t', log)"
    using Cons.prems(1) by (subst (asm) HandleTimer_loop.simps) (auto split: option.splits if_splits bind_splits)
  have "n \<in> set (st_timeouts t1)" using assms(1) 1(3) Cons.prems(2) unfolding keeps_timer_def by blast
  moreover obtain zs where "dropWhile (\<lambda>x. x \<noteq> m) (st_timeouts t1) = m # zs" "ts = takeWhile (\<lambda>x. x \<noteq> m) (st_timeouts t1) @ zs"
    using 1(4) hd_dropWhile [of "\<lambda>x. x \<noteq> m" "st_timeouts t1"] by (fastforce simp: set_erase_def split: list.splits)
  moreover have "n \<noteq> m" using 1(2) assms(2) by auto
  ultimately have "n \<in> set ts"
    by (metis Un_iff insert_iff list.simps(15) set_append takeWhile_dropWhile_id)
  then show ?case using Cons.IH [OF 1(5)] by simp
qed

lemma timer_rounds_ok:
  assumes "st_inv t" "sorted nows" "\<forall>now \<in> set nows. later_only now (call now)"
  shows "\<exists>t' logs. timer_rounds call nows t = Some (t', logs) \<and> length logs = length nows \<and> st_inv t' \<and>
    (\<forall>i < length nows. sorted_wrt base_less (logs ! i)) \<and>
    (\<forall>n. (\<forall>now \<in> set nows. keeps_timer n (call now)) \<longrightarrow> n \<in> set (st_timeouts t) \<longrightarrow>
      (\<forall>i < length nows. n \<in> set (logs ! i) \<longleftrightarrow> tb_expire n \<le> nows ! i \<and> (\<forall>j < i. nows ! j < tb_expire n))) \<and>
    (\<forall>n. (\<forall>now \<in> set nows. tb_expire n \<le> now) \<longrightarrow> n \<notin> set (st_timeouts t) \<longrightarrow> (\<forall>i < length nows. n \<notin> set (logs ! i)))"
  using assms
proof (induction nows arbitrary: t)
  case (Cons now nows)
  obtain t1 where t1: "HandleTimer (call now) now t = Some (t1, due_nodes now t)" "st_inv t1" "due_nodes now t1 = []"
    using HandleTimer_loop_ok [OF Cons.prems(1), of now "call now"] Cons.prems(3) by (auto simp: HandleTimer_def)
  obtain t' logs where r: "timer_rounds call nows t1 = Some (t', logs)" "length logs = length nows" "st_inv t'"
      "\<forall>i < length nows. sorted_wrt base_less (logs ! i)"
      "\<forall>n. (\<forall>now \<in> set nows. keeps_timer n (call now)) \<longrightarrow> n \<in> set (st_timeouts t1) \<longrightarrow>
        (\<forall>i < length nows. n \<in> set (logs ! i) \<longleftrightarrow> tb_expire n \<le> nows ! i \<and> (\<forall>j < i. nows ! j < tb_expire n))"
      "\<forall>n. (\<forall>now \<in> set nows. tb_expire n \<le> now) \<longrightarrow> n \<notin> set (st_timeouts t1) \<longrightarrow> (\<forall>i < length nows. n \<notin> set (logs ! i))"
    using Cons.IH [OF t1(2)] Cons.prems(2,3) by auto
  have gone: "n \<notin> set (st_timeouts t1)" if "tb_expire n \<le> now" for n
    using t1(3) that by (auto simp: filter_empty_conv)
  have srt: "sorted_wrt base_less (due_nodes now t)" using Cons.prems(1) by (simp add: st_inv_def sorted_wrt_filter)
  have "n \<in> set ((due_nodes now t # logs) ! i) \<longleftrightarrow> tb_expire n \<le> (now # nows) ! i \<and> (\<forall>j < i. (now # nows) ! j < tb_expire n)"
    if n: "\<forall>now \<in> set (now # nows). keeps_timer n (call now)" "n \<in> set (st_timeouts t)" "i < length (now # nows)" for n i
  proof (cases i)
    case 0
    then show ?thesis using n(2) by simp
  next
    case (Suc k)
    show ?thesis
    proof (cases "tb_expire n \<le> now")
      case True
      then have "\<forall>k \<in> set nows. tb_expire n \<le> k" using Cons.prems(2) by fastforce
      then have "n \<notin> set (logs ! k)" using r(6) gone [OF True] n(3) Suc by auto
      then show ?thesis using Suc True by (auto simp: All_less_Suc2)
    next
      case False
      then have "n \<in> set (st_timeouts t1)"
        using HandleTimer_loop_keeps [of n "call now" now] t1(1) n(1,2) by (simp add: HandleTimer_def)
      then show ?thesis using r(5) n(1,3) Suc False by (auto simp: All_less_Suc2)
    qed
  qed
  moreover have "n \<notin> set ((due_nodes now t # logs) ! i)"
    if "\<forall>k \<in> set (now # nows). tb_expire n \<le> k" "n \<notin> set (st_timeouts t)" "i < length (now # nows)" for n i
    using that r(6) gone [of n] by (cases i) auto
  moreover have "sorted_wrt base_less ((due_nodes now t # logs) ! i)" if "i < length (now # nows)" for i
    using that srt r(4) by (cases i) auto
  moreover have "timer_rounds call (now # nows) t = Some (t', due_nodes now t # logs)" using t1(1) r(1) by simp
  ultimately show ?case using r(2,3) by (intro exI [of _ t'] exI [of _ "due_nodes now t # logs"]) simp
qed simp

lemma AddTimer_DelTimer:
  assumes inv: "st_inv t" and "fits64 (tick + msec)" "fits64 (st_gid t + 1)"
  shows "\<exists>b t1 t2. AddTimer tick msec func t = Some (b, t1) \<and> st_inv t1 \<and> tb_expire b = tick + msec \<and> b \<in> base_of ` set (st_timeouts t1) \<and>
    DelTimer b t1 = Some (True, t2) \<and> st_inv t2 \<and> st_timeouts t2 = st_timeouts t"
proof -
  let ?n = "\<lparr>tb_expire = tick + msec, tb_id = st_gid t, sn_func = func\<rparr>"
  obtain t1 where 1: "AddTimer tick msec func t = Some (base_of ?n, t1)" "st_inv t1"
    "st_timeouts t1 = filter (\<lambda>x. base_less x ?n) (st_timeouts t) @ ?n # filter (\<lambda>x. base_less ?n x) (st_timeouts t)"
    using AddTimer_ok [OF assms, of func] by blast
  have ids: "tb_id x < st_gid t" if "x \<in> set (st_timeouts t)" for x using inv that by (simp add: st_inv_def)
  have keep: "base_of x \<noteq> base_of ?n" if "x \<in> set (st_timeouts t)" for x using ids [OF that] by (simp add: base_of_def)
  have "filter (\<lambda>x. base_less x ?n) xs @ filter (\<lambda>x. base_less ?n x) xs = xs"
    if "sorted_wrt base_less xs" "\<forall>x \<in> set xs. tb_id x \<noteq> tb_id ?n" for xs :: "SetNode list"
    using that
  proof (induction xs)
    case (Cons x xs)
    have "filter (\<lambda>x. base_less x ?n) xs = []" if "base_less ?n x"
      using that Cons.prems base_less_trans [of ?n x] base_less_asym by (fastforce simp: filter_empty_conv)
    then show ?case using Cons base_less_total [of ?n x] base_less_asym [of x ?n] by auto
  qed simp
  then have "filter (\<lambda>n. base_of n \<noteq> base_of ?n) (st_timeouts t1) = st_timeouts t"
    using inv keep ids by (auto simp: 1(3) st_inv_def filter_filter cong: filter_cong conj_cong) (metis less_irrefl)
  then show ?thesis using 1 DelTimer_ok [OF 1(2), of "base_of ?n"]
    by (intro exI [of _ "base_of ?n"] exI [of _ t1] exI [of _ "t1\<lparr>st_timeouts := st_timeouts t\<rparr>"]) (auto simp: base_of_def)
qed

section \<open>Waiting\<close>

lemma TimeToSleep_ok:
  assumes "st_inv t"
  shows "if st_timeouts t = [] then TimeToSleep tick t = Some (- 1)
    else fits64 (tb_expire (hd (st_timeouts t)) - tick) \<longrightarrow>
      (\<exists>d. TimeToSleep tick t = Some d \<and> 0 \<le> d \<and> due_nodes (tick + d) t \<noteq> [] \<and> (\<forall>k < d. 0 < d \<longrightarrow> due_nodes (tick + k) t = []) \<and>
        d = max 0 (tb_expire (hd (st_timeouts t)) - tick))"
proof (cases "st_timeouts t")
  case (Cons n ns)
  then have "\<forall>m \<in> set (st_timeouts t). tb_expire n \<le> tb_expire m"
    using assms by (auto simp: st_inv_def base_less_iff)
  then show ?thesis using Cons
    by (auto simp: TimeToSleep_def set_begin_def Let_def filter_empty_conv not_le)
qed (simp add: TimeToSleep_def set_begin_def)

lemma epoll_timeout_ok:
  assumes "st_inv t"
  shows "if st_timeouts t = [] then epoll_timeout tick t = Some (- 1)
    else - (2 ^ 63) \<le> tb_expire (hd (st_timeouts t)) - tick \<and> tb_expire (hd (st_timeouts t)) - tick < 2 ^ 31 \<longrightarrow>
      (\<exists>d. epoll_timeout tick t = Some d \<and> 0 \<le> d \<and> due_nodes (tick + d) t \<noteq> [] \<and> (\<forall>k < d. 0 < d \<longrightarrow> due_nodes (tick + k) t = []))"
proof (cases "st_timeouts t = []")
  case True
  then show ?thesis by (simp add: epoll_timeout_def TimeToSleep_def set_begin_def)
next
  case False
  have "\<exists>d. epoll_timeout tick t = Some d \<and> 0 \<le> d \<and> due_nodes (tick + d) t \<noteq> [] \<and> (\<forall>k < d. 0 < d \<longrightarrow> due_nodes (tick + k) t = [])"
    if "- (2 ^ 63) \<le> tb_expire (hd (st_timeouts t)) - tick" "tb_expire (hd (st_timeouts t)) - tick < 2 ^ 31"
  proof -
    have "fits64 (tb_expire (hd (st_timeouts t)) - tick)" using that by (simp add: fits64_def)
    then obtain d where d: "TimeToSleep tick t = Some d" "0 \<le> d" "due_nodes (tick + d) t \<noteq> []"
        "\<forall>k < d. 0 < d \<longrightarrow> due_nodes (tick + k) t = []" "d = max 0 (tb_expire (hd (st_timeouts t)) - tick)"
      using TimeToSleep_ok [OF assms, of tick] False by auto
    have "d < 2 ^ 31" using d(5) that(2) by simp
    then have "sint (word_of_int d :: u32) = d" using d(2) by (simp add: signed_of_int signed_take_bit_int_eq_self)
    then show ?thesis using d by (simp add: epoll_timeout_def)
  qed
  then show ?thesis using False by simp
qed

text \<open>A timer further away than the range of \<open>int\<close>: \<open>epoll_wait\<close> does not wait at all, or for ever.\<close>

lemma epoll_timeout_truncates:
  "epoll_timeout 0 \<lparr>st_gid = 1, st_timeouts = [\<lparr>tb_expire = 2 ^ 32, tb_id = 0, sn_func = 0\<rparr>]\<rparr> = Some 0"
  "epoll_timeout 0 \<lparr>st_gid = 1, st_timeouts = [\<lparr>tb_expire = 2 ^ 32 - 1, tb_id = 0, sn_func = 0\<rparr>]\<rparr> = Some (- 1)"
  by (simp_all add: epoll_timeout_def TimeToSleep_def set_begin_def fits64_def)

lemma UpdateTimerfd_ok:
  assumes "st_timeouts t = n # ns" "0 \<le> tb_expire n"
  shows "fst (UpdateTimerfd t) * 1000000000 + snd (UpdateTimerfd t) = tb_expire n * 1000000 \<and>
    0 \<le> snd (UpdateTimerfd t) \<and> snd (UpdateTimerfd t) < 1000000000"
proof -
  have q: "c_quot (tb_expire n) 1000 = tb_expire n div 1000"
    using assms(2) by (cases "tb_expire n = 0") (simp_all add: c_quot_def)
  then have r: "c_rem (tb_expire n) 1000 = tb_expire n mod 1000"
    by (simp add: c_rem_def minus_div_mult_eq_mod)
  have "d * 1000000000 + m * 1000000 = e * 1000000" if "e = d * 1000 + m" for d m e :: int
    using that by simp
  then have "tb_expire n div 1000 * 1000000000 + tb_expire n mod 1000 * 1000000 = tb_expire n * 1000000"
    using div_mult_mod_eq [of "tb_expire n" 1000] by metis
  moreover have "0 \<le> tb_expire n mod 1000" "tb_expire n mod 1000 < 1000" by simp_all
  ultimately show ?thesis using assms(1) q r by (simp add: UpdateTimerfd_def set_begin_def)
qed

text \<open>A callback that deletes its own timer leaves the loop with an iterator that is not valid.\<close>

lemma self_delete_undefined:
  assumes "st_inv t" "due_nodes now t \<noteq> []"
  shows "HandleTimer (\<lambda>n t. map_option snd (DelTimer (base_of n) t)) now t = None"
proof -
  obtain x xs where xs: "st_timeouts t = x # xs" using assms(2) by (cases "st_timeouts t") auto
  obtain y where "y \<in> set (x # xs)" "tb_expire y \<le> now" using assms(2) unfolding filter_empty_conv xs by blast
  then have x: "tb_expire x \<le> now" using assms(1) xs by (auto simp: st_inv_def base_less_iff)
  have "set_erase x (filter (\<lambda>n. base_of n \<noteq> base_of x) (st_timeouts t)) = None"
  proof -
    have "\<forall>n \<in> set (filter (\<lambda>n. base_of n \<noteq> base_of x) (st_timeouts t)). n \<noteq> x" by auto
    then have "dropWhile (\<lambda>n. n \<noteq> x) (filter (\<lambda>n. base_of n \<noteq> base_of x) (st_timeouts t)) = []"
      unfolding dropWhile_eq_Nil_conv .
    then show ?thesis unfolding set_erase_def by (simp only: list.case)
  qed
  then show ?thesis using DelTimer_ok [OF assms(1), of "base_of x"] x xs
    by (simp add: HandleTimer_def set_begin_def HandleTimer_loop.simps [of _ now "Some x"])
qed

section \<open>Properties\<close>

text \<open>
  C34: On a well-formed timer: a timer that is added and deleted again leaves the set as it was; with
  callbacks that only touch later timers, \<open>HandleTimer\<close> returns and calls exactly the due timers, once
  each, by time and then by number; over the rounds of the loop, with callbacks that only touch timers later than
  the time of their round, and a clock that does not go back, every timer that no callback deletes is called in the first round
  whose time has reached it and in no other. \<open>epoll_wait\<close> is asked to wait until exactly the first timer if this is less than
  \<open>2 ^ 31\<close> ms away (and without limit if there is none); \<open>UpdateTimerfd\<close> sets exactly its time.
\<close>

theorem SetTimer_exact:
  assumes "st_inv t" "fits64 (tick + msec)" "fits64 (st_gid t + 1)" "later_only now call"
    and "sorted nows" "\<forall>now \<in> set nows. later_only now (calls now)"
  shows "(\<exists>b t1 t2. AddTimer tick msec func t = Some (b, t1) \<and> st_inv t1 \<and> tb_expire b = tick + msec \<and> b \<in> base_of ` set (st_timeouts t1) \<and>
      DelTimer b t1 = Some (True, t2) \<and> st_inv t2 \<and> st_timeouts t2 = st_timeouts t) \<and>
    (\<exists>t'. HandleTimer call now t = Some (t', due_nodes now t) \<and> st_inv t' \<and> due_nodes now t' = []) \<and>
    (\<exists>t' logs. timer_rounds calls nows t = Some (t', logs) \<and> length logs = length nows \<and> st_inv t' \<and>
      (\<forall>i < length nows. sorted_wrt base_less (logs ! i)) \<and>
      (\<forall>n. (\<forall>now \<in> set nows. keeps_timer n (calls now)) \<longrightarrow> n \<in> set (st_timeouts t) \<longrightarrow>
        (\<forall>i < length nows. n \<in> set (logs ! i) \<longleftrightarrow> tb_expire n \<le> nows ! i \<and> (\<forall>j < i. nows ! j < tb_expire n)))) \<and>
    (if st_timeouts t = [] then epoll_timeout tick t = Some (- 1) \<and> UpdateTimerfd t = (0, 0)
     else (- (2 ^ 63) \<le> tb_expire (hd (st_timeouts t)) - tick \<and> tb_expire (hd (st_timeouts t)) - tick < 2 ^ 31 \<longrightarrow>
         (\<exists>d. epoll_timeout tick t = Some d \<and> 0 \<le> d \<and> due_nodes (tick + d) t \<noteq> [] \<and>
           (\<forall>k < d. 0 < d \<longrightarrow> due_nodes (tick + k) t = []))) \<and>
       (0 < tb_expire (hd (st_timeouts t)) \<longrightarrow>
          fst (UpdateTimerfd t) * 1000000000 + snd (UpdateTimerfd t) = tb_expire (hd (st_timeouts t)) * 1000000 \<and>
          0 \<le> snd (UpdateTimerfd t) \<and> snd (UpdateTimerfd t) < 1000000000))"
proof (intro conjI)
  show "\<exists>b t1 t2. AddTimer tick msec func t = Some (b, t1) \<and> st_inv t1 \<and> tb_expire b = tick + msec \<and> b \<in> base_of ` set (st_timeouts t1) \<and>
      DelTimer b t1 = Some (True, t2) \<and> st_inv t2 \<and> st_timeouts t2 = st_timeouts t"
    using AddTimer_DelTimer [OF assms(1-3), of func] by blast
  show "\<exists>t'. HandleTimer call now t = Some (t', due_nodes now t) \<and> st_inv t' \<and> due_nodes now t' = []"
    using HandleTimer_loop_ok [OF assms(1,4)] by (simp add: HandleTimer_def)
  show "\<exists>t' logs. timer_rounds calls nows t = Some (t', logs) \<and> length logs = length nows \<and> st_inv t' \<and>
      (\<forall>i < length nows. sorted_wrt base_less (logs ! i)) \<and>
      (\<forall>n. (\<forall>now \<in> set nows. keeps_timer n (calls now)) \<longrightarrow> n \<in> set (st_timeouts t) \<longrightarrow>
        (\<forall>i < length nows. n \<in> set (logs ! i) \<longleftrightarrow> tb_expire n \<le> nows ! i \<and> (\<forall>j < i. nows ! j < tb_expire n)))"
    using timer_rounds_ok [OF assms(1,5,6)] by blast
  show "if st_timeouts t = [] then epoll_timeout tick t = Some (- 1) \<and> UpdateTimerfd t = (0, 0)
     else (- (2 ^ 63) \<le> tb_expire (hd (st_timeouts t)) - tick \<and> tb_expire (hd (st_timeouts t)) - tick < 2 ^ 31 \<longrightarrow>
         (\<exists>d. epoll_timeout tick t = Some d \<and> 0 \<le> d \<and> due_nodes (tick + d) t \<noteq> [] \<and>
           (\<forall>k < d. 0 < d \<longrightarrow> due_nodes (tick + k) t = []))) \<and>
       (0 < tb_expire (hd (st_timeouts t)) \<longrightarrow>
          fst (UpdateTimerfd t) * 1000000000 + snd (UpdateTimerfd t) = tb_expire (hd (st_timeouts t)) * 1000000 \<and>
          0 \<le> snd (UpdateTimerfd t) \<and> snd (UpdateTimerfd t) < 1000000000)"
    using epoll_timeout_ok [OF assms(1), of tick] UpdateTimerfd_ok [of t]
    by (cases "st_timeouts t") (simp_all add: UpdateTimerfd_def set_begin_def)
qed

theorem SetTimer_exact_witness:
  "let t = \<lparr>st_gid = 2, st_timeouts = [\<lparr>tb_expire = 1000, tb_id = 0, sn_func = 7\<rparr>, \<lparr>tb_expire = 1010, tb_id = 1, sn_func = 8\<rparr>]\<rparr> in
   (\<exists>t'. HandleTimer (\<lambda>n t. Some t) 1500 t = Some (t', st_timeouts t) \<and> due_nodes 1500 t' = []) \<and> epoll_timeout 900 t = Some 100 \<and>
   (\<exists>t' logs. timer_rounds (\<lambda>now n t. if fits64 (st_gid t + 1) then map_option snd (AddTimer now 5 (sn_func n) t) else Some t)
        [1000, 1005, 1010, 1015] t = Some (t', logs) \<and> map (\<lambda>log. \<lparr>tb_expire = 1010, tb_id = 1, sn_func = 8\<rparr> \<in> set log) logs = [False, False, True, False])"
proof -
  let ?n = "\<lparr>tb_expire = 1010, tb_id = 1, sn_func = 8\<rparr>" and ?nows = "[1000, 1005, 1010, 1015] :: int list"
  define t where "t = \<lparr>st_gid = 2, st_timeouts = [\<lparr>tb_expire = 1000, tb_id = 0, sn_func = 7\<rparr>, ?n]\<rparr>"
  define calls where "calls = (\<lambda>now (n :: SetNode) t. if fits64 (st_gid t + 1) then map_option snd (AddTimer now 5 (sn_func n) t) else Some t)"
  have inv: "st_inv t" "fits64 (900 + 2100)" "fits64 (st_gid t + 1)"
    by (simp_all add: t_def st_inv_def base_less_def fits64_def)
  have "later_only now (calls now)" if "0 \<le> now" "now < 2000" for now
    unfolding calls_def using that by (intro restart_later_only) (simp_all add: fits64_def)
  moreover have "keeps_timer ?n (calls now)" for now unfolding calls_def by (rule restart_keeps)
  ultimately have ok: "sorted ?nows" "\<forall>now \<in> set ?nows. later_only now (calls now)" "\<forall>now \<in> set ?nows. keeps_timer ?n (calls now)"
    by simp_all
  note e = SetTimer_exact [OF inv quiet_later_only ok(1,2), of 0 1500]
  have h: "\<exists>t'. HandleTimer (\<lambda>n t. Some t) 1500 t = Some (t', due_nodes 1500 t) \<and> due_nodes 1500 t' = []" using e by blast
  obtain t' logs where r: "timer_rounds calls ?nows t = Some (t', logs)" "length logs = length ?nows"
      "\<forall>n. (\<forall>now \<in> set ?nows. keeps_timer n (calls now)) \<longrightarrow> n \<in> set (st_timeouts t) \<longrightarrow>
        (\<forall>i < length ?nows. n \<in> set (logs ! i) \<longleftrightarrow> tb_expire n \<le> ?nows ! i \<and> (\<forall>j < i. ?nows ! j < tb_expire n))"
    using e by blast
  have n: "\<forall>i < 4. ?n \<in> set (logs ! i) \<longleftrightarrow> 1010 \<le> ?nows ! i \<and> (\<forall>j < i. ?nows ! j < 1010)"
    using r(3) [rule_format, of ?n] ok(3) by (simp add: t_def)
  have "map (\<lambda>log. ?n \<in> set log) logs = [False, False, True, False]"
  proof (rule nth_equalityI)
    fix i assume "i < length (map (\<lambda>log. ?n \<in> set log) logs)"
    then have "i = 0 \<or> i = 1 \<or> i = 2 \<or> i = 3" "i < length logs" using r(2) by auto
    then show "map (\<lambda>log. ?n \<in> set log) logs ! i = [False, False, True, False] ! i"
      using n [rule_format, of i] by (elim disjE) (auto simp: numeral_2_eq_2 numeral_3_eq_3 All_less_Suc)
  qed (use r(2) in simp)
  moreover have "due_nodes 1500 t = st_timeouts t" "epoll_timeout 900 t = Some 100"
    by (simp_all add: t_def epoll_timeout_def TimeToSleep_def set_begin_def fits64_def)
  ultimately show ?thesis using h r(1) by (auto simp: t_def [symmetric] calls_def [symmetric])
qed

end
