(* ===== verification/DbWorker.thy ===== *)
theory DbWorker
  imports LockQueues "HOL-Library.Multiset"
begin

text \<open>
  The threads of \<^verbatim>\<open>mysql-conn-pool/dbimpl/DatabaseWorker.cpp\<close> that execute the asynchronous operations of a pool: all
  of them take operations from one producer-consumer queue, and the destructor of a worker cancels that queue and
  joins its thread. A call of the queue is one step, since it runs under the mutex of the queue, and so is an access
  to the atomic token of a worker. Operations are numbered in the order of their allocation; \<open>dw_executed\<close> is
  the list of the operations that were executed and deleted, with their workers, \<open>dw_deleted\<close> that of the operations
  which \<open>Cancel\<close> deleted, and \<open>dw_lost\<close> that of the operations a thread took and returned without.
\<close>

section \<open>Threads\<close>

datatype worker_pc = WLoop | WPopped "nat option" | WRun nat | WExit

datatype dtor_pc = DAlive | DToken | DCancelled | DJoined

record workers =
  dw_queue :: "nat pc_queue"
  dw_next :: nat
  dw_pc :: "nat \<Rightarrow> worker_pc"
  dw_token :: "nat \<Rightarrow> bool"
  dw_dtor :: "nat \<Rightarrow> dtor_pc"
  dw_executed :: "(nat \<times> nat) list"
  dw_deleted :: "nat list"
  dw_lost :: "nat list"

text \<open>\<open>DatabaseWorker::DatabaseWorker\<close> for every asynchronous connection of a pool.\<close>

definition DatabaseWorker_ctor :: workers where
  "DatabaseWorker_ctor = \<lparr>dw_queue = pc_ctor, dw_next = 0, dw_pc = (\<lambda>_. WLoop), dw_token = (\<lambda>_. False), dw_dtor = (\<lambda>_. DAlive),
     dw_executed = [], dw_deleted = [], dw_lost = []\<rparr>"

text \<open>\<open>DatabaseWorkerPool::Enqueue\<close> with a new operation.\<close>

definition Enqueue :: "workers \<Rightarrow> workers" where
  "Enqueue s = s\<lparr>dw_queue := pc_Push (dw_next s) (dw_queue s), dw_next := Suc (dw_next s)\<rparr>"

text \<open>A step of the loop of \<open>WorkerThread\<close>, if the thread does not wait or has not returned.\<close>

definition WorkerThread_step :: "nat \<Rightarrow> workers \<Rightarrow> workers option" where
  "WorkerThread_step w s =
     (case dw_pc s w of
        WLoop \<Rightarrow> map_option (\<lambda>(op, q). s\<lparr>dw_queue := q, dw_pc := (dw_pc s)(w := WPopped op)\<rparr>) (pc_WaitAndPop (dw_queue s))
      | WPopped None \<Rightarrow> Some (s\<lparr>dw_pc := (dw_pc s)(w := WExit)\<rparr>)
      | WPopped (Some op) \<Rightarrow>
          if dw_token s w then Some (s\<lparr>dw_pc := (dw_pc s)(w := WExit), dw_lost := op # dw_lost s\<rparr>)
          else Some (s\<lparr>dw_pc := (dw_pc s)(w := WRun op)\<rparr>)
      | WRun op \<Rightarrow> Some (s\<lparr>dw_pc := (dw_pc s)(w := WLoop), dw_executed := dw_executed s @ [(w, op)]\<rparr>)
      | WExit \<Rightarrow> None)"

text \<open>A step of the destructor; \<open>join\<close> waits for the end of the thread.\<close>

definition DatabaseWorker_dtor_step :: "nat \<Rightarrow> workers \<Rightarrow> workers option" where
  "DatabaseWorker_dtor_step w s =
     (case dw_dtor s w of
        DAlive \<Rightarrow> Some (s\<lparr>dw_token := (dw_token s)(w := True), dw_dtor := (dw_dtor s)(w := DToken)\<rparr>)
      | DToken \<Rightarrow> (let (deleted, q) = pc_Cancel (dw_queue s) in
          Some (s\<lparr>dw_queue := q, dw_deleted := deleted @ dw_deleted s, dw_dtor := (dw_dtor s)(w := DCancelled)\<rparr>))
      | DCancelled \<Rightarrow> if dw_pc s w = WExit then Some (s\<lparr>dw_dtor := (dw_dtor s)(w := DJoined)\<rparr>) else None
      | DJoined \<Rightarrow> None)"

inductive dw_step :: "nat \<Rightarrow> workers \<Rightarrow> workers \<Rightarrow> bool" for N where
  enqueue: "dw_step N s (Enqueue s)"
| thread: "w < N \<Longrightarrow> WorkerThread_step w s = Some s' \<Longrightarrow> dw_step N s s'"
| destroy: "w < N \<Longrightarrow> DatabaseWorker_dtor_step w s = Some s' \<Longrightarrow> dw_step N s s'"

inductive dw_reachable :: "nat \<Rightarrow> workers \<Rightarrow> bool" for N where
  init: "dw_reachable N DatabaseWorker_ctor"
| step: "dw_reachable N s \<Longrightarrow> dw_step N s s' \<Longrightarrow> dw_reachable N s'"

section \<open>Every operation has one owner\<close>

fun held :: "worker_pc \<Rightarrow> nat list" where
  "held (WPopped (Some op)) = [op]"
| "held (WRun op) = [op]"
| "held _ = []"

text \<open>The operations that the first \<open>N\<close> threads work on, and all that were ever enqueued.\<close>

definition held_by :: "nat \<Rightarrow> (nat \<Rightarrow> worker_pc) \<Rightarrow> nat list" where
  "held_by N pc = concat (map (\<lambda>w. held (pc w)) [0..<N])"

definition owners :: "nat \<Rightarrow> workers \<Rightarrow> nat list" where
  "owners N s = pc_queue (dw_queue s) @ held_by N (dw_pc s) @ map snd (dw_executed s) @ dw_deleted s @ dw_lost s"

lemma held_by_simps [simp]: "held_by 0 pc = []" "held_by (Suc N) pc = held_by N pc @ held (pc N)"
  by (simp_all add: held_by_def)

lemma held_by_other: "N \<le> w \<Longrightarrow> held_by N (pc(w := x)) = held_by N pc"
  by (induction N) (simp_all only: held_by_simps, simp)

lemma held_by_set:
  "w < N \<Longrightarrow> mset (held_by N (pc(w := x))) + mset (held (pc w)) = mset (held_by N pc) + mset (held x)"
proof (induction N)
  case (Suc N)
  show ?case
  proof (cases "w = N")
    case True
    show ?thesis unfolding True held_by_simps held_by_other [OF order_refl] by simp
  next
    case False
    then show ?thesis using Suc by (simp add: algebra_simps)
  qed
qed simp

lemma pc_queue_cases:
  "pc_WaitAndPop q = Some (None, q') \<Longrightarrow> q' = q"
  "pc_WaitAndPop q = Some (Some op, q') \<Longrightarrow> pc_queue q = op # pc_queue q' \<and> pc_shutdown q' = pc_shutdown q \<and> \<not> pc_shutdown q"
  by (auto simp: pc_WaitAndPop_def split: if_splits)

lemma thread_owners:
  assumes "w < N" "WorkerThread_step w s = Some s'"
  shows "mset (owners N s') = mset (owners N s)"
proof (cases "dw_pc s w")
  case WLoop
  then obtain r q where q: "pc_WaitAndPop (dw_queue s) = Some (r, q)" "s' = s\<lparr>dw_queue := q, dw_pc := (dw_pc s)(w := WPopped r)\<rparr>"
    using assms(2) by (auto simp: WorkerThread_step_def)
  have "mset (held_by N ((dw_pc s)(w := WPopped r))) = mset (held_by N (dw_pc s)) + mset (held (WPopped r))"
    using held_by_set [OF assms(1), of "dw_pc s" "WPopped r"] WLoop by simp
  moreover have "mset (pc_queue (dw_queue s)) = mset (pc_queue q) + mset (held (WPopped r))"
    using q(1) by (cases r) (auto dest: pc_queue_cases)
  ultimately show ?thesis unfolding q(2) by (simp add: owners_def)
next
  case (WPopped r)
  show ?thesis
  proof (cases r)
    case None
    then show ?thesis using assms WPopped held_by_set [OF assms(1), of "dw_pc s" WExit] by (auto simp: WorkerThread_step_def owners_def)
  next
    case (Some op)
    then show ?thesis
      using assms WPopped held_by_set [OF assms(1), of "dw_pc s" WExit] held_by_set [OF assms(1), of "dw_pc s" "WRun op"]
      by (auto simp: WorkerThread_step_def owners_def split: if_splits)
  qed
next
  case (WRun op)
  then show ?thesis using assms held_by_set [OF assms(1), of "dw_pc s" WLoop] by (auto simp: WorkerThread_step_def owners_def)
qed (use assms in \<open>simp add: WorkerThread_step_def\<close>)


lemma step_owners:
  assumes "dw_step N s s'" "mset (owners N s) = mset [0..<dw_next s]"
  shows "mset (owners N s') = mset [0..<dw_next s']"
  using assms(1)
proof cases
  case enqueue
  then show ?thesis using assms(2) by (simp add: owners_def Enqueue_def pc_Push_def)
next
  case (thread w)
  have "dw_next s' = dw_next s" using thread(2)
    by (auto simp: WorkerThread_step_def split: worker_pc.splits option.splits if_splits)
  then show ?thesis using thread_owners [OF thread] assms(2) by simp
next
  case (destroy w)
  then show ?thesis using assms(2)
    by (auto simp: DatabaseWorker_dtor_step_def owners_def pc_Cancel_def ac_simps split: dtor_pc.splits if_splits)
qed

lemma init_owners: "mset (owners N DatabaseWorker_ctor) = mset [0..<dw_next DatabaseWorker_ctor]"
  by (simp add: owners_def DatabaseWorker_ctor_def pc_ctor_def held_by_def)

lemma reachable_owners: "dw_reachable N s \<Longrightarrow> mset (owners N s) = mset [0..<dw_next s]"
  by (induction rule: dw_reachable.induct) (rule init_owners, rule step_owners)

section \<open>Order\<close>

text \<open>What a worker executed, followed by what it works on, and then all that waits, is in the order of the queue.\<close>

definition executed_by :: "nat \<Rightarrow> workers \<Rightarrow> nat list" where
  "executed_by w s = map snd (filter (\<lambda>x. fst x = w) (dw_executed s))"

definition line_of :: "nat \<Rightarrow> workers \<Rightarrow> nat list" where
  "line_of w s = executed_by w s @ held (dw_pc s w) @ pc_queue (dw_queue s) @ [dw_next s]"

definition in_order :: "workers \<Rightarrow> bool" where
  "in_order s \<longleftrightarrow> (\<forall>w. sorted_wrt (<) (line_of w s))"

lemma thread_in_order:
  assumes "in_order s" "WorkerThread_step w s = Some s'"
  shows "in_order s'"
  unfolding in_order_def
proof
  fix v
  have o: "sorted_wrt (<) (line_of v s)" using assms(1) by (simp add: in_order_def)
  show "sorted_wrt (<) (line_of v s')"
  proof (cases "dw_pc s w")
    case WLoop
    then obtain r q where q: "pc_WaitAndPop (dw_queue s) = Some (r, q)" "s' = s\<lparr>dw_queue := q, dw_pc := (dw_pc s)(w := WPopped r)\<rparr>"
      using assms(2) by (auto simp: WorkerThread_step_def)
    have "pc_queue (dw_queue s) = held (WPopped r) @ pc_queue q" using q(1) by (cases r) (auto dest: pc_queue_cases)
    then show ?thesis using o WLoop unfolding q(2)
      by (cases "v = w") (auto simp: line_of_def executed_by_def sorted_wrt_append)
  next
    case (WPopped r)
    then show ?thesis using o assms(2)
      by (cases r; cases "v = w") (auto simp: WorkerThread_step_def line_of_def executed_by_def sorted_wrt_append split: if_splits)
  next
    case (WRun op)
    then show ?thesis using o assms(2)
      by (cases "v = w") (auto simp: WorkerThread_step_def line_of_def executed_by_def)
  qed (use assms in \<open>simp add: WorkerThread_step_def\<close>)
qed

lemma Enqueue_in_order: "in_order s \<Longrightarrow> in_order (Enqueue s)"
  unfolding in_order_def
proof
  fix w
  assume "\<forall>w. sorted_wrt (<) (line_of w s)"
  then have o: "sorted_wrt (<) (line_of w s)" by blast
  have e: "line_of w (Enqueue s) = line_of w s @ [Suc (dw_next s)]"
    by (simp add: line_of_def executed_by_def Enqueue_def pc_Push_def)
  show "sorted_wrt (<) (line_of w (Enqueue s))"
    unfolding e using o by (auto simp: sorted_wrt_append line_of_def)
qed

lemma dtor_in_order: "in_order s \<Longrightarrow> DatabaseWorker_dtor_step w s = Some s' \<Longrightarrow> in_order s'"
  unfolding in_order_def
proof
  fix v
  assume "\<forall>w. sorted_wrt (<) (line_of w s)" "DatabaseWorker_dtor_step w s = Some s'"
  then have "sorted_wrt (<) (line_of v s)" "pc_queue (dw_queue s') = pc_queue (dw_queue s) \<or> pc_queue (dw_queue s') = []"
    "executed_by v s' = executed_by v s" "dw_pc s' = dw_pc s" "dw_next s' = dw_next s"
    by (auto simp: DatabaseWorker_dtor_step_def executed_by_def pc_Cancel_def split: dtor_pc.splits if_splits)
  then show "sorted_wrt (<) (line_of v s')" by (auto simp: line_of_def sorted_wrt_append)
qed

lemma step_in_order: "dw_step N s s' \<Longrightarrow> in_order s \<Longrightarrow> in_order s'"
  by (induction rule: dw_step.induct) (auto intro: Enqueue_in_order dtor_in_order thread_in_order)

lemma init_in_order: "in_order DatabaseWorker_ctor"
  by (simp add: in_order_def line_of_def executed_by_def DatabaseWorker_ctor_def pc_ctor_def)

lemma reachable_in_order: "dw_reachable N s \<Longrightarrow> in_order s"
  by (induction rule: dw_reachable.induct) (rule init_in_order, rule step_in_order)

section \<open>Destruction\<close>

definition dtor_inv :: "workers \<Rightarrow> bool" where
  "dtor_inv s \<longleftrightarrow>
     (\<forall>w. dw_token s w = (dw_dtor s w \<noteq> DAlive)) \<and>
     (\<forall>w. dw_dtor s w \<in> {DCancelled, DJoined} \<longrightarrow> pc_shutdown (dw_queue s)) \<and>
     (\<forall>w. dw_dtor s w = DJoined \<longrightarrow> dw_pc s w = WExit) \<and>
     ((\<forall>w. dw_dtor s w = DAlive) \<longrightarrow> dw_deleted s = [] \<and> dw_lost s = [] \<and> \<not> pc_shutdown (dw_queue s))"

lemma WaitAndPop_shutdown: "pc_WaitAndPop q = Some (r, q') \<Longrightarrow> pc_shutdown q' = pc_shutdown q"
  by (auto simp: pc_WaitAndPop_def split: if_splits)

lemma thread_dtor_inv: "dtor_inv s \<Longrightarrow> WorkerThread_step w s = Some s' \<Longrightarrow> dtor_inv s'"
  by (cases "dw_pc s w")
    (auto simp: WorkerThread_step_def dtor_inv_def WaitAndPop_shutdown split: option.splits if_splits)

lemma dtor_dtor_inv: "dtor_inv s \<Longrightarrow> DatabaseWorker_dtor_step w s = Some s' \<Longrightarrow> dtor_inv s'"
  by (cases "dw_dtor s w")
    (auto simp: DatabaseWorker_dtor_step_def dtor_inv_def pc_Cancel_def split: if_splits)

lemma step_dtor_inv: "dw_step N s s' \<Longrightarrow> dtor_inv s \<Longrightarrow> dtor_inv s'"
  by (induction rule: dw_step.induct)
    (auto intro: thread_dtor_inv dtor_dtor_inv, simp add: dtor_inv_def Enqueue_def pc_Push_def)

lemma init_dtor_inv: "dtor_inv DatabaseWorker_ctor"
  by (simp add: dtor_inv_def DatabaseWorker_ctor_def pc_ctor_def)

lemma reachable_dtor_inv: "dw_reachable N s \<Longrightarrow> dtor_inv s"
  by (induction rule: dw_reachable.induct) (rule init_dtor_inv, rule step_dtor_inv)


text \<open>
  C37: with any number of workers and any order of their steps, every operation that was enqueued has exactly one
  owner: it waits in the queue, a thread works on it, it was executed, or a destructor deleted it, or a cancelled
  thread dropped it. None is executed twice, each worker executes in the order of the queue, and as long as no
  destructor runs nothing is deleted or dropped.
\<close>

theorem DatabaseWorker_runs_each_once:
  assumes "dw_reachable N s"
  shows "mset (owners N s) = mset [0..<dw_next s] \<and> distinct (map snd (dw_executed s)) \<and> sorted_wrt (<) (executed_by w s) \<and>
    ((\<forall>v. dw_dtor s v = DAlive) \<longrightarrow> dw_deleted s = [] \<and> dw_lost s = [])"
proof -
  have m: "mset (owners N s) = mset [0..<dw_next s]" by (rule reachable_owners [OF assms])
  then have "distinct (owners N s)" using mset_eq_imp_distinct_iff distinct_upt by blast
  moreover have "sorted_wrt (<) (line_of w s)" using reachable_in_order [OF assms] by (simp add: in_order_def)
  moreover have "dtor_inv s" by (rule reachable_dtor_inv [OF assms])
  ultimately show ?thesis using m by (auto simp: owners_def line_of_def sorted_wrt_append dtor_inv_def)
qed

text \<open>Two workers: the first executes an operation, the second takes one and is destroyed before it looks at its token.\<close>

definition ex_workers :: workers where
  "ex_workers = the (do {
     s \<leftarrow> WorkerThread_step 0 (Enqueue (Enqueue (Enqueue DatabaseWorker_ctor)));
     s \<leftarrow> WorkerThread_step 0 s; s \<leftarrow> WorkerThread_step 1 s; s \<leftarrow> WorkerThread_step 0 s;
     s \<leftarrow> DatabaseWorker_dtor_step 1 s; s \<leftarrow> DatabaseWorker_dtor_step 1 s; WorkerThread_step 1 s })"

lemmas dw_eval = Enqueue_def WorkerThread_step_def DatabaseWorker_dtor_step_def DatabaseWorker_ctor_def pc_ctor_def pc_Push_def
  pc_WaitAndPop_def pc_Cancel_def

lemma ex_workers_state: "dw_executed ex_workers = [(0, 0)]" "dw_deleted ex_workers = [2]" "dw_lost ex_workers = [1]" "dw_next ex_workers = 3"
  by (simp_all add: ex_workers_def dw_eval)

lemma dw_thread_reachable: "dw_reachable N s \<Longrightarrow> w < N \<Longrightarrow> WorkerThread_step w s = Some s' \<Longrightarrow> dw_reachable N s'"
  using dw_reachable.step dw_step.thread by blast

lemma dw_dtor_reachable: "dw_reachable N s \<Longrightarrow> w < N \<Longrightarrow> DatabaseWorker_dtor_step w s = Some s' \<Longrightarrow> dw_reachable N s'"
  using dw_reachable.step dw_step.destroy by blast

lemma ex_workers_reachable: "dw_reachable 2 ex_workers"
proof -
  have 0: "dw_reachable 2 (Enqueue (Enqueue (Enqueue DatabaseWorker_ctor)))"
    by (intro dw_reachable.step [OF _ dw_step.enqueue] dw_reachable.init)
  have "do {
     s \<leftarrow> WorkerThread_step 0 (Enqueue (Enqueue (Enqueue DatabaseWorker_ctor)));
     s \<leftarrow> WorkerThread_step 0 s; s \<leftarrow> WorkerThread_step 1 s; s \<leftarrow> WorkerThread_step 0 s;
     s \<leftarrow> DatabaseWorker_dtor_step 1 s; s \<leftarrow> DatabaseWorker_dtor_step 1 s; WorkerThread_step 1 s } = Some ex_workers"
    unfolding ex_workers_def by (simp add: dw_eval)
  then obtain a b c d e f where s: "WorkerThread_step 0 (Enqueue (Enqueue (Enqueue DatabaseWorker_ctor))) = Some a"
    "WorkerThread_step 0 a = Some b" "WorkerThread_step 1 b = Some c" "WorkerThread_step 0 c = Some d"
    "DatabaseWorker_dtor_step 1 d = Some e" "DatabaseWorker_dtor_step 1 e = Some f" "WorkerThread_step 1 f = Some ex_workers"
    by (auto simp: bind_eq_Some_conv)
  have "dw_reachable 2 d" by (rule dw_thread_reachable [OF dw_thread_reachable [OF dw_thread_reachable [OF dw_thread_reachable [OF 0 _ s(1)] _ s(2)] _ s(3)] _ s(4)]) simp_all
  then show ?thesis by (rule dw_thread_reachable [OF dw_dtor_reachable [OF dw_dtor_reachable [OF _ _ s(5)] _ s(6)] _ s(7)]) simp_all
qed

theorem DatabaseWorker_runs_each_once_witness:
  "dw_executed ex_workers = [(0, 0)] \<and> dw_lost ex_workers = [1] \<and>
   mset (owners 2 ex_workers) = mset [0..<3] \<and> distinct (map snd (dw_executed ex_workers)) \<and> sorted_wrt (<) (executed_by 0 ex_workers)"
  using DatabaseWorker_runs_each_once [OF ex_workers_reachable, of 0] ex_workers_state by simp

text \<open>The steps a thread can still do after the queue was cancelled.\<close>

fun worker_rank :: "worker_pc \<Rightarrow> nat" where
  "worker_rank (WRun op) = 3"
| "worker_rank WLoop = 2"
| "worker_rank (WPopped r) = 1"
| "worker_rank WExit = 0"

lemma cancelled_thread:
  assumes "dw_token s w" "pc_shutdown (dw_queue s)" "dw_pc s w \<noteq> WExit"
  shows "\<exists>s'. WorkerThread_step w s = Some s' \<and> worker_rank (dw_pc s' w) < worker_rank (dw_pc s w)"
  using assms by (cases "dw_pc s w") (auto simp: WorkerThread_step_def pc_WaitAndPop_def split: option.splits)

lemma other_steps:
  assumes "v \<noteq> w"
  shows "WorkerThread_step v s = Some s' \<Longrightarrow> dw_pc s' w = dw_pc s w" "DatabaseWorker_dtor_step v s = Some s' \<Longrightarrow> dw_pc s' = dw_pc s"
    "dw_pc (Enqueue s) = dw_pc s"
  using assms by (auto simp: WorkerThread_step_def DatabaseWorker_dtor_step_def Enqueue_def pc_Cancel_def
    split: worker_pc.splits option.splits if_splits dtor_pc.splits)

text \<open>
  The destructor of a worker returns: once it has cancelled the queue, its thread never waits again, and has
  returned after at most three steps of its own, whatever the other threads do in between; then \<open>join\<close> returns.
\<close>

theorem DatabaseWorker_dtor_returns:
  assumes "dw_reachable N s" "dw_dtor s w = DCancelled"
  shows "worker_rank (dw_pc s w) \<le> 3 \<and>
    (if dw_pc s w = WExit then DatabaseWorker_dtor_step w s \<noteq> None
     else \<exists>s'. WorkerThread_step w s = Some s' \<and> worker_rank (dw_pc s' w) < worker_rank (dw_pc s w)) \<and>
    (\<forall>s'. dw_step N s s' \<longrightarrow> worker_rank (dw_pc s' w) \<le> worker_rank (dw_pc s w))"
proof -
  have i: "dw_token s w" "pc_shutdown (dw_queue s)" using reachable_dtor_inv [OF assms(1)] assms(2) by (auto simp: dtor_inv_def)
  have "worker_rank (dw_pc s' w) \<le> worker_rank (dw_pc s w)" if "dw_step N s s'" for s'
    using that
  proof cases
    case (thread v)
    show ?thesis
    proof (cases "v = w")
      case True
      then have "dw_pc s w \<noteq> WExit" using thread(2) by (auto simp: WorkerThread_step_def)
      then show ?thesis using cancelled_thread [OF i] thread(2) True by auto
    qed (use other_steps(1) thread(2) in simp)
  next
    case (destroy v)
    have "dw_pc s' = dw_pc s" using destroy(2)
      by (auto simp: DatabaseWorker_dtor_step_def pc_Cancel_def split: dtor_pc.splits if_splits)
    then show ?thesis by simp
  qed (simp add: Enqueue_def)
  moreover have "worker_rank (dw_pc s w) \<le> 3" by (cases "dw_pc s w") simp_all
  ultimately show ?thesis using cancelled_thread [OF i] assms(2) by (simp add: DatabaseWorker_dtor_step_def)
qed

lemma ex_workers_dtor: "dw_dtor ex_workers 1 = DCancelled" "dw_pc ex_workers 1 = WExit"
  by (simp_all add: ex_workers_def dw_eval)

theorem DatabaseWorker_dtor_returns_witness: "DatabaseWorker_dtor_step 1 ex_workers \<noteq> None"
  using DatabaseWorker_dtor_returns [OF ex_workers_reachable ex_workers_dtor(1)] ex_workers_dtor(2) by simp

end
