(* ===== verification/DbStatement.thy ===== *)
theory DbStatement
  imports Prelude
begin

text \<open>
  Prepared statements of \<^verbatim>\<open>mysql-conn-pool/dbimpl\<close>: the typed parameters of \<^verbatim>\<open>PreparedStatement.cpp\<close> and
  their binding to the buffers of the client library in \<^verbatim>\<open>MySQLPreparedStatement.cpp\<close>. A number is
  its bits, a floating-point number those of its IEEE representation. \<open>None\<close> stands for a failed
  assertion or an exception. Buffers and lengths are owned by the binding; \<open>ps_live\<close> counts what the
  binding of parameters allocated with \<open>new\<close> and did not \<open>delete\<close>.
\<close>

section \<open>Parameters\<close>

datatype PreparedStatementData =
    DBool bool
  | DUInt8 "8 word" | DUInt16 "16 word" | DUInt32 "32 word" | DUInt64 "64 word"
  | DInt8 "8 word" | DInt16 "16 word" | DInt32 "32 word" | DInt64 "64 word"
  | DFloat "32 word" | DDouble "64 word"
  | DString string | DBinary "u8 list" | DNull

record PreparedStatementBase =
  pb_index :: u32
  pb_data :: "PreparedStatementData list"

text \<open>A variant starts with the default value of its first type.\<close>

definition PreparedStatementBase_ctor :: "u32 \<Rightarrow> u8 \<Rightarrow> PreparedStatementBase" where
  "PreparedStatementBase_ctor index capacity = \<lparr>pb_index = index, pb_data = replicate (unat capacity) (DBool False)\<rparr>"

definition set_data :: "u8 \<Rightarrow> PreparedStatementData \<Rightarrow> PreparedStatementBase \<Rightarrow> PreparedStatementBase option" where
  "set_data index v s = (if unat index < length (pb_data s) then Some (s\<lparr>pb_data := (pb_data s)[unat index := v]\<rparr>) else None)"

definition setBool :: "u8 \<Rightarrow> bool \<Rightarrow> PreparedStatementBase \<Rightarrow> PreparedStatementBase option" where
  "setBool index v = set_data index (DBool v)"
definition setUInt8 :: "u8 \<Rightarrow> 8 word \<Rightarrow> PreparedStatementBase \<Rightarrow> PreparedStatementBase option" where
  "setUInt8 index v = set_data index (DUInt8 v)"
definition setUInt16 :: "u8 \<Rightarrow> 16 word \<Rightarrow> PreparedStatementBase \<Rightarrow> PreparedStatementBase option" where
  "setUInt16 index v = set_data index (DUInt16 v)"
definition setUInt32 :: "u8 \<Rightarrow> 32 word \<Rightarrow> PreparedStatementBase \<Rightarrow> PreparedStatementBase option" where
  "setUInt32 index v = set_data index (DUInt32 v)"
definition setUInt64 :: "u8 \<Rightarrow> 64 word \<Rightarrow> PreparedStatementBase \<Rightarrow> PreparedStatementBase option" where
  "setUInt64 index v = set_data index (DUInt64 v)"
definition setInt8 :: "u8 \<Rightarrow> 8 word \<Rightarrow> PreparedStatementBase \<Rightarrow> PreparedStatementBase option" where
  "setInt8 index v = set_data index (DInt8 v)"
definition setInt16 :: "u8 \<Rightarrow> 16 word \<Rightarrow> PreparedStatementBase \<Rightarrow> PreparedStatementBase option" where
  "setInt16 index v = set_data index (DInt16 v)"
definition setInt32 :: "u8 \<Rightarrow> 32 word \<Rightarrow> PreparedStatementBase \<Rightarrow> PreparedStatementBase option" where
  "setInt32 index v = set_data index (DInt32 v)"
definition setInt64 :: "u8 \<Rightarrow> 64 word \<Rightarrow> PreparedStatementBase \<Rightarrow> PreparedStatementBase option" where
  "setInt64 index v = set_data index (DInt64 v)"
definition setFloat :: "u8 \<Rightarrow> 32 word \<Rightarrow> PreparedStatementBase \<Rightarrow> PreparedStatementBase option" where
  "setFloat index v = set_data index (DFloat v)"
definition setDouble :: "u8 \<Rightarrow> 64 word \<Rightarrow> PreparedStatementBase \<Rightarrow> PreparedStatementBase option" where
  "setDouble index v = set_data index (DDouble v)"
definition setString :: "u8 \<Rightarrow> string \<Rightarrow> PreparedStatementBase \<Rightarrow> PreparedStatementBase option" where
  "setString index v = set_data index (DString v)"
definition setBinary :: "u8 \<Rightarrow> u8 list \<Rightarrow> PreparedStatementBase \<Rightarrow> PreparedStatementBase option" where
  "setBinary index v = set_data index (DBinary v)"
definition setNull :: "u8 \<Rightarrow> PreparedStatementBase \<Rightarrow> PreparedStatementBase option" where
  "setNull index = set_data index DNull"

section \<open>Binding\<close>

text \<open>The types of columns that the sources name; other numbers have no name.\<close>

datatype field_type =
    MYSQL_TYPE_DECIMAL | MYSQL_TYPE_TINY | MYSQL_TYPE_SHORT | MYSQL_TYPE_LONG | MYSQL_TYPE_FLOAT | MYSQL_TYPE_DOUBLE
  | MYSQL_TYPE_NULL | MYSQL_TYPE_TIMESTAMP | MYSQL_TYPE_LONGLONG | MYSQL_TYPE_INT24 | MYSQL_TYPE_DATE | MYSQL_TYPE_TIME
  | MYSQL_TYPE_DATETIME | MYSQL_TYPE_YEAR | MYSQL_TYPE_NEWDATE | MYSQL_TYPE_BIT | MYSQL_TYPE_NEWDECIMAL | MYSQL_TYPE_ENUM
  | MYSQL_TYPE_SET | MYSQL_TYPE_TINY_BLOB | MYSQL_TYPE_MEDIUM_BLOB | MYSQL_TYPE_LONG_BLOB | MYSQL_TYPE_BLOB
  | MYSQL_TYPE_VAR_STRING | MYSQL_TYPE_STRING | MYSQL_TYPE_GEOMETRY | MYSQL_TYPE_OTHER nat

record MySQLBind =
  bd_type :: field_type
  bd_buffer :: "u8 list option"
  bd_buffer_length :: nat
  bd_is_null_value :: bool
  bd_length :: "nat option"
  bd_is_unsigned :: bool

record MySQLPreparedStatement =
  ps_stmt :: "PreparedStatementBase option"
  ps_paramCount :: u32
  ps_paramsSet :: "bool list"
  ps_bind :: "MySQLBind list"
  ps_queryString :: string
  ps_live :: int

text \<open>\<open>memset\<close> to zero; type 0 is \<open>MYSQL_TYPE_DECIMAL\<close>.\<close>

definition zero_bind :: MySQLBind where
  "zero_bind = \<lparr>bd_type = MYSQL_TYPE_DECIMAL, bd_buffer = None, bd_buffer_length = 0, bd_is_null_value = False,
     bd_length = None, bd_is_unsigned = False\<rparr>"

definition MySQLPreparedStatement_ctor :: "u32 \<Rightarrow> string \<Rightarrow> MySQLPreparedStatement" where
  "MySQLPreparedStatement_ctor param_count queryString =
     \<lparr>ps_stmt = None, ps_paramCount = param_count, ps_paramsSet = replicate (unat param_count) False,
      ps_bind = replicate (unat param_count) zero_bind, ps_queryString = queryString, ps_live = 0\<rparr>"

text \<open>The bytes of a number in memory, the lowest first.\<close>

fun le_bytes :: "nat \<Rightarrow> nat \<Rightarrow> u8 list" where
  "le_bytes 0 k = []"
| "le_bytes (Suc n) k = of_nat (k mod 256) # le_bytes n (k div 256)"

definition AssertValidIndex :: "u8 \<Rightarrow> MySQLPreparedStatement \<Rightarrow> unit option" where
  "AssertValidIndex index p = (if unat index < unat (ps_paramCount p) then Some () else None)"

text \<open>\<open>delete\<close> of a pointer that may be null, on the number of live allocations.\<close>

definition del :: "'a option \<Rightarrow> int \<Rightarrow> int" where
  "del x live = (if x = None then live else live - 1)"

text \<open>What all overloads do: the flag, and a change of the binding and of the live allocations.\<close>

definition put_bind :: "u8 \<Rightarrow> (MySQLBind \<Rightarrow> int \<Rightarrow> MySQLBind \<times> int) \<Rightarrow> MySQLPreparedStatement \<Rightarrow> MySQLPreparedStatement option" where
  "put_bind index f p =
     do { _ \<leftarrow> AssertValidIndex index p;
          if unat index < length (ps_bind p) \<and> unat index < length (ps_paramsSet p) then
            (let (b, live) = f (ps_bind p ! unat index) (ps_live p) in
             Some (p\<lparr>ps_paramsSet := (ps_paramsSet p)[unat index := True], ps_bind := (ps_bind p)[unat index := b], ps_live := live\<rparr>))
          else None }"

text \<open>\<open>param->length = nullptr\<close> loses a length that is still there.\<close>

definition SetParameter_T :: "u8 \<Rightarrow> field_type \<Rightarrow> bool \<Rightarrow> u8 list \<Rightarrow> MySQLPreparedStatement \<Rightarrow> MySQLPreparedStatement option" where
  "SetParameter_T index ty uns bytes p =
     put_bind index (\<lambda>b live.
       (let live = del (bd_buffer b) live; live = live + 1 in
        (b\<lparr>bd_type := ty, bd_buffer := Some bytes, bd_buffer_length := 0, bd_is_null_value := False,
           bd_length := None, bd_is_unsigned := uns\<rparr>, live))) p"

definition SetParameter_bytes :: "u8 \<Rightarrow> field_type \<Rightarrow> u8 list \<Rightarrow> MySQLPreparedStatement \<Rightarrow> MySQLPreparedStatement option" where
  "SetParameter_bytes index ty bytes p =
     (let len = length bytes mod 2 ^ 32 in
      put_bind index (\<lambda>b live.
        (let live = del (bd_buffer b) live; live = live + 1; live = del (bd_length b) live; live = live + 1 in
         (b\<lparr>bd_type := ty, bd_buffer := Some (take len bytes), bd_buffer_length := len, bd_is_null_value := False,
            bd_length := Some len\<rparr>, live))) p)"

definition SetParameter_null :: "u8 \<Rightarrow> MySQLPreparedStatement \<Rightarrow> MySQLPreparedStatement option" where
  "SetParameter_null index p =
     put_bind index (\<lambda>b live.
       (let live = del (bd_buffer b) live; live = del (bd_length b) live in
        (b\<lparr>bd_type := MYSQL_TYPE_NULL, bd_buffer := None, bd_buffer_length := 0, bd_is_null_value := True, bd_length := None\<rparr>, live))) p"

fun SetParameter :: "u8 \<Rightarrow> PreparedStatementData \<Rightarrow> MySQLPreparedStatement \<Rightarrow> MySQLPreparedStatement option" where
  "SetParameter index (DBool v) p = SetParameter_T index MYSQL_TYPE_TINY True (le_bytes 1 (if v then 1 else 0)) p"
| "SetParameter index (DUInt8 v) p = SetParameter_T index MYSQL_TYPE_TINY True (le_bytes 1 (unat v)) p"
| "SetParameter index (DUInt16 v) p = SetParameter_T index MYSQL_TYPE_SHORT True (le_bytes 2 (unat v)) p"
| "SetParameter index (DUInt32 v) p = SetParameter_T index MYSQL_TYPE_LONG True (le_bytes 4 (unat v)) p"
| "SetParameter index (DUInt64 v) p = SetParameter_T index MYSQL_TYPE_LONGLONG True (le_bytes 8 (unat v)) p"
| "SetParameter index (DInt8 v) p = SetParameter_T index MYSQL_TYPE_TINY False (le_bytes 1 (unat v)) p"
| "SetParameter index (DInt16 v) p = SetParameter_T index MYSQL_TYPE_SHORT False (le_bytes 2 (unat v)) p"
| "SetParameter index (DInt32 v) p = SetParameter_T index MYSQL_TYPE_LONG False (le_bytes 4 (unat v)) p"
| "SetParameter index (DInt64 v) p = SetParameter_T index MYSQL_TYPE_LONGLONG False (le_bytes 8 (unat v)) p"
| "SetParameter index (DFloat v) p = SetParameter_T index MYSQL_TYPE_FLOAT False (le_bytes 4 (unat v)) p"
| "SetParameter index (DDouble v) p = SetParameter_T index MYSQL_TYPE_DOUBLE False (le_bytes 8 (unat v)) p"
| "SetParameter index (DString v) p = SetParameter_bytes index MYSQL_TYPE_VAR_STRING (map (\<lambda>c. of_nat (of_char c)) v) p"
| "SetParameter index (DBinary v) p = SetParameter_bytes index MYSQL_TYPE_BLOB v p"
| "SetParameter index DNull p = SetParameter_null index p"

fun bind_loop :: "u8 \<Rightarrow> PreparedStatementData list \<Rightarrow> MySQLPreparedStatement \<Rightarrow> MySQLPreparedStatement option" where
  "bind_loop pos [] p = Some p"
| "bind_loop pos (d # ds) p = do { p \<leftarrow> SetParameter pos d p; bind_loop (pos + 1) ds p }"

definition BindParameters :: "PreparedStatementBase \<Rightarrow> MySQLPreparedStatement \<Rightarrow> MySQLPreparedStatement option" where
  "BindParameters stmt p = bind_loop 0 (pb_data stmt) (p\<lparr>ps_stmt := Some stmt\<rparr>)"

fun clear_loop :: "MySQLBind list \<Rightarrow> int \<Rightarrow> MySQLBind list \<times> int" where
  "clear_loop [] live = ([], live)"
| "clear_loop (b # bs) live =
     (let live = del (bd_length b) live; live = del (bd_buffer b) live; (bs, live) = clear_loop bs live in
      (b\<lparr>bd_length := None, bd_buffer := None\<rparr> # bs, live))"

definition ClearParameters :: "MySQLPreparedStatement \<Rightarrow> MySQLPreparedStatement" where
  "ClearParameters p =
     (let (bs, live) = clear_loop (ps_bind p) (ps_live p) in
      p\<lparr>ps_bind := bs, ps_live := live, ps_paramsSet := map (\<lambda>_. False) (ps_paramsSet p)\<rparr>)"

text \<open>
  The text of a statement for the log; the decimal representations made by \<open>fmt::format\<close> are
  arguments. \<open>string::replace\<close> at \<open>npos\<close> throws.
\<close>

record formats =
  fmt_int :: "int \<Rightarrow> string"
  fmt_float :: "32 word \<Rightarrow> string"
  fmt_double :: "64 word \<Rightarrow> string"

fun Data_ToString :: "formats \<Rightarrow> PreparedStatementData \<Rightarrow> string" where
  "Data_ToString F (DBool v) = fmt_int F (if v then 1 else 0)"
| "Data_ToString F (DUInt8 v) = fmt_int F (uint v)"
| "Data_ToString F (DUInt16 v) = fmt_int F (uint v)"
| "Data_ToString F (DUInt32 v) = fmt_int F (uint v)"
| "Data_ToString F (DUInt64 v) = fmt_int F (uint v)"
| "Data_ToString F (DInt8 v) = fmt_int F (sint v)"
| "Data_ToString F (DInt16 v) = fmt_int F (sint v)"
| "Data_ToString F (DInt32 v) = fmt_int F (sint v)"
| "Data_ToString F (DInt64 v) = fmt_int F (sint v)"
| "Data_ToString F (DFloat v) = fmt_float F v"
| "Data_ToString F (DDouble v) = fmt_double F v"
| "Data_ToString F (DString v) = CHR 0x27 # v @ [CHR 0x27]"
| "Data_ToString F (DBinary v) = ''BINARY''"
| "Data_ToString F DNull = ''NULL''"

text \<open>\<open>find\<close> from a position on: the position of the first question mark.\<close>

definition find_mark :: "string \<Rightarrow> nat \<Rightarrow> nat option" where
  "find_mark s pos =
     (let rest = drop pos s; k = length (takeWhile (\<lambda>c. c \<noteq> CHR ''?'') rest) in
      if k < length rest then Some (pos + k) else None)"

fun query_loop :: "formats \<Rightarrow> PreparedStatementData list \<Rightarrow> nat \<Rightarrow> string \<Rightarrow> string option" where
  "query_loop F [] pos s = Some s"
| "query_loop F (d # ds) pos s =
     do { pos \<leftarrow> find_mark s pos;
          let r = Data_ToString F d in
          query_loop F ds (pos + length r) (take pos s @ r @ drop (pos + 1) s) }"

definition getQueryString :: "formats \<Rightarrow> MySQLPreparedStatement \<Rightarrow> string option" where
  "getQueryString F p = do { stmt \<leftarrow> ps_stmt p; query_loop F (pb_data stmt) 0 (ps_queryString p) }"

section \<open>Execution\<close>

text \<open>
  \<open>MySQLConnection::Execute\<close> and \<open>_Query\<close> up to the result on one prepared statement, when no reconnection
  takes place: \<open>bind_fails\<close> and \<open>execute_fails\<close> are the results of the calls of the client library.
\<close>

definition execute_prepared ::
  "(MySQLBind list \<Rightarrow> bool) \<Rightarrow> (MySQLBind list \<Rightarrow> bool) \<Rightarrow> PreparedStatementBase \<Rightarrow> MySQLPreparedStatement \<Rightarrow> (bool \<times> MySQLPreparedStatement) option" where
  "execute_prepared bind_fails execute_fails stmt p =
     do { p \<leftarrow> BindParameters stmt p;
          if bind_fails (ps_bind p) then Some (False, ClearParameters p)
          else if execute_fails (ps_bind p) then Some (False, ClearParameters p)
          else Some (True, ClearParameters p) }"

fun execute_all ::
  "(MySQLBind list \<Rightarrow> bool) \<Rightarrow> (MySQLBind list \<Rightarrow> bool) \<Rightarrow> PreparedStatementBase list \<Rightarrow> MySQLPreparedStatement \<Rightarrow> (bool list \<times> MySQLPreparedStatement) option" where
  "execute_all bf ef [] p = Some ([], p)"
| "execute_all bf ef (s # ss) p =
     do { (b, p) \<leftarrow> execute_prepared bf ef s p; (bs, p) \<leftarrow> execute_all bf ef ss p; Some (b # bs, p) }"

text \<open>
  \<open>PreparedStatementTask\<close>: the result of the query is a result set with its number of rows, or null; the value
  given to the promise is whether there is a result.
\<close>

record PreparedStatementTask =
  pt_has_result :: bool
  pt_promise :: "bool option option"

definition PreparedStatementTask_ctor :: "bool \<Rightarrow> PreparedStatementTask" where
  "PreparedStatementTask_ctor async = \<lparr>pt_has_result = async, pt_promise = (if async then Some None else None)\<rparr>"

definition PreparedStatementTask_Execute :: "nat option \<Rightarrow> bool \<Rightarrow> PreparedStatementTask \<Rightarrow> (bool \<times> PreparedStatementTask) option" where
  "PreparedStatementTask_Execute result executed t =
     (if pt_has_result t then
        (case pt_promise t of
           Some None \<Rightarrow>
             (case result of
                None \<Rightarrow> Some (False, t\<lparr>pt_promise := Some (Some False)\<rparr>)
              | Some rows \<Rightarrow> if rows = 0 then Some (False, t\<lparr>pt_promise := Some (Some False)\<rparr>)
                             else Some (True, t\<lparr>pt_promise := Some (Some True)\<rparr>))
         | _ \<Rightarrow> None)
      else Some (executed, t))"


section \<open>Types\<close>

text \<open>What the client library expects of a binding of each type.\<close>

fun type_size :: "field_type \<Rightarrow> nat option" where
  "type_size MYSQL_TYPE_TINY = Some 1"
| "type_size MYSQL_TYPE_SHORT = Some 2"
| "type_size MYSQL_TYPE_LONG = Some 4"
| "type_size MYSQL_TYPE_LONGLONG = Some 8"
| "type_size MYSQL_TYPE_FLOAT = Some 4"
| "type_size MYSQL_TYPE_DOUBLE = Some 8"
| "type_size _ = None"

definition bind_typed :: "MySQLBind \<Rightarrow> bool" where
  "bind_typed b =
     (case type_size (bd_type b) of
        Some n \<Rightarrow> map_option length (bd_buffer b) = Some n \<and> bd_length b = None \<and> \<not> bd_is_null_value b
      | None \<Rightarrow>
          if bd_type b = MYSQL_TYPE_NULL then bd_buffer b = None \<and> bd_length b = None \<and> bd_is_null_value b
          else bd_type b \<in> {MYSQL_TYPE_VAR_STRING, MYSQL_TYPE_BLOB} \<and> bd_length b = Some (bd_buffer_length b) \<and>
               map_option length (bd_buffer b) = bd_length b \<and> \<not> bd_is_null_value b)"

text \<open>The value the library then reads.\<close>

fun le_value :: "u8 list \<Rightarrow> nat" where
  "le_value [] = 0"
| "le_value (b # bs) = unat b + 256 * le_value bs"

definition bind_value :: "MySQLBind \<Rightarrow> PreparedStatementData option" where
  "bind_value b =
     (case (bd_type b, bd_buffer b) of
        (MYSQL_TYPE_TINY, Some bs) \<Rightarrow> Some (if bd_is_unsigned b then DUInt8 (of_nat (le_value bs)) else DInt8 (of_nat (le_value bs)))
      | (MYSQL_TYPE_SHORT, Some bs) \<Rightarrow> Some (if bd_is_unsigned b then DUInt16 (of_nat (le_value bs)) else DInt16 (of_nat (le_value bs)))
      | (MYSQL_TYPE_LONG, Some bs) \<Rightarrow> Some (if bd_is_unsigned b then DUInt32 (of_nat (le_value bs)) else DInt32 (of_nat (le_value bs)))
      | (MYSQL_TYPE_LONGLONG, Some bs) \<Rightarrow> Some (if bd_is_unsigned b then DUInt64 (of_nat (le_value bs)) else DInt64 (of_nat (le_value bs)))
      | (MYSQL_TYPE_FLOAT, Some bs) \<Rightarrow> Some (DFloat (of_nat (le_value bs)))
      | (MYSQL_TYPE_DOUBLE, Some bs) \<Rightarrow> Some (DDouble (of_nat (le_value bs)))
      | (MYSQL_TYPE_VAR_STRING, Some bs) \<Rightarrow> Some (DString (map (\<lambda>b. char_of (unat b)) (take (bd_buffer_length b) bs)))
      | (MYSQL_TYPE_BLOB, Some bs) \<Rightarrow> Some (DBinary (take (bd_buffer_length b) bs))
      | (MYSQL_TYPE_NULL, None) \<Rightarrow> Some DNull
      | _ \<Rightarrow> None)"

text \<open>A boolean is sent as a number; strings and binaries are counted in 32 bits.\<close>

fun as_bound :: "PreparedStatementData \<Rightarrow> PreparedStatementData" where
  "as_bound (DBool v) = DUInt8 (if v then 1 else 0)"
| "as_bound d = d"

fun sized :: "PreparedStatementData \<Rightarrow> bool" where
  "sized (DString v) \<longleftrightarrow> length v < 2 ^ 32"
| "sized (DBinary v) \<longleftrightarrow> length v < 2 ^ 32"
| "sized d \<longleftrightarrow> True"

lemma length_le_bytes [simp]: "length (le_bytes n k) = n"
  by (induction n k rule: le_bytes.induct) auto

lemma unat_of_nat_u8: "k < 256 \<Longrightarrow> unat (of_nat k :: u8) = k"
  by (simp add: unat_of_nat)

lemma le_value_le_bytes: "le_value (le_bytes n k) = k mod 256 ^ n"
proof (induction n k rule: le_bytes.induct)
  case (2 n k)
  have "unat (of_nat (k mod 256) :: u8) = k mod 256" by (rule unat_of_nat_u8) simp
  then show ?case using 2 by (simp add: mod_mult2_eq add.commute)
qed simp

text \<open>The change each overload makes to its binding.\<close>

fun bind_of :: "PreparedStatementData \<Rightarrow> MySQLBind \<Rightarrow> MySQLBind" where
  "bind_of (DString v) b = b\<lparr>bd_type := MYSQL_TYPE_VAR_STRING, bd_buffer := Some (map (\<lambda>c. of_nat (of_char c)) (take (length v mod 2 ^ 32) v)),
     bd_buffer_length := length v mod 2 ^ 32, bd_is_null_value := False, bd_length := Some (length v mod 2 ^ 32)\<rparr>"
| "bind_of (DBinary v) b = b\<lparr>bd_type := MYSQL_TYPE_BLOB, bd_buffer := Some (take (length v mod 2 ^ 32) v),
     bd_buffer_length := length v mod 2 ^ 32, bd_is_null_value := False, bd_length := Some (length v mod 2 ^ 32)\<rparr>"
| "bind_of DNull b = b\<lparr>bd_type := MYSQL_TYPE_NULL, bd_buffer := None, bd_buffer_length := 0, bd_is_null_value := True, bd_length := None\<rparr>"
| "bind_of d b =
     (let (ty, uns, bytes) = (case d of
          DBool v \<Rightarrow> (MYSQL_TYPE_TINY, True, le_bytes 1 (if v then 1 else 0))
        | DUInt8 v \<Rightarrow> (MYSQL_TYPE_TINY, True, le_bytes 1 (unat v))
        | DUInt16 v \<Rightarrow> (MYSQL_TYPE_SHORT, True, le_bytes 2 (unat v))
        | DUInt32 v \<Rightarrow> (MYSQL_TYPE_LONG, True, le_bytes 4 (unat v))
        | DUInt64 v \<Rightarrow> (MYSQL_TYPE_LONGLONG, True, le_bytes 8 (unat v))
        | DInt8 v \<Rightarrow> (MYSQL_TYPE_TINY, False, le_bytes 1 (unat v))
        | DInt16 v \<Rightarrow> (MYSQL_TYPE_SHORT, False, le_bytes 2 (unat v))
        | DInt32 v \<Rightarrow> (MYSQL_TYPE_LONG, False, le_bytes 4 (unat v))
        | DInt64 v \<Rightarrow> (MYSQL_TYPE_LONGLONG, False, le_bytes 8 (unat v))
        | DFloat v \<Rightarrow> (MYSQL_TYPE_FLOAT, False, le_bytes 4 (unat v))
        | DDouble v \<Rightarrow> (MYSQL_TYPE_DOUBLE, False, le_bytes 8 (unat v))
        | _ \<Rightarrow> (MYSQL_TYPE_NULL, False, [])) in
      b\<lparr>bd_type := ty, bd_buffer := Some bytes, bd_buffer_length := 0, bd_is_null_value := False, bd_length := None, bd_is_unsigned := uns\<rparr>)"

fun is_number :: "PreparedStatementData \<Rightarrow> bool" where
  "is_number (DString v) \<longleftrightarrow> False"
| "is_number (DBinary v) \<longleftrightarrow> False"
| "is_number DNull \<longleftrightarrow> False"
| "is_number d \<longleftrightarrow> True"

text \<open>The allocations a binding owns, and what each overload does to the live ones.\<close>

definition owned :: "MySQLBind \<Rightarrow> int" where
  "owned b = (if bd_buffer b = None then 0 else 1) + (if bd_length b = None then 0 else 1)"

definition live_after :: "PreparedStatementData \<Rightarrow> MySQLBind \<Rightarrow> int \<Rightarrow> int" where
  "live_after d b live = live - owned b + owned (bind_of d b) + (if is_number d \<and> bd_length b \<noteq> None then 1 else 0)"

lemma put_bind_cong: "(\<And>b live. f b live = g b live) \<Longrightarrow> put_bind index f p = put_bind index g p"
  by (simp add: put_bind_def)

lemma SetParameter_bind: "SetParameter index d p = put_bind index (\<lambda>b live. (bind_of d b, live_after d b live)) p"
  by (cases d)
    (auto simp: SetParameter_T_def SetParameter_bytes_def SetParameter_null_def take_map Let_def live_after_def owned_def del_def
      intro!: put_bind_cong)

lemma unat_mod_size:
  "unat (v8 :: 8 word) mod 256 = unat v8" "unat (v16 :: 16 word) mod 65536 = unat v16"
  "unat (v32 :: 32 word) mod 4294967296 = unat v32" "unat (v64 :: 64 word) mod 18446744073709551616 = unat v64"
  using unsigned_less [of v8, where 'a = nat] unsigned_less [of v16, where 'a = nat]
    unsigned_less [of v32, where 'a = nat] unsigned_less [of v64, where 'a = nat] by simp_all

lemma of_char_back: "char_of (unat (of_nat (of_char c) :: u8)) = c"
proof -
  have "of_char c mod 256 = (of_char c :: nat)" by (rule of_char_mod_256)
  then have "of_char c < (256 :: nat)" by (metis mod_less_divisor zero_less_numeral)
  then show ?thesis by (simp add: unat_of_nat_u8)
qed

lemma bind_of_ok: "sized d \<Longrightarrow> bind_typed (bind_of d b) \<and> bind_value (bind_of d b) = Some (as_bound d)"
  by (cases d)
    (simp_all add: bind_typed_def bind_value_def of_char_back comp_def le_value_le_bytes unat_mod_size)


section \<open>The loop\<close>

definition ps_wf :: "MySQLPreparedStatement \<Rightarrow> bool" where
  "ps_wf p \<longleftrightarrow> length (ps_bind p) = unat (ps_paramCount p) \<and> length (ps_paramsSet p) = unat (ps_paramCount p)"

definition ps_clear :: "MySQLPreparedStatement \<Rightarrow> bool" where
  "ps_clear p \<longleftrightarrow> ps_wf p \<and> (\<forall>b \<in> set (ps_bind p). bd_buffer b = None \<and> bd_length b = None) \<and> True \<notin> set (ps_paramsSet p)"

lemma ctor_clear: "ps_clear (MySQLPreparedStatement_ctor n q)"
  by (simp add: ps_clear_def ps_wf_def MySQLPreparedStatement_ctor_def zero_bind_def)

definition ps_owned :: "MySQLPreparedStatement \<Rightarrow> int" where
  "ps_owned p = (\<Sum>b \<leftarrow> ps_bind p. owned b)"

lemma clear_owned: "ps_clear p \<Longrightarrow> ps_owned p = 0"
  unfolding ps_owned_def ps_clear_def by (auto simp: owned_def intro!: sum_list_0 [THEN trans [rotated]] arg_cong [where f = sum_list] map_cong)

lemma clear_loop_eq:
  "clear_loop bs live = (map (\<lambda>b. b\<lparr>bd_length := None, bd_buffer := None\<rparr>) bs, live - (\<Sum>b \<leftarrow> bs. owned b))"
  by (induction bs live rule: clear_loop.induct) (auto simp: owned_def del_def)

lemma ClearParameters_clear: "ps_wf p \<Longrightarrow> ps_clear (ClearParameters p) \<and> ps_live (ClearParameters p) = ps_live p - ps_owned p"
  by (auto simp: ps_clear_def ps_wf_def ClearParameters_def clear_loop_eq ps_owned_def)

lemma SetParameter_ok:
  assumes "ps_wf p" "unat i < unat (ps_paramCount p)" "bd_length (ps_bind p ! unat i) = None"
  shows "SetParameter i d p = Some (p\<lparr>ps_paramsSet := (ps_paramsSet p)[unat i := True],
    ps_bind := (ps_bind p)[unat i := bind_of d (ps_bind p ! unat i)],
    ps_live := ps_live p - owned (ps_bind p ! unat i) + owned (bind_of d (ps_bind p ! unat i))\<rparr>)"
  using assms by (simp add: SetParameter_bind put_bind_def AssertValidIndex_def live_after_def ps_wf_def)

lemma SetParameter_fails: "\<not> unat i < unat (ps_paramCount p) \<Longrightarrow> SetParameter i d p = None"
  by (simp add: SetParameter_bind put_bind_def AssertValidIndex_def)

lemma int_sum_list_update: "k < length xs \<Longrightarrow> sum_list (xs[k := x]) = sum_list xs - xs ! k + (x :: int)"
  by (induction xs arbitrary: k) (auto split: nat.splits)

text \<open>\<open>pos\<close> counts the parameters; a statement has at most 255, so that it does not wrap around.\<close>

lemma bind_loop_ok:
  assumes "ps_wf p" "k + length ds \<le> unat (ps_paramCount p)" "k + length ds \<le> 255"
    and "\<And>i. k \<le> i \<Longrightarrow> i < k + length ds \<Longrightarrow> bd_length (ps_bind p ! i) = None"
  shows "\<exists>p'. bind_loop (of_nat k) ds p = Some p' \<and> ps_wf p' \<and> ps_live p' - ps_owned p' = ps_live p - ps_owned p \<and> ps_paramCount p' = ps_paramCount p \<and>
    (\<forall>i < length (ps_bind p). ps_bind p' ! i = (if k \<le> i \<and> i < k + length ds then bind_of (ds ! (i - k)) (ps_bind p ! i) else ps_bind p ! i) \<and>
       ps_paramsSet p' ! i = (k \<le> i \<and> i < k + length ds \<or> ps_paramsSet p ! i))"
  using assms
proof (induction ds arbitrary: k p)
  case (Cons d ds)
  have k: "unat (of_nat k :: u8) = k" using Cons.prems(3) by (intro unat_of_nat_u8) simp
  let ?p = "p\<lparr>ps_paramsSet := (ps_paramsSet p)[k := True], ps_bind := (ps_bind p)[k := bind_of d (ps_bind p ! k)],
    ps_live := ps_live p - owned (ps_bind p ! k) + owned (bind_of d (ps_bind p ! k))\<rparr>"
  have s: "SetParameter (of_nat k) d p = Some ?p"
    using SetParameter_ok [OF Cons.prems(1), of "of_nat k"] Cons.prems k by simp
  have wf: "ps_wf ?p" using Cons.prems(1) by (simp add: ps_wf_def)
  have len: "length (ps_bind p) = unat (ps_paramCount p)" "length (ps_paramsSet p) = unat (ps_paramCount p)" using Cons.prems(1) by (simp_all add: ps_wf_def)
  have "map owned ((ps_bind p)[k := b]) = (map owned (ps_bind p))[k := owned b]" for b by (rule map_update)
  then have "ps_owned ?p = ps_owned p - owned (ps_bind p ! k) + owned (bind_of d (ps_bind p ! k))"
    using Cons.prems(2) len by (simp add: ps_owned_def int_sum_list_update)
  then have bal: "ps_live ?p - ps_owned ?p = ps_live p - ps_owned p" by simp
  obtain p' where p': "bind_loop (of_nat (Suc k)) ds ?p = Some p'" "ps_wf p'" "ps_live p' - ps_owned p' = ps_live p - ps_owned p" "ps_paramCount p' = ps_paramCount p"
    "\<forall>i < length (ps_bind p). ps_bind p' ! i = (if Suc k \<le> i \<and> i < Suc k + length ds then bind_of (ds ! (i - Suc k)) (ps_bind ?p ! i) else ps_bind ?p ! i) \<and>
       ps_paramsSet p' ! i = (Suc k \<le> i \<and> i < Suc k + length ds \<or> ps_paramsSet ?p ! i)"
    using Cons.IH [OF wf, of "Suc k"] Cons.prems unfolding bal by auto
  have "of_nat k + 1 = (of_nat (Suc k) :: u8)" by simp
  then have "bind_loop (of_nat k) (d # ds) p = Some p'" using s p'(1) by (simp only: bind_loop.simps Option.bind.simps)
  moreover have "ps_bind p' ! i = (if k \<le> i \<and> i < k + length (d # ds) then bind_of ((d # ds) ! (i - k)) (ps_bind p ! i) else ps_bind p ! i) \<and>
       ps_paramsSet p' ! i = (k \<le> i \<and> i < k + length (d # ds) \<or> ps_paramsSet p ! i)" if "i < length (ps_bind p)" for i
  proof (cases "i = k")
    case True
    then show ?thesis using p'(5) that len by simp
  next
    case False
    then have "(d # ds) ! (i - k) = ds ! (i - Suc k)" if "k \<le> i" using that by (simp add: nth_Cons')
    then show ?thesis using p'(5) that len False by (auto simp: not_less Suc_le_eq)
  qed
  ultimately show ?case using p'(2-4) by blast
qed auto

lemma bind_loop_fails:
  assumes "unat (ps_paramCount p) < k + length ds" "k + length ds \<le> 255" "k \<le> unat (ps_paramCount p)"
  shows "bind_loop (of_nat k) ds p = None"
  using assms
proof (induction ds arbitrary: k p)
  case (Cons d ds)
  have k: "unat (of_nat k :: u8) = k" using Cons.prems(2) by (intro unat_of_nat_u8) simp
  show ?case
  proof (cases "SetParameter (of_nat k) d p")
    case (Some p')
    then have c: "ps_paramCount p' = ps_paramCount p" "k < unat (ps_paramCount p)"
      using k SetParameter_fails [of "of_nat k" p d] by (auto simp: SetParameter_bind put_bind_def AssertValidIndex_def split: if_splits)
    then have "bind_loop (of_nat (Suc k)) ds p' = None" using Cons.prems by (intro Cons.IH) auto
    then show ?thesis using Some by (simp add: add.commute)
  qed simp
qed simp

section \<open>Texts\<close>

text \<open>The pieces of a text between its question marks.\<close>

fun pieces :: "string \<Rightarrow> string list" where
  "pieces [] = [[]]"
| "pieces (c # s) = (if c = CHR ''?'' then [] # pieces s else (c # hd (pieces s)) # tl (pieces s))"

fun interleave :: "string list \<Rightarrow> string list \<Rightarrow> string" where
  "interleave (x # xs) (r # rs) = x @ r @ interleave xs rs"
| "interleave (x # y # xs) [] = x @ ''?'' @ interleave (y # xs) []"
| "interleave [x] [] = x"
| "interleave [] rs = []"

lemma pieces_not_Nil [simp]: "pieces s \<noteq> []"
  by (cases s) auto

lemma interleave_Nil: "interleave (pieces s) [] = s"
proof (induction s)
  case (Cons c s)
  then show ?case by (cases "pieces s"; cases "tl (pieces s)") auto
qed simp

lemma pieces_split: "CHR ''?'' \<notin> set a \<Longrightarrow> pieces (a @ CHR ''?'' # s) = a # pieces s"
  by (induction a) auto

lemma pieces_plain: "CHR ''?'' \<notin> set a \<Longrightarrow> pieces a = [a]"
  by (induction a) auto

lemma no_mark: "CHR ''?'' \<notin> set a \<Longrightarrow> takeWhile (\<lambda>c. c \<noteq> CHR ''?'') (a @ CHR ''?'' # s) = a"
  "CHR ''?'' \<notin> set a \<Longrightarrow> takeWhile (\<lambda>c. c \<noteq> CHR ''?'') a = a"
  by (induction a) auto

lemma find_mark_split: "CHR ''?'' \<notin> set a \<Longrightarrow> find_mark (u @ a @ CHR ''?'' # s) (length u) = Some (length u + length a)"
  by (simp add: find_mark_def Let_def no_mark)

lemma find_mark_none: "CHR ''?'' \<notin> set a \<Longrightarrow> find_mark (u @ a) (length u) = None"
  by (simp add: find_mark_def Let_def no_mark)

lemma query_loop_ok:
  "query_loop F ds (length u) (u @ s) =
    (if length ds < length (pieces s) then Some (u @ interleave (pieces s) (map (Data_ToString F) ds)) else None)"
proof (induction ds arbitrary: u s)
  case Nil
  then show ?case by (simp add: interleave_Nil)
next
  case (Cons d ds)
  show ?case
  proof (cases "CHR ''?'' \<in> set s")
    case False
    then show ?thesis using find_mark_none [of s u] by (simp add: pieces_plain)
  next
    case True
    then obtain a s' where s: "s = a @ CHR ''?'' # s'" "CHR ''?'' \<notin> set a" by (metis split_list_first)
    let ?r = "Data_ToString F d"
    have "query_loop F (d # ds) (length u) (u @ s) = query_loop F ds (length (u @ a @ ?r)) ((u @ a @ ?r) @ s')"
      using s find_mark_split [OF s(2), of u s'] by (simp add: Let_def add.assoc)
    then show ?thesis using Cons.IH [of "u @ a @ ?r" s'] s pieces_split [OF s(2), of s'] by simp
  qed
qed

text \<open>The text for the log replaces the question marks in order, and throws when there are too few.\<close>

lemma getQueryString_ok:
  "ps_stmt p = Some stmt \<Longrightarrow> getQueryString F p =
    (if length (pb_data stmt) < length (pieces (ps_queryString p))
     then Some (interleave (pieces (ps_queryString p)) (map (Data_ToString F) (pb_data stmt))) else None)"
  using query_loop_ok [of F "pb_data stmt" "[]" "ps_queryString p"] by (simp add: getQueryString_def)

text \<open>A parameter that was never set is sent as the number 0.\<close>

lemma unset_parameter_is_zero:
  assumes "unat capacity \<le> unat (n :: u32)" "i < unat capacity"
  shows "\<exists>p'. BindParameters (PreparedStatementBase_ctor index capacity) (MySQLPreparedStatement_ctor n q) = Some p' \<and>
    bind_value (ps_bind p' ! i) = Some (DUInt8 0)"
proof -
  let ?s = "PreparedStatementBase_ctor index capacity" and ?p = "MySQLPreparedStatement_ctor n q"
  have c: "unat capacity \<le> 255" using unsigned_less [of capacity, where 'a = nat] by simp
  have "ps_wf (?p\<lparr>ps_stmt := Some ?s\<rparr>)" by (simp add: ps_wf_def MySQLPreparedStatement_ctor_def)
  from bind_loop_ok [OF this, of 0 "pb_data ?s"] show ?thesis
    using assms c bind_of_ok [of "DBool False" zero_bind]
    by (auto simp: BindParameters_def PreparedStatementBase_ctor_def MySQLPreparedStatement_ctor_def zero_bind_def)
qed

section \<open>Properties\<close>

text \<open>A number bound over a string that was not cleared: the length of the string is never freed.\<close>

lemma rebinding_leaks:
  "\<exists>p p'. SetParameter 0 (DString ''ab'') (MySQLPreparedStatement_ctor 1 ''q'') = Some p \<and> SetParameter 0 (DInt8 1) p = Some p' \<and>
     ps_live (ClearParameters p') = 1"
  by (simp add: SetParameter_bytes_def SetParameter_T_def put_bind_def AssertValidIndex_def MySQLPreparedStatement_ctor_def
      ClearParameters_def del_def zero_bind_def)

text \<open>
  C35: Binding is type correct: for a statement of at most 255 parameters on cleared bindings,
  \<open>BindParameters\<close> fails its assertion exactly when there are more parameters than the statement has; otherwise
  every parameter is bound with the type, the size and the flags that the client library expects and
  is read back as the value that was set, the other bindings are as before, and exactly the buffers and lengths
  that the bindings then own have been allocated; \<open>ClearParameters\<close> frees all of these and the bindings are clear
  again, whether the statement was executed or refused. (A binding that was not cleared can lose a length, see
  \<open>rebinding_leaks\<close>.)
\<close>

theorem BindParameters_typed:
  assumes "ps_clear p" "length (pb_data stmt) \<le> 255" "\<forall>d \<in> set (pb_data stmt). sized d"
  shows "(BindParameters stmt p = None \<longleftrightarrow> unat (ps_paramCount p) < length (pb_data stmt)) \<and>
    (length (pb_data stmt) \<le> unat (ps_paramCount p) \<longrightarrow>
      (\<exists>p'. BindParameters stmt p = Some p' \<and> ps_live p' = ps_live p + ps_owned p' \<and>
        (\<forall>i < unat (ps_paramCount p).
           if i < length (pb_data stmt)
           then bind_typed (ps_bind p' ! i) \<and> bind_value (ps_bind p' ! i) = Some (as_bound (pb_data stmt ! i)) \<and> ps_paramsSet p' ! i
           else ps_bind p' ! i = ps_bind p ! i \<and> \<not> ps_paramsSet p' ! i) \<and>
        execute_prepared bf ef stmt p = Some (\<not> bf (ps_bind p') \<and> \<not> ef (ps_bind p'), ClearParameters p') \<and>
        ps_clear (ClearParameters p') \<and> ps_live (ClearParameters p') = ps_live p))"
proof (cases "length (pb_data stmt) \<le> unat (ps_paramCount p)")
  case True
  let ?q = "p\<lparr>ps_stmt := Some stmt\<rparr>"
  have wf: "ps_wf ?q" and len: "length (ps_bind p) = unat (ps_paramCount p)" "length (ps_paramsSet p) = unat (ps_paramCount p)"
    and none: "\<And>i. i < unat (ps_paramCount p) \<Longrightarrow> bd_length (ps_bind p ! i) = None \<and> \<not> ps_paramsSet p ! i"
    using assms(1) by (auto simp: ps_clear_def ps_wf_def) (metis nth_mem)+
  obtain p' where p': "bind_loop (of_nat 0) (pb_data stmt) ?q = Some p'" "ps_wf p'" "ps_live p' - ps_owned p' = ps_live ?q - ps_owned ?q"
    "\<forall>i < length (ps_bind p). ps_bind p' ! i = (if i < length (pb_data stmt) then bind_of (pb_data stmt ! i) (ps_bind p ! i) else ps_bind p ! i) \<and>
       ps_paramsSet p' ! i = (i < length (pb_data stmt) \<or> ps_paramsSet p ! i)"
    using bind_loop_ok [OF wf, of 0 "pb_data stmt"] True assms(2) none by auto
  have "ps_owned ?q = ps_owned p" by (simp add: ps_owned_def)
  then have live: "ps_live p' = ps_live p + ps_owned p'" using p'(3) clear_owned [OF assms(1)] by simp
  have b: "BindParameters stmt p = Some p'" using p'(1) by (simp add: BindParameters_def)
  have "if i < length (pb_data stmt)
        then bind_typed (ps_bind p' ! i) \<and> bind_value (ps_bind p' ! i) = Some (as_bound (pb_data stmt ! i)) \<and> ps_paramsSet p' ! i
        else ps_bind p' ! i = ps_bind p ! i \<and> \<not> ps_paramsSet p' ! i" if "i < unat (ps_paramCount p)" for i
    using that p'(4) len none [OF that] bind_of_ok assms(3) by simp
  then show ?thesis using b live True ClearParameters_clear [OF p'(2)]
    by (simp add: execute_prepared_def)
next
  case False
  then show ?thesis using bind_loop_fails [of "p\<lparr>ps_stmt := Some stmt\<rparr>" 0 "pb_data stmt"] assms(2) by (simp add: BindParameters_def)
qed

theorem BindParameters_typed_witness:
  "let p = MySQLPreparedStatement_ctor 3 ''q''; stmt = \<lparr>pb_index = 0, pb_data = [DInt16 65535, DString ''ab'', DNull]\<rparr> in
   \<exists>p'. BindParameters stmt p = Some p' \<and> bind_typed (ps_bind p' ! 1) \<and> bind_value (ps_bind p' ! 0) = Some (DInt16 65535) \<and>
    ps_live (ClearParameters p') = 0"
proof -
  define p stmt where "p = MySQLPreparedStatement_ctor 3 ''q''" and "stmt = \<lparr>pb_index = 0, pb_data = [DInt16 65535, DString ''ab'', DNull]\<rparr>"
  have "ps_clear p" "length (pb_data stmt) \<le> 255" "\<forall>d \<in> set (pb_data stmt). sized d"
    by (simp_all add: p_def stmt_def ctor_clear)
  from BindParameters_typed [OF this, of "\<lambda>_. False" "\<lambda>_. False"]
  obtain p' where p': "BindParameters stmt p = Some p'" "\<forall>i < unat (ps_paramCount p).
           if i < length (pb_data stmt)
           then bind_typed (ps_bind p' ! i) \<and> bind_value (ps_bind p' ! i) = Some (as_bound (pb_data stmt ! i)) \<and> ps_paramsSet p' ! i
           else ps_bind p' ! i = ps_bind p ! i \<and> \<not> ps_paramsSet p' ! i" "ps_live (ClearParameters p') = ps_live p"
    by (auto simp: p_def stmt_def MySQLPreparedStatement_ctor_def)
  have "bind_typed (ps_bind p' ! 1)" "bind_value (ps_bind p' ! 0) = Some (DInt16 65535)"
    using p'(2) by (simp_all add: p_def stmt_def MySQLPreparedStatement_ctor_def)
  moreover have "ps_live p = 0" by (simp add: p_def MySQLPreparedStatement_ctor_def)
  ultimately show ?thesis using p'(1,3) by (simp add: p_def [symmetric] stmt_def [symmetric])
qed

end
