(* ===== verification/DbResult.thy ===== *)
theory DbResult
  imports DbStatement
begin

text \<open>
  Result sets of \<^verbatim>\<open>mysql-conn-pool/dbimpl\<close>: the buffered rows of a prepared statement in \<^verbatim>\<open>QueryResult.cpp\<close> and
  the typed getters of \<^verbatim>\<open>Field.cpp\<close>, without \<open>TRINITY_STRICT_DATABASE_TYPE_CHECKS\<close>. All values of a result
  are in one array of bytes; a field holds a position in it, or null. The rows that the server sends, the
  size of \<open>MYSQL_TIME\<close> and the results of the calls of the client library are arguments; a fetch
  stores a value at the address bound for its column, cut off at the bound length, and its full length beside it.
  \<open>None\<close> stands for an access outside of an array, to freed memory or to an indeterminate byte, or for a failed assertion.
\<close>

section \<open>Types\<close>

record MySQLField =
  mf_name :: string
  mf_org_name :: string
  mf_table :: string
  mf_org_table :: string
  mf_type :: field_type
  mf_max_length :: nat
  mf_unsigned :: bool

definition SizeForType :: "nat \<Rightarrow> MySQLField \<Rightarrow> nat" where
  "SizeForType time_size field =
     (case mf_type field of
        MYSQL_TYPE_NULL \<Rightarrow> 0
      | MYSQL_TYPE_TINY \<Rightarrow> 1
      | MYSQL_TYPE_YEAR \<Rightarrow> 2 | MYSQL_TYPE_SHORT \<Rightarrow> 2
      | MYSQL_TYPE_INT24 \<Rightarrow> 4 | MYSQL_TYPE_LONG \<Rightarrow> 4 | MYSQL_TYPE_FLOAT \<Rightarrow> 4
      | MYSQL_TYPE_DOUBLE \<Rightarrow> 8 | MYSQL_TYPE_LONGLONG \<Rightarrow> 8 | MYSQL_TYPE_BIT \<Rightarrow> 8
      | MYSQL_TYPE_TIMESTAMP \<Rightarrow> time_size | MYSQL_TYPE_DATE \<Rightarrow> time_size
      | MYSQL_TYPE_TIME \<Rightarrow> time_size | MYSQL_TYPE_DATETIME \<Rightarrow> time_size
      | MYSQL_TYPE_TINY_BLOB \<Rightarrow> (mf_max_length field + 1) mod 2 ^ 32
      | MYSQL_TYPE_MEDIUM_BLOB \<Rightarrow> (mf_max_length field + 1) mod 2 ^ 32
      | MYSQL_TYPE_LONG_BLOB \<Rightarrow> (mf_max_length field + 1) mod 2 ^ 32
      | MYSQL_TYPE_BLOB \<Rightarrow> (mf_max_length field + 1) mod 2 ^ 32
      | MYSQL_TYPE_STRING \<Rightarrow> (mf_max_length field + 1) mod 2 ^ 32
      | MYSQL_TYPE_VAR_STRING \<Rightarrow> (mf_max_length field + 1) mod 2 ^ 32
      | MYSQL_TYPE_DECIMAL \<Rightarrow> 64 | MYSQL_TYPE_NEWDECIMAL \<Rightarrow> 64
      | _ \<Rightarrow> 0)"

datatype DatabaseFieldTypes = FNull | FInt8 | FInt16 | FInt32 | FInt64 | FFloat | FDouble | FDecimal | FDate | FBinary

fun MysqlTypeToFieldType :: "field_type \<Rightarrow> DatabaseFieldTypes" where
  "MysqlTypeToFieldType MYSQL_TYPE_NULL = FNull"
| "MysqlTypeToFieldType MYSQL_TYPE_TINY = FInt8"
| "MysqlTypeToFieldType MYSQL_TYPE_YEAR = FInt16"
| "MysqlTypeToFieldType MYSQL_TYPE_SHORT = FInt16"
| "MysqlTypeToFieldType MYSQL_TYPE_INT24 = FInt32"
| "MysqlTypeToFieldType MYSQL_TYPE_LONG = FInt32"
| "MysqlTypeToFieldType MYSQL_TYPE_LONGLONG = FInt64"
| "MysqlTypeToFieldType MYSQL_TYPE_BIT = FInt64"
| "MysqlTypeToFieldType MYSQL_TYPE_FLOAT = FFloat"
| "MysqlTypeToFieldType MYSQL_TYPE_DOUBLE = FDouble"
| "MysqlTypeToFieldType MYSQL_TYPE_DECIMAL = FDecimal"
| "MysqlTypeToFieldType MYSQL_TYPE_NEWDECIMAL = FDecimal"
| "MysqlTypeToFieldType MYSQL_TYPE_TIMESTAMP = FDate"
| "MysqlTypeToFieldType MYSQL_TYPE_DATE = FDate"
| "MysqlTypeToFieldType MYSQL_TYPE_TIME = FDate"
| "MysqlTypeToFieldType MYSQL_TYPE_DATETIME = FDate"
| "MysqlTypeToFieldType MYSQL_TYPE_TINY_BLOB = FBinary"
| "MysqlTypeToFieldType MYSQL_TYPE_MEDIUM_BLOB = FBinary"
| "MysqlTypeToFieldType MYSQL_TYPE_LONG_BLOB = FBinary"
| "MysqlTypeToFieldType MYSQL_TYPE_BLOB = FBinary"
| "MysqlTypeToFieldType MYSQL_TYPE_STRING = FBinary"
| "MysqlTypeToFieldType MYSQL_TYPE_VAR_STRING = FBinary"
| "MysqlTypeToFieldType _ = FNull"

fun is_text :: "field_type \<Rightarrow> bool" where
  "is_text MYSQL_TYPE_TINY_BLOB \<longleftrightarrow> True"
| "is_text MYSQL_TYPE_MEDIUM_BLOB \<longleftrightarrow> True"
| "is_text MYSQL_TYPE_LONG_BLOB \<longleftrightarrow> True"
| "is_text MYSQL_TYPE_BLOB \<longleftrightarrow> True"
| "is_text MYSQL_TYPE_STRING \<longleftrightarrow> True"
| "is_text MYSQL_TYPE_VAR_STRING \<longleftrightarrow> True"
| "is_text _ \<longleftrightarrow> False"

fun FieldTypeToString :: "field_type \<Rightarrow> string" where
  "FieldTypeToString MYSQL_TYPE_BIT = ''BIT''"
| "FieldTypeToString MYSQL_TYPE_BLOB = ''BLOB''"
| "FieldTypeToString MYSQL_TYPE_DATE = ''DATE''"
| "FieldTypeToString MYSQL_TYPE_DATETIME = ''DATETIME''"
| "FieldTypeToString MYSQL_TYPE_NEWDECIMAL = ''NEWDECIMAL''"
| "FieldTypeToString MYSQL_TYPE_DECIMAL = ''DECIMAL''"
| "FieldTypeToString MYSQL_TYPE_DOUBLE = ''DOUBLE''"
| "FieldTypeToString MYSQL_TYPE_ENUM = ''ENUM''"
| "FieldTypeToString MYSQL_TYPE_FLOAT = ''FLOAT''"
| "FieldTypeToString MYSQL_TYPE_GEOMETRY = ''GEOMETRY''"
| "FieldTypeToString MYSQL_TYPE_INT24 = ''INT24''"
| "FieldTypeToString MYSQL_TYPE_LONG = ''LONG''"
| "FieldTypeToString MYSQL_TYPE_LONGLONG = ''LONGLONG''"
| "FieldTypeToString MYSQL_TYPE_LONG_BLOB = ''LONG_BLOB''"
| "FieldTypeToString MYSQL_TYPE_MEDIUM_BLOB = ''MEDIUM_BLOB''"
| "FieldTypeToString MYSQL_TYPE_NEWDATE = ''NEWDATE''"
| "FieldTypeToString MYSQL_TYPE_NULL = ''NULL''"
| "FieldTypeToString MYSQL_TYPE_SET = ''SET''"
| "FieldTypeToString MYSQL_TYPE_SHORT = ''SHORT''"
| "FieldTypeToString MYSQL_TYPE_STRING = ''STRING''"
| "FieldTypeToString MYSQL_TYPE_TIME = ''TIME''"
| "FieldTypeToString MYSQL_TYPE_TIMESTAMP = ''TIMESTAMP''"
| "FieldTypeToString MYSQL_TYPE_TINY = ''TINY''"
| "FieldTypeToString MYSQL_TYPE_TINY_BLOB = ''TINY_BLOB''"
| "FieldTypeToString MYSQL_TYPE_VAR_STRING = ''VAR_STRING''"
| "FieldTypeToString MYSQL_TYPE_YEAR = ''YEAR''"
| "FieldTypeToString (MYSQL_TYPE_OTHER k) = ''-Unknown-''"

record QueryResultFieldMetadata =
  md_TableName :: string
  md_TableAlias :: string
  md_Name :: string
  md_Alias :: string
  md_TypeName :: string
  md_Index :: nat
  md_Type :: DatabaseFieldTypes

definition InitializeDatabaseFieldMetadata :: "MySQLField \<Rightarrow> nat \<Rightarrow> QueryResultFieldMetadata" where
  "InitializeDatabaseFieldMetadata field fieldIndex =
     \<lparr>md_TableName = mf_org_table field, md_TableAlias = mf_table field, md_Name = mf_org_name field, md_Alias = mf_name field,
      md_TypeName = FieldTypeToString (mf_type field), md_Index = fieldIndex, md_Type = MysqlTypeToFieldType (mf_type field)\<rparr>"

section \<open>Fields\<close>

text \<open>A field points to the metadata of its column, an element of the vector of its result set.\<close>

record Field =
  fd_value :: "nat option"
  fd_length :: u32
  fd_raw :: bool
  fd_meta :: "nat option"

definition Field_ctor :: Field where
  "Field_ctor = \<lparr>fd_value = None, fd_length = 0, fd_raw = False, fd_meta = None\<rparr>"

definition SetByteValue :: "nat option \<Rightarrow> nat \<Rightarrow> Field \<Rightarrow> Field" where
  "SetByteValue v len f = f\<lparr>fd_value := v, fd_length := of_nat len, fd_raw := True\<rparr>"

definition SetStructuredValue :: "nat option \<Rightarrow> nat \<Rightarrow> Field \<Rightarrow> Field" where
  "SetStructuredValue v len f = f\<lparr>fd_value := v, fd_length := of_nat len, fd_raw := False\<rparr>"

definition SetMetadata :: "nat \<Rightarrow> Field \<Rightarrow> Field" where
  "SetMetadata i f = f\<lparr>fd_meta := Some i\<rparr>"

definition IsNull :: "Field \<Rightarrow> bool" where
  "IsNull f \<longleftrightarrow> fd_value f = None"

text \<open>Memory with indeterminate bytes: \<open>n\<close> bytes at an address, and a string up to its terminator.\<close>

type_synonym memory = "u8 option list"

fun read_bytes :: "memory \<Rightarrow> nat \<Rightarrow> nat \<Rightarrow> u8 list option" where
  "read_bytes mem a 0 = Some []"
| "read_bytes mem a (Suc n) = do { b \<leftarrow> aget mem a; bs \<leftarrow> read_bytes mem (Suc a) n; Some (b # bs) }"

definition write_bytes :: "nat \<Rightarrow> u8 list \<Rightarrow> memory \<Rightarrow> memory option" where
  "write_bytes a bs mem =
     (if a + length bs \<le> length mem then Some (take a mem @ map Some bs @ drop (a + length bs) mem) else None)"

fun c_string :: "memory \<Rightarrow> u8 list option" where
  "c_string [] = None"
| "c_string (None # mem) = None"
| "c_string (Some b # mem) = (if b = 0 then Some [] else do { bs \<leftarrow> c_string mem; Some (b # bs) })"

text \<open>\<open>strtol\<close> and \<open>strtoul\<close> with base 10: blanks, a sign, digits; values out of range are cut off.\<close>

fun digits_value :: "nat \<Rightarrow> u8 list \<Rightarrow> nat" where
  "digits_value acc [] = acc"
| "digits_value acc (b # bs) = (if 48 \<le> b \<and> b \<le> 57 then digits_value (acc * 10 + (unat b - 48)) bs else acc)"

definition is_blank :: "u8 \<Rightarrow> bool" where
  "is_blank b \<longleftrightarrow> b = 32 \<or> 9 \<le> b \<and> b \<le> 13"

definition signed_digits :: "u8 list \<Rightarrow> bool \<times> nat" where
  "signed_digits s =
     (case dropWhile is_blank s of
        [] \<Rightarrow> (False, 0)
      | b # bs \<Rightarrow> if b = 45 then (True, digits_value 0 bs) else if b = 43 then (False, digits_value 0 bs) else (False, digits_value 0 (b # bs)))"

definition strtoul :: "u8 list \<Rightarrow> int" where
  "strtoul s = (let (neg, k) = signed_digits s in if k \<ge> 2 ^ 64 then 2 ^ 64 - 1 else if neg then (- int k) mod 2 ^ 64 else int k)"

definition strtol :: "u8 list \<Rightarrow> int" where
  "strtol s = (let (neg, k) = signed_digits s; v = (if neg then - int k else int k) in max (- (2 ^ 63)) (min (2 ^ 63 - 1) v))"

text \<open>The integer getters: the bytes of a raw value, or a number in text.\<close>

definition text_or_raw :: "bool \<Rightarrow> nat \<Rightarrow> (u8 list \<Rightarrow> 'a::len word) \<Rightarrow> memory \<Rightarrow> nat \<Rightarrow> 'a word option" where
  "text_or_raw raw n parse mem a =
     (if raw then map_option (\<lambda>bs. of_nat (le_value bs)) (read_bytes mem a n)
      else if a \<le> length mem then map_option parse (c_string (drop a mem)) else None)"

definition get_integer :: "nat \<Rightarrow> (u8 list \<Rightarrow> int) \<Rightarrow> memory \<Rightarrow> Field \<Rightarrow> 'a::len word option" where
  "get_integer n parse mem f =
     (case fd_value f of None \<Rightarrow> Some 0 | Some a \<Rightarrow> text_or_raw (fd_raw f) n (\<lambda>s. of_int (parse s)) mem a)"

definition GetUInt8 :: "memory \<Rightarrow> Field \<Rightarrow> 8 word option" where "GetUInt8 = get_integer 1 strtoul"
definition GetInt8 :: "memory \<Rightarrow> Field \<Rightarrow> 8 word option" where "GetInt8 = get_integer 1 strtol"
definition GetUInt16 :: "memory \<Rightarrow> Field \<Rightarrow> 16 word option" where "GetUInt16 = get_integer 2 strtoul"
definition GetInt16 :: "memory \<Rightarrow> Field \<Rightarrow> 16 word option" where "GetInt16 = get_integer 2 strtol"
definition GetUInt32 :: "memory \<Rightarrow> Field \<Rightarrow> 32 word option" where "GetUInt32 = get_integer 4 strtoul"
definition GetInt32 :: "memory \<Rightarrow> Field \<Rightarrow> 32 word option" where "GetInt32 = get_integer 4 strtol"
definition GetUInt64 :: "memory \<Rightarrow> Field \<Rightarrow> 64 word option" where "GetUInt64 = get_integer 8 strtoul"
definition GetInt64 :: "memory \<Rightarrow> Field \<Rightarrow> 64 word option" where "GetInt64 = get_integer 8 strtol"

definition GetBool :: "memory \<Rightarrow> Field \<Rightarrow> bool option" where
  "GetBool mem f = map_option (\<lambda>v. v = 1) (GetUInt8 mem f)"

definition GetString :: "memory \<Rightarrow> Field \<Rightarrow> u8 list option" where
  "GetString mem f = (case fd_value f of None \<Rightarrow> Some [] | Some a \<Rightarrow> read_bytes mem a (unat (fd_length f)))"

definition GetBinary :: "memory \<Rightarrow> Field \<Rightarrow> u8 list option" where
  "GetBinary mem f =
     (case fd_value f of
        None \<Rightarrow> Some []
      | Some a \<Rightarrow> if fd_length f = 0 then Some [] else read_bytes mem a (unat (fd_length f)))"

definition GetBinarySizeChecked :: "memory \<Rightarrow> nat \<Rightarrow> Field \<Rightarrow> u8 list option" where
  "GetBinarySizeChecked mem n f =
     (case fd_value f of None \<Rightarrow> None | Some a \<Rightarrow> if unat (fd_length f) = n then read_bytes mem a n else None)"

definition IsType :: "QueryResultFieldMetadata list \<Rightarrow> DatabaseFieldTypes \<Rightarrow> Field \<Rightarrow> bool option" where
  "IsType metas ty f = do { i \<leftarrow> fd_meta f; if i < length metas then Some (md_Type (metas ! i) = ty) else None }"

definition IsNumeric :: "QueryResultFieldMetadata list \<Rightarrow> Field \<Rightarrow> bool option" where
  "IsNumeric metas f =
     do { i \<leftarrow> fd_meta f;
          if i < length metas then Some (md_Type (metas ! i) \<in> {FInt8, FInt16, FInt32, FInt64, FFloat, FDouble}) else None }"

text \<open>
  Floating-point numbers are their bits; \<open>atof\<close> is the number that a text denotes, rounded to the type of the
  result.
\<close>

definition GetFloat :: "(u8 list \<Rightarrow> 32 word) \<Rightarrow> memory \<Rightarrow> Field \<Rightarrow> 32 word option" where
  "GetFloat atof mem f = (case fd_value f of None \<Rightarrow> Some 0 | Some a \<Rightarrow> text_or_raw (fd_raw f) 4 atof mem a)"

definition GetDouble :: "(u8 list \<Rightarrow> 64 word) \<Rightarrow> QueryResultFieldMetadata list \<Rightarrow> memory \<Rightarrow> Field \<Rightarrow> 64 word option" where
  "GetDouble atof metas mem f =
     (case fd_value f of
        None \<Rightarrow> Some 0
      | Some a \<Rightarrow>
          do { raw \<leftarrow> (if fd_raw f then map_option Not (IsType metas FDecimal f) else Some False);
               text_or_raw raw 8 atof mem a })"

text \<open>The string at the pointer that \<open>GetCString\<close> returns.\<close>

definition GetCString :: "memory \<Rightarrow> Field \<Rightarrow> u8 list option" where
  "GetCString mem f = do { a \<leftarrow> fd_value f; if a \<le> length mem then c_string (drop a mem) else None }"

section \<open>The rows of a query\<close>

text \<open>
  \<open>ResultSet\<close>: a value of the current row is an address in memory of the client library with its length, or
  null. \<open>rs_result\<close> are the rows the library still has, null after \<open>CleanUp\<close>.
\<close>

record ResultSet =
  rs_rowCount :: nat
  rs_fieldCount :: nat
  rs_fieldMetadata :: "QueryResultFieldMetadata list"
  rs_currentRow :: "Field list option"
  rs_result :: "(nat option \<times> nat) list list option"

definition ResultSet_ctor :: "MySQLField list \<Rightarrow> nat \<Rightarrow> (nat option \<times> nat) list list option \<Rightarrow> ResultSet" where
  "ResultSet_ctor ms rowCount rows =
     \<lparr>rs_rowCount = rowCount, rs_fieldCount = length ms, rs_fieldMetadata = map2 InitializeDatabaseFieldMetadata ms [0..<length ms],
      rs_currentRow = Some (map (\<lambda>i. SetMetadata i Field_ctor) [0..<length ms]), rs_result = rows\<rparr>"

definition ResultSet_CleanUp :: "ResultSet \<Rightarrow> ResultSet" where
  "ResultSet_CleanUp r = r\<lparr>rs_currentRow := None, rs_result := None\<rparr>"

text \<open>\<open>has_lengths\<close> tells whether \<open>mysql_fetch_lengths\<close> succeeds; a row has a value per column.\<close>

definition ResultSet_NextRow :: "bool \<Rightarrow> ResultSet \<Rightarrow> (bool \<times> ResultSet) option" where
  "ResultSet_NextRow has_lengths r =
     (case rs_result r of
        None \<Rightarrow> Some (False, r)
      | Some [] \<Rightarrow> Some (False, ResultSet_CleanUp r)
      | Some (row # rows) \<Rightarrow>
          let r = r\<lparr>rs_result := Some rows\<rparr> in
          if \<not> has_lengths then Some (False, ResultSet_CleanUp r)
          else do { fields \<leftarrow> rs_currentRow r;
                    if rs_fieldCount r \<le> length row \<and> rs_fieldCount r \<le> length fields then
                      Some (True, r\<lparr>rs_currentRow := Some (map2 (\<lambda>(v, l) f. SetStructuredValue v l f) (take (rs_fieldCount r) row) fields)\<rparr>)
                    else None })"

definition ResultSet_get :: "nat \<Rightarrow> ResultSet \<Rightarrow> Field option" where
  "ResultSet_get index r =
     (if index < rs_fieldCount r then
        do { fields \<leftarrow> rs_currentRow r; if index < length fields then Some (fields ! index) else None }
      else None)"

section \<open>The rows of a prepared statement\<close>

text \<open>A pointer that owns its target.\<close>

datatype handle = HNull | HLive | HDangling

record PreparedResultSet =
  pr_rowCount :: nat
  pr_rowPosition :: nat
  pr_fieldCount :: nat
  pr_fieldMetadata :: "QueryResultFieldMetadata list"
  pr_rows :: "Field list"
  pr_memory :: memory
  pr_rBind :: handle
  pr_metadata :: handle

type_synonym cell = "u8 list option"

fun column_offsets :: "nat \<Rightarrow> nat list \<Rightarrow> nat list" where
  "column_offsets off [] = []"
| "column_offsets off (s # ss) = off # column_offsets ((off + s) mod 2 ^ 32) ss"

text \<open>\<open>mysql_stmt_fetch\<close> stores the values of a row; the columns that are null keep what was in their buffers.\<close>

fun fetch_row :: "(nat \<times> nat) list \<Rightarrow> cell list \<Rightarrow> memory \<Rightarrow> memory option" where
  "fetch_row ((a, s) # bs) (c # cs) mem =
     do { mem \<leftarrow> (case c of None \<Rightarrow> Some mem | Some v \<Rightarrow> write_bytes a (take s v) mem); fetch_row bs cs mem }"
| "fetch_row _ _ mem = Some mem"

text \<open>The lengths it stores; that of a null is not touched.\<close>

definition fetch_lengths :: "nat list \<Rightarrow> cell list \<Rightarrow> nat list" where
  "fetch_lengths ls cs = map (\<lambda>(l, c). case c of None \<Rightarrow> l | Some v \<Rightarrow> length v) (zip ls cs)"

text \<open>The terminator behind a text, if there is room.\<close>

definition terminate_text :: "field_type \<Rightarrow> nat \<Rightarrow> nat \<Rightarrow> nat \<Rightarrow> memory \<Rightarrow> memory option" where
  "terminate_text ty a fetched room mem =
     (if is_text ty \<and> fetched < room then write_bytes (a + fetched) [0] mem else Some mem)"

text \<open>The inner loop of the constructor from column \<open>i\<close> on: the addresses of the columns, the rows and the memory.\<close>

fun store_fields ::
  "nat \<Rightarrow> nat \<Rightarrow> nat \<Rightarrow> nat \<Rightarrow> MySQLField list \<Rightarrow> nat list \<Rightarrow> nat list \<Rightarrow> nat list \<Rightarrow> cell list \<Rightarrow> Field list \<times> memory \<Rightarrow>
   (nat list \<times> Field list \<times> memory) option" where
  "store_fields R fc pos i (m # ms) (s # ss) (l # ls) (a # as) (c # cs) (rows, mem) =
     do { let k = (pos mod 2 ^ 32 * fc + i) mod 2 ^ 32;
          _ \<leftarrow> (if k < length rows then Some () else None);
          let f = SetMetadata i (rows ! k);
          (a', f, mem) \<leftarrow> (case c of
              Some v \<Rightarrow> do { mem \<leftarrow> terminate_text (mf_type m) a l s mem;
                              Some (a + R, SetByteValue (Some a) l f, mem) }
            | None \<Rightarrow> Some (a, SetByteValue None l f, mem));
          (as, rows, mem) \<leftarrow> store_fields R fc pos (Suc i) ms ss ls as cs (rows[k := f], mem);
          Some (a' # as, rows, mem) }"
| "store_fields R fc pos i _ _ _ as _ (rows, mem) = Some (as, rows, mem)"

fun store_rows ::
  "nat \<Rightarrow> nat \<Rightarrow> nat \<Rightarrow> nat \<Rightarrow> MySQLField list \<Rightarrow> nat list \<Rightarrow> nat list \<Rightarrow> nat list \<Rightarrow> cell list list \<Rightarrow> Field list \<times> memory \<Rightarrow> (Field list \<times> memory) option" where
  "store_rows R n fc pos ms ss ls as [] (rows, mem) = Some (rows, mem)"
| "store_rows R n fc pos ms ss ls as (cs # css) (rows, mem) =
     (if pos < n then
        do { mem \<leftarrow> fetch_row (zip as ss) cs mem;
             let ls = fetch_lengths ls cs;
             (as, rows, mem) \<leftarrow> store_fields R fc pos 0 ms ss ls as cs (rows, mem);
             store_rows R n fc (Suc pos) ms ss ls as css (rows, mem) }
      else Some (rows, mem))"

text \<open>\<open>CleanUp\<close> frees the metadata without clearing the pointer.\<close>

definition PreparedResultSet_CleanUp :: "PreparedResultSet \<Rightarrow> PreparedResultSet option" where
  "PreparedResultSet_CleanUp r =
     do { r \<leftarrow> (case pr_metadata r of HNull \<Rightarrow> Some r | HLive \<Rightarrow> Some (r\<lparr>pr_metadata := HDangling\<rparr>) | HDangling \<Rightarrow> None);
          case pr_rBind r of HNull \<Rightarrow> Some r | HLive \<Rightarrow> Some (r\<lparr>pr_rBind := HNull, pr_memory := []\<rparr>) | HDangling \<Rightarrow> None }"

text \<open>
  The constructor: \<open>stored\<close> and \<open>bound\<close> tell whether \<open>mysql_stmt_store_result\<close> and \<open>mysql_stmt_bind_result\<close>
  succeed, \<open>num_rows\<close> is the result of \<open>mysql_stmt_num_rows\<close> then.
\<close>

definition PreparedResultSet_ctor ::
  "nat \<Rightarrow> bool \<Rightarrow> MySQLField list \<Rightarrow> nat \<Rightarrow> bool \<Rightarrow> nat \<Rightarrow> bool \<Rightarrow> cell list list \<Rightarrow> PreparedResultSet option" where
  "PreparedResultSet_ctor time_size has_metadata ms rowCount stored num_rows bound css =
     (let fc = length ms;
          r = \<lparr>pr_rowCount = rowCount, pr_rowPosition = 0, pr_fieldCount = fc, pr_fieldMetadata = [], pr_rows = [], pr_memory = [],
               pr_rBind = HNull, pr_metadata = (if has_metadata then HLive else HNull)\<rparr> in
      if \<not> has_metadata then Some r
      else if \<not> stored then Some (r\<lparr>pr_rBind := HDangling\<rparr>)
      else
        let ss = map (SizeForType time_size) ms; R = sum_list ss;
            r = r\<lparr>pr_rowCount := num_rows, pr_fieldMetadata := map2 InitializeDatabaseFieldMetadata ms [0..<fc], pr_rBind := HLive, pr_memory := replicate (R * num_rows mod 2 ^ 64) None\<rparr> in
        if \<not> bound then PreparedResultSet_CleanUp r
        else
          do { (rows, mem) \<leftarrow> store_rows R num_rows fc 0 ms ss (replicate fc 0) (column_offsets 0 ss) css
                 (replicate (num_rows mod 2 ^ 32 * fc mod 2 ^ 32) Field_ctor, pr_memory r);
               Some (r\<lparr>pr_rows := rows, pr_memory := mem\<rparr>) })"

definition PreparedResultSet_NextRow :: "PreparedResultSet \<Rightarrow> bool \<times> PreparedResultSet" where
  "PreparedResultSet_NextRow r = (let p = pr_rowPosition r + 1 in (p < pr_rowCount r, r\<lparr>pr_rowPosition := p\<rparr>))"

definition PreparedResultSet_get :: "nat \<Rightarrow> PreparedResultSet \<Rightarrow> Field option" where
  "PreparedResultSet_get index r =
     (if pr_rowPosition r < pr_rowCount r \<and> index < pr_fieldCount r then
        let k = (pr_rowPosition r mod 2 ^ 32 * pr_fieldCount r mod 2 ^ 32) + index in
        if k < length (pr_rows r) then Some (pr_rows r ! k) else None
      else None)"


definition PreparedResultSet_Fetch :: "PreparedResultSet \<Rightarrow> nat option" where
  "PreparedResultSet_Fetch r =
     (if pr_rowPosition r < pr_rowCount r then
        let k = pr_rowPosition r mod 2 ^ 32 * pr_fieldCount r mod 2 ^ 32 in
        if k < length (pr_rows r) then Some k else None
      else None)"

section \<open>Memory\<close>

lemma read_bytes_ok:
  assumes "a + length bs \<le> length mem" "\<And>i. i < length bs \<Longrightarrow> mem ! (a + i) = Some (bs ! i)"
  shows "read_bytes mem a (length bs) = Some bs"
  using assms
proof (induction bs arbitrary: a)
  case (Cons b bs)
  have "mem ! a = Some b" using Cons.prems(2) [of 0] by simp
  moreover have "read_bytes mem (Suc a) (length bs) = Some bs"
    using Cons.prems Cons.prems(2) [of "Suc _"] by (intro Cons.IH) auto
  ultimately show ?case using Cons.prems(1) by (simp add: aget_def)
qed simp

lemma write_bytes_ok:
  assumes "a + length bs \<le> length mem"
  shows "\<exists>mem'. write_bytes a bs mem = Some mem' \<and> length mem' = length mem \<and>
    (\<forall>x < length mem. mem' ! x = (if a \<le> x \<and> x < a + length bs then Some (bs ! (x - a)) else mem ! x))"
  using assms by (auto simp: write_bytes_def nth_append)

text \<open>The bytes from \<open>a\<close> on that belong to a column.\<close>

definition slot :: "nat \<Rightarrow> nat \<Rightarrow> nat set" where
  "slot a s = {a..<a + s}"

definition disjoint_slots :: "nat list \<Rightarrow> nat list \<Rightarrow> bool" where
  "disjoint_slots as ss \<longleftrightarrow> (\<forall>i j. i < j \<and> j < length ss \<longrightarrow> slot (as ! i) (ss ! i) \<inter> slot (as ! j) (ss ! j) = {})"

lemma disjoint_slots_Cons:
  "disjoint_slots (a # as) (s # ss) \<longleftrightarrow> disjoint_slots as ss \<and> (\<forall>j < length ss. slot a s \<inter> slot (as ! j) (ss ! j) = {})"
proof
  assume d: "disjoint_slots (a # as) (s # ss)"
  have "slot a s \<inter> slot (as ! j) (ss ! j) = {}" if "j < length ss" for j
    using d [unfolded disjoint_slots_def, rule_format, of 0 "Suc j"] that by simp
  moreover have "slot (as ! i) (ss ! i) \<inter> slot (as ! j) (ss ! j) = {}" if "i < j" "j < length ss" for i j
    using d [unfolded disjoint_slots_def, rule_format, of "Suc i" "Suc j"] that by simp
  ultimately show "disjoint_slots as ss \<and> (\<forall>j < length ss. slot a s \<inter> slot (as ! j) (ss ! j) = {})" by (auto simp: disjoint_slots_def)
next
  assume d: "disjoint_slots as ss \<and> (\<forall>j < length ss. slot a s \<inter> slot (as ! j) (ss ! j) = {})"
  show "disjoint_slots (a # as) (s # ss)" unfolding disjoint_slots_def
  proof (intro allI impI)
    fix i j
    assume "i < j \<and> j < length (s # ss)"
    then show "slot ((a # as) ! i) ((s # ss) ! i) \<inter> slot ((a # as) ! j) ((s # ss) ! j) = {}"
      using d by (cases i; cases j) (auto simp: disjoint_slots_def)
  qed
qed

text \<open>A fetch puts the values in their slots and changes nothing else.\<close>

lemma fetch_row_ok:
  assumes "length as = length ss" "length cs = length ss" "disjoint_slots as ss"
    and "\<And>j v. j < length ss \<Longrightarrow> cs ! j = Some v \<Longrightarrow> length v \<le> ss ! j \<and> as ! j + ss ! j \<le> length mem"
  shows "\<exists>mem'. fetch_row (zip as ss) cs mem = Some mem' \<and> length mem' = length mem \<and>
    (\<forall>j < length ss. \<forall>v. cs ! j = Some v \<longrightarrow> (\<forall>i < length v. mem' ! (as ! j + i) = Some (v ! i))) \<and>
    (\<forall>x < length mem. (\<forall>j < length ss. cs ! j \<noteq> None \<longrightarrow> x \<notin> slot (as ! j) (ss ! j)) \<longrightarrow> mem' ! x = mem ! x)"
  using assms
proof (induction as ss arbitrary: cs mem rule: list_induct2')
  case (4 a as s ss)
  obtain c cs' where cs: "cs = c # cs'" using 4(3) by (cases cs) auto
  obtain mem1 where m1: "(case c of None \<Rightarrow> Some mem | Some v \<Rightarrow> write_bytes a (take s v) mem) = Some mem1" "length mem1 = length mem"
    "\<And>v i. c = Some v \<Longrightarrow> i < length v \<Longrightarrow> mem1 ! (a + i) = Some (v ! i)"
    "\<And>x. x < length mem \<Longrightarrow> c = None \<or> x \<notin> slot a s \<Longrightarrow> mem1 ! x = mem ! x"
  proof (cases c)
    case (Some v)
    have v: "length v \<le> s" "a + s \<le> length mem" using 4(5) [of 0 v] cs Some by auto
    then obtain mem' where w: "write_bytes a v mem = Some mem'" "length mem' = length mem"
      and x: "\<forall>x < length mem. mem' ! x = (if a \<le> x \<and> x < a + length v then Some (v ! (x - a)) else mem ! x)"
      using write_bytes_ok [of a v mem] by auto
    show thesis
    proof (rule that [of mem'])
      show "(case c of None \<Rightarrow> Some mem | Some v \<Rightarrow> write_bytes a (take s v) mem) = Some mem'" using Some v w by simp
      show "length mem' = length mem" by (rule w)
      show "mem' ! (a + i) = Some (u ! i)" if "c = Some u" "i < length u" for u i
        using that Some v x by simp
      show "mem' ! y = mem ! y" if "y < length mem" "c = None \<or> y \<notin> slot a s" for y
        using that Some v x by (auto simp: slot_def)
    qed
  qed (use that [of mem] in auto)
  have "\<exists>mem'. fetch_row (zip as ss) cs' mem1 = Some mem' \<and> length mem' = length mem1 \<and>
    (\<forall>j < length ss. \<forall>v. cs' ! j = Some v \<longrightarrow> (\<forall>i < length v. mem' ! (as ! j + i) = Some (v ! i))) \<and>
    (\<forall>x < length mem1. (\<forall>j < length ss. cs' ! j \<noteq> None \<longrightarrow> x \<notin> slot (as ! j) (ss ! j)) \<longrightarrow> mem' ! x = mem1 ! x)"
    using 4(2,3,4) 4(5) [of "Suc _"] cs m1(2) by (intro 4(1)) (auto simp: disjoint_slots_Cons)
  then obtain mem' where m': "fetch_row (zip as ss) cs' mem1 = Some mem'" "length mem' = length mem"
    "\<And>j v i. j < length ss \<Longrightarrow> cs' ! j = Some v \<Longrightarrow> i < length v \<Longrightarrow> mem' ! (as ! j + i) = Some (v ! i)"
    "\<And>x. x < length mem \<Longrightarrow> (\<forall>j < length ss. cs' ! j \<noteq> None \<longrightarrow> x \<notin> slot (as ! j) (ss ! j)) \<Longrightarrow> mem' ! x = mem1 ! x"
    using m1(2) by auto
  have "mem' ! (a + i) = Some (v ! i)" if "c = Some v" "i < length v" for v i
  proof -
    have "length v \<le> s" "a + s \<le> length mem" using 4(5) [of 0 v] cs that by auto
    moreover have "a + i \<notin> slot (as ! j) (ss ! j)" if "j < length ss" for j
      using 4(4) that \<open>i < length v\<close> calculation by (auto simp: disjoint_slots_Cons slot_def)
    ultimately show ?thesis using m'(4) [of "a + i"] m1(3) [OF that] that by simp
  qed
  moreover have "mem' ! x = mem ! x"
    if "x < length mem" "\<forall>j < length (s # ss). cs ! j \<noteq> None \<longrightarrow> x \<notin> slot ((a # as) ! j) ((s # ss) ! j)" for x
  proof -
    have "c = None \<or> x \<notin> slot a s" using that(2) cs by (metis length_greater_0_conv list.discI nth_Cons_0)
    moreover have "\<forall>j < length ss. cs' ! j \<noteq> None \<longrightarrow> x \<notin> slot (as ! j) (ss ! j)"
      using that(2) cs by (metis Suc_mono length_Cons nth_Cons_Suc)
    ultimately show ?thesis using m'(4) m1(4) that(1) by simp
  qed
  moreover have "fetch_row (zip (a # as) (s # ss)) cs mem = Some mem'" using m1(1) m'(1) cs by simp
  ultimately show ?case using m'(2,3) cs
    by (intro exI [of _ mem']) (auto simp: less_Suc_eq_0_disj)
qed auto



text \<open>What the constructor makes of a cell.\<close>

definition row_field :: "nat \<Rightarrow> nat \<Rightarrow> nat \<Rightarrow> cell \<Rightarrow> Field" where
  "row_field i l a c =
     \<lparr>fd_value = (if c = None then None else Some a), fd_length = of_nat l, fd_raw = True, fd_meta = Some i\<rparr>"

lemma row_field_set:
  "SetByteValue (Some a) l (SetMetadata i f) = row_field i l a (Some v)"
  "SetByteValue None l (SetMetadata i f) = row_field i l a None"
  by (cases f; simp add: row_field_def SetByteValue_def SetMetadata_def)+

definition terminated :: "MySQLField list \<Rightarrow> nat list \<Rightarrow> nat list \<Rightarrow> nat list \<Rightarrow> cell list \<Rightarrow> nat \<Rightarrow> bool" where
  "terminated ms ss ls as cs x \<longleftrightarrow>
     (\<exists>j < length ms. cs ! j \<noteq> None \<and> is_text (mf_type (ms ! j)) \<and> ls ! j < ss ! j \<and> x = as ! j + ls ! j)"

lemma ex_less_Cons: "(\<exists>j < Suc n. P j) \<longleftrightarrow> P 0 \<or> (\<exists>j < n. P (Suc j))"
  by (auto simp: less_Suc_eq_0_disj)

lemma terminated_Cons:
  "terminated (m # ms) (s # ss) (l # ls) (a # as) (c # cs) x \<longleftrightarrow>
     c \<noteq> None \<and> is_text (mf_type m) \<and> l < s \<and> x = a + l \<or> terminated ms ss ls as cs x"
  unfolding terminated_def length_Cons ex_less_Cons by simp

lemma terminate_text_ok:
  assumes "a + s \<le> length mem"
  shows "\<exists>mem'. terminate_text ty a l s mem = Some mem' \<and> length mem' = length mem \<and>
    (\<forall>x < length mem. mem' ! x = (if is_text ty \<and> l < s \<and> x = a + l then Some 0 else mem ! x))"
proof (cases "is_text ty \<and> l < s")
  case True
  then have "a + l + length [0 :: u8] \<le> length mem" using assms by simp
  from write_bytes_ok [OF this] obtain mem' where "write_bytes (a + l) [0] mem = Some mem'" "length mem' = length mem"
    "\<forall>x < length mem. mem' ! x = (if a + l \<le> x \<and> x < a + l + 1 then Some ([0] ! (x - (a + l))) else mem ! x)" by auto
  then show ?thesis using True by (auto simp: terminate_text_def)
qed (auto simp: terminate_text_def)

lemma store_fields_ok:
  assumes "length ss = length ms" "length ls = length ms" "length as = length ms" "length cs = length ms"
    and "pos * fc + i + length ms \<le> length rows" "length rows < 2 ^ 32" "pos < 2 ^ 32"
    and "\<And>j. j < length ms \<Longrightarrow> cs ! j \<noteq> None \<Longrightarrow> as ! j + ss ! j \<le> length mem"
  shows "\<exists>rows' mem'. store_fields R fc pos i ms ss ls as cs (rows, mem) =
      Some (map2 (\<lambda>a c. if c = None then a else a + R) as cs, rows', mem') \<and> length rows' = length rows \<and> length mem' = length mem \<and>
    (\<forall>j < length ms. rows' ! (pos * fc + i + j) = row_field (i + j) (ls ! j) (as ! j) (cs ! j)) \<and>
    (\<forall>k < pos * fc + i. rows' ! k = rows ! k) \<and>
    (\<forall>x < length mem. mem' ! x = (if terminated ms ss ls as cs x then Some 0 else mem ! x))"
  using assms
proof (induction ms arbitrary: ss ls as cs i rows mem)
  case Nil
  then show ?case by (simp add: terminated_def)
next
  case (Cons m ms)
  obtain s ss' l ls' a as' c cs' where e: "ss = s # ss'" "ls = l # ls'" "as = a # as'" "cs = c # cs'"
    using Cons.prems(1-4) by (metis length_Suc_conv list.size(4) add.commute plus_1_eq_Suc)
  define k where "k = pos * fc + i"
  have k: "(pos mod 2 ^ 32 * fc + i) mod 2 ^ 32 = k" "k < length rows" using Cons.prems(5-7) by (auto simp: k_def)
  define f where "f = row_field i l a c"
  have "\<exists>mem1. (case c of Some v \<Rightarrow> terminate_text (mf_type m) a l s mem | None \<Rightarrow> Some mem) = Some mem1 \<and> length mem1 = length mem \<and>
    (\<forall>x < length mem. mem1 ! x = (if c \<noteq> None \<and> is_text (mf_type m) \<and> l < s \<and> x = a + l then Some 0 else mem ! x))"
    using Cons.prems(8) [of 0] terminate_text_ok [of a s mem "mf_type m" l] e by (cases c) auto
  then obtain mem1 where m1: "(case c of Some v \<Rightarrow> terminate_text (mf_type m) a l s mem | None \<Rightarrow> Some mem) = Some mem1" "length mem1 = length mem"
    "\<forall>x < length mem. mem1 ! x = (if c \<noteq> None \<and> is_text (mf_type m) \<and> l < s \<and> x = a + l then Some 0 else mem ! x)" by auto
  have "\<exists>rows' mem'. store_fields R fc pos (Suc i) ms ss' ls' as' cs' (rows[k := f], mem1) =
      Some (map2 (\<lambda>a c. if c = None then a else a + R) as' cs', rows', mem') \<and> length rows' = length (rows[k := f]) \<and> length mem' = length mem1 \<and>
    (\<forall>j < length ms. rows' ! (pos * fc + Suc i + j) = row_field (Suc i + j) (ls' ! j) (as' ! j) (cs' ! j)) \<and>
    (\<forall>k' < pos * fc + Suc i. rows' ! k' = rows[k := f] ! k') \<and>
    (\<forall>x < length mem1. mem' ! x = (if terminated ms ss' ls' as' cs' x then Some 0 else mem1 ! x))"
    using Cons.prems(1-7) Cons.prems(8) [of "Suc _"] e m1(2) by (intro Cons.IH) auto
  then obtain rows' mem' where r: "store_fields R fc pos (Suc i) ms ss' ls' as' cs' (rows[k := f], mem1) =
      Some (map2 (\<lambda>a c. if c = None then a else a + R) as' cs', rows', mem')" "length rows' = length rows" "length mem' = length mem"
    "\<forall>j < length ms. rows' ! (Suc (k + j)) = row_field (Suc (i + j)) (ls' ! j) (as' ! j) (cs' ! j)"
    "\<forall>k' < Suc k. rows' ! k' = rows[k := f] ! k'"
    "\<forall>x < length mem. mem' ! x = (if terminated ms ss' ls' as' cs' x then Some 0 else mem1 ! x)"
    using m1(2) by (auto simp: k_def)
  have "store_fields R fc pos i (m # ms) ss ls as cs (rows, mem) =
      Some (map2 (\<lambda>a c. if c = None then a else a + R) as cs, rows', mem')"
    using m1(1) r(1) k by (cases c)
      (simp_all add: e row_field_set(2) [where a = a] row_field_set(1) [where v = "the c"] f_def Let_def)
  moreover have "rows' ! (pos * fc + i + j) = row_field (i + j) (ls ! j) (as ! j) (cs ! j)" if "j < length (m # ms)" for j
    using that r(4) r(5) [rule_format, of k] k(2) by (cases j) (auto simp: e k_def [symmetric] f_def)
  moreover have "\<forall>k' < pos * fc + i. rows' ! k' = rows ! k'" using r(5) by (auto simp: k_def)
  moreover have "\<forall>x < length mem. mem' ! x = (if terminated (m # ms) ss ls as cs x then Some 0 else mem ! x)"
    using r(6) m1(3) by (auto simp: e terminated_Cons)
  ultimately show ?case using r(2,3) by blast
qed


section \<open>Columns\<close>

text \<open>The \<open>k\<close>-th value of column \<open>j\<close> is at \<open>column_addr ss j k\<close>; \<open>c j\<close> values of a column were stored so far.\<close>

definition column_addr :: "nat list \<Rightarrow> nat \<Rightarrow> nat \<Rightarrow> nat" where
  "column_addr ss j k = sum_list (take j ss) + sum_list ss * k"

definition column_addrs :: "nat list \<Rightarrow> (nat \<Rightarrow> nat) \<Rightarrow> nat list" where
  "column_addrs ss c = map (\<lambda>j. column_addr ss j (c j)) [0..<length ss]"

lemma column_offsets_eq:
  "off + sum_list ss < 2 ^ 32 \<Longrightarrow> column_offsets off ss = map (\<lambda>j. off + sum_list (take j ss)) [0..<length ss]"
proof (induction ss arbitrary: off)
  case (Cons s ss)
  then show ?case by (simp add: upt_conv_Cons map_Suc_upt [symmetric] del: upt_Suc)
qed simp

lemma column_offsets_addrs: "sum_list ss < 2 ^ 32 \<Longrightarrow> column_offsets 0 ss = column_addrs ss (\<lambda>_. 0)"
  by (simp add: column_offsets_eq column_addrs_def column_addr_def)

lemma column_end: "j < j' \<Longrightarrow> j' \<le> length ss \<Longrightarrow> sum_list (take j ss) + ss ! j \<le> sum_list (take j' (ss :: nat list))"
proof (induction j' rule: nat_induct)
  case (Suc j')
  then show ?case by (cases "j = j'") (auto simp: take_Suc_conv_app_nth)
qed simp

lemma column_in_row: "j < length ss \<Longrightarrow> sum_list (take j ss) + ss ! j \<le> sum_list (ss :: nat list)"
  using column_end [of j "length ss" ss] by simp

lemma column_fits:
  assumes "j < length ss" "k < n"
  shows "column_addr ss j k + ss ! j \<le> sum_list ss * n"
proof -
  have "sum_list ss * Suc k \<le> sum_list ss * n" using assms(2) by (intro mult_le_mono2) simp
  then show ?thesis using column_in_row [OF assms(1)] by (simp add: column_addr_def)
qed

lemma columns_apart:
  assumes "j < length ss" "j' < length ss" "k < k' \<or> k = k' \<and> j < j'"
  shows "slot (column_addr ss j k) (ss ! j) \<inter> slot (column_addr ss j' k') (ss ! j') = {}"
proof (cases "k < k'")
  case True
  have "column_addr ss j k + ss ! j \<le> sum_list ss * k'" by (rule column_fits [OF assms(1) True])
  then show ?thesis by (auto simp: slot_def column_addr_def)
next
  case False
  then show ?thesis using assms column_end [of j j' ss] by (auto simp: slot_def column_addr_def)
qed

lemma columns_disjoint:
  assumes "j < length ss" "j' < length ss" "j \<noteq> j' \<or> k \<noteq> k'"
  shows "slot (column_addr ss j k) (ss ! j) \<inter> slot (column_addr ss j' k') (ss ! j') = {}"
  using columns_apart [of j ss j' k k'] columns_apart [of j' ss j k' k] assms by (metis inf_commute nat_neq_iff)

lemma column_addrs_disjoint: "disjoint_slots (column_addrs ss c) ss"
  unfolding disjoint_slots_def column_addrs_def
proof (intro allI impI)
  fix i j
  assume "i < j \<and> j < length ss"
  then show "slot (map (\<lambda>j. column_addr ss j (c j)) [0..<length ss] ! i) (ss ! i) \<inter>
      slot (map (\<lambda>j. column_addr ss j (c j)) [0..<length ss] ! j) (ss ! j) = {}"
    using columns_disjoint [of i ss j "c i" "c j"] by simp
qed

lemma length_column_addrs [simp]: "length (column_addrs ss c) = length ss"
  by (simp add: column_addrs_def)

lemma nth_column_addrs [simp]: "j < length ss \<Longrightarrow> column_addrs ss c ! j = column_addr ss j (c j)"
  by (simp add: column_addrs_def)

definition next_counts :: "cell list \<Rightarrow> (nat \<Rightarrow> nat) \<Rightarrow> nat \<Rightarrow> nat" where
  "next_counts cs c j = (if cs ! j = None then c j else Suc (c j))"

lemma column_addrs_next:
  "length cs = length ss \<Longrightarrow>
   map2 (\<lambda>a d. if d = None then a else a + sum_list ss) (column_addrs ss c) cs = column_addrs ss (next_counts cs c)"
  by (rule nth_equalityI) (simp_all add: next_counts_def column_addr_def)


section \<open>Rows\<close>

text \<open>The bytes of a value in the array, with the terminator of a text.\<close>

definition cell_bytes :: "MySQLField \<Rightarrow> nat \<Rightarrow> u8 list \<Rightarrow> u8 list" where
  "cell_bytes m s v = (if is_text (mf_type m) \<and> length v < s then v @ [0] else v)"

definition bytes_at :: "memory \<Rightarrow> nat \<Rightarrow> u8 list \<Rightarrow> bool" where
  "bytes_at mem a bs \<longleftrightarrow> a + length bs \<le> length mem \<and> (\<forall>i < length bs. mem ! (a + i) = Some (bs ! i))"

lemma cell_bytes_fit: "length v \<le> s \<Longrightarrow> length (cell_bytes m s v) \<le> s"
  by (simp add: cell_bytes_def)

lemma bytes_at_frame:
  assumes "bytes_at mem a bs" "length mem' = length mem" "\<And>x. x \<in> slot a (length bs) \<Longrightarrow> mem' ! x = mem ! x"
  shows "bytes_at mem' a bs"
  using assms by (simp add: bytes_at_def slot_def)

definition cells_fit :: "nat list \<Rightarrow> cell list \<Rightarrow> bool" where
  "cells_fit ss cs \<longleftrightarrow> length cs = length ss \<and> (\<forall>j < length ss. \<forall>v. cs ! j = Some v \<longrightarrow> length v \<le> ss ! j)"

lemma fetch_lengths_nth:
  "length ls = length cs \<Longrightarrow> j < length cs \<Longrightarrow> cs ! j = Some v \<Longrightarrow> fetch_lengths ls cs ! j = length v"
  by (simp add: fetch_lengths_def)

lemma length_fetch_lengths [simp]: "length (fetch_lengths ls cs) = min (length ls) (length cs)"
  by (simp add: fetch_lengths_def)

text \<open>One pass of the loop over the rows.\<close>

lemma row_ok:
  assumes len: "length ms = length ss" "length ls = length ss" "cells_fit ss cs"
    and rows: "Suc pos * length ss \<le> length rows" "length rows < 2 ^ 32" "pos < 2 ^ 32"
    and mem: "length mem = sum_list ss * n" "\<And>j. j < length ss \<Longrightarrow> c j < n"
  shows "\<exists>mem1 rows' mem'. fetch_row (zip (column_addrs ss c) ss) cs mem = Some mem1 \<and>
    store_fields (sum_list ss) (length ss) pos 0 ms ss (fetch_lengths ls cs) (column_addrs ss c) cs (rows, mem1) =
      Some (column_addrs ss (next_counts cs c), rows', mem') \<and> length rows' = length rows \<and> length mem' = length mem \<and>
    (\<forall>k < pos * length ss. rows' ! k = rows ! k) \<and>
    (\<forall>j < length ss. rows' ! (pos * length ss + j) = row_field j (fetch_lengths ls cs ! j) (column_addr ss j (c j)) (cs ! j)) \<and>
    (\<forall>j < length ss. \<forall>v. cs ! j = Some v \<longrightarrow> bytes_at mem' (column_addr ss j (c j)) (cell_bytes (ms ! j) (ss ! j) v)) \<and>
    (\<forall>x < length mem. (\<forall>j < length ss. x \<notin> slot (column_addr ss j (c j)) (ss ! j)) \<longrightarrow> mem' ! x = mem ! x)"
proof -
  let ?as = "column_addrs ss c" and ?ls = "fetch_lengths ls cs"
  have lc: "length cs = length ss" using len(3) by (simp add: cells_fit_def)
  have fit: "column_addr ss j (c j) + ss ! j \<le> length mem" if "j < length ss" for j
    using column_fits [OF that mem(2) [OF that]] mem(1) by simp
  have vfit: "length v \<le> ss ! j" if "j < length ss" "cs ! j = Some v" for j v using len(3) that by (simp add: cells_fit_def)
  have "\<exists>mem1. fetch_row (zip ?as ss) cs mem = Some mem1 \<and> length mem1 = length mem \<and>
    (\<forall>j < length ss. \<forall>v. cs ! j = Some v \<longrightarrow> (\<forall>i < length v. mem1 ! (?as ! j + i) = Some (v ! i))) \<and>
    (\<forall>x < length mem. (\<forall>j < length ss. cs ! j \<noteq> None \<longrightarrow> x \<notin> slot (?as ! j) (ss ! j)) \<longrightarrow> mem1 ! x = mem ! x)"
    using lc fit vfit by (intro fetch_row_ok) (simp_all add: column_addrs_disjoint)
  then obtain mem1 where f: "fetch_row (zip ?as ss) cs mem = Some mem1" "length mem1 = length mem"
    "\<And>j v i. j < length ss \<Longrightarrow> cs ! j = Some v \<Longrightarrow> i < length v \<Longrightarrow> mem1 ! (column_addr ss j (c j) + i) = Some (v ! i)"
    "\<And>x. x < length mem \<Longrightarrow> (\<And>j. j < length ss \<Longrightarrow> x \<notin> slot (column_addr ss j (c j)) (ss ! j)) \<Longrightarrow> mem1 ! x = mem ! x"
    by (metis nth_column_addrs)
  have "\<exists>rows' mem'. store_fields (sum_list ss) (length ss) pos 0 ms ss ?ls ?as cs (rows, mem1) =
      Some (map2 (\<lambda>a c. if c = None then a else a + sum_list ss) ?as cs, rows', mem') \<and> length rows' = length rows \<and> length mem' = length mem1 \<and>
    (\<forall>j < length ms. rows' ! (pos * length ss + 0 + j) = row_field (0 + j) (?ls ! j) (?as ! j) (cs ! j)) \<and>
    (\<forall>k < pos * length ss + 0. rows' ! k = rows ! k) \<and>
    (\<forall>x < length mem1. mem' ! x = (if terminated ms ss ?ls ?as cs x then Some 0 else mem1 ! x))"
    using len(1,2) lc rows fit f(2) by (intro store_fields_ok) simp_all
  then obtain rows' mem' where s: "store_fields (sum_list ss) (length ss) pos 0 ms ss ?ls ?as cs (rows, mem1) =
      Some (column_addrs ss (next_counts cs c), rows', mem')" "length rows' = length rows" "length mem' = length mem"
    "\<And>j. j < length ss \<Longrightarrow> rows' ! (pos * length ss + j) = row_field j (?ls ! j) (column_addr ss j (c j)) (cs ! j)"
    "\<And>k. k < pos * length ss \<Longrightarrow> rows' ! k = rows ! k"
    "\<And>x. x < length mem \<Longrightarrow> mem' ! x = (if terminated ms ss ?ls ?as cs x then Some 0 else mem1 ! x)"
    unfolding column_addrs_next [OF lc] using len(1) f(2) by auto
  have t: "terminated ms ss ?ls ?as cs x \<longleftrightarrow>
      (\<exists>j < length ss. \<exists>v. cs ! j = Some v \<and> is_text (mf_type (ms ! j)) \<and> length v < ss ! j \<and> x = column_addr ss j (c j) + length v)" for x
  proof -
    have "?ls ! j = length v" if "j < length ss" "cs ! j = Some v" for j v
      using fetch_lengths_nth [of ls cs j v] len(2) lc that by simp
    then show ?thesis unfolding terminated_def len(1) by fastforce
  qed
  have apart: "column_addr ss j (c j) + i \<noteq> column_addr ss j' (c j') + i'" if "j < length ss" "j' < length ss" "j \<noteq> j'" "i < ss ! j" "i' < ss ! j'" for j j' i i'
    using columns_disjoint [of j ss j' "c j" "c j'"] that by (fastforce simp: slot_def)
  have "bytes_at mem' (column_addr ss j (c j)) (cell_bytes (ms ! j) (ss ! j) v)" if j: "j < length ss" "cs ! j = Some v" for j v
    unfolding bytes_at_def
  proof (intro conjI allI impI)
    show "column_addr ss j (c j) + length (cell_bytes (ms ! j) (ss ! j) v) \<le> length mem'"
      using fit [OF j(1)] cell_bytes_fit [OF vfit [OF j], of "ms ! j"] s(3) by linarith
    fix i
    assume i: "i < length (cell_bytes (ms ! j) (ss ! j) v)"
    have il: "i < ss ! j" using i cell_bytes_fit [OF vfit [OF j], of "ms ! j"] by simp
    then have x: "column_addr ss j (c j) + i < length mem" using fit [OF j(1)] by simp
    have tt: "terminated ms ss ?ls ?as cs (column_addr ss j (c j) + i) \<longleftrightarrow> is_text (mf_type (ms ! j)) \<and> length v < ss ! j \<and> i = length v"
      unfolding t using apart [of j _ i] j il by (metis add_left_cancel option.inject)
    show "mem' ! (column_addr ss j (c j) + i) = Some (cell_bytes (ms ! j) (ss ! j) v ! i)"
      using s(6) [OF x] tt f(3) [OF j, of i] i by (auto simp: cell_bytes_def nth_append split: if_splits)
  qed
  moreover have "mem' ! x = mem ! x" if x: "x < length mem" "\<And>j. j < length ss \<Longrightarrow> x \<notin> slot (column_addr ss j (c j)) (ss ! j)" for x
  proof -
    have "\<not> terminated ms ss ?ls ?as cs x" using x(2) unfolding t by (fastforce simp: slot_def)
    then show ?thesis using s(6) [OF x(1)] f(4) [OF x] by simp
  qed
  ultimately show ?thesis using s(2-5)
    by (intro exI [of _ mem1] exI [of _ rows'] exI [of _ mem'] conjI f(1) s(1)) simp_all
qed


definition cell_stored :: "nat \<Rightarrow> MySQLField \<Rightarrow> nat \<Rightarrow> memory \<Rightarrow> Field \<Rightarrow> cell \<Rightarrow> bool" where
  "cell_stored j m s mem f c \<longleftrightarrow>
     (\<exists>l a. f = row_field j l a c \<and> (\<forall>v. c = Some v \<longrightarrow> l = length v \<and> bytes_at mem a (cell_bytes m s v)))"

lemma value_kept:
  assumes "j < length ss" "cs ! j = Some v" "length v \<le> ss ! j"
    and "bytes_at mem (column_addr ss j (c j)) (cell_bytes m (ss ! j) v)" "length mem' = length mem"
    and "\<And>x. x < length mem \<Longrightarrow> (\<And>i k. i < length ss \<Longrightarrow> next_counts cs c i \<le> k \<Longrightarrow> x \<notin> slot (column_addr ss i k) (ss ! i)) \<Longrightarrow> mem' ! x = mem ! x"
  shows "bytes_at mem' (column_addr ss j (c j)) (cell_bytes m (ss ! j) v)"
proof (rule bytes_at_frame [OF assms(4,5)])
  fix x
  assume x: "x \<in> slot (column_addr ss j (c j)) (length (cell_bytes m (ss ! j) v))"
  then have xs: "x \<in> slot (column_addr ss j (c j)) (ss ! j)" using cell_bytes_fit [OF assms(3), of m] by (simp add: slot_def)
  show "mem' ! x = mem ! x"
  proof (rule assms(6))
    show "x < length mem" using x assms(4) by (simp add: bytes_at_def slot_def)
    fix i k
    assume i: "i < length ss" "next_counts cs c i \<le> k"
    then have "j \<noteq> i \<or> c j \<noteq> k" using assms(2) by (auto simp: next_counts_def)
    then show "x \<notin> slot (column_addr ss i k) (ss ! i)" using columns_disjoint [OF assms(1) i(1)] xs by blast
  qed
qed

lemma store_rows_ok:
  assumes "length ms = length ss" "length ls = length ss" "list_all (cells_fit ss) css" "pos + length css \<le> n"
    and "n * length ss = length rows" "length rows < 2 ^ 32" "n < 2 ^ 32"
    and "length mem = sum_list ss * n" "\<And>j. c j \<le> pos"
  shows "\<exists>rows' mem'. store_rows (sum_list ss) n (length ss) pos ms ss ls (column_addrs ss c) css (rows, mem) = Some (rows', mem') \<and>
    length rows' = length rows \<and> length mem' = length mem \<and> (\<forall>k < pos * length ss. rows' ! k = rows ! k) \<and>
    (\<forall>r < length css. \<forall>j < length ss. cell_stored j (ms ! j) (ss ! j) mem' (rows' ! ((pos + r) * length ss + j)) (css ! r ! j)) \<and>
    (\<forall>x < length mem. (\<forall>j < length ss. \<forall>k \<ge> c j. x \<notin> slot (column_addr ss j k) (ss ! j)) \<longrightarrow> mem' ! x = mem ! x)"
  using assms
proof (induction css arbitrary: ls pos c rows mem)
  case (Cons cs css)
  have pn: "pos < n" and fit: "cells_fit ss cs" using Cons.prems(3,4) by simp_all
  have sp: "Suc pos * length ss \<le> length rows" using pn Cons.prems(5) by (metis Suc_leI mult_le_mono1)
  have cn: "c j < n" for j using Cons.prems(9) [of j] pn by simp
  have p32: "pos < 2 ^ 32" using pn Cons.prems(7) by simp
  from row_ok [where c = c, OF Cons.prems(1,2) fit sp Cons.prems(6) p32 Cons.prems(8) cn] obtain mem1 rows2 mem2 where
    f: "fetch_row (zip (column_addrs ss c) ss) cs mem = Some mem1"
    and s: "store_fields (sum_list ss) (length ss) pos 0 ms ss (fetch_lengths ls cs) (column_addrs ss c) cs (rows, mem1) =
      Some (column_addrs ss (next_counts cs c), rows2, mem2)"
    and l2: "length rows2 = length rows" "length mem2 = length mem"
    and r2: "\<forall>k < pos * length ss. rows2 ! k = rows ! k"
      "\<forall>j < length ss. rows2 ! (pos * length ss + j) = row_field j (fetch_lengths ls cs ! j) (column_addr ss j (c j)) (cs ! j)"
    and b2: "\<forall>j < length ss. \<forall>v. cs ! j = Some v \<longrightarrow> bytes_at mem2 (column_addr ss j (c j)) (cell_bytes (ms ! j) (ss ! j) v)"
    and m2: "\<forall>x < length mem. (\<forall>j < length ss. x \<notin> slot (column_addr ss j (c j)) (ss ! j)) \<longrightarrow> mem2 ! x = mem ! x"
    by blast
  have lc: "length cs = length ss" using fit by (simp add: cells_fit_def)
  have c': "next_counts cs c j \<le> Suc pos" for j using Cons.prems(9) [of j] by (simp add: next_counts_def)
  have "\<exists>rows' mem'. store_rows (sum_list ss) n (length ss) (Suc pos) ms ss (fetch_lengths ls cs) (column_addrs ss (next_counts cs c)) css (rows2, mem2) = Some (rows', mem') \<and>
    length rows' = length rows2 \<and> length mem' = length mem2 \<and> (\<forall>k < Suc pos * length ss. rows' ! k = rows2 ! k) \<and>
    (\<forall>r < length css. \<forall>j < length ss. cell_stored j (ms ! j) (ss ! j) mem' (rows' ! ((Suc pos + r) * length ss + j)) (css ! r ! j)) \<and>
    (\<forall>x < length mem2. (\<forall>j < length ss. \<forall>k \<ge> next_counts cs c j. x \<notin> slot (column_addr ss j k) (ss ! j)) \<longrightarrow> mem' ! x = mem2 ! x)"
    using Cons.prems(1-8) l2 lc c' by (intro Cons.IH) simp_all
  then obtain rows' mem' where
    i: "store_rows (sum_list ss) n (length ss) (Suc pos) ms ss (fetch_lengths ls cs) (column_addrs ss (next_counts cs c)) css (rows2, mem2) = Some (rows', mem')"
    and l': "length rows' = length rows" "length mem' = length mem"
    and r': "\<forall>k < Suc pos * length ss. rows' ! k = rows2 ! k"
    and s': "\<forall>r < length css. \<forall>j < length ss. cell_stored j (ms ! j) (ss ! j) mem' (rows' ! ((Suc pos + r) * length ss + j)) (css ! r ! j)"
    and m': "\<And>x. x < length mem2 \<Longrightarrow> (\<And>j k. j < length ss \<Longrightarrow> next_counts cs c j \<le> k \<Longrightarrow> x \<notin> slot (column_addr ss j k) (ss ! j)) \<Longrightarrow> mem' ! x = mem2 ! x"
    using l2 by auto
  have first: "cell_stored j (ms ! j) (ss ! j) mem' (rows' ! (pos * length ss + j)) (cs ! j)" if j: "j < length ss" for j
  proof -
    have "rows' ! (pos * length ss + j) = row_field j (fetch_lengths ls cs ! j) (column_addr ss j (c j)) (cs ! j)"
      using r' r2(2) j by simp
    moreover have "bytes_at mem' (column_addr ss j (c j)) (cell_bytes (ms ! j) (ss ! j) v)" if "cs ! j = Some v" for v
    proof (rule value_kept [where cs = cs and mem = mem2, OF j that _ _ _ m'])
      show "length v \<le> ss ! j" using fit j that by (simp add: cells_fit_def)
    qed (use b2 j that l2 l' in simp_all)
    moreover have "fetch_lengths ls cs ! j = length v" if "cs ! j = Some v" for v
      using fetch_lengths_nth [of ls cs j v] lc Cons.prems(2) j that by simp
    ultimately show ?thesis unfolding cell_stored_def by blast
  qed
  have "cell_stored j (ms ! j) (ss ! j) mem' (rows' ! ((pos + r) * length ss + j)) ((cs # css) ! r ! j)"
    if "r < length (cs # css)" "j < length ss" for r j
    using that first s' by (cases r) simp_all
  moreover have "store_rows (sum_list ss) n (length ss) pos ms ss ls (column_addrs ss c) (cs # css) (rows, mem) = Some (rows', mem')"
    using f s i pn by simp
  moreover have "\<forall>k < pos * length ss. rows' ! k = rows ! k" using r' r2(1) by simp
  moreover have "mem' ! x = mem ! x" if x: "x < length mem" "\<forall>j < length ss. \<forall>k \<ge> c j. x \<notin> slot (column_addr ss j k) (ss ! j)" for x
  proof -
    have "mem' ! x = mem2 ! x" using x l2(2) by (intro m') (auto simp: next_counts_def split: if_splits)
    then show ?thesis using m2 x by auto
  qed
  ultimately show ?case using l' by blast
qed simp


section \<open>Reading back\<close>

text \<open>The result set after \<open>r\<close> calls of \<open>NextRow\<close>.\<close>

definition seek :: "nat \<Rightarrow> PreparedResultSet \<Rightarrow> PreparedResultSet" where
  "seek r res = ((\<lambda>q. snd (PreparedResultSet_NextRow q)) ^^ r) res"

lemma seek_position: "seek r res = res\<lparr>pr_rowPosition := pr_rowPosition res + r\<rparr>"
  by (induction r) (simp_all add: seek_def PreparedResultSet_NextRow_def Let_def)

lemma read_bytes_at: "bytes_at mem a bs \<Longrightarrow> read_bytes mem a (length bs) = Some bs"
  by (rule read_bytes_ok) (simp_all add: bytes_at_def)

lemma bytes_at_append: "bytes_at mem a (bs @ cs) \<Longrightarrow> bytes_at mem a bs"
  by (auto simp: bytes_at_def nth_append split: if_splits)

lemma bytes_at_value: "bytes_at mem a (cell_bytes m s v) \<Longrightarrow> bytes_at mem a v"
  by (auto simp: cell_bytes_def dest: bytes_at_append split: if_splits)

lemma bytes_at_Cons:
  assumes "bytes_at mem a (b # bs)"
  shows "a < length mem" "drop a mem = Some b # drop (Suc a) mem" "bytes_at mem (Suc a) bs"
proof -
  show l: "a < length mem" using assms by (simp add: bytes_at_def)
  have "mem ! a = Some b" using assms by (auto simp: bytes_at_def)
  then show "drop a mem = Some b # drop (Suc a) mem" using l by (metis Cons_nth_drop_Suc)
  show "bytes_at mem (Suc a) bs" using assms by (auto simp: bytes_at_def)
qed

lemma c_string_at: "bytes_at mem a (v @ [0]) \<Longrightarrow> 0 \<notin> set v \<Longrightarrow> c_string (drop a mem) = Some v"
proof (induction v arbitrary: a)
  case Nil
  then show ?case using bytes_at_Cons(2) [of mem a 0 "[]"] by simp
next
  case (Cons b v)
  then have "bytes_at mem a (b # (v @ [0]))" by simp
  from bytes_at_Cons [OF this] show ?case using Cons by auto
qed

lemma integer_back:
  assumes "read_bytes mem a n = Some (le_bytes n (unat (w :: 'a::len word)))" "256 ^ n = (2 :: nat) ^ LENGTH('a)"
  shows "get_integer n parse mem \<lparr>fd_value = Some a, fd_length = l, fd_raw = True, fd_meta = i\<rparr> = Some w"
  using assms by (simp add: get_integer_def text_or_raw_def le_value_le_bytes)

lemmas integer_getters = GetUInt8_def GetInt8_def GetUInt16_def GetInt16_def GetUInt32_def GetInt32_def GetUInt64_def GetInt64_def


text \<open>What the getters return for a cell.\<close>

definition cell_read :: "nat \<Rightarrow> MySQLField \<Rightarrow> QueryResultFieldMetadata list \<Rightarrow> memory \<Rightarrow> Field \<Rightarrow> cell \<Rightarrow> bool" where
  "cell_read s m metas mem f c \<longleftrightarrow>
     IsNull f = (c = None) \<and> IsType metas (MysqlTypeToFieldType (mf_type m)) f = Some True \<and>
     (\<forall>v. c = Some v \<longrightarrow> GetBinary mem f = Some v \<and> GetString mem f = Some v \<and>
        (is_text (mf_type m) \<and> length v < s \<and> 0 \<notin> set v \<longrightarrow> GetCString mem f = Some v)) \<and>
     (\<forall>w. c = Some (le_bytes 1 (unat w)) \<longrightarrow> GetUInt8 mem f = Some w \<and> GetInt8 mem f = Some w) \<and>
     (\<forall>w. c = Some (le_bytes 2 (unat w)) \<longrightarrow> GetUInt16 mem f = Some w \<and> GetInt16 mem f = Some w) \<and>
     (\<forall>w. c = Some (le_bytes 4 (unat w)) \<longrightarrow> GetUInt32 mem f = Some w \<and> GetInt32 mem f = Some w) \<and>
     (\<forall>w. c = Some (le_bytes 8 (unat w)) \<longrightarrow> GetUInt64 mem f = Some w \<and> GetInt64 mem f = Some w)"

lemma stored_integer:
  assumes "cell_stored j m s mem f (Some (le_bytes n (unat (w :: 'a::len word))))" "256 ^ n = (2 :: nat) ^ LENGTH('a)"
  shows "get_integer n parse mem f = Some w"
proof -
  obtain l a where f: "f = row_field j l a (Some (le_bytes n (unat w)))" and "bytes_at mem a (le_bytes n (unat w))"
    using assms(1) by (auto simp: cell_stored_def dest: bytes_at_value)
  then have "read_bytes mem a n = Some (le_bytes n (unat w))" using read_bytes_at by fastforce
  from integer_back [OF this assms(2)] show ?thesis by (simp add: f row_field_def)
qed

lemma stored_value:
  assumes "cell_stored j m s mem f (Some v)" "length v < 2 ^ 32"
  shows "GetBinary mem f = Some v \<and> GetString mem f = Some v \<and>
    (is_text (mf_type m) \<and> length v < s \<and> 0 \<notin> set v \<longrightarrow> GetCString mem f = Some v)"
proof -
  obtain a where f: "f = row_field j (length v) a (Some v)" and b: "bytes_at mem a (cell_bytes m s v)"
    using assms(1) by (auto simp: cell_stored_def)
  have "read_bytes mem a (length v) = Some v" by (rule read_bytes_at [OF bytes_at_value [OF b]])
  moreover have "unat (of_nat (length v) :: u32) = length v" using assms(2) by (simp add: unat_of_nat)
  moreover have "(of_nat (length v) :: u32) = 0 \<Longrightarrow> v = []" using calculation(2) by auto
  moreover have "a \<le> length mem" using b by (simp add: bytes_at_def)
  moreover have "c_string (drop a mem) = Some v" if "is_text (mf_type m)" "length v < s" "0 \<notin> set v"
    using c_string_at [of mem a v] b that by (simp add: cell_bytes_def)
  ultimately show ?thesis by (auto simp: f row_field_def GetBinary_def GetString_def GetCString_def)
qed

lemma stored_read:
  assumes "cell_stored j m s mem f c" "case c of None \<Rightarrow> True | Some v \<Rightarrow> length v < 2 ^ 32"
    and "j < length metas" "md_Type (metas ! j) = MysqlTypeToFieldType (mf_type m)"
  shows "cell_read s m metas mem f c"
proof -
  obtain l a where "f = row_field j l a c" using assms(1) by (auto simp: cell_stored_def)
  then have "IsNull f = (c = None)" "IsType metas (MysqlTypeToFieldType (mf_type m)) f = Some True"
    using assms(3,4) by (auto simp: IsNull_def IsType_def row_field_def)
  moreover have "GetBinary mem f = Some v \<and> GetString mem f = Some v \<and>
      (is_text (mf_type m) \<and> length v < s \<and> 0 \<notin> set v \<longrightarrow> GetCString mem f = Some v)" if "c = Some v" for v
    using assms(1,2) unfolding that by (intro stored_value) simp_all
  moreover have "get_integer 1 parse mem f = Some w" if "c = Some (le_bytes 1 (unat w))" for w :: "8 word" and parse
    using assms(1) unfolding that by (rule stored_integer) simp
  moreover have "get_integer 2 parse mem f = Some w" if "c = Some (le_bytes 2 (unat w))" for w :: "16 word" and parse
    using assms(1) unfolding that by (rule stored_integer) simp
  moreover have "get_integer 4 parse mem f = Some w" if "c = Some (le_bytes 4 (unat w))" for w :: "32 word" and parse
    using assms(1) unfolding that by (rule stored_integer) simp
  moreover have "get_integer 8 parse mem f = Some w" if "c = Some (le_bytes 8 (unat w))" for w :: "64 word" and parse
    using assms(1) unfolding that by (rule stored_integer) simp
  ultimately show ?thesis unfolding cell_read_def integer_getters by (intro conjI allI impI) simp_all
qed

lemma cells_fit_rec: "cells_fit ss cs \<longleftrightarrow> list_all2 (\<lambda>s c. case c of None \<Rightarrow> True | Some v \<Rightarrow> length v \<le> s) ss cs"
  by (auto simp: cells_fit_def list_all2_conv_all_nth split: option.splits)


text \<open>The whole constructor, when the calls of the client library succeed.\<close>

lemma constructor_ok:
  fixes ts ms css
  defines "ss \<equiv> map (SizeForType ts) ms"
  assumes "ms \<noteq> []" "sum_list ss < 2 ^ 32" "length css * length ms < 2 ^ 32" "list_all (cells_fit ss) css"
  shows "\<exists>rows mem. PreparedResultSet_ctor ts True ms rc True (length css) True css =
      Some \<lparr>pr_rowCount = length css, pr_rowPosition = 0, pr_fieldCount = length ms,
        pr_fieldMetadata = map2 InitializeDatabaseFieldMetadata ms [0..<length ms], pr_rows = rows, pr_memory = mem,
        pr_rBind = HLive, pr_metadata = HLive\<rparr> \<and> length rows = length css * length ms \<and>
    (\<forall>r < length css. \<forall>j < length ms. cell_stored j (ms ! j) (ss ! j) mem (rows ! (r * length ms + j)) (css ! r ! j))"
proof -
  let ?n = "length css"
  have ls: "length ms = length ss" by (simp add: ss_def)
  have "?n * 1 \<le> ?n * length ms" using assms(2) by (intro mult_le_mono2) (simp add: Suc_le_eq)
  then have n: "?n < 2 ^ 32" using assms(4) by linarith
  have "sum_list ss * ?n \<le> (2 ^ 32 - 1) * (2 ^ 32 - 1)" using assms(3) n by (intro mult_le_mono) linarith+
  then have R: "sum_list ss * ?n mod 2 ^ 64 = sum_list ss * ?n" by simp
  have k: "?n mod 2 ^ 32 * length ms mod 2 ^ 32 = ?n * length ms" using n assms(4) by simp
  have "\<exists>rows' mem'. store_rows (sum_list ss) ?n (length ss) 0 ms ss (replicate (length ms) 0) (column_addrs ss (\<lambda>_. 0)) css
      (replicate (?n * length ms) Field_ctor, replicate (sum_list ss * ?n) None) = Some (rows', mem') \<and>
    length rows' = length (replicate (?n * length ms) Field_ctor) \<and> length mem' = length (replicate (sum_list ss * ?n) (None :: u8 option)) \<and>
    (\<forall>k < 0 * length ss. rows' ! k = replicate (?n * length ms) Field_ctor ! k) \<and>
    (\<forall>r < length css. \<forall>j < length ss. cell_stored j (ms ! j) (ss ! j) mem' (rows' ! ((0 + r) * length ss + j)) (css ! r ! j)) \<and>
    (\<forall>x < length (replicate (sum_list ss * ?n) (None :: u8 option)).
       (\<forall>j < length ss. \<forall>k \<ge> 0. x \<notin> slot (column_addr ss j k) (ss ! j)) \<longrightarrow> mem' ! x = replicate (sum_list ss * ?n) None ! x)"
    using assms(4,5) n ls by (intro store_rows_ok) simp_all
  then obtain rows mem where *: "store_rows (sum_list ss) ?n (length ss) 0 ms ss (replicate (length ms) 0) (column_offsets 0 ss) css
      (replicate (?n * length ms) Field_ctor, replicate (sum_list ss * ?n) None) = Some (rows, mem)" "length rows = ?n * length ms"
    "\<forall>r < length css. \<forall>j < length ms. cell_stored j (ms ! j) (ss ! j) mem (rows ! (r * length ms + j)) (css ! r ! j)"
    unfolding column_offsets_addrs [OF assms(3)] ls by auto
  then show ?thesis
    by (intro exI [of _ rows] exI [of _ mem])
      (simp add: PreparedResultSet_ctor_def ss_def [symmetric] Let_def ls [symmetric] R [simplified] k [simplified])
qed

text \<open>
  C36: every value of a prepared result is read back unchanged: after the constructor, \<open>NextRow\<close> visits all rows, and
  each field is null exactly when the cell is, has the type of its column, and gives the bytes of the cell by
  \<open>GetBinary\<close> and \<open>GetString\<close>, a text without zeros by \<open>GetCString\<close>, and an integer by the getters of its
  width; no access leaves the array, and the destructor succeeds. A row must be smaller than 4 GiB, the number of
  fields less than $2^{32}$.
\<close>

theorem PreparedResultSet_reads_back:
  assumes "ms \<noteq> []" "sum_list (map (SizeForType ts) ms) < 2 ^ 32" "length css * length ms < 2 ^ 32"
    and "list_all (cells_fit (map (SizeForType ts) ms)) css"
  shows "\<exists>res. PreparedResultSet_ctor ts True ms rc True (length css) True css = Some res \<and>
    (\<forall>r < length css. fst (PreparedResultSet_NextRow (seek r res)) = (r + 1 < length css) \<and>
       (\<forall>j < length ms. \<exists>f. PreparedResultSet_get j (seek r res) = Some f \<and>
          cell_read (SizeForType ts (ms ! j)) (ms ! j) (pr_fieldMetadata res) (pr_memory res) f (css ! r ! j))) \<and>
    PreparedResultSet_CleanUp res \<noteq> None"
proof -
  obtain rows mem where c: "PreparedResultSet_ctor ts True ms rc True (length css) True css =
      Some \<lparr>pr_rowCount = length css, pr_rowPosition = 0, pr_fieldCount = length ms,
        pr_fieldMetadata = map2 InitializeDatabaseFieldMetadata ms [0..<length ms], pr_rows = rows, pr_memory = mem,
        pr_rBind = HLive, pr_metadata = HLive\<rparr>" "length rows = length css * length ms"
    and s: "\<And>r j. r < length css \<Longrightarrow> j < length ms \<Longrightarrow>
      cell_stored j (ms ! j) (SizeForType ts (ms ! j)) mem (rows ! (r * length ms + j)) (css ! r ! j)"
    using constructor_ok [OF assms, of rc] by auto
  let ?metas = "map2 InitializeDatabaseFieldMetadata ms [0..<length ms]"
  have "cell_read (SizeForType ts (ms ! j)) (ms ! j) ?metas mem (rows ! (r * length ms + j)) (css ! r ! j)"
    if "r < length css" "j < length ms" for r j
  proof (rule stored_read [OF s [OF that]])
    have "SizeForType ts (ms ! j) \<le> sum_list (map (SizeForType ts) ms)" using that by (intro member_le_sum_list) simp_all
    moreover have "cells_fit (map (SizeForType ts) ms) (css ! r)" using assms(4) that by (simp add: list_all_length)
    ultimately show "case css ! r ! j of None \<Rightarrow> True | Some v \<Rightarrow> length v < 2 ^ 32"
      using assms(2) that by (fastforce simp: cells_fit_def split: option.splits)
  qed (use that in \<open>simp_all add: InitializeDatabaseFieldMetadata_def\<close>)
  moreover have "r * length ms + j < length css * length ms" "r * length ms mod 2 ^ 32 = r * length ms" "r mod 2 ^ 32 = r"
    if "r < length css" "j < length ms" for r j
  proof -
    have "Suc r * length ms \<le> length css * length ms" using that by (intro mult_le_mono1) simp
    moreover have "r \<le> r * length ms" using that by (cases "length ms") simp_all
    then have "r < 2 ^ 32" using calculation that assms(3) unfolding mult_Suc by linarith
    ultimately show "r * length ms + j < length css * length ms" "r * length ms mod 2 ^ 32 = r * length ms" "r mod 2 ^ 32 = r"
      using that assms(3) by simp_all
  qed
  ultimately show ?thesis unfolding c(1)
    by (auto simp: seek_position PreparedResultSet_get_def PreparedResultSet_NextRow_def PreparedResultSet_CleanUp_def c(2) Let_def)
qed


definition ex_fields :: "MySQLField list" where
  "ex_fields =
     [\<lparr>mf_name = ''id'', mf_org_name = ''id'', mf_table = ''t'', mf_org_table = ''t'', mf_type = MYSQL_TYPE_SHORT, mf_max_length = 2, mf_unsigned = True\<rparr>,
      \<lparr>mf_name = ''s'', mf_org_name = ''s'', mf_table = ''t'', mf_org_table = ''t'', mf_type = MYSQL_TYPE_VAR_STRING, mf_max_length = 3, mf_unsigned = False\<rparr>]"

definition ex_cells :: "cell list list" where
  "ex_cells = [[Some [5, 1], Some [97, 98]], [None, Some [99]], [Some [7, 0], Some []]]"

theorem PreparedResultSet_reads_back_witness:
  "\<exists>res. PreparedResultSet_ctor 40 True ex_fields 0 True 3 True ex_cells = Some res \<and>
    (\<forall>r < 3. fst (PreparedResultSet_NextRow (seek r res)) = (r + 1 < 3) \<and>
       (\<forall>j < 2. \<exists>f. PreparedResultSet_get j (seek r res) = Some f \<and>
          cell_read (SizeForType 40 (ex_fields ! j)) (ex_fields ! j) (pr_fieldMetadata res) (pr_memory res) f (ex_cells ! r ! j))) \<and>
    PreparedResultSet_CleanUp res \<noteq> None"
proof -
  have ne: "ex_fields \<noteq> []" by (simp add: ex_fields_def)
  have l: "length ex_fields = 2" "length ex_cells = 3" by (simp_all add: ex_fields_def ex_cells_def)
  have s: "map (SizeForType 40) ex_fields = [2, 4]" by (simp add: ex_fields_def SizeForType_def)
  have c: "list_all (cells_fit (map (SizeForType 40) ex_fields)) ex_cells"
    unfolding s ex_cells_def by (simp add: cells_fit_rec)
  show ?thesis
    using PreparedResultSet_reads_back [of ex_fields 40 ex_cells 0, OF ne _ _ c] by (simp add: l s)
qed

section \<open>Error paths\<close>

text \<open>
  After \<open>mysql_stmt_store_result\<close> failed, \<open>m_rBind\<close> is deleted but not cleared, and the destructor reads and
  deletes it again; after \<open>mysql_stmt_bind_result\<close> failed, the metadata is freed by the constructor and again by
  the destructor.
\<close>

lemma failed_store_result:
  "\<exists>r. PreparedResultSet_ctor ts True ms rc False n b css = Some r \<and> PreparedResultSet_CleanUp r = None"
  by (simp add: PreparedResultSet_ctor_def PreparedResultSet_CleanUp_def Let_def)

lemma failed_bind_result:
  "\<exists>r. PreparedResultSet_ctor ts True ms rc True n False css = Some r \<and> PreparedResultSet_CleanUp r = None"
  by (simp add: PreparedResultSet_ctor_def PreparedResultSet_CleanUp_def Let_def)

text \<open>
  The number of fields is computed with 32 bits: with $2^{16}$ rows of $2^{16}$ columns there is no element for
  the first cell.
\<close>

lemma too_many_fields:
  assumes "length ms = 2 ^ 16" "css \<noteq> []" "cells_fit (map (SizeForType ts) ms) (hd css)"
  shows "PreparedResultSet_ctor ts True ms rc True (2 ^ 16) True css = None"
proof -
  obtain m ms' where ms: "ms = m # ms'" using assms(1) by (cases ms) auto
  obtain ds dss where css: "css = ds # dss" using assms(2) by (cases css) auto
  obtain d ds' where ds: "ds = d # ds'" using assms(3) by (cases ds) (auto simp: css ms cells_fit_def)
  have "store_fields R fc 0 0 ms (map (SizeForType ts) ms) ls as ds ([], mem) = None"
    if "ls \<noteq> []" "as \<noteq> []" for R fc ls as mem
    using that by (cases ls; cases as) (simp_all add: ms ds Let_def)
  moreover have "fetch_lengths (replicate 65536 0) ds \<noteq> []"
  proof -
    have "length (fetch_lengths (replicate 65536 0) ds) > 0" by (simp add: ds)
    then show ?thesis by force
  qed
  ultimately show ?thesis using assms(1)
    by (simp add: PreparedResultSet_ctor_def Let_def css ms bind_eq_None_conv split: Option.bind_splits)
qed

section \<open>Queries\<close>

text \<open>
  \<open>NextRow\<close> fills the fields of the current row; behind the last row it frees them, so that the operator \<open>[]\<close>
  no longer has a field to return.
\<close>

lemma ResultSet_rows:
  assumes "list_all (\<lambda>row. length row = length ms) (row # rows)" "rs_result r = Some (row # rows)" "rs_fieldCount r = length ms"
    and "rs_currentRow r = Some fs" "length fs = length ms" "j < length ms"
  shows "\<exists>r' f. ResultSet_NextRow True r = Some (True, r') \<and> rs_result r' = Some rows \<and> rs_fieldCount r' = length ms \<and>
    map_option length (rs_currentRow r') = Some (length ms) \<and>
    ResultSet_get j r' = Some f \<and> fd_value f = fst (row ! j) \<and> fd_length f = of_nat (snd (row ! j)) \<and> \<not> fd_raw f"
  using assms by (simp add: ResultSet_NextRow_def ResultSet_get_def SetStructuredValue_def split: prod.splits)

lemma ResultSet_end:
  "rs_result r = Some [] \<Longrightarrow> ResultSet_NextRow b r = Some (False, ResultSet_CleanUp r) \<and> ResultSet_get j (ResultSet_CleanUp r) = None"
  by (simp add: ResultSet_NextRow_def ResultSet_get_def ResultSet_CleanUp_def)

end
