(* ===== verification/DbLoader.thy ===== *)
theory DbLoader
  imports DbResult
begin

text \<open>
  Start-up of the databases in \<^verbatim>\<open>mysql-conn-pool/dbimpl\<close>: the connections of a pool and the sizes of its prepared
  statements (\<^verbatim>\<open>DatabaseWorkerPool.cpp\<close>), the loader that opens and prepares all pools and closes them after an error
  (\<^verbatim>\<open>DatabaseLoader.cpp\<close>), and the holder of several queries (\<^verbatim>\<open>QueryHolder.cpp\<close>) with the task for a query in text
  (\<^verbatim>\<open>AdhocStatement.cpp\<close>). Connections are numbered in the order of their creation; what the server answers them is
  an argument. \<open>wp_shutdown\<close> tells whether a worker thread of the pool was destroyed, which cancels the queue that
  all of them use. \<open>None\<close> stands for a failed assertion or an access out of range.
\<close>

section \<open>Pools\<close>

record server =
  sv_open :: "nat \<Rightarrow> u32"
  sv_version :: "nat \<Rightarrow> u32"
  sv_prepare :: "nat \<Rightarrow> u32 option list option"

datatype InternalIndex = IDX_ASYNC | IDX_SYNCH

record worker_pool =
  wp_connectionInfo :: "string option"
  wp_async_threads :: u8
  wp_synch_threads :: u8
  wp_async :: "nat list"
  wp_synch :: "nat list"
  wp_preparedStatementSize :: "u8 list"
  wp_shutdown :: bool
  wp_created :: nat

definition MIN_MYSQL_SERVER_VERSION :: u32 where
  "MIN_MYSQL_SERVER_VERSION = 50700"

definition DatabaseWorkerPool_ctor :: worker_pool where
  "DatabaseWorkerPool_ctor = \<lparr>wp_connectionInfo = None, wp_async_threads = 0, wp_synch_threads = 0, wp_async = [], wp_synch = [],
     wp_preparedStatementSize = [], wp_shutdown = False, wp_created = 0\<rparr>"

definition SetConnectionInfo :: "string \<Rightarrow> u8 \<Rightarrow> u8 \<Rightarrow> worker_pool \<Rightarrow> worker_pool" where
  "SetConnectionInfo infoString asyncThreads synchThreads p =
     p\<lparr>wp_connectionInfo := Some infoString, wp_async_threads := asyncThreads, wp_synch_threads := synchThreads\<rparr>"

text \<open>\<open>clear\<close> of one of the vectors; the destructor of an asynchronous connection destroys its worker.\<close>

definition clear_connections :: "InternalIndex \<Rightarrow> worker_pool \<Rightarrow> worker_pool" where
  "clear_connections type p =
     (case type of
        IDX_ASYNC \<Rightarrow> p\<lparr>wp_async := [], wp_shutdown := wp_shutdown p \<or> wp_async p \<noteq> []\<rparr>
      | IDX_SYNCH \<Rightarrow> p\<lparr>wp_synch := []\<rparr>)"

definition drop_connection :: "InternalIndex \<Rightarrow> worker_pool \<Rightarrow> worker_pool" where
  "drop_connection type p = (case type of IDX_ASYNC \<Rightarrow> p\<lparr>wp_shutdown := True\<rparr> | IDX_SYNCH \<Rightarrow> p)"

definition push_connection :: "InternalIndex \<Rightarrow> nat \<Rightarrow> worker_pool \<Rightarrow> worker_pool" where
  "push_connection type c p =
     (case type of IDX_ASYNC \<Rightarrow> p\<lparr>wp_async := wp_async p @ [c]\<rparr> | IDX_SYNCH \<Rightarrow> p\<lparr>wp_synch := wp_synch p @ [c]\<rparr>)"

fun open_loop :: "server \<Rightarrow> InternalIndex \<Rightarrow> nat \<Rightarrow> worker_pool \<Rightarrow> u32 \<times> worker_pool" where
  "open_loop sv type 0 p = (0, p)"
| "open_loop sv type (Suc n) p =
     (let c = wp_created p; p = p\<lparr>wp_created := Suc c\<rparr> in
      if sv_open sv c \<noteq> 0 then (sv_open sv c, drop_connection type (clear_connections type p))
      else if sv_version sv c < MIN_MYSQL_SERVER_VERSION then (1, drop_connection type p)
      else open_loop sv type n (push_connection type c p))"

definition OpenConnections :: "server \<Rightarrow> InternalIndex \<Rightarrow> u8 \<Rightarrow> worker_pool \<Rightarrow> u32 \<times> worker_pool" where
  "OpenConnections sv type numConnections p = open_loop sv type (unat numConnections) p"

definition DatabaseWorkerPool_Open :: "server \<Rightarrow> worker_pool \<Rightarrow> (u32 \<times> worker_pool) option" where
  "DatabaseWorkerPool_Open sv p =
     (if wp_connectionInfo p = None then None
      else let (error, p) = OpenConnections sv IDX_ASYNC (wp_async_threads p) p in
        if error \<noteq> 0 then Some (error, p) else Some (OpenConnections sv IDX_SYNCH (wp_synch_threads p) p))"

definition DatabaseWorkerPool_Close :: "worker_pool \<Rightarrow> worker_pool" where
  "DatabaseWorkerPool_Close p = clear_connections IDX_SYNCH (clear_connections IDX_ASYNC p)"

text \<open>The sizes of the statements of one connection: those that are greater than 0 are kept.\<close>

fun set_sizes :: "u32 option list \<Rightarrow> u8 list \<Rightarrow> u8 list option" where
  "set_sizes [] sizes = Some sizes"
| "set_sizes (st # stmts) [] = None"
| "set_sizes (st # stmts) (z # sizes) =
     do { z' \<leftarrow> (if z > 0 then Some z
                 else case st of
                        None \<Rightarrow> Some z
                      | Some n \<Rightarrow> if n < 255 then Some (of_nat (unat n)) else None);
          sizes \<leftarrow> set_sizes stmts sizes;
          Some (z' # sizes) }"

definition grow :: "nat \<Rightarrow> u8 list \<Rightarrow> u8 list" where
  "grow n sizes = (if length sizes < n then sizes @ replicate (n - length sizes) 0 else sizes)"

fun prepare_loop :: "server \<Rightarrow> nat list \<Rightarrow> worker_pool \<Rightarrow> (bool \<times> worker_pool) option" where
  "prepare_loop sv [] p = Some (True, p)"
| "prepare_loop sv (c # cs) p =
     (case sv_prepare sv c of
        None \<Rightarrow> Some (False, DatabaseWorkerPool_Close p)
      | Some stmts \<Rightarrow>
          do { sizes \<leftarrow> set_sizes stmts (grow (length stmts) (wp_preparedStatementSize p));
               prepare_loop sv cs (p\<lparr>wp_preparedStatementSize := sizes\<rparr>) })"

definition DatabaseWorkerPool_PrepareStatements :: "server \<Rightarrow> worker_pool \<Rightarrow> (bool \<times> worker_pool) option" where
  "DatabaseWorkerPool_PrepareStatements sv p = prepare_loop sv (wp_async p @ wp_synch p) p"

definition GetPreparedStatement :: "u32 \<Rightarrow> worker_pool \<Rightarrow> PreparedStatementBase option" where
  "GetPreparedStatement index p =
     (if unat index < length (wp_preparedStatementSize p)
      then Some (PreparedStatementBase_ctor index (wp_preparedStatementSize p ! unat index)) else None)"

section \<open>The loader\<close>

record database =
  db_pool :: nat
  db_string :: string
  db_async :: u8
  db_synch :: u8

record loader =
  ld_pools :: "worker_pool list"
  ld_open :: "database list"
  ld_prepare :: "nat list"
  ld_close :: "nat list"

definition DatabaseLoader_ctor :: "worker_pool list \<Rightarrow> loader" where
  "DatabaseLoader_ctor pools = \<lparr>ld_pools = pools, ld_open = [], ld_prepare = [], ld_close = []\<rparr>"

definition AddDatabase :: "database \<Rightarrow> loader \<Rightarrow> loader" where
  "AddDatabase db l = l\<lparr>ld_open := ld_open l @ [db], ld_prepare := ld_prepare l @ [db_pool db]\<rparr>"

text \<open>The functions that \<open>AddDatabase\<close> puts in the queues; a server answers the connections of each pool.\<close>

definition open_database :: "(nat \<Rightarrow> server) \<Rightarrow> database \<Rightarrow> loader \<Rightarrow> (bool \<times> loader) option" where
  "open_database svs db l =
     do { p \<leftarrow> aget (map Some (ld_pools l)) (db_pool db);
          (error, p) \<leftarrow> DatabaseWorkerPool_Open (svs (db_pool db)) (SetConnectionInfo (db_string db) (db_async db) (db_synch db) p);
          let l = l\<lparr>ld_pools := (ld_pools l)[db_pool db := p]\<rparr> in
          if error \<noteq> 0 then Some (False, l) else Some (True, l\<lparr>ld_close := db_pool db # ld_close l\<rparr>) }"

definition prepare_database :: "(nat \<Rightarrow> server) \<Rightarrow> nat \<Rightarrow> loader \<Rightarrow> (bool \<times> loader) option" where
  "prepare_database svs i l =
     do { p \<leftarrow> aget (map Some (ld_pools l)) i;
          (ok, p) \<leftarrow> DatabaseWorkerPool_PrepareStatements (svs i) p;
          Some (ok, l\<lparr>ld_pools := (ld_pools l)[i := p]\<rparr>) }"

text \<open>The loop over the stack of close operations, the top first.\<close>

fun close_loop :: "nat list \<Rightarrow> worker_pool list \<Rightarrow> worker_pool list" where
  "close_loop [] pools = pools"
| "close_loop (i # is) pools = close_loop is (pools[i := DatabaseWorkerPool_Close (pools ! i)])"

definition close_all :: "loader \<Rightarrow> loader" where
  "close_all l = l\<lparr>ld_pools := close_loop (ld_close l) (ld_pools l), ld_close := []\<rparr>"

text \<open>\<open>Process\<close> on the queue \<open>xs\<close> of calls of \<open>f\<close>: the result, what is left of the queue and the state.\<close>

fun Process :: "('a \<Rightarrow> loader \<Rightarrow> (bool \<times> loader) option) \<Rightarrow> 'a list \<Rightarrow> loader \<Rightarrow> (bool \<times> 'a list \<times> loader) option" where
  "Process f [] l = Some (True, [], l)"
| "Process f (x # xs) l = do { (ok, l) \<leftarrow> f x l; if ok then Process f xs l else Some (False, x # xs, close_all l) }"

definition OpenDatabases :: "(nat \<Rightarrow> server) \<Rightarrow> loader \<Rightarrow> (bool \<times> loader) option" where
  "OpenDatabases svs l = do { (ok, q, l) \<leftarrow> Process (open_database svs) (ld_open l) l; Some (ok, l\<lparr>ld_open := q\<rparr>) }"

definition PrepareStatements_all :: "(nat \<Rightarrow> server) \<Rightarrow> loader \<Rightarrow> (bool \<times> loader) option" where
  "PrepareStatements_all svs l = do { (ok, q, l) \<leftarrow> Process (prepare_database svs) (ld_prepare l) l; Some (ok, l\<lparr>ld_prepare := q\<rparr>) }"

definition Load :: "(nat \<Rightarrow> server) \<Rightarrow> loader \<Rightarrow> (bool \<times> loader) option" where
  "Load svs l =
     do { (ok, l) \<leftarrow> OpenDatabases svs l;
          if \<not> ok then Some (False, l)
          else do { (ok, l) \<leftarrow> PrepareStatements_all svs l; if \<not> ok then Some (False, l) else Some (True, l) } }"

section \<open>Query holders and queries in text\<close>

type_synonym query_holder = "(PreparedStatementBase option \<times> PreparedResultSet option) list"

definition SetPreparedQueryImpl :: "nat \<Rightarrow> PreparedStatementBase \<Rightarrow> query_holder \<Rightarrow> bool \<times> query_holder" where
  "SetPreparedQueryImpl index stmt h =
     (if length h \<le> index then (False, h) else (True, h[index := (Some stmt, snd (h ! index))]))"

definition GetPreparedResult :: "nat \<Rightarrow> query_holder \<Rightarrow> PreparedResultSet option option" where
  "GetPreparedResult index h = (if index < length h then Some (snd (h ! index)) else None)"

definition SetPreparedResult :: "nat \<Rightarrow> PreparedResultSet option \<Rightarrow> query_holder \<Rightarrow> query_holder" where
  "SetPreparedResult index result h =
     (let result = (case result of Some r \<Rightarrow> if pr_rowCount r = 0 then None else Some r | None \<Rightarrow> None) in
      if index < length h then h[index := (fst (h ! index), result)] else h)"

definition holder_SetSize :: "nat \<Rightarrow> query_holder \<Rightarrow> query_holder" where
  "holder_SetSize n h = take n h @ replicate (n - length h) (None, None)"

text \<open>The loop of \<open>SQLQueryHolderTask::Execute\<close> from index \<open>i\<close> on; \<open>query\<close> is \<open>MySQLConnection::Query\<close>.\<close>

fun holder_loop :: "(PreparedStatementBase \<Rightarrow> PreparedResultSet option) \<Rightarrow> nat \<Rightarrow> nat \<Rightarrow> query_holder \<Rightarrow> query_holder" where
  "holder_loop query i 0 h = h"
| "holder_loop query i (Suc n) h =
     holder_loop query (Suc i) n (case fst (h ! i) of Some stmt \<Rightarrow> SetPreparedResult i (query stmt) h | None \<Rightarrow> h)"

definition SQLQueryHolderTask_Execute :: "(PreparedStatementBase \<Rightarrow> PreparedResultSet option) \<Rightarrow> query_holder \<Rightarrow> bool \<times> query_holder" where
  "SQLQueryHolderTask_Execute query h = (True, holder_loop query 0 (length h) h)"

record BasicStatementTask =
  bt_sql :: string
  bt_has_result :: bool
  bt_promise :: "ResultSet option option option"

definition BasicStatementTask_ctor :: "string \<Rightarrow> bool \<Rightarrow> BasicStatementTask" where
  "BasicStatementTask_ctor sql async = \<lparr>bt_sql = sql, bt_has_result = async, bt_promise = (if async then Some None else None)\<rparr>"

text \<open>The promise is set once: to the result on its first row, or to null when there is no row.\<close>

definition BasicStatementTask_Execute ::
  "(string \<Rightarrow> ResultSet option) \<Rightarrow> (string \<Rightarrow> bool) \<Rightarrow> bool \<Rightarrow> BasicStatementTask \<Rightarrow> (bool \<times> BasicStatementTask) option" where
  "BasicStatementTask_Execute query execute has_lengths t =
     (if bt_has_result t then
        do { (ok, result) \<leftarrow>
               (case query (bt_sql t) of
                  None \<Rightarrow> Some (False, None)
                | Some r \<Rightarrow>
                    if rs_rowCount r = 0 then Some (False, None)
                    else do { (more, r) \<leftarrow> ResultSet_NextRow has_lengths r; Some (if more then (True, Some r) else (False, None)) });
             if bt_promise t = Some None then Some (ok, t\<lparr>bt_promise := Some (Some result)\<rparr>) else None }
      else Some (execute (bt_sql t), t))"


section \<open>Opening and closing\<close>

definition pool_closed :: "worker_pool \<Rightarrow> bool" where
  "pool_closed p \<longleftrightarrow> wp_async p = [] \<and> wp_synch p = []"

lemma Close_closed [simp]: "pool_closed (DatabaseWorkerPool_Close p)"
  by (simp add: pool_closed_def DatabaseWorkerPool_Close_def clear_connections_def)

lemma Close_again [simp]: "DatabaseWorkerPool_Close (DatabaseWorkerPool_Close p) = DatabaseWorkerPool_Close p"
  by (simp add: DatabaseWorkerPool_Close_def clear_connections_def)

lemma open_loop_ok:
  "open_loop sv type n p = (0, p') \<Longrightarrow>
   length (wp_async p') = length (wp_async p) + (if type = IDX_ASYNC then n else 0) \<and>
   length (wp_synch p') = length (wp_synch p) + (if type = IDX_SYNCH then n else 0) \<and>
   wp_synch_threads p' = wp_synch_threads p \<and> wp_async_threads p' = wp_async_threads p"
proof (induction n arbitrary: p)
  case (Suc n)
  let ?c = "wp_created p"
  have "sv_open sv ?c = 0" "\<not> sv_version sv ?c < MIN_MYSQL_SERVER_VERSION" using Suc.prems by (auto simp: Let_def split: if_splits)
  then have "open_loop sv type n (push_connection type ?c (p\<lparr>wp_created := Suc ?c\<rparr>)) = (0, p')" using Suc.prems by (simp add: Let_def)
  from Suc.IH [OF this] show ?case by (cases type) (simp_all add: push_connection_def)
qed simp

lemma pool_Open_ok:
  assumes "DatabaseWorkerPool_Open sv p = Some (0, p')" "pool_closed p"
  shows "length (wp_async p') = unat (wp_async_threads p) \<and> length (wp_synch p') = unat (wp_synch_threads p)"
proof -
  obtain e p1 where 1: "open_loop sv IDX_ASYNC (unat (wp_async_threads p)) p = (e, p1)" by fastforce
  then have "e = 0" "open_loop sv IDX_SYNCH (unat (wp_synch_threads p1)) p1 = (0, p')"
    using assms(1) by (auto simp: DatabaseWorkerPool_Open_def OpenConnections_def split: if_splits)
  then show ?thesis using open_loop_ok [of sv IDX_ASYNC _ p p1] open_loop_ok [of sv IDX_SYNCH _ p1 p'] 1 assms(2)
    by (simp add: pool_closed_def)
qed

lemma close_loop_nth:
  "i < length pools \<Longrightarrow> close_loop is pools ! i = (if i \<in> set is then DatabaseWorkerPool_Close (pools ! i) else pools ! i)"
proof (induction "is" arbitrary: pools)
  case (Cons j js)
  then show ?case by (cases "i = j") simp_all
qed simp

lemma length_close_loop [simp]: "length (close_loop is pools) = length pools"
  by (induction "is" arbitrary: pools) simp_all

text \<open>Only the pools with a registered close operation are open, and those of \<open>dbs\<close> have their connections.\<close>

definition opened :: "database list \<Rightarrow> nat \<Rightarrow> loader \<Rightarrow> bool" where
  "opened dbs n l \<longleftrightarrow> length (ld_pools l) = n \<and> set (ld_close l) = db_pool ` set dbs \<and>
     (\<forall>i < n. i \<notin> set (ld_close l) \<longrightarrow> pool_closed (ld_pools l ! i)) \<and>
     (\<forall>db \<in> set dbs. length (wp_async (ld_pools l ! db_pool db)) = unat (db_async db) \<and>
        length (wp_synch (ld_pools l ! db_pool db)) = unat (db_synch db))"

lemma close_all_closed:
  assumes "opened dbs n l" "i < n"
  shows "pool_closed (ld_pools (close_all l) ! i)"
  using assms by (auto simp: close_all_def opened_def close_loop_nth)

lemma open_database_ok:
  assumes "opened dbs n l" "db_pool db < n" "db_pool db \<notin> db_pool ` set dbs" "open_database svs db l = Some (ok, l')"
  shows "if ok then opened (db # dbs) n l' else (\<forall>i < n. i \<noteq> db_pool db \<longrightarrow> pool_closed (ld_pools (close_all l') ! i)) \<and> length (ld_pools l') = n"
proof -
  let ?i = "db_pool db"
  let ?p = "SetConnectionInfo (db_string db) (db_async db) (db_synch db) (ld_pools l ! ?i)"
  obtain e p' where o: "DatabaseWorkerPool_Open (svs ?i) ?p = Some (e, p')" and
    l': "ok = (e = 0)" "l' = (if e = 0 then l\<lparr>ld_pools := (ld_pools l)[?i := p'], ld_close := ?i # ld_close l\<rparr> else l\<lparr>ld_pools := (ld_pools l)[?i := p']\<rparr>)"
    using assms(1,2,4) by (auto simp: open_database_def aget_def opened_def bind_eq_Some_conv Let_def split: if_splits)
  have c: "pool_closed ?p" using assms(1,2,3) by (simp add: opened_def pool_closed_def SetConnectionInfo_def)
  show ?thesis
  proof (cases "e = 0")
    case True
    then have "length (wp_async p') = unat (db_async db) \<and> length (wp_synch p') = unat (db_synch db)"
      using pool_Open_ok [OF _ c] o by (simp add: SetConnectionInfo_def)
    then show ?thesis using assms(1,2,3) l' True
      by (auto simp: opened_def nth_list_update)
  next
    case False
    then show ?thesis using assms(1) l' by (auto simp: opened_def close_all_def close_loop_nth nth_list_update)
  qed
qed

lemma Process_open:
  assumes "opened dbs n l" "distinct (map db_pool (dbs @ xs))" "\<forall>db \<in> set xs. db_pool db < n"
    and "Process (open_database svs) xs l = Some (ok, q, l')"
  shows "if ok then q = [] \<and> opened (rev xs @ dbs) n l'
    else q \<noteq> [] \<and> ld_close l' = [] \<and> length (ld_pools l') = n \<and> (\<forall>i < n. i \<noteq> db_pool (hd q) \<longrightarrow> pool_closed (ld_pools l' ! i))"
  using assms
proof (induction xs arbitrary: dbs l)
  case (Cons db xs)
  obtain k l1 where 1: "open_database svs db l = Some (k, l1)"
    "(if k then Process (open_database svs) xs l1 else Some (False, db # xs, close_all l1)) = Some (ok, q, l')"
    using Cons.prems(4) by (auto simp: bind_eq_Some_conv)
  have o: "if k then opened (db # dbs) n l1 else (\<forall>i < n. i \<noteq> db_pool db \<longrightarrow> pool_closed (ld_pools (close_all l1) ! i)) \<and> length (ld_pools l1) = n"
    using open_database_ok [OF Cons.prems(1) _ _ 1(1)] Cons.prems(2,3) by auto
  show ?case
  proof (cases k)
    case True
    then have "opened (db # dbs) n l1" "Process (open_database svs) xs l1 = Some (ok, q, l')" using o 1(2) by simp_all
    from Cons.IH [OF this(1) _ _ this(2)] show ?thesis using Cons.prems(2,3) by auto
  next
    case False
    then show ?thesis using o 1(2) by (auto simp: close_all_def)
  qed
qed simp


section \<open>Preparing\<close>

lemma prepare_loop_connections:
  "prepare_loop sv cs p = Some (ok, p') \<Longrightarrow> if ok then wp_async p' = wp_async p \<and> wp_synch p' = wp_synch p else pool_closed p'"
proof (induction cs arbitrary: p)
  case (Cons c cs)
  show ?case
  proof (cases "sv_prepare sv c")
    case (Some stmts)
    then obtain sizes where "prepare_loop sv cs (p\<lparr>wp_preparedStatementSize := sizes\<rparr>) = Some (ok, p')"
      using Cons.prems by (auto simp: bind_eq_Some_conv)
    from Cons.IH [OF this] show ?thesis by simp
  qed (use Cons.prems in auto)
qed auto

lemma prepare_database_ok:
  assumes "opened dbs n l" "i \<in> db_pool ` set dbs" "i < n" "prepare_database svs i l = Some (ok, l')"
  shows "if ok then opened dbs n l' else \<forall>k < n. pool_closed (ld_pools (close_all l') ! k)"
proof -
  obtain p' where p: "prepare_loop (svs i) (wp_async (ld_pools l ! i) @ wp_synch (ld_pools l ! i)) (ld_pools l ! i) = Some (ok, p')"
    "l' = l\<lparr>ld_pools := (ld_pools l)[i := p']\<rparr>"
    using assms(1,3,4) by (auto simp: prepare_database_def aget_def opened_def bind_eq_Some_conv DatabaseWorkerPool_PrepareStatements_def)
  show ?thesis
  proof (cases ok)
    case True
    then have "wp_async p' = wp_async (ld_pools l ! i)" "wp_synch p' = wp_synch (ld_pools l ! i)"
      using prepare_loop_connections [OF p(1)] by simp_all
    then show ?thesis using assms(1,3) True by (auto simp: p(2) opened_def nth_list_update pool_closed_def)
  next
    case False
    then show ?thesis using assms(1,2,3) by (auto simp: p(2) opened_def close_all_def close_loop_nth nth_list_update)
  qed
qed

lemma Process_prepare:
  assumes "opened dbs n l" "set xs \<subseteq> db_pool ` set dbs" "\<forall>i \<in> set xs. i < n"
    and "Process (prepare_database svs) xs l = Some (ok, q, l')"
  shows "if ok then opened dbs n l' else ld_close l' = [] \<and> (\<forall>i < n. pool_closed (ld_pools l' ! i))"
  using assms
proof (induction xs arbitrary: l)
  case (Cons i xs)
  obtain k l1 where 1: "prepare_database svs i l = Some (k, l1)"
    "(if k then Process (prepare_database svs) xs l1 else Some (False, i # xs, close_all l1)) = Some (ok, q, l')"
    using Cons.prems(4) by (auto simp: bind_eq_Some_conv)
  have o: "if k then opened dbs n l1 else \<forall>j < n. pool_closed (ld_pools (close_all l1) ! j)"
    using prepare_database_ok [OF Cons.prems(1) _ _ 1(1)] Cons.prems(2,3) by auto
  show ?case
  proof (cases k)
    case True
    then have "opened dbs n l1" "Process (prepare_database svs) xs l1 = Some (ok, q, l')" using o 1(2) by simp_all
    then show ?thesis using Cons.IH [of l1] Cons.prems(2,3) by auto
  next
    case False
    then show ?thesis using o 1(2) by (auto simp: close_all_def)
  qed
qed simp

lemma Process_keeps_prepare:
  "Process (open_database svs) xs l = Some (ok, q, l') \<Longrightarrow> ld_prepare l' = ld_prepare l"
proof (induction xs arbitrary: l)
  case (Cons db xs)
  then obtain k l1 where 1: "open_database svs db l = Some (k, l1)"
    "(if k then Process (open_database svs) xs l1 else Some (False, db # xs, close_all l1)) = Some (ok, q, l')"
    by (auto simp: bind_eq_Some_conv)
  have "ld_prepare l1 = ld_prepare l" using 1(1) by (auto simp: open_database_def bind_eq_Some_conv Let_def split: if_splits)
  then show ?case using 1(2) Cons.IH [of l1] by (auto simp: close_all_def split: if_splits)
qed simp

lemma AddDatabase_all:
  "fold AddDatabase dbs l = l\<lparr>ld_open := ld_open l @ dbs, ld_prepare := ld_prepare l @ map db_pool dbs\<rparr>"
  by (induction dbs arbitrary: l) (simp_all add: AddDatabase_def)

text \<open>
  C38: loading is all or nothing: when \<open>Load\<close> succeeds, every database that was added has all its connections;
  when it fails, every pool is closed and no close operation is left, whichever database could not be opened or
  prepared -- except for the one whose own \<open>Open\<close> failed, which stays at the head of the queue.
\<close>

theorem Load_all_or_nothing:
  assumes "distinct (map db_pool dbs)" "\<forall>db \<in> set dbs. db_pool db < length pools" "\<forall>p \<in> set pools. pool_closed p"
    and "Load svs (fold AddDatabase dbs (DatabaseLoader_ctor pools)) = Some (ok, l)"
  shows "if ok
    then \<forall>db \<in> set dbs. length (wp_async (ld_pools l ! db_pool db)) = unat (db_async db) \<and>
           length (wp_synch (ld_pools l ! db_pool db)) = unat (db_synch db)
    else ld_close l = [] \<and>
      (\<forall>i < length pools. pool_closed (ld_pools l ! i) \<or> ld_open l \<noteq> [] \<and> i = db_pool (hd (ld_open l)))"
proof -
  let ?l = "\<lparr>ld_pools = pools, ld_open = dbs, ld_prepare = map db_pool dbs, ld_close = []\<rparr>" and ?n = "length pools"
  have l0: "fold AddDatabase dbs (DatabaseLoader_ctor pools) = ?l" by (simp add: AddDatabase_all DatabaseLoader_ctor_def)
  obtain k q l1 where 1: "Process (open_database svs) dbs ?l = Some (k, q, l1)"
    "(if \<not> k then Some (False, l1\<lparr>ld_open := q\<rparr>)
      else PrepareStatements_all svs (l1\<lparr>ld_open := q\<rparr>) \<bind> (\<lambda>(ok, l). if \<not> ok then Some (False, l) else Some (True, l))) = Some (ok, l)"
    using assms(4) unfolding l0 by (auto simp: Load_def OpenDatabases_def bind_eq_Some_conv)
  have "opened [] ?n ?l" using assms(3) by (simp add: opened_def)
  from Process_open [OF this _ _ 1(1)] assms(1,2) have o: "if k then q = [] \<and> opened (rev dbs) ?n l1
    else q \<noteq> [] \<and> ld_close l1 = [] \<and> length (ld_pools l1) = ?n \<and> (\<forall>i < ?n. i \<noteq> db_pool (hd q) \<longrightarrow> pool_closed (ld_pools l1 ! i))"
    by (cases k) auto
  have pr: "ld_prepare l1 = map db_pool dbs" using Process_keeps_prepare [OF 1(1)] by simp
  show ?thesis
  proof (cases k)
    case True
    then have "opened (rev dbs) ?n (l1\<lparr>ld_open := []\<rparr>)" using o by (simp add: opened_def)
    moreover obtain q' l2 where 2: "Process (prepare_database svs) (map db_pool dbs) (l1\<lparr>ld_open := []\<rparr>) = Some (ok, q', l2)" "l = l2\<lparr>ld_prepare := q'\<rparr>"
      using 1(2) o pr True by (auto simp: PrepareStatements_all_def bind_eq_Some_conv split: if_splits)
    ultimately have "if ok then opened (rev dbs) ?n l2 else ld_close l2 = [] \<and> (\<forall>i < ?n. pool_closed (ld_pools l2 ! i))"
      using assms(2) by (intro Process_prepare [where xs = "map db_pool dbs"]) auto
    then show ?thesis using 2(2) by (auto simp: opened_def)
  next
    case False
    then show ?thesis using o 1(2) by auto
  qed
qed


text \<open>
  Two databases, the second of which cannot open its synchronous connection: the first is closed again, the second
  keeps its asynchronous connection.
\<close>

definition ex_servers :: "nat \<Rightarrow> server" where
  "ex_servers i = \<lparr>sv_open = (\<lambda>c. if i = 1 \<and> c = 1 then 2002 else 0), sv_version = (\<lambda>_. 80000), sv_prepare = (\<lambda>_. Some [Some 2])\<rparr>"

definition ex_databases :: "database list" where
  "ex_databases = [\<lparr>db_pool = 0, db_string = ''a'', db_async = 1, db_synch = 1\<rparr>, \<lparr>db_pool = 1, db_string = ''b'', db_async = 1, db_synch = 1\<rparr>]"

definition ex_loaded :: "bool \<times> loader" where
  "ex_loaded = the (Load ex_servers (fold AddDatabase ex_databases (DatabaseLoader_ctor [DatabaseWorkerPool_ctor, DatabaseWorkerPool_ctor])))"

lemmas load_eval = Load_def OpenDatabases_def PrepareStatements_all_def open_database_def prepare_database_def aget_def
  DatabaseWorkerPool_Open_def OpenConnections_def SetConnectionInfo_def push_connection_def drop_connection_def clear_connections_def
  close_all_def DatabaseWorkerPool_Close_def DatabaseWorkerPool_ctor_def MIN_MYSQL_SERVER_VERSION_def
  DatabaseLoader_ctor_def AddDatabase_def

lemma ex_load:
  "Load ex_servers (fold AddDatabase ex_databases (DatabaseLoader_ctor [DatabaseWorkerPool_ctor, DatabaseWorkerPool_ctor])) = Some ex_loaded"
  "fst ex_loaded = False" "wp_async (ld_pools (snd ex_loaded) ! 1) = [0]" "map db_pool (ld_open (snd ex_loaded)) = [1]"
  by (simp_all add: ex_loaded_def ex_servers_def ex_databases_def load_eval Let_def)

theorem Load_all_or_nothing_witness:
  "fst ex_loaded = False \<and> ld_close (snd ex_loaded) = [] \<and> pool_closed (ld_pools (snd ex_loaded) ! 0)"
proof -
  have h: "Load ex_servers (fold AddDatabase ex_databases (DatabaseLoader_ctor [DatabaseWorkerPool_ctor, DatabaseWorkerPool_ctor])) = Some (False, snd ex_loaded)"
    using ex_load(1,2) by (metis prod.collapse)
  have p: "distinct (map db_pool ex_databases)" "\<forall>db \<in> set ex_databases. db_pool db < length [DatabaseWorkerPool_ctor, DatabaseWorkerPool_ctor]"
    "\<forall>p \<in> set [DatabaseWorkerPool_ctor, DatabaseWorkerPool_ctor]. pool_closed p"
    by (simp_all add: ex_databases_def pool_closed_def DatabaseWorkerPool_ctor_def)
  have "db_pool (hd (ld_open (snd ex_loaded))) = 1" using ex_load(4) by auto
  then show ?thesis using Load_all_or_nothing [OF p h] ex_load(2) by auto
qed

text \<open>
  A pool that failed to open stays half open, and \<open>Load\<close> has no close operation for it; the queue of a pool
  that was closed stays cancelled, so that a pool which is opened again executes no operation.
\<close>

lemma failed_open_stays:
  "\<not> fst ex_loaded \<and> ld_close (snd ex_loaded) = [] \<and> \<not> pool_closed (ld_pools (snd ex_loaded) ! 1)"
  by (simp add: ex_loaded_def ex_servers_def ex_databases_def load_eval Let_def pool_closed_def)

lemma open_loop_shutdown: "wp_shutdown p \<Longrightarrow> wp_shutdown (snd (open_loop sv type n p))"
  by (induction n arbitrary: p)
    (auto simp: Let_def push_connection_def drop_connection_def clear_connections_def split: InternalIndex.splits)

lemma reopened_pool_is_cancelled:
  assumes "wp_async p \<noteq> []" "DatabaseWorkerPool_Open sv (DatabaseWorkerPool_Close p) = Some (e, p')"
  shows "wp_shutdown p'"
proof -
  have "wp_shutdown (DatabaseWorkerPool_Close p)" using assms(1) by (simp add: DatabaseWorkerPool_Close_def clear_connections_def)
  then have "wp_shutdown (snd (open_loop sv IDX_ASYNC n (DatabaseWorkerPool_Close p)))" for n by (rule open_loop_shutdown)
  moreover from this have "wp_shutdown (snd (open_loop sv IDX_SYNCH m (snd (open_loop sv IDX_ASYNC n (DatabaseWorkerPool_Close p)))))" for m n
    by (rule open_loop_shutdown)
  ultimately show ?thesis using assms(2)
    by (auto simp: DatabaseWorkerPool_Open_def OpenConnections_def split_beta Let_def split: if_splits) (metis snd_conv)+
qed

section \<open>Statement sizes\<close>

text \<open>\<open>cnt\<close> are the numbers of parameters on which all connections with a statement agree.\<close>

definition agree :: "server \<Rightarrow> nat list \<Rightarrow> (nat \<Rightarrow> u32) \<Rightarrow> bool" where
  "agree sv cs cnt \<longleftrightarrow> (\<forall>c \<in> set cs. \<forall>stmts. sv_prepare sv c = Some stmts \<longrightarrow> (\<forall>i < length stmts. \<forall>n. stmts ! i = Some n \<longrightarrow> n = cnt i))"

definition size_of :: "u32 \<Rightarrow> u8" where
  "size_of n = of_nat (unat n)"

definition sizes_ok :: "(nat \<Rightarrow> u32) \<Rightarrow> u8 list \<Rightarrow> bool" where
  "sizes_ok cnt sizes \<longleftrightarrow> (\<forall>i < length sizes. sizes ! i = 0 \<or> sizes ! i = size_of (cnt i) \<and> cnt i < 255)"

lemma set_sizes_nth:
  "set_sizes stmts sizes = Some sizes' \<Longrightarrow> i < length sizes \<Longrightarrow>
   length sizes' = length sizes \<and> length stmts \<le> length sizes \<and>
   sizes' ! i = (if i < length stmts \<and> sizes ! i = 0 then (case stmts ! i of None \<Rightarrow> 0 | Some n \<Rightarrow> size_of n) else sizes ! i) \<and>
   (\<forall>n. i < length stmts \<and> sizes ! i = 0 \<and> stmts ! i = Some n \<longrightarrow> n < 255)"
proof (induction stmts sizes arbitrary: sizes' i rule: set_sizes.induct)
  case (3 st stmts z sizes)
  obtain z' t where 1: "(if z > 0 then Some z else case st of None \<Rightarrow> Some z | Some n \<Rightarrow> if n < 255 then Some (of_nat (unat n)) else None) = Some z'"
    "set_sizes stmts sizes = Some t" "sizes' = z' # t"
    using "3.prems"(1) by (auto simp: bind_eq_Some_conv)
  have l: "length t = length sizes \<and> length stmts \<le> length sizes"
  proof (cases "sizes = []")
    case True
    then show ?thesis using 1(2) by (cases stmts) auto
  next
    case False
    then show ?thesis using "3.IH" [of z' t 0] 1(1,2) by simp
  qed
  show ?case
  proof (cases i)
    case 0
    then show ?thesis using 1 l by (auto simp: size_of_def word_gt_0 split: option.splits if_splits)
  next
    case (Suc j)
    then show ?thesis using "3.IH" [of z' t j] 1 l "3.prems"(2) by simp
  qed
qed auto

text \<open>After a connection, the statements it has are sized, and sizes that were right stay so.\<close>

lemma sized_connection:
  assumes "set_sizes stmts (grow (length stmts) sizes) = Some sizes'" "sizes_ok cnt sizes"
    and "\<forall>i < length stmts. \<forall>n. stmts ! i = Some n \<longrightarrow> n = cnt i"
  shows "sizes_ok cnt sizes' \<and> length sizes \<le> length sizes' \<and> length stmts \<le> length sizes' \<and>
    (\<forall>i < length sizes. sizes ! i = size_of (cnt i) \<longrightarrow> sizes' ! i = size_of (cnt i)) \<and>
    (\<forall>i < length stmts. stmts ! i \<noteq> None \<longrightarrow> sizes' ! i = size_of (cnt i) \<and> cnt i < 255)"
proof -
  let ?g = "grow (length stmts) sizes"
  have g: "length ?g = max (length sizes) (length stmts)" "\<And>i. i < length sizes \<Longrightarrow> ?g ! i = sizes ! i" "\<And>i. length sizes \<le> i \<Longrightarrow> i < length ?g \<Longrightarrow> ?g ! i = 0"
    by (auto simp: grow_def nth_append)
  have ok: "sizes_ok cnt ?g" unfolding sizes_ok_def
  proof (intro allI impI)
    fix i
    assume "i < length ?g"
    then show "?g ! i = 0 \<or> ?g ! i = size_of (cnt i) \<and> cnt i < 255"
      using assms(2) g(2,3) by (cases "i < length sizes") (simp_all add: sizes_ok_def)
  qed
  have n: "length sizes' = length ?g" using set_sizes_nth [OF assms(1), of 0] assms(1) by (cases ?g; cases stmts) auto
  have e: "sizes' ! i = (if i < length stmts \<and> ?g ! i = 0 then (case stmts ! i of None \<Rightarrow> 0 | Some n \<Rightarrow> size_of n) else ?g ! i) \<and>
   (\<forall>n. i < length stmts \<and> ?g ! i = 0 \<and> stmts ! i = Some n \<longrightarrow> n < 255)" if "i < length ?g" for i
    using set_sizes_nth [OF assms(1) that] by simp
  have "sizes' ! i = 0 \<or> sizes' ! i = size_of (cnt i) \<and> cnt i < 255" if "i < length ?g" for i
    using e [OF that] assms(3) ok that by (auto simp: sizes_ok_def split: option.splits)
  moreover have "sizes' ! i = size_of (cnt i) \<and> cnt i < 255" if "i < length stmts" "stmts ! i \<noteq> None" for i
  proof -
    have l: "i < length ?g" using that(1) g(1) by simp
    have "stmts ! i = Some (cnt i)" using that assms(3) by auto
    then show ?thesis using e [OF l] ok [unfolded sizes_ok_def, rule_format, OF l] that(1) by (cases "?g ! i = 0") auto
  qed
  moreover have "sizes' ! i = size_of (cnt i)" if "i < length sizes" "sizes ! i = size_of (cnt i)" for i
    using e [of i] assms(3) that g(1,2) by (auto split: option.splits)
  ultimately show ?thesis using n g(1) by (simp add: sizes_ok_def)
qed

lemma prepare_loop_sizes:
  assumes "prepare_loop sv cs p = Some (True, p')" "sizes_ok cnt (wp_preparedStatementSize p)" "agree sv cs cnt"
  shows "length (wp_preparedStatementSize p) \<le> length (wp_preparedStatementSize p') \<and>
    (\<forall>i < length (wp_preparedStatementSize p). wp_preparedStatementSize p ! i = size_of (cnt i) \<longrightarrow> wp_preparedStatementSize p' ! i = size_of (cnt i)) \<and>
    (\<forall>c \<in> set cs. \<exists>stmts. sv_prepare sv c = Some stmts \<and> length stmts \<le> length (wp_preparedStatementSize p') \<and>
       (\<forall>i < length stmts. stmts ! i \<noteq> None \<longrightarrow> wp_preparedStatementSize p' ! i = size_of (cnt i) \<and> cnt i < 255))"
  using assms
proof (induction cs arbitrary: p)
  case (Cons c cs)
  obtain stmts sizes where s: "sv_prepare sv c = Some stmts" "set_sizes stmts (grow (length stmts) (wp_preparedStatementSize p)) = Some sizes"
    "prepare_loop sv cs (p\<lparr>wp_preparedStatementSize := sizes\<rparr>) = Some (True, p')"
    using Cons.prems(1) by (auto simp: bind_eq_Some_conv split: option.splits)
  have one: "sizes_ok cnt sizes \<and> length (wp_preparedStatementSize p) \<le> length sizes \<and> length stmts \<le> length sizes \<and>
    (\<forall>i < length (wp_preparedStatementSize p). wp_preparedStatementSize p ! i = size_of (cnt i) \<longrightarrow> sizes ! i = size_of (cnt i)) \<and>
    (\<forall>i < length stmts. stmts ! i \<noteq> None \<longrightarrow> sizes ! i = size_of (cnt i) \<and> cnt i < 255)"
    using Cons.prems(3) s(1) by (intro sized_connection [OF s(2) Cons.prems(2)]) (simp add: agree_def)
  then have "agree sv cs cnt" "sizes_ok cnt (wp_preparedStatementSize (p\<lparr>wp_preparedStatementSize := sizes\<rparr>))" using Cons.prems(3) by (simp_all add: agree_def)
  from Cons.IH [OF s(3) this(2,1)] show ?case using one s(1) by (auto 0 3)
qed simp


lemma unat_size_of: "n < 255 \<Longrightarrow> unat (size_of n) = unat n"
  unfolding size_of_def by (rule unat_of_nat_u8) (simp add: word_less_nat_alt)

text \<open>
  C39: a statement from the pool fits all connections: after \<open>PrepareStatements\<close>, if the connections that have a
  statement agree on its number of parameters, \<open>GetPreparedStatement\<close> makes a statement with that many parameters,
  fewer than 255, and whatever values they are set to, \<open>BindParameters\<close> on such a connection passes its assertions
  and sets every parameter.
\<close>

theorem prepared_statement_binds:
  assumes "DatabaseWorkerPool_PrepareStatements sv p = Some (True, p')" "wp_preparedStatementSize p = []"
    and "agree sv (wp_async p @ wp_synch p) cnt" "c \<in> set (wp_async p @ wp_synch p)"
    and "sv_prepare sv c = Some stmts" "unat i < length stmts" "stmts ! unat i = Some n"
  shows "\<exists>s. GetPreparedStatement i p' = Some s \<and> length (pb_data s) = unat n \<and> n < 255 \<and>
    (\<forall>ds. length ds = length (pb_data s) \<longrightarrow>
       (\<exists>b. BindParameters (s\<lparr>pb_data := ds\<rparr>) (MySQLPreparedStatement_ctor n q) = Some b \<and> (\<forall>k < unat n. ps_paramsSet b ! k)))"
proof -
  let ?z = "wp_preparedStatementSize p'"
  have "sizes_ok cnt (wp_preparedStatementSize p)" by (simp add: assms(2) sizes_ok_def)
  from prepare_loop_sizes [OF assms(1) [unfolded DatabaseWorkerPool_PrepareStatements_def] this assms(3)]
  have z: "unat i < length ?z" "?z ! unat i = size_of (cnt (unat i))" "cnt (unat i) < 255"
    using assms(4-7) by fastforce+
  have n: "n = cnt (unat i)" using assms(3-7) by (auto simp: agree_def)
  define s where "s = PreparedStatementBase_ctor i (?z ! unat i)"
  have s: "GetPreparedStatement i p' = Some s" using z(1) by (simp add: GetPreparedStatement_def s_def)
  have len: "length (pb_data s) = unat n" using z(2,3) n by (simp add: s_def PreparedStatementBase_ctor_def unat_size_of)
  have "\<exists>b. BindParameters (s\<lparr>pb_data := ds\<rparr>) (MySQLPreparedStatement_ctor n q) = Some b \<and> (\<forall>k < unat n. ps_paramsSet b ! k)"
    if "length ds = length (pb_data s)" for ds
  proof -
    let ?p = "(MySQLPreparedStatement_ctor n q)\<lparr>ps_stmt := Some (s\<lparr>pb_data := ds\<rparr>)\<rparr>"
    have "ps_wf ?p" by (simp add: ps_wf_def MySQLPreparedStatement_ctor_def)
    moreover have "unat n \<le> 255" using z(3) n by (simp add: word_less_nat_alt)
    ultimately show ?thesis using bind_loop_ok [of ?p 0 ds] len that
      by (auto simp: BindParameters_def MySQLPreparedStatement_ctor_def zero_bind_def)
  qed
  then show ?thesis using s len n z(3) by blast
qed

definition ex_pool :: worker_pool where
  "ex_pool = DatabaseWorkerPool_ctor\<lparr>wp_async := [0], wp_synch := [1]\<rparr>"

definition ex_sizes :: server where
  "ex_sizes = \<lparr>sv_open = (\<lambda>_. 0), sv_version = (\<lambda>_. 80000), sv_prepare = (\<lambda>c. if c = 0 then Some [Some 2, None] else Some [None, Some 3])\<rparr>"

theorem prepared_statement_binds_witness:
  "\<exists>p' s. DatabaseWorkerPool_PrepareStatements ex_sizes ex_pool = Some (True, p') \<and> GetPreparedStatement 1 p' = Some s \<and> length (pb_data s) = 3 \<and>
    (\<exists>b. BindParameters (s\<lparr>pb_data := [DNull, DBool True, DInt8 3]\<rparr>) (MySQLPreparedStatement_ctor 3 ''q'') = Some b \<and> (\<forall>k < 3. ps_paramsSet b ! k))"
proof -
  obtain p' where p': "DatabaseWorkerPool_PrepareStatements ex_sizes ex_pool = Some (True, p')"
    by (simp add: DatabaseWorkerPool_PrepareStatements_def ex_pool_def ex_sizes_def DatabaseWorkerPool_ctor_def grow_def)
  have a: "agree ex_sizes (wp_async ex_pool @ wp_synch ex_pool) (\<lambda>i. if i = 0 then 2 else 3)"
    by (auto simp: agree_def ex_pool_def ex_sizes_def less_Suc_eq split: if_splits)
  have e: "wp_preparedStatementSize ex_pool = []" "1 \<in> set (wp_async ex_pool @ wp_synch ex_pool)"
    "sv_prepare ex_sizes 1 = Some [None, Some 3]" "unat (1 :: u32) < length [None, Some (3 :: u32)]" "[None, Some (3 :: u32)] ! unat (1 :: u32) = Some 3"
    by (simp_all add: ex_pool_def ex_sizes_def DatabaseWorkerPool_ctor_def)
  from prepared_statement_binds [OF p' e(1) a e(2-5), of "''q''"] obtain s where
    s: "GetPreparedStatement 1 p' = Some s" "length (pb_data s) = 3"
      "\<forall>ds. length ds = length (pb_data s) \<longrightarrow>
       (\<exists>b. BindParameters (s\<lparr>pb_data := ds\<rparr>) (MySQLPreparedStatement_ctor 3 ''q'') = Some b \<and> (\<forall>k < 3. ps_paramsSet b ! k))"
    by auto
  show ?thesis using p' s(1,2) s(3) [rule_format, of "[DNull, DBool True, DInt8 3]"] by auto
qed

section \<open>Holders\<close>

lemma length_SetPreparedResult [simp]: "length (SetPreparedResult i r h) = length h"
  by (simp add: SetPreparedResult_def Let_def)

lemma SetPreparedResult_nth:
  "k < length h \<Longrightarrow> SetPreparedResult i r h ! k =
     (if k = i then (fst (h ! k), case r of Some x \<Rightarrow> if pr_rowCount x = 0 then None else Some x | None \<Rightarrow> None) else h ! k)"
  by (auto simp: SetPreparedResult_def Let_def)

lemma holder_loop_nth:
  "i + n = length h \<Longrightarrow> k < length h \<Longrightarrow> length (holder_loop query i n h) = length h \<and> holder_loop query i n h ! k =
     (case fst (h ! k) of
        Some stmt \<Rightarrow> if i \<le> k then (Some stmt, case query stmt of Some x \<Rightarrow> if pr_rowCount x = 0 then None else Some x | None \<Rightarrow> None) else h ! k
      | None \<Rightarrow> h ! k)"
proof (induction n arbitrary: i h)
  case (Suc n)
  let ?h = "case fst (h ! i) of Some stmt \<Rightarrow> SetPreparedResult i (query stmt) h | None \<Rightarrow> h"
  have h: "length ?h = length h" "?h ! k = (if k = i \<and> fst (h ! i) \<noteq> None
      then (fst (h ! k), case query (the (fst (h ! i))) of Some x \<Rightarrow> if pr_rowCount x = 0 then None else Some x | None \<Rightarrow> None) else h ! k)"
    using Suc.prems(2) by (simp_all add: SetPreparedResult_nth split: option.splits)
  show ?case using Suc.IH [of "Suc i" ?h] Suc.prems h by (cases "k = i") (auto split: option.splits)
next
  case 0
  then show ?case by (simp split: option.splits)
qed

text \<open>After the task, every result of a query that has rows is in the holder, and null stands for the others.\<close>

lemma SQLQueryHolderTask_results:
  assumes "k < length h" "fst (h ! k) = Some stmt"
  shows "GetPreparedResult k (snd (SQLQueryHolderTask_Execute query h)) =
    Some (case query stmt of Some x \<Rightarrow> if pr_rowCount x = 0 then None else Some x | None \<Rightarrow> None)"
  using holder_loop_nth [of 0 "length h" h k query] assms by (simp add: GetPreparedResult_def SQLQueryHolderTask_Execute_def)

text \<open>The promise of a query in text is set exactly once, also when the query fails.\<close>

lemma BasicStatementTask_sets_promise:
  assumes "\<And>r. query sql = Some r \<Longrightarrow> ResultSet_NextRow b r \<noteq> None"
  shows "\<exists>ok t result. BasicStatementTask_Execute query execute b (BasicStatementTask_ctor sql True) = Some (ok, t) \<and>
    bt_promise t = Some (Some result) \<and> ok = (result \<noteq> None)"
proof (cases "query sql")
  case (Some r)
  then obtain more r' where "ResultSet_NextRow b r = Some (more, r')" using assms by fastforce
  then show ?thesis using Some by (auto simp: BasicStatementTask_Execute_def BasicStatementTask_ctor_def)
qed (auto simp: BasicStatementTask_Execute_def BasicStatementTask_ctor_def)

end
