(* ===== verification/Spec2Isabelle.thy ===== *)
theory Spec2Isabelle
  imports MhTimer RteRing RingBuffer MsgQueue ThreadPool TimeWheel ClockTimer TcpConn SklTimer MpscQueue MmPool BlockPool NetTimer SharedPtr RbtTimer ConnPool DbConnection DbCallback SpinLock RdbReaders SetTimer DbWorker DbLoader
begin

text \<open>
  A verification of the components of the repository: timers, queues, memory pools, network buffers,
  reference counting and database access, each a small library of C or C++ with its own state.

  \<^bold>\<open>How the model is built.\<close> A C computation that may touch memory is an \<open>option\<close> value, and \<open>None\<close> is undefined
  behaviour, an exception that is not caught, or a loop that does not end; so a theorem that says that an operation
  returns \<open>Some\<close> says that it terminates and that no access is out of bounds, null or dangling. Integers have the width of
  the code. Memory is an explicit store by address, and arrays are lists of cells with checked accesses
  (\<open>Prelude\<close>). The clock, random numbers, callbacks, and the results of the allocator and of system calls are arguments.
  Loops that need not end are \<open>partial_function\<close>s of the option monad; no fuel is used.
  Lock-free code is a step relation with one step for each access to shared memory, in a sequentially consistent
  memory; code under a mutex is one step for each critical section.

  \<^bold>\<open>Timers\<close> (\<^verbatim>\<open>src/timer\<close>). Three stores and one loop. \<open>TimerQueue\<close> has the loop of \<open>expire_timer\<close> and a locale with
  what it needs of a store; \<open>MinHeap\<close> (\<^verbatim>\<open>minheap.c\<close>, over the reference functions of \<open>HeapOrder\<close>) with
  \<open>MhTimer\<close> (\<^verbatim>\<open>mh-timer.h\<close>), \<open>Skiplist\<close> (\<^verbatim>\<open>skiplist.c\<close>) with \<open>SklTimer\<close> (\<^verbatim>\<open>skl-timer.c\<close>), and \<open>RbTree\<close> (\<^verbatim>\<open>rbtree.c\<close>)
  with \<open>RbtTimer\<close> (\<^verbatim>\<open>rbt-timer.h\<close>) interpret it. Shown: every operation of the stores keeps their invariant (heap order with
  back-pointers; sorted and linked levels; links, parents, colours and black heights), does what it is meant to on
  every branch, and \<open>expire_timer\<close> ends and fires exactly what is due, in order; for the red-black tree, which orders its keys by
  their signed difference, this needs keys and clock in one half of the 32-bit range that has not wrapped around. The theorem
  \<open>timers_fire_alike\<close> below states that the three agree under this condition. The proofs for the red-black tree are in \<open>RbShape\<close> (trees with a place in them, rotations),
  \<open>RbInsert\<close>, \<open>RbDelete\<close> and \<open>RbCorrect\<close>.

  Two wheels: \<open>Wheel\<close> has what \<^verbatim>\<open>timewheel.c\<close> and \<^verbatim>\<open>clock-timer.c\<close> share, as functions with the placement of the nodes as
  parameters; \<open>TimeWheel\<close> and \<open>ClockTimer\<close> are the two programs. Shown: the exact condition under which a timer runs at the tick
  of its delay (some lists are never distributed), that the wheels follow a clock that is less than \<open>2 ^ 31\<close> ms ahead, and (below) that \<open>clear_timer\<close> frees everything once.

  \<open>SetTimer\<close> is the timer on an ordered set of \<^verbatim>\<open>timer.cc\<close> and \<^verbatim>\<open>timer_with_timerfd.cc\<close>: which callbacks run, in which
  round, that the timerfd is set to the first of them, and that \<open>epoll_wait\<close> waits for it if it is less than \<open>2 ^ 31\<close> ms away (its
  argument is an \<open>int\<close>).
  \<open>NetTimer\<close> is the multimap timer of \<^verbatim>\<open>src/network_timer/Timer.h\<close> under the loop of \<^verbatim>\<open>EventLoop.h\<close>: every timer that is not deleted
  fires once, not early, and at the latest in the first round that starts its timers after its time, whatever the handlers add.

  \<^bold>\<open>Queues\<close> (\<^verbatim>\<open>src/free_queue\<close>, \<^verbatim>\<open>src/threadpool\<close>). \<open>Fifo\<close> has the contract of a bounded or unbounded queue as a locale, with the
  theorem that every sequence of calls returns what the list queue returns. \<open>RteRing\<close> (\<^verbatim>\<open>rte_ring\<close>), \<open>RingBuffer\<close> (\<^verbatim>\<open>ringbuffer.h\<close>),
  \<open>MsgQueue\<close> (\<^verbatim>\<open>msgqueue.c\<close>) and the queues of \<open>LockQueues\<close> interpret it. Beyond that: the ring buffer for one producer and one
  consumer in every interleaving; \<open>MpscQueue\<close> (\<^verbatim>\<open>MPSCQueue.h\<close>), two queues for many producers, in every interleaving, for
  the intrusive one of the single accesses of \<open>Dequeue\<close> as well;
  the bound of the message queue; no lost wake-up in \<open>BlockingQueue\<close>; and \<open>ThreadPool\<close>, workers on a blocking queue with the
  joining destructor.

  \<^bold>\<open>Memory\<close> (\<^verbatim>\<open>src/mempool\<close>, \<^verbatim>\<open>src/atomic_lock\<close>). \<open>MmPool\<close> (\<^verbatim>\<open>mm_pool_.c\<close>): what a new pool hands out from its block is aligned,
  inside the block and disjoint; beyond the first block the same holds under conditions that the code does not check.
  \<open>BlockPool\<close> (\<^verbatim>\<open>mm_pool.c\<close>): its creation writes behind the page for every block size.
  \<open>SharedPtr\<close> (\<^verbatim>\<open>shared_ptr.h\<close>): no use after free, no double delete and no leak in every interleaving, for objects that hold
  no handles themselves.

  \<^bold>\<open>Network\<close> (\<^verbatim>\<open>src/network_buffer_design\<close>). \<open>MessageBuffer\<close> is the receive buffer and \<open>TcpConn\<close> a connection with its registration
  in the event loop: no byte is lost, doubled or reordered in either direction, as long as the behaviour is defined (it is
  not after a failed \<open>readv\<close>, nor for a search in an empty buffer).

  \<^bold>\<open>Locks and shared data\<close> (\<^verbatim>\<open>src/atomic_lock\<close>). \<open>SpinLock\<close> (\<^verbatim>\<open>spinlock.h\<close>): mutual exclusion. \<open>RdbSkipList\<close> (\<^verbatim>\<open>skiplist.h\<close> with
  its test \<^verbatim>\<open>test_skiplist.cc\<close>): the locale \<open>key_order\<close> has what the list needs of a comparator, and in it insertion, search and
  traversal refine a sorted list; it is interpreted on the comparator of the test, for the keys on which that is an order.
  \<open>RdbReaders\<close>: readers without a lock beside one writer, one access to memory at a time.

  \<^bold>\<open>Databases\<close> (\<^verbatim>\<open>src/mysqlconnpool\<close>, \<^verbatim>\<open>src/mysql-conn-pool/dbimpl\<close>). The small pool: \<open>MySqlConn\<close> is a connection that reopens itself,
  \<open>ConnPool\<close> the workers, callbacks and their queue in every interleaving. The large one: \<open>DbConnection\<close> (\<^verbatim>\<open>MySQLConnection.cpp\<close>,
  \<^verbatim>\<open>Transaction.cpp\<close>) has errors, reconnection and transactions with their retries (all or nothing only in runs without errors of the connection and of the
  commands that start and end the transaction), \<open>DbCallback\<close> (\<^verbatim>\<open>QueryCallback.cpp\<close>) the
  chains of callbacks and the search for a free connection, \<open>DbStatement\<close> (\<^verbatim>\<open>PreparedStatement.cpp\<close>,
  \<^verbatim>\<open>MySQLPreparedStatement.cpp\<close>) the typed parameters and their binding, \<open>DbResult\<close> (\<^verbatim>\<open>QueryResult.cpp\<close>, \<^verbatim>\<open>Field.cpp\<close>) the rows of a
  result in one array of bytes and the getters that read them back, \<open>DbWorker\<close> (\<^verbatim>\<open>DatabaseWorker.cpp\<close>) the threads
  on the producer-consumer queue of \<open>LockQueues\<close>, and \<open>DbLoader\<close> (\<^verbatim>\<open>DatabaseWorkerPool.cpp\<close>, \<^verbatim>\<open>DatabaseLoader.cpp\<close>,
  \<^verbatim>\<open>QueryHolder.cpp\<close>, \<^verbatim>\<open>AdhocStatement.cpp\<close>) the opening, preparing and closing of all pools. What the server and the client library
  answer is an argument everywhere.

  \<^bold>\<open>Not modelled.\<close> The formatting library in \<^verbatim>\<open>src/mysql-conn-pool/fmt\<close> is vendored. \<^verbatim>\<open>TcpServer.cc\<close> and the main programs only call the
  system and the components. \<^verbatim>\<open>mempool/mem_pool.c\<close> calls a function that is declared nowhere. The weak memory orders of the
  examples in \<^verbatim>\<open>src/atomic_lock\<close> are not modelled. Of \<^verbatim>\<open>dbimpl\<close>, logging, the options of the client library, and the members of the
  pool that only pass their arguments on are left out.
\<close>

section \<open>Both wheels\<close>

lemma tw_all_slots_range: "s \<in> set tw_all_slots \<longleftrightarrow> tw_in_range s"
  by (cases s) (auto simp: tw_all_slots_def image_iff)

lemma ct_all_slots_range: "s \<in> set ct_all_slots \<longleftrightarrow> ct_in_range s"
  by (cases s) (auto simp: ct_all_slots_def)

lemma wheel_clear_all:
  assumes inv: "wh_inv rng placed w" and all: "\<And>s. s \<in> set ss \<longleftrightarrow> rng s"
  shows "\<exists>w'. wh_clear rng ss w = Some w' \<and> wh_slots w' = (\<lambda>_. []) \<and>
    wh_heap w' = (\<lambda>p. if \<exists>s. p \<in> set (wh_slots w s) then None else wh_heap w p)"
proof -
  have out: "wh_slots w s = []" if "\<not> rng s" for s
    using wh_inv_node(1) [OF inv, of _ s] that by (cases "wh_slots w s") auto
  have "(\<exists>s \<in> set ss. p \<in> set (wh_slots w s)) \<longleftrightarrow> (\<exists>s. p \<in> set (wh_slots w s))" for p
    using wh_inv_node(1) [OF inv] all by blast
  then show ?thesis
    using wh_clear_ok [OF wh_inv_owns [OF inv], of ss rng] all out by (auto simp: fun_eq_iff)
qed

text \<open>
  \<open>clear_timer\<close> of both wheels frees every node that is on a list, lost ones included, each exactly once (no
  node is freed twice), and leaves all lists empty.
\<close>

theorem wheels_clear_timer:
  assumes "tw_reachable cb junk w" "ct_reachable cb v"
  shows "(\<exists>w'. tw_clear_timer w = Some w' \<and> wh_slots w' = (\<lambda>_. []) \<and>
       wh_heap w' = (\<lambda>p. if \<exists>s. p \<in> set (wh_slots w s) then None else wh_heap w p)) \<and>
     (\<exists>v'. ct_clear_timer v = Some v' \<and> wh_slots v' = (\<lambda>_. []) \<and>
       wh_heap v' = (\<lambda>p. if \<exists>s. p \<in> set (wh_slots v s) then None else wh_heap v p))"
proof -
  have "wh_inv tw_in_range tw_placed w" "wh_inv ct_in_range ct_placed v"
    using tw_reach_inv [OF assms(1)] ct_reach_inv [OF assms(2)] by blast+
  then show ?thesis
    unfolding tw_clear_timer_def ct_clear_timer_def
    by (intro conjI wheel_clear_all tw_all_slots_range ct_all_slots_range)
qed

theorem wheels_clear_timer_witness:
  "(\<exists>w'. tw_clear_timer (tw_init_timer 0) = Some w') \<and> (\<exists>v'. ct_clear_timer (ct_init_timer 0) = Some v')"
  using wheels_clear_timer [OF tw_reachable_init ct_reachable_init] by blast

section \<open>The three timers agree\<close>

lemma due_times:
  fixes f :: "ptr \<Rightarrow> 'a :: len word"
  assumes "mset fired = filter_mset (\<lambda>q. f q \<le> cur) pend" "sorted (map f fired)" "unat cur = n"
  shows "map (\<lambda>q. unat (f q)) fired = sorted_list_of_multiset (filter_mset (\<lambda>x. x \<le> n) {#unat (f q). q \<in># pend#})"
proof -
  have "sorted (map (\<lambda>q. unat (f q)) fired)" by (rule sorted_map_mono [OF assms(2)]) (simp add: word_le_nat_alt)
  moreover have "mset (map (\<lambda>q. unat (f q)) fired) = filter_mset (\<lambda>x. x \<le> n) {#unat (f q). q \<in># pend#}"
    unfolding assms(3) [symmetric] by (simp add: assms(1) filter_mset_image_mset word_le_nat_alt)
  ultimately show ?thesis by (metis sorted_list_of_multiset_mset sorted_sort_id)
qed

text \<open>
  C27: The min-heap timer, the red-black-tree timer and the skip-list timer are interchangeable while the 32-bit clock does not
  wrap around: when they hold timers with the same expiry times, none of these and not the present lies before \<open>base\<close>, and the
  times of the tree and the present lie within half the 32-bit range above it, then \<open>expire_timer\<close>, with handlers that do no
  more than add later timers, fires timers with the same expiry times in the same order in all of them: all that are due.
\<close>

theorem timers_fire_alike:
  assumes "mht_wf h" "rbt_wf base t" "zsl_wf z"
    and "{#unat (key (mht_ents h) q). q \<in># mht_pending h#} = due"
    and "{#unat (rbt_expires t q). q \<in># rbt_pending t#} = due"
    and "{#unat (zsl_key z q). q \<in># mset (zsl_list z)#} = due"
    and "\<forall>x \<in># due. unat base \<le> x" "base \<le> now" "unat (now - base) < 2147483648"
    and "harmless_handler mht_wf mht_pending (\<lambda>h. key (mht_ents h)) (\<lambda>h. min_heap_top (mht_heap h)) now fh"
    and "harmless_handler (rbt_nowrap base) rbt_pending rbt_expires rbt_peek now ft"
    and "harmless_handler zsl_wf (\<lambda>z. mset (zsl_list z)) zsl_key skl_peek (ucast now) fz"
  shows "\<exists>h' t' z' lh lt lz. mh_expire_timer fh now h = Some (h', lh) \<and>
    rbt_expire_timer ft now t = Some (t', lt) \<and> skl_expire_timer fz now z = Some (z', lz) \<and>
    map (\<lambda>q. unat (rbt_expires t q)) lt = map (\<lambda>q. unat (key (mht_ents h) q)) lh \<and>
    map (\<lambda>q. unat (zsl_key z q)) lz = map (\<lambda>q. unat (key (mht_ents h) q)) lh \<and>
    map (\<lambda>q. unat (key (mht_ents h) q)) lh = sorted_list_of_multiset (filter_mset (\<lambda>x. x \<le> unat now) due)"
proof -
  obtain h' lh where h: "mh_expire_timer fh now h = Some (h', lh)"
    "mset lh = filter_mset (\<lambda>q. key (mht_ents h) q \<le> now) (mht_pending h)" "sorted (map (key (mht_ents h)) lh)"
    using mhq.expire_spec [OF assms(1,10)] unfolding mh_expire_timer_def by blast
  have "rbt_nowrap base t"
    using assms(2,5,7) by (auto simp: rbt_nowrap_def word_le_nat_alt)
  then obtain t' lt where t: "rbt_expire_timer ft now t = Some (t', lt)"
    "mset lt = filter_mset (\<lambda>q. rbt_expires t q \<le> now) (rbt_pending t)" "sorted (map (rbt_expires t) lt)"
    using rbq.expire_spec [OF _ assms(11)] unfolding rbt_expire_timer_def by blast
  obtain z' lz where z: "skl_expire_timer fz now z = Some (z', lz)"
    "mset lz = filter_mset (\<lambda>q. zsl_key z q \<le> ucast now) (mset (zsl_list z))" "sorted (map (zsl_key z) lz)"
    using sklq.expire_spec [OF assms(3,12)] unfolding skl_expire_timer_def by blast
  have "unat (ucast now :: u64) = unat now" using unsigned_less [of now, where 'a = nat] by (simp add: unsigned_ucast_eq take_bit_nat_eq_self)
  then show ?thesis
    using due_times [OF h(2,3) refl] due_times [OF t(2,3) refl] due_times [OF z(2,3)] h(1) t(1) z(1) assms(4-6) by auto
qed

lemma single_heap_wf:
  "mht_wf \<lparr>mht_heap = \<lparr>mh_p = [Some 1], mh_n = 1, mh_a = 1\<rparr>, mht_ents = [1 \<mapsto> ex_entry 1005 0]\<rparr>"
  by (auto simp: mht_wf_def mh_wf_def mh_list_def hole_rep_def heap_ordered_def ex_entry_def key_def)

theorem timers_fire_alike_witness:
  "\<exists>h t z h' t' z' lt lz. mh_expire_timer (\<lambda>_ s. Some s) 2000 h = Some (h', [1]) \<and>
     rbt_expire_timer (rbt_adding_handler 3 2000 50 0) 2000 t = Some (t', lt) \<and> skl_expire_timer (\<lambda>_ s. Some s) 2000 z = Some (z', lz) \<and>
     map (\<lambda>q. unat (rbt_expires t q)) lt = [1005] \<and> map (\<lambda>q. unat (zsl_key z q)) lz = [1005]"
proof -
  let ?h = "\<lparr>mht_heap = \<lparr>mh_p = [Some 1], mh_n = 1, mh_a = 1\<rparr>, mht_ents = [1 \<mapsto> ex_entry 1005 0]\<rparr>"
  have h: "mht_pending ?h = {#1#}" "key (mht_ents ?h) 1 = 1005" by (simp_all add: mht_pending_def mh_list_def key_def ex_entry_def)
  obtain t where t: "rbt_wf 1000 t" "rbt_pending t = {#2#}" "rbt_expires t 2 = 5 + 1000" using rbt_single [of 1 2 5 1000 1000 0] by auto
  obtain z0 where z0: "zsl_rep z0 []" using zslCreate_ok by blast
  have lv: "zslRandomLevel [0xFFFF] = Some (1, [])" by (simp add: zslRandomLevel_def ZSKIPLIST_MAXLEVEL_def)
  obtain z p where z: "zsl_rep z [p]" "zsl_key z p = 1005" using zslInsert_ok [OF z0 lv, of 1005 0] by auto
  obtain h' t' z' lh lt lz where *: "mh_expire_timer (\<lambda>_ s. Some s) 2000 ?h = Some (h', lh)"
    "rbt_expire_timer (rbt_adding_handler 3 2000 50 0) 2000 t = Some (t', lt)" "skl_expire_timer (\<lambda>_ s. Some s) 2000 z = Some (z', lz)"
    "map (\<lambda>q. unat (rbt_expires t q)) lt = [1005]" "map (\<lambda>q. unat (zsl_key z q)) lz = [1005]"
    "map (\<lambda>q. unat (key (mht_ents ?h) q)) lh = [1005]"
    using timers_fire_alike [OF single_heap_wf t(1) zsl_rep_wf [OF z(1)] _ _ _ _ _ _ harmless_quiet
        rbt_adding_harmless [of 1000 2000 50 3 0] harmless_quiet, of "{#1005#}"] h t(2,3) z(2) zsl_rep_list [OF z(1)]
    by auto
  have "lh = [1]" using *(6) by (auto simp: key_def ex_entry_def split: if_splits)
  with * show ?thesis by (intro exI [of _ ?h] exI [of _ t] exI [of _ z] exI [of _ h'] exI [of _ t'] exI [of _ z'] exI [of _ lt] exI [of _ lz]) simp
qed

end
